(* ===== verification/Prelude.thy ===== *)
theory Prelude
  imports Main "HOL-Library.Word" "HOL-Library.Sublist"
begin

text \<open>
  What every component shares: bytes and C strings, the result of a program run, the kernel's
  view of an open file (\<open>fdesc\<close>, with short reads and interrupted or failing reads as a list
  of events), the interface of a sequential reader as a locale, and generic list lemmas.

  A C \<open>char\<close> is a HOL \<^typ>\<open>char\<close> (eight bits); \<open>c & 0377\<close> is \<open>uchar c\<close>, the value of a
  plain (signed) \<open>char\<close> is \<open>schar c\<close>.  \<open>EOF\<close> is the integer -1.
\<close>

named_theorems uchar_simps
named_theorems reader_simps

section \<open>Bytes and C strings\<close>

type_synonym cstring = string

abbreviation NUL :: char where "NUL \<equiv> CHR 0x00"
abbreviation NL :: char where "NL \<equiv> CHR 0x0A"
abbreviation TAB :: char where "TAB \<equiv> CHR 0x09"
abbreviation eof :: int where "eof \<equiv> -1"

definition uchar :: "char \<Rightarrow> int" where
  "uchar c = of_char c"

definition schar :: "char \<Rightarrow> int" where
  "schar c = (if uchar c < 128 then uchar c else uchar c - 256)"

definition to_char :: "int \<Rightarrow> char" where
  "to_char i = char_of (nat (i mod 256))"

text \<open>The C string that starts at the first byte of a buffer: everything before the first NUL.\<close>

definition cstr :: "string \<Rightarrow> cstring" where
  "cstr s = takeWhile (\<lambda>c. c \<noteq> NUL) s"

lemma uchar_nat: "uchar c = int (of_char c)"
  by (simp add: uchar_def of_char_def)

lemma uchar_range [simp]: "0 \<le> uchar c" "uchar c < 256" "uchar c \<noteq> eof" "eof \<noteq> uchar c"
proof -
  have "(of_char c :: nat) < 256" by simp
  then have "int (of_char c) < int 256" unfolding of_nat_less_iff .
  then show "0 \<le> uchar c" "uchar c < 256" "uchar c \<noteq> eof" "eof \<noteq> uchar c"
    by (simp_all add: uchar_nat)
qed

lemma uchar_inj [simp]: "uchar c = uchar d \<longleftrightarrow> c = d"
  by (simp add: uchar_nat)

lemma uchar_pos: "c \<noteq> NUL \<Longrightarrow> 0 < uchar c"
proof -
  assume "c \<noteq> NUL"
  then have "uchar c \<noteq> uchar NUL" by simp
  then show ?thesis using uchar_range(1) [of c] by (simp add: uchar_def less_le)
qed

lemma uchar_NL: "uchar a = 10 \<longleftrightarrow> a = NL"
proof -
  have "uchar NL = 10" by (simp add: uchar_def)
  then show ?thesis by (metis uchar_inj)
qed

lemma to_char_uchar [simp]: "to_char (uchar c) = c"
proof -
  have "uchar c mod 256 = uchar c" by (simp add: mod_pos_pos_trivial)
  then show ?thesis by (simp add: to_char_def uchar_nat)
qed

lemma schar_range: "-128 \<le> schar c" "schar c \<le> 127"
  using uchar_range [of c] by (auto simp: schar_def simp del: uchar_range)

lemma schar_inj [simp]: "schar c = schar d \<longleftrightarrow> c = d"
proof
  assume "schar c = schar d"
  with uchar_range [of c] uchar_range [of d] have "uchar c = uchar d"
    by (auto simp: schar_def simp del: uchar_range uchar_inj split: if_splits)
  then show "c = d" by simp
qed simp

lemma cstr_Nil [simp]: "cstr [] = []"
  by (simp add: cstr_def)

lemma cstr_Cons [simp]: "cstr (c # s) = (if c = NUL then [] else c # cstr s)"
  by (simp add: cstr_def)

lemma cstr_id [simp]: "NUL \<notin> set s \<Longrightarrow> cstr s = s"
  by (simp add: cstr_def) (metis takeWhile_eq_all_conv)

section \<open>Program runs\<close>

text \<open>
  What a run of a utility leaves behind: the bytes on standard output and standard error and
  the exit status.
\<close>

record outcome =
  out :: string
  err :: string
  status :: int

text \<open>Many utilities are compiled three times: for System V, with \<open>SUS\<close> and with \<open>UCB\<close> defined.\<close>

datatype variant = SV | SUS | UCB

section \<open>Open files\<close>

text \<open>
  An open file description: the bytes of the file, the read position, whether \<open>lseek\<close> works on
  it, the \<open>st_blksize\<close> that \<open>fstat\<close> reports for it, and what the kernel will do at the next calls of \<open>read\<close>: deliver at most \<open>k\<close> bytes
  (\<open>RShort k\<close>, at least one) or fail with an error number (\<open>RErr\<close>).  When the list of events is
  used up every call delivers as much as is asked for and available.
\<close>

datatype rdev = RShort nat | RErr int

record fdesc =
  fd_file :: string
  fd_pos :: nat
  fd_seekable :: bool
  fd_stblk :: int
  fd_evs :: "rdev list"

datatype rdres = ROk string | RFail int

abbreviation EINTR :: int where "EINTR \<equiv> 4"

definition fd_take :: "nat \<Rightarrow> fdesc \<Rightarrow> rdres \<times> fdesc" where
  "fd_take n fd =
     (let bs = take n (drop (fd_pos fd) (fd_file fd))
      in (ROk bs, fd\<lparr>fd_pos := fd_pos fd + length bs\<rparr>))"

definition sys_read :: "nat \<Rightarrow> fdesc \<Rightarrow> rdres \<times> fdesc" where
  "sys_read n fd =
     (case fd_evs fd of
        [] \<Rightarrow> fd_take n fd
      | RShort k # es \<Rightarrow> fd_take (min n (max 1 k)) (fd\<lparr>fd_evs := es\<rparr>)
      | RErr e # es \<Rightarrow> (RFail e, fd\<lparr>fd_evs := es\<rparr>))"

text \<open>The bytes from the read position on, and descriptors on which no read fails for good.\<close>

definition fd_rest :: "fdesc \<Rightarrow> string" where
  "fd_rest fd = drop (fd_pos fd) (fd_file fd)"

definition fd_good :: "fdesc \<Rightarrow> bool" where
  "fd_good fd \<longleftrightarrow> (\<forall>e. RErr e \<in> set (fd_evs fd) \<longrightarrow> e = EINTR)"

definition fd_size :: "fdesc \<Rightarrow> nat" where
  "fd_size fd = length (fd_rest fd) + length (fd_evs fd)"

definition mk_fd :: "string \<Rightarrow> fdesc" where
  "mk_fd s = \<lparr>fd_file = s, fd_pos = 0, fd_seekable = True, fd_stblk = 4096, fd_evs = []\<rparr>"

lemma mk_fd_simps [simp]: "fd_rest (mk_fd s) = s" "fd_good (mk_fd s)"
  by (simp_all add: mk_fd_def fd_rest_def fd_good_def)

lemma fd_take_ok:
  "fd_take n fd = (ROk (take n (fd_rest fd)), fd\<lparr>fd_pos := fd_pos fd + length (take n (fd_rest fd))\<rparr>)"
  by (simp add: fd_take_def fd_rest_def Let_def)

lemma fd_rest_adv [simp]:
  "fd_rest (fd\<lparr>fd_pos := fd_pos fd + k\<rparr>) = drop k (fd_rest fd)"
  "fd_rest (fd\<lparr>fd_evs := es\<rparr>) = fd_rest fd"
  by (simp_all add: fd_rest_def add.commute)

lemma fd_take_laws:
  assumes "fd_take n fd = (r, fd')" and "0 < n"
  shows "r = ROk (take n (fd_rest fd))" "fd_rest fd = take n (fd_rest fd) @ fd_rest fd'"
    "fd_pos fd' = fd_pos fd + length (take n (fd_rest fd))" "fd_file fd' = fd_file fd"
    "fd_seekable fd' = fd_seekable fd" "fd_evs fd' = fd_evs fd"
  using assms by (auto simp: fd_take_ok simp del: length_take) (simp add: min_def)

text \<open>A successful read delivers a prefix of what is left, nonempty unless nothing is left.\<close>

lemma sys_read_ok:
  assumes "sys_read n fd = (ROk bs, fd')" and "0 < n"
  shows "fd_rest fd = bs @ fd_rest fd'" "bs = [] \<longleftrightarrow> fd_rest fd = []" "length bs \<le> n"
    "fd_pos fd' = fd_pos fd + length bs" "fd_file fd' = fd_file fd"
    "fd_seekable fd' = fd_seekable fd" "set (fd_evs fd') \<subseteq> set (fd_evs fd)"
    "length (fd_evs fd') \<le> length (fd_evs fd)"
proof -
  obtain m fd0 where t: "fd_take m fd0 = (ROk bs, fd')" and m: "0 < m" "m \<le> n"
    and fd0: "fd_rest fd0 = fd_rest fd" "fd_pos fd0 = fd_pos fd" "fd_file fd0 = fd_file fd"
    "fd_seekable fd0 = fd_seekable fd" "set (fd_evs fd0) \<subseteq> set (fd_evs fd)"
    "length (fd_evs fd0) \<le> length (fd_evs fd)"
  proof (cases "fd_evs fd")
    case Nil
    with assms that [of n fd] show ?thesis by (simp add: sys_read_def)
  next
    case (Cons e es)
    with assms obtain k where "e = RShort k" by (cases e) (auto simp: sys_read_def)
    with Cons assms that [of "min n (max 1 k)" "fd\<lparr>fd_evs := es\<rparr>"] show ?thesis
      by (fastforce simp: sys_read_def less_max_iff_disj)
  qed
  note l = fd_take_laws [OF t m(1), unfolded fd0(1-4)]
  from l(1) have bs: "bs = take m (fd_rest fd)" by simp
  show "fd_rest fd = bs @ fd_rest fd'" "bs = [] \<longleftrightarrow> fd_rest fd = []" "length bs \<le> n"
    "fd_pos fd' = fd_pos fd + length bs" "fd_file fd' = fd_file fd"
    "fd_seekable fd' = fd_seekable fd" "set (fd_evs fd') \<subseteq> set (fd_evs fd)"
    "length (fd_evs fd') \<le> length (fd_evs fd)"
    using l(2-6) m fd0(5,6) unfolding bs by auto
qed

lemma sys_read_good: "sys_read n fd = (ROk bs, fd') \<Longrightarrow> 0 < n \<Longrightarrow> fd_good fd \<Longrightarrow> fd_good fd'"
  using sys_read_ok(7) [of n fd bs fd'] by (auto simp: fd_good_def)

lemma sys_read_fail:
  assumes "sys_read n fd = (RFail e, fd')"
  shows "fd_rest fd' = fd_rest fd" "fd_pos fd' = fd_pos fd" "fd_file fd' = fd_file fd"
    "fd_seekable fd' = fd_seekable fd" "length (fd_evs fd') < length (fd_evs fd)"
    "set (fd_evs fd') \<subseteq> set (fd_evs fd)" "RErr e \<in> set (fd_evs fd)"
  using assms by (auto simp: sys_read_def fd_take_ok split: list.splits rdev.splits)

lemma sys_read_fail_good: "sys_read n fd = (RFail e, fd') \<Longrightarrow> fd_good fd \<Longrightarrow> e = EINTR \<and> fd_good fd'"
  using sys_read_fail(6,7) [of n fd e fd'] by (auto simp: fd_good_def)

lemma sys_read_size: "sys_read n fd = (ROk bs, fd') \<Longrightarrow> fd_size fd' + length bs \<le> fd_size fd"
  by (auto simp: sys_read_def fd_take_ok fd_size_def fd_rest_def min_def split: list.splits rdev.splits)

text \<open>The files a program can open, by name; \<open>None\<close> where \<open>open\<close> fails.\<close>

type_synonym filesys = "string \<Rightarrow> fdesc option"

section \<open>Sequential readers\<close>

text \<open>
  The interface the utilities use to consume their input: \<open>get\<close> delivers the next item or
  nothing at the end, \<open>rest\<close> is the list of items still to come, and \<open>loop\<close> is the loop
  \<open>while ((c = get(ip)) != EOF) body\<close>.  Whatever provides the three and keeps the laws, a
  client's loop is a fold over the items of its input.
\<close>

locale reader =
  fixes get :: "'s \<Rightarrow> ('a \<times> 's) option"
    and rest :: "'s \<Rightarrow> 'a list"
    and good :: "'s \<Rightarrow> bool"
    and loop :: "('a \<Rightarrow> 'b \<Rightarrow> 'b) \<Rightarrow> 's \<Rightarrow> 'b \<Rightarrow> 'b"
  assumes get_None: "good s \<Longrightarrow> get s = None \<longleftrightarrow> rest s = []"
    and get_Some: "good s \<Longrightarrow> get s = Some (a, s') \<Longrightarrow> rest s = a # rest s' \<and> good s'"
    and loop_step: "loop f s b = (case get s of None \<Rightarrow> b | Some (a, s') \<Rightarrow> loop f s' (f a b))"
begin

lemma get_Nil: "good s \<Longrightarrow> rest s = [] \<Longrightarrow> get s = None"
  by (simp add: get_None)

lemma get_Cons:
  assumes "good s" and "rest s = a # as"
  obtains s' where "get s = Some (a, s')" "rest s' = as" "good s'"
proof -
  from assms have "get s \<noteq> None" by (simp add: get_None)
  then obtain a' s' where g: "get s = Some (a', s')" by auto
  from get_Some [OF assms(1) g] assms(2) g that show ?thesis by auto
qed

lemma loop_fold: "good s \<Longrightarrow> loop f s b = fold f (rest s) b"
proof (induction "rest s" arbitrary: s b)
  case Nil
  then show ?case by (simp add: loop_step [of f s] get_Nil)
next
  case (Cons a as)
  from \<open>good s\<close> \<open>a # as = rest s\<close> obtain s' where
    s': "get s = Some (a, s')" "rest s' = as" "good s'" by (metis get_Cons)
  then have "loop f s' (f a b) = fold f as (f a b)" using Cons.hyps(1) by metis
  with s' Cons.hyps(2) [symmetric] show ?case by (simp add: loop_step [of f s])
qed

end

section \<open>Buffered writers\<close>

text \<open>
  The interface of a buffered output: \<open>accepted\<close> is what the device has got, \<open>pending\<close> what is
  still buffered.  \<open>live\<close> are the states in which no write has failed, \<open>good\<close> those whose device
  never fails.  A client that writes a list of strings and flushes has written exactly them.
\<close>

locale writer =
  fixes put :: "'s \<Rightarrow> string \<Rightarrow> int \<times> 's"
    and flush :: "'s \<Rightarrow> int \<times> 's"
    and accepted :: "'s \<Rightarrow> string"
    and pending :: "'s \<Rightarrow> string"
    and live :: "'s \<Rightarrow> bool"
    and good :: "'s \<Rightarrow> bool"
  assumes put_ok: "live s \<Longrightarrow> put s d = (r, s') \<Longrightarrow> r \<noteq> -1 \<Longrightarrow>
      accepted s' @ pending s' = accepted s @ pending s @ d \<and> live s'"
    and flush_ok: "live s \<Longrightarrow> flush s = (r, s') \<Longrightarrow> r \<noteq> -1 \<Longrightarrow>
      accepted s' = accepted s @ pending s \<and> pending s' = [] \<and> live s'"
    and put_good: "live s \<Longrightarrow> good s \<Longrightarrow> fst (put s d) \<noteq> -1 \<and> good (snd (put s d))"
    and flush_good: "live s \<Longrightarrow> good s \<Longrightarrow> fst (flush s) \<noteq> -1 \<and> good (snd (flush s))"
begin

lemma puts_ok:
  "live s \<Longrightarrow> good s \<Longrightarrow>
     accepted (fold (\<lambda>d s. snd (put s d)) ds s) @ pending (fold (\<lambda>d s. snd (put s d)) ds s) =
       accepted s @ pending s @ concat ds \<and>
     live (fold (\<lambda>d s. snd (put s d)) ds s) \<and> good (fold (\<lambda>d s. snd (put s d)) ds s)"
proof (induction ds arbitrary: s)
  case (Cons d ds)
  obtain r s' where p: "put s d = (r, s')" by fastforce
  with put_good [OF Cons.prems, of d] have "r \<noteq> -1" "good s'" by auto
  with put_ok [OF Cons.prems(1) p] Cons.IH [of s'] show ?case by (simp add: p)
qed simp

lemma puts_flush:
  assumes "live s" "good s"
  shows "accepted (snd (flush (fold (\<lambda>d s. snd (put s d)) ds s))) =
    accepted s @ pending s @ concat ds"
proof -
  let ?s = "fold (\<lambda>d s. snd (put s d)) ds s"
  note p = puts_ok [OF assms, of ds]
  obtain r s' where f: "flush ?s = (r, s')" by fastforce
  with flush_good [of ?s] p have "r \<noteq> -1" by auto
  with flush_ok [OF _ f] p show ?thesis by (simp add: f)
qed

end

section \<open>Lists\<close>

lemma takeWhile_neq_append [simp]:
  "x \<notin> set a \<Longrightarrow> takeWhile (\<lambda>c. c \<noteq> x) (a @ b) = a @ takeWhile (\<lambda>c. c \<noteq> x) b"
  by (induction a) auto

lemma takeWhile_neq_id [simp]: "x \<notin> set a \<Longrightarrow> takeWhile (\<lambda>c. c \<noteq> x) a = a"
  using takeWhile_neq_append [of x a "[]"] by simp

text \<open>Strings put together with a separator between them.\<close>

fun join :: "string \<Rightarrow> string list \<Rightarrow> string" where
  "join d [] = []"
| "join d [x] = x"
| "join d (x # xs) = x @ d @ join d xs"

text \<open>A list cut at its separators.\<close>

fun splitp :: "('a \<Rightarrow> bool) \<Rightarrow> 'a list \<Rightarrow> 'a list list" where
  "splitp P [] = [[]]"
| "splitp P (x # xs) =
     (if P x then [] # splitp P xs
      else case splitp P xs of [] \<Rightarrow> [[x]] | l # ls \<Rightarrow> (x # l) # ls)"

lemma splitp_ne [simp]: "splitp P xs \<noteq> []"
  by (induction xs) (auto split: list.splits)

lemma splitp_none [simp]: "(\<And>x. x \<in> set xs \<Longrightarrow> \<not> P x) \<Longrightarrow> splitp P xs = [xs]"
  by (induction xs) auto

lemma splitp_app: "(\<And>x. x \<in> set xs \<Longrightarrow> \<not> P x) \<Longrightarrow> P y \<Longrightarrow> splitp P (xs @ y # ys) = xs # splitp P ys"
  by (induction xs) auto

lemma splitp_cut: "P y \<Longrightarrow> splitp P (xs @ y # ys) = splitp P xs @ splitp P ys"
  by (induction xs) (auto split: list.splits)

lemma split_first:
  obtains "\<And>x. x \<in> set xs \<Longrightarrow> \<not> P x"
  | as y bs where "xs = as @ y # bs" "\<And>x. x \<in> set as \<Longrightarrow> \<not> P x" "P y"
  by (metis split_list_first_prop)

section \<open>Lines\<close>

text \<open>A text as its lines, each with its newline; the last one may lack it.\<close>

fun lines_of :: "string \<Rightarrow> string list" where
  "lines_of [] = []"
| "lines_of (c # cs) =
     (if c = NL then [NL] # lines_of cs
      else case lines_of cs of [] \<Rightarrow> [[c]] | l # ls \<Rightarrow> (c # l) # ls)"

lemma concat_lines_of [simp]: "concat (lines_of s) = s"
  by (induction s) (auto split: list.splits)

lemma lines_of_eq_Nil [simp]: "lines_of s = [] \<longleftrightarrow> s = []"
  by (cases s) (auto split: list.splits)

lemma lines_of_NL: "NL \<notin> set l \<Longrightarrow> lines_of (l @ NL # s) = (l @ [NL]) # lines_of s"
  by (induction l) auto

lemma lines_of_terminated:
  "(\<And>l. l \<in> set ls \<Longrightarrow> NL \<notin> set l) \<Longrightarrow>
     lines_of (concat (map (\<lambda>l. l @ [NL]) ls)) = map (\<lambda>l. l @ [NL]) ls"
  by (induction ls) (simp_all add: lines_of_NL)

lemma lines_of_last: "NL \<notin> set l \<Longrightarrow> l \<noteq> [] \<Longrightarrow> lines_of l = [l]"
proof (induction l)
  case (Cons c l)
  then show ?case by (cases l) auto
qed simp

lemma lines_of_nonempty: "l \<in> set (lines_of s) \<Longrightarrow> l \<noteq> []"
  by (induction s arbitrary: l) (auto split: list.splits if_splits)

lemma lines_of_butlast: "l \<in> set (lines_of s) \<Longrightarrow> NL \<notin> set (butlast l)"
proof (induction s arbitrary: l)
  case (Cons c cs)
  show ?case
  proof (cases "lines_of cs")
    case Nil
    with Cons.prems show ?thesis by (auto split: if_splits)
  next
    case (Cons m ms)
    with Cons.IH have "NL \<notin> set (butlast m)" "\<And>k. k \<in> set ms \<Longrightarrow> NL \<notin> set (butlast k)" by auto
    with Cons.prems Cons show ?thesis by (auto split: if_splits)
  qed
qed simp

end
