(* ===== verification/Iblok.thy ===== *)
theory Iblok
  imports Prelude
begin

text \<open>
  The buffered input of \<open>libcommon\<close> (\<open>iblok.h\<close>, \<open>ib_*.c\<close>), through which most of the utilities
  read.  \<open>ib_blk\<close> holds the bytes of the last \<open>read\<close>, \<open>ib_cur\<close> and \<open>ib_end\<close> are offsets into it;
  \<open>ib_null\<close> says that both pointers are NULL.  \<open>ib_mbuf\<close> holds the bytes of the multibyte overflow
  buffer, \<open>ib_mcur\<close> and \<open>ib_mend\<close> are offsets into it (0 for NULL).  \<open>ib_fd\<close> is the open file
  itself.  The locale-dependent \<open>mbtowc\<close> is a parameter of \<open>ib_getw\<close>.
\<close>

section \<open>The data\<close>

record iblok =
  ib_endoff :: int
  ib_mbuf :: string
  ib_mcur :: nat
  ib_mend :: nat
  ib_blk :: string
  ib_cur :: nat
  ib_end :: nat
  ib_null :: bool
  ib_fd :: fdesc
  ib_errno :: int
  ib_incompl :: bool
  ib_mb_cur_max :: nat
  ib_seekable :: bool
  ib_blksize :: nat

text \<open>
  \<open>ib_alloc(fd, blksize)\<close>; the structure is cleared by \<open>calloc\<close>.  \<open>fstat\<close> on an open descriptor
  and the allocations succeed, so the result is never NULL.  \<open>ib_open\<close> is NULL when \<open>open\<close> fails.
\<close>

definition ib_alloc :: "nat \<Rightarrow> fdesc \<Rightarrow> nat \<Rightarrow> iblok" where
  "ib_alloc mb_cur_max fd blksize =
     (let b = (if blksize = 0 then (if fd_stblk fd > 0 then nat (fd_stblk fd) else 512) else blksize)
      in \<lparr>ib_endoff = 0, ib_mbuf = [], ib_mcur = 0, ib_mend = 0, ib_blk = [], ib_cur = 0,
          ib_end = 0, ib_null = True, ib_fd = fd, ib_errno = 0, ib_incompl = False,
          ib_mb_cur_max = mb_cur_max, ib_seekable = False, ib_blksize = b\<rparr>)"

definition ib_open :: "nat \<Rightarrow> filesys \<Rightarrow> string \<Rightarrow> nat \<Rightarrow> iblok option" where
  "ib_open mb_cur_max fs name blksize =
     (case fs name of None \<Rightarrow> None | Some fd \<Rightarrow> Some (ib_alloc mb_cur_max fd blksize))"

section \<open>Reading bytes\<close>

text \<open>The \<open>do ... while (sz < 0 && errno == EINTR)\<close> loop of \<open>ib_read\<close>.\<close>

function ib_read_loop :: "nat \<Rightarrow> fdesc \<Rightarrow> rdres \<times> fdesc" where
  "ib_read_loop n fd =
     (case sys_read n fd of
        (RFail e, fd') \<Rightarrow> if e = EINTR then ib_read_loop n fd' else (RFail e, fd')
      | (ROk bs, fd') \<Rightarrow> (ROk bs, fd'))"
  by pat_completeness auto
termination
  by (relation "measure (\<lambda>(n, fd). length (fd_evs fd))") (auto dest!: sys_read_fail(5) [OF sym])

declare ib_read_loop.simps [simp del]

definition ib_read :: "iblok \<Rightarrow> int \<times> iblok" where
  "ib_read ip =
     (case ib_read_loop (ib_blksize ip) (ib_fd ip) of
        (ROk (b # bs), fd) \<Rightarrow>
          (uchar b,
           ip\<lparr>ib_fd := fd, ib_endoff := ib_endoff ip + int (length (b # bs)),
              ib_blk := b # bs, ib_cur := 1, ib_end := length (b # bs), ib_null := False\<rparr>)
      | (ROk [], fd) \<Rightarrow>
          (eof, ip\<lparr>ib_fd := fd, ib_blk := [], ib_cur := 0, ib_end := 0, ib_null := True\<rparr>)
      | (RFail e, fd) \<Rightarrow>
          (eof, ip\<lparr>ib_fd := fd, ib_errno := e, ib_blk := [], ib_cur := 0, ib_end := 0,
                   ib_null := True\<rparr>))"

definition ib_get :: "iblok \<Rightarrow> int \<times> iblok" where
  "ib_get ip =
     (if ib_cur ip < ib_end ip
      then (uchar (ib_blk ip ! ib_cur ip), ip\<lparr>ib_cur := ib_cur ip + 1\<rparr>)
      else ib_read ip)"

definition ib_unget :: "char \<Rightarrow> iblok \<Rightarrow> iblok" where
  "ib_unget c ip =
     ip\<lparr>ib_blk := (ib_blk ip)[ib_cur ip - 1 := c], ib_cur := ib_cur ip - 1\<rparr>"

definition ib_offs :: "iblok \<Rightarrow> int" where
  "ib_offs ip = ib_endoff ip - (int (ib_end ip) - int (ib_cur ip) - 1)"

text \<open>
  What is still to be delivered byte by byte, the states \<open>ib_get\<close> keeps (the buffer has
  \<open>ib_end\<close> bytes and is nonempty unless the pointers are NULL; the block size is positive), and
  a bound on the number of further reads.
\<close>

definition ib_rest :: "iblok \<Rightarrow> string" where
  "ib_rest ip = drop (ib_cur ip) (ib_blk ip) @ fd_rest (ib_fd ip)"

definition ib_wf :: "iblok \<Rightarrow> bool" where
  "ib_wf ip \<longleftrightarrow> ib_end ip = length (ib_blk ip) \<and> ib_cur ip \<le> ib_end ip \<and> 0 < ib_blksize ip \<and>
     (ib_null ip \<longrightarrow> ib_end ip = 0)"

definition ib_good :: "iblok \<Rightarrow> bool" where
  "ib_good ip \<longleftrightarrow> ib_wf ip \<and> fd_good (ib_fd ip)"

definition ib_size :: "iblok \<Rightarrow> nat" where
  "ib_size ip = (ib_end ip - ib_cur ip) + fd_size (ib_fd ip)"

text \<open>
  The retry loop ends with the first call of \<open>read\<close> that is not interrupted; the interrupted
  calls before it change nothing but the list of events.
\<close>

definition fd_retry :: "fdesc \<Rightarrow> fdesc \<Rightarrow> bool" where
  "fd_retry fd fd' \<longleftrightarrow> fd_rest fd' = fd_rest fd \<and> fd_pos fd' = fd_pos fd \<and> fd_file fd' = fd_file fd \<and>
     fd_seekable fd' = fd_seekable fd \<and> set (fd_evs fd') \<subseteq> set (fd_evs fd) \<and>
     length (fd_evs fd') \<le> length (fd_evs fd)"

lemma fd_retry_good: "fd_retry fd fd' \<Longrightarrow> fd_good fd \<Longrightarrow> fd_good fd'"
  by (auto simp: fd_retry_def fd_good_def)

lemma fd_retry_size: "fd_retry fd fd' \<Longrightarrow> fd_size fd' \<le> fd_size fd"
  by (simp add: fd_retry_def fd_size_def)

lemma ib_read_loop_last:
  "\<exists>fd1. fd_retry fd fd1 \<and> sys_read n fd1 = ib_read_loop n fd \<and> fst (ib_read_loop n fd) \<noteq> RFail EINTR"
proof (induction n fd rule: ib_read_loop.induct)
  case (1 n fd)
  obtain r fd1 where r: "sys_read n fd = (r, fd1)" by fastforce
  show ?case
  proof (cases "r = RFail EINTR")
    case True
    from "1" [OF r [symmetric] True refl] obtain fd2 where
      "fd_retry fd1 fd2" "sys_read n fd2 = ib_read_loop n fd1" "fst (ib_read_loop n fd1) \<noteq> RFail EINTR"
      by blast
    moreover have "ib_read_loop n fd = ib_read_loop n fd1"
      using r True by (simp add: ib_read_loop.simps [of n fd])
    moreover have "fd_retry fd fd1"
      using sys_read_fail [OF r [unfolded True]] by (auto simp: fd_retry_def)
    ultimately show ?thesis by (fastforce simp: fd_retry_def)
  next
    case False
    then have "ib_read_loop n fd = (r, fd1)"
      using r by (cases r) (auto simp: ib_read_loop.simps [of n fd])
    with r False show ?thesis by (intro exI [of _ fd]) (auto simp: fd_retry_def)
  qed
qed

lemma ib_read_loop_ok:
  assumes "ib_read_loop n fd = (ROk bs, fd')" and "0 < n"
  shows "fd_rest fd = bs @ fd_rest fd'" "bs = [] \<longleftrightarrow> fd_rest fd = []" "length bs \<le> n"
    "fd_pos fd' = fd_pos fd + length bs" "fd_file fd' = fd_file fd"
    "fd_size fd' + length bs \<le> fd_size fd" "fd_good fd \<Longrightarrow> fd_good fd'"
proof -
  from ib_read_loop_last [of fd n] assms obtain fd1 where
    r: "fd_retry fd fd1" and s: "sys_read n fd1 = (ROk bs, fd')" by auto
  note ok = sys_read_ok [OF s assms(2)]
  show "fd_rest fd = bs @ fd_rest fd'" "bs = [] \<longleftrightarrow> fd_rest fd = []" "length bs \<le> n"
    "fd_pos fd' = fd_pos fd + length bs" "fd_file fd' = fd_file fd"
    using r ok(1-5) by (auto simp: fd_retry_def)
  show "fd_size fd' + length bs \<le> fd_size fd"
    using sys_read_size [OF s] fd_retry_size [OF r] by simp
  show "fd_good fd \<Longrightarrow> fd_good fd'"
    using sys_read_good [OF s assms(2)] fd_retry_good [OF r] by blast
qed

lemma ib_read_loop_fail:
  assumes "ib_read_loop n fd = (RFail e, fd')"
  shows "fd_rest fd' = fd_rest fd" "fd_size fd' \<le> fd_size fd" "e \<noteq> EINTR" "\<not> fd_good fd"
proof -
  from ib_read_loop_last [of fd n] assms obtain fd1 where
    r: "fd_retry fd fd1" and s: "sys_read n fd1 = (RFail e, fd')" and e: "e \<noteq> EINTR" by auto
  note f = sys_read_fail [OF s]
  show "fd_rest fd' = fd_rest fd" "fd_size fd' \<le> fd_size fd"
    using r f(1,5) by (auto simp: fd_retry_def fd_size_def)
  show "e \<noteq> EINTR" by (fact e)
  show "\<not> fd_good fd" using sys_read_fail_good [OF s] fd_retry_good [OF r] e by blast
qed

lemma ib_read_cases:
  obtains (data) b bs fd' where "ib_read_loop (ib_blksize ip) (ib_fd ip) = (ROk (b # bs), fd')"
      "ib_read ip = (uchar b,
         ip\<lparr>ib_fd := fd', ib_endoff := ib_endoff ip + int (length (b # bs)),
            ib_blk := b # bs, ib_cur := 1, ib_end := length (b # bs), ib_null := False\<rparr>)"
  | (eof) fd' where "ib_read_loop (ib_blksize ip) (ib_fd ip) = (ROk [], fd')"
      "ib_read ip = (eof, ip\<lparr>ib_fd := fd', ib_blk := [], ib_cur := 0, ib_end := 0, ib_null := True\<rparr>)"
  | (fail) e fd' where "ib_read_loop (ib_blksize ip) (ib_fd ip) = (RFail e, fd')"
      "ib_read ip = (eof, ip\<lparr>ib_fd := fd', ib_errno := e, ib_blk := [], ib_cur := 0, ib_end := 0,
                             ib_null := True\<rparr>)"
proof (cases "ib_read_loop (ib_blksize ip) (ib_fd ip)")
  case (Pair r fd')
  then show thesis
  proof (cases r)
    case (ROk bs)
    with Pair that show thesis by (cases bs) (auto simp: ib_read_def)
  next
    case (RFail e)
    with Pair that show thesis by (auto simp: ib_read_def)
  qed
qed

text \<open>
  \<open>ib_get\<close> delivers exactly the bytes that are left, in order, however the kernel splits them
  into reads and however often a read is interrupted.
\<close>

lemma ib_read_good:
  assumes "ib_good ip" "ib_cur ip = ib_end ip"
  shows "ib_good (snd (ib_read ip))"
    "fst (ib_read ip) = eof \<longleftrightarrow> ib_rest ip = []"
    "fst (ib_read ip) \<noteq> eof \<Longrightarrow>
       ib_rest ip = to_char (fst (ib_read ip)) # ib_rest (snd (ib_read ip)) \<and>
       fst (ib_read ip) = uchar (to_char (fst (ib_read ip))) \<and> ib_cur (snd (ib_read ip)) = 1"
    "fst (ib_read ip) = eof \<Longrightarrow> ib_rest (snd (ib_read ip)) = []"
proof -
  from assms have b: "0 < ib_blksize ip" and g: "fd_good (ib_fd ip)"
    and r: "ib_rest ip = fd_rest (ib_fd ip)"
    by (auto simp: ib_good_def ib_wf_def ib_rest_def)
  have "ib_good (snd (ib_read ip)) \<and> (fst (ib_read ip) = eof \<longleftrightarrow> ib_rest ip = []) \<and>
    (fst (ib_read ip) \<noteq> eof \<longrightarrow>
       ib_rest ip = to_char (fst (ib_read ip)) # ib_rest (snd (ib_read ip)) \<and>
       fst (ib_read ip) = uchar (to_char (fst (ib_read ip))) \<and> ib_cur (snd (ib_read ip)) = 1) \<and>
    (fst (ib_read ip) = eof \<longrightarrow> ib_rest (snd (ib_read ip)) = [])"
  proof (cases ip rule: ib_read_cases)
    case (data c bs fd')
    from ib_read_loop_ok [OF data(1) b] g r data(2) b show ?thesis
      by (auto simp: ib_good_def ib_wf_def ib_rest_def)
  next
    case (eof fd')
    from ib_read_loop_ok [OF eof(1) b] g r eof(2) b show ?thesis
      by (auto simp: ib_good_def ib_wf_def ib_rest_def)
  next
    case (fail e fd')
    from ib_read_loop_fail [OF fail(1)] g show ?thesis by simp
  qed
  then show "ib_good (snd (ib_read ip))"
    "fst (ib_read ip) = eof \<longleftrightarrow> ib_rest ip = []"
    "fst (ib_read ip) \<noteq> eof \<Longrightarrow>
       ib_rest ip = to_char (fst (ib_read ip)) # ib_rest (snd (ib_read ip)) \<and>
       fst (ib_read ip) = uchar (to_char (fst (ib_read ip))) \<and> ib_cur (snd (ib_read ip)) = 1"
    "fst (ib_read ip) = eof \<Longrightarrow> ib_rest (snd (ib_read ip)) = []"
    by blast+
qed

lemma sys_read_length: "sys_read n fd = (ROk bs, fd') \<Longrightarrow> length bs \<le> n"
  by (auto simp: sys_read_def fd_take_ok split: list.splits rdev.splits)

lemma ib_read_loop_pos: "ib_read_loop n fd = (ROk (b # bs), fd') \<Longrightarrow> 0 < n"
  using ib_read_loop_last [of fd n] sys_read_length by fastforce

lemma ib_read_size:
  assumes "ib_read ip = (c, ip')" and "c \<noteq> eof"
  shows "ib_size ip' < ib_size ip" "ib_size (ip'\<lparr>ib_cur := ib_end ip'\<rparr>) < ib_size ip"
    "ib_cur ip' = 1" "0 < ib_end ip'" "ib_end ip' = length (ib_blk ip')"
proof -
  have "ib_size ip' < ib_size ip \<and> ib_size (ip'\<lparr>ib_cur := ib_end ip'\<rparr>) < ib_size ip \<and>
    ib_cur ip' = 1 \<and> 0 < ib_end ip' \<and> ib_end ip' = length (ib_blk ip')"
  proof (cases ip rule: ib_read_cases)
    case (data b bs fd')
    from ib_read_loop_ok(6) [OF data(1) ib_read_loop_pos [OF data(1)]]
    have "fd_size fd' + length (b # bs) \<le> fd_size (ib_fd ip)" .
    with data(2) assms show ?thesis by (auto simp: ib_size_def)
  qed (use assms in auto)
  then show "ib_size ip' < ib_size ip" "ib_size (ip'\<lparr>ib_cur := ib_end ip'\<rparr>) < ib_size ip"
    "ib_cur ip' = 1" "0 < ib_end ip'" "ib_end ip' = length (ib_blk ip')" by blast+
qed

lemma ib_read_frame:
  "ib_mb_cur_max (snd (ib_read ip)) = ib_mb_cur_max ip" "ib_incompl (snd (ib_read ip)) = ib_incompl ip"
  "ib_mbuf (snd (ib_read ip)) = ib_mbuf ip" "ib_mcur (snd (ib_read ip)) = ib_mcur ip"
  "ib_mend (snd (ib_read ip)) = ib_mend ip" "ib_seekable (snd (ib_read ip)) = ib_seekable ip"
  "ib_blksize (snd (ib_read ip)) = ib_blksize ip"
  by (cases ip rule: ib_read_cases; simp)+

lemma ib_get_frame [simp]:
  "ib_mb_cur_max (snd (ib_get ip)) = ib_mb_cur_max ip" "ib_incompl (snd (ib_get ip)) = ib_incompl ip"
  "ib_mbuf (snd (ib_get ip)) = ib_mbuf ip" "ib_mcur (snd (ib_get ip)) = ib_mcur ip"
  "ib_mend (snd (ib_get ip)) = ib_mend ip" "ib_seekable (snd (ib_get ip)) = ib_seekable ip"
  by (simp_all add: ib_get_def ib_read_frame)

lemma ib_get_size: "ib_get ip = (c, ip') \<Longrightarrow> c \<noteq> eof \<Longrightarrow> ib_size ip' < ib_size ip"
  by (auto simp: ib_get_def ib_size_def dest: ib_read_size(1) [unfolded ib_size_def] split: if_splits)

lemma ib_get_good:
  assumes "ib_good ip"
  shows "ib_good (snd (ib_get ip))" "fst (ib_get ip) = eof \<longleftrightarrow> ib_rest ip = []"
    "fst (ib_get ip) \<noteq> eof \<Longrightarrow> ib_rest ip = to_char (fst (ib_get ip)) # ib_rest (snd (ib_get ip))"
    "fst (ib_get ip) = eof \<Longrightarrow> ib_rest (snd (ib_get ip)) = []"
    "fst (ib_get ip) \<noteq> eof \<Longrightarrow> fst (ib_get ip) = uchar (to_char (fst (ib_get ip)))"
proof -
  have "ib_good (snd (ib_get ip)) \<and> (fst (ib_get ip) = eof \<longleftrightarrow> ib_rest ip = []) \<and>
    (fst (ib_get ip) \<noteq> eof \<longrightarrow>
       ib_rest ip = to_char (fst (ib_get ip)) # ib_rest (snd (ib_get ip)) \<and>
       fst (ib_get ip) = uchar (to_char (fst (ib_get ip)))) \<and>
    (fst (ib_get ip) = eof \<longrightarrow> ib_rest (snd (ib_get ip)) = [])"
  proof (cases "ib_cur ip < ib_end ip")
    case True
    with assms have "ib_cur ip < length (ib_blk ip)" by (simp add: ib_good_def ib_wf_def)
    with True assms show ?thesis
      by (auto simp: ib_get_def ib_rest_def ib_good_def ib_wf_def simp flip: Cons_nth_drop_Suc)
  next
    case False
    with assms have "ib_cur ip = ib_end ip" by (simp add: ib_good_def ib_wf_def)
    from ib_read_good [OF assms this] False show ?thesis by (simp add: ib_get_def)
  qed
  then show "ib_good (snd (ib_get ip))" "fst (ib_get ip) = eof \<longleftrightarrow> ib_rest ip = []"
    "fst (ib_get ip) \<noteq> eof \<Longrightarrow> ib_rest ip = to_char (fst (ib_get ip)) # ib_rest (snd (ib_get ip))"
    "fst (ib_get ip) = eof \<Longrightarrow> ib_rest (snd (ib_get ip)) = []"
    "fst (ib_get ip) \<noteq> eof \<Longrightarrow> fst (ib_get ip) = uchar (to_char (fst (ib_get ip)))" by blast+
qed

text \<open>The loop \<open>while ((c = ib_get(ip)) != EOF) body\<close> of the clients.\<close>

definition ib_next :: "iblok \<Rightarrow> (char \<times> iblok) option" where
  "ib_next ip = (case ib_get ip of (c, ip') \<Rightarrow> if c = eof then None else Some (to_char c, ip'))"

lemma ib_next_size: "ib_next ip = Some (c, ip') \<Longrightarrow> ib_size ip' < ib_size ip"
  by (auto simp: ib_next_def dest: ib_get_size split: prod.splits if_splits)

function ib_while_get :: "(char \<Rightarrow> 'b \<Rightarrow> 'b) \<Rightarrow> iblok \<Rightarrow> 'b \<Rightarrow> 'b" where
  "ib_while_get f ip b =
     (case ib_next ip of None \<Rightarrow> b | Some (c, ip') \<Rightarrow> ib_while_get f ip' (f c b))"
  by pat_completeness auto
termination
  by (relation "measure (\<lambda>(f, ip, b). ib_size ip)") (auto dest: ib_next_size)

declare ib_while_get.simps [simp del]

interpretation ibc: reader ib_next ib_rest ib_good ib_while_get
proof
  fix ip a ip' and f :: "char \<Rightarrow> 'b \<Rightarrow> 'b" and b
  show "ib_good ip \<Longrightarrow> (ib_next ip = None) = (ib_rest ip = [])"
    using ib_get_good(2) [of ip] by (auto simp: ib_next_def split: prod.splits if_splits)
  show "ib_good ip \<Longrightarrow> ib_next ip = Some (a, ip') \<Longrightarrow> ib_rest ip = a # ib_rest ip' \<and> ib_good ip'"
    using ib_get_good(1,3) [of ip] by (auto simp: ib_next_def split: prod.splits if_splits)
  show "ib_while_get f ip b = (case ib_next ip of None \<Rightarrow> b | Some (a, s') \<Rightarrow> ib_while_get f s' (f a b))"
    by (simp add: ib_while_get.simps [of f ip b])
qed

section \<open>Reading lines\<close>

text \<open>
  \<open>ib_getlin\<close>.  The result is the line (its length is the returned \<open>size_t\<close>, the empty line
  stands for the return value 0) and the new value of \<open>*alcd\<close>.  \<open>ib_fill\<close> is the part that makes
  sure the buffer holds at least one byte; the comment in the source explains the decrement of
  \<open>ib_cur\<close>.
\<close>

definition ib_fill :: "iblok \<Rightarrow> iblok + iblok" where
  "ib_fill ip =
     (if ib_cur ip \<ge> ib_end ip
      then (case ib_read ip of
              (c, ip') \<Rightarrow> if c = eof then Inl ip' else Inr (ip'\<lparr>ib_cur := ib_cur ip' - 1\<rparr>))
      else Inr ip)"

definition ib_seg :: "iblok \<Rightarrow> string" where
  "ib_seg ip = drop (ib_cur ip) (take (ib_end ip) (ib_blk ip))"

definition grow :: "nat \<Rightarrow> nat \<Rightarrow> nat" where
  "grow nllen alcd = (if nllen > alcd then nllen else alcd)"

lemma ib_fill_size:
  assumes "ib_fill ip = Inr ip'"
  shows "ib_size (ip'\<lparr>ib_cur := ib_end ip'\<rparr>) < ib_size ip"
proof (cases "ib_cur ip \<ge> ib_end ip")
  case True
  with assms obtain c ip1 where r: "ib_read ip = (c, ip1)" "c \<noteq> eof"
    "ip' = ip1\<lparr>ib_cur := ib_cur ip1 - 1\<rparr>"
    by (auto simp: ib_fill_def split: prod.splits if_splits)
  with ib_read_size(2) [OF r(1,2)] show ?thesis by (simp add: ib_size_def)
next
  case False
  with assms show ?thesis by (auto simp: ib_fill_def ib_size_def)
qed

function ib_getlin_loop :: "iblok \<Rightarrow> nat \<Rightarrow> string \<Rightarrow> string \<times> nat \<times> iblok" where
  "ib_getlin_loop ip alcd line =
     (if ib_cur ip \<ge> ib_end ip \<and> ib_incompl ip
      then ([], alcd, ip\<lparr>ib_incompl := False\<rparr>)
      else case ib_fill ip of
        Inl ip' \<Rightarrow>
          (if line \<noteq> [] then (line, alcd, ip'\<lparr>ib_incompl := True\<rparr>) else ([], alcd, ip'))
      | Inr ip' \<Rightarrow>
          (let seg = ib_seg ip'; pre = takeWhile (\<lambda>c. c \<noteq> NL) seg
           in if NL \<in> set seg
              then (line @ pre @ [NL], grow (length line + length pre + 1 + 1) alcd,
                    ip'\<lparr>ib_cur := ib_cur ip' + length pre + 1\<rparr>)
              else ib_getlin_loop (ip'\<lparr>ib_cur := ib_end ip'\<rparr>)
                     (grow (length line + length seg + 1) alcd) (line @ seg)))"
  by pat_completeness auto
termination
  by (relation "measure (\<lambda>(ip, alcd, line). ib_size ip)") (auto dest!: ib_fill_size)

declare ib_getlin_loop.simps [simp del]

definition ib_getlin :: "iblok \<Rightarrow> nat \<Rightarrow> string \<times> nat \<times> iblok" where
  "ib_getlin ip alcd = ib_getlin_loop ip alcd []"

text \<open>States in which a pending incomplete line means that nothing is left to read.\<close>

definition ib_lgood :: "iblok \<Rightarrow> bool" where
  "ib_lgood ip \<longleftrightarrow> ib_good ip \<and> (ib_incompl ip \<longrightarrow> ib_rest ip = [])"

lemma ib_fill_good:
  assumes "ib_good ip"
  shows "ib_fill ip = Inl ip' \<Longrightarrow>
           ib_rest ip = [] \<and> ib_rest ip' = [] \<and> ib_good ip' \<and> ib_incompl ip' = ib_incompl ip"
    "ib_fill ip = Inr ip' \<Longrightarrow> ib_rest ip' = ib_rest ip \<and> ib_good ip' \<and>
       ib_rest ip = ib_seg ip' @ fd_rest (ib_fd ip') \<and> ib_seg ip' \<noteq> [] \<and>
       ib_seg ip' = drop (ib_cur ip') (ib_blk ip') \<and> ib_incompl ip' = ib_incompl ip"
proof -
  assume "ib_fill ip = Inl ip'"
  then obtain c where r: "ib_read ip = (c, ip')" "c = eof" "ib_cur ip \<ge> ib_end ip"
    by (auto simp: ib_fill_def split: prod.splits if_splits)
  with assms have "ib_cur ip = ib_end ip" by (simp add: ib_good_def ib_wf_def)
  from ib_read_good [OF assms this] ib_read_frame(2) [of ip] r
  show "ib_rest ip = [] \<and> ib_rest ip' = [] \<and> ib_good ip' \<and> ib_incompl ip' = ib_incompl ip" by simp
next
  assume f: "ib_fill ip = Inr ip'"
  show "ib_rest ip' = ib_rest ip \<and> ib_good ip' \<and> ib_rest ip = ib_seg ip' @ fd_rest (ib_fd ip') \<and>
    ib_seg ip' \<noteq> [] \<and> ib_seg ip' = drop (ib_cur ip') (ib_blk ip') \<and> ib_incompl ip' = ib_incompl ip"
  proof (cases "ib_cur ip \<ge> ib_end ip")
    case True
    with assms have cur: "ib_cur ip = ib_end ip" by (simp add: ib_good_def ib_wf_def)
    show ?thesis
    proof (cases ip rule: ib_read_cases)
      case (data b bs fd')
      have "ib_good (snd (ib_read ip))" "ib_rest ip = b # ib_rest (snd (ib_read ip))"
        using ib_read_good [OF assms cur] data(2) by simp_all
      with data(2) f True show ?thesis
        by (auto simp: ib_fill_def ib_good_def ib_wf_def ib_rest_def ib_seg_def)
    qed (use f True in \<open>auto simp: ib_fill_def\<close>)
  next
    case False
    with f assms show ?thesis
      by (auto simp: ib_fill_def ib_good_def ib_wf_def ib_rest_def ib_seg_def)
  qed
qed

text \<open>
  \<open>ib_getlin\<close> returns the next line of what is left, whatever part of it is buffered, and the
  buffer it reports is large enough for the line and its terminating NUL.
\<close>

definition nextline :: "string \<Rightarrow> string" where
  "nextline s = takeWhile (\<lambda>c. c \<noteq> NL) s @ (if NL \<in> set s then [NL] else [])"

lemma nextline_append:
  "NL \<notin> set a \<Longrightarrow> nextline (a @ b) = a @ nextline b"
  "NL \<in> set a \<Longrightarrow> nextline (a @ b) = nextline a"
  by (auto simp: nextline_def takeWhile_append1)

lemma nextline_lines:
  "s \<noteq> [] \<Longrightarrow> lines_of s = nextline s # lines_of (drop (length (nextline s)) s)"
proof (cases "NL \<in> set s")
  case True
  then obtain a b where s: "s = a @ NL # b" "NL \<notin> set a" by (meson split_list_first)
  then have "nextline s = a @ [NL]" by (auto simp: nextline_def)
  then show ?thesis using s lines_of_NL by simp
next
  case False
  then have "nextline s = s" by (simp add: nextline_def)
  then show "s \<noteq> [] \<Longrightarrow> ?thesis" using False lines_of_last by simp
qed

lemma ib_getlin_loop_good:
  assumes "ib_lgood ip" and "NL \<notin> set line" and "line = [] \<or> length line + 1 \<le> alcd"
    and "\<not> (ib_incompl ip \<and> line \<noteq> [])"
    and "ib_getlin_loop ip alcd line = (l, alcd', ip')"
  shows "l = line @ nextline (ib_rest ip) \<and> ib_lgood ip' \<and>
    ib_rest ip' = drop (length (nextline (ib_rest ip))) (ib_rest ip) \<and>
    (l \<noteq> [] \<longrightarrow> length l + 1 \<le> alcd')"
  using assms
proof (induction ip alcd line rule: ib_getlin_loop.induct)
  case (1 ip alcd line)
  note simps = ib_getlin_loop.simps [of ip alcd line]
  show ?case
  proof (cases "ib_cur ip \<ge> ib_end ip \<and> ib_incompl ip")
    case True
    with "1.prems"(5) have "l = []" "alcd' = alcd" "ip' = ip\<lparr>ib_incompl := False\<rparr>"
      by (simp_all add: simps)
    with True "1.prems"(1,4) show ?thesis
      by (auto simp: ib_lgood_def ib_good_def ib_wf_def ib_rest_def nextline_def)
  next
    case nf: False
    from "1.prems"(1) have g: "ib_good ip" by (simp add: ib_lgood_def)
    show ?thesis
    proof (cases "ib_fill ip")
      case (Inl ip1)
      with "1.prems"(5) nf have "(l, alcd', ip') =
          (if line \<noteq> [] then (line, alcd, ip1\<lparr>ib_incompl := True\<rparr>) else ([], alcd, ip1))"
        by (auto simp: simps)
      with ib_fill_good(1) [OF g Inl] "1.prems"(1,3) show ?thesis
        by (auto simp: ib_lgood_def ib_good_def ib_wf_def ib_rest_def nextline_def
            split: if_splits)
    next
      case (Inr ip1)
      note f = ib_fill_good(2) [OF g Inr]
      let ?seg = "ib_seg ip1"
      show ?thesis
      proof (cases "NL \<in> set ?seg")
        case True
        then obtain a b where ab: "?seg = a @ NL # b" "NL \<notin> set a" by (meson split_list_first)
        have tw: "takeWhile (\<lambda>c. c \<noteq> NL) ?seg = a" using ab by simp
        from True nf Inr "1.prems"(5) have res: "l = line @ a @ [NL]"
          "alcd' = grow (length line + length a + 1 + 1) alcd"
          "ip' = ip1\<lparr>ib_cur := ib_cur ip1 + length a + 1\<rparr>"
          by (auto simp: simps tw Let_def)
        have nl: "nextline (ib_rest ip) = a @ [NL]"
          using f True ab by (simp add: nextline_append) (simp add: nextline_def tw)
        have "drop (ib_cur ip1 + length a + 1) (ib_blk ip1) = b"
        proof -
          have "drop (ib_cur ip1) (ib_blk ip1) = a @ NL # b" using f ab by simp
          then have "drop (length a + 1) (drop (ib_cur ip1) (ib_blk ip1)) = b" by (simp del: drop_drop)
          then show ?thesis by (simp add: add.commute add.left_commute)
        qed
        moreover have "ib_cur ip1 + length a + 1 \<le> length (ib_blk ip1)"
        proof -
          have "length (drop (ib_cur ip1) (ib_blk ip1)) = length (a @ NL # b)" using f ab by simp
          then show ?thesis by simp
        qed
        ultimately show ?thesis using f ab res nl "1.prems"(1)
          by (auto simp: ib_lgood_def ib_good_def ib_wf_def ib_rest_def grow_def)
      next
        case False
        let ?ip2 = "ip1\<lparr>ib_cur := ib_end ip1\<rparr>"
        let ?alcd = "grow (length line + length ?seg + 1) alcd"
        have rest2: "ib_rest ?ip2 = fd_rest (ib_fd ip1)" "ib_good ?ip2"
          using f by (auto simp: ib_rest_def ib_good_def ib_wf_def)
        have inc: "\<not> ib_incompl ip1" using f "1.prems"(1) by (auto simp: ib_lgood_def)
        have "ib_getlin_loop ?ip2 ?alcd (line @ ?seg) = (l, alcd', ip')"
          using False nf Inr "1.prems"(5) by (auto simp: simps Let_def)
        moreover have "ib_lgood ?ip2" using rest2 inc by (simp add: ib_lgood_def)
        ultimately have
          "l = (line @ ?seg) @ nextline (ib_rest ?ip2) \<and> ib_lgood ip' \<and>
           ib_rest ip' = drop (length (nextline (ib_rest ?ip2))) (ib_rest ?ip2) \<and>
           (l \<noteq> [] \<longrightarrow> length l + 1 \<le> alcd')"
          using False nf Inr "1.prems"(2) inc
          by (intro "1.IH" [OF nf Inr refl refl]) (auto simp: grow_def)
        moreover have "nextline (ib_rest ip) = ?seg @ nextline (ib_rest ?ip2)"
          using f False rest2 by (simp add: nextline_append)
        ultimately show ?thesis using f rest2 by (auto simp: nextline_append)
      qed
    qed
  qed
qed

lemma ib_getlin_good:
  assumes "ib_lgood ip" and "ib_getlin ip alcd = (l, alcd', ip')"
  shows "l = nextline (ib_rest ip)" "ib_lgood ip'"
    "ib_rest ip' = drop (length l) (ib_rest ip)" "l \<noteq> [] \<Longrightarrow> length l + 1 \<le> alcd'"
  using ib_getlin_loop_good [of ip "[]" alcd l alcd' ip'] assms by (auto simp: ib_getlin_def)

text \<open>The loop \<open>while ((len = ib_getlin(ip, &line, &alcd, realloc)) > 0) body\<close> of the clients.\<close>

definition ib_line :: "iblok \<times> nat \<Rightarrow> (string \<times> (iblok \<times> nat)) option" where
  "ib_line s =
     (case s of (ip, alcd) \<Rightarrow>
       (case ib_getlin ip alcd of
          (l, alcd', ip') \<Rightarrow> if l = [] then None else Some (l, (ip', alcd'))))"

lemma ib_read_eof_size:
  assumes "ib_read ip = (eof, ip')"
  shows "ib_size ip' \<le> ib_size ip"
proof (cases ip rule: ib_read_cases)
  case (eof fd')
  obtain fd1 where "fd_retry (ib_fd ip) fd1" "sys_read (ib_blksize ip) fd1 = (ROk [], fd')"
    using ib_read_loop_last [of "ib_fd ip" "ib_blksize ip"] eof(1) by auto
  then have "fd_size fd' \<le> fd_size (ib_fd ip)"
    using sys_read_size fd_retry_size by fastforce
  with eof(2) assms show ?thesis by (auto simp: ib_size_def)
next
  case (fail e fd')
  with ib_read_loop_fail(2) [OF fail(1)] assms show ?thesis by (auto simp: ib_size_def)
qed (use assms in auto)

lemma ib_fill_size2:
  "ib_fill ip = Inl ip' \<Longrightarrow> ib_size ip' \<le> ib_size ip"
  "ib_fill ip = Inr ip' \<Longrightarrow> ib_size ip' \<le> ib_size ip \<and> ib_cur ip' < ib_end ip'"
proof -
  assume "ib_fill ip = Inl ip'"
  then show "ib_size ip' \<le> ib_size ip"
    by (auto simp: ib_fill_def intro: ib_read_eof_size split: prod.splits if_splits)
next
  assume f: "ib_fill ip = Inr ip'"
  show "ib_size ip' \<le> ib_size ip \<and> ib_cur ip' < ib_end ip'"
  proof (cases "ib_cur ip \<ge> ib_end ip")
    case True
    with f obtain c ip1 where r: "ib_read ip = (c, ip1)" "c \<noteq> eof"
      "ip' = ip1\<lparr>ib_cur := ib_cur ip1 - 1\<rparr>"
      by (auto simp: ib_fill_def split: prod.splits if_splits)
    with ib_read_size [OF r(1,2)] show ?thesis by (simp add: ib_size_def)
  next
    case False
    with f show ?thesis by (auto simp: ib_fill_def)
  qed
qed

lemma ib_getlin_loop_size:
  "ib_getlin_loop ip alcd line = (l, alcd', ip') \<Longrightarrow> l \<noteq> [] \<Longrightarrow>
     ib_size ip' \<le> ib_size ip \<and> (line = [] \<longrightarrow> ib_size ip' < ib_size ip)"
proof (induction ip alcd line rule: ib_getlin_loop.induct)
  case (1 ip alcd line)
  note simps = ib_getlin_loop.simps [of ip alcd line]
  from "1.prems" have nf: "\<not> (ib_cur ip \<ge> ib_end ip \<and> ib_incompl ip)" by (auto simp: simps)
  show ?case
  proof (cases "ib_fill ip")
    case (Inl ip1)
    with "1.prems" nf show ?thesis
      using ib_fill_size2(1) [OF Inl] by (auto simp: simps ib_size_def split: if_splits)
  next
    case (Inr ip1)
    note f = ib_fill_size2(2) [OF Inr] ib_fill_size [OF Inr]
    let ?seg = "ib_seg ip1"
    show ?thesis
    proof (cases "NL \<in> set ?seg")
      case True
      let ?pre = "takeWhile (\<lambda>c. c \<noteq> NL) ?seg"
      have ip': "ip' = ip1\<lparr>ib_cur := ib_cur ip1 + length ?pre + 1\<rparr>"
        using "1.prems" nf Inr True by (auto simp: simps Let_def)
      have "ib_size ip' < ib_size ip1" using f by (auto simp: ip' ib_size_def)
      with f show ?thesis by simp
    next
      case False
      then have "ib_getlin_loop (ip1\<lparr>ib_cur := ib_end ip1\<rparr>)
          (grow (length line + length ?seg + 1) alcd) (line @ ?seg) = (l, alcd', ip')"
        using "1.prems" nf Inr by (auto simp: simps Let_def)
      from "1.IH" [OF nf Inr refl refl False this "1.prems"(2)] f show ?thesis by simp
    qed
  qed
qed

lemma ib_line_size: "ib_line s = Some (l, s') \<Longrightarrow> ib_size (fst s') < ib_size (fst s)"
  by (auto simp: ib_line_def ib_getlin_def dest!: ib_getlin_loop_size split: prod.splits if_splits)

function ib_while_lin :: "(string \<Rightarrow> 'b \<Rightarrow> 'b) \<Rightarrow> iblok \<times> nat \<Rightarrow> 'b \<Rightarrow> 'b" where
  "ib_while_lin f s b =
     (case ib_line s of None \<Rightarrow> b | Some (l, s') \<Rightarrow> ib_while_lin f s' (f l b))"
  by pat_completeness auto
termination
  by (relation "measure (\<lambda>(f, s, b). ib_size (fst s))") (use ib_line_size in force)+

declare ib_while_lin.simps [simp del]

lemma nextline_Nil [simp]: "nextline s = [] \<longleftrightarrow> s = []"
  by (cases s) (auto simp: nextline_def)

interpretation ibl: reader ib_line "\<lambda>s. lines_of (ib_rest (fst s))" "\<lambda>s. ib_lgood (fst s)" ib_while_lin
proof
  fix s s' :: "iblok \<times> nat" and a and f :: "string \<Rightarrow> 'b \<Rightarrow> 'b" and b
  obtain ip alcd where s: "s = (ip, alcd)" by fastforce
  obtain l alcd' ip' where g: "ib_getlin ip alcd = (l, alcd', ip')" by (metis prod_cases3)
  assume "ib_lgood (fst s)"
  then have good: "ib_lgood ip" by (simp add: s)
  note l = ib_getlin_good [OF good g]
  show "(ib_line s = None) = (lines_of (ib_rest (fst s)) = [])"
    using g l by (auto simp: s ib_line_def)
  show "ib_line s = Some (a, s') \<Longrightarrow>
      lines_of (ib_rest (fst s)) = a # lines_of (ib_rest (fst s')) \<and> ib_lgood (fst s')"
    using g l nextline_lines [of "ib_rest ip"] by (auto simp: s ib_line_def split: if_splits)
next
  fix s and f :: "string \<Rightarrow> 'b \<Rightarrow> 'b" and b
  show "ib_while_lin f s b = (case ib_line s of None \<Rightarrow> b | Some (a, s') \<Rightarrow> ib_while_lin f s' (f a b))"
    by (simp add: ib_while_lin.simps [of f s b])
qed

section \<open>Reading multibyte characters\<close>

text \<open>
  \<open>ib_getw\<close>.  \<open>mb\<close> is the \<open>mbtowc\<close> of the locale: on the bytes it is given it returns the number
  of bytes of the first character (negative for an invalid sequence, 0 for NUL) and its code.
  The result is the byte sequence of the character with its code (\<open>WEOF\<close>, -1, for an invalid
  byte), or \<open>None\<close> for the NULL that signals the end of the input.
\<close>

type_synonym mbtowc = "string \<Rightarrow> int \<times> int"

abbreviation weof :: int where "weof \<equiv> -1"

function ib_getw_fill :: "string \<Rightarrow> iblok \<Rightarrow> string \<times> iblok" where
  "ib_getw_fill bs ip =
     (if last bs \<noteq> NL \<and> length bs < ib_mb_cur_max ip \<and> \<not> ib_incompl ip
      then (case ib_get ip of
              (c, ip') \<Rightarrow>
                if c \<noteq> eof then ib_getw_fill (bs @ [to_char c]) ip'
                else ib_getw_fill bs (ip'\<lparr>ib_incompl := True\<rparr>))
      else (bs, ip))"
  by pat_completeness auto
termination
proof (relation "measure (\<lambda>(bs, ip). (ib_mb_cur_max ip - length bs) + (if ib_incompl ip then 0 else 1))",
    goal_cases)
  case (2 bs ip c ip')
  then have "ip' = snd (ib_get ip)" by (metis snd_conv)
  with 2 show ?case by (simp, linarith)
next
  case (3 bs ip c ip')
  then have "ip' = snd (ib_get ip)" by (metis snd_conv)
  with 3 show ?case by simp
qed simp

declare ib_getw_fill.simps [simp del]

definition mb_result :: "int \<times> int \<Rightarrow> nat \<times> int" where
  "mb_result r = (case r of (n, wc) \<Rightarrow>
     if n < 0 then (1, weof) else if n = 0 then (1, 0) else (nat n, wc))"

definition ib_getw_conv :: "mbtowc \<Rightarrow> string \<Rightarrow> iblok \<Rightarrow> (string \<times> int) option \<times> iblok" where
  "ib_getw_conv mb bs ip =
     (if uchar (hd bs) \<ge> 128
      then (case ib_getw_fill bs ip of
              (bs', ip') \<Rightarrow>
                (case mb_result (mb bs') of
                   (len, wc) \<Rightarrow>
                     (Some (take len bs', wc),
                      ip'\<lparr>ib_mbuf := bs', ib_mcur := len, ib_mend := len + (length bs' - len)\<rparr>)))
      else (Some (take 1 bs, uchar (hd bs)),
            ip\<lparr>ib_mbuf := bs, ib_mcur := 1, ib_mend := 1 + (length bs - 1)\<rparr>))"

definition ib_getw :: "mbtowc \<Rightarrow> iblok \<Rightarrow> (string \<times> int) option \<times> iblok" where
  "ib_getw mb ip =
     (let rest = ib_mend ip - ib_mcur ip
      in if rest \<noteq> 0 \<and> ib_mcur ip > 0
         then ib_getw_conv mb (take rest (drop (ib_mcur ip) (ib_mbuf ip))) ip
         else if ib_incompl ip
         then (None, ip\<lparr>ib_incompl := False, ib_mend := 0, ib_mcur := 0\<rparr>)
         else (case ib_get ip of
                 (c, ip') \<Rightarrow>
                   if c = eof then (None, ip'\<lparr>ib_mend := 0, ib_mcur := 0\<rparr>)
                   else ib_getw_conv mb [to_char c] ip'))"

text \<open>
  The specification: the character at the head of the remaining bytes is decoded from a window
  of at most \<open>mb_cur_max\<close> bytes that does not extend past a newline.
\<close>

fun mb_window :: "nat \<Rightarrow> string \<Rightarrow> string" where
  "mb_window m [] = []"
| "mb_window 0 (c # cs) = []"
| "mb_window (Suc m) (c # cs) = (if c = NL then [c] else c # mb_window m cs)"

definition mb_first :: "mbtowc \<Rightarrow> nat \<Rightarrow> string \<Rightarrow> nat \<times> int" where
  "mb_first mb m s =
     (if uchar (hd s) \<ge> 128 then mb_result (mb (mb_window m s)) else (1, uchar (hd s)))"

lemma mb_first_pos: "0 < fst (mb_first mb m s)"
  by (auto simp: mb_first_def mb_result_def split: prod.splits)

function mb_chars :: "mbtowc \<Rightarrow> nat \<Rightarrow> string \<Rightarrow> (string \<times> int) list" where
  "mb_chars mb m s =
     (if s = [] then []
      else case mb_first mb m s of (len, wc) \<Rightarrow> (take len s, wc) # mb_chars mb m (drop len s))"
  by pat_completeness auto
termination
proof (relation "measure (\<lambda>(mb, m, s). length s)", goal_cases)
  case (2 mb m s len wc)
  then have "0 < len" using mb_first_pos [of mb m s] by (metis fst_conv)
  with 2 show ?case by simp
qed simp

declare mb_chars.simps [simp del]

lemma mb_chars_Nil [simp]: "mb_chars mb m [] = []"
  by (simp add: mb_chars.simps)

text \<open>What is documented of \<open>mbtowc\<close>: it never claims more bytes than it was given.\<close>

definition mbtowc_ok :: "mbtowc \<Rightarrow> bool" where
  "mbtowc_ok mb \<longleftrightarrow> (\<forall>s. fst (mb s) \<le> int (length s))"

definition ib_mrest :: "iblok \<Rightarrow> string" where
  "ib_mrest ip = take (ib_mend ip - ib_mcur ip) (drop (ib_mcur ip) (ib_mbuf ip))"

definition ib_wgood :: "iblok \<Rightarrow> bool" where
  "ib_wgood ip \<longleftrightarrow> ib_good ip \<and> 1 \<le> ib_mb_cur_max ip \<and> (ib_incompl ip \<longrightarrow> ib_rest ip = []) \<and>
     ib_mend ip \<le> length (ib_mbuf ip) \<and> (ib_mcur ip < ib_mend ip \<longrightarrow> 0 < ib_mcur ip) \<and>
     length (ib_mrest ip) \<le> ib_mb_cur_max ip \<and> NL \<notin> set (butlast (ib_mrest ip))"

definition ib_wrest :: "mbtowc \<Rightarrow> iblok \<Rightarrow> (string \<times> int) list" where
  "ib_wrest mb ip = mb_chars mb (ib_mb_cur_max ip) (ib_mrest ip @ ib_rest ip)"

lemma mb_window_app:
  "NL \<notin> set (butlast bs) \<Longrightarrow> length bs \<le> m \<Longrightarrow> bs \<noteq> [] \<Longrightarrow>
     mb_window m (bs @ s) = (if last bs = NL then bs else bs @ mb_window (m - length bs) s)"
proof (induction bs arbitrary: m)
  case (Cons c bs)
  then obtain m' where "m = Suc m'" by (cases m) auto
  with Cons show ?case by (cases "bs = []") auto
qed simp

lemma mb_window_prefix: "\<exists>t. s = mb_window m s @ t"
  by (induction m s rule: mb_window.induct) auto

lemma mb_window_0 [simp]: "mb_window m [] = []" "mb_window 0 s = []"
  by (cases m; simp) (cases s; simp)

lemma mb_window_simps2: "mb_window m (c # cs) = (if m = 0 then [] else if c = NL then [c] else c # mb_window (m - 1) cs)"
  by (cases m) auto

lemma mb_window_bounds: "length (mb_window m s) \<le> m" "NL \<notin> set (butlast (mb_window m s))"
  by (induction m s rule: mb_window.induct) (auto simp: mb_window_simps2)

lemma not_in_set_butlast: "x \<notin> set (butlast xs) \<Longrightarrow> last xs \<noteq> x \<Longrightarrow> xs \<noteq> [] \<Longrightarrow> x \<notin> set xs"
  by (induction xs) (auto split: if_splits)

lemma set_butlast_drop: "x \<notin> set (butlast xs) \<Longrightarrow> x \<notin> set (butlast (drop k xs))"
  by (metis in_set_dropD butlast_drop)

lemma ib_getw_fill_good:
  assumes "ib_good ip" "ib_incompl ip \<longrightarrow> ib_rest ip = []" "bs \<noteq> []" "length bs \<le> ib_mb_cur_max ip"
    "NL \<notin> set (butlast bs)" "ib_getw_fill bs ip = (bs', ip')"
  shows "ib_good ip' \<and> (ib_incompl ip' \<longrightarrow> ib_rest ip' = []) \<and>
    bs' = mb_window (ib_mb_cur_max ip) (bs @ ib_rest ip) \<and> bs' @ ib_rest ip' = bs @ ib_rest ip \<and>
    ib_mb_cur_max ip' = ib_mb_cur_max ip \<and> bs' \<noteq> []"
  using assms
proof (induction bs ip rule: ib_getw_fill.induct)
  case (1 bs ip)
  note simps = ib_getw_fill.simps [of bs ip]
  note win = mb_window_app [OF "1.prems"(5,4,3)]
  show ?case
  proof (cases "last bs \<noteq> NL \<and> length bs < ib_mb_cur_max ip \<and> \<not> ib_incompl ip")
    case True
    obtain c ip1 where g: "ib_get ip = (c, ip1)" by fastforce
    note gg = ib_get_good(1-4) [OF "1.prems"(1), unfolded g, simplified]
      ib_get_frame(1,2) [of ip, unfolded g, simplified]
    show ?thesis
    proof (cases "c = eof")
      case False
      let ?bs = "bs @ [to_char c]"
      have fill: "ib_getw_fill ?bs ip1 = (bs', ip')"
        using "1.prems"(6) g True False by (simp add: simps)
      have rest: "ib_rest ip = to_char c # ib_rest ip1" using gg(3) False by blast
      have inc: "ib_incompl ip1 \<longrightarrow> ib_rest ip1 = []" using gg(6) True by simp
      have len: "length ?bs \<le> ib_mb_cur_max ip1" using gg(5) True by simp
      have "NL \<notin> set bs" using True "1.prems"(3,5) not_in_set_butlast [of NL bs] by blast
      then have nl: "NL \<notin> set (butlast ?bs)" by simp
      from "1.IH"(1) [OF True g [symmetric] False gg(1) inc _ len nl fill] show ?thesis
        unfolding rest gg(5) append_assoc append_Cons append_Nil by blast
    next
      case e: True
      have "ib_getw_fill bs (ip1\<lparr>ib_incompl := True\<rparr>) = (bs', ip')"
        using "1.prems"(6) g True e by (simp add: simps)
      moreover have "ib_good (ip1\<lparr>ib_incompl := True\<rparr>)" "ib_rest (ip1\<lparr>ib_incompl := True\<rparr>) = ib_rest ip1"
        using gg(1) by (auto simp: ib_good_def ib_wf_def ib_rest_def)
      ultimately show ?thesis
        using "1.IH"(2) [OF True g [symmetric]] "1.prems"(3-5) gg e by auto
    qed
  next
    case False
    with "1.prems"(6) have "bs' = bs" "ip' = ip" by (auto simp: simps)
    with False "1.prems" show ?thesis by (auto simp: win)
  qed
qed

lemma mb_first_len:
  assumes "mbtowc_ok mb" "s \<noteq> []" "1 \<le> m"
  shows "fst (mb_first mb m s) \<le> length (mb_window m s)"
proof -
  obtain n wc where r: "mb (mb_window m s) = (n, wc)" by fastforce
  have "mb_window m s \<noteq> []" using assms(2,3) by (cases s) (auto simp: mb_window_simps2)
  then have "1 \<le> length (mb_window m s)" by (cases "mb_window m s") auto
  moreover have "n \<le> int (length (mb_window m s))"
    using assms(1) r unfolding mbtowc_ok_def by (metis fst_conv)
  ultimately show ?thesis using r by (auto simp: mb_first_def mb_result_def)
qed

lemma take_window: "n \<le> length (mb_window m s) \<Longrightarrow> take n (mb_window m s) = take n s"
  using mb_window_prefix [of s m] by (metis append_take_drop_id take_append take_all
      diff_is_0_eq' take0 append_Nil2)

text \<open>One conversion: the character at the head of \<open>bs @ ib_rest ip\<close>.\<close>

lemma ib_getw_conv_good:
  assumes ok: "mbtowc_ok mb" and good: "ib_good ip" "ib_incompl ip \<longrightarrow> ib_rest ip = []"
    and m: "1 \<le> ib_mb_cur_max ip"
    and bs: "bs \<noteq> []" "length bs \<le> ib_mb_cur_max ip" "NL \<notin> set (butlast bs)"
  defines "s \<equiv> bs @ ib_rest ip" and "m \<equiv> ib_mb_cur_max ip"
  obtains ip' where "ib_getw_conv mb bs ip =
      (Some (take (fst (mb_first mb m s)) s, snd (mb_first mb m s)), ip')"
    "ib_wgood ip'" "ib_mrest ip' @ ib_rest ip' = drop (fst (mb_first mb m s)) s"
    "ib_mb_cur_max ip' = m"
proof (cases "uchar (hd bs) \<ge> 128")
  case True
  obtain bs' ip1 where f: "ib_getw_fill bs ip = (bs', ip1)" by fastforce
  note fg = ib_getw_fill_good [OF good bs f]
  have bs': "bs' = mb_window m s" using fg by (simp add: s_def m_def)
  obtain len wc where r: "mb_result (mb bs') = (len, wc)" by fastforce
  have first: "mb_first mb m s = (len, wc)"
    using True r bs bs' by (simp add: mb_first_def s_def)
  have len: "0 < len" "len \<le> length bs'"
  proof -
    have "s \<noteq> []" "1 \<le> m" using bs(1) m by (simp_all add: s_def m_def)
    with mb_first_len [OF ok this] show "len \<le> length bs'" by (simp add: first bs')
    show "0 < len" using mb_first_pos [of mb m s] by (simp add: first)
  qed
  let ?ip' = "ip1\<lparr>ib_mbuf := bs', ib_mcur := len, ib_mend := length bs'\<rparr>"
  have conv: "ib_getw_conv mb bs ip = (Some (take len s, wc), ?ip')"
    using True f r len take_window [of len m s] by (simp add: ib_getw_conv_def bs')
  have mrest: "ib_mrest ?ip' = drop len bs'" by (simp add: ib_mrest_def)
  have rest: "ib_rest ?ip' = ib_rest ip1" by (simp add: ib_rest_def)
  have "ib_good ?ip'" using fg by (auto simp: ib_good_def ib_wf_def)
  moreover have "length (drop len bs') \<le> m" "NL \<notin> set (butlast (drop len bs'))"
    using mb_window_bounds [of m s] set_butlast_drop [of NL bs' len] by (simp_all add: bs' le_diff_conv trans_le_add1)
  ultimately have "ib_wgood ?ip'"
    unfolding ib_wgood_def mrest rest using fg m len by (simp add: m_def)
  moreover have "ib_mrest ?ip' @ ib_rest ?ip' = drop len s"
  proof -
    have "drop len (bs' @ ib_rest ip1) = drop len bs' @ ib_rest ip1" using len by simp
    moreover have "bs' @ ib_rest ip1 = s" using fg unfolding s_def by blast
    ultimately show ?thesis by (simp add: mrest rest)
  qed
  moreover have "ib_mb_cur_max ?ip' = m" using fg by (simp add: m_def)
  ultimately show thesis using that [of ?ip'] conv by (simp add: first)
next
  case False
  let ?ip' = "ip\<lparr>ib_mbuf := bs, ib_mcur := 1, ib_mend := length bs\<rparr>"
  have l: "1 \<le> length bs" using bs(1) by (cases bs) auto
  have first: "mb_first mb m s = (1, uchar (hd bs))" using False bs by (simp add: mb_first_def s_def)
  have "take 1 bs = take 1 s" using bs(1) by (cases bs) (auto simp: s_def)
  then have conv: "ib_getw_conv mb bs ip = (Some (take 1 s, uchar (hd bs)), ?ip')"
    using False l by (simp add: ib_getw_conv_def)
  have mrest: "ib_mrest ?ip' = drop 1 bs" by (simp add: ib_mrest_def)
  have rest: "ib_rest ?ip' = ib_rest ip" by (simp add: ib_rest_def)
  have "ib_good ?ip'" using good by (auto simp: ib_good_def ib_wf_def)
  then have "ib_wgood ?ip'"
    unfolding ib_wgood_def mrest rest using good m bs set_butlast_drop [of NL bs 1] by simp
  moreover have "ib_mrest ?ip' @ ib_rest ?ip' = drop 1 s"
    unfolding mrest rest s_def using l by simp
  moreover have "ib_mb_cur_max ?ip' = m" by (simp add: m_def)
  ultimately show thesis using that [of ?ip'] conv by (simp add: first)
qed

text \<open>
  \<open>ib_getw\<close> delivers the characters of what is left one after the other, each with the bytes it
  is made of; at the end of the input it returns NULL.
\<close>

lemma ib_getw_good:
  assumes ok: "mbtowc_ok mb" and good: "ib_wgood ip"
  defines "s \<equiv> ib_mrest ip @ ib_rest ip" and "m \<equiv> ib_mb_cur_max ip"
  shows "s = [] \<Longrightarrow> fst (ib_getw mb ip) = None"
    and "s \<noteq> [] \<Longrightarrow> \<exists>ip'. ib_getw mb ip =
        (Some (take (fst (mb_first mb m s)) s, snd (mb_first mb m s)), ip') \<and> ib_wgood ip' \<and>
        ib_mrest ip' @ ib_rest ip' = drop (fst (mb_first mb m s)) s \<and> ib_mb_cur_max ip' = m"
proof -
  from good have g: "ib_good ip" "ib_incompl ip \<longrightarrow> ib_rest ip = []" "1 \<le> ib_mb_cur_max ip"
    and me: "ib_mend ip \<le> length (ib_mbuf ip)" "ib_mcur ip < ib_mend ip \<Longrightarrow> 0 < ib_mcur ip"
    and mr: "length (ib_mrest ip) \<le> ib_mb_cur_max ip" "NL \<notin> set (butlast (ib_mrest ip))"
    by (auto simp: ib_wgood_def)
  have mrest_ne: "ib_mrest ip \<noteq> [] \<longleftrightarrow> ib_mend ip - ib_mcur ip \<noteq> 0 \<and> 0 < ib_mcur ip"
    using me by (auto simp: ib_mrest_def)
  {
    assume "s = []"
    then have e: "ib_mrest ip = []" "ib_rest ip = []" by (auto simp: s_def)
    with mrest_ne have "\<not> (ib_mend ip - ib_mcur ip \<noteq> 0 \<and> 0 < ib_mcur ip)" by blast
    with e ib_get_good(2) [OF g(1)] show "fst (ib_getw mb ip) = None"
      by (auto simp: ib_getw_def Let_def split: prod.splits)
  next
    assume s: "s \<noteq> []"
    show "\<exists>ip'. ib_getw mb ip =
        (Some (take (fst (mb_first mb m s)) s, snd (mb_first mb m s)), ip') \<and> ib_wgood ip' \<and>
        ib_mrest ip' @ ib_rest ip' = drop (fst (mb_first mb m s)) s \<and> ib_mb_cur_max ip' = m"
    proof (cases "ib_mrest ip = []")
      case False
      with mrest_ne have "ib_getw mb ip = ib_getw_conv mb (ib_mrest ip) ip"
        by (simp add: ib_getw_def Let_def ib_mrest_def)
      with ib_getw_conv_good [OF ok g False mr] show ?thesis unfolding s_def m_def by metis
    next
      case True
      with s have r: "ib_rest ip \<noteq> []" by (simp add: s_def)
      with g(2) have inc: "\<not> ib_incompl ip" by blast
      obtain c ip1 where c: "ib_get ip = (c, ip1)" by fastforce
      note gg = ib_get_good(1-4) [OF g(1), unfolded c, simplified]
        ib_get_frame(1,2) [of ip, unfolded c, simplified]
      from gg r have ne: "c \<noteq> eof" by blast
      from True mrest_ne have "\<not> (ib_mend ip - ib_mcur ip \<noteq> 0 \<and> 0 < ib_mcur ip)" by blast
      with inc c ne have e: "ib_getw mb ip = ib_getw_conv mb [to_char c] ip1"
        by (auto simp: ib_getw_def Let_def)
      have "ib_rest ip = to_char c # ib_rest ip1" using gg(3) ne by blast
      then have s1: "[to_char c] @ ib_rest ip1 = s" using True by (simp add: s_def)
      have m1: "ib_mb_cur_max ip1 = m" using gg(5) by (simp add: m_def)
      have "ib_incompl ip1 \<longrightarrow> ib_rest ip1 = []" "1 \<le> ib_mb_cur_max ip1"
        "length [to_char c] \<le> ib_mb_cur_max ip1"
        using gg(5,6) inc g(3) by simp_all
      from ib_getw_conv_good [OF ok gg(1) this(1,2) _ this(3), unfolded s1 m1] show ?thesis
        unfolding e by (metis butlast.simps(2) empty_iff empty_set list.distinct(1))
    qed
  }
qed

text \<open>The loop \<open>while ((cp = ib_getw(ip, &wc, &n)) != NULL) body\<close> of the clients.\<close>

definition ib_wnext :: "mbtowc \<Rightarrow> iblok \<Rightarrow> ((string \<times> int) \<times> iblok) option" where
  "ib_wnext mb ip = (case ib_getw mb ip of (None, ip') \<Rightarrow> None | (Some r, ip') \<Rightarrow> Some (r, ip'))"

text \<open>
  Each character uses up one byte of the overflow buffer or of the input, or the pending
  end-of-file mark; \<open>ib_wsize\<close> counts them.
\<close>

definition ib_wsize :: "iblok \<Rightarrow> nat" where
  "ib_wsize ip = (ib_mend ip - ib_mcur ip) + ib_size ip"

lemma ib_get_eof_size: "ib_get ip = (eof, ip') \<Longrightarrow> ib_size ip' \<le> ib_size ip"
  by (auto simp: ib_get_def intro: ib_read_eof_size split: if_splits)

lemma ib_getw_fill_size:
  "ib_getw_fill bs ip = (bs', ip') \<Longrightarrow> length bs' + ib_size ip' \<le> length bs + ib_size ip \<and>
     length bs \<le> length bs'"
proof (induction bs ip rule: ib_getw_fill.induct)
  case (1 bs ip)
  note simps = ib_getw_fill.simps [of bs ip]
  show ?case
  proof (cases "last bs \<noteq> NL \<and> length bs < ib_mb_cur_max ip \<and> \<not> ib_incompl ip")
    case True
    obtain c ip1 where g: "ib_get ip = (c, ip1)" by fastforce
    show ?thesis
    proof (cases "c = eof")
      case False
      with "1.prems" g True "1.IH"(1) [OF True g [symmetric] False] ib_get_size [OF g False]
      show ?thesis by (auto simp: simps)
    next
      case e: True
      with "1.prems" g True "1.IH"(2) [OF True g [symmetric]] ib_get_eof_size [of ip ip1]
      show ?thesis by (auto simp: simps ib_size_def)
    qed
  next
    case False
    with "1.prems" show ?thesis by (auto simp: simps)
  qed
qed

lemma ib_getw_conv_size:
  assumes "ib_getw_conv mb bs ip = (Some r, ip')"
  shows "ib_wsize ip' < max 1 (length bs) + ib_size ip"
proof (cases "uchar (hd bs) \<ge> 128")
  case True
  obtain bs1 ip1 where f: "ib_getw_fill bs ip = (bs1, ip1)" by fastforce
  obtain len wc where m: "mb_result (mb bs1) = (len, wc)" by fastforce
  then have "0 < len" by (auto simp: mb_result_def split: prod.splits if_splits)
  moreover have ip': "ip' = ip1\<lparr>ib_mbuf := bs1, ib_mcur := len, ib_mend := len + (length bs1 - len)\<rparr>"
    using assms(1) True f m by (auto simp: ib_getw_conv_def)
  ultimately show ?thesis
    using ib_getw_fill_size [OF f] by (auto simp: ib_wsize_def ib_size_def max_def)
next
  case False
  with assms show ?thesis
    by (auto simp: ib_getw_conv_def ib_wsize_def ib_size_def max_def)
qed

lemma ib_wnext_size:
  assumes "ib_wnext mb ip = Some (r, ip')"
  shows "ib_wsize ip' < ib_wsize ip"
proof -
  from assms have w: "ib_getw mb ip = (Some r, ip')"
    by (auto simp: ib_wnext_def split: prod.splits option.splits)
  show ?thesis
  proof (cases "ib_mend ip - ib_mcur ip \<noteq> 0 \<and> ib_mcur ip > 0")
    case True
    then have c: "ib_getw_conv mb (ib_mrest ip) ip = (Some r, ip')"
      using w by (simp add: ib_getw_def Let_def ib_mrest_def)
    have "max 1 (length (ib_mrest ip)) \<le> ib_mend ip - ib_mcur ip"
      using True by (auto simp: ib_mrest_def)
    with ib_getw_conv_size [OF c] show ?thesis unfolding ib_wsize_def by linarith
  next
    case False
    then obtain c ip1 where g: "ib_get ip = (c, ip1)" "c \<noteq> eof" and
      conv: "ib_getw_conv mb [to_char c] ip1 = (Some r, ip')"
      using w by (auto simp: ib_getw_def Let_def split: prod.splits if_splits)
    from ib_getw_conv_size [OF conv] ib_get_size [OF g] show ?thesis by (simp add: ib_wsize_def)
  qed
qed

function ib_while_getw :: "mbtowc \<Rightarrow> (string \<times> int \<Rightarrow> 'b \<Rightarrow> 'b) \<Rightarrow> iblok \<Rightarrow> 'b \<Rightarrow> 'b" where
  "ib_while_getw mb f ip b =
     (case ib_wnext mb ip of None \<Rightarrow> b | Some (r, ip') \<Rightarrow> ib_while_getw mb f ip' (f r b))"
  by pat_completeness auto
termination
  by (relation "measure (\<lambda>(mb, f, ip, b). ib_wsize ip)") (use ib_wnext_size in force)+

declare ib_while_getw.simps [simp del]

interpretation ibw: reader "ib_wnext mb" "ib_wrest mb" "\<lambda>ip. mbtowc_ok mb \<and> ib_wgood ip"
  "ib_while_getw mb" for mb
proof
  fix ip ip' a and f :: "string \<times> int \<Rightarrow> 'b \<Rightarrow> 'b" and b
  assume "mbtowc_ok mb \<and> ib_wgood ip"
  then have good: "mbtowc_ok mb" "ib_wgood ip" by auto
  let ?s = "ib_mrest ip @ ib_rest ip"
  note g = ib_getw_good [OF good]
  note chars = mb_chars.simps [of mb "ib_mb_cur_max ip" ?s]
  show "(ib_wnext mb ip = None) = (ib_wrest mb ip = [])"
  proof (cases "?s = []")
    case True
    with g(1) show ?thesis
      by (auto simp: ib_wnext_def ib_wrest_def chars split: prod.splits option.splits)
  next
    case False
    with g(2) show ?thesis
      by (auto simp: ib_wnext_def ib_wrest_def chars split: prod.splits option.splits)
  qed
  show "ib_wnext mb ip = Some (a, ip') \<Longrightarrow>
      ib_wrest mb ip = a # ib_wrest mb ip' \<and> mbtowc_ok mb \<and> ib_wgood ip'"
  proof -
    assume n: "ib_wnext mb ip = Some (a, ip')"
    with g(1) have s: "?s \<noteq> []" by (auto simp: ib_wnext_def split: prod.splits option.splits)
    from n g(2) [OF s] good(1) show ?thesis
      using s by (auto simp: ib_wnext_def ib_wrest_def chars split: prod.splits option.splits)
  qed
next
  fix ip and f :: "string \<times> int \<Rightarrow> 'b \<Rightarrow> 'b" and b
  show "ib_while_getw mb f ip b =
      (case ib_wnext mb ip of None \<Rightarrow> b | Some (a, s') \<Rightarrow> ib_while_getw mb f s' (f a b))"
    by (simp add: ib_while_getw.simps [of mb f ip b])
qed

text \<open>
  What the loops leave of the descriptor when they end, for a program that reads it again: the
  body of a loop does not touch the input.
\<close>

function ib_after :: "iblok \<Rightarrow> fdesc" where
  "ib_after ip = (case ib_get ip of (c, ip') \<Rightarrow> if c = eof then ib_fd ip' else ib_after ip')"
  by pat_completeness auto
termination
  by (relation "measure ib_size") (auto dest: ib_get_size [OF sym])

declare ib_after.simps [simp del]

function ib_wafter :: "mbtowc \<Rightarrow> iblok \<Rightarrow> fdesc" where
  "ib_wafter mb ip =
     (case ib_getw mb ip of (None, ip') \<Rightarrow> ib_fd ip' | (Some r, ip') \<Rightarrow> ib_wafter mb ip')"
  by pat_completeness auto
termination
proof (relation "measure (\<lambda>(mb, ip). ib_wsize ip)")
  fix mb ip x1 x2 r
  assume "(x1, x2) = ib_getw mb ip" "x1 = Some r"
  then have "ib_getw mb ip = (Some r, x2)" by simp
  then have "ib_wnext mb ip = Some (r, x2)" by (simp add: ib_wnext_def)
  then show "((mb, x2), mb, ip) \<in> measure (\<lambda>(mb, ip). ib_wsize ip)" by (simp add: ib_wnext_size)
qed simp

declare ib_wafter.simps [simp del]

text \<open>No byte is lost or read twice: the characters' byte sequences are the input.\<close>

lemma concat_mb_chars:
  assumes "mbtowc_ok mb" "1 \<le> m"
  shows "concat (map fst (mb_chars mb m s)) = s"
proof (induction "length s" arbitrary: s rule: less_induct)
  case less
  show ?case
  proof (cases "s = []")
    case False
    obtain len wc where f: "mb_first mb m s = (len, wc)" by fastforce
    then have "0 < len" using mb_first_pos [of mb m s] by simp
    then have "concat (map fst (mb_chars mb m (drop len s))) = drop len s"
      using False by (intro less) simp
    with False f show ?thesis by (simp add: mb_chars.simps [of mb m s])
  qed (simp add: mb_chars.simps)
qed

section \<open>Seeking\<close>

datatype whence = SEEK_SET | SEEK_CUR | SEEK_END

text \<open>\<open>lseek\<close>: -1 on a descriptor that cannot seek and for an offset before the start.\<close>

definition sys_lseek :: "fdesc \<Rightarrow> int \<Rightarrow> whence \<Rightarrow> int \<times> fdesc" where
  "sys_lseek fd off wh =
     (let o' = (case wh of SEEK_SET \<Rightarrow> off | SEEK_CUR \<Rightarrow> int (fd_pos fd) + off
                         | SEEK_END \<Rightarrow> int (length (fd_file fd)) + off)
      in if fd_seekable fd \<and> 0 \<le> o' then (o', fd\<lparr>fd_pos := nat o'\<rparr>) else (-1, fd))"

definition ib_seek :: "iblok \<Rightarrow> int \<Rightarrow> whence \<Rightarrow> int \<times> iblok" where
  "ib_seek ip off wh =
     (let (off, wh) = (if wh = SEEK_CUR
                       then (ib_endoff ip - (int (ib_end ip) - int (ib_cur ip)), SEEK_SET)
                       else (off, wh))
      in if ib_seekable ip \<and> wh = SEEK_SET \<and> \<not> ib_null ip \<and> off < ib_endoff ip \<and>
            off \<ge> ib_endoff ip - int (ib_end ip)
         then (off, ip\<lparr>ib_cur := nat (int (ib_end ip) - (ib_endoff ip - off))\<rparr>)
         else (case sys_lseek (ib_fd ip) off wh of
                 (off', fd) \<Rightarrow>
                   if off' = -1 then (-1, ip\<lparr>ib_fd := fd\<rparr>)
                   else (off', ip\<lparr>ib_fd := fd, ib_cur := 0, ib_end := 0, ib_blk := [], ib_null := True,
                                  ib_endoff := off', ib_seekable := True\<rparr>)))"

text \<open>
  Once a seek has succeeded, the offsets are those of the file: the buffer holds the bytes
  right before \<open>ib_endoff\<close>, which is the position of the descriptor.
\<close>

definition ib_sync :: "iblok \<Rightarrow> bool" where
  "ib_sync ip \<longleftrightarrow> ib_wf ip \<and> (ib_seekable ip \<longrightarrow>
     ib_endoff ip = int (fd_pos (ib_fd ip)) \<and> ib_end ip \<le> fd_pos (ib_fd ip) \<and>
     ib_blk ip @ fd_rest (ib_fd ip) = drop (fd_pos (ib_fd ip) - ib_end ip) (fd_file (ib_fd ip)))"

lemma ib_sync_read:
  assumes "ib_sync ip"
  shows "ib_sync (snd (ib_read ip))"
proof (cases ip rule: ib_read_cases)
  case (data b bs fd')
  from assms have "0 < ib_blksize ip" by (simp add: ib_sync_def ib_wf_def)
  note ok = ib_read_loop_ok [OF data(1) this]
  from ok(1,4,5) data(2) assms show ?thesis
    by (auto simp: ib_sync_def ib_wf_def fd_rest_def)
next
  case (eof fd')
  from assms have "0 < ib_blksize ip" by (simp add: ib_sync_def ib_wf_def)
  from ib_read_loop_ok [OF eof(1) this] eof(2) assms show ?thesis
    by (auto simp: ib_sync_def ib_wf_def fd_rest_def)
next
  case (fail e fd')
  obtain fd1 where r: "fd_retry (ib_fd ip) fd1" "sys_read (ib_blksize ip) fd1 = (RFail e, fd')"
    using ib_read_loop_last [of "ib_fd ip" "ib_blksize ip"] fail(1) by auto
  with sys_read_fail(2,3) [OF r(2)] fail(2) assms show ?thesis
    by (auto simp: ib_sync_def ib_wf_def fd_rest_def fd_retry_def)
qed

lemma ib_sync_get:
  assumes "ib_sync ip"
  shows "ib_sync (snd (ib_get ip))"
  using assms ib_sync_read [OF assms] by (auto simp: ib_get_def ib_sync_def ib_wf_def)

text \<open>What both branches of \<open>ib_seek\<close> establish for \<open>SEEK_SET\<close>.\<close>

lemma ib_seek_set:
  assumes sync: "ib_sync ip" and off: "0 \<le> off" and sk: "ib_seek ip off SEEK_SET = (r, ip')"
    and r: "r \<noteq> -1"
  shows "r = off" "ib_sync ip'" "ib_rest ip' = drop (nat off) (fd_file (ib_fd ip))"
    "fd_file (ib_fd ip') = fd_file (ib_fd ip)"
proof -
  let ?hit = "ib_seekable ip \<and> \<not> ib_null ip \<and> off < ib_endoff ip \<and> off \<ge> ib_endoff ip - int (ib_end ip)"
  have "r = off \<and> ib_sync ip' \<and> ib_rest ip' = drop (nat off) (fd_file (ib_fd ip)) \<and>
    fd_file (ib_fd ip') = fd_file (ib_fd ip)"
  proof (cases ?hit)
    case True
    let ?pos = "fd_pos (ib_fd ip)" and ?k = "nat (int (ib_end ip) - (ib_endoff ip - off))"
    have ip': "r = off" "ip' = ip\<lparr>ib_cur := ?k\<rparr>" using True sk by (auto simp: ib_seek_def)
    from True sync have s: "ib_endoff ip = int ?pos" "ib_end ip \<le> ?pos" "ib_end ip = length (ib_blk ip)"
      "ib_blk ip @ fd_rest (ib_fd ip) = drop (?pos - ib_end ip) (fd_file (ib_fd ip))"
      by (auto simp: ib_sync_def ib_wf_def)
    have k: "?k \<le> length (ib_blk ip)" "?pos - ib_end ip + ?k = nat off" using s True off by auto
    have "ib_rest ip' = drop ?k (ib_blk ip @ fd_rest (ib_fd ip))" using k by (simp add: ip' ib_rest_def)
    also have "\<dots> = drop (nat off) (fd_file (ib_fd ip))"
      unfolding s(4) drop_drop using k(2) by (simp add: add.commute)
    finally show ?thesis using sync k s by (auto simp: ip' ib_sync_def ib_wf_def)
  next
    case False
    with sk r off show ?thesis using sync
      by (auto simp: ib_seek_def sys_lseek_def ib_sync_def ib_wf_def ib_rest_def fd_rest_def
          split: if_splits)
  qed
  then show "r = off" "ib_sync ip'" "ib_rest ip' = drop (nat off) (fd_file (ib_fd ip))"
    "fd_file (ib_fd ip') = fd_file (ib_fd ip)" by blast+
qed

text \<open>Fresh buffers satisfy all the invariants.\<close>

lemma ib_alloc_good [simp]:
  "fd_good fd \<Longrightarrow> ib_good (ib_alloc m fd b)" "ib_rest (ib_alloc m fd b) = fd_rest fd"
  "fd_good fd \<Longrightarrow> ib_lgood (ib_alloc m fd b)" "fd_good fd \<Longrightarrow> 1 \<le> m \<Longrightarrow> ib_wgood (ib_alloc m fd b)"
  "ib_wrest mb (ib_alloc m fd b) = mb_chars mb m (fd_rest fd)" "ib_sync (ib_alloc m fd b)"
  "ib_mb_cur_max (ib_alloc m fd b) = m"
  by (simp_all add: ib_alloc_def Let_def ib_good_def ib_wf_def ib_lgood_def ib_wgood_def ib_rest_def
      ib_mrest_def ib_wrest_def ib_sync_def)

section \<open>Properties\<close>

text \<open>
  (C1) Reading a file byte by byte through a fresh buffer with \<open>while ((c = ib_get(ip)) != EOF)\<close>
  runs the body once for every byte of the file, in order, whatever the block size and however
  the kernel splits or interrupts the reads.
\<close>

theorem ib_get_stream:
  assumes "fd_good fd"
  shows "ib_while_get f (ib_alloc m fd b) s = fold f (fd_rest fd) s"
  using assms by (simp add: ibc.loop_fold)

definition fd_sample :: fdesc where
  "fd_sample = \<lparr>fd_file = ''ab'' @ [NL] @ ''c'', fd_pos = 0, fd_seekable = True, fd_stblk = 2,
                fd_evs = [RErr 4, RShort 1, RErr 4, RErr 4]\<rparr>"

theorem ib_get_stream_witness:
  "fd_good fd_sample \<and>
   ib_while_get (\<lambda>c s. s @ [c]) (ib_alloc 1 fd_sample 0) [] = ''ab'' @ [NL] @ ''c''"
proof -
  have g: "fd_good fd_sample" by (simp add: fd_sample_def fd_good_def)
  show ?thesis
    using g ib_get_stream [OF g, of "\<lambda>c s. s @ [c]" 1 0 "[]"] by (simp add: fd_sample_def fd_rest_def)
qed

text \<open>
  (C2) \<open>ib_getlin\<close> returns the next line of the input, with its newline if it has one, leaves
  exactly the bytes after it to be read, and the buffer size it reports has room for the line
  and the terminating NUL.
\<close>

theorem ib_getlin_next:
  assumes "ib_lgood ip" and "ib_getlin ip alcd = (l, alcd', ip')"
  shows "l = nextline (ib_rest ip) \<and> ib_rest ip = l @ ib_rest ip' \<and> ib_lgood ip' \<and>
    (l \<noteq> [] \<longrightarrow> length l + 1 \<le> alcd')"
proof -
  have "take (length (nextline s)) s = nextline s" for s
    by (cases "NL \<in> set s") (auto simp: nextline_def dest!: split_list_first)
  with ib_getlin_good [OF assms] show ?thesis by (metis append_take_drop_id)
qed

theorem ib_getlin_next_witness:
  "ib_lgood (ib_alloc 1 fd_sample 0) \<and>
   (case ib_getlin (ib_alloc 1 fd_sample 0) 0 of (l, alcd, ip) \<Rightarrow>
      l = ''ab'' @ [NL] \<and> ib_rest ip = ''c'' \<and> 4 \<le> alcd)"
proof -
  have g: "ib_lgood (ib_alloc 1 fd_sample 0)" by (simp add: fd_sample_def fd_good_def)
  obtain l a ip where r: "ib_getlin (ib_alloc 1 fd_sample 0) 0 = (l, a, ip)" by (metis prod_cases3)
  have s: "ib_rest (ib_alloc 1 fd_sample 0) = ''ab'' @ [NL] @ ''c''"
    by (simp add: fd_sample_def fd_rest_def)
  have n: "nextline (''ab'' @ [NL] @ ''c'') = ''ab'' @ [NL]" by (simp add: nextline_def)
  note l = ib_getlin_next [OF g r, unfolded s n]
  then have "l = ''ab'' @ [NL]" "''ab'' @ [NL] @ ''c'' = l @ ib_rest ip" "l \<noteq> [] \<longrightarrow> length l + 1 \<le> a"
    by blast+
  with g show ?thesis unfolding r by simp
qed

text \<open>
  (C3) \<open>ib_getw\<close> loses no byte and delivers none twice: the byte sequences it returns, one after
  the other, are the file, for every \<open>mbtowc\<close> that does not claim more bytes than it is given
  (invalid sequences included).
\<close>

theorem ib_getw_no_loss:
  assumes "mbtowc_ok mb" and "fd_good fd" and "1 \<le> m"
  shows "ib_while_getw mb (\<lambda>(bs, wc) s. s @ bs) (ib_alloc m fd b) [] = fd_rest fd"
proof -
  have "fold (\<lambda>(bs, wc) s. s @ bs) cs s = s @ concat (map fst cs)" for cs :: "(string \<times> int) list" and s
    by (induction cs arbitrary: s) auto
  then show ?thesis using assms by (simp add: ibw.loop_fold concat_mb_chars)
qed

definition utf8_two :: mbtowc where
  "utf8_two s = (case s of
      a # b # _ \<Rightarrow> if 192 \<le> uchar a \<and> uchar a < 224 \<and> 128 \<le> uchar b \<and> uchar b < 192
                  then (2, (uchar a - 192) * 64 + (uchar b - 128)) else (-1, 0)
    | _ \<Rightarrow> (-1, 0))"

theorem ib_getw_no_loss_witness:
  "mbtowc_ok utf8_two \<and> fd_good (fd_sample\<lparr>fd_file := [CHR 0xC3, CHR 0xA4, CHR 0xFF]\<rparr>) \<and>
   ib_while_getw utf8_two (\<lambda>(bs, wc) s. s @ bs)
     (ib_alloc 6 (fd_sample\<lparr>fd_file := [CHR 0xC3, CHR 0xA4, CHR 0xFF]\<rparr>) 0) [] =
   [CHR 0xC3, CHR 0xA4, CHR 0xFF]"
proof -
  have m: "mbtowc_ok utf8_two" by (auto simp: mbtowc_ok_def utf8_two_def split: list.splits)
  have g: "fd_good (fd_sample\<lparr>fd_file := [CHR 0xC3, CHR 0xA4, CHR 0xFF]\<rparr>)"
    by (simp add: fd_sample_def fd_good_def)
  have one: "1 \<le> (6::nat)" by simp
  show ?thesis
    using m g ib_getw_no_loss [OF m g one, of 0] by (simp add: fd_sample_def fd_rest_def)
qed

text \<open>
  (C4) \<open>ib_seek\<close> with \<open>SEEK_SET\<close>, whether it moves within the buffer or calls \<open>lseek\<close>, returns the
  offset and leaves exactly the bytes of the file from that offset on to be read; the buffer
  stays consistent with the file.
\<close>

theorem ib_seek_set_correct:
  assumes "ib_sync ip" and "0 \<le> off" and "ib_seek ip off SEEK_SET = (r, ip')" and "r \<noteq> -1"
  shows "r = off \<and> ib_rest ip' = drop (nat off) (fd_file (ib_fd ip)) \<and> ib_sync ip'"
  using ib_seek_set [OF assms] by simp

definition ib_sample :: iblok where
  "ib_sample = snd (ib_get (snd (ib_get (snd (ib_seek (ib_alloc 1 fd_sample 0) 0 SEEK_SET)))))"

theorem ib_seek_set_correct_witness:
  "ib_sync ib_sample \<and> fst (ib_seek ib_sample 1 SEEK_SET) = 1 \<and>
   ib_rest (snd (ib_seek ib_sample 1 SEEK_SET)) = ''b'' @ [NL] @ ''c''"
proof -
  have s0: "ib_sync (snd (ib_seek (ib_alloc 1 fd_sample 0) 0 SEEK_SET))"
    by (simp add: ib_seek_def sys_lseek_def ib_alloc_def Let_def fd_sample_def ib_sync_def ib_wf_def
        fd_rest_def)
  have s: "ib_sync ib_sample" unfolding ib_sample_def by (intro ib_sync_get s0)
  have k: "fst (ib_seek ib_sample 1 SEEK_SET) = 1" "fd_file (ib_fd ib_sample) = fd_file fd_sample"
    by (simp_all add: ib_sample_def ib_seek_def sys_lseek_def ib_alloc_def Let_def fd_sample_def
        ib_get_def ib_read_def ib_read_loop.simps sys_read_def fd_take_def)
  have r: "ib_seek ib_sample 1 SEEK_SET = (1, snd (ib_seek ib_sample 1 SEEK_SET))"
    using k by (metis prod.collapse)
  show ?thesis
    using s k ib_seek_set_correct [OF s _ r] by (simp add: fd_sample_def)
qed

text \<open>
  \<open>ib_seek\<close> with \<open>SEEK_CUR\<close> ignores its offset argument: it always seeks to the current
  position, unlike \<open>lseek\<close>.
\<close>

lemma ib_seek_cur_ignores_offset: "ib_seek ip off SEEK_CUR = ib_seek ip off' SEEK_CUR"
  by (simp add: ib_seek_def)

end
