(* ===== verification/Oblok.thy ===== *)
theory Oblok
  imports Prelude
begin

text \<open>
  The buffered output of \<open>libcommon\<close> (\<open>oblok.h\<close>, \<open>oblok.c\<close>).  The valid bytes of the array
  \<open>ob_blk\<close> are the list \<open>ob_blk\<close>, its length is \<open>ob_pos\<close>; \<open>ob_errs\<close> records the calls of
  \<open>writerr(op, count, written)\<close>, which the calling program supplies.  A descriptor for
  writing is the bytes it has accepted and what the kernel will do at the next calls of \<open>write\<close>.
\<close>

section \<open>The kernel's side\<close>

datatype wrev = WShort nat | WErr int

record wfd =
  w_out :: string
  w_tty :: bool
  w_evs :: "wrev list"

datatype wres = WOk nat | WFail int

definition w_accept :: "nat \<Rightarrow> string \<Rightarrow> wfd \<Rightarrow> wres \<times> wfd" where
  "w_accept k data w = (WOk (length (take k data)), w\<lparr>w_out := w_out w @ take k data\<rparr>)"

definition sys_write :: "string \<Rightarrow> wfd \<Rightarrow> wres \<times> wfd" where
  "sys_write data w =
     (case w_evs w of
        [] \<Rightarrow> w_accept (length data) data w
      | WShort k # es \<Rightarrow> w_accept k data (w\<lparr>w_evs := es\<rparr>)
      | WErr e # es \<Rightarrow> (WFail e, w\<lparr>w_evs := es\<rparr>))"

definition w_good :: "wfd \<Rightarrow> bool" where
  "w_good w \<longleftrightarrow> (\<forall>e. WErr e \<in> set (w_evs w) \<longrightarrow> e = EINTR)"

section \<open>The data\<close>

datatype ob_mode = OB_EBF | OB_NBF | OB_LBF | OB_FBF

definition OBLOK :: nat where "OBLOK = 4096"

record oblok =
  ob_blk :: string
  ob_wrt :: int
  ob_fd :: wfd
  ob_bf :: ob_mode
  ob_errs :: "(nat \<times> nat) list"

abbreviation ob_pos :: "oblok \<Rightarrow> nat" where
  "ob_pos op \<equiv> length (ob_blk op)"

definition ob_alloc :: "wfd \<Rightarrow> ob_mode \<Rightarrow> oblok" where
  "ob_alloc fd bf =
     \<lparr>ob_blk = [], ob_wrt = 0, ob_fd = fd,
      ob_bf = (if bf = OB_EBF then (if w_tty fd then OB_LBF else OB_FBF) else bf), ob_errs = []\<rparr>"

section \<open>Writing\<close>

text \<open>
  \<open>swrite\<close>: \<open>wt\<close> bytes have been written, \<open>data\<close> is the rest.  The \<open>continue\<close> after \<open>EINTR\<close> goes to
  the loop condition.
\<close>

function swrite_loop :: "nat \<Rightarrow> string \<Rightarrow> wfd \<Rightarrow> nat \<times> wfd" where
  "swrite_loop wt data w =
     (case sys_write data w of
        (WFail e, w') \<Rightarrow>
          if e = EINTR then (if data \<noteq> [] then swrite_loop wt data w' else (wt, w')) else (wt, w')
      | (WOk k, w') \<Rightarrow>
          if drop k data \<noteq> [] then swrite_loop (wt + k) (drop k data) w'
          else (wt + length data, w'))"
  by pat_completeness auto
termination
  by (relation "measure (\<lambda>(wt, data, w). length (w_evs w))")
     (auto simp: sys_write_def w_accept_def split: list.splits wrev.splits)

declare swrite_loop.simps [simp del]

definition swrite :: "string \<Rightarrow> wfd \<Rightarrow> nat \<times> wfd" where
  "swrite data w = swrite_loop 0 data w"

text \<open>
  One write of a chunk: the new state if all of it was written, otherwise the state after
  \<open>op->ob_bf = OB_EBF; writerr(op, count, wrt)\<close>.
\<close>

definition ob_out :: "oblok \<Rightarrow> string \<Rightarrow> nat \<Rightarrow> oblok + oblok" where
  "ob_out op chunk count =
     (case swrite chunk (ob_fd op) of
        (wrt, w) \<Rightarrow>
          (let op' = op\<lparr>ob_fd := w, ob_wrt := ob_wrt op + int wrt\<rparr>
           in if wrt \<noteq> length chunk
              then Inl (op'\<lparr>ob_bf := OB_EBF, ob_errs := ob_errs op' @ [(count, wrt)]\<rparr>)
              else Inr op'))"

text \<open>\<open>while (op->ob_pos + sz > OBLOK)\<close>: fill the block and write it.\<close>

function ob_fullblocks :: "string \<Rightarrow> oblok \<Rightarrow> oblok + (string \<times> oblok)" where
  "ob_fullblocks data op =
     (if ob_pos op + length data > OBLOK
      then (let di = OBLOK - ob_pos op;
                chunk = (if ob_pos op > 0 then ob_blk op @ take di data else take OBLOK data)
            in case ob_out op chunk OBLOK of
                 Inl op' \<Rightarrow> Inl op'
               | Inr op' \<Rightarrow> ob_fullblocks (drop di data) (op'\<lparr>ob_blk := []\<rparr>))
      else Inr (data, op))"
  by pat_completeness auto
termination
  by (relation "measure (\<lambda>(data, op). length data + ob_pos op)")
     (auto simp: ob_out_def OBLOK_def Let_def split: prod.splits if_splits)

declare ob_fullblocks.simps [simp del]

text \<open>
  The scan of the line buffered mode; \<open>k\<close> is \<open>cp - data\<close>.  After a line has been written \<open>cp\<close> is
  set to the new \<open>data\<close> and then incremented.
\<close>

function ob_lines :: "nat \<Rightarrow> string \<Rightarrow> oblok \<Rightarrow> oblok + (string \<times> oblok)" where
  "ob_lines k data op =
     (if k < length data
      then if data ! k = NL
           then (let di = k + 1;
                     chunk = (if ob_pos op > 0 then ob_blk op @ take di data else take di data)
                 in case ob_out op chunk di of
                      Inl op' \<Rightarrow> Inl op'
                    | Inr op' \<Rightarrow> ob_lines 1 (drop di data) (op'\<lparr>ob_blk := []\<rparr>))
           else ob_lines (k + 1) data op
      else Inr (data, op))"
  by pat_completeness auto
termination
  by (relation "measure (\<lambda>(k, data, op). length data - k)") auto

declare ob_lines.simps [simp del]

text \<open>The end of \<open>ob_write\<close>: what is left goes to the device or into the block.\<close>

definition ob_tail :: "nat \<Rightarrow> string \<Rightarrow> oblok \<Rightarrow> int \<times> oblok" where
  "ob_tail isz data op =
     (if length data = OBLOK
      then (case ob_out op data (length data) of
              Inl op' \<Rightarrow> (-1, op')
            | Inr op' \<Rightarrow> (int isz, op'))
      else (int isz, op\<lparr>ob_blk := ob_blk op @ data\<rparr>))"

definition ob_write :: "oblok \<Rightarrow> string \<Rightarrow> int \<times> oblok" where
  "ob_write op data =
     (case ob_bf op of
        OB_NBF \<Rightarrow>
          (case ob_out op data (length data) of
             Inl op' \<Rightarrow> (-1, op')
           | Inr op' \<Rightarrow> (int (length data), op'))
      | OB_EBF \<Rightarrow> (-1, op)
      | _ \<Rightarrow>
          (case ob_fullblocks data op of
             Inl op' \<Rightarrow> (-1, op')
           | Inr (data', op') \<Rightarrow>
               if ob_bf op' = OB_LBF
               then (case ob_lines 0 data' op' of
                       Inl op'' \<Rightarrow> (-1, op'')
                     | Inr (data'', op'') \<Rightarrow> ob_tail (length data) data'' op'')
               else ob_tail (length data) data' op'))"

definition ob_flush :: "oblok \<Rightarrow> int \<times> oblok" where
  "ob_flush op =
     (if ob_pos op \<noteq> 0
      then (case ob_out op (ob_blk op) (ob_pos op) of
              Inl op' \<Rightarrow> (-1, op'\<lparr>ob_blk := []\<rparr>)
            | Inr op' \<Rightarrow> (int (ob_pos op), op'\<lparr>ob_blk := []\<rparr>))
      else (0, op))"

definition ob_chr :: "int \<Rightarrow> oblok \<Rightarrow> int \<times> oblok" where
  "ob_chr c op = (case ob_write op [to_char c] of (wrt, op') \<Rightarrow> (if wrt < 0 then eof else c, op'))"

definition ob_put :: "int \<Rightarrow> oblok \<Rightarrow> int \<times> oblok" where
  "ob_put c op =
     (if ob_bf op \<noteq> OB_FBF \<or> ob_pos op \<ge> OBLOK - 1 then ob_chr c op
      else (schar (to_char c), op\<lparr>ob_blk := ob_blk op @ [to_char c]\<rparr>))"

section \<open>The list of buffers\<close>

text \<open>
  The list \<open>bloks\<close> of all buffers, which \<open>ob_clear\<close> flushes at exit; a buffer is identified by its
  address.
\<close>

type_synonym bloks = "(nat \<times> oblok) list"

fun ob_clear_loop :: "int \<Rightarrow> bloks \<Rightarrow> int \<times> bloks" where
  "ob_clear_loop val [] = (val, [])"
| "ob_clear_loop val ((a, op) # bs) =
     (case ob_flush op of
        (r, op') \<Rightarrow>
          (case ob_clear_loop (if r < 0 then -1 else if val \<ge> 0 then val + 1 else val) bs of
             (v, bs') \<Rightarrow> (v, (a, op') # bs')))"

definition ob_clear :: "bloks \<Rightarrow> int \<times> bloks" where
  "ob_clear bloks = ob_clear_loop 0 bloks"

definition add :: "nat \<Rightarrow> oblok \<Rightarrow> bloks \<Rightarrow> bloks" where
  "add a op bloks = bloks @ [(a, op)]"

fun del :: "nat \<Rightarrow> bloks \<Rightarrow> bloks" where
  "del a [] = []"
| "del a ((b, op) # bs) = (if b = a then bs else (b, op) # del a bs)"

definition ob_free :: "nat \<Rightarrow> oblok \<Rightarrow> bloks \<Rightarrow> int \<times> oblok \<times> bloks" where
  "ob_free a op bloks = (case ob_flush op of (wrt, op') \<Rightarrow> (wrt, op', del a bloks))"

section \<open>Correctness of the writes\<close>

lemma sys_write_ok:
  assumes "sys_write data w = (WOk k, w')"
  shows "k \<le> length data" "w_out w' = w_out w @ take k data" "set (w_evs w') \<subseteq> set (w_evs w)"
proof -
  obtain n w0 where a: "w_accept n data w0 = (WOk k, w')" "w_out w0 = w_out w"
    "set (w_evs w0) \<subseteq> set (w_evs w)"
  proof (cases "w_evs w")
    case Nil
    with assms that [of "length data" w] show ?thesis by (simp add: sys_write_def)
  next
    case (Cons e es)
    with assms obtain n where "e = WShort n" by (cases e) (auto simp: sys_write_def)
    with assms Cons that [of n "w\<lparr>w_evs := es\<rparr>"] show ?thesis by (simp add: sys_write_def subset_insertI)
  qed
  then show "k \<le> length data" "w_out w' = w_out w @ take k data" "set (w_evs w') \<subseteq> set (w_evs w)"
    by (auto simp: w_accept_def) (simp add: min_def)
qed

lemma sys_write_fail:
  assumes "sys_write data w = (WFail e, w')"
  shows "w_out w' = w_out w" "set (w_evs w') \<subseteq> set (w_evs w)" "WErr e \<in> set (w_evs w)"
  using assms by (auto simp: sys_write_def w_accept_def split: list.splits wrev.splits)

lemma w_good_mono: "set (w_evs w') \<subseteq> set (w_evs w) \<Longrightarrow> w_good w \<Longrightarrow> w_good w'"
  by (auto simp: w_good_def)

lemma swrite_loop_ok:
  "swrite_loop wt data w = (n, w') \<Longrightarrow>
     \<exists>j \<le> length data. n = wt + j \<and> w_out w' = w_out w @ take j data \<and>
       (w_good w \<longrightarrow> j = length data \<and> w_good w')"
proof (induction wt data w rule: swrite_loop.induct)
  case (1 wt data w)
  note simps = swrite_loop.simps [of wt data w]
  obtain r w1 where s: "sys_write data w = (r, w1)" by fastforce
  show ?case
  proof (cases r)
    case (WFail e)
    note f = sys_write_fail [OF s [unfolded WFail]]
    have g: "w_good w \<Longrightarrow> e = EINTR \<and> w_good w1" using f w_good_mono by (auto simp: w_good_def)
    show ?thesis
    proof (cases "e = EINTR \<and> data \<noteq> []")
      case True
      then have "swrite_loop wt data w1 = (n, w')" using "1.prems" s WFail by (simp add: simps)
      with "1.IH"(2) [OF s [symmetric] WFail] True f(1) g show ?thesis by auto
    next
      case False
      then have "n = wt" "w' = w1" using "1.prems" s WFail by (auto simp: simps split: if_splits)
      with f(1) g False show ?thesis by (intro exI [of _ 0]) auto
    qed
  next
    case (WOk k)
    note f = sys_write_ok [OF s [unfolded WOk]]
    note g = w_good_mono [OF f(3)]
    show ?thesis
    proof (cases "drop k data = []")
      case True
      then have "n = wt + length data" "w' = w1" "take k data = data" "k \<ge> length data"
        using "1.prems" s WOk by (auto simp: simps)
      with f(1,2) g show ?thesis by (intro exI [of _ "length data"]) auto
    next
      case False
      then have "swrite_loop (wt + k) (drop k data) w1 = (n, w')" using "1.prems" s WOk by (simp add: simps)
      with "1.IH"(1) [OF s [symmetric] WOk False] obtain j where
        j: "j \<le> length data - k" "n = wt + k + j" "w_out w' = w_out w1 @ take j (drop k data)"
        "w_good w1 \<longrightarrow> j = length data - k \<and> w_good w'" by auto
      with f(1,2) g show ?thesis by (intro exI [of _ "k + j"]) (auto simp: take_add)
    qed
  qed
qed

lemma swrite_ok:
  assumes "swrite data w = (n, w')"
  shows "n \<le> length data" "w_out w' = w_out w @ take n data"
    "w_good w \<Longrightarrow> n = length data \<and> w_good w'"
  using swrite_loop_ok [of 0 data w n w'] assms by (auto simp: swrite_def)

text \<open>What the calling program has handed over so far: on the device or in the block.\<close>

definition ob_all :: "oblok \<Rightarrow> string" where
  "ob_all op = w_out (ob_fd op) @ ob_blk op"

definition ob_inv :: "oblok \<Rightarrow> bool" where
  "ob_inv op \<longleftrightarrow> ob_pos op \<le> OBLOK \<and> (ob_bf op = OB_NBF \<longrightarrow> ob_blk op = [])"

lemma ob_out_Inr:
  assumes "ob_out op chunk count = Inr op'"
  shows "w_out (ob_fd op') = w_out (ob_fd op) @ chunk" "ob_blk op' = ob_blk op"
    "ob_bf op' = ob_bf op" "ob_errs op' = ob_errs op" "w_good (ob_fd op) \<Longrightarrow> w_good (ob_fd op')"
proof -
  obtain n w where s: "swrite chunk (ob_fd op) = (n, w)" by fastforce
  from assms have "n = length chunk" "op' = op\<lparr>ob_fd := w, ob_wrt := ob_wrt op + int n\<rparr>"
    by (auto simp: ob_out_def s Let_def split: if_splits)
  with swrite_ok [OF s]
  show "w_out (ob_fd op') = w_out (ob_fd op) @ chunk" "ob_blk op' = ob_blk op"
    "ob_bf op' = ob_bf op" "ob_errs op' = ob_errs op" "w_good (ob_fd op) \<Longrightarrow> w_good (ob_fd op')"
    by simp_all
qed

lemma ob_out_Inl:
  assumes "ob_out op chunk count = Inl op'"
  shows "prefix (w_out (ob_fd op')) (w_out (ob_fd op) @ chunk)" "ob_bf op' = OB_EBF"
    "\<not> w_good (ob_fd op)" "ob_blk op' = ob_blk op"
proof -
  obtain n w where s: "swrite chunk (ob_fd op) = (n, w)" by fastforce
  from assms have n: "n \<noteq> length chunk" and op': "op' = op\<lparr>ob_fd := w, ob_wrt := ob_wrt op + int n,
      ob_bf := OB_EBF, ob_errs := ob_errs op @ [(count, n)]\<rparr>"
    by (auto simp: ob_out_def s Let_def split: if_splits)
  show "prefix (w_out (ob_fd op')) (w_out (ob_fd op) @ chunk)" "ob_bf op' = OB_EBF"
    "ob_blk op' = ob_blk op"
    using swrite_ok(2) [OF s] by (simp_all add: op' take_is_prefix)
  show "\<not> w_good (ob_fd op)" using swrite_ok(3) [OF s] n by blast
qed

text \<open>
  The result of one of the parts of \<open>ob_write\<close>: a failure leaves a prefix of the data on the
  device and switches to the error mode; a success neither loses nor reorders anything.
\<close>

definition ob_step :: "oblok \<Rightarrow> string \<Rightarrow> oblok + (string \<times> oblok) \<Rightarrow> bool" where
  "ob_step op data res =
     (case res of
        Inl op' \<Rightarrow> ob_bf op' = OB_EBF \<and> prefix (w_out (ob_fd op')) (ob_all op @ data) \<and>
          \<not> w_good (ob_fd op) \<and> ob_pos op' \<le> OBLOK
      | Inr (data', op') \<Rightarrow> ob_all op' @ data' = ob_all op @ data \<and>
          ob_pos op' + length data' \<le> OBLOK \<and> ob_bf op' = ob_bf op \<and>
          (w_good (ob_fd op) \<longrightarrow> w_good (ob_fd op')))"

lemma ob_step_next:
  assumes "ob_out op (ob_blk op @ take di data) count = Inr op'"
    "ob_step (op'\<lparr>ob_blk := []\<rparr>) (drop di data) res"
  shows "ob_step op data res"
proof -
  note o = ob_out_Inr [OF assms(1)]
  have "ob_all (op'\<lparr>ob_blk := []\<rparr>) @ drop di data = ob_all op @ data" using o by (simp add: ob_all_def)
  with assms(2) o show ?thesis by (auto simp: ob_step_def split: sum.splits prod.splits)
qed

lemma ob_step_fail:
  assumes "ob_out op (ob_blk op @ take di data) count = Inl op'" "ob_pos op \<le> OBLOK"
  shows "ob_step op data (Inl op')"
proof -
  note o = ob_out_Inl [OF assms(1)]
  have "prefix (w_out (ob_fd op')) (ob_all op @ data)"
    using o(1) unfolding ob_all_def
    by (metis append_assoc append_take_drop_id prefix_prefix)
  with o assms(2) show ?thesis by (simp add: ob_step_def)
qed

lemma ob_fullblocks_step: "ob_pos op \<le> OBLOK \<Longrightarrow> ob_step op data (ob_fullblocks data op)"
proof (induction data op rule: ob_fullblocks.induct)
  case (1 data op)
  note simps = ob_fullblocks.simps [of data op]
  let ?di = "OBLOK - ob_pos op"
  let ?chunk = "if ob_pos op > 0 then ob_blk op @ take ?di data else take OBLOK data"
  have chunk: "?chunk = ob_blk op @ take ?di data" by auto
  show ?case
  proof (cases "ob_pos op + length data > OBLOK")
    case True
    show ?thesis
    proof (cases "ob_out op ?chunk OBLOK")
      case (Inl op')
      with True ob_step_fail [OF _ "1.prems", of ?di data OBLOK op'] show ?thesis
        unfolding simps Let_def chunk by simp
    next
      case (Inr op')
      have "ob_step (op'\<lparr>ob_blk := []\<rparr>) (drop ?di data) (ob_fullblocks (drop ?di data) (op'\<lparr>ob_blk := []\<rparr>))"
        using "1.IH" [OF True refl refl Inr] by simp
      with ob_step_next [of op ?di data OBLOK op'] Inr True show ?thesis
        unfolding simps Let_def chunk by simp
    qed
  next
    case False
    then show ?thesis by (simp add: simps ob_step_def)
  qed
qed

lemma ob_lines_step: "ob_pos op + length data \<le> OBLOK \<Longrightarrow> ob_step op data (ob_lines k data op)"
proof (induction k data op rule: ob_lines.induct)
  case (1 k data op)
  note simps = ob_lines.simps [of k data op]
  let ?di = "k + 1"
  let ?chunk = "if ob_pos op > 0 then ob_blk op @ take ?di data else take ?di data"
  have chunk: "?chunk = ob_blk op @ take ?di data" by auto
  show ?case
  proof (cases "k < length data")
    case k: True
    show ?thesis
    proof (cases "data ! k = NL")
      case nl: True
      show ?thesis
      proof (cases "ob_out op ?chunk ?di")
        case (Inl op')
        with k nl ob_step_fail [of op ?di data ?di op'] "1.prems" show ?thesis
          unfolding simps Let_def chunk by simp
      next
        case (Inr op')
        have "ob_step (op'\<lparr>ob_blk := []\<rparr>) (drop ?di data) (ob_lines 1 (drop ?di data) (op'\<lparr>ob_blk := []\<rparr>))"
          using "1.prems" by (intro "1.IH"(1) [OF k nl refl refl Inr]) auto
        with ob_step_next [of op ?di data ?di op'] Inr k nl show ?thesis
          unfolding simps Let_def chunk by simp
      qed
    next
      case False
      with "1.IH"(2) [OF k False] "1.prems" k show ?thesis by (simp add: simps)
    qed
  next
    case False
    with "1.prems" show ?thesis by (simp add: simps ob_step_def)
  qed
qed

lemma ob_tail_ok:
  assumes "ob_pos op + length data \<le> OBLOK" "ob_tail isz data op = (r, op')"
  shows "r \<noteq> -1 \<Longrightarrow> r = int isz \<and> ob_all op' = ob_all op @ data \<and> ob_pos op' \<le> OBLOK \<and>
      ob_bf op' = ob_bf op \<and> (w_good (ob_fd op) \<longrightarrow> w_good (ob_fd op'))"
    and "r = -1 \<Longrightarrow> ob_bf op' = OB_EBF \<and> prefix (w_out (ob_fd op')) (ob_all op @ data) \<and>
      \<not> w_good (ob_fd op) \<and> ob_pos op' \<le> OBLOK"
proof -
  have "(r \<noteq> -1 \<longrightarrow> r = int isz \<and> ob_all op' = ob_all op @ data \<and> ob_pos op' \<le> OBLOK \<and>
      ob_bf op' = ob_bf op \<and> (w_good (ob_fd op) \<longrightarrow> w_good (ob_fd op'))) \<and>
    (r = -1 \<longrightarrow> ob_bf op' = OB_EBF \<and> prefix (w_out (ob_fd op')) (ob_all op @ data) \<and>
      \<not> w_good (ob_fd op) \<and> ob_pos op' \<le> OBLOK)"
  proof (cases "length data = OBLOK")
    case True
    with assms(1) have b: "ob_blk op = []" by simp
    show ?thesis
    proof (cases "ob_out op data (length data)")
      case (Inl op1)
      with assms(2) True ob_out_Inl [OF Inl] b show ?thesis by (simp add: ob_tail_def ob_all_def)
    next
      case (Inr op1)
      with assms(2) True ob_out_Inr [OF Inr] b show ?thesis by (auto simp: ob_tail_def ob_all_def)
    qed
  next
    case False
    with assms show ?thesis by (auto simp: ob_tail_def ob_all_def)
  qed
  then show "r \<noteq> -1 \<Longrightarrow> r = int isz \<and> ob_all op' = ob_all op @ data \<and> ob_pos op' \<le> OBLOK \<and>
      ob_bf op' = ob_bf op \<and> (w_good (ob_fd op) \<longrightarrow> w_good (ob_fd op'))"
    and "r = -1 \<Longrightarrow> ob_bf op' = OB_EBF \<and> prefix (w_out (ob_fd op')) (ob_all op @ data) \<and>
      \<not> w_good (ob_fd op) \<and> ob_pos op' \<le> OBLOK" by blast+
qed

text \<open>The buffered modes of \<open>ob_write\<close> as a chain of two steps and the tail.\<close>

lemma ob_write_buffered:
  assumes "ob_bf op = OB_LBF \<or> ob_bf op = OB_FBF" "ob_pos op \<le> OBLOK" "ob_write op data = (r, op')"
  obtains (fail) "r = -1" "ob_step op data (Inl op')"
  | (tail) data1 op1 where "ob_step op data (Inr (data1, op1))"
      "ob_tail (length data) data1 op1 = (r, op')"
proof (cases "ob_fullblocks data op")
  case (Inl op1)
  with ob_fullblocks_step [OF assms(2), of data] assms fail show thesis
    by (auto simp: ob_write_def split: ob_mode.splits)
next
  case (Inr p)
  obtain data1 op1 where p: "p = (data1, op1)" by fastforce
  have st: "ob_step op data (Inr (data1, op1))"
    using ob_fullblocks_step [OF assms(2), of data] Inr p by simp
  then have bf: "ob_bf op1 = ob_bf op" and le: "ob_pos op1 + length data1 \<le> OBLOK"
    by (auto simp: ob_step_def)
  show thesis
  proof (cases "ob_bf op = OB_LBF")
    case False
    with assms Inr p bf st tail show thesis by (auto simp: ob_write_def split: ob_mode.splits)
  next
    case True
    show thesis
    proof (cases "ob_lines 0 data1 op1")
      case i: (Inl op2)
      with ob_lines_step [OF le, of 0] have "ob_step op1 data1 (Inl op2)" by simp
      with st have "ob_step op data (Inl op2)" by (auto simp: ob_step_def)
      with assms Inr p i True bf fail show thesis by (auto simp: ob_write_def)
    next
      case i: (Inr q)
      obtain data2 op2 where q: "q = (data2, op2)" by fastforce
      with ob_lines_step [OF le, of 0] i have "ob_step op1 data1 (Inr (data2, op2))" by simp
      with st have "ob_step op data (Inr (data2, op2))" by (auto simp: ob_step_def)
      with assms Inr p i q True bf tail show thesis by (auto simp: ob_write_def)
    qed
  qed
qed

lemma ob_write_ok:
  assumes inv: "ob_inv op" and w: "ob_write op data = (r, op')" and r: "r \<noteq> -1"
  shows "r = int (length data) \<and> ob_all op' = ob_all op @ data \<and> ob_inv op' \<and> ob_bf op' = ob_bf op \<and>
    (w_good (ob_fd op) \<longrightarrow> w_good (ob_fd op'))"
proof (cases "ob_bf op")
  case OB_EBF
  with w r show ?thesis by (simp add: ob_write_def)
next
  case OB_NBF
  then show ?thesis
  proof (cases "ob_out op data (length data)")
    case (Inl op1)
    with OB_NBF w r show ?thesis by (simp add: ob_write_def)
  next
    case (Inr op1)
    from ob_out_Inr [OF Inr] OB_NBF Inr w inv show ?thesis by (auto simp: ob_write_def ob_all_def ob_inv_def)
  qed
next
  case OB_LBF
  from inv have le: "ob_pos op \<le> OBLOK" by (simp add: ob_inv_def)
  from OB_LBF have m: "ob_bf op = OB_LBF \<or> ob_bf op = OB_FBF" by simp
  show ?thesis
  proof (cases rule: ob_write_buffered [OF m le w, case_names fail tail])
    case (tail data1 op1)
    then have le1: "ob_pos op1 + length data1 \<le> OBLOK" by (simp add: ob_step_def)
    from ob_tail_ok(1) [OF le1 tail(2) r] tail(1) OB_LBF show ?thesis by (simp add: ob_step_def ob_inv_def)
  qed (use r in simp)
next
  case OB_FBF
  from inv have le: "ob_pos op \<le> OBLOK" by (simp add: ob_inv_def)
  from OB_FBF have m: "ob_bf op = OB_LBF \<or> ob_bf op = OB_FBF" by simp
  show ?thesis
  proof (cases rule: ob_write_buffered [OF m le w, case_names fail tail])
    case (tail data1 op1)
    then have le1: "ob_pos op1 + length data1 \<le> OBLOK" by (simp add: ob_step_def)
    from ob_tail_ok(1) [OF le1 tail(2) r] tail(1) OB_FBF show ?thesis by (simp add: ob_step_def ob_inv_def)
  qed (use r in simp)
qed

lemma ob_write_err:
  assumes inv: "ob_inv op" and w: "ob_write op data = (-1, op')"
  shows "ob_bf op' = OB_EBF \<and> ob_inv op' \<and>
    (ob_bf op \<noteq> OB_EBF \<longrightarrow> prefix (w_out (ob_fd op')) (ob_all op @ data) \<and> \<not> w_good (ob_fd op))"
proof (cases "ob_bf op = OB_EBF \<or> ob_bf op = OB_NBF")
  case True
  show ?thesis
  proof (cases "ob_bf op = OB_EBF")
    case False
    with True have nbf: "ob_bf op = OB_NBF" by simp
    then show ?thesis
    proof (cases "ob_out op data (length data)")
      case (Inl op1)
      from ob_out_Inl [OF Inl] nbf Inl w inv show ?thesis by (auto simp: ob_write_def ob_all_def ob_inv_def)
    next
      case (Inr op1)
      with nbf w show ?thesis by (simp add: ob_write_def)
    qed
  qed (use inv w in \<open>auto simp: ob_write_def\<close>)
next
  case False
  then have m: "ob_bf op = OB_LBF \<or> ob_bf op = OB_FBF" by (cases "ob_bf op") auto
  from inv have le: "ob_pos op \<le> OBLOK" by (simp add: ob_inv_def)
  show ?thesis
  proof (cases rule: ob_write_buffered [OF m le w, case_names fail tail])
    case fail
    then show ?thesis by (simp add: ob_step_def ob_inv_def)
  next
    case (tail data1 op1)
    then have le1: "ob_pos op1 + length data1 \<le> OBLOK" by (simp add: ob_step_def)
    from ob_tail_ok(2) [OF le1 tail(2) refl] tail(1) show ?thesis by (auto simp: ob_step_def ob_inv_def)
  qed
qed

lemma ob_flush_ok:
  assumes "ob_inv op" "ob_flush op = (r, op')"
  shows "r \<noteq> -1 \<Longrightarrow> r = int (ob_pos op) \<and> w_out (ob_fd op') = ob_all op \<and> ob_blk op' = [] \<and> ob_inv op' \<and>
      ob_bf op' = ob_bf op \<and> (w_good (ob_fd op) \<longrightarrow> w_good (ob_fd op'))"
    and "r = -1 \<Longrightarrow> ob_bf op' = OB_EBF \<and> prefix (w_out (ob_fd op')) (ob_all op) \<and> \<not> w_good (ob_fd op)"
proof -
  have "(r \<noteq> -1 \<longrightarrow> r = int (ob_pos op) \<and> w_out (ob_fd op') = ob_all op \<and> ob_blk op' = [] \<and> ob_inv op' \<and>
      ob_bf op' = ob_bf op \<and> (w_good (ob_fd op) \<longrightarrow> w_good (ob_fd op'))) \<and>
    (r = -1 \<longrightarrow> ob_bf op' = OB_EBF \<and> prefix (w_out (ob_fd op')) (ob_all op) \<and> \<not> w_good (ob_fd op))"
  proof (cases "ob_pos op = 0")
    case False
    show ?thesis
    proof (cases "ob_out op (ob_blk op) (ob_pos op)")
      case (Inl op1)
      with False assms have "r = -1" "op' = op1\<lparr>ob_blk := []\<rparr>" by (simp_all add: ob_flush_def)
      with ob_out_Inl [OF Inl] show ?thesis by (simp add: ob_all_def)
    next
      case (Inr op1)
      with False assms have "r = int (ob_pos op)" "op' = op1\<lparr>ob_blk := []\<rparr>" by (simp_all add: ob_flush_def)
      with ob_out_Inr [OF Inr] assms(1) show ?thesis by (simp add: ob_all_def ob_inv_def)
    qed
  qed (use assms in \<open>auto simp: ob_flush_def ob_all_def\<close>)
  then show "r \<noteq> -1 \<Longrightarrow> r = int (ob_pos op) \<and> w_out (ob_fd op') = ob_all op \<and> ob_blk op' = [] \<and> ob_inv op' \<and>
      ob_bf op' = ob_bf op \<and> (w_good (ob_fd op) \<longrightarrow> w_good (ob_fd op'))"
    and "r = -1 \<Longrightarrow> ob_bf op' = OB_EBF \<and> prefix (w_out (ob_fd op')) (ob_all op) \<and> \<not> w_good (ob_fd op)"
    by blast+
qed

interpretation obw: writer ob_write ob_flush "\<lambda>op. w_out (ob_fd op)" ob_blk
  "\<lambda>op. ob_inv op \<and> ob_bf op \<noteq> OB_EBF" "\<lambda>op. w_good (ob_fd op)"
proof
  fix op op' :: oblok and d r
  assume live: "ob_inv op \<and> ob_bf op \<noteq> OB_EBF"
  show "ob_write op d = (r, op') \<Longrightarrow> r \<noteq> -1 \<Longrightarrow>
      w_out (ob_fd op') @ ob_blk op' = w_out (ob_fd op) @ ob_blk op @ d \<and>
      ob_inv op' \<and> ob_bf op' \<noteq> OB_EBF"
    using ob_write_ok [of op d r op'] live by (simp add: ob_all_def)
  show "ob_flush op = (r, op') \<Longrightarrow> r \<noteq> -1 \<Longrightarrow>
      w_out (ob_fd op') = w_out (ob_fd op) @ ob_blk op \<and> ob_blk op' = [] \<and>
      ob_inv op' \<and> ob_bf op' \<noteq> OB_EBF"
    using ob_flush_ok(1) [of op r op'] live by (simp add: ob_all_def)
  assume g: "w_good (ob_fd op)"
  show "fst (ob_write op d) \<noteq> -1 \<and> w_good (ob_fd (snd (ob_write op d)))"
  proof (cases "ob_write op d")
    case (Pair r1 op1)
    with ob_write_err [of op d op1] ob_write_ok [of op d r1 op1] live g show ?thesis by fastforce
  qed
  show "fst (ob_flush op) \<noteq> -1 \<and> w_good (ob_fd (snd (ob_flush op)))"
  proof (cases "ob_flush op")
    case (Pair r1 op1)
    with ob_flush_ok [of op r1 op1] live g show ?thesis by fastforce
  qed
qed

lemma ob_fullblocks_drop:
  "ob_fullblocks data op = Inr (data', op') \<Longrightarrow>
     \<exists>d. data' = drop d data \<and> (ob_blk op' = [] \<or> ob_blk op' = ob_blk op)"
proof (induction data op rule: ob_fullblocks.induct)
  case (1 data op)
  note simps = ob_fullblocks.simps [of data op]
  let ?di = "OBLOK - ob_pos op"
  show ?case
  proof (cases "ob_pos op + length data > OBLOK")
    case True
    with "1.prems" obtain op1 where o: "ob_out op
        (if ob_pos op > 0 then ob_blk op @ take ?di data else take OBLOK data) OBLOK = Inr op1"
      and f: "ob_fullblocks (drop ?di data) (op1\<lparr>ob_blk := []\<rparr>) = Inr (data', op')"
      by (auto simp: simps Let_def split: sum.splits)
    from "1.IH" [OF True refl refl o f] obtain d where "data' = drop d (drop ?di data)" "ob_blk op' = []"
      by auto
    then show ?thesis by (metis drop_drop)
  next
    case False
    with "1.prems" show ?thesis by (auto simp: simps intro: exI [of _ 0])
  qed
qed

text \<open>Two newlines in a row.\<close>

definition blank_line_in :: "string \<Rightarrow> bool" where
  "blank_line_in s \<longleftrightarrow> (\<exists>i. Suc i < length s \<and> s ! i = NL \<and> s ! Suc i = NL)"

lemma blank_line_drop: "\<not> blank_line_in s \<Longrightarrow> \<not> blank_line_in (drop d s)"
  unfolding blank_line_in_def by (auto simp: less_diff_conv)

lemma ob_lines_no_newline:
  "ob_lines k data op = Inr (data', op') \<Longrightarrow> NL \<notin> set (take k data) \<Longrightarrow> NL \<notin> set (ob_blk op) \<Longrightarrow>
     \<not> blank_line_in data \<Longrightarrow> NL \<notin> set data' \<and> NL \<notin> set (ob_blk op')"
proof (induction k data op rule: ob_lines.induct)
  case (1 k data op)
  note simps = ob_lines.simps [of k data op]
  show ?case
  proof (cases "k < length data")
    case k: True
    show ?thesis
    proof (cases "data ! k = NL")
      case nl: True
      let ?o = "ob_out op (if ob_pos op > 0 then ob_blk op @ take (k + 1) data
          else take (k + 1) data) (k + 1)"
      have "(case ?o of Inl op' \<Rightarrow> Inl op'
          | Inr op' \<Rightarrow> ob_lines 1 (drop (k + 1) data) (op'\<lparr>ob_blk := []\<rparr>)) = Inr (data', op')"
        using k nl "1.prems"(1) unfolding simps Let_def by simp
      then obtain op1 where o: "?o = Inr op1"
        and f: "ob_lines 1 (drop (k + 1) data) (op1\<lparr>ob_blk := []\<rparr>) = Inr (data', op')"
        by (cases ?o) (simp_all del: One_nat_def add_Suc_right)
      have "NL \<notin> set (take 1 (drop (k + 1) data))"
        using nl "1.prems"(4) by (cases "Suc k < length data")
          (auto simp: blank_line_in_def take_Suc_conv_app_nth hd_drop_conv_nth take_Suc)
      with "1.IH"(1) [OF k nl refl refl o f] blank_line_drop [OF "1.prems"(4)] show ?thesis by simp
    next
      case False
      then have "ob_lines (k + 1) data op = Inr (data', op')" using k "1.prems"(1) by (simp add: simps)
      with "1.IH"(2) [OF k False this] False k "1.prems" show ?thesis
        by (simp add: take_Suc_conv_app_nth)
    qed
  next
    case False
    with "1.prems" show ?thesis by (auto simp: simps)
  qed
qed

section \<open>Properties\<close>

text \<open>
  (C5) A write that does not fail returns the number of bytes it was given and appends exactly
  these bytes to what has been handed over, in every buffering mode and across short and
  interrupted writes; the block never overflows.
\<close>

theorem ob_write_refines:
  assumes "ob_inv op" and "ob_write op data = (r, op')" and "r \<noteq> -1"
  shows "r = int (length data) \<and> ob_all op' = ob_all op @ data \<and> ob_inv op' \<and> ob_bf op' = ob_bf op"
  using ob_write_ok [OF assms] by blast

definition w_sample :: "wrev list \<Rightarrow> wfd" where
  "w_sample es = \<lparr>w_out = [], w_tty = True, w_evs = es\<rparr>"

theorem ob_write_refines_witness:
  "ob_inv (ob_alloc (w_sample [WShort 1, WErr 4]) OB_EBF) \<and>
   (case ob_write (ob_alloc (w_sample [WShort 1, WErr 4]) OB_EBF) (''ab'' @ [NL] @ ''c'') of
      (r, op) \<Rightarrow> r = 4 \<and> ob_all op = ''ab'' @ [NL] @ ''c'' \<and> w_out (ob_fd op) = ''ab'' @ [NL])"
proof -
  let ?op = "ob_alloc (w_sample [WShort 1, WErr 4]) OB_EBF" and ?d = "''ab'' @ [NL] @ ''c''"
  have i: "ob_inv ?op" by (simp add: ob_inv_def ob_alloc_def OBLOK_def)
  obtain r op where w: "ob_write ?op ?d = (r, op)" by fastforce
  have c: "r \<noteq> -1" "w_out (ob_fd op) = ''ab'' @ [NL]"
    using w by (auto simp: ob_write_def ob_alloc_def w_sample_def ob_fullblocks.simps OBLOK_def
        ob_lines.simps ob_out_def swrite_def swrite_loop.simps sys_write_def w_accept_def ob_tail_def)
  show ?thesis
    unfolding w prod.case using i c ob_write_refines [OF i w c(1)]
    by (simp add: ob_all_def) (simp add: ob_alloc_def w_sample_def)
qed

text \<open>
  (C6) When a write fails, the device holds a prefix of what was handed over, nothing else; the
  buffer goes into the error mode, in which every further write is refused with -1 and changes
  nothing.
\<close>

theorem ob_write_failure:
  assumes "ob_inv op" and "ob_bf op \<noteq> OB_EBF" and "ob_write op data = (-1, op')"
  shows "prefix (w_out (ob_fd op')) (ob_all op @ data) \<and> ob_bf op' = OB_EBF \<and>
    ob_write op' data' = (-1, op')"
  using ob_write_err [OF assms(1,3)] assms(2) by (simp add: ob_write_def)

theorem ob_write_failure_witness:
  "ob_inv (ob_alloc (w_sample [WShort 1, WErr 28]) OB_NBF) \<and>
   (case ob_write (ob_alloc (w_sample [WShort 1, WErr 28]) OB_NBF) ''abc'' of
      (r, op) \<Rightarrow> r = -1 \<and> w_out (ob_fd op) = ''a'' \<and> ob_errs op = [(3, 1)] \<and>
        ob_write op ''d'' = (-1, op))"
proof -
  let ?op = "ob_alloc (w_sample [WShort 1, WErr 28]) OB_NBF"
  have i: "ob_inv ?op" by (simp add: ob_inv_def ob_alloc_def OBLOK_def)
  have b: "ob_bf ?op \<noteq> OB_EBF" by (simp add: ob_alloc_def)
  obtain r op where w: "ob_write ?op ''abc'' = (r, op)" by fastforce
  have c: "r = -1" "w_out (ob_fd op) = ''a''" "ob_errs op = [(3, 1)]"
    using w by (auto simp: ob_write_def ob_alloc_def w_sample_def ob_out_def swrite_def
        swrite_loop.simps sys_write_def w_accept_def)
  show ?thesis
    unfolding w prod.case using i c ob_write_failure [OF i b w [unfolded c(1)], of "''d''"] by simp
qed

text \<open>
  (C7) On a device that never fails, writing any list of strings and flushing puts exactly their
  concatenation on the device, after what was there and what was pending.
\<close>

theorem ob_writes_then_flush:
  assumes "ob_inv op" and "ob_bf op \<noteq> OB_EBF" and "w_good (ob_fd op)"
  shows "w_out (ob_fd (snd (ob_flush (fold (\<lambda>d op. snd (ob_write op d)) ds op)))) = ob_all op @ concat ds"
  using obw.puts_flush [of op ds] assms by (simp add: ob_all_def)

theorem ob_writes_then_flush_witness:
  "w_good (w_sample [WErr 4, WShort 1]) \<and>
   w_out (ob_fd (snd (ob_flush (fold (\<lambda>d op. snd (ob_write op d)) [''ab'', ''c'']
     (ob_alloc (w_sample [WErr 4, WShort 1]) OB_FBF))))) = ''abc''"
proof -
  let ?op = "ob_alloc (w_sample [WErr 4, WShort 1]) OB_FBF"
  have i: "ob_inv ?op" by (simp add: ob_inv_def ob_alloc_def OBLOK_def)
  have b: "ob_bf ?op \<noteq> OB_EBF" by (simp add: ob_alloc_def)
  have g: "w_good (ob_fd ?op)" by (simp add: ob_alloc_def w_sample_def w_good_def)
  show ?thesis
    using ob_writes_then_flush [OF i b g, of "[''ab'', ''c'']"] g
    by (simp add: ob_all_def ob_alloc_def w_sample_def)
qed

text \<open>
  Line buffering works for text without empty lines: if neither the block nor the new data
  has a complete line pending or an empty line, no newline stays in the block after the write.
\<close>

theorem ob_write_line_buffered:
  assumes "ob_bf op = OB_LBF" and "ob_inv op" and "NL \<notin> set (ob_blk op)" and "\<not> blank_line_in data"
    and "ob_write op data = (r, op')" and "r \<noteq> -1"
  shows "NL \<notin> set (ob_blk op')"
proof -
  from assms(5,6,1) obtain data1 op1 data2 op2 where
    f: "ob_fullblocks data op = Inr (data1, op1)" and l: "ob_lines 0 data1 op1 = Inr (data2, op2)"
    and t: "ob_tail (length data) data2 op2 = (r, op')"
    using ob_fullblocks_step [of op data] assms(2)
    by (auto simp: ob_write_def ob_inv_def ob_step_def split: sum.splits if_splits)
  from ob_fullblocks_drop [OF f] blank_line_drop [OF assms(4)] assms(3)
  have "NL \<notin> set (ob_blk op1)" "\<not> blank_line_in data1" by auto
  with ob_lines_no_newline [OF l] have n: "NL \<notin> set data2" "NL \<notin> set (ob_blk op2)" by auto
  show ?thesis
  proof (cases "length data2 = OBLOK")
    case True
    with t assms(6) obtain op3 where "ob_out op2 data2 (length data2) = Inr op3" "op' = op3"
      by (auto simp: ob_tail_def split: sum.splits)
    with ob_out_Inr(2) n show ?thesis by metis
  next
    case False
    with t n show ?thesis by (auto simp: ob_tail_def)
  qed
qed

theorem ob_write_line_buffered_witness:
  "\<not> blank_line_in (''a'' @ [NL] @ ''b'') \<and>
   NL \<notin> set (ob_blk (snd (ob_write (ob_alloc (w_sample []) OB_LBF) (''a'' @ [NL] @ ''b''))))"
proof -
  let ?op = "ob_alloc (w_sample []) OB_LBF" and ?d = "''a'' @ [NL] @ ''b''"
  have i: "ob_bf ?op = OB_LBF" "ob_inv ?op" "NL \<notin> set (ob_blk ?op)"
    by (simp_all add: ob_inv_def ob_alloc_def OBLOK_def)
  have nb: "\<not> blank_line_in ?d" by (auto simp: blank_line_in_def nth_Cons split: nat.splits)
  obtain r op where w: "ob_write ?op ?d = (r, op)" by fastforce
  have c: "r \<noteq> -1"
    using w by (auto simp: ob_write_def ob_alloc_def w_sample_def ob_fullblocks.simps OBLOK_def
        ob_lines.simps ob_out_def swrite_def swrite_loop.simps sys_write_def w_accept_def ob_tail_def)
  show ?thesis unfolding w snd_conv using nb ob_write_line_buffered [OF i nb w c] by simp
qed

text \<open>
  An empty line breaks line buffering: after a line has been written the scan skips the byte
  that follows it, so the newline of an empty line directly after another line stays in the
  block although the mode is line buffered.
\<close>

theorem ob_write_blank_line_pending:
  "\<exists>op data. ob_bf op = OB_LBF \<and> ob_inv op \<and> ob_blk op = [] \<and> fst (ob_write op data) = int (length data) \<and>
     ob_blk (snd (ob_write op data)) = [NL]"
proof -
  let ?op = "ob_alloc (w_sample []) OB_LBF" and ?d = "''a'' @ [NL, NL]"
  have "ob_bf ?op = OB_LBF" "ob_inv ?op" "ob_blk ?op = []"
    by (simp_all add: ob_inv_def ob_alloc_def OBLOK_def)
  moreover have "fst (ob_write ?op ?d) = int (length ?d)" "ob_blk (snd (ob_write ?op ?d)) = [NL]"
    by (simp_all add: ob_write_def ob_alloc_def w_sample_def ob_fullblocks.simps OBLOK_def
        ob_lines.simps ob_out_def swrite_def swrite_loop.simps sys_write_def w_accept_def ob_tail_def)
  ultimately show ?thesis by blast
qed

end
