(* ===== verification/Getopt.thy ===== *)
theory Getopt
  imports Prelude
begin

text \<open>
  \<open>libcommon/getopt.c\<close>: the option parser all the utilities are linked with.  Its static state
  (\<open>optind\<close>, \<open>optarg\<close>, \<open>optopt\<close> and the position \<open>lastp\<close> inside a group of options) is the record
  \<open>optst\<close>; \<open>argv\<close> is the list of arguments, \<open>argc\<close> its length.  \<open>getopt_all\<close> is the loop
  \<open>while ((c = getopt(argc, argv, optstring)) != EOF)\<close> of the callers: the sequence of the
  results, with the argument and the diagnostic of each call.
\<close>

section \<open>The parser\<close>

record optst =
  optind :: nat
  optarg :: "string option"
  optopt :: int
  lastp :: "string option"

definition optst_init :: optst where
  "optst_init = \<lparr>optind = 1, optarg = None, optopt = 0, lastp = None\<rparr>"

text \<open>\<open>error(s, c)\<close>; \<open>label\<close> is \<open>pfmt_label__\<close>.  \<open>msgselect\<close> selects the lower case messages.\<close>

definition getopt_error :: "string option \<Rightarrow> string \<Rightarrow> int \<Rightarrow> char \<Rightarrow> string" where
  "getopt_error label s opt c =
     (case label of Some l \<Rightarrow> l | None \<Rightarrow> s) @
     (if c = CHR ''?'' then '': illegal option -- '' else '': option requires an argument -- '') @
     [to_char opt, NL]"

text \<open>The scan of \<open>optstring\<close>: is the option known, and does it take an argument?\<close>

fun opt_find :: "string \<Rightarrow> char \<Rightarrow> bool option" where
  "opt_find [] c = None"
| "opt_find (x # xs) c =
     (if x = CHR '':'' then opt_find xs c
      else if x = c then Some (case xs of y # _ \<Rightarrow> y = CHR '':'' | [] \<Rightarrow> False)
      else opt_find xs c)"

text \<open>The part of \<open>getopt\<close> from \<open>optopt = curp[0] & 0377\<close> on.\<close>

definition getopt_at :: "bool \<Rightarrow> string option \<Rightarrow> string list \<Rightarrow> bool \<Rightarrow> string \<Rightarrow> string \<Rightarrow> optst \<Rightarrow>
    int \<times> optst \<times> string" where
  "getopt_at opterr label argv colon optstring curp st =
     (let c = hd curp; st = st\<lparr>optopt := uchar c\<rparr>;
          adv = (\<lambda>st. if tl curp \<noteq> [] then st\<lparr>lastp := Some (tl curp)\<rparr>
                      else st\<lparr>optind := optind st + 1\<rparr>);
          msg = (\<lambda>k. if \<not> colon \<and> opterr then getopt_error label (hd argv) (uchar c) k else [])
      in case opt_find optstring c of
           Some True \<Rightarrow>
             if tl curp \<noteq> []
             then (uchar c, st\<lparr>optarg := Some (tl curp), optind := optind st + 1\<rparr>, [])
             else if optind st + 2 > length argv
             then (uchar (if colon then CHR '':'' else CHR ''?''), st\<lparr>optind := optind st + 2\<rparr>,
                   msg (CHR '':''))
             else (uchar c, st\<lparr>optind := optind st + 2, optarg := Some (argv ! (optind st + 1))\<rparr>, [])
         | Some False \<Rightarrow> (uchar c, (adv st)\<lparr>optarg := None\<rparr>, [])
         | None \<Rightarrow> (uchar CHR ''?'', (adv st)\<lparr>optarg := None\<rparr>, msg (CHR ''?'')))"

definition getopt :: "bool \<Rightarrow> string option \<Rightarrow> string list \<Rightarrow> string \<Rightarrow> optst \<Rightarrow> int \<times> optst \<times> string" where
  "getopt opterr label argv optstring st =
     (let colon = (optstring \<noteq> [] \<and> hd optstring = CHR '':'');
          optstring = (if colon then tl optstring else optstring)
      in case lastp st of
           Some p \<Rightarrow> getopt_at opterr label argv colon optstring p (st\<lparr>lastp := None\<rparr>)
         | None \<Rightarrow>
             if optind st \<ge> length argv \<or> argv ! optind st = [] \<or> hd (argv ! optind st) \<noteq> CHR ''-'' \<or>
                tl (argv ! optind st) = []
             then (eof, st, [])
             else if tl (argv ! optind st) = ''-''
             then (eof, st\<lparr>optind := optind st + 1\<rparr>, [])
             else getopt_at opterr label argv colon optstring (tl (argv ! optind st)) st)"

text \<open>Every call that returns an option makes progress.\<close>

definition opt_size :: "string list \<Rightarrow> optst \<Rightarrow> nat" where
  "opt_size argv st =
     (case lastp st of
        Some p \<Rightarrow> Suc (length p)
      | None \<Rightarrow> if optind st < length argv then Suc (Suc (length (argv ! optind st))) else 0)"

lemma getopt_at_progress:
  assumes "getopt_at e l argv colon os curp st = (r, st', m)" "lastp st = None"
  shows "optind st' > optind st \<and> lastp st' = None \<or>
    optind st' = optind st \<and> lastp st' = Some (tl curp) \<and> tl curp \<noteq> []"
  using assms by (auto simp: getopt_at_def Let_def split: option.splits bool.splits if_splits)

lemma getopt_progress:
  assumes "getopt e l argv os st = (r, st', m)" "r \<noteq> eof"
  shows "length argv - optind st' < length argv - optind st \<or>
    length argv - optind st' = length argv - optind st \<and> opt_size argv st' < opt_size argv st"
proof -
  obtain colon os' curp st0 where g: "getopt_at e l argv colon os' curp st0 = (r, st', m)"
    and st0: "optind st0 = optind st" "lastp st0 = None"
    and curp: "lastp st = Some curp \<or>
      lastp st = None \<and> optind st < length argv \<and> curp = tl (argv ! optind st)"
  proof (cases "lastp st")
    case None
    with assms show ?thesis
      by (intro that [of "os \<noteq> [] \<and> hd os = CHR '':''" _ "tl (argv ! optind st)" st])
         (auto simp: getopt_def Let_def split: if_splits)
  next
    case (Some p)
    with assms show ?thesis
      by (intro that [of "os \<noteq> [] \<and> hd os = CHR '':''" _ p "st\<lparr>lastp := None\<rparr>"])
         (auto simp: getopt_def Let_def)
  qed
  have "tl curp \<noteq> [] \<Longrightarrow> length (tl curp) < length curp" by (cases curp) auto
  with getopt_at_progress [OF g st0(2)] curp st0(1) show ?thesis
    by (cases "optind st < length argv") (auto simp: opt_size_def)
qed

type_synonym optev = "int \<times> string option \<times> string"

function getopt_all :: "bool \<Rightarrow> string option \<Rightarrow> string list \<Rightarrow> string \<Rightarrow> optst \<Rightarrow> optev list \<times> optst" where
  "getopt_all opterr label argv optstring st =
     (case getopt opterr label argv optstring st of
        (r, st', m) \<Rightarrow>
          if r = eof then ([], st')
          else (case getopt_all opterr label argv optstring st' of
                  (evs, st'') \<Rightarrow> ((r, optarg st', m) # evs, st'')))"
  by pat_completeness auto
termination
  by (relation "measures [\<lambda>(e, l, argv, os, st). length argv - optind st,
                          \<lambda>(e, l, argv, os, st). opt_size argv st]")
     (auto dest: getopt_progress [OF sym])

declare getopt_all.simps [simp del]

section \<open>Specification\<close>

text \<open>
  The command line syntax, by recursion over the arguments: \<open>opts_spec\<close> takes the arguments from
  the first option on, \<open>cluster\<close> a group of option letters and the arguments behind it.  The
  results are what the options are and the number of arguments used up.
\<close>

datatype optres = Opt char "string option" | Unknown char | Missing char

definition bump :: "optres list \<Rightarrow> nat \<Rightarrow> optres list \<times> nat \<Rightarrow> optres list \<times> nat" where
  "bump os k r = (os @ fst r, k + snd r)"

fun opts_spec :: "string \<Rightarrow> string list \<Rightarrow> optres list \<times> nat"
  and cluster :: "string \<Rightarrow> string \<Rightarrow> string list \<Rightarrow> optres list \<times> nat"
where
  "opts_spec os [] = ([], 0)"
| "opts_spec os (a # as) =
     (case a of
        x # y # cs \<Rightarrow>
          if x \<noteq> CHR ''-'' then ([], 0)
          else if y = CHR ''-'' \<and> cs = [] then ([], 1)
          else cluster os (y # cs) as
      | _ \<Rightarrow> ([], 0))"
| "cluster os [] as = bump [] 1 (opts_spec os as)"
| "cluster os (c # cs) as =
     (case opt_find os c of
        Some True \<Rightarrow>
          if cs \<noteq> [] then bump [Opt c (Some cs)] 1 (opts_spec os as)
          else (case as of
                  [] \<Rightarrow> ([Missing c], 2)
                | b # bs \<Rightarrow> bump [Opt c (Some b)] 2 (opts_spec os bs))
      | Some False \<Rightarrow> bump [Opt c None] 0 (cluster os cs as)
      | None \<Rightarrow> bump [Unknown c] 0 (cluster os cs as))"

lemma bump_simps [simp]: "fst (bump os k r) = os @ fst r" "snd (bump os k r) = k + snd r"
  by (simp_all add: bump_def)

text \<open>What one call of \<open>getopt\<close> returns, and writes to standard error, for a parsed option.\<close>

fun ev_matches :: "bool \<Rightarrow> string option \<Rightarrow> string \<Rightarrow> bool \<Rightarrow> optev \<Rightarrow> optres \<Rightarrow> bool" where
  "ev_matches e l arg0 colon (r, a, m) (Opt c x) = (r = uchar c \<and> a = x \<and> m = [])"
| "ev_matches e l arg0 colon (r, a, m) (Unknown c) =
     (r = uchar CHR ''?'' \<and> a = None \<and>
      m = (if \<not> colon \<and> e then getopt_error l arg0 (uchar c) (CHR ''?'') else []))"
| "ev_matches e l arg0 colon (r, a, m) (Missing c) =
     (r = uchar (if colon then CHR '':'' else CHR ''?'') \<and>
      m = (if \<not> colon \<and> e then getopt_error l arg0 (uchar c) (CHR '':'') else []))"

definition has_colon :: "string \<Rightarrow> bool" where
  "has_colon os \<longleftrightarrow> os \<noteq> [] \<and> hd os = CHR '':''"

definition opt_letters :: "string \<Rightarrow> string" where
  "opt_letters os = (if has_colon os then tl os else os)"

text \<open>The arguments still to be parsed, in the two states of the parser.\<close>

definition parse_from :: "string \<Rightarrow> string list \<Rightarrow> optst \<Rightarrow> optres list \<times> nat" where
  "parse_from os argv st =
     (case lastp st of
        None \<Rightarrow> opts_spec os (drop (optind st) argv)
      | Some p \<Rightarrow> cluster os p (drop (Suc (optind st)) argv))"

definition opt_ok :: "string list \<Rightarrow> optst \<Rightarrow> bool" where
  "opt_ok argv st \<longleftrightarrow> (\<forall>p. lastp st = Some p \<longrightarrow> p \<noteq> [] \<and> optind st < length argv)"

lemma getopt_at_spec:
  assumes "curp \<noteq> []" "lastp st = None" "optind st < length argv"
    "getopt_at e l argv colon os curp st = (r, st', m)"
  shows "r \<noteq> eof \<and> opt_ok argv st' \<and>
    (\<exists>ev. ev_matches e l (hd argv) colon (r, optarg st', m) ev \<and>
       optind st + snd (cluster os curp (drop (Suc (optind st)) argv)) = optind st' + snd (parse_from os argv st') \<and>
       fst (cluster os curp (drop (Suc (optind st)) argv)) = ev # fst (parse_from os argv st'))"
proof -
  obtain c cs where curp: "curp = c # cs" using assms(1) by (cases curp) auto
  let ?as = "drop (Suc (optind st)) argv"
  show ?thesis
  proof (cases "opt_find os c")
    case None
    with assms curp show ?thesis
      by (intro conjI exI [of _ "Unknown c"])
         (auto simp: getopt_at_def Let_def opt_ok_def parse_from_def split: if_splits)
  next
    case (Some b)
    show ?thesis
    proof (cases b)
      case False
      with Some assms curp show ?thesis
        by (intro conjI exI [of _ "Opt c None"])
           (auto simp: getopt_at_def Let_def opt_ok_def parse_from_def split: if_splits)
    next
      case True
      show ?thesis
      proof (cases "cs \<noteq> []")
        case ne: True
        with True Some assms curp show ?thesis
          by (intro conjI exI [of _ "Opt c (Some cs)"])
             (auto simp: getopt_at_def Let_def opt_ok_def parse_from_def split: if_splits)
      next
        case e: False
        show ?thesis
        proof (cases ?as)
          case Nil
          then have "\<not> optind st + 2 \<le> length argv" by simp
          with Nil e True Some assms curp show ?thesis
            by (intro conjI exI [of _ "Missing c"])
               (auto simp: getopt_at_def Let_def opt_ok_def parse_from_def split: if_splits)
        next
          case (Cons b bs)
          then have len: "Suc (optind st) < length argv" by (metis drop_all leI list.distinct(1))
          have b: "argv ! Suc (optind st) = b" "drop (Suc (Suc (optind st))) argv = bs"
            using Cons len by (metis hd_drop_conv_nth list.sel(1), metis Cons drop_Suc tl_drop list.sel(3))
          from Cons e True Some assms curp len b show ?thesis
            by (intro conjI exI [of _ "Opt c (Some b)"])
               (auto simp: getopt_at_def Let_def opt_ok_def parse_from_def split: if_splits)
        qed
      qed
    qed
  qed
qed

lemma getopt_step_spec:
  assumes ok: "opt_ok argv st" and g: "getopt e l argv os st = (r, st', m)"
  defines "P \<equiv> parse_from (opt_letters os) argv"
  shows "r = eof \<Longrightarrow> fst (P st) = [] \<and> optind st' = optind st + snd (P st)"
    and "r \<noteq> eof \<Longrightarrow> opt_ok argv st' \<and> (\<exists>ev. ev_matches e l (hd argv) (has_colon os) (r, optarg st', m) ev \<and>
      fst (P st) = ev # fst (P st') \<and> optind st + snd (P st) = optind st' + snd (P st'))"
proof -
  have "(r = eof \<longrightarrow> fst (P st) = [] \<and> optind st' = optind st + snd (P st)) \<and>
    (r \<noteq> eof \<longrightarrow> opt_ok argv st' \<and> (\<exists>ev. ev_matches e l (hd argv) (has_colon os) (r, optarg st', m) ev \<and>
      fst (P st) = ev # fst (P st') \<and> optind st + snd (P st) = optind st' + snd (P st')))"
  proof (cases "lastp st")
    case (Some p)
    with ok have p: "p \<noteq> []" "optind st < length argv" by (auto simp: opt_ok_def)
    have "getopt_at e l argv (has_colon os) (opt_letters os) p (st\<lparr>lastp := None\<rparr>) = (r, st', m)"
      using g Some by (simp add: getopt_def Let_def has_colon_def opt_letters_def)
    from getopt_at_spec [OF p(1) _ _ this] p Some show ?thesis by (auto simp: P_def parse_from_def)
  next
    case None
    let ?a = "argv ! optind st"
    show ?thesis
    proof (cases "optind st < length argv")
      case False
      with None g show ?thesis by (auto simp: getopt_def Let_def P_def parse_from_def)
    next
      case True
      then have d: "drop (optind st) argv = ?a # drop (Suc (optind st)) argv" by (simp add: Cons_nth_drop_Suc)
      show ?thesis
      proof (cases "\<exists>y cs. ?a = CHR ''-'' # y # cs \<and> \<not> (y = CHR ''-'' \<and> cs = [])")
        case True
        then obtain y cs where a: "?a = CHR ''-'' # y # cs" "\<not> (y = CHR ''-'' \<and> cs = [])" by blast
        have "getopt_at e l argv (has_colon os) (opt_letters os) (y # cs) st = (r, st', m)"
          using g None a \<open>optind st < length argv\<close>
          by (auto simp: getopt_def Let_def has_colon_def opt_letters_def split: if_splits)
        moreover have "P st = cluster (opt_letters os) (y # cs) (drop (Suc (optind st)) argv)"
          using a d None by (auto simp add: P_def parse_from_def simp del: cluster.simps)
        ultimately show ?thesis
          using getopt_at_spec [of "y # cs" st argv e l "has_colon os" "opt_letters os" r st' m]
            None \<open>optind st < length argv\<close> unfolding P_def by (auto simp del: cluster.simps)
      next
        case False
        with g None d \<open>optind st < length argv\<close> show ?thesis
          by (cases ?a; cases "tl ?a") (auto simp: getopt_def Let_def P_def parse_from_def split: if_splits)
      qed
    qed
  qed
  then show "r = eof \<Longrightarrow> fst (P st) = [] \<and> optind st' = optind st + snd (P st)"
    and "r \<noteq> eof \<Longrightarrow> opt_ok argv st' \<and> (\<exists>ev. ev_matches e l (hd argv) (has_colon os) (r, optarg st', m) ev \<and>
      fst (P st) = ev # fst (P st') \<and> optind st + snd (P st) = optind st' + snd (P st'))"
    by blast+
qed

lemma getopt_all_spec:
  "opt_ok argv st \<Longrightarrow> getopt_all e l argv os st = (evs, st') \<Longrightarrow>
     list_all2 (ev_matches e l (hd argv) (has_colon os)) evs (fst (parse_from (opt_letters os) argv st)) \<and>
     optind st' = optind st + snd (parse_from (opt_letters os) argv st)"
proof (induction e l argv os st arbitrary: evs st' rule: getopt_all.induct)
  case (1 e l argv os st)
  note simps = getopt_all.simps [of e l argv os st]
  obtain r st1 m where g: "getopt e l argv os st = (r, st1, m)" by (metis prod_cases3)
  show ?case
  proof (cases "r = eof")
    case True
    with "1.prems" g getopt_step_spec(1) [OF "1.prems"(1) g] show ?thesis by (simp add: simps)
  next
    case False
    obtain evs1 st2 where r: "getopt_all e l argv os st1 = (evs1, st2)" by fastforce
    with "1.prems"(2) g False have e: "evs = (r, optarg st1, m) # evs1" "st' = st2"
      by (auto simp: simps)
    note s = getopt_step_spec(2) [OF "1.prems"(1) g False]
    with "1.IH" [OF g [symmetric] refl False _ r] e show ?thesis by auto
  qed
qed

section \<open>Properties\<close>

text \<open>The argument list a caller renders from a list of options, and the options it stands for.\<close>

fun render :: "optres list \<Rightarrow> string list" where
  "render [] = []"
| "render (Opt c None # os) = [CHR ''-'', c] # render os"
| "render (Opt c (Some a) # os) = [CHR ''-'', c] # a # render os"
| "render (_ # os) = render os"

fun renderable :: "string \<Rightarrow> optres \<Rightarrow> bool" where
  "renderable os (Opt c None) = (opt_find os c = Some False \<and> c \<noteq> CHR ''-'')"
| "renderable os (Opt c (Some a)) = (opt_find os c = Some True \<and> c \<noteq> CHR ''-'')"
| "renderable os _ = False"

definition operands_ok :: "string list \<Rightarrow> bool" where
  "operands_ok as \<longleftrightarrow> (case as of [] \<Rightarrow> True | a # _ \<Rightarrow> length a < 2 \<or> hd a \<noteq> CHR ''-'')"

lemma opts_spec_operands: "operands_ok as \<Longrightarrow> opts_spec os as = ([], 0)"
  by (cases as) (auto simp: operands_ok_def split: list.splits)

lemma opts_spec_render:
  "list_all (renderable os) rs \<Longrightarrow> operands_ok as \<Longrightarrow>
     opts_spec os (render rs @ as) = (rs, length (render rs))"
  by (induction rs rule: render.induct) (auto simp: opts_spec_operands bump_def)

lemma getopt_all_render:
  assumes "list_all (renderable (opt_letters os)) rs" and "operands_ok as"
  shows "case getopt_all e l (prog # render rs @ as) os optst_init of
           (evs, st') \<Rightarrow>
             evs =
               map (\<lambda>x. case x of Opt c a \<Rightarrow> (uchar c, a, []) | _ \<Rightarrow> (eof, None, [])) rs \<and>
             drop (optind st') (prog # render rs @ as) = as"
proof -
  let ?argv = "prog # render rs @ as"
  obtain evs st' where g: "getopt_all e l ?argv os optst_init = (evs, st')" by fastforce
  have "opt_ok ?argv optst_init" by (simp add: opt_ok_def optst_init_def)
  from getopt_all_spec [OF this g] opts_spec_render [OF assms]
  have m: "list_all2 (ev_matches e l prog (has_colon os)) evs rs"
    and i: "optind st' = Suc (length (render rs))"
    by (simp_all add: parse_from_def optst_init_def)
  from m assms(1) have "evs = map (\<lambda>x. case x of Opt c a \<Rightarrow> (uchar c, a, []) | _ \<Rightarrow> (eof, None, [])) rs"
  proof (induction rule: list_all2_induct)
    case (Cons ev evs r rs)
    then show ?case by (cases ev; cases r) auto
  qed simp
  with i show ?thesis by (simp add: g)
qed

text \<open>
  (C8) The whole option loop.  From its initial state, the loop \<open>while ((c = getopt(...)) != EOF)\<close>
  ends, and the sequence of its results, option arguments and diagnostics is what the recursive
  command line syntax \<open>opts_spec\<close> says about \<open>argv[1], argv[2], ...\<close>; \<open>optind\<close> is left at the first
  operand (one past the end when the last option lacks its argument).  The option string may
  begin with a colon, which silences the messages and makes a missing argument return \<open>:\<close>.
\<close>

theorem getopt_refines_syntax:
  "case getopt_all e l argv os optst_init of
     (evs, st') \<Rightarrow>
       list_all2 (ev_matches e l (hd argv) (has_colon os)) evs
         (fst (opts_spec (opt_letters os) (drop 1 argv))) \<and>
       optind st' = 1 + snd (opts_spec (opt_letters os) (drop 1 argv))"
proof -
  obtain evs st' where g: "getopt_all e l argv os optst_init = (evs, st')" by fastforce
  have "opt_ok argv optst_init" by (simp add: opt_ok_def optst_init_def)
  from getopt_all_spec [OF this g] show ?thesis
    unfolding g prod.case by (simp add: parse_from_def optst_init_def)
qed

text \<open>
  (C9) Round trip.  Options written out one per argument (\<open>-c\<close>, or \<open>-c arg\<close> for those that take
  one), followed by operands, are returned by \<open>getopt\<close> one by one, in order, with their arguments
  and no diagnostics, and \<open>optind\<close> ends up at the first operand.
\<close>

theorem getopt_render_roundtrip:
  assumes "list_all (renderable (opt_letters os)) rs" and "operands_ok as"
  shows "case getopt_all e l (prog # render rs @ as) os optst_init of
           (evs, st') \<Rightarrow>
             evs =
               map (\<lambda>x. case x of Opt c a \<Rightarrow> (uchar c, a, []) | _ \<Rightarrow> (eof, None, [])) rs \<and>
             drop (optind st') (prog # render rs @ as) = as"
  by (rule getopt_all_render [OF assms])

theorem getopt_render_roundtrip_witness:
  "case getopt_all True None [''cut'', ''-d'', '':'', ''-s'', ''file''] ''b:c:d:f:ns'' optst_init of
     (evs, st') \<Rightarrow>
       evs = [(uchar CHR ''d'', Some '':'', []), (uchar CHR ''s'', None, [])] \<and>
       drop (optind st') [''cut'', ''-d'', '':'', ''-s'', ''file''] = [''file'']"
proof -
  have r: "list_all (renderable (opt_letters ''b:c:d:f:ns'')) [Opt CHR ''d'' (Some '':''), Opt CHR ''s'' None]"
    by (simp add: opt_letters_def has_colon_def)
  have o: "operands_ok [''file'']" by (simp add: operands_ok_def)
  from getopt_render_roundtrip [OF r o, where e = True and l = None and prog = "''cut''"] show ?thesis by simp
qed

end
