(* ===== verification/Gmatch.thy ===== *)
theory Gmatch
  imports Prelude
begin

text \<open>
  \<open>libcommon/gmatch.c\<close>: matching of shell patterns.  A C string is its list of bytes without the
  terminator; \<open>mbm\<close> is \<open>MB_CUR_MAX\<close> and \<open>mb\<close> stands for the C library's \<open>mbtowc\<close>, which returns the
  number of bytes and the wide character.  The subject pointer can run past the terminator of
  its string, and the code then reads memory that does not belong to it: \<open>gmatch\<close> returns \<open>None\<close>
  in that case.
\<close>

section \<open>The program\<close>

abbreviation WEOF :: int where "WEOF \<equiv> 4294967295"
abbreviation ULONG_MAX :: int where "ULONG_MAX \<equiv> 18446744073709551615"

text \<open>The macro \<open>fetch\<close>: the next character and the string behind it.\<close>

definition fetch :: "nat \<Rightarrow> (string \<Rightarrow> int \<times> int) \<Rightarrow> string \<Rightarrow> int \<times> string" where
  "fetch mbm mb s =
     (if s = [] then (0, [])
      else if mbm > 1 \<and> uchar (hd s) \<ge> 128
      then (case mb (take mbm s) of
              (n, wc) \<Rightarrow> if n > 0 then (wc, drop (nat n) s) else if n < 0 then (WEOF, tl s) else (wc, tl s))
      else (uchar (hd s), tl s))"

lemma fetch_shorter: "s \<noteq> [] \<Longrightarrow> length (snd (fetch mbm mb s)) < length s"
  by (cases s) (auto simp: fetch_def split: prod.splits)

lemma fetch_Nil [simp]: "fetch mbm mb [] = (0, [])"
  by (simp add: fetch_def)

text \<open>
  Bracket expressions.  \<open>c\<close> is the character just fetched and \<open>p\<close> what follows it; \<open>first\<close> says that
  \<open>p > bp\<close> does not hold yet.  \<open>gm_item\<close> is one turn of the loop up to the \<open>fetch\<close> at its end: the new
  \<open>ok\<close>, \<open>lc\<close> and \<open>p\<close>, or nothing for a \<open>break\<close>.  \<open>gm_class\<close> yields \<open>ok\<close> and the pattern behind the
  bracket, or nothing when the expression is not closed.
\<close>

definition gm_item :: "nat \<Rightarrow> (string \<Rightarrow> int \<times> int) \<Rightarrow> int \<Rightarrow> int \<Rightarrow> string \<Rightarrow> bool \<Rightarrow> bool \<Rightarrow> int \<Rightarrow>
    (bool \<times> int \<times> string) option" where
  "gm_item mbm mb scc c p first ok lc =
     (if c = 45 \<and> \<not> first \<and> (p = [] \<or> hd p \<noteq> CHR '']'') then
        (case fetch mbm mb (if p \<noteq> [] \<and> hd p = CHR 0x5C then tl p else p) of
           (c1, p1) \<Rightarrow> if c1 = 0 then None else Some (ok \<or> lc \<le> scc \<and> scc \<le> c1, lc, p1))
      else if c = 92 then
        (case fetch mbm mb p of
           (c1, p1) \<Rightarrow> if c1 = 0 then None else Some (ok \<or> scc = c1, c1, p1))
      else Some (ok \<or> scc = c, c, p))"

lemma fetch_len: "length (snd (fetch mbm mb p)) \<le> length p"
  using fetch_shorter [of p mbm mb] by (cases "p = []") auto

lemma fetch_cnt: "fetch mbm mb p = (c, p') \<Longrightarrow> c \<noteq> 0 \<Longrightarrow> length p' < length p"
  using fetch_shorter [of p mbm mb] by (cases "p = []") auto

lemma gm_item_len: "gm_item mbm mb scc c p first ok lc = Some (ok', lc', p') \<Longrightarrow> length p' \<le> length p"
  using fetch_len [of mbm mb p] fetch_len [of mbm mb "tl p"]
  by (auto simp: gm_item_def split: if_splits prod.splits)

function gm_class :: "nat \<Rightarrow> (string \<Rightarrow> int \<times> int) \<Rightarrow> int \<Rightarrow> int \<Rightarrow> string \<Rightarrow> bool \<Rightarrow> bool \<Rightarrow> int \<Rightarrow>
    (bool \<times> string) option" where
  "gm_class mbm mb scc c p first ok lc =
     (if c = 0 then None
      else if c = 93 \<and> \<not> first then Some (ok, p)
      else (case gm_item mbm mb scc c p first ok lc of
              None \<Rightarrow> None
            | Some (ok', lc', p1) \<Rightarrow>
                (case fetch mbm mb p1 of (c2, p2) \<Rightarrow> gm_class mbm mb scc c2 p2 False ok' lc')))"
  by pat_completeness auto
termination
proof (relation "measure (\<lambda>(mbm, mb, scc, c, p, first, ok, lc). if c = 0 then 0 else Suc (length p))", goal_cases)
  case (2 mbm mb scc c p first ok lc x ok' z lc' p1 c2 p2)
  then have "gm_item mbm mb scc c p first ok lc = Some (ok', lc', p1)" "fetch mbm mb p1 = (c2, p2)" "c \<noteq> 0"
    by auto
  with gm_item_len fetch_cnt have "length p1 \<le> length p" "c2 \<noteq> 0 \<Longrightarrow> length p2 < length p1" by blast+
  with 2 show ?case by auto
qed simp

declare gm_class.simps [simp del]

lemma gm_class_shorter:
  "gm_class mbm mb scc c p first ok lc = Some (b, p') \<Longrightarrow> length p' \<le> length p"
proof (induction mbm mb scc c p first ok lc rule: gm_class.induct)
  case (1 mbm mb scc c p first ok lc)
  note simps = gm_class.simps [of mbm mb scc c p first ok lc]
  show ?case
  proof (cases "c = 0 \<or> c = 93 \<and> \<not> first")
    case True
    with "1.prems" show ?thesis by (auto simp: simps split: if_splits)
  next
    case False
    with "1.prems" obtain ok' lc' p1 where i: "gm_item mbm mb scc c p first ok lc = Some (ok', lc', p1)"
      by (auto simp: simps split: option.splits)
    obtain c2 p2 where f: "fetch mbm mb p1 = (c2, p2)" by fastforce
    have "gm_class mbm mb scc c2 p2 False ok' lc' = Some (b, p')"
      using "1.prems" False i f by (auto simp: simps split: if_splits)
    with "1.IH" [of "(ok', lc', p1)" ok' "(lc', p1)" lc' p1 c2 p2] False i f
    have "length p' \<le> length p2" by auto
    with fetch_len [of mbm mb p1] gm_item_len [OF i] f show ?thesis by simp
  qed
qed

lemma gm_class_after:
  "fetch mbm mb p0 = (c, p) \<Longrightarrow> c \<noteq> 0 \<Longrightarrow>
   fetch mbm mb (if p \<noteq> [] \<and> hd p = CHR ''!'' then tl p else p) = (c1, p2) \<Longrightarrow>
   gm_class mbm mb scc c1 p2 first ok lc = Some (b, p3) \<Longrightarrow> length p3 < length p0"
  using fetch_cnt [of mbm mb p0 c p] gm_class_shorter [of mbm mb scc c1 p2 first ok lc b p3]
    fetch_len [of mbm mb "if p \<noteq> [] \<and> hd p = CHR ''!'' then tl p else p"]
  by (auto split: if_splits)

lemma fetch_fetch_cnt:
  "fetch mbm mb p0 = (c, p) \<Longrightarrow> c \<noteq> 0 \<Longrightarrow> fetch mbm mb p = (c1, p1) \<Longrightarrow> length p1 < length p0"
  using fetch_cnt [of mbm mb p0 c p] fetch_len [of mbm mb p] by auto

text \<open>
  \<open>gmatch\<close>, with the loop of the case \<open>*\<close> as \<open>gm_star\<close>.  After the terminator of the subject has
  been fetched the pointer \<open>s\<close> is past the end, and a recursive call would read there.
\<close>

function gmatch :: "nat \<Rightarrow> (string \<Rightarrow> int \<times> int) \<Rightarrow> string \<Rightarrow> string \<Rightarrow> bool option"
  and gm_star :: "nat \<Rightarrow> (string \<Rightarrow> int \<times> int) \<Rightarrow> string \<Rightarrow> string \<Rightarrow> bool option"
where
  "gmatch mbm mb bs p0 =
     (case fetch mbm mb bs of (scc, s) \<Rightarrow>
      if scc = WEOF then Some False
      else (case fetch mbm mb p0 of (c, p) \<Rightarrow>
        if c = 91 then
          (let excl = (p \<noteq> [] \<and> hd p = CHR ''!''); p1 = (if excl then tl p else p)
           in case fetch mbm mb p1 of (c1, p2) \<Rightarrow>
                (case gm_class mbm mb scc c1 p2 True False ULONG_MAX of
                   None \<Rightarrow> Some False
                 | Some (ok, p3) \<Rightarrow>
                     if ok \<noteq> excl then (if bs = [] then None else gmatch mbm mb s p3) else Some False))
        else if c = 92 then
          (case fetch mbm mb p of (c1, p1) \<Rightarrow>
             if c1 = 0 then Some False
             else if c1 \<noteq> scc then Some False
             else if scc \<noteq> 0 then (if bs = [] then None else gmatch mbm mb s p1) else Some False)
        else if c = 63 then
          (if scc \<noteq> 0 then (if bs = [] then None else gmatch mbm mb s p) else Some False)
        else if c = 42 then (if p = [] then Some True else gm_star mbm mb bs p)
        else if c = 0 then Some (scc = 0)
        else if c = WEOF then Some False
        else if c \<noteq> scc then Some False
        else if scc \<noteq> 0 then (if bs = [] then None else gmatch mbm mb s p) else Some False))"
| "gm_star mbm mb s p =
     (if s = [] then Some False
      else case gmatch mbm mb s p of
             None \<Rightarrow> None
           | Some True \<Rightarrow> Some True
           | Some False \<Rightarrow> gm_star mbm mb (snd (fetch mbm mb s)) p)"
  by pat_completeness auto
termination
  by (relation "measures
        [\<lambda>x. case x of Inl (mbm, mb, s, p) \<Rightarrow> length p | Inr (mbm, mb, s, p) \<Rightarrow> length p,
         \<lambda>x. case x of Inl _ \<Rightarrow> 0 | Inr _ \<Rightarrow> 1,
         \<lambda>x. case x of Inl (mbm, mb, s, p) \<Rightarrow> length s | Inr (mbm, mb, s, p) \<Rightarrow> length s]")
     (auto dest: fetch_cnt [OF sym] fetch_fetch_cnt [OF sym _ sym] gm_class_after [OF sym _ sym] fetch_shorter)

declare gmatch.simps [simp del] gm_star.simps [simp del]

section \<open>Specification\<close>

text \<open>A string as its characters, and a pattern as a list of tokens.\<close>

function decode :: "nat \<Rightarrow> (string \<Rightarrow> int \<times> int) \<Rightarrow> string \<Rightarrow> int list" where
  "decode mbm mb s = (if s = [] then [] else case fetch mbm mb s of (c, s') \<Rightarrow> c # decode mbm mb s')"
  by pat_completeness auto
termination
  by (relation "measure (\<lambda>(mbm, mb, s). length s)") (auto dest: fetch_shorter simp: prod_eq_iff)

declare decode.simps [simp del]

datatype item = Single int | Range int int

datatype tok = Lit int | Any | Star | Class bool "item list" | Bad

fun item_has :: "int \<Rightarrow> item \<Rightarrow> bool" where
  "item_has x (Single c) = (x = c)"
| "item_has x (Range lo hi) = (lo \<le> x \<and> x \<le> hi)"

text \<open>
  The members of a bracket expression: \<open>lc\<close> is the last single member, the start of a range.
\<close>

fun parse_item :: "bool \<Rightarrow> int \<Rightarrow> int list \<Rightarrow> (item \<times> int \<times> int list) option" where
  "parse_item first lc [] = None"
| "parse_item first lc (c # cs) =
     (if c = 45 \<and> \<not> first \<and> (cs = [] \<or> hd cs \<noteq> 93) then
        (case (if cs \<noteq> [] \<and> hd cs = 92 then tl cs else cs) of
           [] \<Rightarrow> None | d # ds \<Rightarrow> Some (Range lc d, lc, ds))
      else if c = 92 then (case cs of [] \<Rightarrow> None | d # ds \<Rightarrow> Some (Single d, d, ds))
      else Some (Single c, c, cs))"

lemma parse_item_shorter: "parse_item first lc cs = Some (i, lc', cs') \<Longrightarrow> length cs' < length cs"
proof (cases cs)
  case (Cons c ds)
  moreover assume "parse_item first lc cs = Some (i, lc', cs')"
  moreover have "length (if ds \<noteq> [] \<and> hd ds = 92 then tl ds else ds) \<le> length ds" by simp
  ultimately show ?thesis by (auto split: if_splits list.splits simp del: length_tl)
qed (simp add: Cons)

function parse_class :: "bool \<Rightarrow> int \<Rightarrow> int list \<Rightarrow> (item list \<times> int list) option" where
  "parse_class first lc cs =
     (if cs \<noteq> [] \<and> hd cs = 93 \<and> \<not> first then Some ([], tl cs)
      else (case parse_item first lc cs of
              None \<Rightarrow> None
            | Some (i, lc', cs') \<Rightarrow> map_option (map_prod (Cons i) id) (parse_class False lc' cs')))"
  by pat_completeness auto
termination
  by (relation "measure (\<lambda>(first, lc, cs). length cs)") (auto dest: parse_item_shorter)

declare parse_class.simps [simp del]

lemma parse_class_shorter: "parse_class first lc cs = Some (is, cs') \<Longrightarrow> length cs' \<le> length cs"
proof (induction first lc cs arbitrary: "is" cs' rule: parse_class.induct)
  case (1 first lc cs)
  note simps = parse_class.simps [of first lc cs]
  show ?case
  proof (cases "cs \<noteq> [] \<and> hd cs = 93 \<and> \<not> first")
    case True
    with "1.prems" show ?thesis unfolding simps by auto
  next
    case F: False
    then obtain i lc' cs1 js where i: "parse_item first lc cs = Some (i, lc', cs1)"
      and j: "parse_class False lc' cs1 = Some (js, cs')"
      using "1.prems" by (auto simp: simps split: option.splits)
    from "1.IH" [OF F i refl refl j] parse_item_shorter [OF i] show ?thesis by simp
  qed
qed

function parse_pat :: "int list \<Rightarrow> tok list" where
  "parse_pat [] = []"
| "parse_pat (c # cs) =
     (if c = 91 then
        (let excl = (cs \<noteq> [] \<and> hd cs = 33)
         in case parse_class True ULONG_MAX (if excl then tl cs else cs) of
              None \<Rightarrow> [Bad]
            | Some (is, cs') \<Rightarrow> Class excl is # parse_pat cs')
      else if c = 92 then (case cs of [] \<Rightarrow> [Bad] | d # ds \<Rightarrow> Lit d # parse_pat ds)
      else if c = 63 then Any # parse_pat cs
      else if c = 42 then Star # parse_pat cs
      else Lit c # parse_pat cs)"
  by pat_completeness auto
termination
  by (relation "measure length") (auto dest!: parse_class_shorter split: if_splits)

text \<open>What a pattern means.\<close>

fun matches :: "tok list \<Rightarrow> int list \<Rightarrow> bool" where
  "matches [] s = (s = [])"
| "matches (Lit c # ts) s = (case s of [] \<Rightarrow> False | x # s' \<Rightarrow> x = c \<and> matches ts s')"
| "matches (Any # ts) s = (case s of [] \<Rightarrow> False | x # s' \<Rightarrow> matches ts s')"
| "matches (Class excl is # ts) s =
     (case s of [] \<Rightarrow> False | x # s' \<Rightarrow> list_ex (item_has x) is \<noteq> excl \<and> matches ts s')"
| "matches (Star # ts) s = (\<exists>k \<le> length s. matches ts (drop k s))"
| "matches (Bad # ts) s = False"

section \<open>The bytes and the characters\<close>

text \<open>
  What is assumed of the multibyte conversion: a sequence that starts with a byte outside ASCII
  is either invalid or a character outside ASCII.
\<close>

definition mb_sane :: "nat \<Rightarrow> (string \<Rightarrow> int \<times> int) \<Rightarrow> bool" where
  "mb_sane mbm mb \<longleftrightarrow>
     (\<forall>s. s \<noteq> [] \<longrightarrow> uchar (hd s) \<ge> 128 \<longrightarrow>
        fst (mb (take mbm s)) \<noteq> 0 \<and>
        (fst (mb (take mbm s)) > 0 \<longrightarrow> 128 \<le> snd (mb (take mbm s)) \<and> snd (mb (take mbm s)) < WEOF))"

definition cstring_ok :: "string \<Rightarrow> bool" where
  "cstring_ok s \<longleftrightarrow> NUL \<notin> set s"

lemma decode_Nil [simp]: "decode mbm mb [] = []"
  by (simp add: decode.simps)

lemma decode_fetch: "s \<noteq> [] \<Longrightarrow> fetch mbm mb s = (c, s') \<Longrightarrow> decode mbm mb s = c # decode mbm mb s'"
  by (simp add: decode.simps [of mbm mb s])

lemma decode_eq_Nil [simp]: "decode mbm mb s = [] \<longleftrightarrow> s = []"
  by (cases "fetch mbm mb s") (auto simp: decode.simps [of mbm mb s])

lemma fetch_ok: "cstring_ok s \<Longrightarrow> fetch mbm mb s = (c, s') \<Longrightarrow> cstring_ok s'"
  by (cases s) (auto simp: fetch_def cstring_ok_def split: if_splits prod.splits dest: in_set_dropD)

lemma tl_ok: "cstring_ok s \<Longrightarrow> cstring_ok (tl s)"
  by (cases s) (auto simp: cstring_ok_def)

lemma fetch_pos: "mb_sane mbm mb \<Longrightarrow> cstring_ok s \<Longrightarrow> s \<noteq> [] \<Longrightarrow> 0 < fst (fetch mbm mb s)"
proof -
  assume sane: "mb_sane mbm mb" and ok: "cstring_ok s" and s: "s \<noteq> []"
  have h: "0 < uchar (hd s)" using ok s by (intro uchar_pos) (auto simp: cstring_ok_def dest: hd_in_set)
  show ?thesis
  proof (cases "mbm > 1 \<and> uchar (hd s) \<ge> 128")
    case True
    with sane s have "fst (mb (take mbm s)) \<noteq> 0"
      "fst (mb (take mbm s)) > 0 \<longrightarrow> 128 \<le> snd (mb (take mbm s))" unfolding mb_sane_def by blast+
    then show ?thesis using True s by (auto simp: fetch_def split: prod.splits)
  qed (use h s in \<open>auto simp: fetch_def\<close>)
qed

lemma fetch_zero: "mb_sane mbm mb \<Longrightarrow> cstring_ok s \<Longrightarrow> fetch mbm mb s = (c, s') \<Longrightarrow> c = 0 \<longleftrightarrow> s = []"
  using fetch_pos [of mbm mb s] by (cases "s = []") auto

text \<open>Looking at a byte and looking at the character is the same for ASCII characters.\<close>

lemma fetch_peek:
  assumes "mb_sane mbm mb" "uchar a < 128" "s \<noteq> []" "fetch mbm mb s = (c, s')"
  shows "hd s = a \<longleftrightarrow> c = uchar a" and "hd s = a \<Longrightarrow> s' = tl s"
proof -
  have "(hd s = a \<longleftrightarrow> c = uchar a) \<and> (hd s = a \<longrightarrow> s' = tl s)"
  proof (cases "mbm > 1 \<and> uchar (hd s) \<ge> 128")
    case True
    with assms(1,3) have "fst (mb (take mbm s)) \<noteq> 0"
      "fst (mb (take mbm s)) > 0 \<longrightarrow> 128 \<le> snd (mb (take mbm s))" unfolding mb_sane_def by blast+
    then have "128 \<le> c" using True assms(3,4) by (auto simp: fetch_def split: prod.splits if_splits)
    with True assms(2) show ?thesis by auto
  next
    case False
    with assms(3,4) show ?thesis by (auto simp: fetch_def)
  qed
  then show "hd s = a \<longleftrightarrow> c = uchar a" "hd s = a \<Longrightarrow> s' = tl s" by blast+
qed

lemma decode_peek:
  assumes "mb_sane mbm mb" "uchar a < 128"
  shows "s \<noteq> [] \<and> hd s = a \<longleftrightarrow> decode mbm mb s \<noteq> [] \<and> hd (decode mbm mb s) = uchar a"
    and "s \<noteq> [] \<Longrightarrow> hd s = a \<Longrightarrow> decode mbm mb (tl s) = tl (decode mbm mb s)"
proof -
  obtain c s' where f: "fetch mbm mb s = (c, s')" by fastforce
  show "s \<noteq> [] \<and> hd s = a \<longleftrightarrow> decode mbm mb s \<noteq> [] \<and> hd (decode mbm mb s) = uchar a"
    using fetch_peek(1) [OF assms _ f] decode_fetch [OF _ f] by (cases "s = []") auto
  show "s \<noteq> [] \<Longrightarrow> hd s = a \<Longrightarrow> decode mbm mb (tl s) = tl (decode mbm mb s)"
    using fetch_peek(2) [OF assms _ f] decode_fetch [OF _ f] by auto
qed

lemma ascii_codes [simp]:
  "uchar CHR '']'' = 93" "uchar CHR 0x5C = 92" "uchar CHR ''!'' = 33"
  by (simp_all add: uchar_def)

section \<open>Bracket expressions\<close>

lemma gm_item_parse:
  assumes sane: "mb_sane mbm mb" and ok: "cstring_ok p" and c: "c \<noteq> 0"
  shows "(case parse_item first lc (c # decode mbm mb p) of
            None \<Rightarrow> gm_item mbm mb scc c p first b lc = None
          | Some (i, lc', cs) \<Rightarrow>
              \<exists>p'. gm_item mbm mb scc c p first b lc = Some (b \<or> item_has scc i, lc', p') \<and>
                   decode mbm mb p' = cs \<and> cstring_ok p')"
proof -
  have peek: "(p = [] \<or> hd p \<noteq> CHR '']'') \<longleftrightarrow> (decode mbm mb p = [] \<or> hd (decode mbm mb p) \<noteq> 93)"
    using decode_peek(1) [OF sane, of "CHR '']''" p] by auto
  show ?thesis
  proof (cases "c = 45 \<and> \<not> first \<and> (p = [] \<or> hd p \<noteq> CHR '']'')")
    case True
    define q where "q = (if p \<noteq> [] \<and> hd p = CHR 0x5C then tl p else p)"
    have q: "decode mbm mb q = (if decode mbm mb p \<noteq> [] \<and> hd (decode mbm mb p) = 92
        then tl (decode mbm mb p) else decode mbm mb p)" "cstring_ok q"
      using decode_peek [OF sane, of "CHR 0x5C" p] ok tl_ok [OF ok] by (auto simp: q_def)
    obtain c1 p1 where f: "fetch mbm mb q = (c1, p1)" by fastforce
    have i: "gm_item mbm mb scc c p first b lc =
        (if c1 = 0 then None else Some (b \<or> lc \<le> scc \<and> scc \<le> c1, lc, p1))"
      using True f by (simp add: gm_item_def q_def)
    have j: "parse_item first lc (c # decode mbm mb p) =
        (case decode mbm mb q of [] \<Rightarrow> None | d # ds \<Rightarrow> Some (Range lc d, lc, ds))"
      using True peek by (simp add: q(1))
    show ?thesis
    proof (cases "q = []")
      case True
      then show ?thesis using i j f by auto
    next
      case False
      with fetch_zero [OF sane q(2) f] decode_fetch [OF False f] i j fetch_ok [OF q(2) f]
      show ?thesis by auto
    qed
  next
    case F: False
    show ?thesis
    proof (cases "c = 92")
      case True
      obtain c1 p1 where f: "fetch mbm mb p = (c1, p1)" by fastforce
      show ?thesis
      proof (cases "p = []")
        case True
        then show ?thesis using \<open>c = 92\<close> by (simp add: gm_item_def)
      next
        case False
        with fetch_zero [OF sane ok f] decode_fetch [OF False f] fetch_ok [OF ok f] f True
        show ?thesis by (auto simp: gm_item_def)
      qed
    next
      case False
      with F peek ok show ?thesis by (auto simp: gm_item_def)
    qed
  qed
qed

lemma gm_class_parse:
  assumes "mb_sane mbm mb"
  shows "cstring_ok q \<Longrightarrow> fetch mbm mb q = (c, p) \<Longrightarrow>
    (case parse_class first lc (decode mbm mb q) of
       None \<Rightarrow> gm_class mbm mb scc c p first b lc = None
     | Some (is, cs) \<Rightarrow>
         \<exists>p'. gm_class mbm mb scc c p first b lc = Some (b \<or> list_ex (item_has scc) is, p') \<and>
              decode mbm mb p' = cs \<and> cstring_ok p')"
  using assms
proof (induction mbm mb scc c p first b lc arbitrary: q rule: gm_class.induct)
  case (1 mbm mb scc c p first b lc)
  note simps = gm_class.simps [of mbm mb scc c p first b lc]
  note psimps = parse_class.simps [of first lc "decode mbm mb q"]
  note sane = "1.prems"(3)
  show ?case
  proof (cases "c = 0")
    case True
    then have "q = []" using fetch_zero [OF sane "1.prems"(1,2)] by simp
    with True show ?thesis unfolding simps psimps by simp
  next
    case c: False
    then have "q \<noteq> []" using "1.prems"(2) by auto
    then have dq: "decode mbm mb q = c # decode mbm mb p" by (rule decode_fetch [OF _ "1.prems"(2)])
    have okp: "cstring_ok p" using fetch_ok "1.prems"(1,2) by blast
    show ?thesis
    proof (cases "c = 93 \<and> \<not> first")
      case True
      with dq okp show ?thesis unfolding simps psimps by simp
    next
      case F: False
      note item = gm_item_parse [OF sane okp c, where first = first and lc = lc and scc = scc and b = b]
      show ?thesis
      proof (cases "parse_item first lc (c # decode mbm mb p)")
        case None
        then have "gm_item mbm mb scc c p first b lc = None" using item by simp
        then have "gm_class mbm mb scc c p first b lc = None" using F c by (auto simp: simps)
        moreover have "parse_class first lc (decode mbm mb q) = None"
        proof -
          have n: "parse_item first lc (decode mbm mb q) = None" using None dq by (simp only:)
          show ?thesis unfolding psimps n using F dq by auto
        qed
        ultimately show ?thesis by simp
      next
        case (Some r)
        obtain i lc' cs where r: "r = (i, lc', cs)" by (metis prod_cases3)
        with item Some obtain p1 where p1: "gm_item mbm mb scc c p first b lc = Some (b \<or> item_has scc i, lc', p1)"
          "decode mbm mb p1 = cs" "cstring_ok p1" by auto
        obtain c2 p2 where f: "fetch mbm mb p1 = (c2, p2)" by fastforce
        have g: "gm_class mbm mb scc c p first b lc = gm_class mbm mb scc c2 p2 False (b \<or> item_has scc i) lc'"
          using c F p1 f by (auto simp: simps)
        have h: "parse_class first lc (decode mbm mb q) =
            map_option (map_prod (Cons i) id) (parse_class False lc' cs)"
        proof -
          have n: "parse_item first lc (decode mbm mb q) = Some (i, lc', cs)" using Some r dq by (simp only:)
          show ?thesis unfolding psimps n using F dq by auto
        qed
        from "1.IH" [OF c F p1(1) refl refl f [symmetric] p1(3) f sane] show ?thesis
          unfolding g h p1(2) by (auto split: option.splits)
      qed
    qed
  qed
qed

section \<open>Whole patterns\<close>

fun stars_apart :: "tok list \<Rightarrow> bool" where
  "stars_apart [] = True"
| "stars_apart (t # ts) = ((t = Star \<longrightarrow> ts = [] \<or> hd ts \<noteq> Star) \<and> stars_apart ts)"

fun negated :: "tok \<Rightarrow> bool" where
  "negated (Class True _) = True"
| "negated _ = False"

text \<open>The result of a call agrees with the meaning of the pattern, and is there.\<close>

definition agrees :: "bool option \<Rightarrow> bool \<Rightarrow> tok list \<Rightarrow> bool" where
  "agrees r b ts \<longleftrightarrow> (r = None \<or> r = Some b) \<and> (r = None \<longrightarrow> list_ex negated ts)"

lemma agrees_Cons: "agrees r b ts \<Longrightarrow> agrees r b (t # ts)"
  by (auto simp: agrees_def)

lemma agrees_Some [simp]: "agrees (Some b) b' ts \<longleftrightarrow> b = b'"
  by (simp add: agrees_def)

lemma matches_Nil: "ts \<noteq> [] \<Longrightarrow> hd ts \<noteq> Star \<Longrightarrow> \<not> matches ts []"
  by (cases ts; cases "hd ts") auto

lemma matches_Star_Cons:
  "ts \<noteq> [] \<Longrightarrow> hd ts \<noteq> Star \<Longrightarrow> matches (Star # ts) (x # s) \<longleftrightarrow> matches ts (x # s) \<or> matches (Star # ts) s"
proof
  assume "matches (Star # ts) (x # s)"
  then obtain k where "k \<le> Suc (length s)" "matches ts (drop k (x # s))" by auto
  then show "matches ts (x # s) \<or> matches (Star # ts) s" by (cases k) auto
next
  assume "matches ts (x # s) \<or> matches (Star # ts) s"
  then show "matches (Star # ts) (x # s)"
  proof
    assume "matches ts (x # s)"
    then show ?thesis by (auto intro!: exI [of _ 0])
  next
    assume "matches (Star # ts) s"
    then obtain k where "k \<le> length s" "matches ts (drop k s)" by auto
    then show ?thesis by (auto intro!: exI [of _ "Suc k"])
  qed
qed

lemma items_not_zero:
  "\<forall>c \<in> set cs. 0 < c \<Longrightarrow> 0 < lc \<Longrightarrow> parse_class first lc cs = Some (is, cs') \<Longrightarrow>
     \<not> list_ex (item_has 0) is \<and> (\<forall>c \<in> set cs'. 0 < c)"
proof (induction first lc cs arbitrary: "is" cs' rule: parse_class.induct)
  case (1 first lc cs)
  note simps = parse_class.simps [of first lc cs]
  show ?case
  proof (cases "cs \<noteq> [] \<and> hd cs = 93 \<and> \<not> first")
    case True
    with "1.prems" show ?thesis unfolding simps by (auto dest: list.set_sel(2))
  next
    case F: False
    then obtain i lc' cs1 js where i: "parse_item first lc cs = Some (i, lc', cs1)"
      and j: "parse_class False lc' cs1 = Some (js, cs')" and js: "is = i # js"
      using "1.prems"(3) by (auto simp: simps split: option.splits)
    have "(\<forall>c \<in> set cs1. 0 < c) \<and> 0 < lc' \<and> \<not> item_has 0 i"
    proof (cases cs)
      case (Cons c ds)
      have t: "\<forall>c \<in> set (tl ds). 0 < c" using "1.prems"(1) Cons by (cases ds) auto
      from i "1.prems"(1,2) t Cons show ?thesis by (auto split: if_splits list.splits)
    qed (use i in simp)
    with "1.IH" [OF F i refl refl _ _ j] js show ?thesis by simp
  qed
qed

lemma decode_pos: "mb_sane mbm mb \<Longrightarrow> cstring_ok s \<Longrightarrow> \<forall>c \<in> set (decode mbm mb s). 0 < c"
proof (induction mbm mb s rule: decode.induct)
  case (1 mbm mb s)
  show ?case
  proof (cases "s = []")
    case False
    obtain c s' where f: "fetch mbm mb s = (c, s')" by fastforce
    with "1.IH" [OF False f [symmetric] "1.prems"(1) fetch_ok [OF "1.prems"(2) f]]
      decode_fetch [OF False f] fetch_pos [OF "1.prems" False] show ?thesis by auto
  qed simp
qed

lemma set_tl_subset: "set (tl xs) \<subseteq> set xs"
  by (cases xs) auto

lemma parse_item_set: "parse_item first lc cs = Some (i, lc', cs') \<Longrightarrow> set cs' \<subseteq> set cs"
proof (cases cs)
  case (Cons c ds)
  moreover assume "parse_item first lc cs = Some (i, lc', cs')"
  moreover have "set (if ds \<noteq> [] \<and> hd ds = 92 then tl ds else ds) \<subseteq> set ds"
    using set_tl_subset [of ds] by simp
  ultimately show ?thesis by (auto split: if_splits list.splits)
qed simp

lemma parse_class_set: "parse_class first lc cs = Some (is, cs') \<Longrightarrow> set cs' \<subseteq> set cs"
proof (induction first lc cs arbitrary: "is" cs' rule: parse_class.induct)
  case (1 first lc cs)
  note simps = parse_class.simps [of first lc cs]
  show ?case
  proof (cases "cs \<noteq> [] \<and> hd cs = 93 \<and> \<not> first")
    case True
    with "1.prems" set_tl_subset [of cs] show ?thesis unfolding simps by auto
  next
    case F: False
    then obtain i lc' cs1 js where i: "parse_item first lc cs = Some (i, lc', cs1)"
      and j: "parse_class False lc' cs1 = Some (js, cs')"
      using "1.prems" by (auto simp: simps split: option.splits)
    from "1.IH" [OF F i refl refl j] parse_item_set [OF i] show ?thesis by blast
  qed
qed

lemma parse_pat_ne: "cs \<noteq> [] \<Longrightarrow> parse_pat cs \<noteq> []"
  by (cases cs) (auto simp: Let_def split: option.splits list.splits)

lemma gm_star_agrees:
  assumes G: "\<And>s. cstring_ok s \<Longrightarrow> WEOF \<notin> set (decode mbm mb s) \<Longrightarrow>
      agrees (gmatch mbm mb s p) (matches ts (decode mbm mb s)) ts"
    and ts: "ts \<noteq> []" "hd ts \<noteq> Star"
  shows "cstring_ok s \<Longrightarrow> WEOF \<notin> set (decode mbm mb s) \<Longrightarrow>
    agrees (gm_star mbm mb s p) (matches (Star # ts) (decode mbm mb s)) ts"
proof (induction s rule: length_induct)
  case (1 s)
  show ?case
  proof (cases "s = []")
    case True
    then show ?thesis using matches_Nil [OF ts] by (simp add: gm_star.simps)
  next
    case False
    obtain c s' where f: "fetch mbm mb s = (c, s')" by fastforce
    have d: "decode mbm mb s = c # decode mbm mb s'" by (rule decode_fetch [OF False f])
    have "agrees (gm_star mbm mb s' p) (matches (Star # ts) (decode mbm mb s')) ts"
      using 1 fetch_shorter [OF False, of mbm mb] fetch_ok [OF "1.prems"(1) f] f d by simp
    moreover have "agrees (gmatch mbm mb s p) (matches ts (decode mbm mb s)) ts" using G 1 by blast
    ultimately show ?thesis
      using False f unfolding d matches_Star_Cons [OF ts]
      by (auto simp: gm_star.simps [of mbm mb s] agrees_def split: option.splits bool.splits)
  qed
qed

lemma gmatch_agrees:
  assumes sane: "mb_sane mbm mb"
  shows "cstring_ok s \<Longrightarrow> WEOF \<notin> set (decode mbm mb s) \<Longrightarrow> cstring_ok p0 \<Longrightarrow> WEOF \<notin> set (decode mbm mb p0) \<Longrightarrow>
    stars_apart (parse_pat (decode mbm mb p0)) \<Longrightarrow>
    agrees (gmatch mbm mb s p0) (matches (parse_pat (decode mbm mb p0)) (decode mbm mb s)) (parse_pat (decode mbm mb p0))"
proof (induction p0 arbitrary: s rule: length_induct)
  case (1 p0)
  obtain scc s1 where fs: "fetch mbm mb s = (scc, s1)" by fastforce
  obtain c p where fp: "fetch mbm mb p0 = (c, p)" by fastforce
  have s0: "scc = 0 \<longleftrightarrow> s = []" using fetch_zero [OF sane "1.prems"(1) fs] .
  have ds: "decode mbm mb s = (if s = [] then [] else scc # decode mbm mb s1)"
    using decode_fetch [OF _ fs] by simp
  have w: "scc \<noteq> WEOF" using "1.prems"(2) ds s0 by (cases "s = []") auto
  have ok1: "cstring_ok s1" "WEOF \<notin> set (decode mbm mb s1)"
    using fetch_ok [OF "1.prems"(1) fs] "1.prems"(2) ds fs by (cases "s = []"; simp)+
  have okp: "cstring_ok p" by (rule fetch_ok [OF "1.prems"(3) fp])
  have IH: "agrees (gmatch mbm mb s' p') (matches ts (decode mbm mb s')) ts"
    if "length p' < length p0" "cstring_ok s'" "WEOF \<notin> set (decode mbm mb s')" "cstring_ok p'"
      "set (decode mbm mb p') \<subseteq> set (decode mbm mb p0)" "ts = parse_pat (decode mbm mb p')" "stars_apart ts" for p' s' ts
    using "1.IH" that "1.prems"(4) by blast
  have step: "agrees (if s = [] then None else gmatch mbm mb s1 p') (matches ts (decode mbm mb s1)) ts"
    if "s \<noteq> []" "length p' < length p0" "cstring_ok p'"
      "set (decode mbm mb p') \<subseteq> set (decode mbm mb p0)" "ts = parse_pat (decode mbm mb p')" "stars_apart ts" for p' ts
    using IH [of p' s1 ts] ok1 that by simp
  show ?case
  proof (cases "p0 = []")
    case True
    then show ?thesis using fp fs s0 w ds by (simp add: gmatch.simps [of mbm mb s])
  next
    case ne: False
    have dp: "decode mbm mb p0 = c # decode mbm mb p" by (rule decode_fetch [OF ne fp])
    have c: "c \<noteq> 0" "c \<noteq> WEOF" using fetch_zero [OF sane "1.prems"(3) fp] ne "1.prems"(4) dp by auto
    have len: "length p < length p0" using fetch_shorter [OF ne, of mbm mb] fp by simp
    have g: "gmatch mbm mb s p0 =
      (if c = 91 then
          (let excl = (p \<noteq> [] \<and> hd p = CHR ''!''); p1 = (if excl then tl p else p)
           in case fetch mbm mb p1 of (c1, p2) \<Rightarrow>
                (case gm_class mbm mb scc c1 p2 True False ULONG_MAX of
                   None \<Rightarrow> Some False
                 | Some (ok, p3) \<Rightarrow>
                     if ok \<noteq> excl then (if s = [] then None else gmatch mbm mb s1 p3) else Some False))
        else if c = 92 then
          (case fetch mbm mb p of (c1, p1) \<Rightarrow>
             if c1 = 0 then Some False
             else if c1 \<noteq> scc then Some False
             else if scc \<noteq> 0 then (if s = [] then None else gmatch mbm mb s1 p1) else Some False)
        else if c = 63 then
          (if scc \<noteq> 0 then (if s = [] then None else gmatch mbm mb s1 p) else Some False)
        else if c = 42 then (if p = [] then Some True else gm_star mbm mb s p)
        else if c \<noteq> scc then Some False
        else if scc \<noteq> 0 then (if s = [] then None else gmatch mbm mb s1 p) else Some False)"
      using w c unfolding gmatch.simps [of mbm mb s p0] fs fp prod.case by simp
    consider "c = 91" | "c = 92" | "c = 63" | "c = 42" | "c \<noteq> 91 \<and> c \<noteq> 92 \<and> c \<noteq> 63 \<and> c \<noteq> 42" by blast
    then show ?thesis
    proof cases
      case 1
      define excl where "excl = (p \<noteq> [] \<and> hd p = CHR ''!'')"
      define p1 where "p1 = (if excl then tl p else p)"
      have ok: "cstring_ok p1" using okp tl_ok [OF okp] by (simp add: p1_def)
      have e: "excl \<longleftrightarrow> decode mbm mb p \<noteq> [] \<and> hd (decode mbm mb p) = 33"
        using decode_peek(1) [OF sane, of "CHR ''!''" p] by (simp add: excl_def)
      have d1: "decode mbm mb p1 = (if excl then tl (decode mbm mb p) else decode mbm mb p)"
        using decode_peek(2) [OF sane, of "CHR ''!''" p] by (auto simp: p1_def excl_def)
      obtain c1 p2 where f: "fetch mbm mb p1 = (c1, p2)" by fastforce
      have g1: "gmatch mbm mb s p0 = (case gm_class mbm mb scc c1 p2 True False ULONG_MAX of
             None \<Rightarrow> Some False
           | Some (ok, p3) \<Rightarrow> if ok \<noteq> excl then (if s = [] then None else gmatch mbm mb s1 p3) else Some False)"
        unfolding g using \<open>c = 91\<close> f by (simp add: Let_def excl_def [symmetric] p1_def [symmetric])
      have pp: "parse_pat (decode mbm mb p0) = (case parse_class True ULONG_MAX (decode mbm mb p1) of
             None \<Rightarrow> [Bad] | Some (is, cs') \<Rightarrow> Class excl is # parse_pat cs')"
        unfolding dp d1 using \<open>c = 91\<close> by (simp add: Let_def e [symmetric] del: decode_eq_Nil)
      note cl = gm_class_parse [OF sane ok f, where first = True and lc = ULONG_MAX and scc = scc and b = False]
      show ?thesis
      proof (cases "parse_class True ULONG_MAX (decode mbm mb p1)")
        case None
        with cl g1 pp show ?thesis by simp
      next
        case (Some r)
        obtain "is" cs where r: "r = (is, cs)" by fastforce
        with cl Some obtain p3 where p3: "gm_class mbm mb scc c1 p2 True False ULONG_MAX =
            Some (list_ex (item_has scc) is, p3)" "decode mbm mb p3 = cs" "cstring_ok p3" by auto
        have l3: "length p3 < length p0"
          using gm_class_after [OF fp c(1) f [unfolded p1_def excl_def] p3(1)] .
        have pos: "\<not> list_ex (item_has 0) is"
          using items_not_zero [OF decode_pos [OF sane ok] _ Some [unfolded r]] by simp
        have sub: "set (decode mbm mb p3) \<subseteq> set (decode mbm mb p0)"
          using parse_class_set [OF Some [unfolded r]] d1 dp p3(2) set_tl_subset [of "decode mbm mb p"] by (auto split: if_splits)
        have toks: "parse_pat (decode mbm mb p0) = Class excl is # parse_pat (decode mbm mb p3)"
          using pp Some r p3(2) by simp
        have sa: "stars_apart (parse_pat (decode mbm mb p3))" using "1.prems"(5) toks by simp
        show ?thesis
        proof (cases "s = []")
          case True
          with s0 pos g1 p3(1) toks ds show ?thesis by (cases excl) (simp_all add: agrees_def)
        next
          case False
          with step [OF False l3 p3(3) sub refl sa] g1 p3(1) toks ds show ?thesis
            by (auto simp: agrees_def)
        qed
      qed
    next
      case 2
      obtain c1 p1 where f: "fetch mbm mb p = (c1, p1)" by fastforce
      show ?thesis
      proof (cases "p = []")
        case True
        with f g 2 dp show ?thesis by simp
      next
        case False
        have d: "decode mbm mb p = c1 # decode mbm mb p1" by (rule decode_fetch [OF False f])
        have "c1 \<noteq> 0" using fetch_zero [OF sane okp f] False by simp
        moreover have "agrees (if s = [] then None else gmatch mbm mb s1 p1)
            (matches (parse_pat (decode mbm mb p1)) (decode mbm mb s1)) (parse_pat (decode mbm mb p1))" if "s \<noteq> []"
          by (rule step [OF that fetch_fetch_cnt [OF fp c(1) f] fetch_ok [OF okp f] _ refl])
             (use "1.prems"(5) dp d 2 in auto)
        ultimately show ?thesis using g 2 dp d ds f s0 by (auto simp: agrees_Cons)
      qed
    next
      case 3
      have "agrees (if s = [] then None else gmatch mbm mb s1 p)
          (matches (parse_pat (decode mbm mb p)) (decode mbm mb s1)) (parse_pat (decode mbm mb p))" if "s \<noteq> []"
        by (rule step [OF that len okp _ refl]) (use "1.prems"(5) dp 3 in auto)
      then show ?thesis using g 3 dp ds s0 by (auto simp: agrees_Cons)
    next
      case 4
      let ?ts = "parse_pat (decode mbm mb p)"
      have toks: "parse_pat (decode mbm mb p0) = Star # ?ts" using dp 4 by simp
      show ?thesis
      proof (cases "p = []")
        case True
        have "matches [Star] (decode mbm mb s)" by (auto intro: exI [of _ "length (decode mbm mb s)"])
        with True g 4 toks show ?thesis by simp
      next
        case False
        then have ts: "?ts \<noteq> []" using parse_pat_ne by simp
        have hd: "hd ?ts \<noteq> Star" "stars_apart ?ts" using "1.prems"(5) toks ts by auto
        have "agrees (gm_star mbm mb s p) (matches (Star # ?ts) (decode mbm mb s)) ?ts"
          by (rule gm_star_agrees [OF _ ts hd(1) "1.prems"(1,2)])
             (rule IH [OF len _ _ okp _ refl hd(2)], use dp in auto)
        then show ?thesis using g 4 False toks by (simp add: agrees_Cons)
      qed
    next
      case 5
      have "agrees (if s = [] then None else gmatch mbm mb s1 p)
          (matches (parse_pat (decode mbm mb p)) (decode mbm mb s1)) (parse_pat (decode mbm mb p))" if "s \<noteq> []"
        by (rule step [OF that len okp _ refl]) (use "1.prems"(5) dp 5 in auto)
      then show ?thesis using g 5 dp ds s0 c by (auto simp: agrees_Cons)
    qed
  qed
qed

section \<open>Properties\<close>

text \<open>
  (C10) Pattern matching.  For a valid subject and a valid pattern in which no \<open>*\<close> follows another,
  \<open>gmatch\<close> decides the meaning of the pattern: literals, \<open>?\<close>, \<open>*\<close>, escapes, and bracket expressions
  with ranges and negation, on multibyte characters.  It always ends; a pattern without a
  negated bracket expression never makes it read outside its arguments, and with one the result,
  if it stays inside, is still right.
\<close>

theorem gmatch_correct:
  assumes "mb_sane mbm mb" "cstring_ok s" "WEOF \<notin> set (decode mbm mb s)"
    "cstring_ok p" "WEOF \<notin> set (decode mbm mb p)" "stars_apart (parse_pat (decode mbm mb p))"
  shows "gmatch mbm mb s p \<in> {None, Some (matches (parse_pat (decode mbm mb p)) (decode mbm mb s))} \<and>
    (gmatch mbm mb s p = None \<longrightarrow> list_ex negated (parse_pat (decode mbm mb p)))"
  using gmatch_agrees [OF assms] unfolding agrees_def by blast

theorem gmatch_correct_witness:
  "gmatch 2 (\<lambda>_. (-1, 0)) ''main.c'' ''*.[a-ch]'' = Some True"
proof -
  let ?m = "decode 2 (\<lambda>_. (-1, 0))"
  have sane: "mb_sane 2 (\<lambda>_. (-1, 0))" by (simp add: mb_sane_def)
  have d: "?m ''main.c'' = [109, 97, 105, 110, 46, 99]" "?m ''*.[a-ch]'' = [42, 46, 91, 97, 45, 99, 104, 93]"
    by (simp_all add: decode.simps fetch_def uchar_def)
  have pp: "parse_pat [42, 46, 91, 97, 45, 99, 104, 93] = [Star, Lit 46, Class False [Single 97, Range 97 99, Single 104]]"
    by (simp add: Let_def parse_class.simps)
  have "drop 4 [109, 97, 105, 110, 46, 99] = [46, 99 :: int]" by simp
  then have m: "matches [Star, Lit 46, Class False [Single 97, Range 97 99, Single 104]] [109, 97, 105, 110, 46, 99]"
    unfolding matches.simps(5) by (intro exI [of _ 4]) simp
  have ok: "cstring_ok ''main.c''" "cstring_ok ''*.[a-ch]''" by (simp_all add: cstring_ok_def)
  have w: "WEOF \<notin> set (?m ''main.c'')" "WEOF \<notin> set (?m ''*.[a-ch]'')" "stars_apart (parse_pat (?m ''*.[a-ch]''))"
    unfolding d pp by simp_all
  from gmatch_correct [OF sane ok(1) w(1) ok(2) w(2,3)] m show ?thesis unfolding d pp by auto
qed

text \<open>
  Reading past the end.  A negated bracket expression is satisfied by the terminating NUL of
  an exhausted subject, and the call then goes on behind it: \<open>gmatch\<close> with the empty string and
  the pattern \<open>[!a]\<close> reads memory outside its subject.
\<close>

lemma gmatch_negated_overread: "gmatch mbm mb [] ''[!a]'' = None"
  by (simp add: gmatch.simps gm_class.simps gm_item_def fetch_def uchar_def Let_def)

text \<open>
  Two stars.  The loop for \<open>*\<close> never tries the empty rest of the subject unless the pattern ends
  there, so \<open>a**\<close> does not match \<open>a\<close> although \<open>a*\<close> does.
\<close>

theorem gmatch_two_stars:
  "gmatch mbm mb ''a'' ''a*'' = Some True \<and> gmatch mbm mb ''a'' ''a**'' = Some False"
  by (simp add: gmatch.simps gm_star.simps fetch_def uchar_def)

end
