(* ===== verification/Stdio.thy ===== *)
theory Stdio
  imports Prelude
begin

text \<open>
  The parts of the C library that several utilities use directly: the conversions of \<open>printf\<close>
  (\<open>%d\<close>, \<open>%u\<close>, \<open>%.5u\<close>, \<open>%5llu\<close>), and
  the loop \<open>while ((sz = read(fd, buf, n)) > 0) body\<close> over a raw file descriptor, which unlike
  \<open>ib_read\<close> does not retry interrupted calls.
\<close>

unbundle bit_operations_syntax

section \<open>Formatted numbers\<close>

definition digit :: "nat \<Rightarrow> char" where
  "digit d = char_of (48 + d)"

fun decimal :: "nat \<Rightarrow> string" where
  "decimal n = (if n < 10 then [digit n] else decimal (n div 10) @ [digit (n mod 10)])"

declare decimal.simps [simp del]

definition decimal_int :: "int \<Rightarrow> string" where
  "decimal_int i = (if i < 0 then CHR ''-'' # decimal (nat (- i)) else decimal (nat i))"

definition padl :: "nat \<Rightarrow> char \<Rightarrow> string \<Rightarrow> string" where
  "padl w c s = replicate (w - length s) c @ s"

definition is_digit :: "char \<Rightarrow> bool" where
  "is_digit c \<longleftrightarrow> 48 \<le> uchar c \<and> uchar c \<le> 57"

definition digit_val :: "char \<Rightarrow> nat" where
  "digit_val c = nat (uchar c - 48)"

text \<open>Reading a digit string back.\<close>

definition undecimal :: "string \<Rightarrow> nat" where
  "undecimal s = foldl (\<lambda>n c. 10 * n + digit_val c) 0 s"

lemma digit_props:
  assumes "d < 10"
  shows "uchar (digit d) = 48 + int d" "digit_val (digit d) = d"
proof -
  have "of_char (char_of (48 + d) :: char) = (48 + d :: nat)" using assms by simp
  then show "uchar (digit d) = 48 + int d" by (simp add: digit_def uchar_nat)
  then show "digit_val (digit d) = d" by (simp add: digit_val_def)
qed

lemma digit_codes [simp]:
  "digit 0 = CHR ''0''"
  "digit 1 = CHR ''1''"
  "digit 2 = CHR ''2''"
  "digit 3 = CHR ''3''"
  "digit 4 = CHR ''4''"
  "digit 5 = CHR ''5''"
  "digit 6 = CHR ''6''"
  "digit 7 = CHR ''7''"
  "digit 8 = CHR ''8''"
  "digit 9 = CHR ''9''"
  by code_simp+

lemma digit_codes_Suc [simp]: "digit (Suc 0) = CHR ''1''"
  by code_simp

lemma decimal_ne [simp]: "decimal n \<noteq> []"
  by (subst decimal.simps) simp

lemma undecimal_decimal [simp]: "undecimal (decimal n) = n"
proof (induction n rule: decimal.induct)
  case (1 n)
  then show ?case
    by (subst decimal.simps) (auto simp: undecimal_def digit_props)
qed

lemma decimal_inject [simp]: "decimal m = decimal n \<longleftrightarrow> m = n"
  by (metis undecimal_decimal)

lemma decimal_digits: "c \<in> set (decimal n) \<Longrightarrow> is_digit c"
proof (induction n rule: decimal.induct)
  case (1 n)
  have m: "n mod 10 < 10" by simp
  show ?case
  proof (cases "n < 10")
    case True
    with "1.prems" have "c = digit n" by (simp add: decimal.simps [of n])
    with digit_props(1) [OF True] True show ?thesis by (simp add: is_digit_def)
  next
    case False
    with "1.prems" have "c \<in> set (decimal (n div 10)) \<or> c = digit (n mod 10)"
      by (auto simp: decimal.simps [of n])
    with "1.IH" [OF False] digit_props(1) [OF m] m show ?thesis by (auto simp: is_digit_def)
  qed
qed

lemma decimal_hd: "0 < n \<Longrightarrow> hd (decimal n) \<noteq> CHR ''0''"
proof (induction n rule: decimal.induct)
  case (1 n)
  show ?case
  proof (cases "n < 10")
    case True
    then have "uchar (digit n) \<noteq> uchar (CHR ''0'')" using digit_props(1) [OF True] "1.prems" by (simp add: uchar_def)
    with True show ?thesis by (auto simp: decimal.simps [of n])
  next
    case False
    with "1.IH" show ?thesis by (simp add: decimal.simps [of n] hd_append)
  qed
qed

text \<open>\<open>atoi\<close> of the C library, on a string without overflow.\<close>

definition atoi :: "string \<Rightarrow> int" where
  "atoi s =
     (let s = dropWhile (\<lambda>c. c = CHR '' '' \<or> 9 \<le> uchar c \<and> uchar c \<le> 13) s;
          neg = (s \<noteq> [] \<and> hd s = CHR ''-'');
          s = (if s \<noteq> [] \<and> (hd s = CHR ''-'' \<or> hd s = CHR ''+'') then tl s else s);
          n = int (undecimal (takeWhile is_digit s))
      in if neg then - n else n)"

section \<open>Runs one after the other\<close>

text \<open>
  \<open>errflg |= f(argv[i])\<close> for each operand in turn: the outputs follow one another, the status is
  the bitwise or.
\<close>

definition run_all :: "outcome list \<Rightarrow> outcome" where
  "run_all rs = \<lparr>out = concat (map out rs), err = concat (map err rs), status = fold (OR) (map status rs) 0\<rparr>"

lemma fold_or_status:
  "fold (OR) (map (\<lambda>a. if P a then k else (0 :: int)) as) 0 = (if \<exists>a \<in> set as. P a then k else 0)"
proof -
  have "fold (OR) (map (\<lambda>a. if P a then k else (0 :: int)) as) b = (if \<exists>a \<in> set as. P a then k OR b else b)" for b
    by (induction as arbitrary: b) (auto simp: or.left_commute)
  then show ?thesis by auto
qed

section \<open>Raw read loops\<close>

text \<open>
  The loop stops at end of file (\<open>read\<close> returns 0) or with an error number.  The body sees each
  chunk as it was delivered.
\<close>

lemma sys_read_decreases: "sys_read n fd = (ROk bs, fd') \<Longrightarrow> bs \<noteq> [] \<Longrightarrow> fd_size fd' < fd_size fd"
  using sys_read_size [of n fd bs fd'] by (cases bs) auto

function read_loop :: "nat \<Rightarrow> (string \<Rightarrow> 'b \<Rightarrow> 'b) \<Rightarrow> fdesc \<Rightarrow> 'b \<Rightarrow> 'b \<times> int option \<times> fdesc" where
  "read_loop n body fd b =
     (case sys_read n fd of
        (RFail e, fd') \<Rightarrow> (b, Some e, fd')
      | (ROk bs, fd') \<Rightarrow> if bs = [] then (b, None, fd') else read_loop n body fd' (body bs b))"
  by pat_completeness auto
termination
  by (relation "measure (\<lambda>(n, body, fd, b). fd_size fd)") (auto dest: sys_read_decreases [OF sym])

declare read_loop.simps [simp del]

text \<open>Descriptors on which no read fails at all, not even with \<open>EINTR\<close>.\<close>

definition fd_calm :: "fdesc \<Rightarrow> bool" where
  "fd_calm fd \<longleftrightarrow> (\<forall>e. RErr e \<notin> set (fd_evs fd))"

lemma fd_calm_mk [simp]: "fd_calm (mk_fd s)"
  by (simp add: fd_calm_def mk_fd_def)

text \<open>
  A body that does not care how its input is cut into chunks is run on the whole rest of the
  file; when a read fails it has been run on the bytes delivered before.
\<close>

lemma read_loop_result:
  assumes app: "\<And>x y b. body (x @ y) b = body y (body x b)" and nil: "\<And>b. body [] b = b"
    and n: "0 < n"
  shows "\<exists>bs. prefix bs (fd_rest fd) \<and> fst (read_loop n body fd b) = body bs b \<and>
    (fst (snd (read_loop n body fd b)) = None \<longrightarrow> bs = fd_rest fd) \<and>
    (fd_calm fd \<longrightarrow> fst (snd (read_loop n body fd b)) = None)"
proof (induction fd arbitrary: b rule: measure_induct_rule [of fd_size])
  case (less fd)
  note simps = read_loop.simps [of n body fd b]
  obtain r fd' where r: "sys_read n fd = (r, fd')" by fastforce
  show ?case
  proof (cases r)
    case (RFail e)
    with r have "\<not> fd_calm fd" using sys_read_fail(7) [of n fd e fd'] by (auto simp: fd_calm_def)
    with RFail r nil show ?thesis by (intro exI [of _ "[]"]) (simp add: simps)
  next
    case (ROk bs)
    with r have ok: "sys_read n fd = (ROk bs, fd')" by simp
    note laws = sys_read_ok [OF ok n]
    show ?thesis
    proof (cases "bs = []")
      case True
      with ok laws(2) nil show ?thesis by (intro exI [of _ "[]"]) (simp add: simps)
    next
      case False
      then have "fd_size fd' < fd_size fd" using sys_read_decreases [OF ok] by blast
      from less [OF this, of "body bs b"] obtain cs where cs: "prefix cs (fd_rest fd')"
        "fst (read_loop n body fd' (body bs b)) = body cs (body bs b)"
        "fst (snd (read_loop n body fd' (body bs b))) = None \<longrightarrow> cs = fd_rest fd'"
        "fd_calm fd' \<longrightarrow> fst (snd (read_loop n body fd' (body bs b))) = None" by (elim exE conjE) (rule that)
      have "fd_calm fd \<longrightarrow> fd_calm fd'" using laws(7) by (auto simp: fd_calm_def)
      moreover have "read_loop n body fd b = read_loop n body fd' (body bs b)"
        using False ok by (simp add: simps)
      moreover have "body (bs @ cs) b = body cs (body bs b)" by (rule app)
      ultimately show ?thesis using cs laws(1) by (intro exI [of _ "bs @ cs"]) auto
    qed
  qed
qed

corollary read_loop_calm:
  assumes "\<And>x y b. body (x @ y) b = body y (body x b)" "\<And>b. body [] b = b" "0 < n" "fd_calm fd"
  obtains fd' where "read_loop n body fd b = (body (fd_rest fd) b, None, fd')"
  using read_loop_result [of body n fd b, OF assms(1-3)] assms(4) by (metis prod.collapse)

lemma read_loop_fold:
  assumes "0 < n" "fd_calm fd"
  obtains fd' where "read_loop n (\<lambda>bs b. fold f bs b) fd b = (fold f (fd_rest fd) b, None, fd')"
  using read_loop_calm [of "\<lambda>bs b. fold f bs b" n fd b] assms by auto

end
