(* ===== verification/Cksum.thy ===== *)
theory Cksum
  imports Stdio
begin

text \<open>
  \<open>cksum/cksum.c\<close>: the POSIX checksum.  The program runs a table driven CRC over the bytes of the
  file and over the bytes of its length; the specification is the remainder of a long division
  of bit strings over GF(2).
\<close>

unbundle bit_operations_syntax

section \<open>The program\<close>

definition crctab :: "32 word list" where
  "crctab = [
      0x00000000, 0x04c11db7, 0x09823b6e, 0x0d4326d9, 0x130476dc, 0x17c56b6b, 0x1a864db2, 0x1e475005,
      0x2608edb8, 0x22c9f00f, 0x2f8ad6d6, 0x2b4bcb61, 0x350c9b64, 0x31cd86d3, 0x3c8ea00a, 0x384fbdbd,
      0x4c11db70, 0x48d0c6c7, 0x4593e01e, 0x4152fda9, 0x5f15adac, 0x5bd4b01b, 0x569796c2, 0x52568b75,
      0x6a1936c8, 0x6ed82b7f, 0x639b0da6, 0x675a1011, 0x791d4014, 0x7ddc5da3, 0x709f7b7a, 0x745e66cd,
      0x9823b6e0, 0x9ce2ab57, 0x91a18d8e, 0x95609039, 0x8b27c03c, 0x8fe6dd8b, 0x82a5fb52, 0x8664e6e5,
      0xbe2b5b58, 0xbaea46ef, 0xb7a96036, 0xb3687d81, 0xad2f2d84, 0xa9ee3033, 0xa4ad16ea, 0xa06c0b5d,
      0xd4326d90, 0xd0f37027, 0xddb056fe, 0xd9714b49, 0xc7361b4c, 0xc3f706fb, 0xceb42022, 0xca753d95,
      0xf23a8028, 0xf6fb9d9f, 0xfbb8bb46, 0xff79a6f1, 0xe13ef6f4, 0xe5ffeb43, 0xe8bccd9a, 0xec7dd02d,
      0x34867077, 0x30476dc0, 0x3d044b19, 0x39c556ae, 0x278206ab, 0x23431b1c, 0x2e003dc5, 0x2ac12072,
      0x128e9dcf, 0x164f8078, 0x1b0ca6a1, 0x1fcdbb16, 0x018aeb13, 0x054bf6a4, 0x0808d07d, 0x0cc9cdca,
      0x7897ab07, 0x7c56b6b0, 0x71159069, 0x75d48dde, 0x6b93dddb, 0x6f52c06c, 0x6211e6b5, 0x66d0fb02,
      0x5e9f46bf, 0x5a5e5b08, 0x571d7dd1, 0x53dc6066, 0x4d9b3063, 0x495a2dd4, 0x44190b0d, 0x40d816ba,
      0xaca5c697, 0xa864db20, 0xa527fdf9, 0xa1e6e04e, 0xbfa1b04b, 0xbb60adfc, 0xb6238b25, 0xb2e29692,
      0x8aad2b2f, 0x8e6c3698, 0x832f1041, 0x87ee0df6, 0x99a95df3, 0x9d684044, 0x902b669d, 0x94ea7b2a,
      0xe0b41de7, 0xe4750050, 0xe9362689, 0xedf73b3e, 0xf3b06b3b, 0xf771768c, 0xfa325055, 0xfef34de2,
      0xc6bcf05f, 0xc27dede8, 0xcf3ecb31, 0xcbffd686, 0xd5b88683, 0xd1799b34, 0xdc3abded, 0xd8fba05a,
      0x690ce0ee, 0x6dcdfd59, 0x608edb80, 0x644fc637, 0x7a089632, 0x7ec98b85, 0x738aad5c, 0x774bb0eb,
      0x4f040d56, 0x4bc510e1, 0x46863638, 0x42472b8f, 0x5c007b8a, 0x58c1663d, 0x558240e4, 0x51435d53,
      0x251d3b9e, 0x21dc2629, 0x2c9f00f0, 0x285e1d47, 0x36194d42, 0x32d850f5, 0x3f9b762c, 0x3b5a6b9b,
      0x0315d626, 0x07d4cb91, 0x0a97ed48, 0x0e56f0ff, 0x1011a0fa, 0x14d0bd4d, 0x19939b94, 0x1d528623,
      0xf12f560e, 0xf5ee4bb9, 0xf8ad6d60, 0xfc6c70d7, 0xe22b20d2, 0xe6ea3d65, 0xeba91bbc, 0xef68060b,
      0xd727bbb6, 0xd3e6a601, 0xdea580d8, 0xda649d6f, 0xc423cd6a, 0xc0e2d0dd, 0xcda1f604, 0xc960ebb3,
      0xbd3e8d7e, 0xb9ff90c9, 0xb4bcb610, 0xb07daba7, 0xae3afba2, 0xaafbe615, 0xa7b8c0cc, 0xa379dd7b,
      0x9b3660c6, 0x9ff77d71, 0x92b45ba8, 0x9675461f, 0x8832161a, 0x8cf30bad, 0x81b02d74, 0x857130c3,
      0x5d8a9099, 0x594b8d2e, 0x5408abf7, 0x50c9b640, 0x4e8ee645, 0x4a4ffbf2, 0x470cdd2b, 0x43cdc09c,
      0x7b827d21, 0x7f436096, 0x7200464f, 0x76c15bf8, 0x68860bfd, 0x6c47164a, 0x61043093, 0x65c52d24,
      0x119b4be9, 0x155a565e, 0x18197087, 0x1cd86d30, 0x029f3d35, 0x065e2082, 0x0b1d065b, 0x0fdc1bec,
      0x3793a651, 0x3352bbe6, 0x3e119d3f, 0x3ad08088, 0x2497d08d, 0x2056cd3a, 0x2d15ebe3, 0x29d4f654,
      0xc5a92679, 0xc1683bce, 0xcc2b1d17, 0xc8ea00a0, 0xd6ad50a5, 0xd26c4d12, 0xdf2f6bcb, 0xdbee767c,
      0xe3a1cbc1, 0xe760d676, 0xea23f0af, 0xeee2ed18, 0xf0a5bd1d, 0xf464a0aa, 0xf9278673, 0xfde69bc4,
      0x89b8fd09, 0x8d79e0be, 0x803ac667, 0x84fbdbd0, 0x9abc8bd5, 0x9e7d9662, 0x933eb0bb, 0x97ffad0c,
      0xafb010b1, 0xab710d06, 0xa6322bdf, 0xa2f33668, 0xbcb4666d, 0xb8757bda, 0xb5365d03, 0xb1f740b4]"

definition crc_octet :: "32 word \<Rightarrow> 32 word \<Rightarrow> 32 word" where
  "crc_octet s c = push_bit 8 s XOR crctab ! unat (drop_bit 24 s XOR c)"

text \<open>The body of the read loop: \<open>nbytes\<close> and \<open>s\<close>.\<close>

definition cksum_chunk :: "string \<Rightarrow> 64 word \<times> 32 word \<Rightarrow> 64 word \<times> 32 word" where
  "cksum_chunk buf st =
     (fst st + of_nat (length buf), fold (\<lambda>b s. crc_octet s (of_int (uchar b))) buf (snd st))"

text \<open>The length, least significant octet first.\<close>

lemma drop_bit_decreases: "n \<noteq> 0 \<Longrightarrow> unat (drop_bit 8 n) < unat n" for n :: "64 word"
  by (simp add: drop_bit_eq_div unat_div unat_gt_0)

function cksum_len :: "64 word \<Rightarrow> 32 word \<Rightarrow> 32 word" where
  "cksum_len n s = (if n = 0 then s else cksum_len (drop_bit 8 n) (crc_octet s (ucast (n AND 0xFF))))"
  by pat_completeness auto
termination
  by (relation "measure (\<lambda>(n, s). unat n)") (auto intro: drop_bit_decreases)

declare cksum_len.simps [simp del]

text \<open>
  \<open>cksum(name)\<close>; \<open>None\<close> is the null pointer, for standard input.  \<open>strerror\<close> is the C library's
  table of messages.
\<close>

definition cksum_fd :: "string \<Rightarrow> (int \<Rightarrow> string) \<Rightarrow> string option \<Rightarrow> fdesc \<Rightarrow> outcome" where
  "cksum_fd progname strerror name fd =
     (case read_loop 4096 cksum_chunk fd (0, 0) of
        ((nbytes, s), e, _) \<Rightarrow>
          \<lparr>out = decimal (unat (NOT (cksum_len nbytes s))) @ '' '' @ decimal (unat nbytes) @
                   (case name of Some f \<Rightarrow> '' '' @ f | None \<Rightarrow> []) @ [NL],
           err = (case e of None \<Rightarrow> []
                  | Some n \<Rightarrow> progname @ '': read error on '' @
                      (case name of Some f \<Rightarrow> f | None \<Rightarrow> ''stdin'') @ '': '' @ strerror n @ [NL]),
           status = (if e = None then 0 else 1)\<rparr>)"

definition cksum :: "string \<Rightarrow> (int \<Rightarrow> string) \<Rightarrow> filesys \<Rightarrow> fdesc \<Rightarrow> string option \<Rightarrow> outcome" where
  "cksum progname strerror fs stdin name =
     (case name of
        Some f \<Rightarrow>
          (case fs f of
             None \<Rightarrow> \<lparr>out = [], err = progname @ '': Can'' @ [CHR 0x27] @ ''t open '' @ f @ [NL], status = 10\<rparr>
           | Some fd \<Rightarrow> cksum_fd progname strerror name fd)
      | None \<Rightarrow> cksum_fd progname strerror name stdin)"

definition cksum_main :: "(int \<Rightarrow> string) \<Rightarrow> filesys \<Rightarrow> fdesc \<Rightarrow> string \<Rightarrow> string list \<Rightarrow> outcome" where
  "cksum_main strerror fs stdin progname args =
     (let args = (if args \<noteq> [] \<and> hd args = ''--'' then tl args else args)
      in if args \<noteq> []
         then run_all (map (\<lambda>a. cksum progname strerror fs stdin (Some a)) args)
         else run_all [cksum progname strerror fs stdin None])"

section \<open>Long division over GF(2)\<close>

text \<open>
  Bit strings are lists of coefficients, the highest power first.  \<open>xorp\<close> subtracts its first
  argument from the leading coefficients of the second; \<open>gf2_mod g\<close> divides by the polynomial
  with leading coefficient one and the remaining coefficients \<open>g\<close>.
\<close>

fun xorp :: "bool list \<Rightarrow> bool list \<Rightarrow> bool list" where
  "xorp (x # xs) (y # ys) = (x \<noteq> y) # xorp xs ys"
| "xorp _ ys = ys"

lemma length_xorp [simp]: "length (xorp xs ys) = length ys"
  by (induction xs ys rule: xorp.induct) auto

function gf2_mod :: "bool list \<Rightarrow> bool list \<Rightarrow> bool list" where
  "gf2_mod g xs =
     (if length xs \<le> length g then xs
      else gf2_mod g (if hd xs then xorp g (tl xs) else tl xs))"
  by pat_completeness auto
termination
  by (relation "measure (\<lambda>(g, xs). length xs)") auto

declare gf2_mod.simps [simp del]

definition wbits :: "'a::len word \<Rightarrow> bool list" where
  "wbits w = map (bit w) (rev [0..<LENGTH('a)])"

definition octet_bits :: "char \<Rightarrow> bool list" where
  "octet_bits c = wbits (of_int (uchar c) :: 8 word)"

text \<open>The octets of a number, least significant first, no leading zeros.\<close>

fun octets :: "nat \<Rightarrow> char list" where
  "octets n = (if n = 0 then [] else char_of (n mod 256) # octets (n div 256))"

declare octets.simps [simp del]

definition posix_poly :: "32 word" where
  "posix_poly = 0x04C11DB7"

definition posix_crc :: "string \<Rightarrow> bool list" where
  "posix_crc file =
     map Not (gf2_mod (wbits posix_poly)
        (concat (map octet_bits (file @ octets (length file))) @ replicate 32 False))"

section \<open>The register\<close>

definition crc_shift :: "32 word \<Rightarrow> 32 word" where
  "crc_shift x = push_bit 1 x XOR (if bit x 31 then posix_poly else 0)"

definition crc_bit :: "bool \<Rightarrow> 32 word \<Rightarrow> 32 word" where
  "crc_bit b s = push_bit 1 s XOR (if bit s 31 \<noteq> b then posix_poly else 0)"

lemma crc_shift_xor: "crc_shift (x XOR y) = crc_shift x XOR crc_shift y"
  by (rule bit_eqI) (auto simp: crc_shift_def bit_simps)

lemma crc_shifts_xor: "(crc_shift ^^ n) (x XOR y) = (crc_shift ^^ n) x XOR (crc_shift ^^ n) y"
  by (induction n) (simp_all add: crc_shift_xor)

lemma crc_shifts_low:
  "n \<le> 32 \<Longrightarrow> (\<And>i. 32 - n \<le> i \<Longrightarrow> \<not> bit x i) \<Longrightarrow> (crc_shift ^^ n) x = push_bit n x"
proof (induction n)
  case (Suc n)
  then have e: "(crc_shift ^^ n) x = push_bit n x" by simp
  have "\<not> bit (push_bit n x) 31" using Suc.prems by (auto simp: bit_simps)
  then have "crc_shift (push_bit n x) = push_bit (Suc n) x" by (simp add: crc_shift_def)
  then show ?case by (simp only: funpow.simps o_apply e)
qed simp

text \<open>
  The table, checked row by row: entry \<open>2 m\<close> is one step on from entry \<open>m\<close>, entry \<open>2 m + 1\<close> is that
  exclusive-ored with the polynomial.  Hence entry \<open>k\<close> is \<open>k\<close> in the top octet, eight steps on.
\<close>

definition crc_double :: "32 word \<Rightarrow> 32 word" where
  "crc_double x = (if x < 0x80000000 then 2 * x else (2 * x) XOR 0x04C11DB7)"

fun crc_rows :: "32 word list \<Rightarrow> 32 word list" where
  "crc_rows [] = []"
| "crc_rows (x # xs) = crc_double x # (crc_double x XOR 0x04C11DB7) # crc_rows xs"

lemma crctab_rows: "crctab = crc_rows (take 128 crctab)"
  by (simp add: crctab_def crc_double_def)

lemma crc_rows_nth:
  "i < length xs \<Longrightarrow> crc_rows xs ! (2 * i) = crc_double (xs ! i) \<and>
     crc_rows xs ! Suc (2 * i) = crc_double (xs ! i) XOR 0x04C11DB7"
proof (induction xs arbitrary: i)
  case (Cons x xs)
  then show ?case by (cases i) simp_all
qed simp

lemma crc_double_shift: "crc_double x = crc_shift x"
proof -
  have x: "unat x < 2 ^ 32" using unsigned_less [of x] by simp
  have "bit x 31 \<longleftrightarrow> odd (unat x div 2147483648)" using bit_unsigned_iff [of x 31, where ?'a = nat] by (simp add: bit_iff_odd)
  moreover have "unat x div 2147483648 = 0 \<or> unat x div 2147483648 = 1" using x by auto
  ultimately have "bit x 31 \<longleftrightarrow> unat x div 2147483648 = 1" by auto
  also have "\<dots> \<longleftrightarrow> \<not> x < 0x80000000" using x by (auto simp: word_less_nat_alt)
  finally have "x < 0x80000000 \<longleftrightarrow> \<not> bit x 31" by blast
  then show ?thesis by (auto simp: crc_double_def crc_shift_def posix_poly_def mult.commute)
qed

lemma crctab_rec:
  assumes "m < 128"
  shows "crctab ! (2 * m) = crc_shift (crctab ! m)"
    and "crctab ! Suc (2 * m) = crc_shift (crctab ! m) XOR posix_poly"
proof -
  have "length crctab = 256" by (simp add: crctab_def)
  with assms have m: "m < length (take 128 crctab)" "take 128 crctab ! m = crctab ! m" by simp_all
  from crc_rows_nth [OF m(1), folded crctab_rows]
  show "crctab ! (2 * m) = crc_shift (crctab ! m)"
    "crctab ! Suc (2 * m) = crc_shift (crctab ! m) XOR posix_poly"
    by (simp_all add: crc_double_shift posix_poly_def m(2))
qed

definition crc_entry :: "nat \<Rightarrow> 32 word" where
  "crc_entry k = (crc_shift ^^ 8) (push_bit 24 (of_nat k))"

lemma crc_entry_double: "m < 128 \<Longrightarrow> crc_entry (2 * m) = crc_shift (crc_entry m)"
proof -
  assume m: "m < 128"
  have "\<not> bit (push_bit 24 (of_nat m) :: 32 word) 31"
    using m by (simp only: bit_push_bit_iff bit_of_nat_iff) (simp add: bit_iff_odd)
  then have "crc_shift (push_bit 24 (of_nat m)) = push_bit 1 (push_bit 24 (of_nat m))"
    by (simp add: crc_shift_def)
  also have "\<dots> = push_bit 24 (of_nat (2 * m))" by (simp add: push_bit_eq_mult)
  finally show ?thesis unfolding crc_entry_def by (metis funpow_swap1)
qed

lemma crc_entry_1: "(crc_shift ^^ 8) (push_bit 24 1) = posix_poly"
proof -
  have e: "(crc_shift ^^ 7) (push_bit 24 1) = push_bit 7 (push_bit 24 1)"
    by (rule crc_shifts_low) (simp_all only: bit_push_bit_iff bit_1_iff, auto)
  have "(crc_shift ^^ 8) (push_bit 24 1) = crc_shift ((crc_shift ^^ 7) (push_bit 24 1))"
    by (simp add: numeral_eq_Suc)
  also have "\<dots> = posix_poly" unfolding e by (simp add: crc_shift_def posix_poly_def)
  finally show ?thesis .
qed

lemma crc_entry_odd: "crc_entry (Suc (2 * m)) = crc_entry (2 * m) XOR posix_poly"
proof -
  have "of_nat (2 * m) XOR 1 = (of_nat (Suc (2 * m)) :: 32 word)"
    by (simp add: xor_one_eq)
  then have "push_bit 24 (of_nat (Suc (2 * m))) = (push_bit 24 (of_nat (2 * m)) XOR push_bit 24 1 :: 32 word)"
    by (metis push_bit_xor)
  then show ?thesis unfolding crc_entry_def crc_entry_1 [symmetric] by (simp only: crc_shifts_xor)
qed

lemma crctab_nth: "k < 256 \<Longrightarrow> crctab ! k = crc_entry k"
proof (induction k rule: less_induct)
  case (less k)
  show ?case
  proof (cases "k = 0")
    case True
    have "(crc_shift ^^ 8) 0 = push_bit 8 0" by (rule crc_shifts_low) simp_all
    with True show ?thesis by (simp add: crctab_def crc_entry_def)
  next
    case False
    let ?m = "k div 2"
    have m: "?m < k" "?m < 128" using False less.prems by auto
    with less.IH [OF m(1)] have "crctab ! ?m = crc_entry ?m" by simp
    with m(2) crctab_rec [OF m(2)] crc_entry_double [OF m(2)] crc_entry_odd [of ?m]
    have "crctab ! (2 * ?m) = crc_entry (2 * ?m)" "crctab ! Suc (2 * ?m) = crc_entry (Suc (2 * ?m))"
      by simp_all
    moreover have "k = 2 * ?m \<or> k = Suc (2 * ?m)" by presburger
    ultimately show ?thesis by metis
  qed
qed

text \<open>The bit at the top of the register and the bit coming in are one and the same step.\<close>

definition top :: "nat \<Rightarrow> bool \<Rightarrow> 32 word" where
  "top j b = (if b then push_bit j 1 else 0)"

lemma bit_top: "bit (top j b) i \<longleftrightarrow> b \<and> i = j \<and> i < 32"
  by (auto simp: top_def bit_simps)

lemma crc_bit_shift: "crc_bit b s = crc_shift (s XOR top 31 b)"
proof (rule bit_word_eqI)
  fix i assume "i < LENGTH(32)"
  then show "bit (crc_bit b s) i \<longleftrightarrow> bit (crc_shift (s XOR top 31 b)) i"
    unfolding crc_bit_def crc_shift_def bit_xor_iff bit_push_bit_iff bit_top if_distrib [of "\<lambda>w. bit w i"]
    by auto
qed

lemma top_shift: "j < 31 \<Longrightarrow> top (Suc j) b = crc_shift (top j b)"
  by (auto simp: crc_shift_def top_def bit_simps)

lemma top_shifts: "k + j \<le> 31 \<Longrightarrow> (crc_shift ^^ k) (top j b) = top (k + j) b"
  by (induction k) (simp_all add: top_shift)

fun tops :: "nat \<Rightarrow> bool list \<Rightarrow> 32 word" where
  "tops k [] = 0"
| "tops k (b # bs) = top (31 - k) b XOR tops (Suc k) bs"

lemma fold_crc_bit:
  "k + length bs \<le> 32 \<Longrightarrow>
     fold crc_bit bs ((crc_shift ^^ k) x) = (crc_shift ^^ (k + length bs)) (x XOR tops k bs)"
proof (induction bs arbitrary: k x)
  case (Cons b bs)
  then have "top 31 b = (crc_shift ^^ k) (top (31 - k) b)" by (simp add: top_shifts)
  then have "crc_bit b ((crc_shift ^^ k) x) = (crc_shift ^^ Suc k) (x XOR top (31 - k) b)"
    by (simp add: crc_bit_shift crc_shifts_xor)
  with Cons.IH [of "Suc k" "x XOR top (31 - k) b"] Cons.prems show ?case
    by (simp add: xor.assoc)
qed simp

lemma wbits_octet: "wbits (w :: 8 word) = [bit w 7, bit w 6, bit w 5, bit w 4, bit w 3, bit w 2, bit w 1, bit w 0]"
  by (simp add: wbits_def upt_rec numeral_eq_Suc)

lemma tops_octet: "tops 0 (wbits (w :: 8 word)) = push_bit 24 (ucast w)"
proof (rule bit_word_eqI)
  fix i assume "i < LENGTH(32)"
  then consider "i < 24" | "i = 24" | "i = 25" | "i = 26" | "i = 27" | "i = 28" | "i = 29" | "i = 30" | "i = 31"
    by fastforce
  then show "bit (tops 0 (wbits w)) i \<longleftrightarrow> bit (push_bit 24 (ucast w) :: 32 word) i"
    by cases (simp_all add: wbits_octet bit_top bit_simps)
qed

text \<open>One look-up in the table is eight steps of the register.\<close>

lemma crc_octet_bits: "crc_octet s (ucast (w :: 8 word)) = fold crc_bit (wbits w) s"
proof -
  let ?k = "drop_bit 24 s XOR ucast w"
  have k: "unat ?k < 256"
  proof -
    have "\<not> bit s (24 + i)" "\<not> bit w i" if "8 \<le> i" for i
      using that bit_imp_le_length [of s "24 + i"] bit_imp_le_length [of w i] by auto
    then have "bit ?k i \<Longrightarrow> i < 8" for i by (auto simp: bit_simps not_less [symmetric])
    then have "?k = take_bit 8 ?k" by (intro bit_word_eqI) (auto simp only: bit_take_bit_iff)
    then have "unat ?k = take_bit 8 (unat ?k)" by (metis unsigned_take_bit_eq)
    also have "\<dots> < 2 ^ 8" by (rule take_bit_nat_less_exp)
    finally show ?thesis by simp
  qed
  have "fold crc_bit (wbits w) s = (crc_shift ^^ 8) (s XOR push_bit 24 (ucast w))"
    using fold_crc_bit [of 0 "wbits w" s] unfolding tops_octet by (simp add: wbits_def)
  also have "s XOR push_bit 24 (ucast w) = take_bit 24 s XOR push_bit 24 ?k"
    by (rule bit_word_eqI) (auto simp: bit_simps)
  also have "(crc_shift ^^ 8) \<dots> = (crc_shift ^^ 8) (take_bit 24 s) XOR (crc_shift ^^ 8) (push_bit 24 ?k)"
    by (rule crc_shifts_xor)
  also have "(crc_shift ^^ 8) (take_bit 24 s) = push_bit 8 (take_bit 24 s)"
    by (rule crc_shifts_low) (simp_all add: bit_simps)
  also have "push_bit 8 (take_bit 24 s) = push_bit 8 s"
    by (rule bit_word_eqI) (auto simp: bit_simps)
  also have "(crc_shift ^^ 8) (push_bit 24 ?k) = crctab ! unat ?k"
    using crctab_nth [OF k] by (simp add: crc_entry_def)
  finally show ?thesis by (simp add: crc_octet_def)
qed

section \<open>The register computes the remainder\<close>

lemma xorp_app:
  "length g = length v \<Longrightarrow> length v \<le> length ys \<Longrightarrow>
     xorp g (xorp v ys) = xorp (map2 (\<noteq>) g v) ys"
proof (induction g v arbitrary: ys rule: list_induct2)
  case (Cons x xs y ys zs)
  then show ?case by (cases zs) auto
qed simp

lemma xorp_snoc_False: "length v < length ys \<Longrightarrow> xorp (v @ [False]) ys = xorp v ys"
proof (induction v arbitrary: ys)
  case Nil
  then show ?case by (cases ys) auto
next
  case (Cons x v)
  then show ?case by (cases ys) auto
qed

lemma xorp_False: "xorp v (replicate (length v) False) = v"
  by (induction v) auto

lemma xorp_zeros: "xorp (replicate n False) ys = ys"
proof (induction n arbitrary: ys)
  case (Suc n)
  then show ?case by (cases ys) simp_all
qed simp

lemma wbits_split: "wbits (s :: 32 word) = bit s 31 # map (bit s) (rev [0..<31])"
proof -
  have "[0..<32] = [0..<31] @ [31 :: nat]" using upt_Suc_append [of 0 31] by simp
  then show ?thesis by (simp add: wbits_def)
qed

lemma length_wbits [simp]: "length (wbits (s :: 32 word)) = 32"
  by (simp add: wbits_def)

lemma wbits_push: "wbits (push_bit 1 (s :: 32 word)) = map (bit s) (rev [0..<31]) @ [False]"
proof (rule nth_equalityI)
  fix i assume "i < length (wbits (push_bit 1 s))"
  moreover have "bit (push_bit 1 s) (31 - i) \<longleftrightarrow> i < 31 \<and> bit s (30 - i)"
    by (simp only: bit_push_bit_iff) auto
  ultimately show "wbits (push_bit 1 s) ! i \<longleftrightarrow> (map (bit s) (rev [0..<31]) @ [False]) ! i"
    by (simp add: wbits_def rev_nth nth_append del: push_bit_Suc)
qed (simp add: wbits_def)

lemma wbits_xor: "wbits (s XOR t :: 32 word) = map2 (\<noteq>) (wbits s) (wbits t)"
  by (rule nth_equalityI) (auto simp: wbits_def bit_xor_iff)

lemma wbits_0: "wbits (0 :: 32 word) = replicate 32 False"
  by (rule nth_equalityI) (auto simp: wbits_def)

lemma crc_division:
  "gf2_mod (wbits posix_poly) (xorp (wbits s) (bs @ replicate 32 False)) = wbits (fold crc_bit bs s)"
proof (induction bs arbitrary: s)
  case Nil
  have "xorp (wbits s) (replicate 32 False) = wbits s" using xorp_False [of "wbits s"] by simp
  then show ?case by (simp add: gf2_mod.simps)
next
  case (Cons b bs)
  let ?v = "map (bit s) (rev [0..<31])" and ?ys = "bs @ replicate 32 False"
  let ?b = "bit s 31 \<noteq> b"
  have v: "xorp ?v ?ys = xorp (wbits (push_bit 1 s)) ?ys"
    by (subst wbits_push) (simp add: xorp_snoc_False)
  have step: "(if ?b then xorp (wbits posix_poly) (xorp ?v ?ys) else xorp ?v ?ys) =
      xorp (wbits (crc_bit b s)) ?ys"
  proof (cases ?b)
    case True
    then have "crc_bit b s = posix_poly XOR push_bit 1 s" by (simp add: crc_bit_def xor.commute)
    with True show ?thesis unfolding v by (simp add: xorp_app wbits_xor)
  qed (simp add: v crc_bit_def)
  have x: "xorp (wbits s) ((b # bs) @ replicate 32 False) = ?b # xorp ?v ?ys"
    by (simp add: wbits_split)
  have "gf2_mod (wbits posix_poly) (?b # xorp ?v ?ys) =
      gf2_mod (wbits posix_poly) (if ?b then xorp (wbits posix_poly) (xorp ?v ?ys) else xorp ?v ?ys)"
    by (subst gf2_mod.simps) simp
  then show ?case unfolding x step using Cons.IH [of "crc_bit b s"] by simp
qed

section \<open>Properties\<close>

lemma fold_octets:
  "fold (\<lambda>b s. crc_octet s (of_int (uchar b))) bs s = fold crc_bit (concat (map octet_bits bs)) s"
proof (induction bs arbitrary: s)
  case (Cons b bs)
  have "of_int (uchar b) = (ucast (of_int (uchar b) :: 8 word) :: 32 word)"
    by (rule word_uint_eqI) (simp add: uint_word_of_int unsigned_ucast_eq take_bit_eq_mod)
  with Cons show ?case by (simp add: octet_bits_def crc_octet_bits)
qed simp

lemma cksum_len_octets:
  "cksum_len n s = fold (\<lambda>b s. crc_octet s (of_int (uchar b))) (octets (unat n)) s"
proof (induction n s rule: cksum_len.induct)
  case (1 n s)
  show ?case
  proof (cases "n = 0")
    case False
    have "of_int (uchar (char_of (unat n mod 256))) = (ucast (n AND 0xFF) :: 32 word)"
    proof -
      have "n AND 0xFF = take_bit 8 n" by (simp add: take_bit_eq_mask mask_numeral)
      moreover have "unat (take_bit 8 n) = unat n mod 256"
        by (subst unsigned_take_bit_eq) (simp add: take_bit_eq_mod)
      ultimately have "ucast (n AND 0xFF) = (of_nat (unat n mod 256) :: 32 word)"
        by (metis of_nat_unat)
      then show ?thesis by (simp add: uchar_nat)
    qed
    with 1 False show ?thesis
      by (simp add: cksum_len.simps [of n] octets.simps [of "unat n"] unat_eq_0 drop_bit_eq_div unat_div)
  qed (simp add: cksum_len.simps octets.simps)
qed

fun bits_val :: "bool list \<Rightarrow> nat" where
  "bits_val [] = 0"
| "bits_val (b # bs) = of_bool b * 2 ^ length bs + bits_val bs"

lemma bits_val_wbits: "bits_val (wbits w) = unat (w :: 32 word)"
proof -
  have "bits_val (map (bit w) (rev [0..<n])) = take_bit n (unat w)" if "n \<le> 32" for n
    using that
  proof (induction n)
    case (Suc n)
    have "bit w n = bit (unat w) n" using Suc.prems by (simp add: bit_unsigned_iff)
    with Suc show ?case by (simp add: take_bit_Suc_from_most)
  qed simp
  from this [of 32] have "bits_val (wbits w) = take_bit 32 (unat w)" by (simp add: wbits_def)
  also have "\<dots> = unat w" using unsigned_less [of w] by (simp add: take_bit_nat_eq_self_iff)
  finally show ?thesis .
qed

lemma wbits_not: "wbits (NOT s :: 32 word) = map Not (wbits s)"
  by (simp add: wbits_def bit_not_iff)

lemma cksum_register:
  assumes "length file < 2 ^ 64"
  shows "cksum_len (of_nat (length file)) (snd (cksum_chunk file (0, 0))) =
    fold crc_bit (concat (map octet_bits (file @ octets (length file)))) 0"
proof -
  have "unat (of_nat (length file) :: 64 word) = length file"
    using assms by (simp add: unat_of_nat)
  then show ?thesis
    by (simp add: cksum_len_octets cksum_chunk_def fold_octets)
qed

lemma cksum_number:
  assumes "length file < 2 ^ 64"
  shows "unat (NOT (cksum_len (of_nat (length file)) (snd (cksum_chunk file (0, 0))))) =
    bits_val (posix_crc file)"
proof -
  let ?bs = "concat (map octet_bits (file @ octets (length file)))"
  have "xorp (wbits (0 :: 32 word)) (?bs @ replicate 32 False) = ?bs @ replicate 32 False"
    unfolding wbits_0 by (rule xorp_zeros)
  with crc_division [of 0 ?bs] have "posix_crc file = map Not (wbits (fold crc_bit ?bs 0))"
    by (simp add: posix_crc_def)
  then show ?thesis unfolding cksum_register [OF assms]
    by (simp add: bits_val_wbits flip: wbits_not)
qed

text \<open>The line \<open>cksum\<close> prints for a file.\<close>

definition cksum_line :: "string option \<Rightarrow> string \<Rightarrow> string" where
  "cksum_line name file =
     decimal (bits_val (posix_crc file)) @ '' '' @ decimal (length file) @
     (case name of Some f \<Rightarrow> '' '' @ f | None \<Rightarrow> []) @ [NL]"

lemma cksum_chunk_app: "cksum_chunk (x @ y) b = cksum_chunk y (cksum_chunk x b)" "cksum_chunk [] b = b"
  by (simp_all add: cksum_chunk_def add.assoc)

lemma cksum_fd_calm:
  assumes "fd_calm fd" "length (fd_rest fd) < 2 ^ 64"
  shows "cksum_fd progname strerror name fd = \<lparr>out = cksum_line name (fd_rest fd), err = [], status = 0\<rparr>"
proof -
  let ?f = "fd_rest fd"
  obtain fd' where r: "read_loop 4096 cksum_chunk fd (0, 0) = (cksum_chunk ?f (0, 0), None, fd')"
    using read_loop_calm [of cksum_chunk 4096 fd "(0, 0)"] cksum_chunk_app assms(1) by auto
  have c: "cksum_chunk ?f (0, 0) = (of_nat (length ?f), snd (cksum_chunk ?f (0, 0)))"
    by (simp add: cksum_chunk_def)
  have u: "unat (of_nat (length ?f) :: 64 word) = length ?f" using assms(2) by (simp add: unat_of_nat)
  show ?thesis
    unfolding cksum_fd_def r by (subst c) (simp add: cksum_line_def cksum_number [OF assms(2)] u)
qed

text \<open>
  (C11) The checksum.  On a file whose reads do not fail, in whatever pieces they deliver it, the
  program prints the POSIX checksum: the number whose bits are the complement of the remainder,
  over GF(2), of the bit string of the file followed by its length (least significant octet
  first, no leading zero octets), times \<open>x ^ 32\<close>, divided by the generator polynomial; then the
  length and the name.
\<close>

theorem cksum_posix:
  assumes "fs name = Some fd" "fd_calm fd" "length (fd_rest fd) < 2 ^ 64"
  shows "cksum progname strerror fs stdin (Some name) =
    \<lparr>out = decimal (bits_val (posix_crc (fd_rest fd))) @ '' '' @ decimal (length (fd_rest fd)) @ '' '' @ name @ [NL],
     err = [], status = 0\<rparr>"
  using cksum_fd_calm [OF assms(2,3), of progname strerror "Some name"] assms(1)
  by (simp add: cksum_def cksum_line_def)

theorem cksum_posix_witness:
  "cksum ''cksum'' (\<lambda>_. []) (\<lambda>_. Some (mk_fd ''a'')) (mk_fd []) (Some ''f'') =
    \<lparr>out = decimal (bits_val (posix_crc ''a'')) @ '' '' @ decimal 1 @ '' f'' @ [NL], err = [], status = 0\<rparr>"
  using cksum_posix [of "\<lambda>_. Some (mk_fd ''a'')" "''f''" "mk_fd ''a''" "''cksum''" "\<lambda>_. []" "mk_fd []"]
  by simp

text \<open>
  Several operands.  Each operand is processed in turn; one that cannot be opened gets a
  message and sets the exit status to 10, and does not keep the others from being summed.
\<close>

theorem cksum_main_operands:
  assumes "args \<noteq> []" "hd args \<noteq> ''--''"
    and "\<forall>a \<in> set args. \<forall>fd. fs a = Some fd \<longrightarrow> fd_calm fd \<and> length (fd_rest fd) < 2 ^ 64"
  shows "cksum_main strerror fs stdin progname args =
    \<lparr>out = concat (map (\<lambda>a. case fs a of None \<Rightarrow> [] | Some fd \<Rightarrow> cksum_line (Some a) (fd_rest fd)) args),
     err = concat (map (\<lambda>a. case fs a of None \<Rightarrow> progname @ '': Can'' @ [CHR 0x27] @ ''t open '' @ a @ [NL]
                            | Some _ \<Rightarrow> []) args),
     status = (if \<exists>a \<in> set args. fs a = None then 10 else 0)\<rparr>"
proof -
  let ?run = "\<lambda>a. cksum progname strerror fs stdin (Some a)"
  let ?line = "\<lambda>a. case fs a of None \<Rightarrow> [] | Some fd \<Rightarrow> cksum_line (Some a) (fd_rest fd)"
  let ?msg = "\<lambda>a. case fs a of None \<Rightarrow> progname @ '': Can'' @ [CHR 0x27] @ ''t open '' @ a @ [NL] | Some _ \<Rightarrow> []"
  let ?st = "\<lambda>a. if fs a = None then 10 else (0 :: int)"
  have r: "?run a = \<lparr>out = ?line a, err = ?msg a, status = ?st a\<rparr>" if "a \<in> set args" for a
    using assms(3) that by (cases "fs a") (simp_all add: cksum_def cksum_fd_calm)
  have out: "map (out \<circ> ?run) args = map ?line args" and err: "map (err \<circ> ?run) args = map ?msg args"
    and st: "map (status \<circ> ?run) args = map ?st args"
    using r by (simp_all add: o_def cong: map_cong)
  have "cksum_main strerror fs stdin progname args = run_all (map ?run args)"
    using assms(1,2) by (simp add: cksum_main_def)
  then show ?thesis by (simp add: run_all_def out err st fold_or_status)
qed

theorem cksum_main_operands_witness:
  "cksum_main (\<lambda>_. []) (\<lambda>a. if a = ''f'' then Some (mk_fd ''a'') else None) (mk_fd []) ''cksum'' [''g'', ''f''] =
    \<lparr>out = cksum_line (Some ''f'') ''a'',
     err = ''cksum: Can'' @ [CHR 0x27] @ ''t open g'' @ [NL], status = 10\<rparr>"
proof -
  let ?fs = "\<lambda>a. if a = ''f'' then Some (mk_fd ''a'') else None"
  have "\<forall>a \<in> set [''g'', ''f'']. \<forall>fd. ?fs a = Some fd \<longrightarrow> fd_calm fd \<and> length (fd_rest fd) < 2 ^ 64" by simp
  from cksum_main_operands [OF _ _ this, of "\<lambda>_. []" "mk_fd []" "''cksum''"] show ?thesis by simp
qed

end
