(* ===== verification/Sum.thy ===== *)
theory Sum
  imports Stdio
begin

text \<open>
  \<open>sum/sum.c\<close>: the System V checksum (the byte sum with its carries folded back in) and, with \<open>-r\<close>,
  the BSD rotating checksum.  The parameter \<open>ucb\<close> says whether the program was compiled with
  \<open>UCB\<close> defined: then blocks are 1024 bytes, the rotating sum is the only one and \<open>-r\<close> is no
  option.
\<close>

unbundle bit_operations_syntax

section \<open>The program\<close>

definition sum_unit :: "bool \<Rightarrow> 64 word" where
  "sum_unit ucb = (if ucb then 1024 else 512)"

record sumst =
  nbytes :: "64 word"
  rsum :: "16 word"
  ssum :: "32 word"

definition sum_rbyte :: "char \<Rightarrow> 16 word \<Rightarrow> 16 word" where
  "sum_rbyte b s =
     (let s = (if s AND 1 \<noteq> 0 then drop_bit 1 s + 0x8000 else drop_bit 1 s)
      in (s + of_int (uchar b)) AND 0xFFFF)"

definition sum_chunk :: "bool \<Rightarrow> string \<Rightarrow> sumst \<Rightarrow> sumst" where
  "sum_chunk rflag buf st =
     (let st = st\<lparr>nbytes := nbytes st + of_nat (length buf)\<rparr>
      in if rflag then st\<lparr>rsum := fold sum_rbyte buf (rsum st)\<rparr>
         else st\<lparr>ssum := fold (\<lambda>b s. s + of_int (uchar b)) buf (ssum st)\<rparr>)"

definition sum_fold :: "32 word \<Rightarrow> 32 word" where
  "sum_fold s = (s AND 0xFFFF) + drop_bit 16 s"

definition sum_fd :: "bool \<Rightarrow> string \<Rightarrow> bool \<Rightarrow> string option \<Rightarrow> fdesc \<Rightarrow> outcome" where
  "sum_fd ucb progname rflag name fd =
     (case read_loop 4096 (sum_chunk rflag) fd \<lparr>nbytes = 0, rsum = 0, ssum = 0\<rparr> of
        (st, e, _) \<Rightarrow>
          let blocks = decimal (unat ((nbytes st + sum_unit ucb - 1) div sum_unit ucb))
          in \<lparr>out = (if rflag then padl 5 (CHR ''0'') (decimal (unat (rsum st))) @ '' '' @ padl 5 (CHR '' '') blocks
                     else decimal (unat (sum_fold (sum_fold (ssum st)))) @ '' '' @ blocks) @
                    (case name of Some f \<Rightarrow> '' '' @ f | None \<Rightarrow> []) @ [NL],
              err = (if e = None then []
                     else progname @ '': read error on '' @ (case name of Some f \<Rightarrow> f | None \<Rightarrow> ''-'') @ [NL]),
              status = (if e = None then 0 else 1)\<rparr>)"

definition sum_sum :: "bool \<Rightarrow> string \<Rightarrow> bool \<Rightarrow> filesys \<Rightarrow> fdesc \<Rightarrow> string option \<Rightarrow> outcome" where
  "sum_sum ucb progname rflag fs stdin name =
     (case name of
        Some f \<Rightarrow>
          (case fs f of
             None \<Rightarrow> \<lparr>out = [], err = progname @ '': Can'' @ [CHR 0x27] @ ''t open '' @ f @ [NL], status = 10\<rparr>
           | Some fd \<Rightarrow> sum_fd ucb progname rflag name fd)
      | None \<Rightarrow> sum_fd ucb progname rflag name stdin)"

text \<open>
  The option loop.  \<open>sum_nxt\<close> is the code from the label \<open>nxt\<close> on, applied to \<open>argv[i]\<close>, which it
  advances over repeated letters: \<open>None\<close> is \<open>rflag = 1; i++\<close> and another turn of the loop, \<open>Some\<close> is
  \<open>goto opnd\<close>, with \<open>i++\<close> before it or not.
\<close>

fun sum_nxt :: "bool \<Rightarrow> string \<Rightarrow> bool option" where
  "sum_nxt ucb (x # c # cs) =
     (if c = CHR ''r'' \<and> \<not> ucb then (if cs \<noteq> [] \<and> hd cs = CHR ''r'' then sum_nxt ucb (c # cs) else None)
      else if c = CHR ''-'' then Some (cs = [])
      else Some False)"
| "sum_nxt ucb _ = Some False"

fun sum_opts :: "bool \<Rightarrow> bool \<Rightarrow> string list \<Rightarrow> bool \<times> string list" where
  "sum_opts ucb rflag [] = (rflag, [])"
| "sum_opts ucb rflag (a # as) =
     (if a \<noteq> [] \<and> hd a = CHR ''-'' \<and> tl a \<noteq> []
      then (case sum_nxt ucb a of
              None \<Rightarrow> sum_opts ucb True as
            | Some skip \<Rightarrow> (rflag, if skip then as else a # as))
      else (rflag, a # as))"

definition sum_main :: "bool \<Rightarrow> filesys \<Rightarrow> fdesc \<Rightarrow> string \<Rightarrow> string list \<Rightarrow> outcome" where
  "sum_main ucb fs stdin progname args =
     (case sum_opts ucb ucb args of
        (rflag, opnds) \<Rightarrow>
          if opnds \<noteq> [] then run_all (map (\<lambda>a. sum_sum ucb progname rflag fs stdin (Some a)) opnds)
          else run_all [sum_sum ucb progname rflag fs stdin None])"

section \<open>Specification\<close>

text \<open>The sum of the bytes of a file, and what a checksum of it comes to.\<close>

definition bytesum :: "string \<Rightarrow> nat" where
  "bytesum s = sum_list (map of_char s)"

definition sysv_sum :: "string \<Rightarrow> nat" where
  "sysv_sum s = (if bytesum s = 0 then 0 else (bytesum s - 1) mod 65535 + 1)"

definition bsd_sum :: "string \<Rightarrow> 16 word" where
  "bsd_sum s = fold (\<lambda>c w. word_rotr 1 w + of_nat (of_char c)) s 0"

definition sum_blocks :: "bool \<Rightarrow> nat \<Rightarrow> nat" where
  "sum_blocks ucb n = (let u = (if ucb then 1024 else 512) in n div u + (if u dvd n then 0 else 1))"

lemma of_int_uchar: "of_int (uchar c) = (of_nat (of_char c) :: 'a::len word)"
  by (simp add: uchar_nat)

lemma bytesum_simps [simp]: "bytesum [] = 0" "bytesum (c # s) = of_char c + bytesum s"
  by (simp_all add: bytesum_def)

lemma sum_rbyte_rot: "sum_rbyte b s = word_rotr 1 s + of_nat (of_char b)"
proof -
  have m: "x AND 0xFFFF = x" for x :: "16 word"
  proof -
    have "x AND 0xFFFF = take_bit 16 x" by (simp add: take_bit_eq_mask mask_numeral)
    then show ?thesis using take_bit_length_eq [of x] by simp
  qed
  have o: "s AND 1 \<noteq> 0 \<longleftrightarrow> bit s 0" by (auto simp: bit_0 and_one_eq odd_iff_mod_2_eq_one)
  let ?c = "if bit s 0 then push_bit 15 1 else 0 :: 16 word"
  have c: "bit ?c n \<longleftrightarrow> bit s 0 \<and> n = 15" for n
    by (simp only: if_distrib [of "\<lambda>w. bit w n"] bit_push_bit_iff bit_1_iff) auto
  have s: "\<not> bit s (Suc 15)" using bit_imp_le_length [of s "Suc 15"] by auto
  have "drop_bit 1 s + ?c = drop_bit 1 s OR ?c"
    by (rule disjunctive_add) (use s in \<open>auto simp only: c bit_drop_bit_eq o_apply One_nat_def add_Suc add_0\<close>)
  also have "\<dots> = word_rotr 1 s"
  proof (rule bit_word_eqI)
    fix n assume n: "n < LENGTH(16)"
    show "bit (drop_bit 1 s OR ?c) n \<longleftrightarrow> bit (word_rotr 1 s) n"
    proof (cases "n = 15")
      case True
      with s show ?thesis by (auto simp: c bit_or_iff bit_drop_bit_eq bit_word_rotr_iff)
    next
      case False
      with n have "Suc n < 16" by simp
      with False n show ?thesis by (simp add: c bit_or_iff bit_drop_bit_eq bit_word_rotr_iff)
    qed
  qed
  finally have "(if bit s 0 then drop_bit 1 s + 0x8000 else drop_bit 1 s) = word_rotr 1 s"
    by (auto split: if_splits)
  then show ?thesis by (simp add: sum_rbyte_def m o of_int_uchar)
qed

lemma sum_fold_nat: "unat (sum_fold s) = unat s mod 65536 + unat s div 65536"
proof -
  have a: "unat (s AND 0xFFFF) = unat s mod 65536"
  proof -
    have "s AND 0xFFFF = take_bit 16 s" by (simp add: take_bit_eq_mask mask_numeral)
    then show ?thesis by (simp add: unsigned_take_bit_eq) (simp add: take_bit_eq_mod)
  qed
  have b: "unat (drop_bit 16 s) = unat s div 65536" by (simp add: drop_bit_eq_div unat_div)
  have "unat s < 2 ^ 32" using unsigned_less [of s] by simp
  then have "unat (s AND 0xFFFF) + unat (drop_bit 16 s) < 2 ^ 32" unfolding a b by auto
  then show ?thesis by (simp add: sum_fold_def unat_add_lem [THEN iffD1] a b)
qed

lemma mod_pred_cong:
  fixes a b k :: nat
  assumes "a mod k = b mod k" "0 < a" "0 < b"
  shows "(a - 1) mod k = (b - 1) mod k"
proof -
  have "int a mod int k = int b mod int k" using assms(1) by (metis of_nat_mod)
  then have "(int a - 1) mod int k = (int b - 1) mod int k" by (metis mod_diff_left_eq)
  moreover have "int (a - 1) = int a - 1" "int (b - 1) = int b - 1" using assms(2,3) by (simp_all add: of_nat_diff)
  ultimately show ?thesis by (metis of_nat_eq_iff of_nat_mod)
qed

text \<open>Two rounds of adding the carries back are the residue modulo 65535.\<close>

lemma end_around_carry:
  assumes "n < 2 ^ 32" "n \<noteq> 0"
  shows "(\<lambda>n. n mod 65536 + n div 65536) ((\<lambda>n. n mod 65536 + n div 65536) n) = (n - 1) mod 65535 + (1 :: nat)"
proof -
  define f where "f = (\<lambda>n :: nat. n mod 65536 + n div 65536)"
  have dec: "n = 65536 * (n div 65536) + n mod 65536" for n :: nat by simp
  have cong: "f n mod 65535 = n mod 65535" for n
  proof -
    have "n = f n + 65535 * (n div 65536)" using dec [of n] by (simp add: f_def)
    then show ?thesis by (metis mod_mult_self2)
  qed
  have pos: "0 < f n" if "0 < n" for n using that dec [of n] by (auto simp: f_def)
  have "f n \<le> 131070" using assms by (auto simp: f_def)
  moreover have "f m \<le> 65535" if m: "m \<le> 131070" for m
  proof (cases "m < 65536")
    case False
    then have "m div 65536 = 1" using m by auto
    with dec [of m] m show ?thesis by (simp add: f_def)
  qed (simp add: f_def)
  ultimately have le: "f (f n) \<le> 65535" by blast
  have p: "0 < f (f n)" using pos assms by simp
  have "f (f n) mod 65535 = n mod 65535" by (simp add: cong)
  then have "(f (f n) - 1) mod 65535 = (n - 1) mod 65535"
    using mod_pred_cong [of "f (f n)" 65535 n] p assms(2) by simp
  with le p have "f (f n) = (n - 1) mod 65535 + 1" by simp
  then show ?thesis by (simp add: f_def)
qed

section \<open>Properties\<close>

lemma fold_rbyte: "fold sum_rbyte s w = fold (\<lambda>c w. word_rotr 1 w + of_nat (of_char c)) s w"
  by (induction s arbitrary: w) (simp_all add: sum_rbyte_rot)

lemma fold_bytesum: "fold (\<lambda>b s. s + of_int (uchar b)) s w = (w :: 32 word) + of_nat (bytesum s)"
  by (induction s arbitrary: w) (simp_all add: of_int_uchar)

lemma sum_chunk_app: "sum_chunk r (x @ y) b = sum_chunk r y (sum_chunk r x b)" "sum_chunk r [] b = b"
  by (simp_all add: sum_chunk_def Let_def add.assoc)

lemma sum_blocks_word:
  assumes "n < 2 ^ 64 - 1024"
  shows "unat ((of_nat n + sum_unit ucb - 1) div sum_unit ucb) = sum_blocks ucb n"
proof -
  define u where "u = (if ucb then 1024 else 512 :: nat)"
  have u: "sum_unit ucb = of_nat u" "0 < u" "u \<le> 1024" by (auto simp: u_def sum_unit_def)
  have "of_nat n + sum_unit ucb - 1 = of_nat (n + u - 1)" using u by (simp add: of_nat_diff)
  then have "unat ((of_nat n + sum_unit ucb - 1) div sum_unit ucb) = (n + u - 1) div u"
    using assms u by (simp add: unat_div unat_of_nat del: of_nat_add of_nat_diff)
  also have "\<dots> = n div u + (if u dvd n then 0 else 1)"
  proof (cases "u dvd n")
    case True
    then obtain k where "n = u * k" by (elim dvdE)
    moreover have "(u * k + (u - 1)) div u = k" using u by (subst div_mult_self4) simp_all
    moreover have "u * k + u - 1 = u * k + (u - 1)" using u by simp
    ultimately have "(n + u - 1) div u = k" by metis
    with \<open>n = u * k\<close> u show ?thesis by simp
  next
    case False
    then have "0 < n mod u" by (simp add: mod_greater_zero_iff_not_dvd)
    then have "n + u - 1 = u * (n div u + 1) + (n mod u - 1)" using mult_div_mod_eq [of u n] by simp
    moreover have "n mod u - 1 < u" using u by (meson less_imp_diff_less mod_less_divisor)
    ultimately show ?thesis using False u by (simp del: mult_Suc_right)
  qed
  finally show ?thesis by (simp add: sum_blocks_def u_def Let_def)
qed

lemma sum_fd_calm:
  assumes "fd_calm fd"
  shows "sum_fd ucb progname rflag name fd =
    (let f = fd_rest fd; blocks = decimal (unat ((of_nat (length f) + sum_unit ucb - 1) div sum_unit ucb))
     in \<lparr>out = (if rflag then padl 5 (CHR ''0'') (decimal (unat (bsd_sum f))) @ '' '' @ padl 5 (CHR '' '') blocks
                else decimal (unat (sum_fold (sum_fold (of_nat (bytesum f))))) @ '' '' @ blocks) @
               (case name of Some f \<Rightarrow> '' '' @ f | None \<Rightarrow> []) @ [NL], err = [], status = 0\<rparr>)"
proof -
  let ?i = "\<lparr>nbytes = 0, rsum = 0, ssum = 0\<rparr>"
  obtain fd' where "read_loop 4096 (sum_chunk rflag) fd ?i = (sum_chunk rflag (fd_rest fd) ?i, None, fd')"
    using read_loop_calm [of "sum_chunk rflag" 4096 fd ?i] sum_chunk_app assms by auto
  then show ?thesis
    by (simp add: sum_fd_def sum_chunk_def Let_def bsd_sum_def fold_rbyte fold_bytesum)
qed

lemma sysv_sum_word:
  assumes "bytesum f < 2 ^ 32"
  shows "unat (sum_fold (sum_fold (of_nat (bytesum f)))) = sysv_sum f"
proof -
  have "unat (of_nat (bytesum f) :: 32 word) = bytesum f" using assms by (simp add: unat_of_nat)
  then show ?thesis using end_around_carry [OF assms] by (simp add: sum_fold_nat sysv_sum_def)
qed

text \<open>
  (C12) The System V checksum.  On a file of less than \<open>2 ^ 32\<close> as the sum of its bytes, the two rounds
  of folding the carries of the 32-bit sum leave its residue modulo 65535 (65535 standing for a
  nonzero multiple), and the number of blocks is the length in 512-byte blocks, rounded up.
\<close>

theorem sum_sysv:
  assumes "fd_calm fd" "fs name = Some fd" "bytesum (fd_rest fd) < 2 ^ 32" "length (fd_rest fd) < 2 ^ 64 - 1024"
  shows "sum_sum False progname False fs stdin (Some name) =
    \<lparr>out = decimal (sysv_sum (fd_rest fd)) @ '' '' @ decimal (sum_blocks False (length (fd_rest fd))) @
           '' '' @ name @ [NL], err = [], status = 0\<rparr>"
  using assms by (simp add: sum_sum_def sum_fd_calm Let_def sum_blocks_word sysv_sum_word)

theorem sum_sysv_witness:
  "sum_sum False ''sum'' False (\<lambda>_. Some (mk_fd ''ab'')) (mk_fd []) (Some ''f'') =
    \<lparr>out = decimal 195 @ '' '' @ decimal 1 @ '' f'' @ [NL], err = [], status = 0\<rparr>"
proof -
  have b: "sysv_sum ''ab'' = 195" "sum_blocks False (Suc (Suc 0)) = 1"
    by (simp_all add: sysv_sum_def sum_blocks_def flip: numeral_2_eq_2)
  have h: "bytesum (fd_rest (mk_fd ''ab'')) < 2 ^ 32" by simp
  from sum_sysv [OF fd_calm_mk _ h, of "\<lambda>_. Some (mk_fd ''ab'')" "''f''" "''sum''" "mk_fd []"] b
  show ?thesis by simp
qed

text \<open>
  (C13) The BSD checksum.  With \<open>-r\<close> (or compiled for \<open>UCB\<close>) each byte rotates the 16-bit sum right
  by one bit and is added with wrap-around; the sum is printed with leading zeros to five
  digits.
\<close>

theorem sum_bsd:
  assumes "fd_calm fd" "fs name = Some fd" "length (fd_rest fd) < 2 ^ 64 - 1024"
  shows "sum_sum ucb progname True fs stdin (Some name) =
    \<lparr>out = padl 5 (CHR ''0'') (decimal (unat (bsd_sum (fd_rest fd)))) @ '' '' @
           padl 5 (CHR '' '') (decimal (sum_blocks ucb (length (fd_rest fd)))) @ '' '' @ name @ [NL],
     err = [], status = 0\<rparr>"
  using assms by (simp add: sum_sum_def sum_fd_calm Let_def sum_blocks_word)

theorem sum_bsd_witness:
  "sum_sum True ''sum'' True (\<lambda>_. Some (mk_fd ''ab'')) (mk_fd []) (Some ''f'') =
    \<lparr>out = padl 5 (CHR ''0'') (decimal (unat (bsd_sum ''ab''))) @ '' '' @ padl 5 (CHR '' '') (decimal 1) @ '' f'' @ [NL],
     err = [], status = 0\<rparr>"
  using sum_bsd [OF fd_calm_mk, of "\<lambda>_. Some (mk_fd ''ab'')" "''f''" "''ab''" True "''sum''" "mk_fd []"]
  by (simp add: sum_blocks_def flip: numeral_2_eq_2)

end
