(* ===== verification/Comm.thy ===== *)
theory Comm
  imports Iblok Getopt Gmatch "HOL-Library.List_Lexorder" "HOL-Library.Multiset"
begin

text \<open>
  \<open>comm/comm.c\<close>: the lines common to two sorted files.  \<open>comm_main\<close> is the whole program over the
  buffered input of \<open>Iblok\<close> and the option parser of \<open>Getopt\<close>.  \<open>ccoll\<close> is whether the collation
  is that of the C locale, \<open>strcoll\<close> stands for the C library's function for the others.  The
  two operands are taken to be different files: \<open>comm - -\<close>, where two buffers would share one
  descriptor, is not modelled.

  The specification is over an abstract collation, the locale \<open>collation\<close>, of which the two ways
  the program compares in the C locale are interpretations.
\<close>

section \<open>Comparing lines\<close>

text \<open>\<open>*s\<close> for a C string.\<close>

definition deref :: "string \<Rightarrow> char" where
  "deref s = (case s of [] \<Rightarrow> NUL | c # _ \<Rightarrow> c)"

function cmp_plain :: "string \<Rightarrow> string \<Rightarrow> int" where
  "cmp_plain a b =
     (if deref a = deref b
      then (if deref a = NUL then 0 else cmp_plain (tl a) (tl b))
      else if schar (deref a) < schar (deref b) then 1 else 2)"
  by pat_completeness auto
termination
  by (relation "measure (\<lambda>(a, b). length a)") (auto simp: deref_def split: list.splits)

declare cmp_plain.simps [simp del]

text \<open>The macro \<open>next\<close> is \<open>fetch\<close> of \<open>Gmatch\<close> where more than one byte may make up a character.\<close>

function cmp_mb :: "nat \<Rightarrow> (string \<Rightarrow> int \<times> int) \<Rightarrow> string \<Rightarrow> string \<Rightarrow> int" where
  "cmp_mb mbm mb a b =
     (case fetch mbm mb a of
        (wa, a') \<Rightarrow>
          (case fetch mbm mb b of
             (wb, b') \<Rightarrow>
               if wa = wb then (if wa = 0 then 0 else cmp_mb mbm mb a' b')
               else if wa < wb then 1 else 2))"
  by pat_completeness auto
termination
  by (relation "measure (\<lambda>(mbm, mb, a, b). length a)") (auto dest: fetch_cnt [OF sym])

declare cmp_mb.simps [simp del]

definition compare :: "bool \<Rightarrow> nat \<Rightarrow> (string \<Rightarrow> int \<times> int) \<Rightarrow> (string \<Rightarrow> string \<Rightarrow> int) \<Rightarrow> string \<Rightarrow> string \<Rightarrow> int" where
  "compare ccoll mbm mb strcoll a b =
     (if ccoll then (if mbm > 1 then cmp_mb mbm mb a b else cmp_plain a b)
      else let n = strcoll a b in if n \<noteq> 0 then (if n > 0 then 2 else 1) else 0)"

section \<open>The program\<close>

record commfl =
  one :: bool
  two :: bool
  three :: bool
  ldr1 :: string
  ldr2 :: string
  ldrl :: int

definition comm_init :: commfl where
  "comm_init = \<lparr>one = False, two = False, three = False, ldr1 = [TAB], ldr2 = [TAB, TAB], ldrl = 1\<rparr>"

text \<open>The \<open>switch\<close> of the option loop; \<open>None\<close> is the call of \<open>usage\<close>.\<close>

definition comm_opt :: "int \<Rightarrow> commfl \<Rightarrow> commfl option" where
  "comm_opt i fl =
     (if i = uchar CHR ''1'' then
        Some (if \<not> one fl
              then fl\<lparr>one := True, ldr1 := [], ldr2 := take (nat (ldrl fl)) (ldr2 fl), ldrl := ldrl fl - 1\<rparr>
              else fl)
      else if i = uchar CHR ''2'' then
        Some (if \<not> two fl
              then fl\<lparr>two := True, ldr2 := take (nat (ldrl fl)) (ldr2 fl), ldrl := ldrl fl - 1\<rparr>
              else fl)
      else if i = uchar CHR ''3'' then Some (fl\<lparr>three := True\<rparr>)
      else None)"

fun comm_opts :: "optev list \<Rightarrow> commfl \<Rightarrow> commfl option" where
  "comm_opts [] fl = Some fl"
| "comm_opts ((i, _, _) # evs) fl =
     (case comm_opt i fl of None \<Rightarrow> None | Some fl' \<Rightarrow> comm_opts evs fl')"

text \<open>\<open>rd\<close>: the next line as a C string, without its newline.\<close>

definition rd_line :: "string \<Rightarrow> string" where
  "rd_line l = cstr (if last l = NL then butlast l else l)"

definition comm_rd :: "iblok \<times> nat \<Rightarrow> (string \<times> (iblok \<times> nat)) option" where
  "comm_rd s = (case ib_line s of None \<Rightarrow> None | Some (l, s') \<Rightarrow> Some (rd_line l, s'))"

definition comm_wr :: "commfl \<Rightarrow> string \<Rightarrow> nat \<Rightarrow> string" where
  "comm_wr fl str n =
     (if n = 1 \<and> one fl \<or> n = 2 \<and> two fl \<or> n = 3 \<and> three fl then []
      else (if n = 1 then [] else if n = 2 then ldr1 fl else ldr2 fl) @ str @ [NL])"

lemma comm_rd_size: "comm_rd s = Some (l, s') \<Longrightarrow> ib_size (fst s') < ib_size (fst s)"
  by (auto simp: comm_rd_def dest: ib_line_size split: option.splits)

function comm_copy :: "commfl \<Rightarrow> string \<Rightarrow> iblok \<times> nat \<Rightarrow> nat \<Rightarrow> string" where
  "comm_copy fl l s n =
     comm_wr fl l n @ (case comm_rd s of None \<Rightarrow> [] | Some (l', s') \<Rightarrow> comm_copy fl l' s' n)"
  by pat_completeness auto
termination
  by (relation "measure (\<lambda>(fl, l, s, n). ib_size (fst s))") (use comm_rd_size in force)+

text \<open>The \<open>while(1)\<close> loop, with the current lines of the two files.\<close>

function comm_loop :: "(string \<Rightarrow> string \<Rightarrow> int) \<Rightarrow> commfl \<Rightarrow> string \<Rightarrow> iblok \<times> nat \<Rightarrow> string \<Rightarrow> iblok \<times> nat \<Rightarrow> string" where
  "comm_loop cmp fl lb1 ib1 lb2 ib2 =
     (if cmp lb1 lb2 = 0 then
        comm_wr fl lb1 3 @
        (case comm_rd ib1 of
           None \<Rightarrow> (case comm_rd ib2 of None \<Rightarrow> [] | Some (lb2', ib2') \<Rightarrow> comm_copy fl lb2' ib2' 2)
         | Some (lb1', ib1') \<Rightarrow>
             (case comm_rd ib2 of
                None \<Rightarrow> comm_copy fl lb1' ib1' 1
              | Some (lb2', ib2') \<Rightarrow> comm_loop cmp fl lb1' ib1' lb2' ib2'))
      else if cmp lb1 lb2 = 1 then
        comm_wr fl lb1 1 @
        (case comm_rd ib1 of
           None \<Rightarrow> comm_copy fl lb2 ib2 2
         | Some (lb1', ib1') \<Rightarrow> comm_loop cmp fl lb1' ib1' lb2 ib2)
      else
        comm_wr fl lb2 2 @
        (case comm_rd ib2 of
           None \<Rightarrow> comm_copy fl lb1 ib1 1
         | Some (lb2', ib2') \<Rightarrow> comm_loop cmp fl lb1 ib1 lb2' ib2'))"
  by pat_completeness auto
termination
proof (relation "measure (\<lambda>(cmp, fl, lb1, ib1, lb2, ib2). ib_size (fst ib1) + ib_size (fst ib2))", goal_cases)
  case (2 cmp fl lb1 ib1 lb2 ib2 r lb1' ib1' q lb2' ib2')
  then have "ib_size (fst ib1') < ib_size (fst ib1)" "ib_size (fst ib2') < ib_size (fst ib2)"
    by (auto intro: comm_rd_size)
  then show ?case by simp
next
  case (3 cmp fl lb1 ib1 lb2 ib2 r lb1' ib1')
  then have "ib_size (fst ib1') < ib_size (fst ib1)" by (auto intro: comm_rd_size)
  then show ?case by simp
next
  case (4 cmp fl lb1 ib1 lb2 ib2 r lb2' ib2')
  then have "ib_size (fst ib2') < ib_size (fst ib2)" by (auto intro: comm_rd_size)
  then show ?case by simp
qed simp

declare comm_copy.simps [simp del] comm_loop.simps [simp del]

definition comm_start :: "(string \<Rightarrow> string \<Rightarrow> int) \<Rightarrow> commfl \<Rightarrow> iblok \<times> nat \<Rightarrow> iblok \<times> nat \<Rightarrow> string" where
  "comm_start cmp fl ib1 ib2 =
     (case comm_rd ib1 of
        None \<Rightarrow> (case comm_rd ib2 of None \<Rightarrow> [] | Some (lb2, ib2') \<Rightarrow> comm_copy fl lb2 ib2' 2)
      | Some (lb1, ib1') \<Rightarrow>
          (case comm_rd ib2 of
             None \<Rightarrow> comm_copy fl lb1 ib1' 1
           | Some (lb2, ib2') \<Rightarrow> comm_loop cmp fl lb1 ib1' lb2 ib2'))"

definition comm_openfil :: "nat \<Rightarrow> filesys \<Rightarrow> fdesc \<Rightarrow> string \<Rightarrow> iblok option" where
  "comm_openfil mbm fs stdin s = (if s = ''-'' then Some (ib_alloc mbm stdin 0) else ib_open mbm fs s 0)"

definition comm_usage :: "string \<Rightarrow> outcome" where
  "comm_usage progname = \<lparr>out = [], err = ''usage: '' @ progname @ '' [ - [123] ] file1 file2'' @ [NL], status = 2\<rparr>"

definition comm_noopen :: "string \<Rightarrow> string \<Rightarrow> outcome" where
  "comm_noopen progname s = \<lparr>out = [], err = progname @ '': cannot open '' @ s @ [NL], status = 1\<rparr>"

definition comm_main :: "bool \<Rightarrow> nat \<Rightarrow> (string \<Rightarrow> int \<times> int) \<Rightarrow> (string \<Rightarrow> string \<Rightarrow> int) \<Rightarrow>
    filesys \<Rightarrow> fdesc \<Rightarrow> string \<Rightarrow> string list \<Rightarrow> outcome" where
  "comm_main ccoll mbm mb strcoll fs stdin progname argv =
     (case getopt_all True None argv '':123'' optst_init of
        (evs, st) \<Rightarrow>
          (case comm_opts evs comm_init of
             None \<Rightarrow> comm_usage progname
           | Some fl \<Rightarrow>
               (case drop (optind st) argv of
                  f1 # f2 # _ \<Rightarrow>
                    (case comm_openfil mbm fs stdin f1 of
                       None \<Rightarrow> comm_noopen progname f1
                     | Some ib1 \<Rightarrow>
                         (case comm_openfil mbm fs stdin f2 of
                            None \<Rightarrow> comm_noopen progname f2
                          | Some ib2 \<Rightarrow>
                              \<lparr>out = comm_start (compare ccoll mbm mb strcoll) fl (ib1, 0) (ib2, 0),
                               err = [], status = 0\<rparr>))
                | _ \<Rightarrow> comm_usage progname)))"

section \<open>Collations\<close>

text \<open>
  The result of a comparison is 0, 1 or 2 for equal, less and greater, and makes a total
  preorder.
\<close>

locale collation =
  fixes cmp :: "'a \<Rightarrow> 'a \<Rightarrow> int"
  assumes cmp_vals: "cmp a b = 0 \<or> cmp a b = 1 \<or> cmp a b = 2"
    and cmp_refl: "cmp a a = 0"
    and cmp_swap: "cmp a b = 1 \<longleftrightarrow> cmp b a = 2"
    and cmp_trans: "cmp a b \<noteq> 2 \<Longrightarrow> cmp b c \<noteq> 2 \<Longrightarrow> cmp a c \<noteq> 2"
begin

lemma cmp_sym: "cmp a b = 0 \<longleftrightarrow> cmp b a = 0"
  using cmp_vals [of a b] cmp_vals [of b a] cmp_swap [of a b] cmp_swap [of b a] by auto

lemma cmp_eq_trans: "cmp a b = 0 \<Longrightarrow> cmp b c = 0 \<Longrightarrow> cmp a c = 0"
  using cmp_trans [of a b c] cmp_trans [of c b a] cmp_sym [of a b] cmp_sym [of b c] cmp_vals [of a c]
    cmp_swap [of a c] by auto

lemma cmp_cong: "cmp x y = 0 \<Longrightarrow> cmp z x = 0 \<longleftrightarrow> cmp z y = 0"
  using cmp_eq_trans cmp_sym by blast

lemma cmp_above:
  assumes "cmp x y = 1" "cmp y z \<noteq> 2"
  shows "cmp x z = 1"
proof -
  have "cmp y x = 2" using assms(1) cmp_swap by blast
  moreover have "cmp x z \<noteq> 2" using cmp_trans [of x y z] assms by simp
  moreover have "cmp x z \<noteq> 0" using cmp_trans [of y z x] assms(2) calculation(1) cmp_sym [of x z] by auto
  ultimately show ?thesis using cmp_vals [of x z] by blast
qed

end

text \<open>A key into a linear order makes a collation.\<close>

definition key_cmp :: "('a \<Rightarrow> 'k::linorder) \<Rightarrow> 'a \<Rightarrow> 'a \<Rightarrow> int" where
  "key_cmp key a b = (if key a = key b then 0 else if key a < key b then 1 else 2)"

interpretation keyed: collation "key_cmp key" for key :: "'a \<Rightarrow> 'k::linorder"
  by unfold_locales (auto simp: key_cmp_def split: if_splits)

function plain_key :: "string \<Rightarrow> int list" where
  "plain_key a = (if deref a = NUL then [0] else schar (deref a) # plain_key (tl a))"
  by pat_completeness auto
termination
  by (relation "measure length") (auto simp: deref_def split: list.splits)

function mb_key :: "nat \<Rightarrow> (string \<Rightarrow> int \<times> int) \<Rightarrow> string \<Rightarrow> int list" where
  "mb_key mbm mb a =
     (case fetch mbm mb a of (w, a') \<Rightarrow> if w = 0 then [0] else w # mb_key mbm mb a')"
  by pat_completeness auto
termination
  by (relation "measure (\<lambda>(mbm, mb, a). length a)") (auto dest: fetch_cnt [OF sym])

declare plain_key.simps [simp del] mb_key.simps [simp del]

lemma schar_NUL: "schar c = 0 \<longleftrightarrow> c = NUL"
proof -
  have "schar NUL = 0" by (simp add: schar_def uchar_def)
  then show ?thesis by (metis schar_inj)
qed

lemma cmp_plain_key: "cmp_plain a b = key_cmp plain_key a b"
proof (induction a b rule: cmp_plain.induct)
  case (1 a b)
  have k: "plain_key s = schar (deref s) # (if deref s = NUL then [] else plain_key (tl s))" for s
    by (simp add: plain_key.simps [of s] schar_NUL)
  show ?case
  proof (cases "deref a = deref b")
    case True
    with 1 show ?thesis
      by (simp add: cmp_plain.simps [of a b] k [of a] k [of b] key_cmp_def)
  next
    case False
    then show ?thesis
      by (simp add: cmp_plain.simps [of a b] k [of a] k [of b] key_cmp_def)
  qed
qed

lemma cmp_mb_key: "cmp_mb mbm mb a b = key_cmp (mb_key mbm mb) a b"
proof (induction mbm mb a b rule: cmp_mb.induct)
  case (1 mbm mb a b)
  obtain wa a' wb b' where f: "fetch mbm mb a = (wa, a')" "fetch mbm mb b = (wb, b')" by fastforce
  have k: "mb_key mbm mb a = wa # (if wa = 0 then [] else mb_key mbm mb a')"
    "mb_key mbm mb b = wb # (if wb = 0 then [] else mb_key mbm mb b')"
    using f by (simp_all add: mb_key.simps [of mbm mb a] mb_key.simps [of mbm mb b])
  from 1 [OF f(1) [symmetric] f(2) [symmetric]] f show ?case
    by (auto simp: cmp_mb.simps [of mbm mb a b] k key_cmp_def)
qed

text \<open>The comparison of the C locale is a collation, in either way.\<close>

lemma compare_key:
  "compare True mbm mb strcoll = key_cmp (if mbm > 1 then mb_key mbm mb else plain_key)"
  by (intro ext) (simp add: compare_def cmp_plain_key cmp_mb_key)

interpretation ccmp: collation "compare True mbm mb strcoll"
  unfolding compare_key by (rule keyed.collation_axioms)

section \<open>Merging\<close>

text \<open>The columns and lines of the output.\<close>

fun cmerge :: "('a \<Rightarrow> 'a \<Rightarrow> int) \<Rightarrow> 'a list \<Rightarrow> 'a list \<Rightarrow> (nat \<times> 'a) list" where
  "cmerge cmp [] ys = map (Pair 2) ys"
| "cmerge cmp (x # xs) [] = map (Pair 1) (x # xs)"
| "cmerge cmp (x # xs) (y # ys) =
     (if cmp x y = 0 then (3, x) # cmerge cmp xs ys
      else if cmp x y = 1 then (1, x) # cmerge cmp xs (y # ys)
      else (2, y) # cmerge cmp (x # xs) ys)"

definition occ :: "('a \<Rightarrow> 'a \<Rightarrow> int) \<Rightarrow> 'a \<Rightarrow> 'a list \<Rightarrow> nat" where
  "occ cmp z xs = length (filter (\<lambda>x. cmp z x = 0) xs)"

definition column :: "nat \<Rightarrow> (nat \<times> 'a) list \<Rightarrow> 'a list" where
  "column n es = map snd (filter (\<lambda>e. fst e = n) es)"

definition collated :: "('a \<Rightarrow> 'a \<Rightarrow> int) \<Rightarrow> 'a list \<Rightarrow> bool" where
  "collated cmp xs \<longleftrightarrow> sorted_wrt (\<lambda>a b. cmp a b \<noteq> 2) xs"

lemma occ_simps [simp]:
  "occ cmp z [] = 0" "occ cmp z (x # xs) = (if cmp z x = 0 then Suc (occ cmp z xs) else occ cmp z xs)"
  by (simp_all add: occ_def)

lemma column_simps [simp]:
  "column n [] = []" "column n ((m, x) # es) = (if m = n then x # column n es else column n es)"
  "column n (map (Pair m) xs) = (if m = n then xs else [])"
  by (auto simp: column_def filter_map o_def)

lemma collated_Cons: "collated cmp (x # xs) \<longleftrightarrow> (\<forall>y \<in> set xs. cmp x y \<noteq> 2) \<and> collated cmp xs"
  by (simp add: collated_def)

context collation
begin

lemma occ_above:
  assumes "cmp x y = 1" "collated cmp (y # ys)" "cmp z x = 0"
  shows "occ cmp z (y # ys) = 0"
proof -
  have "cmp z w \<noteq> 0" if "w \<in> set (y # ys)" for w
  proof -
    have "cmp y w \<noteq> 2" using that assms(2) cmp_refl [of y] by (auto simp: collated_Cons)
    then have "cmp x w = 1" by (rule cmp_above [OF assms(1)])
    then show ?thesis using assms(3) cmp_cong [of z w x] cmp_sym [of x z] cmp_sym [of x w] by auto
  qed
  then show ?thesis by (simp add: occ_def)
qed

lemma cmerge_occ:
  "collated cmp xs \<Longrightarrow> collated cmp ys \<Longrightarrow>
     occ cmp z (column 3 (cmerge cmp xs ys)) = min (occ cmp z xs) (occ cmp z ys) \<and>
     occ cmp z (column 1 (cmerge cmp xs ys)) = occ cmp z xs - occ cmp z ys \<and>
     occ cmp z (column 2 (cmerge cmp xs ys)) = occ cmp z ys - occ cmp z xs"
proof (induction xs arbitrary: ys)
  case Nil
  show ?case by simp
next
  case (Cons x xs)
  note outer = Cons.IH and prems = Cons.prems
  from prems(2) show ?case
  proof (induction ys)
    case Nil
    show ?case by (simp del: list.map)
  next
    case (Cons y ys)
    have c: "collated cmp xs" "collated cmp ys" using prems(1) Cons.prems by (simp_all add: collated_Cons)
    consider "cmp x y = 0" | "cmp x y = 1" | "cmp x y = 2" using cmp_vals by blast
    then show ?case
    proof cases
      case 1
      then have "cmp z x = 0 \<longleftrightarrow> cmp z y = 0" by (rule cmp_cong)
      with outer [OF c] 1 show ?thesis by simp
    next
      case 2
      with outer [OF c(1) Cons.prems] occ_above [OF 2 Cons.prems, of z] show ?thesis
        by (cases "cmp z x = 0") simp_all
    next
      case 3
      then have "cmp y x = 1" using cmp_swap by blast
      with Cons.IH [OF c(2)] 3 occ_above [OF _ prems(1), of y z] show ?thesis
        by (cases "cmp z y = 0") simp_all
    qed
  qed
qed

end

section \<open>The loop computes the merge\<close>

definition text_lines :: "iblok \<times> nat \<Rightarrow> string list" where
  "text_lines s = map rd_line (lines_of (ib_rest (fst s)))"

lemma comm_rd_cases:
  assumes "ib_lgood (fst s)"
  obtains "comm_rd s = None" "text_lines s = []"
  | l s' where "comm_rd s = Some (l, s')" "text_lines s = l # text_lines s'" "ib_lgood (fst s')"
proof (cases "ib_line s")
  case None
  with ibl.get_None [OF assms] that(1) show ?thesis by (simp add: comm_rd_def text_lines_def)
next
  case (Some r)
  obtain l s' where r: "r = (l, s')" by (cases r)
  from ibl.get_Some [OF assms Some [unfolded r]] Some r that(2) show ?thesis
    by (simp add: comm_rd_def text_lines_def)
qed

definition show_cols :: "commfl \<Rightarrow> (nat \<times> string) list \<Rightarrow> string" where
  "show_cols fl es = concat (map (\<lambda>(n, l). comm_wr fl l n) es)"

lemma show_cols_simps [simp]: "show_cols fl [] = []" "show_cols fl ((n, l) # es) = comm_wr fl l n @ show_cols fl es"
  by (simp_all add: show_cols_def)

lemma comm_copy_lines:
  "ib_lgood (fst s) \<Longrightarrow> comm_copy fl l s n = show_cols fl (map (Pair n) (l # text_lines s))"
proof (induction fl l s n rule: comm_copy.induct)
  case (1 fl l s n)
  note simps = comm_copy.simps [of fl l s n]
  from "1.prems" show ?case
  proof (cases s rule: comm_rd_cases)
    case 1
    then show ?thesis by (simp add: simps)
  next
    case (2 l' s')
    with "1.IH" [OF 2(1) refl 2(3)] show ?thesis by (simp add: simps)
  qed
qed

lemma comm_loop_lines:
  "ib_lgood (fst ib1) \<Longrightarrow> ib_lgood (fst ib2) \<Longrightarrow>
    comm_loop cmp fl lb1 ib1 lb2 ib2 = show_cols fl (cmerge cmp (lb1 # text_lines ib1) (lb2 # text_lines ib2))"
proof (induction cmp fl lb1 ib1 lb2 ib2 rule: comm_loop.induct)
  case (1 cmp fl lb1 ib1 lb2 ib2)
  note simps = comm_loop.simps [of cmp fl lb1 ib1 lb2 ib2]
  from "1.prems"(1) show ?case
  proof (cases ib1 rule: comm_rd_cases)
    case r1: 1
    from "1.prems"(2) show ?thesis
    proof (cases ib2 rule: comm_rd_cases)
      case r2: 1
      with r1 "1.prems" show ?thesis by (simp add: simps comm_copy_lines)
    next
      case r2: (2 l2 s2)
      with r1 "1.prems" "1.IH"(3) [OF _ _ r2(1) refl] show ?thesis by (simp add: simps comm_copy_lines)
    qed
  next
    case r1: (2 l1 s1)
    from "1.prems"(2) show ?thesis
    proof (cases ib2 rule: comm_rd_cases)
      case r2: 1
      with r1 "1.prems" "1.IH"(2) [OF _ _ r1(1) refl] show ?thesis by (simp add: simps comm_copy_lines)
    next
      case r2: (2 l2 s2)
      with r1 "1.prems" "1.IH"(1) [OF _ r1(1) refl r2(1) refl] "1.IH"(2) [OF _ _ r1(1) refl]
        "1.IH"(3) [OF _ _ r2(1) refl] show ?thesis by (simp add: simps comm_copy_lines)
    qed
  qed
qed

lemma comm_start_lines:
  "ib_lgood (fst ib1) \<Longrightarrow> ib_lgood (fst ib2) \<Longrightarrow>
     comm_start cmp fl ib1 ib2 = show_cols fl (cmerge cmp (text_lines ib1) (text_lines ib2))"
proof -
  assume g: "ib_lgood (fst ib1)" "ib_lgood (fst ib2)"
  from g(1) show ?thesis
  proof (cases ib1 rule: comm_rd_cases)
    case r1: 1
    from g(2) show ?thesis
      by (cases ib2 rule: comm_rd_cases) (use r1 g in \<open>simp_all add: comm_start_def comm_copy_lines\<close>)
  next
    case r1: (2 l1 s1)
    from g(2) show ?thesis
      by (cases ib2 rule: comm_rd_cases)
         (use r1 g in \<open>simp_all add: comm_start_def comm_copy_lines comm_loop_lines\<close>)
  qed
qed

section \<open>Properties\<close>

text \<open>A line in column \<open>n\<close>, when the columns in \<open>hide\<close> are suppressed.\<close>

definition comm_line :: "nat set \<Rightarrow> nat \<times> string \<Rightarrow> string" where
  "comm_line hide e =
     (case e of (n, l) \<Rightarrow> if n \<in> hide then [] else replicate (card ({1..<n} - hide)) TAB @ l @ [NL])"

definition fl_sup :: "commfl \<Rightarrow> nat set" where
  "fl_sup fl = (if one fl then {1} else {}) \<union> (if two fl then {2} else {}) \<union> (if three fl then {3} else {})"

definition fl_ok :: "commfl \<Rightarrow> bool" where
  "fl_ok fl \<longleftrightarrow> ldr1 fl = (if one fl then [] else [TAB]) \<and>
     ldr2 fl = replicate (2 - of_bool (one fl) - of_bool (two fl)) TAB \<and>
     ldrl fl = 1 - of_bool (one fl) - of_bool (two fl)"

definition opt_col :: "char \<Rightarrow> nat" where
  "opt_col c = (if c = CHR ''1'' then 1 else if c = CHR ''2'' then 2 else 3)"

lemma comm_opt_ok:
  assumes "fl_ok fl" "c \<in> {CHR ''1'', CHR ''2'', CHR ''3''}"
  obtains fl' where "comm_opt (uchar c) fl = Some fl'" "fl_ok fl'" "fl_sup fl' = insert (opt_col c) (fl_sup fl)"
proof -
  have "\<exists>fl'. comm_opt (uchar c) fl = Some fl' \<and> fl_ok fl' \<and> fl_sup fl' = insert (opt_col c) (fl_sup fl)"
    using assms by (auto simp: comm_opt_def fl_ok_def fl_sup_def opt_col_def)
  with that show ?thesis by blast
qed

lemma comm_opts_ok:
  "fl_ok fl \<Longrightarrow> set cs \<subseteq> {CHR ''1'', CHR ''2'', CHR ''3''} \<Longrightarrow>
     \<exists>fl'. comm_opts (map (\<lambda>c. (uchar c, None, [])) cs) fl = Some fl' \<and> fl_ok fl' \<and>
           fl_sup fl' = opt_col ` set cs \<union> fl_sup fl"
proof (induction cs arbitrary: fl)
  case (Cons c cs)
  then obtain fl1 where f: "comm_opt (uchar c) fl = Some fl1" "fl_ok fl1" "fl_sup fl1 = insert (opt_col c) (fl_sup fl)"
    by (metis comm_opt_ok insert_subset list.simps(15))
  from Cons.IH [OF f(2)] Cons.prems(2) f show ?case by auto
qed simp

lemma card_cols:
  "card ({1..<Suc 0} - S) = 0" "card ({1..<2} - S) = (if (1::nat) \<in> S then 0 else 1)"
  "card ({1..<3} - S) = (if (1::nat) \<in> S then 0 else 1) + (if 2 \<in> S then 0 else 1)"
proof -
  have "{1..<2::nat} = {1}" "{1..<3::nat} = {1, 2}" by auto
  then show "card ({1..<Suc 0} - S) = 0" "card ({1..<2} - S) = (if (1::nat) \<in> S then 0 else 1)"
    "card ({1..<3} - S) = (if (1::nat) \<in> S then 0 else 1) + (if 2 \<in> S then 0 else 1)"
    by (auto simp: card_Diff_singleton_if insert_Diff_if)
qed

lemma comm_wr_line: "fl_ok fl \<Longrightarrow> n \<in> {1, 2, 3} \<Longrightarrow> comm_wr fl l n = comm_line (fl_sup fl) (n, l)"
  by (auto simp: comm_wr_def comm_line_def fl_ok_def fl_sup_def card_cols)

lemma cmerge_cols: "e \<in> set (cmerge cmp xs ys) \<Longrightarrow> fst e \<in> {1, 2, 3}"
  by (induction cmp xs ys rule: cmerge.induct) (auto split: if_splits)

lemma show_cols_line:
  assumes "fl_ok fl"
  shows "show_cols fl (cmerge cmp xs ys) = concat (map (comm_line (fl_sup fl)) (cmerge cmp xs ys))"
proof -
  have "map (\<lambda>(n, l). comm_wr fl l n) (cmerge cmp xs ys) = map (comm_line (fl_sup fl)) (cmerge cmp xs ys)"
    using cmerge_cols comm_wr_line [OF assms] by (intro map_cong) fastforce+
  then show ?thesis unfolding show_cols_def by (rule arg_cong)
qed

lemma opt_find_123: "c \<in> {CHR ''1'', CHR ''2'', CHR ''3''} \<Longrightarrow> opt_find ''123'' c = Some False"
  by auto

lemma comm_run:
  assumes "set cs \<subseteq> {CHR ''1'', CHR ''2'', CHR ''3''}"
    and "fs f1 = Some fd1" "fd_good fd1" "f1 \<noteq> ''-''" "length f1 < 2 \<or> hd f1 \<noteq> CHR ''-''"
    and "fs f2 = Some fd2" "fd_good fd2" "f2 \<noteq> ''-''"
  shows "comm_main ccoll mbm mb strcoll fs stdin progname (arg0 # map (\<lambda>c. [CHR ''-'', c]) cs @ [f1, f2]) =
    \<lparr>out = concat (map (comm_line (opt_col ` set cs))
             (cmerge (compare ccoll mbm mb strcoll)
                (map rd_line (lines_of (fd_rest fd1))) (map rd_line (lines_of (fd_rest fd2))))),
     err = [], status = 0\<rparr>"
proof -
  let ?rs = "map (\<lambda>c. Opt c None) cs" and ?evs = "map (\<lambda>c. (uchar c, None, [])) cs"
  have ren: "render ?rs = map (\<lambda>c. [CHR ''-'', c]) cs" by (induction cs) simp_all
  have ok: "list_all (renderable (opt_letters '':123'')) ?rs"
    using assms(1) opt_find_123 by (fastforce simp: list_all_iff opt_letters_def has_colon_def)
  have opn: "operands_ok [f1, f2]" using assms(5) by (simp add: operands_ok_def)
  obtain evs st where g: "getopt_all True None (arg0 # map (\<lambda>c. [CHR ''-'', c]) cs @ [f1, f2]) '':123'' optst_init = (evs, st)"
    by fastforce
  from getopt_all_render [OF ok opn, where e = True and l = None and prog = arg0] g
  have e: "evs = ?evs" "drop (optind st) (arg0 # map (\<lambda>c. [CHR ''-'', c]) cs @ [f1, f2]) = [f1, f2]"
    by (simp_all add: ren o_def)
  have "fl_ok comm_init" "fl_sup comm_init = {}" by (simp_all add: comm_init_def fl_ok_def fl_sup_def numeral_2_eq_2)
  then obtain fl where fl: "comm_opts ?evs comm_init = Some fl" "fl_ok fl" "fl_sup fl = opt_col ` set cs"
    using comm_opts_ok [OF _ assms(1), of comm_init] by auto
  have o: "comm_openfil mbm fs stdin f1 = Some (ib_alloc mbm fd1 0)" "comm_openfil mbm fs stdin f2 = Some (ib_alloc mbm fd2 0)"
    using assms by (simp_all add: comm_openfil_def ib_open_def)
  show ?thesis
    unfolding comm_main_def g prod.case e(1) fl(1) option.case e(2) list.case o
    using comm_start_lines [of "(ib_alloc mbm fd1 0, 0)" "(ib_alloc mbm fd2 0, 0)"] assms(3,7)
    by (simp add: text_lines_def show_cols_line [OF fl(2)] fl(3))
qed

text \<open>
  (C14) The program.  With any of the options \<open>-1\<close>, \<open>-2\<close>, \<open>-3\<close>, in any order and number, and two
  readable files, \<open>comm\<close> prints the merge of their lines: a line in column \<open>n\<close> is preceded by one tab
  for every column before it that is not suppressed, and a suppressed column is not printed.
  The loop over the two files ends.
\<close>

theorem comm_output:
  assumes "set cs \<subseteq> {CHR ''1'', CHR ''2'', CHR ''3''}"
    and "fs f1 = Some fd1" "fd_good fd1" "f1 \<noteq> ''-''" "length f1 < 2 \<or> hd f1 \<noteq> CHR ''-''"
    and "fs f2 = Some fd2" "fd_good fd2" "f2 \<noteq> ''-''"
  shows "comm_main ccoll mbm mb strcoll fs stdin progname (arg0 # map (\<lambda>c. [CHR ''-'', c]) cs @ [f1, f2]) =
    \<lparr>out = concat (map (comm_line (opt_col ` set cs))
             (cmerge (compare ccoll mbm mb strcoll)
                (map rd_line (lines_of (fd_rest fd1))) (map rd_line (lines_of (fd_rest fd2))))),
     err = [], status = 0\<rparr>"
  using assms by (rule comm_run)

definition comm_fs :: filesys where
  "comm_fs f = (if f = ''a'' then Some (mk_fd (''x'' @ [NL] @ ''y'' @ [NL]))
                else if f = ''b'' then Some (mk_fd (''y'' @ [NL] @ ''z''))
                else if f = ''c'' then Some (mk_fd (''y'' @ [NL] @ ''z'' @ [NL])) else None)"

theorem comm_output_witness:
  "comm_main True 1 (\<lambda>_. (-1, 0)) (\<lambda>_ _. 0) comm_fs (mk_fd []) ''comm'' [''comm'', ''-1'', ''a'', ''b''] =
    \<lparr>out = [TAB] @ ''y'' @ [NL] @ ''z'' @ [NL], err = [], status = 0\<rparr>"
proof -
  have k: "cmp_plain ''x'' ''y'' = 1" "cmp_plain ''y'' ''y'' = 0" "cmp_plain ''y'' ''z'' = 1"
    by (simp_all add: cmp_plain.simps deref_def schar_def uchar_def)
  have fs: "comm_fs ''a'' = Some (mk_fd (''x'' @ [NL] @ ''y'' @ [NL]))" "comm_fs ''b'' = Some (mk_fd (''y'' @ [NL] @ ''z''))"
    by (simp_all add: comm_fs_def)
  have c: "set [CHR ''1''] \<subseteq> {CHR ''1'', CHR ''2'', CHR ''3''}" by simp
  have g: "fd_good (mk_fd (''x'' @ [NL] @ ''y'' @ [NL]))" "fd_good (mk_fd (''y'' @ [NL] @ ''z''))" by simp_all
  from comm_output [OF c fs(1) g(1) _ _ fs(2) g(2), of True 1 "\<lambda>_. (-1, 0)" "\<lambda>_ _. 0" "mk_fd []" "''comm''" "''comm''"] k
  show ?thesis by (simp add: compare_def rd_line_def comm_line_def opt_col_def card_cols)
qed

subsection \<open>Lines in common\<close>

text \<open>
  The order of the C locale on lines of single bytes: bytes are compared as values of type
  \<open>char\<close>, which is signed, and the end of a line counts as 0.  For lines of ASCII characters
  this is the order of their codes.
\<close>

definition line_key :: "string \<Rightarrow> int list" where
  "line_key l = map schar l @ [0]"

definition plain_line :: "string \<Rightarrow> bool" where
  "plain_line l \<longleftrightarrow> NL \<notin> set l \<and> NUL \<notin> set l"

lemma plain_key_line: "NUL \<notin> set l \<Longrightarrow> plain_key l = line_key l"
  by (induction l)
     (auto simp: plain_key.simps [of "_ # _"] plain_key.simps [of "[]"] deref_def line_key_def)

lemma line_key_inj: "line_key a = line_key b \<longleftrightarrow> a = b"
proof -
  have "inj schar" by (simp add: inj_def)
  then show ?thesis by (simp add: line_key_def inj_map_eq_map)
qed

lemma schar_ascii: "uchar c < 128 \<Longrightarrow> schar c = uchar c"
  by (simp add: schar_def)

lemma line_key_ascii:
  "\<forall>c \<in> set a \<union> set b. c \<noteq> NUL \<and> uchar c < 128 \<Longrightarrow>
     line_key a \<le> line_key b \<longleftrightarrow> map uchar a \<le> map uchar b"
proof (induction a arbitrary: b)
  case Nil
  have "0 < schar c" if "c \<in> set b" for c
    using that Nil uchar_range(1) [of c] schar_NUL [of c] by (simp add: schar_ascii order_le_less)
  then show ?case by (cases b) (simp_all add: line_key_def)
next
  case (Cons c a)
  have "schar c = uchar c" "0 < schar c"
    using Cons.prems uchar_range(1) [of c] schar_NUL [of c] by (auto simp: schar_ascii order_le_less)
  with Cons show ?case
    by (cases b) (auto simp: line_key_def schar_ascii)
qed

lemma rd_line_plain: "plain_line l \<Longrightarrow> rd_line (l @ [NL]) = l"
  by (auto simp: plain_line_def rd_line_def cstr_def takeWhile_eq_all_conv)

lemma text_lines_plain:
  assumes "\<And>l. l \<in> set ls \<Longrightarrow> plain_line l"
  shows "map rd_line (lines_of (concat (map (\<lambda>l. l @ [NL]) ls))) = ls"
proof -
  have "lines_of (concat (map (\<lambda>l. l @ [NL]) ls)) = map (\<lambda>l. l @ [NL]) ls"
    using assms by (intro lines_of_terminated) (simp add: plain_line_def)
  then show ?thesis using assms by (simp add: rd_line_plain map_idI)
qed

lemma cmp_plain_lines:
  "plain_line a \<Longrightarrow> plain_line b \<Longrightarrow> mbm \<le> 1 \<Longrightarrow>
     compare True mbm mb strcoll a b = key_cmp line_key a b"
  by (simp add: compare_def cmp_plain_key key_cmp_def plain_key_line plain_line_def)

lemma cmerge_cong:
  "(\<And>x y. x \<in> set xs \<Longrightarrow> y \<in> set ys \<Longrightarrow> f x y = g x y) \<Longrightarrow> cmerge f xs ys = cmerge g xs ys"
  by (induction f xs ys rule: cmerge.induct) auto

lemma cmerge_subset: "e \<in> set (cmerge cmp xs ys) \<Longrightarrow> snd e \<in> set xs \<union> set ys"
  by (induction cmp xs ys rule: cmerge.induct) (auto split: if_splits)

lemma cmerge_sorted:
  "sorted (map key xs) \<Longrightarrow> sorted (map key ys) \<Longrightarrow>
     sorted (map (\<lambda>e. key (snd e)) (cmerge (key_cmp key) xs ys))"
proof (induction "key_cmp key" xs ys rule: cmerge.induct)
  case (3 x xs y ys)
  have below: "\<forall>e \<in> set (cmerge (key_cmp key) as bs). k \<le> key (snd e)"
    if "\<forall>z \<in> set as \<union> set bs. k \<le> key z" for as bs k
    using cmerge_subset [of _ "key_cmp key" as bs] that by blast
  consider "key x = key y" | "key x < key y" | "key y < key x" by fastforce
  then show ?case
  proof cases
    case 1
    with 3 below [of xs ys "key x"] show ?thesis by (auto simp: key_cmp_def)
  next
    case 2
    then have "\<forall>z \<in> set xs \<union> set (y # ys). key x \<le> key z" using "3.prems" by fastforce
    with 2 "3.hyps"(2) "3.prems" below [of xs "y # ys" "key x"] show ?thesis by (auto simp: key_cmp_def)
  next
    case 3
    then have "\<forall>z \<in> set (x # xs) \<union> set ys. key y \<le> key z" using "3.prems" by fastforce
    with 3 "3.hyps"(3) "3.prems" below [of "x # xs" ys "key y"] show ?thesis by (auto simp: key_cmp_def)
  qed
qed (simp_all add: comp_def)

lemma occ_count: "inj key \<Longrightarrow> occ (key_cmp key) z xs = count (mset xs) z"
  by (induction xs) (auto simp: key_cmp_def inj_eq)

lemma collated_sorted: "sorted (map key xs) \<longleftrightarrow> collated (key_cmp key) xs"
proof -
  have "(\<lambda>a b. key_cmp key a b \<noteq> 2) = (\<lambda>a b. key a \<le> key b)"
    by (intro ext) (auto simp: key_cmp_def order_le_less)
  then show ?thesis by (simp add: collated_def sorted_map)
qed

lemma cmerge_columns:
  assumes "inj key" "sorted (map key xs)" "sorted (map key ys)"
  shows "mset (column 3 (cmerge (key_cmp key) xs ys)) = mset xs \<inter># mset ys"
    "mset (column 1 (cmerge (key_cmp key) xs ys)) = mset xs - mset ys"
    "mset (column 2 (cmerge (key_cmp key) xs ys)) = mset ys - mset xs"
  using keyed.cmerge_occ [of key xs ys] assms(2,3)
  by (auto intro!: multiset_eqI simp: collated_sorted occ_count [OF assms(1)])

text \<open>
  The program \<open>sort\<close> compares bytes as unsigned numbers, so that in the C locale its output need not
  be in the order of \<open>comm\<close>: of the sorted files \<open>a, 0xE9\<close> and \<open>0xE9\<close> the line in common is not found.
\<close>

lemma comm_signed:
  "map (map uchar) [''a'', [CHR 0xE9]] = [[0x61], [0xE9]]"
  "cmerge (compare True 1 mb strcoll) [''a'', [CHR 0xE9]] [[CHR 0xE9]] =
     [(2, [CHR 0xE9]), (1, ''a''), (1, [CHR 0xE9])]"
  by (simp_all add: compare_def cmp_plain.simps deref_def schar_def uchar_def)

text \<open>
  (C15) Lines in common.  In the C locale with characters of one byte, take two readable files
  of lines that contain no null byte, each in the order of the bytes as signed numbers (for ASCII text:
  the order of the codes).  With any of the options \<open>-1\<close>, \<open>-2\<close>, \<open>-3\<close>, \<open>comm\<close> prints a
  sequence of lines in columns, the ones of suppressed columns left out, in which column 3 holds
  exactly the lines that both files have, column 1 those that only the first and column 2 those that only
  the second file has, with their multiplicities, and all lines are in order.
\<close>

theorem comm_columns:
  assumes "set cs \<subseteq> {CHR ''1'', CHR ''2'', CHR ''3''}" and "mbm \<le> 1"
    and "fs f1 = Some fd1" "fd_good fd1" "f1 \<noteq> ''-''" "length f1 < 2 \<or> hd f1 \<noteq> CHR ''-''"
    and "fs f2 = Some fd2" "fd_good fd2" "f2 \<noteq> ''-''"
    and "fd_rest fd1 = concat (map (\<lambda>l. l @ [NL]) xs)" "fd_rest fd2 = concat (map (\<lambda>l. l @ [NL]) ys)"
    and "\<forall>l \<in> set xs \<union> set ys. plain_line l"
    and "sorted (map line_key xs)" "sorted (map line_key ys)"
  shows "\<exists>es. comm_main True mbm mb strcoll fs stdin progname (arg0 # map (\<lambda>c. [CHR ''-'', c]) cs @ [f1, f2]) =
      \<lparr>out = concat (map (comm_line (opt_col ` set cs)) es), err = [], status = 0\<rparr> \<and>
    mset (column 1 es) = mset xs - mset ys \<and>
    mset (column 2 es) = mset ys - mset xs \<and>
    mset (column 3 es) = mset xs \<inter># mset ys \<and>
    sorted (map (\<lambda>e. line_key (snd e)) es) \<and> fst ` set es \<subseteq> {1, 2, 3}"
proof -
  let ?es = "cmerge (key_cmp line_key) xs ys"
  have xs: "map rd_line (lines_of (fd_rest fd1)) = xs" "map rd_line (lines_of (fd_rest fd2)) = ys"
    using assms(12) unfolding assms(10,11) by (auto intro!: text_lines_plain)
  have es: "cmerge (compare True mbm mb strcoll) xs ys = ?es"
    using assms(2,12) by (intro cmerge_cong cmp_plain_lines) auto
  have inj: "inj line_key" by (simp add: inj_def line_key_inj)
  have "fst ` set ?es \<subseteq> {1, 2, 3}" using cmerge_cols by fastforce
  with comm_run [OF assms(1,3-9), of True mbm mb strcoll stdin progname arg0] cmerge_sorted [OF assms(13,14)]
    cmerge_columns [OF inj assms(13,14)]
  show ?thesis unfolding xs es by (intro exI [of _ ?es]) simp
qed

theorem comm_columns_witness:
  "\<exists>es. comm_main True 1 (\<lambda>_. (-1, 0)) (\<lambda>_ _. 0) comm_fs (mk_fd []) ''comm'' [''comm'', ''-2'', ''a'', ''c''] =
      \<lparr>out = concat (map (comm_line {2}) es), err = [], status = 0\<rparr> \<and>
    column 1 es = [''x''] \<and> column 2 es = [''z''] \<and> mset (column 3 es) = {#''y''#} \<and>
    sorted (map (\<lambda>e. line_key (snd e)) es) \<and> fst ` set es \<subseteq> {1, 2, 3}"
proof -
  have fs: "comm_fs ''a'' = Some (mk_fd (''x'' @ [NL] @ ''y'' @ [NL]))"
    "comm_fs ''c'' = Some (mk_fd (''y'' @ [NL] @ ''z'' @ [NL]))"
    by (simp_all add: comm_fs_def)
  have s: "sorted (map line_key [''x'', ''y''])" "sorted (map line_key [''y'', ''z''])"
    by (simp_all add: line_key_def schar_def uchar_def)
  note w = comm_columns [of "[CHR ''2'']" 1 comm_fs "''a''" _ "''c''" _ "[''x'', ''y'']" "[''y'', ''z'']"
      "\<lambda>_. (-1, 0)" "\<lambda>_ _. 0" "mk_fd []" "''comm''" "''comm''", OF _ _ fs(1) _ _ _ fs(2) _ _ _ _ _ s]
  have "{#''x'', ''y''#} \<inter># {#''y'', ''z''#} = {#''y''#}" by (simp add: multiset_eq_iff)
  with w show ?thesis by (simp add: plain_line_def opt_col_def)
qed

end
