(* ===== verification/Uniq.thy ===== *)
theory Uniq
  imports Iblok Gmatch Stdio
begin

text \<open>
  \<open>uniq/uniq.c\<close>: repeated lines.  \<open>uniq_main\<close> is the whole program.  \<open>mbm\<close> and \<open>mb\<close> are as in \<open>Gmatch\<close>
  (the macro \<open>next\<close> is \<open>fetch\<close>), \<open>blank\<close> is \<open>isblank\<close> or \<open>iswblank\<close> of the locale, which is false of
  NUL.  Indexing an argument behind its terminator is \<open>None\<close>.
\<close>

section \<open>Comparing lines\<close>

record uniqst =
  ufields :: int
  uletters :: int
  umode :: char

definition uniq_init :: uniqst where
  "uniq_init = \<lparr>ufields = 0, uletters = 0, umode = NUL\<rparr>"

function skip_blanks :: "nat \<Rightarrow> (string \<Rightarrow> int \<times> int) \<Rightarrow> (int \<Rightarrow> bool) \<Rightarrow> string \<Rightarrow> string" where
  "skip_blanks mbm mb blank s =
     (if s = [] then []
      else case fetch mbm mb s of (wc, s') \<Rightarrow> if blank wc then skip_blanks mbm mb blank s' else s)"
  by pat_completeness auto
termination
  by (relation "measure (\<lambda>(mbm, mb, blank, s). length s)") (auto dest: fetch_shorter simp: prod_eq_iff)

declare skip_blanks.simps [simp del]

definition skip_field :: "nat \<Rightarrow> (string \<Rightarrow> int \<times> int) \<Rightarrow> (int \<Rightarrow> bool) \<Rightarrow> string \<Rightarrow> string" where
  "skip_field mbm mb blank s =
     (if mbm > 1 then skip_blanks mbm mb (\<lambda>c. \<not> blank c) (skip_blanks mbm mb blank s)
      else dropWhile (\<lambda>c. \<not> blank (uchar c)) (dropWhile (\<lambda>c. blank (uchar c)) s))"

definition skip_letter :: "nat \<Rightarrow> (string \<Rightarrow> int \<times> int) \<Rightarrow> string \<Rightarrow> string" where
  "skip_letter mbm mb s = (if s = [] then [] else if mbm > 1 then snd (fetch mbm mb s) else tl s)"

definition uniq_skip :: "nat \<Rightarrow> (string \<Rightarrow> int \<times> int) \<Rightarrow> (int \<Rightarrow> bool) \<Rightarrow> uniqst \<Rightarrow> string \<Rightarrow> string" where
  "uniq_skip mbm mb blank st s =
     (skip_letter mbm mb ^^ nat (uletters st)) ((skip_field mbm mb blank ^^ nat (ufields st)) s)"

text \<open>
  The loop of \<open>equal\<close>.  When the second line is the shorter one and the first has NUL bytes in the
  right place, \<open>b2\<close> runs past its terminator; what is read there does not matter, since \<open>l2\<close> is
  then different from 0 at the end.
\<close>

fun uniq_cmp :: "string \<Rightarrow> string \<Rightarrow> int \<Rightarrow> bool" where
  "uniq_cmp [] b2 l2 = (l2 = 0)"
| "uniq_cmp (c # b1) b2 l2 =
     (if c \<noteq> (case b2 of [] \<Rightarrow> NUL | d # _ \<Rightarrow> d) then False else uniq_cmp b1 (tl b2) (l2 - 1))"

definition uniq_equal :: "nat \<Rightarrow> (string \<Rightarrow> int \<times> int) \<Rightarrow> (int \<Rightarrow> bool) \<Rightarrow> uniqst \<Rightarrow> string \<Rightarrow> string \<Rightarrow> bool" where
  "uniq_equal mbm mb blank st b1 b2 =
     (let b1 = uniq_skip mbm mb blank st b1; b2 = uniq_skip mbm mb blank st b2
      in uniq_cmp b1 b2 (int (length b2)))"

section \<open>The main loop\<close>

text \<open>\<open>pline\<close>: the output and the new value of \<open>uniq\<close>.\<close>

definition pline :: "char \<Rightarrow> nat \<Rightarrow> nat \<Rightarrow> string \<Rightarrow> string \<times> nat" where
  "pline mode linec u buf =
     (if mode = CHR ''u'' \<and> u \<noteq> 0 then ([], 0)
      else if mode = CHR ''d'' \<and> u = 0 then ([], u)
      else ((if mode = CHR ''c'' then padl 4 (CHR '' '') (decimal linec) @ '' '' else []) @ buf @ [NL], 0))"

definition chop :: "string \<Rightarrow> string" where
  "chop l = (if last l = NL then butlast l else l)"

definition uniq_rd :: "iblok \<times> nat \<Rightarrow> (string \<times> (iblok \<times> nat)) option" where
  "uniq_rd s = (case ib_line s of None \<Rightarrow> None | Some (l, s') \<Rightarrow> Some (chop l, s'))"

lemma uniq_rd_size: "uniq_rd s = Some (l, s') \<Longrightarrow> ib_size (fst s') < ib_size (fst s)"
  by (auto simp: uniq_rd_def dest: ib_line_size split: option.splits)

text \<open>\<open>uniq_outer\<close> is the \<open>for(;;)\<close> loop from \<open>linec++\<close> on, \<open>uniq_inner\<close> the \<open>do\<close> loop inside it.\<close>

function uniq_outer :: "(string \<Rightarrow> string \<Rightarrow> bool) \<Rightarrow> char \<Rightarrow> string \<Rightarrow> iblok \<times> nat \<Rightarrow> nat \<Rightarrow> nat \<Rightarrow> string"
  and uniq_inner :: "(string \<Rightarrow> string \<Rightarrow> bool) \<Rightarrow> char \<Rightarrow> string \<Rightarrow> iblok \<times> nat \<Rightarrow> nat \<Rightarrow> nat \<Rightarrow> string"
where
  "uniq_outer eq mode b1 s linec u =
     (case uniq_rd s of
        None \<Rightarrow> fst (pline mode (linec + 1) u b1)
      | Some (b2, s') \<Rightarrow>
          if eq b1 b2 then uniq_outer eq mode b1 s' (linec + 1) (u + 1)
          else fst (pline mode (linec + 1) u b1) @
               uniq_inner eq mode b2 s' 0 (snd (pline mode (linec + 1) u b1)))"
| "uniq_inner eq mode b2 s linec u =
     (case uniq_rd s of
        None \<Rightarrow> fst (pline mode (linec + 1) u b2)
      | Some (b1, s') \<Rightarrow>
          if eq b1 b2 then uniq_inner eq mode b2 s' (linec + 1) (u + 1)
          else fst (pline mode (linec + 1) u b2) @
               uniq_outer eq mode b1 s' 0 (snd (pline mode (linec + 1) u b2)))"
  by pat_completeness auto
termination
  by (relation "measure (\<lambda>x. case x of Inl (eq, mode, b1, s, linec, u) \<Rightarrow> ib_size (fst s)
                             | Inr (eq, mode, b1, s, linec, u) \<Rightarrow> ib_size (fst s))")
     (use uniq_rd_size in force)+

declare uniq_outer.simps [simp del] uniq_inner.simps [simp del]

definition uniq_run :: "(string \<Rightarrow> string \<Rightarrow> bool) \<Rightarrow> char \<Rightarrow> iblok \<Rightarrow> string" where
  "uniq_run eq mode ip =
     (case uniq_rd (ip, 0) of None \<Rightarrow> [] | Some (b1, s) \<Rightarrow> uniq_outer eq mode b1 s 0 0)"

section \<open>Arguments\<close>

text \<open>
  From the label \<open>optc\<close> on: \<open>a\<close> is what follows the first character of \<open>argv[1]\<close>, \<open>rest\<close> the
  arguments behind.  The results: reading outside the argument, \<open>missing\<close> with its letter, or
  the new settings and the remaining arguments.
\<close>

datatype uniqarg = Outside | Missing_arg char | Go uniqst "string list"

fun uniq_optc :: "string \<Rightarrow> string list \<Rightarrow> uniqst \<Rightarrow> uniqarg" where
  "uniq_optc [] rest st = Outside"
| "uniq_optc (c # cs) rest st =
     (if is_digit c then Go (st\<lparr>ufields := atoi (c # cs)\<rparr>) rest
      else if c = CHR ''f'' then
        (if cs \<noteq> [] then Go (st\<lparr>ufields := atoi cs\<rparr>) rest
         else case rest of a # as \<Rightarrow> Go (st\<lparr>ufields := atoi a\<rparr>) as | [] \<Rightarrow> Missing_arg (CHR ''f''))
      else if c = CHR ''s'' then
        (if cs \<noteq> [] then Go (st\<lparr>uletters := atoi cs\<rparr>) rest
         else case rest of a # as \<Rightarrow> Go (st\<lparr>uletters := atoi a\<rparr>) as | [] \<Rightarrow> Missing_arg (CHR ''s''))
      else if cs \<noteq> [] then uniq_optc cs rest (st\<lparr>umode := c\<rparr>)
      else Go (st\<lparr>umode := c\<rparr>) rest)"

lemma uniq_optc_len: "uniq_optc cs rest st = Go st' as \<Longrightarrow> length as \<le> length rest"
  by (induction cs rest st rule: uniq_optc.induct) (auto split: if_splits list.splits)

text \<open>
  The loop over the arguments, with the operands that are left (the input and the output file)
  as its result.
\<close>

function uniq_args :: "string list \<Rightarrow> uniqst \<Rightarrow> uniqarg" where
  "uniq_args [] st = Go st []"
| "uniq_args (a # as) st =
     (if a \<noteq> [] \<and> hd a = CHR ''-'' then
        (if a = ''--'' then Go st as
         else case uniq_optc (tl a) as st of
                Go st' as' \<Rightarrow> uniq_args as' st'
              | r \<Rightarrow> r)
      else if a \<noteq> [] \<and> hd a = CHR ''+'' then uniq_args as (st\<lparr>uletters := atoi (tl a)\<rparr>)
      else Go st (a # as))"
  by pat_completeness auto
termination
  by (relation "measure (\<lambda>(as, st). length as)") (auto dest: uniq_optc_len)

text \<open>
  \<open>main\<close>.  \<open>creat f\<close> says whether \<open>freopen(f, "w", stdout)\<close> succeeds; the output goes to that file,
  the first component of the result.
\<close>

definition uniq_main :: "nat \<Rightarrow> (string \<Rightarrow> int \<times> int) \<Rightarrow> (int \<Rightarrow> bool) \<Rightarrow> filesys \<Rightarrow> fdesc \<Rightarrow>
    (string \<Rightarrow> bool) \<Rightarrow> string \<Rightarrow> string list \<Rightarrow> (string option \<times> outcome) option" where
  "uniq_main mbm mb blank fs stdin creat progname args =
     (case uniq_args args uniq_init of
        Outside \<Rightarrow> None
      | Missing_arg c \<Rightarrow>
          Some (None, \<lparr>out = [], err = progname @ '': missing argument to -'' @ [c] @ '' option'' @ [NL], status = 2\<rparr>)
      | Go st opnds \<Rightarrow>
          (case (case opnds of [] \<Rightarrow> Some (ib_alloc mbm stdin 0) | f # _ \<Rightarrow> ib_open mbm fs f 0) of
             None \<Rightarrow> Some (None, \<lparr>out = [], err = ''cannot open '' @ hd opnds @ [NL], status = 1\<rparr>)
           | Some ip \<Rightarrow>
               (let output = \<lparr>out = uniq_run (uniq_equal mbm mb blank st) (umode st) ip, err = [], status = 0\<rparr>
                in case opnds of
                     _ # g # _ \<Rightarrow>
                       if creat g then Some (Some g, output)
                       else Some (None, \<lparr>out = [], err = ''cannot create '' @ g @ [NL], status = 1\<rparr>)
                   | _ \<Rightarrow> Some (None, output))))"

section \<open>Groups of lines\<close>

text \<open>Consecutive lines that equal the first of their group, with their number.\<close>

fun groups_from :: "('a \<Rightarrow> 'a \<Rightarrow> bool) \<Rightarrow> 'a \<Rightarrow> nat \<Rightarrow> 'a list \<Rightarrow> ('a \<times> nat) list" where
  "groups_from eq x n [] = [(x, n)]"
| "groups_from eq x n (y # ys) =
     (if eq x y then groups_from eq x (n + 1) ys else (x, n) # groups_from eq y 1 ys)"

definition groups :: "('a \<Rightarrow> 'a \<Rightarrow> bool) \<Rightarrow> 'a list \<Rightarrow> ('a \<times> nat) list" where
  "groups eq xs = (case xs of [] \<Rightarrow> [] | x # ys \<Rightarrow> groups_from eq x 1 ys)"

definition show_group :: "char \<Rightarrow> string \<times> nat \<Rightarrow> string" where
  "show_group mode g =
     (case g of (l, n) \<Rightarrow>
        if mode = CHR ''u'' \<and> n > 1 \<or> mode = CHR ''d'' \<and> n = 1 then []
        else (if mode = CHR ''c'' then padl 4 (CHR '' '') (decimal n) @ '' '' else []) @ l @ [NL])"

lemma pline_group: "pline mode (Suc n) n l = (show_group mode (l, Suc n), 0)"
  by (auto simp: pline_def show_group_def)

lemma uniq_cmp_iff: "uniq_cmp a b l \<longleftrightarrow> l = int (length a) \<and> (\<forall>i < length a. a ! i = (if i < length b then b ! i else NUL))"
proof (induction a b l rule: uniq_cmp.induct)
  case (2 c a b l)
  have "(\<forall>i < Suc (length a). (c # a) ! i = (if i < length b then b ! i else NUL)) \<longleftrightarrow>
      c = (case b of [] \<Rightarrow> NUL | d # _ \<Rightarrow> d) \<and> (\<forall>i < length a. a ! i = (if i < length (tl b) then tl b ! i else NUL))"
    by (cases b) (auto simp: All_less_Suc2)
  with 2 show ?case by auto
qed auto

lemma uniq_equal_iff:
  "uniq_equal mbm mb blank st a b \<longleftrightarrow> uniq_skip mbm mb blank st a = uniq_skip mbm mb blank st b"
  unfolding uniq_equal_def Let_def uniq_cmp_iff by (auto simp: list_eq_iff_nth_eq)

definition uniq_lines :: "iblok \<times> nat \<Rightarrow> string list" where
  "uniq_lines s = map chop (lines_of (ib_rest (fst s)))"

lemma uniq_rd_cases:
  assumes "ib_lgood (fst s)"
  obtains "uniq_rd s = None" "uniq_lines s = []"
  | l s' where "uniq_rd s = Some (l, s')" "uniq_lines s = l # uniq_lines s'" "ib_lgood (fst s')"
proof (cases "ib_line s")
  case None
  with ibl.get_None [OF assms] that(1) show ?thesis by (simp add: uniq_rd_def uniq_lines_def)
next
  case (Some r)
  obtain l s' where r: "r = (l, s')" by (cases r)
  from ibl.get_Some [OF assms Some [unfolded r]] Some r that(2) show ?thesis
    by (simp add: uniq_rd_def uniq_lines_def)
qed

lemma uniq_loops:
  assumes sym: "\<And>a b. eq a b = eq b a"
  shows "ib_lgood (fst s) \<Longrightarrow> u = n \<Longrightarrow>
      uniq_outer eq mode b s n u = concat (map (show_group mode) (groups_from eq b (Suc n) (uniq_lines s)))"
    and "ib_lgood (fst s) \<Longrightarrow> u = n \<Longrightarrow>
      uniq_inner eq mode b s n u = concat (map (show_group mode) (groups_from eq b (Suc n) (uniq_lines s)))"
  using sym
proof (induction eq mode b s n u and eq mode b s n u rule: uniq_outer_uniq_inner.induct)
  case (1 eq mode b s n u)
  note simps = uniq_outer.simps [of eq mode b s n n]
  from "1.prems"(1) show ?case
  proof (cases s rule: uniq_rd_cases)
    case 1
    with "1.prems"(2) show ?thesis by (simp add: simps pline_group)
  next
    case (2 l s')
    with "1.IH"(1) [OF 2(1) refl _ 2(3)] "1.IH"(2) [OF 2(1) refl _ 2(3)] "1.prems"(2,3) show ?thesis
      by (simp add: simps pline_group)
  qed
next
  case (2 eq mode b s n u)
  note simps = uniq_inner.simps [of eq mode b s n n]
  from "2.prems"(1) show ?case
  proof (cases s rule: uniq_rd_cases)
    case 1
    with "2.prems"(2) show ?thesis by (simp add: simps pline_group)
  next
    case r: (2 l s')
    with "2.IH"(1) [OF r(1) refl _ r(3)] "2.IH"(2) [OF r(1) refl _ r(3)] "2.prems"(2,3) show ?thesis
      by (simp add: simps pline_group)
  qed
qed

section \<open>Properties\<close>

lemma uniq_run_groups:
  assumes "fd_good fd" "\<And>a b. eq a b = eq b a"
  shows "uniq_run eq mode (ib_alloc mbm fd 0) =
    concat (map (show_group mode) (groups eq (map chop (lines_of (fd_rest fd)))))"
proof -
  have g: "ib_lgood (fst (ib_alloc mbm fd 0, 0 :: nat))" using assms(1) by simp
  have ls: "uniq_lines (ib_alloc mbm fd 0, 0) = map chop (lines_of (fd_rest fd))" by (simp add: uniq_lines_def)
  from g show ?thesis
  proof (cases "(ib_alloc mbm fd 0, 0 :: nat)" rule: uniq_rd_cases)
    case 1
    then show ?thesis unfolding uniq_run_def ls [symmetric] by (simp add: groups_def)
  next
    case (2 l s')
    then show ?thesis
      unfolding uniq_run_def ls [symmetric] using uniq_loops(1) [of eq, OF assms(2) 2(3) refl, where mode = mode and b = l]
      by (simp add: groups_def)
  qed
qed

subsection \<open>Fields and characters\<close>

text \<open>
  A line as its characters, each with its code and its bytes.  With characters of one byte these
  are the bytes themselves; otherwise \<open>next\<close> is applied again and again.
\<close>

function line_chars :: "nat \<Rightarrow> (string \<Rightarrow> int \<times> int) \<Rightarrow> string \<Rightarrow> (int \<times> string) list" where
  "line_chars mbm mb s =
     (if s = [] then []
      else case fetch mbm mb s of (wc, s') \<Rightarrow> (wc, take (length s - length s') s) # line_chars mbm mb s')"
  by pat_completeness auto
termination
  by (relation "measure (\<lambda>(mbm, mb, s). length s)") (auto dest: fetch_shorter simp: prod_eq_iff)

declare line_chars.simps [simp del]

definition bytes_of :: "(int \<times> string) list \<Rightarrow> string" where
  "bytes_of cs = concat (map snd cs)"

text \<open>
  What is left of a line behind its first \<open>n\<close> fields: a field ends at a character that is not blank
  and that is the last one or stands before a blank.
\<close>

definition field_end :: "('a \<Rightarrow> bool) \<Rightarrow> 'a list \<Rightarrow> nat \<Rightarrow> bool" where
  "field_end bl cs i \<longleftrightarrow> \<not> bl (cs ! i) \<and> (Suc i = length cs \<or> bl (cs ! Suc i))"

definition behind_fields :: "('a \<Rightarrow> bool) \<Rightarrow> nat \<Rightarrow> 'a list \<Rightarrow> 'a list" where
  "behind_fields bl n cs =
     (let ends = filter (field_end bl cs) [0..<length cs]
      in if n = 0 then cs else if n \<le> length ends then drop (Suc (ends ! (n - 1))) cs else [])"

definition compared :: "nat \<Rightarrow> (string \<Rightarrow> int \<times> int) \<Rightarrow> (int \<Rightarrow> bool) \<Rightarrow> nat \<Rightarrow> nat \<Rightarrow> string \<Rightarrow> string" where
  "compared mbm mb blank nf nl l = bytes_of (drop nl (behind_fields (\<lambda>c. blank (fst c)) nf (line_chars mbm mb l)))"

lemma fetch_split: "take (length s - length (snd (fetch mbm mb s))) s @ snd (fetch mbm mb s) = s"
proof -
  have "\<exists>k. snd (fetch mbm mb s) = drop k s"
    by (cases s) (auto simp: fetch_def drop_Suc [symmetric] split: prod.splits intro: exI [of _ "Suc 0"] exI [of _ 0])
  then obtain k where "snd (fetch mbm mb s) = drop k s" ..
  then show ?thesis by (cases "k \<le> length s") simp_all
qed

lemma line_chars_Nil [simp]: "line_chars mbm mb [] = []"
  by (simp add: line_chars.simps)

lemma bytes_of_simps [simp]: "bytes_of [] = []" "bytes_of (c # cs) = snd c @ bytes_of cs"
  by (simp_all add: bytes_of_def)

lemma line_chars_Cons:
  "s \<noteq> [] \<Longrightarrow> line_chars mbm mb s = (fst (fetch mbm mb s), take (length s - length (snd (fetch mbm mb s))) s) #
     line_chars mbm mb (snd (fetch mbm mb s))"
  by (simp add: line_chars.simps [of mbm mb s] split: prod.split)

lemma bytes_of_line [simp]: "bytes_of (line_chars mbm mb s) = s"
proof (induction mbm mb s rule: line_chars.induct)
  case (1 mbm mb s)
  then show ?case
    by (cases "s = []") (simp_all add: line_chars_Cons [of s] fetch_split prod_eq_iff)
qed

lemma line_chars_drop: "line_chars mbm mb (bytes_of (drop k (line_chars mbm mb s))) = drop k (line_chars mbm mb s)"
proof (induction mbm mb s arbitrary: k rule: line_chars.induct)
  case (1 mbm mb s)
  then show ?case
    by (cases "s = []"; cases k) (simp_all add: line_chars_Cons [of s] fetch_split prod_eq_iff)
qed

lemma skip_blanks_chars:
  "skip_blanks mbm mb P s = bytes_of (dropWhile (\<lambda>c. P (fst c)) (line_chars mbm mb s))"
proof (induction mbm mb P s rule: skip_blanks.induct)
  case (1 mbm mb P s)
  show ?case
  proof (cases "s = []")
    case False
    with 1 [OF False, of "fst (fetch mbm mb s)" "snd (fetch mbm mb s)"] show ?thesis
      using bytes_of_line [of mbm mb s]
      by (auto simp: skip_blanks.simps [of mbm mb P s] line_chars_Cons fetch_split split: prod.splits)
  qed (simp add: skip_blanks.simps)
qed

definition next_field :: "('a \<Rightarrow> bool) \<Rightarrow> 'a list \<Rightarrow> 'a list" where
  "next_field bl cs = dropWhile (\<lambda>c. \<not> bl c) (dropWhile bl cs)"

lemma next_field_drop: "\<exists>k. next_field bl cs = drop k cs"
  unfolding next_field_def dropWhile_eq_drop drop_drop by blast

lemma line_chars_single: "mbm \<le> 1 \<Longrightarrow> line_chars mbm mb s = map (\<lambda>c. (uchar c, [c])) s"
  by (induction s) (simp_all add: line_chars_Cons fetch_def)

lemma bytes_of_dropWhile_single:
  "bytes_of (dropWhile (\<lambda>c. P (fst c)) (map (\<lambda>c. (uchar c, [c])) s)) = dropWhile (\<lambda>c. P (uchar c)) s"
  by (induction s) (simp_all add: bytes_of_def comp_def)

lemma skip_field_chars:
  "skip_field mbm mb blank (bytes_of (drop k (line_chars mbm mb s))) =
     bytes_of (next_field (\<lambda>c. blank (fst c)) (drop k (line_chars mbm mb s)))"
proof (cases "mbm > 1")
  case True
  obtain j where "dropWhile (\<lambda>c. blank (fst c)) (drop k (line_chars mbm mb s)) = drop j (line_chars mbm mb s)"
    unfolding dropWhile_eq_drop drop_drop by blast
  with True show ?thesis
    by (simp add: skip_field_def skip_blanks_chars line_chars_drop next_field_def)
next
  case False
  then show ?thesis
    using bytes_of_dropWhile_single [of "\<lambda>c. \<not> blank c" "dropWhile (\<lambda>c. blank (uchar c)) (drop k s)"]
    by (simp add: skip_field_def next_field_def line_chars_single dropWhile_map comp_def drop_map
        bytes_of_def)
qed

lemma skip_letter_chars:
  "skip_letter mbm mb (bytes_of (drop k (line_chars mbm mb s))) = bytes_of (drop (Suc k) (line_chars mbm mb s))"
proof -
  let ?t = "bytes_of (drop k (line_chars mbm mb s))"
  have "bytes_of (drop (Suc k) (line_chars mbm mb s)) = bytes_of (tl (line_chars mbm mb ?t))"
    by (simp add: line_chars_drop drop_Suc tl_drop)
  also have "\<dots> = skip_letter mbm mb ?t"
    by (cases "?t = []") (simp_all add: skip_letter_def line_chars_Cons fetch_def)
  finally show ?thesis by simp
qed

text \<open>The ends of the fields, counted from behind the first field on.\<close>

lemma field_ends_step:
  assumes "cs = bs @ ws @ rs" "\<forall>c \<in> set bs. bl c" "\<forall>c \<in> set ws. \<not> bl c" "ws \<noteq> []" "rs = [] \<or> bl (hd rs)"
  shows "filter (field_end bl cs) [0..<length cs] =
    (length bs + length ws - 1) # map ((+) (length bs + length ws)) (filter (field_end bl rs) [0..<length rs])"
proof -
  let ?k = "length bs + length ws"
  have k: "0 < ?k" using assms(4) by simp
  have nth: "cs ! i = (if i < length bs then bs ! i else if i < ?k then ws ! (i - length bs) else rs ! (i - ?k))" for i
    using assms(1) by (auto simp: nth_append)
  have none: "\<not> field_end bl cs i" if "i < ?k - 1" for i
  proof (cases "i < length bs")
    case True
    with assms(2) show ?thesis by (simp add: field_end_def nth)
  next
    case False
    then have "\<not> bl (cs ! Suc i)" using that assms(3) by (simp add: nth)
    then show ?thesis using that assms(1) by (auto simp: field_end_def)
  qed
  have ends: "field_end bl cs (?k - 1)"
  proof -
    have "?k - 1 - length bs < length ws" "\<not> ?k - 1 < length bs" using assms(4) by (cases ws; simp)+
    then have "\<not> bl (cs ! (?k - 1))" using assms(3) k unfolding nth by simp
    moreover have "cs ! ?k = hd rs" if "rs \<noteq> []" using that nth [of ?k] by (simp add: hd_conv_nth)
    moreover have "Suc (?k - 1) = ?k" "rs = [] \<Longrightarrow> length cs = ?k" using k assms(1) by simp_all
    ultimately show ?thesis using assms(5) unfolding field_end_def by metis
  qed
  have rest: "field_end bl cs (?k + i) = field_end bl rs i" for i
  proof -
    have "cs ! (?k + i) = rs ! i" "cs ! Suc (?k + i) = rs ! Suc i" "length cs = ?k + length rs"
      by (simp_all add: nth) (simp add: assms(1))
    then show ?thesis by (simp add: field_end_def)
  qed
  have "[0..<length cs] = [0..<?k - 1] @ [?k - 1] @ [?k..<length cs]"
  proof -
    have "length cs = ?k + length rs" using assms(1) by simp
    with k have le: "?k - 1 < length cs" "Suc (?k - 1) = ?k" by linarith+
    then have "[0..<length cs] = [0..<?k - 1] @ [?k - 1..<length cs]"
      using upt_add_eq_append [of 0 "?k - 1" "length cs - (?k - 1)"] by simp
    with le upt_conv_Cons [OF le(1)] show ?thesis by simp
  qed
  moreover have "[?k..<length cs] = map ((+) ?k) [0..<length rs]"
    using assms(1) by (intro nth_equalityI) simp_all
  ultimately have "filter (field_end bl cs) [0..<length cs] =
      filter (field_end bl cs) [0..<?k - 1] @ filter (field_end bl cs) [?k - 1] @
      filter (field_end bl cs) (map ((+) ?k) [0..<length rs])" by simp
  also have "filter (field_end bl cs) [0..<?k - 1] = []" using none by (simp add: filter_empty_conv)
  finally show ?thesis using ends rest by (simp add: filter_map comp_def)
qed

lemma behind_fields_Nil [simp]: "behind_fields bl n [] = []"
  by (simp add: behind_fields_def)

lemma behind_fields_Suc: "behind_fields bl (Suc n) cs = behind_fields bl n (next_field bl cs)"
proof -
  define bs ts where "bs = takeWhile bl cs" and "ts = dropWhile bl cs"
  define ws rs where "ws = takeWhile (\<lambda>c. \<not> bl c) ts" and "rs = dropWhile (\<lambda>c. \<not> bl c) ts"
  have cs: "cs = bs @ ws @ rs" "next_field bl cs = rs"
    by (simp_all add: bs_def ws_def rs_def ts_def next_field_def)
  have bs: "\<forall>c \<in> set bs. bl c" "\<forall>c \<in> set ws. \<not> bl c" "rs = [] \<or> bl (hd rs)"
    using hd_dropWhile [of "\<lambda>c. \<not> bl c" ts] by (auto simp: bs_def ws_def rs_def dest: set_takeWhileD)
  show ?thesis
  proof (cases "ws = []")
    case True
    have "ts = []"
    proof (rule ccontr)
      assume ne: "ts \<noteq> []"
      then have "\<not> bl (hd ts)" unfolding ts_def by (rule hd_dropWhile)
      with ne True show False by (cases ts) (auto simp: ws_def)
    qed
    then have "rs = []" "\<forall>c \<in> set cs. bl c" using bs(1) cs by (auto simp: rs_def ws_def)
    then have "filter (field_end bl cs) [0..<length cs] = []" by (simp add: filter_empty_conv field_end_def)
    then show ?thesis using cs(2) \<open>rs = []\<close> by (simp add: behind_fields_def)
  next
    case False
    from field_ends_step [OF cs(1) bs(1,2) this bs(3)] cs False show ?thesis
      by (cases n) (auto simp: behind_fields_def Let_def Suc_le_eq)
  qed
qed

lemma next_fields: "(next_field bl ^^ n) cs = behind_fields bl n cs"
  by (induction n arbitrary: cs)
     (simp_all add: behind_fields_def [of bl 0] behind_fields_Suc funpow_Suc_right del: funpow.simps(2))

lemma uniq_skip_compared:
  "uniq_skip mbm mb blank st l = compared mbm mb blank (nat (ufields st)) (nat (uletters st)) l"
proof -
  let ?bl = "\<lambda>c. blank (fst c)" and ?cs = "line_chars mbm mb l"
  have f: "(skip_field mbm mb blank ^^ n) l = bytes_of ((next_field ?bl ^^ n) ?cs) \<and> (\<exists>k. (next_field ?bl ^^ n) ?cs = drop k ?cs)" for n
  proof (induction n)
    case 0
    have "?cs = drop 0 ?cs" by simp
    then show ?case by (simp del: drop_0) (metis drop_0)
  next
    case (Suc n)
    then obtain k where k: "(next_field ?bl ^^ n) ?cs = drop k ?cs" by blast
    obtain j where "next_field ?bl (drop k ?cs) = drop j (drop k ?cs)" using next_field_drop by blast
    with Suc k show ?case by (auto simp: skip_field_chars)
  qed
  have s: "(skip_letter mbm mb ^^ n) (bytes_of (drop k ?cs)) = bytes_of (drop n (drop k ?cs))" for n k
    by (induction n) (simp_all add: skip_letter_chars)
  from f [of "nat (ufields st)"] obtain k where k: "(next_field ?bl ^^ nat (ufields st)) ?cs = drop k ?cs" by blast
  with f [of "nat (ufields st)"] s [of "nat (uletters st)" k] show ?thesis
    unfolding uniq_skip_def compared_def next_fields [symmetric] by simp
qed

subsection \<open>The command line\<close>

text \<open>
  The options of the manual page, with the two spellings \<open>-f n\<close> and \<open>-n\<close> for the fields to skip
  and \<open>-s n\<close> and \<open>+n\<close> for the characters.
\<close>

datatype uniqopt = Count | Repeated | Unrepeated | Fields bool nat | Letters bool nat

fun uopt_args :: "uniqopt \<Rightarrow> string list" where
  "uopt_args Count = [''-c'']"
| "uopt_args Repeated = [''-d'']"
| "uopt_args Unrepeated = [''-u'']"
| "uopt_args (Fields old n) = (if old then [CHR ''-'' # decimal n] else [''-f'', decimal n])"
| "uopt_args (Letters old n) = (if old then [CHR ''+'' # decimal n] else [''-s'', decimal n])"

text \<open>The last option of a kind counts.\<close>

definition skip_of :: "(uniqopt \<Rightarrow> nat option) \<Rightarrow> uniqopt list \<Rightarrow> nat" where
  "skip_of sel us = foldl (\<lambda>k u. case sel u of None \<Rightarrow> k | Some n \<Rightarrow> n) 0 us"

fun sel_fields :: "uniqopt \<Rightarrow> nat option" where
  "sel_fields (Fields _ n) = Some n"
| "sel_fields _ = None"

fun sel_letters :: "uniqopt \<Rightarrow> nat option" where
  "sel_letters (Letters _ n) = Some n"
| "sel_letters _ = None"

definition modes_of :: "uniqopt list \<Rightarrow> uniqopt list" where
  "modes_of us = filter (\<lambda>u. u \<in> {Count, Repeated, Unrepeated}) us"

text \<open>What the manual page says of a group of \<open>n\<close> lines of which the first is \<open>l\<close>.\<close>

definition uniq_shows :: "uniqopt list \<Rightarrow> string \<times> nat \<Rightarrow> string" where
  "uniq_shows us g =
     (case g of (l, n) \<Rightarrow>
        if Unrepeated \<in> set us \<and> n \<noteq> 1 \<or> Repeated \<in> set us \<and> n = 1 then []
        else (if Count \<in> set us then padl 4 (CHR '' '') (decimal n) @ '' '' else []) @ l @ [NL])"

fun uopt_set :: "uniqst \<Rightarrow> uniqopt \<Rightarrow> uniqst" where
  "uopt_set st Count = st\<lparr>umode := CHR ''c''\<rparr>"
| "uopt_set st Repeated = st\<lparr>umode := CHR ''d''\<rparr>"
| "uopt_set st Unrepeated = st\<lparr>umode := CHR ''u''\<rparr>"
| "uopt_set st (Fields _ n) = st\<lparr>ufields := int n\<rparr>"
| "uopt_set st (Letters _ n) = st\<lparr>uletters := int n\<rparr>"

lemma digits_decimal [simp]: "takeWhile is_digit (decimal n) = decimal n"
  by (simp add: takeWhile_eq_all_conv decimal_digits)

lemma decimal_Cons: obtains c cs where "decimal n = c # cs" "is_digit c"
  using decimal_digits [of _ n] by (cases "decimal n") auto

lemma digit_not: "is_digit c \<Longrightarrow> \<not> (c = CHR '' '' \<or> 9 \<le> uchar c \<and> uchar c \<le> 13) \<and> c \<noteq> CHR ''-'' \<and> c \<noteq> CHR ''+''"
  by (auto simp: is_digit_def uchar_def)

lemma atoi_decimal [simp]: "atoi (decimal n) = int n"
proof -
  obtain c cs where d: "decimal n = c # cs" "is_digit c" by (rule decimal_Cons)
  have "takeWhile is_digit (c # cs) = decimal n" using digits_decimal [of n] d(1) by simp
  moreover have "dropWhile (\<lambda>c. c = CHR '' '' \<or> 9 \<le> uchar c \<and> uchar c \<le> 13) (c # cs) = c # cs" "c \<noteq> CHR ''-''" "c \<noteq> CHR ''+''"
    using digit_not [OF d(2)] by auto
  ultimately have "atoi (c # cs) = int (undecimal (decimal n))" unfolding atoi_def Let_def by (simp del: takeWhile.simps)
  then show ?thesis by (simp flip: d(1))
qed

lemma option_letters: "\<not> is_digit (CHR ''c'')" "\<not> is_digit (CHR ''d'')" "\<not> is_digit (CHR ''u'')"
  "\<not> is_digit (CHR ''f'')" "\<not> is_digit (CHR ''s'')"
  by (simp_all add: is_digit_def uchar_def)

lemma uniq_args_opt: "uniq_args (uopt_args u @ as) st = uniq_args as (uopt_set st u)"
proof (cases u)
  case (Fields old n)
  obtain c cs where d: "decimal n = c # cs" "is_digit c" by (rule decimal_Cons)
  have "uniq_optc (decimal n) as st = Go (st\<lparr>ufields := int n\<rparr>) as"
    using d atoi_decimal [of n] by simp
  moreover have "CHR ''-'' # decimal n \<noteq> ''--''" using d digit_not [of c] by auto
  ultimately show ?thesis using Fields by (cases old) (simp_all add: option_letters)
next
  case (Letters old n)
  then show ?thesis by (cases old) (simp_all add: option_letters)
qed (simp_all add: option_letters)

lemma uniq_args_render:
  assumes "f = [] \<or> hd f \<notin> {CHR ''-'', CHR ''+''}"
  shows "uniq_args (concat (map uopt_args us) @ [f]) st = Go (foldl uopt_set st us) [f]"
proof (induction us arbitrary: st)
  case (Cons u us)
  then show ?case by (simp add: uniq_args_opt)
qed (use assms in auto)

lemma foldl_uopt_skips:
  "ufields (foldl uopt_set st us) = foldl (\<lambda>k u. case sel_fields u of None \<Rightarrow> k | Some n \<Rightarrow> int n) (ufields st) us"
  "uletters (foldl uopt_set st us) = foldl (\<lambda>k u. case sel_letters u of None \<Rightarrow> k | Some n \<Rightarrow> int n) (uletters st) us"
proof (induction us arbitrary: st)
  case (Cons u us)
  {
    case 1
    then show ?case using Cons.IH(1) [of "uopt_set st u"] by (cases u) simp_all
  next
    case 2
    then show ?case using Cons.IH(2) [of "uopt_set st u"] by (cases u) simp_all
  }
qed simp_all

lemma foldl_int_skips:
  "foldl (\<lambda>k u. case sel u of None \<Rightarrow> k | Some n \<Rightarrow> int n) (int k) us =
     int (foldl (\<lambda>k u. case sel u of None \<Rightarrow> k | Some n \<Rightarrow> n) k us)"
  by (induction us arbitrary: k) (simp_all split: option.split)

lemma uopt_keep: "umode s = umode t \<Longrightarrow> umode (foldl uopt_set s ms) = umode (foldl uopt_set t ms)"
proof (induction ms arbitrary: s t)
  case (Cons m ms)
  have "umode (uopt_set s m) = umode (uopt_set t m)" using Cons.prems by (cases m) simp_all
  from Cons.IH [OF this] show ?case by simp
qed simp

lemma foldl_umode: "umode (foldl uopt_set st us) = umode (foldl uopt_set st (modes_of us))"
proof (induction us arbitrary: st)
  case (Cons u us)
  show ?case
  proof (cases "u \<in> {Count, Repeated, Unrepeated}")
    case True
    then have "modes_of (u # us) = u # modes_of us" by (auto simp: modes_of_def)
    then show ?thesis unfolding foldl.simps using Cons.IH [of "uopt_set st u"] by simp
  next
    case False
    then have "modes_of (u # us) = modes_of us" "umode (uopt_set st u) = umode st"
      by (cases u; simp add: modes_of_def)+
    then show ?thesis
      using Cons.IH [of "uopt_set st u"] uopt_keep [of "uopt_set st u" st "modes_of us"] by simp
  qed
qed (simp add: modes_of_def)

lemma uniq_group_shown:
  assumes "length (modes_of us) \<le> 1" "n \<noteq> 0"
  shows "show_group (umode (foldl uopt_set uniq_init us)) (l, n) = uniq_shows us (l, n)"
proof -
  consider "modes_of us = []" | m where "modes_of us = [m]"
    using assms(1) by (cases "modes_of us" rule: list.exhaust [case_product list.exhaust]) auto
  then show ?thesis
  proof cases
    case 1
    then have "Count \<notin> set us" "Repeated \<notin> set us" "Unrepeated \<notin> set us"
      by (auto simp: modes_of_def filter_empty_conv)
    with 1 show ?thesis by (simp add: foldl_umode [of _ us] show_group_def uniq_shows_def uniq_init_def)
  next
    case (2 m)
    have in_modes: "x \<in> set us \<longleftrightarrow> x = m" if "x \<in> {Count, Repeated, Unrepeated}" for x
      using that arg_cong [OF 2, of set] by (auto simp: modes_of_def)
    have "m \<in> {Count, Repeated, Unrepeated}" using arg_cong [OF 2, of set] by (auto simp: modes_of_def)
    with 2 in_modes [of Count] in_modes [of Repeated] in_modes [of Unrepeated] assms(2) show ?thesis
      by (auto simp: foldl_umode [of _ us] show_group_def uniq_shows_def uniq_init_def)
  qed
qed

lemma groups_from_pos: "n \<noteq> 0 \<Longrightarrow> g \<in> set (groups_from eq x n xs) \<Longrightarrow> snd g \<noteq> 0"
  by (induction xs arbitrary: x n) (auto split: if_splits)

lemma groups_pos: "g \<in> set (groups eq xs) \<Longrightarrow> snd g \<noteq> 0"
  by (auto simp: groups_def dest: groups_from_pos [rotated] split: list.splits)

fun uopt_fits :: "uniqopt \<Rightarrow> bool" where
  "uopt_fits (Fields _ n) = (n < 2 ^ 31)"
| "uopt_fits (Letters _ n) = (n < 2 ^ 31)"
| "uopt_fits _ = True"

text \<open>
  (C16) The program.  Give \<open>uniq\<close> at most one of the options \<open>-c\<close>, \<open>-d\<close> and \<open>-u\<close>, any number of
  options for the fields and characters to skip, of which the last ones count, and a readable
  input file whose name does not begin with \<open>-\<close> or \<open>+\<close>.  It then prints one line for every maximal group of
  consecutive lines that agree behind the skipped fields and characters: the first of the group,
  with its count under \<open>-c\<close>, only if it is repeated under \<open>-d\<close>, only if it is not under \<open>-u\<close>.
  Fields are counted by their ends in the characters of the line, which may have several bytes.
\<close>

theorem uniq_output:
  assumes "length (modes_of us) \<le> 1" "\<forall>u \<in> set us. uopt_fits u"
    and "f = [] \<or> hd f \<notin> {CHR ''-'', CHR ''+''}" "fs f = Some fd" "fd_good fd"
  shows "uniq_main mbm mb blank fs stdin creat progname (concat (map uopt_args us) @ [f]) =
    Some (None, \<lparr>out = concat (map (uniq_shows us)
        (groups (\<lambda>a b. compared mbm mb blank (skip_of sel_fields us) (skip_of sel_letters us) a =
                       compared mbm mb blank (skip_of sel_fields us) (skip_of sel_letters us) b)
          (map chop (lines_of (fd_rest fd))))),
      err = [], status = 0\<rparr>)"
proof -
  let ?st = "foldl uopt_set uniq_init us"
  let ?eq = "\<lambda>a b. compared mbm mb blank (skip_of sel_fields us) (skip_of sel_letters us) a =
                   compared mbm mb blank (skip_of sel_fields us) (skip_of sel_letters us) b"
  let ?gs = "groups ?eq (map chop (lines_of (fd_rest fd)))"
  have n: "nat (ufields ?st) = skip_of sel_fields us" "nat (uletters ?st) = skip_of sel_letters us"
    using foldl_int_skips [of sel_fields 0 us] foldl_int_skips [of sel_letters 0 us]
    by (simp_all add: foldl_uopt_skips uniq_init_def skip_of_def)
  have e: "uniq_equal mbm mb blank ?st = ?eq"
    by (intro ext) (simp add: uniq_equal_iff uniq_skip_compared n)
  have r: "uniq_run ?eq (umode ?st) (ib_alloc mbm fd 0) = concat (map (show_group (umode ?st)) ?gs)"
    by (rule uniq_run_groups [OF assms(5)]) auto
  have "map (show_group (umode ?st)) ?gs = map (uniq_shows us) ?gs"
  proof (rule map_cong [OF refl])
    fix g assume "g \<in> set ?gs"
    then have "snd g \<noteq> 0" by (rule groups_pos)
    then show "show_group (umode ?st) g = uniq_shows us g"
      using uniq_group_shown [OF assms(1), of "snd g" "fst g"] by simp
  qed
  with r show ?thesis using assms(4) e by (simp add: uniq_main_def uniq_args_render [OF assms(3)] ib_open_def)
qed

theorem uniq_output_witness:
  "uniq_main 1 (\<lambda>_. (-1, 0)) (\<lambda>c. c = 32) (\<lambda>_. Some (mk_fd (''a x'' @ [NL] @ ''b x'' @ [NL] @ ''c''))) (mk_fd []) (\<lambda>_. True)
     ''uniq'' [''-c'', ''-f'', ''1'', ''f''] =
    Some (None, \<lparr>out = ''   2 a x'' @ [NL] @ ''   1 c'' @ [NL], err = [], status = 0\<rparr>)"
proof -
  let ?us = "[Count, Fields False 1]" and ?fd = "mk_fd (''a x'' @ [NL] @ ''b x'' @ [NL] @ ''c'')"
  let ?k = "compared 1 (\<lambda>_. (-1, 0)) (\<lambda>c. c = 32) 1 0"
  have d: "decimal 1 = ''1''" "decimal 2 = ''2''" by (simp_all add: decimal.simps)
  have k: "?k ''a x'' = '' x''" "?k ''b x'' = '' x''" "?k ''c'' = []"
    by (simp_all add: compared_def line_chars_single behind_fields_def field_end_def uchar_def upt_rec bytes_of_def)
  have g: "fd_good ?fd" by simp
  have l: "map chop (lines_of (fd_rest ?fd)) = [''a x'', ''b x'', ''c'']" by (simp add: chop_def)
  have gr: "groups (\<lambda>a b. ?k a = ?k b) [''a x'', ''b x'', ''c''] = [(''a x'', 2), (''c'', 1)]"
    using k by (simp add: groups_def)
  have sh: "concat (map (uniq_shows ?us) [(''a x'', 2), (''c'', 1)]) = ''   2 a x'' @ [NL] @ ''   1 c'' @ [NL]"
  proof -
    have "padl 4 (CHR '' '') ''1'' = ''   1''" "padl 4 (CHR '' '') ''2'' = ''   2''"
      by (simp_all add: padl_def numeral_eq_Suc)
    with d show ?thesis by (simp add: uniq_shows_def)
  qed
  have m: "length (modes_of ?us) \<le> 1" "skip_of sel_fields ?us = 1" "skip_of sel_letters ?us = 0"
    by (simp_all add: modes_of_def skip_of_def)
  show ?thesis
    using uniq_output [OF m(1) _ _ _ g, of "''f''" "\<lambda>_. Some ?fd" 1 "\<lambda>_. (-1, 0)" "\<lambda>c. c = 32" "mk_fd []" "\<lambda>_. True" "''uniq''"] d
    unfolding l m gr sh by simp
qed

text \<open>
  With more than one of \<open>-c\<close>, \<open>-d\<close> and \<open>-u\<close> the last one counts.  The manual page says that
  \<open>-c\<close> supersedes the others, but \<open>-c -d\<close> prints no counts and leaves out the unrepeated lines.
\<close>

lemma uniq_mode_last:
  "uniq_main 1 mb blank (\<lambda>_. Some (mk_fd (''a'' @ [NL] @ ''a'' @ [NL] @ ''b'' @ [NL]))) stdin creat progname [''-c'', ''-d'', ''f''] =
     Some (None, \<lparr>out = ''a'' @ [NL], err = [], status = 0\<rparr>)"
proof -
  let ?fd = "mk_fd (''a'' @ [NL] @ ''a'' @ [NL] @ ''b'' @ [NL])" and ?st = "uniq_init\<lparr>umode := CHR ''d''\<rparr>"
  have e: "uniq_equal 1 mb blank ?st = (=)"
    by (intro ext) (simp add: uniq_equal_iff uniq_skip_def uniq_init_def)
  have "uniq_run (=) (CHR ''d'') (ib_alloc 1 ?fd 0) = ''a'' @ [NL]"
    by (subst uniq_run_groups) (auto simp: chop_def groups_def show_group_def)
  with e show ?thesis
    by (simp add: uniq_main_def option_letters uniq_init_def ib_open_def)
qed

lemma groups_from_expand:
  "(\<And>a b. eq a b \<Longrightarrow> a = b) \<Longrightarrow>
     concat (map (\<lambda>(l, n). replicate n l) (groups_from eq x n xs)) = replicate n x @ xs"
proof (induction xs arbitrary: x n)
  case (Cons y ys)
  have "eq x y \<Longrightarrow> y = x" using Cons.prems [of x y] by simp
  then show ?case
    using Cons.IH [OF Cons.prems, of x "n + 1"] Cons.IH [OF Cons.prems, of y 1]
    by (auto simp: replicate_append_same)
qed simp

lemma groups_from_apart:
  "successively (\<lambda>g h. \<not> eq (fst g) (fst h)) (groups_from eq x n xs) \<and> fst (hd (groups_from eq x n xs)) = x \<and>
     groups_from eq x n xs \<noteq> []"
  by (induction xs arbitrary: x n) (auto simp: successively_Cons)

text \<open>
  What is printed stands for the input.  Without \<open>-f\<close> and \<open>-s\<close> the lines of the input are those
  of the groups repeated as often as their counts say, and no two neighbouring groups have the
  same line, so that a second run changes nothing.
\<close>

lemma uniq_groups_exact:
  "concat (map (\<lambda>(l, n). replicate n l) (groups (uniq_equal mbm mb blank uniq_init) ls)) = ls \<and>
   successively (\<lambda>g h. fst g \<noteq> fst h) (groups (uniq_equal mbm mb blank uniq_init) ls)"
proof -
  have e: "uniq_equal mbm mb blank uniq_init = (=)"
    by (intro ext) (simp add: uniq_equal_iff uniq_skip_def uniq_init_def)
  show ?thesis
  proof (cases ls)
    case (Cons x xs)
    then have "groups (=) ls = groups_from (=) x 1 xs" by (simp add: groups_def)
    then show ?thesis
      using groups_from_expand [of "(=)" x 1 xs] groups_from_apart [of "(=)" x 1 xs] Cons unfolding e by simp
  qed (simp add: groups_def)
qed

end
