(* ===== verification/Banner.thy ===== *)
theory Banner
  imports Prelude
begin

text \<open>
  \<open>banner/banner.c\<close>: letters made of number signs.  The table \<open>ctbl\<close> has seven rows of eight dots for
  each of the 256 characters (in two halves here); the buffer is seven rows of 85 characters.
  The pointer \<open>r\<close> into the buffer is the column of the next letter.
\<close>

unbundle bit_operations_syntax

section \<open>The program\<close>

definition ctbl_lo :: "nat list list" where
  "ctbl_lo = [
    [0, 0, 0, 0, 0, 0, 0], [0, 0, 0, 0, 0, 0, 0], [0, 0, 0, 0, 0, 0, 0], [0, 0, 0, 0, 0, 0, 0],
    [0, 0, 0, 0, 0, 0, 0], [0, 0, 0, 0, 0, 0, 0], [0, 0, 0, 0, 0, 0, 0], [0, 0, 0, 0, 0, 0, 0],
    [0, 0, 0, 0, 0, 0, 0], [0, 0, 0, 0, 0, 0, 0], [0, 0, 0, 0, 0, 0, 0], [0, 0, 0, 0, 0, 0, 0],
    [0, 0, 0, 0, 0, 0, 0], [0, 0, 0, 0, 0, 0, 0], [0, 0, 0, 0, 0, 0, 0], [0, 0, 0, 0, 0, 0, 0],
    [0, 0, 0, 0, 0, 0, 0], [0, 0, 0, 0, 0, 0, 0], [0, 0, 0, 0, 0, 0, 0], [0, 0, 0, 0, 0, 0, 0],
    [0, 0, 0, 0, 0, 0, 0], [0, 0, 0, 0, 0, 0, 0], [0, 0, 0, 0, 0, 0, 0], [0, 0, 0, 0, 0, 0, 0],
    [0, 0, 0, 0, 0, 0, 0], [0, 0, 0, 0, 0, 0, 0], [0, 0, 0, 0, 0, 0, 0], [0, 0, 0, 0, 0, 0, 0],
    [0, 0, 0, 0, 0, 0, 0], [0, 0, 0, 0, 0, 0, 0], [0, 0, 0, 0, 0, 0, 0], [0, 0, 0, 0, 0, 0, 0],
    [0, 0, 0, 0, 0, 0, 0], [28, 28, 28, 8, 0, 28, 28], [119, 119, 34, 0, 0, 0, 0], [20, 20, 127, 20, 127, 20, 20],
    [62, 73, 9, 62, 72, 73, 62], [71, 37, 23, 8, 116, 82, 113], [12, 18, 12, 14, 81, 33, 78], [28, 28, 8, 4, 0, 0, 0],
    [24, 4, 2, 2, 2, 4, 24], [12, 16, 32, 32, 32, 16, 12], [0, 34, 20, 127, 20, 34, 0], [0, 8, 8, 62, 8, 8, 0],
    [0, 0, 0, 28, 28, 8, 4], [0, 0, 0, 62, 0, 0, 0], [0, 0, 0, 0, 28, 28, 28], [64, 32, 16, 8, 4, 2, 1],
    [28, 34, 65, 65, 65, 34, 28], [8, 12, 10, 8, 8, 8, 62], [62, 65, 64, 62, 1, 1, 127], [62, 65, 64, 62, 64, 65, 62],
    [1, 33, 33, 33, 127, 32, 32], [127, 1, 1, 63, 64, 65, 62], [62, 65, 1, 63, 65, 65, 62], [127, 33, 16, 8, 4, 4, 4],
    [62, 65, 65, 62, 65, 65, 62], [62, 65, 65, 126, 64, 65, 62], [8, 28, 8, 0, 8, 28, 8], [28, 28, 0, 28, 28, 8, 4],
    [16, 8, 4, 2, 4, 8, 16], [0, 0, 62, 0, 62, 0, 0], [4, 8, 16, 32, 16, 8, 4], [62, 65, 64, 56, 8, 0, 8],
    [62, 65, 93, 93, 61, 1, 62], [8, 20, 34, 65, 127, 65, 65], [63, 65, 65, 63, 65, 65, 63], [62, 65, 1, 1, 1, 65, 62],
    [63, 65, 65, 65, 65, 65, 63], [127, 1, 1, 31, 1, 1, 127], [127, 1, 1, 31, 1, 1, 1], [62, 65, 1, 121, 65, 65, 62],
    [65, 65, 65, 127, 65, 65, 65], [28, 8, 8, 8, 8, 8, 28], [64, 64, 64, 64, 65, 65, 62], [33, 17, 9, 7, 9, 17, 33],
    [1, 1, 1, 1, 1, 1, 127], [65, 99, 85, 73, 65, 65, 65], [65, 67, 69, 73, 81, 97, 65], [127, 65, 65, 65, 65, 65, 127],
    [63, 65, 65, 63, 1, 1, 1], [62, 65, 65, 65, 81, 33, 94], [63, 65, 65, 63, 17, 33, 65], [62, 65, 1, 62, 64, 65, 62],
    [127, 8, 8, 8, 8, 8, 8], [65, 65, 65, 65, 65, 65, 62], [65, 65, 65, 65, 34, 20, 8], [65, 73, 73, 73, 73, 73, 54],
    [65, 34, 20, 8, 20, 34, 65], [65, 34, 20, 8, 8, 8, 8], [127, 32, 16, 8, 4, 2, 127], [62, 2, 2, 2, 2, 2, 62],
    [1, 2, 4, 8, 16, 32, 64], [62, 32, 32, 32, 32, 32, 62], [8, 20, 34, 0, 0, 0, 0], [0, 0, 0, 0, 0, 0, 127],
    [28, 28, 8, 16, 0, 0, 0], [0, 24, 36, 66, 126, 66, 66], [0, 62, 66, 62, 66, 66, 62], [0, 60, 66, 2, 2, 66, 60],
    [0, 62, 66, 66, 66, 66, 62], [0, 126, 2, 62, 2, 2, 126], [0, 126, 2, 62, 2, 2, 2], [0, 60, 66, 2, 114, 66, 60],
    [0, 66, 66, 126, 66, 66, 66], [0, 16, 16, 16, 16, 16, 16], [0, 64, 64, 64, 64, 66, 60], [0, 66, 34, 30, 18, 34, 66],
    [0, 2, 2, 2, 2, 2, 126], [0, 66, 102, 90, 66, 66, 66], [0, 66, 70, 74, 82, 98, 66], [0, 60, 66, 66, 66, 66, 60],
    [0, 62, 66, 66, 62, 2, 2], [0, 60, 66, 66, 82, 34, 92], [0, 62, 66, 66, 62, 34, 66], [0, 60, 2, 60, 64, 66, 60],
    [0, 124, 16, 16, 16, 16, 16], [0, 66, 66, 66, 66, 66, 60], [0, 66, 66, 66, 66, 36, 24], [0, 66, 66, 66, 90, 102, 66],
    [0, 66, 36, 24, 24, 36, 66], [0, 68, 40, 16, 16, 16, 16], [0, 126, 32, 16, 8, 4, 126], [28, 2, 2, 3, 2, 2, 28],
    [8, 8, 8, 0, 8, 8, 8], [28, 32, 32, 96, 32, 32, 28], [6, 73, 48, 0, 0, 0, 0], [0, 0, 0, 0, 0, 0, 0]]"

definition ctbl_hi :: "nat list list" where
  "ctbl_hi = [
    [16, 0, 0, 0, 68, 0, 40], [0, 126, 0, 0, 0, 3, 32], [16, 8, 0, 0, 0, 0, 36], [0, 0, 0, 73, 0, 0, 0],
    [31, 12, 16, 8, 0, 0, 0], [0, 68, 0, 71, 127, 125, 0], [0, 0, 0, 96, 16, 8, 4], [0, 0, 0, 36, 0, 0, 0],
    [51, 0, 0, 0, 28, 76, 16], [8, 0, 0, 0, 0, 68, 0], [71, 127, 0, 125, 99, 27, 83], [67, 59, 87, 7, 0, 125, 83],
    [59, 19, 0, 125, 83, 59, 55], [75, 39, 123, 59, 0, 125, 83], [23, 83, 15, 23, 0, 67, 23], [83, 15, 75, 23, 0, 125, 83],
    [19, 67, 23, 67, 0, 83, 15], [75, 23, 0, 125, 27, 75, 35], [125, 55, 83, 39, 103, 75, 123], [59, 0, 125, 125, 51, 7, 103],
    [23, 67, 39, 23, 0, 125, 113], [25, 121, 33, 65, 25, 125, 121], [49, 49, 101, 81, 21, 125, 21], [65, 33, 25, 81, 125, 0, 7],
    [39, 75, 59, 23, 51, 0, 125], [17, 77, 57, 65, 89, 73, 97], [0, 122, 87, 103, 39, 122, 27], [75, 35, 122, 27, 75, 35, 99],
    [58, 103, 123, 58, 70, 0, 0], [0, 8, 76, 16, 8, 112, 64], [0, 0, 24, 76, 16, 8, 112], [80, 0, 0, 4, 76, 16, 8],
    [112, 72, 0, 0, 20, 76, 16], [8, 112, 112, 0, 0, 12, 76], [16, 8, 112, 104, 0, 0, 33], [0, 0, 0, 127, 86, 0, 76],
    [16, 8, 127, 82, 16, 76, 16], [8, 0, 0, 0, 0, 127, 82], [8, 76, 16, 8, 11, 0, 0], [0, 0, 75, 3, 127, 127, 127],
    [127, 82, 24, 76, 16, 8, 11], [8, 0, 0, 0, 75, 5, 127], [127, 127, 127, 82, 4, 76, 16], [8, 11, 4, 0, 0, 0, 75],
    [1, 127, 127, 127, 127, 82, 20], [76, 16, 8, 11, 12, 0, 0], [0, 75, 6, 127, 127, 127, 127], [82, 12, 76, 16, 8, 11, 2],
    [0, 0, 0, 75, 2, 127, 127], [127, 43, 0, 43, 0, 104, 27], [37, 14, 1, 32, 16, 8, 80], [1, 23, 88, 11, 1, 32, 16],
    [8, 11, 50, 127, 127, 127, 96], [17, 16, 14, 28, 76, 16, 8], [80, 1, 23, 80, 11, 84, 127], [127, 127, 11, 10, 80, 16, 8],
    [11, 104, 127, 127, 127, 104, 81], [8, 88, 21, 80, 4, 72, 84], [1, 12, 16, 8, 37, 88, 85], [24, 37, 5, 11, 121, 127, 127],
    [127, 11, 63, 127, 127, 127, 11], [76, 0, 0, 0, 96, 17, 24], [5, 11, 0, 127, 127, 127, 43], [0, 14, 64, 0, 0, 0, 44],
    [0, 0, 0, 0, 112, 0, 23], [97, 85, 104, 27, 117, 53, 101], [104, 87, 8, 104, 93, 24, 96], [63, 32, 95, 100, 11, 17, 12],
    [16, 8, 11, 83, 127, 127, 127], [77, 43, 64, 11, 89, 127, 127], [127, 77, 126, 64, 0, 0, 0], [107, 42, 4, 127, 86, 22, 84],
    [16, 8, 127, 22, 110, 11, 58], [0, 0, 0, 96, 17, 8, 127], [86, 22, 84, 16, 8, 11, 31], [0, 0, 0, 77, 11, 23, 12],
    [16, 8, 11, 90, 127, 127, 127], [77, 113, 110, 63, 31, 101, 43], [0, 11, 4, 127, 127, 127, 77], [109, 61, 125, 73, 97, 4, 4],
    [85, 104, 27, 96, 27, 8, 117], [53, 101, 104, 89, 24, 104, 87], [8, 72, 87, 31, 104, 79, 69], [120, 62, 80, 14, 12, 16, 8],
    [5, 11, 56, 0, 0, 0, 96], [17, 8, 107, 22, 4, 104, 49], [106, 81, 31, 94, 40, 0, 0], [0, 63, 24, 104, 49, 106, 81],
    [31, 109, 61, 125, 73, 97, 4], [4, 120, 62, 97, 107, 1, 112], [88, 4, 14, 84, 16, 8, 117], [37, 11, 84, 0, 0, 0, 96],
    [17, 8, 88, 113, 8, 104, 15], [40, 60, 49, 16, 109, 87, 49], [109, 61, 125, 73, 97, 4, 85], [104, 27, 117, 53, 101, 104, 93],
    [8, 102, 55, 107, 90, 4, 4], [4, 102, 127, 107, 2, 120, 62], [16, 102, 104, 121, 101, 3, 98], [80, 30, 12, 16, 8, 23, 120],
    [107, 49, 85, 96, 81, 24, 40], [84, 78, 12, 16, 8, 8, 20], [14, 113, 96, 127, 8, 31, 109], [49, 96, 63, 112, 31, 69, 102],
    [1, 109, 61, 125, 73, 97, 4], [4, 117, 53, 101, 104, 21, 18], [20, 40, 29, 18, 4, 102, 55], [107, 20, 4, 102, 127, 107, 72],
    [107, 49, 85, 96, 33, 8, 28], [14, 113, 96, 127, 21, 31, 39], [49, 96, 63, 112, 31, 11, 109], [61, 125, 97, 85, 104, 27, 117],
    [53, 101, 104, 93, 8, 102, 55], [107, 105, 4, 4, 4, 107, 49], [85, 49, 17, 96, 21, 0, 126], [101, 0, 0, 0, 107, 124, 4],
    [104, 97, 107, 53, 85, 96, 33], [40, 84, 14, 12, 16, 8, 14], [20, 14, 87, 4, 104, 97, 107], [53, 85, 96, 33, 49, 16, 14],
    [0, 121, 80, 127, 95, 61, 104], [97, 107, 53, 85, 96, 33, 5], [11, 15, 12, 16, 8, 11, 11], [95, 127, 127, 96, 17, 8, 49],
    [96, 63, 112, 31, 102, 109, 61], [125, 73, 97, 4, 4, 33, 0], [0, 0, 0, 0, 0, 0, 0], [0, 0, 0, 24, 76, 16, 8]]"

definition ctbl :: "nat list list" where
  "ctbl = ctbl_lo @ ctbl_hi"

abbreviation nlines :: nat where "nlines \<equiv> 7"
abbreviation pposs :: nat where "pposs \<equiv> 85"
abbreviation pospch :: nat where "pospch \<equiv> 8"
abbreviation chpln :: nat where "chpln \<equiv> 10"

type_synonym bann = "string list"

definition upd2 :: "bann \<Rightarrow> nat \<Rightarrow> nat \<Rightarrow> char \<Rightarrow> bann" where
  "upd2 b i j c = b[i := (b ! i)[j := c]]"

definition banset :: "char \<Rightarrow> bann \<Rightarrow> bann" where
  "banset c p = fold (\<lambda>i p. fold (\<lambda>j p. upd2 p i j c) [0..<pposs - 1] p) [0..<nlines] p"

text \<open>\<open>banfil\<close> at column \<open>r\<close> of the buffer.\<close>

definition banfil :: "nat list \<Rightarrow> nat \<Rightarrow> bann \<Rightarrow> bann" where
  "banfil q r p =
     fold (\<lambda>i p. fold (\<lambda>j p. if (q ! i) AND (push_bit j 1) \<noteq> 0 then upd2 p i (r + j) (CHR 0x23) else p)
       [0..<pospch] p) [0..<nlines] p"

text \<open>The loop over the string: \<open>k\<close> is \<open>s - p\<close> before the character is taken.\<close>

fun banner_loop :: "nat \<Rightarrow> nat \<Rightarrow> string \<Rightarrow> bann \<Rightarrow> bann" where
  "banner_loop k r [] b = b"
| "banner_loop k r (c # s) b =
     (if k + 1 > chpln then b
      else banner_loop (k + 1) (r + pospch) s (banfil (ctbl ! nat (uchar c)) r b))"

definition banner :: "string \<Rightarrow> bann \<Rightarrow> bann" where
  "banner s b = banner_loop 0 0 s (banset (CHR '' '') b)"

text \<open>
  \<open>banprt\<close>: the inner loop cuts the blanks at the end of a row; \<open>j\<close> is one more than in the source.
\<close>

fun bancut :: "nat \<Rightarrow> string \<Rightarrow> string" where
  "bancut 0 row = row"
| "bancut (Suc j) row = (if row ! j \<noteq> CHR '' '' then row else bancut j (row[j := NUL]))"

definition banprt :: "bann \<Rightarrow> string \<times> bann" where
  "banprt b =
     (let b' = map (\<lambda>i. bancut (pposs - 1) ((b ! i)[pposs - 1 := NUL])) [0..<nlines]
      in (concat (map (\<lambda>row. cstr row @ [NL]) b') @ [NL], b'))"

text \<open>One buffer serves all the arguments.\<close>

fun banner_args :: "string list \<Rightarrow> bann \<Rightarrow> string" where
  "banner_args [] b = []"
| "banner_args (s # ss) b = (case banprt (banner s b) of (txt, b') \<Rightarrow> txt @ banner_args ss b')"

definition banner_main :: "string \<Rightarrow> string list \<Rightarrow> outcome" where
  "banner_main prog args =
     (if args = []
      then \<lparr>out = ''Usage: '' @ prog @ '' '' @ [CHR 0x22] @ ''up to 10 char arg string'' @ [CHR 0x22] @ '' . . .'' @ [NL],
            err = [], status = 2\<rparr>
      else \<lparr>out = banner_args args (replicate nlines (replicate pposs NUL)),
            err = [], status = 0\<rparr>)"

section \<open>Rows of dots\<close>

definition dots :: "nat \<Rightarrow> string" where
  "dots q = map (\<lambda>j. if bit q j then CHR 0x23 else CHR '' '') [0..<pospch]"

definition banner_row :: "nat \<Rightarrow> string \<Rightarrow> string" where
  "banner_row i s = concat (map (\<lambda>c. dots (ctbl ! nat (uchar c) ! i)) (take chpln s))"

definition strip_blanks :: "string \<Rightarrow> string" where
  "strip_blanks s = rev (dropWhile (\<lambda>c. c = CHR '' '') (rev s))"

text \<open>The buffer as a function of row and column.\<close>

definition shaped :: "bann \<Rightarrow> bool" where
  "shaped b \<longleftrightarrow> length b = nlines \<and> (\<forall>row \<in> set b. length row = pposs)"

text \<open>Every loop nest over the buffer stores one character in the cells that a condition selects.\<close>

definition cols :: "(nat \<Rightarrow> bool) \<Rightarrow> char \<Rightarrow> nat \<Rightarrow> nat \<Rightarrow> nat \<Rightarrow> bann \<Rightarrow> bann" where
  "cols P c r n i b = fold (\<lambda>j b. if P j then upd2 b i (r + j) c else b) [0..<n] b"

definition cells :: "(nat \<Rightarrow> nat \<Rightarrow> bool) \<Rightarrow> char \<Rightarrow> nat \<Rightarrow> nat \<Rightarrow> nat \<Rightarrow> bann \<Rightarrow> bann" where
  "cells P c r n m b = fold (\<lambda>i b. cols (P i) c r n i b) [0..<m] b"

lemma shaped_row: "shaped b \<Longrightarrow> i < nlines \<Longrightarrow> length (b ! i) = pposs"
  by (simp add: shaped_def)

lemma upd2_shaped: "shaped b \<Longrightarrow> i < nlines \<Longrightarrow> shaped (upd2 b i j c)"
  using shaped_row [of b i] by (auto simp: shaped_def upd2_def dest!: in_set_conv_nth [THEN iffD1] split: if_splits)
     (auto simp: nth_list_update split: if_splits)

lemma upd2_cell:
  "shaped b \<Longrightarrow> i < nlines \<Longrightarrow> j < pposs \<Longrightarrow> i' < nlines \<Longrightarrow> j' < pposs \<Longrightarrow>
     upd2 b i j c ! i' ! j' = (if i' = i \<and> j' = j then c else b ! i' ! j')"
  using shaped_row [of b i] by (auto simp: upd2_def shaped_def nth_list_update)

lemma cols_cell:
  "shaped b \<Longrightarrow> i < nlines \<Longrightarrow> r + n \<le> pposs \<Longrightarrow> shaped (cols P c r n i b) \<and>
     (\<forall>i' < nlines. \<forall>j' < pposs. cols P c r n i b ! i' ! j' =
        (if i' = i \<and> r \<le> j' \<and> j' < r + n \<and> P (j' - r) then c else b ! i' ! j'))"
proof (induction n)
  case 0
  have "\<not> (r \<le> j \<and> j < r + 0)" for j by simp
  with 0 show ?case by (auto simp: cols_def)
next
  case (Suc n)
  let ?b = "cols P c r n i b"
  have IH: "shaped ?b" "\<And>i' j'. i' < nlines \<Longrightarrow> j' < pposs \<Longrightarrow> ?b ! i' ! j' =
        (if i' = i \<and> r \<le> j' \<and> j' < r + n \<and> P (j' - r) then c else b ! i' ! j')"
    using Suc by auto
  have e: "cols P c r (Suc n) i b = (if P n then upd2 ?b i (r + n) c else ?b)" by (simp add: cols_def)
  show ?case
    unfolding e using IH upd2_shaped [OF IH(1) Suc.prems(2)] upd2_cell [OF IH(1) Suc.prems(2), of "r + n"] Suc.prems
    by (auto simp: less_Suc_eq)
qed

lemma cells_cell:
  "shaped b \<Longrightarrow> m \<le> nlines \<Longrightarrow> r + n \<le> pposs \<Longrightarrow> shaped (cells P c r n m b) \<and>
     (\<forall>i' < nlines. \<forall>j' < pposs. cells P c r n m b ! i' ! j' =
        (if i' < m \<and> r \<le> j' \<and> j' < r + n \<and> P i' (j' - r) then c else b ! i' ! j'))"
proof (induction m)
  case 0
  then show ?case by (simp add: cells_def)
next
  case (Suc m)
  let ?b = "cells P c r n m b"
  have IH: "shaped ?b" "\<And>i' j'. i' < nlines \<Longrightarrow> j' < pposs \<Longrightarrow> ?b ! i' ! j' =
        (if i' < m \<and> r \<le> j' \<and> j' < r + n \<and> P i' (j' - r) then c else b ! i' ! j')"
    using Suc by auto
  have e: "cells P c r n (Suc m) b = cols (P m) c r n m ?b" by (simp add: cells_def)
  show ?case
    unfolding e using cols_cell [OF IH(1), of m r n "P m" c] IH(2) Suc.prems by (auto simp: less_Suc_eq)
qed

lemma banset_cells: "banset c b = cells (\<lambda>_ _. True) c 0 84 7 b"
  by (simp add: banset_def cells_def cols_def)

lemma banfil_cells: "banfil q r b = cells (\<lambda>i j. bit (q ! i) j) (CHR 0x23) r 8 7 b"
  unfolding banfil_def cells_def cols_def bit_iff_and_push_bit_not_eq_0 ..

lemma banner_loop_cells:
  "shaped b \<Longrightarrow> k \<le> 10 \<Longrightarrow> r = 8 * k \<Longrightarrow> i < nlines \<Longrightarrow> j < pposs \<Longrightarrow>
     banner_loop k r s b ! i ! j =
       (if r \<le> j \<and> (j - r) div 8 < min (10 - k) (length s) \<and> bit (ctbl ! nat (uchar (s ! ((j - r) div 8))) ! i) ((j - r) mod 8)
        then CHR 0x23 else b ! i ! j)"
proof (induction k r s b rule: banner_loop.induct)
  case (2 k r c s b)
  show ?case
  proof (cases "k + 1 > 10")
    case True
    then show ?thesis by simp
  next
    case False
    let ?b = "banfil (ctbl ! nat (uchar c)) r b"
    have r: "r + 8 \<le> pposs" using False "2.prems"(3) by simp
    note c = cells_cell [OF "2.prems"(1) order_refl r, of "\<lambda>i j. bit (ctbl ! nat (uchar c) ! i) j" "CHR 0x23"]
    have f: "shaped ?b" "?b ! i ! j = (if r \<le> j \<and> j < r + 8 \<and> bit (ctbl ! nat (uchar c) ! i) (j - r) then CHR 0x23 else b ! i ! j)"
      using c "2.prems"(4,5) unfolding banfil_cells by simp_all
    have IH: "banner_loop (k + 1) (r + 8) s ?b ! i ! j =
       (if r + 8 \<le> j \<and> (j - (r + 8)) div 8 < min (10 - (k + 1)) (length s) \<and>
           bit (ctbl ! nat (uchar (s ! ((j - (r + 8)) div 8))) ! i) ((j - (r + 8)) mod 8)
        then CHR 0x23 else ?b ! i ! j)"
      using "2.IH" [OF False f(1)] "2.prems" False by simp
    consider "j < r" | "r \<le> j" "j < r + 8" | "r + 8 \<le> j" by linarith
    then show ?thesis
    proof cases
      case 2
      then have "(j - r) div 8 = 0" "(j - r) mod 8 = j - r" by auto
      with 2 False IH f(2) show ?thesis by simp
    next
      case 3
      define d where "d = j - (r + 8)"
      have "j - r = d + 8" using 3 by (simp add: d_def)
      then have d: "(j - r) div 8 = Suc ((j - (r + 8)) div 8)" "(j - r) mod 8 = (j - (r + 8)) mod 8"
        unfolding d_def [symmetric] by simp_all
      from 3 False IH f(2) show ?thesis by (auto simp: d min_def)
    qed (use False IH f(2) in simp)
  qed
qed simp

lemma length_dots [simp]: "length (dots q) = 8"
  by (simp add: dots_def)

lemma concat_nth8:
  "(\<And>x. x \<in> set xs \<Longrightarrow> length (f x) = 8) \<Longrightarrow> m < 8 * length xs \<Longrightarrow>
     concat (map f xs) ! m = f (xs ! (m div 8)) ! (m mod 8)"
proof (induction xs arbitrary: m)
  case (Cons x xs)
  have l: "length (f x) = 8" using Cons.prems(1) by simp
  show ?case
  proof (cases "m < 8")
    case True
    with l show ?thesis by (simp add: nth_append)
  next
    case False
    define d where "d = m - 8"
    then have m: "m = d + 8" using False by simp
    then have "concat (map f xs) ! d = f (xs ! (d div 8)) ! (d mod 8)"
      using Cons.IH [of d] Cons.prems by simp
    moreover have "(d + 8) div 8 = Suc (d div 8)" "(d + 8) mod 8 = d mod 8" by simp_all
    ultimately show ?thesis unfolding m using l by (simp add: nth_append del: div_add_self2)
  qed
qed simp

lemma concat_length8: "(\<And>x. x \<in> set xs \<Longrightarrow> length (f x) = 8) \<Longrightarrow> length (concat (map f xs)) = 8 * length xs"
  by (induction xs) auto

lemma length_banner_row: "length (banner_row i s) = 8 * min 10 (length s)"
  unfolding banner_row_def by (subst concat_length8) auto

lemma banner_rows:
  assumes "shaped b" "i < nlines"
  shows "take 84 (banner s b ! i) = banner_row i s @ replicate (84 - length (banner_row i s)) (CHR '' '')"
    and "shaped (banner s b)"
proof -
  have c: "shaped (banset (CHR '' '') b)" "\<And>i j. i < nlines \<Longrightarrow> j < 84 \<Longrightarrow> banset (CHR '' '') b ! i ! j = CHR '' ''"
    using cells_cell [OF assms(1), of 7 0 84 "\<lambda>_ _. True" "CHR '' ''"] unfolding banset_cells by auto
  have sh: "shaped (banner_loop k r s b)" if "shaped b" "r = 8 * k" for k r s b
    using that
  proof (induction k r s b rule: banner_loop.induct)
    case (2 k r c s b)
    have "shaped (banfil (ctbl ! nat (uchar c)) r b)" if "\<not> k + 1 > 10"
    proof -
      have "r + 8 \<le> pposs" using that 2(3) by simp
      with cells_cell [OF 2(2), of 7 r 8] show ?thesis unfolding banfil_cells by blast
    qed
    with 2 show ?case by simp
  qed simp
  show s: "shaped (banner s b)" unfolding banner_def by (rule sh [OF c(1)]) simp
  let ?n = "length (banner_row i s)"
  have n: "?n = 8 * min 10 (length s)" by (rule length_banner_row)
  show "take 84 (banner s b ! i) = banner_row i s @ replicate (84 - ?n) (CHR '' '')"
  proof (rule nth_equalityI)
    show "length (take 84 (banner s b ! i)) = length (banner_row i s @ replicate (84 - ?n) (CHR '' ''))"
      using shaped_row [OF s assms(2)] n by simp
  next
    fix j assume "j < length (take 84 (banner s b ! i))"
    then have j: "j < 84" by simp
    have l: "banner s b ! i ! j =
       (if j div 8 < min 10 (length s) \<and> bit (ctbl ! nat (uchar (s ! (j div 8))) ! i) (j mod 8) then CHR 0x23 else CHR '' '')"
      using banner_loop_cells [OF c(1), of 0 0 i j s] c(2) [OF assms(2) j] assms(2) j by (simp add: banner_def)
    show "take 84 (banner s b ! i) ! j = (banner_row i s @ replicate (84 - ?n) (CHR '' '')) ! j"
    proof (cases "j < ?n")
      case True
      then have d: "j div 8 < min 10 (length s)" using n by auto
      have "banner_row i s ! j = dots (ctbl ! nat (uchar (take 10 s ! (j div 8))) ! i) ! (j mod 8)"
        unfolding banner_row_def by (rule concat_nth8) (use True n in \<open>auto simp: mult.commute\<close>)
      with True j l d show ?thesis by (simp add: nth_append dots_def)
    next
      case False
      then have d: "\<not> j div 8 < min 10 (length s)" using n by auto
      from j False l show ?thesis by (simp only: nth_append nth_take d if_False simp_thms nth_replicate)
    qed
  qed
qed

lemma strip_snoc: "strip_blanks (xs @ [c]) = (if c = CHR '' '' then strip_blanks xs else xs @ [c])"
  by (simp add: strip_blanks_def)

lemma strip_app_blanks: "strip_blanks (xs @ replicate n (CHR '' '')) = strip_blanks xs"
proof (induction n)
  case (Suc n)
  have "xs @ replicate (Suc n) (CHR '' '') = (xs @ replicate n (CHR '' '')) @ [CHR '' '']"
    by (simp add: replicate_append_same)
  with Suc show ?case by (simp only: strip_snoc if_True refl simp_thms)
qed simp

lemma bancut_strip:
  "n < length row \<Longrightarrow> row ! n = NUL \<Longrightarrow> NUL \<notin> set (take n row) \<Longrightarrow>
     cstr (bancut n row) = strip_blanks (take n row)"
proof (induction n row rule: bancut.induct)
  case (1 row)
  then show ?case by (cases row) (auto simp: strip_blanks_def)
next
  case (2 n row)
  have t: "take (Suc n) row = take n row @ [row ! n]" using "2.prems"(1) by (simp add: take_Suc_conv_app_nth)
  show ?case
  proof (cases "row ! n = CHR '' ''")
    case True
    have "cstr (bancut n (row[n := NUL])) = strip_blanks (take n (row[n := NUL]))"
      using "2.IH" True "2.prems" t by simp
    with True show ?thesis by (simp add: t strip_snoc)
  next
    case False
    have "row = take (Suc n) row @ NUL # drop (Suc (Suc n)) row"
      using "2.prems"(1,2) by (metis Cons_nth_drop_Suc append_take_drop_id)
    moreover have "cstr (take (Suc n) row @ NUL # zs) = take (Suc n) row" for zs
      using "2.prems"(3) by (simp add: cstr_def)
    ultimately have "cstr row = take (Suc n) row" by metis
    with False show ?thesis by (simp add: t strip_snoc)
  qed
qed

section \<open>Properties\<close>

lemma banner_row_no_NUL: "NUL \<notin> set (banner_row i s)"
  by (auto simp: banner_row_def dots_def)

lemma banprt_rows:
  assumes "shaped b"
  shows "fst (banprt (banner s b)) = concat (map (\<lambda>i. strip_blanks (banner_row i s) @ [NL]) [0..<nlines]) @ [NL]"
proof -
  have "cstr (bancut 84 ((banner s b ! i)[84 := NUL])) = strip_blanks (banner_row i s)" if i: "i < nlines" for i
  proof -
    let ?row = "(banner s b ! i)[84 := NUL]"
    have l: "length (banner s b ! i) = pposs" using shaped_row [OF banner_rows(2) [OF assms i] i] .
    have t: "take 84 ?row = banner_row i s @ replicate (84 - length (banner_row i s)) (CHR '' '')"
      using banner_rows(1) [OF assms i, of s] by simp
    have "NUL \<notin> set (take 84 ?row)" unfolding t using banner_row_no_NUL by auto
    with bancut_strip [of 84 ?row] l show ?thesis unfolding t strip_app_blanks by simp
  qed
  then have "map (\<lambda>i. cstr (bancut 84 ((banner s b ! i)[84 := NUL])) @ [NL]) [0..<nlines] =
      map (\<lambda>i. strip_blanks (banner_row i s) @ [NL]) [0..<nlines]" by (intro map_cong) auto
  moreover have "fst (banprt (banner s b)) =
      concat (map (\<lambda>i. cstr (bancut 84 ((banner s b ! i)[84 := NUL])) @ [NL]) [0..<nlines]) @ [NL]"
    by (simp add: banprt_def Let_def o_def)
  ultimately show ?thesis by (simp only:)
qed

lemma length_bancut [simp]: "length (bancut n row) = length row"
  by (induction n row rule: bancut.induct) auto

lemma banprt_shaped: "shaped b \<Longrightarrow> shaped (snd (banprt b))"
  by (auto simp: banprt_def Let_def shaped_def)

lemma banner_shaped: "shaped b \<Longrightarrow> shaped (banner s b)"
  using banner_rows(2) [of b 0 s] by simp

text \<open>
  (C17) The banner.  For every argument \<open>banner\<close> prints seven rows: row \<open>i\<close> has, for each of the first
  ten characters, the eight dots of row \<open>i\<close> of its entry in the table, and no blanks at the end;
  an empty line follows.  No store is made outside the buffer, no line is longer than 80
  characters, and the buffer left by one argument does not show in the next.
\<close>

theorem banner_output:
  "banner_main prog (a # as) =
     \<lparr>out = concat (map (\<lambda>s. concat (map (\<lambda>i. strip_blanks (banner_row i s) @ [NL]) [0..<nlines]) @ [NL]) (a # as)),
      err = [], status = 0\<rparr> \<and>
   length (strip_blanks (banner_row i s)) \<le> 80"
proof -
  have "banner_args ss b = concat (map (\<lambda>s. concat (map (\<lambda>i. strip_blanks (banner_row i s) @ [NL]) [0..<nlines]) @ [NL]) ss)"
    if "shaped b" for ss b
    using that
  proof (induction ss arbitrary: b)
    case (Cons s ss)
    obtain o' b' where p: "banprt (banner s b) = (o', b')" by fastforce
    with Cons.IH [of b'] banprt_rows [OF Cons.prems, of s] banprt_shaped [OF banner_shaped [OF Cons.prems, of s]]
    show ?case by simp
  qed simp
  moreover have "shaped (replicate nlines (replicate pposs NUL))" by (simp add: shaped_def)
  moreover have "length (strip_blanks (banner_row i s)) \<le> length (banner_row i s)"
    using length_dropWhile_le [of _ "rev (banner_row i s)"] by (simp add: strip_blanks_def)
  moreover have "8 * min 10 (length s) \<le> 80" by simp
  ultimately show ?thesis
    using length_banner_row [of i s] by (simp add: banner_main_def del: banner_args.simps list.map)
qed

end
