(* ===== verification/Asciitype.thy ===== *)
theory Asciitype
  imports Prelude
begin

text \<open>
  \<open>libcommon/asciitype.c\<close> and \<open>asciitype.h\<close>: locale independent character classes.  The macros take an
  \<open>int\<close>; \<open>asciichar\<close> converts it to unsigned, so that negative values are not ASCII.  \<open>cntrlchar\<close>,
  whose parentheses do not balance in the header, is used nowhere.
\<close>

unbundle bit_operations_syntax

section \<open>The table and the macros\<close>

abbreviation C_CNTRL :: nat where "C_CNTRL \<equiv> 0"
abbreviation C_BLANK :: nat where "C_BLANK \<equiv> 1"
abbreviation C_WHITE :: nat where "C_WHITE \<equiv> 2"
abbreviation C_SPACE :: nat where "C_SPACE \<equiv> 4"
abbreviation C_PUNCT :: nat where "C_PUNCT \<equiv> 8"
abbreviation C_OCTAL :: nat where "C_OCTAL \<equiv> 16"
abbreviation C_DIGIT :: nat where "C_DIGIT \<equiv> 32"
abbreviation C_UPPER :: nat where "C_UPPER \<equiv> 64"
abbreviation C_LOWER :: nat where "C_LOWER \<equiv> 128"

definition class_char :: "nat list" where
  "class_char = [
    C_CNTRL, C_CNTRL, C_CNTRL, C_CNTRL, C_CNTRL, C_CNTRL, C_CNTRL, C_CNTRL,
    C_CNTRL, C_BLANK, C_WHITE, C_SPACE, C_SPACE, C_SPACE, C_CNTRL, C_CNTRL,
    C_CNTRL, C_CNTRL, C_CNTRL, C_CNTRL, C_CNTRL, C_CNTRL, C_CNTRL, C_CNTRL,
    C_CNTRL, C_CNTRL, C_CNTRL, C_CNTRL, C_CNTRL, C_CNTRL, C_CNTRL, C_CNTRL,
    C_BLANK, C_PUNCT, C_PUNCT, C_PUNCT, C_PUNCT, C_PUNCT, C_PUNCT, C_PUNCT,
    C_PUNCT, C_PUNCT, C_PUNCT, C_PUNCT, C_PUNCT, C_PUNCT, C_PUNCT, C_PUNCT,
    C_OCTAL, C_OCTAL, C_OCTAL, C_OCTAL, C_OCTAL, C_OCTAL, C_OCTAL, C_OCTAL,
    C_DIGIT, C_DIGIT, C_PUNCT, C_PUNCT, C_PUNCT, C_PUNCT, C_PUNCT, C_PUNCT,
    C_PUNCT, C_UPPER, C_UPPER, C_UPPER, C_UPPER, C_UPPER, C_UPPER, C_UPPER,
    C_UPPER, C_UPPER, C_UPPER, C_UPPER, C_UPPER, C_UPPER, C_UPPER, C_UPPER,
    C_UPPER, C_UPPER, C_UPPER, C_UPPER, C_UPPER, C_UPPER, C_UPPER, C_UPPER,
    C_UPPER, C_UPPER, C_UPPER, C_PUNCT, C_PUNCT, C_PUNCT, C_PUNCT, C_PUNCT,
    C_PUNCT, C_LOWER, C_LOWER, C_LOWER, C_LOWER, C_LOWER, C_LOWER, C_LOWER,
    C_LOWER, C_LOWER, C_LOWER, C_LOWER, C_LOWER, C_LOWER, C_LOWER, C_LOWER,
    C_LOWER, C_LOWER, C_LOWER, C_LOWER, C_LOWER, C_LOWER, C_LOWER, C_LOWER,
    C_LOWER, C_LOWER, C_LOWER, C_PUNCT, C_PUNCT, C_PUNCT, C_PUNCT, C_CNTRL]"

definition asciichar :: "int \<Rightarrow> bool" where
  "asciichar c \<longleftrightarrow> c mod 2 ^ 32 \<le> 127"

definition in_class :: "int \<Rightarrow> nat \<Rightarrow> bool" where
  "in_class c m \<longleftrightarrow> asciichar c \<and> (class_char ! nat c) AND m \<noteq> 0"

definition alnumchar :: "int \<Rightarrow> bool" where
  "alnumchar c = in_class c (C_DIGIT OR C_OCTAL OR C_UPPER OR C_LOWER)"

definition alphachar :: "int \<Rightarrow> bool" where
  "alphachar c = in_class c (C_UPPER OR C_LOWER)"

definition blankchar :: "int \<Rightarrow> bool" where
  "blankchar c = in_class c C_BLANK"

definition digitchar :: "int \<Rightarrow> bool" where
  "digitchar c = in_class c (C_DIGIT OR C_OCTAL)"

definition lowerchar :: "int \<Rightarrow> bool" where
  "lowerchar c = in_class c C_LOWER"

definition punctchar :: "int \<Rightarrow> bool" where
  "punctchar c = in_class c C_PUNCT"

definition spacechar :: "int \<Rightarrow> bool" where
  "spacechar c = in_class c (C_BLANK OR C_SPACE OR C_WHITE)"

definition upperchar :: "int \<Rightarrow> bool" where
  "upperchar c = in_class c C_UPPER"

definition whitechar :: "int \<Rightarrow> bool" where
  "whitechar c = in_class c (C_BLANK OR C_WHITE)"

definition octalchar :: "int \<Rightarrow> bool" where
  "octalchar c = in_class c C_OCTAL"

definition graphchar :: "int \<Rightarrow> bool" where
  "graphchar c = in_class c (C_UPPER OR C_LOWER OR C_DIGIT OR C_OCTAL OR C_PUNCT)"

definition printchar :: "int \<Rightarrow> bool" where
  "printchar c = (c = 32 \<or> in_class c (C_UPPER OR C_LOWER OR C_DIGIT OR C_OCTAL OR C_PUNCT))"

definition upperconv :: "int \<Rightarrow> int" where
  "upperconv c = (if lowerchar c then c - 97 + 65 else c)"

definition lowerconv :: "int \<Rightarrow> int" where
  "lowerconv c = (if upperchar c then c - 65 + 97 else c)"

section \<open>Properties\<close>

definition ascii_checks :: "int \<Rightarrow> bool" where
  "ascii_checks c \<longleftrightarrow>
     digitchar c = (48 \<le> c \<and> c \<le> 57) \<and> octalchar c = (48 \<le> c \<and> c \<le> 55) \<and>
     upperchar c = (65 \<le> c \<and> c \<le> 90) \<and> lowerchar c = (97 \<le> c \<and> c \<le> 122) \<and>
     alphachar c = (65 \<le> c \<and> c \<le> 90 \<or> 97 \<le> c \<and> c \<le> 122) \<and>
     alnumchar c = (48 \<le> c \<and> c \<le> 57 \<or> 65 \<le> c \<and> c \<le> 90 \<or> 97 \<le> c \<and> c \<le> 122) \<and>
     spacechar c = (9 \<le> c \<and> c \<le> 13 \<or> c = 32) \<and> blankchar c = (c = 9 \<or> c = 32) \<and>
     whitechar c = (c = 9 \<or> c = 10 \<or> c = 32) \<and> graphchar c = (33 \<le> c \<and> c \<le> 126) \<and>
     printchar c = (32 \<le> c \<and> c \<le> 126)"

text \<open>The table by ranges.\<close>

definition cls :: "nat \<Rightarrow> nat" where
  "cls n =
     (if n = 9 \<or> n = 32 then C_BLANK else if n = 10 then C_WHITE else if 11 \<le> n \<and> n \<le> 13 then C_SPACE
      else if 48 \<le> n \<and> n \<le> 55 then C_OCTAL else if n = 56 \<or> n = 57 then C_DIGIT
      else if 65 \<le> n \<and> n \<le> 90 then C_UPPER else if 97 \<le> n \<and> n \<le> 122 then C_LOWER
      else if 33 \<le> n \<and> n \<le> 126 then C_PUNCT else C_CNTRL)"

lemma class_char_cls: "class_char = map cls [0..<128]"
  by code_simp

lemma in_class_cls:
  assumes "- (2 ^ 31) \<le> c" "c < 2 ^ 31"
  shows "in_class c m \<longleftrightarrow> 0 \<le> c \<and> c \<le> 127 \<and> cls (nat c) AND m \<noteq> 0"
proof -
  have "asciichar c \<longleftrightarrow> 0 \<le> c \<and> c \<le> 127"
  proof (cases "0 \<le> c")
    case True
    then have "c mod 2 ^ 32 = c" using assms by (intro mod_pos_pos_trivial) auto
    with True show ?thesis by (simp add: asciichar_def)
  next
    case False
    have "c mod 2 ^ 32 = (c + 2 ^ 32) mod 2 ^ 32" by simp
    also have "\<dots> = c + 2 ^ 32" using assms False by (intro mod_pos_pos_trivial) auto
    finally show ?thesis using assms False by (simp add: asciichar_def)
  qed
  then show ?thesis by (auto simp: in_class_def class_char_cls)
qed

text \<open>
  (C18) The classes.  For every value of an \<open>int\<close>, EOF and negative characters included, the macros
  are the ranges of ASCII they stand for.
\<close>

theorem asciitype_ranges:
  assumes "- (2 ^ 31) \<le> c" "c < 2 ^ 31"
  shows "ascii_checks c"
proof -
  note i = in_class_cls [OF assms]
  show ?thesis
  proof (cases "0 \<le> c \<and> c \<le> 127")
    case False
    then show ?thesis
      by (auto simp: ascii_checks_def i digitchar_def octalchar_def upperchar_def lowerchar_def alphachar_def
        alnumchar_def spacechar_def blankchar_def whitechar_def graphchar_def printchar_def)
  next
    case True
    then obtain k where k: "c = int k" "k \<le> 127" by (metis nat_le_iff int_nat_eq of_nat_numeral)
    show ?thesis
      unfolding ascii_checks_def digitchar_def octalchar_def upperchar_def lowerchar_def alphachar_def
        alnumchar_def spacechar_def blankchar_def whitechar_def graphchar_def printchar_def k(1)
      unfolding i [unfolded k(1)] nat_int cls_def
      using k(2) by (intro conjI) (auto split: if_splits)
  qed
qed

theorem asciitype_ranges_witness: "digitchar 53 \<and> \<not> digitchar (-1) \<and> whitechar 10"
  using asciitype_ranges [of 53] asciitype_ranges [of "-1"] asciitype_ranges [of 10]
  by (simp add: ascii_checks_def)

end
