(* ===== verification/Tsort.thy ===== *)
theory Tsort
  imports Asciitype
begin

text \<open>
  \<open>tsort/tsort.c\<close>: topological sort.  The linked list of nodes is a list of names, one of lists of
  predecessors and one of the \<open>live\<close> fields; a node is its position, the empty element at the end
  of the C list is not represented.  The input is the bytes \<open>getc\<close> delivers.  \<open>ts_print\<close> and \<open>mark\<close> run
  on fuel, \<open>None\<close> when it is used up; the properties show that the fuel given by the callers (more
  than the number of nodes) is always enough.
\<close>

section \<open>The graph\<close>

datatype live = DEAD | LIVE | VISITED

record graph =
  names :: "string list"
  inedges :: "nat list list"

definition white :: "char \<Rightarrow> bool" where
  "white c = whitechar (uchar c)"

definition token :: "string \<Rightarrow> (string \<times> string) option" where
  "token s =
     (let s = dropWhile white s
      in if s = [] then None
         else Some (cstr (takeWhile (\<lambda>c. \<not> white c) s), tl (dropWhile (\<lambda>c. \<not> white c) s)))"

text \<open>\<open>cmp\<close> is equality of C strings; \<open>find_name\<close> is the first loop of \<open>idx\<close>.\<close>

fun find_name :: "string \<Rightarrow> nat \<Rightarrow> string list \<Rightarrow> nat" where
  "find_name s i [] = i"
| "find_name s i (n # ns) = (if s = n then i else find_name s (Suc i) ns)"

definition idx :: "string \<Rightarrow> graph \<Rightarrow> nat \<times> graph" where
  "idx s g =
     (let i = find_name s 0 (names g)
      in if i < length (names g) then (i, g)
         else (i, \<lparr>names = names g @ [s], inedges = inedges g @ [[]]\<rparr>))"

definition present :: "graph \<Rightarrow> nat \<Rightarrow> nat \<Rightarrow> bool" where
  "present g i j = list_ex (\<lambda>p. p = i) (inedges g ! j)"

definition add_pair :: "string \<Rightarrow> string \<Rightarrow> graph \<Rightarrow> graph" where
  "add_pair precedes follows g =
     (case idx precedes g of (i, g1) \<Rightarrow>
      (case idx follows g1 of (j, g2) \<Rightarrow>
         if i = j \<or> present g2 i j then g2
         else g2\<lparr>inedges := (inedges g2)[j := i # inedges g2 ! j]\<rparr>))"

lemma token_shorter: "token s = Some (t, s') \<Longrightarrow> length s' < length s"
proof -
  assume t: "token s = Some (t, s')"
  then have ne: "dropWhile white s \<noteq> []" by (auto simp: token_def Let_def split: if_splits)
  with t have "s' = tl (dropWhile (\<lambda>c. \<not> white c) (dropWhile white s))"
    by (auto simp: token_def Let_def split: if_splits)
  moreover have "length (dropWhile (\<lambda>c. \<not> white c) (dropWhile white s)) \<le> length s"
    by (meson length_dropWhile_le le_trans)
  moreover have "0 < length s" using ne by (cases s) auto
  ultimately show ?thesis by (cases "dropWhile (\<lambda>c. \<not> white c) (dropWhile white s)") auto
qed

text \<open>The first loop of \<open>main\<close>; \<open>None\<close> for \<open>error("odd data", empty)\<close>.\<close>

function read_graph :: "string \<Rightarrow> graph \<Rightarrow> graph option" where
  "read_graph s g =
     (case token s of
        None \<Rightarrow> Some g
      | Some (p, s1) \<Rightarrow>
          (case token s1 of
             None \<Rightarrow> None
           | Some (f, s2) \<Rightarrow> read_graph s2 (add_pair p f g)))"
  by pat_completeness auto
termination
  by (relation "measure (\<lambda>(s, g). length s)") (auto dest!: token_shorter)

declare read_graph.simps [simp del]

section \<open>The ordering\<close>

definition anypred :: "graph \<Rightarrow> live list \<Rightarrow> nat \<Rightarrow> bool" where
  "anypred g lv i = list_ex (\<lambda>p. lv ! p = LIVE) (inedges g ! i)"

text \<open>The sweep: is anything live, and the first live node without a live predecessor.\<close>

fun sweep :: "graph \<Rightarrow> live list \<Rightarrow> nat list \<Rightarrow> bool \<times> nat option" where
  "sweep g lv [] = (False, None)"
| "sweep g lv (i # is) =
     (if lv ! i = LIVE then (if \<not> anypred g lv i then (True, Some i) else (True, snd (sweep g lv is)))
      else sweep g lv is)"

definition ts_note :: "string \<Rightarrow> string \<Rightarrow> string" where
  "ts_note progname s = progname @ '': '' @ s @ [NL]"

text \<open>
  \<open>mark\<close>, with the loop over the predecessors of \<open>i\<close> as \<open>marks\<close>: the node found, the \<open>live\<close> fields and
  the notes.
\<close>

fun mark :: "string \<Rightarrow> graph \<Rightarrow> nat \<Rightarrow> nat \<Rightarrow> live list \<Rightarrow> (nat option \<times> live list \<times> string) option"
  and marks :: "string \<Rightarrow> graph \<Rightarrow> nat \<Rightarrow> nat \<Rightarrow> nat list \<Rightarrow> live list \<Rightarrow> (nat option \<times> live list \<times> string) option"
where
  "mark pn g 0 i lv = None"
| "mark pn g (Suc fuel) i lv =
     (case lv ! i of
        DEAD \<Rightarrow> Some (None, lv, [])
      | VISITED \<Rightarrow> Some (Some i, lv, [])
      | LIVE \<Rightarrow> marks pn g fuel i (inedges g ! i) (lv[i := VISITED]))"
| "marks pn g fuel i [] lv = Some (None, lv, [])"
| "marks pn g fuel i (t # ts) lv =
     (case mark pn g fuel t lv of
        None \<Rightarrow> None
      | Some (Some j, lv', e) \<Rightarrow> Some (Some j, lv', e @ ts_note pn (names g ! i))
      | Some (None, lv', e) \<Rightarrow>
          (case marks pn g fuel i ts lv' of None \<Rightarrow> None | Some (r, lv'', e') \<Rightarrow> Some (r, lv'', e @ e')))"

fun first_live :: "live list \<Rightarrow> nat \<Rightarrow> nat" where
  "first_live [] i = i"
| "first_live (l # lv) i = (if l = LIVE then i else first_live lv (Suc i))"

definition unvisit :: "live list \<Rightarrow> live list" where
  "unvisit lv = map (\<lambda>l. if l = VISITED then LIVE else l) lv"

definition findloop :: "string \<Rightarrow> graph \<Rightarrow> live list \<Rightarrow> (nat option \<times> live list \<times> string) option" where
  "findloop pn g lv =
     (case mark pn g (Suc (length lv)) (first_live lv 0) lv of
        None \<Rightarrow> None
      | Some (r, lv', e) \<Rightarrow>
          Some (r, unvisit lv', ts_note pn ''cycle in data'' @ e @
                  (if r = None then ts_note pn ''program error'' else [])))"

text \<open>The second loop of \<open>main\<close>: the output, the messages and the exit status.\<close>

fun ts_print :: "string \<Rightarrow> graph \<Rightarrow> nat \<Rightarrow> live list \<Rightarrow> (nat list \<times> string \<times> int) option" where
  "ts_print pn g 0 lv = None"
| "ts_print pn g (Suc fuel) lv =
     (case sweep g lv [0..<length lv] of
        (x, r) \<Rightarrow>
          if \<not> x then Some ([], [], 0)
          else (case (case r of Some i \<Rightarrow> Some (Some i, lv, []) | None \<Rightarrow> findloop pn g lv) of
                  None \<Rightarrow> None
                | Some (None, lv', e) \<Rightarrow> Some ([], e, 1)
                | Some (Some i, lv', e) \<Rightarrow>
                    (case ts_print pn g fuel (lv'[i := DEAD]) of
                       None \<Rightarrow> None
                     | Some (is, e', st) \<Rightarrow> Some (i # is, e @ e', st))))"

definition tsort_run :: "string \<Rightarrow> string \<Rightarrow> outcome option" where
  "tsort_run pn input =
     (case read_graph input \<lparr>names = [], inedges = []\<rparr> of
        None \<Rightarrow> Some \<lparr>out = [], err = ts_note pn ''odd data'', status = 1\<rparr>
      | Some g \<Rightarrow>
          (case ts_print pn g (Suc (length (names g))) (replicate (length (names g)) LIVE) of
             None \<Rightarrow> None
           | Some (is, e, st) \<Rightarrow>
               Some \<lparr>out = concat (map (\<lambda>i. names g ! i @ [NL]) is), err = e, status = st\<rparr>))"

definition tsort_main :: "filesys \<Rightarrow> string \<Rightarrow> string \<Rightarrow> string list \<Rightarrow> outcome option" where
  "tsort_main fs stdin pn args =
     (let args = (if args \<noteq> [] \<and> hd args = ''--'' then tl args else args)
      in case args of
           [] \<Rightarrow> tsort_run pn stdin
         | [f] \<Rightarrow>
             (case fs f of
                None \<Rightarrow> Some \<lparr>out = [], err = ts_note pn (''cannot open '' @ f), status = 1\<rparr>
              | Some fd \<Rightarrow> tsort_run pn (fd_rest fd))
         | _ \<Rightarrow> Some \<lparr>out = [], err = ''Usage:  '' @ pn @ '' [ file ]'' @ [NL], status = 2\<rparr>)"

section \<open>Graphs read from the input\<close>

definition edges :: "graph \<Rightarrow> (nat \<times> nat) set" where
  "edges g = {(i, j). j < length (inedges g) \<and> i \<in> set (inedges g ! j)}"

definition graph_ok :: "graph \<Rightarrow> bool" where
  "graph_ok g \<longleftrightarrow> length (inedges g) = length (names g) \<and> distinct (names g) \<and>
     (\<forall>j < length (names g). \<forall>i \<in> set (inedges g ! j). i < length (names g) \<and> i \<noteq> j)"

lemma find_name_spec:
  "find_name s i ns = (if s \<in> set ns then i + length (takeWhile (\<lambda>n. n \<noteq> s) ns) else i + length ns)"
  by (induction s i ns rule: find_name.induct) auto

lemma find_name_found: "s \<in> set ns \<Longrightarrow> find_name s 0 ns < length ns \<and> ns ! find_name s 0 ns = s"
proof -
  assume s: "s \<in> set ns"
  have "length (takeWhile (\<lambda>n. n \<noteq> s) ns) < length ns"
    using s by (metis (mono_tags, lifting) length_takeWhile_le nat_less_le set_takeWhileD takeWhile_eq_all_conv takeWhile_eq_take take_all_iff le_refl)
  with s show ?thesis using nth_length_takeWhile [of "\<lambda>n. n \<noteq> s" ns] by (simp add: find_name_spec)
qed

lemma idx_ok:
  assumes "graph_ok g" "idx s g = (i, g')"
  shows "graph_ok g'" "i < length (names g')" "names g' ! i = s" "set (names g') = insert s (set (names g))"
    "\<exists>xs. names g' = names g @ xs" "edges g' = edges g"
proof -
  have len: "length (inedges g) = length (names g)" using assms(1) by (simp add: graph_ok_def)
  have "graph_ok g' \<and> i < length (names g') \<and> names g' ! i = s \<and> set (names g') = insert s (set (names g)) \<and>
    (\<exists>xs. names g' = names g @ xs) \<and> edges g' = edges g"
  proof (cases "s \<in> set (names g)")
    case True
    with find_name_found [OF True] assms show ?thesis by (auto simp: idx_def Let_def)
  next
    case False
    then have "find_name s 0 (names g) = length (names g)" by (simp add: find_name_spec)
    then have g': "g' = \<lparr>names = names g @ [s], inedges = inedges g @ [[]]\<rparr>" "i = length (names g)"
      using assms(2) by (auto simp: idx_def Let_def)
    have "edges g' = edges g"
      using len by (auto simp: g' edges_def nth_append less_Suc_eq split: if_splits)
    moreover have "graph_ok g'"
      using assms(1) False by (auto simp: graph_ok_def g' nth_append less_Suc_eq less_SucI)
    ultimately show ?thesis by (simp add: g')
  qed
  then show "graph_ok g'" "i < length (names g')" "names g' ! i = s" "set (names g') = insert s (set (names g))"
    "\<exists>xs. names g' = names g @ xs" "edges g' = edges g" by blast+
qed

text \<open>The edges as pairs of names.\<close>

definition nedges :: "graph \<Rightarrow> (string \<times> string) set" where
  "nedges g = (\<lambda>(i, j). (names g ! i, names g ! j)) ` edges g"

lemma edges_range: "graph_ok g \<Longrightarrow> (i, j) \<in> edges g \<Longrightarrow> i < length (names g) \<and> j < length (names g) \<and> i \<noteq> j"
  by (auto simp: edges_def graph_ok_def)

lemma nedges_ext:
  assumes "graph_ok g" "names g' = names g @ xs" "edges g' = edges g"
  shows "nedges g' = nedges g"
  unfolding nedges_def assms(3) using edges_range [OF assms(1)]
  by (intro image_cong) (auto simp: assms(2) nth_append)

lemma add_pair_ok:
  assumes ok: "graph_ok g"
  shows "graph_ok (add_pair p f g)" "set (names (add_pair p f g)) = {p, f} \<union> set (names g)"
    "nedges (add_pair p f g) = (if p = f then {} else {(p, f)}) \<union> nedges g"
proof -
  obtain i g1 where g1: "idx p g = (i, g1)" by fastforce
  obtain j g2 where g2: "idx f g1 = (j, g2)" by fastforce
  note a = idx_ok [OF ok g1] and b = idx_ok [OF idx_ok(1) [OF ok g1] g2]
  have i: "i < length (names g2)" "names g2 ! i = p" using a(2,3) b(5) by (auto simp: nth_append)
  have d: "distinct (names g2)" "length (inedges g2) = length (names g2)" using b(1) by (simp_all add: graph_ok_def)
  have ij: "i = j \<longleftrightarrow> p = f" using d(1) i b(2,3) by (metis nth_eq_iff_index_eq)
  have n: "nedges g2 = nedges g" using nedges_ext ok a b by metis
  let ?g = "g2\<lparr>inedges := (inedges g2)[j := i # inedges g2 ! j]\<rparr>"
  have e: "edges ?g = insert (i, j) (edges g2)"
    using b(2) d(2) by (auto simp: edges_def nth_list_update split: if_splits)
  have "graph_ok ?g" if "i \<noteq> j"
    using b(1,2) i(1) that by (auto simp: graph_ok_def nth_list_update split: if_splits)
  moreover have "nedges ?g = insert (p, f) (nedges g)"
    using e n i b(3) by (auto simp: nedges_def)
  moreover have "(p, f) \<in> nedges g" if "present g2 i j"
  proof -
    have "(i, j) \<in> edges g2" using that b(2) d(2) by (auto simp: present_def edges_def list_ex_iff)
    then show ?thesis using n i b(3) unfolding nedges_def by force
  qed
  ultimately show "graph_ok (add_pair p f g)" "set (names (add_pair p f g)) = {p, f} \<union> set (names g)"
    "nedges (add_pair p f g) = (if p = f then {} else {(p, f)}) \<union> nedges g"
    using b n ij a(4) by (auto simp: add_pair_def g1 g2)
qed

text \<open>The pairs of items in the input.\<close>

function item_pairs :: "string \<Rightarrow> (string \<times> string) list option" where
  "item_pairs s =
     (case token s of
        None \<Rightarrow> Some []
      | Some (p, s1) \<Rightarrow>
          (case token s1 of
             None \<Rightarrow> None
           | Some (f, s2) \<Rightarrow> map_option (Cons (p, f)) (item_pairs s2)))"
  by pat_completeness auto
termination
  by (relation "measure length") (auto dest!: token_shorter)

declare item_pairs.simps [simp del]

lemma read_graph_pairs: "read_graph s g = map_option (\<lambda>ps. fold (\<lambda>(p, f). add_pair p f) ps g) (item_pairs s)"
proof (induction s g rule: read_graph.induct)
  case (1 s g)
  then show ?case
    by (auto simp: read_graph.simps [of s g] item_pairs.simps [of s] option.map_comp o_def split: option.splits)
qed

lemma fold_pairs_ok:
  "graph_ok g \<Longrightarrow> graph_ok (fold (\<lambda>(p, f). add_pair p f) ps g) \<and>
     set (names (fold (\<lambda>(p, f). add_pair p f) ps g)) = fst ` set ps \<union> snd ` set ps \<union> set (names g) \<and>
     nedges (fold (\<lambda>(p, f). add_pair p f) ps g) = {(p, f) \<in> set ps. p \<noteq> f} \<union> nedges g"
proof (induction ps arbitrary: g)
  case (Cons x ps)
  obtain p f where x: "x = (p, f)" by fastforce
  from Cons.IH [OF add_pair_ok(1) [OF Cons.prems, of p f]] add_pair_ok [OF Cons.prems, of p f] x
  show ?case by auto
qed auto

section \<open>Searching a cycle\<close>

definition nlive :: "live list \<Rightarrow> nat" where
  "nlive lv = length (filter (\<lambda>l. l = LIVE) lv)"

definition act :: "live list \<Rightarrow> nat set" where
  "act lv = {i. i < length lv \<and> lv ! i \<noteq> DEAD}"

lemma nlive_update: "i < length lv \<Longrightarrow> lv ! i = LIVE \<Longrightarrow> l \<noteq> LIVE \<Longrightarrow> nlive (lv[i := l]) < nlive lv"
proof (induction lv arbitrary: i)
  case (Cons x xs)
  then show ?case by (cases i) (auto simp: nlive_def)
qed simp

lemma nlive_le: "nlive lv \<le> length lv"
  by (simp add: nlive_def)

lemma walk_cycle:
  "successively (\<lambda>a b. (a, b) \<in> E) (x # p) \<Longrightarrow> y \<in> set p \<Longrightarrow> (x, y) \<in> E\<^sup>+"
proof (induction p arbitrary: x)
  case (Cons z p)
  then have xz: "(x, z) \<in> E" and w: "successively (\<lambda>a b. (a, b) \<in> E) (z # p)" by (auto simp: successively_Cons)
  show ?case
  proof (cases "y = z")
    case False
    with Cons.prems(2) Cons.IH [OF w] have "(z, y) \<in> E\<^sup>+" by simp
    with xz show ?thesis by (rule trancl_into_trancl2)
  qed (use xz in auto)
qed simp

lemma act_visit: "i < length lv \<Longrightarrow> lv ! i = LIVE \<Longrightarrow> act (lv[i := VISITED]) = act lv"
  by (auto simp: act_def nth_list_update)

lemma unvisit_visit: "i < length lv \<Longrightarrow> lv ! i = LIVE \<Longrightarrow> unvisit (lv[i := VISITED]) = unvisit lv"
  by (auto simp: unvisit_def map_update list_update_same_conv)

text \<open>The loop over the predecessors skips dead ones and stops at the first other one.\<close>

lemma marks_first:
  assumes "\<And>t. t \<in> set ts \<Longrightarrow> t \<notin> D \<Longrightarrow> mark pn g fuel t lv = Some (None, lv, [])"
    and "t \<in> set ts" "t \<in> D"
    and "\<And>t. t \<in> set ts \<Longrightarrow> t \<in> D \<Longrightarrow> \<exists>j lv' e. mark pn g fuel t lv = Some (Some j, lv', e) \<and> Q j lv'"
  shows "\<exists>j lv' e. marks pn g fuel i ts lv = Some (Some j, lv', e) \<and> e \<noteq> [] \<and> Q j lv'"
  using assms
proof (induction ts)
  case (Cons u ts)
  show ?case
  proof (cases "u \<in> D")
    case True
    with Cons.prems(4) [of u] show ?thesis by (auto simp: ts_note_def)
  next
    case False
    with Cons.prems have "mark pn g fuel u lv = Some (None, lv, [])" "t \<in> set ts" by auto
    with Cons.IH Cons.prems show ?thesis by auto
  qed
qed simp

definition cyclic_at :: "graph \<Rightarrow> nat set \<Rightarrow> nat \<Rightarrow> bool" where
  "cyclic_at g A j \<longleftrightarrow> j \<in> A \<and> (j, j) \<in> (edges g \<inter> A \<times> A)\<^sup>+"

lemma mark_cycle:
  assumes ok: "graph_ok g" and n: "length lv = length (names g)"
    and pred: "\<And>i. i \<in> act lv \<Longrightarrow> \<exists>p \<in> set (inedges g ! i). p \<in> act lv"
    and fuel: "nlive lv < fuel" and i: "i \<in> act lv"
    and path: "set p = {i. i < length lv \<and> lv ! i = VISITED}" "successively (\<lambda>a b. (a, b) \<in> edges g \<inter> act lv \<times> act lv) (i # p)"
  shows "\<exists>j lv' e. mark pn g fuel i lv = Some (Some j, lv', e) \<and> cyclic_at g (act lv) j \<and> unvisit lv' = unvisit lv"
  using n pred fuel i path
proof (induction fuel arbitrary: lv i p)
  case (Suc fuel)
  from Suc.prems(4) have il: "i < length lv" "lv ! i \<noteq> DEAD" by (auto simp: act_def)
  show ?case
  proof (cases "lv ! i = VISITED")
    case True
    with il Suc.prems(5) have "i \<in> set p" by simp
    with walk_cycle [OF Suc.prems(6)] True Suc.prems(4) show ?thesis by (simp add: cyclic_at_def)
  next
    case False
    with il(2) have l: "lv ! i = LIVE" by (cases "lv ! i") auto
    let ?lv = "lv[i := VISITED]"
    have act: "act ?lv = act lv" using act_visit [OF il(1) l] .
    have nl: "nlive ?lv < fuel" using nlive_update [OF il(1) l, of VISITED] Suc.prems(3) by simp
    have vis: "set (i # p) = {k. k < length ?lv \<and> ?lv ! k = VISITED}"
      using Suc.prems(5) il l by (auto simp: nth_list_update)
    obtain t where t: "t \<in> set (inedges g ! i)" "t \<in> act lv" using Suc.prems(2) Suc.prems(4) by blast
    have rng: "u < length lv" if "u \<in> set (inedges g ! i)" for u
      using that ok il(1) Suc.prems(1) by (auto simp: graph_ok_def)
    have dead: "mark pn g fuel u ?lv = Some (None, ?lv, [])" if "u \<in> set (inedges g ! i)" "u \<notin> act lv" for u
    proof -
      have "?lv ! u = DEAD" using that rng [OF that(1)] act il by (auto simp: act_def nth_list_update)
      then show ?thesis using nl by (cases fuel) auto
    qed
    have rec: "\<exists>j lv' e. mark pn g fuel u ?lv = Some (Some j, lv', e) \<and> cyclic_at g (act lv) j \<and> unvisit lv' = unvisit lv"
      if u: "u \<in> set (inedges g ! i)" "u \<in> act lv" for u
    proof -
      have "(u, i) \<in> edges g" using u il(1) Suc.prems(1) ok by (auto simp: edges_def graph_ok_def)
      then have "successively (\<lambda>a b. (a, b) \<in> edges g \<inter> act ?lv \<times> act ?lv) (u # i # p)"
        using Suc.prems(4,6) u(2) unfolding act by (simp add: successively_Cons)
      moreover have "\<And>i. i \<in> act ?lv \<Longrightarrow> \<exists>p \<in> set (inedges g ! i). p \<in> act ?lv" unfolding act by (rule Suc.prems(2))
      ultimately show ?thesis
        using Suc.IH [of ?lv u "i # p"] Suc.prems(1) nl u(2) vis act unvisit_visit [OF il(1) l] by simp
    qed
    from marks_first [of "inedges g ! i" "act lv", OF dead t rec] l show ?thesis by fastforce
  qed
qed simp

section \<open>The ordering\<close>

lemma sweep_spec:
  assumes "sweep g lv is = (x, r)"
  shows "x \<longleftrightarrow> (\<exists>i \<in> set is. lv ! i = LIVE)"
    "r = Some i \<Longrightarrow> i \<in> set is \<and> lv ! i = LIVE \<and> \<not> anypred g lv i"
    "r = None \<Longrightarrow> i \<in> set is \<Longrightarrow> lv ! i = LIVE \<Longrightarrow> anypred g lv i"
proof -
  have "(x \<longleftrightarrow> (\<exists>i \<in> set is. lv ! i = LIVE)) \<and>
    (\<forall>i. r = Some i \<longrightarrow> i \<in> set is \<and> lv ! i = LIVE \<and> \<not> anypred g lv i) \<and>
    (r = None \<longrightarrow> (\<forall>i \<in> set is. lv ! i = LIVE \<longrightarrow> anypred g lv i))"
    using assms
  proof (induction "is" arbitrary: x r)
    case (Cons k "is")
    obtain x' r' where s: "sweep g lv is = (x', r')" by fastforce
    from Cons.IH [OF s] Cons.prems s show ?case by (auto split: if_splits)
  qed simp
  then show "x \<longleftrightarrow> (\<exists>i \<in> set is. lv ! i = LIVE)"
    "r = Some i \<Longrightarrow> i \<in> set is \<and> lv ! i = LIVE \<and> \<not> anypred g lv i"
    "r = None \<Longrightarrow> i \<in> set is \<Longrightarrow> lv ! i = LIVE \<Longrightarrow> anypred g lv i" by blast+
qed

lemma first_live_spec: "LIVE \<in> set lv \<Longrightarrow> i \<le> first_live lv i \<and> first_live lv i - i < length lv \<and> lv ! (first_live lv i - i) = LIVE"
proof (induction lv arbitrary: i)
  case (Cons l lv)
  show ?case
  proof (cases "l = LIVE")
    case False
    with Cons have "Suc i \<le> first_live lv (Suc i)" "first_live lv (Suc i) - Suc i < length lv"
      "lv ! (first_live lv (Suc i) - Suc i) = LIVE" by auto
    moreover from this(1) have "first_live lv (Suc i) - i = Suc (first_live lv (Suc i) - Suc i)" by simp
    ultimately show ?thesis using False by simp
  qed simp
qed simp

lemma findloop_cycle:
  assumes "graph_ok g" "length lv = length (names g)" "VISITED \<notin> set lv"
    "\<And>i. i \<in> act lv \<Longrightarrow> anypred g lv i" "LIVE \<in> set lv"
  shows "\<exists>j e. findloop pn g lv = Some (Some j, lv, e) \<and> e \<noteq> [] \<and> cyclic_at g (act lv) j"
proof -
  let ?i = "first_live lv 0"
  have i: "?i \<in> act lv" using first_live_spec [OF assms(5), of 0] by (auto simp: act_def)
  have p: "\<exists>p \<in> set (inedges g ! i). p \<in> act lv" if i: "i \<in> act lv" for i
  proof -
    obtain p where "p \<in> set (inedges g ! i)" "lv ! p = LIVE"
      using assms(4) [OF i] by (auto simp: anypred_def list_ex_iff)
    moreover from this(1) have "p < length lv" using assms(1,2) i by (auto simp: graph_ok_def act_def)
    ultimately show ?thesis by (auto simp: act_def)
  qed
  have v: "set [] = {i. i < length lv \<and> lv ! i = VISITED}" using assms(3) by (auto simp: in_set_conv_nth)
  have u: "unvisit lv = lv" using assms(3) by (auto simp: unvisit_def intro!: map_idI)
  from mark_cycle [OF assms(1,2) p _ i v, of "Suc (length lv)" pn] nlive_le [of lv] u
  show ?thesis by (fastforce simp: findloop_def ts_note_def)
qed

definition topo :: "graph \<Rightarrow> nat list \<Rightarrow> bool" where
  "topo g is \<longleftrightarrow> sorted_wrt (\<lambda>a b. (b, a) \<notin> edges g) is"

lemma act_dead: "i < length lv \<Longrightarrow> act (lv[i := DEAD]) = act lv - {i}"
  by (auto simp: act_def nth_list_update)

lemma cyclic_mono: "cyclic_at g A j \<Longrightarrow> A \<subseteq> B \<Longrightarrow> cyclic_at g B j"
proof -
  assume c: "cyclic_at g A j" and s: "A \<subseteq> B"
  have "edges g \<inter> A \<times> A \<subseteq> edges g \<inter> B \<times> B" using s by auto
  with c s show ?thesis unfolding cyclic_at_def by (meson trancl_mono subsetD)
qed

lemma ts_print_spec:
  assumes ok: "graph_ok g"
  shows "length lv = length (names g) \<Longrightarrow> VISITED \<notin> set lv \<Longrightarrow> nlive lv < fuel \<Longrightarrow>
    \<exists>is e. ts_print pn g fuel lv = Some (is, e, 0) \<and> distinct is \<and> set is = act lv \<and>
      (e = [] \<longrightarrow> topo g is) \<and> (e \<noteq> [] \<longrightarrow> (\<exists>j. cyclic_at g (act lv) j))"
proof (induction fuel arbitrary: lv)
  case (Suc fuel)
  obtain x r where s: "sweep g lv [0..<length lv] = (x, r)" by fastforce
  note sw = sweep_spec [OF s]
  have al: "i \<in> act lv \<longleftrightarrow> i < length lv \<and> lv ! i = LIVE" for i
    using Suc.prems(2) by (cases "lv ! i") (auto simp: act_def in_set_conv_nth)
  show ?case
  proof (cases x)
    case False
    then have "act lv = {}" using sw(1) al by auto
    with False s show ?thesis by (auto simp: topo_def)
  next
    case x: True
    have step: "\<exists>is e'. ts_print pn g fuel (lv[i := DEAD]) = Some (is, e', 0) \<and> distinct (i # is) \<and> set (i # is) = act lv \<and>
        (e' = [] \<longrightarrow> topo g is) \<and> (e' \<noteq> [] \<longrightarrow> (\<exists>j. cyclic_at g (act lv) j))" if i: "i \<in> act lv" for i
    proof -
      have il: "i < length lv" "lv ! i = LIVE" using i al by auto
      have "VISITED \<notin> set (lv[i := DEAD])" using Suc.prems(2) set_update_subset_insert [of lv i DEAD] by auto
      moreover have "nlive (lv[i := DEAD]) < fuel" using nlive_update [OF il, of DEAD] Suc.prems(3) by simp
      ultimately obtain "is" e' where r: "ts_print pn g fuel (lv[i := DEAD]) = Some (is, e', 0)" "distinct is"
        "set is = act lv - {i}" "e' = [] \<longrightarrow> topo g is" "e' \<noteq> [] \<longrightarrow> (\<exists>j. cyclic_at g (act lv - {i}) j)"
        using Suc.IH [of "lv[i := DEAD]"] Suc.prems(1) act_dead [OF il(1)] by auto
      then show ?thesis using i cyclic_mono [of g "act lv - {i}" _ "act lv"] by auto
    qed
    show ?thesis
    proof (cases r)
      case (Some i)
      have i: "i \<in> act lv" "\<not> anypred g lv i" using sw(2) [OF Some] al by auto
      from step [OF i(1)] obtain "is" e' where r: "ts_print pn g fuel (lv[i := DEAD]) = Some (is, e', 0)"
        "distinct (i # is)" "set (i # is) = act lv" "e' = [] \<longrightarrow> topo g is"
        "e' \<noteq> [] \<longrightarrow> (\<exists>j. cyclic_at g (act lv) j)" by blast
      have "(b, i) \<notin> edges g" if "b \<in> set is" for b
        using that i r(3) al by (auto simp: anypred_def list_ex_iff edges_def)
      with r(4) have "e' = [] \<longrightarrow> topo g (i # is)" by (simp add: topo_def)
      with r Some s x show ?thesis by (intro exI [of _ "i # is"] exI [of _ e']) simp
    next
      case None
      have ap: "anypred g lv i" if "i \<in> act lv" for i using sw(3) [OF None] that al by simp
      have "LIVE \<in> set lv" using sw(1) x by (auto simp: in_set_conv_nth)
      from findloop_cycle [OF ok Suc.prems(1,2) ap this, of pn] obtain j e where
        f: "findloop pn g lv = Some (Some j, lv, e)" "e \<noteq> []" "cyclic_at g (act lv) j" by blast
      then have "j \<in> act lv" by (simp add: cyclic_at_def)
      from step [OF this] f None s x show ?thesis by fastforce
    qed
  qed
qed simp

lemma topo_acyclic:
  assumes ok: "graph_ok g" and "distinct is" "set is = {..<length (names g)}" "topo g is"
  shows "acyclic (edges g)"
proof -
  define pos where "pos x = (THE k. k < length is \<and> is ! k = x)" for x
  have pos: "pos (is ! k) = k" if "k < length is" for k
    unfolding pos_def using that assms(2) by (intro the_equality) (auto simp: nth_eq_iff_index_eq)
  have "pos i < pos j" if e: "(i, j) \<in> edges g" for i j
  proof -
    have "i \<in> set is" "j \<in> set is" "i \<noteq> j" using edges_range [OF ok e] assms(3) by auto
    then obtain a b where ab: "a < length is" "is ! a = i" "b < length is" "is ! b = j" by (auto simp: in_set_conv_nth)
    have "\<not> b < a" using assms(4) e ab unfolding topo_def sorted_wrt_iff_nth_less by blast
    moreover have "a \<noteq> b" using ab \<open>i \<noteq> j\<close> by auto
    ultimately show ?thesis using pos [OF ab(1)] pos [OF ab(3)] ab(2,4) by simp
  qed
  then have "edges g \<subseteq> measure pos" by auto
  then show ?thesis using wf_subset [OF wf_measure] wf_acyclic by blast
qed

lemma cyclic_not_acyclic: "cyclic_at g A j \<Longrightarrow> \<not> acyclic (edges g)"
  unfolding cyclic_at_def acyclic_def by (meson inf_le1 trancl_mono)

section \<open>Properties\<close>

text \<open>The names that \<open>tsort\<close> prints, before they are put on lines.\<close>

lemma acyclic_names:
  assumes ok: "graph_ok g"
  shows "acyclic (edges g) \<longleftrightarrow> acyclic (nedges g)"
proof -
  let ?n = "\<lambda>i. names g ! i"
  have inj: "inj_on ?n {..<length (names g)}"
    using ok by (auto simp: graph_ok_def intro!: inj_on_nth)
  have fwd: "(?n i, ?n j) \<in> (nedges g)\<^sup>+" if "(i, j) \<in> (edges g)\<^sup>+" for i j
    using that
  proof induction
    case (base y)
    then show ?case by (intro r_into_trancl) (auto simp: nedges_def)
  next
    case (step y z)
    then have "(?n y, ?n z) \<in> nedges g" by (auto simp: nedges_def)
    with step.IH show ?case by (rule trancl_into_trancl)
  qed
  have bwd: "\<exists>i j. x = ?n i \<and> y = ?n j \<and> i < length (names g) \<and> j < length (names g) \<and> (i, j) \<in> (edges g)\<^sup>+"
    if "(x, y) \<in> (nedges g)\<^sup>+" for x y
    using that
  proof induction
    case (base y)
    then show ?case using edges_range [OF ok] by (fastforce simp: nedges_def)
  next
    case (step y z)
    then obtain i j where ij: "x = ?n i" "y = ?n j" "i < length (names g)" "j < length (names g)" "(i, j) \<in> (edges g)\<^sup>+" by blast
    from step.hyps(2) obtain a b where ab: "y = ?n a" "z = ?n b" "(a, b) \<in> edges g" by (auto simp: nedges_def)
    have "a = j" using inj ab ij edges_range [OF ok ab(3)] by (auto dest: inj_onD)
    then have "(i, b) \<in> (edges g)\<^sup>+" using ij(5) ab(3) by (simp add: trancl_into_trancl)
    with ij ab edges_range [OF ok ab(3)] show ?case by blast
  qed
  show ?thesis
  proof
    assume a: "acyclic (edges g)"
    show "acyclic (nedges g)"
      unfolding acyclic_def
    proof (intro allI notI)
      fix x assume "(x, x) \<in> (nedges g)\<^sup>+"
      with bwd obtain i j where "?n i = ?n j" "i < length (names g)" "j < length (names g)" "(i, j) \<in> (edges g)\<^sup>+" by metis
      with inj a show False by (auto simp: acyclic_def dest: inj_onD)
    qed
  next
    assume "acyclic (nedges g)"
    with fwd show "acyclic (edges g)" unfolding acyclic_def by blast
  qed
qed

definition graph_of :: "(string \<times> string) list \<Rightarrow> graph" where
  "graph_of ps = fold (\<lambda>(p, f). add_pair p f) ps \<lparr>names = [], inedges = []\<rparr>"

lemma graph_of_ok:
  "graph_ok (graph_of ps)" "set (names (graph_of ps)) = fst ` set ps \<union> snd ` set ps"
  "nedges (graph_of ps) = {(p, f) \<in> set ps. p \<noteq> f}"
proof -
  have "graph_ok \<lparr>names = [], inedges = []\<rparr>" "nedges \<lparr>names = [], inedges = []\<rparr> = {}"
    by (simp_all add: graph_ok_def nedges_def edges_def)
  with fold_pairs_ok [of "\<lparr>names = [], inedges = []\<rparr>" ps]
  show "graph_ok (graph_of ps)" "set (names (graph_of ps)) = fst ` set ps \<union> snd ` set ps"
    "nedges (graph_of ps) = {(p, f) \<in> set ps. p \<noteq> f}" by (auto simp: graph_of_def)
qed

lemma tsort_run_pairs:
  assumes "item_pairs input = Some ps"
  shows "\<exists>is e. tsort_run pn input = Some \<lparr>out = concat (map (\<lambda>n. n @ [NL]) (map ((!) (names (graph_of ps))) is)), err = e, status = 0\<rparr> \<and>
    distinct is \<and> set is = {..<length (names (graph_of ps))} \<and>
    (e = [] \<longrightarrow> topo (graph_of ps) is) \<and> (e \<noteq> [] \<longrightarrow> \<not> acyclic (edges (graph_of ps)))"
proof -
  let ?g = "graph_of ps" and ?lv = "replicate (length (names (graph_of ps))) LIVE"
  have r: "read_graph input \<lparr>names = [], inedges = []\<rparr> = Some ?g"
    using assms by (simp add: read_graph_pairs graph_of_def)
  have "act ?lv = {..<length (names ?g)}" by (auto simp: act_def)
  moreover have "nlive ?lv < Suc (length (names ?g))" using nlive_le [of ?lv] by simp
  ultimately obtain "is" e where t: "ts_print pn ?g (Suc (length (names ?g))) ?lv = Some (is, e, 0)" "distinct is"
    "set is = {..<length (names ?g)}" "e = [] \<longrightarrow> topo ?g is" "e \<noteq> [] \<longrightarrow> (\<exists>j. cyclic_at ?g {..<length (names ?g)} j)"
    using ts_print_spec [OF graph_of_ok(1), of ?lv ps "Suc (length (names ?g))" pn] by auto
  then show ?thesis using cyclic_not_acyclic [of ?g] r
    by (intro exI [of _ "is"] exI [of _ e]) (auto simp: tsort_run_def o_def)
qed

lemma names_lines:
  assumes "distinct is" "set is = {..<length (names g)}" "graph_ok g"
  shows "distinct (map ((!) (names g)) is)" "set (map ((!) (names g)) is) = set (names g)"
proof -
  have "inj_on ((!) (names g)) (set is)" using assms by (auto simp: graph_ok_def intro!: inj_on_nth)
  with assms(1) show "distinct (map ((!) (names g)) is)" by (simp add: distinct_map)
  show "set (map ((!) (names g)) is) = set (names g)" 
    using nth_image [of "length (names g)" "names g"] by (simp add: assms(2) lessThan_atLeast0)
qed

lemma white_codes: "white CHR '' ''" "white NL" "\<not> white CHR ''a''" "\<not> white CHR ''b''" "\<not> white CHR ''c''"
  by (simp_all add: white_def whitechar_def in_class_def asciichar_def uchar_def class_char_def)

lemma tsort_sample: "item_pairs ''b a c b'' = Some [(''b'', ''a''), (''c'', ''b'')]"
  by (simp add: item_pairs.simps token_def Let_def white_codes)

lemma token_no_NL: "token s = Some (t, s') \<Longrightarrow> NL \<notin> set t"
  by (auto simp: token_def Let_def cstr_def white_codes dest!: set_takeWhileD split: if_splits)

lemma items_no_NL: "item_pairs s = Some ps \<Longrightarrow> \<forall>n \<in> fst ` set ps \<union> snd ` set ps. NL \<notin> set n"
proof (induction s arbitrary: ps rule: item_pairs.induct)
  case (1 s)
  show ?case
  proof (cases "token s")
    case (Some r)
    obtain p s1 where r: "r = (p, s1)" by fastforce
    with Some "1.prems" obtain f s2 qs where q: "token s1 = Some (f, s2)" "item_pairs s2 = Some qs" "ps = (p, f) # qs"
      by (auto simp: item_pairs.simps [of s] split: option.splits)
    from "1.IH" [OF Some r [symmetric] q(1) refl q(2)] Some r q token_no_NL show ?thesis by auto
  qed (use "1.prems" in \<open>simp add: item_pairs.simps [of s]\<close>)
qed

text \<open>
  (C20) The ordering.  For an input with an even number of items, cyclic or not, the program ends (the fuel is enough)
  with status 0, never with \<open>program error\<close>.  The graph has an edge for every pair of two different items.  The program
  reports no cycle exactly when the graph has none.  What it prints is a list of all items, each
  once and on a line of its own (no item contains a newline, so the list is determined by the output); if no cycle is
  reported, no item stands behind one that it has to precede.
\<close>

theorem tsort_topological:
  assumes "item_pairs input = Some ps"
  shows "\<exists>ns e. tsort_run pn input = Some \<lparr>out = concat (map (\<lambda>n. n @ [NL]) ns), err = e, status = 0\<rparr> \<and>
    distinct ns \<and> set ns = fst ` set ps \<union> snd ` set ps \<and> (\<forall>n \<in> set ns. NL \<notin> set n) \<and>
    (e = [] \<longleftrightarrow> acyclic {(a, b) \<in> set ps. a \<noteq> b}) \<and>
    (e = [] \<longrightarrow> sorted_wrt (\<lambda>x y. (y, x) \<notin> set ps) ns)"
proof -
  let ?g = "graph_of ps"
  obtain "is" e where t: "tsort_run pn input = Some \<lparr>out = concat (map (\<lambda>n. n @ [NL]) (map ((!) (names ?g)) is)), err = e, status = 0\<rparr>"
    "distinct is" "set is = {..<length (names ?g)}" "e = [] \<longrightarrow> topo ?g is" "e \<noteq> [] \<longrightarrow> \<not> acyclic (edges ?g)"
    using tsort_run_pairs [OF assms, of pn] by blast
  let ?ns = "map ((!) (names ?g)) is"
  have ns: "distinct ?ns" "set ?ns = fst ` set ps \<union> snd ` set ps"
    using names_lines [OF t(2,3) graph_of_ok(1)] graph_of_ok(2) [of ps] by simp_all
  have "e = [] \<longleftrightarrow> acyclic (edges ?g)" using t(4,5) topo_acyclic [OF graph_of_ok(1) t(2,3)] by blast
  then have c: "e = [] \<longleftrightarrow> acyclic {(a, b) \<in> set ps. a \<noteq> b}"
    using acyclic_names [OF graph_of_ok(1), of ps] graph_of_ok(3) [of ps] by simp
  have inj: "inj_on ((!) (names ?g)) {..<length (names ?g)}"
    using graph_of_ok(1) [of ps] by (auto simp: graph_ok_def intro!: inj_on_nth)
  have "(names ?g ! b, names ?g ! a) \<notin> nedges ?g" if "(b, a) \<notin> edges ?g" "a \<in> set is" "b \<in> set is" for a b
  proof
    assume "(names ?g ! b, names ?g ! a) \<in> nedges ?g"
    then obtain i j where "(i, j) \<in> edges ?g" "names ?g ! i = names ?g ! b" "names ?g ! j = names ?g ! a"
      by (auto simp: nedges_def)
    with edges_range [OF graph_of_ok(1)] inj that t(3) show False by (metis inj_onD lessThan_iff)
  qed
  with t(4) have "e = [] \<longrightarrow> sorted_wrt (\<lambda>x y. (y, x) \<notin> nedges ?g) ?ns"
    unfolding topo_def sorted_wrt_map by (auto intro: sorted_wrt_mono_rel [rotated])
  then have "e = [] \<longrightarrow> sorted_wrt (\<lambda>x y. (y, x) \<notin> set ps) ?ns"
    using ns(1) unfolding graph_of_ok(3) by (auto simp: sorted_wrt_iff_nth_less distinct_conv_nth)
  with t(1) c ns items_no_NL [OF assms] show ?thesis by (intro exI [of _ ?ns] exI [of _ e]) simp
qed

theorem tsort_topological_witness:
  "tsort_run ''tsort'' ''b a c b'' = Some \<lparr>out = ''c'' @ [NL] @ ''b'' @ [NL] @ ''a'' @ [NL], err = [], status = 0\<rparr>"
proof -
  have e: "{(a, b) \<in> set [(''b'', ''a''), (''c'', ''b'')]. a \<noteq> b} = {(''b'', ''a''), (''c'', ''b'')}" by auto
  have "{(''b'', ''a''), (''c'', ''b'')} \<subseteq> measure (\<lambda>n. if n = ''c'' then 0 else if n = ''b'' then 1 else 2)" by auto
  then have ac: "acyclic {(''b'', ''a''), (''c'', ''b'')}"
    by (rule wf_acyclic [OF wf_subset [OF wf_measure]])
  from tsort_topological [OF tsort_sample, of "''tsort''", unfolded e]
  show ?thesis
  proof (elim exE conjE)
    fix ns e
    assume n: "tsort_run ''tsort'' ''b a c b'' = Some \<lparr>out = concat (map (\<lambda>n. n @ [NL]) ns), err = e, status = 0\<rparr>"
      "distinct ns" "set ns = fst ` set [(''b'', ''a''), (''c'', ''b'')] \<union> snd ` set [(''b'', ''a''), (''c'', ''b'')]"
      "e = [] \<longleftrightarrow> acyclic {(''b'', ''a''), (''c'', ''b'')}"
      "e = [] \<longrightarrow> sorted_wrt (\<lambda>x y. (y, x) \<notin> set [(''b'', ''a''), (''c'', ''b'')]) ns"
    have nil: "e = []" using n(4) ac by blast
    have ns: "set ns = {''a'', ''b'', ''c''}" unfolding n(3) by (simp add: insert_commute)
    have "length ns = 3" using distinct_card [OF n(2)] ns by simp
    then obtain x y z where xyz: "ns = [x, y, z]" by (auto simp: numeral_3_eq_3 length_Suc_conv)
    have m: "x \<in> {''a'', ''b'', ''c''}" "y \<in> {''a'', ''b'', ''c''}" "z \<in> {''a'', ''b'', ''c''}"
      unfolding ns [symmetric] xyz by simp_all
    have d: "x \<noteq> y" "x \<noteq> z" "y \<noteq> z" using n(2) xyz by simp_all
    have od: "(y, x) \<notin> {(''b'', ''a''), (''c'', ''b'')}" "(z, x) \<notin> {(''b'', ''a''), (''c'', ''b'')}"
      "(z, y) \<notin> {(''b'', ''a''), (''c'', ''b'')}" using n(5) nil xyz by simp_all
    have "ns = [''c'', ''b'', ''a'']" unfolding xyz using m d od by (elim insertE emptyE) simp_all
    with n(1) nil show ?thesis by simp
  qed
qed

end
