(* ===== verification/Cut.thy ===== *)
theory Cut
  imports Iblok Getopt Stdio
begin

text \<open>
  \<open>cut/cut.c\<close>: selected bytes, characters or fields of each line.  \<open>cut_main\<close> is the whole program,
  from the command line through \<open>getopt\<close> and the list parser \<open>setlist\<close> to the three copying loops
  over buffered input.  \<open>mbm\<close> is \<open>MB_CUR_MAX\<close> and \<open>mb\<close> the C library's \<open>mbtowc\<close>, as in \<open>Iblok\<close>; \<open>long\<close>
  has 64 bits; a line has less than \<open>INT_MAX\<close> characters, so that the position \<open>i\<close> does not
  overflow.  Allocations succeed.
\<close>

section \<open>The program\<close>

abbreviation LONG_MAX :: int where "LONG_MAX \<equiv> 9223372036854775807"

text \<open>The static variables; a \<open>range\<close> is the pair of \<open>r_min\<close> and \<open>r_max\<close>.\<close>

type_synonym range = "int \<times> int"

record cutst =
  cut_method :: int
  cut_nflag :: bool
  cut_sflag :: bool
  wcdelim :: int
  mbdelim :: string
  cut_fields :: "range list"

definition cut_init :: cutst where
  "cut_init = \<lparr>cut_method = 0, cut_nflag = False, cut_sflag = False, wcdelim = 9, mbdelim = [TAB],
     cut_fields = []\<rparr>"

text \<open>\<open>error\<close>, \<open>usage\<close> and \<open>badlist\<close> print a message and exit with status 2.\<close>

definition cut_error :: "string \<Rightarrow> string \<Rightarrow> string" where
  "cut_error progname s = progname @ '': ERROR: '' @ s @ [NL]"

definition cut_usage :: string where
  "cut_usage = ''Usage: cut [-s] [-d<char>] {-c<list> | -f<list>} file ...''"

definition badlist :: "int \<Rightarrow> string" where
  "badlist method = (if method = 98 then ''bad list for b/c/f option'' else ''bad list for c/f option'')"

text \<open>The macro \<open>next\<close> on a C string: the length of its first character and the character.\<close>

definition cut_next :: "nat \<Rightarrow> mbtowc \<Rightarrow> string \<Rightarrow> int \<times> int" where
  "cut_next mbm mb s =
     (if s = [] then (0, 0) else if mbm > 1 then mb (take 16 s) else (1, uchar (hd s)))"

definition setdelim :: "nat \<Rightarrow> mbtowc \<Rightarrow> string \<Rightarrow> cutst \<Rightarrow> string + cutst" where
  "setdelim mbm mb s st =
     (case cut_next mbm mb s of
        (n, wc) \<Rightarrow>
          if n < 0 \<or> n > 0 \<and> drop (nat n) s \<noteq> [] then Inl ''no delimiter''
          else Inr (st\<lparr>wcdelim := wc, mbdelim := s\<rparr>))"

definition addrange :: "int \<Rightarrow> int \<Rightarrow> range list \<Rightarrow> range list" where
  "addrange m n rs = rs @ [(m, if n \<noteq> 0 then n else m)]"

fun cut_have :: "range list \<Rightarrow> int \<Rightarrow> bool" where
  "cut_have [] i = False"
| "cut_have ((mn, mx) # rs) i = (if i \<ge> mn \<and> i \<le> mx then True else cut_have rs i)"

text \<open>\<open>strtol\<close> on a string of digits.\<close>

definition strtol_digits :: "string \<Rightarrow> int" where
  "strtol_digits ds = min LONG_MAX (int (undecimal ds))"

text \<open>
  The loop of \<open>setlist\<close>; \<open>atn\<close> says that \<open>lp\<close> points to \<open>n\<close> rather than to \<open>m\<close>.  \<open>None\<close> is the call of
  \<open>badlist\<close>.
\<close>

function setlist_loop :: "int \<Rightarrow> int \<Rightarrow> bool \<Rightarrow> range list \<Rightarrow> string \<Rightarrow> range list option" where
  "setlist_loop m n atn rs [] = Some (if m \<noteq> 0 then addrange m n rs else rs)"
| "setlist_loop m n atn rs (c # s) =
     (if c = CHR ''-'' then setlist_loop (if m = 0 then 1 else m) LONG_MAX True rs s
      else if c = CHR '','' \<or> c = CHR '' '' \<or> c = TAB then
        setlist_loop 0 0 False (if m \<noteq> 0 then addrange m n rs else rs) s
      else if is_digit c then
        (let v = strtol_digits (c # takeWhile is_digit s)
         in if atn then setlist_loop m v True rs (dropWhile is_digit s)
            else setlist_loop v n False rs (dropWhile is_digit s))
      else None)"
  by pat_completeness auto
termination
  by (relation "measure (\<lambda>(m, n, atn, rs, s). length s)") (auto simp: less_Suc_eq_le length_dropWhile_le)

definition setlist :: "string \<Rightarrow> cutst \<Rightarrow> string + cutst" where
  "setlist s st =
     (case setlist_loop 0 0 False [] s of
        None \<Rightarrow> Inl (badlist (cut_method st))
      | Some [] \<Rightarrow> Inl ''no fields''
      | Some rs \<Rightarrow> Inr (st\<lparr>cut_fields := rs\<rparr>))"

text \<open>
  The loops over the input.  The state of \<open>cutb\<close>, \<open>cutbn\<close> and \<open>cutc\<close> is \<open>i\<close> and what has been
  written.
\<close>

definition cutb_step :: "range list \<Rightarrow> char \<Rightarrow> int \<times> string \<Rightarrow> int \<times> string" where
  "cutb_step rs c x =
     (case x of (i, w) \<Rightarrow>
        if c = NL then (1, w @ [c]) else (i + 1, if cut_have rs i then w @ [c] else w))"

definition cutb :: "range list \<Rightarrow> iblok \<Rightarrow> string" where
  "cutb rs ip = snd (ib_while_get (cutb_step rs) ip (1, []))"

definition cutbn_step :: "range list \<Rightarrow> string \<times> int \<Rightarrow> int \<times> string \<Rightarrow> int \<times> string" where
  "cutbn_step rs r x =
     (case (r, x) of ((cp, wc), i, w) \<Rightarrow>
        let n = int (length cp)
        in if wc = 10 then (1, w @ [NL])
           else (i + n, if cut_have rs (i + n - 1) then w @ cp else w))"

definition cutbn :: "mbtowc \<Rightarrow> range list \<Rightarrow> iblok \<Rightarrow> string" where
  "cutbn mb rs ip = snd (ib_while_getw mb (cutbn_step rs) ip (1, []))"

definition cutc_step :: "range list \<Rightarrow> string \<times> int \<Rightarrow> int \<times> string \<Rightarrow> int \<times> string" where
  "cutc_step rs r x =
     (case (r, x) of ((cp, wc), i, w) \<Rightarrow>
        if wc = 10 then (1, w @ [NL])
        else if wc \<noteq> weof then (i + 1, if cut_have rs i then w @ cp else w)
        else (i, w))"

definition cutc :: "mbtowc \<Rightarrow> range list \<Rightarrow> iblok \<Rightarrow> string" where
  "cutc mb rs ip = snd (ib_while_getw mb (cutc_step rs) ip (1, []))"

text \<open>
  \<open>cutf\<close>.  \<open>cf_line\<close> are the bytes from \<open>line\<close> up to \<open>lp\<close>, \<open>cf_size\<close> is \<open>linesize\<close>.  \<open>cutf_step\<close> is one turn
  of the loop behind the call of \<open>ib_getw\<close> or \<open>ib_get\<close>, with \<open>None\<close> for the null pointer at the end of
  the input; since the loop tests \<open>cp\<close> at its end, the turn for the end of the input comes last.
\<close>

record cutfst =
  cf_line :: string
  cf_size :: nat
  cf_i :: int
  cf_other :: bool
  cf_got :: bool
  cf_out :: string

definition cutf_store :: "char \<Rightarrow> cutfst \<Rightarrow> cutfst" where
  "cutf_store c s =
     s\<lparr>cf_size := (if length (cf_line s) \<ge> cf_size s then cf_size s + 128 else cf_size s),
       cf_line := cf_line s @ [c]\<rparr>"

definition cutf_step :: "cutst \<Rightarrow> string option \<times> int \<Rightarrow> cutfst \<Rightarrow> cutfst" where
  "cutf_step st r s =
     (case r of (cp, wc) \<Rightarrow>
        let s = (if wc = wcdelim st then s\<lparr>cf_got := True\<rparr> else s)
        in if cp = None \<or> wc = 10 \<or> wc = wcdelim st then
             (let s =
                (if cut_have (cut_fields st) (cf_i s) \<and> (\<not> cut_sflag st \<or> cf_got s \<or> wc = wcdelim st) \<or>
                    \<not> cut_sflag st \<and> cf_i s = 1 \<and> (cp = None \<or> wc = 10)
                 then s\<lparr>cf_out := cf_out s @ (if cf_other s then mbdelim st else []) @ cf_line s,
                        cf_other := True\<rparr>
                 else s);
                  s =
                (if wc = 10
                 then s\<lparr>cf_out := cf_out s @ (if cf_other s then [NL] else []), cf_i := 1, cf_got := False,
                        cf_other := False\<rparr>
                 else s\<lparr>cf_i := cf_i s + 1\<rparr>)
              in s\<lparr>cf_line := []\<rparr>)
           else fold cutf_store (the cp) s)"

definition cutf :: "nat \<Rightarrow> mbtowc \<Rightarrow> cutst \<Rightarrow> nat \<Rightarrow> iblok \<Rightarrow> string \<times> nat" where
  "cutf mbm mb st linesize ip =
     (let s = \<lparr>cf_line = [], cf_size = (if linesize = 0 then 128 else linesize), cf_i = 1,
               cf_other = False, cf_got = False, cf_out = []\<rparr>;
          s = (if mbm > 1 then ib_while_getw mb (\<lambda>(cp, wc). cutf_step st (Some cp, wc)) ip s
               else ib_while_get (\<lambda>c. cutf_step st (Some [c], uchar c)) ip s);
          s = cutf_step st (None, weof) s
      in (cf_out s, cf_size s))"

text \<open>\<open>fdcut\<close> and \<open>fncut\<close>; \<open>linesize\<close> is static in \<open>cutf\<close>.  The last result is standard input afterwards.\<close>

definition fdcut :: "nat \<Rightarrow> mbtowc \<Rightarrow> cutst \<Rightarrow> fdesc \<Rightarrow> nat \<Rightarrow> string \<times> nat \<times> fdesc" where
  "fdcut mbm mb st fd linesize =
     (let ip = ib_alloc mbm fd 0; m = cut_method st
      in if m = 98 then
           (if cut_nflag st \<and> mbm > 1 then (cutbn mb (cut_fields st) ip, linesize, ib_wafter mb ip)
            else (cutb (cut_fields st) ip, linesize, ib_after ip))
         else if m = 99 then
           (if mbm > 1 then (cutc mb (cut_fields st) ip, linesize, ib_wafter mb ip)
            else (cutb (cut_fields st) ip, linesize, ib_after ip))
         else if m = 102 then
           (case cutf mbm mb st linesize ip of
              (w, n) \<Rightarrow> (w, n, if mbm > 1 then ib_wafter mb ip else ib_after ip))
         else ([], linesize, fd))"

definition fncut :: "nat \<Rightarrow> mbtowc \<Rightarrow> filesys \<Rightarrow> string \<Rightarrow> cutst \<Rightarrow> string \<Rightarrow> nat \<times> fdesc \<Rightarrow>
    outcome \<times> nat \<times> fdesc" where
  "fncut mbm mb fs progname st fn x =
     (case x of (linesize, stdin) \<Rightarrow>
        if fn = ''-'' then
          (case fdcut mbm mb st stdin linesize of (w, n, fd) \<Rightarrow> (\<lparr>out = w, err = [], status = 0\<rparr>, n, fd))
        else case fs fn of
               None \<Rightarrow> (\<lparr>out = [], err = progname @ '': WARNING: cannot open '' @ fn @ [NL], status = 1\<rparr>, x)
             | Some fd \<Rightarrow>
                 (case fdcut mbm mb st fd linesize of
                    (w, n, fd) \<Rightarrow> (\<lparr>out = w, err = [], status = 0\<rparr>, n, stdin)))"

text \<open>
  The option loop of \<open>main\<close>, over the results of \<open>getopt\<close>: the diagnostics so far and the message of
  a call of \<open>error\<close>, or the settings.
\<close>

fun cut_opts :: "nat \<Rightarrow> mbtowc \<Rightarrow> optev list \<Rightarrow> cutst \<Rightarrow> (string \<times> string) + cutst" where
  "cut_opts mbm mb [] st = Inr st"
| "cut_opts mbm mb ((i, arg, msg) # evs) st =
     (case (if i = 98 \<or> i = 99 \<or> i = 102 then
              (if cut_method st \<noteq> 0 \<and> cut_method st \<noteq> i then Inl cut_usage
               else setlist (the arg) (st\<lparr>cut_method := i\<rparr>))
            else if i = 100 then setdelim mbm mb (the arg) st
            else if i = 110 then Inr (st\<lparr>cut_nflag := True\<rparr>)
            else if i = 115 then Inr (st\<lparr>cut_sflag := True\<rparr>)
            else Inl cut_usage) of
        Inl e \<Rightarrow> Inl (msg, e)
      | Inr st' \<Rightarrow> cut_opts mbm mb evs st')"

fun cut_files :: "(string \<Rightarrow> 's \<Rightarrow> outcome \<times> 's) \<Rightarrow> string list \<Rightarrow> 's \<Rightarrow> outcome list" where
  "cut_files f [] s = []"
| "cut_files f (a # as) s = (case f a s of (r, s') \<Rightarrow> r # cut_files f as s')"

definition cut_main :: "nat \<Rightarrow> mbtowc \<Rightarrow> filesys \<Rightarrow> fdesc \<Rightarrow> string \<Rightarrow> string list \<Rightarrow> outcome" where
  "cut_main mbm mb fs stdin progname argv =
     (case getopt_all True None argv ''b:c:d:f:ns'' optst_init of
        (evs, ost) \<Rightarrow>
          (case cut_opts mbm mb evs cut_init of
             Inl (msg, e) \<Rightarrow> \<lparr>out = [], err = msg @ cut_error progname e, status = 2\<rparr>
           | Inr st \<Rightarrow>
               if cut_method st = 0
               then \<lparr>out = [], err = cut_error progname (badlist (cut_method st)), status = 2\<rparr>
               else if drop (optind ost) argv \<noteq> []
               then run_all (cut_files (fncut mbm mb fs progname st) (drop (optind ost) argv) (0, stdin))
               else \<lparr>out = fst (fdcut mbm mb st stdin 0), err = [], status = 0\<rparr>))"

section \<open>Specification\<close>

text \<open>
  Text as a list of characters, each with its bytes and its code.  A text is cut into lines and a
  line into fields.
\<close>

definition char_bytes :: "(string \<times> int) list \<Rightarrow> string" where
  "char_bytes cs = concat (map fst cs)"

fun pick :: "(int \<Rightarrow> bool) \<Rightarrow> int \<Rightarrow> 'a list \<Rightarrow> 'a list" where
  "pick P i [] = []"
| "pick P i (x # xs) = (if P i then x # pick P (i + 1) xs else pick P (i + 1) xs)"

text \<open>
  What is written for a line: nothing, or the selected fields.  A line with a single field has no
  delimiter; it is copied unless \<open>-s\<close> was given.
\<close>

definition cut_line :: "cutst \<Rightarrow> (string \<times> int) list \<Rightarrow> string option" where
  "cut_line st l =
     (case splitp (\<lambda>c. snd c = wcdelim st) l of
        [f] \<Rightarrow> if cut_sflag st then None else Some (char_bytes f)
      | fs \<Rightarrow>
          (case pick (cut_have (cut_fields st)) 1 fs of
             [] \<Rightarrow> None
           | ps \<Rightarrow> Some (join (mbdelim st) (map char_bytes ps))))"

definition cut_text :: "cutst \<Rightarrow> (string \<times> int) list \<Rightarrow> string" where
  "cut_text st cs =
     (let ls = splitp (\<lambda>c. snd c = 10) cs
      in concat (map (\<lambda>l. case cut_line st l of None \<Rightarrow> [] | Some w \<Rightarrow> w @ [NL]) (butlast ls)) @
         (case cut_line st (last ls) of None \<Rightarrow> [] | Some w \<Rightarrow> w))"

definition text_chars :: "nat \<Rightarrow> mbtowc \<Rightarrow> string \<Rightarrow> (string \<times> int) list" where
  "text_chars mbm mb s = (if mbm > 1 then mb_chars mb mbm s else map (\<lambda>c. ([c], uchar c)) s)"

section \<open>The field loop\<close>

text \<open>
  What the loop writes for the fields of a line that end in a delimiter, when fields have been
  written before (\<open>o\<close>) or not.
\<close>

fun emits :: "(int \<Rightarrow> bool) \<Rightarrow> string \<Rightarrow> int \<Rightarrow> bool \<Rightarrow> string list \<Rightarrow> string" where
  "emits P d i oth [] = []"
| "emits P d i oth (f # fs) =
     (if P i then (if oth then d else []) @ f @ emits P d (i + 1) True fs else emits P d (i + 1) oth fs)"

lemma emits_join:
  "emits P d i oth fs =
     (if pick P i fs = [] then [] else (if oth then d else []) @ join d (pick P i fs))"
proof (induction fs arbitrary: i oth)
  case (Cons f fs)
  then show ?case by (cases "pick P (i + 1) fs") auto
qed simp

lemma pick_map: "pick P i (map f xs) = map f (pick P i xs)"
  by (induction xs arbitrary: i) auto

lemma pick_app: "pick P i (xs @ ys) = pick P i xs @ pick P (i + int (length xs)) ys"
  by (induction xs arbitrary: i) (auto simp: algebra_simps)

lemma emits_app:
  "emits P d i oth (xs @ ys) =
     emits P d i oth xs @ emits P d (i + int (length xs)) (oth \<or> pick P i xs \<noteq> []) ys"
  by (induction xs arbitrary: i oth) (auto simp: algebra_simps)

lemma fold_cutf_store:
  obtains k where "fold cutf_store bs s = s\<lparr>cf_size := k, cf_line := cf_line s @ bs\<rparr>"
proof -
  have "\<exists>k. fold cutf_store bs s = s\<lparr>cf_size := k, cf_line := cf_line s @ bs\<rparr>"
  proof (induction bs arbitrary: s)
    case Nil
    show ?case by (intro exI [of _ "cf_size s"]) simp
  next
    case (Cons b bs)
    from Cons [of "cutf_store b s"] show ?case by (auto simp: cutf_store_def)
  qed
  with that show ?thesis by blast
qed

definition cutf_char :: "cutst \<Rightarrow> string \<times> int \<Rightarrow> cutfst \<Rightarrow> cutfst" where
  "cutf_char st c = cutf_step st (Some (fst c), snd c)"

text \<open>The state without the size of the line buffer, which the output does not depend on.\<close>

definition cf_same :: "cutfst \<Rightarrow> string \<Rightarrow> int \<Rightarrow> bool \<Rightarrow> bool \<Rightarrow> string \<Rightarrow> bool" where
  "cf_same s l i oth got w \<longleftrightarrow> cf_line s = l \<and> cf_i s = i \<and> cf_other s = oth \<and> cf_got s = got \<and> cf_out s = w"

lemma cutf_plain:
  assumes "\<And>c. c \<in> set f \<Longrightarrow> snd c \<noteq> 10 \<and> snd c \<noteq> wcdelim st" "cf_same s l i oth got w"
  shows "cf_same (fold (cutf_char st) f s) (l @ char_bytes f) i oth got w"
  using assms
proof (induction f arbitrary: s l)
  case (Cons c f)
  obtain k where k: "fold cutf_store (fst c) s = s\<lparr>cf_size := k, cf_line := cf_line s @ fst c\<rparr>"
    by (rule fold_cutf_store)
  with Cons.prems have "cf_same (cutf_char st c s) (l @ fst c) i oth got w"
    by (simp add: cutf_char_def cutf_step_def cf_same_def)
  from Cons.IH [OF _ this] Cons.prems show ?case by (simp add: char_bytes_def)
qed (simp add: char_bytes_def)

text \<open>Over a line the loop writes the selected fields that end in a delimiter and keeps the last one.\<close>

lemma cutf_fields:
  assumes "\<And>c. c \<in> set l \<Longrightarrow> snd c \<noteq> 10" "wcdelim st \<noteq> 10" "cf_same s [] i oth got w"
  defines "fs \<equiv> map char_bytes (splitp (\<lambda>c. snd c = wcdelim st) l)"
  defines "P \<equiv> cut_have (cut_fields st)"
  shows "cf_same (fold (cutf_char st) l s) (last fs) (i + int (length fs) - 1)
      (oth \<or> pick P i (butlast fs) \<noteq> []) (got \<or> length fs > 1)
      (w @ emits P (mbdelim st) i oth (butlast fs))"
  using assms(1,3) unfolding fs_def
proof (induction l arbitrary: s i oth got w rule: length_induct)
  case (1 l)
  show ?case
  proof (rule split_first [of l "\<lambda>c. snd c = wcdelim st"])
    assume n: "\<And>c. c \<in> set l \<Longrightarrow> snd c \<noteq> wcdelim st"
    with cutf_plain [OF _ "1.prems"(2), of l st] "1.prems"(1) show ?thesis by simp
  next
    fix as y bs assume l: "l = as @ y # bs" and n: "\<And>c. c \<in> set as \<Longrightarrow> snd c \<noteq> wcdelim st"
      and y: "snd y = wcdelim st"
    have "cf_same (fold (cutf_char st) as s) (char_bytes as) i oth got w"
      using cutf_plain [OF _ "1.prems"(2), of as st] "1.prems"(1) n by (simp add: l)
    then have s: "cf_same (fold (cutf_char st) (as @ [y]) s) [] (i + 1) (oth \<or> P i) True
        (w @ (if P i then (if oth then mbdelim st else []) @ char_bytes as else []))"
      using y assms(2) by (auto simp: cutf_char_def cutf_step_def cf_same_def P_def Let_def)
    let ?fs = "map char_bytes (splitp (\<lambda>c. snd c = wcdelim st) bs)"
    have "butlast (char_bytes as # ?fs) = char_bytes as # butlast ?fs" by simp
    moreover have "?fs \<noteq> []" by simp
    moreover have "fold (cutf_char st) l s = fold (cutf_char st) bs (fold (cutf_char st) (as @ [y]) s)"
      by (simp add: l)
    moreover have "splitp (\<lambda>c. snd c = wcdelim st) l = as # splitp (\<lambda>c. snd c = wcdelim st) bs"
      unfolding l by (rule splitp_app) (use n y in auto)
    ultimately show ?thesis
      using "1.IH" [rule_format, of bs, OF _ _ s] "1.prems"(1)
      by (cases "P i") (auto simp: l cf_same_def algebra_simps)
  qed
qed

text \<open>The end of a line, or of the input, writes the last field if it is selected.\<close>

lemma cutf_eol:
  assumes "\<And>c. c \<in> set l \<Longrightarrow> snd c \<noteq> 10" "wcdelim st \<noteq> 10" "wcdelim st \<noteq> weof"
    and "cf_same s [] 1 False False w"
  defines "s' \<equiv> fold (cutf_char st) l s"
  shows "cf_same (cutf_char st ([NL], 10) s') [] 1 False False
      (w @ (case cut_line st l of None \<Rightarrow> [] | Some v \<Rightarrow> v @ [NL]))"
    and "cf_out (cutf_step st (None, weof) s') =
      w @ (case cut_line st l of None \<Rightarrow> [] | Some v \<Rightarrow> v)"
proof -
  define P where "P = cut_have (cut_fields st)"
  define fs where "fs = map char_bytes (splitp (\<lambda>c. snd c = wcdelim st) l)"
  have ne: "fs \<noteq> []" by (simp add: fs_def)
  then have fs: "fs = butlast fs @ [last fs]" by simp
  have s': "cf_same s' (last fs) (int (length fs)) (pick P 1 (butlast fs) \<noteq> []) (length fs > 1)
      (w @ emits P (mbdelim st) 1 False (butlast fs))"
    using cutf_fields [OF assms(1,2,4)] by (simp add: fs_def P_def s'_def)
  have one: "int (length fs) = 1 \<longleftrightarrow> length fs = 1" by linarith
  have cl: "cut_line st l =
      (if length fs = 1 then (if cut_sflag st then None else Some (last fs))
       else if pick P 1 fs = [] then None else Some (emits P (mbdelim st) 1 False fs))"
    unfolding emits_join fs_def P_def cut_line_def pick_map
    by (cases "splitp (\<lambda>c. snd c = wcdelim st) l") (auto split: list.splits)
  have len: "int (length (butlast fs)) + 1 = int (length fs)" using ne by (cases fs rule: rev_cases) auto
  have em: "emits P (mbdelim st) 1 False fs = emits P (mbdelim st) 1 False (butlast fs) @
      (if P (int (length fs)) then (if pick P 1 (butlast fs) \<noteq> [] then mbdelim st else []) @ last fs else [])"
    by (subst fs, subst emits_app) (use len in \<open>auto simp: algebra_simps\<close>)
  have pk: "pick P 1 fs \<noteq> [] \<longleftrightarrow> pick P 1 (butlast fs) \<noteq> [] \<or> P (int (length fs))"
    by (subst fs, subst pick_app) (use len in \<open>auto simp: algebra_simps\<close>)
  have single: "length fs = 1 \<Longrightarrow> butlast fs = []" using fs by (cases fs) auto
  have none: "pick P 1 (butlast fs) = [] \<Longrightarrow> emits P (mbdelim st) 1 False (butlast fs) = []"
    by (simp add: emits_join)
  note all = s' [unfolded cf_same_def] one cl em pk assms(2,3) P_def [symmetric]
  show "cf_same (cutf_char st ([NL], 10) s') [] 1 False False
      (w @ (case cut_line st l of None \<Rightarrow> [] | Some v \<Rightarrow> v @ [NL]))"
  proof (cases "length fs = 1")
    case True
    with single [OF True] all show ?thesis
      by (auto simp: cutf_char_def cutf_step_def cf_same_def Let_def)
  next
    case False
    with ne have "length fs > 1" by (cases fs) auto
    with False all none show ?thesis
      by (auto simp: cutf_char_def cutf_step_def cf_same_def Let_def)
  qed
  show "cf_out (cutf_step st (None, weof) s') =
      w @ (case cut_line st l of None \<Rightarrow> [] | Some v \<Rightarrow> v)"
  proof (cases "length fs = 1")
    case True
    with single [OF True] all show ?thesis by (auto simp: cutf_step_def Let_def)
  next
    case False
    with ne have "length fs > 1" by (cases fs) auto
    with False all none show ?thesis by (auto simp: cutf_step_def Let_def)
  qed
qed

lemma cutf_char_NL: "snd c = 10 \<Longrightarrow> cutf_char st c = cutf_char st ([NL], 10)"
  by (auto simp: fun_eq_iff cutf_char_def cutf_step_def)

lemma cutf_text:
  assumes "wcdelim st \<noteq> 10" "wcdelim st \<noteq> weof" "cf_same s [] 1 False False w"
  shows "cf_out (cutf_step st (None, weof) (fold (cutf_char st) cs s)) = w @ cut_text st cs"
  using assms(3)
proof (induction cs arbitrary: s w rule: length_induct)
  case (1 cs)
  show ?case
  proof (rule split_first [of cs "\<lambda>c. snd c = 10"])
    assume n: "\<And>c. c \<in> set cs \<Longrightarrow> snd c \<noteq> 10"
    with cutf_eol(2) [OF n assms(1,2) "1.prems"] show ?thesis by (simp add: cut_text_def)
  next
    fix as y bs assume cs: "cs = as @ y # bs" and n: "\<And>c. c \<in> set as \<Longrightarrow> snd c \<noteq> 10" and y: "snd y = 10"
    note e = cutf_eol(1) [OF n assms(1,2) "1.prems"]
    have "splitp (\<lambda>c. snd c = 10) cs = as # splitp (\<lambda>c. snd c = 10) bs"
      unfolding cs by (rule splitp_app) (use n y in auto)
    then have "cut_text st cs = (case cut_line st as of None \<Rightarrow> [] | Some v \<Rightarrow> v @ [NL]) @ cut_text st bs"
      by (simp add: cut_text_def Let_def)
    with "1.IH" [rule_format, of bs, OF _ e] cutf_char_NL [OF y] show ?thesis by (simp add: cs)
  qed
qed

text \<open>The line buffer is never written outside its bounds.\<close>

lemma cutf_line_bound:
  assumes "length (cf_line s) \<le> cf_size s"
  shows "length (cf_line (cutf_step st r s)) \<le> cf_size (cutf_step st r s)"
proof -
  have "length (cf_line (fold cutf_store bs s)) \<le> cf_size (fold cutf_store bs s)"
    if "length (cf_line s) \<le> cf_size s" for bs s
    using that by (induction bs arbitrary: s) (auto simp: cutf_store_def)
  with assms show ?thesis by (cases r) (auto simp: cutf_step_def Let_def)
qed

text \<open>The whole of \<open>cutf\<close> on an input that can be read.\<close>

lemma cutf_correct:
  assumes "fd_good fd" "mbtowc_ok mb" "wcdelim st \<noteq> 10" "wcdelim st \<noteq> weof"
  shows "fst (cutf mbm mb st n (ib_alloc mbm fd 0)) = cut_text st (text_chars mbm mb (fd_rest fd))"
proof -
  let ?ip = "ib_alloc mbm fd 0"
  let ?s = "\<lparr>cf_line = [], cf_size = (if n = 0 then 128 else n), cf_i = 1,
               cf_other = False, cf_got = False, cf_out = []\<rparr>"
  have w: "ib_while_getw mb f ?ip b = fold f (mb_chars mb mbm (fd_rest fd)) b" if "mbm > 1"
    for f and b :: cutfst
    using that assms(1,2) ibw.loop_fold [of mb ?ip f b] by simp
  have c: "ib_while_get f ?ip b = fold f (fd_rest fd) b" for f and b :: cutfst
    using assms(1) ibc.loop_fold [of ?ip f b] by simp
  have "(\<lambda>(cp, wc). cutf_step st (Some cp, wc)) = cutf_char st"
    by (auto simp: fun_eq_iff cutf_char_def)
  moreover have "fold (\<lambda>c. cutf_step st (Some [c], uchar c)) s = fold (cutf_char st) (map (\<lambda>c. ([c], uchar c)) s)" for s
    by (induction s) (auto simp: fun_eq_iff cutf_char_def)
  moreover have "cf_same ?s [] 1 False False []" by (simp add: cf_same_def)
  from cutf_text [OF assms(3,4) this]
  have "cf_out (cutf_step st (None, weof) (fold (cutf_char st) cs ?s)) = cut_text st cs" for cs by simp
  ultimately show ?thesis by (simp add: cutf_def w c text_chars_def Let_def)
qed

section \<open>Lists\<close>

text \<open>The items of a list operand, as text and as sets of positions.\<close>

datatype item = One nat | From nat | Upto nat | FromTo nat nat

fun item_text :: "item \<Rightarrow> string" where
  "item_text (One m) = decimal m"
| "item_text (From m) = decimal m @ ''-''"
| "item_text (Upto n) = ''-'' @ decimal n"
| "item_text (FromTo m n) = decimal m @ ''-'' @ decimal n"

fun item_has :: "item \<Rightarrow> int \<Rightarrow> bool" where
  "item_has (One m) i = (i = int m)"
| "item_has (From m) i = (int m \<le> i)"
| "item_has (Upto n) i = (1 \<le> i \<and> i \<le> int n)"
| "item_has (FromTo m n) i = (int m \<le> i \<and> i \<le> int n)"

definition long_ok :: "nat \<Rightarrow> bool" where
  "long_ok n \<longleftrightarrow> 1 \<le> n \<and> int n \<le> LONG_MAX"

fun item_ok :: "item \<Rightarrow> bool" where
  "item_ok (One m) = long_ok m"
| "item_ok (From m) = long_ok m"
| "item_ok (Upto n) = long_ok n"
| "item_ok (FromTo m n) = (long_ok m \<and> long_ok n)"

fun item_range :: "item \<Rightarrow> range" where
  "item_range (One m) = (int m, int m)"
| "item_range (From m) = (int m, LONG_MAX)"
| "item_range (Upto n) = (1, int n)"
| "item_range (FromTo m n) = (int m, int n)"

lemma is_digit_codes [simp]:
  "\<not> is_digit (CHR ''-'')" "\<not> is_digit (CHR '','')" "\<not> is_digit (CHR '' '')" "\<not> is_digit TAB"
  by (simp_all add: is_digit_def uchar_def)

lemma takeWhile_digits: "list_all is_digit ds \<Longrightarrow> (s = [] \<or> \<not> is_digit (hd s)) \<Longrightarrow>
    takeWhile is_digit (ds @ s) = ds \<and> dropWhile is_digit (ds @ s) = s"
proof (induction ds)
  case Nil
  then show ?case by (cases s) auto
qed simp

lemma setlist_decimal:
  assumes "long_ok k" "s = [] \<or> \<not> is_digit (hd s)"
  shows "setlist_loop m n atn rs (decimal k @ s) =
    (if atn then setlist_loop m (int k) True rs s else setlist_loop (int k) n False rs s)"
proof -
  have d: "list_all is_digit (decimal k)" using decimal_digits [of _ k] by (auto simp: list_all_iff)
  obtain c ds where cds: "decimal k = c # ds" using decimal_ne [of k] by (cases "decimal k") auto
  have dig: "is_digit c" using d cds by simp
  then have c: "c \<noteq> CHR ''-''" "c \<noteq> CHR '',''" "c \<noteq> CHR '' ''" "c \<noteq> TAB"
    by (metis is_digit_codes)+
  have "takeWhile is_digit (ds @ s) = ds \<and> dropWhile is_digit (ds @ s) = s"
    by (rule takeWhile_digits) (use d cds assms(2) in auto)
  moreover have "strtol_digits (c # ds) = int k"
    using assms(1) undecimal_decimal [of k] by (simp add: cds strtol_digits_def long_ok_def)
  ultimately show ?thesis using c dig by (simp add: cds Let_def)
qed

lemma setlist_item:
  assumes "item_ok it" "s = [] \<or> (\<exists>t. s = CHR '','' # t)"
  shows "\<exists>m n atn. m \<noteq> 0 \<and> addrange m n rs = rs @ [item_range it] \<and>
    setlist_loop 0 0 False rs (item_text it @ s) = setlist_loop m n atn rs s"
proof -
  have h: "s = [] \<or> \<not> is_digit (hd s)" using assms(2) by auto
  show ?thesis
  proof (cases it)
    case (One m)
    with assms(1) setlist_decimal [OF _ h, of m 0 0 False rs] show ?thesis
      by (intro exI [of _ "int m"] exI [of _ 0] exI [of _ False]) (simp add: addrange_def long_ok_def)
  next
    case (From m)
    with assms(1) setlist_decimal [of m "''-'' @ s" 0 0 False rs] show ?thesis
      by (intro exI [of _ "int m"] exI [of _ LONG_MAX] exI [of _ True]) (simp add: addrange_def long_ok_def)
  next
    case (Upto n)
    with assms(1) setlist_decimal [OF _ h, of n 1 LONG_MAX True rs] show ?thesis
      by (intro exI [of _ 1] exI [of _ "int n"] exI [of _ True]) (simp add: addrange_def long_ok_def)
  next
    case (FromTo m n)
    with assms(1) setlist_decimal [of m "''-'' @ decimal n @ s" 0 0 False rs]
      setlist_decimal [OF _ h, of n "int m" LONG_MAX True rs] show ?thesis
      by (intro exI [of _ "int m"] exI [of _ "int n"] exI [of _ True]) (simp add: addrange_def long_ok_def)
  qed
qed

lemma setlist_items:
  "list_all item_ok its \<Longrightarrow>
     setlist_loop 0 0 False rs (join '','' (map item_text its)) = Some (rs @ map item_range its)"
proof (induction its arbitrary: rs)
  case (Cons it its)
  show ?case
  proof (cases its)
    case Nil
    with Cons.prems setlist_item [of it "[]" rs] show ?thesis by auto
  next
    case (Cons it' its')
    with Cons.prems setlist_item [of it "CHR '','' # join '','' (map item_text its)" rs]
      Cons.IH [of "rs @ [item_range it]"] show ?thesis by auto
  qed
qed simp

lemma cut_have_iff: "cut_have rs i \<longleftrightarrow> (\<exists>(mn, mx) \<in> set rs. mn \<le> i \<and> i \<le> mx)"
  by (induction rs i rule: cut_have.induct) auto

lemma cut_have_items:
  assumes "i \<le> LONG_MAX"
  shows "cut_have (map item_range its) i \<longleftrightarrow> (\<exists>it \<in> set its. item_has it i)"
proof -
  have "(case item_range it of (mn, mx) \<Rightarrow> mn \<le> i \<and> i \<le> mx) \<longleftrightarrow> item_has it i" for it
    using assms by (cases it) auto
  then show ?thesis by (auto simp: cut_have_iff)
qed

section \<open>Properties\<close>

text \<open>
  (C22) The list operand.  A list written as items \<open>m\<close>, \<open>m-\<close>, \<open>-n\<close> and \<open>m-n\<close> separated by commas is accepted, and
  the field, character or byte at position \<open>i\<close> is selected exactly when one of the items covers it.
\<close>

theorem setlist_selects:
  assumes "its \<noteq> []" "list_all item_ok its" "i \<le> LONG_MAX"
  shows "\<exists>rs. setlist (join '','' (map item_text its)) st = Inr (st\<lparr>cut_fields := rs\<rparr>) \<and>
    (cut_have rs i \<longleftrightarrow> (\<exists>it \<in> set its. item_has it i))"
  using setlist_items [OF assms(2), of "[]"] assms(1) cut_have_items [OF assms(3), of its]
  by (cases its) (auto simp: setlist_def)

theorem setlist_selects_witness:
  "\<exists>rs. setlist ''2,4-'' cut_init = Inr (cut_init\<lparr>cut_fields := rs\<rparr>) \<and> (cut_have rs 3 \<longleftrightarrow> False)"
proof -
  have t: "join '','' (map item_text [One 2, From 4]) = ''2,4-''"
    by (simp add: decimal.simps)
  have "[One 2, From 4] \<noteq> []" "list_all item_ok [One 2, From 4]" "(3 :: int) \<le> LONG_MAX"
    by (simp_all add: long_ok_def)
  from setlist_selects [OF this, of cut_init] show ?thesis unfolding t by auto
qed

lemma cut_files_ok:
  assumes "\<And>a. a \<in> set as \<Longrightarrow> a \<noteq> ''-'' \<and> (\<exists>fd. fs a = Some fd \<and> fd_good fd)"
    and "mbtowc_ok mb" "wcdelim st \<noteq> 10" "wcdelim st \<noteq> weof" "cut_method st = 102"
  shows "run_all (cut_files (fncut mbm mb fs progname st) as x) =
    \<lparr>out = concat (map (\<lambda>a. cut_text st (text_chars mbm mb (fd_rest (the (fs a))))) as), err = [], status = 0\<rparr>"
proof -
  let ?r = "\<lambda>a. \<lparr>out = cut_text st (text_chars mbm mb (fd_rest (the (fs a)))), err = [], status = 0\<rparr>"
  have "\<exists>x'. fncut mbm mb fs progname st a x = (?r a, x')" if "a \<in> set as" for a x
  proof -
    from assms(1) [OF that] obtain fd where a: "a \<noteq> ''-''" "fs a = Some fd" "fd_good fd" by auto
    with cutf_correct [OF a(3) assms(2-4), of mbm "fst x"] show ?thesis using assms(5)
      by (auto simp: fncut_def fdcut_def Let_def split: prod.splits)
  qed
  then have "cut_files (fncut mbm mb fs progname st) as x = map ?r as" for x
    using assms(1)
  proof (induction as arbitrary: x)
    case (Cons a as)
    from Cons.prems(1) [of a x] obtain x' where "fncut mbm mb fs progname st a x = (?r a, x')" by auto
    moreover have "cut_files (fncut mbm mb fs progname st) as x' = map ?r as"
      using Cons.IH [OF Cons.prems(1,2)] by auto
    ultimately show ?case by simp
  qed simp
  moreover have "fold (OR) (map (\<lambda>a. 0 :: int) as) 0 = 0" by (induction as) auto
  ultimately show ?thesis by (simp add: run_all_def comp_def)
qed

text \<open>
  (C21) \<open>cut -f\<close> from the command line to the output.  With a delimiter \<open>d\<close> that is one character
  other than the newline, a list of fields and any number of readable files, and with or without
  \<open>-s\<close>, the output consists of the selected fields of each line joined with the delimiter; lines
  without the delimiter are copied, or left out with \<open>-s\<close>; a line of which no field is selected is
  left out together with its newline; the last line gets no newline if it had none.  Multibyte
  characters are never cut.
\<close>

theorem cut_fields_output:
  assumes "its \<noteq> []" "list_all item_ok its"
    and "cut_next mbm mb d = (int (length d), wc)" "wc \<noteq> 10" "wc \<noteq> weof"
    and "as \<noteq> []" "operands_ok as"
    and "\<And>a. a \<in> set as \<Longrightarrow> a \<noteq> ''-'' \<and> (\<exists>fd. fs a = Some fd \<and> fd_good fd)"
    and "mbtowc_ok mb"
  shows "let opts = [Opt CHR ''f'' (Some (join '','' (map item_text its))), Opt CHR ''d'' (Some d)] @
               (if sf then [Opt CHR ''s'' None] else []);
             st = cut_init\<lparr>cut_method := 102, cut_fields := map item_range its, wcdelim := wc,
                           mbdelim := d, cut_sflag := sf\<rparr>
         in cut_main mbm mb fs stdin progname (''cut'' # render opts @ as) =
              \<lparr>out = concat (map (\<lambda>a. cut_text st (text_chars mbm mb (fd_rest (the (fs a))))) as),
               err = [], status = 0\<rparr>"
proof -
  define list where "list = join '','' (map item_text its)"
  define opts where "opts = [Opt CHR ''f'' (Some list), Opt CHR ''d'' (Some d)] @
    (if sf then [Opt CHR ''s'' None] else [])"
  define st where "st = cut_init\<lparr>cut_method := 102, cut_fields := map item_range its, wcdelim := wc,
    mbdelim := d, cut_sflag := sf\<rparr>"
  have r: "list_all (renderable (opt_letters ''b:c:d:f:ns'')) opts"
    by (simp add: opts_def opt_letters_def has_colon_def)
  obtain evs ost where g: "getopt_all True None (''cut'' # render opts @ as) ''b:c:d:f:ns'' optst_init = (evs, ost)"
    by fastforce
  with getopt_all_render [OF r assms(7), where e = True and l = None and prog = "''cut''"]
  have evs: "evs = map (\<lambda>x. case x of Opt c a \<Rightarrow> (uchar c, a, []) | _ \<Rightarrow> (eof, None, [])) opts"
    and ops: "drop (optind ost) (''cut'' # render opts @ as) = as" by simp_all
  have l: "setlist list (cut_init\<lparr>cut_method := 102\<rparr>) =
      Inr (cut_init\<lparr>cut_method := 102, cut_fields := map item_range its\<rparr>)"
    using setlist_items [OF assms(2), of "[]"] assms(1) by (cases its) (auto simp: setlist_def list_def)
  have codes: "uchar (CHR ''f'') = 102" "uchar (CHR ''d'') = 100" "uchar (CHR ''s'') = 115"
    by (simp_all add: uchar_def)
  have "cut_opts mbm mb evs cut_init = Inr st"
    using assms(3) l by (simp add: evs opts_def codes st_def setdelim_def) (simp add: cut_init_def)
  with cut_files_ok [OF assms(8,9), where st = st and mbm = mbm and progname = progname and x = "(0, stdin)"] assms(4-6)
  have "cut_main mbm mb fs stdin progname (''cut'' # render opts @ as) =
      \<lparr>out = concat (map (\<lambda>a. cut_text st (text_chars mbm mb (fd_rest (the (fs a))))) as), err = [], status = 0\<rparr>"
    by (simp add: cut_main_def g ops) (simp add: st_def)
  then show ?thesis by (simp add: opts_def st_def list_def Let_def)
qed

theorem cut_fields_output_witness:
  "cut_main 1 (\<lambda>s. (-1, 0)) (\<lambda>f. if f = ''t'' then Some (mk_fd (''a:b:c'' @ [NL] @ ''xy'')) else None) (mk_fd [])
     ''cut'' [''cut'', ''-f'', ''1,3'', ''-d'', '':'', ''t''] =
   \<lparr>out = ''a:c'' @ [NL] @ ''xy'', err = [], status = 0\<rparr>"
proof -
  let ?fs = "\<lambda>f. if f = ''t'' then Some (mk_fd (''a:b:c'' @ [NL] @ ''xy'')) else None"
  have j: "join '','' (map item_text [One 1, One 3]) = ''1,3''" by (simp add: decimal.simps)
  have "[One 1, One 3] \<noteq> []" "list_all item_ok [One 1, One 3]"
    "cut_next 1 (\<lambda>s. (-1, 0)) '':'' = (int (length '':''), 58)" "(58 :: int) \<noteq> 10" "(58 :: int) \<noteq> weof"
    "[''t''] \<noteq> []" "operands_ok [''t'']"
    "\<And>a. a \<in> set [''t''] \<Longrightarrow> a \<noteq> ''-'' \<and> (\<exists>fd. ?fs a = Some fd \<and> fd_good fd)"
    "mbtowc_ok (\<lambda>s. (-1, 0))"
    by (simp_all add: long_ok_def cut_next_def uchar_def operands_ok_def mbtowc_ok_def)
  from cut_fields_output [OF this, where stdin = "mk_fd []" and progname = "''cut''" and sf = False]
  show ?thesis unfolding j
    by (simp add: Let_def text_chars_def cut_text_def cut_line_def uchar_def char_bytes_def mk_fd_def
        fd_rest_def)
qed

end
