(* ===== verification/Factor.thy ===== *)
theory Factor
  imports Complex_Main Stdio Asciitype
begin

text \<open>
  \<open>factor/factor.c\<close>: factoring by trial division over a wheel of 48 increments.  The program computes
  in floating point numbers \<open>f_type\<close> with \<open>mant\<close> (\<open>F_MANT_DIG\<close>) bits of mantissa; past its checks \<open>n\<close> is a
  positive integer below \<open>2 ^ mant\<close>, so \<open>f_fmod\<close>, the exact divisions by a divisor and the additions
  to \<open>t\<close> are those of the natural numbers.  Two functions of the C library are parameters: \<open>strtod\<close> is
  \<open>f_strtod\<close> (the value and the rest of the string), and \<open>fsqrt n\<close> is \<open>f_sqrt(n)\<close> rounded down, which
  is all that matters where an integer \<open>t\<close> is compared with it.  A loop that does not end is \<open>None\<close>.
\<close>

section \<open>The program\<close>

text \<open>
  Floating point values by sign and magnitude, and their conversion with \<open>%.0f\<close>, which rounds the
  exact value to the nearest integer and ties to even.
\<close>

datatype fval = Fin bool rat | Finf bool | Fnan bool

definition round_even :: "rat \<Rightarrow> int" where
  "round_even x =
     (let f = \<lfloor>x\<rfloor>; d = x - of_int f
      in if d < 1 / 2 \<or> d = 1 / 2 \<and> even f then f else f + 1)"

definition fsign :: "bool \<Rightarrow> string" where
  "fsign neg = (if neg then ''-'' else [])"

fun ffmt :: "fval \<Rightarrow> string" where
  "ffmt (Fin neg x) = fsign neg @ decimal (nat (round_even x))"
| "ffmt (Finf neg) = fsign neg @ ''inf''"
| "ffmt (Fnan neg) = fsign neg @ ''nan''"

text \<open>\<open>print\<close>, for the integers it is called with.\<close>

definition fprint :: "nat \<Rightarrow> string" where
  "fprint n = ''     '' @ decimal n @ [NL]"

text \<open>\<open>xt\<close>: the new values of \<open>*n\<close> and \<open>*v\<close>, and the output.\<close>

partial_function (option) xt :: "(nat \<Rightarrow> nat) \<Rightarrow> nat \<Rightarrow> nat \<Rightarrow> nat \<Rightarrow> string \<Rightarrow> (nat \<times> nat \<times> string) option" where
  "xt fsqrt n v t w =
     (if n mod t = 0 then xt fsqrt (n div t) (fsqrt (n div t)) t (w @ fprint t) else Some (n, v, w))"

definition tab :: "nat list" where
  "tab = [
     10, 2, 4, 2, 4, 6, 2, 6,
     4, 2, 4, 6, 6, 2, 6, 4,
     2, 6, 4, 6, 8, 4, 2, 4,
     2, 4, 8, 6, 4, 6, 2, 4,
     6, 2, 6, 6, 4, 2, 4, 6,
     2, 6, 4, 2, 4, 2, 10, 2]"

partial_function (option) factor_loop :: "(nat \<Rightarrow> nat) \<Rightarrow> nat \<Rightarrow> nat \<Rightarrow> nat \<Rightarrow> nat \<Rightarrow> string \<Rightarrow> (nat \<times> string) option" where
  "factor_loop fsqrt n v i t w =
     (if t \<le> v then
        (case xt fsqrt n v t w of
           None \<Rightarrow> None
         | Some (n', v', w') \<Rightarrow>
             let i' = (if i + 1 = 48 then 0 else i + 1)
             in factor_loop fsqrt n' v' i' (t + tab ! i') w')
      else Some (n, w))"

fun xts :: "(nat \<Rightarrow> nat) \<Rightarrow> nat list \<Rightarrow> nat \<times> nat \<times> string \<Rightarrow> (nat \<times> nat \<times> string) option" where
  "xts fsqrt [] x = Some x"
| "xts fsqrt (t # ts) (n, v, w) =
     (case xt fsqrt n v t w of None \<Rightarrow> None | Some x \<Rightarrow> xts fsqrt ts x)"

definition factor_int :: "(nat \<Rightarrow> nat) \<Rightarrow> nat \<Rightarrow> string option" where
  "factor_int fsqrt n =
     (case xts fsqrt [2, 3, 5, 7, 11, 13] (n, fsqrt n, []) of
        None \<Rightarrow> None
      | Some (n, v, w) \<Rightarrow>
          (case factor_loop fsqrt n v 2 17 w of
             None \<Rightarrow> None
           | Some (n, w) \<Rightarrow> Some (w @ (if n > 1 then fprint n else []) @ [NL])))"

text \<open>\<open>factor\<close>: the output, and whether the program exits.\<close>

definition factor :: "nat \<Rightarrow> (string \<Rightarrow> fval \<times> string) \<Rightarrow> (nat \<Rightarrow> nat) \<Rightarrow> string \<Rightarrow> bool \<Rightarrow>
    (string \<times> bool) option" where
  "factor mant strtod fsqrt s prnt =
     (case strtod s of
        (n, x) \<Rightarrow>
          let w = (if prnt then ffmt n @ [NL] else [])
          in if n = Fin False 0 \<or> n = Fin True 0 \<or> x \<noteq> [] then Some (w, True)
             else (case n of
                     Fin neg q \<Rightarrow>
                       if neg \<or> q \<ge> 2 ^ mant then Some (w @ ''Ouch!'' @ [NL], False)
                       else if of_int \<lfloor>q\<rfloor> \<noteq> q then Some (w @ ''Not an integer!'' @ [NL], False)
                       else (case factor_int fsqrt (nat \<lfloor>q\<rfloor>) of
                               None \<Rightarrow> None
                             | Some r \<Rightarrow> Some (w @ r, False))
                   | Finf neg \<Rightarrow> Some (w @ ''Ouch!'' @ [NL], False)
                   | Fnan neg \<Rightarrow> Some (w @ ''Not an integer!'' @ [NL], False)))"

text \<open>
  \<open>token\<close>: the size of the buffer, the bytes stored in it and the input left.  \<open>tok_store\<close> is the body
  of the \<open>do\<close> loop; it makes room for one byte and the terminator.
\<close>

definition tok_store :: "char \<Rightarrow> int \<times> string \<Rightarrow> int \<times> string" where
  "tok_store c x =
     (case x of (sz, bs) \<Rightarrow> (if int (length bs) \<ge> sz - 1 then sz + 50 else sz, bs @ [c]))"

definition factor_token :: "string \<Rightarrow> int \<Rightarrow> ((int \<times> string) \<times> string) option" where
  "factor_token s sz =
     (let white = (\<lambda>c. whitechar (uchar c)); s = dropWhile white s
      in if s = [] then None
         else Some (fold tok_store (takeWhile (\<lambda>c. \<not> white c) s) (sz, []),
                    tl (dropWhile (\<lambda>c. \<not> white c) s)))"

lemma factor_token_shorter: "factor_token s sz = Some (x, s') \<Longrightarrow> length s' < length s"
proof -
  assume a: "factor_token s sz = Some (x, s')"
  let ?w = "\<lambda>c. whitechar (uchar c)"
  have ne: "dropWhile ?w s \<noteq> []" and s': "s' = tl (dropWhile (\<lambda>c. \<not> ?w c) (dropWhile ?w s))"
    using a by (auto simp: factor_token_def Let_def split: if_splits)
  have "length (dropWhile ?w s) \<le> length s" by (rule length_dropWhile_le)
  moreover have "length (tl (dropWhile (\<lambda>c. \<not> ?w c) (dropWhile ?w s))) < length (dropWhile ?w s)"
    using ne length_dropWhile_le [of "\<lambda>c. \<not> ?w c" "dropWhile ?w s"] by (cases "dropWhile ?w s") auto
  ultimately show ?thesis unfolding s' by linarith
qed

function factor_stdin :: "nat \<Rightarrow> (string \<Rightarrow> fval \<times> string) \<Rightarrow> (nat \<Rightarrow> nat) \<Rightarrow> string \<Rightarrow> int \<Rightarrow> string option" where
  "factor_stdin mant strtod fsqrt s sz =
     (case factor_token s sz of
        None \<Rightarrow> Some []
      | Some ((sz', bs), s') \<Rightarrow>
          (case factor mant strtod fsqrt (cstr bs) False of
             None \<Rightarrow> None
           | Some (w, ex) \<Rightarrow>
               if ex then Some w
               else (case factor_stdin mant strtod fsqrt s' sz' of None \<Rightarrow> None | Some w' \<Rightarrow> Some (w @ w'))))"
  by pat_completeness auto
termination
  by (relation "measure (\<lambda>(mant, strtod, fsqrt, s, sz). length s)") (auto dest: factor_token_shorter)

definition factor_main :: "nat \<Rightarrow> (string \<Rightarrow> fval \<times> string) \<Rightarrow> (nat \<Rightarrow> nat) \<Rightarrow> string \<Rightarrow> string \<Rightarrow>
    string list \<Rightarrow> outcome option" where
  "factor_main mant strtod fsqrt stdin progname args =
     (let args = (case args of a # as \<Rightarrow> if a = ''--'' then as else args | [] \<Rightarrow> [])
      in case args of
           [] \<Rightarrow>
             (case factor_stdin mant strtod fsqrt stdin 0 of
                None \<Rightarrow> None | Some w \<Rightarrow> Some \<lparr>out = w, err = [], status = 0\<rparr>)
         | [s] \<Rightarrow>
             (case factor mant strtod fsqrt s True of
                None \<Rightarrow> None | Some (w, ex) \<Rightarrow> Some \<lparr>out = w, err = [], status = 0\<rparr>)
         | _ \<Rightarrow> Some \<lparr>out = [], err = ''Usage: '' @ progname @ '' number'' @ [NL], status = 2\<rparr>)"

section \<open>The wheel\<close>

text \<open>
  The increments visit the residues modulo 210 that are prime to 2, 3, 5 and 7: \<open>spoke i\<close> is the one
  reached with the increment \<open>i\<close>.
\<close>

definition spoke :: "nat \<Rightarrow> nat" where
  "spoke i = 1 + sum_list (take (i + 1) tab)"

definition wheel_hit :: "nat \<Rightarrow> bool" where
  "wheel_hit m \<longleftrightarrow> 2 dvd m \<or> 3 dvd m \<or> 5 dvd m \<or> 7 dvd m"

definition next_i :: "nat \<Rightarrow> nat" where
  "next_i i = (if i + 1 = 48 then 0 else i + 1)"

lemma wheel_rows:
  "list_all (\<lambda>i. (spoke i + tab ! next_i i) mod 210 = spoke (next_i i) mod 210 \<and> 0 < tab ! next_i i \<and>
      list_all (\<lambda>k. wheel_hit (spoke i + k)) [1..<tab ! next_i i]) [0..<48]"
  by code_simp

lemma wheel_step:
  assumes "t mod 210 = spoke i mod 210" "i < 48"
  shows "(t + tab ! next_i i) mod 210 = spoke (next_i i) mod 210" "next_i i < 48" "0 < tab ! next_i i"
    "t < m \<Longrightarrow> m < t + tab ! next_i i \<Longrightarrow> wheel_hit m"
proof -
  from assms(2) wheel_rows have r: "(spoke i + tab ! next_i i) mod 210 = spoke (next_i i) mod 210"
    "0 < tab ! next_i i" "\<And>k. 1 \<le> k \<Longrightarrow> k < tab ! next_i i \<Longrightarrow> wheel_hit (spoke i + k)"
    by (auto simp: list_all_iff)
  show "(t + tab ! next_i i) mod 210 = spoke (next_i i) mod 210"
    using r(1) assms(1) by (metis mod_add_left_eq)
  show "next_i i < 48" using assms(2) by (simp add: next_i_def)
  show "0 < tab ! next_i i" by (rule r(2))
  show "wheel_hit m" if m: "t < m" "m < t + tab ! next_i i"
  proof -
    define k where "k = m - t"
    have k: "m = t + k" "1 \<le> k" "k < tab ! next_i i" using m by (auto simp: k_def)
    have "m mod 210 = (spoke i + k) mod 210" unfolding k(1) using assms(1) by (metis mod_add_left_eq)
    moreover have "p dvd x \<longleftrightarrow> p dvd x mod 210" if "p dvd 210" for p x :: nat
      using that by (simp add: dvd_mod_iff)
    ultimately have "p dvd m \<longleftrightarrow> p dvd spoke i + k" if "p dvd 210" for p using that by metis
    then show ?thesis using r(3) [OF k(2,3)] by (auto simp: wheel_hit_def)
  qed
qed

section \<open>Factors\<close>

text \<open>
  A number is prime when it has no divisor between one and itself; \<open>rough t n\<close> says that \<open>n\<close> has no divisor
  between one and \<open>t\<close>.
\<close>

definition is_prime :: "nat \<Rightarrow> bool" where
  "is_prime p \<longleftrightarrow> 1 < p \<and> (\<forall>d. d dvd p \<longrightarrow> d = 1 \<or> d = p)"

definition rough :: "nat \<Rightarrow> nat \<Rightarrow> bool" where
  "rough t n \<longleftrightarrow> 0 < n \<and> (\<forall>d. d dvd n \<longrightarrow> d = 1 \<or> t \<le> d)"

definition sqrt_ok :: "(nat \<Rightarrow> nat) \<Rightarrow> bool" where
  "sqrt_ok fsqrt \<longleftrightarrow> (\<forall>n t. t * t \<le> n \<longrightarrow> t \<le> fsqrt n)"

lemma rough_dvd_prime: "rough t n \<Longrightarrow> t dvd n \<Longrightarrow> 1 < t \<Longrightarrow> is_prime t"
proof -
  assume r: "rough t n" and t: "t dvd n" "1 < t"
  have "d = 1 \<or> d = t" if d: "d dvd t" for d
  proof -
    have "d dvd n" using d t(1) by (rule dvd_trans)
    with r have "d = 1 \<or> t \<le> d" by (simp add: rough_def)
    moreover have "d \<le> t" using d t(2) by (intro dvd_imp_le) simp_all
    ultimately show ?thesis by auto
  qed
  with t(2) show ?thesis by (simp add: is_prime_def)
qed

lemma rough_small_prime: "rough t n \<Longrightarrow> n < t * t \<Longrightarrow> n \<noteq> 1 \<Longrightarrow> is_prime n"
proof -
  assume r: "rough t n" and s: "n < t * t" and n: "n \<noteq> 1"
  have "d = 1 \<or> d = n" if d: "d dvd n" for d
  proof (rule ccontr)
    assume c: "\<not> (d = 1 \<or> d = n)"
    from d obtain e where e: "n = d * e" by (auto elim: dvdE)
    then have "e dvd n" "e \<noteq> 1" using c by auto
    with r d c have "t \<le> d" "t \<le> e" by (auto simp: rough_def)
    then have "t * t \<le> d * e" by (rule mult_le_mono)
    with s e show False by simp
  qed
  with r n show ?thesis by (auto simp: is_prime_def rough_def)
qed

lemma rough_div: "rough t n \<Longrightarrow> m dvd n \<Longrightarrow> rough t m"
  unfolding rough_def by (meson dvd_pos_nat dvd_trans)

lemma rough_next:
  assumes "rough t n" "\<not> t dvd n" "\<And>m. t < m \<Longrightarrow> m < t' \<Longrightarrow> \<not> m dvd n"
  shows "rough t' n"
proof -
  have "t' \<le> d" if d: "d dvd n" "d \<noteq> 1" for d
  proof (rule ccontr)
    assume "\<not> t' \<le> d"
    moreover have "t \<le> d" using assms(1) d by (auto simp: rough_def)
    moreover have "t \<noteq> d" using assms(2) d(1) by auto
    ultimately show False using assms(3) [of d] d(1) by linarith
  qed
  with assms(1) show ?thesis by (auto simp: rough_def)
qed

text \<open>\<open>xt\<close> ends; it divides out and prints every power of \<open>t\<close>.\<close>

lemma xt_result:
  assumes "0 < n" "1 < t"
  shows "\<exists>k n'. xt fsqrt n (fsqrt n) t w = Some (n', fsqrt n', w @ concat (map fprint (replicate k t))) \<and>
    n = n' * t ^ k \<and> \<not> t dvd n' \<and> 0 < n'"
  using assms(1)
proof (induction n arbitrary: w rule: less_induct)
  case (less n)
  show ?case
  proof (cases "n mod t = 0")
    case True
    then have t: "n = n div t * t" using assms(2) by (auto simp: mod_0_imp_dvd)
    then have "0 < n div t" using less.prems by (metis gr0I mult_0)
    moreover have "n div t < n" using assms(2) less.prems by simp
    ultimately obtain k n' where
      x: "xt fsqrt (n div t) (fsqrt (n div t)) t (w @ fprint t) =
          Some (n', fsqrt n', (w @ fprint t) @ concat (map fprint (replicate k t)))"
      and n': "n div t = n' * t ^ k" "\<not> t dvd n'" "0 < n'"
      using less.IH [of "n div t" "w @ fprint t"] by blast
    have "xt fsqrt n (fsqrt n) t w = xt fsqrt (n div t) (fsqrt (n div t)) t (w @ fprint t)"
      by (subst xt.simps) (simp add: True)
    moreover have "n = n' * t ^ Suc k" using t n'(1) by (simp add: algebra_simps)
    ultimately show ?thesis using x n' by (intro exI [of _ "Suc k"] exI [of _ n']) simp
  next
    case False
    then have "\<not> t dvd n" by (simp add: dvd_eq_mod_eq_0)
    moreover have "xt fsqrt n (fsqrt n) t w = Some (n, fsqrt n, w)" by (subst xt.simps) (simp add: False)
    ultimately show ?thesis using less.prems by (intro exI [of _ 0] exI [of _ n]) simp
  qed
qed

text \<open>
  The step both loops take: a number without divisors below \<open>t\<close> is rid of \<open>t\<close>, and what is printed
  are primes.
\<close>

lemma xt_rough:
  assumes "rough t n" "1 < t"
  obtains k n' where "xt fsqrt n (fsqrt n) t w = Some (n', fsqrt n', w @ concat (map fprint (replicate k t)))"
    "n = n' * prod_list (replicate k t)" "\<not> t dvd n'" "rough t n'" "k = 0 \<or> is_prime t \<and> n' < n"
proof -
  from assms(1) have "0 < n" by (simp add: rough_def)
  from xt_result [OF this assms(2), of fsqrt w] obtain k n' where
    x: "xt fsqrt n (fsqrt n) t w = Some (n', fsqrt n', w @ concat (map fprint (replicate k t)))"
    and n': "n = n' * t ^ k" "\<not> t dvd n'" "0 < n'" by blast
  have p: "prod_list (replicate k t) = t ^ k" by (induction k) auto
  have "rough t n'" using rough_div [OF assms(1)] n'(1) by simp
  moreover have "k = 0 \<or> is_prime t \<and> n' < n"
  proof (cases k)
    case (Suc j)
    then have "t dvd n" using n'(1) by simp
    moreover have "n' < n"
    proof -
      have "1 < t ^ k" using Suc assms(2) by (metis one_less_power zero_less_Suc)
      then show ?thesis using n'(1,3) by simp
    qed
    ultimately show ?thesis using rough_dvd_prime [OF assms(1)] assms(2) by blast
  qed simp
  ultimately show ?thesis using that [OF x] n' p by simp
qed

definition prime_list :: "nat \<Rightarrow> nat list \<Rightarrow> bool" where
  "prime_list t ps \<longleftrightarrow> sorted ps \<and> (\<forall>p \<in> set ps. is_prime p \<and> t \<le> p)"

lemma prime_list_app:
  "prime_list u ps \<Longrightarrow> k = 0 \<or> is_prime t \<Longrightarrow> t \<le> u \<Longrightarrow> prime_list t (replicate k t @ ps)"
  by (auto simp: prime_list_def sorted_append)

text \<open>The loop over the wheel.\<close>

lemma rough_wheel: "rough t n \<Longrightarrow> 7 < t \<Longrightarrow> wheel_hit m \<Longrightarrow> \<not> m dvd n"
proof
  assume r: "rough t n" and t: "7 < t" and h: "wheel_hit m" and m: "m dvd n"
  from h obtain q :: nat where "q dvd m" "q \<in> {2, 3, 5, 7}" by (auto simp: wheel_hit_def)
  moreover from this have "q dvd n" using m dvd_trans by blast
  ultimately show False using r t by (auto simp: rough_def)
qed

lemma factor_loop_result:
  assumes "sqrt_ok fsqrt"
  shows "rough t n \<Longrightarrow> 7 < t \<Longrightarrow> t mod 210 = spoke i mod 210 \<Longrightarrow> i < 48 \<Longrightarrow>
    \<exists>n' ps. factor_loop fsqrt n (fsqrt n) i t w = Some (n', w @ concat (map fprint ps)) \<and>
      n = prod_list ps * n' \<and> prime_list t (ps @ (if n' > 1 then [n'] else [])) \<and> 0 < n'"
proof (induction "(n, Suc (fsqrt n) - t)" arbitrary: n t i w rule: wf_induct_rule [OF wf_lex_prod [OF wf_less_than wf_less_than]])
  case (1 n t i w)
  show ?case
  proof (cases "t \<le> fsqrt n")
    case False
    then have "n < t * t" using assms unfolding sqrt_ok_def by (meson linorder_not_le)
    moreover have "n = 1 \<or> t \<le> n" using "1.prems"(1) unfolding rough_def by (meson dvd_refl)
    ultimately have "n = 1 \<or> is_prime n \<and> t \<le> n" using rough_small_prime [OF "1.prems"(1)] by blast
    moreover have "factor_loop fsqrt n (fsqrt n) i t w = Some (n, w)"
      by (subst factor_loop.simps) (simp add: False)
    ultimately show ?thesis using "1.prems"(1)
      by (intro exI [of _ n] exI [of _ "[]"]) (auto simp: prime_list_def rough_def is_prime_def)
  next
    case True
    let ?t = "t + tab ! next_i i"
    note ws = wheel_step [OF "1.prems"(3,4)]
    have "1 < t" using "1.prems"(2) by simp
    from xt_rough [OF "1.prems"(1) this, of fsqrt w] obtain k n' where
      x: "xt fsqrt n (fsqrt n) t w = Some (n', fsqrt n', w @ concat (map fprint (replicate k t)))"
      and n: "n = n' * prod_list (replicate k t)" "\<not> t dvd n'" "rough t n'" "k = 0 \<or> is_prime t \<and> n' < n"
      by blast
    have "rough ?t n'"
      by (rule rough_next [OF n(3,2)]) (use rough_wheel [OF n(3) "1.prems"(2)] ws(4) in blast)
    moreover have "((n', Suc (fsqrt n') - ?t), n, Suc (fsqrt n) - t) \<in> less_than <*lex*> less_than"
      using n(1,4) ws(3) True by auto
    moreover have "7 < ?t" using "1.prems"(2) by simp
    moreover note ws(1,2)
    ultimately obtain m ps where
      r: "factor_loop fsqrt n' (fsqrt n') (next_i i) ?t (w @ concat (map fprint (replicate k t))) =
          Some (m, (w @ concat (map fprint (replicate k t))) @ concat (map fprint ps))"
      and m: "n' = prod_list ps * m" "prime_list ?t (ps @ (if m > 1 then [m] else []))" "0 < m"
      using "1.hyps" by blast
    have "factor_loop fsqrt n (fsqrt n) i t w =
        factor_loop fsqrt n' (fsqrt n') (next_i i) ?t (w @ concat (map fprint (replicate k t)))"
      by (subst factor_loop.simps) (simp add: True x next_i_def Let_def)
    moreover have "prime_list t (replicate k t @ (ps @ (if m > 1 then [m] else [])))"
      by (rule prime_list_app [OF m(2)]) (use n(4) in auto)
    moreover have "n = prod_list (replicate k t @ ps) * m" using n(1) m(1) by (simp add: algebra_simps)
    ultimately show ?thesis using r m(3)
      by (intro exI [of _ m] exI [of _ "replicate k t @ ps"]) simp
  qed
qed

text \<open>The first six primes, one after the other.\<close>

lemma xts_step:
  assumes "rough t n" "1 < t" "\<And>m. t < m \<Longrightarrow> m < u \<Longrightarrow> \<exists>q. q dvd m \<and> 1 < q \<and> q < t" "t < u"
  obtains k n' where
    "xts fsqrt (t # ts) (n, fsqrt n, w) = xts fsqrt ts (n', fsqrt n', w @ concat (map fprint (replicate k t)))"
    "n = n' * prod_list (replicate k t)" "rough u n'" "k = 0 \<or> is_prime t"
proof -
  from xt_rough [OF assms(1,2), of fsqrt w] obtain k n' where
    x: "xt fsqrt n (fsqrt n) t w = Some (n', fsqrt n', w @ concat (map fprint (replicate k t)))"
    and n: "n = n' * prod_list (replicate k t)" "\<not> t dvd n'" "rough t n'" "k = 0 \<or> is_prime t \<and> n' < n"
    by blast
  have "\<not> m dvd n'" if "t < m" "m < u" for m
  proof
    assume "m dvd n'"
    with assms(3) [OF that] obtain q where "q dvd n'" "1 < q" "q < t" using dvd_trans by blast
    with n(3) show False by (auto simp: rough_def)
  qed
  from rough_next [OF n(3,2) this] that [of n' k] x n show ?thesis by auto
qed

fun gaps :: "nat list \<Rightarrow> nat \<Rightarrow> bool" where
  "gaps [] u = True"
| "gaps (t # ts) u =
     (let t' = hd (ts @ [u])
      in 1 < t \<and> t < t' \<and> list_all (\<lambda>m. list_ex (\<lambda>q. q dvd m) [2..<t]) [Suc t..<t'] \<and> gaps ts u)"

lemma xts_result:
  "gaps ts u \<Longrightarrow> rough (hd (ts @ [u])) n \<Longrightarrow>
    \<exists>n' ps. xts fsqrt ts (n, fsqrt n, w) = Some (n', fsqrt n', w @ concat (map fprint ps)) \<and>
      n = prod_list ps * n' \<and> rough u n' \<and>
      (\<forall>qs. prime_list u qs \<longrightarrow> prime_list (hd (ts @ [u])) (ps @ qs))"
proof (induction ts arbitrary: n w)
  case Nil
  then show ?case by (intro exI [of _ n] exI [of _ "[]"]) simp
next
  case (Cons t ts)
  let ?t = "hd (ts @ [u])"
  from Cons.prems(1) have g: "1 < t" "t < ?t" "gaps ts u"
    "\<And>m. t < m \<Longrightarrow> m < ?t \<Longrightarrow> \<exists>q. q dvd m \<and> 1 < q \<and> q < t"
    by (auto simp: Let_def list_all_iff list_ex_iff Suc_le_eq numeral_2_eq_2 Ball_def Bex_def)
  have "rough t n" using Cons.prems(2) by simp
  from xts_step [OF this g(1,4,2), where ts = ts and fsqrt = fsqrt and w = w] obtain k n1 where
    x: "xts fsqrt (t # ts) (n, fsqrt n, w) = xts fsqrt ts (n1, fsqrt n1, w @ concat (map fprint (replicate k t)))"
    and n1: "n = n1 * prod_list (replicate k t)" "rough ?t n1" "k = 0 \<or> is_prime t" by blast
  from Cons.IH [OF g(3) n1(2), of "w @ concat (map fprint (replicate k t))"] obtain n' ps where
    r: "xts fsqrt ts (n1, fsqrt n1, w @ concat (map fprint (replicate k t))) =
      Some (n', fsqrt n', (w @ concat (map fprint (replicate k t))) @ concat (map fprint ps))"
    "n1 = prod_list ps * n'" "rough u n'" "\<forall>qs. prime_list u qs \<longrightarrow> prime_list ?t (ps @ qs)" by blast
  have "\<forall>qs. prime_list u qs \<longrightarrow> prime_list t ((replicate k t @ ps) @ qs)"
    using prime_list_app [OF _ n1(3)] r(4) g(2) by auto
  then show ?case using x r(1-3) n1(1)
    by (intro exI [of _ n'] exI [of _ "replicate k t @ ps"]) (simp add: algebra_simps)
qed

lemma factor_int_result:
  assumes "sqrt_ok fsqrt" "0 < n"
  shows "\<exists>ps. factor_int fsqrt n = Some (concat (map fprint ps) @ [NL]) \<and>
    sorted ps \<and> (\<forall>p \<in> set ps. is_prime p) \<and> prod_list ps = n"
proof -
  have g: "gaps [2, 3, 5, 7, 11, 13] 17" by code_simp
  have "rough 2 n"
  proof -
    have "d = 1 \<or> 2 \<le> d" if "d dvd n" for d
    proof -
      have "0 < d" using that assms(2) by (rule dvd_pos_nat [rotated])
      then show ?thesis by linarith
    qed
    with assms(2) show ?thesis by (simp add: rough_def)
  qed
  then have "rough (hd ([2, 3, 5, 7, 11, 13] @ [17])) n" by simp
  from xts_result [OF g this, of fsqrt "[]"] obtain n1 ps where
    x: "xts fsqrt [2, 3, 5, 7, 11, 13] (n, fsqrt n, []) = Some (n1, fsqrt n1, concat (map fprint ps))"
    and n1: "n = prod_list ps * n1" "rough 17 n1" "\<And>qs. prime_list 17 qs \<Longrightarrow> prime_list 2 (ps @ qs)"
    by (simp del: xts.simps) blast
  have "17 mod 210 = spoke 2 mod 210" by code_simp
  then obtain n2 qs where
    y: "factor_loop fsqrt n1 (fsqrt n1) 2 17 (concat (map fprint ps)) =
        Some (n2, concat (map fprint ps) @ concat (map fprint qs))"
    and n2: "n1 = prod_list qs * n2" "prime_list 17 (qs @ (if n2 > 1 then [n2] else []))" "0 < n2"
    using factor_loop_result [OF assms(1) n1(2), of 2 "concat (map fprint ps)"] by auto
  let ?all = "ps @ qs @ (if n2 > 1 then [n2] else [])"
  have "prime_list 2 ?all" by (rule n1(3) [OF n2(2)])
  moreover have "prod_list ?all = n" using n1(1) n2(1,3) by auto
  moreover have "factor_int fsqrt n = Some (concat (map fprint ?all) @ [NL])"
    by (simp add: factor_int_def x y del: xts.simps)
  ultimately show ?thesis by (intro exI [of _ ?all]) (auto simp: prime_list_def)
qed

text \<open>The buffer of \<open>token\<close> always has room for the bytes stored and the terminator.\<close>

lemma tok_store_bound:
  assumes "fold tok_store bs (sz, cs) = (sz', cs')" "int (length cs) < sz \<or> cs = [] \<and> bs \<noteq> [] \<and> sz = 0"
  shows "int (length cs') < sz' \<and> cs' = cs @ bs"
  using assms
proof (induction bs arbitrary: sz cs)
  case (Cons b bs)
  from Cons.IH [of "if int (length cs) \<ge> sz - 1 then sz + 50 else sz" "cs @ [b]"] Cons.prems
  show ?case by (auto simp: tok_store_def split: if_splits)
qed auto

section \<open>Properties\<close>

text \<open>
  (C23) For every number from 1 up to the largest one the floating point type represents exactly,
  \<open>factor\<close> with the number as its operand ends; it prints the number and then its prime factors, one per line, in
  ascending order and as often as they divide it, and an empty line.  The C library is used in two
  places: \<open>strtod\<close> converts the decimal representation of the number, and the computed square root of
  \<open>m\<close> is not below an integer whose square is at most \<open>m\<close>.
\<close>

theorem factor_prints_primes:
  assumes "strtod (decimal n) = (Fin False (of_nat n), [])" and "sqrt_ok fsqrt"
    and "0 < n" "n < 2 ^ mant"
  shows "\<exists>ps. factor_main mant strtod fsqrt stdin progname [decimal n] =
      Some \<lparr>out = decimal n @ [NL] @ concat (map fprint ps) @ [NL], err = [], status = 0\<rparr> \<and>
    sorted ps \<and> (\<forall>p \<in> set ps. is_prime p) \<and> prod_list ps = n"
proof -
  from factor_int_result [OF assms(2,3)] obtain ps where
    f: "factor_int fsqrt n = Some (concat (map fprint ps) @ [NL])" and
    ps: "sorted ps" "\<forall>p \<in> set ps. is_prime p" "prod_list ps = n" by blast
  have "(of_nat n :: rat) < of_nat (2 ^ mant)" using assms(4) by (simp only: of_nat_less_iff)
  then have lt: "\<not> (2 :: rat) ^ mant \<le> of_nat n" by simp
  have fmt: "ffmt (Fin False (of_nat n)) = decimal n" by (simp add: round_even_def fsign_def Let_def)
  have "decimal n \<noteq> ''--''"
  proof
    assume "decimal n = ''--''"
    then have "is_digit (CHR ''-'')" using decimal_digits [of "CHR ''-''" n] by simp
    then show False by (simp add: is_digit_def uchar_def)
  qed
  then have "factor_main mant strtod fsqrt stdin progname [decimal n] =
      Some \<lparr>out = decimal n @ [NL] @ concat (map fprint ps) @ [NL], err = [], status = 0\<rparr>"
    using assms(1,3) lt f fmt by (simp add: factor_main_def factor_def)
  with ps show ?thesis by blast
qed

theorem factor_prints_primes_witness:
  "\<exists>ps. factor_main 53 (\<lambda>s. (Fin False (of_nat (undecimal s)), [])) (\<lambda>n. n) [] ''factor'' [decimal 221] =
      Some \<lparr>out = decimal 221 @ [NL] @ concat (map fprint ps) @ [NL], err = [], status = 0\<rparr> \<and>
    sorted ps \<and> (\<forall>p \<in> set ps. is_prime p) \<and> prod_list ps = 221"
proof -
  have c: "(\<lambda>s. (Fin False (of_nat (undecimal s)), [])) (decimal 221) = (Fin False (of_nat 221), ([] :: string))"
    by simp
  have r: "sqrt_ok (\<lambda>n. n)" unfolding sqrt_ok_def
  proof (intro allI impI)
    fix t n :: nat
    assume "t * t \<le> n"
    then show "t \<le> n" using le_square [of t] by linarith
  qed
  have b: "0 < (221 :: nat)" "221 < (2 :: nat) ^ 53" by simp_all
  show ?thesis
    by (rule factor_prints_primes [where strtod = "\<lambda>s. (Fin False (of_nat (undecimal s)), [])", OF c r b])
qed

end
