(* ===== verification/Basename.thy ===== *)
theory Basename
  imports Prelude
begin

text \<open>
  \<open>basename/basename.c\<close>: the last component of a path name, without a suffix.  The program is compiled
  in three variants.  A \<open>char *\<close> into the path is an index; shortening the string by storing a NUL is
  \<open>take\<close>.  \<open>mbm\<close> and \<open>mb\<close> stand for \<open>MB_CUR_MAX\<close> and \<open>mbtowc\<close>.  \<open>re\<close> stands for \<open>compile\<close> and \<open>advance\<close> of the
  regular expression library (System V variant only): no value when the expression does not compile,
  and otherwise for a string that matches the offset of \<open>braslist[1]\<close>.  \<open>None\<close> is a store into a string literal.
\<close>

section \<open>The program\<close>

definition basename_usage :: "variant \<Rightarrow> string \<Rightarrow> string" where
  "basename_usage var progname =
     ''Usage:  '' @ progname @
     (if var = SUS then '' [ path [ suffix ] ]'' else '' [ path [ suffix-pattern ] ]'') @ [NL]"

text \<open>\<open>while (*--cp == '/' && cp > path) *cp = 0\<close>: the last value of \<open>cp\<close> and the shortened string.\<close>

fun trim_slashes :: "nat \<Rightarrow> string \<Rightarrow> nat \<times> string" where
  "trim_slashes 0 s = (0, s)"
| "trim_slashes (Suc cp) s =
     (if s ! cp = CHR ''/'' \<and> cp > 0 then trim_slashes cp (take cp s) else (cp, s))"

text \<open>\<open>while (cp > path && *cp != '/') cp--\<close>.\<close>

fun to_slash :: "string \<Rightarrow> nat \<Rightarrow> nat" where
  "to_slash s 0 = 0"
| "to_slash s (Suc cp) = (if s ! Suc cp \<noteq> CHR ''/'' then to_slash s cp else Suc cp)"

text \<open>\<open>while (cp > path && sp > suffix && cp[-1] == sp[-1]) cp--, sp--\<close>.\<close>

fun match_back :: "string \<Rightarrow> nat \<Rightarrow> string \<Rightarrow> nat \<Rightarrow> nat" where
  "match_back s (Suc cp) u (Suc sp) = (if s ! cp = u ! sp then match_back s cp u sp else Suc cp)"
| "match_back s cp u sp = cp"

text \<open>
  The walk over the multibyte characters of \<open>path\<close> from \<open>sp\<close> up to \<open>cp\<close>.  \<open>mbtowc\<close> never returns 0 here,
  since \<open>*sp\<close> is not NUL.
\<close>

function mb_walk :: "(string \<Rightarrow> int \<times> int) \<Rightarrow> string \<Rightarrow> nat \<Rightarrow> nat \<Rightarrow> nat" where
  "mb_walk mb s cp sp =
     (if sp < length s \<and> sp < cp
      then (let n = fst (mb (take 16 (drop sp s))) in mb_walk mb s cp (sp + (if n \<le> 0 then 1 else nat n)))
      else sp)"
  by pat_completeness auto
termination by (relation "measure (\<lambda>(mb, s, cp, sp). cp - sp)") auto

text \<open>The format \<open>\(.*\)\(%s\)$\<close> filled in.\<close>

definition suffix_re :: "string \<Rightarrow> string" where
  "suffix_re u = (let b = [CHR 0x5C] in b @ ''(.*'' @ b @ '')'' @ b @ ''('' @ u @ b @ '')$'')"

definition strip_suffix :: "nat \<Rightarrow> (string \<Rightarrow> int \<times> int) \<Rightarrow> string \<Rightarrow> string \<Rightarrow> string" where
  "strip_suffix mbm mb path suf =
     (let cp = match_back path (length path) suf (length suf)
      in if mbm > 1 then (if cp = mb_walk mb path cp 0 then take cp path else path)
         else take cp path)"

text \<open>
  From the first \<open>for\<close> loop on: the path that is printed, an error message, or nothing for the store
  into the literal \<open>""\<close> that \<open>path\<close> points to in the UCB variant when the path ends in a slash.
\<close>

definition basename_path :: "variant \<Rightarrow> nat \<Rightarrow> (string \<Rightarrow> int \<times> int) \<Rightarrow>
    (string \<Rightarrow> (string \<Rightarrow> nat option) option) \<Rightarrow> string \<Rightarrow> string option \<Rightarrow> (string + string) option" where
  "basename_path var mbm mb re path suf =
     (if dropWhile (\<lambda>c. c = CHR ''/'') path = [] then Some (Inr (if var = UCB then [] else ''/''))
      else
        let lit = (var = UCB \<and> last path = CHR ''/'');
            (cp, path) = (if lit then (0, [])
                          else if var = UCB then (length path - 1, path)
                          else trim_slashes (length path) path);
            cp = (if lit then 0 else to_slash path cp);
            path = (if \<not> lit \<and> path ! cp = CHR ''/'' then drop (cp + 1) path else path)
        in case suf of
             None \<Rightarrow> Some (Inr path)
           | Some u \<Rightarrow>
               if var = SV then
                 (case re (suffix_re u) of
                    None \<Rightarrow> Some (Inl (''expr: RE error'' @ [NL]))
                  | Some advance \<Rightarrow>
                      (case advance path of
                         Some k \<Rightarrow> Some (Inr (if k > 0 then take k path else path))
                       | None \<Rightarrow> Some (Inr path)))
               else if var = SUS \<and> path = u then Some (Inr path)
               else if lit then None
               else Some (Inr (strip_suffix mbm mb path u)))"

definition basename_main :: "variant \<Rightarrow> nat \<Rightarrow> (string \<Rightarrow> int \<times> int) \<Rightarrow>
    (string \<Rightarrow> (string \<Rightarrow> nat option) option) \<Rightarrow> string \<Rightarrow> string list \<Rightarrow> outcome option" where
  "basename_main var mbm mb re progname args =
     (let args = (case args of a # as \<Rightarrow> if a = ''--'' then as else args | [] \<Rightarrow> []);
          run = (\<lambda>path suf. case basename_path var mbm mb re path suf of
                   None \<Rightarrow> None
                 | Some (Inl e) \<Rightarrow> Some \<lparr>out = [], err = e, status = 2\<rparr>
                 | Some (Inr p) \<Rightarrow> Some \<lparr>out = p @ [NL], err = [], status = 0\<rparr>)
      in if var \<noteq> UCB then
           (if args = [] \<or> hd args = [] then run ''.'' None
            else if length args = 2 then run (hd args) (Some (args ! 1))
            else if length args > 2 then Some \<lparr>out = [], err = basename_usage var progname, status = 2\<rparr>
            else run (hd args) None)
         else
           (if args = [] then run [] None
            else run (hd args) (if length args \<ge> 2 then Some (args ! 1) else None)))"

section \<open>Components\<close>

text \<open>The names a path is made of, and the form of a path that has at least one of them.\<close>

definition components :: "string \<Rightarrow> string list" where
  "components s = filter (\<lambda>c. c \<noteq> []) (splitp (\<lambda>c. c = CHR ''/'') s)"

abbreviation slashes :: "nat \<Rightarrow> string" where
  "slashes j \<equiv> replicate j (CHR ''/'')"

definition dir_part :: "string \<Rightarrow> bool" where
  "dir_part q \<longleftrightarrow> q = [] \<or> last q = CHR ''/''"

lemma components_Nil [simp]: "components [] = []"
  by (simp add: components_def)

lemma components_slash: "components (s @ CHR ''/'' # t) = components s @ components t"
  by (simp add: components_def splitp_cut)

lemma components_slashes [simp]: "components (s @ slashes j) = components s"
proof (induction j arbitrary: s)
  case (Suc j)
  from Suc [of "s @ ''/''"] components_slash [of s "[]"] show ?case by simp
qed simp

lemma components_name: "b \<noteq> [] \<Longrightarrow> CHR ''/'' \<notin> set b \<Longrightarrow> components b = [b]"
proof -
  assume b: "b \<noteq> []" "CHR ''/'' \<notin> set b"
  then have "splitp (\<lambda>c. c = CHR ''/'') b = [b]" by (intro splitp_none) auto
  with b(1) show ?thesis by (simp add: components_def)
qed

lemma components_dir: "dir_part q \<Longrightarrow> components (q @ s) = components q @ components s"
proof (cases q rule: rev_cases)
  case (snoc r c)
  moreover assume "dir_part q"
  ultimately show ?thesis using components_slash [of r s] components_slash [of r "[]"] by (simp add: dir_part_def)
qed simp

lemma strip_last:
  obtains p j where "s = p @ replicate j c" "p = [] \<or> last p \<noteq> c"
proof -
  have "\<exists>p j. s = p @ replicate j c \<and> (p = [] \<or> last p \<noteq> c)"
  proof (induction s rule: rev_induct)
    case (snoc x s)
    then obtain p j where s: "s = p @ replicate j c" "p = [] \<or> last p \<noteq> c" by blast
    show ?case
    proof (cases "x = c")
      case True
      with s show ?thesis by (intro exI [of _ p] exI [of _ "Suc j"]) (simp add: replicate_append_same)
    next
      case False
      then show ?thesis by (intro exI [of _ "s @ [x]"] exI [of _ 0]) simp
    qed
  qed simp
  with that show ?thesis by blast
qed

lemma path_form:
  assumes "components s \<noteq> []"
  obtains q b j where "s = q @ b @ slashes j" "dir_part q" "b \<noteq> []" "CHR ''/'' \<notin> set b"
proof -
  obtain p j where s: "s = p @ slashes j" "p = [] \<or> last p \<noteq> CHR ''/''" by (rule strip_last)
  with assms have p: "p \<noteq> []" by auto
  define b where "b = rev (takeWhile (\<lambda>c. c \<noteq> CHR ''/'') (rev p))"
  define q where "q = rev (dropWhile (\<lambda>c. c \<noteq> CHR ''/'') (rev p))"
  have pq: "p = q @ b" by (metis b_def q_def rev_append rev_rev_ident takeWhile_dropWhile_id)
  have "CHR ''/'' \<notin> set b" by (auto simp: b_def dest: set_takeWhileD)
  moreover have "dir_part q"
  proof (cases "dropWhile (\<lambda>c. c \<noteq> CHR ''/'') (rev p)")
    case (Cons x xs)
    then have "x = CHR ''/''" by (metis (full_types) hd_dropWhile list.distinct(1) list.sel(1))
    with Cons show ?thesis by (simp add: q_def dir_part_def)
  qed (simp add: q_def dir_part_def)
  moreover have "b \<noteq> []" using p s(2) by (cases p rule: rev_cases) (auto simp: b_def)
  ultimately show ?thesis using that s(1) pq by simp
qed

lemma components_form:
  assumes "dir_part q" "b \<noteq> []" "CHR ''/'' \<notin> set b"
  shows "components (q @ b @ slashes j) = components q @ [b]"
  using components_dir [OF assms(1), of "b @ slashes j"] components_name [OF assms(2,3)] by simp

lemma components_none: "components s = [] \<longleftrightarrow> dropWhile (\<lambda>c. c = CHR ''/'') s = []"
proof
  assume a: "components s = []"
  obtain p j where s: "s = slashes j @ p" "p = [] \<or> hd p \<noteq> CHR ''/''"
  proof -
    obtain p j where "rev s = p @ slashes j" "p = [] \<or> last p \<noteq> CHR ''/''" by (rule strip_last)
    then have "s = slashes j @ rev p" "rev p = [] \<or> hd (rev p) \<noteq> CHR ''/''"
      by (simp_all add: hd_rev) (metis rev_append rev_replicate rev_rev_ident)
    with that show ?thesis by blast
  qed
  show "dropWhile (\<lambda>c. c = CHR ''/'') s = []"
  proof (cases p)
    case (Cons c t)
    have "dir_part (slashes j)" by (cases j) (auto simp: dir_part_def replicate_append_same)
    with a s(1) have "components p = []" by (simp add: components_dir)
    with Cons s(2) have False by (auto simp: components_def split: list.splits)
    then show ?thesis ..
  qed (simp add: s)
next
  assume "dropWhile (\<lambda>c. c = CHR ''/'') s = []"
  then have "s = slashes (length s)" by (simp add: replicate_eqI)
  then show "components s = []" using components_slashes [of "[]" "length s"] by (metis append_Nil components_Nil)
qed

section \<open>The loops\<close>

lemma trim_slashes_form:
  "b \<noteq> [] \<Longrightarrow> last b \<noteq> CHR ''/'' \<Longrightarrow> trim_slashes (length b + j) (b @ slashes j) = (length b - 1, b)"
proof (induction j)
  case 0
  then obtain n where "length b = Suc n" "b ! n = last b" by (cases b rule: rev_cases) auto
  with 0 show ?case by simp
next
  case (Suc j)
  have "take (length b + j) (b @ slashes (Suc j)) = b @ slashes j" by (simp add: take_replicate del: replicate_Suc)
  moreover have "(b @ slashes (Suc j)) ! (length b + j) = CHR ''/''" by (simp add: nth_append del: replicate_Suc)
  ultimately show ?case using Suc by simp
qed

lemma to_slash_form:
  assumes "dir_part q" "CHR ''/'' \<notin> set b" "k < length b"
  shows "to_slash (q @ b @ r) (length q + k) = length q - 1"
  using assms(3)
proof (induction k)
  case 0
  then have c: "(q @ b @ r) ! length q \<noteq> CHR ''/''" using assms(2) by (cases b) (auto simp: nth_append)
  show ?case
  proof (cases q rule: rev_cases)
    case (snoc p x)
    with assms(1) have "x = CHR ''/''" by (simp add: dir_part_def)
    with snoc c show ?thesis by (cases "length p") (simp_all add: nth_append)
  qed simp
next
  case (Suc k)
  then have "(q @ b @ r) ! (length q + Suc k) \<noteq> CHR ''/''"
    using assms(2) nth_mem [of "Suc k" b] by (auto simp: nth_append simp del: nth_mem)
  with Suc show ?case by simp
qed

lemma match_back_form:
  "match_back s (length s) u (length u) = length s - length (longest_common_prefix (rev s) (rev u))"
proof -
  have "match_back (s @ x) (length s) (u @ y) (length u) =
      length s - length (longest_common_prefix (rev s) (rev u))" for x y
  proof (induction s arbitrary: u x y rule: rev_induct)
    case (snoc c s)
    show ?case
    proof (cases u rule: rev_cases)
      case (snoc v d)
      with snoc.IH [of "c # x" v "d # y"] show ?thesis by (auto simp: nth_append)
    qed simp
  qed (cases "length u"; simp)
  from this [of "[]" "[]"] show ?thesis by simp
qed

text \<open>The last component is found, whatever the number of slashes before and behind it.\<close>

lemma basename_path_last:
  assumes "components path \<noteq> []" "var \<noteq> UCB"
  shows "basename_path var mbm mb re path None = Some (Inr (last (components path)))"
    "basename_path SUS mbm mb re path (Some u) =
       Some (Inr (let b = last (components path) in if b = u then b else strip_suffix mbm mb b u))"
proof -
  from path_form [OF assms(1)] obtain q b j where
    s: "path = q @ b @ slashes j" "dir_part q" "b \<noteq> []" "CHR ''/'' \<notin> set b" by blast
  have ne: "dropWhile (\<lambda>c. c = CHR ''/'') path \<noteq> []" using assms(1) components_none by blast
  have "last (q @ b) \<noteq> CHR ''/''" using s(3,4) last_in_set by fastforce
  then have t: "trim_slashes (length path) path = (length q + (length b - 1), q @ b)"
    using trim_slashes_form [of "q @ b" j] s(1,3) by (cases b) (simp_all add: add.assoc)
  have l: "to_slash (q @ b) (length q + (length b - 1)) = length q - 1"
    using to_slash_form [OF s(2,4), of "length b - 1" "[]"] s(3) by simp
  have d: "((q @ b) ! (length q - Suc 0) = CHR ''/'' \<longrightarrow> drop (Suc (length q - Suc 0)) (q @ b) = b) \<and>
    ((q @ b) ! (length q - Suc 0) \<noteq> CHR ''/'' \<longrightarrow> q = [])"
  proof (cases q rule: rev_cases)
    case Nil
    have "b ! 0 \<noteq> CHR ''/''" using s(3,4) by (cases b) auto
    with Nil show ?thesis by simp
  next
    case (snoc r x)
    with s(2) show ?thesis by (simp add: dir_part_def nth_append)
  qed
  then have d: "(if (q @ b) ! (length q - Suc 0) = CHR ''/'' then drop (Suc (length q - Suc 0)) (q @ b)
      else q @ b) = b" by auto
  have c: "last (components path) = b" using components_form [OF s(2-4), of j] s(1) by simp
  show "basename_path var mbm mb re path None = Some (Inr (last (components path)))"
    using assms(2) t l by (simp add: basename_path_def c ne Let_def d del: dropWhile_eq_Nil_conv drop_append cong: if_cong split del: if_split)
  show "basename_path SUS mbm mb re path (Some u) =
       Some (Inr (let b = last (components path) in if b = u then b else strip_suffix mbm mb b u))"
    using t l by (simp add: basename_path_def c ne Let_def d del: dropWhile_eq_Nil_conv drop_append cong: if_cong split del: if_split)
       simp
qed

section \<open>Properties\<close>

text \<open>
  (C25) Suffixes (the POSIX variant, single-byte characters).  From the last component of the path
  the longest common ending of the component and the suffix operand is removed, unless the two are
  equal.  A suffix the component ends with is thus removed as a whole; but one it does not end with
  is partly removed, as the witness shows: the suffix \<open>.cc\<close> turns \<open>dir/main.c\<close> into \<open>main.\<close>.
\<close>

theorem basename_common_ending:
  assumes "components path \<noteq> []" "path \<noteq> ''--''" "mbm \<le> 1"
  shows "let b = last (components path);
             k = length (longest_common_prefix (rev b) (rev suf))
         in basename_main SUS mbm mb re progname [path, suf] =
              Some \<lparr>out = (if b = suf then b else take (length b - k) b) @ [NL], err = [], status = 0\<rparr>"
proof -
  have "path \<noteq> []" using assms(1) by auto
  then show ?thesis
    using basename_path_last(2) [OF assms(1), of SUS mbm mb re suf] assms(2,3)
    by (simp add: basename_main_def Let_def strip_suffix_def match_back_form)
qed

theorem basename_common_ending_witness:
  "basename_main SUS 1 (\<lambda>s. (0, 0)) (\<lambda>s. None) ''basename'' [''dir/main.c'', ''.cc''] = Some \<lparr>out = ''main.'' @ [NL], err = [], status = 0\<rparr>
   \<and> basename_main SUS 1 (\<lambda>s. (0, 0)) (\<lambda>s. None) ''basename'' [''dir/main.c'', ''.c''] = Some \<lparr>out = ''main'' @ [NL], err = [], status = 0\<rparr>"
proof -
  have c: "components ''dir/main.c'' = [''dir'', ''main.c'']" by (simp add: components_def)
  then have "components ''dir/main.c'' \<noteq> []" "''dir/main.c'' \<noteq> ''--''" "1 \<le> (1 :: nat)" by simp_all
  from basename_common_ending [OF this, of "''.cc''" "\<lambda>s. (0, 0)" "\<lambda>s. None" "''basename''"]
    basename_common_ending [OF this, of "''.c''" "\<lambda>s. (0, 0)" "\<lambda>s. None" "''basename''"]
  show ?thesis unfolding c Let_def by simp
qed

end
