(* ===== verification/Dirname.thy ===== *)
theory Dirname
  imports Basename
begin

text \<open>
  \<open>dirname/dirname.c\<close>: a path name without its last component.  The program works on the argument in
  place and looks, and in one case writes, at the byte before it; the memory is the list of that
  byte, the path and its terminator, and a pointer is an index into it.  Moving on to the left of
  that byte is \<open>None\<close>.  On the systems the program runs on the byte is the NUL that ends the argument before.
\<close>

section \<open>The program\<close>

text \<open>\<open>while (*--cp == '/' && cp >= path);\<close> where \<open>path\<close> is index 1.\<close>

fun skip_back :: "string \<Rightarrow> nat \<Rightarrow> nat" where
  "skip_back m 0 = 0"
| "skip_back m (Suc cp) = (if m ! cp = CHR ''/'' \<and> cp \<ge> 1 then skip_back m cp else cp)"

text \<open>\<open>while (*--cp != '/');\<close> and \<open>while (*--cp == '/');\<close>.\<close>

fun find_back :: "string \<Rightarrow> nat \<Rightarrow> nat option" where
  "find_back m 0 = None"
| "find_back m (Suc cp) = (if m ! cp \<noteq> CHR ''/'' then find_back m cp else Some cp)"

fun leave_back :: "string \<Rightarrow> nat \<Rightarrow> nat option" where
  "leave_back m 0 = None"
| "leave_back m (Suc cp) = (if m ! cp = CHR ''/'' then leave_back m cp else Some cp)"

definition dirname_path :: "char \<Rightarrow> string \<Rightarrow> string option" where
  "dirname_path before path =
     (if path \<noteq> ''//'' \<and> path \<noteq> [] \<and> dropWhile (\<lambda>c. c = CHR ''/'') path = [] then Some ''/''
      else
        let m = before # path @ [NUL];
            m = (if path \<noteq> ''//'' then m[skip_back m (length path + 1) := NUL] else m);
            p = cstr (tl m)
        in if CHR ''/'' \<notin> set p then Some ''.''
           else (case find_back m (length p + 1) of
                   None \<Rightarrow> None
                 | Some cp \<Rightarrow>
                     (case leave_back m cp of
                        None \<Rightarrow> None
                      | Some cp \<Rightarrow>
                          let p = cstr (tl (m[cp + 1 := NUL]))
                          in Some (if p = [] then ''/'' else p))))"

definition dirname_main :: "char \<Rightarrow> string \<Rightarrow> string list \<Rightarrow> outcome option" where
  "dirname_main before progname args =
     (case (case args of a # as \<Rightarrow> if a = ''--'' then as else args | [] \<Rightarrow> []) of
        [] \<Rightarrow> Some \<lparr>out = ''.'' @ [NL], err = [], status = 0\<rparr>
      | [path] \<Rightarrow>
          (case dirname_path before path of
             None \<Rightarrow> None | Some p \<Rightarrow> Some \<lparr>out = p @ [NL], err = [], status = 0\<rparr>)
      | _ \<Rightarrow> Some \<lparr>out = [], err = ''Usage: '' @ progname @ '' [ path ]'' @ [NL], status = 2\<rparr>)"

section \<open>The loops\<close>

lemma skip_back_form:
  "c \<noteq> CHR ''/'' \<Longrightarrow> skip_back (s @ [c] @ slashes j @ t) (length s + 1 + j) = length s"
proof (induction j arbitrary: t)
  case (Suc j)
  have "s @ [c] @ slashes (Suc j) @ t = s @ [c] @ slashes j @ (CHR ''/'' # t)"
    by (simp add: replicate_app_Cons_same)
  moreover have "(s @ [c] @ slashes (Suc j) @ t) ! (length s + 1 + j) = CHR ''/''"
    by (simp add: nth_append del: replicate_Suc)
  ultimately show ?case using Suc.IH [OF Suc.prems, of "CHR ''/'' # t"] by simp
qed (simp add: nth_append)

lemma find_back_form:
  "CHR ''/'' \<notin> set b \<Longrightarrow> find_back (s @ CHR ''/'' # b @ t) (length s + 1 + length b) = Some (length s)"
proof (induction b arbitrary: t rule: rev_induct)
  case (snoc x b)
  then show ?case using snoc.IH [of "x # t"] by (auto simp: nth_append)
qed (simp add: nth_append)

lemma leave_back_form:
  "c \<noteq> CHR ''/'' \<Longrightarrow> leave_back (s @ [c] @ slashes j @ t) (length s + 1 + j) = Some (length s)"
proof (induction j arbitrary: t)
  case (Suc j)
  have "s @ [c] @ slashes (Suc j) @ t = s @ [c] @ slashes j @ (CHR ''/'' # t)"
    by (simp add: replicate_app_Cons_same)
  moreover have "(s @ [c] @ slashes (Suc j) @ t) ! (length s + 1 + j) = CHR ''/''"
    by (simp add: nth_append del: replicate_Suc)
  ultimately show ?case using Suc.IH [OF Suc.prems, of "CHR ''/'' # t"] by simp
qed (simp add: nth_append)

text \<open>What is left of a path that has a component: the part before the last one, without its slashes.\<close>

lemma dirname_path_form:
  assumes path: "path = q @ b @ slashes j" "b \<noteq> []" "CHR ''/'' \<notin> set b" "NUL \<notin> set path"
    and q: "q = [] \<or> (\<exists>k. q = r @ slashes (Suc k))" "r = [] \<or> last r \<noteq> CHR ''/''"
    and bf: "before \<noteq> CHR ''/''"
  shows "dirname_path before path = Some (if q = [] then ''.'' else if r = [] then ''/'' else r)"
proof -
  obtain b' x where b: "b = b' @ [x]" "x \<noteq> CHR ''/''" "CHR ''/'' \<notin> set b'"
    using path(2,3) by (cases b rule: rev_cases) auto
  define m where "m = (before # q @ b') @ [x] @ slashes j @ [NUL]"
  define m' where "m' = (before # q @ b') @ NUL # slashes j @ [NUL]"
  have m: "before # path @ [NUL] = m" by (simp add: m_def path(1) b(1))
  have "skip_back m (length path + 1) = length (before # q @ b')"
    unfolding m_def using skip_back_form [OF b(2), of "before # q @ b'" j "[NUL]"]
    by (simp add: path(1) b(1) add.assoc del: skip_back.simps)
  then have m': "m[skip_back m (length path + 1) := NUL] = m'"
    using list_update_length [of "before # q @ b'" x "slashes j @ [NUL]" NUL] by (simp add: m_def m'_def)
  have n: "NUL \<notin> set q" "NUL \<notin> set b'" using path(1,4) b(1) by auto
  then have p: "cstr (tl m') = q @ b'" by (simp add: m'_def cstr_def)
  have "x \<in> set path" by (simp add: path(1) b(1))
  then have d: "path \<noteq> ''//''" "dropWhile (\<lambda>c. c = CHR ''/'') path \<noteq> []" using b(2) by auto
  show ?thesis
  proof (cases "q = []")
    case True
    with d m m' p b(3) show ?thesis by (simp add: dirname_path_def Let_def del: dropWhile_eq_Nil_conv)
  next
    case False
    with q(1) obtain k where k: "q = r @ slashes (Suc k)" by blast
    let ?s = "before # r"
    have "m' = (?s @ slashes k) @ CHR ''/'' # b' @ (NUL # slashes j @ [NUL])"
      by (simp add: m'_def k replicate_app_Cons_same)
    then have f: "find_back m' (length (q @ b') + 1) = Some (length ?s + k)"
      using find_back_form [OF b(3), of "?s @ slashes k" "NUL # slashes j @ [NUL]"]
      by (simp add: k add.assoc del: find_back.simps)
    obtain u c where uc: "?s = u @ [c]" "c \<noteq> CHR ''/''"
      using q(2) bf by (intro that [of "butlast ?s" "last ?s"]) auto
    have mu: "m' = u @ [c] @ slashes k @ (CHR ''/'' # b' @ NUL # slashes j @ [NUL])"
      using uc(1) by (simp add: m'_def k replicate_app_Cons_same)
    have len: "length ?s = length u + 1" using uc(1) by (metis length_append_singleton Suc_eq_plus1)
    have l: "leave_back m' (length ?s + k) = Some (length u)"
      unfolding len mu by (rule leave_back_form [OF uc(2)])
    have "m' = ?s @ CHR ''/'' # (slashes k @ b' @ NUL # slashes j @ [NUL])"
      by (simp add: m'_def k)
    then have "m'[length u + 1 := NUL] = ?s @ NUL # (slashes k @ b' @ NUL # slashes j @ [NUL])"
      unfolding len [symmetric] by (simp only: list_update_length)
    then have "cstr (tl (m'[length u + 1 := NUL])) = r" using n(1) k by (simp add: cstr_def)
    moreover have "CHR ''/'' \<in> set (q @ b')" by (simp add: k)
    ultimately show ?thesis using d m m' p f l False
      by (simp add: dirname_path_def Let_def del: dropWhile_eq_Nil_conv find_back.simps leave_back.simps)
  qed
qed

section \<open>Properties\<close>

text \<open>
  (C24) \<open>dirname\<close> and the System V and POSIX variants of \<open>basename\<close> take a path apart.  For a path with at
  least one component, \<open>basename\<close> (not in the UCB variant, which prints an empty line for a path that ends in a slash)
  prints the last component, and \<open>dirname\<close> prints a path made of the components before it, absolute
  exactly when the path is; or \<open>.\<close> when the only component is the last one and the path is not absolute.  Repeated slashes and slashes at the end
  make no difference, and the byte before the path is read without harm when it is not a slash.
\<close>

theorem dirname_basename:
  assumes "components path \<noteq> []" "NUL \<notin> set path" "path \<noteq> ''--''"
    and "before \<noteq> CHR ''/''" "var \<noteq> UCB"
  shows "basename_main var mbm mb re progname [path] =
      Some \<lparr>out = last (components path) @ [NL], err = [], status = 0\<rparr> \<and>
    (\<exists>d. dirname_main before progname [path] = Some \<lparr>out = d @ [NL], err = [], status = 0\<rparr> \<and>
      (if butlast (components path) = [] \<and> hd path \<noteq> CHR ''/'' then d = ''.''
       else d \<noteq> [] \<and> components d = butlast (components path) \<and> (hd d = CHR ''/'' \<longleftrightarrow> hd path = CHR ''/'')))"
proof
  have ne: "path \<noteq> []" using assms(1) by auto
  then show "basename_main var mbm mb re progname [path] =
      Some \<lparr>out = last (components path) @ [NL], err = [], status = 0\<rparr>"
    using basename_path_last(1) [OF assms(1,5)] assms(3,5) by (simp add: basename_main_def Let_def)
  from path_form [OF assms(1)] obtain q b j where
    s: "path = q @ b @ slashes j" "dir_part q" "b \<noteq> []" "CHR ''/'' \<notin> set b" by blast
  obtain r k where q: "q = r @ slashes k" "r = [] \<or> last r \<noteq> CHR ''/''" by (rule strip_last)
  have k: "q = [] \<or> (\<exists>k. q = r @ slashes (Suc k))"
    using q s(2) by (cases k) (auto simp: dir_part_def)
  let ?d = "if q = [] then ''.'' else if r = [] then ''/'' else r"
  have d: "dirname_path before path = Some ?d"
    by (rule dirname_path_form [OF s(1,3,4) assms(2) k q(2) assms(4)])
  have c: "butlast (components path) = components r"
    using components_form [OF s(2-4), of j] s(1) q(1) by simp
  have hb: "hd b \<noteq> CHR ''/''" using s(3,4) by (cases b) auto
  have rc: "r \<noteq> [] \<Longrightarrow> components r \<noteq> []"
  proof -
    assume "r \<noteq> []"
    with q(2) have "last r \<noteq> CHR ''/''" "last r \<in> set r" by auto
    then show ?thesis unfolding components_none by auto
  qed
  have root: "components ''/'' = []" by (simp add: components_def)
  have "dirname_main before progname [path] = Some \<lparr>out = ?d @ [NL], err = [], status = 0\<rparr>"
    using d assms(3) by (simp add: dirname_main_def)
  moreover have "if butlast (components path) = [] \<and> hd path \<noteq> CHR ''/'' then ?d = ''.''
       else ?d \<noteq> [] \<and> components ?d = butlast (components path) \<and> (hd ?d = CHR ''/'' \<longleftrightarrow> hd path = CHR ''/'')"
  proof (cases "q = []")
    case True
    with q(1) have "r = []" by simp
    with True c hb s(1,3) show ?thesis by simp
  next
    case False
    with k obtain k' where k': "q = r @ slashes (Suc k')" by blast
    show ?thesis
    proof (cases "r = []")
      case True
      with False c root k' s(1) show ?thesis by simp
    next
      case r: False
      with False c rc [OF r] k' s(1) show ?thesis by simp
    qed
  qed
  ultimately show "\<exists>d. dirname_main before progname [path] = Some \<lparr>out = d @ [NL], err = [], status = 0\<rparr> \<and>
      (if butlast (components path) = [] \<and> hd path \<noteq> CHR ''/'' then d = ''.''
       else d \<noteq> [] \<and> components d = butlast (components path) \<and> (hd d = CHR ''/'' \<longleftrightarrow> hd path = CHR ''/''))"
    by (intro exI [of _ ?d] conjI)
qed

theorem dirname_basename_witness:
  "basename_main SUS 1 (\<lambda>s. (0, 0)) (\<lambda>s. None) ''p'' [''/usr//lib/''] = Some \<lparr>out = ''lib'' @ [NL], err = [], status = 0\<rparr> \<and>
   (\<exists>d. dirname_main NUL ''p'' [''/usr//lib/''] = Some \<lparr>out = d @ [NL], err = [], status = 0\<rparr> \<and>
     components d = [''usr''])"
proof -
  have c: "components ''/usr//lib/'' = [''usr'', ''lib'']" by (simp add: components_def)
  then have "components ''/usr//lib/'' \<noteq> []" "NUL \<notin> set ''/usr//lib/''" "''/usr//lib/'' \<noteq> ''--''"
    "NUL \<noteq> CHR ''/''" "SUS \<noteq> UCB" by simp_all
  from dirname_basename [OF this, of 1 "\<lambda>s. (0, 0)" "\<lambda>s. None" "''p''"] show ?thesis
    unfolding c by auto
qed

end
