(* ===== verification/Test.thy ===== *)
theory Test
  imports Stdio
begin

text \<open>
  \<open>test/test.c\<close> and \<open>test/helper.c\<close>: conditions.  The expression is evaluated by a recursive descent
  parser over the arguments; \<open>ap\<close> is the index of the next one and \<open>ac\<close> the length of the list \<open>av\<close>.
  The four parsing functions call one another, with fuel that a call uses up by one;
  no result (\<open>None\<close>) means that the fuel has run out, and \<open>4 * ac + 4\<close> units always suffice.  The
  environment record holds what the system calls return.
\<close>

unbundle bit_operations_syntax

section \<open>Files and numbers\<close>

record tstat =
  st_mode :: int
  st_size :: int

text \<open>
  \<open>te_stat\<close> and \<open>te_lstat\<close> give an error number or the status, \<open>te_access\<close> 0 or an error number.
\<close>

record tenv =
  te_stat :: "string \<Rightarrow> int + tstat"
  te_lstat :: "string \<Rightarrow> int + tstat"
  te_access :: "string \<Rightarrow> int \<Rightarrow> int"
  te_isatty :: "int \<Rightarrow> bool"
  te_euid :: int

abbreviation S_IFMT :: int where "S_IFMT \<equiv> 0xF000"
abbreviation S_IFSOCK :: int where "S_IFSOCK \<equiv> 0xC000"
abbreviation S_IFLNK :: int where "S_IFLNK \<equiv> 0xA000"
abbreviation S_IFREG :: int where "S_IFREG \<equiv> 0x8000"
abbreviation S_IFBLK :: int where "S_IFBLK \<equiv> 0x6000"
abbreviation S_IFDIR :: int where "S_IFDIR \<equiv> 0x4000"
abbreviation S_IFCHR :: int where "S_IFCHR \<equiv> 0x2000"
abbreviation S_IFIFO :: int where "S_IFIFO \<equiv> 0x1000"
abbreviation S_ISUID :: int where "S_ISUID \<equiv> 0x800"
abbreviation S_ISGID :: int where "S_ISGID \<equiv> 0x400"
abbreviation S_ISVTX :: int where "S_ISVTX \<equiv> 0x200"
abbreviation S_IREAD :: int where "S_IREAD \<equiv> 0x100"
abbreviation S_IWRITE :: int where "S_IWRITE \<equiv> 0x80"
abbreviation S_IEXEC :: int where "S_IEXEC \<equiv> 0x40"
abbreviation EACCES :: int where "EACCES \<equiv> 13"

definition chk_access :: "tenv \<Rightarrow> string \<Rightarrow> int \<Rightarrow> bool \<Rightarrow> int" where
  "chk_access env name mode regflag =
     (case te_stat env name of
        Inl e \<Rightarrow> if e = EACCES then 3 else 1
      | Inr st \<Rightarrow>
          let ftype = st_mode st AND S_IFMT; e = te_access env name (drop_bit 6 mode)
          in if mode = S_IEXEC \<and> regflag \<and> ftype \<noteq> S_IFREG then 2
             else if e = 0 then
               (if te_euid env = 0 then
                  (if ftype \<noteq> S_IFREG \<or> mode \<noteq> S_IEXEC then 0
                   else if st_mode st AND (S_IEXEC OR drop_bit 3 S_IEXEC OR drop_bit 6 S_IEXEC) \<noteq> 0 then 0
                   else 3)
                else 0)
             else if e = EACCES then 3 else 1)"

definition ftype :: "tenv \<Rightarrow> string \<Rightarrow> int \<Rightarrow> bool" where
  "ftype env f field =
     (case te_stat env f of Inl _ \<Rightarrow> False | Inr st \<Rightarrow> st_mode st AND field = field)"

definition filtyp :: "tenv \<Rightarrow> string \<Rightarrow> int \<Rightarrow> bool" where
  "filtyp env f field =
     (case (if field = S_IFLNK then te_lstat env else te_stat env) f of
        Inl _ \<Rightarrow> False | Inr st \<Rightarrow> st_mode st AND S_IFMT = field)"

definition fsizep :: "tenv \<Rightarrow> string \<Rightarrow> bool" where
  "fsizep env f = (case te_stat env f of Inl _ \<Rightarrow> False | Inr st \<Rightarrow> st_size st > 0)"

text \<open>\<open>stoifll\<close>: a \<open>long long\<close>, with the wrap-around of its 64 bits.\<close>

definition stoifll :: "string \<Rightarrow> 64 word" where
  "stoifll s =
     (let s = dropWhile (\<lambda>c. c = CHR '' '') s;
          neg = (s \<noteq> [] \<and> hd s = CHR ''-'');
          s = (if s \<noteq> [] \<and> (hd s = CHR ''-'' \<or> hd s = CHR ''+'') then tl s else s);
          r = foldl (\<lambda>r c. r * 10 + of_int (uchar c) - 48) 0 (takeWhile is_digit s)
      in if neg then - r else r)"

section \<open>The parser\<close>

text \<open>
  The two ways to give up: \<open>failed("test", msg)\<close> writes to standard error, \<open>bfailed(btest, badop, op)\<close>
  to standard output.  A result is a failure or a value and the new \<open>ap\<close>.
\<close>

datatype tfail = Failed string | Badop string

type_synonym 'a tres = "(tfail + 'a \<times> nat) option"

definition tbind :: "'a tres \<Rightarrow> ('a \<Rightarrow> nat \<Rightarrow> 'b tres) \<Rightarrow> 'b tres" where
  "tbind m f =
     (case m of None \<Rightarrow> None | Some (Inl e) \<Rightarrow> Some (Inl e) | Some (Inr (a, ap)) \<Rightarrow> f a ap)"

definition ret :: "'a \<Rightarrow> nat \<Rightarrow> 'a tres" where
  "ret a ap = Some (Inr (a, ap))"

text \<open>\<open>nxtarg(0)\<close>, and \<open>nxtarg(1)\<close>, which counts on past the last argument.\<close>

definition nxtarg :: "string list \<Rightarrow> nat \<Rightarrow> string tres" where
  "nxtarg av ap =
     (if ap \<ge> length av then Some (Inl (Failed ''argument expected'')) else ret (av ! ap) (ap + 1))"

definition nxtarg1 :: "string list \<Rightarrow> nat \<Rightarrow> string option" where
  "nxtarg1 av ap = (if ap \<ge> length av then None else Some (av ! ap))"

text \<open>
  The part of \<open>e3\<close> for the operators with one operand, where \<open>a\<close> is the first argument and \<open>ap\<close> behind it;
  no value when \<open>a\<close> is none of them.  \<open>test_op\<close> is what an operator asks of \<open>nxtarg(0)\<close>; the operand of
  \<open>-t\<close> may be missing.
\<close>

definition test_op :: "variant \<Rightarrow> tenv \<Rightarrow> string \<Rightarrow> (string \<Rightarrow> bool) option" where
  "test_op var env a =
     (if a = ''-r'' then Some (\<lambda>x. chk_access env x S_IREAD False = 0)
      else if a = ''-w'' then Some (\<lambda>x. chk_access env x S_IWRITE False = 0)
      else if a = ''-x'' then Some (\<lambda>x. chk_access env x S_IEXEC False = 0)
      else if var = SUS \<and> a = ''-e'' then Some (\<lambda>x. te_access env x 0 = 0)
      else if var = SUS \<and> a = ''-S'' then Some (\<lambda>x. filtyp env x S_IFSOCK)
      else if a = ''-d'' then Some (\<lambda>x. filtyp env x S_IFDIR)
      else if a = ''-c'' then Some (\<lambda>x. filtyp env x S_IFCHR)
      else if a = ''-b'' then Some (\<lambda>x. filtyp env x S_IFBLK)
      else if a = ''-f'' then
        (if var = UCB
         then Some (\<lambda>x. case te_stat env x of Inl _ \<Rightarrow> False | Inr st \<Rightarrow> st_mode st AND S_IFMT \<noteq> S_IFDIR)
         else Some (\<lambda>x. filtyp env x S_IFREG))
      else if a = ''-u'' then Some (\<lambda>x. ftype env x S_ISUID)
      else if a = ''-g'' then Some (\<lambda>x. ftype env x S_ISGID)
      else if a = ''-k'' then Some (\<lambda>x. ftype env x S_ISVTX)
      else if a = ''-p'' then Some (\<lambda>x. filtyp env x S_IFIFO)
      else if a = ''-h'' \<or> a = ''-L'' then Some (\<lambda>x. filtyp env x S_IFLNK)
      else if a = ''-s'' then Some (\<lambda>x. fsizep env x)
      else if a = ''-n'' then Some (\<lambda>x. x \<noteq> [])
      else if a = ''-z'' then Some (\<lambda>x. x = [])
      else None)"

definition test_unary :: "variant \<Rightarrow> tenv \<Rightarrow> string list \<Rightarrow> string \<Rightarrow> nat \<Rightarrow> bool tres option" where
  "test_unary var env av a ap =
     (case test_op var env a of
        Some P \<Rightarrow> Some (tbind (nxtarg av ap) (\<lambda>x ap. ret (P x) ap))
      | None \<Rightarrow>
          if a = ''-t'' then
            Some (if ap \<ge> length av then ret (te_isatty env 1) ap
                  else tbind (nxtarg av ap) (\<lambda>x ap'.
                    if x = ''-a'' \<or> x = ''-o'' then ret (te_isatty env 1) ap
                    else ret (te_isatty env (atoi x)) ap'))
          else None)"

text \<open>The end of \<open>e3\<close>, from the second \<open>p2 = nxtarg(1)\<close> on.\<close>

definition test_binary :: "string list \<Rightarrow> string \<Rightarrow> nat \<Rightarrow> bool tres" where
  "test_binary av a ap =
     (case nxtarg1 av ap of
        None \<Rightarrow> ret (a \<noteq> []) (ap + 1)
      | Some p2 \<Rightarrow>
          if p2 = ''-a'' \<or> p2 = ''-o'' then ret (a \<noteq> []) ap
          else if p2 = ''='' then tbind (nxtarg av (ap + 1)) (\<lambda>x ap. ret (x = a) ap)
          else if p2 = ''!='' then tbind (nxtarg av (ap + 1)) (\<lambda>x ap. ret (x \<noteq> a) ap)
          else tbind (nxtarg av (ap + 1)) (\<lambda>x ap.
                 let ll_1 = sint (stoifll a); ll_2 = sint (stoifll x)
                 in if p2 = ''-eq'' then ret (ll_1 = ll_2) ap
                    else if p2 = ''-ne'' then ret (ll_1 \<noteq> ll_2) ap
                    else if p2 = ''-gt'' then ret (ll_1 > ll_2) ap
                    else if p2 = ''-lt'' then ret (ll_1 < ll_2) ap
                    else if p2 = ''-ge'' then ret (ll_1 \<ge> ll_2) ap
                    else if p2 = ''-le'' then ret (ll_1 \<le> ll_2) ap
                    else Some (Inl (Badop p2))))"

fun test_sexp :: "variant \<Rightarrow> tenv \<Rightarrow> string list \<Rightarrow> nat \<Rightarrow> nat \<Rightarrow> bool tres"
  and test_e1 :: "variant \<Rightarrow> tenv \<Rightarrow> string list \<Rightarrow> nat \<Rightarrow> nat \<Rightarrow> bool tres"
  and test_e2 :: "variant \<Rightarrow> tenv \<Rightarrow> string list \<Rightarrow> nat \<Rightarrow> nat \<Rightarrow> bool tres"
  and test_e3 :: "variant \<Rightarrow> tenv \<Rightarrow> string list \<Rightarrow> nat \<Rightarrow> nat \<Rightarrow> bool tres"
where
  "test_sexp var env av 0 ap = None"
| "test_sexp var env av (Suc k) ap =
     tbind (test_e1 var env av k ap) (\<lambda>p1 ap.
       if nxtarg1 av ap = Some ''-o''
       then tbind (test_sexp var env av k (ap + 1)) (\<lambda>v ap. ret (p1 \<or> v) ap)
       else ret p1 ap)"
| "test_e1 var env av 0 ap = None"
| "test_e1 var env av (Suc k) ap =
     tbind (test_e2 var env av k ap) (\<lambda>p1 ap.
       if nxtarg1 av ap = Some ''-a''
       then tbind (test_e1 var env av k (ap + 1)) (\<lambda>v ap. ret (p1 \<and> v) ap)
       else ret p1 ap)"
| "test_e2 var env av 0 ap = None"
| "test_e2 var env av (Suc k) ap =
     tbind (nxtarg av ap) (\<lambda>a ap'.
       if a = ''!'' then tbind (test_e3 var env av k ap') (\<lambda>v ap. ret (\<not> v) ap)
       else test_e3 var env av k ap)"
| "test_e3 var env av 0 ap = None"
| "test_e3 var env av (Suc k) ap =
     tbind (nxtarg av ap) (\<lambda>a ap.
       if a = ''('' then
         tbind (test_sexp var env av k ap) (\<lambda>p1 ap.
           tbind (nxtarg av ap) (\<lambda>x ap.
             if x \<noteq> '')'' then Some (Inl (Failed '') expected'')) else ret p1 ap))
       else if nxtarg1 av ap \<noteq> Some ''='' \<and> nxtarg1 av ap \<noteq> Some ''!='' then
         (if var = SUS \<and> a = ''!'' then tbind (test_e3 var env av k ap) (\<lambda>v ap. ret (\<not> v) ap)
          else case test_unary var env av a ap of
                 Some r \<Rightarrow> r
               | None \<Rightarrow> test_binary av a ap)
       else test_binary av a ap)"

text \<open>\<open>test\<close>, which \<open>main\<close> calls with its arguments; \<open>ERROR\<close> is 2 in the POSIX variant and 1 otherwise.\<close>

definition test_end :: "variant \<Rightarrow> bool tres \<Rightarrow> outcome option" where
  "test_end var r =
     (let ERROR = (if var = SUS then 2 else 1)
      in case r of
           None \<Rightarrow> None
         | Some (Inr (v, _)) \<Rightarrow> Some \<lparr>out = [], err = [], status = (if v then 0 else 1)\<rparr>
         | Some (Inl (Failed msg)) \<Rightarrow> Some \<lparr>out = [], err = ''test: '' @ msg @ [NL], status = ERROR\<rparr>
         | Some (Inl (Badop op)) \<Rightarrow>
             Some \<lparr>out = ''test: '' @ ''test'' @ '': '' @ ''unknown operator '' @ op @ [NL], err = [], status = ERROR\<rparr>)"

definition test_main :: "variant \<Rightarrow> tenv \<Rightarrow> string list \<Rightarrow> outcome option" where
  "test_main var env com =
     (if hd com = ''['' \<and> last com \<noteq> '']'' then test_end var (Some (Inl (Failed ''] missing'')))
      else
        let av = (if hd com = ''['' then butlast com else com); ac = length av; fuel = 4 * ac + 4
        in if ac \<le> 1 then test_end var (ret False 1)
           else if var = SUS \<and> ac = 2 then test_end var (tbind (nxtarg av 1) (\<lambda>x ap. ret (x \<noteq> []) ap))
           else if var = SUS \<and> (ac = 3 \<or> ac = 4) then test_end var (test_e3 var env av fuel 1)
           else test_end var (test_sexp var env av fuel 1))"

section \<open>The fuel suffices\<close>

text \<open>\<open>moves ap r\<close>: there is a result, and a successful one is behind \<open>ap\<close>.\<close>

definition moves :: "nat \<Rightarrow> 'a tres \<Rightarrow> bool" where
  "moves ap r \<longleftrightarrow> (case r of None \<Rightarrow> False | Some (Inl _) \<Rightarrow> True | Some (Inr (_, ap')) \<Rightarrow> ap < ap')"

lemma moves_simps [simp]: "moves ap (ret v ap') \<longleftrightarrow> ap < ap'" "moves ap (Some (Inl e))" "\<not> moves ap None"
  by (simp_all add: moves_def ret_def)

lemma tbind_simps [simp]: "tbind (ret v ap) f = f v ap" "tbind (Some (Inl e)) f = Some (Inl e)" "tbind None f = None"
  by (simp_all add: tbind_def ret_def)

lemma moves_cases:
  assumes "moves ap r"
  obtains e where "r = Some (Inl e)" | v ap' where "r = ret v ap'" "ap < ap'"
  using assms by (auto simp: moves_def ret_def split: option.splits sum.splits prod.splits)

lemma moves_bind:
  assumes "moves ap r" "\<And>v ap'. ap < ap' \<Longrightarrow> moves ap (f v ap')"
  shows "moves ap (tbind r f)"
  using assms by (cases rule: moves_cases) auto

lemma moves_trans: "moves ap' r \<Longrightarrow> ap \<le> ap' \<Longrightarrow> moves ap r"
  by (auto simp: moves_def split: option.splits sum.splits)

lemma nxtarg_moves: "moves ap (nxtarg av ap)"
  by (simp add: nxtarg_def)

lemma nxtarg_bind:
  assumes "\<And>a. ap < length av \<Longrightarrow> a = av ! ap \<Longrightarrow> moves ap (f a (ap + 1))"
  shows "moves ap (tbind (nxtarg av ap) f)"
  using assms by (simp add: nxtarg_def)

lemma test_unary_moves: "test_unary var env av a (Suc ap) = Some r \<Longrightarrow> moves ap r"
  by (auto simp: test_unary_def nxtarg_def split: if_splits option.splits)

lemma test_binary_moves: "moves ap (test_binary av a (Suc ap))"
  by (auto simp: test_binary_def nxtarg_def Let_def split: option.splits)

lemma test_moves:
  "4 * (length av - ap) + 4 \<le> k \<Longrightarrow> moves ap (test_sexp var env av k ap)"
  "4 * (length av - ap) + 3 \<le> k \<Longrightarrow> moves ap (test_e1 var env av k ap)"
  "4 * (length av - ap) + 2 \<le> k \<Longrightarrow> moves ap (test_e2 var env av k ap)"
  "4 * (length av - ap) + 1 \<le> k \<Longrightarrow> moves ap (test_e3 var env av k ap)"
proof (induction var env av k ap and var env av k ap and var env av k ap and var env av k ap
    rule: test_sexp_test_e1_test_e2_test_e3.induct)
  case (2 var env av k ap)
  have "moves ap (if nxtarg1 av ap' = Some ''-o''
       then tbind (test_sexp var env av k (ap' + 1)) (\<lambda>v ap. ret (p1 \<or> v) ap) else ret p1 ap')"
    if ap': "ap < ap'" for p1 ap'
  proof (cases "nxtarg1 av ap' = Some ''-o''")
    case True
    then have "ap' < length av" by (auto simp: nxtarg1_def split: if_splits)
    with ap' "2.prems" have "4 * (length av - (ap' + 1)) + 4 \<le> k" by linarith
    with "2.IH"(2) [OF True] have "moves (ap' + 1) (test_sexp var env av k (ap' + 1))" by blast
    then have "moves ap (test_sexp var env av k (ap' + 1))" using ap' by (auto intro: moves_trans)
    with True show ?thesis by (auto intro!: moves_bind)
  qed (use ap' in auto)
  with "2.IH"(1) "2.prems" show ?case by (auto intro!: moves_bind)
next
  case (4 var env av k ap)
  have "moves ap (if nxtarg1 av ap' = Some ''-a''
       then tbind (test_e1 var env av k (ap' + 1)) (\<lambda>v ap. ret (p1 \<and> v) ap) else ret p1 ap')"
    if ap': "ap < ap'" for p1 ap'
  proof (cases "nxtarg1 av ap' = Some ''-a''")
    case True
    then have "ap' < length av" by (auto simp: nxtarg1_def split: if_splits)
    with ap' "4.prems" have "4 * (length av - (ap' + 1)) + 3 \<le> k" by linarith
    with "4.IH"(2) [OF True] have "moves (ap' + 1) (test_e1 var env av k (ap' + 1))" by blast
    then have "moves ap (test_e1 var env av k (ap' + 1))" using ap' by (auto intro: moves_trans)
    with True show ?thesis by (auto intro!: moves_bind)
  qed (use ap' in auto)
  with "4.IH"(1) "4.prems" show ?case by (auto intro!: moves_bind)
next
  case (6 var env av k ap)
  show ?case
  proof (simp only: test_e2.simps, rule nxtarg_bind)
    fix a assume a: "ap < length av" "a = av ! ap"
    show "moves ap (if a = ''!'' then tbind (test_e3 var env av k (ap + 1)) (\<lambda>v ap. ret (\<not> v) ap)
        else test_e3 var env av k ap)"
    proof (cases "a = ''!''")
      case True
      have "4 * (length av - (ap + 1)) + 1 \<le> k" using a(1) "6.prems" by linarith
      with "6.IH"(1) [OF True] have "moves (ap + 1) (test_e3 var env av k (ap + 1))" by blast
      then have "moves ap (test_e3 var env av k (ap + 1))" by (auto intro: moves_trans)
      with True show ?thesis by (auto intro!: moves_bind)
    next
      case False
      with "6.IH"(2) [OF False] "6.prems" show ?thesis by auto
    qed
  qed
next
  case (8 var env av k ap)
  show ?case
  proof (simp only: test_e3.simps, rule nxtarg_bind)
    fix a assume a: "ap < length av" "a = av ! ap"
    then have k: "4 * (length av - (ap + 1)) + 4 \<le> k" using "8.prems" by linarith
    show "moves ap
       (if a = ''('' then
         tbind (test_sexp var env av k (ap + 1)) (\<lambda>p1 ap.
           tbind (nxtarg av ap) (\<lambda>x ap.
             if x \<noteq> '')'' then Some (Inl (Failed '') expected'')) else ret p1 ap))
       else if nxtarg1 av (ap + 1) \<noteq> Some ''='' \<and> nxtarg1 av (ap + 1) \<noteq> Some ''!='' then
         (if var = SUS \<and> a = ''!'' then tbind (test_e3 var env av k (ap + 1)) (\<lambda>v ap. ret (\<not> v) ap)
          else case test_unary var env av a (ap + 1) of
                 Some r \<Rightarrow> r
               | None \<Rightarrow> test_binary av a (ap + 1))
       else test_binary av a (ap + 1))"
    proof (cases "a = ''(''")
      case True
      with "8.IH"(1) [OF True] k have "moves (ap + 1) (test_sexp var env av k (ap + 1))" by blast
      then have "moves ap (test_sexp var env av k (ap + 1))" by (auto intro: moves_trans)
      with True show ?thesis by (auto simp: nxtarg_def intro!: moves_bind)
    next
      case a: False
      show ?thesis
      proof (cases "nxtarg1 av (ap + 1) \<noteq> Some ''='' \<and> nxtarg1 av (ap + 1) \<noteq> Some ''!='' \<and> var = SUS \<and> a = ''!''")
        case True
        with "8.IH"(2) [OF a] k have "moves (ap + 1) (test_e3 var env av k (ap + 1))" by auto
        then have "moves ap (test_e3 var env av k (ap + 1))" by (auto intro: moves_trans)
        with True a show ?thesis by (auto intro!: moves_bind)
      next
        case False
        with a test_binary_moves [of ap av a] test_unary_moves [of var env av a ap] show ?thesis
          by (auto split: option.splits)
      qed
    qed
  qed
qed simp_all

section \<open>Expressions\<close>

text \<open>
  Conditions, what they mean, and how they are written as arguments: \<open>rend l\<close> puts parentheses around
  an operator that binds less tightly than the level \<open>l\<close> allows.
\<close>

datatype cmp = CEq | CNe | CGt | CLt | CGe | CLe

datatype texpr =
    Unary string string
  | Same string string
  | Diff string string
  | Num int cmp int
  | Not texpr
  | And texpr texpr
  | Or texpr texpr

fun cmp_name :: "cmp \<Rightarrow> string" where
  "cmp_name CEq = ''-eq''"
| "cmp_name CNe = ''-ne''"
| "cmp_name CGt = ''-gt''"
| "cmp_name CLt = ''-lt''"
| "cmp_name CGe = ''-ge''"
| "cmp_name CLe = ''-le''"

fun cmp_holds :: "cmp \<Rightarrow> int \<Rightarrow> int \<Rightarrow> bool" where
  "cmp_holds CEq i j = (i = j)"
| "cmp_holds CNe i j = (i \<noteq> j)"
| "cmp_holds CGt i j = (i > j)"
| "cmp_holds CLt i j = (i < j)"
| "cmp_holds CGe i j = (i \<ge> j)"
| "cmp_holds CLe i j = (i \<le> j)"

text \<open>
  What the operators with one operand ask, as the manual page says it: of the type of a file, the number in the four bits above the twelve permission
  bits of its mode, of the single bits for set-user-ID, set-group-ID and the sticky bit, of its size, or of the permission to use it, where the
  super-user may execute a regular file only if somebody may.
\<close>

definition has_type :: "(string \<Rightarrow> int + tstat) \<Rightarrow> int \<Rightarrow> string \<Rightarrow> bool" where
  "has_type st k x = (case st x of Inl _ \<Rightarrow> False | Inr r \<Rightarrow> st_mode r div 4096 mod 16 = k)"

definition has_bit :: "tenv \<Rightarrow> nat \<Rightarrow> string \<Rightarrow> bool" where
  "has_bit env k x = (case te_stat env x of Inl _ \<Rightarrow> False | Inr r \<Rightarrow> bit (st_mode r) k)"

definition permitted :: "tenv \<Rightarrow> int \<Rightarrow> string \<Rightarrow> bool" where
  "permitted env k x =
     (case te_stat env x of
        Inl _ \<Rightarrow> False
      | Inr r \<Rightarrow> te_access env x k = 0 \<and>
          (te_euid env = 0 \<and> k = 1 \<and> st_mode r div 4096 mod 16 = 8 \<longrightarrow>
             bit (st_mode r) 0 \<or> bit (st_mode r) 3 \<or> bit (st_mode r) 6))"

definition file_tests :: "variant \<Rightarrow> tenv \<Rightarrow> (string \<times> (string \<Rightarrow> bool)) list" where
  "file_tests var env =
     [(''-r'', permitted env 4), (''-w'', permitted env 2), (''-x'', permitted env 1),
      (''-p'', has_type (te_stat env) 1), (''-c'', has_type (te_stat env) 2), (''-d'', has_type (te_stat env) 4),
      (''-b'', has_type (te_stat env) 6), (''-h'', has_type (te_lstat env) 10), (''-L'', has_type (te_lstat env) 10),
      (''-f'', \<lambda>x. if var = UCB then (\<exists>r. te_stat env x = Inr r) \<and> \<not> has_type (te_stat env) 4 x
                  else has_type (te_stat env) 8 x),
      (''-u'', has_bit env 11), (''-g'', has_bit env 10), (''-k'', has_bit env 9),
      (''-s'', \<lambda>x. \<exists>r. te_stat env x = Inr r \<and> 0 < st_size r), (''-n'', \<lambda>x. x \<noteq> []), (''-z'', \<lambda>x. x = [])] @
     (if var = SUS then [(''-e'', \<lambda>x. te_access env x 0 = 0), (''-S'', has_type (te_stat env) 12)] else [])"

definition file_test :: "variant \<Rightarrow> tenv \<Rightarrow> string \<Rightarrow> (string \<Rightarrow> bool) option" where
  "file_test var env op = map_of (file_tests var env) op"

lemma and_field: "(m :: int) AND push_bit n (mask k) = push_bit n (m div 2 ^ n mod 2 ^ k)"
  by (rule bit_eqI) (auto simp: bit_simps simp flip: drop_bit_eq_div take_bit_eq_mod)

lemma mode_type: "(m :: int) AND 0xF000 = 4096 * (m div 4096 mod 16)"
  using and_field [of m 12 4] by (simp add: push_bit_eq_mult mask_eq_exp_minus_1)

lemma mode_bit: "(m :: int) AND 2 ^ k = 2 ^ k \<longleftrightarrow> bit m k"
proof
  assume "m AND 2 ^ k = 2 ^ k"
  then have "bit (m AND 2 ^ k) k \<longleftrightarrow> bit (2 ^ k :: int) k" by (rule arg_cong)
  then show "bit m k" by (simp add: bit_simps)
next
  assume "bit m k"
  then show "m AND 2 ^ k = 2 ^ k" by (intro bit_eqI) (auto simp: bit_simps)
qed

lemma exec_bits: "(m :: int) AND 0x49 \<noteq> 0 \<longleftrightarrow> bit m 0 \<or> bit m 3 \<or> bit m 6"
proof
  assume "m AND 0x49 \<noteq> 0"
  then obtain k where k: "bit (m AND 0x49) k" by (metis bit_eqI bit_0_eq bot_apply bot_bool_def)
  have "0x49 = (2 ^ 0 OR (2 ^ 3 OR 2 ^ 6) :: int)" by simp
  then have "bit (0x49 :: int) k \<longleftrightarrow> k = 0 \<or> k = 3 \<or> k = 6" by (simp only: bit_or_iff bit_exp_iff) auto
  with k show "bit m 0 \<or> bit m 3 \<or> bit m 6" by (auto simp: bit_and_iff)
next
  have b: "bit (0x49 :: int) 0" "bit (0x49 :: int) 3" "bit (0x49 :: int) 6" by (simp_all add: bit_iff_odd)
  assume "bit m 0 \<or> bit m 3 \<or> bit m 6"
  with b have "\<exists>k. bit (m AND 0x49) k" by (auto simp: bit_and_iff)
  then show "m AND 0x49 \<noteq> 0" by auto
qed

lemma filtyp_type: "filtyp env x (4096 * k) = has_type (if k = 10 then te_lstat env else te_stat env) k x"
  by (auto simp: filtyp_def has_type_def mode_type split: sum.splits)

lemma ftype_bit: "ftype env x (2 ^ k) = has_bit env k x"
  by (auto simp: ftype_def has_bit_def mode_bit split: sum.splits)

lemma access_permitted:
  "chk_access env x 0x100 False = 0 \<longleftrightarrow> permitted env 4 x"
  "chk_access env x 0x80 False = 0 \<longleftrightarrow> permitted env 2 x"
  "chk_access env x 0x40 False = 0 \<longleftrightarrow> permitted env 1 x"
  by (auto simp: chk_access_def permitted_def Let_def mode_type drop_bit_eq_div exec_bits split: sum.splits)

lemmas mode_tests =
  filtyp_type [of _ _ 1, simplified] filtyp_type [of _ _ 2, simplified] filtyp_type [of _ _ 4, simplified]
  filtyp_type [of _ _ 6, simplified] filtyp_type [of _ _ 8, simplified] filtyp_type [of _ _ 10, simplified]
  filtyp_type [of _ _ 12, simplified] ftype_bit [of _ _ 11, simplified] ftype_bit [of _ _ 10, simplified]
  ftype_bit [of _ _ 9, simplified] access_permitted

lemma not_directory:
  "(case te_stat env x of Inl _ \<Rightarrow> False | Inr st \<Rightarrow> st_mode st AND S_IFMT \<noteq> S_IFDIR) \<longleftrightarrow>
     (\<exists>r. te_stat env x = Inr r) \<and> \<not> has_type (te_stat env) 4 x"
  by (auto simp: has_type_def mode_type split: sum.splits)

lemma file_test_op [simp]: "file_test var env op = test_op var env op"
proof -
  have "fsizep env = (\<lambda>x. \<exists>r. te_stat env x = Inr r \<and> 0 < st_size r)"
    by (auto simp: fsizep_def fun_eq_iff split: sum.splits)
  then show ?thesis
    unfolding file_test_def file_tests_def test_op_def mode_tests not_directory by (auto cong: if_cong)
qed

fun teval :: "variant \<Rightarrow> tenv \<Rightarrow> texpr \<Rightarrow> bool" where
  "teval var env (Unary op x) = (the (file_test var env op)) x"
| "teval var env (Same a b) = (a = b)"
| "teval var env (Diff a b) = (a \<noteq> b)"
| "teval var env (Num i c j) = cmp_holds c i j"
| "teval var env (Not e) = (\<not> teval var env e)"
| "teval var env (And e f) = (teval var env e \<and> teval var env f)"
| "teval var env (Or e f) = (teval var env e \<or> teval var env f)"

definition paren :: "bool \<Rightarrow> string list \<Rightarrow> string list" where
  "paren b ts = (if b then ''('' # ts @ ['')''] else ts)"

fun rend :: "nat \<Rightarrow> texpr \<Rightarrow> string list" where
  "rend l (Unary op x) = [op, x]"
| "rend l (Same a b) = [a, ''='', b]"
| "rend l (Diff a b) = [a, ''!='', b]"
| "rend l (Num i c j) = [decimal_int i, cmp_name c, decimal_int j]"
| "rend l (Not e) = paren (l > 2) (''!'' # rend 3 e)"
| "rend l (And e f) = paren (l > 1) (rend 2 e @ ''-a'' # rend 1 f)"
| "rend l (Or e f) = paren (l > 0) (rend 1 e @ ''-o'' # rend 0 f)"

definition ll_ok :: "int \<Rightarrow> bool" where
  "ll_ok i \<longleftrightarrow> - (2 ^ 63) \<le> i \<and> i < 2 ^ 63"

text \<open>Operands must not be taken for operators.\<close>

fun texpr_ok :: "variant \<Rightarrow> tenv \<Rightarrow> texpr \<Rightarrow> bool" where
  "texpr_ok var env (Unary op x) = (file_test var env op \<noteq> None \<and> x \<noteq> ''='' \<and> x \<noteq> ''!='')"
| "texpr_ok var env (Same a b) = (a \<noteq> ''('' \<and> a \<noteq> ''!'')"
| "texpr_ok var env (Diff a b) = (a \<noteq> ''('' \<and> a \<noteq> ''!'')"
| "texpr_ok var env (Num i c j) = (ll_ok i \<and> ll_ok j)"
| "texpr_ok var env (Not e) = texpr_ok var env e"
| "texpr_ok var env (And e f) = (texpr_ok var env e \<and> texpr_ok var env f)"
| "texpr_ok var env (Or e f) = (texpr_ok var env e \<and> texpr_ok var env f)"

text \<open>Numbers in decimal are read back.\<close>

lemma foldl_digits:
  "list_all is_digit ds \<Longrightarrow>
     foldl (\<lambda>r c. r * 10 + of_int (uchar c) - 48) (of_nat n) ds =
     (of_nat (foldl (\<lambda>n c. 10 * n + digit_val c) n ds) :: 64 word)"
proof (induction ds arbitrary: n)
  case (Cons c ds)
  then have d: "uchar c = 48 + int (digit_val c)" by (simp add: is_digit_def digit_val_def)
  have "of_nat n * 10 + of_int (uchar c) - 48 = (of_nat (10 * n + digit_val c) :: 64 word)"
    unfolding d by (simp add: algebra_simps)
  moreover have "list_all is_digit ds" using Cons.prems by simp
  note Cons.IH [OF this, of "10 * n + digit_val c"]
  ultimately show ?case by (simp only: foldl_Cons)
qed simp

lemma decimal_head:
  obtains c ds where "decimal n = c # ds" "is_digit c" "list_all is_digit (decimal n)"
proof -
  have d: "list_all is_digit (decimal n)" using decimal_digits [of _ n] by (auto simp: list_all_iff)
  obtain c ds where "decimal n = c # ds" using decimal_ne [of n] by (cases "decimal n") auto
  with that d show ?thesis by simp
qed

lemma not_digit [simp]:
  "\<not> is_digit (CHR ''-'')" "\<not> is_digit (CHR ''+'')" "\<not> is_digit (CHR '' '')" "\<not> is_digit (CHR ''('')" "\<not> is_digit (CHR ''!'')"
  by (simp_all add: is_digit_def uchar_def)

lemma stoifll_decimal: "stoifll (decimal n) = of_nat n" "stoifll (CHR ''-'' # decimal n) = - of_nat n"
proof -
  obtain c ds where d: "decimal n = c # ds" "is_digit c" "list_all is_digit (decimal n)"
    by (rule decimal_head)
  then have c: "c \<noteq> CHR ''-''" "c \<noteq> CHR ''+''" "c \<noteq> CHR '' ''" by (metis not_digit)+
  have t: "takeWhile is_digit (decimal n) = decimal n"
    using d(3) by (simp add: list_all_iff takeWhile_eq_all_conv)
  have f: "foldl (\<lambda>r c. r * 10 + of_int (uchar c) - 48) 0 (decimal n) = (of_nat n :: 64 word)"
    using foldl_digits [OF d(3), of 0] undecimal_decimal [of n] by (simp add: undecimal_def)
  have "dropWhile (\<lambda>c. c = CHR '' '') (decimal n) = decimal n" "hd (decimal n) = c" using c(3) d(1) by simp_all
  with c f show "stoifll (decimal n) = of_nat n" by (simp add: stoifll_def Let_def t)
  show "stoifll (CHR ''-'' # decimal n) = - of_nat n" using f by (simp add: stoifll_def Let_def t)
qed

lemma stoifll_int: "ll_ok i \<Longrightarrow> sint (stoifll (decimal_int i)) = i"
proof -
  assume i: "ll_ok i"
  have "stoifll (decimal_int i) = (word_of_int i :: 64 word)"
    using stoifll_decimal [of "nat i"] stoifll_decimal [of "nat (- i)"]
    by (auto simp: decimal_int_def)
  moreover have "sint (word_of_int i :: 64 word) = i"
    using i by (simp add: ll_ok_def sint_sbintrunc' signed_take_bit_int_eq_self)
  ultimately show ?thesis by simp
qed

lemma test_op_name: "test_op var env a \<noteq> None \<Longrightarrow> \<exists>c. a = [CHR ''-'', c] \<and> \<not> is_digit c"
proof -
  let ?ops = "[''-r'', ''-w'', ''-x'', ''-e'', ''-S'', ''-d'', ''-c'', ''-b'', ''-f'', ''-u'', ''-g'', ''-k'', ''-p'',
    ''-h'', ''-L'', ''-s'', ''-n'', ''-z'']"
  assume a: "test_op var env a \<noteq> None"
  have "a \<in> set ?ops"
  proof (rule ccontr)
    assume "a \<notin> set ?ops"
    then have "test_op var env a = None" by (simp add: test_op_def)
    with a show False ..
  qed
  moreover have "list_all (\<lambda>a. length a = 2 \<and> hd a = CHR ''-'' \<and> \<not> is_digit (last a)) ?ops"
    by (simp add: is_digit_def uchar_def)
  ultimately have "length a = 2 \<and> hd a = CHR ''-'' \<and> \<not> is_digit (last a)" by (simp only: list_all_iff) blast
  then show ?thesis by (intro exI [of _ "last a"]) (auto simp: length_Suc_conv numeral_2_eq_2)
qed

lemma decimal_int_no_op:
  "test_op var env (decimal_int i) = None" "decimal_int i \<noteq> ''-t''" "decimal_int i \<noteq> ''(''" "decimal_int i \<noteq> ''!''"
proof -
  obtain c ds where d: "decimal (nat i) = c # ds" "is_digit c" by (rule decimal_head)
  obtain c' ds' where d': "decimal (nat (- i)) = c' # ds'" "is_digit c'" by (rule decimal_head)
  have t: "\<not> is_digit (CHR ''t'')" by (simp add: is_digit_def uchar_def)
  have c: "c \<noteq> CHR ''-''" "c \<noteq> CHR ''(''" "c \<noteq> CHR ''!''" "c' \<noteq> CHR ''t''"
    using d(2) d'(2) t by (metis not_digit)+
  show "test_op var env (decimal_int i) = None"
  proof (rule ccontr)
    assume "test_op var env (decimal_int i) \<noteq> None"
    then obtain x where "decimal_int i = [CHR ''-'', x]" "\<not> is_digit x" using test_op_name by blast
    with d d' c show False by (auto simp: decimal_int_def split: if_splits)
  qed
  show "decimal_int i \<noteq> ''-t''" "decimal_int i \<noteq> ''(''" "decimal_int i \<noteq> ''!''"
    using d d' c by (auto simp: decimal_int_def split: if_splits)
qed

section \<open>Parsing what was written\<close>

text \<open>
  \<open>P3 v ts\<close>: wherever the arguments \<open>ts\<close> stand, \<open>e3\<close> with enough fuel uses up exactly them and returns \<open>v\<close>; the same for
  the other three functions, of which \<open>e1\<close> and \<open>sexp\<close> depend on what follows.
\<close>

definition P3 :: "variant \<Rightarrow> tenv \<Rightarrow> bool \<Rightarrow> string list \<Rightarrow> bool" where
  "P3 var env v ts \<longleftrightarrow> (\<forall>pre post k. 4 * length (ts @ post) + 1 \<le> k \<longrightarrow>
     test_e3 var env (pre @ ts @ post) k (length pre) = ret v (length pre + length ts))"

definition P2 :: "variant \<Rightarrow> tenv \<Rightarrow> bool \<Rightarrow> string list \<Rightarrow> bool" where
  "P2 var env v ts \<longleftrightarrow> (\<forall>pre post k. 4 * length (ts @ post) + 2 \<le> k \<longrightarrow>
     test_e2 var env (pre @ ts @ post) k (length pre) = ret v (length pre + length ts))"

definition P1 :: "variant \<Rightarrow> tenv \<Rightarrow> bool \<Rightarrow> string list \<Rightarrow> bool" where
  "P1 var env v ts \<longleftrightarrow> (\<forall>pre post k. 4 * length (ts @ post) + 3 \<le> k \<longrightarrow> hd (post @ [[]]) \<noteq> ''-a'' \<longrightarrow>
     test_e1 var env (pre @ ts @ post) k (length pre) = ret v (length pre + length ts))"

definition P0 :: "variant \<Rightarrow> tenv \<Rightarrow> bool \<Rightarrow> string list \<Rightarrow> bool" where
  "P0 var env v ts \<longleftrightarrow> (\<forall>pre post k. 4 * length (ts @ post) + 4 \<le> k \<longrightarrow>
     hd (post @ [[]]) \<noteq> ''-a'' \<longrightarrow> hd (post @ [[]]) \<noteq> ''-o'' \<longrightarrow>
     test_sexp var env (pre @ ts @ post) k (length pre) = ret v (length pre + length ts))"

lemma nxtarg_app [simp]: "nxtarg (pre @ x # post) (length pre) = ret x (length pre + 1)"
  "nxtarg (pre @ x # y # post) (Suc (length pre)) = ret y (length pre + 2)"
  "nxtarg (pre @ x # y # z # post) (Suc (Suc (length pre))) = ret z (length pre + 3)"
  by (simp_all add: nxtarg_def nth_append numeral_3_eq_3)

lemma nxtarg1_app:
  "n = length pre + length ts \<Longrightarrow> nxtarg1 (pre @ ts @ post) n = (case post of [] \<Rightarrow> None | x # _ \<Rightarrow> Some x)"
  by (auto simp: nxtarg1_def nth_append split: list.splits)

lemma nxtarg1_end [simp]: "nxtarg1 (pre @ ts) (length pre + length ts) = None"
  by (simp add: nxtarg1_def)

lemma nxtarg1_second [simp]: "nxtarg1 (pre @ x # y # post) (Suc (length pre)) = Some y"
  by (simp add: nxtarg1_def nth_append)

lemma P3_P2: "P3 var env v ts \<Longrightarrow> ts \<noteq> [] \<Longrightarrow> hd ts \<noteq> ''!'' \<Longrightarrow> P2 var env v ts"
  unfolding P2_def
proof (intro allI impI)
  fix pre post k
  assume a: "P3 var env v ts" "ts \<noteq> []" "hd ts \<noteq> ''!''" and k: "4 * length (ts @ post) + 2 \<le> k"
  from k obtain j where j: "k = Suc j" "4 * length (ts @ post) + 1 \<le> j" by (cases k) auto
  from a(2) obtain t us where t: "ts = t # us" by (cases ts) auto
  from a(1) j(2) have "test_e3 var env (pre @ ts @ post) j (length pre) = ret v (length pre + length ts)"
    unfolding P3_def by blast
  with a(3) t j(1) show "test_e2 var env (pre @ ts @ post) k (length pre) = ret v (length pre + length ts)"
    by simp
qed

lemma P2_not: "P3 var env v ts \<Longrightarrow> P2 var env (\<not> v) (''!'' # ts)"
  unfolding P2_def
proof (intro allI impI)
  fix pre post k
  assume a: "P3 var env v ts" and k: "4 * length ((''!'' # ts) @ post) + 2 \<le> k"
  from k obtain j where j: "k = Suc j" "4 * length (ts @ post) + 1 \<le> j" by (cases k) auto
  from a j(2) have "test_e3 var env ((pre @ [''!'']) @ ts @ post) j (length (pre @ [''!''])) =
      ret v (length (pre @ [''!'']) + length ts)"
    unfolding P3_def by blast
  with j(1) show "test_e2 var env (pre @ (''!'' # ts) @ post) k (length pre) = ret (\<not> v) (length pre + length (''!'' # ts))"
    by simp
qed

lemma P3_not:
  assumes "P3 SUS env v ts" "ts \<noteq> []" "hd ts \<noteq> ''=''" "hd ts \<noteq> ''!=''"
  shows "P3 SUS env (\<not> v) (''!'' # ts)"
  unfolding P3_def
proof (intro allI impI)
  fix pre post k
  assume k: "4 * length ((''!'' # ts) @ post) + 1 \<le> k"
  then obtain j where j: "k = Suc j" "4 * length (ts @ post) + 1 \<le> j" by (cases k) auto
  from assms(1) j(2) have "test_e3 SUS env ((pre @ [''!'']) @ ts @ post) j (length (pre @ [''!''])) =
      ret v (length (pre @ [''!'']) + length ts)"
    unfolding P3_def by blast
  moreover obtain t us where "ts = t # us" using assms(2) by (cases ts) auto
  ultimately show "test_e3 SUS env (pre @ (''!'' # ts) @ post) k (length pre) = ret (\<not> v) (length pre + length (''!'' # ts))"
    using assms(3,4) j(1) by simp
qed

lemma P2_P1: "P2 var env v ts \<Longrightarrow> P1 var env v ts"
  unfolding P1_def
proof (intro allI impI)
  fix pre post k
  assume a: "P2 var env v ts" and k: "4 * length (ts @ post) + 3 \<le> k" and p: "hd (post @ [[]]) \<noteq> ''-a''"
  from k obtain j where j: "k = Suc j" "4 * length (ts @ post) + 2 \<le> j" by (cases k) auto
  from a j(2) have "test_e2 var env (pre @ ts @ post) j (length pre) = ret v (length pre + length ts)"
    unfolding P2_def by blast
  with j(1) p show "test_e1 var env (pre @ ts @ post) k (length pre) = ret v (length pre + length ts)"
    by (cases post) (simp_all add: nxtarg1_app)
qed

lemma P1_and: "P2 var env v ts \<Longrightarrow> P1 var env w us \<Longrightarrow> P1 var env (v \<and> w) (ts @ ''-a'' # us)"
  unfolding P1_def [of _ _ "v \<and> w"]
proof (intro allI impI)
  fix pre post k
  assume a: "P2 var env v ts" "P1 var env w us"
    and k: "4 * length ((ts @ ''-a'' # us) @ post) + 3 \<le> k" and p: "hd (post @ [[]]) \<noteq> ''-a''"
  from k obtain j where j: "k = Suc j" "4 * length (ts @ (''-a'' # us @ post)) + 2 \<le> j"
    "4 * length (us @ post) + 3 \<le> j" by (cases k) auto
  let ?pre = "pre @ ts @ [''-a'']"
  from a(1) j(2) have "test_e2 var env (pre @ ts @ (''-a'' # us @ post)) j (length pre) = ret v (length pre + length ts)"
    unfolding P2_def by blast
  moreover from a(2) j(3) p have "test_e1 var env (?pre @ us @ post) j (length ?pre) = ret w (length ?pre + length us)"
    unfolding P1_def by blast
  ultimately show "test_e1 var env (pre @ (ts @ ''-a'' # us) @ post) k (length pre) =
      ret (v \<and> w) (length pre + length (ts @ ''-a'' # us))"
    using j(1) by (simp add: nxtarg1_app [of "length pre + length ts"] algebra_simps)
qed

lemma P1_P0: "P1 var env v ts \<Longrightarrow> P0 var env v ts"
  unfolding P0_def
proof (intro allI impI)
  fix pre post k
  assume a: "P1 var env v ts" and k: "4 * length (ts @ post) + 4 \<le> k"
    and p: "hd (post @ [[]]) \<noteq> ''-a''" "hd (post @ [[]]) \<noteq> ''-o''"
  from k obtain j where j: "k = Suc j" "4 * length (ts @ post) + 3 \<le> j" by (cases k) auto
  from a j(2) p(1) have "test_e1 var env (pre @ ts @ post) j (length pre) = ret v (length pre + length ts)"
    unfolding P1_def by blast
  with j(1) p(2) show "test_sexp var env (pre @ ts @ post) k (length pre) = ret v (length pre + length ts)"
    by (cases post) (simp_all add: nxtarg1_app)
qed

lemma P0_or: "P1 var env v ts \<Longrightarrow> P0 var env w us \<Longrightarrow> P0 var env (v \<or> w) (ts @ ''-o'' # us)"
  unfolding P0_def [of _ _ "v \<or> w"]
proof (intro allI impI)
  fix pre post k
  assume a: "P1 var env v ts" "P0 var env w us"
    and k: "4 * length ((ts @ ''-o'' # us) @ post) + 4 \<le> k"
    and p: "hd (post @ [[]]) \<noteq> ''-a''" "hd (post @ [[]]) \<noteq> ''-o''"
  from k obtain j where j: "k = Suc j" "4 * length (ts @ (''-o'' # us @ post)) + 3 \<le> j"
    "4 * length (us @ post) + 4 \<le> j" by (cases k) auto
  let ?pre = "pre @ ts @ [''-o'']"
  have "hd ((''-o'' # us @ post) @ [[]]) \<noteq> ''-a''" by simp
  with a(1) j(2) have "test_e1 var env (pre @ ts @ (''-o'' # us @ post)) j (length pre) = ret v (length pre + length ts)"
    unfolding P1_def by blast
  moreover from a(2) j(3) p have "test_sexp var env (?pre @ us @ post) j (length ?pre) = ret w (length ?pre + length us)"
    unfolding P0_def by blast
  ultimately show "test_sexp var env (pre @ (ts @ ''-o'' # us) @ post) k (length pre) =
      ret (v \<or> w) (length pre + length (ts @ ''-o'' # us))"
    using j(1) by (simp add: nxtarg1_app [of "length pre + length ts"] algebra_simps)
qed

lemma P0_P3: "P0 var env v ts \<Longrightarrow> P3 var env v (''('' # ts @ ['')''])"
  unfolding P3_def
proof (intro allI impI)
  fix pre post k
  assume a: "P0 var env v ts" and k: "4 * length ((''('' # ts @ ['')'']) @ post) + 1 \<le> k"
  from k obtain j where j: "k = Suc j" "4 * length (ts @ ('')'' # post)) + 4 \<le> j" by (cases k) auto
  let ?pre = "pre @ [''('']"
  have "hd (('')'' # post) @ [[]]) \<noteq> ''-a''" "hd (('')'' # post) @ [[]]) \<noteq> ''-o''" by simp_all
  with a j(2) have "test_sexp var env (?pre @ ts @ ('')'' # post)) j (length ?pre) = ret v (length ?pre + length ts)"
    unfolding P0_def by blast
  moreover have "nxtarg (?pre @ ts @ '')'' # post) (length ?pre + length ts) = ret '')'' (length pre + length ts + 2)"
    using nxtarg_app(1) [of "?pre @ ts" "'')''" post] by simp
  ultimately show "test_e3 var env (pre @ (''('' # ts @ ['')'']) @ post) k (length pre) =
      ret v (length pre + length (''('' # ts @ ['')'']))"
    using j(1) by simp
qed

text \<open>The primaries.\<close>

lemma P3_unary: "texpr_ok var env (Unary a x) \<Longrightarrow> P3 var env (teval var env (Unary a x)) [a, x]"
  unfolding P3_def
proof (intro allI impI)
  fix pre post k
  assume a: "texpr_ok var env (Unary a x)" and k: "4 * length ([a, x] @ post) + 1 \<le> k"
  from a obtain P where P: "test_op var env a = Some P" by auto
  then obtain c where "a = [CHR ''-'', c]" using test_op_name [of var env a] by auto
  then have "a \<noteq> ''(''" "a \<noteq> ''!''" by auto
  with a P k show "test_e3 var env (pre @ [a, x] @ post) k (length pre) =
      ret (teval var env (Unary a x)) (length pre + length [a, x])"
    by (cases k) (auto simp: test_unary_def)
qed

lemma P3_string:
  assumes "a \<noteq> ''(''" "p2 = ''='' \<and> v = (a = b) \<or> p2 = ''!='' \<and> v = (a \<noteq> b)"
  shows "P3 var env v [a, p2, b]"
  unfolding P3_def
proof (intro allI impI)
  fix pre post k
  assume "4 * length ([a, p2, b] @ post) + 1 \<le> k"
  with assms show "test_e3 var env (pre @ [a, p2, b] @ post) k (length pre) = ret v (length pre + length [a, p2, b])"
    by (cases k) (auto simp: test_binary_def numeral_3_eq_3)
qed

lemma P3_num: "ll_ok i \<Longrightarrow> ll_ok j \<Longrightarrow> P3 var env (cmp_holds c i j) [decimal_int i, cmp_name c, decimal_int j]"
  unfolding P3_def
proof (intro allI impI)
  fix pre post k
  assume a: "ll_ok i" "ll_ok j" and k: "4 * length ([decimal_int i, cmp_name c, decimal_int j] @ post) + 1 \<le> k"
  have "cmp_name c \<noteq> ''=''" "cmp_name c \<noteq> ''!=''" "cmp_name c \<noteq> ''-a''" "cmp_name c \<noteq> ''-o''" by (cases c; simp)+
  moreover have "test_binary (pre @ decimal_int i # cmp_name c # decimal_int j # post) (decimal_int i) (Suc (length pre)) =
      ret (cmp_holds c i j) (length pre + 3)"
    using stoifll_int [OF a(1)] stoifll_int [OF a(2)] by (cases c) (simp_all add: test_binary_def)
  ultimately show "test_e3 var env (pre @ [decimal_int i, cmp_name c, decimal_int j] @ post) k (length pre) =
      ret (cmp_holds c i j) (length pre + length [decimal_int i, cmp_name c, decimal_int j])"
    using k decimal_int_no_op(1) [of var env i] decimal_int_no_op(2-4) [of i] by (cases k) (simp_all add: test_unary_def numeral_3_eq_3)
qed

lemma rend_hd: "texpr_ok var env e \<Longrightarrow> rend 3 e \<noteq> [] \<and> hd (rend 3 e) \<noteq> ''!''"
  using test_op_name [of var env] decimal_int_no_op(4) by (cases e) (force simp: paren_def)+

lemma rend_parses:
  "texpr_ok var env e \<Longrightarrow>
     P3 var env (teval var env e) (rend 3 e) \<and> P2 var env (teval var env e) (rend 2 e) \<and>
     P1 var env (teval var env e) (rend 1 e) \<and> P0 var env (teval var env e) (rend 0 e)"
proof (induction e)
  case (Unary a x)
  with P3_unary P3_P2 [OF P3_unary] rend_hd [OF Unary.prems] P2_P1 P1_P0 show ?case by simp
next
  case (Same a b)
  then have "P3 var env (teval var env (Same a b)) [a, ''='', b]" by (intro P3_string) auto
  with P3_P2 [OF this] rend_hd [OF Same.prems] P2_P1 P1_P0 show ?case by simp
next
  case (Diff a b)
  then have "P3 var env (teval var env (Diff a b)) [a, ''!='', b]" by (intro P3_string) auto
  with P3_P2 [OF this] rend_hd [OF Diff.prems] P2_P1 P1_P0 show ?case by simp
next
  case (Num i c j)
  then have "P3 var env (teval var env (Num i c j)) (rend 3 (Num i c j))" using P3_num by simp
  with P3_P2 [OF this] rend_hd [OF Num.prems] P2_P1 P1_P0 show ?case by simp
next
  case (Not e)
  then have p: "P2 var env (\<not> teval var env e) (''!'' # rend 3 e)" by (auto intro: P2_not)
  note q = P0_P3 [OF P1_P0 [OF P2_P1 [OF p]]]
  with p P2_P1 P1_P0 show ?case by (simp add: paren_def)
next
  case (And e f)
  then have p: "P1 var env (teval var env e \<and> teval var env f) (rend 2 e @ ''-a'' # rend 1 f)"
    by (auto intro: P1_and)
  note q = P0_P3 [OF P1_P0 [OF p]]
  with p P3_P2 [OF q] P1_P0 show ?case by (simp add: paren_def)
next
  case (Or e f)
  then have p: "P0 var env (teval var env e \<or> teval var env f) (rend 1 e @ ''-o'' # rend 0 f)"
    by (auto intro: P0_or)
  note q = P0_P3 [OF p]
  with p P3_P2 [OF q] P2_P1 [OF P3_P2 [OF q]] show ?case by (simp add: paren_def)
qed

text \<open>
  In the POSIX variant up to three arguments go straight to \<open>e3\<close>; an expression that short is a primary
  or the negation of one.
\<close>

lemma rend_len: "2 \<le> length (rend l e)"
proof (induction e arbitrary: l)
  case (Not e)
  from Not [of 3] show ?case by (simp add: paren_def)
next
  case (And e f)
  from And(1) [of 2] show ?case by (simp add: paren_def)
next
  case (Or e f)
  from Or(1) [of 1] show ?case by (simp add: paren_def)
qed simp_all

lemma rend_short:
  assumes "texpr_ok SUS env e" "length (rend 0 e) \<le> 3"
  shows "P3 SUS env (teval SUS env e) (rend 0 e)"
proof (cases e)
  case (Not f)
  then have l: "length (rend 3 f) \<le> 2" using assms(2) by (simp add: paren_def)
  have "P3 SUS env (teval SUS env f) (rend 3 f)" using rend_parses assms(1) Not by simp
  moreover have "hd (rend 3 f) \<noteq> ''=''" "hd (rend 3 f) \<noteq> ''!=''"
  proof -
    from l rend_len [of 3] obtain a x where "f = Unary a x"
      by (cases f) (auto simp: paren_def)
    moreover from this assms(1) Not have "test_op SUS env a \<noteq> None" by simp
    ultimately show "hd (rend 3 f) \<noteq> ''=''" "hd (rend 3 f) \<noteq> ''!=''" using test_op_name by fastforce+
  qed
  moreover have "rend 3 f \<noteq> []" using rend_len [of 3 f] by auto
  ultimately show ?thesis using P3_not Not by (simp add: paren_def)
next
  case (And f g)
  with assms(2) rend_len [of 2 f] rend_len [of 1 g] show ?thesis by (simp add: paren_def)
next
  case (Or f g)
  with assms(2) rend_len [of 1 f] rend_len [of 0 g] show ?thesis by (simp add: paren_def)
qed (use rend_parses [OF assms(1)] in simp_all)

lemma P0_run: "P0 var env v ts \<Longrightarrow> test_sexp var env (prog # ts) (4 * Suc (length ts) + 4) 1 = ret v (Suc (length ts))"
proof -
  assume "P0 var env v ts"
  then have "test_sexp var env ([prog] @ ts @ []) (4 * Suc (length ts) + 4) (length [prog]) = ret v (length [prog] + length ts)"
    unfolding P0_def by (elim allE [of _ "[prog]"] allE [of _ "[]"] allE [of _ "4 * Suc (length ts) + 4"]) simp
  then show ?thesis by simp
qed

lemma P3_run: "P3 var env v ts \<Longrightarrow> test_e3 var env (prog # ts) (4 * Suc (length ts) + 4) 1 = ret v (Suc (length ts))"
proof -
  assume "P3 var env v ts"
  then have "test_e3 var env ([prog] @ ts @ []) (4 * Suc (length ts) + 4) (length [prog]) = ret v (length [prog] + length ts)"
    unfolding P3_def by (elim allE [of _ "[prog]"] allE [of _ "[]"] allE [of _ "4 * Suc (length ts) + 4"]) simp
  then show ?thesis by simp
qed

lemma test_main_rend:
  assumes "texpr_ok var env e" "av = prog # rend 0 e"
  shows "(if length av \<le> 1 then test_end var (ret False 1)
      else if var = SUS \<and> length av = 2 then test_end var (tbind (nxtarg av 1) (\<lambda>x ap. ret (x \<noteq> []) ap))
      else if var = SUS \<and> (length av = 3 \<or> length av = 4) then test_end var (test_e3 var env av (4 * length av + 4) 1)
      else test_end var (test_sexp var env av (4 * length av + 4) 1)) =
    Some \<lparr>out = [], err = [], status = (if teval var env e then 0 else 1)\<rparr>"
proof -
  have l: "3 \<le> length av" using rend_len [of 0 e] assms(2) by simp
  have r: "test_sexp var env av (4 * length av + 4) 1 = ret (teval var env e) (length av)"
    using P0_run [of var env "teval var env e" "rend 0 e" prog] rend_parses [OF assms(1)]
    by (simp add: assms(2) del: test_sexp.simps)
  have s: "test_e3 var env av (4 * length av + 4) 1 = ret (teval var env e) (length av)"
    if "var = SUS" "length av = 3 \<or> length av = 4"
    using P3_run [of var env "teval var env e" "rend 0 e" prog] rend_short assms that
    by (auto simp del: test_e3.simps)
  from l r s show ?thesis by (auto simp: test_end_def ret_def)
qed

section \<open>Properties\<close>

text \<open>
  (C26) Expressions mean what they say.  A condition built from file tests, string and number
  comparisons with negation, conjunction and disjunction, written as arguments with parentheses
  where the precedence of \<open>!\<close>, \<open>-a\<close> and \<open>-o\<close> needs them, makes \<open>test\<close> (and \<open>[\<close> with a closing \<open>]\<close>) exit with status 0 if
  it holds and 1 if not, in all three variants of the program.  The file tests ask for the type, the mode bits, the size and the
  permissions of a file as in the table \<open>file_tests\<close>.  Operands must not be operators in
  the place where they stand, and numbers have 64 bits.
\<close>

theorem test_evaluates:
  assumes "texpr_ok var env e"
  shows "let r = Some \<lparr>out = [], err = [], status = (if teval var env e then 0 else 1)\<rparr>
         in test_main var env (''test'' # rend 0 e) = r \<and> test_main var env (''['' # rend 0 e @ ['']'']) = r"
  using test_main_rend [OF assms refl, of "''test''"] test_main_rend [OF assms refl, of "''[''"]
  by (simp add: test_main_def Let_def butlast_append del: test_sexp.simps test_e3.simps)

theorem test_evaluates_witness:
  "test_main SV \<lparr>te_stat = \<lambda>_. Inl 2, te_lstat = \<lambda>_. Inl 2, te_access = \<lambda>_ _. 2, te_isatty = \<lambda>_. False, te_euid = 0\<rparr>
     [''test'', ''!'', ''a'', ''='', ''b'', ''-a'', ''3'', ''-lt'', ''4''] = Some \<lparr>out = [], err = [], status = 0\<rparr>"
proof -
  let ?env = "\<lparr>te_stat = \<lambda>_. Inl 2, te_lstat = \<lambda>_. Inl 2, te_access = \<lambda>_ _. 2, te_isatty = \<lambda>_. False, te_euid = 0\<rparr>"
  let ?e = "And (Not (Same ''a'' ''b'')) (Num 3 CLt 4)"
  have "texpr_ok SV ?env ?e" by (simp add: ll_ok_def)
  moreover have "rend 0 ?e = [''!'', ''a'', ''='', ''b'', ''-a'', ''3'', ''-lt'', ''4'']"
    by (simp add: paren_def decimal_int_def decimal.simps)
  ultimately show ?thesis using test_evaluates [of SV ?env ?e] by (simp add: Let_def)
qed

text \<open>(C27) Whatever the arguments, \<open>test\<close> ends, and its exit status is 0, 1 or 2.\<close>

theorem test_terminates: "\<exists>r. test_main var env com = Some r \<and> status r \<in> {0, 1, 2}"
proof -
  have e: "\<exists>r'. test_end var r = Some r' \<and> status r' \<in> {0, 1, 2}" if "moves 0 r" for r
    using that by (auto simp: moves_def test_end_def split: option.splits sum.splits tfail.splits prod.splits)
  define av where "av = (if hd com = ''['' then butlast com else com)"
  have "moves 1 (test_sexp var env av (4 * length av + 4) 1)" "moves 1 (test_e3 var env av (4 * length av + 4) 1)"
    by (rule test_moves; simp)+
  then have m: "moves 0 (test_sexp var env av (4 * length av + 4) 1)" "moves 0 (test_e3 var env av (4 * length av + 4) 1)"
    using moves_trans [of 1 _ 0] by blast+
  have n: "moves 0 (tbind (nxtarg av 1) (\<lambda>x ap. ret (x \<noteq> []) ap))" "moves 0 (ret False 1)" by (simp_all add: nxtarg_def)
  show ?thesis
  proof (cases "hd com = ''['' \<and> last com \<noteq> '']''")
    case True
    with e [of "Some (Inl (Failed ''] missing''))"] show ?thesis by (simp add: test_main_def)
  next
    case False
    then have "\<exists>r. moves 0 r \<and> test_main var env com = test_end var r"
      unfolding test_main_def Let_def av_def [symmetric] using m n by (simp only: split: if_split) blast
    with e show ?thesis by metis
  qed
qed

end
