(* ===== verification/Echo.thy ===== *)
theory Echo
  imports Prelude
begin

text \<open>
  \<open>echo/echo.c\<close>, with \<open>main\<close> and \<open>findnam\<close> of \<open>echo/main.c\<close>: writing the arguments.  \<open>sysv3\<close> says that the variable
  \<open>SYSV3\<close> is in the environment, \<open>mbm\<close> and \<open>mb\<close> stand for \<open>mb_cur_max\<close> and \<open>mbtowc\<close>.
\<close>

section \<open>The program\<close>

abbreviation backslash :: char where "backslash \<equiv> CHR 0x5C"

text \<open>The macro \<open>nextc\<close> on a nonempty string: the length and the character.\<close>

definition nextc :: "nat \<Rightarrow> (string \<Rightarrow> int \<times> int) \<Rightarrow> string \<Rightarrow> int \<times> int" where
  "nextc mbm mb s = (if mbm > 1 \<and> uchar (hd s) \<ge> 128 then mb (take mbm s) else (1, uchar (hd s)))"

text \<open>The escapes that stand for one character.\<close>

definition echo_esc :: "variant \<Rightarrow> char \<Rightarrow> char option" where
  "echo_esc var c =
     (if var = SUS \<and> c = CHR ''a'' then Some (CHR 0x07)
      else if c = CHR ''b'' then Some (CHR 0x08)
      else if c = CHR ''f'' then Some (CHR 0x0C)
      else if c = CHR ''n'' then Some NL
      else if c = CHR ''r'' then Some (CHR 0x0D)
      else if c = CHR ''t'' then Some TAB
      else if c = CHR ''v'' then Some (CHR 0x0B)
      else if c = backslash then Some backslash
      else None)"

definition is_octal :: "char \<Rightarrow> bool" where
  "is_octal c \<longleftrightarrow> 48 \<le> uchar c \<and> uchar c \<le> 55"

text \<open>The digits behind \<open>\0\<close>, at most three, and the value \<open>wd\<close> they stand for.\<close>

definition octals :: "string \<Rightarrow> string" where
  "octals s = takeWhile is_octal (take 3 s)"

definition octal_val :: "string \<Rightarrow> int" where
  "octal_val ds = foldl (\<lambda>wd c. wd * 8 + (uchar c - 48)) 0 ds"

text \<open>
  The loop over the characters of one argument: what is written, and whether \<open>\c\<close> ends the program.
\<close>

definition emit :: "string \<Rightarrow> string \<times> bool \<Rightarrow> string \<times> bool" where
  "emit w r = (case r of (v, stop) \<Rightarrow> (w @ v, stop))"

function echo_arg :: "variant \<Rightarrow> nat \<Rightarrow> (string \<Rightarrow> int \<times> int) \<Rightarrow> string \<Rightarrow> string \<times> bool" where
  "echo_arg var mbm mb [] = ([], False)"
| "echo_arg var mbm mb (c # cs) =
     (case nextc mbm mb (c # cs) of
        (len, wc) \<Rightarrow>
          if len \<le> 0 then emit [c] (echo_arg var mbm mb cs)
          else if wc = 92 then
            (case cs of
               [] \<Rightarrow> emit [c] (echo_arg var mbm mb cs)
             | d # ds \<Rightarrow>
                 (case echo_esc var d of
                    Some e \<Rightarrow> emit [e] (echo_arg var mbm mb ds)
                  | None \<Rightarrow>
                      if d = CHR ''c'' then ([], True)
                      else if d = CHR ''0'' then
                        emit [to_char (octal_val (octals ds))]
                             (echo_arg var mbm mb (drop (length (octals ds)) ds))
                      else emit [c] (echo_arg var mbm mb cs)))
          else emit (take (nat len) (c # cs)) (echo_arg var mbm mb (drop (nat len) (c # cs))))"
  by pat_completeness auto
termination
  by (relation "measure (\<lambda>(var, mbm, mb, s). length s)") auto

text \<open>The loop over the arguments, of which \<open>nflg\<close> suppresses the newline behind the last one.\<close>

fun echo_args :: "variant \<Rightarrow> nat \<Rightarrow> (string \<Rightarrow> int \<times> int) \<Rightarrow> bool \<Rightarrow> string list \<Rightarrow> string" where
  "echo_args var mbm mb nflg [] = []"
| "echo_args var mbm mb nflg (a # as) =
     (case echo_arg var mbm mb a of
        (w, stop) \<Rightarrow>
          if stop then w
          else w @ (if as = [] then (if nflg then [] else [NL]) else '' '') @ echo_args var mbm mb nflg as)"

definition n_option :: "string \<Rightarrow> bool" where
  "n_option a \<longleftrightarrow> take 2 a = ''-n''"

definition echo_main :: "variant \<Rightarrow> bool \<Rightarrow> nat \<Rightarrow> (string \<Rightarrow> int \<times> int) \<Rightarrow> string list \<Rightarrow> outcome" where
  "echo_main var sysv3 mbm mb args =
     \<lparr>out =
        (if var = UCB then
           (let nflg = (args \<noteq> [] \<and> n_option (hd args)); args = (if nflg then tl args else args)
            in join '' '' args @ (if nflg then [] else [NL]))
         else if args = [] then [NL]
         else
           (let nflg = (sysv3 \<and> length args > 1 \<and> n_option (hd args)); args = (if nflg then tl args else args)
            in echo_args var mbm mb nflg args)),
      err = [], status = 0\<rparr>"

text \<open>
  The manual page omits the newline if the first argument is \<open>-n\<close>; the code looks at its first two characters only.
\<close>

lemma echo_n_prefix: "echo_main SV True 1 mb [''-nice'', ''a''] = \<lparr>out = ''a'', err = [], status = 0\<rparr>"
  by (simp add: echo_main_def n_option_def nextc_def uchar_def emit_def)

section \<open>Writing arbitrary bytes\<close>

text \<open>
  The ways to write a byte in an argument: as itself, as a letter behind a backslash, and by its
  octal value with three digits.
\<close>

datatype etok = Lit char | Esc char | Oct char

text \<open>The codes that the manual page gives to the letters behind a backslash.\<close>

definition escape_codes :: "(char \<times> int) list" where
  "escape_codes =
     [(CHR ''a'', 7), (CHR ''b'', 8), (CHR ''t'', 9), (CHR ''n'', 10), (CHR ''v'', 11), (CHR ''f'', 12),
      (CHR ''r'', 13), (backslash, 92)]"

definition octal_digits :: "char \<Rightarrow> string" where
  "octal_digits c =
     (let n = nat (uchar c) in [char_of (48 + n div 64), char_of (48 + n div 8 mod 8), char_of (48 + n mod 8)])"

fun etok_text :: "etok \<Rightarrow> string" where
  "etok_text (Lit c) = [c]"
| "etok_text (Esc c) = [backslash, c]"
| "etok_text (Oct c) = [backslash, CHR ''0''] @ octal_digits c"

fun etok_char :: "etok \<Rightarrow> char" where
  "etok_char (Lit c) = c"
| "etok_char (Esc c) = to_char (the (map_of escape_codes c))"
| "etok_char (Oct c) = c"

fun etok_ok :: "variant \<Rightarrow> etok \<Rightarrow> bool" where
  "etok_ok var (Lit c) = (c \<noteq> backslash \<and> c \<noteq> NUL)"
| "etok_ok var (Esc c) = (map_of escape_codes c \<noteq> None \<and> (c = CHR ''a'' \<longrightarrow> var = SUS))"
| "etok_ok var (Oct c) = True"

lemma octal_char: "k < 8 \<Longrightarrow> uchar (char_of (48 + k)) = 48 + int k"
proof -
  assume "k < 8"
  then have "of_char (char_of (48 + k) :: char) = (48 + k :: nat)" by simp
  then show ?thesis by (simp add: uchar_nat)
qed

lemma octal_digits_ok:
  "octals (octal_digits c @ s) = octal_digits c" "to_char (octal_val (octal_digits c)) = c" "length (octal_digits c) = 3"
proof -
  define n where "n = nat (uchar c)"
  have n: "int n = uchar c" "n < 256" using uchar_range(1,2) [of c] by (simp_all add: n_def nat_less_iff)
  have b: "n div 64 < 8" "n div 8 mod 8 < 8" "n mod 8 < 8" using n(2) by auto
  note codes = b [THEN octal_char]
  have "n div 64 = n div 8 div 8" by (simp add: div_mult2_eq [symmetric])
  then have "n div 64 * 8 + n div 8 mod 8 = n div 8" by simp
  then have "n = (n div 64 * 8 + n div 8 mod 8) * 8 + n mod 8" by simp
  then have "int n = int ((n div 64 * 8 + n div 8 mod 8) * 8 + n mod 8)" by (rule arg_cong)
  then have "int n = (int (n div 64) * 8 + int (n div 8 mod 8)) * 8 + int (n mod 8)"
    by (simp only: of_nat_add of_nat_mult of_nat_numeral)
  then have "octal_val (octal_digits c) = int n"
    by (simp add: octal_val_def octal_digits_def Let_def n_def [symmetric] codes)
  moreover have "list_all is_octal (octal_digits c)"
    using b [unfolded less_Suc_eq_le numeral_eq_Suc] unfolding is_octal_def octal_digits_def Let_def n_def [symmetric]
    by (simp add: codes)
  ultimately have o: "list_all is_octal (octal_digits c)" "octal_val (octal_digits c) = uchar c" "length (octal_digits c) = 3"
    using n(1) by (simp_all add: octal_digits_def Let_def)
  then show "to_char (octal_val (octal_digits c)) = c" "length (octal_digits c) = 3" by simp_all
  show "octals (octal_digits c @ s) = octal_digits c"
    using o(1,3) by (simp add: octals_def list_all_iff takeWhile_eq_all_conv)
qed

lemma uchar_backslash: "uchar c = 92 \<longleftrightarrow> c = backslash"
  using uchar_inj [of c backslash] by (simp add: uchar_def)

lemma to_char_codes:
  "to_char 7 = CHR 0x07" "to_char 8 = CHR 0x08" "to_char 9 = TAB" "to_char 10 = NL" "to_char 11 = CHR 0x0B"
  "to_char 12 = CHR 0x0C" "to_char 13 = CHR 0x0D" "to_char 92 = backslash"
  by code_simp+

lemma echo_esc_codes: "etok_ok var (Esc c) \<Longrightarrow> echo_esc var c = Some (etok_char (Esc c))"
  by (auto simp: escape_codes_def echo_esc_def to_char_codes split: if_splits)

lemma echo_arg_tok:
  assumes "mbm \<le> 1" "etok_ok var t"
  shows "echo_arg var mbm mb (etok_text t @ s) = emit [etok_char t] (echo_arg var mbm mb s)"
proof (cases t)
  case (Lit c)
  with assms show ?thesis by (simp add: nextc_def uchar_backslash)
next
  case (Esc c)
  with assms echo_esc_codes [of var c] show ?thesis by (simp add: nextc_def uchar_def)
next
  case (Oct c)
  have "echo_esc var (CHR ''0'') = None" by (simp add: echo_esc_def)
  with Oct assms(1) octal_digits_ok(1) [of c s] octal_digits_ok(2,3) [of c] show ?thesis by (simp add: nextc_def uchar_def)
qed

lemma echo_arg_toks:
  assumes "mbm \<le> 1" "list_all (etok_ok var) ts"
  shows "echo_arg var mbm mb (concat (map etok_text ts)) = (map (etok_char) ts, False)"
  using assms(2) by (induction ts) (simp_all add: echo_arg_tok [OF assms(1)] emit_def)

section \<open>Properties\<close>

text \<open>
  (C28) Any bytes can be written.  In the System V and POSIX variants (not in the UCB one), in a
  single-byte locale, and if \<open>SYSV3\<close> is set with a first argument that does not begin with \<open>-n\<close>,
  arguments in which each byte is written literally, as a letter behind a backslash or as \<open>\0\<close> with three octal digits
  make \<open>echo\<close> print exactly those bytes, with one space between arguments and a newline at the end.
  The letters stand for the control characters of the manual page: \<open>\b\<close> for the code 8, \<open>\t\<close> for 9,
  \<open>\n\<close> for 10, \<open>\v\<close> for 11, \<open>\f\<close> for 12, \<open>\r\<close> for 13, in the POSIX variant \<open>\a\<close> for 7.
\<close>

theorem echo_prints_bytes:
  assumes "var \<noteq> UCB" "mbm \<le> 1" "ts \<noteq> []" "list_all (list_all (etok_ok var)) ts"
    and "sysv3 \<longrightarrow> take 2 (concat (map etok_text (hd ts))) \<noteq> ''-n''"
  shows "echo_main var sysv3 mbm mb (map (\<lambda>t. concat (map etok_text t)) ts) =
    \<lparr>out = join '' '' (map (map etok_char) ts) @ [NL], err = [], status = 0\<rparr>"
proof -
  have "echo_args var mbm mb False (map (\<lambda>t. concat (map etok_text t)) ts) = join '' '' (map (map etok_char) ts) @ [NL]"
    using assms(3,4)
  proof (induction ts)
    case (Cons t ts)
    then show ?case by (cases ts) (simp_all add: echo_arg_toks [OF assms(2)])
  qed simp
  with assms(1,3,5) show ?thesis by (auto simp: echo_main_def n_option_def hd_map)
qed

theorem echo_prints_bytes_witness:
  "echo_main SV True 1 (\<lambda>s. (0, 0)) [[CHR ''x'', backslash, CHR ''t''], backslash # ''0000'' @ ''9''] =
     \<lparr>out = [CHR ''x'', TAB, CHR '' '', NUL, CHR ''9'', NL], err = [], status = 0\<rparr>"
proof -
  let ?ts = "[[Lit CHR ''x'', Esc CHR ''t''], [Oct NUL, Lit CHR ''9'']]"
  have "SV \<noteq> UCB" "1 \<le> (1 :: nat)" "?ts \<noteq> []" "list_all (list_all (etok_ok SV)) ?ts"
    "True \<longrightarrow> take 2 (concat (map etok_text (hd ?ts))) \<noteq> ''-n''"
    by (simp_all add: escape_codes_def)
  moreover have "char_of (48 :: nat) = CHR ''0''" by code_simp
  ultimately show ?thesis using echo_prints_bytes [of SV 1 ?ts True "\<lambda>s. (0, 0)"]
    by (simp add: escape_codes_def to_char_codes octal_digits_def uchar_def Let_def)
qed

end
