(* ===== verification/Cal.thy ===== *)
theory Cal
  imports Stdio
begin

text \<open>
  \<open>cal/cal.c\<close>: calendars.  The names of the days and months, which \<open>dolocale\<close> takes from the locale, are
  a record with the built-in names as its default value; today's month and year are a parameter.
  The static array \<open>string\<close> is a list of 432 characters, and a store outside of it, or a look at the
  byte before it, is \<open>None\<close>.  An \<open>int\<close> has 32 bits.
\<close>

section \<open>The program\<close>

record cal_names =
  dayw :: string
  smon :: "string list"
  amon :: "string list"

definition cal_english :: cal_names where
  "cal_english = \<lparr>
     dayw = '' S  M Tu  W Th  F  S'',
     smon = [''January'', ''February'', ''March'', ''April'', ''May'', ''June'', ''July'', ''August'',
             ''September'', ''October'', ''November'', ''December''],
     amon = [''Jan'', ''Feb'', ''Mar'', ''Apr'', ''May'', ''Jun'', ''Jul'', ''Aug'', ''Sep'', ''Oct'', ''Nov'', ''Dec'']\<rparr>"

text \<open>\<open>number\<close>, with the wrap-around of \<open>int\<close>.\<close>

fun number_loop :: "string \<Rightarrow> 32 word \<Rightarrow> int" where
  "number_loop [] n = sint n"
| "number_loop (c # s) n =
     (if uchar c < 48 \<or> uchar c > 57 then 0 else number_loop s (n * 10 + of_int (uchar c) - 48))"

definition number :: "string \<Rightarrow> int" where
  "number s = number_loop s 0"

definition jan1 :: "int \<Rightarrow> int" where
  "jan1 yr =
     (let d = 4 + yr + (yr + 3) div 4;
          d = (if yr > 1800 then d - (yr - 1701) div 100 + (yr - 1601) div 400 else d);
          d = (if yr > 1752 then d + 3 else d)
      in d mod 7)"

text \<open>The array \<open>mon\<close> after the \<open>switch\<close> in \<open>cal\<close>.\<close>

definition cal_mon :: "int \<Rightarrow> nat list" where
  "cal_mon y =
     (let mon = [0, 31, 29, 31, 30, 31, 30, 31, 31, 30, 31, 30, 31]; r = (jan1 (y + 1) + 7 - jan1 y) mod 7
      in if r = 1 then mon[2 := 28] else if r = 2 then mon else mon[9 := 19])"

definition poke :: "nat \<Rightarrow> char \<Rightarrow> string \<Rightarrow> string option" where
  "poke i c buf = (if i < length buf then Some (buf[i := c]) else None)"

text \<open>
  The loop over the days: \<open>i\<close> is the day, \<open>len\<close> is \<open>mon[m]\<close>, \<open>s\<close> and \<open>p\<close> are positions in the buffer, \<open>d\<close> is the
  day of the week.
\<close>

definition cal_day :: "nat \<Rightarrow> nat \<Rightarrow> string \<Rightarrow> string option" where
  "cal_day i s buf =
     (case (if i > 9 then poke s (digit (i div 10)) buf else Some buf) of
        None \<Rightarrow> None
      | Some buf \<Rightarrow> poke (s + 1) (digit (i mod 10)) buf)"

function cal_loop :: "nat \<Rightarrow> nat \<Rightarrow> nat \<Rightarrow> nat \<Rightarrow> nat \<Rightarrow> nat \<Rightarrow> string \<Rightarrow> string option" where
  "cal_loop w i len s p d buf =
     (if i \<le> len then
        (let gap = (i = 3 \<and> len = 19); i = (if gap then i + 11 else i); len = (if gap then len + 11 else len)
         in case cal_day i s buf of
              None \<Rightarrow> None
            | Some buf \<Rightarrow>
                if d + 1 = 7 then cal_loop w (i + 1) len (p + w) (p + w) 0 buf
                else cal_loop w (i + 1) len (s + 3) p (d + 1) buf)
      else Some buf)"
  by pat_completeness auto
termination
  by (relation "measure (\<lambda>(w, i, len, s, p, d, buf). len + 1 - i)") (auto split: if_splits)

definition cal :: "nat \<Rightarrow> int \<Rightarrow> nat \<Rightarrow> nat \<Rightarrow> string \<Rightarrow> string option" where
  "cal m y p w buf =
     (let mon = cal_mon y; d = (nat (jan1 y) + sum_list (take (m - 1) (drop 1 mon))) mod 7
      in cal_loop w 1 (mon ! m) (p + 3 * d) p d buf)"

text \<open>
  \<open>pstr\<close> on the part of the buffer that starts at \<open>str\<close>: the output and the new buffer.  \<open>back_scan\<close> is the
  loop that looks for the last character that is no blank; \<open>i\<close> counts its turns, \<open>s\<close> is the pointer.
\<close>

fun back_scan :: "string \<Rightarrow> nat \<Rightarrow> nat \<Rightarrow> nat option" where
  "back_scan buf 0 s = Some s"
| "back_scan buf (Suc i) 0 = None"
| "back_scan buf (Suc i) (Suc s) = (if buf ! s \<noteq> CHR '' '' then Some s else back_scan buf i s)"

definition pstr :: "nat \<Rightarrow> nat \<Rightarrow> string \<Rightarrow> (string \<times> string) option" where
  "pstr str n buf =
     (let buf = take str buf @ map (\<lambda>c. if c = NUL then CHR '' '' else c) (take n (drop str buf)) @ drop (str + n) buf
      in case back_scan buf (n + 1) (str + n) of
           None \<Rightarrow> None
         | Some s \<Rightarrow>
             (case poke (s + 1) NUL buf of None \<Rightarrow> None | Some buf \<Rightarrow> Some (cstr (drop str buf) @ [NL], buf)))"

fun pstrs :: "nat list \<Rightarrow> nat \<Rightarrow> string \<Rightarrow> string option" where
  "pstrs [] n buf = Some []"
| "pstrs (o1 # os) n buf =
     (case pstr o1 n buf of
        None \<Rightarrow> None
      | Some (w, buf) \<Rightarrow> (case pstrs os n buf of None \<Rightarrow> None | Some v \<Rightarrow> Some (w @ v)))"

definition cal_month :: "cal_names \<Rightarrow> nat \<Rightarrow> int \<Rightarrow> string option" where
  "cal_month nm m y =
     (case cal m y 0 24 (replicate 432 NUL) of
        None \<Rightarrow> None
      | Some buf \<Rightarrow>
          (case pstrs [0, 24, 48, 72, 96, 120] 24 buf of
             None \<Rightarrow> None
           | Some w \<Rightarrow>
               Some (''   '' @ smon nm ! (m - 1) @ '' '' @ decimal (nat y) @ [NL] @ dayw nm @ [NL] @ w)))"

text \<open>One turn of the loop over the quarters.\<close>

definition cal_quarter :: "cal_names \<Rightarrow> nat \<Rightarrow> int \<Rightarrow> string option" where
  "cal_quarter nm i y =
     (case cal (i + 1) y 0 72 (replicate 432 NUL) of
        None \<Rightarrow> None
      | Some buf \<Rightarrow>
          (case cal (i + 2) y 23 72 buf of
             None \<Rightarrow> None
           | Some buf \<Rightarrow>
               (case cal (i + 3) y 46 72 buf of
                  None \<Rightarrow> None
                | Some buf \<Rightarrow>
                    (case pstrs [0, 72, 144, 216, 288, 360] 72 buf of
                       None \<Rightarrow> None
                     | Some w \<Rightarrow>
                         Some ([TAB, CHR '' ''] @ take 3 (amon nm ! i) @ replicate 3 TAB @ take 3 (amon nm ! (i + 1)) @
                               [TAB, TAB] @ ''       '' @ take 3 (amon nm ! (i + 2)) @ [NL] @
                               dayw nm @ ''   '' @ dayw nm @ ''   '' @ dayw nm @ [NL] @ w)))))"

fun cal_quarters :: "cal_names \<Rightarrow> nat list \<Rightarrow> int \<Rightarrow> string option" where
  "cal_quarters nm [] y = Some []"
| "cal_quarters nm (i # is) y =
     (case cal_quarter nm i y of
        None \<Rightarrow> None
      | Some w \<Rightarrow> (case cal_quarters nm is y of None \<Rightarrow> None | Some v \<Rightarrow> Some (w @ v)))"

definition cal_year :: "cal_names \<Rightarrow> int \<Rightarrow> string option" where
  "cal_year nm y =
     (case cal_quarters nm [0, 3, 6, 9] y of
        None \<Rightarrow> None
      | Some w \<Rightarrow>
          Some ([NL, NL, NL] @ replicate 4 TAB @ decimal (nat y) @ [NL, NL] @ w @ [NL, NL, NL]))"

definition cal_main :: "cal_names \<Rightarrow> nat \<times> int \<Rightarrow> string \<Rightarrow> string list \<Rightarrow> outcome option" where
  "cal_main nm today progname args =
     (let bad = Some \<lparr>out = [], err = ''Bad argument'' @ [NL], status = 1\<rparr>;
          done = (\<lambda>w. case w of None \<Rightarrow> None | Some w \<Rightarrow> Some \<lparr>out = w, err = [], status = 0\<rparr>);
          args = (case args of a # as \<Rightarrow> if a = ''--'' then as else args | [] \<Rightarrow> [])
      in case args of
           [] \<Rightarrow> done (cal_month nm (fst today) (snd today))
         | [a] \<Rightarrow> (let y = number a in if y < 1 \<or> y > 9999 then bad else done (cal_year nm y))
         | [a, b] \<Rightarrow>
             (let m = number a; y = number b
              in if m < 1 \<or> m > 12 then bad
                 else if y < 1 \<or> y > 9999 then bad
                 else done (cal_month nm (nat m) y))
         | _ \<Rightarrow> Some \<lparr>out = [], err = ''usage: '' @ progname @ '' [ [month] year ]'' @ [NL], status = 2\<rparr>)"

section \<open>The calendar\<close>

text \<open>
  The calendar by counting days: 1 January of the year 1 was a Saturday; years divisible by four
  have a leap day, from 1753 on not all of the centuries; and 2 September 1752 was followed by the 14th.
\<close>

definition leap_year :: "nat \<Rightarrow> bool" where
  "leap_year y \<longleftrightarrow> 4 dvd y \<and> (y \<le> 1752 \<or> \<not> 100 dvd y \<or> 400 dvd y)"

definition month_days :: "nat \<Rightarrow> nat \<Rightarrow> nat list" where
  "month_days y m =
     (if y = 1752 \<and> m = 9 then [1, 2] @ [14..<31]
      else [1..<Suc ([31, if leap_year y then 29 else 28, 31, 30, 31, 30, 31, 31, 30, 31, 30, 31] ! (m - 1))])"

definition year_days :: "nat \<Rightarrow> nat" where
  "year_days y = sum_list (map (\<lambda>m. length (month_days y m)) [1..<13])"

fun new_year :: "nat \<Rightarrow> nat" where
  "new_year 0 = 0"
| "new_year (Suc y) = (if y = 0 then 6 else (new_year y + year_days y) mod 7)"

definition first_weekday :: "nat \<Rightarrow> nat \<Rightarrow> nat" where
  "first_weekday y m = (new_year y + sum_list (map (\<lambda>k. length (month_days y k)) [1..<m])) mod 7"

text \<open>A month as six lines of at most seven days.\<close>

definition day_cell :: "nat \<Rightarrow> string" where
  "day_cell i = padl 2 (CHR '' '') (decimal i)"

function chunks :: "nat \<Rightarrow> 'a list \<Rightarrow> 'a list list" where
  "chunks n xs = (if xs = [] \<or> n = 0 then [] else take n xs # chunks n (drop n xs))"
  by pat_completeness auto
termination by (relation "measure (\<lambda>(n, xs). length xs)") auto

declare chunks.simps [simp del]

definition week_lines :: "nat \<Rightarrow> nat list \<Rightarrow> string list" where
  "week_lines d0 days =
     (let ws = map (join '' '') (chunks 7 (replicate d0 ''  '' @ map day_cell days))
      in ws @ replicate (6 - length ws) [])"

section \<open>Weekdays\<close>

lemma year_days_eq: "year_days y = (if y = 1752 then 355 else if leap_year y then 366 else 365)"
proof -
  have "[1..<13] = [1, 2, 3, 4, 5, 6, 7, 8, 9, 10, 11, 12 :: nat]" by (simp add: upt_rec)
  moreover have "leap_year 1752" by (simp add: leap_year_def)
  ultimately show ?thesis by (simp add: year_days_def month_days_def)
qed

lemma jan1_range: "0 \<le> jan1 y" "jan1 y < 7"
  by (simp_all add: jan1_def Let_def)

text \<open>The closed formula of \<open>jan1\<close> advances by the length of each year.\<close>

definition jan1_sum :: "nat \<Rightarrow> int" where
  "jan1_sum y = 4 + int y + int ((y + 3) div 4) + (if y > 1752 then 3 else 0) +
     (if y > 1800 then int ((y - 1601) div 400) - int ((y - 1701) div 100) else 0)"

lemma jan1_nat: "jan1 (int y) = jan1_sum y mod 7"
proof -
  have d: "(int y + 3) div 4 = int ((y + 3) div 4)" by (simp add: zdiv_int)
  have e: "y > 1800 \<Longrightarrow> (int y - 1701) div 100 = int ((y - 1701) div 100) \<and> (int y - 1601) div 400 = int ((y - 1601) div 400)"
    by (simp add: zdiv_int of_nat_diff)
  show ?thesis unfolding jan1_def jan1_sum_def Let_def d using e by (auto simp: algebra_simps)
qed

lemma div_step: "Suc a div k = a div k + (if k dvd Suc a then 1 else 0)"
  by (simp add: div_Suc dvd_eq_mod_eq_0)

lemma jan1_sum_Suc:
  assumes "0 < y"
  shows "\<exists>k. jan1_sum (Suc y) = jan1_sum y + int (year_days y) + 7 * k"
proof -
  have q: "int ((Suc y + 3) div 4) = int ((y + 3) div 4) + (if 4 dvd y then 1 else 0)"
    using div_step [of "y + 3" 4] by (simp add: dvd_add_left_iff [of 4 4 y])
  have r: "int ((Suc y - 1701) div 100) = int ((y - 1701) div 100) + (if 100 dvd y then 1 else 0)"
    "int ((Suc y - 1601) div 400) = int ((y - 1601) div 400) + (if 400 dvd y then 1 else 0)" if "y > 1800"
  proof -
    have "Suc y - 1701 = Suc (y - 1701)" "Suc y - 1601 = Suc (y - 1601)" using that by auto
    moreover have "(100 :: nat) dvd Suc (y - 1701) \<longleftrightarrow> 100 dvd y" "(400 :: nat) dvd Suc (y - 1601) \<longleftrightarrow> 400 dvd y"
    proof -
      have "y = Suc (y - 1701) + 17 * 100" "y = Suc (y - 1601) + 4 * 400" using that by auto
      then show "(100 :: nat) dvd Suc (y - 1701) \<longleftrightarrow> 100 dvd y" "(400 :: nat) dvd Suc (y - 1601) \<longleftrightarrow> 400 dvd y"
        by (metis dvd_add_left_iff dvd_triv_right)+
    qed
    ultimately show "int ((Suc y - 1701) div 100) = int ((y - 1701) div 100) + (if 100 dvd y then 1 else 0)"
      "int ((Suc y - 1601) div 400) = int ((y - 1601) div 400) + (if 400 dvd y then 1 else 0)"
      using div_step [of "y - 1701" 100] div_step [of "y - 1601" 400] by simp_all
  qed
  have c: "400 dvd y \<Longrightarrow> 100 dvd y" "100 dvd y \<Longrightarrow> 4 dvd y" for y :: nat
    by (auto elim: dvd_trans [rotated])
  consider "y < 1752" | "y = 1752" | "1752 < y" "y < 1800" | "y = 1800" | "y > 1800" by linarith
  then show ?thesis
  proof cases
    case 1
    then show ?thesis using q
      by (intro exI [of _ "-52"]) (auto simp: jan1_sum_def year_days_eq leap_year_def)
  next
    case 2
    then show ?thesis by (intro exI [of _ "-50"]) (simp add: jan1_sum_def year_days_eq)
  next
    case 3
    moreover have "\<not> 100 dvd y" using 3 by presburger
    ultimately show ?thesis using q c(1) [of y]
      by (intro exI [of _ "-52"]) (auto simp: jan1_sum_def year_days_eq leap_year_def)
  next
    case 4
    then show ?thesis by (intro exI [of _ "-52"]) (simp add: jan1_sum_def year_days_eq leap_year_def)
  next
    case 5
    have "jan1_sum (Suc y) = jan1_sum y + 1 + (if 4 dvd y then 1 else 0) + (if 400 dvd y then 1 else 0) -
        (if 100 dvd y then 1 else 0)"
      unfolding jan1_sum_def r(1) [OF 5] r(2) [OF 5] q using 5 by simp
    moreover have "year_days y = (if 4 dvd y \<and> (\<not> 100 dvd y \<or> 400 dvd y) then 366 else 365)"
      using 5 by (simp add: year_days_eq leap_year_def)
    ultimately have "jan1_sum (Suc y) = jan1_sum y + int (year_days y) + 7 * (-52)"
      using c [of y] by (cases "400 dvd y"; cases "100 dvd y"; cases "4 dvd y"; simp only: if_True if_False simp_thms)
    then show ?thesis by blast
  qed
qed

lemma jan1_new_year: "0 < y \<Longrightarrow> jan1 (int y) = int (new_year y)"
proof (induction y)
  case (Suc y)
  show ?case
  proof (cases "y = 0")
    case True
    then show ?thesis by (simp add: jan1_def)
  next
    case False
    from jan1_sum_Suc [of y] False obtain k where
      k: "jan1_sum (Suc y) = jan1_sum y + int (year_days y) + 7 * k" by auto
    have "jan1 (int (Suc y)) = (jan1 (int y) + int (year_days y)) mod 7"
      unfolding jan1_nat k by (simp add: mod_add_left_eq)
    with Suc False show ?thesis by (simp add: zmod_int)
  qed
qed simp

lemma cal_mon_days:
  assumes "0 < y" "1 \<le> m" "m \<le> 12"
  shows "cal_mon (int y) ! m = length (month_days y m)"
proof -
  have n: "new_year y < 7" using jan1_new_year [OF assms(1)] jan1_range(2) [of "int y"] by linarith
  have "jan1 (int y + 1) = int ((new_year y + year_days y) mod 7)"
    using jan1_new_year [of "Suc y"] assms(1) by (simp add: add.commute)
  then have "(jan1 (int y + 1) + 7 - jan1 (int y)) mod 7 = int (year_days y) mod 7"
    unfolding jan1_new_year [OF assms(1)] using n
    using mod_add_left_eq [of "int (new_year y) + int (year_days y)" 7 "7 - int (new_year y)"]
    by (simp add: zmod_int algebra_simps)
  then have r: "(jan1 (int y + 1) + 7 - jan1 (int y)) mod 7 = (if y = 1752 then 5 else if leap_year y then 2 else 1)"
    by (simp add: year_days_eq)
  have m: "m = 1 \<or> m = 2 \<or> m = 3 \<or> m = 4 \<or> m = 5 \<or> m = 6 \<or> m = 7 \<or> m = 8 \<or> m = 9 \<or> m = 10 \<or> m = 11 \<or> m = 12"
    using assms(2,3) by arith
  have l: "leap_year 1752" by (simp add: leap_year_def)
  show ?thesis unfolding cal_mon_def Let_def r using l m by (auto simp: month_days_def)
qed

section \<open>Writing the days\<close>

text \<open>The loop of \<open>cal\<close> over an explicit list of days.\<close>

fun cal_days :: "nat \<Rightarrow> nat list \<Rightarrow> nat \<Rightarrow> nat \<Rightarrow> nat \<Rightarrow> string \<Rightarrow> string option" where
  "cal_days w [] s p d buf = Some buf"
| "cal_days w (i # is) s p d buf =
     (case cal_day i s buf of
        None \<Rightarrow> None
      | Some buf \<Rightarrow>
          if d + 1 = 7 then cal_days w is (p + w) (p + w) 0 buf else cal_days w is (s + 3) p (d + 1) buf)"

declare cal_loop.simps [simp del]

lemma cal_loop_step:
  assumes "i \<le> len" "\<not> (i = 3 \<and> len = 19)"
  shows "cal_loop w i len s p d buf =
    (case cal_day i s buf of
       None \<Rightarrow> None
     | Some buf \<Rightarrow>
         if d + 1 = 7 then cal_loop w (i + 1) len (p + w) (p + w) 0 buf
         else cal_loop w (i + 1) len (s + 3) p (d + 1) buf)"
  by (subst cal_loop.simps) (use assms in \<open>simp only: if_True if_False Let_def\<close>)

lemma cal_loop_plain:
  "len \<noteq> 19 \<or> 3 < i \<Longrightarrow> cal_loop w i len s p d buf = cal_days w [i..<Suc len] s p d buf"
proof (induction "Suc len - i" arbitrary: i s p d buf)
  case 0
  then show ?case by (simp add: cal_loop.simps [of w i len])
next
  case (Suc n)
  then have i: "i \<le> len" "\<not> (i = 3 \<and> len = 19)" "n = Suc len - (i + 1)" "len \<noteq> 19 \<or> 3 < i + 1" by auto
  have u: "[i..<Suc len] = i # [i + 1..<Suc len]" using i(1) by (simp add: upt_conv_Cons)
  show ?case unfolding u cal_days.simps cal_loop_step [OF i(1,2)] Suc.hyps(1) [OF i(3,4)] ..
qed

lemma cal_loop_gap: "cal_loop w 1 19 s p d buf = cal_days w ([1, 2] @ [14..<31]) s p d buf"
proof -
  have p: "cal_loop w 15 30 s p d buf = cal_days w [15..<31] s p d buf" for s p d buf
    using cal_loop_plain [of 30 15 w s p d buf] by (simp del: upt_Suc)
  have u: "[14..<31] = 14 # [15..<31 :: nat]" by (simp add: upt_conv_Cons)
  have g: "cal_loop w 3 19 s p d buf = cal_days w [14..<31] s p d buf" for s p d buf
    unfolding u cal_days.simps p [symmetric] by (subst cal_loop.simps) (simp add: Let_def split: option.split)
  have e: "(1 :: nat) + 1 = 2" "(2 :: nat) + 1 = 3" by simp_all
  show ?thesis unfolding append_Cons append_Nil cal_days.simps g [symmetric]
    using cal_loop_step [of 1 19 w s p d buf, unfolded e] cal_loop_step [of 2 19 w, unfolded e]
    by (simp only: simp_thms split: option.splits)
qed

lemma length_month_days: "1 \<le> m \<Longrightarrow> m \<le> 12 \<Longrightarrow> 19 \<le> length (month_days y m) \<and> length (month_days y m) \<le> 31"
proof -
  assume "1 \<le> m" "m \<le> 12"
  then have "m = 1 \<or> m = 2 \<or> m = 3 \<or> m = 4 \<or> m = 5 \<or> m = 6 \<or> m = 7 \<or> m = 8 \<or> m = 9 \<or> m = 10 \<or> m = 11 \<or> m = 12"
    by arith
  then show ?thesis by (auto simp: month_days_def)
qed

lemma month_days_19: "1 \<le> m \<Longrightarrow> m \<le> 12 \<Longrightarrow> y = 1752 \<and> m = 9 \<or> length (month_days y m) \<noteq> 19 \<and> month_days y m = [1..<Suc (length (month_days y m))]"
proof -
  assume "1 \<le> m" "m \<le> 12"
  then have "m = 1 \<or> m = 2 \<or> m = 3 \<or> m = 4 \<or> m = 5 \<or> m = 6 \<or> m = 7 \<or> m = 8 \<or> m = 9 \<or> m = 10 \<or> m = 11 \<or> m = 12"
    by arith
  then show ?thesis by (auto simp: month_days_def simp del: upt_Suc)
qed

text \<open>\<open>cal\<close> starts at the weekday of the first and writes the days of the month.\<close>

lemma cal_eq:
  assumes "0 < y" "1 \<le> m" "m \<le> 12"
  shows "cal m (int y) p w buf =
    cal_days w (month_days y m) (p + 3 * first_weekday y m) p (first_weekday y m) buf"
proof -
  let ?mon = "cal_mon (int y)"
  have "length ?mon = 13" by (simp add: cal_mon_def Let_def)
  then have "take (m - 1) (drop 1 ?mon) = map (\<lambda>k. length (month_days y k)) [1..<m]"
    by (intro nth_equalityI) (use assms cal_mon_days [OF assms(1)] in auto)
  then have d: "(nat (jan1 (int y)) + sum_list (take (m - 1) (drop 1 ?mon))) mod 7 = first_weekday y m"
    by (simp add: first_weekday_def jan1_new_year [OF assms(1)])
  have "cal_loop w 1 (length (month_days y m)) s p e buf = cal_days w (month_days y m) s p e buf" for s e
  proof (cases "y = 1752 \<and> m = 9")
    case True
    then have "month_days y m = [1, 2] @ [14..<31]" by (simp add: month_days_def)
    moreover from this have "length (month_days y m) = 19" by simp
    ultimately show ?thesis by (simp only: cal_loop_gap)
  next
    case False
    then have l: "length (month_days y m) \<noteq> 19" and e: "month_days y m = [1..<Suc (length (month_days y m))]"
      using month_days_19 [OF assms(2,3), of y] by auto
    show ?thesis unfolding cal_loop_plain [OF disjI1 [OF l]] e [symmetric] ..
  qed
  then show ?thesis unfolding cal_def Let_def d cal_mon_days [OF assms] .
qed

text \<open>No store of \<open>cal\<close> leaves its part of the buffer, and only digits are stored.\<close>

lemma cal_day_ok:
  assumes "s + 1 < length buf"
  obtains buf' where "cal_day i s buf = Some buf'" "length buf' = length buf"
    "\<And>j. j < s \<or> s + 1 < j \<Longrightarrow> buf' ! j = buf ! j" "buf' ! (s + 1) = digit (i mod 10)"
  by (rule that [of "(if i > 9 then buf[s := digit (i div 10)] else buf)[s + 1 := digit (i mod 10)]"])
     (use assms in \<open>auto simp: cal_day_def poke_def\<close>)

lemma cal_days_ok:
  assumes "d < 7" "s = p + 3 * d" "d + length is \<le> 7 * (k + 1)" "p + w * k + 21 \<le> length buf" "21 \<le> w"
  shows "\<exists>buf'. cal_days w is s p d buf = Some buf' \<and> length buf' = length buf \<and>
    (\<forall>j. j < s \<or> p + w * k + 21 \<le> j \<longrightarrow> buf' ! j = buf ! j) \<and>
    (is \<noteq> [] \<longrightarrow> buf' ! (s + 1) = digit (hd is mod 10))"
  using assms(1-4)
proof (induction "is" arbitrary: d s p k buf)
  case (Cons i "is")
  have "s + 1 < p + 21" using Cons.prems(1,2) by simp
  then have "s + 1 < length buf" using Cons.prems(4) by linarith
  from cal_day_ok [OF this, of i] obtain buf1 where
    b: "cal_day i s buf = Some buf1" "length buf1 = length buf"
      "\<And>j. j < s \<or> s + 1 < j \<Longrightarrow> buf1 ! j = buf ! j" "buf1 ! (s + 1) = digit (i mod 10)" by blast
  show ?case
  proof (cases "d + 1 = 7")
    case True
    show ?thesis
    proof (cases "is = []")
      case True
      with b \<open>s + 1 < p + 21\<close> show ?thesis by auto
    next
      case False
      then have "1 \<le> length is" by (cases "is") auto
      with True Cons.prems(3) obtain k' where k: "k = Suc k'" by (cases k) auto
      have e: "p + w + w * k' + 21 = p + w * k + 21" by (simp add: k)
      have "\<exists>buf'. cal_days w is (p + w) (p + w) 0 buf1 = Some buf' \<and> length buf' = length buf1 \<and>
        (\<forall>j. j < p + w \<or> p + w + w * k' + 21 \<le> j \<longrightarrow> buf' ! j = buf1 ! j) \<and>
        (is \<noteq> [] \<longrightarrow> buf' ! (p + w + 1) = digit (hd is mod 10))"
        by (rule Cons.IH) (use True Cons.prems(3,4) b(2) e k in auto)
      then obtain buf' where "cal_days w is (p + w) (p + w) 0 buf1 = Some buf'" "length buf' = length buf1"
        "\<And>j. j < p + w \<or> p + w * k + 21 \<le> j \<Longrightarrow> buf' ! j = buf1 ! j" unfolding e by blast
      with True b \<open>s + 1 < p + 21\<close> assms(5) show ?thesis
        by (intro exI [of _ buf']) (auto simp: Cons.prems(2))
    qed
  next
    case False
    have "\<exists>buf'. cal_days w is (s + 3) p (d + 1) buf1 = Some buf' \<and> length buf' = length buf1 \<and>
        (\<forall>j. j < s + 3 \<or> p + w * k + 21 \<le> j \<longrightarrow> buf' ! j = buf1 ! j) \<and>
        (is \<noteq> [] \<longrightarrow> buf' ! (s + 3 + 1) = digit (hd is mod 10))"
      by (rule Cons.IH) (use False Cons.prems b(2) in auto)
    then obtain buf' where "cal_days w is (s + 3) p (d + 1) buf1 = Some buf'" "length buf' = length buf1"
      "\<And>j. j < s + 3 \<or> p + w * k + 21 \<le> j \<Longrightarrow> buf' ! j = buf1 ! j" by blast
    with False b \<open>s + 1 < p + 21\<close> show ?thesis by (intro exI [of _ buf']) auto
  qed
qed auto

section \<open>Printing the rows\<close>

definition show_blank :: "char \<Rightarrow> char" where
  "show_blank c = (if c = NUL then CHR '' '' else c)"

abbreviation blanks :: "nat \<Rightarrow> string" where
  "blanks j \<equiv> replicate j (CHR '' '')"

lemma back_scan_form:
  assumes "u = [] \<or> last u \<noteq> CHR '' ''" "P \<noteq> [] \<or> u \<noteq> []"
  shows "back_scan (P @ u @ blanks j @ rest) (j + Suc (length u)) (length P + length u + j) = Some (length P + length u - 1)"
proof (induction j arbitrary: rest)
  case 0
  show ?case
  proof (cases u rule: rev_cases)
    case Nil
    with assms(2) show ?thesis by (cases P rule: rev_cases) auto
  next
    case (snoc v x)
    with assms(1) show ?thesis by (simp add: nth_append)
  qed
next
  case (Suc j)
  have "P @ u @ blanks (Suc j) @ rest = P @ u @ blanks j @ (CHR '' '' # rest)"
    by (simp add: replicate_app_Cons_same)
  moreover have "(P @ u @ blanks (Suc j) @ rest) ! (length P + length u + j) = CHR '' ''"
    by (simp add: nth_append del: replicate_Suc)
  ultimately show ?case using Suc.IH [of "CHR '' '' # rest"] by simp
qed

text \<open>
  A row is printed without its trailing blanks.  The terminator goes into the row, provided it ends
  in a blank.
\<close>

lemma pstr_row:
  assumes "map show_blank row = u @ blanks (Suc j)" "u = [] \<or> last u \<noteq> CHR '' ''" "P \<noteq> [] \<or> u \<noteq> []"
  shows "pstr (length P) (length row) (P @ row @ rest) = Some (u @ [NL], P @ (u @ NUL # blanks j) @ rest)"
proof -
  have l: "length row = length u + Suc j" using arg_cong [OF assms(1), of length] by simp
  have m: "map (\<lambda>c. if c = NUL then CHR '' '' else c) row = u @ blanks (Suc j)"
    using assms(1) unfolding show_blank_def by simp
  have nul: "NUL \<notin> set u"
  proof
    assume "NUL \<in> set u"
    then have "NUL \<in> set (map show_blank row)" by (simp add: assms(1))
    then show False by (auto simp: show_blank_def split: if_splits)
  qed
  define q where "q = length P + length u - 1"
  have b: "back_scan (P @ u @ blanks (Suc j) @ rest) (Suc (length row)) (length P + length row) = Some q"
    using back_scan_form [OF assms(2,3), of "Suc j" rest] unfolding l q_def by (simp only: add.commute add.left_commute add_Suc_right)
  have s: "Suc q = length (P @ u)" using assms(3) by (cases P; cases u) (auto simp: q_def)
  have "(P @ u @ blanks (Suc j) @ rest)[length (P @ u) := NUL] = P @ (u @ NUL # blanks j) @ rest"
    using list_update_length [of "P @ u" "CHR '' ''" "blanks j @ rest" NUL] by simp
  then have k: "poke (Suc q) NUL (P @ u @ blanks (Suc j) @ rest) = Some (P @ (u @ NUL # blanks j) @ rest)"
    unfolding s poke_def by simp
  show ?thesis using nul by (simp add: pstr_def Let_def m b k cstr_def del: replicate_Suc)
qed

text \<open>Rows of \<open>n\<close> characters one after the other.\<close>

definition row_ok :: "nat \<Rightarrow> string \<Rightarrow> string \<Rightarrow> bool" where
  "row_ok n row u \<longleftrightarrow> length row = n \<and> (u = [] \<or> last u \<noteq> CHR '' '') \<and> (\<exists>j. map show_blank row = u @ blanks (Suc j))"

lemma pstrs_rows:
  assumes "list_all2 (row_ok n) rows us" "P \<noteq> [] \<or> us = [] \<or> hd us \<noteq> []" "0 < n"
  shows "pstrs (map (\<lambda>k. length P + n * k) [0..<length rows]) n (P @ concat rows @ rest) =
    Some (concat (map (\<lambda>u. u @ [NL]) us))"
  using assms(1,2)
proof (induction arbitrary: P rule: list_all2_induct)
  case (Cons row rows u us)
  then obtain j where r: "length row = n" "u = [] \<or> last u \<noteq> CHR '' ''" "map show_blank row = u @ blanks (Suc j)"
    by (auto simp: row_ok_def)
  let ?P = "P @ u @ NUL # blanks j"
  have l: "length ?P = length P + n" using r(1) arg_cong [OF r(3), of length] by simp
  have p: "pstr (length P) n (P @ row @ concat rows @ rest) = Some (u @ [NL], ?P @ concat rows @ rest)"
    using pstr_row [OF r(3,2), of P "concat rows @ rest"] r(1) Cons.prems by auto
  have "pstrs (map (\<lambda>k. length ?P + n * k) [0..<length rows]) n (?P @ concat rows @ rest) = Some (concat (map (\<lambda>u. u @ [NL]) us))"
    by (rule Cons.IH) simp
  moreover have "map (\<lambda>k. length P + n * k) [0..<length (row # rows)] =
      length P # map (\<lambda>k. length ?P + n * k) [0..<length rows]"
    unfolding l by (simp add: upt_conv_Cons map_Suc_upt [symmetric] comp_def algebra_simps del: upt_Suc)
  ultimately show ?case using p by simp
qed simp

section \<open>The layout of a month\<close>

text \<open>What is stored for a day, three bytes of a row of 24.\<close>

definition raw_cell :: "nat \<Rightarrow> string" where
  "raw_cell i = [if i > 9 then digit (i div 10) else NUL, digit (i mod 10), NUL]"

lemma length_raw_cell [simp]: "length (raw_cell i) = 3"
  by (simp add: raw_cell_def)

fun fill :: "nat \<Rightarrow> nat list \<Rightarrow> string" where
  "fill d [] = []"
| "fill d (i # is) = raw_cell i @ (if d + 1 = 7 then [NUL, NUL, NUL] @ fill 0 is else fill (d + 1) is)"

abbreviation nuls :: "nat \<Rightarrow> string" where
  "nuls z \<equiv> replicate z NUL"

lemma cal_day_nuls: "cal_day i (length X) (X @ nuls (3 + z)) = Some (X @ raw_cell i @ nuls z)"
proof -
  have "X @ nuls (3 + z) = X @ [NUL, NUL, NUL] @ nuls z" by (simp add: numeral_3_eq_3)
  then show ?thesis by (simp add: cal_day_def poke_def raw_cell_def list_update_append nth_append)
qed

lemma cal_days_fill:
  "length (fill d is) \<le> z \<Longrightarrow> length X = p + 3 * d \<Longrightarrow> d < 7 \<Longrightarrow>
     cal_days 24 is (length X) p d (X @ nuls z) = Some (X @ fill d is @ nuls (z - length (fill d is)))"
proof (induction "is" arbitrary: d z X p)
  case (Cons i "is")
  define z1 where "z1 = z - 3"
  have z: "z = 3 + z1" using Cons.prems(1) by (simp add: z1_def)
  show ?case
  proof (cases "d + 1 = 7")
    case True
    define z2 where "z2 = z1 - 3"
    have z2: "z1 = 3 + z2" using Cons.prems(1) True by (simp add: z z2_def)
    let ?X = "X @ raw_cell i @ [NUL, NUL, NUL]"
    have l: "length ?X = p + 24" using Cons.prems(2) True by simp
    have "cal_days 24 is (length ?X) (p + 24) 0 (?X @ nuls z2) = Some (?X @ fill 0 is @ nuls (z2 - length (fill 0 is)))"
      by (rule Cons.IH) (use Cons.prems(1) True l z z2 in simp_all)
    moreover have "X @ raw_cell i @ nuls z1 = ?X @ nuls z2" by (simp add: z2 numeral_3_eq_3)
    ultimately have "cal_days 24 (i # is) (length X) p d (X @ nuls z) = Some (?X @ fill 0 is @ nuls (z2 - length (fill 0 is)))"
      using True by (simp only: cal_days.simps z cal_day_nuls option.case refl if_True l)
    with True show ?thesis by (simp add: z z2)
  next
    case False
    let ?X = "X @ raw_cell i"
    have l: "length ?X = length X + 3" by simp
    have "cal_days 24 is (length ?X) p (d + 1) (?X @ nuls z1) = Some (?X @ fill (d + 1) is @ nuls (z1 - length (fill (d + 1) is)))"
      by (rule Cons.IH) (use Cons.prems False l z in simp_all)
    then have "cal_days 24 (i # is) (length X) p d (X @ nuls z) = Some (?X @ fill (d + 1) is @ nuls (z1 - length (fill (d + 1) is)))"
      using False by (simp only: cal_days.simps z cal_day_nuls option.case if_False l append_assoc)
    with False show ?thesis by (simp add: z)
  qed
qed simp

text \<open>The rows: the weeks, each filled up to 24 bytes.\<close>

definition pad_row :: "string list \<Rightarrow> string" where
  "pad_row wk = concat wk @ nuls (24 - 3 * length wk)"

lemma chunks_short: "xs \<noteq> [] \<Longrightarrow> length xs \<le> n \<Longrightarrow> chunks n xs = [xs]"
  by (cases n) (subst chunks.simps, subst chunks.simps, auto)+

lemma chunks_full: "length xs = n \<Longrightarrow> 0 < n \<Longrightarrow> chunks n (xs @ ys) = xs # chunks n ys"
  by (subst chunks.simps) auto

lemma fill_rows:
  "length ws = d \<Longrightarrow> d < 7 \<Longrightarrow> list_all (\<lambda>c. length c = 3) ws \<Longrightarrow>
     \<exists>k. concat (map pad_row (chunks 7 (ws @ map raw_cell is))) = concat ws @ fill d is @ nuls k"
proof (induction "is" arbitrary: ws d)
  case Nil
  show ?case
  proof (cases "ws = []")
    case True
    then show ?thesis by (intro exI [of _ 0]) (simp add: chunks.simps)
  next
    case False
    with Nil show ?thesis by (auto simp: chunks_short pad_row_def)
  qed
next
  case (Cons i "is")
  let ?ws = "ws @ [raw_cell i]"
  show ?case
  proof (cases "d + 1 = 7")
    case True
    then have "chunks 7 (ws @ map raw_cell (i # is)) = ?ws # chunks 7 (map raw_cell is)"
      using chunks_full [of ?ws 7 "map raw_cell is"] Cons.prems(1) by simp
    moreover have "pad_row ?ws = concat ?ws @ [NUL, NUL, NUL]"
      using True Cons.prems(1) by (simp add: pad_row_def numeral_3_eq_3)
    moreover from Cons.IH [of "[]" 0] obtain k where
      "concat (map pad_row (chunks 7 (map raw_cell is))) = fill 0 is @ nuls k" by auto
    ultimately show ?thesis using True by (intro exI [of _ k]) simp
  next
    case False
    from Cons.IH [of ?ws "d + 1"] False Cons.prems obtain k where
      "concat (map pad_row (chunks 7 (?ws @ map raw_cell is))) = concat ?ws @ fill (d + 1) is @ nuls k"
      by auto
    then show ?thesis using False by (intro exI [of _ k]) simp
  qed
qed

text \<open>A row shows its cells separated by blanks; its last cell is a day.\<close>

definition empty_cell :: string where
  "empty_cell = [NUL, NUL, NUL]"

definition cell_text :: "string \<Rightarrow> string" where
  "cell_text c = map show_blank (butlast c)"

lemma digit_shown: "k < 10 \<Longrightarrow> show_blank (digit k) = digit k \<and> digit k \<noteq> CHR '' '' \<and> digit k \<noteq> NUL"
proof -
  assume "k < 10"
  then have u: "uchar (digit k) = 48 + int k" by (rule digit_props)
  then have "uchar (digit k) \<noteq> uchar (CHR '' '')" "uchar (digit k) \<noteq> uchar NUL" by (simp_all add: uchar_def)
  then show ?thesis by (auto simp: show_blank_def)
qed

lemma cell_text_raw: "i < 100 \<Longrightarrow> cell_text (raw_cell i) = day_cell i"
proof (cases "i > 9")
  case True
  moreover assume "i < 100"
  ultimately have "decimal i = [digit (i div 10), digit (i mod 10)]" "i div 10 < 10"
    by (simp_all add: decimal.simps [of i] decimal.simps [of "i div 10"])
  with True show ?thesis
    using digit_shown [of "i div 10"] digit_shown [of "i mod 10"] by (simp add: cell_text_def raw_cell_def day_cell_def padl_def)
next
  case False
  then have "decimal i = [digit i]" by (simp add: decimal.simps [of i])
  with False show ?thesis using digit_shown [of i]
    by (simp add: cell_text_def raw_cell_def day_cell_def padl_def show_blank_def)
qed

lemma cell_text_empty [simp]: "cell_text empty_cell = ''  ''"
  by (simp add: cell_text_def empty_cell_def show_blank_def)

lemma join_cells:
  "ws \<noteq> [] \<Longrightarrow> list_all (\<lambda>c. c \<noteq> [] \<and> last c = NUL) ws \<Longrightarrow>
     map show_blank (concat ws) = join '' '' (map cell_text ws) @ '' ''"
proof (induction ws)
  case (Cons c ws)
  then have "c = butlast c @ [NUL]" by (cases c rule: rev_cases) auto
  then have c: "map show_blank c = cell_text c @ '' ''" unfolding cell_text_def
    by (metis (no_types) list.simps(8,9) map_append show_blank_def)
  show ?case
  proof (cases ws)
    case (Cons c' ws')
    with Cons.IH Cons.prems c show ?thesis by simp
  qed (use c in simp)
qed simp

lemma last_join: "ws \<noteq> [] \<Longrightarrow> last ws \<noteq> [] \<Longrightarrow> join d ws \<noteq> [] \<and> last (join d ws) = last (last ws)"
proof (induction ws rule: induct_list012)
  case (3 x y zs)
  then show ?case by auto
qed simp_all

definition week_ok :: "string list \<Rightarrow> bool" where
  "week_ok wk \<longleftrightarrow> wk \<noteq> [] \<and> length wk \<le> 7 \<and> list_all (\<lambda>c. length c = 3 \<and> last c = NUL) wk \<and>
     (\<exists>i. last wk = raw_cell i)"

lemma concat_len: "list_all (\<lambda>c. length c = n) ws \<Longrightarrow> length (concat ws) = n * length ws"
  by (induction ws) auto

lemma week_row: "week_ok wk \<Longrightarrow> row_ok 24 (pad_row wk) (join '' '' (map cell_text wk)) \<and> join '' '' (map cell_text wk) \<noteq> []"
proof -
  assume w: "week_ok wk"
  then have l: "list_all (\<lambda>c. length c = 3) wk" "list_all (\<lambda>c. c \<noteq> [] \<and> last c = NUL) wk" "length wk \<le> 7" "wk \<noteq> []"
    by (auto simp: week_ok_def list_all_iff)
  from w obtain i where i: "last wk = raw_cell i" by (auto simp: week_ok_def)
  have "cell_text (last wk) \<noteq> []" "last (cell_text (last wk)) \<noteq> CHR '' ''"
    using digit_shown [of "i mod 10"] by (simp_all add: i cell_text_def raw_cell_def)
  then have j: "join '' '' (map cell_text wk) \<noteq> []" "last (join '' '' (map cell_text wk)) \<noteq> CHR '' ''"
    using last_join [of "map cell_text wk"] l(4) by (simp_all add: last_map)
  have "show_blank NUL = CHR '' ''" by (simp add: show_blank_def)
  then have "map show_blank (pad_row wk) = join '' '' (map cell_text wk) @ blanks (Suc (24 - 3 * length wk))"
    using join_cells [OF l(4,2)] by (simp add: pad_row_def)
  moreover have "length (pad_row wk) = 24" using concat_len [OF l(1)] l(3) by (simp add: pad_row_def)
  ultimately show ?thesis using j unfolding row_ok_def by blast
qed

lemma chunks_map: "chunks n (map f xs) = map (map f) (chunks n xs)"
proof (induction n xs rule: chunks.induct)
  case (1 n xs)
  then show ?case by (subst (1 2) chunks.simps) (simp add: take_map drop_map)
qed

lemma length_chunks: "length xs \<le> n * k \<Longrightarrow> 0 < n \<Longrightarrow> length (chunks n xs) \<le> k"
proof (induction n xs arbitrary: k rule: chunks.induct)
  case (1 n xs)
  show ?case
  proof (cases "xs = []")
    case False
    with "1.prems" obtain k' where k: "k = Suc k'" by (cases k) auto
    with "1.IH" [of k'] "1.prems" False show ?thesis by (subst chunks.simps) auto
  qed (simp add: chunks.simps)
qed

lemma week_ok_cells:
  assumes "d + length is \<le> 7" "is \<noteq> []"
  shows "week_ok (replicate d empty_cell @ map raw_cell is)"
proof -
  have "last (replicate d empty_cell @ map raw_cell is) = raw_cell (last is)" using assms(2) by (simp add: last_map)
  then show ?thesis using assms unfolding week_ok_def
    by (auto simp: list_all_iff empty_cell_def raw_cell_def)
qed

lemma weeks_ok: "d < 7 \<Longrightarrow> is \<noteq> [] \<Longrightarrow> list_all week_ok (chunks 7 (replicate d empty_cell @ map raw_cell is))"
proof (induction "length is" arbitrary: d "is" rule: less_induct)
  case less
  show ?case
  proof (cases "d + length is \<le> 7")
    case True
    with less.prems week_ok_cells [OF True] show ?thesis by (simp add: chunks_short)
  next
    case False
    let ?a = "take (7 - d) is" and ?b = "drop (7 - d) is"
    have c: "replicate d empty_cell @ map raw_cell is = (replicate d empty_cell @ map raw_cell ?a) @ map raw_cell ?b"
      by (metis append_assoc append_take_drop_id map_append)
    have "length (replicate d empty_cell @ map raw_cell ?a) = 7" using False less.prems(1) by simp
    then have "chunks 7 (replicate d empty_cell @ map raw_cell is) = (replicate d empty_cell @ map raw_cell ?a) # chunks 7 (map raw_cell ?b)"
      unfolding c by (rule chunks_full) simp
    moreover have "list_all week_ok (chunks 7 (replicate 0 empty_cell @ map raw_cell ?b))"
      by (rule less.hyps) (use False less.prems in auto)
    moreover have "week_ok (replicate d empty_cell @ map raw_cell ?a)"
      by (rule week_ok_cells) (use False less.prems in auto)
    ultimately show ?thesis by simp
  qed
qed

lemma blank_row: "row_ok 24 (nuls 24) []"
proof -
  have "map show_blank (nuls 24) = [] @ blanks (Suc 23)" by (simp add: show_blank_def)
  then show ?thesis unfolding row_ok_def by (intro conjI disjI1 exI [of _ 23]) simp_all
qed

text \<open>Six rows hold the month, and they are printed as specified.\<close>

lemma month_rows:
  assumes "d < 7" "days \<noteq> []" "d + length days \<le> 42" "list_all (\<lambda>i. i < 100) days"
  shows "\<exists>buf. cal_days 24 days (3 * d) 0 d (nuls 432) = Some buf \<and>
    pstrs [0, 24, 48, 72, 96, 120] 24 buf = Some (concat (map (\<lambda>l. l @ [NL]) (week_lines d days)))"
proof -
  define cells where "cells = replicate d empty_cell @ map raw_cell days"
  define weeks where "weeks = chunks 7 cells"
  define rows where "rows = map pad_row weeks @ replicate (6 - length weeks) (nuls 24)"
  have wl: "length weeks \<le> 6" using length_chunks [of cells 7 6] assms(3) by (simp add: weeks_def cells_def)
  have wok: "list_all week_ok weeks" using weeks_ok [OF assms(1,2)] by (simp add: weeks_def cells_def)
  have wne: "weeks \<noteq> []" unfolding weeks_def by (subst chunks.simps) (simp add: cells_def assms(2))
  have texts: "map (map cell_text) weeks = chunks 7 (replicate d ''  '' @ map day_cell days)"
  proof -
    have "map cell_text cells = replicate d ''  '' @ map day_cell days"
      using assms(4) cell_text_raw by (auto simp: cells_def list_all_iff)
    then show ?thesis by (metis chunks_map weeks_def)
  qed
  have lines: "week_lines d days = map (\<lambda>wk. join '' '' (map cell_text wk)) weeks @ replicate (6 - length weeks) []"
  proof -
    have "map (join '' '') (chunks 7 (replicate d ''  '' @ map day_cell days)) = map (\<lambda>wk. join '' '' (map cell_text wk)) weeks"
      unfolding texts [symmetric] by simp
    then show ?thesis by (simp add: week_lines_def Let_def)
  qed
  have len: "length rows = 6" using wl by (simp add: rows_def)
  have ok: "list_all2 (row_ok 24) rows (week_lines d days)"
    unfolding rows_def lines
  proof (rule list_all2_appendI)
    show "list_all2 (row_ok 24) (map pad_row weeks) (map (\<lambda>wk. join '' '' (map cell_text wk)) weeks)"
      using wok week_row by (auto simp: list_all2_map1 list_all2_map2 list_all2_same list_all_iff)
    show "list_all2 (row_ok 24) (replicate (6 - length weeks) (nuls 24)) (replicate (6 - length weeks) [])"
      using blank_row by (simp add: list_all2_conv_all_nth)
  qed
  have lr: "length (concat rows) = 144"
  proof -
    have "list_all (\<lambda>r. length r = 24) rows"
      using ok by (auto simp: list_all_length list_all2_conv_all_nth row_ok_def)
    from concat_len [OF this] len show ?thesis by simp
  qed
  have hd: "hd (week_lines d days) \<noteq> []"
    using wne wok week_row unfolding lines by (cases weeks) auto
  from fill_rows [of "replicate d empty_cell" d days] assms(1) obtain k where
    k: "concat (map pad_row weeks) = nuls (3 * d) @ fill d days @ nuls k"
  proof -
    have "concat (replicate d empty_cell) = nuls (3 * d)"
      by (induction d) (simp_all add: empty_cell_def numeral_3_eq_3)
    moreover have "list_all (\<lambda>c. length c = 3) (replicate d empty_cell)" by (simp add: list_all_iff empty_cell_def)
    ultimately show thesis using fill_rows [of "replicate d empty_cell" d days] assms(1) that
      by (auto simp: weeks_def cells_def)
  qed
  have z: "concat (replicate n (nuls 24)) = nuls (24 * n)" for n
    by (induction n) (simp_all add: replicate_add [symmetric])
  have all: "concat rows = nuls (3 * d) @ fill d days @ nuls (k + 24 * (6 - length weeks))"
    unfolding rows_def by (simp add: k z replicate_add)
  then have fl: "3 * d + length (fill d days) + (k + 24 * (6 - length weeks)) = 144" using lr by simp
  have "cal_days 24 days (length (nuls (3 * d))) 0 d (nuls (3 * d) @ nuls (432 - 3 * d)) =
      Some (nuls (3 * d) @ fill d days @ nuls (432 - 3 * d - length (fill d days)))"
    by (rule cal_days_fill) (use assms(1) fl in auto)
  moreover have "nuls (3 * d) @ nuls (432 - 3 * d) = nuls 432" using assms(1) by (simp add: replicate_add [symmetric])
  moreover have "432 - 3 * d - length (fill d days) = (k + 24 * (6 - length weeks)) + 288" using fl by linarith
  ultimately have "cal_days 24 days (3 * d) 0 d (nuls 432) = Some (concat rows @ nuls 288)"
    by (simp add: all replicate_add)
  moreover have "pstrs [0, 24, 48, 72, 96, 120] 24 (concat rows @ nuls 288) = Some (concat (map (\<lambda>l. l @ [NL]) (week_lines d days)))"
  proof -
    have "map (\<lambda>k. length ([] :: string) + 24 * k) [0..<length rows] = [0, 24, 48, 72, 96, 120]"
      by (simp add: len upt_rec)
    with pstrs_rows [OF ok, of "[]" "nuls 288"] hd show ?thesis by simp
  qed
  ultimately show ?thesis by blast
qed

section \<open>The buffer is large enough\<close>

lemma back_scan_bound:
  "i \<le> s \<or> (\<exists>j < s. s - i \<le> j \<and> buf ! j \<noteq> CHR '' '') \<Longrightarrow> 0 < i \<Longrightarrow> 0 < s \<Longrightarrow>
     \<exists>s'. back_scan buf i s = Some s' \<and> s' < s \<and> (buf ! (s - 1) = CHR '' '' \<longrightarrow> 2 \<le> i \<longrightarrow> 2 \<le> s \<longrightarrow> s' < s - 1)"
proof (induction buf i s rule: back_scan.induct)
  case (3 buf i s)
  show ?case
  proof (cases "buf ! s = CHR '' ''")
    case b: True
    have h: "i \<le> s \<or> (\<exists>j < s. s - i \<le> j \<and> buf ! j \<noteq> CHR '' '')"
      using "3.prems"(1) b by (auto simp: less_Suc_eq)
    show ?thesis
    proof (cases "0 < i \<and> 0 < s")
      case True
      with "3.IH" [OF _ h] b show ?thesis by fastforce
    next
      case False
      with h b show ?thesis by (cases i; cases s) auto
    qed
  qed auto
qed simp_all

lemma pstr_ok:
  assumes "length buf = 432" "str + n \<le> 432" "2 \<le> n"
    and "str = 0 \<Longrightarrow> \<exists>j < n. buf ! j \<noteq> NUL \<and> buf ! j \<noteq> CHR '' ''" "str + n = 432 \<Longrightarrow> buf ! 431 = NUL"
  shows "\<exists>w buf'. pstr str n buf = Some (w, buf') \<and> length buf' = 432 \<and> (\<forall>j. str + n < j \<and> j < 432 \<longrightarrow> buf' ! j = buf ! j)"
proof -
  define b where "b = take str buf @ map (\<lambda>c. if c = NUL then CHR '' '' else c) (take n (drop str buf)) @ drop (str + n) buf"
  have len: "length b = 432" using assms(1,2) by (simp add: b_def)
  have nth: "b ! j = (if str \<le> j \<and> j < str + n \<and> buf ! j = NUL then CHR '' '' else buf ! j)" if "j < 432" for j
    using that assms(1,2) by (auto simp: b_def nth_append)
  have "n + 1 \<le> str + n \<or> (\<exists>j < str + n. str + n - (n + 1) \<le> j \<and> b ! j \<noteq> CHR '' '')"
  proof (cases "str = 0")
    case True
    with assms(4) obtain j where j: "j < n" "buf ! j \<noteq> NUL" "buf ! j \<noteq> CHR '' ''" by blast
    with nth [of j] True assms(2) show ?thesis by (intro disjI2 exI [of _ j]) simp
  qed simp
  from back_scan_bound [OF this] assms(3) obtain s where
    s: "back_scan b (n + 1) (str + n) = Some s" "s < str + n" "b ! (str + n - 1) = CHR '' '' \<longrightarrow> s < str + n - 1"
    by auto
  have "s + 1 < 432"
  proof (cases "str + n = 432")
    case True
    with assms(5) nth [of 431] assms(3) have "b ! 431 = CHR '' ''" by simp
    with True s(3) show ?thesis by simp
  qed (use s(2) assms(2) in simp)
  then have "pstr str n buf = Some (cstr (drop str (b[s + 1 := NUL])) @ [NL], b[s + 1 := NUL])"
    using s(1) len unfolding pstr_def b_def [symmetric] Let_def by (simp add: poke_def)
  moreover have "b[s + 1 := NUL] ! j = buf ! j" if "str + n < j" "j < 432" for j
    using that s(2) by (simp add: nth)
  ultimately show ?thesis using len by (intro exI [of _ "cstr (drop str (b[s + 1 := NUL])) @ [NL]"] exI [of _ "b[s + 1 := NUL]"]) simp
qed

lemma pstrs_ok:
  assumes "length buf = 432" "2 \<le> n" "os \<noteq> []" "\<And>k. k < length os \<Longrightarrow> os ! k = a + n * k" "a + n * length os \<le> 432"
    and "a = 0 \<Longrightarrow> \<exists>j < n. buf ! j \<noteq> NUL \<and> buf ! j \<noteq> CHR '' ''" "buf ! 431 = NUL"
  shows "\<exists>w. pstrs os n buf = Some w"
  using assms
proof (induction os arbitrary: a buf)
  case (Cons o1 os)
  have o1: "o1 = a" using Cons.prems(4) [of 0] by simp
  have n: "n * length (o1 # os) = n + n * length os" by simp
  from pstr_ok [of buf a n] Cons.prems(1,2,5-7) n obtain w buf' where
    p: "pstr a n buf = Some (w, buf')" "length buf' = 432" "\<And>j. a + n < j \<Longrightarrow> j < 432 \<Longrightarrow> buf' ! j = buf ! j"
    by (auto simp: n)
  show ?case
  proof (cases "os = []")
    case True
    with p o1 show ?thesis by simp
  next
    case False
    then have "n \<le> n * length os" by (cases os) auto
    then have "a + n < 431" using Cons.prems(2,5) unfolding n by linarith
    then have "buf' ! 431 = NUL" using p(3) Cons.prems(7) by simp
    moreover have "os ! k = a + n + n * k" if "k < length os" for k
      using Cons.prems(4) [of "Suc k"] that by (simp add: algebra_simps)
    ultimately have "\<exists>v. pstrs os n buf' = Some v"
      using Cons.prems(2,5) False p(2) by (intro Cons.IH [of buf' "a + n"]) (auto simp: n)
    with p(1) o1 show ?thesis by auto
  qed
qed simp

text \<open>Storing a month in a quarter's buffer: nothing behind it changes, and its first row is not blank.\<close>

lemma cal_ok:
  assumes "0 < y" "1 \<le> m" "m \<le> 12" "length buf = 432" "p + w * 5 + 21 \<le> 432" "21 \<le> w"
  shows "\<exists>buf' c. cal m (int y) p w buf = Some buf' \<and> length buf' = 432 \<and>
    (\<forall>j. j < p \<or> p + w * 5 + 21 \<le> j \<longrightarrow> buf' ! j = buf ! j) \<and>
    p < c \<and> c < p + 21 \<and> buf' ! c \<noteq> NUL \<and> buf' ! c \<noteq> CHR '' ''"
proof -
  let ?d = "first_weekday y m" and ?is = "month_days y m"
  have d: "?d < 7" by (simp add: first_weekday_def)
  have l: "19 \<le> length ?is" "length ?is \<le> 31" using length_month_days [OF assms(2,3)] by auto
  then have ne: "?is \<noteq> []" by auto
  from cal_days_ok [OF d refl, of ?is 5 p w buf] l(2) d assms(4-6) ne obtain buf' where
    b: "cal_days w ?is (p + 3 * ?d) p ?d buf = Some buf'" "length buf' = length buf"
      "\<And>j. j < p + 3 * ?d \<or> p + w * 5 + 21 \<le> j \<Longrightarrow> buf' ! j = buf ! j"
      "buf' ! (p + 3 * ?d + 1) = digit (hd ?is mod 10)" by auto
  moreover have "digit (hd ?is mod 10) \<noteq> NUL" "digit (hd ?is mod 10) \<noteq> CHR '' ''"
    using digit_shown [of "hd ?is mod 10"] by simp_all
  moreover have "p < p + 3 * ?d + 1" "p + 3 * ?d + 1 < p + 21" using d by simp_all
  ultimately show ?thesis using cal_eq [OF assms(1-3), of p w buf] assms(4)
    by (intro exI [of _ buf'] exI [of _ "p + 3 * ?d + 1"]) auto
qed

lemma cal_month_ok:
  assumes "0 < y" "1 \<le> m" "m \<le> 12"
  shows "\<exists>w. cal_month nm m (int y) = Some w"
proof -
  from cal_ok [OF assms, of "nuls 432" 0 24] obtain buf c where
    b: "cal m (int y) 0 24 (nuls 432) = Some buf" "length buf = 432" "\<And>j. 141 \<le> j \<Longrightarrow> buf ! j = nuls 432 ! j"
      "c < 21" "buf ! c \<noteq> NUL" "buf ! c \<noteq> CHR '' ''" by auto
  have o: "[0, 24, 48, 72, 96, 120] ! k = 0 + 24 * k" if "k < length [0, 24, 48, 72, 96, 120 :: nat]" for k
    using that by (auto simp: less_Suc_eq numeral_eq_Suc)
  have "\<exists>w. pstrs [0, 24, 48, 72, 96, 120] 24 buf = Some w"
    by (rule pstrs_ok [OF b(2) _ _ o]) (use b in \<open>auto intro!: exI [of _ c]\<close>)
  with b(1) show ?thesis by (auto simp: cal_month_def)
qed

lemma cal_quarter_ok:
  assumes "0 < y" "i \<le> 9"
  shows "\<exists>w. cal_quarter nm i (int y) = Some w"
proof -
  from cal_ok [of y "i + 1" "nuls 432" 0 72] assms obtain b1 c where
    b1: "cal (i + 1) (int y) 0 72 (nuls 432) = Some b1" "length b1 = 432" "\<And>j. 381 \<le> j \<Longrightarrow> b1 ! j = nuls 432 ! j"
      "c < 21" "b1 ! c \<noteq> NUL" "b1 ! c \<noteq> CHR '' ''" by auto
  from cal_ok [of y "i + 2" b1 23 72] assms b1(2) obtain b2 where
    b2: "cal (i + 2) (int y) 23 72 b1 = Some b2" "length b2 = 432" "\<And>j. j < 23 \<or> 404 \<le> j \<Longrightarrow> b2 ! j = b1 ! j" by auto
  from cal_ok [of y "i + 3" b2 46 72] assms b2(2) obtain b3 where
    b3: "cal (i + 3) (int y) 46 72 b2 = Some b3" "length b3 = 432" "\<And>j. j < 46 \<or> 427 \<le> j \<Longrightarrow> b3 ! j = b2 ! j" by auto
  have o: "[0, 72, 144, 216, 288, 360] ! k = 0 + 72 * k" if "k < length [0, 72, 144, 216, 288, 360 :: nat]" for k
    using that by (auto simp: less_Suc_eq numeral_eq_Suc)
  have "b3 ! c = b1 ! c" "b3 ! 431 = NUL" using b1(3,4) b2(3) b3(3) by simp_all
  then have "\<exists>w. pstrs [0, 72, 144, 216, 288, 360] 72 b3 = Some w"
    using b1(4-6) by (intro pstrs_ok [OF b3(2) _ _ o]) (auto intro!: exI [of _ c])
  with b1(1) b2(1) b3(1) show ?thesis by (auto simp: cal_quarter_def)
qed

lemma cal_year_ok: "0 < y \<Longrightarrow> \<exists>w. cal_year nm (int y) = Some w"
  using cal_quarter_ok [of y 0 nm] cal_quarter_ok [of y 3 nm] cal_quarter_ok [of y 6 nm] cal_quarter_ok [of y 9 nm]
  by (auto simp: cal_year_def)

section \<open>Properties\<close>

text \<open>Numbers given as arguments.\<close>

lemma number_loop_digits:
  "list_all is_digit ds \<Longrightarrow> number_loop ds (of_nat n) = sint (of_nat (foldl (\<lambda>n c. 10 * n + digit_val c) n ds) :: 32 word)"
proof (induction ds arbitrary: n)
  case (Cons c ds)
  then have d: "uchar c = 48 + int (digit_val c)" and r: "48 \<le> uchar c" "uchar c \<le> 57"
    by (simp_all add: is_digit_def digit_val_def)
  have "of_nat n * 10 + of_int (uchar c) - 48 = (of_nat (10 * n + digit_val c) :: 32 word)"
    unfolding d by (simp add: algebra_simps)
  moreover have "list_all is_digit ds" using Cons.prems by simp
  note Cons.IH [OF this, of "10 * n + digit_val c"]
  ultimately show ?case using r by (simp only: number_loop.simps foldl_Cons) auto
qed simp

lemma number_decimal: "n \<le> 9999 \<Longrightarrow> number (decimal n) = int n"
proof -
  assume n: "n \<le> 9999"
  have "list_all is_digit (decimal n)" using decimal_digits [of _ n] by (auto simp: list_all_iff)
  from number_loop_digits [OF this, of 0] have "number (decimal n) = sint (of_nat n :: 32 word)"
    using undecimal_decimal [of n] by (simp add: number_def undecimal_def)
  moreover have "sint (word_of_int (int n) :: 32 word) = int n"
    using n by (simp only: sint_sbintrunc') (simp add: signed_take_bit_int_eq_self)
  ultimately show ?thesis by simp
qed

lemma decimal_no_dashes: "decimal n \<noteq> ''--''"
proof
  assume "decimal n = ''--''"
  then have "is_digit (CHR ''-'')" using decimal_digits [of "CHR ''-''" n] by simp
  then show False by (simp add: is_digit_def uchar_def)
qed

text \<open>
  (C29) The calendar of a month.  For every month of the years 1 to 9999, \<open>cal\<close> prints the title, the
  names of the days and six lines, in which the days of the month stand below their weekdays; weekdays and lengths
  are those obtained by counting days from Saturday, 1 January of the year 1, with the Julian leap rule up to
  1752, eleven days left out in September 1752, and the Gregorian rule afterwards.
\<close>

theorem cal_month_correct:
  assumes "1 \<le> m" "m \<le> 12" "1 \<le> y" "y \<le> 9999"
  shows "cal_main nm today progname [decimal m, decimal y] =
    Some \<lparr>out = ''   '' @ smon nm ! (m - 1) @ '' '' @ decimal y @ [NL] @ dayw nm @ [NL] @
                 concat (map (\<lambda>l. l @ [NL]) (week_lines (first_weekday y m) (month_days y m))),
           err = [], status = 0\<rparr>"
proof -
  have y: "0 < y" using assms(3) by simp
  have l: "19 \<le> length (month_days y m)" "length (month_days y m) \<le> 31" using length_month_days [OF assms(1,2)] by auto
  have f: "first_weekday y m < 7" by (simp add: first_weekday_def)
  have "list_all (\<lambda>i. i < 100) (month_days y m)"
  proof (cases "y = 1752 \<and> m = 9")
    case False
    then have e: "month_days y m = [1..<Suc (length (month_days y m))]" using month_days_19 [OF assms(1,2)] by blast
    show ?thesis by (subst e) (use l(2) in \<open>auto simp: list_all_iff simp del: upt_Suc\<close>)
  qed (auto simp: month_days_def)
  moreover have "month_days y m \<noteq> []" "first_weekday y m + length (month_days y m) \<le> 42" using l f by auto
  ultimately obtain buf where
    b: "cal_days 24 (month_days y m) (3 * first_weekday y m) 0 (first_weekday y m) (nuls 432) = Some buf"
      "pstrs [0, 24, 48, 72, 96, 120] 24 buf =
        Some (concat (map (\<lambda>l. l @ [NL]) (week_lines (first_weekday y m) (month_days y m))))"
    using month_rows [OF f] by blast
  then have "cal_month nm m (int y) = Some (''   '' @ smon nm ! (m - 1) @ '' '' @ decimal y @ [NL] @ dayw nm @ [NL] @
      concat (map (\<lambda>l. l @ [NL]) (week_lines (first_weekday y m) (month_days y m))))"
    using cal_eq [OF y assms(1,2), of 0 24 "nuls 432"] by (simp add: cal_month_def)
  moreover have "number (decimal m) = int m" "number (decimal y) = int y" using assms number_decimal by auto
  ultimately show ?thesis using assms decimal_no_dashes [of m] by (simp add: cal_main_def Let_def)
qed

theorem cal_month_correct_witness:
  "cal_main cal_english (1, 1970) ''cal'' [decimal 9, decimal 1752] =
     Some \<lparr>out = ''   September '' @ decimal 1752 @ [NL] @ '' S  M Tu  W Th  F  S'' @ [NL] @
                  concat (map (\<lambda>l. l @ [NL]) (week_lines (first_weekday 1752 9) ([1, 2] @ [14..<31]))),
            err = [], status = 0\<rparr>"
proof -
  have "1 \<le> (9 :: nat)" "9 \<le> (12 :: nat)" "1 \<le> (1752 :: nat)" "1752 \<le> (9999 :: nat)" by simp_all
  note t = cal_month_correct [OF this, of cal_english "(1, 1970)" "''cal''"]
  have "month_days 1752 9 = [1, 2] @ [14..<31]" by (simp add: month_days_def)
  moreover have "smon cal_english ! (9 - 1) = ''September''" "dayw cal_english = '' S  M Tu  W Th  F  S''"
    by (simp_all add: cal_english_def)
  ultimately show ?thesis using t by (simp del: upt_Suc append.simps)
qed

text \<open>
  (C30) Memory safety.  Whatever the arguments are, no store of \<open>cal\<close> goes outside the array \<open>string\<close> of 432 bytes
  and no row is searched for blanks beyond the beginning of the array: neither when a month is printed nor when the three months
  of a quarter share the rows of the array.
\<close>

theorem cal_in_bounds:
  assumes "1 \<le> fst today" "fst today \<le> 12" "1 \<le> snd today"
  shows "\<exists>r. cal_main nm today progname args = Some r"
proof -
  have m: "\<exists>w. cal_month nm m y = Some w" if "1 \<le> m" "m \<le> 12" "1 \<le> y" for m y
    using cal_month_ok [of "nat y" m nm] that by simp
  have y: "\<exists>w. cal_year nm y = Some w" if "1 \<le> y" for y
    using cal_year_ok [of "nat y" nm] that by simp
  have n: "\<exists>w. cal_month nm (nat m) y = Some w" if "\<not> (m < 1 \<or> m > 12)" "\<not> (y < 1 \<or> y > 9999)" for m y
    using that by (intro m) auto
  define as where "as = (case args of a # as \<Rightarrow> if a = ''--'' then as else args | [] \<Rightarrow> [])"
  consider "as = []" | a where "as = [a]" | a b where "as = [a, b]" | a b c cs where "as = a # b # c # cs"
    by (metis neq_Nil_conv)
  then show ?thesis
  proof cases
    case 1
    with m [of "fst today" "snd today"] assms show ?thesis by (auto simp: cal_main_def as_def [symmetric])
  next
    case (2 a)
    with y [of "number a"] show ?thesis by (auto simp: cal_main_def as_def [symmetric] Let_def)
  next
    case (3 a b)
    with n [of "number a" "number b"] show ?thesis by (auto simp: cal_main_def as_def [symmetric] Let_def)
  next
    case (4 a b c cs)
    then show ?thesis by (auto simp: cal_main_def as_def [symmetric] Let_def)
  qed
qed

theorem cal_in_bounds_witness: "\<exists>r. cal_main cal_english (5, 2024) ''cal'' [''1999''] = Some r"
proof -
  have "1 \<le> fst (5 :: nat, 2024 :: int)" "fst (5 :: nat, 2024 :: int) \<le> 12" "1 \<le> snd (5 :: nat, 2024 :: int)" by simp_all
  from cal_in_bounds [OF this] show ?thesis .
qed

end
