(* ===== verification/Expand.thy ===== *)
theory Expand
  imports Iblok Stdio
begin

text \<open>
  \<open>expand/expand.c\<close>, \<open>expand/unexpand.c\<close> and the tab stops they share, \<open>expand/tablist.c\<close>.  \<open>mbm\<close> and \<open>mb\<close> are as in
  \<open>Iblok\<close>, \<open>wcw\<close> is \<open>wcwidth\<close> and \<open>strerror\<close> the text \<open>perror\<close> prints for a file that cannot be opened.  A
  column is a \<open>long long\<close> that does not overflow; \<open>tabstop\<close> is an \<open>int\<close>, to which a 64 bit number is
  cut down.  Two faults are possible, and a fault ends the model of a run: a division by a
  \<open>tabstop\<close> of zero, and a loop of \<open>spaces\<close> that does not end because \<open>tabstop\<close> is negative.
\<close>

section \<open>Tab stops\<close>

abbreviation LLONG_MAX :: int where "LLONG_MAX \<equiv> 9223372036854775807"

text \<open>\<open>strtoll\<close> in base 10: the number and the rest of the string, which is all of it if there is no number.\<close>

definition strtoll :: "string \<Rightarrow> int \<times> string" where
  "strtoll s =
     (let t = dropWhile (\<lambda>c. c = CHR '' '' \<or> 9 \<le> uchar c \<and> uchar c \<le> 13) s;
          neg = (t \<noteq> [] \<and> hd t = CHR ''-'');
          t = (if t \<noteq> [] \<and> (hd t = CHR ''-'' \<or> hd t = CHR ''+'') then tl t else t);
          ds = takeWhile is_digit t; n = int (undecimal ds)
      in if ds = [] then (0, s)
         else (if neg then max (- LLONG_MAX - 1) (- n) else min LLONG_MAX n, dropWhile is_digit t))"

lemma strtoll_shorter: "snd (strtoll s) \<noteq> s \<Longrightarrow> length (snd (strtoll s)) < length s"
proof -
  define t where "t = dropWhile (\<lambda>c. c = CHR '' '' \<or> 9 \<le> uchar c \<and> uchar c \<le> 13) s"
  define u where "u = (if t \<noteq> [] \<and> (hd t = CHR ''-'' \<or> hd t = CHR ''+'') then tl t else t)"
  assume a: "snd (strtoll s) \<noteq> s"
  then have d: "takeWhile is_digit u \<noteq> []" and e: "snd (strtoll s) = dropWhile is_digit u"
    by (auto simp: strtoll_def Let_def t_def [symmetric] u_def [symmetric] split: if_splits)
  have "length u = length (takeWhile is_digit u) + length (dropWhile is_digit u)"
    by (metis length_append takeWhile_dropWhile_id)
  moreover have "length u \<le> length t" "length t \<le> length s" by (simp_all add: u_def t_def length_dropWhile_le)
  moreover have "0 < length (takeWhile is_digit u)" using d by simp
  ultimately show ?thesis unfolding e by linarith
qed

text \<open>\<open>tablist\<close> is the list of the \<open>t_pos\<close>; \<open>None\<close> is the call of \<open>badts\<close>.\<close>

record tabs =
  tablist :: "int list"
  tabstop :: int

definition tabs_init :: tabs where
  "tabs_init = \<lparr>tablist = [], tabstop = 8\<rparr>"

definition addtab :: "int \<Rightarrow> int list \<Rightarrow> int list option" where
  "addtab n ts = (if ts \<noteq> [] \<and> last ts \<ge> n then None else Some (ts @ [n]))"

text \<open>The \<open>do\<close> loop of \<open>settab\<close> at \<open>x\<close>.\<close>

definition tab_sep :: "string \<Rightarrow> string" where
  "tab_sep x = (if x \<noteq> [] \<and> (hd x = CHR '','' \<or> hd x = CHR '' '' \<or> hd x = TAB) then tl x else x)"

lemma tab_sep_len: "length (tab_sep x) \<le> length x"
  by (simp add: tab_sep_def)

function settab_loop :: "string \<Rightarrow> int list \<Rightarrow> int list option" where
  "settab_loop x ts =
     (let x' = tab_sep x
      in case strtoll x' of
           (n, y) \<Rightarrow>
             if x' \<noteq> [] \<and> (hd x' = CHR ''+'' \<or> hd x' = CHR ''-'') \<or> x' = y then None
             else case addtab n ts of
                    None \<Rightarrow> None
                  | Some ts' \<Rightarrow> if y \<noteq> [] then settab_loop y ts' else Some ts')"
  by pat_completeness auto
termination
proof (relation "measure (\<lambda>(x, ts). length x)")
  fix x ts xa n y ts'
  assume "xa = tab_sep x" "(n, y) = strtoll xa" "\<not> (xa \<noteq> [] \<and> (hd xa = CHR ''+'' \<or> hd xa = CHR ''-'') \<or> xa = y)"
  then have "length y < length x"
    using strtoll_shorter [of xa] tab_sep_len [of x] by (metis dual_order.strict_trans1 snd_conv)
  then show "((y, ts'), x, ts) \<in> measure (\<lambda>(x, ts). length x)" by simp
qed simp

definition settab :: "string option \<Rightarrow> tabs option" where
  "settab s =
     (case s of
        None \<Rightarrow> None
      | Some s \<Rightarrow>
          if s = [] then None
          else case strtoll s of
                 (n, x) \<Rightarrow>
                   if n = 0 then None
                   else if x = [] \<and> hd s \<noteq> CHR ''+'' \<and> hd s \<noteq> CHR ''-''
                   then Some \<lparr>tablist = [], tabstop = sint (word_of_int n :: 32 word)\<rparr>
                   else case settab_loop x [n] of
                          None \<Rightarrow> None
                        | Some ts \<Rightarrow> Some \<lparr>tablist = ts, tabstop = 1\<rparr>)"

section \<open>expand\<close>

text \<open>\<open>e_tp\<close> is the list from \<open>tp\<close> on; \<open>e_fault\<close> stops everything.\<close>

record expst =
  e_col :: int
  e_tp :: "int list"
  e_out :: string
  e_fault :: bool

text \<open>\<open>while (col % tabstop) { putchar(' '); col++; }\<close>\<close>

function pad_loop :: "int \<Rightarrow> int \<Rightarrow> string \<times> int" where
  "pad_loop n col =
     (if n \<noteq> 0 \<and> col mod n \<noteq> 0 then (case pad_loop n (col + 1) of (w, c) \<Rightarrow> (CHR '' '' # w, c)) else ([], col))"
  by pat_completeness auto
termination
proof (relation "measure (\<lambda>(n, col). nat ((- col) mod \<bar>n\<bar>))")
  fix n col :: int
  assume a: "n \<noteq> 0 \<and> col mod n \<noteq> 0"
  then have n: "0 < \<bar>n\<bar>" by simp
  have "(- col) mod \<bar>n\<bar> \<noteq> 0" using a by (metis abs_dvd_iff dvd_minus_iff mod_0_imp_dvd dvd_imp_mod_0)
  then have p: "0 < (- col) mod \<bar>n\<bar>" using n by (simp add: order_less_le)
  have "(- (col + 1)) mod \<bar>n\<bar> = ((- col) mod \<bar>n\<bar> - 1) mod \<bar>n\<bar>" by (simp add: mod_diff_left_eq)
  also have "\<dots> = (- col) mod \<bar>n\<bar> - 1" using p pos_mod_bound [OF n, of "- col"] by (intro mod_pos_pos_trivial) linarith+
  finally show "((n, col + 1), n, col) \<in> measure (\<lambda>(n, col). nat ((- col) mod \<bar>n\<bar>))" using p by simp
qed simp

declare pad_loop.simps [simp del]

text \<open>The case of a tab: the spaces written, the new column and the new \<open>tp\<close>; nothing for the division by zero.\<close>

definition expand_tab :: "tabs \<Rightarrow> int \<Rightarrow> int list \<Rightarrow> (string \<times> int \<times> int list) option" where
  "expand_tab tb col tp =
     (let tp = dropWhile (\<lambda>p. col > p) tp;
          hit = (tp \<noteq> [] \<and> col = hd tp);
          w = (if hit then '' '' else []); col = (if hit then col + 1 else col); tp = (if hit then tl tp else tp)
      in if tp \<noteq> [] then
           Some (w @ replicate (nat (hd tp - col)) (CHR '' ''), max col (hd tp), tl tp)
         else if tabstop tb = 0 then None
         else
           (let z = (col mod tabstop tb = 0); w = (if z then w @ '' '' else w); col = (if z then col + 1 else col)
            in case pad_loop (tabstop tb) col of (v, col) \<Rightarrow> Some (w @ v, col, tp)))"

text \<open>The column behind a character other than newline, backspace and tab.\<close>

definition char_col :: "nat \<Rightarrow> (int \<Rightarrow> int) \<Rightarrow> int \<Rightarrow> int \<Rightarrow> int" where
  "char_col mbm wcw c col = (if mbm > 1 \<and> wcw c \<ge> 0 then col + wcw c else col + 1)"

definition expand_step :: "nat \<Rightarrow> (int \<Rightarrow> int) \<Rightarrow> tabs \<Rightarrow> string \<times> int \<Rightarrow> expst \<Rightarrow> expst" where
  "expand_step mbm wcw tb r s =
     (case r of (cp, c) \<Rightarrow>
        if e_fault s then s
        else if c = 9 then
          (case expand_tab tb (e_col s) (e_tp s) of
             None \<Rightarrow> s\<lparr>e_fault := True\<rparr>
           | Some (w, col, tp) \<Rightarrow> s\<lparr>e_col := col, e_tp := tp, e_out := e_out s @ w\<rparr>)
        else
          (let s = (if c = 10 then s\<lparr>e_col := 0, e_tp := tablist tb\<rparr>
                    else if c = 8 then (if e_col s > 0 then s\<lparr>e_col := e_col s - 1\<rparr> else s)
                    else s\<lparr>e_col := char_col mbm wcw c (e_col s)\<rparr>)
           in s\<lparr>e_out := e_out s @ cp\<rparr>))"

definition exp_init :: "tabs \<Rightarrow> expst" where
  "exp_init tb = \<lparr>e_col = 0, e_tp = tablist tb, e_out = [], e_fault = False\<rparr>"

text \<open>The loop over the input, which both programs have, in either locale.\<close>

definition ib_chars :: "nat \<Rightarrow> mbtowc \<Rightarrow> (string \<times> int \<Rightarrow> 's \<Rightarrow> 's) \<Rightarrow> iblok \<Rightarrow> 's \<Rightarrow> 's" where
  "ib_chars mbm mb f ip s =
     (if mbm > 1 then ib_while_getw mb f ip s else ib_while_get (\<lambda>b. f ([b], uchar b)) ip s)"

text \<open>A file: its output with the error message and status, or a fault with what was written before.\<close>

definition open_err :: "string \<Rightarrow> string \<Rightarrow> outcome" where
  "open_err strerror fn = \<lparr>out = [], err = fn @ '': '' @ strerror @ [NL], status = 1\<rparr>"

definition expand :: "nat \<Rightarrow> mbtowc \<Rightarrow> (int \<Rightarrow> int) \<Rightarrow> string \<Rightarrow> filesys \<Rightarrow> fdesc \<Rightarrow> tabs \<Rightarrow> string option \<Rightarrow>
    outcome \<times> bool" where
  "expand mbm mb wcw strerror fs stdin tb fn =
     (case (case fn of Some f \<Rightarrow> ib_open mbm fs f 0 | None \<Rightarrow> Some (ib_alloc mbm stdin 0)) of
        None \<Rightarrow> (open_err strerror (the fn), False)
      | Some ip \<Rightarrow>
          (let s = ib_chars mbm mb (expand_step mbm wcw tb) ip (exp_init tb)
           in (\<lparr>out = e_out s, err = [], status = 0\<rparr>, e_fault s)))"

text \<open>Files one after the other up to a fault, which is reported as a missing result.\<close>

fun tab_files :: "(string option \<Rightarrow> outcome \<times> bool) \<Rightarrow> string option list \<Rightarrow> outcome list option" where
  "tab_files f [] = Some []"
| "tab_files f (a # as) =
     (case f a of
        (r, fault) \<Rightarrow>
          if fault then None
          else (case tab_files f as of None \<Rightarrow> None | Some rs \<Rightarrow> Some (r # rs)))"

text \<open>The option loop of \<open>expand\<close>: \<open>None\<close> is \<open>badts\<close>.\<close>

fun expand_args :: "string list \<Rightarrow> tabs \<Rightarrow> (tabs \<times> string list) option" where
  "expand_args [] tb = Some (tb, [])"
| "expand_args (a # as) tb =
     (if a \<noteq> [] \<and> hd a = CHR ''-'' \<and> tl a \<noteq> [] then
        (if a = ''--'' then Some (tb, as)
         else if hd (tl a) = CHR ''t'' then
           (if tl (tl a) \<noteq> [] then
              (case settab (Some (tl (tl a))) of None \<Rightarrow> None | Some tb \<Rightarrow> expand_args as tb)
            else
              (case as of
                 [] \<Rightarrow> None
               | b # bs \<Rightarrow> (case settab (Some b) of None \<Rightarrow> None | Some tb \<Rightarrow> expand_args bs tb)))
         else (case settab (Some (tl a)) of None \<Rightarrow> None | Some tb \<Rightarrow> expand_args as tb))
      else Some (tb, a # as))"

definition badts :: outcome where
  "badts = \<lparr>out = [], err = ''Bad tab stop spec'' @ [NL], status = 2\<rparr>"

definition tab_run :: "(string option \<Rightarrow> outcome \<times> bool) \<Rightarrow> string list \<Rightarrow> outcome option" where
  "tab_run f opnds =
     (case tab_files f (if opnds = [] then [None] else map Some opnds) of
        None \<Rightarrow> None | Some rs \<Rightarrow> Some (run_all rs))"

definition expand_main :: "nat \<Rightarrow> mbtowc \<Rightarrow> (int \<Rightarrow> int) \<Rightarrow> string \<Rightarrow> filesys \<Rightarrow> fdesc \<Rightarrow> string list \<Rightarrow> outcome option" where
  "expand_main mbm mb wcw strerror fs stdin args =
     (case expand_args args tabs_init of
        None \<Rightarrow> Some badts
      | Some (tb, opnds) \<Rightarrow> tab_run (expand mbm mb wcw strerror fs stdin tb) opnds)"

section \<open>unexpand\<close>

record unexpst =
  u_col :: int
  u_spc :: int
  u_tp :: "int list"
  u_out :: string
  u_fault :: bool

text \<open>
  The loops of \<open>spaces\<close>: with a list of stops, and with stops at equal distances.  The second one does not
  end for a negative \<open>tabstop\<close>.
\<close>

fun sp_list :: "bool \<Rightarrow> int list \<Rightarrow> int \<Rightarrow> int \<Rightarrow> string \<Rightarrow> int \<times> int \<times> int list \<times> string" where
  "sp_list bol [] sp col w = (sp, col, [], w)"
| "sp_list bol (p # tp) sp col w =
     (if sp \<noteq> 0 \<and> col + sp \<ge> p
      then sp_list bol tp (sp - (p - col)) p (w @ (if sp = 1 \<and> \<not> bol then '' '' else [TAB]))
      else (sp, col, p # tp, w))"

definition rem_c :: "int \<Rightarrow> int \<Rightarrow> int" where
  "rem_c a b = sgn a * (\<bar>a\<bar> mod \<bar>b\<bar>)"

partial_function (option) sp_even :: "int \<Rightarrow> bool \<Rightarrow> int \<Rightarrow> int \<Rightarrow> string \<Rightarrow> (int \<times> int \<times> string) option" where
  "sp_even n bol sp col w =
     (let nsp = n - rem_c col n
      in if sp \<ge> nsp
         then sp_even n bol (sp - nsp) (col + nsp) (w @ (if sp = 1 \<and> \<not> bol then '' '' else [TAB]))
         else Some (sp, col, w))"

text \<open>\<open>spaces\<close>: the pending blanks are written and the column advanced.\<close>

definition spaces :: "tabs \<Rightarrow> unexpst \<Rightarrow> unexpst" where
  "spaces tb s =
     (let bol = (u_col s = 0);
          fin = (\<lambda>sp col tp w. s\<lparr>u_spc := 0, u_col := col + sp, u_tp := tp,
                                  u_out := u_out s @ w @ replicate (nat sp) (CHR '' '')\<rparr>)
      in if tablist tb \<noteq> [] then
           (case sp_list bol (dropWhile (\<lambda>p. p \<le> u_col s) (u_tp s)) (u_spc s) (u_col s) [] of
              (sp, col, tp, w) \<Rightarrow> fin sp col tp w)
         else if tabstop tb = 0 then s\<lparr>u_fault := True\<rparr>
         else (case sp_even (tabstop tb) bol (u_spc s) (u_col s) [] of
                 None \<Rightarrow> s\<lparr>u_fault := True\<rparr>
               | Some (sp, col, w) \<Rightarrow> fin sp col (u_tp s) w))"

text \<open>The column and \<open>tp\<close> behind a tab of the input, which is copied.\<close>

definition unexpand_tab :: "tabs \<Rightarrow> int \<Rightarrow> int list \<Rightarrow> (int \<times> int list) option" where
  "unexpand_tab tb col tp =
     (let tp = dropWhile (\<lambda>p. col > p) tp; hit = (tp \<noteq> [] \<and> col = hd tp);
          col = (if hit then col + 1 else col); tp = (if hit then tl tp else tp)
      in if tp \<noteq> [] then Some (max col (hd tp), tl tp)
         else if tablist tb = [] then
           (if tabstop tb = 0 then None
            else Some (snd (pad_loop (tabstop tb) (if col mod tabstop tb = 0 then col + 1 else col)), tp))
         else Some (col + 1, tp))"

definition collecting :: "bool \<Rightarrow> tabs \<Rightarrow> unexpst \<Rightarrow> bool" where
  "collecting aflag tb s \<longleftrightarrow> u_col s = 0 \<or> aflag \<or> tablist tb \<noteq> [] \<and> u_tp s \<noteq> []"

definition unexpand_step :: "nat \<Rightarrow> (int \<Rightarrow> int) \<Rightarrow> bool \<Rightarrow> tabs \<Rightarrow> string \<times> int \<Rightarrow> unexpst \<Rightarrow> unexpst" where
  "unexpand_step mbm wcw aflag tb r s =
     (case r of (cp, c) \<Rightarrow>
        if u_fault s then s
        else if c = 32 \<and> collecting aflag tb s then s\<lparr>u_spc := u_spc s + 1\<rparr>
        else
          (let s = (if u_spc s \<noteq> 0 \<and> collecting aflag tb s then spaces tb s else s);
               s = (if c = 10 then s\<lparr>u_col := 0, u_tp := tablist tb\<rparr>
                    else if c = 8 then (if u_col s > 0 then s\<lparr>u_col := u_col s - 1\<rparr> else s)
                    else if c = 9 then
                      (case unexpand_tab tb (u_col s) (u_tp s) of
                         None \<Rightarrow> s\<lparr>u_fault := True\<rparr>
                       | Some (col, tp) \<Rightarrow> s\<lparr>u_col := col, u_tp := tp\<rparr>)
                    else s\<lparr>u_col := char_col mbm wcw c (u_col s)\<rparr>)
           in if u_fault s then s else s\<lparr>u_out := u_out s @ cp\<rparr>))"

definition unexp_init :: "tabs \<Rightarrow> unexpst" where
  "unexp_init tb = \<lparr>u_col = 0, u_spc = 0, u_tp = tablist tb, u_out = [], u_fault = False\<rparr>"

definition unexpand :: "nat \<Rightarrow> mbtowc \<Rightarrow> (int \<Rightarrow> int) \<Rightarrow> string \<Rightarrow> filesys \<Rightarrow> fdesc \<Rightarrow> bool \<Rightarrow> tabs \<Rightarrow> string option \<Rightarrow>
    outcome \<times> bool" where
  "unexpand mbm mb wcw strerror fs stdin aflag tb fn =
     (case (case fn of Some f \<Rightarrow> ib_open mbm fs f 0 | None \<Rightarrow> Some (ib_alloc mbm stdin 0)) of
        None \<Rightarrow> (open_err strerror (the fn), False)
      | Some ip \<Rightarrow>
          (let s = ib_chars mbm mb (unexpand_step mbm wcw aflag tb) ip (unexp_init tb);
               s = (if \<not> u_fault s \<and> u_spc s \<noteq> 0 \<and> collecting aflag tb s then spaces tb s else s)
           in (\<lparr>out = u_out s, err = [], status = 0\<rparr>, u_fault s)))"

text \<open>
  The option loop.  \<open>unexpand_opt\<close> is the code from the label \<open>optc\<close> on, where \<open>a\<close> is \<open>&argv[i][1]\<close>; a message
  and its status end the program.
\<close>

fun unexpand_opt :: "string \<Rightarrow> string \<Rightarrow> string list \<Rightarrow> bool \<times> tabs \<Rightarrow> outcome + ((bool \<times> tabs) \<times> string list)" where
  "unexpand_opt usage [] as st = Inl \<lparr>out = [], err = usage, status = 2\<rparr>"
| "unexpand_opt usage (c # cs) as (aflag, tb) =
     (if c = CHR ''t'' then
        (if cs \<noteq> [] then
           (case settab (Some cs) of None \<Rightarrow> Inl badts | Some tb \<Rightarrow> Inr ((True, tb), as))
         else
           (case as of
              [] \<Rightarrow> Inl badts
            | b # bs \<Rightarrow> (case settab (Some b) of None \<Rightarrow> Inl badts | Some tb \<Rightarrow> Inr ((True, tb), bs))))
      else if c = CHR ''a'' then
        (if cs \<noteq> [] then unexpand_opt usage cs as (True, tb) else Inr ((True, tb), as))
      else if cs \<noteq> [] \<and> is_digit (hd cs) then
        (case settab (Some (c # cs)) of None \<Rightarrow> Inl badts | Some tb \<Rightarrow> Inr ((aflag, tb), as))
      else Inl \<lparr>out = [], err = usage, status = 2\<rparr>)"

lemma unexpand_opt_len: "unexpand_opt usage a as st = Inr (st', as') \<Longrightarrow> length as' \<le> length as"
  by (induction usage a as st rule: unexpand_opt.induct) (auto split: if_splits list.splits option.splits)

function unexpand_args :: "string \<Rightarrow> string list \<Rightarrow> bool \<times> tabs \<Rightarrow> outcome + ((bool \<times> tabs) \<times> string list)" where
  "unexpand_args usage [] st = Inr (st, [])"
| "unexpand_args usage (a # as) st =
     (if a \<noteq> [] \<and> hd a = CHR ''-'' \<and> tl a \<noteq> [] then
        (if a = ''--'' then Inr (st, as)
         else case unexpand_opt usage (tl a) as st of
                Inl r \<Rightarrow> Inl r
              | Inr (st', as') \<Rightarrow> unexpand_args usage as' st')
      else Inr (st, a # as))"
  by pat_completeness auto
termination
  by (relation "measure (\<lambda>(usage, as, st). length as)") (auto dest: unexpand_opt_len)

definition unexpand_main :: "nat \<Rightarrow> mbtowc \<Rightarrow> (int \<Rightarrow> int) \<Rightarrow> string \<Rightarrow> filesys \<Rightarrow> fdesc \<Rightarrow> string \<Rightarrow> string list \<Rightarrow>
    outcome option" where
  "unexpand_main mbm mb wcw strerror fs stdin progname args =
     (case unexpand_args (''usage: '' @ progname @ '' [ -a ] file ...'' @ [NL]) args (False, tabs_init) of
        Inl r \<Rightarrow> Some r
      | Inr ((aflag, tb), opnds) \<Rightarrow>
          tab_run (unexpand mbm mb wcw strerror fs stdin (aflag \<and> tablist tb = []) tb) opnds)"

section \<open>A reference for tabs at equal distances\<close>

text \<open>
  With stops at every \<open>n\<close> columns, in a locale of single bytes: the column behind a string, and the string
  with every tab replaced by the blanks up to the next multiple of \<open>n\<close>.
\<close>

definition next_col :: "int \<Rightarrow> int \<Rightarrow> char \<Rightarrow> int" where
  "next_col n col c =
     (if c = TAB then col + (n - col mod n) else if c = NL then 0
      else if c = CHR 0x08 then max 0 (col - 1) else col + 1)"

definition detab_char :: "int \<Rightarrow> int \<Rightarrow> char \<Rightarrow> string" where
  "detab_char n col c = (if c = TAB then replicate (nat (n - col mod n)) (CHR '' '') else [c])"

fun end_col :: "int \<Rightarrow> int \<Rightarrow> string \<Rightarrow> int" where
  "end_col n col [] = col"
| "end_col n col (c # s) = end_col n (next_col n col c) s"

fun detab :: "int \<Rightarrow> int \<Rightarrow> string \<Rightarrow> string" where
  "detab n col [] = []"
| "detab n col (c # s) = detab_char n col c @ detab n (next_col n col c) s"

lemma end_col_append [simp]: "end_col n col (a @ b) = end_col n (end_col n col a) b"
  by (induction a arbitrary: col) auto

lemma detab_append [simp]: "detab n col (a @ b) = detab n col a @ detab n (end_col n col a) b"
  by (induction a arbitrary: col) auto

lemma next_col_nonneg: "1 \<le> n \<Longrightarrow> 0 \<le> col \<Longrightarrow> 0 \<le> next_col n col c"
  using pos_mod_bound [of n col] unfolding next_col_def by (auto simp del: pos_mod_bound)

lemma blanks_detab [simp]: "detab n col (replicate k (CHR '' '')) = replicate k (CHR '' '')"
  by (induction k arbitrary: col) (simp_all add: detab_char_def)

lemma blanks_end_col [simp]: "end_col n col (replicate k (CHR '' '')) = col + int k"
  by (induction k arbitrary: col) (simp_all add: next_col_def)

lemma uchar_codes: "uchar c = 9 \<longleftrightarrow> c = TAB" "uchar c = 10 \<longleftrightarrow> c = NL" "uchar c = 8 \<longleftrightarrow> c = CHR 0x08"
  "uchar c = 32 \<longleftrightarrow> c = CHR '' ''"
proof -
  have "uchar TAB = 9" "uchar NL = 10" "uchar (CHR 0x08) = 8" "uchar (CHR '' '') = 32" by (simp_all add: uchar_def)
  then show "uchar c = 9 \<longleftrightarrow> c = TAB" "uchar c = 10 \<longleftrightarrow> c = NL" "uchar c = 8 \<longleftrightarrow> c = CHR 0x08"
    "uchar c = 32 \<longleftrightarrow> c = CHR '' ''" by (metis uchar_inj)+
qed

section \<open>expand refines the reference\<close>

lemma neg_mod_step:
  assumes "1 \<le> n" "col mod n \<noteq> 0"
  shows "(- col) mod n = 1 + (- (col + 1)) mod (n::int)"
proof -
  have n: "0 < n" using assms(1) by simp
  have "(- col) mod n \<noteq> 0" using assms(2) by (metis dvd_minus_iff mod_0_imp_dvd dvd_imp_mod_0)
  then have p: "0 < (- col) mod n" using n by (simp add: order_less_le)
  have "(- (col + 1)) mod n = ((- col) mod n - 1) mod n" by (simp add: mod_diff_left_eq)
  also have "\<dots> = (- col) mod n - 1" using p pos_mod_bound [OF n, of "- col"] by (intro mod_pos_pos_trivial) linarith+
  finally show ?thesis by simp
qed

lemma pad_loop_eq:
  "1 \<le> n \<Longrightarrow> pad_loop n col = (replicate (nat ((- col) mod n)) (CHR '' ''), col + (- col) mod n)"
proof (induction n col rule: pad_loop.induct)
  case (1 n col)
  show ?case
  proof (cases "col mod n = 0")
    case True
    then have "(- col) mod n = 0" by (metis dvd_minus_iff mod_0_imp_dvd dvd_imp_mod_0)
    with True show ?thesis by (simp add: pad_loop.simps [of n col])
  next
    case False
    have "0 \<le> (- (col + 1)) mod n" using 1(2) by simp
    with neg_mod_step [OF 1(2) False] 1(1) [OF _ 1(2)] False 1(2) show ?thesis
      by (simp add: pad_loop.simps [of n col] nat_add_distrib)
  qed
qed

text \<open>One tab: at a stop a blank and the blanks to the next one, elsewhere the blanks to the next one.\<close>

lemma to_stop:
  assumes "1 \<le> (n::int)"
  shows "(if col mod n = 0 then 1 + (- (col + 1)) mod n else (- col) mod n) = n - col mod n"
proof (cases "col mod n = 0")
  case True
  have "(- (col + 1)) mod n = (- (col mod n) - 1) mod n" by (metis minus_add_distrib mod_diff_left_eq mod_minus_eq uminus_add_conv_diff add.commute)
  then show ?thesis using True assms by (simp add: zmod_minus1)
next
  case False
  then show ?thesis by (simp add: zmod_zminus1_eq_if)
qed

lemma expand_tab_even:
  assumes n: "1 \<le> n"
  shows "expand_tab \<lparr>tablist = [], tabstop = n\<rparr> col [] =
    Some (replicate (nat (n - col mod n)) (CHR '' ''), col + (n - col mod n), [])"
proof -
  have p: "0 \<le> (- (col + 1)) mod n" using n by simp
  have r: "CHR '' '' # replicate (nat k) (CHR '' '') = replicate (nat (1 + k)) (CHR '' '')" if "0 \<le> k" for k :: int
    using that by (simp add: nat_add_distrib)
  show ?thesis
  proof (cases "col mod n = 0")
    case True
    then show ?thesis using n to_stop [OF n, of col] r [OF p]
      by (simp add: expand_tab_def pad_loop_eq Let_def del: minus_add_distrib)
  next
    case False
    then show ?thesis using n to_stop [OF n, of col] by (simp add: expand_tab_def pad_loop_eq)
  qed
qed

lemma unexpand_tab_even:
  assumes n: "1 \<le> n"
  shows "unexpand_tab \<lparr>tablist = [], tabstop = n\<rparr> col [] = Some (col + (n - col mod n), [])"
  using n to_stop [OF n, of col] by (auto simp: unexpand_tab_def Let_def pad_loop_eq split: if_splits)

lemma expand_step_even:
  assumes "1 \<le> n" "mbm \<le> 1" "0 \<le> col"
  shows "expand_step mbm wcw \<lparr>tablist = [], tabstop = n\<rparr> ([c], uchar c) \<lparr>e_col = col, e_tp = [], e_out = w, e_fault = False\<rparr> =
    \<lparr>e_col = next_col n col c, e_tp = [], e_out = w @ detab_char n col c, e_fault = False\<rparr>"
  using assms expand_tab_even [OF assms(1), of col]
  by (auto simp: expand_step_def uchar_codes next_col_def detab_char_def char_col_def Let_def)

lemma expand_fold:
  assumes "1 \<le> n" "mbm \<le> 1"
  shows "0 \<le> col \<Longrightarrow>
    fold (\<lambda>b. expand_step mbm wcw \<lparr>tablist = [], tabstop = n\<rparr> ([b], uchar b)) s
      \<lparr>e_col = col, e_tp = [], e_out = w, e_fault = False\<rparr> =
    \<lparr>e_col = end_col n col s, e_tp = [], e_out = w @ detab n col s, e_fault = False\<rparr>"
  by (induction s arbitrary: col w) (simp_all add: expand_step_even [OF assms] next_col_nonneg [OF assms(1)])

lemma expand_even:
  assumes "1 \<le> n" "mbm \<le> 1" "fd_good stdin"
  shows "expand mbm mb wcw strerror fs stdin \<lparr>tablist = [], tabstop = n\<rparr> None =
    (\<lparr>out = detab n 0 (fd_rest stdin), err = [], status = 0\<rparr>, False)"
  using assms(2,3) expand_fold [OF assms(1,2), of 0 wcw "fd_rest stdin" "[]"]
  by (simp add: expand_def ib_chars_def exp_init_def ibc.loop_fold Let_def)

section \<open>unexpand keeps the text that expand makes\<close>

lemma rem_c_pos: "1 \<le> n \<Longrightarrow> 0 \<le> col \<Longrightarrow> rem_c col n = col mod n"
  by (simp add: rem_c_def sgn_if)

text \<open>The loop of \<open>spaces\<close> ends, and what it writes stands for the blanks it takes.\<close>

lemma sp_even_ok:
  assumes n: "1 \<le> n"
  shows "0 \<le> sp \<Longrightarrow> 0 \<le> col \<Longrightarrow>
    \<exists>sp' col' v. sp_even n bol sp col w = Some (sp', col', w @ v) \<and> 0 \<le> sp' \<and> 0 \<le> col' \<and>
      end_col n col v = col' \<and> detab n col v @ replicate (nat sp') (CHR '' '') = replicate (nat sp) (CHR '' '') \<and>
      col' + sp' = col + sp"
proof (induction "nat sp" arbitrary: sp col w rule: less_induct)
  case less
  define k where "k = n - col mod n"
  have k: "1 \<le> k" using n pos_mod_bound [of n col] unfolding k_def by linarith
  have r: "rem_c col n = col mod n" using less.prems n by (simp add: rem_c_pos)
  show ?case
  proof (cases "k \<le> sp")
    case False
    then show ?thesis using less.prems r by (auto simp: sp_even.simps [of n bol sp] k_def intro!: exI [of _ "[]"])
  next
    case True
    define c where "c = (if sp = 1 \<and> \<not> bol then CHR '' '' else TAB)"
    have c: "next_col n col c = col + k" "detab_char n col c = replicate (nat k) (CHR '' '')"
      using True k by (auto simp: c_def next_col_def detab_char_def k_def)
    have "nat (sp - k) < nat sp" "0 \<le> sp - k" "0 \<le> col + k" using True k less.prems by auto
    from less.hyps [OF this, of "w @ [c]"] obtain sp' col' v where
      v: "sp_even n bol (sp - k) (col + k) (w @ [c]) = Some (sp', col', (w @ [c]) @ v)" "0 \<le> sp'" "0 \<le> col'"
        "end_col n (col + k) v = col'" "detab n (col + k) v @ replicate (nat sp') (CHR '' '') = replicate (nat (sp - k)) (CHR '' '')"
        "col' + sp' = col + k + (sp - k)" by blast
    have "sp_even n bol sp col w = sp_even n bol (sp - k) (col + k) (w @ [c])"
      using True r by (simp add: sp_even.simps [of n bol sp] k_def c_def Let_def)
    moreover have "replicate (nat sp) (CHR '' '') = replicate (nat k) (CHR '' '') @ replicate (nat (sp - k)) (CHR '' '')"
      using True k by (simp add: replicate_add [symmetric] nat_add_distrib [symmetric])
    ultimately show ?thesis
      using v c by (intro exI [of _ sp'] exI [of _ col'] exI [of _ "c # v"]) simp
  qed
qed

text \<open>What holds after the bytes \<open>p\<close> of the input: the output and the pending blanks stand for them.\<close>

definition unexp_inv :: "int \<Rightarrow> bool \<Rightarrow> string \<Rightarrow> unexpst \<Rightarrow> bool" where
  "unexp_inv n aflag p s \<longleftrightarrow>
     u_tp s = [] \<and> \<not> u_fault s \<and> 0 \<le> u_col s \<and> 0 \<le> u_spc s \<and> (u_spc s \<noteq> 0 \<longrightarrow> u_col s = 0 \<or> aflag) \<and>
     end_col n 0 (u_out s) = u_col s \<and> end_col n 0 p = u_col s + u_spc s \<and>
     detab n 0 (u_out s) @ replicate (nat (u_spc s)) (CHR '' '') = detab n 0 p"

lemma spaces_inv:
  assumes n: "1 \<le> n" and i: "unexp_inv n aflag p s"
  shows "unexp_inv n aflag p (spaces \<lparr>tablist = [], tabstop = n\<rparr> s) \<and>
    u_spc (spaces \<lparr>tablist = [], tabstop = n\<rparr> s) = 0"
proof -
  have "0 \<le> u_spc s" "0 \<le> u_col s" using i by (simp_all add: unexp_inv_def)
  from sp_even_ok [OF n this, of "u_col s = 0" "[]"] obtain sp col v where
    v: "sp_even n (u_col s = 0) (u_spc s) (u_col s) [] = Some (sp, col, v)" "0 \<le> sp" "0 \<le> col"
      "end_col n (u_col s) v = col"
      "detab n (u_col s) v @ replicate (nat sp) (CHR '' '') = replicate (nat (u_spc s)) (CHR '' '')"
      "col + sp = u_col s + u_spc s" by auto
  show ?thesis using i n v by (simp add: unexp_inv_def spaces_def Let_def)
qed

text \<open>The character that is copied when no blanks are pending, and one step.\<close>

lemma unexp_copy_inv:
  assumes "1 \<le> n" "unexp_inv n aflag p s" "u_spc s = 0"
  shows "unexp_inv n aflag (p @ [c]) (s\<lparr>u_col := next_col n (u_col s) c, u_out := u_out s @ [c]\<rparr>)"
  using assms next_col_nonneg [OF assms(1), of "u_col s" c] by (simp add: unexp_inv_def)

lemma unexpand_step_inv:
  assumes n: "1 \<le> n" and m: "mbm \<le> 1" and i: "unexp_inv n aflag p s"
  shows "unexp_inv n aflag (p @ [c]) (unexpand_step mbm wcw aflag \<lparr>tablist = [], tabstop = n\<rparr> ([c], uchar c) s)"
proof -
  let ?tb = "\<lparr>tablist = [], tabstop = n\<rparr>"
  have col: "collecting aflag ?tb t \<longleftrightarrow> u_col t = 0 \<or> aflag" for t by (auto simp: collecting_def)
  have f: "\<not> u_fault s" using i by (simp add: unexp_inv_def)
  show ?thesis
  proof (cases "c = CHR '' '' \<and> (u_col s = 0 \<or> aflag)")
    case True
    then have "unexpand_step mbm wcw aflag ?tb ([c], uchar c) s = s\<lparr>u_spc := u_spc s + 1\<rparr>"
      using f by (simp add: unexpand_step_def col uchar_codes)
    moreover have "replicate (nat (u_spc s + 1)) (CHR '' '') = replicate (nat (u_spc s)) (CHR '' '') @ '' ''"
      using i by (simp add: unexp_inv_def nat_add_distrib replicate_append_same)
    ultimately show ?thesis
      using i True by (simp add: unexp_inv_def next_col_def detab_char_def append_assoc [symmetric] del: append_assoc)
  next
    case False
    define t where "t = (if u_spc s \<noteq> 0 \<and> (u_col s = 0 \<or> aflag) then spaces ?tb s else s)"
    have t: "unexp_inv n aflag p t" "u_spc t = 0"
      using i spaces_inv [OF n i] by (auto simp: t_def unexp_inv_def)
    then have ft: "\<not> u_fault t" "u_tp t = []" by (simp_all add: unexp_inv_def)
    have "unexpand_step mbm wcw aflag ?tb ([c], uchar c) s =
        t\<lparr>u_col := next_col n (u_col t) c, u_out := u_out t @ [c]\<rparr>"
      using False f ft m unexpand_tab_even [OF n, of "u_col t"] t(1)
      by (auto simp add: unexpand_step_def col uchar_codes t_def [symmetric] next_col_def char_col_def Let_def unexp_inv_def)
    then show ?thesis using unexp_copy_inv [OF n t] by simp
  qed
qed

lemma unexpand_fold_inv:
  assumes "1 \<le> n" "mbm \<le> 1"
  shows "unexp_inv n aflag p s \<Longrightarrow> unexp_inv n aflag (p @ q)
    (fold (\<lambda>b. unexpand_step mbm wcw aflag \<lparr>tablist = [], tabstop = n\<rparr> ([b], uchar b)) q s)"
proof (induction q arbitrary: p s)
  case (Cons c q)
  from Cons.IH [OF unexpand_step_inv [OF assms Cons.prems, of c]] show ?case by simp
qed simp

lemma unexpand_even:
  assumes n: "1 \<le> n" and m: "mbm \<le> 1" and g: "fd_good stdin"
  obtains w where "unexpand mbm mb wcw strerror fs stdin aflag \<lparr>tablist = [], tabstop = n\<rparr> None =
      (\<lparr>out = w, err = [], status = 0\<rparr>, False)" "detab n 0 w = detab n 0 (fd_rest stdin)"
proof -
  let ?tb = "\<lparr>tablist = [], tabstop = n\<rparr>"
  define s where "s = ib_chars mbm mb (unexpand_step mbm wcw aflag ?tb) (ib_alloc mbm stdin 0) (unexp_init ?tb)"
  define t where "t = (if \<not> u_fault s \<and> u_spc s \<noteq> 0 \<and> collecting aflag ?tb s then spaces ?tb s else s)"
  have "unexp_inv n aflag [] (unexp_init ?tb)" by (simp add: unexp_inv_def unexp_init_def)
  from unexpand_fold_inv [OF n m this, of "fd_rest stdin"] m g have s: "unexp_inv n aflag (fd_rest stdin) s"
    by (simp add: s_def ib_chars_def ibc.loop_fold)
  have t: "unexp_inv n aflag (fd_rest stdin) t" "u_spc t = 0"
    using s spaces_inv [OF n s] by (auto simp: t_def unexp_inv_def collecting_def)
  have "unexpand mbm mb wcw strerror fs stdin aflag ?tb None = (\<lparr>out = u_out t, err = [], status = 0\<rparr>, u_fault t)"
    by (simp add: unexpand_def s_def [symmetric] t_def [symmetric] Let_def)
  with t that [of "u_out t"] show ?thesis by (simp add: unexp_inv_def)
qed

section \<open>Properties\<close>

text \<open>
  (C31) With stops at equal distances \<open>n\<close> (\<open>-n\<close> or \<open>-t n\<close>, by default 8) and single bytes, \<open>expand\<close> copies its
  input with every tab replaced by the blanks that lead to the next multiple of \<open>n\<close>, where a newline sets the
  column back to 0 and a backspace takes one off; it does not fail and the exit status is 0.
\<close>

theorem expand_replaces_tabs:
  assumes "1 \<le> n" and "mbm \<le> 1" and "fd_good stdin"
  shows "expand mbm mb wcw strerror fs stdin \<lparr>tablist = [], tabstop = n\<rparr> None =
    (\<lparr>out = detab n 0 (fd_rest stdin), err = [], status = 0\<rparr>, False)"
  by (rule expand_even [OF assms])

definition tab_sample :: string where
  "tab_sample = ''a'' @ [TAB] @ ''b    c'' @ [CHR 0x08, TAB, NL] @ ''      x'' @ [TAB]"

theorem expand_replaces_tabs_witness:
  "expand 1 (\<lambda>s. (0, 0)) (\<lambda>c. 1) '''' (\<lambda>f. None) (mk_fd tab_sample) \<lparr>tablist = [], tabstop = 4\<rparr> None =
    (\<lparr>out = ''a   b    c'' @ [CHR 0x08] @ ''   '' @ [NL] @ ''      x '', err = [], status = 0\<rparr>, False)"
proof -
  have d: "detab 4 0 tab_sample = ''a   b    c'' @ [CHR 0x08] @ ''   '' @ [NL] @ ''      x ''"
    by (simp add: tab_sample_def next_col_def detab_char_def eval_nat_numeral)
  show ?thesis
    using expand_replaces_tabs [of 4 1 "mk_fd tab_sample" "\<lambda>s. (0, 0)" "\<lambda>c. 1" "''''" "\<lambda>f. None"] by (simp add: d)
qed

text \<open>
  (C32) With stops at equal distances \<open>n\<close>, at least 1 and not given as a list, and characters of one byte, on a standard
  input that can be read, \<open>unexpand\<close>, with and without \<open>-a\<close>, changes only the way blanks are written: it ends without a fault,
  and \<open>expand\<close> with the same stops makes the same text of what \<open>unexpand\<close> wrote as of its input.
\<close>

theorem expand_unexpand:
  assumes "1 \<le> n" and "mbm \<le> 1" and "fd_good stdin"
    and "unexpand mbm mb wcw strerror fs stdin aflag \<lparr>tablist = [], tabstop = n\<rparr> None = (r, fault)"
  shows "\<not> fault \<and> status r = 0 \<and>
    expand mbm mb wcw strerror fs (mk_fd (out r)) \<lparr>tablist = [], tabstop = n\<rparr> None =
    expand mbm mb wcw strerror fs stdin \<lparr>tablist = [], tabstop = n\<rparr> None"
proof -
  obtain w where w: "unexpand mbm mb wcw strerror fs stdin aflag \<lparr>tablist = [], tabstop = n\<rparr> None =
      (\<lparr>out = w, err = [], status = 0\<rparr>, False)" "detab n 0 w = detab n 0 (fd_rest stdin)"
    by (rule unexpand_even [OF assms(1-3)])
  then have "r = \<lparr>out = w, err = [], status = 0\<rparr>" "\<not> fault" using assms(4) by simp_all
  with w(2) assms(3) show ?thesis by (simp add: expand_even [OF assms(1,2)])
qed

theorem expand_unexpand_witness:
  "unexpand 1 (\<lambda>s. (0, 0)) (\<lambda>c. 1) '''' (\<lambda>f. None) (mk_fd ''      x    y'') True \<lparr>tablist = [], tabstop = 4\<rparr> None =
    (\<lparr>out = [TAB] @ ''  x'' @ [TAB] @ ''   y'', err = [], status = 0\<rparr>, False) \<and>
   expand 1 (\<lambda>s. (0, 0)) (\<lambda>c. 1) '''' (\<lambda>f. None) (mk_fd ([TAB] @ ''  x'' @ [TAB] @ ''   y'')) \<lparr>tablist = [], tabstop = 4\<rparr> None =
   expand 1 (\<lambda>s. (0, 0)) (\<lambda>c. 1) '''' (\<lambda>f. None) (mk_fd ''      x    y'') \<lparr>tablist = [], tabstop = 4\<rparr> None"
proof -
  have s: "sp_even 4 True 6 0 [] = Some (2, 4, [TAB])" "sp_even 4 False 4 7 [] = Some (3, 8, [TAB])"
    by (simp_all add: sp_even.simps rem_c_def)
  have u: "unexpand 1 (\<lambda>s. (0, 0)) (\<lambda>c. 1) '''' (\<lambda>f. None) (mk_fd ''      x    y'') True \<lparr>tablist = [], tabstop = 4\<rparr> None =
    (\<lparr>out = [TAB] @ ''  x'' @ [TAB] @ ''   y'', err = [], status = 0\<rparr>, False)"
    by (simp add: unexpand_def ib_chars_def ibc.loop_fold unexpand_step_def uchar_def unexp_init_def collecting_def
        spaces_def s char_col_def Let_def eval_nat_numeral)
  from u expand_unexpand [OF _ _ _ u] show ?thesis by simp
qed

text \<open>
  With a list of stops this does not hold: \<open>expand\<close> writes two blanks for a tab that stands in the
  column of the last stop, but one if the column was reached by a tab.
\<close>

lemma expand_last_stop:
  defines "tb \<equiv> \<lparr>tablist = [4, 8], tabstop = 1\<rparr>"
  shows "unexpand 1 mb wcw strerror fs (mk_fd (''        '' @ [TAB] @ ''x'')) False tb None =
      (\<lparr>out = [TAB, TAB, TAB] @ ''x'', err = [], status = 0\<rparr>, False)"
    and "expand 1 mb wcw strerror fs (mk_fd (''        '' @ [TAB] @ ''x'')) tb None =
      (\<lparr>out = ''          x'', err = [], status = 0\<rparr>, False)"
    and "expand 1 mb wcw strerror fs (mk_fd ([TAB, TAB, TAB] @ ''x'')) tb None =
      (\<lparr>out = ''         x'', err = [], status = 0\<rparr>, False)"
  by (simp_all add: tb_def unexpand_def expand_def ib_chars_def ibc.loop_fold unexpand_step_def expand_step_def uchar_def
      unexp_init_def exp_init_def collecting_def spaces_def char_col_def expand_tab_def unexpand_tab_def
      pad_loop.simps Let_def eval_nat_numeral)

end
