(* ===== verification/Wc.thy ===== *)
theory Wc
  imports Iblok Getopt Stdio
begin

text \<open>
  \<open>wc/wc.c\<close>: lines, words, bytes and characters of files.  The program is compiled three times.  \<open>mbm\<close> and \<open>mb\<close>
  are as in \<open>Iblok\<close>; the character classes of the locale are the parameter \<open>ct\<close>.  The counters are \<open>long long\<close>s that
  do not overflow.  The result is \<open>None\<close> where the program does not end: \<open>mbwc\<close> repeats forever
  if \<open>mbtowc\<close> returns 0 for a byte that is not ASCII.
\<close>

datatype wc_variant = WC | WC_SUS | WC_S42

record ctypes =
  is_space :: "int \<Rightarrow> bool"
  is_blank :: "int \<Rightarrow> bool"
  is_graph :: "int \<Rightarrow> bool"
  isw_space :: "int \<Rightarrow> bool"
  isw_blank :: "int \<Rightarrow> bool"
  isw_graph :: "int \<Rightarrow> bool"

record wccounts =
  bytec :: int
  charc :: int
  wordc :: int
  linec :: int

record wcst = wccounts +
  hadspace :: int

section \<open>Counting\<close>

text \<open>
  The macro \<open>COUNT\<close> for a single byte and the same code for a wide character (\<open>wide\<close>), which differ in the
  functions that classify.
\<close>

definition wc_space :: "ctypes \<Rightarrow> bool \<Rightarrow> int \<Rightarrow> bool" where
  "wc_space ct wide c = (if wide then isw_space ct c else is_space ct c)"

definition wc_blank :: "ctypes \<Rightarrow> bool \<Rightarrow> int \<Rightarrow> bool" where
  "wc_blank ct wide c = (if wide then isw_blank ct c else is_blank ct c)"

definition wc_graph :: "ctypes \<Rightarrow> bool \<Rightarrow> int \<Rightarrow> bool" where
  "wc_graph ct wide c = (if wide then isw_graph ct c else is_graph ct c)"

definition wc_COUNT :: "wc_variant \<Rightarrow> ctypes \<Rightarrow> bool \<times> int \<Rightarrow> wcst \<Rightarrow> wcst" where
  "wc_COUNT var ct x st =
     (case x of (wide, c) \<Rightarrow>
        if var = WC_SUS then
          (if wc_space ct wide c then
             (let st = (if c = 10 then st\<lparr>linec := linec st + 1\<rparr> else st) in st\<lparr>hadspace := hadspace st + 1\<rparr>)
           else if hadspace st \<noteq> 0 then st\<lparr>hadspace := 0, wordc := wordc st + 1\<rparr> else st)
        else
          (if c = 10 then st\<lparr>linec := linec st + 1, hadspace := hadspace st + 1\<rparr>
           else if wc_blank ct wide c then st\<lparr>hadspace := hadspace st + 1\<rparr>
           else if hadspace st \<noteq> 0 \<and> wc_graph ct wide c then st\<lparr>hadspace := 0, wordc := wordc st + 1\<rparr> else st))"

text \<open>A single-byte locale: block by block.  \<open>ib_cur\<close> is set back to the first byte of the block.\<close>

lemma ib_read_fd_size:
  assumes "ib_read ip = (c, ip')" "c \<noteq> eof"
  shows "fd_size (ib_fd ip') < fd_size (ib_fd ip)"
proof (cases ip rule: ib_read_cases)
  case (data b bs fd')
  from ib_read_loop_ok(6) [OF data(1) ib_read_loop_pos [OF data(1)]] data(2) assms show ?thesis by auto
qed (use assms in auto)

function sbwc_loop :: "wc_variant \<Rightarrow> ctypes \<Rightarrow> iblok \<Rightarrow> wcst \<Rightarrow> wcst" where
  "sbwc_loop var ct ip st =
     (case ib_read ip of
        (c, ip') \<Rightarrow>
          if c = eof then st
          else
            (let ip' = ip'\<lparr>ib_cur := ib_cur ip' - 1\<rparr>; buf = drop (ib_cur ip') (ib_blk ip')
             in sbwc_loop var ct ip'
                  (fold (\<lambda>b. wc_COUNT var ct (False, uchar b)) buf (st\<lparr>charc := charc st + int (length buf)\<rparr>))))"
  by pat_completeness auto
termination
  by (relation "measure (\<lambda>(var, ct, ip, st). fd_size (ib_fd ip))") (auto dest!: ib_read_fd_size [OF sym])

declare sbwc_loop.simps [simp del]

definition wc_zero :: wccounts where
  "wc_zero = \<lparr>bytec = 0, charc = 0, wordc = 0, linec = 0\<rparr>"

definition wc_init :: wcst where
  "wc_init = wccounts.extend wc_zero (wcst.fields 1)"

definition sbwc :: "wc_variant \<Rightarrow> ctypes \<Rightarrow> iblok \<Rightarrow> wccounts" where
  "sbwc var ct ip = (let st = sbwc_loop var ct ip wc_init in wccounts.truncate (st\<lparr>bytec := charc st\<rparr>))"

text \<open>
  A multibyte locale.  \<open>mbwc_fill\<close> is the \<open>while\<close> loop that completes the bytes in \<open>mb\<close>; it also says whether
  the end of the file was met.  \<open>mbwc_buf\<close> is the \<open>for\<close> loop, applied to the bytes from \<open>curp[i]\<close> on.
\<close>

function mbwc_fill :: "nat \<Rightarrow> string \<Rightarrow> iblok \<Rightarrow> bool \<Rightarrow> string \<times> iblok \<times> bool" where
  "mbwc_fill mbm buf ip ef =
     (if \<not> ef \<and> length buf < mbm then
        (case ib_get ip of
           (c, ip') \<Rightarrow>
             if c \<noteq> eof then mbwc_fill mbm (buf @ [to_char c]) ip' ef else mbwc_fill mbm buf ip' True)
      else (buf, ip, ef))"
  by pat_completeness auto
termination
  by (relation "measures [\<lambda>(mbm, buf, ip, ef). if ef then 0 else 1, \<lambda>(mbm, buf, ip, ef). mbm - length buf]") auto

declare mbwc_fill.simps [simp del]

lemma ib_get_size_le: "ib_get ip = (c, ip') \<Longrightarrow> ib_size ip' \<le> ib_size ip"
proof -
  assume g: "ib_get ip = (c, ip')"
  show ?thesis
  proof (cases ip rule: ib_read_cases)
    case (data b bs fd')
    then show ?thesis using g ib_get_size [OF g] ib_read_size(1) [OF data(2)]
      by (auto simp: ib_get_def ib_size_def split: if_splits)
  next
    case (eof fd')
    have "fd_size fd' \<le> fd_size (ib_fd ip)"
    proof -
      obtain fd1 where f: "fd_retry (ib_fd ip) fd1" "sys_read (ib_blksize ip) fd1 = (ROk [], fd')"
        using ib_read_loop_last [of "ib_fd ip" "ib_blksize ip"] eof(1) by auto
      then show ?thesis using sys_read_size [OF f(2)] fd_retry_size [OF f(1)] by simp
    qed
    with eof g show ?thesis by (auto simp: ib_get_def ib_size_def split: if_splits)
  next
    case (fail e fd')
    with ib_read_loop_fail(2) [OF fail(1)] g show ?thesis by (auto simp: ib_get_def ib_size_def split: if_splits)
  qed
qed

lemma mbwc_fill_size:
  "mbwc_fill mbm buf ip ef = (buf', ip', ef') \<Longrightarrow>
     ib_size ip' + length buf' \<le> ib_size ip + length buf \<and> length buf \<le> length buf'"
proof (induction mbm buf ip ef rule: mbwc_fill.induct)
  case (1 mbm buf ip ef)
  show ?case
  proof (cases "\<not> ef \<and> length buf < mbm")
    case False
    with "1.prems" show ?thesis by (simp add: mbwc_fill.simps [of mbm buf ip])
  next
    case True
    obtain c ip1 where g: "ib_get ip = (c, ip1)" by fastforce
    show ?thesis
    proof (cases "c = eof")
      case eof: True
      with True g "1.prems" have "mbwc_fill mbm buf ip1 True = (buf', ip', ef')" by (simp add: mbwc_fill.simps [of mbm buf ip])
      from "1.IH"(2) [OF True g [symmetric] _ this] eof ib_get_size_le [OF g] show ?thesis by simp
    next
      case False
      with True g "1.prems" have "mbwc_fill mbm (buf @ [to_char c]) ip1 ef = (buf', ip', ef')"
        by (simp add: mbwc_fill.simps [of mbm buf ip])
      from "1.IH"(1) [OF True g [symmetric] False this] ib_get_size [OF g False] show ?thesis by simp
    qed
  qed
qed

definition mbwc_more :: "nat \<Rightarrow> string \<Rightarrow> iblok \<Rightarrow> bool \<Rightarrow> string \<times> iblok \<times> bool" where
  "mbwc_more mbm buf ip ef = (if length buf < mbm then mbwc_fill mbm buf ip ef else (buf, ip, ef))"

lemma mbwc_more_size:
  "mbwc_more mbm buf ip ef = (buf', ip', ef') \<Longrightarrow>
     ib_size ip' + length buf' \<le> ib_size ip + length buf \<and> length buf \<le> length buf'"
  by (auto simp: mbwc_more_def dest: mbwc_fill_size split: if_splits)

function mbwc_buf :: "wc_variant \<Rightarrow> ctypes \<Rightarrow> nat \<Rightarrow> mbtowc \<Rightarrow> string \<Rightarrow> iblok \<Rightarrow> bool \<Rightarrow> wcst \<Rightarrow> (iblok \<times> bool \<times> wcst) option" where
  "mbwc_buf var ct mbm mb [] ip ef st = Some (ip, ef, st)"
| "mbwc_buf var ct mbm mb (b # bs) ip ef st =
     (if uchar b \<ge> 128 then
        (case mbwc_more mbm (b # bs) ip ef of
           (buf, ip', ef') \<Rightarrow>
             (let k = int (length buf - length (b # bs)); st = st\<lparr>bytec := bytec st + k, charc := charc st + k\<rparr>
              in case mb buf of
                   (n, c) \<Rightarrow>
                     if n < 0 then mbwc_buf var ct mbm mb (drop 1 buf) ip' ef' (st\<lparr>charc := charc st - 1\<rparr>)
                     else if n = 0 then None
                     else mbwc_buf var ct mbm mb (drop (nat n) buf) ip' ef'
                            (wc_COUNT var ct (True, c) (st\<lparr>charc := charc st - (n - 1)\<rparr>))))
      else mbwc_buf var ct mbm mb bs ip ef (wc_COUNT var ct (False, uchar b) st))"
  by pat_completeness auto
termination
proof (relation "measure (\<lambda>(var, ct, mbm, mb, buf, ip, ef, st). ib_size ip + length buf)", goal_cases)
  case (2 var ct mbm mb b bs ip ef st buf y ip' ef' k st' n c)
  with mbwc_more_size [of mbm "b # bs" ip ef buf ip' ef'] show ?case by auto
next
  case (3 var ct mbm mb b bs ip ef st buf y ip' ef' k st' n c)
  with mbwc_more_size [of mbm "b # bs" ip ef buf ip' ef'] show ?case by auto
qed auto

declare mbwc_buf.simps(2) [simp del]

lemma mbwc_buf_size:
  "mbwc_buf var ct mbm mb buf ip ef st = Some (ip', ef', st') \<Longrightarrow> ib_size ip' \<le> ib_size ip"
proof (induction var ct mbm mb buf ip ef st rule: mbwc_buf.induct)
  case (2 var ct mbm mb b bs ip ef st)
  obtain buf ip1 ef1 where m: "mbwc_more mbm (b # bs) ip ef = (buf, ip1, ef1)" by (metis prod_cases3)
  obtain n c where c: "mb buf = (n, c)" by fastforce
  note s = mbwc_more_size [OF m]
  show ?case
  proof (cases "uchar b \<ge> 128")
    case False
    with 2(3) [OF False] 2(4) show ?thesis by (simp add: mbwc_buf.simps)
  next
    case True
    note h = 2(1,2) [OF True m [symmetric] refl refl refl c [symmetric]]
    show ?thesis
      using h(1) h(2) 2(4) True s by (auto simp: mbwc_buf.simps m c Let_def split: if_splits)
  qed
qed simp

text \<open>The outer loop; \<open>mbwc_block\<close> is what remains of the block or else the next one.  \<open>ib_cur\<close> never exceeds \<open>ib_end\<close>.\<close>

definition mbwc_block :: "iblok \<Rightarrow> (string \<times> iblok) option" where
  "mbwc_block ip =
     (if ib_cur ip \<ge> ib_end ip then
        (case ib_read ip of
           (c, ip') \<Rightarrow> if c = eof then None else Some (drop (ib_cur ip' - 1) (ib_blk ip'), ip'\<lparr>ib_cur := ib_end ip'\<rparr>))
      else Some (drop (ib_cur ip) (ib_blk ip), ip\<lparr>ib_cur := ib_end ip\<rparr>))"

lemma mbwc_block_size: "mbwc_block ip = Some (buf, ip') \<Longrightarrow> ib_size ip' < ib_size ip"
proof -
  assume a: "mbwc_block ip = Some (buf, ip')"
  obtain c ip1 where r: "ib_read ip = (c, ip1)" by fastforce
  show ?thesis
  proof (cases "ib_cur ip \<ge> ib_end ip")
    case True
    then show ?thesis using a r ib_read_size(2) [OF r] by (auto simp: mbwc_block_def split: if_splits)
  next
    case False
    then show ?thesis using a by (auto simp: mbwc_block_def ib_size_def)
  qed
qed

function mbwc_loop :: "wc_variant \<Rightarrow> ctypes \<Rightarrow> nat \<Rightarrow> mbtowc \<Rightarrow> iblok \<Rightarrow> bool \<Rightarrow> wcst \<Rightarrow> wcst option" where
  "mbwc_loop var ct mbm mb ip ef st =
     (if ef then Some st
      else
        case mbwc_block ip of
          None \<Rightarrow> Some st
        | Some (buf, ip') \<Rightarrow>
            (case mbwc_buf var ct mbm mb buf ip' ef
                    (st\<lparr>bytec := bytec st + int (length buf), charc := charc st + int (length buf)\<rparr>) of
               None \<Rightarrow> None
             | Some (ip'', ef', st') \<Rightarrow> mbwc_loop var ct mbm mb ip'' ef' st'))"
  by pat_completeness auto
termination
  by (relation "measure (\<lambda>(var, ct, mbm, mb, ip, ef, st). ib_size ip)")
     (auto dest!: mbwc_block_size mbwc_buf_size)

declare mbwc_loop.simps [simp del]

definition mbwc :: "wc_variant \<Rightarrow> ctypes \<Rightarrow> nat \<Rightarrow> mbtowc \<Rightarrow> iblok \<Rightarrow> wccounts option" where
  "mbwc var ct mbm mb ip = map_option wccounts.truncate (mbwc_loop var ct mbm mb ip False wc_init)"

section \<open>The program\<close>

text \<open>The flags are numbers of which only the comparison with 0 matters.\<close>

record wcfl =
  cflag :: bool
  lflag :: bool
  mflag :: bool
  wflag :: bool
  illflag :: bool

text \<open>\<open>report\<close> for the counts that are asked for, one after the other; \<open>S42\<close> puts blanks between them.\<close>

definition wc_selected :: "wcfl \<Rightarrow> wccounts \<Rightarrow> int list" where
  "wc_selected fl n =
     (if lflag fl then [linec n] else []) @ (if wflag fl then [wordc n] else []) @
     (if cflag fl then [bytec n] else []) @ (if mflag fl then [charc n] else [])"

definition wc_report :: "wc_variant \<Rightarrow> int list \<Rightarrow> string" where
  "wc_report var ns =
     (if var = WC_S42 then join '' '' (map (\<lambda>n. decimal (nat n)) ns)
      else concat (map (\<lambda>n. padl 7 (CHR '' '') (decimal (nat n)) @ '' '') ns))"

definition wc_usage :: "string \<Rightarrow> string" where
  "wc_usage progname = ''usage: '' @ progname @ '' [-clw] [name ...]'' @ [NL]"

text \<open>The counters of all files, what was written so far, \<open>errcnt\<close> and the number of files in \<open>ac\<close>.\<close>

record wcrun =
  wc_total :: wccounts
  wc_out :: string
  wc_err :: string
  wc_errcnt :: int
  wc_ac :: nat

definition wc_add :: "wccounts \<Rightarrow> wccounts \<Rightarrow> wccounts" where
  "wc_add a b = \<lparr>bytec = bytec a + bytec b, charc = charc a + charc b, wordc = wordc a + wordc b, linec = linec a + linec b\<rparr>"

text \<open>\<open>fpwc\<close>; \<open>Inl\<close> is the exit in \<open>usage\<close>, which comes only after the first file has been read.\<close>

definition wc_counts :: "wc_variant \<Rightarrow> ctypes \<Rightarrow> nat \<Rightarrow> mbtowc \<Rightarrow> wcfl \<Rightarrow> fdesc \<Rightarrow> wccounts option" where
  "wc_counts var ct mbm mb fl fd =
     (let ip = ib_alloc mbm fd 0
      in if mbm > 1 \<and> (wflag fl \<or> mflag fl) then mbwc var ct mbm mb ip else Some (sbwc var ct ip))"

definition fpwc :: "wc_variant \<Rightarrow> ctypes \<Rightarrow> nat \<Rightarrow> mbtowc \<Rightarrow> string \<Rightarrow> wcfl \<Rightarrow> fdesc \<Rightarrow> wcrun \<Rightarrow> (outcome + wcrun) option" where
  "fpwc var ct mbm mb progname fl fd r =
     (case wc_counts var ct mbm mb fl fd of
        None \<Rightarrow> None
      | Some n \<Rightarrow>
          Some (if illflag fl then Inl \<lparr>out = wc_out r, err = wc_err r @ wc_usage progname, status = 2\<rparr>
                else Inr (r\<lparr>wc_out := wc_out r @ wc_report var (wc_selected fl n), wc_total := wc_add (wc_total r) n\<rparr>)))"

definition filewc :: "wc_variant \<Rightarrow> ctypes \<Rightarrow> nat \<Rightarrow> mbtowc \<Rightarrow> filesys \<Rightarrow> string \<Rightarrow> wcfl \<Rightarrow> string \<Rightarrow> wcrun \<Rightarrow> (outcome + wcrun) option" where
  "filewc var ct mbm mb fs progname fl fn r =
     (case fs fn of
        None \<Rightarrow> Some (Inr (r\<lparr>wc_err := wc_err r @ progname @ '': cannot open '' @ fn @ [NL], wc_errcnt := 1\<rparr>))
      | Some fd \<Rightarrow>
          (case fpwc var ct mbm mb progname fl fd r of
             None \<Rightarrow> None
           | Some (Inl x) \<Rightarrow> Some (Inl x)
           | Some (Inr r) \<Rightarrow> Some (Inr (r\<lparr>wc_out := wc_out r @ '' '' @ fn @ [NL], wc_ac := wc_ac r + 1\<rparr>))))"

fun wc_files :: "(string \<Rightarrow> wcrun \<Rightarrow> (outcome + wcrun) option) \<Rightarrow> string list \<Rightarrow> wcrun \<Rightarrow> (outcome + wcrun) option" where
  "wc_files f [] r = Some (Inr r)"
| "wc_files f (a # as) r =
     (case f a r of None \<Rightarrow> None | Some (Inl x) \<Rightarrow> Some (Inl x) | Some (Inr r') \<Rightarrow> wc_files f as r')"

fun wc_opts :: "optev list \<Rightarrow> wcfl \<Rightarrow> wcfl" where
  "wc_opts [] fl = fl"
| "wc_opts ((c, arg, msg) # evs) fl =
     wc_opts evs
       (if c = 99 then fl\<lparr>cflag := True\<rparr> else if c = 108 then fl\<lparr>lflag := True\<rparr>
        else if c = 109 then fl\<lparr>mflag := True\<rparr> else if c = 119 then fl\<lparr>wflag := True\<rparr>
        else fl\<lparr>illflag := True\<rparr>)"

definition wc_noflags :: wcfl where
  "wc_noflags = \<lparr>cflag = False, lflag = False, mflag = False, wflag = False, illflag = False\<rparr>"

definition wc_run0 :: wcrun where
  "wc_run0 = \<lparr>wc_total = wc_zero, wc_out = [], wc_err = [], wc_errcnt = 0, wc_ac = 0\<rparr>"

text \<open>\<open>argv\<close> begins with the name of the program; \<open>progname\<close> is its last component.\<close>

definition wc_settings :: "wc_variant \<Rightarrow> string list \<Rightarrow> wcfl \<times> string list" where
  "wc_settings var argv =
     (case getopt_all True None argv '':clmw'' optst_init of
        (evs, ost) \<Rightarrow>
          (let fl = wc_opts evs wc_noflags; bare = (evs = [] \<and> var = WC \<and> length argv > 1 \<and> argv ! 1 = ''-'');
               fl = (if evs = [] \<and> \<not> bare then fl\<lparr>cflag := True, lflag := True, wflag := True\<rparr> else fl);
               fl = (if mflag fl then fl\<lparr>cflag := False\<rparr> else fl)
           in (fl, drop (if bare then optind ost + 1 else optind ost) argv)))"

definition wc_main :: "wc_variant \<Rightarrow> ctypes \<Rightarrow> nat \<Rightarrow> mbtowc \<Rightarrow> filesys \<Rightarrow> fdesc \<Rightarrow> string \<Rightarrow> string list \<Rightarrow> outcome option" where
  "wc_main var ct mbm mb fs stdin progname argv =
     (case wc_settings var argv of
        (fl, opnds) \<Rightarrow>
          if opnds \<noteq> [] then
            (case wc_files (filewc var ct mbm mb fs progname fl) opnds wc_run0 of
               None \<Rightarrow> None
             | Some (Inl x) \<Rightarrow> Some x
             | Some (Inr r) \<Rightarrow>
                 Some \<lparr>out = wc_out r @ (if wc_ac r > 1 then wc_report var (wc_selected fl (wc_total r)) @ '' total'' @ [NL] else []),
                       err = wc_err r, status = wc_errcnt r\<rparr>)
          else
            (case fpwc var ct mbm mb progname fl stdin wc_run0 of
               None \<Rightarrow> None
             | Some (Inl x) \<Rightarrow> Some x
             | Some (Inr r) \<Rightarrow> Some \<lparr>out = wc_out r @ [NL], err = wc_err r, status = wc_errcnt r\<rparr>))"

section \<open>Specification\<close>

text \<open>
  Characters are pairs, of whether they are wide and their code.  A text is split at its separators; the words
  are the pieces with a character that makes a word: any in the \<open>SUS\<close> variant, a graphical one otherwise.
\<close>

definition wc_sep :: "wc_variant \<Rightarrow> ctypes \<Rightarrow> bool \<times> int \<Rightarrow> bool" where
  "wc_sep var ct x = (case x of (wide, c) \<Rightarrow> if var = WC_SUS then wc_space ct wide c else c = 10 \<or> wc_blank ct wide c)"

definition wc_start :: "wc_variant \<Rightarrow> ctypes \<Rightarrow> bool \<times> int \<Rightarrow> bool" where
  "wc_start var ct x = (case x of (wide, c) \<Rightarrow> var = WC_SUS \<or> wc_graph ct wide c)"

definition wc_words :: "wc_variant \<Rightarrow> ctypes \<Rightarrow> (bool \<times> int) list list \<Rightarrow> int" where
  "wc_words var ct ps = int (length (filter (list_ex (wc_start var ct)) ps))"

definition wc_lines :: "(bool \<times> int) list \<Rightarrow> int" where
  "wc_lines xs = int (length (filter (\<lambda>x. snd x = 10) xs))"

definition wc_spec :: "wc_variant \<Rightarrow> ctypes \<Rightarrow> nat \<Rightarrow> (bool \<times> int) list \<Rightarrow> wccounts" where
  "wc_spec var ct n xs =
     \<lparr>bytec = int n, charc = int (length xs), wordc = wc_words var ct (splitp (wc_sep var ct) xs), linec = wc_lines xs\<rparr>"

text \<open>The characters of a text in a multibyte locale; bytes that are no character are left out.\<close>

function wc_items :: "nat \<Rightarrow> mbtowc \<Rightarrow> string \<Rightarrow> (bool \<times> int) list" where
  "wc_items mbm mb [] = []"
| "wc_items mbm mb (b # bs) =
     (if uchar b \<ge> 128 then
        (case mb (take mbm (b # bs)) of
           (n, c) \<Rightarrow> if n > 0 then (True, c) # wc_items mbm mb (drop (nat n) (b # bs)) else wc_items mbm mb bs)
      else (False, uchar b) # wc_items mbm mb bs)"
  by pat_completeness auto
termination
  by (relation "measure (\<lambda>(mbm, mb, s). length s)") auto

declare wc_items.simps(2) [simp del]

text \<open>
  What is documented of \<open>mbtowc\<close>, besides \<open>mbtowc_ok\<close>: it looks at no more than \<open>MB_CUR_MAX\<close> bytes, and returns 0
  for the null character only; and a newline is white space.
\<close>

definition mbtowc_wc :: "nat \<Rightarrow> mbtowc \<Rightarrow> bool" where
  "mbtowc_wc mbm mb \<longleftrightarrow> mbtowc_ok mb \<and> (\<forall>s. mb (take mbm s) = mb s) \<and> (\<forall>b s. uchar b \<ge> 128 \<longrightarrow> fst (mb (b # s)) \<noteq> 0)"

definition nl_space :: "ctypes \<Rightarrow> bool" where
  "nl_space ct \<longleftrightarrow> is_space ct 10 \<and> isw_space ct 10"

section \<open>Counting is correct\<close>

lemma wc_COUNT_frame [simp]:
  "bytec (wc_COUNT var ct x st) = bytec st" "charc (wc_COUNT var ct x st) = charc st"
  "wc_COUNT var ct x (st\<lparr>bytec := k\<rparr>) = (wc_COUNT var ct x st)\<lparr>bytec := k\<rparr>"
  "wc_COUNT var ct x (st\<lparr>charc := k\<rparr>) = (wc_COUNT var ct x st)\<lparr>charc := k\<rparr>"
  by (cases x; simp add: wc_COUNT_def Let_def)+

lemma fold_COUNT_frame [simp]:
  "bytec (fold (wc_COUNT var ct) xs st) = bytec st" "charc (fold (wc_COUNT var ct) xs st) = charc st"
  "fold (wc_COUNT var ct) xs (st\<lparr>bytec := k\<rparr>) = (fold (wc_COUNT var ct) xs st)\<lparr>bytec := k\<rparr>"
  "fold (wc_COUNT var ct) xs (st\<lparr>charc := k\<rparr>) = (fold (wc_COUNT var ct) xs st)\<lparr>charc := k\<rparr>"
  by (induction xs arbitrary: st; simp)+

lemma wc_COUNT_step:
  assumes "nl_space ct" "0 \<le> hadspace st"
  shows "0 \<le> hadspace (wc_COUNT var ct x st)"
    "hadspace (wc_COUNT var ct x st) \<noteq> 0 \<longleftrightarrow> wc_sep var ct x \<or> hadspace st \<noteq> 0 \<and> \<not> wc_start var ct x"
    "wordc (wc_COUNT var ct x st) =
       wordc st + (if \<not> wc_sep var ct x \<and> hadspace st \<noteq> 0 \<and> wc_start var ct x then 1 else 0)"
    "linec (wc_COUNT var ct x st) = linec st + (if snd x = 10 then 1 else 0)"
  using assms by (cases x; auto simp: wc_COUNT_def wc_sep_def wc_start_def Let_def nl_space_def wc_space_def)+

lemma splitp_step:
  "P x \<Longrightarrow> splitp P (x # xs) = [] # splitp P xs"
  "\<not> P x \<Longrightarrow> splitp P (x # xs) = (x # hd (splitp P xs)) # tl (splitp P xs)"
  using splitp_ne [of P xs] by (auto split: list.splits)

lemma fold_COUNT:
  assumes "nl_space ct"
  shows "0 \<le> hadspace st \<Longrightarrow>
    wordc (fold (wc_COUNT var ct) xs st) = wordc st +
      wc_words var ct ((if hadspace st \<noteq> 0 then id else tl) (splitp (wc_sep var ct) xs)) \<and>
    linec (fold (wc_COUNT var ct) xs st) = linec st + wc_lines xs"
proof (induction xs arbitrary: st)
  case Nil
  then show ?case by (simp add: wc_words_def wc_lines_def)
next
  case (Cons x xs)
  note s = wc_COUNT_step [OF assms Cons.prems, of var x]
  obtain p ps where p: "splitp (wc_sep var ct) xs = p # ps" using splitp_ne by (metis list.exhaust)
  have "wc_lines (x # xs) = (if snd x = 10 then 1 else 0) + wc_lines xs" by (simp add: wc_lines_def)
  then show ?case
    using Cons.IH [OF s(1)] s p splitp_step [of "wc_sep var ct" x xs]
    by (cases "wc_sep var ct x"; cases "hadspace st \<noteq> 0"; cases "wc_start var ct x") (auto simp: wc_words_def)
qed

lemma wc_result:
  assumes "nl_space ct"
  shows "wccounts.truncate ((fold (wc_COUNT var ct) xs wc_init)\<lparr>bytec := int n, charc := int (length xs)\<rparr>) = wc_spec var ct n xs"
proof -
  have "0 \<le> hadspace wc_init" "hadspace wc_init \<noteq> 0" "wordc wc_init = 0" "linec wc_init = 0"
    by (simp_all add: wc_init_def wc_zero_def wccounts.defs wcst.defs)
  with fold_COUNT [OF assms, of wc_init var xs] show ?thesis by (simp add: wc_spec_def wccounts.truncate_def)
qed

section \<open>Blocks do not matter\<close>

abbreviation byte_items :: "string \<Rightarrow> (bool \<times> int) list" where
  "byte_items s \<equiv> map (\<lambda>b. (False, uchar b)) s"

lemma sbwc_loop_ok:
  "0 < ib_blksize ip \<Longrightarrow> fd_good (ib_fd ip) \<Longrightarrow>
   sbwc_loop var ct ip st =
     (fold (wc_COUNT var ct) (byte_items (fd_rest (ib_fd ip))) st)\<lparr>charc := charc st + int (length (fd_rest (ib_fd ip)))\<rparr>"
proof (induction var ct ip st rule: sbwc_loop.induct)
  case (1 var ct ip st)
  have f: "fold (\<lambda>b. wc_COUNT var ct (False, uchar b)) s = fold (wc_COUNT var ct) (byte_items s)" for s
    by (simp add: fold_map comp_def)
  show ?case
  proof (cases ip rule: ib_read_cases)
    case (data b bs fd')
    note ok = ib_read_loop_ok [OF data(1) "1.prems"(1)]
    let ?ip = "snd (ib_read ip)\<lparr>ib_cur := 0\<rparr>"
    let ?st = "fold (\<lambda>b. wc_COUNT var ct (False, uchar b)) (b # bs) (st\<lparr>charc := charc st + int (length (b # bs))\<rparr>)"
    have step: "sbwc_loop var ct ip st = sbwc_loop var ct ?ip ?st"
      using data(2) by (simp add: sbwc_loop.simps [of var ct ip st] Let_def)
    have "sbwc_loop var ct ?ip ?st =
        (fold (wc_COUNT var ct) (byte_items (fd_rest fd')) ?st)\<lparr>charc := charc ?st + int (length (fd_rest fd'))\<rparr>"
      using "1.IH" [of "uchar b" "snd (ib_read ip)"] data(2) "1.prems" ok(7) by (simp add: Let_def)
    then show ?thesis unfolding step f using ok(1) by (simp add: wccounts.surjective)
  next
    case (eof fd')
    from ib_read_loop_ok(2) [OF eof(1) "1.prems"(1)] eof(2) show ?thesis by (simp add: sbwc_loop.simps [of var ct ip st])
  next
    case (fail e fd')
    with ib_read_loop_fail(4) [OF fail(1)] "1.prems" show ?thesis by simp
  qed
qed

lemma sbwc_ok:
  assumes "fd_good fd" "nl_space ct"
  shows "sbwc var ct (ib_alloc mbm fd 0) = wc_spec var ct (length (fd_rest fd)) (byte_items (fd_rest fd))"
proof -
  have "0 < ib_blksize (ib_alloc mbm fd 0)" "ib_fd (ib_alloc mbm fd 0) = fd" by (simp_all add: ib_alloc_def Let_def)
  with sbwc_loop_ok [of "ib_alloc mbm fd 0" var ct wc_init] assms(1)
  have "sbwc var ct (ib_alloc mbm fd 0) =
      wccounts.truncate ((fold (wc_COUNT var ct) (byte_items (fd_rest fd)) wc_init)
        \<lparr>bytec := int (length (fd_rest fd)), charc := int (length (byte_items (fd_rest fd)))\<rparr>)"
    by (simp add: sbwc_def wc_init_def wc_zero_def wccounts.defs wcst.defs)
  then show ?thesis using wc_result [OF assms(2)] by metis
qed

text \<open>
  In a multibyte locale the bytes of a block are added to the counters before they are looked at;
  \<open>wc_run\<close> is the state after the text \<open>s\<close> when none of its bytes has been counted.
\<close>

definition wc_run :: "wc_variant \<Rightarrow> ctypes \<Rightarrow> nat \<Rightarrow> mbtowc \<Rightarrow> string \<Rightarrow> wcst \<Rightarrow> wcst" where
  "wc_run var ct mbm mb s st =
     (fold (wc_COUNT var ct) (wc_items mbm mb s) st)
       \<lparr>bytec := bytec st + int (length s), charc := charc st + int (length (wc_items mbm mb s))\<rparr>"

definition wc_uncount :: "string \<Rightarrow> wcst \<Rightarrow> wcst" where
  "wc_uncount buf st = st\<lparr>bytec := bytec st - int (length buf), charc := charc st - int (length buf)\<rparr>"

lemma wcst_swap: "st\<lparr>charc := a, bytec := b\<rparr> = (st\<lparr>bytec := b, charc := a\<rparr> :: wcst)"
  by simp

lemma mbwc_fill_ok:
  assumes "mbwc_fill mbm buf ip ef = (buf', ip', ef')" "ib_good ip" "ef \<longrightarrow> ib_rest ip = []"
  shows "buf' @ ib_rest ip' = buf @ ib_rest ip \<and> ib_good ip' \<and> (ef' \<longrightarrow> ib_rest ip' = []) \<and>
    (mbm \<le> length buf' \<or> ib_rest ip' = []) \<and> length buf \<le> length buf'"
  using assms
proof (induction mbm buf ip ef rule: mbwc_fill.induct)
  case (1 mbm buf ip ef)
  show ?case
  proof (cases "\<not> ef \<and> length buf < mbm")
    case False
    with "1.prems" show ?thesis by (auto simp: mbwc_fill.simps [of mbm buf ip])
  next
    case True
    obtain c ip1 where g: "ib_get ip = (c, ip1)" by fastforce
    note l = ib_get_good [OF "1.prems"(2), unfolded g fst_conv snd_conv]
    show ?thesis
    proof (cases "c = eof")
      case eof: True
      with True g "1.prems"(1) have "mbwc_fill mbm buf ip1 True = (buf', ip', ef')" by (simp add: mbwc_fill.simps [of mbm buf ip])
      moreover have "ib_rest ip = []" "ib_rest ip1 = []" using l(2,4) eof by simp_all
      ultimately show ?thesis using "1.IH"(2) [OF True g [symmetric] _ _ l(1)] eof by simp
    next
      case False
      with True g "1.prems"(1) have f: "mbwc_fill mbm (buf @ [to_char c]) ip1 ef = (buf', ip', ef')"
        by (simp add: mbwc_fill.simps [of mbm buf ip])
      from "1.IH"(1) [OF True g [symmetric] False f l(1)] True show ?thesis unfolding l(3) [OF False] by simp
    qed
  qed
qed

lemma mbwc_more_ok:
  assumes "mbwc_more mbm (b # bs) ip ef = (buf', ip', ef')" "ib_good ip" "ef \<longrightarrow> ib_rest ip = []"
  obtains bs' where "buf' = b # bs'" "bs' @ ib_rest ip' = bs @ ib_rest ip" "ib_good ip'" "ef' \<longrightarrow> ib_rest ip' = []"
    "take mbm buf' = take mbm (buf' @ ib_rest ip')" "length bs \<le> length bs'"
proof -
  have r: "buf' @ ib_rest ip' = (b # bs) @ ib_rest ip" "ib_good ip'" "ef' \<longrightarrow> ib_rest ip' = []"
    "mbm \<le> length buf' \<or> ib_rest ip' = []" "length (b # bs) \<le> length buf'"
    using assms mbwc_fill_ok [of mbm "b # bs" ip ef] by (auto simp: mbwc_more_def split: if_splits)
  have t: "take mbm buf' = take mbm (buf' @ ib_rest ip')" using r(4) by auto
  obtain bs' where b: "buf' = b # bs'" using r(1,5) by (cases buf') auto
  show thesis by (rule that [OF b _ r(2,3) t]) (use r(1,5) b in simp_all)
qed

text \<open>One character of the \<open>for\<close> loop.\<close>

lemma wc_run_invalid:
  assumes "uchar b \<ge> 128" "fst (mb (take mbm (b # s))) < 0"
  shows "wc_run var ct mbm mb (b # s) st = wc_run var ct mbm mb s (st\<lparr>bytec := bytec st + 1\<rparr>)"
  using assms by (cases "mb (take mbm (b # s))") (simp add: wc_run_def wc_items.simps)

lemma wc_run_wide:
  assumes "uchar b \<ge> 128" "mb (take mbm (b # s)) = (n, c)" "0 < n" "nat n \<le> Suc (length s)"
  shows "wc_run var ct mbm mb (b # s) st =
    wc_run var ct mbm mb (drop (nat n) (b # s)) (wc_COUNT var ct (True, c) (st\<lparr>bytec := bytec st + n, charc := charc st + 1\<rparr>))"
  using assms by (simp add: wc_run_def wc_items.simps)

lemma wc_run_byte:
  assumes "uchar b < 128"
  shows "wc_run var ct mbm mb (b # s) st =
    wc_run var ct mbm mb s (wc_COUNT var ct (False, uchar b) (st\<lparr>bytec := bytec st + 1, charc := charc st + 1\<rparr>))"
  using assms by (simp add: wc_run_def wc_items.simps)

lemma mbwc_buf_ok:
  assumes mb: "mbtowc_wc mbm mb"
  shows "ib_good ip \<Longrightarrow> ef \<longrightarrow> ib_rest ip = [] \<Longrightarrow>
    \<exists>ip' ef' st'. mbwc_buf var ct mbm mb buf ip ef st = Some (ip', ef', st') \<and> ib_good ip' \<and> (ef' \<longrightarrow> ib_rest ip' = []) \<and>
      wc_run var ct mbm mb (ib_rest ip') st' = wc_run var ct mbm mb (buf @ ib_rest ip) (wc_uncount buf st)"
  using mb
proof (induction var ct mbm mb buf ip ef st rule: mbwc_buf.induct)
  case (1 var ct mbm mb ip ef st)
  then show ?case by (simp add: wc_uncount_def)
next
  case (2 var ct mbm mb b bs ip ef st)
  show ?case
  proof (cases "uchar b \<ge> 128")
    case False
    let ?st = "wc_COUNT var ct (False, uchar b) st"
    from "2.IH"(3) [OF False "2.prems"] obtain ip' ef' st' where r:
      "mbwc_buf var ct mbm mb bs ip ef ?st = Some (ip', ef', st')" "ib_good ip'" "ef' \<longrightarrow> ib_rest ip' = []"
      "wc_run var ct mbm mb (ib_rest ip') st' = wc_run var ct mbm mb (bs @ ib_rest ip) (wc_uncount bs ?st)" by blast
    then show ?thesis using False by (simp add: mbwc_buf.simps wc_run_byte wc_uncount_def)
  next
    case True
    obtain buf ip1 ef1 where m: "mbwc_more mbm (b # bs) ip ef = (buf, ip1, ef1)" by (metis prod_cases3)
    obtain bs' where b: "buf = b # bs'" "bs' @ ib_rest ip1 = bs @ ib_rest ip" "ib_good ip1" "ef1 \<longrightarrow> ib_rest ip1 = []"
      "take mbm buf = take mbm (buf @ ib_rest ip1)" "length bs \<le> length bs'"
      using mbwc_more_ok [OF m "2.prems"(1,2)] by blast
    obtain n c where c: "mb buf = (n, c)" by fastforce
    have w: "mb (take mbm (b # bs' @ ib_rest ip1)) = (n, c)"
      using b(1,5) c "2.prems"(3) by (metis append_Cons mbtowc_wc_def)
    have n: "n \<noteq> 0" using True b(1) c "2.prems"(3) by (metis fst_conv mbtowc_wc_def)
    have le: "n \<le> int (Suc (length bs'))"
      using c b(1) "2.prems"(3) by (metis fst_conv length_Cons mbtowc_ok_def mbtowc_wc_def)
    define k where "k = int (length buf - length (b # bs))"
    define st1 where "st1 = st\<lparr>bytec := bytec st + k, charc := charc st + k\<rparr>"
    note h = "2.IH"(1,2) [OF True m [symmetric] refl k_def st1_def c [symmetric]]
    have u: "wc_uncount buf st1 = wc_uncount (b # bs) st" using b(1,6) by (simp add: wc_uncount_def st1_def k_def of_nat_diff)
    have eq: "mbwc_buf var ct mbm mb (b # bs) ip ef st =
        (if n < 0 then mbwc_buf var ct mbm mb (drop 1 buf) ip1 ef1 (st1\<lparr>charc := charc st1 - 1\<rparr>)
         else mbwc_buf var ct mbm mb (drop (nat n) buf) ip1 ef1 (wc_COUNT var ct (True, c) (st1\<lparr>charc := charc st1 - (n - 1)\<rparr>)))"
      using True n by (simp add: mbwc_buf.simps m c Let_def k_def st1_def)
    show ?thesis
    proof (cases "n < 0")
      case neg: True
      from h(1) [OF neg b(3,4) "2.prems"(3)] obtain ip' ef' st' where r:
        "mbwc_buf var ct mbm mb (drop 1 buf) ip1 ef1 (st1\<lparr>charc := charc st1 - 1\<rparr>) = Some (ip', ef', st')"
        "ib_good ip'" "ef' \<longrightarrow> ib_rest ip' = []" "wc_run var ct mbm mb (ib_rest ip') st' =
          wc_run var ct mbm mb (bs' @ ib_rest ip1) (wc_uncount bs' (st1\<lparr>charc := charc st1 - 1\<rparr>))" using b(1) by auto
      have "wc_run var ct mbm mb ((b # bs) @ ib_rest ip) (wc_uncount (b # bs) st) =
          wc_run var ct mbm mb (bs' @ ib_rest ip1) (wc_uncount bs' (st1\<lparr>charc := charc st1 - 1\<rparr>))"
        using wc_run_invalid [OF True, of mb mbm "bs' @ ib_rest ip1" var ct "wc_uncount buf st1"] w neg b(1,2) u
        by (simp add: wc_uncount_def algebra_simps wcst_swap)
      with r neg eq show ?thesis by auto
    next
      case pos: False
      let ?st = "wc_COUNT var ct (True, c) (st1\<lparr>charc := charc st1 - (n - 1)\<rparr>)"
      from h(2) [OF pos n b(3,4) "2.prems"(3)] obtain ip' ef' st' where r:
        "mbwc_buf var ct mbm mb (drop (nat n) buf) ip1 ef1 ?st = Some (ip', ef', st')"
        "ib_good ip'" "ef' \<longrightarrow> ib_rest ip' = []" "wc_run var ct mbm mb (ib_rest ip') st' =
          wc_run var ct mbm mb (drop (nat n) buf @ ib_rest ip1) (wc_uncount (drop (nat n) buf) ?st)" by auto
      have l: "nat n \<le> length buf" using le b(1) pos by (simp add: nat_le_iff)
      have t: "b # bs @ ib_rest ip = buf @ ib_rest ip1" using b(1,2) by simp
      have d: "drop (nat n) (b # bs @ ib_rest ip) = drop (nat n) buf @ ib_rest ip1" unfolding t using l by simp
      have l': "nat n \<le> Suc (length (bs @ ib_rest ip))"
        using l arg_cong [OF t, of length] by simp
      have "wc_run var ct mbm mb ((b # bs) @ ib_rest ip) (wc_uncount (b # bs) st) =
          wc_run var ct mbm mb (drop (nat n) buf @ ib_rest ip1) (wc_uncount (drop (nat n) buf) ?st)"
        using wc_run_wide [where b = b and mb = mb and mbm = mbm and s = "bs @ ib_rest ip" and n = n and c = c and
            var = var and ct = ct and st = "wc_uncount buf st1"] True w n pos l l' d b(1,2) u
        by (simp add: wc_uncount_def algebra_simps of_nat_diff wcst_swap)
      with r pos eq show ?thesis by auto
    qed
  qed
qed

lemma mbwc_block_ok:
  assumes "ib_good ip"
  shows "mbwc_block ip = None \<Longrightarrow> ib_rest ip = []"
    "mbwc_block ip = Some (buf, ip') \<Longrightarrow> ib_rest ip = buf @ ib_rest ip' \<and> ib_good ip'"
proof -
  have wf: "ib_end ip = length (ib_blk ip)" "ib_cur ip \<le> ib_end ip" "0 < ib_blksize ip" "fd_good (ib_fd ip)"
    using assms by (simp_all add: ib_good_def ib_wf_def)
  have "(mbwc_block ip = None \<longrightarrow> ib_rest ip = []) \<and>
    (mbwc_block ip = Some (buf, ip') \<longrightarrow> ib_rest ip = buf @ ib_rest ip' \<and> ib_good ip')"
  proof (cases "ib_cur ip < ib_end ip")
    case True
    then show ?thesis using assms wf by (auto simp: mbwc_block_def ib_rest_def ib_good_def ib_wf_def)
  next
    case False
    show ?thesis
    proof (cases ip rule: ib_read_cases)
      case (data b bs fd')
      with ib_read_loop_ok [OF data(1) wf(3)] False wf show ?thesis
        by (auto simp: mbwc_block_def ib_rest_def ib_good_def ib_wf_def)
    next
      case (eof fd')
      with ib_read_loop_ok [OF eof(1) wf(3)] False wf show ?thesis by (auto simp: mbwc_block_def ib_rest_def)
    next
      case (fail e fd')
      with ib_read_loop_fail(4) [OF fail(1)] wf(4) show ?thesis by simp
    qed
  qed
  then show "mbwc_block ip = None \<Longrightarrow> ib_rest ip = []"
    "mbwc_block ip = Some (buf, ip') \<Longrightarrow> ib_rest ip = buf @ ib_rest ip' \<and> ib_good ip'" by blast+
qed

lemma wc_run_Nil [simp]: "wc_run var ct mbm mb [] st = st"
  by (simp add: wc_run_def)

lemma mbwc_loop_ok:
  assumes "mbtowc_wc mbm mb"
  shows "ib_good ip \<Longrightarrow> ef \<longrightarrow> ib_rest ip = [] \<Longrightarrow>
    mbwc_loop var ct mbm mb ip ef st = Some (wc_run var ct mbm mb (ib_rest ip) st)"
proof (induction "ib_size ip" arbitrary: ip ef st rule: less_induct)
  case less
  show ?case
  proof (cases "ef \<or> mbwc_block ip = None")
    case True
    then have "ib_rest ip = []" using less.prems mbwc_block_ok(1) by blast
    with True show ?thesis by (auto simp: mbwc_loop.simps [of var ct mbm mb ip])
  next
    case False
    then obtain buf ip1 where b: "mbwc_block ip = Some (buf, ip1)" by auto
    note bk = mbwc_block_ok(2) [OF less.prems(1) b]
    let ?st = "st\<lparr>bytec := bytec st + int (length buf), charc := charc st + int (length buf)\<rparr>"
    obtain ip2 ef2 st2 where r: "mbwc_buf var ct mbm mb buf ip1 ef ?st = Some (ip2, ef2, st2)" "ib_good ip2"
        "ef2 \<longrightarrow> ib_rest ip2 = []"
        "wc_run var ct mbm mb (ib_rest ip2) st2 = wc_run var ct mbm mb (buf @ ib_rest ip1) (wc_uncount buf ?st)"
      using mbwc_buf_ok [OF assms, of ip1 ef var ct buf ?st] bk False by auto
    have "ib_size ip2 < ib_size ip" using mbwc_block_size [OF b] mbwc_buf_size [OF r(1)] by simp
    from less.hyps [OF this r(2,3)] r(4) bk b False r(1) show ?thesis
      by (simp add: mbwc_loop.simps [of var ct mbm mb ip] wc_uncount_def)
  qed
qed

text \<open>What \<open>wc\<close> counts in a text.\<close>

definition wc_ref :: "wc_variant \<Rightarrow> ctypes \<Rightarrow> nat \<Rightarrow> mbtowc \<Rightarrow> wcfl \<Rightarrow> string \<Rightarrow> wccounts" where
  "wc_ref var ct mbm mb fl s =
     wc_spec var ct (length s) (if mbm > 1 \<and> (wflag fl \<or> mflag fl) then wc_items mbm mb s else byte_items s)"

lemma wc_counts_ok:
  assumes "fd_good fd" "nl_space ct" "1 < mbm \<longrightarrow> mbtowc_wc mbm mb"
  shows "wc_counts var ct mbm mb fl fd = Some (wc_ref var ct mbm mb fl (fd_rest fd))"
proof (cases "mbm > 1 \<and> (wflag fl \<or> mflag fl)")
  case True
  then have "mbwc_loop var ct mbm mb (ib_alloc mbm fd 0) False wc_init = Some (wc_run var ct mbm mb (fd_rest fd) wc_init)"
    using mbwc_loop_ok [of mbm mb "ib_alloc mbm fd 0" False var ct wc_init] assms by simp
  moreover have "wc_run var ct mbm mb (fd_rest fd) wc_init =
      (fold (wc_COUNT var ct) (wc_items mbm mb (fd_rest fd)) wc_init)
        \<lparr>bytec := int (length (fd_rest fd)), charc := int (length (wc_items mbm mb (fd_rest fd)))\<rparr>"
    by (simp add: wc_run_def wc_init_def wc_zero_def wccounts.defs wcst.defs)
  ultimately show ?thesis
    using True wc_result [OF assms(2)] by (simp add: wc_counts_def mbwc_def wc_ref_def Let_def)
next
  case False
  then show ?thesis using assms sbwc_ok [OF assms(1,2)] by (auto simp: wc_counts_def wc_ref_def Let_def)
qed

section \<open>Properties\<close>

text \<open>The flags that a list of option letters stands for.\<close>

definition wc_flags :: "string \<Rightarrow> wcfl" where
  "wc_flags ls =
     \<lparr>cflag = (CHR ''c'' \<in> set ls \<or> ls = []) \<and> CHR ''m'' \<notin> set ls, lflag = CHR ''l'' \<in> set ls \<or> ls = [],
      mflag = CHR ''m'' \<in> set ls, wflag = CHR ''w'' \<in> set ls \<or> ls = [], illflag = False\<rparr>"

lemma wc_opts_letters:
  "set ls \<subseteq> set ''clmw'' \<Longrightarrow>
   wc_opts (map (\<lambda>c. (uchar c, a, m)) ls) fl =
     fl\<lparr>cflag := cflag fl \<or> CHR ''c'' \<in> set ls, lflag := lflag fl \<or> CHR ''l'' \<in> set ls,
        mflag := mflag fl \<or> CHR ''m'' \<in> set ls, wflag := wflag fl \<or> CHR ''w'' \<in> set ls\<rparr>"
proof (induction ls arbitrary: fl)
  case (Cons c ls)
  have "uchar (CHR ''c'') = 99" "uchar (CHR ''l'') = 108" "uchar (CHR ''m'') = 109" "uchar (CHR ''w'') = 119"
    by (simp_all add: uchar_def)
  moreover have "c = CHR ''c'' \<or> c = CHR ''l'' \<or> c = CHR ''m'' \<or> c = CHR ''w''" using Cons.prems by auto
  ultimately show ?case using Cons by auto
qed simp

lemma wc_settings_render:
  assumes "set ls \<subseteq> set ''clmw''" "operands_ok as" "ls \<noteq> [] \<or> var \<noteq> WC \<or> as = [] \<or> hd as \<noteq> ''-''"
  shows "wc_settings var (prog # render (map (\<lambda>c. Opt c None) ls) @ as) = (wc_flags ls, as)"
proof -
  let ?opts = "map (\<lambda>c. Opt c None) ls"
  have r: "list_all (renderable (opt_letters '':clmw'')) ?opts"
    using assms(1) by (induction ls) (auto simp: opt_letters_def has_colon_def)
  obtain evs ost where g: "getopt_all True None (prog # render ?opts @ as) '':clmw'' optst_init = (evs, ost)" by fastforce
  with getopt_all_render [OF r assms(2), where e = True and l = None and prog = prog]
  have evs: "evs = map (\<lambda>c. (uchar c, None, [])) ls" and ops: "drop (optind ost) (prog # render ?opts @ as) = as"
    by (simp_all add: comp_def)
  have bare: "\<not> (evs = [] \<and> var = WC \<and> length (prog # render ?opts @ as) > 1 \<and> (prog # render ?opts @ as) ! 1 = ''-'')"
    using assms(3) by (cases as) (auto simp: evs)
  show ?thesis
    using assms(1) wc_opts_letters [OF assms(1), of None "[]" wc_noflags] bare
    by (simp add: wc_settings_def g Let_def ops)
       (auto simp: evs wc_flags_def wc_noflags_def)
qed

text \<open>The state after some files that can be read.\<close>

lemma wc_files_ok:
  assumes "nl_space ct" "1 < mbm \<longrightarrow> mbtowc_wc mbm mb" "\<not> illflag fl"
  shows "(\<And>a. a \<in> set as \<Longrightarrow> \<exists>fd. fs a = Some fd \<and> fd_good fd) \<Longrightarrow>
    wc_files (filewc var ct mbm mb fs progname fl) as r =
    (let ref = (\<lambda>a. wc_ref var ct mbm mb fl (fd_rest (the (fs a))))
     in Some (Inr (r\<lparr>wc_out := wc_out r @ concat (map (\<lambda>a. wc_report var (wc_selected fl (ref a)) @ '' '' @ a @ [NL]) as),
                     wc_total := foldl wc_add (wc_total r) (map ref as), wc_ac := wc_ac r + length as\<rparr>)))"
proof (induction as arbitrary: r)
  case (Cons a as)
  from Cons.prems [of a] obtain fd where a: "fs a = Some fd" "fd_good fd" by auto
  have "\<And>a. a \<in> set as \<Longrightarrow> \<exists>fd. fs a = Some fd \<and> fd_good fd" using Cons.prems by simp
  from Cons.IH [OF this] a wc_counts_ok [OF a(2) assms(1,2), of var fl] assms(3) show ?case
    by (simp add: filewc_def fpwc_def Let_def)
qed (simp add: Let_def)

text \<open>
  (C33) \<open>wc\<close> from the command line to the output, in all three variants.  For readable files, with any of the
  options \<open>-c\<close>, \<open>-l\<close>, \<open>-m\<close>, \<open>-w\<close> or none, the program ends and prints one line for each file with the number of
  its newlines, words, bytes or characters, in this order, and a line with the sums if there is more than one file.
  The counts do not depend on how the input is cut into blocks, and a multibyte character that straddles two blocks is
  counted once; bytes that are not a character do not count as one and do not end a word.
\<close>

theorem wc_output:
  assumes "set ls \<subseteq> set ''clmw''" and "as \<noteq> []" "operands_ok as" "ls \<noteq> [] \<or> var \<noteq> WC \<or> hd as \<noteq> ''-''"
    and "\<And>a. a \<in> set as \<Longrightarrow> \<exists>fd. fs a = Some fd \<and> fd_good fd"
    and "nl_space ct" and "1 < mbm \<longrightarrow> mbtowc_wc mbm mb"
  shows "let ref = (\<lambda>a. wc_ref var ct mbm mb (wc_flags ls) (fd_rest (the (fs a))));
             show = (\<lambda>n name. wc_report var (wc_selected (wc_flags ls) n) @ '' '' @ name @ [NL])
         in wc_main var ct mbm mb fs stdin progname (prog # render (map (\<lambda>c. Opt c None) ls) @ as) =
            Some \<lparr>out = concat (map (\<lambda>a. show (ref a) a) as) @
                        (if length as > 1 then show (foldl wc_add wc_zero (map ref as)) ''total'' else []),
                  err = [], status = 0\<rparr>"
proof -
  have "\<not> illflag (wc_flags ls)" by (simp add: wc_flags_def)
  note f = wc_files_ok [OF assms(6,7) this assms(5), where var = var and progname = progname and r = wc_run0]
  have s: "wc_settings var (prog # render (map (\<lambda>c. Opt c None) ls) @ as) = (wc_flags ls, as)"
    by (rule wc_settings_render [OF assms(1,3)]) (use assms(4) in auto)
  show ?thesis using assms(2) by (simp add: wc_main_def s f Let_def) (simp add: wc_run0_def)
qed

definition wc_ctypes :: ctypes where
  "wc_ctypes = \<lparr>is_space = (\<lambda>c. c = 32 \<or> 9 \<le> c \<and> c \<le> 13), is_blank = (\<lambda>c. c = 32 \<or> c = 9),
     is_graph = (\<lambda>c. 33 \<le> c \<and> c \<le> 126), isw_space = (\<lambda>c. c = 32 \<or> 9 \<le> c \<and> c \<le> 13),
     isw_blank = (\<lambda>c. c = 32 \<or> c = 9), isw_graph = (\<lambda>c. 33 \<le> c)\<rparr>"

theorem wc_output_witness:
  "wc_main WC_SUS wc_ctypes 2 utf8_two (\<lambda>f. if f = ''t'' then Some (mk_fd ([CHR 0xC3, CHR 0xA4] @ ''b c'' @ [NL])) else None)
     (mk_fd []) ''wc'' [''wc'', ''-m'', ''-w'', ''t''] =
   Some \<lparr>out = ''      2       5  t'' @ [NL], err = [], status = 0\<rparr>"
proof -
  let ?s = "[CHR 0xC3, CHR 0xA4] @ ''b c'' @ [NL]"
  let ?fs = "\<lambda>f. if f = ''t'' then Some (mk_fd ?s) else None"
  have m: "mbtowc_wc 2 utf8_two"
    by (auto simp: mbtowc_wc_def mbtowc_ok_def utf8_two_def eval_nat_numeral split: list.splits)
  have "set ''mw'' \<subseteq> set ''clmw''" "[''t''] \<noteq> []" "operands_ok [''t'']" "''mw'' \<noteq> [] \<or> WC_SUS \<noteq> WC \<or> hd [''t''] \<noteq> ''-''"
    "\<And>a. a \<in> set [''t''] \<Longrightarrow> \<exists>fd. ?fs a = Some fd \<and> fd_good fd" "nl_space wc_ctypes" "1 < (2 :: nat) \<longrightarrow> mbtowc_wc 2 utf8_two"
    using m by (auto simp: operands_ok_def nl_space_def wc_ctypes_def)
  note w = wc_output [where fs = ?fs, OF this, where stdin = "mk_fd []" and progname = "''wc''" and prog = "''wc''"]
  have i: "wc_items 2 utf8_two ?s = [(True, 228), (False, 98), (False, 32), (False, 99), (False, 10)]"
    by (simp add: wc_items.simps utf8_two_def uchar_def)
  have r: "wc_ref WC_SUS wc_ctypes 2 utf8_two (wc_flags ''mw'') ?s = \<lparr>bytec = 6, charc = 5, wordc = 2, linec = 1\<rparr>"
    by (simp add: wc_ref_def wc_flags_def wc_spec_def i wc_words_def wc_lines_def wc_sep_def wc_start_def wc_space_def wc_ctypes_def del: append.simps)
  have d: "decimal 2 = ''2''" "decimal 5 = ''5''" by (simp_all add: decimal.simps)
  have p: "wc_report WC_SUS (wc_selected (wc_flags ''mw'') \<lparr>bytec = 6, charc = 5, wordc = 2, linec = 1\<rparr>) = ''      2       5 ''"
    by (simp add: wc_report_def wc_selected_def wc_flags_def padl_def d) (simp add: eval_nat_numeral)
  show ?thesis using w r p by (simp add: Let_def)
qed

end
