(* ===== verification/Fgrep.thy ===== *)
theory Fgrep
  imports Iblok "HOL-Library.Multiset"
begin

text \<open>
  \<open>fgrep\<close>: the search for fixed strings in \<open>grep/ac.c\<close> with the list of patterns in \<open>grep/plist.c\<close>, for a locale with
  single bytes.  The nodes (\<open>struct words\<close>) lie in a list in the order of their allocation, a pointer is a position
  in it and \<open>w\<close> is the first.  Characters are the \<open>int\<close>s that \<open>nextch\<close> delivers.  A missing
  result (\<open>None\<close>) stands for the use of a NULL pointer or a loop that does not end, which are shown not to happen;
  \<open>Overrun\<close> is a store behind the end of the queue in \<open>cfail\<close>, which does.
\<close>

section \<open>The list of patterns\<close>

record expr =
  e_pat :: string
  e_nl :: bool
  e_null :: bool

text \<open>
  \<open>patstring\<close> and \<open>patfile\<close> with \<open>addpat\<close>, where \<open>es\<close> is the list from \<open>e0\<close> on; the patterns of a file are its lines.
\<close>

fun patstring_loop :: "string \<Rightarrow> string \<Rightarrow> expr list" where
  "patstring_loop p [] = [\<lparr>e_pat = p, e_nl = False, e_null = False\<rparr>]"
| "patstring_loop p (c # cs) =
     (if c = NL then \<lparr>e_pat = p, e_nl = True, e_null = False\<rparr> # patstring_loop [] cs else patstring_loop (p @ [c]) cs)"

definition patstring :: "bool \<Rightarrow> bool \<Rightarrow> expr list \<Rightarrow> string option \<Rightarrow> expr list" where
  "patstring sus fflag es cp =
     (if es \<noteq> [] \<and> \<not> sus \<and> fflag then es
      else (if sus then es else []) @
        (case cp of Some s \<Rightarrow> patstring_loop [] s | None \<Rightarrow> [\<lparr>e_pat = [], e_nl = False, e_null = True\<rparr>]))"

definition pat_line :: "string \<Rightarrow> expr list \<Rightarrow> expr list" where
  "pat_line l es =
     (let nl = (last l = NL) in es @ [\<lparr>e_pat = (if nl then butlast l else l), e_nl = nl, e_null = False\<rparr>])"

definition patfile :: "bool \<Rightarrow> expr list \<Rightarrow> iblok \<Rightarrow> expr list" where
  "patfile sus es ip = ib_while_lin pat_line (ip, 0) (if sus then es else [])"

text \<open>
  \<open>nextch\<close>: the characters it delivers until it returns \<open>EOF\<close>.  \<open>lower\<close> is \<open>tolower\<close>, used with \<open>-i\<close>.
\<close>

fun nextch_all :: "(int \<Rightarrow> int) \<Rightarrow> expr list \<Rightarrow> int list" where
  "nextch_all lower [] = []"
| "nextch_all lower (e # es) =
     map (\<lambda>c. lower (uchar c)) (e_pat e) @ (if es = [] \<and> \<not> e_nl e then [] else 10 # nextch_all lower es)"

section \<open>The trie\<close>

record words =
  n_nst :: "nat option"
  n_link :: "nat option"
  n_fail :: "nat option"
  n_inp :: int
  n_out :: bool

definition node0 :: words where
  "node0 = \<lparr>n_nst = None, n_link = None, n_fail = None, n_inp = 0, n_out = False\<rparr>"

type_synonym heap = "words list"

text \<open>The search among the nodes linked to \<open>s\<close>: it ends at one for \<open>c\<close>, at an unused one, or at the last.\<close>

datatype acplace = Found nat | Unused nat | Last nat

partial_function (option) ac_find :: "heap \<Rightarrow> int \<Rightarrow> nat \<Rightarrow> acplace option" where
  "ac_find ws c s =
     (if n_inp (ws ! s) = c then Some (Found s)
      else if n_inp (ws ! s) = 0 then Some (Unused s)
      else case n_link (ws ! s) of None \<Rightarrow> Some (Last s) | Some t \<Rightarrow> ac_find ws c t)"

definition ac_alloc :: "heap \<Rightarrow> heap" where
  "ac_alloc ws = ws @ [node0]"

definition set_node :: "nat \<Rightarrow> (words \<Rightarrow> words) \<Rightarrow> heap \<Rightarrow> heap" where
  "set_node i f ws = ws[i := f (ws ! i)]"

text \<open>\<open>s->inp = c\<close> with a new node behind it.\<close>

definition ac_put :: "int \<Rightarrow> nat \<Rightarrow> heap \<Rightarrow> heap" where
  "ac_put c s ws = set_node s (\<lambda>n. n\<lparr>n_inp := c, n_nst := Some (length ws)\<rparr>) (ac_alloc ws)"

text \<open>A new node at the end of the list of \<open>s\<close>.\<close>

definition ac_link :: "nat \<Rightarrow> heap \<Rightarrow> heap" where
  "ac_link s ws = set_node s (\<lambda>n. n\<lparr>n_link := Some (length ws)\<rparr>) (ac_alloc ws)"

definition mark_out :: "nat \<Rightarrow> heap \<Rightarrow> heap" where
  "mark_out s ws = set_node s (\<lambda>n. n\<lparr>n_out := True\<rparr>) ws"

text \<open>The \<open>do\<close> loop at \<open>enter\<close>: the node reached and the characters behind the pattern, \<open>None\<close> for \<open>EOF\<close>.\<close>

fun ac_enter :: "int \<Rightarrow> int list \<Rightarrow> nat \<Rightarrow> heap \<Rightarrow> heap \<times> nat \<times> int list option" where
  "ac_enter c [] s ws = (ac_put c s ws, length ws, None)"
| "ac_enter c (d # ds) s ws =
     (if d = 10 then (ac_put c s ws, length ws, Some ds) else ac_enter d ds (length ws) (ac_put c s ws))"

lemma ac_enter_shorter: "ac_enter c cs s ws = (ws', s', Some ds) \<Longrightarrow> length ds < length cs"
  by (induction c cs s ws rule: ac_enter.induct) (auto split: if_splits)

text \<open>From \<open>enter\<close> or \<open>nenter\<close> to \<open>smax->out = 1\<close>.\<close>

definition ac_newword :: "bool \<Rightarrow> int \<Rightarrow> int list \<Rightarrow> nat \<Rightarrow> heap \<Rightarrow> heap \<times> int list option" where
  "ac_newword xflag c cs s ws =
     (case ac_enter c cs s ws of
        (ws, s, r) \<Rightarrow> let ws = (if xflag then ac_put 10 s ws else ws) in (mark_out (length ws - 1) ws, r))"

definition ac_newline :: "nat \<Rightarrow> heap \<Rightarrow> heap" where
  "ac_newline s ws = (let ws = ac_put 10 s ws in mark_out (length ws - 1) ws)"

lemma ac_newword_shorter: "ac_newword xflag c cs s ws = (ws', Some ds) \<Longrightarrow> length ds < length cs"
  by (auto simp: ac_newword_def Let_def dest: ac_enter_shorter split: prod.splits)

text \<open>\<open>cgotofn\<close> from the label \<open>nword\<close> on: one character, and the loop.  What remains to be read is \<open>None\<close> at \<open>EOF\<close>.\<close>

definition ac_place :: "acplace \<Rightarrow> heap \<Rightarrow> heap \<times> nat" where
  "ac_place p ws = (case p of Last t \<Rightarrow> (ac_link t ws, length ws) | Unused t \<Rightarrow> (ws, t) | Found t \<Rightarrow> (ws, t))"

definition cgoto_step :: "bool \<Rightarrow> int \<Rightarrow> int list \<Rightarrow> nat \<Rightarrow> heap \<Rightarrow> (heap \<times> nat \<times> int list option) option" where
  "cgoto_step xflag c cs s ws =
     (if c = 10 \<and> \<not> xflag then Some (mark_out s ws, 0, Some cs)
      else
        case ac_find ws c s of
          None \<Rightarrow> None
        | Some (Found t) \<Rightarrow>
            (case n_nst (ws ! t) of
               None \<Rightarrow> None
             | Some u \<Rightarrow> Some (if c = 10 then (mark_out u ws, 0, Some cs) else (ws, u, Some cs)))
        | Some p \<Rightarrow>
            (case ac_place p ws of
               (ws', t) \<Rightarrow>
                 if c = 10 then Some (ac_newline t ws', 0, Some cs)
                 else (case ac_newword xflag c cs t ws' of (ws'', r) \<Rightarrow> Some (ws'', 0, r))))"

lemma cgoto_step_shorter: "cgoto_step xflag c cs s ws = Some (ws', s', Some ds) \<Longrightarrow> length ds \<le> length cs"
  by (auto simp: cgoto_step_def dest!: ac_newword_shorter split: if_splits option.splits acplace.splits prod.splits)

function cgoto :: "bool \<Rightarrow> int list \<Rightarrow> nat \<Rightarrow> heap \<Rightarrow> heap option" where
  "cgoto xflag [] s ws = Some ws"
| "cgoto xflag (c # cs) s ws =
     (case cgoto_step xflag c cs s ws of
        None \<Rightarrow> None
      | Some (ws', s', None) \<Rightarrow> Some ws'
      | Some (ws', s', Some ds) \<Rightarrow> cgoto xflag ds s' ws')"
  by pat_completeness auto
termination
  by (relation "measure (\<lambda>(xflag, cs, s, ws). length cs)") (auto dest: cgoto_step_shorter)

declare cgoto.simps(2) [simp del]

definition cgotofn :: "bool \<Rightarrow> int list \<Rightarrow> heap option" where
  "cgotofn xflag cs = cgoto xflag cs 0 [node0]"

section \<open>The failure links\<close>

text \<open>The queue: its contents (\<open>rear\<close> is their number), \<open>front\<close> and the number of elements allocated.\<close>

record acqueue =
  q_elems :: "nat list"
  q_front :: nat
  q_size :: nat

abbreviation QSIZE :: nat where "QSIZE \<equiv> 128"

definition q_grow :: "bool \<Rightarrow> acqueue \<Rightarrow> acqueue" where
  "q_grow b q = (if b then q\<lparr>q_size := q_size q + QSIZE\<rparr> else q)"

datatype 'a acres = Overrun | Ok 'a

text \<open>The queue at the label \<open>init\<close>, and inside the loop, where the test depends on whether the queue is empty.\<close>

definition q_init_put :: "nat \<Rightarrow> acqueue \<Rightarrow> acqueue acres" where
  "q_init_put x q =
     (if length (q_elems q) \<ge> q_size q then Overrun
      else let q = q\<lparr>q_elems := q_elems q @ [x]\<rparr> in Ok (q_grow (length (q_elems q) \<ge> q_size q - 1) q))"

definition q_put :: "nat \<Rightarrow> acqueue \<Rightarrow> acqueue acres" where
  "q_put x q =
     (let rear = length (q_elems q)
      in if rear \<ge> q_size q then Overrun
         else if q_front q < rear
         then Ok ((q_grow (rear \<ge> q_size q - 1) q)\<lparr>q_elems := q_elems q @ [x]\<rparr>)
         else Ok (q_grow (rear + 1 = q_front q) (q\<lparr>q_elems := q_elems q @ [x]\<rparr>)))"

partial_function (option) cf_init :: "heap \<Rightarrow> nat \<Rightarrow> acqueue \<Rightarrow> acqueue acres option" where
  "cf_init ws s q =
     (case (if n_inp (ws ! s) \<noteq> 0 then (case n_nst (ws ! s) of None \<Rightarrow> None | Some t \<Rightarrow> Some (q_init_put t q)) else Some (Ok q)) of
        None \<Rightarrow> None
      | Some Overrun \<Rightarrow> Some Overrun
      | Some (Ok q') \<Rightarrow> (case n_link (ws ! s) of None \<Rightarrow> Some (Ok q') | Some t \<Rightarrow> cf_init ws t q'))"

text \<open>The assignment of an \<open>int\<close> to \<open>register char c\<close>.\<close>

definition char_conv :: "int \<Rightarrow> int" where
  "char_conv i = (if i mod 256 < 128 then i mod 256 else i mod 256 - 256)"

text \<open>The loop at \<open>floop\<close>: the state whose character is \<open>c\<close>, if there is one.\<close>

partial_function (option) cf_floop :: "heap \<Rightarrow> int \<Rightarrow> nat option \<Rightarrow> bool \<Rightarrow> nat option option" where
  "cf_floop ws c state bstart =
     (let bstart' = (bstart \<or> state = None); s = (case state of None \<Rightarrow> 0 | Some s \<Rightarrow> s)
      in if n_inp (ws ! s) = c then Some (Some s)
         else case n_link (ws ! s) of
                Some t \<Rightarrow> cf_floop ws c (Some t) bstart'
              | None \<Rightarrow> if \<not> bstart' then cf_floop ws c None bstart' else Some None)"

text \<open>The loop at \<open>qloop\<close>.\<close>

definition cf_set :: "nat \<Rightarrow> nat \<Rightarrow> heap \<Rightarrow> heap" where
  "cf_set f q ws = set_node q (\<lambda>n. n\<lparr>n_fail := Some f, n_out := n_out n \<or> n_out (ws ! f)\<rparr>) ws"

partial_function (option) cf_qloop :: "nat \<Rightarrow> nat \<Rightarrow> heap \<Rightarrow> heap option" where
  "cf_qloop f q ws =
     (let ws' = cf_set f q ws
      in case n_link (ws' ! q) of None \<Rightarrow> Some ws' | Some r \<Rightarrow> cf_qloop f r ws')"

text \<open>The body at \<open>cloop\<close> for one node, and the loop.\<close>

definition cf_node :: "heap \<Rightarrow> nat \<Rightarrow> acqueue \<Rightarrow> (heap \<times> acqueue) acres option" where
  "cf_node ws s q =
     (let c = char_conv (n_inp (ws ! s))
      in if c = 0 then Some (Ok (ws, q))
         else case n_nst (ws ! s) of
                None \<Rightarrow> None
              | Some t \<Rightarrow>
                  (case q_put t q of
                     Overrun \<Rightarrow> Some Overrun
                   | Ok q' \<Rightarrow>
                       (case cf_floop ws c (n_fail (ws ! s)) False of
                          None \<Rightarrow> None
                        | Some None \<Rightarrow> Some (Ok (ws, q'))
                        | Some (Some st) \<Rightarrow>
                            (case n_nst (ws ! st) of
                               None \<Rightarrow> None
                             | Some f \<Rightarrow> (case cf_qloop f t ws of None \<Rightarrow> None | Some ws' \<Rightarrow> Some (Ok (ws', q')))))))"

partial_function (option) cf_cloop :: "heap \<Rightarrow> nat \<Rightarrow> acqueue \<Rightarrow> (heap \<times> acqueue) acres option" where
  "cf_cloop ws s q =
     (case cf_node ws s q of
        None \<Rightarrow> None
      | Some Overrun \<Rightarrow> Some Overrun
      | Some (Ok (ws', q')) \<Rightarrow>
          (case n_link (ws' ! s) of None \<Rightarrow> Some (Ok (ws', q')) | Some t \<Rightarrow> cf_cloop ws' t q'))"

partial_function (option) cf_while :: "heap \<Rightarrow> acqueue \<Rightarrow> heap acres option" where
  "cf_while ws q =
     (if q_front q = length (q_elems q) then Some (Ok ws)
      else
        (let s = q_elems q ! q_front q; q = q_grow (q_front q = q_size q - 1) q; q = q\<lparr>q_front := q_front q + 1\<rparr>
         in case cf_cloop ws s q of
              None \<Rightarrow> None | Some Overrun \<Rightarrow> Some Overrun | Some (Ok (ws', q')) \<Rightarrow> cf_while ws' q'))"

definition cfail :: "heap \<Rightarrow> heap acres option" where
  "cfail ws =
     (case cf_init ws 0 \<lparr>q_elems = [], q_front = 0, q_size = QSIZE\<rparr> of
        None \<Rightarrow> None | Some Overrun \<Rightarrow> Some Overrun | Some (Ok q) \<Rightarrow> cf_while ws q)"

section \<open>Matching\<close>

text \<open>What \<open>match\<close> is set to: \<open>a0_match\<close>, \<open>a1_match\<close> or \<open>ac_match\<close> on the trie that was built.\<close>

datatype matcher = A0 | A1 | AC heap

definition ac_build :: "bool \<Rightarrow> (int \<Rightarrow> int) \<Rightarrow> expr list \<Rightarrow> matcher acres option" where
  "ac_build xflag lower es =
     (if es \<noteq> [] \<and> e_null (hd es) then Some (Ok A0)
      else if \<not> xflag \<and> list_ex (\<lambda>e. e_pat e = []) es then Some (Ok A1)
      else case cgotofn xflag (nextch_all lower es) of
             None \<Rightarrow> None
           | Some ws \<Rightarrow>
               (case cfail ws of None \<Rightarrow> None | Some Overrun \<Rightarrow> Some Overrun | Some (Ok ws') \<Rightarrow> Some (Ok (AC ws'))))"

text \<open>The transition from the label \<open>nstate\<close> on, and from \<open>istate\<close> on: the new state and \<open>failed\<close>.\<close>

partial_function (option) ac_istate :: "heap \<Rightarrow> int \<Rightarrow> nat \<Rightarrow> nat option" where
  "ac_istate ws z c =
     (if n_inp (ws ! c) = z then n_nst (ws ! c)
      else case n_link (ws ! c) of None \<Rightarrow> Some c | Some t \<Rightarrow> ac_istate ws z t)"

partial_function (option) ac_nstate :: "heap \<Rightarrow> int \<Rightarrow> nat \<Rightarrow> bool \<Rightarrow> (nat \<times> bool) option" where
  "ac_nstate ws z c failed =
     (if n_inp (ws ! c) = z then (case n_nst (ws ! c) of None \<Rightarrow> None | Some t \<Rightarrow> Some (t, failed))
      else case n_link (ws ! c) of
             Some t \<Rightarrow> ac_nstate ws z t failed
           | None \<Rightarrow>
               (case n_fail (ws ! c) of
                  None \<Rightarrow> (case ac_istate ws z 0 of None \<Rightarrow> None | Some t \<Rightarrow> Some (t, True))
                | Some t \<Rightarrow> ac_nstate ws z t True))"

text \<open>\<open>z\<close> is the current character, \<open>rest\<close> what follows it, and \<open>done\<close> that \<open>p\<close> has reached the end of the line.\<close>

function ac_scan :: "bool \<Rightarrow> heap \<Rightarrow> nat \<Rightarrow> bool \<Rightarrow> int \<Rightarrow> int list \<Rightarrow> bool \<Rightarrow> bool option" where
  "ac_scan xflag ws c failed z rest done =
     (case ac_nstate ws z c failed of
        None \<Rightarrow> None
      | Some (c', failed') \<Rightarrow>
          if n_out (ws ! c') then Some (\<not> (xflag \<and> (failed' \<or> \<not> done)))
          else case rest of
                 y # ys \<Rightarrow> ac_scan xflag ws c' failed' y ys False
               | [] \<Rightarrow> if z = 10 then Some False else ac_scan xflag ws c' failed' 10 [] True)"
  by pat_completeness auto
termination
  by (relation "measure (\<lambda>(xflag, ws, c, failed, z, rest, done). 2 * length rest + (if z = 10 then 0 else 1))") auto

declare ac_scan.simps [simp del]

definition ac_match :: "bool \<Rightarrow> heap \<Rightarrow> int list \<Rightarrow> bool option" where
  "ac_match xflag ws line =
     (case line of [] \<Rightarrow> ac_scan xflag ws 0 False 10 [] True | z # zs \<Rightarrow> ac_scan xflag ws 0 False z zs False)"

text \<open>A call of \<open>match\<close> on a line; with \<open>-i\<close> the caller has converted the line to lower case (\<open>MF_LOCONV\<close>).\<close>

definition fgrep_match :: "bool \<Rightarrow> (int \<Rightarrow> int) \<Rightarrow> matcher \<Rightarrow> string \<Rightarrow> bool option" where
  "fgrep_match xflag lower m line =
     (case m of
        A0 \<Rightarrow> Some False
      | A1 \<Rightarrow> Some True
      | AC ws \<Rightarrow> ac_match xflag ws (map (\<lambda>c. lower (uchar c)) line))"

declare ac_find.simps [code] cf_init.simps [code] cf_floop.simps [code] cf_qloop.simps [code] cf_cloop.simps [code]
  cf_while.simps [code] ac_istate.simps [code] ac_nstate.simps [code]

section \<open>Labels\<close>

text \<open>
  The label of a node is the string that leads to it, the same for all nodes that are linked with it.  \<open>trie_inv\<close> says
  that the pointers respect the labels: \<open>link\<close> keeps them, \<open>nst\<close> appends the character of the node, \<open>fail\<close> goes to a
  strictly shorter ending.  Of \<open>K\<close>, the strings to be found, an output node has one as an ending, and a label
  that ends in a newline is one.
\<close>

definition node_ok :: "int list set \<Rightarrow> int list list \<Rightarrow> nat \<Rightarrow> words \<Rightarrow> bool" where
  "node_ok K ls i n \<longleftrightarrow>
     (\<forall>j. n_link n = Some j \<longrightarrow> i < j \<and> j < length ls \<and> ls ! j = ls ! i) \<and>
     (\<forall>j. n_nst n = Some j \<longrightarrow> i < j \<and> j < length ls \<and> ls ! j = ls ! i @ [n_inp n]) \<and>
     (\<forall>j. n_fail n = Some j \<longrightarrow> j < length ls \<and> strict_suffix (ls ! j) (ls ! i)) \<and>
     (n_inp n = 0 \<longleftrightarrow> n_nst n = None) \<and> 0 \<le> n_inp n \<and> n_inp n < 256 \<and>
     (n_out n \<longrightarrow> (\<exists>k\<in>K. suffix k (ls ! i))) \<and>
     (ls ! i \<noteq> [] \<longrightarrow> last (ls ! i) = 10 \<longrightarrow> ls ! i \<in> K)"

definition trie_inv :: "int list set \<Rightarrow> heap \<Rightarrow> int list list \<Rightarrow> bool" where
  "trie_inv K ws ls \<longleftrightarrow> ws \<noteq> [] \<and> length ls = length ws \<and> ls ! 0 = [] \<and> (\<forall>i < length ws. node_ok K ls i (ws ! i))"

lemma trie_inv_node: "trie_inv K ws ls \<Longrightarrow> i < length ws \<Longrightarrow> node_ok K ls i (ws ! i)"
  by (simp add: trie_inv_def)

lemma trie_invD:
  assumes "trie_inv K ws ls" "i < length ws"
  shows "n_link (ws ! i) = Some j \<Longrightarrow> i < j \<and> j < length ws \<and> ls ! j = ls ! i"
    "n_nst (ws ! i) = Some j \<Longrightarrow> i < j \<and> j < length ws \<and> ls ! j = ls ! i @ [n_inp (ws ! i)]"
    "n_fail (ws ! i) = Some j \<Longrightarrow> j < length ws \<and> strict_suffix (ls ! j) (ls ! i)"
    "n_inp (ws ! i) = 0 \<longleftrightarrow> n_nst (ws ! i) = None" "0 \<le> n_inp (ws ! i)" "n_inp (ws ! i) < 256"
    "n_out (ws ! i) \<Longrightarrow> \<exists>k\<in>K. suffix k (ls ! i)"
    "ls ! i \<noteq> [] \<Longrightarrow> last (ls ! i) = 10 \<Longrightarrow> ls ! i \<in> K"
proof -
  have l: "length ls = length ws" using assms(1) by (simp add: trie_inv_def)
  note n = trie_inv_node [OF assms, unfolded node_ok_def l]
  show "n_link (ws ! i) = Some j \<Longrightarrow> i < j \<and> j < length ws \<and> ls ! j = ls ! i"
    "n_nst (ws ! i) = Some j \<Longrightarrow> i < j \<and> j < length ws \<and> ls ! j = ls ! i @ [n_inp (ws ! i)]"
    "n_fail (ws ! i) = Some j \<Longrightarrow> j < length ws \<and> strict_suffix (ls ! j) (ls ! i)"
    "n_inp (ws ! i) = 0 \<longleftrightarrow> n_nst (ws ! i) = None" "0 \<le> n_inp (ws ! i)" "n_inp (ws ! i) < 256"
    "n_out (ws ! i) \<Longrightarrow> \<exists>k\<in>K. suffix k (ls ! i)"
    "ls ! i \<noteq> [] \<Longrightarrow> last (ls ! i) = 10 \<Longrightarrow> ls ! i \<in> K" using n by blast+
qed

lemma node_ok_mono: "node_ok K ls i n \<Longrightarrow> i < length ls \<Longrightarrow> node_ok K (ls @ [l]) i n"
  by (simp add: node_ok_def nth_append less_Suc_eq)

lemma trie_inv_root: "trie_inv K ws ls \<Longrightarrow> 0 < length ws \<and> ls ! 0 = []"
  by (auto simp: trie_inv_def)

lemma trie_inv_start: "trie_inv K [node0] [[]]"
  by (simp add: trie_inv_def node_ok_def node0_def)

text \<open>A change of one node, and a new node.\<close>

lemma set_node_simps [simp]: "length (set_node s f ws) = length ws" "length (ac_alloc ws) = Suc (length ws)"
  "s < length ws \<Longrightarrow> set_node s f ws ! s = f (ws ! s)" "i \<noteq> s \<Longrightarrow> set_node s f ws ! i = ws ! i"
  by (simp_all add: set_node_def ac_alloc_def)

lemma ac_alloc_nth [simp]: "i < length ws \<Longrightarrow> ac_alloc ws ! i = ws ! i" "ac_alloc ws ! length ws = node0"
  by (simp_all add: ac_alloc_def nth_append)

lemma trie_inv_set:
  assumes "trie_inv K ws ls" "s < length ws" "node_ok K ls s (f (ws ! s))"
  shows "trie_inv K (set_node s f ws) ls"
proof -
  have "node_ok K ls i (set_node s f ws ! i)" if "i < length ws" for i
    using assms that by (cases "i = s") (simp_all add: trie_inv_def)
  then show ?thesis using assms(1) by (auto simp: trie_inv_def set_node_def)
qed

lemma trie_inv_alloc:
  assumes "trie_inv K ws ls" "l \<noteq> [] \<Longrightarrow> last l = 10 \<Longrightarrow> l \<in> K"
  shows "trie_inv K (ac_alloc ws) (ls @ [l])"
proof -
  have "length ls = length ws" "0 < length ws" "ls ! 0 = []" using assms(1) by (auto simp: trie_inv_def)
  moreover from this have "node_ok K (ls @ [l]) i (ac_alloc ws ! i)" if "i < Suc (length ws)" for i
  proof (cases "i < length ws")
    case True
    then show ?thesis using assms(1) \<open>length ls = length ws\<close> by (simp add: node_ok_mono trie_inv_node)
  next
    case False
    with that have "i = length ls" using \<open>length ls = length ws\<close> by simp
    then show ?thesis using assms(2) \<open>length ls = length ws\<close> by (simp add: node_ok_def node0_def nth_append)
  qed
  ultimately show ?thesis by (auto simp: trie_inv_def nth_append ac_alloc_def [of ws, symmetric]) (simp add: ac_alloc_def)
qed

lemma ac_put_inv:
  assumes i: "trie_inv K ws ls" and s: "s < length ws" "n_inp (ws ! s) = 0" and c: "0 < c" "c < 256"
    and nl: "c = 10 \<Longrightarrow> ls ! s @ [10] \<in> K"
  shows "trie_inv K (ac_put c s ws) (ls @ [ls ! s @ [c]])"
  unfolding ac_put_def
proof (rule trie_inv_set)
  show "trie_inv K (ac_alloc ws) (ls @ [ls ! s @ [c]])" using i nl by (intro trie_inv_alloc) auto
  have "length ls = length ws" using i by (simp add: trie_inv_def)
  then show "node_ok K (ls @ [ls ! s @ [c]]) s ((ac_alloc ws ! s)\<lparr>n_inp := c, n_nst := Some (length ws)\<rparr>)"
    using node_ok_mono [OF trie_inv_node [OF i s(1)], of "ls ! s @ [c]"] s c by (simp add: node_ok_def nth_append)
qed (use s in simp)

lemma ac_put_simps:
  "length (ac_put c s ws) = Suc (length ws)" "s < length ws \<Longrightarrow> ac_put c s ws ! length ws = node0"
  by (simp_all add: ac_put_def)

lemma ac_link_inv:
  assumes i: "trie_inv K ws ls" and s: "s < length ws"
  shows "trie_inv K (ac_link s ws) (ls @ [ls ! s])"
  unfolding ac_link_def
proof (rule trie_inv_set)
  show "trie_inv K (ac_alloc ws) (ls @ [ls ! s])" by (rule trie_inv_alloc [OF i trie_invD(8) [OF i s]])
  have "length ls = length ws" using i by (simp add: trie_inv_def)
  then show "node_ok K (ls @ [ls ! s]) s ((ac_alloc ws ! s)\<lparr>n_link := Some (length ws)\<rparr>)"
    using node_ok_mono [OF trie_inv_node [OF i s], of "ls ! s"] s by (simp add: node_ok_def nth_append)
qed (use s in simp)

lemma ac_link_simps:
  "length (ac_link s ws) = Suc (length ws)" "s < length ws \<Longrightarrow> ac_link s ws ! length ws = node0"
  by (simp_all add: ac_link_def)

lemma mark_out_inv:
  assumes i: "trie_inv K ws ls" and s: "s < length ws" "ls ! s \<in> K"
  shows "trie_inv K (mark_out s ws) ls"
  unfolding mark_out_def
  by (rule trie_inv_set [OF i s(1)]) (use trie_inv_node [OF i s(1)] s(2) in \<open>auto simp: node_ok_def\<close>)

section \<open>Building the trie\<close>

text \<open>The patterns in the characters \<open>nextch\<close> delivers, where \<open>p\<close> has been read of the first.\<close>

fun kws :: "int list \<Rightarrow> int list \<Rightarrow> int list list" where
  "kws p [] = (if p = [] then [] else [p])"
| "kws p (c # cs) = (if c = 10 then p # kws [] cs else kws (p @ [c]) cs)"

definition targets :: "bool \<Rightarrow> int list set \<Rightarrow> int list set" where
  "targets xflag W = (if xflag then (\<lambda>w. w @ [10]) ` W else W)"

fun place_ok :: "heap \<Rightarrow> int list list \<Rightarrow> int \<Rightarrow> int list \<Rightarrow> acplace \<Rightarrow> bool" where
  "place_ok ws ls c l (Found t) = (t < length ws \<and> ls ! t = l \<and> n_inp (ws ! t) = c)"
| "place_ok ws ls c l (Unused t) = (t < length ws \<and> ls ! t = l \<and> n_inp (ws ! t) = 0)"
| "place_ok ws ls c l (Last t) = (t < length ws \<and> ls ! t = l)"

lemma ac_find_ok:
  assumes i: "trie_inv K ws ls"
  shows "s < length ws \<Longrightarrow> \<exists>p. ac_find ws c s = Some p \<and> place_ok ws ls c (ls ! s) p"
proof (induction "length ws - s" arbitrary: s rule: less_induct)
  case less
  show ?case
  proof (cases "n_inp (ws ! s) = c \<or> n_inp (ws ! s) = 0 \<or> n_link (ws ! s) = None")
    case True
    then show ?thesis using less.prems by (auto simp: ac_find.simps [of ws c s])
  next
    case False
    then obtain t where t: "n_link (ws ! s) = Some t" by auto
    then have l: "s < t" "t < length ws" "ls ! t = ls ! s" using trie_invD(1) [OF i less.prems] by auto
    then have "length ws - t < length ws - s" by simp
    from less.hyps [OF this l(2)] l(3) t False show ?thesis by (simp add: ac_find.simps [of ws c s])
  qed
qed

lemma ac_enter_inv:
  assumes "trie_inv K ws ls" "s < length ws" "n_inp (ws ! s) = 0" "c \<noteq> 10"
    and "\<forall>d\<in>set (c # cs). 0 < d \<and> d < 256"
  shows "\<exists>ls'. case ac_enter c cs s ws of
    (ws', s', r) \<Rightarrow> trie_inv K ws' ls' \<and> length ws' = Suc s' \<and> ws' ! s' = node0 \<and>
      kws (ls ! s @ [c]) cs = ls' ! s' # (case r of None \<Rightarrow> [] | Some ds \<Rightarrow> kws [] ds) \<and>
      (case r of None \<Rightarrow> True | Some ds \<Rightarrow> set ds \<subseteq> set cs)"
  using assms
proof (induction c cs s ws arbitrary: ls rule: ac_enter.induct)
  case (1 c s ws)
  have "trie_inv K (ac_put c s ws) (ls @ [ls ! s @ [c]])" using 1 by (intro ac_put_inv) auto
  moreover have "length ls = length ws" using 1 by (simp add: trie_inv_def)
  ultimately show ?case using 1(2) by (intro exI [of _ "ls @ [ls ! s @ [c]]"]) (simp add: ac_put_simps nth_append)
next
  case (2 c d ds s ws)
  have p: "trie_inv K (ac_put c s ws) (ls @ [ls ! s @ [c]])" using 2 by (intro ac_put_inv) auto
  have len: "length ls = length ws" using 2 by (simp add: trie_inv_def)
  show ?case
  proof (cases "d = 10")
    case True
    with p len 2(3) show ?thesis
      by (intro exI [of _ "ls @ [ls ! s @ [c]]"]) (auto simp add: ac_put_simps nth_append)
  next
    case False
    have "length ws < length (ac_put c s ws)" "n_inp (ac_put c s ws ! length ws) = 0"
      using 2(3) by (simp_all add: ac_put_simps node0_def)
    from 2(1) [OF False p this False] 2(6) obtain ls' where
      "case ac_enter d ds (length ws) (ac_put c s ws) of
        (ws', s', r) \<Rightarrow> trie_inv K ws' ls' \<and> length ws' = Suc s' \<and> ws' ! s' = node0 \<and>
          kws ((ls @ [ls ! s @ [c]]) ! length ws @ [d]) ds = ls' ! s' # (case r of None \<Rightarrow> [] | Some ds \<Rightarrow> kws [] ds) \<and>
          (case r of None \<Rightarrow> True | Some es \<Rightarrow> set es \<subseteq> set ds)" by auto
    then show ?thesis using False len by (intro exI [of _ ls']) (auto simp: nth_append split: option.splits)
  qed
qed

lemma mark_out_simps [simp]: "length (mark_out s ws) = length ws"
  by (simp add: mark_out_def)

lemma ac_newline_inv:
  assumes i: "trie_inv K ws ls" "s < length ws" "n_inp (ws ! s) = 0" and k: "ls ! s @ [10] \<in> K"
  shows "trie_inv K (ac_newline s ws) (ls @ [ls ! s @ [10]])"
proof -
  have p: "trie_inv K (ac_put 10 s ws) (ls @ [ls ! s @ [10]])" using assms by (intro ac_put_inv) auto
  have "length ls = length ws" using i by (simp add: trie_inv_def)
  then show ?thesis using k by (auto simp: ac_newline_def Let_def ac_put_simps nth_append intro!: mark_out_inv [OF p])
qed

lemma ac_newword_inv:
  assumes i: "trie_inv (targets xflag W) ws ls" "s < length ws" "n_inp (ws ! s) = 0" "c \<noteq> 10"
    and r: "\<forall>d\<in>set (c # cs). 0 < d \<and> d < 256" and w: "set (kws (ls ! s @ [c]) cs) \<subseteq> W"
    and n: "ac_newword xflag c cs s ws = (ws', r)"
  shows "\<exists>ls'. trie_inv (targets xflag W) ws' ls' \<and>
    (case r of None \<Rightarrow> True | Some ds \<Rightarrow> set (kws [] ds) \<subseteq> W \<and> set ds \<subseteq> set cs)"
proof -
  obtain ws1 s1 r1 where e: "ac_enter c cs s ws = (ws1, s1, r1)" by (metis prod_cases3)
  from ac_enter_inv [OF i r, unfolded e] obtain ls1 where l: "trie_inv (targets xflag W) ws1 ls1" "length ws1 = Suc s1"
    "ws1 ! s1 = node0" "kws (ls ! s @ [c]) cs = ls1 ! s1 # (case r1 of None \<Rightarrow> [] | Some ds \<Rightarrow> kws [] ds)"
    "case r1 of None \<Rightarrow> True | Some ds \<Rightarrow> set ds \<subseteq> set cs" by auto
  have k: "ls1 ! s1 \<in> W" and d: "case r1 of None \<Rightarrow> True | Some ds \<Rightarrow> set (kws [] ds) \<subseteq> W \<and> set ds \<subseteq> set cs"
    using w l(4,5) by (auto split: option.splits)
  show ?thesis
  proof (cases xflag)
    case True
    then have "ws' = ac_newline s1 ws1" "r = r1" using n e by (auto simp: ac_newword_def ac_newline_def Let_def)
    moreover have "trie_inv (targets xflag W) (ac_newline s1 ws1) (ls1 @ [ls1 ! s1 @ [10]])"
      using l k True by (intro ac_newline_inv) (auto simp: node0_def targets_def)
    ultimately show ?thesis using d by blast
  next
    case False
    then have "ws' = mark_out s1 ws1" "r = r1" using n e l(2) by (auto simp: ac_newword_def Let_def)
    moreover have "trie_inv (targets xflag W) (mark_out s1 ws1) ls1"
      using l k False by (intro mark_out_inv) (auto simp: targets_def)
    ultimately show ?thesis using d by blast
  qed
qed

text \<open>The place for a new node: an unused one, or one linked to the last.\<close>

lemma ac_place_inv:
  assumes i: "trie_inv K ws ls" and p: "place_ok ws ls c l p" "\<forall>t. p \<noteq> Found t" and a: "ac_place p ws = (ws', t)"
  obtains ls' where "trie_inv K ws' ls'" "t < length ws'" "ls' ! t = l" "n_inp (ws' ! t) = 0"
proof (cases p)
  case (Last u)
  have "length ls = length ws" using i by (simp add: trie_inv_def)
  moreover have "ws' = ac_link u ws" "t = length ws" "u < length ws" "ls ! u = l" using Last a p by (auto simp: ac_place_def)
  ultimately show ?thesis
    using that [of "ls @ [ls ! u]"] ac_link_inv [OF i, of u] by (simp add: ac_link_simps node0_def nth_append)
qed (use i p a that in \<open>auto simp: ac_place_def\<close>)

lemma cgoto_step_inv:
  assumes inv: "trie_inv (targets xflag W) ws ls" "s < length ws" and w: "set (kws (ls ! s) (c # cs)) \<subseteq> W"
    and r: "\<forall>d\<in>set (c # cs). 0 < d \<and> d < 256"
  shows "\<exists>ws' s' r ls'. cgoto_step xflag c cs s ws = Some (ws', s', r) \<and> trie_inv (targets xflag W) ws' ls' \<and> s' < length ws' \<and>
    (case r of None \<Rightarrow> True | Some ds \<Rightarrow> set (kws (ls' ! s') ds) \<subseteq> W \<and> set ds \<subseteq> set cs)"
proof (cases "c = 10 \<and> \<not> xflag")
  case True
  have "trie_inv (targets xflag W) (mark_out s ws) ls"
    using True w by (intro mark_out_inv [OF inv]) (auto simp: targets_def)
  with True w trie_inv_root [OF this] show ?thesis by (fastforce simp: cgoto_step_def)
next
  case x: False
  obtain p where p: "ac_find ws c s = Some p" "place_ok ws ls c (ls ! s) p" using ac_find_ok [OF inv] by blast
  show ?thesis
  proof (cases "\<exists>t. p = Found t")
    case True
    then obtain t where t: "p = Found t" "t < length ws" "ls ! t = ls ! s" "n_inp (ws ! t) = c" using p by auto
    then obtain u where u: "n_nst (ws ! t) = Some u" using trie_invD(4) [OF inv(1), of t] r by fastforce
    have l: "u < length ws" "ls ! u = ls ! s @ [c]" using trie_invD(2) [OF inv(1) t(2) u] t by auto
    have "trie_inv (targets xflag W) (mark_out u ws) ls" if "c = 10"
      using x that w l by (intro mark_out_inv [OF inv(1)]) (auto simp: targets_def)
    moreover have "cgoto_step xflag c cs s ws = Some (if c = 10 then (mark_out u ws, 0, Some cs) else (ws, u, Some cs))"
      using x p(1) t(1) u by (auto simp: cgoto_step_def)
    moreover have "if c = 10 then set (kws (ls ! 0) cs) \<subseteq> W else set (kws (ls ! u) cs) \<subseteq> W"
      using w l trie_inv_root [OF inv(1)] by auto
    ultimately show ?thesis
      using l inv trie_inv_root [OF inv(1)]
      by (intro exI [of _ "if c = 10 then mark_out u ws else ws"] exI [of _ "if c = 10 then 0 else u"]
          exI [of _ "Some cs"] exI [of _ ls]) (simp split: if_splits)
  next
    case False
    obtain ws1 t1 where a: "ac_place p ws = (ws1, t1)" by fastforce
    obtain ls1 where l: "trie_inv (targets xflag W) ws1 ls1" "t1 < length ws1" "ls1 ! t1 = ls ! s" "n_inp (ws1 ! t1) = 0"
      using ac_place_inv [OF inv(1) p(2) _ a] False by blast
    show ?thesis
    proof (cases "c = 10")
      case True
      have "trie_inv (targets xflag W) (ac_newline t1 ws1) (ls1 @ [ls1 ! t1 @ [10]])"
        using l x w True by (intro ac_newline_inv) (auto simp: targets_def)
      with True x p(1) a False w trie_inv_root [OF this] show ?thesis
        by (cases p) (fastforce simp: cgoto_step_def)+
    next
      case c10: False
      obtain ws2 r2 where n: "ac_newword xflag c cs t1 ws1 = (ws2, r2)" by fastforce
      have "set (kws (ls1 ! t1 @ [c]) cs) \<subseteq> W" using w l c10 by simp
      from ac_newword_inv [OF l(1,2,4) c10 r this n] obtain ls2 where
        l2: "trie_inv (targets xflag W) ws2 ls2"
          "case r2 of None \<Rightarrow> True | Some ds \<Rightarrow> set (kws [] ds) \<subseteq> W \<and> set ds \<subseteq> set cs" by blast
      have "cgoto_step xflag c cs s ws = Some (ws2, 0, r2)"
        using x p(1) a False n c10 by (cases p) (simp_all add: cgoto_step_def)
      with l2 trie_inv_root [OF l2(1)] show ?thesis
        by (intro exI [of _ ws2] exI [of _ "0 :: nat"] exI [of _ r2] exI [of _ ls2]) (auto split: option.splits)
    qed
  qed
qed

lemma cgoto_inv:
  assumes "trie_inv (targets xflag W) ws ls" "s < length ws" "set (kws (ls ! s) cs) \<subseteq> W"
    and "\<forall>d\<in>set cs. 0 < d \<and> d < 256"
  shows "\<exists>ws' ls'. cgoto xflag cs s ws = Some ws' \<and> trie_inv (targets xflag W) ws' ls'"
  using assms
proof (induction xflag cs s ws arbitrary: ls rule: cgoto.induct)
  case (2 xflag c cs s ws)
  from cgoto_step_inv [OF "2.prems"] obtain ws1 s1 r1 ls1 where
    r: "cgoto_step xflag c cs s ws = Some (ws1, s1, r1)" "trie_inv (targets xflag W) ws1 ls1" "s1 < length ws1"
      "case r1 of None \<Rightarrow> True | Some ds \<Rightarrow> set (kws (ls1 ! s1) ds) \<subseteq> W \<and> set ds \<subseteq> set cs" by blast
  show ?case
  proof (cases r1)
    case None
    with r show ?thesis by (auto simp: cgoto.simps)
  next
    case (Some ds)
    with r "2.prems"(4) have "set (kws (ls1 ! s1) ds) \<subseteq> W" "\<forall>d\<in>set ds. 0 < d \<and> d < 256" by auto
    from "2.IH" [OF r(1) refl refl Some r(2,3) this] r(1) Some show ?thesis by (simp add: cgoto.simps)
  qed
qed auto

lemma cgotofn_inv:
  assumes "\<forall>d\<in>set cs. 0 < d \<and> d < 256"
  obtains ws ls where "cgotofn xflag cs = Some ws" "trie_inv (targets xflag (set (kws [] cs))) ws ls"
  using cgoto_inv [OF trie_inv_start, of 0 cs "set (kws [] cs)" xflag] assms by (auto simp: cgotofn_def)

section \<open>Setting the failure links\<close>

lemma trie_inv_length: "trie_inv K ws ls \<Longrightarrow> length ws = length ls"
  by (simp add: trie_inv_def)

lemma cf_set_inv:
  assumes i: "trie_inv K ws ls" and q: "q < length ws" "f < length ws" and s: "strict_suffix (ls ! f) (ls ! q)"
  shows "trie_inv K (cf_set f q ws) ls"
  unfolding cf_set_def
proof (rule trie_inv_set [OF i q(1)])
  have "\<exists>k\<in>K. suffix k (ls ! q)" if "n_out (ws ! f)"
    using trie_invD(7) [OF i q(2) that] s suffix_order.order_trans by (auto simp: strict_suffix_def)
  then show "node_ok K ls q ((ws ! q)\<lparr>n_fail := Some f, n_out := n_out (ws ! q) \<or> n_out (ws ! f)\<rparr>)"
    using trie_inv_node [OF i q(1)] q(2) s trie_inv_length [OF i] by (auto simp: node_ok_def)
qed

lemma cf_qloop_ok:
  "trie_inv K ws ls \<Longrightarrow> q < length ls \<Longrightarrow> f < length ls \<Longrightarrow> strict_suffix (ls ! f) (ls ! q) \<Longrightarrow>
    \<exists>ws'. cf_qloop f q ws = Some ws' \<and> trie_inv K ws' ls"
proof (induction "length ls - q" arbitrary: q ws rule: less_induct)
  case less
  let ?ws = "cf_set f q ws"
  have i: "trie_inv K ?ws ls" using less.prems trie_inv_length [OF less.prems(1)] by (intro cf_set_inv) auto
  show ?case
  proof (cases "n_link (?ws ! q)")
    case None
    then show ?thesis using i by (simp add: cf_qloop.simps [of f q ws] Let_def)
  next
    case (Some r)
    have "q < r" "r < length ls" "ls ! r = ls ! q"
      using trie_invD(1) [OF i _ Some] trie_inv_length [OF i] less.prems by auto
    with less.hyps [OF _ i, of r] less.prems Some show ?thesis by (simp add: cf_qloop.simps [of f q ws] Let_def)
  qed
qed

lemma cf_floop_ok:
  assumes i: "trie_inv K ws ls" and L: "L \<noteq> []"
  shows "(case state of None \<Rightarrow> True | Some s \<Rightarrow> s < length ws \<and> strict_suffix (ls ! s) L) \<Longrightarrow>
    \<exists>r. cf_floop ws c state b = Some r \<and>
      (\<forall>t. r = Some t \<longrightarrow> t < length ws \<and> strict_suffix (ls ! t) L \<and> n_inp (ws ! t) = c)"
proof (induction "(if b then 0 else if state = None then 1 else 2) * Suc (length ws) +
    (length ws - (case state of None \<Rightarrow> 0 | Some s \<Rightarrow> s))" arbitrary: state b rule: less_induct)
  case less
  define s where "s = (case state of None \<Rightarrow> 0 | Some s \<Rightarrow> s)"
  have s: "s < length ws" "strict_suffix (ls ! s) L"
    using less.prems L trie_inv_root [OF i] by (auto simp: s_def strict_suffix_def split: option.splits)
  note step = cf_floop.simps [of ws c state b, folded s_def]
  consider (hit) "n_inp (ws ! s) = c" | (link) t where "n_inp (ws ! s) \<noteq> c" "n_link (ws ! s) = Some t"
    | (root) "n_inp (ws ! s) \<noteq> c" "n_link (ws ! s) = None" "\<not> (b \<or> state = None)"
    | (none) "n_inp (ws ! s) \<noteq> c" "n_link (ws ! s) = None" "b \<or> state = None" by fastforce
  then show ?case
  proof cases
    case hit
    then show ?thesis using s by (simp add: step Let_def)
  next
    case (link t)
    have t: "s < t" "t < length ws" "ls ! t = ls ! s" using trie_invD(1) [OF i s(1) link(2)] by auto
    have "\<exists>r. cf_floop ws c (Some t) (b \<or> state = None) = Some r \<and>
        (\<forall>t. r = Some t \<longrightarrow> t < length ws \<and> strict_suffix (ls ! t) L \<and> n_inp (ws ! t) = c)"
      by (rule less.hyps) (use t s in \<open>auto simp: s_def split: option.splits\<close>)
    with link show ?thesis by (simp add: step Let_def)
  next
    case root
    have "\<exists>r. cf_floop ws c None b = Some r \<and>
        (\<forall>t. r = Some t \<longrightarrow> t < length ws \<and> strict_suffix (ls ! t) L \<and> n_inp (ws ! t) = c)"
      by (rule less.hyps) (use root in auto)
    moreover have "cf_floop ws c state b = cf_floop ws c None b"
      unfolding step Let_def using root by auto
    ultimately show ?thesis by simp
  next
    case none
    then show ?thesis by (simp add: step Let_def)
  qed
qed

lemma q_put_ok: "q_put t q = Ok q' \<Longrightarrow> q_elems q' = q_elems q @ [t] \<and> q_front q' = q_front q"
  by (auto simp: q_put_def q_grow_def Let_def split: if_splits)

lemma q_init_put_ok: "q_init_put t q = Ok q' \<Longrightarrow> q_elems q' = q_elems q @ [t] \<and> q_front q' = q_front q"
  by (auto simp: q_init_put_def q_grow_def Let_def split: if_splits)

text \<open>What the steps of \<open>cfail\<close> at the node \<open>s\<close> may append to the queue: children of nodes from \<open>s\<close> on.\<close>

definition q_ext :: "int list list \<Rightarrow> nat \<Rightarrow> acqueue \<Rightarrow> acqueue \<Rightarrow> bool" where
  "q_ext ls s q q' \<longleftrightarrow> q_front q' = q_front q \<and>
     (\<exists>ks. q_elems q' = q_elems q @ ks \<and> (\<forall>k\<in>set ks. s < k \<and> k < length ls \<and> ls ! k \<noteq> []))"

lemma q_ext_refl [simp]: "q_ext ls s q q"
  by (simp add: q_ext_def)

lemma q_ext_trans: "q_ext ls s q q' \<Longrightarrow> q_ext ls t q' q'' \<Longrightarrow> s \<le> t \<Longrightarrow> q_ext ls s q q''"
  unfolding q_ext_def by (elim conjE exE) (rule conjI, simp, rule exI, rule conjI, simp, fastforce)

lemma q_ext_put:
  assumes "trie_inv K ws ls" "s < length ws" "n_nst (ws ! s) = Some t" "q_elems q' = q_elems q @ [t]" "q_front q' = q_front q"
  shows "q_ext ls s q q'"
  using trie_invD(2) [OF assms(1-3)] assms(4,5) trie_inv_length [OF assms(1)] by (auto simp: q_ext_def)

lemma cf_node_ok:
  assumes i: "trie_inv K ws ls" and s: "s < length ls" "ls ! s \<noteq> []"
  shows "\<exists>r. cf_node ws s q = Some r \<and> (\<forall>ws' q'. r = Ok (ws', q') \<longrightarrow> trie_inv K ws' ls \<and> q_ext ls s q q')"
proof -
  define c where "c = char_conv (n_inp (ws ! s))"
  have s': "s < length ws" using s trie_inv_length [OF i] by simp
  show ?thesis
  proof (cases "c = 0")
    case True
    then show ?thesis using i by (simp add: cf_node_def c_def [symmetric])
  next
    case False
    then have "n_inp (ws ! s) \<noteq> 0" by (auto simp: c_def char_conv_def)
    then obtain t where t: "n_nst (ws ! s) = Some t" using trie_invD(4) [OF i s'] by auto
    note tl = trie_invD(2) [OF i s' t]
    obtain f where f: "cf_floop ws c (n_fail (ws ! s)) False = Some f"
      "\<forall>u. f = Some u \<longrightarrow> u < length ws \<and> strict_suffix (ls ! u) (ls ! s) \<and> n_inp (ws ! u) = c"
    proof -
      have "case n_fail (ws ! s) of None \<Rightarrow> True | Some u \<Rightarrow> u < length ws \<and> strict_suffix (ls ! u) (ls ! s)"
        using trie_invD(3) [OF i s'] by (simp split: option.splits)
      from cf_floop_ok [OF i s(2) this, of c False] that show thesis by blast
    qed
    show ?thesis
    proof (cases "q_put t q")
      case Overrun
      then show ?thesis using False t by (simp add: cf_node_def c_def [symmetric])
    next
      case (Ok q')
      have q': "q_ext ls s q q'" using q_put_ok [OF Ok] q_ext_put [OF i s' t] by blast
      show ?thesis
      proof (cases f)
        case None
        then show ?thesis using False t Ok f q' i by (simp add: cf_node_def c_def [symmetric])
      next
        case (Some u)
        with f have u: "u < length ws" "strict_suffix (ls ! u) (ls ! s)" "n_inp (ws ! u) = c" by auto
        then obtain v where v: "n_nst (ws ! u) = Some v" using trie_invD(4) [OF i u(1)] False by auto
        note vl = trie_invD(2) [OF i u(1) v]
        have "n_inp (ws ! s) = c"
          using trie_invD(5,6) [OF i s'] trie_invD(5) [OF i u(1)] u(3) by (auto simp: c_def char_conv_def split: if_splits)
        then have "strict_suffix (ls ! v) (ls ! t)" using vl tl u(2,3) by (simp add: strict_suffix_def)
        then obtain ws' where "cf_qloop v t ws = Some ws'" "trie_inv K ws' ls"
          using cf_qloop_ok [OF i] vl tl trie_inv_length [OF i] by metis
        then show ?thesis using False t Ok f(1) Some v q' by (simp add: cf_node_def c_def [symmetric])
      qed
    qed
  qed
qed

lemma cf_cloop_ok:
  "trie_inv K ws ls \<Longrightarrow> s < length ls \<Longrightarrow> ls ! s \<noteq> [] \<Longrightarrow>
   \<exists>r. cf_cloop ws s q = Some r \<and> (\<forall>ws' q'. r = Ok (ws', q') \<longrightarrow> trie_inv K ws' ls \<and> q_ext ls s q q')"
proof (induction "length ls - s" arbitrary: s ws q rule: less_induct)
  case less
  obtain r where r: "cf_node ws s q = Some r"
    "\<forall>ws' q'. r = Ok (ws', q') \<longrightarrow> trie_inv K ws' ls \<and> q_ext ls s q q'" using cf_node_ok [OF less.prems] by blast
  show ?case
  proof (cases r)
    case Overrun
    then show ?thesis using r by (simp add: cf_cloop.simps [of ws s q])
  next
    case (Ok x)
    then obtain ws1 q1 where x: "r = Ok (ws1, q1)" by (cases x) auto
    with r have i: "trie_inv K ws1 ls" and q1: "q_ext ls s q q1" by auto
    show ?thesis
    proof (cases "n_link (ws1 ! s)")
      case None
      then show ?thesis using r(1) x i q1 by (simp add: cf_cloop.simps [of ws s q])
    next
      case (Some t)
      have t: "s < t" "t < length ls" "ls ! t \<noteq> []"
        using trie_invD(1) [OF i _ Some] trie_inv_length [OF i] less.prems by auto
      have "length ls - t < length ls - s" using t less.prems by simp
      from less.hyps [OF this i t(2,3), of q1] obtain r' where
        "cf_cloop ws1 t q1 = Some r'" "\<forall>ws' q'. r' = Ok (ws', q') \<longrightarrow> trie_inv K ws' ls \<and> q_ext ls t q1 q'" by blast
      moreover have "q_ext ls s q q'" if "q_ext ls t q1 q'" for q'
        using q_ext_trans [OF q1 that] t(1) by simp
      ultimately show ?thesis using r(1) x Some by (simp add: cf_cloop.simps [of ws s q])
    qed
  qed
qed

definition q_ok :: "int list list \<Rightarrow> acqueue \<Rightarrow> bool" where
  "q_ok ls q \<longleftrightarrow> q_front q \<le> length (q_elems q) \<and> (\<forall>k\<in>set (q_elems q). k < length ls \<and> ls ! k \<noteq> [])"

text \<open>The loop ends, because every node taken from the queue is replaced by nodes that were allocated later.\<close>

lemma cf_while_ok:
  assumes "trie_inv K ws ls" "q_ok ls q"
  shows "\<exists>r. cf_while ws q = Some r \<and> (\<forall>ws'. r = Ok ws' \<longrightarrow> trie_inv K ws' ls)"
proof -
  let ?R = "mult (measure (\<lambda>i. length ls - i))"
  have "wf ?R" by (intro wf_mult wf_measure)
  then show ?thesis
    using assms
  proof (induction "mset (drop (q_front q) (q_elems q))" arbitrary: ws q rule: wf_induct_rule)
    case less
    show ?case
    proof (cases "q_front q = length (q_elems q)")
      case True
      then show ?thesis using less.prems by (simp add: cf_while.simps [of ws q])
    next
      case False
      define s where "s = q_elems q ! q_front q"
      define q1 where "q1 = (q_grow (q_front q = q_size q - 1) q)\<lparr>q_front := q_front q + 1\<rparr>"
      have f: "q_front q < length (q_elems q)" using False less.prems(2) by (simp add: q_ok_def)
      have s: "s < length ls" "ls ! s \<noteq> []" using less.prems(2) f by (auto simp: s_def q_ok_def)
      have q1: "q_elems q1 = q_elems q" "q_front q1 = Suc (q_front q)" by (simp_all add: q1_def q_grow_def)
      have eq: "cf_while ws q = (case cf_cloop ws s q1 of
          None \<Rightarrow> None | Some Overrun \<Rightarrow> Some Overrun | Some (Ok (ws', q')) \<Rightarrow> cf_while ws' q')"
        using False by (simp add: cf_while.simps [of ws q] Let_def s_def q1_def q_grow_def)
      obtain r where r: "cf_cloop ws s q1 = Some r" "\<forall>ws' q'. r = Ok (ws', q') \<longrightarrow> trie_inv K ws' ls \<and> q_ext ls s q1 q'"
        using cf_cloop_ok [OF less.prems(1) s] by blast
      show ?thesis
      proof (cases r)
        case Overrun
        then show ?thesis using eq r by simp
      next
        case (Ok x)
        then obtain ws2 q2 where x: "r = Ok (ws2, q2)" by (cases x) auto
        with r have i: "trie_inv K ws2 ls" and e: "q_ext ls s q1 q2" by auto
        then obtain ks where ks: "q_elems q2 = q_elems q @ ks" "\<forall>k\<in>set ks. s < k \<and> k < length ls \<and> ls ! k \<noteq> []"
          "q_front q2 = Suc (q_front q)" using q1 by (auto simp: q_ext_def)
        have "mset (drop (q_front q2) (q_elems q2)) = mset (drop (Suc (q_front q)) (q_elems q)) + mset ks"
          using ks f by simp
        moreover have "mset (drop (q_front q) (q_elems q)) = mset (drop (Suc (q_front q)) (q_elems q)) + {#s#}"
          using f by (simp add: s_def Cons_nth_drop_Suc [symmetric])
        moreover have "(mset (drop (Suc (q_front q)) (q_elems q)) + mset ks,
            mset (drop (Suc (q_front q)) (q_elems q)) + {#s#}) \<in> ?R"
          using ks(2) by (intro one_step_implies_mult) auto
        ultimately have "(mset (drop (q_front q2) (q_elems q2)), mset (drop (q_front q) (q_elems q))) \<in> ?R" by simp
        moreover have "q_ok ls q2" using ks less.prems(2) f by (auto simp: q_ok_def)
        ultimately show ?thesis using less.hyps [OF _ i] eq r(1) x by simp
      qed
    qed
  qed
qed

lemma cf_init_ok:
  "trie_inv K ws ls \<Longrightarrow> s < length ls \<Longrightarrow> q_ok ls q \<Longrightarrow>
   \<exists>r. cf_init ws s q = Some r \<and> (\<forall>q'. r = Ok q' \<longrightarrow> q_ok ls q')"
proof (induction "length ls - s" arbitrary: s q rule: less_induct)
  case less
  note i = less.prems(1)
  have s: "s < length ws" using less.prems trie_inv_length [OF i] by simp
  obtain r where r: "(if n_inp (ws ! s) \<noteq> 0 then (case n_nst (ws ! s) of None \<Rightarrow> None | Some t \<Rightarrow> Some (q_init_put t q)) else Some (Ok q))
      = Some r" "\<forall>q'. r = Ok q' \<longrightarrow> q_ok ls q'"
  proof (cases "n_inp (ws ! s) = 0")
    case True
    then show ?thesis using that [of "Ok q"] less.prems by simp
  next
    case False
    then obtain t where t: "n_nst (ws ! s) = Some t" using trie_invD(4) [OF i s] by auto
    have "q_ok ls q'" if "q_init_put t q = Ok q'" for q'
      using q_init_put_ok [OF that] less.prems(3) trie_invD(2) [OF i s t] trie_inv_length [OF i] by (auto simp: q_ok_def)
    then show ?thesis using that [of "q_init_put t q"] False t by simp
  qed
  show ?case
  proof (cases r)
    case Overrun
    then show ?thesis using r by (simp add: cf_init.simps [of ws s q])
  next
    case (Ok q1)
    show ?thesis
    proof (cases "n_link (ws ! s)")
      case None
      then show ?thesis using r Ok by (simp add: cf_init.simps [of ws s q])
    next
      case (Some t)
      have "s < t" "t < length ls" using trie_invD(1) [OF i s Some] trie_inv_length [OF i] by auto
      with less.hyps [OF _ i, of t q1] r Ok Some less.prems show ?thesis by (simp add: cf_init.simps [of ws s q])
    qed
  qed
qed

lemma cfail_ok:
  assumes "trie_inv K ws ls"
  shows "\<exists>r. cfail ws = Some r \<and> (\<forall>ws'. r = Ok ws' \<longrightarrow> trie_inv K ws' ls)"
proof -
  have l: "0 < length ls" using trie_inv_root [OF assms] trie_inv_length [OF assms] by simp
  obtain r where r: "cf_init ws 0 \<lparr>q_elems = [], q_front = 0, q_size = QSIZE\<rparr> = Some r" "\<forall>q'. r = Ok q' \<longrightarrow> q_ok ls q'"
    using cf_init_ok [OF assms l, of "\<lparr>q_elems = [], q_front = 0, q_size = QSIZE\<rparr>"] by (auto simp: q_ok_def)
  show ?thesis
  proof (cases r)
    case Overrun
    then show ?thesis using r by (simp add: cfail_def)
  next
    case (Ok q)
    then show ?thesis using r cf_while_ok [OF assms, of q] by (simp add: cfail_def)
  qed
qed

section \<open>The search\<close>

lemma ac_istate_ok:
  assumes i: "trie_inv K ws ls" and z: "z \<noteq> 0"
  shows "c < length ws \<Longrightarrow> ls ! c = [] \<Longrightarrow>
    \<exists>t. ac_istate ws z c = Some t \<and> t < length ws \<and> suffix (ls ! t) [z]"
proof (induction "length ws - c" arbitrary: c rule: less_induct)
  case less
  show ?case
  proof (cases "n_inp (ws ! c) = z")
    case True
    then obtain t where t: "n_nst (ws ! c) = Some t" using trie_invD(4) [OF i less.prems(1)] z by auto
    from trie_invD(2) [OF i less.prems(1) t] True t less.prems(2) show ?thesis by (simp add: ac_istate.simps [of ws z c])
  next
    case False
    show ?thesis
    proof (cases "n_link (ws ! c)")
      case None
      then show ?thesis using False less.prems by (simp add: ac_istate.simps [of ws z c])
    next
      case (Some t)
      have t: "c < t" "t < length ws" "ls ! t = []" using trie_invD(1) [OF i less.prems(1) Some] less.prems by auto
      then have "length ws - t < length ws - c" by simp
      from less.hyps [OF this t(2,3)] False Some show ?thesis by (simp add: ac_istate.simps [of ws z c])
    qed
  qed
qed

text \<open>
  A transition ends, and the label of the new state is an ending of the old one with the character appended:
  all of it if there was no failure.
\<close>

lemma ac_nstate_ok:
  assumes i: "trie_inv K ws ls" and z: "z \<noteq> 0"
  shows "c < length ws \<Longrightarrow> \<exists>t f. ac_nstate ws z c failed = Some (t, f) \<and> t < length ws \<and>
    suffix (ls ! t) (ls ! c @ [z]) \<and> (\<not> f \<longrightarrow> \<not> failed \<and> ls ! t = ls ! c @ [z])"
proof (induction "length (ls ! c) * Suc (length ws) + (length ws - c)" arbitrary: c failed rule: less_induct)
  case less
  note step = ac_nstate.simps [of ws z c failed]
  consider (hit) t where "n_inp (ws ! c) = z" "n_nst (ws ! c) = Some t"
    | (link) t where "n_inp (ws ! c) \<noteq> z" "n_link (ws ! c) = Some t"
    | (fail) t where "n_inp (ws ! c) \<noteq> z" "n_link (ws ! c) = None" "n_fail (ws ! c) = Some t"
    | (root) "n_inp (ws ! c) \<noteq> z" "n_link (ws ! c) = None" "n_fail (ws ! c) = None"
    using trie_invD(4) [OF i less.prems] z by (metis not_None_eq)
  then show ?case
  proof cases
    case hit
    then show ?thesis using trie_invD(2) [OF i less.prems hit(2)] by (simp add: step)
  next
    case (link t)
    have t: "c < t" "t < length ws" "ls ! t = ls ! c" using trie_invD(1) [OF i less.prems link(2)] by auto
    from less.hyps [OF _ t(2), of failed] t link show ?thesis by (simp add: step)
  next
    case (fail t)
    have t: "t < length ws" "strict_suffix (ls ! t) (ls ! c)" using trie_invD(3) [OF i less.prems fail(3)] by auto
    have "length (ls ! t) * Suc (length ws) + (length ws - t) < length (ls ! c) * Suc (length ws) + (length ws - c)"
    proof -
      have "Suc (length (ls ! t)) \<le> length (ls ! c)" using suffix_length_less [OF t(2)] by simp
      then have "Suc (length (ls ! t)) * Suc (length ws) \<le> length (ls ! c) * Suc (length ws)" by (rule mult_le_mono1)
      then show ?thesis using less.prems by simp
    qed
    from less.hyps [OF this t(1), of True] obtain u f where
      u: "ac_nstate ws z t True = Some (u, f)" "u < length ws" "suffix (ls ! u) (ls ! t @ [z])" "f" by auto
    have "suffix (ls ! t @ [z]) (ls ! c @ [z])" using t(2) by (simp add: strict_suffix_def)
    from suffix_order.order_trans [OF u(3) this] u fail show ?thesis by (auto simp: step)
  next
    case root
    obtain t where t: "ac_istate ws z 0 = Some t" "t < length ws" "suffix (ls ! t) [z]"
      using ac_istate_ok [OF i z] trie_inv_root [OF i] by blast
    have "suffix [z] (ls ! c @ [z])" by (simp add: suffix_def)
    from suffix_order.order_trans [OF t(3) this] t root show ?thesis by (auto simp: step)
  qed
qed

lemma ac_scan_ok:
  assumes i: "trie_inv K ws ls"
  shows "c < length ws \<Longrightarrow> suffix (ls ! c) T \<Longrightarrow> \<not> failed \<longrightarrow> ls ! c = T \<Longrightarrow> z \<noteq> 0 \<Longrightarrow> 0 \<notin> set rest \<Longrightarrow>
    done \<longrightarrow> z = 10 \<and> rest = [] \<Longrightarrow>
    \<exists>r. ac_scan xflag ws c failed z rest done = Some r \<and>
      (r \<longrightarrow> (\<exists>k\<in>K. sublist k (T @ z # rest @ (if done then [] else [10]))) \<and>
        (xflag \<longrightarrow> T @ z # rest @ (if done then [] else [10]) \<in> K))"
proof (induction "2 * length rest + (if z = 10 then 0 else 1 :: nat)" arbitrary: c failed z rest "done" T rule: less_induct)
  case less
  let ?F = "T @ z # rest @ (if done then [] else [10])"
  obtain c' f' where n: "ac_nstate ws z c failed = Some (c', f')" "c' < length ws" "suffix (ls ! c') (ls ! c @ [z])"
    "\<not> f' \<longrightarrow> \<not> failed \<and> ls ! c' = ls ! c @ [z]" using ac_nstate_ok [OF i less.prems(4,1), of failed] by blast
  have "suffix (ls ! c @ [z]) (T @ [z])" using less.prems(2) by simp
  then have T: "suffix (ls ! c') (T @ [z])" "\<not> f' \<longrightarrow> ls ! c' = T @ [z]"
    using n(3,4) less.prems(3) suffix_order.order_trans by auto
  show ?case
  proof (cases "n_out (ws ! c')")
    case True
    then obtain k where k: "k \<in> K" "suffix k (T @ [z])"
      using trie_invD(7) [OF i n(2)] T(1) suffix_order.order_trans by blast
    have "sublist k (T @ [z])" using k(2) by (rule suffix_imp_sublist)
    moreover have "sublist (T @ [z]) ?F" by (auto simp: sublist_def intro: exI [of _ "[]"])
    ultimately have "\<exists>k\<in>K. sublist k ?F" using k(1) sublist_order.order_trans by blast
    moreover have "?F \<in> K" if "\<not> f'" "done"
      using that T(2) less.prems(6) trie_invD(8) [OF i n(2)] by simp
    ultimately show ?thesis using True n(1) by (auto simp: ac_scan.simps [of xflag ws c])
  next
    case False
    show ?thesis
    proof (cases rest)
      case (Cons y ys)
      have "\<exists>r. ac_scan xflag ws c' f' y ys False = Some r \<and>
          (r \<longrightarrow> (\<exists>k\<in>K. sublist k ((T @ [z]) @ y # ys @ (if False then [] else [10]))) \<and>
            (xflag \<longrightarrow> (T @ [z]) @ y # ys @ (if False then [] else [10]) \<in> K))"
        by (rule less.hyps) (use Cons T n(2) less.prems in auto)
      with False n(1) Cons less.prems(6) show ?thesis by (auto simp: ac_scan.simps [of xflag ws c])
    next
      case Nil
      show ?thesis
      proof (cases "z = 10")
        case True
        then have "ac_scan xflag ws c failed z rest done = Some False"
          using Nil False n(1) by (simp add: ac_scan.simps [of xflag ws c])
        then show ?thesis by auto
      next
        case z: False
        have "\<exists>r. ac_scan xflag ws c' f' 10 [] True = Some r \<and>
            (r \<longrightarrow> (\<exists>k\<in>K. sublist k ((T @ [z]) @ 10 # [] @ (if True then [] else [10]))) \<and>
              (xflag \<longrightarrow> (T @ [z]) @ 10 # [] @ (if True then [] else [10]) \<in> K))"
          by (rule less.hyps) (use Nil z T n(2) less.prems in auto)
        with False n(1) Nil z less.prems(6) show ?thesis by (auto simp: ac_scan.simps [of xflag ws c])
      qed
    qed
  qed
qed

lemma ac_match_ok:
  assumes "trie_inv K ws ls" "0 \<notin> set line"
  shows "\<exists>r. ac_match xflag ws line = Some r \<and>
    (r \<longrightarrow> (\<exists>k\<in>K. sublist k (line @ [10])) \<and> (xflag \<longrightarrow> line @ [10] \<in> K))"
proof (cases line)
  case Nil
  with ac_scan_ok [OF assms(1), of 0 "[]" False 10 "[]" True xflag] trie_inv_root [OF assms(1)] show ?thesis
    by (simp add: ac_match_def)
next
  case (Cons z zs)
  with ac_scan_ok [OF assms(1), of 0 "[]" False z zs False xflag] trie_inv_root [OF assms(1)] assms(2) show ?thesis
    by (simp add: ac_match_def)
qed

section \<open>From the patterns to the lines\<close>

lemma kws_app: "10 \<notin> set q \<Longrightarrow> kws p (q @ cs) = kws (p @ q) cs"
  by (induction q arbitrary: p) auto

lemma kws_nextch:
  assumes "\<And>e. e \<in> set es \<Longrightarrow> 10 \<notin> (\<lambda>c. lower (uchar c)) ` set (e_pat e)"
  shows "set (kws [] (nextch_all lower es)) \<subseteq> (\<lambda>e. map (\<lambda>c. lower (uchar c)) (e_pat e)) ` set es"
  using assms
proof (induction lower es rule: nextch_all.induct)
  case (2 lower e es)
  let ?w = "map (\<lambda>c. lower (uchar c)) (e_pat e)"
  have w: "10 \<notin> set ?w" using 2(2) [of e] by simp
  show ?case
  proof (cases "es = [] \<and> \<not> e_nl e")
    case True
    then show ?thesis using kws_app [OF w, of "[]" "[]"] by simp
  next
    case False
    then have "kws [] (nextch_all lower (e # es)) = ?w # kws [] (nextch_all lower es)"
      using kws_app [OF w, of "[]"] by simp
    with 2(1) [OF False] 2(2) show ?thesis by auto
  qed
qed simp

lemma patstring_loop_pats: "NL \<notin> set p \<Longrightarrow> map e_pat (patstring_loop p s) = splitp (\<lambda>c. c = NL) (p @ s)"
proof (induction p s rule: patstring_loop.induct)
  case (2 p c cs)
  then show ?case
    using splitp_app [where xs = p and P = "\<lambda>c. c = NL" and y = NL and ys = cs] by (cases "c = NL") fastforce+
next
  case (1 p)
  then have "\<And>x. x \<in> set p \<Longrightarrow> \<not> x = NL" by auto
  from splitp_none [where P = "\<lambda>c. c = NL", OF this] show ?case by simp
qed

lemma splitp_subset: "x \<in> set (splitp P xs) \<Longrightarrow> c \<in> set x \<Longrightarrow> c \<in> set xs \<and> \<not> P c"
proof (induction xs arbitrary: x)
  case (Cons y ys)
  obtain a as where a: "splitp P ys = a # as" using splitp_ne by (metis list.exhaust)
  with Cons.IH [of a] Cons.IH [of x] Cons.prems show ?case by (auto split: if_splits)
qed simp

lemma patstring_loop_flags: "e \<in> set (patstring_loop p s) \<Longrightarrow> \<not> e_null e"
  by (induction p s rule: patstring_loop.induct) (auto split: if_splits)

lemma patstring_loop_ne [simp]: "patstring_loop p s \<noteq> []"
  by (induction p s rule: patstring_loop.induct) auto

text \<open>What is documented of \<open>tolower\<close>, which is used with \<open>-i\<close>; without it \<open>lower\<close> is the identity.\<close>

definition lower_ok :: "(int \<Rightarrow> int) \<Rightarrow> bool" where
  "lower_ok lower \<longleftrightarrow> (\<forall>c. 0 < c \<longrightarrow> c < 256 \<longrightarrow> 0 < lower c \<and> lower c < 256 \<and> (lower c = 10 \<longleftrightarrow> c = 10))"

lemma lower_uchar:
  assumes "lower_ok lower" "c \<noteq> NUL"
  shows "0 < lower (uchar c)" "lower (uchar c) < 256" "lower (uchar c) = 10 \<longleftrightarrow> c = NL"
proof -
  have "uchar NL = 10" by (simp add: uchar_def)
  then have "uchar c = 10 \<longleftrightarrow> c = NL" by (metis uchar_inj)
  with assms uchar_pos [OF assms(2)] uchar_range(2) [of c]
  show "0 < lower (uchar c)" "lower (uchar c) < 256" "lower (uchar c) = 10 \<longleftrightarrow> c = NL" by (auto simp: lower_ok_def)
qed

lemma nextch_all_range:
  assumes "lower_ok lower" "\<And>e. e \<in> set es \<Longrightarrow> NUL \<notin> set (e_pat e)"
  shows "\<forall>d\<in>set (nextch_all lower es). 0 < d \<and> d < 256"
  using assms(2)
proof (induction es)
  case (Cons e es)
  have "0 < lower (uchar c) \<and> lower (uchar c) < 256" if "c \<in> set (e_pat e)" for c
    using lower_uchar [OF assms(1), of c] Cons.prems [of e] that by auto
  with Cons show ?case by auto
qed simp

lemma lower_text:
  assumes "lower_ok lower" "NUL \<notin> set l"
  shows "0 \<notin> set (map (\<lambda>c. lower (uchar c)) l)" "NL \<notin> set l \<Longrightarrow> 10 \<notin> set (map (\<lambda>c. lower (uchar c)) l)"
proof -
  have "0 < lower (uchar c) \<and> (lower (uchar c) = 10 \<longleftrightarrow> c = NL)" if "c \<in> set l" for c
    using lower_uchar(1,3) [OF assms(1), of c] assms(2) that by auto
  then show "0 \<notin> set (map (\<lambda>c. lower (uchar c)) l)" "NL \<notin> set l \<Longrightarrow> 10 \<notin> set (map (\<lambda>c. lower (uchar c)) l)" by force+
qed

lemma sublist_no_nl: "sublist k (l @ [10]) \<Longrightarrow> (10 :: int) \<notin> set k \<Longrightarrow> sublist k l"
proof -
  assume "sublist k (l @ [10])" and k: "10 \<notin> set k"
  then obtain ps ss where e: "l @ [10] = ps @ k @ ss" by (auto simp: sublist_def)
  then have "ss \<noteq> [] \<or> k = []" using k by (metis append.right_neutral in_set_conv_decomp last_in_set last_appendR snoc_eq_iff_butlast)
  then show ?thesis
  proof
    assume "ss \<noteq> []"
    with e have "l = ps @ k @ butlast ss" by (metis butlast_append butlast_snoc append_is_Nil_conv)
    then show ?thesis by (auto simp: sublist_def)
  qed simp
qed

lemma trie_inv_subset: "trie_inv K ws ls \<Longrightarrow> K \<subseteq> K' \<Longrightarrow> trie_inv K' ws ls"
proof -
  assume i: "trie_inv K ws ls" and k: "K \<subseteq> K'"
  have "node_ok K' ls j n" if "node_ok K ls j n" for j n
    using that k unfolding node_ok_def by blast
  then show ?thesis using i by (simp add: trie_inv_def)
qed

text \<open>The trie that \<open>ac_build\<close> makes keeps the labels, and building it ends.\<close>

lemma ac_build_ok:
  assumes "lower_ok lower" "es \<noteq> []" "\<And>e. e \<in> set es \<Longrightarrow> \<not> e_null e \<and> NUL \<notin> set (e_pat e) \<and> NL \<notin> set (e_pat e)"
  defines "W \<equiv> (\<lambda>e. map (\<lambda>c. lower (uchar c)) (e_pat e)) ` set es"
  obtains r where "ac_build xflag lower es = Some r"
    "\<And>m. r = Ok m \<Longrightarrow> (m = A1 \<and> \<not> xflag \<and> [] \<in> W) \<or> (\<exists>ws ls. m = AC ws \<and> trie_inv (targets xflag W) ws ls)"
proof -
  have nl: "10 \<notin> (\<lambda>c. lower (uchar c)) ` set (e_pat e)" if "e \<in> set es" for e
    using assms(3) [OF that] lower_text(2) [OF assms(1), of "e_pat e"] by simp
  have rng: "\<forall>d\<in>set (nextch_all lower es). 0 < d \<and> d < 256" using assms by (intro nextch_all_range) auto
  obtain ws ls where g: "cgotofn xflag (nextch_all lower es) = Some ws"
    "trie_inv (targets xflag (set (kws [] (nextch_all lower es)))) ws ls" using cgotofn_inv [OF rng] by blast
  have "targets xflag (set (kws [] (nextch_all lower es))) \<subseteq> targets xflag W"
    using kws_nextch [of es lower, OF nl] by (auto simp: targets_def W_def)
  with g(2) have i: "trie_inv (targets xflag W) ws ls"
    by (rule trie_inv_subset)
  obtain r where r: "cfail ws = Some r" "\<forall>ws'. r = Ok ws' \<longrightarrow> trie_inv (targets xflag W) ws' ls" using cfail_ok [OF i] by blast
  have n: "\<not> e_null (hd es)" using assms(2,3) by simp
  show thesis
  proof (cases "\<not> xflag \<and> list_ex (\<lambda>e. e_pat e = []) es")
    case True
    then have "[] \<in> W" by (auto simp: W_def list_ex_iff image_iff)
    with True n that [of "Ok A1"] show ?thesis by (simp add: ac_build_def)
  next
    case False
    then have "ac_build xflag lower es = Some (case r of Overrun \<Rightarrow> Overrun | Ok ws \<Rightarrow> Ok (AC ws))"
      using g(1) r(1) n by (auto simp: ac_build_def split: acres.splits)
    then show ?thesis
    proof (rule that)
      fix m
      assume "(case r of Overrun \<Rightarrow> Overrun | Ok ws \<Rightarrow> Ok (AC ws)) = Ok m"
      then obtain ws' where "r = Ok ws'" "m = AC ws'" by (auto split: acres.splits)
      with r(2) show "(m = A1 \<and> \<not> xflag \<and> [] \<in> W) \<or> (\<exists>ws ls. m = AC ws \<and> trie_inv (targets xflag W) ws ls)" by blast
    qed
  qed
qed

section \<open>Properties\<close>

text \<open>
  (C34) What \<open>fgrep\<close> reports is there.  For the patterns of a \<open>-e\<close> option or the first operand (separated by newlines,
  with \<open>-i\<close> in lower case) the automaton is built, unless \<open>cfail\<close> writes behind the end of its queue; and then for every
  line of single bytes without a null byte the search ends without using a NULL pointer, and if it reports a match, one of the patterns occurs in the
  line, or with \<open>-x\<close> is the line.
\<close>

theorem fgrep_match_sound:
  assumes "lower_ok lower" and "NUL \<notin> set s"
  defines "pats \<equiv> map (map (\<lambda>c. lower (uchar c))) (splitp (\<lambda>c. c = NL) s)"
  shows "\<exists>r. ac_build xflag lower (patstring sus fflag [] (Some s)) = Some r \<and>
    (\<forall>m line. r = Ok m \<longrightarrow> NUL \<notin> set line \<longrightarrow>
       (\<exists>b. fgrep_match xflag lower m line = Some b \<and>
         (b \<longrightarrow> (if xflag then map (\<lambda>c. lower (uchar c)) line \<in> set pats
                 else \<exists>p\<in>set pats. sublist p (map (\<lambda>c. lower (uchar c)) line)))))"
proof -
  let ?es = "patstring_loop [] s" and ?low = "map (\<lambda>c. lower (uchar c))"
  have pe: "patstring sus fflag [] (Some s) = ?es" by (simp add: patstring_def)
  have ps: "map e_pat ?es = splitp (\<lambda>c. c = NL) s" using patstring_loop_pats [of "[]" s] by simp
  have e: "\<not> e_null e \<and> NUL \<notin> set (e_pat e) \<and> NL \<notin> set (e_pat e)" if "e \<in> set ?es" for e
  proof -
    have "e_pat e \<in> set (splitp (\<lambda>c. c = NL) s)" using that ps by (metis image_eqI set_map)
    from splitp_subset [OF this] assms(2) patstring_loop_flags [OF that] show ?thesis by blast
  qed
  have W: "(\<lambda>e. ?low (e_pat e)) ` set ?es = set pats"
    unfolding pats_def ps [symmetric] by (simp add: image_image)
  obtain r where r: "ac_build xflag lower ?es = Some r"
    "\<And>m. r = Ok m \<Longrightarrow> (m = A1 \<and> \<not> xflag \<and> [] \<in> set pats) \<or> (\<exists>ws ls. m = AC ws \<and> trie_inv (targets xflag (set pats)) ws ls)"
  proof -
    have "?es \<noteq> []" by simp
    from ac_build_ok [OF assms(1) this e, of xflag, unfolded W] that show thesis by blast
  qed
  have "\<exists>b. fgrep_match xflag lower m line = Some b \<and>
      (b \<longrightarrow> (if xflag then ?low line \<in> set pats else \<exists>p\<in>set pats. sublist p (?low line)))"
    if m: "r = Ok m" and l: "NUL \<notin> set line" for m line
  proof (cases "m = A1")
    case True
    with r(2) [OF m] show ?thesis by (auto simp: fgrep_match_def)
  next
    case False
    with r(2) [OF m] obtain ws ls where ws: "m = AC ws" "trie_inv (targets xflag (set pats)) ws ls" by auto
    have "0 \<notin> set (?low line)" by (rule lower_text(1) [OF assms(1) l])
    from ac_match_ok [OF ws(2) this, of xflag] obtain b where b: "ac_match xflag ws (?low line) = Some b"
      "b \<longrightarrow> (\<exists>k\<in>targets xflag (set pats). sublist k (?low line @ [10])) \<and> (xflag \<longrightarrow> ?low line @ [10] \<in> targets xflag (set pats))"
      by blast
    have "10 \<notin> set p" if p: "p \<in> set pats" for p
    proof -
      obtain q where q: "q \<in> set (splitp (\<lambda>c. c = NL) s)" "p = ?low q" using p unfolding pats_def by auto
      then have "NUL \<notin> set q" "NL \<notin> set q" using splitp_subset [OF q(1)] assms(2) by auto
      then show ?thesis using lower_text(2) [OF assms(1)] q(2) by simp
    qed
    then have "if xflag then ?low line \<in> set pats else \<exists>p\<in>set pats. sublist p (?low line)" if b
      using b(2) that sublist_no_nl by (auto simp: targets_def) blast
    with b(1) ws(1) show ?thesis by (auto simp: fgrep_match_def)
  qed
  with r(1) pe show ?thesis by auto
qed

theorem fgrep_match_sound_witness:
  "ac_build False (\<lambda>c. c) (patstring False False [] (Some (''he'' @ [NL] @ ''she''))) \<noteq> None \<and>
   (case ac_build False (\<lambda>c. c) (patstring False False [] (Some (''he'' @ [NL] @ ''she''))) of
      Some (Ok m) \<Rightarrow> fgrep_match False (\<lambda>c. c) m ''ushers'' = Some True | _ \<Rightarrow> False) \<and>
   (\<exists>p\<in>set (map (map uchar) (splitp (\<lambda>c. c = NL) (''he'' @ [NL] @ ''she''))). sublist p (map uchar ''ushers''))"
proof -
  let ?b = "ac_build False (\<lambda>c. c) (patstring False False [] (Some (''he'' @ [NL] @ ''she'')))"
  have l: "lower_ok (\<lambda>c. c)" "NUL \<notin> set (''he'' @ [NL] @ ''she'')" "NUL \<notin> set ''ushers''" by (simp_all add: lower_ok_def)
  have c: "case ?b of Some (Ok m) \<Rightarrow> fgrep_match False (\<lambda>c. c) m ''ushers'' = Some True | _ \<Rightarrow> False" by code_simp
  from c obtain m where m: "?b = Some (Ok m)" "fgrep_match False (\<lambda>c. c) m ''ushers'' = Some True"
    by (auto split: option.splits acres.splits)
  with fgrep_match_sound [OF l(1,2), of False False False] l(3)
  have "\<exists>p\<in>set (map (map uchar) (splitp (\<lambda>c. c = NL) (''he'' @ [NL] @ ''she''))). sublist p (map uchar ''ushers'')"
    by fastforce
  with c m(1) show ?thesis by simp
qed

text \<open>
  What is there is not always reported.  The pattern \<open>aabaaac\<close> is not found in the line \<open>aabaaabaaac\<close>, which ends with it:
  when the failure state of a node has no successor for the next character, \<open>cfail\<close> goes on at the root and not at
  the failure state of that state.  Of the two patterns \<open>abc\<close> and \<open>ab\<close> in one argument the second is not
  found in \<open>abx\<close>: the end of the last pattern is not marked if its path is already there.
\<close>

lemma fgrep_misses:
  "sublist ''aabaaac'' ''aabaaabaaac'' \<and>
   (case ac_build False (\<lambda>c. c) (patstring False False [] (Some ''aabaaac'')) of
      Some (Ok m) \<Rightarrow> fgrep_match False (\<lambda>c. c) m ''aabaaabaaac'' = Some False | _ \<Rightarrow> False) \<and>
   sublist ''ab'' ''abx'' \<and>
   (case ac_build False (\<lambda>c. c) (patstring False False [] (Some (''abc'' @ [NL] @ ''ab''))) of
      Some (Ok m) \<Rightarrow> fgrep_match False (\<lambda>c. c) m ''abx'' = Some False | _ \<Rightarrow> False)"
proof (intro conjI)
  show "sublist ''aabaaac'' ''aabaaabaaac''" "sublist ''ab'' ''abx''" by (simp_all add: sublist_code)
qed code_simp+

text \<open>
  With \<open>-x\<close> and an empty pattern, a line that contains a null byte leads to the use of a NULL pointer.
\<close>

lemma fgrep_null_byte:
  "case ac_build True (\<lambda>c. c) (patstring False False [] (Some [])) of
     Some (Ok m) \<Rightarrow> fgrep_match True (\<lambda>c. c) m [NUL] = None | _ \<Rightarrow> False"
  by code_simp

end
