(* ===== verification/Chmod.thy ===== *)
theory Chmod
  imports Getopt
begin

text \<open>
  \<open>chmod/chmod.c\<close>: absolute and symbolic modes, the rules for set-ID bits and mandatory locking, and the walk of \<open>-R\<close>.
  A \<open>mode_t\<close> is a word of 32 bits.  A mode string is a C string, its end is the NUL the code stops at.
  \<open>newmode\<close> either leaves the program (\<open>Inl\<close> with the exit status and the message) or returns the new mode with what it wrote to
  standard error.
\<close>

unbundle bit_operations_syntax

type_synonym mode_t = "32 word"

section \<open>Masks\<close>

text \<open>The macros of the source, in its order, and those of \<open>sys/stat.h\<close>.\<close>

definition USER_BITS :: mode_t where "USER_BITS = 0xBC0"
definition GROUP_BITS :: mode_t where "GROUP_BITS = 0x438"
definition OTHER_BITS :: mode_t where "OTHER_BITS = 0x007"
definition ALL_BITS :: mode_t where "ALL_BITS = 0xFFF"
definition READ_BITS :: mode_t where "READ_BITS = 0x124"
definition WRITE_BITS :: mode_t where "WRITE_BITS = 0x092"
definition EXEC_BITS :: mode_t where "EXEC_BITS = 0x049"
definition SETID_BITS :: mode_t where "SETID_BITS = 0xC00"
definition STICKY_BIT :: mode_t where "STICKY_BIT = 0x200"

definition S_ENFMT :: mode_t where "S_ENFMT = 0x400"
definition S_ISUID :: mode_t where "S_ISUID = 0x800"
definition S_ISGID :: mode_t where "S_ISGID = 0x400"
definition S_IXUSR :: mode_t where "S_IXUSR = 0x40"
definition S_IXGRP :: mode_t where "S_IXGRP = 0x8"
definition S_IFMT :: mode_t where "S_IFMT = 0xF000"
definition S_IFDIR :: mode_t where "S_IFDIR = 0x4000"
definition S_IFLNK :: mode_t where "S_IFLNK = 0xA000"

lemmas mask_defs = USER_BITS_def GROUP_BITS_def OTHER_BITS_def ALL_BITS_def READ_BITS_def WRITE_BITS_def
  EXEC_BITS_def SETID_BITS_def STICKY_BIT_def

lemmas stat_defs = S_ENFMT_def S_ISUID_def S_ISGID_def S_IXUSR_def S_IXGRP_def S_IFMT_def S_IFDIR_def S_IFLNK_def

definition is_dir :: "mode_t \<Rightarrow> bool" where
  "is_dir m \<longleftrightarrow> m AND S_IFMT = S_IFDIR"

section \<open>The mode string\<close>

text \<open>
  \<open>absol\<close> keeps its number in an \<open>int\<close>; up to ten octal digits fit.  \<open>who\<close> returns the classes and the part of the file
  creation mask that is to be left alone.
\<close>

fun absol :: "mode_t \<Rightarrow> string \<Rightarrow> mode_t \<times> string" where
  "absol i [] = (i, [])"
| "absol i (c # ms) =
     (if 48 \<le> schar c \<and> schar c \<le> 55 then absol (push_bit 3 i + of_int (schar c - 48)) ms else (i, c # ms))"

fun who_loop :: "mode_t \<Rightarrow> string \<Rightarrow> mode_t \<times> string" where
  "who_loop m [] = (m, [])"
| "who_loop m (c # ms) =
     (if c = CHR ''u'' then who_loop (m OR USER_BITS) ms
      else if c = CHR ''g'' then who_loop (m OR GROUP_BITS) ms
      else if c = CHR ''o'' then who_loop (m OR OTHER_BITS) ms
      else if c = CHR ''a'' then who_loop (m OR ALL_BITS) ms
      else (m, c # ms))"

definition who :: "mode_t \<Rightarrow> string \<Rightarrow> mode_t \<times> mode_t \<times> string" where
  "who um ms = (case who_loop 0 ms of (m, ms') \<Rightarrow> if m = 0 then (ALL_BITS, um, ms') else (m, 0, ms'))"

datatype mop = MAdd | MSub | MSet

fun what :: "string \<Rightarrow> mop option \<times> string" where
  "what [] = (None, [])"
| "what (c # ms) =
     (if c = CHR ''+'' then (Some MAdd, ms) else if c = CHR ''-'' then (Some MSub, ms)
      else if c = CHR ''='' then (Some MSet, ms) else (None, c # ms))"

text \<open>\<open>where\<close>: the bits, whether \<open>lock |= 04\<close> was executed, the value of \<open>copy\<close>, and the rest of the string.\<close>

fun where_loop :: "mode_t \<Rightarrow> mode_t \<Rightarrow> bool \<Rightarrow> string \<Rightarrow> mode_t \<times> bool \<times> string" where
  "where_loop pm m l [] = (m, l, [])"
| "where_loop pm m l (c # ms) =
     (if c = CHR ''r'' then where_loop pm (m OR READ_BITS) l ms
      else if c = CHR ''w'' then where_loop pm (m OR WRITE_BITS) l ms
      else if c = CHR ''x'' then where_loop pm (m OR EXEC_BITS) l ms
      else if c = CHR ''X'' then where_loop pm (if is_dir pm \<or> pm AND EXEC_BITS \<noteq> 0 then m OR EXEC_BITS else m) l ms
      else if c = CHR ''l'' then where_loop pm m (if \<not> is_dir pm then True else l) ms
      else if c = CHR ''s'' then where_loop pm (m OR SETID_BITS) l ms
      else if c = CHR ''t'' then where_loop pm (m OR STICKY_BIT) l ms
      else (m, l, c # ms))"

definition dup_bits :: "mode_t \<Rightarrow> mode_t" where
  "dup_bits m = (let m = m AND (READ_BITS OR WRITE_BITS OR EXEC_BITS) in m OR (push_bit 3 m OR push_bit 6 m))"

definition where_bits :: "mode_t \<Rightarrow> mode_t \<Rightarrow> string \<Rightarrow> mode_t \<times> bool \<times> bool \<times> string" where
  "where_bits om pm ms =
     (let c = (case ms of [] \<Rightarrow> NUL | c # _ \<Rightarrow> c)
      in if c = CHR ''u'' then (dup_bits (drop_bit 6 (om AND USER_BITS)), False, True, tl ms)
         else if c = CHR ''g'' then (dup_bits (drop_bit 3 (om AND GROUP_BITS)), False, True, tl ms)
         else if c = CHR ''o'' then (dup_bits (om AND OTHER_BITS), False, True, tl ms)
         else (case where_loop pm 0 False ms of (m, l, ms') \<Rightarrow> (m, l, False, ms')))"

section \<open>\<open>newmode\<close>\<close>

text \<open>
  The variables of \<open>newmode\<close>.  \<open>lock\<close> has the bits 01 (the file is lockable now), 02 (locking was asked for) and 04 (the
  permissions just read contain \<open>l\<close>), here three flags.
\<close>

record nmst =
  nm :: mode_t
  om :: mode_t
  lock1 :: bool
  lock2 :: bool
  lock4 :: bool
  setsgid :: bool
  cleared :: bool

text \<open>The body of the inner loop, from \<open>switch (o)\<close> on, with \<open>b\<close> the permissions and \<open>m\<close>, \<open>mm\<close> from \<open>who\<close>.\<close>

definition nm_act :: "mop \<Rightarrow> mode_t \<Rightarrow> bool \<Rightarrow> mode_t \<Rightarrow> mode_t \<Rightarrow> nmst \<Rightarrow> nmst" where
  "nm_act o' b copy m mm s =
     (case o' of
        MAdd \<Rightarrow>
          (let s = s\<lparr>nm := nm s OR (b AND m AND NOT mm)\<rparr>;
               s = (if b AND S_ISGID \<noteq> 0 then s\<lparr>setsgid := True\<rparr> else s);
               s = (if lock4 s then s\<lparr>lock2 := True\<rparr> else s)
           in s\<lparr>lock4 := False\<rparr>)
      | MSub \<Rightarrow>
          (let s = s\<lparr>nm := nm s AND NOT (b AND m AND NOT mm)\<rparr>;
               s = (if b AND S_ISGID \<noteq> 0 then s\<lparr>setsgid := True\<rparr> else s);
               s = (if lock4 s then s\<lparr>lock1 := False, lock2 := False, lock4 := False\<rparr> else s)
           in s\<lparr>lock4 := False\<rparr>)
      | MSet \<Rightarrow>
          (let s = s\<lparr>nm := (nm s AND NOT m) OR (b AND m AND NOT mm)\<rparr>;
               s = s\<lparr>lock1 := False\<rparr>;
               s = (if lock4 s then s\<lparr>lock2 := True\<rparr> else s);
               s = s\<lparr>om := 0\<rparr>;
               s = (if \<not> copy then s\<lparr>cleared := True\<rparr> else s)
           in s\<lparr>lock4 := False\<rparr>))"

text \<open>Each of the three readers leaves the rest of its string.\<close>

lemma what_suffix: "what ms = (p, ms') \<Longrightarrow> suffix ms' ms \<and> (p \<noteq> None \<longrightarrow> length ms' < length ms)"
  by (cases ms) (auto simp: suffix_Cons split: if_splits)

lemma where_loop_suffix: "where_loop pm m l ms = (b, l', ms') \<Longrightarrow> suffix ms' ms \<and> (l' \<longrightarrow> l \<or> CHR ''l'' \<in> set ms)"
  by (induction pm m l ms rule: where_loop.induct) (auto simp: suffix_Cons split: if_splits)

lemma where_bits_suffix: "where_bits n pm ms = (b, l, copy, ms') \<Longrightarrow> suffix ms' ms \<and> (l \<longrightarrow> CHR ''l'' \<in> set ms)"
  by (auto simp: where_bits_def Let_def suffix_Cons split: if_splits prod.splits list.splits dest: where_loop_suffix)

lemma who_loop_suffix: "who_loop m ms = (m', ms') \<Longrightarrow> suffix ms' ms"
  by (induction m ms rule: who_loop.induct) (auto simp: suffix_Cons split: if_splits)

lemma who_suffix: "who um ms = (m, mm, ms') \<Longrightarrow> suffix ms' ms"
  by (auto simp: who_def dest: who_loop_suffix split: prod.splits if_splits)

text \<open>The loop \<open>while (o = what(&ms))\<close>.\<close>

function nm_ops :: "mode_t \<Rightarrow> mode_t \<Rightarrow> mode_t \<Rightarrow> string \<Rightarrow> nmst \<Rightarrow> nmst \<times> string" where
  "nm_ops pm m mm ms s =
     (case what ms of
        (None, ms1) \<Rightarrow> (s, ms1)
      | (Some p, ms1) \<Rightarrow>
          (case where_bits (nm s) pm ms1 of
             (b, l, copy, ms2) \<Rightarrow>
               nm_ops pm m mm ms2 (nm_act p b copy m mm (if l then s\<lparr>lock4 := True\<rparr> else s))))"
  by pat_completeness auto
termination
  by (relation "measure (\<lambda>(pm, m, mm, ms, s). length ms)")
     (auto dest!: what_suffix [OF sym] where_bits_suffix [OF sym] dest: suffix_length_le)

declare nm_ops.simps [simp del]

text \<open>One round of the loop, and what it keeps: the flags of \<open>lock\<close> come from the file or from an \<open>l\<close>.\<close>

lemma nm_ops_cases:
  obtains (halt) ms' where "what ms = (None, ms')" "nm_ops pm m mm ms s = (s, ms')"
  | (step) p ms1 b l copy ms2 where "what ms = (Some p, ms1)" "where_bits (nm s) pm ms1 = (b, l, copy, ms2)"
      "nm_ops pm m mm ms s = nm_ops pm m mm ms2 (nm_act p b copy m mm (if l then s\<lparr>lock4 := True\<rparr> else s))"
proof (cases "what ms")
  case (Pair p ms1)
  show thesis
  proof (cases p)
    case None
    with Pair that(1) show thesis by (simp add: nm_ops.simps [of pm m mm ms])
  next
    case (Some q)
    obtain b l copy ms2 where "where_bits (nm s) pm ms1 = (b, l, copy, ms2)" by (metis prod_cases4)
    with Pair Some that(2) show thesis by (simp add: nm_ops.simps [of pm m mm ms])
  qed
qed

lemma nm_act_lock:
  "lock1 (nm_act p b copy m mm s) \<Longrightarrow> lock1 s" "lock2 (nm_act p b copy m mm s) \<Longrightarrow> lock2 s \<or> lock4 s"
  "\<not> lock4 (nm_act p b copy m mm s)"
  by (auto simp: nm_act_def Let_def split: mop.splits if_splits)

lemma nm_ops_lock:
  assumes "nm_ops pm m mm ms s = (s', ms')" "\<not> lock4 s"
  shows "suffix ms' ms \<and> (lock1 s' \<longrightarrow> lock1 s) \<and> (lock2 s' \<longrightarrow> lock2 s \<or> CHR ''l'' \<in> set ms) \<and> \<not> lock4 s'"
  using assms
proof (induction "length ms" arbitrary: ms s rule: less_induct)
  case less
  show ?case
  proof (cases rule: nm_ops_cases [where ms = ms and s = s and pm = pm and m = m and mm = mm])
    case (halt ms1)
    with less.prems what_suffix [of ms None ms1] show ?thesis by auto
  next
    case (step p ms1 b l copy ms2)
    let ?s = "if l then s\<lparr>lock4 := True\<rparr> else s" let ?t = "nm_act p b copy m mm ?s"
    note sf = what_suffix [OF step(1)] where_bits_suffix [OF step(2)]
    then have sfx: "suffix ms2 ms" by (meson suffix_order.trans)
    from sf have lt: "length ms2 < length ms" by (auto dest!: suffix_length_le)
    from step(3) less.prems(1) have t: "nm_ops pm m mm ms2 ?t = (s', ms')" by simp
    have "suffix ms' ms2 \<and> (lock1 s' \<longrightarrow> lock1 ?t) \<and> (lock2 s' \<longrightarrow> lock2 ?t \<or> CHR ''l'' \<in> set ms2) \<and> \<not> lock4 s'"
      by (rule less.hyps [OF lt t nm_act_lock(3)])
    moreover have "lock1 ?t \<Longrightarrow> lock1 s" using nm_act_lock(1) [of p b copy m mm ?s] by (simp split: if_splits)
    moreover have "lock2 ?t \<Longrightarrow> lock2 s \<or> l" using nm_act_lock(2) [of p b copy m mm ?s] less.prems(2) by (simp split: if_splits)
    moreover have "set ms2 \<subseteq> set ms" "set ms1 \<subseteq> set ms" using sfx sf by (auto dest: set_mono_suffix)
    ultimately show ?thesis using sfx sf(2) by (meson subsetD suffix_order.trans)
  qed
qed

lemma nm_ops_suffix: "nm_ops pm m mm ms s = (s', ms') \<Longrightarrow> suffix ms' ms"
proof (induction "length ms" arbitrary: ms s rule: less_induct)
  case less
  show ?case
  proof (cases rule: nm_ops_cases [where ms = ms and s = s and pm = pm and m = m and mm = mm])
    case (halt ms1)
    with less.prems what_suffix [of ms None ms1] show ?thesis by auto
  next
    case (step p ms1 b l copy ms2)
    note sf = what_suffix [OF step(1)] where_bits_suffix [OF step(2)]
    then have "length ms2 < length ms" by (auto dest!: suffix_length_le)
    from less.hyps [OF this] step(3) less.prems sf show ?thesis by (metis suffix_order.trans)
  qed
qed

text \<open>The loop \<open>do ... while (*ms++ == ',')\<close>; what \<open>ms\<close> points to after \<open>--ms\<close> is the second component.\<close>

function nm_clauses :: "mode_t \<Rightarrow> mode_t \<Rightarrow> string \<Rightarrow> nmst \<Rightarrow> nmst \<times> string" where
  "nm_clauses um pm ms s =
     (case who um ms of
        (m, mm, ms1) \<Rightarrow>
          (case nm_ops pm m mm ms1 s of
             (s', []) \<Rightarrow> (s', [])
           | (s', c # ms2) \<Rightarrow> if c = CHR '','' then nm_clauses um pm ms2 s' else (s', c # ms2)))"
  by pat_completeness auto
termination
  by (relation "measure (\<lambda>(um, pm, ms, s). length ms)")
     (auto dest!: who_suffix [OF sym] nm_ops_suffix [OF sym] suffix_length_le)

declare nm_clauses.simps [simp del]

text \<open>\<open>warning\<close>, and what is printed for \<open>%s\<close>; \<open>newmode\<close> never prints a null pointer, see below.\<close>

definition cm_warning :: "string \<Rightarrow> string \<Rightarrow> string" where
  "cm_warning progname msg = progname @ '': WARNING: '' @ msg @ [NL]"

definition cm_error :: "string \<Rightarrow> string \<Rightarrow> string" where
  "cm_error progname msg = progname @ '': ERROR: '' @ msg @ [NL]"

definition cm_name :: "string option \<Rightarrow> string" where
  "cm_name fn = (case fn of None \<Rightarrow> ''(null)'' | Some n \<Rightarrow> n)"

definition corresp :: "string \<Rightarrow> string option \<Rightarrow> string" where
  "corresp progname fn = cm_warning progname
     (''Corresponding set-ID also disabled on '' @ cm_name fn @ '' since set-ID requires execute permission'')"

type_synonym nmres = "(int \<times> string) + (mode_t \<times> string)"

definition execreq :: "string \<Rightarrow> mode_t \<Rightarrow> string option \<Rightarrow> string \<Rightarrow> nmres" where
  "execreq progname pm fn e =
     (case fn of
        Some n \<Rightarrow> Inr (pm, e @ cm_warning progname (''Execute permission required for set-ID on execution for '' @ n))
      | None \<Rightarrow> Inl (2, e @ cm_error progname ''Execute permission required for set-ID on execution''))"

text \<open>The label \<open>out\<close>: the set-group-ID bit of a directory changes only where a symbolic mode names it.\<close>

definition nm_out :: "mode_t \<Rightarrow> bool \<Rightarrow> mode_t \<Rightarrow> mode_t" where
  "nm_out pm sgid n =
     (if is_dir pm then
        if pm AND S_ISGID \<noteq> 0 \<and> \<not> sgid then n OR S_ISGID
        else if n AND S_ISGID \<noteq> 0 \<and> \<not> sgid then n AND NOT S_ISGID else n
      else n)"

text \<open>The part about the set-user-ID bit, \<open>didprc\<close> and the messages so far from the part before it.\<close>

definition nm_setuid :: "string \<Rightarrow> mode_t \<Rightarrow> string option \<Rightarrow> nmst \<Rightarrow> bool \<Rightarrow> string \<Rightarrow> nmres" where
  "nm_setuid progname pm fn s didprc e =
     (if \<not> is_dir pm then
        if om s AND (S_IXUSR OR S_ISUID) = (S_IXUSR OR S_ISUID) \<and> nm s AND (S_IXUSR OR S_ISUID) = S_ISUID
        then Inr (nm_out pm (setsgid s) (nm s AND NOT S_ISUID), e @ (if \<not> didprc then corresp progname fn else []))
        else if nm s AND (S_ISUID OR S_IXUSR) = S_ISUID \<and> (fn \<noteq> None \<or> cleared s)
        then execreq progname pm fn e
        else Inr (nm_out pm (setsgid s) (nm s), e)
      else Inr (nm_out pm (setsgid s) (nm s), e))"

text \<open>The part about locking and the set-group-ID bit.\<close>

definition nm_setgid :: "string \<Rightarrow> mode_t \<Rightarrow> string option \<Rightarrow> nmst \<Rightarrow> nmres" where
  "nm_setgid progname pm fn s =
     (if lock1 s \<or> lock2 s then
        if om s AND S_IXGRP \<noteq> 0
        then Inr (pm, cm_warning progname (''Locking not permitted on '' @ cm_name fn @ '', a group executable file''))
        else if lock2 s \<and> nm s AND S_IXGRP \<noteq> 0
        then Inl (3, cm_error progname ''Group execution and locking not permitted together'')
        else if lock1 s \<and> nm s AND S_IXGRP \<noteq> 0
        then Inr (pm, cm_warning progname (''Group execution not permitted on '' @ cm_name fn @ '', a lockable file''))
        else if lock2 s \<and> nm s AND S_ISGID \<noteq> 0
        then Inl (3, cm_error progname ''Set-group-ID and locking not permitted together'')
        else if lock1 s \<and> nm s AND S_ISGID \<noteq> 0
        then Inr (pm, cm_warning progname (''Set-group-ID not permitted on '' @ cm_name fn @ '', a lockable file''))
        else nm_setuid progname pm fn (s\<lparr>nm := nm s OR S_ENFMT\<rparr>) False []
      else if \<not> is_dir pm then
        if om s AND (S_IXGRP OR S_ISGID) = (S_IXGRP OR S_ISGID) \<and> nm s AND (S_IXGRP OR S_ISGID) = S_ISGID
        then nm_setuid progname pm fn (s\<lparr>nm := nm s AND NOT S_ISGID\<rparr>) True (corresp progname fn)
        else if nm s AND (S_ISGID OR S_IXGRP) = S_ISGID \<and> (fn \<noteq> None \<or> cleared s)
        then execreq progname pm fn []
        else nm_setuid progname pm fn s False []
      else nm_setuid progname pm fn s False [])"

definition nm_start :: "mode_t \<Rightarrow> nmst" where
  "nm_start pm =
     (let l = (\<not> is_dir pm \<and> pm AND (S_ENFMT OR S_IXGRP) = S_ENFMT)
      in \<lparr>nm = if l then pm AND NOT S_ENFMT else pm, om = pm, lock1 = l, lock2 = False, lock4 = False,
          setsgid = False, cleared = False\<rparr>)"

definition newmode :: "string \<Rightarrow> mode_t \<Rightarrow> string \<Rightarrow> mode_t \<Rightarrow> string option \<Rightarrow> nmres" where
  "newmode progname um ms pm fn =
     (case absol 0 ms of
        (m, ms1) \<Rightarrow>
          if ms1 = [] then Inr (nm_out pm False m, [])
          else (case nm_clauses um pm ms1 (nm_start pm) of
                  (s, ms2) \<Rightarrow>
                    if ms2 \<noteq> [] then Inl (255, cm_error progname ''invalid mode'')
                    else nm_setgid progname pm fn s))"

section \<open>Files\<close>

text \<open>
  What the system answers about a file, each call being made at most once for a path: the modes that \<open>lstat\<close> and
  \<open>stat\<close> report (\<open>None\<close> where they fail), whether \<open>chmod\<close> succeeds, and the entries \<open>opendir\<close> and \<open>readdir\<close> deliver, or the text
  of the error.
\<close>

datatype fnode = FNode (f_lstat: "mode_t option") (f_stat: "mode_t option") (f_chmod: bool)
  (f_dir: "string + (string \<times> fnode) list")

text \<open>The first test of \<open>chng\<close>: the mode in \<open>st\<close> if the file can be accessed.\<close>

definition is_symlink :: "mode_t option \<Rightarrow> bool" where
  "is_symlink l = (case l of None \<Rightarrow> False | Some m \<Rightarrow> m AND S_IFMT = S_IFLNK)"

definition st_mode :: "fnode \<Rightarrow> mode_t option" where
  "st_mode t = (if is_symlink (f_lstat t) then f_stat t else f_lstat t)"

text \<open>
  The path of an entry: the buffer that \<open>getpath\<close> fills and its size, and \<open>setpath\<close> for a name, which may enlarge it.
\<close>

definition getpath :: "string \<Rightarrow> string \<times> nat" where
  "getpath path = ((if path = ''/'' then ''/'' else path @ ''/''), 14 + length path + 2)"

definition setpath :: "string \<Rightarrow> string \<Rightarrow> nat \<Rightarrow> string \<times> nat" where
  "setpath base file sz =
     (file @ base, if length file + length base \<ge> sz then sz + length file + length base + 15 else sz)"

text \<open>The successful and the failed calls of \<open>chmod\<close> with their modes, standard error, and \<open>errcnt\<close>.\<close>

record cmrun =
  cm_calls :: "(string \<times> mode_t) list"
  cm_err :: string
  cm_errcnt :: nat

definition cm_warn1 :: "string \<Rightarrow> string \<Rightarrow> cmrun \<Rightarrow> cmrun" where
  "cm_warn1 progname msg r = r\<lparr>cm_err := cm_err r @ cm_warning progname msg, cm_errcnt := cm_errcnt r + 1\<rparr>"

fun chng :: "string \<Rightarrow> mode_t \<Rightarrow> bool \<Rightarrow> string \<Rightarrow> string \<Rightarrow> fnode \<Rightarrow> cmrun \<Rightarrow> (int \<times> cmrun) + cmrun"
  and chng_dir :: "string \<Rightarrow> mode_t \<Rightarrow> bool \<Rightarrow> string \<Rightarrow> string \<Rightarrow> nat \<Rightarrow> (string \<times> fnode) list \<Rightarrow> cmrun \<Rightarrow> (int \<times> cmrun) + cmrun" where
  "chng progname um rflag ms fn (FNode l st ok d) r =
     (let symlink = is_symlink l
      in case st_mode (FNode l st ok d) of
           None \<Rightarrow> Inr (cm_warn1 progname (''can't access '' @ fn) r)
         | Some pm \<Rightarrow>
             (case newmode progname um ms pm (Some fn) of
                Inl (e, msg) \<Rightarrow> Inl (e, r\<lparr>cm_err := cm_err r @ msg\<rparr>)
              | Inr (m, msg) \<Rightarrow>
                  (let r = r\<lparr>cm_err := cm_err r @ msg, cm_calls := cm_calls r @ [(fn, m)]\<rparr>
                   in if \<not> ok then Inr (cm_warn1 progname (''can't change '' @ fn) r)
                      else if rflag \<and> \<not> symlink \<and> is_dir pm then
                        (case d of
                           Inl e \<Rightarrow> Inr (cm_warn1 progname e r)
                         | Inr es \<Rightarrow> chng_dir progname um rflag ms (fst (getpath fn)) (snd (getpath fn)) es r)
                      else Inr r)))"
| "chng_dir progname um rflag ms file sz [] r = Inr r"
| "chng_dir progname um rflag ms file sz ((d_name, t) # es) r =
     (if d_name = ''.'' \<or> d_name = ''..'' then chng_dir progname um rflag ms file sz es r
      else case chng progname um rflag ms (fst (setpath d_name file sz)) t r of
             Inl x \<Rightarrow> Inl x
           | Inr r' \<Rightarrow> chng_dir progname um rflag ms file (snd (setpath d_name file sz)) es r')"

text \<open>The loop over the operands; \<open>tree\<close> gives the answers of the system for each of them.\<close>

fun chng_all :: "string \<Rightarrow> mode_t \<Rightarrow> bool \<Rightarrow> string \<Rightarrow> (string \<Rightarrow> fnode) \<Rightarrow> string list \<Rightarrow> cmrun \<Rightarrow> (int \<times> cmrun) + cmrun" where
  "chng_all progname um rflag ms tree [] r = Inr r"
| "chng_all progname um rflag ms tree (fn # fns) r =
     (case chng progname um rflag ms fn (tree fn) r of
        Inl x \<Rightarrow> Inl x
      | Inr r' \<Rightarrow> chng_all progname um rflag ms tree fns r')"

text \<open>The option loop: an argument that is no known option is put back with \<open>optind--\<close>.\<close>

function chmod_opts :: "string list \<Rightarrow> optst \<Rightarrow> bool \<Rightarrow> bool \<times> nat" where
  "chmod_opts argv st rflag =
     (case getopt True None argv '':R'' st of
        (c, st', msg) \<Rightarrow>
          if c = eof then (rflag, optind st')
          else if c = uchar (CHR ''R'') then chmod_opts argv st' True
          else (rflag, optind st' - 1))"
  by pat_completeness auto
termination
  by (relation "measures [\<lambda>(argv, st, f). length argv - optind st, \<lambda>(argv, st, f). opt_size argv st]")
     (auto dest: getopt_progress [OF sym])

declare chmod_opts.simps [simp del]

text \<open>\<open>umask\<close> is consulted by the \<open>SUS\<close> variant only; without it \<open>um\<close> is 0.\<close>

definition chmod_main :: "variant \<Rightarrow> mode_t \<Rightarrow> string \<Rightarrow> (string \<Rightarrow> fnode) \<Rightarrow> string list \<Rightarrow> (string \<times> mode_t) list \<times> outcome" where
  "chmod_main var umask progname tree argv =
     (case chmod_opts argv optst_init False of
        (rflag, oi) \<Rightarrow>
          if length argv - oi < 2
          then ([], \<lparr>out = [], err = cm_warning progname (''Usage: '' @ progname @ '' [-R] [ugoa][+-=][rwxXlstugo] file ...''), status = 255\<rparr>)
          else (let ms = argv ! oi; um = (if var = SUS then umask else 0)
                in case newmode progname um ms 0 None of
                     Inl (e, msg) \<Rightarrow> ([], \<lparr>out = [], err = msg, status = e\<rparr>)
                   | Inr (m, msg) \<Rightarrow>
                       (case chng_all progname um rflag ms tree (drop (oi + 1) argv)
                               \<lparr>cm_calls = [], cm_err = msg, cm_errcnt = 0\<rparr> of
                          Inl (e, r) \<Rightarrow> (cm_calls r, \<lparr>out = [], err = cm_err r, status = e\<rparr>)
                        | Inr r \<Rightarrow> (cm_calls r, \<lparr>out = [], err = cm_err r,
                                    status = int (if cm_errcnt r > 253 then 253 else cm_errcnt r)\<rparr>))))"

section \<open>Specification\<close>

text \<open>
  The twelve permission bits, each belonging to one class of users.  \<open>modeset\<close> reads a mode as the set of its bits.
\<close>

datatype cls = ClsU | ClsG | ClsO
datatype rwx = PR | PW | PX
datatype pbit = PB cls rwx | SUID | SGID | STICKY

fun pos :: "pbit \<Rightarrow> nat" where
  "pos (PB c r) = (case c of ClsU \<Rightarrow> 6 | ClsG \<Rightarrow> 3 | ClsO \<Rightarrow> 0) + (case r of PR \<Rightarrow> 2 | PW \<Rightarrow> 1 | PX \<Rightarrow> 0)"
| "pos SUID = 11"
| "pos SGID = 10"
| "pos STICKY = 9"

fun cls_of :: "pbit \<Rightarrow> cls" where
  "cls_of (PB c r) = c"
| "cls_of SUID = ClsU"
| "cls_of SGID = ClsG"
| "cls_of STICKY = ClsU"

definition modeset :: "mode_t \<Rightarrow> pbit set" where
  "modeset m = {b. bit m (pos b)}"

text \<open>
  Symbolic modes: the classes (\<open>None\<close> for \<open>a\<close>), and operations with either a list of permissions or a class from which to copy them.
\<close>

datatype perm = Pr | Pw | Px | PcondX | Ps | Pt
datatype perms = Perms "perm list" | Copy cls
datatype clause = Clause (cl_who: "cls option list") (cl_acts: "(mop \<times> perms) list")

fun cls_char :: "cls \<Rightarrow> char" where
  "cls_char ClsU = CHR ''u''"
| "cls_char ClsG = CHR ''g''"
| "cls_char ClsO = CHR ''o''"

fun who_char :: "cls option \<Rightarrow> char" where
  "who_char None = CHR ''a''"
| "who_char (Some c) = cls_char c"

fun mop_char :: "mop \<Rightarrow> char" where
  "mop_char MAdd = CHR ''+''"
| "mop_char MSub = CHR ''-''"
| "mop_char MSet = CHR ''=''"

fun perm_char :: "perm \<Rightarrow> char" where
  "perm_char Pr = CHR ''r''"
| "perm_char Pw = CHR ''w''"
| "perm_char Px = CHR ''x''"
| "perm_char PcondX = CHR ''X''"
| "perm_char Ps = CHR ''s''"
| "perm_char Pt = CHR ''t''"

fun render_perms :: "perms \<Rightarrow> string" where
  "render_perms (Perms ps) = map perm_char ps"
| "render_perms (Copy c) = [cls_char c]"

definition render_acts :: "(mop \<times> perms) list \<Rightarrow> string" where
  "render_acts as = concat (map (\<lambda>(p, b). mop_char p # render_perms b) as)"

definition render_clause :: "clause \<Rightarrow> string" where
  "render_clause c = map who_char (cl_who c) @ render_acts (cl_acts c)"

definition render_mode :: "clause list \<Rightarrow> string" where
  "render_mode cs = join '','' (map render_clause cs)"

text \<open>What they mean, on sets of bits; \<open>x\<close> says that \<open>X\<close> counts as \<open>x\<close> for the file.\<close>

fun perm_set :: "bool \<Rightarrow> perm \<Rightarrow> pbit set" where
  "perm_set x Pr = {PB c PR | c. True}"
| "perm_set x Pw = {PB c PW | c. True}"
| "perm_set x Px = {PB c PX | c. True}"
| "perm_set x PcondX = (if x then {PB c PX | c. True} else {})"
| "perm_set x Ps = {SUID, SGID}"
| "perm_set x Pt = {STICKY}"

fun perms_set :: "bool \<Rightarrow> pbit set \<Rightarrow> perms \<Rightarrow> pbit set" where
  "perms_set x s (Perms ps) = (\<Union>p \<in> set ps. perm_set x p)"
| "perms_set x s (Copy c) = {PB d r | d r. PB c r \<in> s}"

definition who_set :: "cls option list \<Rightarrow> pbit set" where
  "who_set ws = (if ws = [] \<or> None \<in> set ws then UNIV else {b. Some (cls_of b) \<in> set ws})"

fun act_set :: "pbit set \<Rightarrow> pbit set \<Rightarrow> mop \<Rightarrow> pbit set \<Rightarrow> pbit set \<Rightarrow> pbit set" where
  "act_set m mm MAdd b s = s \<union> (b \<inter> m - mm)"
| "act_set m mm MSub b s = s - (b \<inter> m - mm)"
| "act_set m mm MSet b s = (s - m) \<union> (b \<inter> m - mm)"

definition acts_set :: "bool \<Rightarrow> pbit set \<Rightarrow> pbit set \<Rightarrow> (mop \<times> perms) list \<Rightarrow> pbit set \<Rightarrow> pbit set" where
  "acts_set x m mm as s = fold (\<lambda>(p, b) s. act_set m mm p (perms_set x s b) s) as s"

definition clause_set :: "pbit set \<Rightarrow> bool \<Rightarrow> clause \<Rightarrow> pbit set \<Rightarrow> pbit set" where
  "clause_set um x c s =
     acts_set x (who_set (cl_who c)) (if cl_who c = [] then um else {}) (cl_acts c) s"

definition mode_set :: "pbit set \<Rightarrow> bool \<Rightarrow> clause list \<Rightarrow> pbit set \<Rightarrow> pbit set" where
  "mode_set um x cs s = fold (clause_set um x) cs s"

section \<open>Bits\<close>

lemma modeset_ops:
  "modeset (a AND b) = modeset a \<inter> modeset b" "modeset (a OR b) = modeset a \<union> modeset b"
  "modeset 0 = {}"
  by (auto simp: modeset_def bit_simps)

lemma pos_less: "pos b < 12"
  by (cases b rule: pos.cases) (auto split: cls.splits rwx.splits)

lemma modeset_not: "modeset (NOT a) = - modeset a" "modeset (a AND NOT b) = modeset a - modeset b"
  using pos_less [THEN order_less_trans, of 32] by (auto simp: modeset_def bit_simps)

lemma modeset_masks:
  "modeset USER_BITS = {b. cls_of b = ClsU}" "modeset GROUP_BITS = {b. cls_of b = ClsG}"
  "modeset OTHER_BITS = {b. cls_of b = ClsO}" "modeset ALL_BITS = UNIV"
  "modeset READ_BITS = {PB c PR | c. True}" "modeset WRITE_BITS = {PB c PW | c. True}"
  "modeset EXEC_BITS = {PB c PX | c. True}" "modeset SETID_BITS = {SUID, SGID}" "modeset STICKY_BIT = {STICKY}"
proof -
  have ext: "modeset w = S" if "\<And>c r. bit w (pos (PB c r)) \<longleftrightarrow> PB c r \<in> S" "bit w 11 \<longleftrightarrow> SUID \<in> S"
    "bit w 10 \<longleftrightarrow> SGID \<in> S" "bit w 9 \<longleftrightarrow> STICKY \<in> S" for w S
  proof (rule set_eqI)
    fix b show "b \<in> modeset w \<longleftrightarrow> b \<in> S" using that by (cases b) (auto simp: modeset_def)
  qed
  show "modeset USER_BITS = {b. cls_of b = ClsU}" "modeset GROUP_BITS = {b. cls_of b = ClsG}"
    "modeset OTHER_BITS = {b. cls_of b = ClsO}" "modeset ALL_BITS = UNIV"
    "modeset READ_BITS = {PB c PR | c. True}" "modeset WRITE_BITS = {PB c PW | c. True}"
    "modeset EXEC_BITS = {PB c PX | c. True}" "modeset SETID_BITS = {SUID, SGID}" "modeset STICKY_BIT = {STICKY}"
    by (rule ext; simp add: mask_defs split: cls.splits rwx.splits)+
qed

lemma stat_powers: "S_IXGRP = 2 ^ 3" "S_ISGID = 2 ^ 10" "S_IXUSR = 2 ^ 6" "S_ISUID = 2 ^ 11" "S_ENFMT = 2 ^ 10"
  by (simp_all add: stat_defs)

lemma and_two:
  assumes "i \<noteq> j" "i < 32" "j < 32"
  shows "(w :: mode_t) AND (2 ^ i OR 2 ^ j) = 2 ^ j \<longleftrightarrow> bit w j \<and> \<not> bit w i"
proof
  assume e: "w AND (2 ^ i OR 2 ^ j) = 2 ^ j"
  then have "bit (w AND (2 ^ i OR 2 ^ j)) n \<longleftrightarrow> bit (2 ^ j :: mode_t) n" for n by simp
  from this [of i] this [of j] assms show "bit w j \<and> \<not> bit w i" by (simp add: bit_simps)
next
  assume "bit w j \<and> \<not> bit w i"
  with assms show "w AND (2 ^ i OR 2 ^ j) = 2 ^ j" by (auto intro!: bit_word_eqI simp: bit_simps)
qed

lemma setid_tests:
  "(w :: mode_t) AND S_IXGRP \<noteq> 0 \<longleftrightarrow> PB ClsG PX \<in> modeset w"
  "(w :: mode_t) AND S_ISGID \<noteq> 0 \<longleftrightarrow> SGID \<in> modeset w"
  "w AND (S_IXGRP OR S_ISGID) = S_ISGID \<longleftrightarrow> SGID \<in> modeset w \<and> PB ClsG PX \<notin> modeset w"
  "w AND (S_IXUSR OR S_ISUID) = S_ISUID \<longleftrightarrow> SUID \<in> modeset w \<and> PB ClsU PX \<notin> modeset w"
  unfolding stat_powers by (simp_all only: and_exp_eq_0_iff_not_bit) (simp_all add: and_two modeset_def del: power_numeral)

lemma setid_tests':
  "w AND (S_ENFMT OR S_IXGRP) = S_ENFMT \<longleftrightarrow> SGID \<in> modeset w \<and> PB ClsG PX \<notin> modeset w"
  "w AND (S_ISGID OR S_IXGRP) = S_ISGID \<longleftrightarrow> SGID \<in> modeset w \<and> PB ClsG PX \<notin> modeset w"
  "w AND (S_ISUID OR S_IXUSR) = S_ISUID \<longleftrightarrow> SUID \<in> modeset w \<and> PB ClsU PX \<notin> modeset w"
  using setid_tests(3,4) [of w] by (simp_all add: or.commute S_ENFMT_def flip: S_ISGID_def)

lemma modeset_single: "modeset S_ISUID = {SUID}" "modeset S_ISGID = {SGID}"
proof -
  have p: "pos b = 11 \<longleftrightarrow> b = SUID" "pos b = 10 \<longleftrightarrow> b = SGID" for b
    by (cases b; auto split: cls.splits rwx.splits)+
  have "modeset (2 ^ n) = {b. pos b = n}" if "n < 32" for n
    using that by (auto simp: modeset_def bit_simps)
  from this [of 10] this [of 11] p show "modeset S_ISUID = {SUID}" "modeset S_ISGID = {SGID}"
    unfolding stat_powers by simp_all
qed

section \<open>Set-ID bits\<close>

text \<open>
  A mode is sound when no file gets a set-ID bit without the execute permission that goes with it.  For a group \<open>SGID\<close> without
  execute permission means mandatory locking, which is kept on a lockable file or asked for with \<open>l\<close>.
\<close>

definition lockable :: "mode_t \<Rightarrow> bool" where
  "lockable pm \<longleftrightarrow> \<not> is_dir pm \<and> SGID \<in> modeset pm \<and> PB ClsG PX \<notin> modeset pm"

definition setid_sound :: "bool \<Rightarrow> mode_t \<Rightarrow> bool" where
  "setid_sound locking m \<longleftrightarrow> (SUID \<in> modeset m \<longrightarrow> PB ClsU PX \<in> modeset m) \<and>
     (SGID \<in> modeset m \<longrightarrow> (PB ClsG PX \<in> modeset m \<longleftrightarrow> \<not> locking))"

lemma nm_setuid_sound:
  assumes "nm_setuid progname pm (Some fn) s didprc e = Inr (m, e')" "\<not> is_dir pm"
    "SGID \<in> modeset (nm s) \<Longrightarrow> (PB ClsG PX \<in> modeset (nm s) \<longleftrightarrow> \<not> locking)"
  shows "m = pm \<or> setid_sound locking m"
  using assms
  by (auto simp: nm_setuid_def nm_out_def execreq_def setid_sound_def setid_tests setid_tests' modeset_not modeset_single split: if_splits)

lemma nm_setgid_sound:
  assumes "nm_setgid progname pm (Some fn) s = Inr (m, e)" "\<not> is_dir pm"
  shows "m = pm \<or> setid_sound (lock1 s \<or> lock2 s) m"
proof (cases "lock1 s \<or> lock2 s")
  case True
  show ?thesis
  proof (cases "PB ClsG PX \<in> modeset (nm s)")
    case False
    then have g: "PB ClsG PX \<notin> modeset (nm (s\<lparr>nm := nm s OR S_ENFMT\<rparr>))"
      by (simp add: modeset_ops modeset_single S_ENFMT_def flip: S_ISGID_def)
    from assms(1) True have "m = pm \<or> nm_setuid progname pm (Some fn) (s\<lparr>nm := nm s OR S_ENFMT\<rparr>) False [] = Inr (m, e)"
      unfolding nm_setgid_def by (simp split: if_splits)
    then show ?thesis
    proof
      assume "nm_setuid progname pm (Some fn) (s\<lparr>nm := nm s OR S_ENFMT\<rparr>) False [] = Inr (m, e)"
      from nm_setuid_sound [OF this assms(2), where locking = True] True g show ?thesis by auto
    qed simp
  qed (use assms(1) True in \<open>auto simp: nm_setgid_def setid_tests split: if_splits\<close>)
next
  case False
  let ?s = "s\<lparr>nm := nm s AND NOT S_ISGID\<rparr>"
  from assms(1) False assms(2) consider "m = pm"
    | "nm_setuid progname pm (Some fn) ?s True (corresp progname (Some fn)) = Inr (m, e)"
    | "nm_setuid progname pm (Some fn) s False [] = Inr (m, e)" "\<not> nm s AND (S_ISGID OR S_IXGRP) = S_ISGID"
    unfolding nm_setgid_def by (auto simp: execreq_def split: if_splits)
  then show ?thesis
  proof cases
    case 2
    have "SGID \<notin> modeset (nm ?s)" by (simp add: modeset_not modeset_single)
    with nm_setuid_sound [OF 2 assms(2), where locking = False] False show ?thesis by auto
  next
    case 3
    with nm_setuid_sound [OF 3(1) assms(2), where locking = False] False show ?thesis
      by (auto simp: setid_tests')
  qed simp
qed

lemma nm_clauses_lock:
  assumes "nm_clauses um pm ms s = (s', ms')" "\<not> lock4 s"
  shows "(lock1 s' \<longrightarrow> lock1 s) \<and> (lock2 s' \<longrightarrow> lock2 s \<or> CHR ''l'' \<in> set ms)"
  using assms
proof (induction um pm ms s rule: nm_clauses.induct)
  case (1 um pm ms s)
  obtain m mm ms1 where w: "who um ms = (m, mm, ms1)" by (metis prod_cases3)
  obtain t ms2 where o: "nm_ops pm m mm ms1 s = (t, ms2)" by fastforce
  note l = nm_ops_lock [OF o "1.prems"(2)]
  have sub: "set ms1 \<subseteq> set ms" "set ms2 \<subseteq> set ms"
    using who_suffix [OF w] nm_ops_suffix [OF o] by (meson set_mono_suffix order_trans)+
  show ?case
  proof (cases "\<exists>ms3. ms2 = CHR '','' # ms3")
    case True
    then obtain ms3 where c: "ms2 = CHR '','' # ms3" ..
    have "nm_clauses um pm ms3 t = (s', ms')"
      using "1.prems"(1) w o c by (simp add: nm_clauses.simps [of um pm ms])
    from "1.IH" [OF w [symmetric] refl o [symmetric] c refl this] l sub c show ?thesis by auto
  next
    case False
    then have "s' = t" using "1.prems"(1) w o by (simp add: nm_clauses.simps [of um pm ms] split: list.splits if_splits)
    with l sub show ?thesis by auto
  qed
qed

lemma nm_start_lock: "lock1 (nm_start pm) \<longleftrightarrow> lockable pm" "\<not> lock2 (nm_start pm)" "\<not> lock4 (nm_start pm)"
  by (simp_all add: nm_start_def Let_def lockable_def setid_tests')

lemma absol_suffix: "suffix (snd (absol i ms)) ms"
  by (induction i ms rule: absol.induct) (auto simp: suffix_Cons)

lemma newmode_sound:
  assumes "newmode progname um ms pm (Some fn) = Inr (m, e)" "snd (absol 0 ms) \<noteq> []" "\<not> is_dir pm"
  shows "m = pm \<or> (\<exists>locking. (locking \<longrightarrow> lockable pm \<or> CHR ''l'' \<in> set ms) \<and> setid_sound locking m)"
proof -
  obtain a ms1 where a: "absol 0 ms = (a, ms1)" by fastforce
  obtain s ms2 where c: "nm_clauses um pm ms1 (nm_start pm) = (s, ms2)" by fastforce
  from assms(1,2) have n: "nm_setgid progname pm (Some fn) s = Inr (m, e)"
    unfolding newmode_def by (simp add: a c split: if_splits)
  have "set ms1 \<subseteq> set ms" using set_mono_suffix [OF absol_suffix [of 0 ms]] a by simp
  with nm_clauses_lock [OF c nm_start_lock(3)] nm_start_lock(1,2) [of pm]
  have "lock1 s \<or> lock2 s \<longrightarrow> lockable pm \<or> CHR ''l'' \<in> set ms" by blast
  with nm_setgid_sound [OF n assms(3)] show ?thesis by (metis (no_types))
qed

text \<open>The files the walk can get to from an operand.\<close>

inductive f_under :: "string \<Rightarrow> fnode \<Rightarrow> string \<Rightarrow> fnode \<Rightarrow> bool" where
  f_self: "f_under fn t fn t"
| f_entry: "f_dir t = Inr es \<Longrightarrow> (d, u) \<in> set es \<Longrightarrow> f_under (fst (getpath fn) @ d) u p v \<Longrightarrow> f_under fn t p v"

definition calls_ok :: "(string \<Rightarrow> mode_t \<Rightarrow> bool) \<Rightarrow> (int \<times> cmrun) + cmrun \<Rightarrow> bool" where
  "calls_ok P x \<longleftrightarrow> (case x of Inl (e, r) \<Rightarrow> \<forall>(p, m) \<in> set (cm_calls r). P p m | Inr r \<Rightarrow> \<forall>(p, m) \<in> set (cm_calls r). P p m)"

lemma chng_calls:
  "(\<And>p v pm m msg. f_under fn t p v \<Longrightarrow> st_mode v = Some pm \<Longrightarrow> newmode progname um ms pm (Some p) = Inr (m, msg) \<Longrightarrow> P p m) \<Longrightarrow>
     calls_ok P (Inr r) \<Longrightarrow> calls_ok P (chng progname um rflag ms fn t r)"
  "(\<And>d u p v pm m msg. (d, u) \<in> set es \<Longrightarrow> f_under (pre @ d) u p v \<Longrightarrow> st_mode v = Some pm \<Longrightarrow>
       newmode progname um ms pm (Some p) = Inr (m, msg) \<Longrightarrow> P p m) \<Longrightarrow>
     calls_ok P (Inr r) \<Longrightarrow> calls_ok P (chng_dir progname um rflag ms pre sz es r)"
proof (induction progname um rflag ms fn t r and progname um rflag ms pre sz es r rule: chng_chng_dir.induct)
  case (1 progname um rflag ms fn l st ok d r)
  let ?t = "FNode l st ok d"
  show ?case
  proof (cases "st_mode ?t")
    case None
    with "1.prems" show ?thesis by (simp add: calls_ok_def cm_warn1_def)
  next
    case (Some pm)
    show ?thesis
    proof (cases "newmode progname um ms pm (Some fn)")
      case (Inl x)
      with Some "1.prems"(2) show ?thesis by (cases x) (simp add: calls_ok_def)
    next
      case (Inr x)
      obtain m msg where x: "x = (m, msg)" by fastforce
      let ?r = "r\<lparr>cm_err := cm_err r @ msg, cm_calls := cm_calls r @ [(fn, m)]\<rparr>"
      have ok: "calls_ok P (Inr ?r)"
        using "1.prems"(1) [OF f_self Some] Inr x "1.prems"(2) by (auto simp: calls_ok_def)
      show ?thesis
      proof (cases "ok \<and> rflag \<and> \<not> is_symlink l \<and> is_dir pm")
        case False
        with Some Inr x ok show ?thesis by (auto simp: calls_ok_def cm_warn1_def Let_def)
      next
        case True
        show ?thesis
        proof (cases d)
          case (Inl e)
          with Some Inr x ok True show ?thesis by (auto simp: calls_ok_def cm_warn1_def Let_def)
        next
          case d: (Inr es)
          have "calls_ok P (chng_dir progname um rflag ms (fst (getpath fn)) (snd (getpath fn)) es ?r)"
          proof (rule "1.IH" [OF refl Some Inr x [symmetric] refl])
            fix n u p v pm m msg
            assume "(n, u) \<in> set es" "f_under (fst (getpath fn) @ n) u p v" and v: "st_mode v = Some pm"
              "newmode progname um ms pm (Some p) = Inr (m, msg)"
            then have "f_under fn ?t p v" using f_entry [of ?t es] d by simp
            then show "P p m" using v by (rule "1.prems"(1))
          qed (use True d ok in auto)
          with Some Inr x d True show ?thesis by (simp add: Let_def)
        qed
      qed
    qed
  qed
next
  case (3 progname um rflag ms pre sz d_name t es r)
  show ?case
  proof (cases "d_name = ''.'' \<or> d_name = ''..''")
    case True
    have "calls_ok P (chng_dir progname um rflag ms pre sz es r)"
      by (rule "3.IH"(1) [OF True _ "3.prems"(2)]) (auto intro: "3.prems"(1))
    with True show ?thesis by simp
  next
    case False
    have c: "calls_ok P (chng progname um rflag ms (fst (setpath d_name pre sz)) t r)"
      by (rule "3.IH"(2) [OF False _ "3.prems"(2)]) (auto simp: setpath_def intro: "3.prems"(1))
    show ?thesis
    proof (cases "chng progname um rflag ms (fst (setpath d_name pre sz)) t r")
      case (Inl x)
      with c False show ?thesis by simp
    next
      case (Inr r')
      with c have "calls_ok P (chng_dir progname um rflag ms pre (snd (setpath d_name pre sz)) es r')"
        by (intro "3.IH"(3) [OF False Inr]) (auto intro: "3.prems"(1))
      with Inr False show ?thesis by simp
    qed
  qed
qed simp

lemma chng_all_calls:
  assumes "\<And>fn p v pm m msg. fn \<in> set fns \<Longrightarrow> f_under fn (tree fn) p v \<Longrightarrow> st_mode v = Some pm \<Longrightarrow>
      newmode progname um ms pm (Some p) = Inr (m, msg) \<Longrightarrow> P p m"
    and "calls_ok P (Inr r)"
  shows "calls_ok P (chng_all progname um rflag ms tree fns r)"
  using assms
proof (induction fns arbitrary: r)
  case (Cons fn fns)
  have c: "calls_ok P (chng progname um rflag ms fn (tree fn) r)"
    by (rule chng_calls(1) [OF _ Cons.prems(2)]) (auto intro: Cons.prems(1))
  show ?case
  proof (cases "chng progname um rflag ms fn (tree fn) r")
    case (Inr r')
    with c have "calls_ok P (chng_all progname um rflag ms tree fns r')"
      by (intro Cons.IH) (auto intro: Cons.prems(1))
    with Inr show ?thesis by simp
  qed (use c in simp)
qed simp

text \<open>
  (C36) Set-ID bits and execute permission.  Whatever symbolic mode, options and files \<open>chmod\<close> is called with, every call of
  \<open>chmod(2)\<close> it makes is for a file it got to from an operand, and if that is not a directory, then the mode is the one the file has
  already, or it has the set-user-ID bit only together with execute permission for the user, and the set-group-ID bit
  together with execute permission for the group or, where the file is lockable or the mode has an \<open>l\<close>, for mandatory locking, without.
\<close>

theorem chmod_setid_sound:
  assumes "(p, m) \<in> set (fst (chmod_main var umask progname tree argv))"
    and "chmod_opts argv optst_init False = (rflag, oi)" and "snd (absol 0 (argv ! oi)) \<noteq> []"
  shows "\<exists>fn v pm. fn \<in> set (drop (oi + 1) argv) \<and> f_under fn (tree fn) p v \<and> st_mode v = Some pm \<and>
    (is_dir pm \<or> m = pm \<or>
     (\<exists>locking. (locking \<longrightarrow> lockable pm \<or> CHR ''l'' \<in> set (argv ! oi)) \<and> setid_sound locking m))"
    (is "?P p m")
proof -
  define um where "um = (if var = SUS then umask else 0)"
  let ?run = "\<lambda>msg. chng_all progname um rflag (argv ! oi) tree (drop (oi + 1) argv)
      \<lparr>cm_calls = [], cm_err = msg, cm_errcnt = 0\<rparr>"
  have ok: "calls_ok ?P (?run msg)" for msg
  proof (rule chng_all_calls)
    fix fn p v pm m msg
    assume "fn \<in> set (drop (oi + 1) argv)" "f_under fn (tree fn) p v" "st_mode v = Some pm"
      "newmode progname um (argv ! oi) pm (Some p) = Inr (m, msg)"
    then show "?P p m" using newmode_sound [OF _ assms(3)] by (metis (no_types))
  qed (simp add: calls_ok_def)
  from assms(1) obtain msg r where "(\<exists>e. ?run msg = Inl (e, r)) \<or> ?run msg = Inr r" "(p, m) \<in> set (cm_calls r)"
    by (simp add: chmod_main_def Let_def assms(2) flip: um_def split: if_splits sum.splits prod.splits) blast+
  with ok [of msg] show ?thesis unfolding calls_ok_def by auto
qed

definition chmod_tree :: "string \<Rightarrow> fnode" where
  "chmod_tree fn = FNode (Some 0x41ED) None True
     (Inr [(''.'', FNode None None False (Inl [])), (''prog'', FNode (Some 0x81A4) None True (Inl []))])"

lemma chmod_run:
  "chmod_main SV 0 ''chmod'' chmod_tree [''chmod'', ''-R'', ''ug+xs'', ''dir''] =
     ([(''dir'', 0x4DED), (''dir/prog'', 0x8DEC)], \<lparr>out = [], err = [], status = 0\<rparr>)"
  "chmod_opts [''chmod'', ''-R'', ''ug+xs'', ''dir''] optst_init False = (True, 2)"
  by code_simp+

theorem chmod_setid_sound_witness:
  "\<exists>fn v pm. fn \<in> set [''dir''] \<and> f_under fn (chmod_tree fn) ''dir/prog'' v \<and> st_mode v = Some pm \<and>
    (is_dir pm \<or> (0x8DEC :: mode_t) = pm \<or>
     (\<exists>locking. (locking \<longrightarrow> lockable pm \<or> CHR ''l'' \<in> set ''ug+xs'') \<and> setid_sound locking 0x8DEC))"
  using chmod_setid_sound [of "''dir/prog''" "0x8DEC", OF _ chmod_run(2), of SV 0 "''chmod''" chmod_tree]
  unfolding chmod_run(1) by (simp add: schar_def uchar_def)

section \<open>Symbolic modes\<close>

text \<open>The masks that the parts of a symbolic mode become, and their meaning as sets.\<close>

definition hi_bits :: "mode_t \<Rightarrow> mode_t" where
  "hi_bits m = m AND NOT ALL_BITS"

lemma hi_zero: "hi_bits m = 0 \<Longrightarrow> bit m n \<Longrightarrow> bit ALL_BITS n"
proof -
  assume h: "hi_bits m = 0" "bit m n"
  then have "\<not> bit (m AND NOT ALL_BITS) n" unfolding hi_bits_def by simp
  with h(2) show ?thesis by (auto simp: bit_simps dest: bit_imp_le_length)
qed

lemma nm_act_nm:
  "modeset (nm (nm_act p b copy m mm s)) = act_set (modeset m) (modeset mm) p (modeset b) (modeset (nm s))"
  "hi_bits m = 0 \<Longrightarrow> hi_bits (nm (nm_act p b copy m mm s)) = hi_bits (nm s)"
proof -
  show "modeset (nm (nm_act p b copy m mm s)) = act_set (modeset m) (modeset mm) p (modeset b) (modeset (nm s))"
    by (cases p) (auto simp: nm_act_def Let_def modeset_ops modeset_not)
  assume h: "hi_bits m = 0"
  show "hi_bits (nm (nm_act p b copy m mm s)) = hi_bits (nm s)"
    by (cases p) (auto simp: nm_act_def Let_def hi_bits_def bit_simps intro!: bit_word_eqI dest: hi_zero [OF h])
qed

lemma nm_act_flags:
  "\<not> lock1 s \<Longrightarrow> \<not> lock2 s \<Longrightarrow> \<not> lock4 s \<Longrightarrow>
     \<not> lock1 (nm_act p b copy m mm s) \<and> \<not> lock2 (nm_act p b copy m mm s) \<and> \<not> lock4 (nm_act p b copy m mm s)"
  "setsgid (nm_act p b copy m mm s) \<longleftrightarrow> setsgid s \<or> p \<noteq> MSet \<and> SGID \<in> modeset b"
  by (cases p; simp add: nm_act_def Let_def setid_tests)+

fun wmask :: "cls option \<Rightarrow> mode_t" where
  "wmask None = ALL_BITS"
| "wmask (Some ClsU) = USER_BITS"
| "wmask (Some ClsG) = GROUP_BITS"
| "wmask (Some ClsO) = OTHER_BITS"

definition wmasks :: "cls option list \<Rightarrow> mode_t \<Rightarrow> mode_t" where
  "wmasks ws m = fold (\<lambda>w m. m OR wmask w) ws m"

lemma modeset_wmask: "modeset (wmask w) = (case w of None \<Rightarrow> UNIV | Some c \<Rightarrow> {b. cls_of b = c})"
  by (cases w rule: wmask.cases) (simp_all add: modeset_masks)

lemma modeset_wmasks: "modeset (wmasks ws m) = modeset m \<union> (\<Union>w \<in> set ws. modeset (wmask w))"
  by (induction ws arbitrary: m) (auto simp: wmasks_def modeset_ops)

lemma hi_wmasks: "hi_bits (wmasks ws 0) = 0"
proof -
  have "hi_bits m = 0 \<Longrightarrow> hi_bits (wmasks ws m) = 0" for m
  proof (induction ws arbitrary: m)
    case (Cons w ws)
    have "hi_bits (wmask w) = 0" by (cases w rule: wmask.cases) (simp_all add: hi_bits_def mask_defs)
    with Cons.prems have "hi_bits (m OR wmask w) = 0" by (simp add: hi_bits_def bit.conj_disj_distrib2)
    from Cons.IH [OF this] show ?case by (simp add: wmasks_def)
  qed (simp add: wmasks_def)
  then show ?thesis by (simp add: hi_bits_def)
qed

lemma wmasks_zero: "wmasks ws 0 = 0 \<longleftrightarrow> ws = []"
proof (cases ws)
  case (Cons w ws')
  have "modeset (wmask w) \<noteq> {}"
    by (cases w rule: wmask.cases) (auto simp: modeset_masks intro: exI [of _ "PB _ PR"])
  then have "modeset (wmasks ws 0) \<noteq> modeset 0" by (auto simp: modeset_wmasks modeset_ops Cons)
  with Cons show ?thesis by auto
qed (simp add: wmasks_def)

lemma modeset_who: "ws \<noteq> [] \<Longrightarrow> modeset (wmasks ws 0) = who_set ws"
  by (auto simp: modeset_wmasks modeset_wmask modeset_ops who_set_def split: option.splits)

abbreviation stops :: "string \<Rightarrow> bool" where
  "stops rest \<equiv> rest = [] \<or> hd rest \<in> set ''+-=,''"

lemma who_loop_render: "stops rest \<Longrightarrow> who_loop m (map who_char ws @ rest) = (wmasks ws m, rest)"
proof (induction ws arbitrary: m)
  case Nil
  then show ?case by (cases rest) (auto simp: wmasks_def)
next
  case (Cons w ws)
  then show ?case by (cases w rule: wmask.cases) (auto simp: wmasks_def)
qed

lemma who_render:
  "stops rest \<Longrightarrow> who um (map who_char ws @ rest) =
     (if ws = [] then ALL_BITS else wmasks ws 0, if ws = [] then um else 0, rest)"
  by (simp add: who_def who_loop_render wmasks_zero)

text \<open>Permissions: a list of letters, or those of a class with nothing but read, write and execute bits.\<close>

fun pmask :: "bool \<Rightarrow> perm \<Rightarrow> mode_t" where
  "pmask x Pr = READ_BITS"
| "pmask x Pw = WRITE_BITS"
| "pmask x Px = EXEC_BITS"
| "pmask x PcondX = (if x then EXEC_BITS else 0)"
| "pmask x Ps = SETID_BITS"
| "pmask x Pt = STICKY_BIT"

lemma modeset_pmask: "modeset (pmask x p) = perm_set x p"
  by (cases p) (simp_all add: modeset_masks modeset_ops)

abbreviation condx :: "mode_t \<Rightarrow> bool" where
  "condx pm \<equiv> is_dir pm \<or> pm AND EXEC_BITS \<noteq> 0"

lemma where_loop_render:
  "stops rest \<Longrightarrow> where_loop pm m l (map perm_char ps @ rest) = (fold (\<lambda>p m. m OR pmask (condx pm) p) ps m, l, rest)"
proof (induction ps arbitrary: m)
  case Nil
  then show ?case by (cases rest) auto
next
  case (Cons p ps)
  then show ?case by (cases p) auto
qed

lemma modeset_pmasks: "modeset (fold (\<lambda>p m. m OR pmask x p) ps m) = modeset m \<union> (\<Union>p \<in> set ps. perm_set x p)"
  by (induction ps arbitrary: m) (auto simp: modeset_ops modeset_pmask)

lemma dup_bits_set:
  assumes "\<And>j. bit v j \<Longrightarrow> j < 3"
  shows "modeset (dup_bits v) = {PB d r | d r. bit v (pos (PB ClsO r))}"
proof (rule set_eqI)
  fix b
  from assms have "\<not> bit v 3" "\<not> bit v 4" "\<not> bit v 5" "\<not> bit v 6" "\<not> bit v 7" "\<not> bit v 8" "\<not> bit v 9" "\<not> bit v 10" "\<not> bit v 11"
    by (auto dest: assms)
  then show "b \<in> modeset (dup_bits v) \<longleftrightarrow> b \<in> {PB d r | d r. bit v (pos (PB ClsO r))}"
    by (cases b rule: pos.cases)
       (auto simp: modeset_def dup_bits_def Let_def bit_simps mask_defs split: cls.splits rwx.splits)
qed

definition special_bits :: "pbit set" where
  "special_bits = {SUID, SGID, STICKY}"

lemma pos_surj:
  assumes "bit ALL_BITS k"
  obtains b where "pos b = k"
proof -
  have "bit (mask 12 :: mode_t) k" using assms by (simp add: ALL_BITS_def mask_eq_exp_minus_1)
  then have "k \<in> set [0..<12]" by (simp add: bit_simps)
  also have "[0..<12] = map pos [PB ClsO PX, PB ClsO PW, PB ClsO PR, PB ClsG PX, PB ClsG PW, PB ClsG PR,
      PB ClsU PX, PB ClsU PW, PB ClsU PR, STICKY, SGID, SUID]" by code_simp
  finally have "k \<in> range pos" unfolding set_map by blast
  with that show ?thesis by blast
qed

lemma dup_class:
  assumes "modeset n \<inter> special_bits = {}"
  shows "modeset (dup_bits (drop_bit (pos (PB c PX)) (n AND wmask (Some c)))) = {PB d r | d r. PB c r \<in> modeset n}"
proof -
  let ?w = "wmask (Some c)" let ?v = "drop_bit (pos (PB c PX)) (n AND ?w)"
  have w: "bit ?w (pos b) \<longleftrightarrow> cls_of b = c" for b
    using modeset_wmask [of "Some c"] by (auto simp: modeset_def)
  have h: "bit ?w k \<Longrightarrow> bit ALL_BITS k" for k
    by (rule hi_zero [where m = ?w]) (cases c; simp add: hi_bits_def mask_defs)
  have "j < 3" if "bit ?v j" for j
  proof -
    from that have b: "bit n (pos (PB c PX) + j)" "bit ?w (pos (PB c PX) + j)" by (auto simp: bit_simps)
    from pos_surj [OF h [OF b(2)]] obtain b where e: "pos b = pos (PB c PX) + j" by metis
    from b w [of b] have "cls_of b = c" "b \<in> modeset n" unfolding e [symmetric] by (simp_all add: modeset_def)
    with assms have "cls_of b = c" "b \<notin> special_bits" by blast+
    then obtain r where "b = PB c r" by (cases b rule: pos.cases) (auto simp: special_bits_def)
    with e show ?thesis by (auto split: cls.splits rwx.splits)
  qed
  moreover have "bit ?v (pos (PB ClsO r)) \<longleftrightarrow> PB c r \<in> modeset n" for r
    using w [of "PB c r"] by (auto simp: modeset_def bit_simps)
  ultimately show ?thesis by (simp add: dup_bits_set)
qed

lemma where_bits_render:
  assumes "stops rest" "modeset n \<inter> special_bits = {} \<or> (\<exists>ps. b = Perms ps)"
  obtains B copy where "where_bits n pm (render_perms b @ rest) = (B, False, copy, rest)"
    "modeset B = perms_set (condx pm) (modeset n) b"
proof (cases b)
  case (Perms ps)
  let ?c = "case map perm_char ps @ rest of [] \<Rightarrow> NUL | c # _ \<Rightarrow> c"
  have "?c \<notin> {CHR ''u'', CHR ''g'', CHR ''o''}"
  proof (cases ps)
    case Nil
    with assms(1) show ?thesis by (cases rest) auto
  next
    case (Cons p ps')
    then show ?thesis by (cases p) auto
  qed
  then show ?thesis using Perms assms(1)
    by (intro that [of "fold (\<lambda>p m. m OR pmask (condx pm) p) ps 0" False])
       (simp_all add: where_bits_def Let_def where_loop_render modeset_pmasks modeset_ops del: list.case)
next
  case (Copy c)
  with assms(2) have "modeset n \<inter> special_bits = {}" by auto
  from dup_class [OF this, of c] Copy show ?thesis
    by (intro that [of "dup_bits (drop_bit (pos (PB c PX)) (n AND wmask (Some c)))" True])
       (cases c; simp add: where_bits_def Let_def)+
qed

text \<open>
  A symbolic mode copies safely when it either copies nothing, or neither the file nor the mode has a set-ID or sticky bit: the masks
  \<open>USER\<close> and \<open>GROUP\<close> contain these bits, and \<open>where\<close> shifts them onto permission bits.
\<close>

definition no_copy :: "(mop \<times> perms) list \<Rightarrow> bool" where
  "no_copy as \<longleftrightarrow> list_all (\<lambda>(p, b). case b of Perms ps \<Rightarrow> True | Copy c \<Rightarrow> False) as"

definition no_special :: "(mop \<times> perms) list \<Rightarrow> bool" where
  "no_special as \<longleftrightarrow> list_all (\<lambda>(p, b). case b of Perms ps \<Rightarrow> Ps \<notin> set ps \<and> Pt \<notin> set ps | Copy c \<Rightarrow> True) as"

definition copies_safely :: "pbit set \<Rightarrow> (mop \<times> perms) list \<Rightarrow> bool" where
  "copies_safely s as \<longleftrightarrow> no_copy as \<or> s \<inter> special_bits = {} \<and> no_special as"

definition names_sgid :: "(mop \<times> perms) list \<Rightarrow> bool" where
  "names_sgid as \<longleftrightarrow> list_ex (\<lambda>(p, b). p \<noteq> MSet \<and> (case b of Perms ps \<Rightarrow> Ps \<in> set ps | Copy c \<Rightarrow> False)) as"

lemma perms_set_special:
  "no_special [(p, b)] \<Longrightarrow> perms_set x s b \<inter> special_bits = {}"
  "SGID \<in> perms_set x s b \<longleftrightarrow> (case b of Perms ps \<Rightarrow> Ps \<in> set ps | Copy c \<Rightarrow> False)"
proof -
  have k: "SUID \<in> perm_set x q \<longleftrightarrow> q = Ps" "SGID \<in> perm_set x q \<longleftrightarrow> q = Ps" "STICKY \<in> perm_set x q \<longleftrightarrow> q = Pt" for q
    by (cases q; simp)+
  show "no_special [(p, b)] \<Longrightarrow> perms_set x s b \<inter> special_bits = {}"
    "SGID \<in> perms_set x s b \<longleftrightarrow> (case b of Perms ps \<Rightarrow> Ps \<in> set ps | Copy c \<Rightarrow> False)"
    by (cases b; auto simp: special_bits_def no_special_def k)+
qed

lemma copies_safely_step:
  assumes "copies_safely s ((p, b) # as)"
  shows "s \<inter> special_bits = {} \<or> (\<exists>ps. b = Perms ps)" "copies_safely (act_set m mm p (perms_set x s b) s) as"
proof -
  show "s \<inter> special_bits = {} \<or> (\<exists>ps. b = Perms ps)"
    using assms by (cases b) (auto simp: copies_safely_def no_copy_def)
  have "act_set m mm p B s \<subseteq> s \<union> B" for B by (cases p) auto
  with assms perms_set_special(1) [of p b x s] show "copies_safely (act_set m mm p (perms_set x s b) s) as"
    unfolding copies_safely_def no_copy_def no_special_def by simp blast
qed

lemma stops_acts: "rest = [] \<or> hd rest = CHR '','' \<Longrightarrow> stops (render_acts as @ rest)"
  by (cases as; cases "fst (hd as)") (auto simp: render_acts_def)

definition quiet :: "nmst \<Rightarrow> bool" where
  "quiet s \<longleftrightarrow> \<not> lock1 s \<and> \<not> lock2 s \<and> \<not> lock4 s"

lemma nm_ops_render:
  assumes "rest = [] \<or> hd rest = CHR '',''" "copies_safely (modeset (nm s)) as" "quiet s" "hi_bits m = 0"
  obtains s' where "nm_ops pm m mm (render_acts as @ rest) s = (s', rest)"
    "modeset (nm s') = acts_set (condx pm) (modeset m) (modeset mm) as (modeset (nm s))"
    "hi_bits (nm s') = hi_bits (nm s)" "quiet s'" "setsgid s' \<longleftrightarrow> setsgid s \<or> names_sgid as"
  using assms
proof (induction as arbitrary: s thesis)
  case Nil
  have "what rest = (None, rest)" using Nil.prems(2) by (cases rest) auto
  with Nil show ?case by (simp add: render_acts_def nm_ops.simps [of pm m mm rest] acts_set_def names_sgid_def)
next
  case (Cons a as)
  obtain p b where a: "a = (p, b)" by fastforce
  let ?rest = "render_acts as @ rest"
  from copies_safely_step(1) [OF Cons.prems(3) [unfolded a]]
  obtain B copy where w: "where_bits (nm s) pm (render_perms b @ ?rest) = (B, False, copy, ?rest)"
    and B: "modeset B = perms_set (condx pm) (modeset (nm s)) b"
    by (metis where_bits_render [OF stops_acts [OF Cons.prems(2)]])
  let ?t = "nm_act p B copy m mm s"
  have t: "copies_safely (modeset (nm ?t)) as" "quiet ?t"
    using copies_safely_step(2) [OF Cons.prems(3) [unfolded a]] nm_act_flags(1) [of s p B copy m mm] Cons.prems(4)
    by (simp_all add: nm_act_nm B quiet_def)
  from Cons.IH [OF _ Cons.prems(2) t Cons.prems(5)] obtain s' where s': "nm_ops pm m mm ?rest ?t = (s', rest)"
    "modeset (nm s') = acts_set (condx pm) (modeset m) (modeset mm) as (modeset (nm ?t))"
    "hi_bits (nm s') = hi_bits (nm ?t)" "quiet s'" "setsgid s' \<longleftrightarrow> setsgid ?t \<or> names_sgid as" by metis
  have "what (mop_char p # r) = (Some p, r)" for r by (cases p) auto
  then have "nm_ops pm m mm (render_acts (a # as) @ rest) s = nm_ops pm m mm ?rest ?t"
    using w a by (simp add: render_acts_def nm_ops.simps [of pm m mm "mop_char p # _"])
  with s' nm_act_nm [where p = p and b = B and copy = copy and m = m and mm = mm and s = s] nm_act_flags(2) [of p B copy m mm s] B perms_set_special(2) Cons.prems(5) a
  show ?case by (intro Cons.prems(1) [of s']) (simp_all add: acts_set_def names_sgid_def)
qed

lemma copies_safely_append:
  assumes "copies_safely s (as @ bs)"
  shows "copies_safely s as \<and> copies_safely (acts_set x m mm as s) bs"
  using assms
proof (induction as arbitrary: s)
  case Nil
  then show ?case by (simp add: acts_set_def copies_safely_def no_copy_def no_special_def)
next
  case (Cons a as)
  obtain p b where a: "a = (p, b)" by fastforce
  from Cons.prems have "copies_safely (act_set m mm p (perms_set x s b) s) (as @ bs)"
    unfolding a append_Cons by (rule copies_safely_step(2))
  from Cons.IH [OF this] Cons.prems a show ?case
    by (auto simp: acts_set_def copies_safely_def no_copy_def no_special_def)
qed

lemma nm_clause_render:
  assumes "rest = [] \<or> hd rest = CHR '',''" "copies_safely (modeset (nm s)) (cl_acts c)" "quiet s"
  obtains s' m mm where "who um (render_clause c @ rest) = (m, mm, render_acts (cl_acts c) @ rest)"
    "nm_ops pm m mm (render_acts (cl_acts c) @ rest) s = (s', rest)"
    "modeset (nm s') = clause_set (modeset um) (condx pm) c (modeset (nm s))"
    "hi_bits (nm s') = hi_bits (nm s)" "quiet s'" "setsgid s' \<longleftrightarrow> setsgid s \<or> names_sgid (cl_acts c)"
proof -
  let ?ws = "cl_who c"
  let ?m = "if ?ws = [] then ALL_BITS else wmasks ?ws 0" let ?mm = "if ?ws = [] then um else 0"
  have w: "who um (render_clause c @ rest) = (?m, ?mm, render_acts (cl_acts c) @ rest)"
    using who_render [OF stops_acts [OF assms(1)]] by (simp add: render_clause_def)
  have m: "modeset ?m = who_set ?ws" "modeset ?mm = (if ?ws = [] then modeset um else {})"
    by (simp_all add: modeset_who modeset_masks who_set_def modeset_ops)
  have "hi_bits ?m = 0" by (simp add: hi_wmasks) (simp add: hi_bits_def)
  from nm_ops_render [OF assms this, where pm = pm and mm = ?mm] obtain s' where
    "nm_ops pm ?m ?mm (render_acts (cl_acts c) @ rest) s = (s', rest)"
    "modeset (nm s') = acts_set (condx pm) (modeset ?m) (modeset ?mm) (cl_acts c) (modeset (nm s))"
    "hi_bits (nm s') = hi_bits (nm s)" "quiet s'" "setsgid s' \<longleftrightarrow> setsgid s \<or> names_sgid (cl_acts c)" by metis
  with w m show ?thesis by (intro that [of ?m ?mm s']) (simp_all add: clause_set_def)
qed

lemma nm_clauses_render:
  assumes "cs \<noteq> []" "copies_safely (modeset (nm s)) (concat (map cl_acts cs))" "quiet s"
  obtains s' where "nm_clauses um pm (render_mode cs) s = (s', [])"
    "modeset (nm s') = mode_set (modeset um) (condx pm) cs (modeset (nm s))"
    "hi_bits (nm s') = hi_bits (nm s)" "quiet s'" "setsgid s' \<longleftrightarrow> setsgid s \<or> names_sgid (concat (map cl_acts cs))"
  using assms
proof (induction cs arbitrary: s thesis)
  case (Cons c cs)
  let ?rest = "if cs = [] then [] else CHR '','' # render_mode cs"
  have r: "render_mode (c # cs) = render_clause c @ ?rest" by (cases cs) (simp_all add: render_mode_def)
  from Cons.prems(3) have "copies_safely (modeset (nm s)) (cl_acts c @ concat (map cl_acts cs))" by simp
  note safe = copies_safely_append [OF this]
  obtain t m mm where t: "who um (render_clause c @ ?rest) = (m, mm, render_acts (cl_acts c) @ ?rest)"
    "nm_ops pm m mm (render_acts (cl_acts c) @ ?rest) s = (t, ?rest)"
    "modeset (nm t) = clause_set (modeset um) (condx pm) c (modeset (nm s))"
    "hi_bits (nm t) = hi_bits (nm s)" "quiet t" "setsgid t \<longleftrightarrow> setsgid s \<or> names_sgid (cl_acts c)"
    by (rule nm_clause_render [of ?rest s c, where um = um and pm = pm]) (use safe Cons.prems(4) in auto)
  show ?case
  proof (cases "cs = []")
    case True
    with t r show ?thesis
      by (intro Cons.prems(1) [of t]) (simp_all add: nm_clauses.simps [of um pm "render_clause c"] mode_set_def)
  next
    case False
    have "copies_safely (modeset (nm t)) (concat (map cl_acts cs))" using safe t(3) by (simp add: clause_set_def)
    with False t(5) obtain s' where s': "nm_clauses um pm (render_mode cs) t = (s', [])"
      "modeset (nm s') = mode_set (modeset um) (condx pm) cs (modeset (nm t))"
      "hi_bits (nm s') = hi_bits (nm t)" "quiet s'" "setsgid s' \<longleftrightarrow> setsgid t \<or> names_sgid (concat (map cl_acts cs))"
      by (metis Cons.IH)
    moreover have "nm_clauses um pm (render_mode (c # cs)) s = nm_clauses um pm (render_mode cs) t"
      using t r False by (simp add: nm_clauses.simps [of um pm "render_clause c @ _"])
    ultimately show ?thesis using t
      by (intro Cons.prems(1) [of s']) (auto simp: mode_set_def names_sgid_def)
  qed
qed simp

lemma condx_set: "pm AND EXEC_BITS \<noteq> 0 \<longleftrightarrow> (\<exists>c. PB c PX \<in> modeset pm)"
proof
  assume "pm AND EXEC_BITS \<noteq> 0"
  then have "\<not> (\<forall>k. bit (pm AND EXEC_BITS) k \<longleftrightarrow> bit (0 :: mode_t) k)" using bit_eq_iff by blast
  then obtain k where k: "bit pm k" "bit EXEC_BITS k" by (auto simp: bit_simps)
  have "hi_bits EXEC_BITS = 0" by (simp add: hi_bits_def mask_defs)
  from hi_zero [OF this k(2)] have "bit ALL_BITS k" .
  from pos_surj [OF this] obtain b where b: "pos b = k" by metis
  with k have "b \<in> modeset EXEC_BITS" "b \<in> modeset pm" by (simp_all add: modeset_def)
  then show "\<exists>c. PB c PX \<in> modeset pm" by (auto simp: modeset_masks)
next
  assume "\<exists>c. PB c PX \<in> modeset pm"
  then have "modeset (pm AND EXEC_BITS) \<noteq> {}" by (auto simp: modeset_ops modeset_masks)
  then show "pm AND EXEC_BITS \<noteq> 0" using modeset_ops(3) by metis
qed

lemma nm_out_hi: "hi_bits (nm_out pm g n) = hi_bits n"
proof -
  have "hi_bits S_ISGID = 0" by (simp add: hi_bits_def mask_defs stat_defs)
  from hi_zero [OF this] show ?thesis
    by (auto simp: nm_out_def hi_bits_def bit_simps intro!: bit_word_eqI)
qed

lemma absol_render:
  assumes "cs \<noteq> []" "list_all (\<lambda>c. cl_acts c \<noteq> []) cs"
  shows "absol 0 (render_mode cs) = (0, render_mode cs)" "render_mode cs \<noteq> []"
proof -
  obtain c cs' where cs: "cs = c # cs'" using assms(1) by (cases cs) auto
  with assms(2) obtain p b as where as: "cl_acts c = (p, b) # as" by (cases "cl_acts c") auto
  have w: "\<not> schar (who_char w) \<le> 55" for w
    by (cases w rule: wmask.cases) (simp_all add: schar_def uchar_def)
  have p: "\<not> (48 \<le> schar (mop_char p) \<and> schar (mop_char p) \<le> 55)"
    by (cases p) (simp_all add: schar_def uchar_def)
  have "\<exists>rest. render_mode cs = render_clause c @ rest"
    by (cases cs') (auto simp: cs render_mode_def)
  then obtain rest where r: "render_mode cs = render_clause c @ rest" ..
  show "absol 0 (render_mode cs) = (0, render_mode cs)" "render_mode cs \<noteq> []"
    unfolding r by (cases "cl_who c"; simp add: render_clause_def render_acts_def as w p)+
qed

text \<open>
  (C35) Symbolic modes.  Let a symbolic mode, clauses of classes and operations separated by commas and without the letter \<open>l\<close>, be applied to a
  file that is not lockable, and let it copy permissions only where no set-ID and sticky bits are around.  Then on a directory, and on any
  other file if each set-ID bit of the resulting permissions comes with execute permission for its class, \<open>newmode\<close> returns without a message a
  mode with the bits obtained by carrying out the operations in their order on sets of permissions: \<open>+\<close> adds the permissions to the
  classes, \<open>-\<close> removes them, \<open>=\<close> replaces the classes' permissions; where no class is given all are meant except for what the file creation mask
  covers; \<open>X\<close> is \<open>x\<close> for a directory and for a file somebody may execute, a class letter stands for the permissions this class has at
  that time.  On a directory the set-group-ID bit changes only by a mode with \<open>+\<close> or \<open>-\<close> and \<open>s\<close>, not by \<open>=\<close>.  The other bits of the mode do not change.
\<close>

theorem chmod_symbolic:
  assumes "cs \<noteq> []" "list_all (\<lambda>c. cl_acts c \<noteq> []) cs" "copies_safely (modeset pm) (concat (map cl_acts cs))" "\<not> lockable pm"
    and "S = mode_set (modeset um) (is_dir pm \<or> (\<exists>c. PB c PX \<in> modeset pm)) cs (modeset pm)"
    and "is_dir pm \<or> (SUID \<in> S \<longrightarrow> PB ClsU PX \<in> S) \<and> (SGID \<in> S \<longrightarrow> PB ClsG PX \<in> S)"
  shows "\<exists>m. newmode progname um (render_mode cs) pm (Some fn) = Inr (m, []) \<and>
    modeset m = (if \<not> is_dir pm \<or> names_sgid (concat (map cl_acts cs)) then S
                 else if SGID \<in> modeset pm then insert SGID S else S - {SGID}) \<and>
    m AND NOT ALL_BITS = pm AND NOT ALL_BITS"
proof -
  have st: "nm (nm_start pm) = pm" "quiet (nm_start pm)" "\<not> setsgid (nm_start pm)"
    using assms(4) nm_start_lock [of pm] by (auto simp: quiet_def nm_start_def Let_def lockable_def setid_tests')
  obtain s where s: "nm_clauses um pm (render_mode cs) (nm_start pm) = (s, [])"
    "modeset (nm s) = S" "hi_bits (nm s) = hi_bits pm" "quiet s" "setsgid s \<longleftrightarrow> names_sgid (concat (map cl_acts cs))"
    by (rule nm_clauses_render [OF assms(1), of "nm_start pm" um pm]) (use assms(3,5) st in \<open>auto simp: condx_set\<close>)
  note a = absol_render [OF assms(1,2)]
  have out: "nm_setgid progname pm (Some fn) s = Inr (nm_out pm (setsgid s) (nm s), [])"
    using s(2,4) assms(6)
    by (auto simp: nm_setgid_def nm_setuid_def quiet_def setid_tests setid_tests')
  have "modeset (nm_out pm (setsgid s) (nm s)) = (if \<not> is_dir pm \<or> setsgid s then S
                 else if SGID \<in> modeset pm then insert SGID S else S - {SGID})"
    using s(2) by (auto simp: nm_out_def setid_tests modeset_ops modeset_not modeset_single)
  moreover have "nm_out pm (setsgid s) (nm s) AND NOT ALL_BITS = pm AND NOT ALL_BITS"
    using nm_out_hi [of pm "setsgid s" "nm s"] s(3) by (simp add: hi_bits_def)
  ultimately show ?thesis using s a out by (simp add: newmode_def)
qed

definition chmod_cs :: "clause list" where
  "chmod_cs = [Clause [Some ClsU] [(MAdd, Perms [Px])],
     Clause [Some ClsG, Some ClsO] [(MSet, Copy ClsU), (MSub, Perms [Pw])], Clause [] [(MAdd, Perms [Pw])]]"

lemma chmod_cs_set:
  "modeset 0x8180 = {PB ClsU PR, PB ClsU PW}"
  "SUID \<notin> mode_set M x chmod_cs {PB ClsU PR, PB ClsU PW}" "SGID \<notin> mode_set M x chmod_cs {PB ClsU PR, PB ClsU PW}"
  "copies_safely {PB ClsU PR, PB ClsU PW} (concat (map cl_acts chmod_cs))"
  "render_mode chmod_cs = ''u+x,go=u-w,+w''"
proof -
  show "modeset 0x8180 = {PB ClsU PR, PB ClsU PW}"
  proof (rule set_eqI)
    fix b show "b \<in> modeset 0x8180 \<longleftrightarrow> b \<in> {PB ClsU PR, PB ClsU PW}"
      by (cases b rule: pos.cases) (simp_all add: modeset_def split: cls.splits rwx.splits)
  qed
qed (simp_all add: chmod_cs_def mode_set_def clause_set_def acts_set_def copies_safely_def no_special_def special_bits_def
  render_mode_def render_clause_def render_acts_def)

theorem chmod_symbolic_witness:
  "\<exists>m. newmode ''chmod'' 0x12 (render_mode chmod_cs) 0x8180 (Some ''f'') = Inr (m, []) \<and>
    modeset m = mode_set (modeset 0x12) False chmod_cs (modeset 0x8180) \<and> m AND NOT ALL_BITS = 0x8180 AND NOT ALL_BITS"
proof -
  have d: "\<not> is_dir 0x8180" by (simp add: is_dir_def stat_defs)
  have x: "(is_dir 0x8180 \<or> (\<exists>c. PB c PX \<in> modeset 0x8180)) = False" using d by (simp add: chmod_cs_set(1))
  show ?thesis
    using chmod_symbolic [of chmod_cs "0x8180", OF _ _ _ _ refl, of "0x12" "''chmod''" "''f''"] d
    unfolding x by (simp add: chmod_cs_set lockable_def) (simp add: chmod_cs_def)
qed

text \<open>
  Assigning the set-group-ID bit to a directory has no effect, although the manual page says that explicit symbolic modes set and
  clear it: on a directory of mode 0755, \<open>g=s\<close> gives 0705, whereas \<open>g+s\<close> gives 02755; \<open>g=rx\<close> does not clear it.
\<close>

lemma chmod_dir_setgid:
  "newmode ''chmod'' 0 ''g=s'' 0x41ED (Some ''d'') = Inr (0x41C5, [])"
  "newmode ''chmod'' 0 ''g+s'' 0x41ED (Some ''d'') = Inr (0x45ED, [])"
  "newmode ''chmod'' 0 ''g=rx'' 0x45ED (Some ''d'') = Inr (0x45ED, [])"
  by code_simp+

text \<open>
  Where a set-ID or sticky bit is around the copy goes wrong.  On a set-group-ID file the group of which may read and execute it,
  \<open>u=g\<close> gives the user write permission as well: \<open>GROUP\<close> contains the bit 02000, shifted to the right by three it is the bit 0200.
\<close>

lemma chmod_copy_leaks:
  "newmode ''chmod'' 0 ''u=g'' 0x8428 (Some ''f'') = Inr (0x85E8, [])"
  "PB ClsG PW \<notin> modeset 0x8428" "PB ClsU PW \<in> modeset 0x85E8"
  by code_simp (simp_all add: modeset_def)

text \<open>
  A mode that begins with \<open>-\<close> and has more than one letter is not put back by \<open>optind--\<close>, since \<open>getopt\<close> has not advanced \<open>optind\<close> yet
  when it returns the first letter: the name of the program is taken for the mode.
\<close>

lemma chmod_dash_mode:
  "chmod_main SV 0 ''chmod'' tree [''chmod'', ''-rw'', ''f''] =
     ([], \<lparr>out = [], err = ''chmod: ERROR: invalid mode'' @ [NL], status = 255\<rparr>)"
proof -
  have "chmod_opts [''chmod'', ''-rw'', ''f''] optst_init False = (False, 0)" by code_simp
  moreover have "newmode ''chmod'' 0 ''chmod'' 0 None = Inl (255, ''chmod: ERROR: invalid mode'' @ [NL])" by code_simp
  ultimately show ?thesis by (simp add: chmod_main_def)
qed

text \<open>An empty mode string counts as an absolute mode, 0.\<close>

lemma newmode_empty: "newmode progname um [] pm fn = Inr (nm_out pm False 0, [])"
  by (simp add: newmode_def)

text \<open>The buffer of \<open>setpath\<close> is large enough for the path and its terminating NUL.\<close>

lemma setpath_fits:
  "setpath base pre sz = (path, sz') \<Longrightarrow> length path < sz'" "length (fst (getpath path)) < snd (getpath path)"
  by (auto simp: setpath_def getpath_def split: if_splits)

text \<open>The trial run with the mode 0 and no file name never has to print the name.\<close>

lemma nm_ops_inv:
  assumes step: "\<And>p b copy l s. P s \<Longrightarrow> P (nm_act p b copy m mm (if l then s\<lparr>lock4 := True\<rparr> else s))" and "P s"
  shows "P (fst (nm_ops pm m mm ms s))"
  using assms(2)
proof (induction "length ms" arbitrary: ms s rule: less_induct)
  case less
  show ?case
  proof (cases rule: nm_ops_cases [where ms = ms and s = s and pm = pm and m = m and mm = mm])
    case (step p ms1 b l copy ms2)
    have "length ms2 < length ms"
      using what_suffix [OF step(1)] where_bits_suffix [OF step(2)] by (auto dest!: suffix_length_le)
    from less.hyps [OF this assms(1) [OF less.prems, of p b copy l]] step(3) show ?thesis by simp
  qed (use less.prems in simp)
qed

lemma nm_clauses_inv:
  assumes "\<And>p b copy m mm l s. P s \<Longrightarrow> P (nm_act p b copy m mm (if l then s\<lparr>lock4 := True\<rparr> else s))" and "P s"
  shows "P (fst (nm_clauses um pm ms s))"
  using assms(2)
proof (induction um pm ms s rule: nm_clauses.induct)
  case (1 um pm ms s)
  obtain m mm ms1 where w: "who um ms = (m, mm, ms1)" by (metis prod_cases3)
  obtain t ms2 where o: "nm_ops pm m mm ms1 s = (t, ms2)" by fastforce
  have t: "P t" using nm_ops_inv [of P m mm s pm ms1, OF assms(1) "1.prems"] o by simp
  show ?case
  proof (cases "\<exists>ms3. ms2 = CHR '','' # ms3")
    case True
    then obtain ms3 where c: "ms2 = CHR '','' # ms3" ..
    from "1.IH" [OF w [symmetric] refl o [symmetric] c refl t] w o c show ?thesis
      by (simp add: nm_clauses.simps [of um pm ms])
  next
    case False
    with t w o show ?thesis by (simp add: nm_clauses.simps [of um pm ms] split: list.splits)
  qed
qed

lemma newmode_trial:
  assumes "newmode progname um ms 0 None = Inr (m, e)"
  shows "e = []"
proof (cases "snd (absol 0 ms) = []")
  case True
  with assms show ?thesis by (cases "absol 0 ms") (simp add: newmode_def)
next
  case False
  obtain a ms1 s ms2 where a: "absol 0 ms = (a, ms1)" and c: "nm_clauses um 0 ms1 (nm_start 0) = (s, ms2)" by fastforce
  have "om (nm_start 0) = 0 \<and> \<not> lock1 (nm_start 0)" by (simp add: nm_start_def Let_def stat_defs)
  then have s: "om s = 0 \<and> \<not> lock1 s"
    using nm_clauses_inv [of "\<lambda>s. om s = 0 \<and> \<not> lock1 s" "nm_start 0" um 0 ms1] c
    by (simp add: nm_act_def Let_def split: mop.splits)
  have "(0 :: mode_t) \<noteq> S_IXGRP OR S_ISGID" "(0 :: mode_t) \<noteq> S_IXUSR OR S_ISUID" by (simp_all add: stat_defs)
  moreover from assms a c False have "nm_setgid progname 0 None s = Inr (m, e)" by (simp add: newmode_def split: if_splits)
  ultimately show ?thesis using s
    by (auto simp: nm_setgid_def nm_setuid_def execreq_def split: if_splits)
qed

end
