(* ===== verification/Cmp.thy ===== *)
theory Cmp
  imports Getopt Stdio
begin

text \<open>
  \<open>cmp/cmp.c\<close>: comparison of two files, block by block as long as they agree, then byte by byte.  \<open>cmp\<close> reads with its own
  buffers: \<open>sread\<close> collects short reads, and a read that fails counts as the end of the file.
  \<open>f_buf\<close> holds the bytes before \<open>f_max\<close>; behind them the buffer has zeros in word mode, where alone they are looked at.
  \<open>f_cur\<close> is an offset into the buffer.  Both operands being \<open>-\<close>, which makes the two files share a descriptor, is not covered.
\<close>

section \<open>Files\<close>

definition IOSIZE :: nat where
  "IOSIZE = 8192"

lemma IOSIZE_pos [simp]: "0 < IOSIZE" "IOSIZE \<noteq> 0"
  by (simp_all add: IOSIZE_def)

record cfile =
  f_buf :: string
  f_off :: int
  f_cur :: int
  f_nam :: string
  f_fd :: fdesc
  f_eof :: bool

text \<open>\<open>sread\<close>: the bytes read, and whether all calls of \<open>read\<close> succeeded.\<close>

function sread :: "nat \<Rightarrow> string \<Rightarrow> fdesc \<Rightarrow> string \<times> bool \<times> fdesc" where
  "sread sz data fd =
     (case sys_read (sz - length data) fd of
        (RFail e, fd') \<Rightarrow> (data, False, fd')
      | (ROk bs, fd') \<Rightarrow>
          if bs \<noteq> [] \<and> length (data @ bs) < sz then sread sz (data @ bs) fd' else (data @ bs, True, fd'))"
  by pat_completeness auto
termination
  by (relation "measure (\<lambda>(sz, data, fd). fd_size fd)") (auto dest: sys_read_decreases [OF sym])

declare sread.simps [simp del]

definition bread :: "cfile \<Rightarrow> int \<times> cfile" where
  "bread f =
     (case sread IOSIZE [] (f_fd f) of
        (data, ok, fd) \<Rightarrow>
          (let buf = (if ok then data else []);
               f = f\<lparr>f_fd := fd, f_buf := buf, f_cur := 0, f_off := f_off f + int (length buf),
                     f_eof := (length buf < IOSIZE \<or> f_eof f)\<rparr>
           in if buf \<noteq> [] then (uchar (hd buf), f\<lparr>f_cur := 1\<rparr>) else (eof, f)))"

definition f_offset :: "cfile \<Rightarrow> int" where
  "f_offset f = f_off f - (int (length (f_buf f)) - 1) + (f_cur f - 1)"

text \<open>A byte of the buffer; \<open>None\<close> outside of it.\<close>

definition f_byte :: "cfile \<Rightarrow> int \<Rightarrow> char option" where
  "f_byte f i =
     (if 0 \<le> i \<and> i < int (length (f_buf f)) then Some (f_buf f ! nat i)
      else if 0 \<le> i \<and> i < int IOSIZE then Some NUL else None)"

definition getchr :: "cfile \<Rightarrow> int \<times> cfile" where
  "getchr f =
     (if f_cur f < int (length (f_buf f))
      then (case f_byte f (f_cur f) of None \<Rightarrow> 0 | Some c \<Rightarrow> uchar c, f\<lparr>f_cur := f_cur f + 1\<rparr>)
      else if f_eof f then (eof, f) else bread f)"

section \<open>Reports\<close>

record cmpfl =
  c_lflag :: bool
  c_sflag :: bool
  c_wflag :: bool

text \<open>The end of a run: with an outcome, by an access outside a buffer, or never.\<close>

datatype cmprun = Exit outcome | Wild | Endless

definition eofon :: "cmpfl \<Rightarrow> string \<Rightarrow> string \<Rightarrow> cfile \<Rightarrow> cmprun" where
  "eofon fl progname txt f =
     Exit \<lparr>out = txt, err = (if \<not> c_sflag fl then progname @ '': EOF on '' @ f_nam f @ [NL] else []), status = 1\<rparr>"

fun octal :: "nat \<Rightarrow> string" where
  "octal n = (if n < 8 then [digit n] else octal (n div 8) @ [digit (n mod 8)])"

declare octal.simps [simp del]

text \<open>The bytes \<open>s[0]\<close> to \<open>s[n - 1]\<close> for a pointer into the buffer.\<close>

fun f_bytes :: "cfile \<Rightarrow> int \<Rightarrow> nat \<Rightarrow> string option" where
  "f_bytes f s 0 = Some []"
| "f_bytes f s (Suc n) =
     (case f_byte f s of None \<Rightarrow> None
      | Some c \<Rightarrow> (case f_bytes f (s + 1) n of None \<Rightarrow> None | Some cs \<Rightarrow> Some (c # cs)))"

text \<open>\<open>printbe64\<close> for at most eight bytes, the first one being the most significant, and \<open>printbytes\<close>.\<close>

definition printbe64 :: "cfile \<Rightarrow> int \<Rightarrow> string option" where
  "printbe64 f mx =
     (if mx > 8 then None
      else case f_bytes f (f_cur f) (nat mx) of
             None \<Rightarrow> None
           | Some cs \<Rightarrow> Some (padl 22 (CHR ''0'') (octal (foldl (\<lambda>u c. 256 * u + nat (uchar c)) 0 (cs @ replicate (8 - length cs) NUL)))))"

definition printbytes :: "cfile \<Rightarrow> int \<Rightarrow> string option" where
  "printbytes f mx =
     (case f_bytes f (f_cur f) 8 of
        None \<Rightarrow> None
      | Some cs \<Rightarrow> Some (map (\<lambda>(i, c). if int i \<ge> mx \<or> uchar c < 32 \<or> uchar c > 126 then CHR ''_'' else c) (List.enumerate 0 cs)))"

text \<open>
  \<open>wprnt\<close>: the text, then either the exit through \<open>eofon\<close> or the value of \<open>eof\<close> and the files.  \<open>%\<close> of C truncates.
\<close>

definition wprnt :: "cmpfl \<Rightarrow> string \<Rightarrow> string \<Rightarrow> cfile \<Rightarrow> cfile \<Rightarrow> cmprun + string \<times> bool \<times> cfile \<times> cfile" where
  "wprnt fl progname txt f1 f2 =
     (let offs = f_offset f1 - 1;
          md = (if offs < 0 then - ((- offs) mod 8) else offs mod 8);
          f1 = f1\<lparr>f_cur := f_cur f1 - (md + 1)\<rparr>;
          f2 = f2\<lparr>f_cur := f_cur f2 - (md + 1)\<rparr>;
          ends = (\<lambda>f. f_cur f + 9 > int (length (f_buf f)) \<and> f_eof f);
          eof1 = (ends f1 \<or> ends f2);
          diff = (if eof1 then int (length (f_buf f1)) - int (length (f_buf f2)) else 0);
          mx = (if diff < 0 then int (length (f_buf f1)) - f_cur f1
                 else if diff > 0 then int (length (f_buf f2)) - f_cur f2 else 8)
      in case (printbe64 f1 mx, printbe64 f2 mx, printbytes f1 mx, printbytes f2 mx) of
           (Some a1, Some a2, Some b1, Some b2) \<Rightarrow>
             (let txt = txt @ padl 11 (CHR ''0'') (octal (nat (offs div 8))) @ '': '' @ a1 @ '' '' @ a2 @ '' '' @ b1 @ '' '' @ b2 @ [NL]
              in if eof1 \<and> diff > 0 then Inl (eofon fl progname txt f2)
                 else if eof1 \<and> diff < 0 then Inl (eofon fl progname txt f1)
                 else Inr (txt, eof1, f1\<lparr>f_cur := f_cur f1 + 9\<rparr>, f2\<lparr>f_cur := f_cur f2 + 9\<rparr>))
         | _ \<Rightarrow> Inl Wild)"

section \<open>The comparison\<close>

text \<open>The code at the label \<open>different\<close>: the end of the run, or the state with which the loop goes on.\<close>

definition cmp_different :: "cmpfl \<Rightarrow> string \<Rightarrow> int \<Rightarrow> int \<Rightarrow> cfile \<Rightarrow> cfile \<Rightarrow> nat \<Rightarrow> string \<Rightarrow>
    cmprun + cfile \<times> cfile \<times> string" where
  "cmp_different fl progname c1 c2 f1 f2 line txt =
     (if c_wflag fl then
        (case wprnt fl progname txt f1 f2 of
           Inl r \<Rightarrow> Inl r
         | Inr (txt, eof1, f1, f2) \<Rightarrow> if eof1 then Inl (Exit \<lparr>out = txt, err = [], status = 1\<rparr>) else Inr (f1, f2, txt))
      else if c1 = eof then Inl (eofon fl progname txt f1)
      else if c2 = eof then Inl (eofon fl progname txt f2)
      else if c_lflag fl
      then Inr (f1, f2, txt @ padl 6 (CHR '' '') (decimal_int (f_offset f1)) @ '' '' @ padl 3 (CHR '' '') (octal (nat c1)) @
                '' '' @ padl 3 (CHR '' '') (octal (nat c2)) @ [NL])
      else Inl (Exit \<lparr>out = txt @ (if \<not> c_sflag fl then f_nam f1 @ '' '' @ f_nam f2 @ '' differ: char '' @
                        decimal_int (f_offset f1) @ '', line '' @ decimal line @ [NL] else []), err = [], status = 1\<rparr>))"

text \<open>A bound on what \<open>getchr\<close> can still deliver.\<close>

definition f_size :: "cfile \<Rightarrow> nat" where
  "f_size f = nat (int (length (f_buf f)) - f_cur f) + fd_size (f_fd f)"

lemma sread_size:
  "sread sz data fd = (d, ok, fd') \<Longrightarrow> \<exists>bs. d = data @ bs \<and> fd_size fd' + length bs \<le> fd_size fd"
proof (induction sz data fd rule: sread.induct)
  case (1 sz data fd)
  obtain r fd1 where r: "sys_read (sz - length data) fd = (r, fd1)" by fastforce
  show ?case
  proof (cases r)
    case (RFail e)
    with r "1.prems" sys_read_fail [of "sz - length data" fd e fd1] show ?thesis
      by (auto simp: sread.simps [of sz data fd] fd_size_def)
  next
    case (ROk bs)
    with r have le: "fd_size fd1 + length bs \<le> fd_size fd" using sys_read_size by blast
    show ?thesis
    proof (cases "bs \<noteq> [] \<and> length (data @ bs) < sz")
      case True
      with "1.prems" r ROk have "sread sz (data @ bs) fd1 = (d, ok, fd')" by (simp add: sread.simps [of sz data fd])
      from "1.IH" [OF r [symmetric] ROk True this] le show ?thesis by fastforce
    next
      case False
      with "1.prems" r ROk le show ?thesis by (auto simp: sread.simps [of sz data fd])
    qed
  qed
qed

lemma bread_size:
  assumes "bread f = (c, f')"
  shows "f_size f' \<le> f_size f" "c \<noteq> eof \<Longrightarrow> f_size f' < f_size f" "f_size (f'\<lparr>f_cur := i\<rparr>) \<le> f_size f + nat (- i)"
    "\<not> f_eof f' \<Longrightarrow> c \<noteq> eof"
proof -
  obtain d ok fd where r: "sread IOSIZE [] (f_fd f) = (d, ok, fd)" by (metis prod_cases3)
  from sread_size [OF r] have "fd_size fd + length d \<le> fd_size (f_fd f)" "d = [] \<or> (\<exists>x xs. d = x # xs)" by (cases d; simp)+
  with assms r show "f_size f' \<le> f_size f" "c \<noteq> eof \<Longrightarrow> f_size f' < f_size f"
    "f_size (f'\<lparr>f_cur := i\<rparr>) \<le> f_size f + nat (- i)" "\<not> f_eof f' \<Longrightarrow> c \<noteq> eof"
    by (auto simp: bread_def f_size_def Let_def split: if_splits)
qed

lemma bread_full_size: "(c, f') = bread f \<Longrightarrow> \<not> f_eof f' \<Longrightarrow> f_size f' < f_size f"
  using bread_size(2,4) [of f c f'] by simp

lemma getchr_size: "getchr f = (c, f') \<Longrightarrow> f_size f' \<le> f_size f \<and> (c \<noteq> eof \<longrightarrow> f_size f' < f_size f)"
  by (auto simp: getchr_def dest: bread_size(1,2) split: if_splits) (auto simp: f_size_def)

lemma wprnt_size: "wprnt fl progname txt f1 f2 = Inr (txt', e, f1', f2') \<Longrightarrow> f_size f1' \<le> f_size f1 \<and> f_size f2' \<le> f_size f2"
  by (auto simp: wprnt_def Let_def f_size_def split: option.splits if_splits)

lemma cmp_different_size:
  assumes "cmp_different fl progname c1 c2 f1 f2 line txt = Inr (f1', f2', txt')"
  shows "f_size f1' \<le> f_size f1 \<and> f_size f2' \<le> f_size f2"
  using assms wprnt_size by (auto simp: cmp_different_def split: if_splits sum.splits)

text \<open>The second loop, one byte at a time; its body from \<open>equal\<close> on is shared with the first.\<close>

function cmp_chars :: "cmpfl \<Rightarrow> string \<Rightarrow> cfile \<Rightarrow> cfile \<Rightarrow> nat \<Rightarrow> string \<Rightarrow> nat \<Rightarrow> cmprun" where
  "cmp_chars fl progname f1 f2 line txt errcnt =
     (case (getchr f1, getchr f2) of
        ((c1, f1'), (c2, f2')) \<Rightarrow>
          if c1 = c2 then
            if c1 = 10 then cmp_chars fl progname f1' f2' (line + 1) txt errcnt
            else if c1 = eof then Exit \<lparr>out = txt, err = [], status = int errcnt\<rparr>
            else cmp_chars fl progname f1' f2' line txt errcnt
          else (case cmp_different fl progname c1 c2 f1' f2' line txt of
                  Inl r \<Rightarrow> r
                | Inr (f1'', f2'', txt') \<Rightarrow> cmp_chars fl progname f1'' f2'' line txt' 1))"
  by pat_completeness auto
termination
  by (relation "measure (\<lambda>(fl, progname, f1, f2, line, txt, errcnt). f_size f1 + f_size f2)")
     (auto dest!: getchr_size [OF sym] cmp_different_size)

declare cmp_chars.simps [simp del]

text \<open>The code from the labels on, and then the second loop.\<close>

definition cmp_equal :: "cmpfl \<Rightarrow> string \<Rightarrow> int \<Rightarrow> cfile \<Rightarrow> cfile \<Rightarrow> nat \<Rightarrow> cmprun" where
  "cmp_equal fl progname c1 f1 f2 line =
     (if c1 = 10 then cmp_chars fl progname f1 f2 (line + 1) [] 0
      else if c1 = eof then Exit \<lparr>out = [], err = [], status = 0\<rparr>
      else cmp_chars fl progname f1 f2 line [] 0)"

definition cmp_differ :: "cmpfl \<Rightarrow> string \<Rightarrow> int \<Rightarrow> int \<Rightarrow> cfile \<Rightarrow> cfile \<Rightarrow> nat \<Rightarrow> cmprun" where
  "cmp_differ fl progname c1 c2 f1 f2 line =
     (case cmp_different fl progname c1 c2 f1 f2 line [] of
        Inl r \<Rightarrow> r
      | Inr (f1', f2', txt) \<Rightarrow> cmp_chars fl progname f1' f2' line txt 1)"

text \<open>The inner loop of the first: two full blocks, the line number at the end or at the first difference, and its index.\<close>

fun cmp_scan :: "nat \<Rightarrow> string \<Rightarrow> string \<Rightarrow> nat \<Rightarrow> nat \<times> nat option" where
  "cmp_scan i (a # as) (b # bs) line =
     (if a = b then cmp_scan (i + 1) as bs (if a = NL then line + 1 else line) else (line, Some i))"
| "cmp_scan i _ _ line = (line, None)"

function cmp_blocks :: "cmpfl \<Rightarrow> string \<Rightarrow> cfile \<Rightarrow> cfile \<Rightarrow> nat \<Rightarrow> cmprun" where
  "cmp_blocks fl progname f1 f2 line =
     (case (bread f1, bread f2) of
        ((c1, f1'), (c2, f2')) \<Rightarrow>
          if c1 \<noteq> c2 then cmp_differ fl progname c1 c2 f1' f2' line
          else if \<not> f_eof f1' \<and> \<not> f_eof f2' then
            (case cmp_scan 0 (f_buf f1') (f_buf f2') line of
               (line', None) \<Rightarrow> cmp_blocks fl progname f1' f2' line'
             | (line', Some i) \<Rightarrow>
                 cmp_differ fl progname (uchar (f_buf f1' ! i)) (uchar (f_buf f2' ! i))
                   (f1'\<lparr>f_cur := int i + 1\<rparr>) (f2'\<lparr>f_cur := int i + 1\<rparr>) line')
          else cmp_equal fl progname c1 f1' f2' line)"
  by pat_completeness auto
termination
  by (relation "measure (\<lambda>(fl, progname, f1, f2, line). f_size f1)") (auto intro: bread_full_size)

declare cmp_blocks.simps [simp del]

definition cmp_files :: "cmpfl \<Rightarrow> string \<Rightarrow> cfile \<Rightarrow> cfile \<Rightarrow> cmprun" where
  "cmp_files fl progname f1 f2 = cmp_blocks fl progname f1 f2 1"

section \<open>Operands\<close>

text \<open>
  \<open>openfile\<close>.  The memory from \<open>memalign\<close> is not cleared and \<open>f_eof\<close> not set, so its first value \<open>junk\<close> is whatever the memory held.
\<close>

definition openfile :: "cmpfl \<Rightarrow> string \<Rightarrow> bool \<Rightarrow> filesys \<Rightarrow> fdesc \<Rightarrow> string \<Rightarrow> outcome + cfile" where
  "openfile fl progname junk fs stdin fn =
     (let mk = (\<lambda>fd name. \<lparr>f_buf = [], f_off = 0, f_cur = 0, f_nam = name, f_fd = fd, f_eof = junk\<rparr>)
      in if fn = ''-'' then Inr (mk stdin ''standard input'')
         else case fs fn of
                None \<Rightarrow> Inl \<lparr>out = [], err = (if \<not> c_sflag fl then progname @ '': cannot open '' @ fn @ [NL] else []), status = 2\<rparr>
              | Some fd \<Rightarrow> Inr (mk fd fn))"

text \<open>\<open>strtoll\<close> for the bases 8 and 10, with its limits.\<close>

definition strtoll :: "nat \<Rightarrow> string \<Rightarrow> int" where
  "strtoll base s =
     (let s = dropWhile (\<lambda>c. c = CHR '' '' \<or> 9 \<le> uchar c \<and> uchar c \<le> 13) s;
          neg = (s \<noteq> [] \<and> hd s = CHR ''-'');
          s = (if s \<noteq> [] \<and> (hd s = CHR ''-'' \<or> hd s = CHR ''+'') then tl s else s);
          n = int (foldl (\<lambda>n c. base * n + digit_val c) 0 (takeWhile (\<lambda>c. is_digit c \<and> digit_val c < base) s))
      in if neg then (if n > 2 ^ 63 then - (2 ^ 63) else - n) else (if n > 2 ^ 63 - 1 then 2 ^ 63 - 1 else n))"

text \<open>
  The loop of \<open>setskip\<close>.  Since \<open>sizeof f->f_buf\<close> is unsigned the comparisons with it are on unsigned numbers of 64 bits.  The loop does not
  look for the end of the file.
\<close>

abbreviation ull :: "int \<Rightarrow> int" where
  "ull i \<equiv> i mod 2 ^ 64"

partial_function (option) skip_loop :: "int \<Rightarrow> cfile \<Rightarrow> cfile option" where
  "skip_loop skip f = (if ull (f_off f) < ull (skip - int IOSIZE) then skip_loop skip (snd (bread f)) else Some f)"

declare skip_loop.simps [code]

definition setskip_to :: "cmpfl \<Rightarrow> string \<Rightarrow> cfile \<Rightarrow> int \<Rightarrow> cmprun + cfile" where
  "setskip_to fl progname f skip =
     (case (if ull skip > int IOSIZE then skip_loop skip f else Some f) of
        None \<Rightarrow> Inl Endless
      | Some f \<Rightarrow>
          (let f = (if f_off f < skip then
                      (case sread (nat (skip - f_off f)) [] (f_fd f) of
                         (data, ok, fd) \<Rightarrow>
                           (let rsz = (if ok then int (length data) else -1)
                            in f\<lparr>f_fd := fd, f_eof := (rsz < skip - f_off f \<or> f_eof f)\<rparr>))
                    else f)
           in if f_eof f then Inl (eofon fl progname [] f) else Inr (f\<lparr>f_off := 0\<rparr>)))"

definition setskip :: "cmpfl \<Rightarrow> string \<Rightarrow> cfile \<Rightarrow> string \<Rightarrow> cmprun + cfile" where
  "setskip fl progname f skipstring =
     setskip_to fl progname f (strtoll (if skipstring \<noteq> [] \<and> hd skipstring = CHR ''0'' then 8 else 10) skipstring)"

fun cmp_opts :: "optev list \<Rightarrow> cmpfl \<Rightarrow> string + cmpfl" where
  "cmp_opts [] fl = Inr fl"
| "cmp_opts ((c, arg, msg) # evs) fl =
     (if c = 108 then cmp_opts evs (fl\<lparr>c_lflag := True\<rparr>) else if c = 115 then cmp_opts evs (fl\<lparr>c_sflag := True\<rparr>)
      else if c = 119 then cmp_opts evs (fl\<lparr>c_wflag := True\<rparr>) else Inl msg)"

definition cmp_usage :: "string \<Rightarrow> string \<Rightarrow> cmprun" where
  "cmp_usage progname msg =
     Exit \<lparr>out = [], err = msg @ ''usage: '' @ progname @ '' [-l] [-s] file1 file2 [skip1 [skip2] ]'' @ [NL], status = 2\<rparr>"

definition cmp_main :: "string \<Rightarrow> bool \<times> bool \<Rightarrow> filesys \<Rightarrow> fdesc \<Rightarrow> string list \<Rightarrow> cmprun" where
  "cmp_main progname junk fs stdin argv =
     (case getopt_all True None argv ''lsw'' optst_init of
        (evs, ost) \<Rightarrow>
          (case cmp_opts evs \<lparr>c_lflag = False, c_sflag = False, c_wflag = False\<rparr> of
             Inl msg \<Rightarrow> cmp_usage progname msg
           | Inr fl \<Rightarrow>
               (case drop (optind ost) argv of
                  a1 # a2 # skips \<Rightarrow>
                    if length skips > 2 then cmp_usage progname []
                    else (case openfile fl progname (fst junk) fs stdin a1 of
                            Inl r \<Rightarrow> Exit r
                          | Inr f1 \<Rightarrow>
                              (case openfile fl progname (snd junk) fs stdin a2 of
                                 Inl r \<Rightarrow> Exit r
                               | Inr f2 \<Rightarrow>
                                   (case (case skips of [] \<Rightarrow> Inr f1 | s1 # _ \<Rightarrow> setskip fl progname f1 s1) of
                                      Inl r \<Rightarrow> r
                                    | Inr f1 \<Rightarrow>
                                        (case (case skips of _ # s2 # _ \<Rightarrow> setskip fl progname f2 s2 | _ \<Rightarrow> Inr f2) of
                                           Inl r \<Rightarrow> r
                                         | Inr f2 \<Rightarrow> cmp_files fl progname f1 f2))))
                | _ \<Rightarrow> cmp_usage progname [])))"

section \<open>Reading\<close>

text \<open>
  What is still to be compared of a file, and the states of a file no read of which fails: the buffer is a part of what was read,
  and at the end of the file nothing is left in the descriptor.
\<close>

definition f_rest :: "cfile \<Rightarrow> string" where
  "f_rest f = drop (nat (f_cur f)) (f_buf f) @ fd_rest (f_fd f)"

definition f_ok :: "cfile \<Rightarrow> bool" where
  "f_ok f \<longleftrightarrow> 0 \<le> f_cur f \<and> f_cur f \<le> int (length (f_buf f)) \<and> fd_calm (f_fd f) \<and> (f_eof f \<longrightarrow> fd_rest (f_fd f) = [])"

lemma sread_calm:
  assumes "fd_calm fd" "length data < sz"
  shows "\<exists>fd'. sread sz data fd = (data @ take (sz - length data) (fd_rest fd), True, fd') \<and>
    fd_rest fd' = drop (sz - length data) (fd_rest fd) \<and> fd_calm fd'"
  using assms
proof (induction sz data fd rule: sread.induct)
  case (1 sz data fd)
  obtain r fd1 where r: "sys_read (sz - length data) fd = (r, fd1)" by fastforce
  show ?case
  proof (cases r)
    case (RFail e)
    with r sys_read_fail(7) [of _ fd e fd1] "1.prems"(1) show ?thesis by (auto simp: fd_calm_def)
  next
    case (ROk bs)
    with r have ok: "sys_read (sz - length data) fd = (ROk bs, fd1)" by simp
    from "1.prems"(2) have pos: "0 < sz - length data" by simp
    note k = sys_read_ok [OF ok pos]
    have calm: "fd_calm fd1" using "1.prems"(1) k(7) by (auto simp: fd_calm_def)
    have split: "take (sz - length data) (fd_rest fd) = bs @ take (sz - length (data @ bs)) (fd_rest fd1)"
      "drop (sz - length data) (fd_rest fd) = drop (sz - length (data @ bs)) (fd_rest fd1)"
      unfolding k(1) using k(3) by (simp_all add: diff_diff_eq)
    show ?thesis
    proof (cases "bs \<noteq> [] \<and> length (data @ bs) < sz")
      case True
      then have "sread sz data fd = sread sz (data @ bs) fd1" by (simp add: sread.simps [of sz data fd] ok)
      moreover from True have "length (data @ bs) < sz" ..
      ultimately show ?thesis using "1.IH" [OF r [symmetric] ROk True calm] unfolding split by (simp only: append_assoc)
    next
      case False
      then have "sread sz data fd = (data @ bs, True, fd1)" by (auto simp: sread.simps [of sz data fd] ok)
      moreover have "fd_rest fd1 = [] \<or> sz - length (data @ bs) = 0"
      proof (cases "bs = []")
        case True
        with k(1,2) show ?thesis by simp
      qed (use False in simp)
      ultimately show ?thesis using calm unfolding split by (elim disjE) simp_all
    qed
  qed
qed

lemma bread_calm:
  assumes "fd_calm (f_fd f)" "f_eof f \<Longrightarrow> fd_rest (f_fd f) = []"
  obtains c f' where "bread f = (c, f')" "f_ok f'" "f_buf f' = take IOSIZE (fd_rest (f_fd f))"
    "fd_rest (f_fd f') = drop IOSIZE (fd_rest (f_fd f))" "f_nam f' = f_nam f" "f_off f' = f_off f + int (length (f_buf f'))"
    "f_eof f' \<longleftrightarrow> f_eof f \<or> length (f_buf f') < IOSIZE"
    "fd_rest (f_fd f) = [] \<longrightarrow> c = eof \<and> f_cur f' = 0"
    "\<forall>a as. fd_rest (f_fd f) = a # as \<longrightarrow> c = uchar a \<and> f_cur f' = 1"
proof -
  obtain fd' where s: "sread IOSIZE [] (f_fd f) = (take IOSIZE (fd_rest (f_fd f)), True, fd')"
    "fd_rest fd' = drop IOSIZE (fd_rest (f_fd f))" "fd_calm fd'"
    using sread_calm [OF assms(1), of "[]" IOSIZE] by auto
  show ?thesis
  proof (cases "fd_rest (f_fd f)")
    case Nil
    with s show ?thesis
      by (intro that [OF surjective_pairing]) (simp_all add: bread_def f_ok_def)
  next
    case (Cons a as)
    with assms(2) have "\<not> f_eof f" by auto
    with s Cons show ?thesis
      by (intro that [OF surjective_pairing]) (auto simp: bread_def f_ok_def Let_def take_Cons' split: if_splits)
  qed
qed

text \<open>\<open>getchr\<close> delivers the bytes of the file in their order, and \<open>offset\<close> counts them.\<close>

lemma getchr_ok:
  assumes "f_ok f"
  obtains c f' where "getchr f = (c, f')" "f_ok f'" "f_nam f' = f_nam f"
    "f_rest f = [] \<longrightarrow> c = eof \<and> f_rest f' = []"
    "\<forall>a as. f_rest f = a # as \<longrightarrow> c = uchar a \<and> f_rest f' = as \<and> f_offset f' = f_offset f + 1"
proof (cases "f_cur f < int (length (f_buf f))")
  case True
  let ?i = "nat (f_cur f)"
  from assms True have i: "?i < length (f_buf f)" "0 \<le> f_cur f" by (auto simp: f_ok_def)
  have d: "f_rest f = f_buf f ! ?i # drop (Suc ?i) (f_buf f) @ fd_rest (f_fd f)"
    using Cons_nth_drop_Suc [OF i(1)] by (simp add: f_rest_def)
  have "nat (f_cur f + 1) = Suc ?i" using i by simp
  with True i d assms show ?thesis
    by (intro that [of "uchar (f_buf f ! ?i)" "f\<lparr>f_cur := f_cur f + 1\<rparr>"])
       (auto simp: getchr_def f_byte_def f_ok_def f_offset_def f_rest_def)
next
  case False
  with assms have r: "f_rest f = fd_rest (f_fd f)" "f_cur f = int (length (f_buf f))" by (auto simp: f_ok_def f_rest_def)
  show ?thesis
  proof (cases "f_eof f")
    case True
    with False r assms show ?thesis by (intro that [of eof f]) (auto simp: getchr_def f_ok_def)
  next
    case eof: False
    from assms have calm: "fd_calm (f_fd f)" "f_eof f \<Longrightarrow> fd_rest (f_fd f) = []" by (simp_all add: f_ok_def)
    obtain c f' where b: "bread f = (c, f')" "f_ok f'" "f_buf f' = take IOSIZE (fd_rest (f_fd f))"
      "fd_rest (f_fd f') = drop IOSIZE (fd_rest (f_fd f))" "f_nam f' = f_nam f" "f_off f' = f_off f + int (length (f_buf f'))"
      "f_eof f' \<longleftrightarrow> f_eof f \<or> length (f_buf f') < IOSIZE"
      "fd_rest (f_fd f) = [] \<longrightarrow> c = eof \<and> f_cur f' = 0"
      "\<forall>a as. fd_rest (f_fd f) = a # as \<longrightarrow> c = uchar a \<and> f_cur f' = 1"
      by (rule bread_calm [OF calm])
    obtain n where n: "IOSIZE = Suc n" using IOSIZE_pos(1) by (cases IOSIZE) simp_all
    have "f_rest f' = as \<and> c = uchar a \<and> f_offset f' = f_offset f + 1" if "f_rest f = a # as" for a as
      using that r b(3,4,6,9) by (auto simp: f_rest_def f_offset_def n)
    with b r False eof show ?thesis
      by (intro that [of c f']) (auto simp: getchr_def f_rest_def)
  qed
qed

section \<open>Specification\<close>

text \<open>
  The comparison of two byte sequences: \<open>k\<close> bytes have been compared before, in \<open>line\<close> lines.  With \<open>-l\<close> every differing byte is
  listed, otherwise the first one ends the comparison.
\<close>

definition l_entry :: "nat \<Rightarrow> char \<Rightarrow> char \<Rightarrow> string" where
  "l_entry k a b = padl 6 (CHR '' '') (decimal k) @ '' '' @ padl 3 (CHR '' '') (octal (nat (uchar a))) @ '' '' @
     padl 3 (CHR '' '') (octal (nat (uchar b))) @ [NL]"

definition eof_run :: "cmpfl \<Rightarrow> string \<Rightarrow> string \<Rightarrow> string \<Rightarrow> cmprun" where
  "eof_run fl progname txt name =
     Exit \<lparr>out = txt, err = (if \<not> c_sflag fl then progname @ '': EOF on '' @ name @ [NL] else []), status = 1\<rparr>"

fun cmp_seq :: "cmpfl \<Rightarrow> string \<Rightarrow> string \<Rightarrow> string \<Rightarrow> nat \<Rightarrow> nat \<Rightarrow> string \<Rightarrow> nat \<Rightarrow> string \<Rightarrow> string \<Rightarrow> cmprun" where
  "cmp_seq fl progname n1 n2 k line txt errcnt [] [] = Exit \<lparr>out = txt, err = [], status = int errcnt\<rparr>"
| "cmp_seq fl progname n1 n2 k line txt errcnt [] (b # bs) = eof_run fl progname txt n1"
| "cmp_seq fl progname n1 n2 k line txt errcnt (a # as) [] = eof_run fl progname txt n2"
| "cmp_seq fl progname n1 n2 k line txt errcnt (a # as) (b # bs) =
     (if a = b then cmp_seq fl progname n1 n2 (k + 1) (if a = NL then line + 1 else line) txt errcnt as bs
      else if c_lflag fl then cmp_seq fl progname n1 n2 (k + 1) line (txt @ l_entry (k + 1) a b) 1 as bs
      else Exit \<lparr>out = txt @ (if \<not> c_sflag fl then n1 @ '' '' @ n2 @ '' differ: char '' @ decimal (k + 1) @ '', line '' @
                    decimal line @ [NL] else []), err = [], status = 1\<rparr>)"

lemma decimal_int_nat [simp]: "decimal_int (int n) = decimal n" "decimal_int (1 + int n) = decimal (Suc n)"
  by (simp_all add: decimal_int_def nat_add_distrib)

lemma cmp_chars_seq:
  assumes "f_ok f1" "f_ok f2" "f_offset f1 = int k" "\<not> c_wflag fl"
  shows "cmp_chars fl progname f1 f2 line t errcnt =
    cmp_seq fl progname (f_nam f1) (f_nam f2) k line t errcnt (f_rest f1) (f_rest f2)"
  using assms
proof (induction "length (f_rest f1)" arbitrary: f1 f2 k line t errcnt rule: less_induct)
  case less
  obtain c1 g1 where g1: "getchr f1 = (c1, g1)" "f_ok g1" "f_nam g1 = f_nam f1"
    "f_rest f1 = [] \<longrightarrow> c1 = eof \<and> f_rest g1 = []"
    "\<forall>a as. f_rest f1 = a # as \<longrightarrow> c1 = uchar a \<and> f_rest g1 = as \<and> f_offset g1 = f_offset f1 + 1"
    by (rule getchr_ok [OF less.prems(1)])
  obtain c2 g2 where g2: "getchr f2 = (c2, g2)" "f_ok g2" "f_nam g2 = f_nam f2"
    "f_rest f2 = [] \<longrightarrow> c2 = eof \<and> f_rest g2 = []"
    "\<forall>a as. f_rest f2 = a # as \<longrightarrow> c2 = uchar a \<and> f_rest g2 = as \<and> f_offset g2 = f_offset f2 + 1"
    by (rule getchr_ok [OF less.prems(2)])
  note step = cmp_chars.simps [of fl progname f1 f2 line t errcnt]
  show ?case
  proof (cases "f_rest f1")
    case Nil
    with g1 g2 less.prems(4) show ?thesis
      by (cases "f_rest f2") (auto simp: step cmp_different_def eofon_def eof_run_def)
  next
    case (Cons a as)
    with g1 less.prems(3) have c1: "c1 = uchar a" "f_rest g1 = as" "f_offset g1 = int (k + 1)" by auto
    have ih: "cmp_chars fl progname g1 g2 l t0 e = cmp_seq fl progname (f_nam f1) (f_nam f2) (k + 1) l t0 e as (f_rest g2)" for l t0 e
      using less.hyps [OF _ g1(2) g2(2) c1(3) less.prems(4)] Cons c1 g1(3) g2(3) by simp
    show ?thesis
    proof (cases "f_rest f2")
      case Nil
      with Cons c1 g1 g2 less.prems(4) show ?thesis
        by (auto simp: step cmp_different_def eofon_def eof_run_def)
    next
      case b: (Cons b bs)
      with g2 have c2: "c2 = uchar b" "f_rest g2 = bs" by auto
      show ?thesis
      proof (cases "a = b")
        case True
        with Cons b c1 c2 g1(1) g2(1) ih show ?thesis by (simp add: step uchar_NL)
      next
        case False
        have e: "cmp_different fl progname c1 c2 g1 g2 line t =
          (if c_lflag fl then Inr (g1, g2, t @ l_entry (k + 1) a b)
           else Inl (cmp_seq fl progname (f_nam f1) (f_nam f2) k line t errcnt (a # as) (b # bs)))"
          using False less.prems(4) c1 c2 g1(3) g2(3) by (simp add: cmp_different_def l_entry_def)
        with False Cons b c1 c2 g1(1) g2(1) ih show ?thesis by (simp add: step)
      qed
    qed
  qed
qed

text \<open>The two labels, when \<open>c1\<close> and \<open>c2\<close> are the first bytes of what is left.\<close>

definition got :: "int \<Rightarrow> cfile \<Rightarrow> nat \<Rightarrow> string \<Rightarrow> bool" where
  "got c g k r \<longleftrightarrow> f_ok g \<and> (case r of [] \<Rightarrow> c = eof \<and> f_rest g = [] | a # as \<Rightarrow> c = uchar a \<and> f_rest g = as \<and> f_offset g = int (k + 1))"

lemma cmp_differ_seq:
  assumes "got c1 g1 k r1" "got c2 g2 k r2" "c1 \<noteq> c2" "\<not> c_wflag fl"
  shows "cmp_differ fl progname c1 c2 g1 g2 line = cmp_seq fl progname (f_nam g1) (f_nam g2) k line [] 0 r1 r2"
proof (cases "r1 = [] \<or> r2 = []")
  case True
  with assms show ?thesis
    by (cases r1; cases r2) (auto simp: got_def cmp_differ_def cmp_different_def eofon_def eof_run_def)
next
  case False
  then obtain a as b bs where r: "r1 = a # as" "r2 = b # bs" by (auto simp: neq_Nil_conv)
  with assms have g: "f_ok g1" "f_ok g2" "f_rest g1 = as" "f_rest g2 = bs" "c1 = uchar a" "c2 = uchar b" "f_offset g1 = int (k + 1)"
    by (auto simp: got_def)
  with r assms(3,4) cmp_chars_seq [OF g(1,2,7) assms(4)] show ?thesis
    by (simp add: cmp_differ_def cmp_different_def l_entry_def)
qed

lemma cmp_equal_seq:
  assumes "got c g1 k r1" "got c g2 k r2" "\<not> c_wflag fl"
  shows "cmp_equal fl progname c g1 g2 line = cmp_seq fl progname (f_nam g1) (f_nam g2) k line [] 0 r1 r2"
proof (cases r1)
  case Nil
  with assms show ?thesis by (cases r2) (auto simp: got_def cmp_equal_def)
next
  case (Cons a as)
  with assms(1,2) obtain bs where r: "r2 = a # bs" by (cases r2) (auto simp: got_def)
  with Cons assms have g: "f_ok g1" "f_ok g2" "f_rest g1 = as" "f_rest g2 = bs" "c = uchar a" "f_offset g1 = int (k + 1)"
    by (auto simp: got_def)
  with r Cons cmp_chars_seq [OF g(1,2,6) assms(3)] show ?thesis
    by (simp add: cmp_equal_def uchar_NL)
qed

lemma cmp_seq_prefix:
  "cmp_seq fl progname n1 n2 k line t e (x @ as) (x @ bs) =
     cmp_seq fl progname n1 n2 (k + length x) (line + count_list x NL) t e as bs"
  by (induction x arbitrary: k line) auto

lemma cmp_scan_cases:
  assumes "length p = length q"
  obtains (same) "p = q" "cmp_scan i p q line = (line + count_list p NL, None)"
  | (diff) x a u b v where "p = x @ a # u" "q = x @ b # v" "a \<noteq> b"
      "cmp_scan i p q line = (line + count_list x NL, Some (i + length x))"
proof -
  have "p = q \<and> cmp_scan i p q line = (line + count_list p NL, None) \<or>
    (\<exists>x a u b v. p = x @ a # u \<and> q = x @ b # v \<and> a \<noteq> b \<and> cmp_scan i p q line = (line + count_list x NL, Some (i + length x)))"
    using assms
  proof (induction p q arbitrary: i line rule: list_induct2)
    case (Cons c p d q)
    show ?case
    proof (cases "c = d")
      case True
      let ?l = "if c = NL then line + 1 else line"
      from Cons.IH [of "i + 1" ?l] show ?thesis
      proof (elim disjE exE conjE)
        fix x a u b v
        assume "p = x @ a # u" "q = x @ b # v" "a \<noteq> b" "cmp_scan (i + 1) p q ?l = (?l + count_list x NL, Some (i + 1 + length x))"
        with True show ?thesis
          by (intro disjI2 exI [of _ "c # x"] exI [of _ a] exI [of _ u] exI [of _ b] exI [of _ v]) auto
      qed (use True in auto)
    next
      case False
      then show ?thesis
        by (intro disjI2 exI [of _ "[]"] exI [of _ c] exI [of _ p] exI [of _ d] exI [of _ q]) simp
    qed
  qed simp
  then show thesis using that by (elim disjE exE conjE) (assumption | blast)+
qed

text \<open>A file between two blocks, \<open>k\<close> bytes into the comparison, and what \<open>bread\<close> makes of it.\<close>

definition at_block :: "cfile \<Rightarrow> nat \<Rightarrow> bool" where
  "at_block f k \<longleftrightarrow> fd_calm (f_fd f) \<and> (f_eof f \<longrightarrow> fd_rest (f_fd f) = []) \<and> f_off f = int k"

lemma bread_got:
  assumes "at_block f k"
  obtains c g where "bread f = (c, g)" "got c g k (fd_rest (f_fd f))" "f_nam g = f_nam f"
    "fd_rest (f_fd f) = f_buf g @ fd_rest (f_fd g)" "at_block g (k + length (f_buf g))" "\<not> f_eof g \<longrightarrow> length (f_buf g) = IOSIZE"
proof -
  from assms have calm: "fd_calm (f_fd f)" "f_eof f \<Longrightarrow> fd_rest (f_fd f) = []" by (simp_all add: at_block_def)
  obtain c g where b: "bread f = (c, g)" "f_ok g" "f_buf g = take IOSIZE (fd_rest (f_fd f))"
    "fd_rest (f_fd g) = drop IOSIZE (fd_rest (f_fd f))" "f_nam g = f_nam f" "f_off g = f_off f + int (length (f_buf g))"
    "f_eof g \<longleftrightarrow> f_eof f \<or> length (f_buf g) < IOSIZE"
    "fd_rest (f_fd f) = [] \<longrightarrow> c = eof \<and> f_cur g = 0"
    "\<forall>a as. fd_rest (f_fd f) = a # as \<longrightarrow> c = uchar a \<and> f_cur g = 1"
    by (rule bread_calm [OF calm])
  obtain n where n: "IOSIZE = Suc n" using IOSIZE_pos(1) by (cases IOSIZE) simp_all
  have "got c g k (fd_rest (f_fd f))"
  proof (cases "fd_rest (f_fd f)")
    case Nil
    with b show ?thesis by (simp add: got_def f_rest_def)
  next
    case (Cons a as)
    with b assms show ?thesis by (simp add: got_def f_rest_def f_offset_def at_block_def n)
  qed
  moreover have "at_block g (k + length (f_buf g))"
    using b(2,6) assms by (simp add: at_block_def f_ok_def)
  moreover have "fd_rest (f_fd f) = f_buf g @ fd_rest (f_fd g)" using b(3,4) by simp
  moreover have "\<not> f_eof g \<longrightarrow> length (f_buf g) = IOSIZE" using b(3,7) by auto
  ultimately show ?thesis using that b(1,5) by blast
qed

lemma bread_full:
  assumes "at_block f k" "\<not> f_eof f" "IOSIZE \<le> length (fd_rest (f_fd f))" "bread f = (c, g)"
  shows "length (f_buf g) = IOSIZE" "\<not> f_eof g"
proof -
  from assms obtain fd where "sread IOSIZE [] (f_fd f) = (take IOSIZE (fd_rest (f_fd f)), True, fd)"
    using sread_calm [of "f_fd f" "[]" IOSIZE] by (auto simp: at_block_def)
  with assms show "length (f_buf g) = IOSIZE" "\<not> f_eof g" by (auto simp: bread_def Let_def split: if_splits)
qed

lemma got_at:
  assumes "at_block g (k + length (f_buf g))" "f_buf g = x @ a # u"
  shows "got (uchar (f_buf g ! length x)) (g\<lparr>f_cur := int (length x) + 1\<rparr>) (k + length x) (a # u @ fd_rest (f_fd g))"
proof -
  have "nat (int (length x) + 1) = Suc (length x)" by simp
  with assms show ?thesis by (simp add: got_def f_ok_def at_block_def f_rest_def f_offset_def)
qed

lemma cmp_blocks_seq:
  assumes "at_block f1 k" "at_block f2 k" "\<not> c_wflag fl"
  shows "cmp_blocks fl progname f1 f2 line =
    cmp_seq fl progname (f_nam f1) (f_nam f2) k line [] 0 (fd_rest (f_fd f1)) (fd_rest (f_fd f2))"
  using assms
proof (induction "length (fd_rest (f_fd f1))" arbitrary: f1 f2 k line rule: less_induct)
  case less
  obtain c1 g1 where g1: "bread f1 = (c1, g1)" "got c1 g1 k (fd_rest (f_fd f1))" "f_nam g1 = f_nam f1"
    "fd_rest (f_fd f1) = f_buf g1 @ fd_rest (f_fd g1)" "at_block g1 (k + length (f_buf g1))" "\<not> f_eof g1 \<longrightarrow> length (f_buf g1) = IOSIZE"
    by (rule bread_got [OF less.prems(1)])
  obtain c2 g2 where g2: "bread f2 = (c2, g2)" "got c2 g2 k (fd_rest (f_fd f2))" "f_nam g2 = f_nam f2"
    "fd_rest (f_fd f2) = f_buf g2 @ fd_rest (f_fd g2)" "at_block g2 (k + length (f_buf g2))" "\<not> f_eof g2 \<longrightarrow> length (f_buf g2) = IOSIZE"
    by (rule bread_got [OF less.prems(2)])
  note step = cmp_blocks.simps [of fl progname f1 f2 line]
  consider "c1 \<noteq> c2" | "c1 = c2" "f_eof g1 \<or> f_eof g2" | "c1 = c2" "\<not> f_eof g1" "\<not> f_eof g2" by blast
  then show ?case
  proof cases
    case 1
    from cmp_differ_seq [OF g1(2) g2(2) this less.prems(3)] 1 g1(1,3) g2(1,3) show ?thesis by (simp add: step)
  next
    case 2
    from cmp_equal_seq [OF g1(2) g2(2) [folded 2(1)] less.prems(3)] 2 g1(1,3) g2(1,3) show ?thesis by (auto simp: step)
  next
    case 3
    then have len: "length (f_buf g1) = IOSIZE" "length (f_buf g2) = IOSIZE" using g1(6) g2(6) by blast+
    then have "length (f_buf g1) = length (f_buf g2)" by simp
    then show ?thesis
    proof (cases rule: cmp_scan_cases [where i = 0 and line = line])
      case same
      have "length (fd_rest (f_fd g1)) < length (fd_rest (f_fd f1))" using g1(4) len by simp
      from less.hyps [OF this g1(5) g2(5) [folded same(1)] less.prems(3)] 3 same g1(1,3,4) g2(1,3,4) show ?thesis
        by (simp add: step cmp_seq_prefix)
    next
      case (diff x a u b v)
      note d = cmp_differ_seq [OF got_at [OF g1(5) diff(1)] got_at [OF g2(5) diff(2)] _ less.prems(3), of progname "line + count_list x NL"]
      from 3 diff g1(1) g2(1) have "cmp_blocks fl progname f1 f2 line =
        cmp_differ fl progname (uchar (f_buf g1 ! length x)) (uchar (f_buf g2 ! length x))
          (g1\<lparr>f_cur := int (length x) + 1\<rparr>) (g2\<lparr>f_cur := int (length x) + 1\<rparr>) (line + count_list x NL)"
        by (simp add: step)
      also have "\<dots> = cmp_seq fl progname (f_nam f1) (f_nam f2) (k + length x) (line + count_list x NL) [] 0
          (a # u @ fd_rest (f_fd g1)) (b # v @ fd_rest (f_fd g2))"
        using d diff g1(3) g2(3) by simp
      also have "\<dots> = cmp_seq fl progname (f_nam f1) (f_nam f2) k line [] 0 (fd_rest (f_fd f1)) (fd_rest (f_fd f2))"
        using g1(4) g2(4) diff(1,2) by (simp add: cmp_seq_prefix [symmetric] del: cmp_seq.simps)
      finally show ?thesis .
    qed
  qed
qed

section \<open>Skipping\<close>

lemma strtoll_decimal:
  assumes "n < 2 ^ 63"
  shows "strtoll (if hd (decimal n) = CHR ''0'' then 8 else 10) (decimal n) = int n"
proof (cases "n = 0")
  case True
  have "decimal 0 = ''0''" by (simp add: decimal.simps)
  then show ?thesis using True by (simp add: strtoll_def Let_def is_digit_def digit_val_def uchar_def)
next
  case False
  have d: "is_digit c \<and> digit_val c < 10" if "c \<in> set (decimal n)" for c
    using decimal_digits [OF that] by (auto simp: is_digit_def digit_val_def)
  then have t: "takeWhile (\<lambda>c. is_digit c \<and> digit_val c < 10) (decimal n) = decimal n" by (simp add: takeWhile_eq_all_conv)
  obtain c cs where c: "decimal n = c # cs" by (cases "decimal n") auto
  with d have "is_digit c" by simp
  then have hd: "\<not> (c = CHR '' '' \<or> 9 \<le> uchar c \<and> uchar c \<le> 13)" "c \<noteq> CHR ''-''" "c \<noteq> CHR ''+''"
    by (auto simp: is_digit_def uchar_def)
  then have dw: "dropWhile (\<lambda>c. c = CHR '' '' \<or> 9 \<le> uchar c \<and> uchar c \<le> 13) (decimal n) = decimal n"
    "hd (decimal n) \<noteq> CHR ''-''" "hd (decimal n) \<noteq> CHR ''+''" by (auto simp: c)
  have "foldl (\<lambda>n c. 10 * n + digit_val c) 0 (decimal n) = n"
    using undecimal_decimal [of n] by (simp add: undecimal_def)
  moreover have "int n < 2 ^ 63" using assms by (metis of_nat_less_numeral_power_cancel_iff)
  ultimately show ?thesis using False decimal_hd [of n] dw(2,3)
    by (simp add: strtoll_def Let_def dw(1) t del: takeWhile_eq_all_conv)
qed

text \<open>The loop of \<open>setskip\<close> stops at most a block before the position, if the file is that long, and never if it is too short.\<close>

lemma skip_loop_ok:
  assumes "at_block f k" "\<not> f_eof f" "k \<le> m" "m \<le> k + length (fd_rest (f_fd f))" "IOSIZE < m" "m < 2 ^ 63"
  shows "\<exists>g j. skip_loop (int m) f = Some g \<and> at_block g j \<and> \<not> f_eof g \<and> k \<le> j \<and> j \<le> m \<and>
    fd_rest (f_fd g) = drop (j - k) (fd_rest (f_fd f)) \<and> f_nam g = f_nam f"
  using assms
proof (induction "m - k" arbitrary: f k rule: less_induct)
  case less
  have m: "int m < 2 ^ 63" using less.prems(6) by (metis of_nat_less_numeral_power_cancel_iff)
  have off: "f_off f = int k" using less.prems(1) by (simp add: at_block_def)
  have test: "ull (f_off f) < ull (int m - int IOSIZE) \<longleftrightarrow> k + IOSIZE < m"
    using m off less.prems(3,5) by (simp add: mod_pos_pos_trivial) linarith
  show ?case
  proof (cases "k + IOSIZE < m")
    case False
    with test less.prems show ?thesis
      by (intro exI [of _ f] exI [of _ k]) (simp add: skip_loop.simps [of "int m" f])
  next
    case True
    obtain c g where g: "bread f = (c, g)" "got c g k (fd_rest (f_fd f))" "f_nam g = f_nam f"
      "fd_rest (f_fd f) = f_buf g @ fd_rest (f_fd g)" "at_block g (k + length (f_buf g))" "\<not> f_eof g \<longrightarrow> length (f_buf g) = IOSIZE"
      by (rule bread_got [OF less.prems(1)])
    have "IOSIZE \<le> length (fd_rest (f_fd f))" using True less.prems(4) by simp
    note full = bread_full [OF less.prems(1,2) this g(1)]
    have "m - (k + IOSIZE) < m - k" using True IOSIZE_pos(1) by linarith
    from less.hyps [OF this [folded full(1)] g(5) full(2)] True less.prems(4-6) g(4) full(1) obtain h j where
      "skip_loop (int m) g = Some h" "at_block h j" "\<not> f_eof h" "k + IOSIZE \<le> j" "j \<le> m"
      "fd_rest (f_fd h) = drop (j - (k + IOSIZE)) (fd_rest (f_fd g))" "f_nam h = f_nam g" by auto
    moreover have "skip_loop (int m) f = skip_loop (int m) g" using True test g(1) by (simp add: skip_loop.simps [of "int m" f])
    ultimately show ?thesis using g(3,4) full(1)
      by (intro exI [of _ h] exI [of _ j]) simp
  qed
qed

lemma skip_endless:
  assumes "at_block f k" "k + length (fd_rest (f_fd f)) + IOSIZE < m" "m < 2 ^ 63"
  shows "skip_loop (int m) f = None"
proof (rule ccontr)
  assume "skip_loop (int m) f \<noteq> None"
  then obtain g where "skip_loop (int m) f = Some g" by auto
  moreover have "s = int m \<longrightarrow> (\<forall>k. at_block f k \<longrightarrow> \<not> k + length (fd_rest (f_fd f)) + IOSIZE < m)" if "skip_loop s f = Some g" for s f g
    using that
  proof (rule skip_loop.raw_induct [where P = "\<lambda>s f g. s = int m \<longrightarrow> (\<forall>k. at_block f k \<longrightarrow> \<not> k + length (fd_rest (f_fd f)) + IOSIZE < m)", rotated],
      intro impI allI notI)
    fix loop s f g k
    assume ih: "\<And>s f g. loop s f = Some g \<Longrightarrow> s = int m \<longrightarrow> (\<forall>k. at_block f k \<longrightarrow> \<not> k + length (fd_rest (f_fd f)) + IOSIZE < m)"
      and body: "(if ull (f_off f) < ull (s - int IOSIZE) then loop s (snd (bread f)) else Some f) = Some g"
      and s: "s = int m" and k: "at_block f k" "k + length (fd_rest (f_fd f)) + IOSIZE < m"
    have "int m < 2 ^ 63" using assms(3) by (metis of_nat_less_numeral_power_cancel_iff)
    moreover have "f_off f = int k" using k(1) by (simp add: at_block_def)
    ultimately have "ull (f_off f) < ull (s - int IOSIZE)" using s k(2) by (simp add: mod_pos_pos_trivial)
    with body have l: "loop s (snd (bread f)) = Some g" by simp
    obtain c h where h: "bread f = (c, h)" "got c h k (fd_rest (f_fd f))" "f_nam h = f_nam f"
      "fd_rest (f_fd f) = f_buf h @ fd_rest (f_fd h)" "at_block h (k + length (f_buf h))" "\<not> f_eof h \<longrightarrow> length (f_buf h) = IOSIZE"
      by (rule bread_got [OF k(1)])
    from ih [OF l] s h k(2) show False by (auto simp: add.assoc)
  qed
  ultimately show False using assms(1,2) by blast
qed

lemma setskip_ok:
  assumes "at_block f 0" "\<not> f_eof f" "m \<le> length (fd_rest (f_fd f))" "m < 2 ^ 63"
  shows "\<exists>g. setskip fl progname f (decimal m) = Inr g \<and> at_block g 0 \<and> fd_rest (f_fd g) = drop m (fd_rest (f_fd f)) \<and> f_nam g = f_nam f"
proof -
  have m: "int m < 2 ^ 63" using assms(4) by (metis of_nat_less_numeral_power_cancel_iff)
  have "\<exists>g j. (if ull (int m) > int IOSIZE then skip_loop (int m) f else Some f) = Some g \<and> at_block g j \<and> \<not> f_eof g \<and> j \<le> m \<and>
    fd_rest (f_fd g) = drop j (fd_rest (f_fd f)) \<and> f_nam g = f_nam f"
  proof (cases "IOSIZE < m")
    case True
    with skip_loop_ok [OF assms(1,2) _ _ True assms(4)] assms(3) m show ?thesis by (auto simp: mod_pos_pos_trivial)
  next
    case False
    with m assms(1,2) show ?thesis by (intro exI [of _ f] exI [of _ 0]) (simp add: mod_pos_pos_trivial)
  qed
  then obtain g j where g: "(if ull (int m) > int IOSIZE then skip_loop (int m) f else Some f) = Some g" "at_block g j" "\<not> f_eof g" "j \<le> m"
    "fd_rest (f_fd g) = drop j (fd_rest (f_fd f))" "f_nam g = f_nam f" by blast
  have off: "f_off g = int j" "fd_calm (f_fd g)" using g(2) by (simp_all add: at_block_def)
  have s: "setskip fl progname f (decimal m) =
    (let f = (if j < m then (case sread (m - j) [] (f_fd g) of
                (data, ok, fd) \<Rightarrow> g\<lparr>f_fd := fd, f_eof := ((if ok then int (length data) else -1) < int m - int j \<or> f_eof g)\<rparr>) else g)
     in if f_eof f then Inl (eofon fl progname [] f) else Inr (f\<lparr>f_off := 0\<rparr>))"
    using g(1) off(1) by (simp add: setskip_def strtoll_decimal [OF assms(4)] setskip_to_def nat_diff_distrib Let_def)
  show ?thesis
  proof (cases "j < m")
    case False
    with g off show ?thesis by (simp add: s Let_def at_block_def)
  next
    case True
    then obtain fd where "sread (m - j) [] (f_fd g) = (take (m - j) (fd_rest (f_fd g)), True, fd)"
      "fd_rest fd = drop (m - j) (fd_rest (f_fd g))" "fd_calm fd" using sread_calm [OF off(2), of "[]" "m - j"] by auto
    with g off True assms(3) show ?thesis by (simp add: s Let_def at_block_def)
  qed
qed

section \<open>Results\<close>

definition common :: "string \<Rightarrow> string \<Rightarrow> nat" where
  "common a b = length (takeWhile (\<lambda>(x, y). x = y) (zip a b))"

text \<open>What \<open>cmp\<close> says of two byte sequences.\<close>

definition cmp_result :: "cmpfl \<Rightarrow> string \<Rightarrow> string \<Rightarrow> string \<Rightarrow> string \<Rightarrow> string \<Rightarrow> cmprun" where
  "cmp_result fl progname n1 n2 a b =
     (if c_lflag fl then
        (let t = concat (map (\<lambda>(i, x, y). if x \<noteq> y then l_entry (i + 1) x y else []) (List.enumerate 0 (zip a b)))
         in if length a = length b then Exit \<lparr>out = t, err = [], status = (if a = b then 0 else 1)\<rparr>
            else eof_run fl progname t (if length a < length b then n1 else n2))
      else if a = b then Exit \<lparr>out = [], err = [], status = 0\<rparr>
      else if common a b = length a then eof_run fl progname [] n1
      else if common a b = length b then eof_run fl progname [] n2
      else Exit \<lparr>out = (if c_sflag fl then []
                        else n1 @ '' '' @ n2 @ '' differ: char '' @ decimal (common a b + 1) @ '', line '' @
                             decimal (1 + count_list (take (common a b) a) NL) @ [NL]), err = [], status = 1\<rparr>)"

lemma cmp_seq_list:
  assumes "c_lflag fl"
  shows "cmp_seq fl progname n1 n2 k line t e a b =
    (let t' = t @ concat (map (\<lambda>(i, x, y). if x \<noteq> y then l_entry (i + 1) x y else []) (List.enumerate k (zip a b)))
     in if length a = length b then Exit \<lparr>out = t', err = [], status = (if a = b then int e else 1)\<rparr>
        else eof_run fl progname t' (if length a < length b then n1 else n2))"
  using assms
  by (induction fl progname n1 n2 k line t e a b rule: cmp_seq.induct) (auto simp: Let_def)

lemma cmp_seq_first:
  assumes "\<not> c_lflag fl"
  shows "cmp_seq fl progname n1 n2 k line t e a b =
    (if a = b then Exit \<lparr>out = t, err = [], status = int e\<rparr>
     else if common a b = length a then eof_run fl progname t n1
     else if common a b = length b then eof_run fl progname t n2
     else Exit \<lparr>out = t @ (if c_sflag fl then []
                       else n1 @ '' '' @ n2 @ '' differ: char '' @ decimal (k + common a b + 1) @ '', line '' @
                            decimal (line + count_list (take (common a b) a) NL) @ [NL]), err = [], status = 1\<rparr>)"
  using assms
  by (induction fl progname n1 n2 k line t e a b rule: cmp_seq.induct) (auto simp: common_def)

lemma cmp_seq_result: "cmp_seq fl progname n1 n2 0 1 [] 0 a b = cmp_result fl progname n1 n2 a b"
  by (cases "c_lflag fl") (simp_all add: cmp_result_def cmp_seq_list cmp_seq_first)

text \<open>The file an operand names, and the name used for it in messages.\<close>

definition cmp_opnd :: "filesys \<Rightarrow> fdesc \<Rightarrow> string \<Rightarrow> (fdesc \<times> string) option" where
  "cmp_opnd fs stdin a = (if a = ''-'' then Some (stdin, ''standard input'') else case fs a of None \<Rightarrow> None | Some fd \<Rightarrow> Some (fd, a))"

definition cmp_flags :: "string \<Rightarrow> cmpfl" where
  "cmp_flags ls = \<lparr>c_lflag = CHR ''l'' \<in> set ls, c_sflag = CHR ''s'' \<in> set ls, c_wflag = CHR ''w'' \<in> set ls\<rparr>"

lemma cmp_opts_letters:
  "set ls \<subseteq> set ''lsw'' \<Longrightarrow> cmp_opts (map (\<lambda>c. (uchar c, a, m)) ls) fl =
     Inr (fl\<lparr>c_lflag := c_lflag fl \<or> CHR ''l'' \<in> set ls, c_sflag := c_sflag fl \<or> CHR ''s'' \<in> set ls,
            c_wflag := c_wflag fl \<or> CHR ''w'' \<in> set ls\<rparr>)"
proof (induction ls arbitrary: fl)
  case (Cons c ls)
  have "uchar (CHR ''l'') = 108" "uchar (CHR ''s'') = 115" "uchar (CHR ''w'') = 119" by (simp_all add: uchar_def)
  moreover have "c = CHR ''l'' \<or> c = CHR ''s'' \<or> c = CHR ''w''" using Cons.prems by auto
  ultimately show ?case using Cons by auto
qed simp

lemma openfile_ok:
  assumes "cmp_opnd fs stdin a = Some (fd, n)" "fd_calm fd"
  obtains f where "openfile fl progname False fs stdin a = Inr f" "at_block f 0" "\<not> f_eof f" "f_fd f = fd" "f_nam f = n"
  using assms by (intro that [of "\<lparr>f_buf = [], f_off = 0, f_cur = 0, f_nam = n, f_fd = fd, f_eof = False\<rparr>"]) (auto simp: openfile_def cmp_opnd_def at_block_def split: if_splits option.splits)

lemma cmp_ok:
  assumes "at_block f1 0" "at_block f2 0" "\<not> c_wflag fl"
  shows "cmp_files fl progname f1 f2 = cmp_result fl progname (f_nam f1) (f_nam f2) (fd_rest (f_fd f1)) (fd_rest (f_fd f2))"
  unfolding cmp_files_def cmp_blocks_seq [OF assms] by (rule cmp_seq_result)

text \<open>
  (C37) \<open>cmp\<close> from the command line to the output.  With any of \<open>-l\<close> and \<open>-s\<close> (without \<open>-w\<close>), two files no read of which fails, not both of
  them the standard input, and skip values within their lengths, and provided that the field \<open>f_eof\<close>, which the code does not initialise, is
  zero in the memory allocated for both files, the program ends and its output and exit status are those of a comparison of the two byte sequences behind the
  skipped bytes: status 0 and no output if they are equal; otherwise 1, and the position and the line of the first
  difference, or with \<open>-l\<close> all positions with the differing bytes in octal, and a message if one file is a proper beginning of the other.  The
  option \<open>-s\<close> suppresses the message and the report of the first difference; it does not suppress the list of \<open>-l\<close>.  The
  result depends neither on the block size nor on how the kernel splits the data into reads.
\<close>

theorem cmp_output:
  assumes "set ls \<subseteq> set ''ls''" "operands_ok [a1, a2]" "\<not> (a1 = ''-'' \<and> a2 = ''-'')"
    and "cmp_opnd fs stdin a1 = Some (fd1, n1)" "fd_calm fd1" and "cmp_opnd fs stdin a2 = Some (fd2, n2)" "fd_calm fd2"
    and "length skips \<le> 2" "\<forall>k \<in> set skips. k < 2 ^ 63"
    and "skip1 = (case skips of [] \<Rightarrow> 0 | k # _ \<Rightarrow> k)" "skip2 = (case skips of _ # k # _ \<Rightarrow> k | _ \<Rightarrow> 0)"
    and "skip1 \<le> length (fd_rest fd1)" "skip2 \<le> length (fd_rest fd2)"
  shows "cmp_main progname (False, False) fs stdin (prog # render (map (\<lambda>c. Opt c None) ls) @ [a1, a2] @ map decimal skips) =
    cmp_result (cmp_flags ls) progname n1 n2 (drop skip1 (fd_rest fd1)) (drop skip2 (fd_rest fd2))"
proof -
  let ?opts = "map (\<lambda>c. Opt c None) ls" let ?as = "[a1, a2] @ map decimal skips" let ?fl = "cmp_flags ls"
  have r: "list_all (renderable (opt_letters ''lsw'')) ?opts"
    using assms(1) by (induction ls) (auto simp: opt_letters_def has_colon_def)
  have ok: "operands_ok ?as" using assms(2) by (simp add: operands_ok_def)
  obtain evs ost where g: "getopt_all True None (prog # render ?opts @ ?as) ''lsw'' optst_init = (evs, ost)" by fastforce
  with getopt_all_render [OF r ok, where e = True and l = None and prog = prog]
  have evs: "evs = map (\<lambda>c. (uchar c, None, [])) ls" and ops: "drop (optind ost) (prog # render ?opts @ ?as) = ?as"
    by (simp_all add: comp_def)
  have "set ls \<subseteq> set ''lsw''" using assms(1) by auto
  from cmp_opts_letters [OF this] have fl: "cmp_opts evs \<lparr>c_lflag = False, c_sflag = False, c_wflag = False\<rparr> = Inr ?fl"
    by (simp add: evs cmp_flags_def)
  have w: "\<not> c_wflag ?fl" using assms(1) by (auto simp: cmp_flags_def)
  obtain f1 where f1: "openfile ?fl progname False fs stdin a1 = Inr f1" "at_block f1 0" "\<not> f_eof f1" "f_fd f1 = fd1" "f_nam f1 = n1"
    by (rule openfile_ok [OF assms(4,5)])
  obtain f2 where f2: "openfile ?fl progname False fs stdin a2 = Inr f2" "at_block f2 0" "\<not> f_eof f2" "f_fd f2 = fd2" "f_nam f2 = n2"
    by (rule openfile_ok [OF assms(6,7)])
  have m: "cmp_main progname (False, False) fs stdin (prog # render ?opts @ ?as) =
    (case (case map decimal skips of [] \<Rightarrow> Inr f1 | s1 # _ \<Rightarrow> setskip ?fl progname f1 s1) of
       Inl r \<Rightarrow> r
     | Inr f1 \<Rightarrow> (case (case map decimal skips of _ # s2 # _ \<Rightarrow> setskip ?fl progname f2 s2 | _ \<Rightarrow> Inr f2) of
                    Inl r \<Rightarrow> r | Inr f2 \<Rightarrow> cmp_files ?fl progname f1 f2))"
    using assms(8) f1(1) f2(1) unfolding cmp_main_def g prod.case fl ops by simp
  obtain g1 where g1: "(case map decimal skips of [] \<Rightarrow> Inr f1 | s1 # _ \<Rightarrow> setskip ?fl progname f1 s1) = Inr g1"
    "at_block g1 0" "fd_rest (f_fd g1) = drop skip1 (fd_rest fd1)" "f_nam g1 = n1"
    using setskip_ok [OF f1(2,3), of skip1 ?fl progname] f1 assms(9,10,12) by (cases skips) auto
  obtain g2 where g2: "(case map decimal skips of _ # s2 # _ \<Rightarrow> setskip ?fl progname f2 s2 | _ \<Rightarrow> Inr f2) = Inr g2"
    "at_block g2 0" "fd_rest (f_fd g2) = drop skip2 (fd_rest fd2)" "f_nam g2 = n2"
    using setskip_ok [OF f2(2,3), of skip2 ?fl progname] f2 assms(9,11,13) by (auto split: list.splits)
  show ?thesis unfolding m g1(1) sum.case g2(1) using cmp_ok [OF g1(2) g2(2) w, of progname] g1(3,4) g2(3,4) by simp
qed

definition cmp_fs :: filesys where
  "cmp_fs fn = (if fn = ''f'' then Some ((mk_fd (''ab'' @ [NL] ))\<lparr>fd_evs := [RShort 2, RShort 2]\<rparr>) else None)"

theorem cmp_output_witness:
  "cmp_main ''cmp'' (False, False) cmp_fs (mk_fd (''xac'' @ [NL])) [''cmp'', ''f'', ''-'', ''0'', ''1''] =
   Exit \<lparr>out = ''f standard input differ: char 2, line 1'' @ [NL], err = [], status = 1\<rparr>"
proof -
  let ?fd = "(mk_fd (''ab'' @ [NL]))\<lparr>fd_evs := [RShort 2, RShort 2]\<rparr>" let ?in = "mk_fd (''xac'' @ [NL])"
  have f: "fd_rest ?fd = ''ab'' @ [NL]" "fd_calm ?fd" by (simp_all add: mk_fd_def fd_rest_def fd_calm_def)
  have d: "decimal 0 = ''0''" "decimal 1 = ''1''" "decimal 2 = ''2''" by (simp_all add: decimal.simps)
  have "cmp_main ''cmp'' (False, False) cmp_fs ?in (''cmp'' # render (map (\<lambda>c. Opt c None) []) @ [''f'', ''-''] @ map decimal [0, 1]) =
    cmp_result (cmp_flags []) ''cmp'' ''f'' ''standard input'' (drop 0 (fd_rest ?fd)) (drop 1 (fd_rest ?in))"
    by (rule cmp_output) (simp_all add: cmp_opnd_def cmp_fs_def operands_ok_def fd_rest_def fd_calm_def mk_fd_def)
  also have "\<dots> = Exit \<lparr>out = ''f standard input differ: char 2, line 1'' @ [NL], err = [], status = 1\<rparr>"
    using d by (simp add: f cmp_result_def cmp_flags_def common_def flip: numeral_2_eq_2)
  finally show ?thesis using d by simp
qed

text \<open>
  A skip value more than a block behind the end of the file makes \<open>cmp\<close> read forever, as the loop of \<open>setskip\<close> does not notice the end of the
  file.
\<close>

lemma setskip_endless:
  assumes "at_block f 0" "length (fd_rest (f_fd f)) + IOSIZE < m" "m < 2 ^ 63"
  shows "setskip fl progname f (decimal m) = Inl Endless"
proof -
  have "int m < 2 ^ 63" using assms(3) by (metis of_nat_less_numeral_power_cancel_iff)
  then have "ull (int m) > int IOSIZE" using assms(2) by (simp add: mod_pos_pos_trivial)
  with skip_endless [OF assms(1)] assms(2,3) show ?thesis
    by (simp add: setskip_def strtoll_decimal [OF assms(3)] setskip_to_def)
qed

text \<open>
  With \<open>-w\<close> the byte that follows a differing word of eight bytes is never compared, since \<open>wprnt\<close> advances by nine: if the byte of the word at
  offset \<open>8 * q\<close> of the buffer with the index \<open>i\<close> differs, the next byte compared is the one at \<open>8 * q + 9\<close>.
\<close>

lemma wprnt_skips:
  assumes "wprnt fl progname t f1 f2 = Inr (t', e, g1, g2)" "f_off f1 = int (length (f_buf f1))"
    and "f_cur f1 = 8 * q + i + 1" "0 \<le> q" "0 \<le> i" "i < 8"
  shows "f_cur g1 = 8 * q + 9"
proof -
  have o: "f_offset f1 = 8 * q + i + 1" using assms(2,3) by (simp add: f_offset_def)
  have "f_cur g1 = f_cur f1 - ((f_offset f1 - 1) mod 8 + 1) + 9"
    using assms(1,4,5) by (simp add: wprnt_def Let_def o split: option.splits if_splits) auto
  with assms(3,5,6) show ?thesis by (simp add: o)
qed

text \<open>The manual page says that \<open>-s\<close> prints nothing for differing files; together with \<open>-l\<close> the differing bytes are printed.\<close>

lemma cmp_list_silent:
  "cmp_main ''cmp'' (False, False) (\<lambda>f. Some (mk_fd (if f = ''f'' then ''a'' else ''b''))) (mk_fd []) [''cmp'', ''-s'', ''-l'', ''f'', ''g''] =
   Exit \<lparr>out = ''     1 141 142'' @ [NL], err = [], status = 1\<rparr>"
  by code_simp

text \<open>Memory that happens to hold a nonzero \<open>f_eof\<close> makes a file with a skip value look empty.\<close>

lemma cmp_junk:
  "cmp_main ''cmp'' (True, False) (\<lambda>f. Some (mk_fd ''abc'')) (mk_fd []) [''cmp'', ''f'', ''g'', ''0''] =
   Exit \<lparr>out = [], err = ''cmp: EOF on f'' @ [NL], status = 1\<rparr>"
  by code_simp

end
