(* ===== verification/Tr.thy ===== *)
theory Tr
  imports Iblok Getopt Stdio
begin

text \<open>
  \<open>tr/tr.c\<close> in a single-byte locale (\<open>mb_cur_max == 1\<close>): the two strings are read character by character with a small state
  machine (\<open>next\<close>), from which \<open>cmple\<close> builds the table \<open>code\<close>, what each byte becomes, and \<open>squeez\<close>, the bytes of which runs are
  squeezed.  \<open>NIL\<close> is 0, so that null characters are dropped, except in the \<open>SUS\<close> variant, where it is \<open>EOF\<close>.
  The functions of the C library that depend on the locale are the fields of a record.
\<close>

section \<open>The strings\<close>

definition tr_nil :: "variant \<Rightarrow> int" where
  "tr_nil var = (if var = SUS then eof else 0)"

abbreviation ccnt :: int where
  "ccnt \<equiv> 256"

datatype strtp = TpN | TpU | TpL

text \<open>
  \<open>struct string\<close>.  \<open>s_p\<close> is what is left of the argument, \<open>None\<close> for a null pointer; \<open>s_type\<close> is the class that \<open>wctype\<close> returned.
\<close>

record trstr =
  s_last :: int
  s_max :: int
  s_rep :: int
  s_type :: "(int \<Rightarrow> bool) option"
  s_tp :: strtp
  s_p :: "string option"

text \<open>What the strings can do to the program: \<open>bad()\<close>, or undefined behaviour: an access through a null pointer or outside a table, or an overflow.\<close>

datatype trerr = Bad | Crash

type_synonym 'a trres = "trerr + 'a"

record trloc =
  tl_wctype :: "string \<Rightarrow> (int \<Rightarrow> bool) option"
  tl_btowc :: "int \<Rightarrow> int"
  tl_wctob :: "int \<Rightarrow> int"
  tl_towlower :: "int \<Rightarrow> int"
  tl_towupper :: "int \<Rightarrow> int"
  tl_iswlower :: "int \<Rightarrow> bool"
  tl_iswupper :: "int \<Rightarrow> bool"

text \<open>\<open>nextb\<close>.  Reading the terminating NUL makes the pointer null.\<close>

fun octal_run :: "nat \<Rightarrow> nat \<Rightarrow> string \<Rightarrow> nat \<times> nat \<times> string" where
  "octal_run (Suc k) n (c # s) =
     (if 48 \<le> schar c \<and> schar c \<le> 55
      then (case octal_run k (n * 8 + nat (schar c - 48)) s of (i, n', s') \<Rightarrow> (i + 1, n', s'))
      else (0, n, c # s))"
| "octal_run _ n s = (0, n, s)"

definition tr_escape :: "char \<Rightarrow> int" where
  "tr_escape c =
     (if c = CHR ''a'' then 7 else if c = CHR ''b'' then 8 else if c = CHR ''f'' then 12 else if c = CHR ''n'' then 10
      else if c = CHR ''r'' then 13 else if c = CHR ''t'' then 9 else if c = CHR ''v'' then 11 else uchar c)"

definition nextb :: "variant \<Rightarrow> string option \<Rightarrow> int \<times> string option" where
  "nextb var p =
     (case p of
        None \<Rightarrow> (tr_nil var, None)
      | Some [] \<Rightarrow> (tr_nil var, None)
      | Some (c # s) \<Rightarrow>
          if c = CHR 0x5C then
            (case octal_run 3 0 s of
               (i, n, s') \<Rightarrow>
                 if i > 0 then (int n mod 256, Some s')
                 else (case s of [] \<Rightarrow> (0, None) | c # s \<Rightarrow> (tr_escape c, Some s)))
          else (uchar c, Some s))"

text \<open>\<open>nextc\<close> is \<open>nextb\<close> where there are no multibyte characters.\<close>

definition tr_nextc :: "variant \<Rightarrow> trstr \<Rightarrow> int \<times> trstr" where
  "tr_nextc var s = (case nextb var (s_p s) of (c, p) \<Rightarrow> (c, s\<lparr>s_p := p\<rparr>))"

definition psize :: "string option \<Rightarrow> nat" where
  "psize p = (case p of None \<Rightarrow> 0 | Some s \<Rightarrow> Suc (length s))"

text \<open>\<open>*s->p\<close>\<close>

definition peek :: "string \<Rightarrow> char" where
  "peek s = (case s of [] \<Rightarrow> NUL | c # _ \<Rightarrow> c)"

text \<open>The loop over a class: the next member above \<open>last\<close>, if there is one up to \<open>max\<close>.\<close>

function class_scan :: "trloc \<Rightarrow> (int \<Rightarrow> bool) \<Rightarrow> int \<Rightarrow> int \<Rightarrow> int" where
  "class_scan lc ty mx l =
     (if ty (tl_btowc lc l) then l
      else if l < mx then class_scan lc ty mx (l + 1) else l + 1)"
  by pat_completeness auto
termination
  by (relation "measure (\<lambda>(lc, ty, mx, l). nat (mx - l))") auto

declare class_scan.simps [simp del]

text \<open>The first part of \<open>next\<close>: a repetition, or the rest of a range or class.  \<open>None\<close> means that the string is to be read on.\<close>

definition next_pending :: "variant \<Rightarrow> trloc \<Rightarrow> trstr \<Rightarrow> int option \<times> trstr" where
  "next_pending var lc s =
     (let s = s\<lparr>s_rep := s_rep s - 1\<rparr>; reset = (\<lambda>s. s\<lparr>s_max := tr_nil var, s_last := tr_nil var, s_tp := TpN, s_type := None\<rparr>)
      in if s_rep s > 0 then (Some (s_last s), s)
         else if s_max s \<noteq> tr_nil var then
           if s_last s < s_max s then
             (case s_type s of
                None \<Rightarrow> (Some (s_last s + 1), s\<lparr>s_last := s_last s + 1\<rparr>)
              | Some ty \<Rightarrow>
                  (let l = class_scan lc ty (s_max s) (s_last s + 1)
                   in if l > s_max s then (None, reset s) else (Some l, s\<lparr>s_last := l\<rparr>)))
           else (None, reset s)
         else (None, s))"

text \<open>
  The number of \<open>[a*n]\<close>, octal if it begins with 0.  It is read into an \<open>int\<close>: an overflow of \<open>base*n + c\<close> is undefined.
\<close>

fun rep_number :: "int \<Rightarrow> int \<Rightarrow> string \<Rightarrow> int \<times> string" where
  "rep_number base n [] = (n, [])"
| "rep_number base n (c # s) =
     (if 48 \<le> schar c \<and> schar c < 48 + base then rep_number base (base * n + schar c - 48) s else (n, c # s))"

lemma nextb_size: "nextb var (Some s) = (c, p) \<Longrightarrow> psize p < psize (Some s)"
proof -
  have "length (snd (snd (octal_run k n s))) \<le> length s" for k n s
    by (induction k n s rule: octal_run.induct) (auto split: prod.splits)
  from this [of 3 0 "tl s"] show "nextb var (Some s) = (c, p) \<Longrightarrow> psize p < psize (Some s)"
    by (auto simp: nextb_def psize_def split: list.splits if_splits prod.splits)
qed

lemma nextc_size: "tr_nextc var s = (c, s') \<Longrightarrow> psize (s_p s') \<le> psize (s_p s) \<and> (s_p s \<noteq> None \<longrightarrow> psize (s_p s') < psize (s_p s))"
  using nextb_size [of var "the (s_p s)"] by (cases "s_p s") (auto simp: tr_nextc_def nextb_def psize_def split: prod.splits)

text \<open>
  The part of \<open>next\<close> for an opening bracket at \<open>savep\<close>: an element and the state, or with \<open>None\<close> the state with which \<open>next\<close> is called again.
\<close>

definition next_class :: "variant \<Rightarrow> trloc \<Rightarrow> string \<Rightarrow> trstr \<Rightarrow> (int option \<times> trstr) trres" where
  "next_class var lc q s =
     (let name = takeWhile (\<lambda>c. c \<noteq> CHR '':'') q; sp = drop (length name) q
      in if length sp < 2 \<or> sp ! 1 \<noteq> CHR '']'' then Inl Bad
         else case tl_wctype lc name of
                None \<Rightarrow> Inl Bad
              | Some ty \<Rightarrow>
                  Inr (None, s\<lparr>s_type := Some ty,
                     s_tp := (if name = ''upper'' then TpU else if name = ''lower'' then TpL else s_tp s),
                     s_max := ccnt - 1, s_last := tr_nil var, s_p := Some (drop 2 sp)\<rparr>))"

definition next_repeat :: "int \<Rightarrow> trstr \<Rightarrow> (int option \<times> trstr) trres" where
  "next_repeat a s =
     (case s_p s of
        None \<Rightarrow> Inl Crash
      | Some q \<Rightarrow>
          (case rep_number (if peek q = CHR ''0'' then 8 else 10) 0 q of
             (n, q') \<Rightarrow> if n + 48 > 2 ^ 31 - 1 then Inl Crash
                        else if peek q' \<noteq> CHR '']'' then Inl Bad
                        else Inr (Some a, s\<lparr>s_rep := (if n = 0 then 2 ^ 31 - 1 else n), s_p := Some (tl q')\<rparr>)))"

definition next_range :: "variant \<Rightarrow> int \<Rightarrow> trstr \<Rightarrow> (int option \<times> trstr) trres" where
  "next_range var a s =
     (case tr_nextc var s of
        (b, s') \<Rightarrow>
          if b < a then Inl Bad
          else case s_p s' of
                 None \<Rightarrow> Inl Crash
               | Some q \<Rightarrow> if peek q \<noteq> CHR '']'' then Inl Bad
                           else Inr (Some a, s'\<lparr>s_max := b, s_p := Some (tl q)\<rparr>))"

definition next_bracket :: "variant \<Rightarrow> trloc \<Rightarrow> string \<Rightarrow> trstr \<Rightarrow> (int option \<times> trstr) trres" where
  "next_bracket var lc savep s =
     (case tr_nextc var (snd (tr_nextc var s)) of
        (a, s) \<Rightarrow>
          (let s = s\<lparr>s_last := a\<rparr>; p = s_p s
           in if peek (tl savep) = CHR '':'' then (case p of None \<Rightarrow> Inl Crash | Some q \<Rightarrow> next_class var lc q s)
              else if a = uchar (CHR ''='') then
                (case tr_nextc var s of
                   (c, s) \<Rightarrow>
                     (let s = s\<lparr>s_last := c\<rparr>
                      in case s_p s of
                           None \<Rightarrow> Inl Crash
                         | Some q \<Rightarrow> if take 2 q \<noteq> ''=]'' then Inl Bad else Inr (Some c, s\<lparr>s_p := Some (drop 2 q)\<rparr>)))
              else
                (let s = s\<lparr>s_max := tr_nil var\<rparr>; c = (case p of None \<Rightarrow> NUL | Some q \<Rightarrow> peek q)
                 in if c = CHR ''*'' then next_repeat a (snd (tr_nextc var s))
                    else if var = SV then
                      if c = CHR ''-'' then next_range var a (snd (tr_nextc var s)) else Inl Bad
                    else (case tr_nextc var (s\<lparr>s_p := Some savep\<rparr>) of (c, s) \<Rightarrow> Inr (Some c, s\<lparr>s_last := c\<rparr>)))))"

definition next_parse :: "variant \<Rightarrow> trloc \<Rightarrow> trstr \<Rightarrow> (int option \<times> trstr) trres" where
  "next_parse var lc s =
     (let c = (case s_p s of None \<Rightarrow> NUL | Some q \<Rightarrow> peek q)
      in if var \<noteq> SV \<and> s_last s \<noteq> tr_nil var \<and> c = CHR ''-'' then
           (case tr_nextc var (snd (tr_nextc var s)) of
              (m, s) \<Rightarrow>
                (let s = s\<lparr>s_max := m\<rparr>
                 in if m = tr_nil var then Inr (Some 45, s)
                    else if m < s_last s then Inr (Some 45, s\<lparr>s_last := m - 1\<rparr>)
                    else Inr (None, s)))
         else if c = CHR ''['' then next_bracket var lc (the (s_p s)) s
         else (case tr_nextc var s of (c, s) \<Rightarrow> Inr (Some c, s\<lparr>s_last := c\<rparr>)))"

lemma next_pending_p: "next_pending var lc s = (r, s') \<Longrightarrow> s_p s' = s_p s"
  by (auto simp: next_pending_def Let_def split: if_splits option.splits)

text \<open>Reading on uses up a part of the string, unless this has ended.\<close>

lemma rep_number_le: "rep_number base n s = (n', s') \<Longrightarrow> length s' \<le> length s"
  by (induction base n s rule: rep_number.induct) (auto split: if_splits)

lemma nextc_p: "s_p (snd (tr_nextc var s)) = snd (nextb var (s_p s))" "fst (tr_nextc var s) = fst (nextb var (s_p s))"
  by (simp_all add: tr_nextc_def split: prod.splits)

lemma nextc_twice_size:
  assumes "s_p s = Some q"
  shows "psize (s_p (snd (tr_nextc var s))) < psize (s_p s)" "psize (s_p (snd (tr_nextc var (snd (tr_nextc var s))))) < psize (s_p s)"
  using nextc_size [of var s] nextc_size [of var "snd (tr_nextc var s)"] assms
  by (metis option.distinct(1) prod.collapse order_le_less_trans)+

lemma next_class_size: "next_class var lc q s = Inr (r, s') \<Longrightarrow> psize (s_p s') \<le> Suc (length q)"
  by (auto simp: next_class_def Let_def psize_def split: if_splits option.splits)

lemma next_repeat_size: "next_repeat a s = Inr (r, s') \<Longrightarrow> psize (s_p s') \<le> psize (s_p s)"
  by (auto simp: next_repeat_def psize_def split: if_splits option.splits prod.splits dest!: rep_number_le)

lemma next_range_size: "next_range var a s = Inr (r, s') \<Longrightarrow> psize (s_p s') \<le> psize (s_p s)"
proof -
  assume r: "next_range var a s = Inr (r, s')"
  obtain b t where t: "tr_nextc var s = (b, t)" by fastforce
  with r obtain q where "s_p t = Some q" "s_p s' = Some (tl q)"
    by (auto simp: next_range_def split: if_splits option.splits)
  with nextc_size [OF t] show ?thesis by (auto simp: psize_def)
qed

lemma next_bracket_size:
  assumes "next_bracket var lc savep s = Inr (r, s')" "s_p s = Some savep" "savep \<noteq> []"
  shows "psize (s_p s') < psize (s_p s)"
proof -
  obtain a t where t: "tr_nextc var (snd (tr_nextc var s)) = (a, t)" by fastforce
  have lt: "psize (s_p t) < psize (s_p s)" using nextc_twice_size(2) [OF assms(2), of var] t by simp
  let ?t = "t\<lparr>s_last := a, s_max := tr_nil var\<rparr>"
  have le: "psize (s_p (snd (tr_nextc var u))) \<le> psize (s_p u)" for u using nextc_size [of var u] by (cases "tr_nextc var u") simp
  from assms(1) t consider
      (cls) q where "s_p t = Some q" "next_class var lc q (t\<lparr>s_last := a\<rparr>) = Inr (r, s')"
    | (equiv) c u q where "tr_nextc var (t\<lparr>s_last := a\<rparr>) = (c, u)" "s_p u = Some q" "s_p s' = Some (drop 2 q)"
    | (repn) "next_repeat a (snd (tr_nextc var ?t)) = Inr (r, s')"
    | (rang) "next_range var a (snd (tr_nextc var ?t)) = Inr (r, s')"
    | (lit) c u where "tr_nextc var (?t\<lparr>s_p := Some savep\<rparr>) = (c, u)" "s' = u\<lparr>s_last := c\<rparr>"
    by (auto simp: next_bracket_def Let_def split: if_splits option.splits prod.splits)
  then show ?thesis
  proof cases
    case cls
    with next_class_size [OF cls(2)] lt show ?thesis by (simp add: psize_def)
  next
    case equiv
    then have "psize (s_p s') \<le> psize (s_p u)" by (simp add: psize_def)
    with nextc_size [OF equiv(1)] lt show ?thesis by simp
  next
    case repn
    from next_repeat_size [OF repn] le [of ?t] lt show ?thesis by simp
  next
    case rang
    from next_range_size [OF rang] le [of ?t] lt show ?thesis by simp
  next
    case lit
    with nextc_size [OF lit(1)] assms(2) show ?thesis by simp
  qed
qed

lemma next_parse_size:
  assumes "next_parse var lc s = Inr (r, s')"
  shows "psize (s_p s') < psize (s_p s) \<or> s_p s = None \<and> r = Some (tr_nil var)"
proof (cases "s_p s")
  case None
  with assms show ?thesis by (auto simp: next_parse_def tr_nextc_def nextb_def)
next
  case (Some q)
  note two = nextc_twice_size [OF Some, of var]
  show ?thesis
  proof (cases "peek q = CHR ''['' \<and> \<not> (var \<noteq> SV \<and> s_last s \<noteq> tr_nil var \<and> peek q = CHR ''-'')")
    case True
    then have "q \<noteq> []" by (auto simp: peek_def)
    with next_bracket_size [OF _ Some] True assms Some show ?thesis by (auto simp: next_parse_def)
  next
    case False
    with two assms Some show ?thesis
      by (auto simp: next_parse_def Let_def split: if_splits prod.splits)
  qed
qed

text \<open>\<open>next\<close>\<close>

function tr_next :: "variant \<Rightarrow> trloc \<Rightarrow> trstr \<Rightarrow> (int \<times> trstr) trres" where
  "tr_next var lc s =
     (case next_pending var lc s of
        (Some c, s1) \<Rightarrow> Inr (c, s1)
      | (None, s1) \<Rightarrow>
          (case next_parse var lc s1 of
             Inl e \<Rightarrow> Inl e
           | Inr (Some c, s2) \<Rightarrow> Inr (c, s2)
           | Inr (None, s2) \<Rightarrow> tr_next var lc s2))"
  by pat_completeness auto
termination
  by (relation "measure (\<lambda>(var, lc, s). psize (s_p s))")
     (auto dest!: next_pending_p [OF sym] next_parse_size)

declare tr_next.simps [simp del]

text \<open>Each call that delivers a character makes progress.\<close>

definition tr_measure :: "variant \<Rightarrow> trstr \<Rightarrow> nat \<times> nat \<times> nat" where
  "tr_measure var s = (psize (s_p s), nat (s_rep s), if s_max s = tr_nil var then 0 else nat (s_max s - s_last s))"

lemma class_scan_ge: "l \<le> class_scan lc ty mx l"
proof (induction lc ty mx l rule: class_scan.induct)
  case (1 lc ty mx l)
  then show ?case by (subst class_scan.simps) auto
qed

lemma next_pending_less:
  assumes "next_pending var lc s = (Some c, s')"
  shows "(tr_measure var s', tr_measure var s) \<in> less_than <*lex*> less_than <*lex*> less_than"
proof -
  have ge: "s_last s < class_scan lc ty mx (s_last s + 1)" for ty mx using class_scan_ge [of "s_last s + 1" lc ty mx] by simp
  with assms show ?thesis
    by (auto simp: next_pending_def Let_def tr_measure_def split: if_splits option.splits)
qed

lemma tr_next_less:
  assumes "tr_next var lc s = Inr (c, s')" "c \<noteq> tr_nil var"
  shows "(tr_measure var s', tr_measure var s) \<in> less_than <*lex*> less_than <*lex*> less_than"
  using assms
proof (induction var lc s rule: tr_next.induct)
  case (1 var lc s)
  obtain r s1 where p: "next_pending var lc s = (r, s1)" by fastforce
  show ?case
  proof (cases r)
    case (Some c1)
    with p "1.prems" next_pending_less [of var lc s c1 s1] show ?thesis by (simp add: tr_next.simps [of var lc s])
  next
    case None
    note eq = next_pending_p [OF p]
    show ?thesis
    proof (cases "next_parse var lc s1")
      case (Inl e)
      with p None "1.prems"(1) show ?thesis by (simp add: tr_next.simps [of var lc s])
    next
      case (Inr x)
      obtain r2 s2 where x: "x = (r2, s2)" by fastforce
      show ?thesis
      proof (cases r2)
        case (Some c2)
        with Inr x p None "1.prems" have "s' = s2" "c = c2" by (simp_all add: tr_next.simps [of var lc s])
        with next_parse_size [OF Inr [unfolded x]] "1.prems"(2) eq Some show ?thesis by (auto simp: tr_measure_def)
      next
        case n2: None
        from Inr x p None n2 "1.prems"(1) have "tr_next var lc s2 = Inr (c, s')" by (simp add: tr_next.simps [of var lc s])
        from "1.IH" [OF p [symmetric] None Inr x [symmetric] n2 this "1.prems"(2)]
          next_parse_size [OF Inr [unfolded x]] eq n2 show ?thesis by (auto simp: tr_measure_def)
      qed
    qed
  qed
qed

section \<open>The tables\<close>

record trtab =
  t_code :: "int \<Rightarrow> int"
  t_squeez :: "int \<Rightarrow> bool"

text \<open>\<open>caseconv\<close>, which ends the class in both strings and fills the whole table.\<close>

definition str_reset :: "variant \<Rightarrow> trstr \<Rightarrow> trstr" where
  "str_reset var s = s\<lparr>s_tp := TpN, s_type := None, s_last := tr_nil var, s_max := tr_nil var\<rparr>"

definition caseconv :: "variant \<Rightarrow> trloc \<Rightarrow> bool \<Rightarrow> (int \<Rightarrow> int) \<Rightarrow> (int \<Rightarrow> bool) \<Rightarrow> trtab \<Rightarrow> int \<times> trtab" where
  "caseconv var lc sflag to is tab =
     fold (\<lambda>i (d, tab).
       let c = tl_btowc lc i
       in if c \<noteq> eof then
            (let d = to c; tab = tab\<lparr>t_code := (t_code tab)(i := tl_wctob lc d)\<rparr>
             in (d, if sflag \<and> d < ccnt \<and> is d then tab\<lparr>t_squeez := (t_squeez tab)(d := True)\<rparr> else tab))
          else (d, tab)) (map int [0..<256]) (tr_nil var, tab)"

record trbuild =
  b_s1 :: trstr
  b_s2 :: trstr
  b_lastd :: int
  b_tab :: trtab

text \<open>The body of the loop of \<open>cmple\<close> for a character \<open>c\<close> of the first string or of its complement.\<close>

definition tr_step :: "variant \<Rightarrow> trloc \<Rightarrow> bool \<Rightarrow> int \<Rightarrow> trbuild \<Rightarrow> trbuild trres" where
  "tr_step var lc sflag c b =
     (case tr_next var lc (b_s2 b) of
        Inl e \<Rightarrow> Inl e
      | Inr (d, s2) \<Rightarrow>
          (let s1 = b_s1 b;
               conv = (\<lambda>to is. case caseconv var lc sflag to is (b_tab b) of
                         (d, tab) \<Rightarrow> Inr \<lparr>b_s1 = str_reset var s1, b_s2 = str_reset var s2, b_lastd = d, b_tab = tab\<rparr>)
           in if s_tp s1 = TpU \<and> s_tp s2 = TpL then conv (tl_towlower lc) (tl_iswlower lc)
              else if s_tp s1 = TpL \<and> s_tp s2 = TpU then conv (tl_towupper lc) (tl_iswupper lc)
              else
                (let d = (if d = tr_nil var then (if var = UCB then b_lastd b else c) else d);
                     tab = b_tab b;
                     tab = (if c < ccnt then tab\<lparr>t_code := (t_code tab)(c := d)\<rparr> else tab);
                     tab = (if d < ccnt \<and> sflag then tab\<lparr>t_squeez := (t_squeez tab)(d := True)\<rparr> else tab)
                 in Inr \<lparr>b_s1 = s1\<lparr>s_tp := TpN\<rparr>, b_s2 = s2\<lparr>s_tp := TpN\<rparr>, b_lastd = d, b_tab = tab\<rparr>)))"

lemma tr_step_s1:
  "tr_step var lc sflag c b = Inr b' \<Longrightarrow> b_s1 b' = (b_s1 b)\<lparr>s_tp := TpN\<rparr> \<or> b_s1 b' = str_reset var (b_s1 b)"
  by (auto simp: tr_step_def Let_def split: sum.splits if_splits prod.splits)

lemma tr_step_less:
  assumes "tr_next var lc (b_s1 b) = Inr (c, s1)" "c \<noteq> tr_nil var" "tr_step var lc sflag c (b\<lparr>b_s1 := s1\<rparr>) = Inr b'"
  shows "(tr_measure var (b_s1 b'), tr_measure var (b_s1 b)) \<in> less_than <*lex*> less_than <*lex*> less_than"
  using tr_next_less [OF assms(1,2)] tr_step_s1 [OF assms(3)]
  by (auto simp: tr_measure_def str_reset_def split: if_splits)

text \<open>The loop without \<open>-c\<close>.\<close>

function tr_loop :: "variant \<Rightarrow> trloc \<Rightarrow> bool \<Rightarrow> trbuild \<Rightarrow> trbuild trres" where
  "tr_loop var lc sflag b =
     (case tr_next var lc (b_s1 b) of
        Inl e \<Rightarrow> Inl e
      | Inr (c, s1) \<Rightarrow>
          if c = tr_nil var then Inr (b\<lparr>b_s1 := s1\<rparr>)
          else (case tr_step var lc sflag c (b\<lparr>b_s1 := s1\<rparr>) of Inl e \<Rightarrow> Inl e | Inr b' \<Rightarrow> tr_loop var lc sflag b'))"
  by pat_completeness auto
termination
proof (relation "inv_image (less_than <*lex*> less_than <*lex*> less_than) (\<lambda>(var, lc, sflag, b). tr_measure var (b_s1 b))", goal_cases)
  case 1
  show ?case by (intro wf_inv_image wf_lex_prod wf_less_than)
next
  case (2 var lc sflag b x c s1 b')
  then show ?case using tr_step_less [of var lc b c s1 sflag b'] by simp
qed

declare tr_loop.simps [simp del]

text \<open>The loop with \<open>-c\<close>, over the complement.\<close>

fun tr_compl :: "variant \<Rightarrow> trloc \<Rightarrow> bool \<Rightarrow> int list \<Rightarrow> trbuild \<Rightarrow> trbuild trres" where
  "tr_compl var lc sflag [] b = Inr b"
| "tr_compl var lc sflag (c # cs) b =
     (case tr_step var lc sflag c b of Inl e \<Rightarrow> Inl e | Inr b' \<Rightarrow> tr_compl var lc sflag cs b')"

text \<open>\<open>while((c = next(&string1)) != NIL) vect[c] = 1\<close>\<close>

function tr_vect :: "variant \<Rightarrow> trloc \<Rightarrow> trstr \<Rightarrow> int list \<Rightarrow> (int list \<times> trstr) trres" where
  "tr_vect var lc s cs =
     (case tr_next var lc s of
        Inl e \<Rightarrow> Inl e
      | Inr (c, s') \<Rightarrow> if c = tr_nil var then Inr (cs, s') else tr_vect var lc s' (c # cs))"
  by pat_completeness auto
termination
proof (relation "inv_image (less_than <*lex*> less_than <*lex*> less_than) (\<lambda>(var, lc, s, cs). tr_measure var s)", goal_cases)
  case 1
  show ?case by (intro wf_inv_image wf_lex_prod wf_less_than)
next
  case (2 var lc s cs x c s')
  then show ?case using tr_next_less [of var lc s c s'] by simp
qed

declare tr_vect.simps [simp del]

text \<open>The loop over what is left of the second string.\<close>

function tr_rest :: "variant \<Rightarrow> trloc \<Rightarrow> bool \<Rightarrow> trstr \<Rightarrow> trtab \<Rightarrow> trtab trres" where
  "tr_rest var lc sflag s tab =
     (case tr_next var lc s of
        Inl e \<Rightarrow> Inl e
      | Inr (d, s') \<Rightarrow>
          if d = tr_nil var then Inr tab
          else (let tab = (if sflag then tab\<lparr>t_squeez := (t_squeez tab)(d := True)\<rparr> else tab)
                in if s_max s' = tr_nil var \<and> (s_p s' = None \<or> s_p s' = Some []) then Inr tab
                   else tr_rest var lc sflag s' tab))"
  by pat_completeness auto
termination
proof (relation "inv_image (less_than <*lex*> less_than <*lex*> less_than) (\<lambda>(var, lc, sflag, s, tab). tr_measure var s)", goal_cases)
  case 1
  show ?case by (intro wf_inv_image wf_lex_prod wf_less_than)
next
  case (2 var lc sflag s tab x d s' tab')
  then show ?case using tr_next_less [of var lc s d s'] by simp
qed

declare tr_rest.simps [simp del]

definition str_init :: "variant \<Rightarrow> string \<Rightarrow> trstr" where
  "str_init var arg = \<lparr>s_last = tr_nil var, s_max = tr_nil var, s_rep = 0, s_type = None, s_tp = TpN, s_p = Some arg\<rparr>"

text \<open>
  \<open>cmple\<close>.  The complement is stored in \<open>vect\<close> itself, behind its last element there has to be room for \<open>NIL\<close>.
\<close>

definition tr_first :: "variant \<Rightarrow> trloc \<Rightarrow> bool \<Rightarrow> bool \<Rightarrow> trbuild \<Rightarrow> trbuild trres" where
  "tr_first var lc cflag sflag b =
     (if cflag then
        (case tr_vect var lc (b_s1 b) [] of
           Inl e \<Rightarrow> Inl e
         | Inr (cs, s1) \<Rightarrow>
             (let compl = filter (\<lambda>i. i \<notin> set cs) (map (\<lambda>i. int i + tr_nil var + 1) [0..<nat (ccnt - tr_nil var - 1)])
              in if int (length compl) \<ge> ccnt then Inl Crash else tr_compl var lc sflag compl (b\<lparr>b_s1 := s1\<rparr>)))
      else tr_loop var lc sflag b)"

definition cmple :: "variant \<Rightarrow> trloc \<Rightarrow> bool \<Rightarrow> bool \<Rightarrow> bool \<Rightarrow> string \<Rightarrow> string \<Rightarrow> trtab trres" where
  "cmple var lc cflag dflag sflag arg0 arg1 =
     (let b = \<lparr>b_s1 = str_init var arg0, b_s2 = str_init var arg1, b_lastd = tr_nil var,
               b_tab = \<lparr>t_code = (\<lambda>i. tr_nil var), t_squeez = (\<lambda>i. False)\<rparr>\<rparr>
      in case tr_first var lc cflag sflag b of
           Inl e \<Rightarrow> Inl e
         | Inr b \<Rightarrow>
             (case tr_rest var lc sflag (b_s2 b) (b_tab b) of
                Inl e \<Rightarrow> Inl e
              | Inr tab \<Rightarrow>
                  Inr (tab\<lparr>t_code := (\<lambda>i. if t_code tab i = tr_nil var then i else if dflag then tr_nil var else t_code tab i)\<rparr>)))"

section \<open>The program\<close>

text \<open>The body of the input loop: the last character written, and the output.\<close>

definition tr_char :: "variant \<Rightarrow> bool \<Rightarrow> trtab \<Rightarrow> char \<Rightarrow> int \<times> string \<Rightarrow> int \<times> string" where
  "tr_char var sflag tab ch st =
     (case st of
        (save, w) \<Rightarrow>
          if uchar ch = tr_nil var then st
          else (let c = t_code tab (uchar ch)
                in if c \<noteq> tr_nil var \<and> (\<not> sflag \<or> c \<noteq> save \<or> \<not> t_squeez tab c) then (c, w @ [to_char c]) else st))"

fun tr_opts :: "optev list \<Rightarrow> bool \<times> bool \<times> bool \<Rightarrow> bool \<times> bool \<times> bool" where
  "tr_opts [] fl = fl"
| "tr_opts ((o', arg, msg) # evs) (c, d, s) = tr_opts evs (c \<or> o' = 99 \<or> o' = 67, d \<or> o' = 100, s \<or> o' = 115)"

datatype trrun = TrExit outcome | TrCrash

definition tr_main :: "variant \<Rightarrow> trloc \<Rightarrow> fdesc \<Rightarrow> string list \<Rightarrow> trrun" where
  "tr_main var lc stdin argv =
     (case getopt_all True None argv '':cCds'' optst_init of
        (evs, ost) \<Rightarrow>
          (case tr_opts evs (False, False, False) of
             (cflag, dflag, sflag) \<Rightarrow>
               (let args = drop (optind ost) argv;
                    arg0 = (if length args > 0 then args ! 0 else []);
                    arg1 = (if length args > 1 then args ! 1 else [])
                in case cmple var lc cflag dflag sflag arg0 arg1 of
                     Inl Bad \<Rightarrow> TrExit \<lparr>out = [], err = ''Bad string'' @ [NL], status = 2\<rparr>
                   | Inl Crash \<Rightarrow> TrCrash
                   | Inr tab \<Rightarrow>
                       TrExit \<lparr>out = snd (ib_while_get (tr_char var sflag tab) (ib_alloc 1 stdin 0) (tr_nil var, [])),
                               err = [], status = 0\<rparr>)))"

section \<open>Specification\<close>

text \<open>
  The strings of the System V variant: characters, ranges \<open>[a-b]\<close> and repetitions \<open>[a*n]\<close>.  A character is written as itself or in octal.
\<close>

datatype trchr = Plain char | Oct char
datatype tritem = Lit trchr | Rng trchr trchr | Rpt trchr nat

fun chr_val :: "trchr \<Rightarrow> int" where
  "chr_val (Plain c) = uchar c"
| "chr_val (Oct c) = uchar c"

definition oct3 :: "nat \<Rightarrow> string" where
  "oct3 n = [digit (n div 64), digit (n div 8 mod 8), digit (n mod 8)]"

fun spell :: "trchr \<Rightarrow> string" where
  "spell (Plain c) = [c]"
| "spell (Oct c) = CHR 0x5C # oct3 (nat (uchar c))"

fun render_item :: "tritem \<Rightarrow> string" where
  "render_item (Lit x) = spell x"
| "render_item (Rng x y) = ''['' @ spell x @ ''-'' @ spell y @ '']''"
| "render_item (Rpt x n) = ''['' @ spell x @ ''*'' @ decimal n @ '']''"

definition render_items :: "tritem list \<Rightarrow> string" where
  "render_items is = concat (map render_item is)"

fun expand_item :: "tritem \<Rightarrow> int list" where
  "expand_item (Lit x) = [chr_val x]"
| "expand_item (Rng x y) = [chr_val x..chr_val y]"
| "expand_item (Rpt x n) = replicate n (chr_val x)"

definition expand_items :: "tritem list \<Rightarrow> int list" where
  "expand_items is = concat (map expand_item is)"

text \<open>A null character or a backslash cannot be written as itself, and an opening bracket not outside of brackets.\<close>

fun chr_ok :: "trchr \<Rightarrow> bool" where
  "chr_ok (Plain c) = (c \<noteq> NUL \<and> c \<noteq> CHR 0x5C)"
| "chr_ok (Oct c) = (c \<noteq> NUL)"

definition chr_first :: "trchr \<Rightarrow> bool" where
  "chr_first x \<longleftrightarrow> chr_ok x \<and> x \<noteq> Plain (CHR '':'') \<and> chr_val x \<noteq> uchar (CHR ''='')"

fun item_ok :: "tritem \<Rightarrow> bool" where
  "item_ok (Lit x) = (chr_ok x \<and> x \<noteq> Plain (CHR ''[''))"
| "item_ok (Rng x y) = (chr_first x \<and> chr_ok y \<and> chr_val x \<le> chr_val y)"
| "item_ok (Rpt x n) = (chr_first x \<and> 0 < n \<and> n < 2 ^ 31 - 48)"

lemma octal_digit: "d < 8 \<Longrightarrow> schar (digit d) = 48 + int d"
  using digit_props(1) [of d] by (simp add: schar_def)

lemma chr_val_range: "chr_ok x \<Longrightarrow> 0 < chr_val x \<and> chr_val x < 256"
  by (cases x) (auto intro: uchar_pos)

lemma oct3_run:
  assumes "n < 256"
  shows "octal_run 3 0 (oct3 n @ rest) = (3, n, rest)"
proof -
  have d: "n div 64 < 8" "n div 8 mod 8 < 8" "n mod 8 < 8" using assms by simp_all
  then have "n div 64 \<le> 7" "n div 8 mod 8 \<le> 7" "n mod 8 \<le> 7" by linarith+
  moreover have "n div 64 = n div 8 div 8" by (simp add: div_mult2_eq [symmetric])
  then have v: "(n div 64 * 8 + n div 8 mod 8) * 8 + n mod 8 = n" by simp
  ultimately show ?thesis
    using octal_digit [OF d(1)] octal_digit [OF d(2)] octal_digit [OF d(3)] v
    by (simp add: oct3_def numeral_3_eq_3)
qed

lemma nextb_spell:
  assumes "chr_ok x"
  shows "nextb SV (Some (spell x @ rest)) = (chr_val x, Some rest)"
proof (cases x)
  case (Plain c)
  with assms show ?thesis by (simp add: nextb_def)
next
  case (Oct c)
  have n: "nat (uchar c) < 256" using uchar_range(1,2) [of c] by (simp add: nat_less_iff)
  then have "int (nat (uchar c)) mod 256 = uchar c" by simp
  with Oct oct3_run [OF n, of rest] show ?thesis by (simp add: nextb_def)
qed

lemma rep_number_digits:
  assumes "\<forall>c\<in>set ds. is_digit c" "\<not> is_digit c"
  shows "rep_number 10 m (ds @ c # rest) = (foldl (\<lambda>n c. 10 * n + int (digit_val c)) m ds, c # rest)"
  using assms
proof (induction ds arbitrary: m)
  case Nil
  then show ?case using uchar_range(2) [of c] by (auto simp: is_digit_def schar_def simp del: uchar_range)
next
  case (Cons d ds)
  then have "48 \<le> schar d \<and> schar d < 48 + 10" "schar d = 48 + int (digit_val d)"
    by (auto simp: is_digit_def schar_def digit_val_def)
  with Cons show ?case by (simp add: algebra_simps)
qed

lemma foldl_int: "foldl (\<lambda>n c. 10 * n + int (digit_val c)) (int m) ds = int (foldl (\<lambda>n c. 10 * n + digit_val c) m ds)"
proof (induction ds arbitrary: m)
  case (Cons d ds)
  from Cons.IH [of "10 * m + digit_val d"] show ?case by simp
qed simp

lemma rep_number_decimal: "rep_number 10 0 (decimal n @ CHR '']'' # rest) = (int n, CHR '']'' # rest)"
proof -
  have "\<not> is_digit (CHR '']'')" by (simp add: is_digit_def uchar_def)
  from rep_number_digits [OF _ this, of "decimal n" 0 rest] decimal_digits [of _ n] foldl_int [of 0 "decimal n"]
    undecimal_decimal [of n] show ?thesis by (simp add: undecimal_def)
qed

text \<open>The characters a string still has to deliver: what is pending of a repetition or a range, and the items not yet read.\<close>

definition s_pend :: "trstr \<Rightarrow> int list" where
  "s_pend s = (if s_rep s > 1 then replicate (nat (s_rep s - 1)) (s_last s) else if s_max s \<noteq> 0 then [s_last s + 1..s_max s] else [])"

definition s_view :: "trstr \<Rightarrow> int list \<Rightarrow> bool" where
  "s_view s xs \<longleftrightarrow> (\<exists>is. list_all item_ok is \<and> s_type s = None \<and> s_tp s = TpN \<and>
     (s_p s = Some (render_items is) \<or> s_p s = None \<and> is = []) \<and> xs = s_pend s @ expand_items is \<and>
     (s_rep s > 1 \<longrightarrow> s_max s = 0 \<and> s_last s \<noteq> 0) \<and> 0 \<le> s_last s)"

text \<open>The answer of \<open>next\<close> to a state with the characters \<open>xs\<close> to deliver.\<close>

definition answers :: "(int \<times> trstr) trres \<Rightarrow> int list \<Rightarrow> bool" where
  "answers r xs \<longleftrightarrow>
     (case r of Inl e \<Rightarrow> False
      | Inr (c, s') \<Rightarrow> (case xs of [] \<Rightarrow> c = 0 \<and> s_view s' [] | x # ys \<Rightarrow> c = x \<and> x \<noteq> 0 \<and> s_last s' = x \<and> s_view s' ys))"

lemma s_viewI:
  assumes "list_all item_ok is" "s_type s = None" "s_tp s = TpN" "s_p s = Some (render_items is)" "xs = s_pend s @ expand_items is"
    "s_rep s > 1 \<longrightarrow> s_max s = 0 \<and> s_last s \<noteq> 0" "0 \<le> s_last s"
  shows "s_view s xs"
  unfolding s_view_def using assms by blast

lemma next_pending_view:
  assumes "s_view s xs" "s_pend s \<noteq> []"
  obtains c s' where "next_pending SV lc s = (Some c, s')" "answers (Inr (c, s')) xs"
proof -
  from assms(1) obtain "is" where v: "list_all item_ok is" "s_type s = None" "s_tp s = TpN"
    "s_p s = Some (render_items is) \<or> s_p s = None \<and> is = []" "xs = s_pend s @ expand_items is"
    "s_rep s > 1 \<longrightarrow> s_max s = 0 \<and> s_last s \<noteq> 0" "0 \<le> s_last s" by (auto simp: s_view_def)
  show ?thesis
  proof (cases "s_rep s > 1")
    case True
    let ?s = "s\<lparr>s_rep := s_rep s - 1\<rparr>"
    have "nat (s_rep s - 1) = Suc (nat (s_rep s - 2))" using True by simp
    then have "s_pend s = s_last s # s_pend ?s" using True v(6) by (auto simp: s_pend_def)
    with True v show ?thesis
      by (intro that [of "s_last s" ?s]) (auto simp: next_pending_def Let_def tr_nil_def answers_def s_view_def)
  next
    case False
    with assms(2) have m: "s_max s \<noteq> 0" "s_last s < s_max s" by (auto simp: s_pend_def split: if_splits)
    let ?s = "s\<lparr>s_rep := s_rep s - 1, s_last := s_last s + 1\<rparr>"
    have "s_pend s = (s_last s + 1) # s_pend ?s" using False m by (simp add: s_pend_def upto_rec1)
    with False m v show ?thesis
      by (intro that [of "s_last s + 1" ?s]) (auto simp: next_pending_def Let_def tr_nil_def answers_def s_view_def)
  qed
qed

lemma next_pending_none:
  assumes "s_view s xs" "s_pend s = []"
  obtains s' where "next_pending SV lc s = (None, s')" "s_view s' xs" "s_rep s' \<le> 0" "s_max s' = 0"
proof -
  from assms(2) have r: "\<not> s_rep s > 1" by (auto simp: s_pend_def)
  let ?s = "s\<lparr>s_rep := s_rep s - 1\<rparr>" let ?t = "?s\<lparr>s_max := 0, s_last := 0, s_tp := TpN, s_type := None\<rparr>"
  from assms(1) obtain "is" where v: "list_all item_ok is" "s_type s = None" "s_tp s = TpN"
    "s_p s = Some (render_items is) \<or> s_p s = None \<and> is = []" "xs = s_pend s @ expand_items is" "0 \<le> s_last s" by (auto simp: s_view_def)
  show ?thesis
  proof (cases "s_max s = 0")
    case True
    with r v assms(2) show ?thesis
      by (intro that [of ?s]) (auto simp: next_pending_def Let_def tr_nil_def s_view_def s_pend_def)
  next
    case False
    with assms(2) r have "\<not> s_last s < s_max s" by (auto simp: s_pend_def)
    with False r v assms(2) show ?thesis
      by (intro that [of ?t]) (auto simp: next_pending_def Let_def tr_nil_def s_view_def s_pend_def)
  qed
qed

lemma peek_spell: "chr_ok x \<Longrightarrow> x \<noteq> Plain c \<Longrightarrow> c \<noteq> CHR 0x5C \<Longrightarrow> peek (spell x @ rest) \<noteq> c"
  by (cases x) (auto simp: peek_def)

lemma nextc_spell: "chr_ok x \<Longrightarrow> s_p s = Some (spell x @ rest) \<Longrightarrow> tr_nextc SV s = (chr_val x, s\<lparr>s_p := Some rest\<rparr>)"
  by (simp add: tr_nextc_def nextb_spell)

lemma nextc_char: "s_p s = Some (c # rest) \<Longrightarrow> c \<noteq> NUL \<Longrightarrow> c \<noteq> CHR 0x5C \<Longrightarrow> tr_nextc SV s = (uchar c, s\<lparr>s_p := Some rest\<rparr>)"
  using nextc_spell [of "Plain c"] by simp

text \<open>A bracket: the first character is read, then what follows decides.\<close>

lemma next_bracket_first:
  assumes "s_p s = Some (CHR ''['' # spell x @ rest)" "chr_first x" "rest \<noteq> []"
  shows "next_bracket SV lc (CHR ''['' # spell x @ rest) s =
    (let s = s\<lparr>s_p := Some rest, s_last := chr_val x, s_max := 0\<rparr>; c = hd rest
     in if c = CHR ''*'' then next_repeat (chr_val x) (snd (tr_nextc SV s))
        else if c = CHR ''-'' then next_range SV (chr_val x) (snd (tr_nextc SV s)) else Inl Bad)"
proof -
  let ?s = "s\<lparr>s_p := Some (spell x @ rest)\<rparr>"
  from assms(2) have x: "chr_ok x" "peek (spell x @ rest) \<noteq> CHR '':''" "chr_val x \<noteq> uchar (CHR ''='')"
    using peek_spell [of x "CHR '':''" rest] by (auto simp: chr_first_def)
  have a: "tr_nextc SV s = (uchar (CHR ''[''), ?s)" using nextc_char [OF assms(1)] by simp
  have b: "tr_nextc SV ?s = (chr_val x, ?s\<lparr>s_p := Some rest\<rparr>)" by (rule nextc_spell [OF x(1)]) simp
  show ?thesis using a b x assms(3) by (cases rest) (simp_all add: next_bracket_def Let_def tr_nil_def peek_def)
qed

lemma next_parse_range:
  assumes "s_p s = Some (render_item (Rng x y) @ rest)" "chr_first x" "chr_ok y" "chr_val x \<le> chr_val y"
  shows "next_parse SV lc s = Inr (Some (chr_val x), s\<lparr>s_p := Some rest, s_last := chr_val x, s_max := chr_val y\<rparr>)"
proof -
  let ?u = "s\<lparr>s_p := Some (''-'' @ spell y @ '']'' @ rest), s_last := chr_val x, s_max := 0\<rparr>"
  have "next_parse SV lc s = next_bracket SV lc (CHR ''['' # spell x @ ''-'' @ spell y @ '']'' @ rest) s"
    using assms(1) by (simp add: next_parse_def Let_def peek_def)
  also have "\<dots> = next_range SV (chr_val x) (snd (tr_nextc SV ?u))"
    using next_bracket_first [of s x "''-'' @ spell y @ '']'' @ rest" lc] assms(1,2) by simp
  also have "snd (tr_nextc SV ?u) = ?u\<lparr>s_p := Some (spell y @ '']'' @ rest)\<rparr>"
    using nextc_char [of ?u "CHR ''-''"] by simp
  also have "next_range SV (chr_val x) \<dots> = Inr (Some (chr_val x), ?u\<lparr>s_p := Some rest, s_max := chr_val y\<rparr>)"
    using nextc_spell [OF assms(3), of "?u\<lparr>s_p := Some (spell y @ '']'' @ rest)\<rparr>" "'']'' @ rest"] assms(4)
    by (simp add: next_range_def peek_def)
  finally show ?thesis by simp
qed

lemma next_parse_repeat:
  assumes "s_p s = Some (render_item (Rpt x n) @ rest)" "chr_first x" "0 < n" "n < 2 ^ 31 - 48"
  shows "next_parse SV lc s = Inr (Some (chr_val x), s\<lparr>s_p := Some rest, s_last := chr_val x, s_max := 0, s_rep := int n\<rparr>)"
proof -
  let ?u = "s\<lparr>s_p := Some (''*'' @ decimal n @ '']'' @ rest), s_last := chr_val x, s_max := 0\<rparr>"
  have hd: "peek (decimal n @ '']'' @ rest) \<noteq> CHR ''0''"
    using decimal_hd [OF assms(3)] by (cases "decimal n") (auto simp: peek_def)
  have "next_parse SV lc s = next_bracket SV lc (CHR ''['' # spell x @ ''*'' @ decimal n @ '']'' @ rest) s"
    using assms(1) by (simp add: next_parse_def Let_def peek_def)
  also have "\<dots> = next_repeat (chr_val x) (snd (tr_nextc SV ?u))"
    using next_bracket_first [of s x "''*'' @ decimal n @ '']'' @ rest" lc] assms(1,2) by simp
  also have "snd (tr_nextc SV ?u) = ?u\<lparr>s_p := Some (decimal n @ '']'' @ rest)\<rparr>"
    using nextc_char [of ?u "CHR ''*''"] by simp
  also have "next_repeat (chr_val x) \<dots> = Inr (Some (chr_val x), ?u\<lparr>s_p := Some rest, s_rep := int n\<rparr>)"
    using hd assms(3,4) rep_number_decimal [of n rest] by (simp add: next_repeat_def peek_def)
  finally show ?thesis by simp
qed

lemma next_parse_view:
  assumes "s_view s xs" "s_rep s \<le> 0" "s_max s = 0"
  obtains c s' where "next_parse SV lc s = Inr (Some c, s')" "answers (Inr (c, s')) xs"
proof -
  from assms(1) obtain "is" where v: "list_all item_ok is" "s_type s = None" "s_tp s = TpN"
    "s_p s = Some (render_items is) \<or> s_p s = None \<and> is = []" "xs = s_pend s @ expand_items is" "0 \<le> s_last s" by (auto simp: s_view_def)
  have p: "s_pend s = []" using assms(2,3) by (simp add: s_pend_def)
  show ?thesis
  proof (cases "is")
    case Nil
    with v p assms(2,3) show ?thesis
      by (intro that [of 0 "s\<lparr>s_p := None, s_last := 0\<rparr>"])
         (auto simp: next_parse_def tr_nextc_def nextb_def tr_nil_def peek_def answers_def s_view_def render_items_def expand_items_def s_pend_def)
  next
    case (Cons i is')
    let ?rest = "render_items is'"
    from v(4) Cons have sp: "s_p s = Some (render_item i @ ?rest)" by (simp add: render_items_def)
    have xs: "xs = expand_item i @ expand_items is'" using v(5) p Cons by (simp add: expand_items_def)
    have ok: "item_ok i" "list_all item_ok is'" using v(1) Cons by simp_all
    show ?thesis
    proof (cases i)
      case (Lit x)
      with ok have x: "chr_ok x" "peek (spell x @ ?rest) \<noteq> CHR ''[''" using peek_spell [of x "CHR ''[''" ?rest] by auto
      let ?t = "s\<lparr>s_p := Some ?rest, s_last := chr_val x\<rparr>"
      from sp Lit x nextc_spell [OF x(1), of s ?rest] have "next_parse SV lc s = Inr (Some (chr_val x), ?t)"
        by (simp add: next_parse_def Let_def)
      moreover have "s_view ?t (expand_items is')"
        by (rule s_viewI [OF ok(2)]) (use v assms chr_val_range [OF x(1)] in \<open>simp_all add: s_pend_def\<close>)
      ultimately show ?thesis using that xs Lit chr_val_range [OF x(1)] by (simp add: answers_def)
    next
      case (Rng x y)
      with ok have x: "chr_first x" "chr_ok x" "chr_ok y" "chr_val x \<le> chr_val y" by (auto simp: chr_first_def)
      let ?t = "s\<lparr>s_p := Some ?rest, s_last := chr_val x, s_max := chr_val y\<rparr>"
      have "s_view ?t ([chr_val x + 1..chr_val y] @ expand_items is')"
        by (rule s_viewI [OF ok(2)]) (use v assms chr_val_range [OF x(2)] chr_val_range [OF x(3)] in \<open>simp_all add: s_pend_def\<close>)
      with next_parse_range [OF sp [unfolded Rng] x(1,3,4), of lc] show ?thesis
        using that xs Rng x(4) chr_val_range [OF x(2)] by (simp add: answers_def upto_rec1)
    next
      case (Rpt x n)
      with ok have x: "chr_first x" "chr_ok x" "0 < n" "n < 2 ^ 31 - 48" by (auto simp: chr_first_def)
      let ?t = "s\<lparr>s_p := Some ?rest, s_last := chr_val x, s_max := 0, s_rep := int n\<rparr>"
      have "s_view ?t (replicate (n - 1) (chr_val x) @ expand_items is')"
        by (rule s_viewI [OF ok(2)]) (use v assms x(3) chr_val_range [OF x(2)] in \<open>auto simp: s_pend_def nat_diff_distrib'\<close>)
      moreover have "replicate n (chr_val x) = chr_val x # replicate (n - 1) (chr_val x)" using x(3) by (cases n) simp_all
      ultimately show ?thesis using next_parse_repeat [OF sp [unfolded Rpt] x(1,3,4), of lc] that xs Rpt chr_val_range [OF x(2)]
        by (simp add: answers_def)
    qed
  qed
qed

text \<open>\<open>next\<close> delivers the characters of a string in their order, and \<open>NIL\<close> at the end.\<close>

lemma tr_next_view:
  assumes "s_view s xs"
  shows "answers (tr_next SV lc s) xs"
proof (cases "s_pend s = []")
  case True
  obtain s1 where s1: "next_pending SV lc s = (None, s1)" "s_view s1 xs" "s_rep s1 \<le> 0" "s_max s1 = 0"
    by (rule next_pending_none [OF assms True])
  obtain c s2 where "next_parse SV lc s1 = Inr (Some c, s2)" "answers (Inr (c, s2)) xs"
    by (rule next_parse_view [OF s1(2-4)])
  with s1 show ?thesis by (simp add: tr_next.simps [of SV lc s])
next
  case False
  obtain c s1 where "next_pending SV lc s = (Some c, s1)" "answers (Inr (c, s1)) xs"
    by (rule next_pending_view [OF assms False])
  then show ?thesis by (simp add: tr_next.simps [of SV lc s])
qed

lemma tr_next_Nil:
  assumes "s_view s []"
  obtains s' where "tr_next SV lc s = Inr (0, s')" "s_view s' []"
  using tr_next_view [OF assms, of lc] that by (auto simp: answers_def split: sum.splits)

lemma tr_next_Cons:
  assumes "s_view s (x # xs)"
  obtains s' where "tr_next SV lc s = Inr (x, s')" "s_view s' xs" "s_last s' = x" "x \<noteq> 0"
  using tr_next_view [OF assms, of lc] that by (auto simp: answers_def split: sum.splits)

lemma str_init_view: "list_all item_ok is \<Longrightarrow> s_view (str_init SV (render_items is)) (expand_items is)"
  by (auto simp: s_view_def str_init_def s_pend_def tr_nil_def)

section \<open>What the tables hold\<close>

text \<open>
  The second string is continued with the corresponding characters of the first one; of several entries for a character the last counts.
\<close>

definition tr_pairs :: "int list \<Rightarrow> int list \<Rightarrow> (int \<times> int) list" where
  "tr_pairs xs ys = zip xs (ys @ drop (length ys) xs)"

definition tab_upd :: "bool \<Rightarrow> int \<times> int \<Rightarrow> trtab \<Rightarrow> trtab" where
  "tab_upd sflag cd tab = tab\<lparr>t_code := (t_code tab)(fst cd := snd cd), t_squeez := (\<lambda>i. t_squeez tab i \<or> sflag \<and> i = snd cd)\<rparr>"

lemma tr_pairs_Cons: "tr_pairs (x # xs) ys = (x, case ys of [] \<Rightarrow> x | y # _ \<Rightarrow> y) # tr_pairs xs (tl ys)"
  by (cases ys) (simp_all add: tr_pairs_def)

lemma tr_step_view:
  assumes "s_view (b_s2 b) ys" "s_tp (b_s1 b) = TpN" "c < 256" "\<forall>y\<in>set ys. y < 256"
  obtains b' where "tr_step SV lc sflag c b = Inr b'" "b_s1 b' = b_s1 b" "s_view (b_s2 b') (tl ys)"
    "b_tab b' = tab_upd sflag (c, case ys of [] \<Rightarrow> c | y # _ \<Rightarrow> y) (b_tab b)"
proof -
  have tp: "s_view s zs \<Longrightarrow> s_tp s = TpN" for s zs by (auto simp: s_view_def)
  have N: "s\<lparr>s_tp := TpN\<rparr> = s" if "s_tp s = TpN" for s :: trstr using that by (cases s) simp
  show ?thesis
  proof (cases ys)
    case Nil
    with assms(1) obtain s' where n: "tr_next SV lc (b_s2 b) = Inr (0, s')" "s_view s' []" by (metis tr_next_Nil)
    with Nil assms(2,3) tp [OF n(2)] N show ?thesis
      by (intro that [of "\<lparr>b_s1 = b_s1 b, b_s2 = s', b_lastd = c, b_tab = tab_upd sflag (c, c) (b_tab b)\<rparr>"])
         (auto simp: tr_step_def Let_def tr_nil_def tab_upd_def fun_eq_iff)
  next
    case (Cons y ys')
    with assms(1) obtain s' where n: "tr_next SV lc (b_s2 b) = Inr (y, s')" "s_view s' ys'" "y \<noteq> 0" by (metis tr_next_Cons)
    with Cons assms(2-4) tp [OF n(2)] N show ?thesis
      by (intro that [of "\<lparr>b_s1 = b_s1 b, b_s2 = s', b_lastd = y, b_tab = tab_upd sflag (c, y) (b_tab b)\<rparr>"])
         (auto simp: tr_step_def Let_def tr_nil_def tab_upd_def fun_eq_iff)
  qed
qed

lemma tr_compl_view:
  assumes "s_view (b_s2 b) ys" "s_tp (b_s1 b) = TpN" "\<forall>c\<in>set cs. c < 256" "\<forall>y\<in>set ys. y < 256"
  shows "\<exists>b'. tr_compl SV lc sflag cs b = Inr b' \<and> b_tab b' = fold (tab_upd sflag) (tr_pairs cs ys) (b_tab b) \<and>
    s_view (b_s2 b') (drop (length cs) ys)"
  using assms
proof (induction cs arbitrary: b ys)
  case Nil
  then show ?case by (simp add: tr_pairs_def)
next
  case (Cons c cs)
  from Cons.prems(3) have "c < 256" by simp
  obtain b' where b': "tr_step SV lc sflag c b = Inr b'" "b_s1 b' = b_s1 b" "s_view (b_s2 b') (tl ys)"
    "b_tab b' = tab_upd sflag (c, case ys of [] \<Rightarrow> c | y # _ \<Rightarrow> y) (b_tab b)"
    by (rule tr_step_view [OF Cons.prems(1,2) \<open>c < 256\<close> Cons.prems(4)])
  have "\<forall>y\<in>set (tl ys). y < 256" using Cons.prems(4) by (cases ys) auto
  with Cons.IH [OF b'(3)] Cons.prems(2,3) b' show ?case by (simp add: tr_pairs_Cons drop_Suc)
qed

lemma tr_loop_view:
  assumes "s_view (b_s1 b) xs" "s_view (b_s2 b) ys" "\<forall>c\<in>set xs. c < 256" "\<forall>y\<in>set ys. y < 256"
  shows "\<exists>b'. tr_loop SV lc sflag b = Inr b' \<and> b_tab b' = fold (tab_upd sflag) (tr_pairs xs ys) (b_tab b) \<and>
    s_view (b_s2 b') (drop (length xs) ys)"
  using assms
proof (induction xs arbitrary: b ys)
  case Nil
  from Nil.prems(1) obtain s' where "tr_next SV lc (b_s1 b) = Inr (0, s')" by (metis tr_next_Nil)
  with Nil.prems(2) show ?case by (simp add: tr_loop.simps [of SV lc sflag b] tr_nil_def tr_pairs_def)
next
  case (Cons c xs)
  obtain s1 where s1: "tr_next SV lc (b_s1 b) = Inr (c, s1)" "s_view s1 xs" "c \<noteq> 0"
    by (metis tr_next_Cons [OF Cons.prems(1)])
  let ?b = "b\<lparr>b_s1 := s1\<rparr>"
  have p: "s_view (b_s2 ?b) ys" "s_tp (b_s1 ?b) = TpN" "c < 256" using Cons.prems(2,3) s1(2) by (auto simp: s_view_def)
  obtain b' where b': "tr_step SV lc sflag c ?b = Inr b'" "b_s1 b' = b_s1 ?b" "s_view (b_s2 b') (tl ys)"
    "b_tab b' = tab_upd sflag (c, case ys of [] \<Rightarrow> c | y # _ \<Rightarrow> y) (b_tab ?b)"
    by (rule tr_step_view [OF p Cons.prems(4)])
  have "s_view (b_s1 b') xs" using b'(2) s1(2) by simp
  moreover have "\<forall>y\<in>set (tl ys). y < 256" using Cons.prems(4) by (cases ys) auto
  ultimately show ?case using Cons.IH [OF _ b'(3)] Cons.prems(3) b' s1(1,3)
    by (simp add: tr_loop.simps [of SV lc sflag b] tr_nil_def tr_pairs_Cons drop_Suc)
qed

lemma tr_vect_view:
  assumes "s_view s xs"
  shows "\<exists>s'. tr_vect SV lc s cs = Inr (rev xs @ cs, s') \<and> s_tp s' = TpN"
  using assms
proof (induction xs arbitrary: s cs)
  case Nil
  then obtain s' where "tr_next SV lc s = Inr (0, s')" "s_view s' []" by (metis tr_next_Nil)
  then show ?case by (auto simp: tr_vect.simps [of SV lc s] tr_nil_def s_view_def)
next
  case (Cons x xs)
  then obtain s' where s': "tr_next SV lc s = Inr (x, s')" "s_view s' xs" "x \<noteq> 0" by (metis tr_next_Cons)
  from Cons.IH [OF s'(2), of "x # cs"] s'(1,3) show ?case by (simp add: tr_vect.simps [of SV lc s] tr_nil_def)
qed

text \<open>Where the loop over the rest of the second string stops early, only repetitions of its last character are left.\<close>

lemma tr_rest_view:
  assumes "s_view s ys"
  shows "tr_rest SV lc sflag s tab = Inr (tab\<lparr>t_squeez := (\<lambda>i. t_squeez tab i \<or> sflag \<and> i \<in> set ys)\<rparr>)"
  using assms
proof (induction ys arbitrary: s tab)
  case Nil
  then obtain s' where "tr_next SV lc s = Inr (0, s')" by (metis tr_next_Nil)
  then show ?case by (simp add: tr_rest.simps [of SV lc sflag s] tr_nil_def)
next
  case (Cons y ys)
  obtain s' where s': "tr_next SV lc s = Inr (y, s')" "s_view s' ys" "s_last s' = y" "y \<noteq> 0"
    by (rule tr_next_Cons [OF Cons.prems])
  let ?tab = "if sflag then tab\<lparr>t_squeez := (t_squeez tab)(y := True)\<rparr> else tab"
  note step = tr_rest.simps [of SV lc sflag s tab]
  show ?case
  proof (cases "s_max s' = 0 \<and> (s_p s' = None \<or> s_p s' = Some [])")
    case True
    have "\<exists>k. ys = replicate k y"
    proof -
      from s'(2) obtain "is" where i: "list_all item_ok is" "s_p s' = Some (render_items is) \<or> s_p s' = None \<and> is = []"
        "ys = s_pend s' @ expand_items is" by (auto simp: s_view_def)
      have "is = []"
      proof (cases "is")
        case (Cons i is')
        then have "render_items is \<noteq> []" by (cases i; cases "case i of Lit x \<Rightarrow> x") (auto simp: render_items_def)
        with True i(2) Cons show ?thesis by auto
      qed simp
      with i(3) True s'(3) show ?thesis by (auto simp: s_pend_def expand_items_def)
    qed
    then have "set ys \<subseteq> {y}" by auto
    then have "(t_squeez tab)(y := True) = (\<lambda>i. t_squeez tab i \<or> i \<in> set (y # ys))" by (auto simp: fun_eq_iff)
    with True s'(1,4) show ?thesis by (auto simp: step tr_nil_def Let_def)
  next
    case False
    have "tr_rest SV lc sflag s tab = tr_rest SV lc sflag s' ?tab"
      using False s'(1,4) by (auto simp: step tr_nil_def Let_def)
    moreover have "(\<lambda>i. ((t_squeez tab)(y := True)) i \<or> i \<in> set ys) = (\<lambda>i. t_squeez tab i \<or> i \<in> set (y # ys))" by auto
    ultimately show ?thesis using Cons.IH [OF s'(2), of ?tab] by (cases sflag) simp_all
  qed
qed

lemma expand_items_range:
  assumes "list_all item_ok is" "x \<in> set (expand_items is)"
  shows "0 < x \<and> x < 256"
proof -
  from assms obtain i where i: "item_ok i" "x \<in> set (expand_item i)" by (auto simp: expand_items_def list_all_iff)
  then show ?thesis
  proof (cases i)
    case (Rng a b)
    with i have "chr_ok a" "chr_ok b" by (auto simp: chr_first_def)
    with Rng i(2) chr_val_range [of a] chr_val_range [of b] show ?thesis by auto
  qed (use chr_val_range in \<open>auto simp: chr_first_def split: if_splits\<close>)
qed

lemma fold_tab_upd:
  "fold (tab_upd sflag) ps tab =
     tab\<lparr>t_code := (\<lambda>i. case map_of (rev ps) i of None \<Rightarrow> t_code tab i | Some d \<Rightarrow> d),
         t_squeez := (\<lambda>i. t_squeez tab i \<or> sflag \<and> i \<in> snd ` set ps)\<rparr>"
proof (induction ps arbitrary: tab)
  case (Cons p ps)
  let ?t = "tab_upd sflag p tab"
  have c: "(\<lambda>i. case map_of (rev ps) i of None \<Rightarrow> t_code ?t i | Some d \<Rightarrow> d) =
    (\<lambda>i. case map_of (rev (p # ps)) i of None \<Rightarrow> t_code tab i | Some d \<Rightarrow> d)"
    by (cases p) (auto simp: tab_upd_def fun_eq_iff map_add_def split: option.splits)
  have q: "(\<lambda>i. t_squeez ?t i \<or> sflag \<and> i \<in> snd ` set ps) = (\<lambda>i. t_squeez tab i \<or> sflag \<and> i \<in> snd ` set (p # ps))"
    by (auto simp: tab_upd_def)
  have "fold (tab_upd sflag) (p # ps) tab = fold (tab_upd sflag) ps ?t" by simp
  also have "\<dots> = ?t\<lparr>t_code := (\<lambda>i. case map_of (rev ps) i of None \<Rightarrow> t_code ?t i | Some d \<Rightarrow> d),
      t_squeez := (\<lambda>i. t_squeez ?t i \<or> sflag \<and> i \<in> snd ` set ps)\<rparr>" by (rule Cons.IH)
  also have "\<dots> = tab\<lparr>t_code := (\<lambda>i. case map_of (rev (p # ps)) i of None \<Rightarrow> t_code tab i | Some d \<Rightarrow> d),
      t_squeez := (\<lambda>i. t_squeez tab i \<or> sflag \<and> i \<in> snd ` set (p # ps))\<rparr>" unfolding c q by (simp add: tab_upd_def)
  finally show ?case .
qed simp

text \<open>The characters the first string stands for, with \<open>-c\<close> those it does not contain, in the order of their codes.\<close>

definition tr_dom :: "bool \<Rightarrow> int list \<Rightarrow> int list" where
  "tr_dom cflag xs = (if cflag then filter (\<lambda>i. i \<notin> set xs) [1..255] else xs)"

definition tr_map :: "bool \<Rightarrow> bool \<Rightarrow> int list \<Rightarrow> int list \<Rightarrow> int \<Rightarrow> int option" where
  "tr_map cflag dflag xs ys i =
     (case map_of (rev (tr_pairs (tr_dom cflag xs) ys)) i of None \<Rightarrow> Some i | Some d \<Rightarrow> if dflag then None else Some d)"

text \<open>
  The characters of which runs are squeezed: those of the second string, and those by which a shorter second string is continued.
\<close>

definition tr_squeezed :: "bool \<Rightarrow> int list \<Rightarrow> int list \<Rightarrow> int set" where
  "tr_squeezed cflag xs ys = set ys \<union> set (drop (length ys) (tr_dom cflag xs))"

lemma tr_squeezed_pairs: "tr_squeezed cflag xs ys = snd ` set (tr_pairs (tr_dom cflag xs) ys) \<union> set ys"
proof -
  let ?x = "tr_dom cflag xs"
  have "snd ` set (tr_pairs ?x ys) = set (take (length ?x) (ys @ drop (length ys) ?x))"
    by (simp add: tr_pairs_def map_snd_zip_take flip: set_map)
  also have "\<dots> = set (take (length ?x) ys) \<union> set (drop (length ys) ?x)" by (cases "length ys \<le> length ?x") auto
  finally show ?thesis using set_take_subset [of "length ?x" ys] by (auto simp: tr_squeezed_def)
qed

lemma tr_first_view:
  assumes "list_all item_ok i1" "list_all item_ok i2" "b_s1 b = str_init SV (render_items i1)" "b_s2 b = str_init SV (render_items i2)"
  shows "\<exists>b'. tr_first SV lc cflag sflag b = Inr b' \<and>
    b_tab b' = fold (tab_upd sflag) (tr_pairs (tr_dom cflag (expand_items i1)) (expand_items i2)) (b_tab b) \<and>
    s_view (b_s2 b') (drop (length (tr_dom cflag (expand_items i1))) (expand_items i2))"
proof -
  have v: "s_view (b_s1 b) (expand_items i1)" "s_view (b_s2 b) (expand_items i2)"
    using str_init_view assms by metis+
  have r: "\<forall>c\<in>set (expand_items i1). c < 256" "\<forall>c\<in>set (expand_items i2). c < 256"
    using expand_items_range assms(1,2) by blast+
  show ?thesis
  proof (cases cflag)
    case False
    then show ?thesis using tr_loop_view [OF v r] by (simp add: tr_first_def tr_dom_def)
  next
    case True
    have e: "map (\<lambda>i. int i + tr_nil SV + 1) [0..<nat (ccnt - tr_nil SV - 1)] = [1..255]"
    proof (rule nth_equalityI)
      show "length (map (\<lambda>i. int i + tr_nil SV + 1) [0..<nat (ccnt - tr_nil SV - 1)]) = length [1..255]" by (simp add: tr_nil_def)
    qed (simp add: tr_nil_def)
    let ?cs = "tr_dom cflag (expand_items i1)"
    have cs: "?cs = filter (\<lambda>i. i \<notin> set (expand_items i1)) [1..255]" using True by (simp add: tr_dom_def)
    have len: "length ?cs < 256"
      unfolding cs using length_filter_le [of "\<lambda>i. i \<notin> set (expand_items i1)" "[1..255]"] by simp
    obtain s1 where s1: "tr_vect SV lc (b_s1 b) [] = Inr (rev (expand_items i1), s1)" "s_tp s1 = TpN"
      using tr_vect_view [OF v(1), of lc "[]"] by auto
    have "tr_first SV lc cflag sflag b = tr_compl SV lc sflag ?cs (b\<lparr>b_s1 := s1\<rparr>)"
      unfolding tr_first_def e using True s1(1) len by (simp add: Let_def flip: cs)
    moreover have "\<forall>c\<in>set ?cs. c < 256" unfolding cs by simp
    ultimately show ?thesis using tr_compl_view [of "b\<lparr>b_s1 := s1\<rparr>" "expand_items i2" ?cs lc sflag] v(2) r(2) s1(2) by simp
  qed
qed

lemma tr_dom_range: "list_all item_ok is \<Longrightarrow> x \<in> set (tr_dom cflag (expand_items is)) \<Longrightarrow> 0 < x \<and> x < 256"
  using expand_items_range [of "is" x] by (auto simp: tr_dom_def split: if_splits)

lemma tr_pairs_snd: "(c, d) \<in> set (tr_pairs xs ys) \<Longrightarrow> d \<in> set xs \<union> set ys"
  unfolding tr_pairs_def by (metis Un_iff in_set_dropD set_append set_zip_rightD)

lemma tr_pairs_nonzero:
  assumes "list_all item_ok i1" "list_all item_ok i2" "(c, d) \<in> set (tr_pairs (tr_dom cflag (expand_items i1)) (expand_items i2))"
  shows "d \<noteq> 0"
  using tr_pairs_snd [OF assms(3)] tr_dom_range [OF assms(1)] expand_items_range [OF assms(2)] by blast

lemma tr_squeezed_nonzero:
  "list_all item_ok i1 \<Longrightarrow> list_all item_ok i2 \<Longrightarrow> 0 \<notin> tr_squeezed cflag (expand_items i1) (expand_items i2)"
  using tr_pairs_nonzero expand_items_range [of i2 0] by (auto simp: tr_squeezed_pairs)

lemma tr_map_nonzero:
  assumes "list_all item_ok i1" "list_all item_ok i2" "tr_map cflag dflag (expand_items i1) (expand_items i2) i = Some d" "i \<noteq> 0"
  shows "d \<noteq> 0"
  using assms(3,4) tr_pairs_nonzero [OF assms(1,2), of i d cflag]
  by (auto simp: tr_map_def split: option.splits if_splits dest!: map_of_SomeD)

lemma map_filter_cong: "(\<And>x. x \<in> set xs \<Longrightarrow> f x = g x) \<Longrightarrow> List.map_filter f xs = List.map_filter g xs"
  by (induction xs) (simp_all add: map_filter_simps split: option.splits)

lemma tr_pairs_rest: "snd ` set (tr_pairs xs ys) \<union> set (drop (length xs) ys) = snd ` set (tr_pairs xs ys) \<union> set ys"
proof -
  have "take (length xs) ys = take (length ys) (map snd (tr_pairs xs ys))"
    by (simp add: tr_pairs_def map_snd_zip_take min_def)
  then have "set (take (length xs) ys) \<subseteq> snd ` set (tr_pairs xs ys)" by (metis list.set_map set_take_subset)
  moreover have "set ys = set (take (length xs) ys) \<union> set (drop (length xs) ys)" by (metis append_take_drop_id set_append)
  ultimately show ?thesis by auto
qed

lemma cmple_view:
  assumes "list_all item_ok i1" "list_all item_ok i2"
  obtains tab where "cmple SV lc cflag dflag sflag (render_items i1) (render_items i2) = Inr tab"
    "\<forall>i. t_code tab i = (case tr_map cflag dflag (expand_items i1) (expand_items i2) i of None \<Rightarrow> 0 | Some d \<Rightarrow> d)"
    "\<forall>i. t_squeez tab i = (sflag \<and> i \<in> tr_squeezed cflag (expand_items i1) (expand_items i2))"
proof -
  let ?x = "tr_dom cflag (expand_items i1)" and ?y = "expand_items i2"
  let ?b = "\<lparr>b_s1 = str_init SV (render_items i1), b_s2 = str_init SV (render_items i2), b_lastd = 0,
    b_tab = \<lparr>t_code = (\<lambda>i. 0), t_squeez = (\<lambda>i. False)\<rparr>\<rparr>"
  obtain b where b: "tr_first SV lc cflag sflag ?b = Inr b" "b_tab b = fold (tab_upd sflag) (tr_pairs ?x ?y) (b_tab ?b)"
    "s_view (b_s2 b) (drop (length ?x) ?y)"
    using tr_first_view [OF assms, of ?b lc cflag sflag] by auto
  let ?tab = "\<lparr>t_code = (\<lambda>i. case map_of (rev (tr_pairs ?x ?y)) i of None \<Rightarrow> i | Some d \<Rightarrow> if dflag then 0 else d),
    t_squeez = (\<lambda>i. sflag \<and> i \<in> tr_squeezed cflag (expand_items i1) ?y)\<rparr>"
  have nz: "d \<noteq> 0" if "map_of (rev (tr_pairs ?x ?y)) i = Some d" for i d
    using tr_pairs_nonzero [OF assms] map_of_SomeD [OF that] by simp
  let ?code = "\<lambda>i. case map_of (rev (tr_pairs ?x ?y)) i of None \<Rightarrow> 0 | Some d \<Rightarrow> d"
  have code: "(\<lambda>i. if ?code i = 0 then i else if dflag then 0 else ?code i) = t_code ?tab"
    using nz by (auto split: option.splits)
  have sq: "(sflag \<and> i \<in> snd ` set (tr_pairs ?x ?y) \<or> sflag \<and> i \<in> set (drop (length ?x) ?y)) = t_squeez ?tab i" for i
    using tr_pairs_rest [of ?x ?y] by (auto simp: tr_squeezed_pairs)
  have "b_tab b = \<lparr>t_code = ?code, t_squeez = (\<lambda>i. sflag \<and> i \<in> snd ` set (tr_pairs ?x ?y))\<rparr>"
    by (simp add: b(2) fold_tab_upd cong: option.case_cong)
  with tr_rest_view [OF b(3), of lc sflag "b_tab b"] sq
  have "tr_rest SV lc sflag (b_s2 b) (b_tab b) = Inr \<lparr>t_code = ?code, t_squeez = t_squeez ?tab\<rparr>" by simp
  then have "cmple SV lc cflag dflag sflag (render_items i1) (render_items i2) =
    Inr \<lparr>t_code = (\<lambda>i. if ?code i = 0 then i else if dflag then 0 else ?code i), t_squeez = t_squeez ?tab\<rparr>"
    using b(1) by (simp add: cmple_def tr_nil_def cong: if_cong)
  also have "\<dots> = Inr ?tab" unfolding code by simp
  finally have "cmple SV lc cflag dflag sflag (render_items i1) (render_items i2) = Inr ?tab" .
  then show ?thesis by (rule that) (auto simp: tr_map_def split: option.splits)
qed

section \<open>The output\<close>

text \<open>Runs of the same character of a set are reduced to one.\<close>

fun squeeze :: "int set \<Rightarrow> int list \<Rightarrow> int list" where
  "squeeze S (x # y # xs) = (if x = y \<and> x \<in> S then squeeze S (x # xs) else x # squeeze S (y # xs))"
| "squeeze S xs = xs"

definition tr_text :: "bool \<Rightarrow> bool \<Rightarrow> bool \<Rightarrow> int list \<Rightarrow> int list \<Rightarrow> string \<Rightarrow> string" where
  "tr_text cflag dflag sflag xs ys text' =
     map to_char (squeeze (if sflag then tr_squeezed cflag xs ys else {})
       (List.map_filter (tr_map cflag dflag xs ys) (map uchar (filter (\<lambda>c. c \<noteq> NUL) text'))))"

lemma squeeze_hd: "squeeze S (x # xs) = x # tl (squeeze S (x # xs))"
  by (induction S "x # xs" arbitrary: xs rule: squeeze.induct) auto

lemma squeeze_first: "x \<notin> S \<Longrightarrow> squeeze S (x # xs) = x # squeeze S xs"
  by (cases xs) auto

lemma tr_chars_squeeze:
  assumes "\<And>i. m i = (if t_code tab i = 0 then None else Some (t_code tab i))" "S = {c. sflag \<and> t_squeez tab c}"
  shows "snd (fold (tr_char SV sflag tab) cs (save, w)) =
    w @ map to_char (tl (squeeze S (save # List.map_filter m (map uchar (filter (\<lambda>c. c \<noteq> NUL) cs)))))"
proof (induction cs arbitrary: save w)
  case (Cons c cs)
  let ?m = "List.map_filter m (map uchar (filter (\<lambda>c. c \<noteq> NUL) cs))" and ?d = "t_code tab (uchar c)"
  have z: "uchar c = 0 \<longleftrightarrow> c = NUL" using uchar_pos [of c] by (cases "c = NUL") (simp_all add: uchar_def)
  have step: "tr_char SV sflag tab c (save, w) =
    (if c \<noteq> NUL \<and> ?d \<noteq> 0 \<and> \<not> (?d = save \<and> ?d \<in> S) then (?d, w @ [to_char ?d]) else (save, w))"
    using z by (auto simp: tr_char_def tr_nil_def Let_def assms(2))
  have m: "List.map_filter m (map uchar (filter (\<lambda>c. c \<noteq> NUL) (c # cs))) = (if c \<noteq> NUL \<and> ?d \<noteq> 0 then ?d # ?m else ?m)"
    by (simp add: assms(1) map_filter_simps)
  have "map to_char (squeeze S (?d # ?m)) = to_char ?d # map to_char (tl (squeeze S (?d # ?m)))" by (subst squeeze_hd) simp
  then show ?case unfolding m fold_simps step using Cons.IH by auto
qed (simp add: map_filter_simps)

lemma tr_opts_letters:
  "set ls \<subseteq> set ''cds'' \<Longrightarrow> tr_opts (map (\<lambda>c. (uchar c, None, [])) ls) (c, d, s) =
     (c \<or> CHR ''c'' \<in> set ls, d \<or> CHR ''d'' \<in> set ls, s \<or> CHR ''s'' \<in> set ls)"
  by (induction ls arbitrary: c d s) (auto simp: uchar_def)

lemma tr_main_text:
  assumes "set ls \<subseteq> set ''cds''" "list_all item_ok i1" "list_all item_ok i2"
    and "operands_ok [render_items i1, render_items i2]" "fd_good stdin"
  shows "tr_main SV lc stdin (prog # render (map (\<lambda>c. Opt c None) ls) @ [render_items i1, render_items i2]) =
    TrExit \<lparr>out = tr_text (CHR ''c'' \<in> set ls) (CHR ''d'' \<in> set ls) (CHR ''s'' \<in> set ls) (expand_items i1) (expand_items i2) (fd_rest stdin),
            err = [], status = 0\<rparr>"
proof -
  let ?opts = "map (\<lambda>c. Opt c None) ls" and ?as = "[render_items i1, render_items i2]"
  let ?c = "CHR ''c'' \<in> set ls" and ?d = "CHR ''d'' \<in> set ls" and ?s = "CHR ''s'' \<in> set ls"
  let ?m = "tr_map ?c ?d (expand_items i1) (expand_items i2)"
  have r: "list_all (renderable (opt_letters '':cCds'')) ?opts"
    using assms(1) by (induction ls) (auto simp: opt_letters_def has_colon_def)
  obtain evs ost where g: "getopt_all True None (prog # render ?opts @ ?as) '':cCds'' optst_init = (evs, ost)" by fastforce
  with getopt_all_render [OF r assms(4), where e = True and l = None and prog = prog]
  have evs: "evs = map (\<lambda>c. (uchar c, None, [])) ls" and ops: "drop (optind ost) (prog # render ?opts @ ?as) = ?as"
    by (simp_all add: comp_def)
  obtain tab where tab: "cmple SV lc ?c ?d ?s (render_items i1) (render_items i2) = Inr tab"
    "\<forall>i. t_code tab i = (case ?m i of None \<Rightarrow> 0 | Some d \<Rightarrow> d)"
    "\<forall>i. t_squeez tab i = (?s \<and> i \<in> tr_squeezed ?c (expand_items i1) (expand_items i2))"
    by (rule cmple_view [OF assms(2,3)])
  let ?S = "if ?s then tr_squeezed ?c (expand_items i1) (expand_items i2) else {}"
  let ?t = "map uchar (filter (\<lambda>c. c \<noteq> NUL) (fd_rest stdin))"
  let ?f = "\<lambda>i. if t_code tab i = 0 then None else Some (t_code tab i)"
  have "List.map_filter ?f ?t = List.map_filter ?m ?t"
  proof (rule map_filter_cong)
    fix i assume "i \<in> set ?t"
    then obtain c where "c \<noteq> NUL" "i = uchar c" by auto
    then have "i \<noteq> 0" using uchar_pos [of c] by simp
    with tr_map_nonzero [OF assms(2,3)] show "?f i = ?m i" unfolding tab(2) [rule_format] by (cases "?m i") auto
  qed
  with tr_chars_squeeze [where m = ?f and S = ?S and save = 0 and w = "[]" and cs = "fd_rest stdin" and tab = tab and sflag = ?s]
  have "snd (fold (tr_char SV ?s tab) (fd_rest stdin) (0, [])) =
    tr_text ?c ?d ?s (expand_items i1) (expand_items i2) (fd_rest stdin)"
    using tab(3) tr_squeezed_nonzero [OF assms(2,3)] by (simp add: tr_text_def squeeze_first)
  then show ?thesis
    unfolding tr_main_def g prod.case evs tr_opts_letters [OF assms(1)] ops
    using tab(1) assms(5) by (simp add: ibc.loop_fold tr_nil_def)
qed

text \<open>
  (C38) \<open>tr\<close> in the System V variant, from the command line to the output.  For any of \<open>-c\<close>, \<open>-d\<close> and \<open>-s\<close> and two strings made of characters, octal
  escapes, ranges \<open>[a-b]\<close> and repetitions \<open>[a*n]\<close>, in a single-byte locale, the output is the input translated as follows: null characters are dropped;
  the n-th character of the first string, or of the complement with \<open>-c\<close>, becomes the n-th of the second one, which is continued with the first one
  if it is shorter; the last entry for a character counts; with \<open>-d\<close> the characters are deleted instead; with \<open>-s\<close> runs of
  characters of the second string, and of the characters of the first one (or its complement) that continue it, are then reduced to one.  It depends neither on how the strings are spelled nor on how the input is split into reads.
\<close>

theorem tr_output:
  assumes "set ls \<subseteq> set ''cds''" "list_all item_ok i1" "list_all item_ok i2"
    and "operands_ok [render_items i1, render_items i2]" "fd_good stdin"
  shows "tr_main SV lc stdin (prog # render (map (\<lambda>c. Opt c None) ls) @ [render_items i1, render_items i2]) =
    TrExit \<lparr>out = tr_text (CHR ''c'' \<in> set ls) (CHR ''d'' \<in> set ls) (CHR ''s'' \<in> set ls) (expand_items i1) (expand_items i2) (fd_rest stdin),
            err = [], status = 0\<rparr>"
  using assms by (rule tr_main_text)

text \<open>The classes of letters and the case conversions of ASCII.\<close>

definition tr_ascii :: trloc where
  "tr_ascii =
     \<lparr>tl_wctype = (\<lambda>n. if n = ''upper'' then Some (\<lambda>c. 65 \<le> c \<and> c \<le> 90) else if n = ''lower'' then Some (\<lambda>c. 97 \<le> c \<and> c \<le> 122) else None),
      tl_btowc = (\<lambda>c. if 0 \<le> c \<and> c < 128 then c else eof), tl_wctob = (\<lambda>c. if 0 \<le> c \<and> c < 128 then c else eof),
      tl_towlower = (\<lambda>c. if 65 \<le> c \<and> c \<le> 90 then c + 32 else c), tl_towupper = (\<lambda>c. if 97 \<le> c \<and> c \<le> 122 then c - 32 else c),
      tl_iswlower = (\<lambda>c. 97 \<le> c \<and> c \<le> 122), tl_iswupper = (\<lambda>c. 65 \<le> c \<and> c \<le> 90)\<rparr>"

definition tr_stdin :: fdesc where
  "tr_stdin = (mk_fd (''aabcca'' @ [NL]))\<lparr>fd_evs := [RShort 1, RShort 2]\<rparr>"

theorem tr_output_witness:
  "tr_main SV tr_ascii tr_stdin [''tr'', ''-s'', ''[a-c]'', ''[x*2]''] = TrExit \<lparr>out = ''xcx'' @ [NL], err = [], status = 0\<rparr>"
proof -
  let ?i1 = "[Rng (Plain CHR ''a'') (Plain CHR ''c'')]" and ?i2 = "[Rpt (Plain CHR ''x'') 2]"
  have d: "decimal 2 = ''2''" by (simp add: decimal.simps)
  have c: "char_of (120 :: nat) = CHR ''x''" "char_of (99 :: nat) = CHR ''c''" "char_of (10 :: nat) = NL" by code_simp+
  have r: "render_items ?i1 = ''[a-c]''" "render_items ?i2 = ''[x*2]''" by (simp_all add: render_items_def d)
  have x: "expand_items ?i1 = [97, 98, 99]" "expand_items ?i2 = [120, 120]"
    by (simp_all add: expand_items_def uchar_def upto_rec1 numeral_2_eq_2)
  have f: "fd_rest tr_stdin = ''aabcca'' @ [NL]" "fd_good tr_stdin" by (simp_all add: tr_stdin_def mk_fd_def fd_rest_def fd_good_def)
  have "tr_main SV tr_ascii tr_stdin (''tr'' # render (map (\<lambda>c. Opt c None) ''s'') @ [render_items ?i1, render_items ?i2]) =
    TrExit \<lparr>out = tr_text (CHR ''c'' \<in> set ''s'') (CHR ''d'' \<in> set ''s'') (CHR ''s'' \<in> set ''s'') (expand_items ?i1) (expand_items ?i2) (fd_rest tr_stdin),
            err = [], status = 0\<rparr>"
    by (rule tr_output) (simp_all add: f(2) r operands_ok_def chr_first_def uchar_def)
  also have "tr_text (CHR ''c'' \<in> set ''s'') (CHR ''d'' \<in> set ''s'') (CHR ''s'' \<in> set ''s'') (expand_items ?i1) (expand_items ?i2) (fd_rest tr_stdin) =
    ''xcx'' @ [NL]"
    unfolding x f(1)
    using c by (simp add: tr_text_def tr_map_def tr_dom_def tr_pairs_def tr_squeezed_def map_filter_simps uchar_def to_char_def)
  finally show ?thesis by (simp add: r)
qed

text \<open>
  The manual page has \<open>-s\<close> squeeze the characters of the second string only; a character of the first string for which the second one is too
  short is squeezed as well: with \<open>tr -s ab x\<close> the input \<open>bb\<close> becomes \<open>b\<close>.
\<close>

lemma tr_squeezes_first:
  "tr_main SV lc (mk_fd ''bb'') [''tr'', ''-s'', ''ab'', ''x''] = TrExit \<lparr>out = ''b'', err = [], status = 0\<rparr>"
proof -
  let ?i1 = "[Lit (Plain CHR ''a''), Lit (Plain CHR ''b'')]" and ?i2 = "[Lit (Plain CHR ''x'')]"
  have "tr_main SV lc (mk_fd ''bb'') (''tr'' # render (map (\<lambda>c. Opt c None) ''s'') @ [render_items ?i1, render_items ?i2]) =
    TrExit \<lparr>out = tr_text (CHR ''c'' \<in> set ''s'') (CHR ''d'' \<in> set ''s'') (CHR ''s'' \<in> set ''s'') (expand_items ?i1) (expand_items ?i2)
      (fd_rest (mk_fd ''bb'')), err = [], status = 0\<rparr>"
    by (rule tr_main_text) (simp_all add: render_items_def operands_ok_def chr_first_def uchar_def)
  moreover have "char_of (98 :: nat) = CHR ''b''" by code_simp
  ultimately show ?thesis
    by (simp add: render_items_def expand_items_def tr_text_def tr_map_def tr_dom_def tr_pairs_def tr_squeezed_def map_filter_simps
        uchar_def to_char_def)
qed

text \<open>An equivalence class cut off behind its character makes \<open>next\<close> read through the null pointer.\<close>

lemma tr_equiv_crash: "tr_main SV tr_ascii (mk_fd []) [''tr'', ''[='', ''x''] = TrCrash"
  by code_simp

text \<open>In the \<open>SUS\<close> variant the complement of the empty string has an element for each place of \<open>vect\<close>, and \<open>NIL\<close> is stored behind it.\<close>

lemma tr_complement_crash: "tr_main SUS tr_ascii (mk_fd []) [''tr'', ''-c'', [], ''x''] = TrCrash"
  by code_simp

text \<open>A conversion to lower case in the \<open>SUS\<close> variant.\<close>

lemma tr_lower:
  "tr_main SUS tr_ascii (mk_fd ''Ab-C'') [''tr'', ''[:upper:]'', ''[:lower:]''] = TrExit \<lparr>out = ''ab-c'', err = [], status = 0\<rparr>"
  by code_simp

end
