(* ===== verification/Diffcore.thy ===== *)
theory Diffcore
  imports Stdio "HOL-Library.Multiset"
begin

text \<open>
  The algorithm of \<open>diff/diffreg.c\<close> for single-byte locales: hashing of the lines (\<open>readhash\<close>, \<open>prepare\<close>), pruning of the common
  beginning and end (\<open>prune\<close>), Shell's sort (\<open>sort\<close>), the equivalence classes (\<open>equiv\<close>, \<open>unsort\<close>), the \<open>k\<close>-candidates of Hunt and McIlroy
  (\<open>stone\<close>, \<open>search\<close>, \<open>newcand\<close>) and the vector \<open>J\<close> of matching lines (\<open>unravel\<close>).  Arrays of lines and of classes are lists of which the element
  with the index 0 is not used, as in the program; \<open>klist\<close> and \<open>J\<close> are functions of the index.  The program lays some arrays over others that are no
  longer read; here they are separate.
\<close>

section \<open>Hashing\<close>

record difffl =
  d_b :: bool
  d_w :: bool
  d_i :: bool
  d_isspace :: "char \<Rightarrow> bool"
  d_tolower :: "int \<Rightarrow> int"

text \<open>\<open>chrtran\<close>\<close>

definition chrtran :: "difffl \<Rightarrow> int \<Rightarrow> int" where
  "chrtran fl c = (if d_i fl then d_tolower fl c else c)"

text \<open>The sum is an \<open>int32_t\<close>, with the wrap-around of the machine.\<close>

definition wrap32 :: "int \<Rightarrow> int" where
  "wrap32 x = (x + 2 ^ 31) mod 2 ^ 32 - 2 ^ 31"

definition wrap16 :: "int \<Rightarrow> int" where
  "wrap16 x = (x + 2 ^ 15) mod 2 ^ 16 - 2 ^ 15"

definition fold_sum :: "int \<Rightarrow> int" where
  "fold_sum sum0 = (let s = sum0 mod 2 ^ 16 + sum0 div 2 ^ 16 in wrap16 (s mod 2 ^ 16) + wrap16 (s div 2 ^ 16))"

definition add_char :: "difffl \<Rightarrow> nat \<Rightarrow> int \<Rightarrow> char \<Rightarrow> int" where
  "add_char fl shift sum0 c = wrap32 (sum0 + chrtran fl (uchar c) * 2 ^ shift)"

text \<open>
  \<open>readhash\<close>: the hash of the next line, 0 at the end of the file; the rest of the file; and whether the newline was missing.
\<close>

fun rh_plain :: "difffl \<Rightarrow> nat \<Rightarrow> int \<Rightarrow> bool \<Rightarrow> string \<Rightarrow> int \<times> string \<times> bool" where
  "rh_plain fl shift sum0 content [] = (if content then (fold_sum sum0, [], True) else (0, [], False))"
| "rh_plain fl shift sum0 content (c # s) =
     (if c = NL then (fold_sum sum0, s, False)
      else rh_plain fl (shift mod 16 + 7) (add_char fl (shift mod 16) sum0 c) True s)"

fun rh_blank :: "difffl \<Rightarrow> nat \<Rightarrow> int \<Rightarrow> bool \<Rightarrow> bool \<Rightarrow> string \<Rightarrow> int \<times> string \<times> bool" where
  "rh_blank fl shift sum0 space content [] = (if content then (fold_sum sum0, [], True) else (0, [], False))"
| "rh_blank fl shift sum0 space content (c # s) =
     (if c = NL then (fold_sum sum0, s, False)
      else if d_isspace fl c then rh_blank fl shift sum0 True True s
      else (let sp = space \<and> \<not> d_w fl; shift = (if sp then shift + 7 else shift); space = (if sp then False else space)
            in rh_blank fl (shift mod 16 + 7) (add_char fl (shift mod 16) sum0 c) space True s))"

definition readhash :: "difffl \<Rightarrow> string \<Rightarrow> int \<times> string \<times> bool" where
  "readhash fl s = (if \<not> d_b fl \<and> \<not> d_w fl then rh_plain fl 0 1 False s else rh_blank fl 0 1 False False s)"

lemma rh_plain_length: "rh_plain fl shift sum0 content s = (h, s', w) \<Longrightarrow> length s' \<le> length s \<and> (s \<noteq> [] \<longrightarrow> length s' < length s)"
  by (induction fl shift sum0 content s rule: rh_plain.induct) (fastforce split: if_splits)+

lemma rh_blank_length:
  "rh_blank fl shift sum0 space content s = (h, s', w) \<Longrightarrow> length s' \<le> length s \<and> (s \<noteq> [] \<longrightarrow> length s' < length s)"
  by (induction fl shift sum0 space content s rule: rh_blank.induct) (fastforce simp: Let_def split: if_splits)+

lemma readhash_less: "readhash fl s = (h, s', w) \<Longrightarrow> h \<noteq> 0 \<Longrightarrow> length s' < length s"
  using rh_plain_length [of fl 0 1 False s h s' w] rh_blank_length [of fl 0 1 False False s h s' w]
  by (cases "s = []") (auto simp: readhash_def split: if_splits)

text \<open>\<open>prepare\<close>: the hashes of the lines, up to the first 0, and whether a newline was missing.\<close>

function prepare :: "difffl \<Rightarrow> string \<Rightarrow> int list \<times> bool" where
  "prepare fl s =
     (case readhash fl s of
        (h, s', w) \<Rightarrow> if h = 0 then ([], w) else (case prepare fl s' of (hs, w') \<Rightarrow> (h # hs, w \<or> w')))"
  by pat_completeness auto
termination
  by (relation "measure (\<lambda>(fl, s). length s)") (auto dest!: readhash_less [OF sym])

declare prepare.simps [simp del]

section \<open>Pruning and sorting\<close>

record dline =
  l_serial :: nat
  l_value :: int

text \<open>\<open>prune\<close>: the lengths of the common beginning and of the common end behind it, and the lines between them.\<close>

fun common_len :: "'a list \<Rightarrow> 'a list \<Rightarrow> nat" where
  "common_len (x # xs) (y # ys) = (if x = y then Suc (common_len xs ys) else 0)"
| "common_len _ _ = 0"

definition prune :: "int list \<Rightarrow> int list \<Rightarrow> nat \<times> nat" where
  "prune f0 f1 = (let pref = common_len f0 f1 in (pref, common_len (rev (drop pref f0)) (rev (drop pref f1))))"

definition pruned :: "nat \<Rightarrow> nat \<Rightarrow> int list \<Rightarrow> int list" where
  "pruned pref suff f = take (length f - pref - suff) (drop pref f)"

definition sfile :: "int list \<Rightarrow> dline list" where
  "sfile vs = map (\<lambda>(i, v). \<lparr>l_serial = i, l_value = v\<rparr>) (enumerate 0 (0 # vs))"

text \<open>\<open>sort\<close>, Shell's method.\<close>

definition in_order :: "dline \<Rightarrow> dline \<Rightarrow> bool" where
  "in_order x y \<longleftrightarrow> l_value y > l_value x \<or> l_value y = l_value x \<and> l_serial y > l_serial x"

function sift :: "nat \<Rightarrow> dline list \<Rightarrow> nat \<Rightarrow> dline list" where
  "sift m a i =
     (if i = 0 \<or> m = 0 then a
      else if in_order (a ! i) (a ! (i + m)) then a
      else sift m (a[i := a ! (i + m), i + m := a ! i]) (i - m))"
  by pat_completeness auto
termination
  by (relation "measure (\<lambda>(m, a, i). i)") auto

declare sift.simps [simp del]

definition shell_pass :: "nat \<Rightarrow> nat \<Rightarrow> dline list \<Rightarrow> dline list" where
  "shell_pass n m a = fold (\<lambda>j a. sift m a j) [1..<Suc (n - m)] a"

function shell_loop :: "nat \<Rightarrow> nat \<Rightarrow> dline list \<Rightarrow> dline list" where
  "shell_loop n m a = (if m = 0 then a else shell_loop n (m div 2) (shell_pass n m a))"
  by pat_completeness auto
termination
  by (relation "measure (\<lambda>(n, m, a). m)") auto

declare shell_loop.simps [simp del]

function shell_gap :: "nat \<Rightarrow> nat \<Rightarrow> nat \<Rightarrow> nat" where
  "shell_gap n j m = (if 0 < j \<and> j \<le> n then shell_gap n (j * 2) (2 * j - 1) else m)"
  by pat_completeness auto
termination
  by (relation "measure (\<lambda>(n, j, m). n + 1 - j)") auto

declare shell_gap.simps [simp del]

definition shellsort :: "nat \<Rightarrow> dline list \<Rightarrow> dline list" where
  "shellsort n a = (if n = 0 then a else shell_loop n (shell_gap n 1 0 div 2) a)"

section \<open>Classes and candidates\<close>

text \<open>\<open>equiv\<close>: the values of the first file become indices of classes of the second one, whose members \<open>c\<close> lists.\<close>

function equiv_index :: "dline list \<Rightarrow> nat \<Rightarrow> dline list \<Rightarrow> nat \<Rightarrow> nat \<Rightarrow> nat \<Rightarrow> dline list" where
  "equiv_index a n b m i j =
     (if i \<le> n then
        if j \<le> m then
          if l_value (a ! i) < l_value (b ! j) then equiv_index (a[i := (a ! i)\<lparr>l_value := 0\<rparr>]) n b m (i + 1) j
          else if l_value (a ! i) = l_value (b ! j) then equiv_index (a[i := (a ! i)\<lparr>l_value := int j\<rparr>]) n b m (i + 1) j
          else equiv_index a n b m i (j + 1)
        else equiv_index (a[i := (a ! i)\<lparr>l_value := 0\<rparr>]) n b m (i + 1) j
      else a)"
  by pat_completeness auto
termination
  by (relation "measure (\<lambda>(a, n, b, m, i, j). (n + 1 - i) + (m + 1 - j))") auto

declare equiv_index.simps [simp del]

text \<open>
  The list \<open>member\<close> from the index 1 on: the serial numbers, negated for the first line of a class, and \<open>-1\<close> at the end.  (The value stored behind the
  last line is 0, which no line has.)
\<close>

fun equiv_member :: "bool \<Rightarrow> dline list \<Rightarrow> int list" where
  "equiv_member first (x # xs) =
     (if first then - int (l_serial x) else int (l_serial x)) #
     equiv_member (case xs of [] \<Rightarrow> True | y # _ \<Rightarrow> l_value y \<noteq> l_value x) xs"
| "equiv_member first [] = [-1]"

text \<open>\<open>unsort\<close>\<close>

definition unsort :: "dline list \<Rightarrow> nat \<Rightarrow> nat \<Rightarrow> int" where
  "unsort f l = fold (\<lambda>i a. a(l_serial (f ! i) := l_value (f ! i))) [1..<Suc l] (\<lambda>i. 0)"

text \<open>\<open>struct cand\<close>, \<open>newcand\<close>, \<open>search\<close>\<close>

record cand =
  c_x :: nat
  c_y :: nat
  c_pred :: nat

definition newcand :: "cand list \<Rightarrow> nat \<Rightarrow> nat \<Rightarrow> nat \<Rightarrow> nat \<times> cand list" where
  "newcand clist x y pred = (length clist, clist @ [\<lparr>c_x = x, c_y = y, c_pred = pred\<rparr>])"

function search_loop :: "cand list \<Rightarrow> (nat \<Rightarrow> nat) \<Rightarrow> nat \<Rightarrow> nat \<Rightarrow> nat \<Rightarrow> nat" where
  "search_loop clist c y i j =
     (let l = (i + j) div 2
      in if l \<le> i then l + 1
         else (let t = c_y (clist ! c l)
               in if t > y then search_loop clist c y i l
                  else if t < y then search_loop clist c y l j
                  else l))"
  by pat_completeness auto
termination
  by (relation "measure (\<lambda>(clist, c, y, i, j). j - i)") auto

declare search_loop.simps [simp del]

definition search :: "cand list \<Rightarrow> (nat \<Rightarrow> nat) \<Rightarrow> nat \<Rightarrow> nat \<Rightarrow> nat" where
  "search clist c k y = (if c_y (clist ! c k) < y then k + 1 else search_loop clist c y 0 (k + 1))"

text \<open>
  \<open>stone\<close>.  The state is \<open>k\<close>, \<open>c\<close> and \<open>clist\<close>.  The inner loop runs over the class of a line: \<open>y\<close>, then the elements of \<open>member\<close> that follow, up to the
  first that is not positive.
\<close>

record stonest =
  st_k :: nat
  st_c :: "nat \<Rightarrow> nat"
  st_clist :: "cand list"

definition stone_y :: "nat \<Rightarrow> nat \<Rightarrow> nat \<times> nat \<times> stonest \<Rightarrow> (nat \<times> nat \<times> stonest) \<times> bool" where
  "stone_y i y s =
     (case s of
        (oldl, oldc, st) \<Rightarrow>
          (let k = st_k st; c = st_c st; clist = st_clist st
           in if y \<le> c_y (clist ! oldc) then (s, True)
              else (let l = search clist c k y; oldc = (if l \<noteq> oldl + 1 then c (l - 1) else oldc)
                    in if l \<le> k then
                         if c_y (clist ! c l) \<le> y then ((oldl, oldc, st), True)
                         else (case newcand clist i y oldc of
                                 (p, clist') \<Rightarrow> ((l, c l, st\<lparr>st_c := c(l := p), st_clist := clist'\<rparr>), True))
                       else (case newcand clist i y oldc of
                               (p, clist') \<Rightarrow> ((oldl, oldc, st\<lparr>st_k := k + 1, st_c := c(l := p), st_clist := clist'\<rparr>), False)))))"

fun stone_class :: "nat \<Rightarrow> int \<Rightarrow> int list \<Rightarrow> nat \<times> nat \<times> stonest \<Rightarrow> nat \<times> nat \<times> stonest" where
  "stone_class i y rest s =
     (case stone_y i (nat y) s of
        (s', cont) \<Rightarrow>
          if cont then (case rest of [] \<Rightarrow> s' | y' # rest' \<Rightarrow> if y' > 0 then stone_class i y' rest' s' else s') else s')"

definition stone_line :: "int list \<Rightarrow> nat \<Rightarrow> int \<Rightarrow> stonest \<Rightarrow> stonest" where
  "stone_line member i j st =
     (if j = 0 then st
      else snd (snd (stone_class i (- (member ! nat (j - 1))) (drop (nat j) member) (0, st_c st 0, st))))"

definition stone :: "(nat \<Rightarrow> int) \<Rightarrow> nat \<Rightarrow> int list \<Rightarrow> stonest" where
  "stone class n member =
     (case newcand [] 0 0 0 of
        (p, clist) \<Rightarrow> fold (\<lambda>i. stone_line member i (class i)) [1..<Suc n] \<lparr>st_k = 0, st_c = (\<lambda>i. 0)(0 := p), st_clist = clist\<rparr>)"

text \<open>\<open>unravel\<close>\<close>

partial_function (option) unravel_chain :: "cand list \<Rightarrow> nat \<Rightarrow> nat \<Rightarrow> (nat \<Rightarrow> nat) \<Rightarrow> (nat \<Rightarrow> nat) option" where
  "unravel_chain clist pref p J =
     (let q = clist ! p
      in if c_y q = 0 then Some J else unravel_chain clist pref (c_pred q) (J(c_x q + pref := c_y q + pref)))"

declare unravel_chain.simps [code]

definition unravel :: "nat \<Rightarrow> nat \<Rightarrow> nat \<Rightarrow> nat \<Rightarrow> cand list \<Rightarrow> nat \<Rightarrow> (nat \<Rightarrow> nat) option" where
  "unravel len0 len1 pref suff clist p =
     unravel_chain clist pref p (\<lambda>i. if i \<le> pref then i else if i > len0 - suff then i + len1 - len0 else 0)"

text \<open>The part of \<open>diffreg\<close> that computes \<open>J\<close> from the hashes.\<close>

definition match_lines :: "int list \<Rightarrow> int list \<Rightarrow> (nat \<Rightarrow> nat) option" where
  "match_lines f0 f1 =
     (case prune f0 f1 of
        (pref, suff) \<Rightarrow>
          (let v0 = pruned pref suff f0; v1 = pruned pref suff f1; n = length v0; m = length v1;
               a = shellsort n (sfile v0); b = shellsort m (sfile v1);
               st = stone (unsort (equiv_index a n b m 1 1) n) n (equiv_member True (tl b))
           in unravel (length f0) (length f1) pref suff (st_clist st) (st_c st (st_k st))))"

section \<open>The sort\<close>

definition dle :: "dline \<Rightarrow> dline \<Rightarrow> bool" where
  "dle x y \<longleftrightarrow> \<not> in_order y x"

lemma dle_trans: "dle x y \<Longrightarrow> dle y z \<Longrightarrow> dle x z"
  by (auto simp: dle_def in_order_def)

lemma in_order_dle: "in_order x y \<Longrightarrow> dle x y"
  by (auto simp: dle_def in_order_def)

text \<open>The elements up to \<open>N\<close> are in order, those that come before the element at \<open>q\<close> excepted.\<close>

definition ordered :: "nat \<Rightarrow> nat \<Rightarrow> dline list \<Rightarrow> bool" where
  "ordered N e a \<longleftrightarrow> (\<forall>p q. 1 \<le> p \<longrightarrow> p < q \<longrightarrow> q \<le> N \<longrightarrow> q \<noteq> e \<longrightarrow> dle (a ! p) (a ! q))"

lemma orderedD: "ordered N e a \<Longrightarrow> 1 \<le> p \<Longrightarrow> p < q \<Longrightarrow> q \<le> N \<Longrightarrow> q \<noteq> e \<Longrightarrow> dle (a ! p) (a ! q)"
  by (simp add: ordered_def)

lemma sift_perm:
  assumes "i + m < length a"
  shows "mset (sift m a i) = mset a \<and> length (sift m a i) = length a \<and> sift m a i ! 0 = a ! 0"
  using assms
proof (induction m a i rule: sift.induct)
  case (1 m a i)
  let ?a = "a[i := a ! (i + m), i + m := a ! i]"
  show ?case
  proof (cases "i = 0 \<or> m = 0 \<or> in_order (a ! i) (a ! (i + m))")
    case True
    then show ?thesis by (auto simp: sift.simps [of m a i])
  next
    case False
    with "1.prems" have "mset ?a = mset a" "?a ! 0 = a ! 0" by (simp_all add: mset_swap)
    with False "1.IH" "1.prems" show ?thesis by (simp add: sift.simps [of m a i])
  qed
qed

lemma sift_ordered:
  assumes "ordered N (Suc i) a" "Suc i \<le> N" "N < length a"
  shows "ordered N 0 (sift (Suc 0) a i)"
  using assms
proof (induction "Suc 0" a i rule: sift.induct)
  case (1 a i)
  let ?a = "a[i := a ! Suc i, Suc i := a ! i]"
  consider (zero) "i = 0" | (stop) "i > 0" "in_order (a ! i) (a ! (i + 1))" | (swap) "i > 0" "\<not> in_order (a ! i) (a ! (i + 1))" by blast
  then show ?case
  proof cases
    case zero
    then have "sift (Suc 0) a i = a" by (subst sift.simps) simp
    with zero "1.prems"(1) show ?thesis by (auto simp: ordered_def)
  next
    case stop
    have "dle (a ! p) (a ! q)" if "1 \<le> p" "p < q" "q \<le> N" for p q
    proof (cases "q = Suc i")
      case True
      have d: "dle (a ! i) (a ! Suc i)" using stop(2) in_order_dle by simp
      show ?thesis
      proof (cases "p = i")
        case False
        with that True have "dle (a ! p) (a ! i)" using orderedD [OF "1.prems"(1), of p i] by simp
        with d True dle_trans show ?thesis by blast
      qed (use d True in simp)
    qed (use that orderedD [OF "1.prems"(1)] in simp)
    with stop show ?thesis by (simp add: sift.simps [of "Suc 0" a i] ordered_def)
  next
    case swap
    have le: "dle (a ! (i + 1)) (a ! i)" using swap(2) by (simp add: dle_def)
    have "dle (?a ! p) (?a ! q)" if "1 \<le> p" "p < q" "q \<le> N" "q \<noteq> i" for p q
      using that le "1.prems"(2,3) orderedD [OF "1.prems"(1), of p q] orderedD [OF "1.prems"(1), of p i]
        orderedD [OF "1.prems"(1), of "i + 1" q] orderedD [OF "1.prems"(1), of i q] swap(1)
      by (cases "p = i"; cases "p = i + 1"; cases "q = i + 1") (auto simp: nth_list_update)
    then have "ordered N (Suc (i - 1)) ?a" using swap(1) by (simp add: ordered_def)
    with "1.hyps" [of] swap "1.prems"(2,3) show ?thesis by (simp add: sift.simps [of "Suc 0" a i])
  qed
qed

lemma shell_pass_perm:
  assumes "length a = Suc n"
  shows "mset (shell_pass n m a) = mset a \<and> length (shell_pass n m a) = Suc n \<and> shell_pass n m a ! 0 = a ! 0"
proof -
  have "mset (fold (\<lambda>j a. sift m a j) js a) = mset a \<and> length (fold (\<lambda>j a. sift m a j) js a) = Suc n \<and>
      fold (\<lambda>j a. sift m a j) js a ! 0 = a ! 0" if "\<forall>j\<in>set js. j + m < Suc n" for js
    using that assms
  proof (induction js arbitrary: a)
    case (Cons j js)
    with sift_perm [of j m a] show ?case by simp
  qed simp
  moreover have "\<forall>j\<in>set [1..<Suc (n - m)]. j + m < Suc n" by auto
  ultimately show ?thesis unfolding shell_pass_def by blast
qed

lemma shell_pass_ordered:
  assumes "length a = Suc n"
  shows "ordered n 0 (shell_pass n (Suc 0) a)"
proof -
  have "length (fold (\<lambda>j a. sift (Suc 0) a j) [1..<Suc k] a) = Suc n \<and> ordered (Suc k) 0 (fold (\<lambda>j a. sift (Suc 0) a j) [1..<Suc k] a)"
    if "Suc k \<le> n" for k
    using that
  proof (induction k)
    case 0
    then show ?case using assms by (simp add: ordered_def)
  next
    case (Suc k)
    let ?a = "fold (\<lambda>j a. sift (Suc 0) a j) [1..<Suc k] a"
    have a: "length ?a = Suc n" "ordered (Suc k) 0 ?a" using Suc by simp_all
    have "ordered (Suc (Suc k)) (Suc (Suc k)) ?a" using a(2) by (auto simp: ordered_def le_Suc_eq)
    from sift_ordered [OF this] sift_perm [of "Suc k" "Suc 0" ?a] a(1) Suc.prems show ?case by simp
  qed
  from this [of "n - 1"] show ?thesis
    by (cases "n \<le> 1") (auto simp: shell_pass_def ordered_def)
qed

lemma shell_loop_perm:
  assumes "length a = Suc n"
  shows "mset (shell_loop n m a) = mset a \<and> length (shell_loop n m a) = Suc n \<and> shell_loop n m a ! 0 = a ! 0"
  using assms
proof (induction n m a rule: shell_loop.induct)
  case (1 n m a)
  with shell_pass_perm [OF "1.prems", of m] show ?case by (simp add: shell_loop.simps [of n m a])
qed

lemma shell_loop_ordered:
  assumes "length a = Suc n" "0 < m"
  shows "ordered n 0 (shell_loop n m a)"
  using assms
proof (induction n m a rule: shell_loop.induct)
  case (1 n m a)
  have len: "length (shell_pass n m a) = Suc n" using shell_pass_perm [OF "1.prems"(1)] by blast
  show ?case
  proof (cases "m = 1")
    case True
    then have "shell_loop n m a = shell_pass n (Suc 0) a" by (subst shell_loop.simps, subst shell_loop.simps) simp
    with shell_pass_ordered [OF "1.prems"(1)] show ?thesis by simp
  next
    case False
    with "1.prems"(2) have "0 < m div 2" by simp
    with "1.IH" len "1.prems"(2) show ?thesis by (simp add: shell_loop.simps [of n m a])
  qed
qed

lemma shell_gap_ge: "m < 2 * j \<Longrightarrow> m \<le> shell_gap n j m"
proof (induction n j m rule: shell_gap.induct)
  case (1 n j m)
  show ?case
  proof (cases "j \<le> n")
    case True
    with 1 have "2 * j - 1 \<le> shell_gap n (j * 2) (2 * j - 1)" by simp
    with True 1(2) show ?thesis by (subst shell_gap.simps) simp
  qed (simp add: shell_gap.simps [of n j m])
qed

text \<open>\<open>sort\<close> puts the lines into the order of their values, equal ones into that of their numbers.\<close>

lemma shellsort_sorts:
  assumes "length a = Suc n"
  shows "mset (shellsort n a) = mset a" "length (shellsort n a) = Suc n" "shellsort n a ! 0 = a ! 0" "ordered n 0 (shellsort n a)"
proof -
  let ?m = "shell_gap n 1 0 div 2"
  have "ordered n 0 (shellsort n a)"
  proof (cases "n \<le> 1")
    case False
    then have "shell_gap n 1 0 = shell_gap n 4 3" by (subst shell_gap.simps, subst shell_gap.simps) simp
    then have "0 < ?m" using shell_gap_ge [of 3 4 n] by simp
    with shell_loop_ordered [OF assms] False show ?thesis by (simp add: shellsort_def)
  qed (auto simp: ordered_def)
  with shell_loop_perm [OF assms, of ?m] assms
  show "mset (shellsort n a) = mset a" "length (shellsort n a) = Suc n" "shellsort n a ! 0 = a ! 0" "ordered n 0 (shellsort n a)"
    by (simp_all add: shellsort_def)
qed

text \<open>The sorted lines of a file with the values \<open>vs\<close>.\<close>

definition numbered :: "int list \<Rightarrow> dline list" where
  "numbered vs = map (\<lambda>(i, v). \<lparr>l_serial = i, l_value = v\<rparr>) (enumerate 1 vs)"

lemma sfile_numbered: "sfile vs = \<lparr>l_serial = 0, l_value = 0\<rparr> # numbered vs"
  by (simp add: sfile_def numbered_def)

lemma serials_numbered: "map l_serial (numbered vs) = [1..<Suc (length vs)]"
proof -
  have "map l_serial (numbered vs) = map fst (enumerate 1 vs)" by (simp add: numbered_def comp_def case_prod_beta)
  then show ?thesis unfolding map_fst_enumerate by simp
qed

lemma in_numbered: "x \<in> set (numbered vs) \<longleftrightarrow> 1 \<le> l_serial x \<and> l_serial x \<le> length vs \<and> l_value x = vs ! (l_serial x - 1)"
proof -
  have "x \<in> set (numbered vs) \<longleftrightarrow> (l_serial x, l_value x) \<in> set (enumerate 1 vs)"
    by (cases x) (force simp: numbered_def)
  then show ?thesis by (auto simp: in_set_enumerate_eq)
qed

lemma sorted_file:
  obtains b where "shellsort (length vs) (sfile vs) = \<lparr>l_serial = 0, l_value = 0\<rparr> # b" "mset b = mset (numbered vs)"
    "sorted_wrt in_order b" "length b = length vs"
proof -
  let ?a = "sfile vs" and ?n = "length vs"
  have len: "length ?a = Suc ?n" by (simp add: sfile_def)
  obtain x b where b: "shellsort ?n ?a = x # b" using shellsort_sorts(2) [OF len] by (cases "shellsort ?n ?a") auto
  have x: "x = \<lparr>l_serial = 0, l_value = 0\<rparr>" using shellsort_sorts(3) [OF len] b by (simp add: sfile_numbered)
  have m: "mset b = mset (numbered vs)" using shellsort_sorts(1) [OF len] b x by (simp add: sfile_numbered)
  have lb: "length b = ?n" using shellsort_sorts(2) [OF len] b by simp
  have "mset (map l_serial b) = mset (map l_serial (numbered vs))" using m by simp
  then have "distinct (map l_serial b)" unfolding serials_numbered by (metis distinct_upt mset_eq_imp_distinct_iff)
  moreover have "dle (b ! p) (b ! q)" if "p < q" "q < length b" for p q
    using orderedD [OF shellsort_sorts(4) [OF len], of "Suc p" "Suc q"] that lb b by simp
  moreover have "dle x y \<Longrightarrow> l_serial x \<noteq> l_serial y \<Longrightarrow> in_order x y" for x y by (auto simp: dle_def in_order_def)
  ultimately have "sorted_wrt in_order b" by (auto simp: sorted_wrt_iff_nth_less distinct_conv_nth)
  with b x m lb show ?thesis by (intro that) auto
qed

section \<open>Classes\<close>

text \<open>The index of the class of a value: of its first line in \<open>b\<close>, or 0.\<close>

definition class_of :: "dline list \<Rightarrow> nat \<Rightarrow> int \<Rightarrow> nat \<Rightarrow> bool" where
  "class_of b m v r \<longleftrightarrow>
     r \<le> m \<and> (\<forall>q. 1 \<le> q \<longrightarrow> q \<le> m \<longrightarrow> l_value (b ! q) = v \<longrightarrow> 0 < r \<and> r \<le> q) \<and> (0 < r \<longrightarrow> l_value (b ! r) = v)"

definition indexed :: "dline list \<Rightarrow> nat \<Rightarrow> dline list \<Rightarrow> nat \<Rightarrow> dline list \<Rightarrow> nat \<Rightarrow> bool" where
  "indexed a n b m a' i \<longleftrightarrow> (\<forall>p. (p < i \<longrightarrow> a' ! p = a ! p) \<and>
    (i \<le> p \<and> p \<le> n \<longrightarrow> (\<exists>r. a' ! p = (a ! p)\<lparr>l_value := int r\<rparr> \<and> class_of b m (l_value (a ! p)) r)))"

lemma indexed_step:
  assumes "indexed (a[i := (a ! i)\<lparr>l_value := v\<rparr>]) n b m a' (i + 1)" "v = int r" "class_of b m (l_value (a ! i)) r" "i \<le> n" "n < length a"
  shows "indexed a n b m a' i"
proof -
  have "(p < i \<longrightarrow> a' ! p = a ! p) \<and>
    (i \<le> p \<and> p \<le> n \<longrightarrow> (\<exists>r. a' ! p = (a ! p)\<lparr>l_value := int r\<rparr> \<and> class_of b m (l_value (a ! p)) r))" for p
    using assms(1) [unfolded indexed_def, rule_format, of p] assms(2-5) by (cases "p = i") (auto simp: nth_list_update)
  then show ?thesis by (simp add: indexed_def)
qed

lemma equiv_index_spec:
  assumes "\<And>p q. i \<le> p \<Longrightarrow> p < q \<Longrightarrow> q \<le> n \<Longrightarrow> l_value (a ! p) \<le> l_value (a ! q)"
    and "\<And>p q. 1 \<le> p \<Longrightarrow> p < q \<Longrightarrow> q \<le> m \<Longrightarrow> l_value (b ! p) \<le> l_value (b ! q)"
    and "n < length a" "1 \<le> j" "\<And>p q. i \<le> p \<Longrightarrow> p \<le> n \<Longrightarrow> 1 \<le> q \<Longrightarrow> q < j \<Longrightarrow> q \<le> m \<Longrightarrow> l_value (b ! q) < l_value (a ! p)"
  shows "indexed a n b m (equiv_index a n b m i j) i"
  using assms
proof (induction a n b m i j rule: equiv_index.induct)
  case (1 a n b m i j)
  let ?u = "\<lambda>r. a[i := (a ! i)\<lparr>l_value := int r\<rparr>]"
  note step = equiv_index.simps [of a n b m i j]
  have prems: "\<And>p q. i + 1 \<le> p \<Longrightarrow> p < q \<Longrightarrow> q \<le> n \<Longrightarrow> l_value (?u r ! p) \<le> l_value (?u r ! q)" "n < length (?u r)"
    "\<And>p q. i + 1 \<le> p \<Longrightarrow> p \<le> n \<Longrightarrow> 1 \<le> q \<Longrightarrow> q < j \<Longrightarrow> q \<le> m \<Longrightarrow> l_value (b ! q) < l_value (?u r ! p)" for r
    using "1.prems"(1,3,5) by simp_all
  have bj: "l_value (b ! j) \<le> l_value (b ! q)" if "j \<le> q" "q \<le> m" for q
    using "1.prems"(2) [of j q] "1.prems"(4) that by (cases "q = j") auto
  have ai: "l_value (a ! i) \<le> l_value (a ! p)" if "i \<le> p" "p \<le> n" for p
    using "1.prems"(1) [of i p] that by (cases "p = i") auto
  have none: "class_of b m (l_value (a ! i)) 0" if "i \<le> n" "j \<le> m \<Longrightarrow> l_value (a ! i) < l_value (b ! j)"
    using that bj "1.prems"(5) [of i] by (auto simp: class_of_def) (metis linorder_not_less order_less_irrefl order_less_le_trans order_trans)
  consider (fin) "n < i" | (out) "i \<le> n" "m < j" | (lt) "i \<le> n" "j \<le> m" "l_value (a ! i) < l_value (b ! j)"
    | (eq) "i \<le> n" "j \<le> m" "l_value (a ! i) = l_value (b ! j)" | (gt) "i \<le> n" "j \<le> m" "l_value (a ! i) > l_value (b ! j)"
    by linarith
  then show ?case
  proof cases
    case fin
    then show ?thesis by (auto simp: step indexed_def)
  next
    case out
    have "indexed a n b m (equiv_index (a[i := (a ! i)\<lparr>l_value := 0\<rparr>]) n b m (i + 1) j) i"
      by (rule indexed_step [OF "1.IH"(4), where r = 0]) (use out prems [of 0] "1.prems" none in auto)
    with out show ?thesis by (simp add: step)
  next
    case lt
    have "indexed a n b m (equiv_index (a[i := (a ! i)\<lparr>l_value := 0\<rparr>]) n b m (i + 1) j) i"
      by (rule indexed_step [OF "1.IH"(1), where r = 0]) (use lt prems [of 0] "1.prems" none in auto)
    with lt show ?thesis by (simp add: step)
  next
    case eq
    then have "class_of b m (l_value (a ! i)) j"
      using "1.prems"(4) "1.prems"(5) [of i] by (auto simp: class_of_def) (metis linorder_not_less order_less_irrefl)
    then have "indexed a n b m (equiv_index (?u j) n b m (i + 1) j) i"
      by (intro indexed_step [OF "1.IH"(2), where r = j]) (use eq prems [of j] "1.prems" in auto)
    with eq show ?thesis by (simp add: step)
  next
    case gt
    have "l_value (b ! q) < l_value (a ! p)" if "i \<le> p" "p \<le> n" "1 \<le> q" "q < j + 1" "q \<le> m" for p q
      using that gt(3) ai [of p] "1.prems"(5) [of p q] by (cases "q = j") auto
    with "1.IH"(3) gt "1.prems" have "indexed a n b m (equiv_index a n b m i (j + 1)) i" by simp
    moreover have "equiv_index a n b m i j = equiv_index a n b m i (j + 1)" using gt by (subst step) simp
    ultimately show ?thesis by simp
  qed
qed

lemma unsort_at:
  assumes "1 \<le> p" "p \<le> l" "\<And>q. 1 \<le> q \<Longrightarrow> q \<le> l \<Longrightarrow> l_serial (f ! q) = l_serial (f ! p) \<Longrightarrow> q = p"
  shows "unsort f l (l_serial (f ! p)) = l_value (f ! p)"
proof -
  let ?g = "\<lambda>i a. a(l_serial (f ! i) := l_value (f ! i))"
  have "[1..<Suc l] = [1..<p] @ p # [Suc p..<Suc l]"
    using assms(1,2) upt_add_eq_append [of 1 p "Suc l - p"] upt_conv_Cons [of p "Suc l"] by simp
  moreover have "fold ?g qs a (l_serial (f ! p)) = a (l_serial (f ! p))" if "\<forall>q\<in>set qs. l_serial (f ! q) \<noteq> l_serial (f ! p)" for qs a
    using that by (induction qs arbitrary: a) auto
  moreover have "l_serial (f ! q) \<noteq> l_serial (f ! p)" if "q \<in> set [Suc p..<Suc l]" for q using assms(1) assms(3) [of q] that by auto
  ultimately show ?thesis by (simp add: unsort_def)
qed

lemma distinct_map_nth_eq: "distinct (map f xs) \<Longrightarrow> f (xs ! i) = f (xs ! j) \<Longrightarrow> i < length xs \<Longrightarrow> j < length xs \<Longrightarrow> i = j"
  by (metis length_map nth_eq_iff_index_eq nth_map)

lemma class_index:
  assumes a: "a = x # a'" "mset a' = mset (numbered v0)" "sorted_wrt in_order a'"
    and b: "b = y # b'" "sorted_wrt in_order b'" "length b' = m"
    and i: "1 \<le> i" "i \<le> length v0"
  obtains r where "unsort (equiv_index a (length v0) b m 1 1) (length v0) i = int r" "class_of b m (v0 ! (i - 1)) r"
proof -
  let ?n = "length v0"
  have len: "length a' = ?n" using mset_eq_length [OF a(2)] by (simp add: numbered_def)
  have srt: "l_value (zs ! p) \<le> l_value (zs ! q)" if "zs = z # zs'" "sorted_wrt in_order zs'" "1 \<le> p" "p < q" "q \<le> length zs'" for zs z zs' p q
    using sorted_wrt_nth_less [OF that(2), of "p - 1" "q - 1"] that by (fastforce simp: in_order_def nth_Cons')
  let ?a = "equiv_index a ?n b m 1 1"
  have ix: "indexed a ?n b m ?a 1"
    by (rule equiv_index_spec) (use srt [OF a(1,3)] srt [OF b(1,2)] len a(1) b(3) in auto)
  have upd: "\<exists>r. ?a ! p = (a ! p)\<lparr>l_value := int r\<rparr> \<and> class_of b m (l_value (a ! p)) r" if "1 \<le> p" "p \<le> ?n" for p
    using ix that unfolding indexed_def by blast
  then have ser: "l_serial (?a ! p) = l_serial (a ! p)" if "1 \<le> p" "p \<le> ?n" for p using that by fastforce
  have "mset (map l_serial a') = mset [1..<Suc ?n]" using a(2) serials_numbered [of v0] by (metis mset_map)
  then have d: "distinct (map l_serial a')" "set (map l_serial a') = set [1..<Suc ?n]"
    using mset_eq_imp_distinct_iff mset_eq_setD distinct_upt by metis+
  have "i \<in> l_serial ` set a'" using d(2) i by auto
  then obtain p' where p': "p' < ?n" "l_serial (a' ! p') = i" using len by (auto simp: in_set_conv_nth)
  let ?p = "Suc p'"
  have "q = ?p" if "1 \<le> q" "q \<le> ?n" "l_serial (?a ! q) = l_serial (?a ! ?p)" for q
  proof -
    have "l_serial (a' ! (q - 1)) = l_serial (a' ! p')" using that ser [of q] ser [of ?p] p'(1) a(1) by (simp add: nth_Cons')
    moreover have "q - 1 < length a'" "p' < length a'" using that p'(1) len by simp_all
    ultimately have "q - 1 = p'" using d(1) by (metis distinct_map_nth_eq)
    with that(1) show ?thesis by simp
  qed
  then have "unsort ?a ?n i = l_value (?a ! ?p)" using unsort_at [of ?p ?n ?a] p' ser [of ?p] a(1) by simp
  moreover obtain r where "?a ! ?p = (a ! ?p)\<lparr>l_value := int r\<rparr>" "class_of b m (l_value (a ! ?p)) r"
    using upd [of ?p] p'(1) by auto
  moreover have "l_value (a ! ?p) = v0 ! (i - 1)" using in_numbered [of "a' ! p'" v0] p' len a(1) mset_eq_setD [OF a(2)] nth_mem [of p' a'] by simp
  ultimately show ?thesis using that by simp
qed

text \<open>The loop of \<open>stone\<close> over a class runs over the numbers of the lines with the value, in ascending order.\<close>

fun stone_ys :: "nat \<Rightarrow> nat list \<Rightarrow> nat \<times> nat \<times> stonest \<Rightarrow> nat \<times> nat \<times> stonest" where
  "stone_ys i [] s = s"
| "stone_ys i (y # ys) s = (case stone_y i y s of (s', cont) \<Rightarrow> if cont then stone_ys i ys s' else s')"

definition lines_with :: "int list \<Rightarrow> int \<Rightarrow> nat list" where
  "lines_with vs v = filter (\<lambda>q. vs ! (q - 1) = v) [1..<Suc (length vs)]"

lemma stone_class_ys: "stone_class i y rest s = stone_ys i (nat y # map nat (takeWhile (\<lambda>y. y > 0) rest)) s"
  by (induction i y rest s rule: stone_class.induct) (subst stone_class.simps, auto split: prod.splits list.splits)

declare stone_class.simps [simp del]

lemma member_tail:
  assumes "\<forall>y\<in>set ys. 0 < l_serial y"
  shows "map nat (takeWhile (\<lambda>y. y > 0) (equiv_member (case ys of [] \<Rightarrow> True | y # _ \<Rightarrow> l_value y \<noteq> v) ys)) =
    map l_serial (takeWhile (\<lambda>x. l_value x = v) ys)"
  using assms by (induction ys) auto

lemma member_app:
  "\<exists>pre. length pre = length xs \<and>
     equiv_member first (xs @ y # ys) = pre @ equiv_member (if xs = [] then first else l_value y \<noteq> l_value (last xs)) (y # ys)"
proof (induction xs arbitrary: first)
  case Nil
  then show ?case by simp
next
  case (Cons x xs)
  let ?f = "case xs @ y # ys of [] \<Rightarrow> True | z # _ \<Rightarrow> l_value z \<noteq> l_value x"
  from Cons.IH [of ?f] obtain pre where "length pre = length xs"
    "equiv_member ?f (xs @ y # ys) = pre @ equiv_member (if xs = [] then ?f else l_value y \<noteq> l_value (last xs)) (y # ys)" by blast
  then show ?case
    by (intro exI [of _ "(if first then - int (l_serial x) else int (l_serial x)) # pre"]) (auto simp del: equiv_member.simps(1) simp: equiv_member.simps(1) [of first])
qed

lemma filter_takeWhile_sorted:
  "sorted_wrt in_order ys \<Longrightarrow> \<forall>y\<in>set ys. v \<le> l_value y \<Longrightarrow> filter (\<lambda>x. l_value x = v) ys = takeWhile (\<lambda>x. l_value x = v) ys"
proof (induction ys)
  case (Cons y ys)
  show ?case
  proof (cases "l_value y = v")
    case False
    with Cons.prems have "\<forall>x\<in>set ys. l_value x \<noteq> v" by (fastforce simp: in_order_def)
    with False show ?thesis by (simp add: filter_empty_conv)
  qed (use Cons in simp)
qed simp

lemma class_lines:
  assumes "mset b = mset (numbered vs)" "sorted_wrt in_order b"
  shows "map l_serial (filter (\<lambda>x. l_value x = v) b) = lines_with vs v"
proof (rule sorted_distinct_set_unique)
  have "sorted_wrt (<) (map l_serial (filter (\<lambda>x. l_value x = v) b))"
    using assms(2) by (induction b) (auto simp: in_order_def)
  then show "sorted (map l_serial (filter (\<lambda>x. l_value x = v) b))" "distinct (map l_serial (filter (\<lambda>x. l_value x = v) b))"
    using strict_sorted_iff by blast+
  show "sorted (lines_with vs v)" "distinct (lines_with vs v)"
    unfolding lines_with_def using sorted_wrt_filter [OF sorted_upt] by (blast, simp)
  have "set b = set (numbered vs)" using mset_eq_setD [OF assms(1)] .
  then have "x \<in> set b \<longleftrightarrow> 1 \<le> l_serial x \<and> l_serial x \<le> length vs \<and> l_value x = vs ! (l_serial x - 1)" for x :: dline by (simp add: in_numbered)
  moreover have "i \<in> l_serial ` {x :: dline. 1 \<le> l_serial x \<and> l_serial x \<le> length vs \<and> l_value x = vs ! (l_serial x - 1) \<and> l_value x = v}"
    if "1 \<le> i" "i \<le> length vs" "vs ! (i - 1) = v" for i
    by (rule image_eqI [where x = "\<lparr>l_serial = i, l_value = v\<rparr>"]) (use that in simp_all)
  ultimately show "set (map l_serial (filter (\<lambda>x. l_value x = v) b)) = set (lines_with vs v)"
    unfolding lines_with_def by (auto simp del: upt_Suc simp: image_iff)
qed

lemma stone_line_class:
  assumes "mset b = mset (numbered vs)" "sorted_wrt in_order b" "class_of (z # b) (length vs) v r"
  shows "stone_line (equiv_member True b) i (int r) st = snd (snd (stone_ys i (lines_with vs v) (0, st_c st 0, st)))"
proof -
  have len: "length b = length vs" using mset_eq_length [OF assms(1)] by (simp add: numbered_def)
  have pos: "0 < l_serial x" if "x \<in> set b" for x using that mset_eq_setD [OF assms(1)] by (simp add: in_numbered)
  show ?thesis
  proof (cases "r = 0")
    case True
    have "l_value (b ! q) \<noteq> v" if "q < length b" for q
      using assms(3) that len True by (auto simp: class_of_def dest!: spec [of _ "Suc q"])
    then have "\<forall>x\<in>set b. l_value x \<noteq> v" by (metis in_set_conv_nth)
    then have "filter (\<lambda>x. l_value x = v) b = []" by (simp add: filter_empty_conv)
    with True class_lines [OF assms(1,2), of v] show ?thesis by (simp add: stone_line_def)
  next
    case False
    then obtain r' where r': "r = Suc r'" "r' < length b" using assms(3) len by (cases r) (auto simp: class_of_def)
    let ?xs = "take r' b" and ?x = "b ! r'" and ?ys = "drop (Suc r') b"
    have b: "b = ?xs @ ?x # ?ys" using r'(2) by (simp add: id_take_nth_drop)
    have x: "l_value ?x = v" using assms(3) r' by (simp add: class_of_def)
    have xs: "l_value y \<noteq> v" if "y \<in> set ?xs" for y
    proof -
      from that obtain q where "q < r'" "y = b ! q" using r'(2) by (auto simp: in_set_conv_nth)
      with assms(3) r' len show ?thesis by (auto simp: class_of_def dest!: spec [of _ "Suc q"])
    qed
    have f: "(if ?xs = [] then True else l_value ?x \<noteq> l_value (last ?xs)) = True" using x xs [of "last ?xs"] last_in_set by auto
    obtain pre where pre: "length pre = r'" "equiv_member True b = pre @ equiv_member True (?x # ?ys)"
      using member_app [of ?xs True ?x ?ys] r'(2) unfolding f b [symmetric] by auto
    have "filter (\<lambda>x. l_value x = v) b = ?x # filter (\<lambda>x. l_value x = v) ?ys"
    proof -
      have "filter (\<lambda>x. l_value x = v) ?xs = []" using xs by (simp add: filter_empty_conv)
      then show ?thesis using x by (subst b) simp
    qed
    also have "filter (\<lambda>x. l_value x = v) ?ys = takeWhile (\<lambda>x. l_value x = v) ?ys"
    proof (rule filter_takeWhile_sorted)
      from assms(2) b have "sorted_wrt in_order (?x # ?ys)" using sorted_wrt_append [of in_order ?xs "?x # ?ys"] by simp
      then show "sorted_wrt in_order ?ys" "\<forall>y\<in>set ?ys. v \<le> l_value y" using x by (auto simp: in_order_def)
    qed
    finally have ys: "lines_with vs v = l_serial ?x # map l_serial (takeWhile (\<lambda>x. l_value x = v) ?ys)"
      using class_lines [OF assms(1,2), of v] by simp
    have "\<forall>y\<in>set ?ys. 0 < l_serial y" using pos in_set_dropD by fast
    from member_tail [OF this, of v] show ?thesis
      unfolding ys using r'(1) pre x by (simp add: stone_line_def stone_class_ys nth_append nat_add_distrib cong: list.case_cong)
  qed
qed

text \<open>With this the candidates are computed line by line from the values.\<close>

definition stone_init :: stonest where
  "stone_init = \<lparr>st_k = 0, st_c = (\<lambda>i. 0), st_clist = [\<lparr>c_x = 0, c_y = 0, c_pred = 0\<rparr>]\<rparr>"

definition stone_step :: "int list \<Rightarrow> int list \<Rightarrow> nat \<Rightarrow> stonest \<Rightarrow> stonest" where
  "stone_step v0 v1 i st = snd (snd (stone_ys i (lines_with v1 (v0 ! (i - 1))) (0, st_c st 0, st)))"

definition candidates :: "int list \<Rightarrow> int list \<Rightarrow> stonest" where
  "candidates v0 v1 = fold (stone_step v0 v1) [1..<Suc (length v0)] stone_init"

lemma match_lines_candidates:
  assumes "prune f0 f1 = (pref, suff)" "st = candidates (pruned pref suff f0) (pruned pref suff f1)"
  shows "match_lines f0 f1 = unravel (length f0) (length f1) pref suff (st_clist st) (st_c st (st_k st))"
proof -
  let ?v0 = "pruned pref suff f0" and ?v1 = "pruned pref suff f1"
  let ?z = "\<lparr>l_serial = 0, l_value = 0\<rparr>"
  obtain a where a: "shellsort (length ?v0) (sfile ?v0) = ?z # a" "mset a = mset (numbered ?v0)" "sorted_wrt in_order a" by (rule sorted_file)
  obtain b where b: "shellsort (length ?v1) (sfile ?v1) = ?z # b" "mset b = mset (numbered ?v1)" "sorted_wrt in_order b" "length b = length ?v1"
    by (rule sorted_file)
  let ?cl = "unsort (equiv_index (?z # a) (length ?v0) (?z # b) (length ?v1) 1 1) (length ?v0)"
  have line: "stone_line (equiv_member True b) i (?cl i) st = stone_step ?v0 ?v1 i st" if i: "1 \<le> i" "i \<le> length ?v0" for i st
  proof -
    obtain r where "?cl i = int r" "class_of (?z # b) (length ?v1) (?v0 ! (i - 1)) r"
      by (rule class_index [OF refl a(2,3) refl b(3,4) i])
    with stone_line_class [OF b(2,3)] show ?thesis by (simp add: stone_step_def)
  qed
  have "stone ?cl (length ?v0) (equiv_member True b) = candidates ?v0 ?v1"
    unfolding stone_def newcand_def candidates_def prod.case
  proof (rule fold_cong)
    show "stone_line (equiv_member True b) i (?cl i) = stone_step ?v0 ?v1 i" if "i \<in> set [1..<Suc (length ?v0)]" for i
      using line [of i] that by (intro ext) auto
  qed (auto simp: stone_init_def)
  then show ?thesis using assms a(1) b(1) by (simp add: match_lines_def Let_def)
qed

end
