(* ===== verification/Difflcs.thy ===== *)
theory Difflcs
  imports Diffcore
begin

text \<open>
  The lines that \<open>diff\<close> finds to be common are a longest common subsequence of the two sequences of hashes.  A matching is a list of pairs
  of line numbers, the last one first.  The candidate for \<open>k\<close> stands for a matching of \<open>k\<close> pairs that ends as early as possible in the
  second file.
\<close>

section \<open>Matchings\<close>

definition before :: "nat \<times> nat \<Rightarrow> nat \<times> nat \<Rightarrow> bool" where
  "before p q \<longleftrightarrow> fst p < fst q \<and> snd p < snd q"

definition matching :: "'a list \<Rightarrow> 'a list \<Rightarrow> (nat \<times> nat) list \<Rightarrow> bool" where
  "matching xs ys ps \<longleftrightarrow> sorted_wrt (\<lambda>p q. before q p) ps \<and>
     (\<forall>(x, y)\<in>set ps. 1 \<le> x \<and> x \<le> length xs \<and> 1 \<le> y \<and> y \<le> length ys \<and> xs ! (x - 1) = ys ! (y - 1))"

lemma matching_Nil [simp]: "matching xs ys []"
  by (simp add: matching_def)

lemma matching_Cons:
  "matching xs ys (p # ps) \<longleftrightarrow> matching xs ys ps \<and> (\<forall>q\<in>set ps. before q p) \<and>
     1 \<le> fst p \<and> fst p \<le> length xs \<and> 1 \<le> snd p \<and> snd p \<le> length ys \<and> xs ! (fst p - 1) = ys ! (snd p - 1)"
  by (auto simp: matching_def)

lemma matching_hd: "matching xs ys (q # ps) \<Longrightarrow> before q p \<Longrightarrow> \<forall>r\<in>set (q # ps). before r p"
  by (auto simp: matching_Cons before_def)

section \<open>Candidates\<close>

inductive chain_of :: "cand list \<Rightarrow> nat \<Rightarrow> (nat \<times> nat) list \<Rightarrow> bool" for clist where
  chain_root: "clist \<noteq> [] \<Longrightarrow> c_y (clist ! 0) = 0 \<Longrightarrow> chain_of clist 0 []"
| chain_step: "0 < p \<Longrightarrow> p < length clist \<Longrightarrow> c_pred (clist ! p) < p \<Longrightarrow> chain_of clist (c_pred (clist ! p)) ps \<Longrightarrow>
    chain_of clist p ((c_x (clist ! p), c_y (clist ! p)) # ps)"

inductive_cases chain_NilE: "chain_of clist p []"
inductive_cases chain_ConsE: "chain_of clist p (q # ps)"

lemma chain_less: "chain_of clist p ps \<Longrightarrow> p < length clist"
  by (induction rule: chain_of.induct) auto

lemma chain_y: "chain_of clist p ps \<Longrightarrow> c_y (clist ! p) = (case ps of [] \<Rightarrow> 0 | q # _ \<Rightarrow> snd q)"
  by (induction rule: chain_of.induct) auto

lemma chain_append: "chain_of clist p ps \<Longrightarrow> chain_of (clist @ new) p ps"
proof (induction rule: chain_of.induct)
  case chain_root
  then show ?case by (auto intro!: chain_of.chain_root simp: nth_append)
next
  case (chain_step p ps)
  then have "chain_of (clist @ new) p ((c_x ((clist @ new) ! p), c_y ((clist @ new) ! p)) # ps)"
    by (intro chain_of.chain_step) (simp_all add: nth_append)
  with chain_step(2) show ?case by (simp add: nth_append)
qed

lemma chain_new:
  assumes "chain_of clist p ps"
  shows "chain_of (clist @ [\<lparr>c_x = x, c_y = y, c_pred = p\<rparr>]) (length clist) ((x, y) # ps)"
  using chain_of.chain_step [of "length clist" "clist @ [\<lparr>c_x = x, c_y = y, c_pred = p\<rparr>]" ps]
    chain_append [OF assms] chain_less [OF assms] by (cases clist) auto

definition yk :: "stonest \<Rightarrow> nat \<Rightarrow> nat" where
  "yk st l = c_y (st_clist st ! st_c st l)"

definition cand_ok :: "int list \<Rightarrow> int list \<Rightarrow> nat \<Rightarrow> cand list \<Rightarrow> nat \<Rightarrow> nat \<Rightarrow> bool" where
  "cand_ok v0 v1 i clist p l \<longleftrightarrow> (\<exists>ps. chain_of clist p ps \<and> length ps = l \<and> matching v0 v1 ps \<and> (\<forall>q\<in>set ps. fst q \<le> i))"

definition stone_ok :: "int list \<Rightarrow> int list \<Rightarrow> nat \<Rightarrow> stonest \<Rightarrow> bool" where
  "stone_ok v0 v1 i st \<longleftrightarrow>
     (\<forall>l \<le> st_k st. cand_ok v0 v1 i (st_clist st) (st_c st l) l) \<and> (\<forall>l < st_k st. yk st l < yk st (Suc l))"

lemma stone_ok_0:
  assumes "stone_ok v0 v1 i st"
  shows "yk st 0 = 0"
proof -
  from assms have "chain_of (st_clist st) (st_c st 0) []" by (auto simp: stone_ok_def cand_ok_def)
  from chain_y [OF this] show ?thesis by (simp add: yk_def)
qed

lemma yk_strict: "stone_ok v0 v1 i st \<Longrightarrow> l < l' \<Longrightarrow> l' \<le> st_k st \<Longrightarrow> yk st l < yk st l'"
proof (induction l')
  case (Suc l')
  then show ?case by (cases "l = l'") (auto simp: stone_ok_def intro: less_trans)
qed simp

lemma yk_mono: "stone_ok v0 v1 i st \<Longrightarrow> l \<le> l' \<Longrightarrow> l' \<le> st_k st \<Longrightarrow> yk st l \<le> yk st l'"
  using yk_strict [of v0 v1 i st l l'] by (cases "l = l'") auto

lemma yk_less_cancel: "stone_ok v0 v1 i st \<Longrightarrow> yk st l < yk st l' \<Longrightarrow> l \<le> st_k st \<Longrightarrow> l < l'"
  using yk_mono [of v0 v1 i st l' l] by (cases "l < l'") auto

text \<open>\<open>search\<close> finds the place of \<open>y\<close>.\<close>

lemma search_loop_place:
  assumes "stone_ok v0 v1 i0 st" "i < j" "j \<le> st_k st + 1" "yk st i < y" "j \<le> st_k st \<longrightarrow> y \<le> yk st j"
    and "l = search_loop (st_clist st) (st_c st) y i j"
  shows "1 \<le> l \<and> l \<le> st_k st + 1 \<and> yk st (l - 1) < y \<and> (l \<le> st_k st \<longrightarrow> y \<le> yk st l)"
  using assms(2-)
proof (induction "st_clist st" "st_c st" y i j rule: search_loop.induct)
  case (1 y i j)
  let ?l = "(i + j) div 2"
  note step = search_loop.simps [of "st_clist st" "st_c st" y i j]
  consider (fin) "?l \<le> i" | (gt) "i < ?l" "yk st ?l > y" | (lt) "i < ?l" "yk st ?l < y" | (eq) "i < ?l" "yk st ?l = y" by linarith
  then show ?case
  proof cases
    case fin
    with "1.prems" have "j = i + 1" "l = i + 1" by (auto simp: step Let_def)
    with "1.prems" show ?thesis by simp
  next
    case gt
    then have "l = search_loop (st_clist st) (st_c st) y i ?l" using "1.prems" by (simp add: step yk_def Let_def)
    with "1.hyps"(1) [OF refl] gt "1.prems" show ?thesis by (simp add: yk_def)
  next
    case lt
    then have "l = search_loop (st_clist st) (st_c st) y ?l j" using "1.prems" by (simp add: step yk_def Let_def)
    with "1.hyps"(2) [OF refl] lt "1.prems" show ?thesis by (simp add: yk_def)
  next
    case eq
    then have "l = ?l" using "1.prems" by (simp add: step yk_def Let_def)
    moreover have "?l \<le> st_k st" using "1.prems"(1,2) by linarith
    ultimately show ?thesis using eq yk_strict [OF assms(1), of "?l - 1" ?l] by simp
  qed
qed

lemma search_place:
  assumes "stone_ok v0 v1 i st" "1 \<le> y" "l = search (st_clist st) (st_c st) (st_k st) y"
  shows "1 \<le> l \<and> l \<le> st_k st + 1 \<and> yk st (l - 1) < y \<and> (l \<le> st_k st \<longrightarrow> y \<le> yk st l)"
proof (cases "yk st (st_k st) < y")
  case True
  with assms show ?thesis by (simp add: search_def yk_def)
next
  case False
  then show ?thesis using search_loop_place [OF assms(1), of 0 "st_k st + 1" y l] assms stone_ok_0 [OF assms(1)]
    by (simp add: search_def yk_def)
qed

section \<open>A line of the first file\<close>

text \<open>
  The state of the loop over a class: \<open>P\<close> are the lines of the second file already treated, \<open>Q\<close> those to come, and \<open>st0\<close> is the state before the loop.
  Up to \<open>oldl\<close> candidates may have been replaced; \<open>oldc\<close> is the former candidate for \<open>oldl\<close>, unless its use is ruled out.
\<close>

definition row_ok :: "int list \<Rightarrow> int list \<Rightarrow> nat \<Rightarrow> stonest \<Rightarrow> nat set \<Rightarrow> nat set \<Rightarrow> nat \<times> nat \<times> stonest \<Rightarrow> bool" where
  "row_ok v0 v1 i st0 P Q s \<longleftrightarrow>
     (case s of
        (oldl, oldc, st) \<Rightarrow>
          stone_ok v0 v1 i st \<and> st_k st = st_k st0 \<and> oldl \<le> st_k st0 \<and> (\<exists>new. st_clist st = st_clist st0 @ new) \<and>
          (\<forall>l. oldl < l \<and> l \<le> st_k st0 \<longrightarrow> st_c st l = st_c st0 l) \<and>
          (\<forall>l. l \<le> st_k st0 \<longrightarrow> yk st l \<le> yk st0 l) \<and>
          (\<forall>y\<in>P. \<forall>l. 1 \<le> l \<and> l \<le> st_k st0 \<and> yk st0 (l - 1) < y \<longrightarrow> yk st l \<le> y) \<and>
          (\<forall>y\<in>P. y \<le> yk st0 (st_k st0)) \<and> (\<forall>y\<in>Q. yk st oldl < y) \<and>
          (oldc = st_c st0 oldl \<or> oldl < st_k st0 \<and> (\<forall>y\<in>Q. c_y (st_clist st ! oldc) < y \<and> yk st (Suc oldl) < y)))"

text \<open>What holds after the loop.\<close>

definition row_done :: "int list \<Rightarrow> int list \<Rightarrow> nat \<Rightarrow> stonest \<Rightarrow> nat set \<Rightarrow> stonest \<Rightarrow> bool" where
  "row_done v0 v1 i st0 P st \<longleftrightarrow>
     stone_ok v0 v1 i st \<and> st_k st0 \<le> st_k st \<and> (\<forall>l. l \<le> st_k st0 \<longrightarrow> yk st l \<le> yk st0 l) \<and>
     (\<forall>y\<in>P. \<forall>l. 1 \<le> l \<and> l \<le> st_k st0 + 1 \<and> yk st0 (l - 1) < y \<longrightarrow> l \<le> st_k st \<and> yk st l \<le> y)"

lemma cand_ok_append: "cand_ok v0 v1 i clist p l \<Longrightarrow> i \<le> i' \<Longrightarrow> cand_ok v0 v1 i' (clist @ new) p l"
  using chain_append by (fastforce simp: cand_ok_def)

lemma cand_ok_new:
  assumes "cand_ok v0 v1 (i - 1) clist p l" "c_y (clist ! p) < y" "1 \<le> i" "i \<le> length v0" "1 \<le> y" "y \<le> length v1" "v0 ! (i - 1) = v1 ! (y - 1)"
  shows "cand_ok v0 v1 i (clist @ [\<lparr>c_x = i, c_y = y, c_pred = p\<rparr>]) (length clist) (Suc l)"
proof -
  from assms(1) obtain ps where ps: "chain_of clist p ps" "length ps = l" "matching v0 v1 ps" "\<forall>q\<in>set ps. fst q \<le> i - 1"
    by (auto simp: cand_ok_def)
  have "\<forall>q\<in>set ps. before q (i, y)"
  proof (cases ps)
    case (Cons q qs)
    with chain_y [OF ps(1)] assms(2,3) ps(4) have "before q (i, y)" by (auto simp: before_def)
    with matching_hd ps(3) Cons show ?thesis by blast
  qed simp
  then have "matching v0 v1 ((i, y) # ps)" using ps(3) assms(3-7) by (simp add: matching_Cons)
  moreover have "\<forall>q\<in>set ((i, y) # ps). fst q \<le> i" using ps(4) by fastforce
  ultimately show ?thesis using chain_new [OF ps(1), of i y] ps(2) unfolding cand_ok_def by (intro exI [of _ "(i, y) # ps"]) simp
qed

lemma yk_cand: "cand_ok v0 v1 i (st_clist st) (st_c st l) l' \<Longrightarrow> st_c st l < length (st_clist st)"
  by (auto simp: cand_ok_def dest: chain_less)

text \<open>A new candidate at \<open>l\<close>.\<close>

lemma stone_ok_upd:
  assumes ok: "stone_ok v0 v1 i st" and l: "1 \<le> l" "l \<le> Suc (st_k st)" "yk st (l - 1) < y" "l \<le> st_k st \<longrightarrow> y < yk st l"
    and c: "cand_ok v0 v1 i (st_clist st @ [\<lparr>c_x = i, c_y = y, c_pred = p\<rparr>]) (length (st_clist st)) l"
    and st': "st' = st\<lparr>st_k := max l (st_k st), st_c := (st_c st)(l := length (st_clist st)),
      st_clist := st_clist st @ [\<lparr>c_x = i, c_y = y, c_pred = p\<rparr>]\<rparr>"
  shows "stone_ok v0 v1 i st'" "yk st' l = y" "\<forall>l'. l' \<le> st_k st \<and> l' \<noteq> l \<longrightarrow> yk st' l' = yk st l'"
proof -
  show yl: "yk st' l = y" by (simp add: st' yk_def)
  have less: "st_c st l' < length (st_clist st)" if "l' \<le> st_k st" for l'
    using ok that yk_cand unfolding stone_ok_def by blast
  then show y': "\<forall>l'. l' \<le> st_k st \<and> l' \<noteq> l \<longrightarrow> yk st' l' = yk st l'" by (simp add: st' yk_def nth_append)
  have "cand_ok v0 v1 i (st_clist st') (st_c st' l') l'" if "l' \<le> st_k st'" for l'
    using c that ok l(2) cand_ok_append [of v0 v1 i "st_clist st" "st_c st l'" l' i] by (auto simp: st' stone_ok_def max_def split: if_splits)
  moreover have "yk st' l' < yk st' (Suc l')" if "l' < st_k st'" for l'
  proof -
    consider "l' = l" | "Suc l' = l" | "l' \<noteq> l" "Suc l' \<noteq> l" by blast
    then show ?thesis
    proof cases
      case 1
      with that have "Suc l \<le> st_k st" by (auto simp: st' max_def split: if_splits)
      with 1 l(4) yl y' yk_strict [OF ok, of l "Suc l"] show ?thesis by simp
    next
      case 2
      with l yl y' show ?thesis by auto
    next
      case 3
      with that l(2) have "Suc l' \<le> st_k st" by (auto simp: st' max_def split: if_splits)
      with 3 y' yk_strict [OF ok, of l' "Suc l'"] show ?thesis by simp
    qed
  qed
  ultimately show "stone_ok v0 v1 i st'" by (simp add: stone_ok_def)
qed

lemma row_okD:
  assumes "row_ok v0 v1 i st0 P Q (oldl, oldc, st)"
  shows "stone_ok v0 v1 i st" "st_k st = st_k st0" "oldl \<le> st_k st0" "\<exists>new. st_clist st = st_clist st0 @ new"
    "\<And>l. oldl < l \<Longrightarrow> l \<le> st_k st0 \<Longrightarrow> st_c st l = st_c st0 l" "\<And>l. l \<le> st_k st0 \<Longrightarrow> yk st l \<le> yk st0 l"
    "\<And>y l. y \<in> P \<Longrightarrow> 1 \<le> l \<Longrightarrow> l \<le> st_k st0 \<Longrightarrow> yk st0 (l - 1) < y \<Longrightarrow> yk st l \<le> y" "\<And>y. y \<in> P \<Longrightarrow> y \<le> yk st0 (st_k st0)"
    "\<And>y. y \<in> Q \<Longrightarrow> yk st oldl < y"
    "oldc = st_c st0 oldl \<or> oldl < st_k st0 \<and> (\<forall>y\<in>Q. c_y (st_clist st ! oldc) < y \<and> yk st (Suc oldl) < y)"
  using assms unfolding row_ok_def prod.case by blast+

lemma row_okI:
  assumes "stone_ok v0 v1 i st" "st_k st = st_k st0" "oldl \<le> st_k st0" "\<exists>new. st_clist st = st_clist st0 @ new"
    "\<And>l. oldl < l \<Longrightarrow> l \<le> st_k st0 \<Longrightarrow> st_c st l = st_c st0 l" "\<And>l. l \<le> st_k st0 \<Longrightarrow> yk st l \<le> yk st0 l"
    "\<And>y l. y \<in> P \<Longrightarrow> 1 \<le> l \<Longrightarrow> l \<le> st_k st0 \<Longrightarrow> yk st0 (l - 1) < y \<Longrightarrow> yk st l \<le> y" "\<And>y. y \<in> P \<Longrightarrow> y \<le> yk st0 (st_k st0)"
    "\<And>y. y \<in> Q \<Longrightarrow> yk st oldl < y"
    "oldc = st_c st0 oldl \<or> oldl < st_k st0 \<and> (\<forall>y\<in>Q. c_y (st_clist st ! oldc) < y \<and> yk st (Suc oldl) < y)"
  shows "row_ok v0 v1 i st0 P Q (oldl, oldc, st)"
  using assms unfolding row_ok_def prod.case by blast

text \<open>The former candidates are still there.\<close>

lemma row_former:
  assumes "row_ok v0 v1 i st0 P Q (oldl, oldc, st)" "stone_ok v0 v1 i0 st0" "l \<le> st_k st0"
  shows "c_y (st_clist st ! st_c st0 l) = yk st0 l"
proof -
  obtain new where "st_clist st = st_clist st0 @ new" using row_okD(4) [OF assms(1)] by blast
  moreover have "st_c st0 l < length (st_clist st0)" using assms(2,3) yk_cand unfolding stone_ok_def by blast
  ultimately show ?thesis by (simp add: yk_def nth_append)
qed

text \<open>The predecessor of a new candidate is the candidate that stood at the place before when the line was begun.\<close>

lemma row_pred:
  assumes row: "row_ok v0 v1 i st0 P (insert y Q) (oldl, oldc, st)" and "1 \<le> y" "c_y (st_clist st ! oldc) < y"
    and l: "l = search (st_clist st) (st_c st) (st_k st) y" and ok0: "stone_ok v0 v1 i0 st0"
  shows "oldl < l" "(if l \<noteq> oldl + 1 then st_c st (l - 1) else oldc) = st_c st0 (l - 1)" "yk st0 (l - 1) < y"
proof -
  note r = row_okD [OF row]
  note pl = search_place [OF r(1) assms(2) l]
  show less: "oldl < l"
  proof (rule ccontr)
    assume "\<not> oldl < l"
    then have "yk st l \<le> yk st oldl" "l \<le> st_k st" using yk_mono [OF r(1), of l oldl] r(2,3) by simp_all
    with pl r(9) [of y] show False by simp
  qed
  show eq: "(if l \<noteq> oldl + 1 then st_c st (l - 1) else oldc) = st_c st0 (l - 1)"
  proof (cases "l = oldl + 1")
    case True
    have "oldc = st_c st0 oldl" using r(10)
    proof
      assume "oldl < st_k st0 \<and> (\<forall>y\<in>insert y Q. c_y (st_clist st ! oldc) < y \<and> yk st (Suc oldl) < y)"
      with True pl r(2) show ?thesis by simp
    qed
    with True show ?thesis by simp
  next
    case False
    with less pl r(2) have "oldl < l - 1" "l - 1 \<le> st_k st0" by linarith+
    with False r(5) show ?thesis by simp
  qed
  have "c_y (st_clist st ! (if l \<noteq> oldl + 1 then st_c st (l - 1) else oldc)) < y" using pl assms(3) by (simp add: yk_def)
  then show "yk st0 (l - 1) < y" unfolding eq using row_former [OF row ok0, of "l - 1"] pl r(2) by (simp add: le_diff_conv)
qed

lemma row_skip:
  assumes row: "row_ok v0 v1 i st0 P (insert y Q) (oldl, oldc, st)" and ok0: "stone_ok v0 v1 i0 st0" and "y \<le> c_y (st_clist st ! oldc)"
  shows "row_ok v0 v1 i st0 (insert y P) Q (oldl, oldc, st)"
proof -
  note r = row_okD [OF row]
  have c: "oldc = st_c st0 oldl" using r(10) assms(3) by (meson insertI1 linorder_not_less)
  then have y: "y \<le> yk st0 oldl" using assms(3) row_former [OF row ok0 r(3)] by simp
  have P: "yk st l \<le> y" if "1 \<le> l" "l \<le> st_k st0" "yk st0 (l - 1) < y" for l
  proof -
    have "l - 1 < oldl" using yk_less_cancel [OF ok0, of "l - 1" oldl] that y by simp
    then have "yk st l \<le> yk st oldl" using r(2,3) that(1) yk_mono [OF r(1), of l oldl] by simp
    also have "\<dots> < y" using r(9) by simp
    finally show ?thesis by simp
  qed
  have "y \<le> yk st0 (st_k st0)" using y yk_mono [OF ok0 r(3)] by simp
  then show ?thesis using r P c by (intro row_okI) auto
qed

lemma row_equal:
  assumes row: "row_ok v0 v1 i st0 P (insert y Q) (oldl, oldc, st)" and ok0: "stone_ok v0 v1 i0 st0" and Q: "\<forall>z\<in>Q. y < z"
    and l: "oldl < l" "l \<le> st_k st" "yk st l = y" and c: "oldc' = st_c st0 (l - 1)" "yk st0 (l - 1) < y"
  shows "row_ok v0 v1 i st0 (insert y P) Q (oldl, oldc', st)"
proof -
  note r = row_okD [OF row]
  have T: "yk st0 l = y" using row_former [OF row ok0, of l] r(2) r(5) [of l] l by (simp add: yk_def)
  have 1: "yk st l' \<le> y" if "1 \<le> l'" "l' \<le> st_k st0" "yk st0 (l' - 1) < y" for l'
  proof -
    have "l' - 1 < l" using yk_less_cancel [OF ok0, of "l' - 1" l] that T by simp
    then show ?thesis using yk_mono [OF r(1), of l' l] that(1) l(2,3) by simp
  qed
  have 2: "y \<le> yk st0 (st_k st0)" using T yk_mono [OF ok0, of l "st_k st0"] l(2) r(2) by simp
  have 3: "oldc' = st_c st0 oldl \<or> oldl < st_k st0 \<and> (\<forall>z\<in>Q. c_y (st_clist st ! oldc') < z \<and> yk st (Suc oldl) < z)"
  proof (cases "l = oldl + 1")
    case True
    with c(1) show ?thesis by simp
  next
    case False
    have "c_y (st_clist st ! oldc') < y" using c row_former [OF row ok0, of "l - 1"] l(2) r(2) by simp
    moreover have "yk st (Suc oldl) \<le> y" using yk_mono [OF r(1), of "Suc oldl" l] l by simp
    ultimately show ?thesis using Q l r(2) by fastforce
  qed
  show ?thesis by (rule row_okI) (use r 1 2 3 in auto)
qed

lemma row_replace:
  assumes row: "row_ok v0 v1 i st0 P (insert y Q) (oldl, oldc, st)" and ok0: "stone_ok v0 v1 (i - 1) st0" and Q: "\<forall>z\<in>Q. y < z"
    and l: "oldl < l" "l \<le> st_k st" "yk st (l - 1) < y" "y < yk st l" and c: "p = st_c st0 (l - 1)" "yk st0 (l - 1) < y"
    and y: "1 \<le> i" "i \<le> length v0" "1 \<le> y" "y \<le> length v1" "v0 ! (i - 1) = v1 ! (y - 1)"
    and st': "st' = st\<lparr>st_c := (st_c st)(l := length (st_clist st)), st_clist := st_clist st @ [\<lparr>c_x = i, c_y = y, c_pred = p\<rparr>]\<rparr>"
  shows "row_ok v0 v1 i st0 (insert y P) Q (l, st_c st l, st')"
proof -
  note r = row_okD [OF row]
  obtain new where new: "st_clist st = st_clist st0 @ new" using r(4) by blast
  have "cand_ok v0 v1 (i - 1) (st_clist st0) p (l - 1)" using ok0 l r(2) c(1) unfolding stone_ok_def by simp
  then have "cand_ok v0 v1 (i - 1) (st_clist st) p (l - 1)" unfolding new by (rule cand_ok_append) simp
  moreover have "c_y (st_clist st ! p) < y" using c row_former [OF row ok0, of "l - 1"] l(2) r(2) by simp
  ultimately have "cand_ok v0 v1 i (st_clist st @ [\<lparr>c_x = i, c_y = y, c_pred = p\<rparr>]) (length (st_clist st)) l"
    using cand_ok_new [of v0 v1 i "st_clist st" p "l - 1" y] y l(1) by simp
  note u = stone_ok_upd [OF r(1) _ _ l(3) _ this, of st']
  have u: "stone_ok v0 v1 i st'" "yk st' l = y" "\<forall>l'. l' \<le> st_k st \<and> l' \<noteq> l \<longrightarrow> yk st' l' = yk st l'"
    using u l st' by (simp_all add: max_def)
  have k: "st_k st' = st_k st0" using r(2) st' by simp
  have T: "yk st0 l = yk st l" "st_c st l = st_c st0 l" using row_former [OF row ok0, of l] r(2) r(5) [of l] l by (simp_all add: yk_def)
  have 1: "yk st' l' \<le> y" if "1 \<le> l'" "l' \<le> st_k st0" "yk st0 (l' - 1) < y" for l'
  proof -
    have "l' - 1 < l" using yk_less_cancel [OF ok0, of "l' - 1" l] that T l(4) by simp
    then show ?thesis using yk_mono [OF u(1), of l' l] that(1) u(2) l(2) r(2) k by simp
  qed
  have 2: "y \<le> yk st0 (st_k st0)" using T l(4) yk_mono [OF ok0, of l "st_k st0"] l(2) r(2) by simp
  have le: "yk st' l' \<le> yk st l'" if "l' \<le> st_k st0" for l' using u(2,3) that l(4) r(2) by (cases "l' = l") auto
  show ?thesis
  proof (rule row_okI)
    show "\<exists>new. st_clist st' = st_clist st0 @ new" using new st' by simp
    show "st_c st' l' = st_c st0 l'" if "l < l'" "l' \<le> st_k st0" for l' using that r(5) [of l'] l(1) st' by simp
    show "yk st' l' \<le> yk st0 l'" if "l' \<le> st_k st0" for l' using le [OF that] r(6) [OF that] by simp
    show "yk st' l' \<le> z" if "z \<in> insert y P" "1 \<le> l'" "l' \<le> st_k st0" "yk st0 (l' - 1) < z" for z l'
      using that 1 [of l'] r(7) [of z l'] le [of l'] by auto
    show "z \<le> yk st0 (st_k st0)" if "z \<in> insert y P" for z using that 2 r(8) by auto
  qed (use u k l r(2) Q T(2) in auto)
qed

text \<open>A candidate for a length not reached before ends the loop: what is left of the class cannot improve anything.\<close>

lemma row_extend:
  assumes row: "row_ok v0 v1 i st0 P (insert y Q) (oldl, oldc, st)" and ok0: "stone_ok v0 v1 (i - 1) st0" and Q: "\<forall>z\<in>Q. y < z"
    and l: "l = st_k st + 1" "yk st (l - 1) < y" and c: "p = st_c st0 (l - 1)" "yk st0 (l - 1) < y"
    and y: "1 \<le> i" "i \<le> length v0" "1 \<le> y" "y \<le> length v1" "v0 ! (i - 1) = v1 ! (y - 1)"
    and st': "st' = st\<lparr>st_k := l, st_c := (st_c st)(l := length (st_clist st)), st_clist := st_clist st @ [\<lparr>c_x = i, c_y = y, c_pred = p\<rparr>]\<rparr>"
  shows "row_done v0 v1 i st0 (P \<union> insert y Q) st'"
proof -
  note r = row_okD [OF row]
  obtain new where new: "st_clist st = st_clist st0 @ new" using r(4) by blast
  have "cand_ok v0 v1 (i - 1) (st_clist st0) p (l - 1)" using ok0 l(1) r(2) c(1) unfolding stone_ok_def by simp
  then have "cand_ok v0 v1 (i - 1) (st_clist st) p (l - 1)" unfolding new by (rule cand_ok_append) simp
  moreover have "c_y (st_clist st ! p) < y" using c row_former [OF row ok0, of "l - 1"] l(1) r(2) by simp
  ultimately have "cand_ok v0 v1 i (st_clist st @ [\<lparr>c_x = i, c_y = y, c_pred = p\<rparr>]) (length (st_clist st)) l"
    using cand_ok_new [of v0 v1 i "st_clist st" p "l - 1" y] y l(1) by simp
  note u = stone_ok_upd [OF r(1) _ _ l(2) _ this, of st']
  have u: "stone_ok v0 v1 i st'" "yk st' l = y" "\<forall>l'. l' \<le> st_k st \<longrightarrow> yk st' l' = yk st l'"
    using u l st' by (simp_all add: max_def)
  have L: "l = Suc (st_k st0)" and k: "st_k st' = l" using r(2) st' l(1) by simp_all
  have "l' \<le> l \<and> yk st' l' \<le> z" if z: "z \<in> P \<union> insert y Q" and l': "1 \<le> l'" "l' \<le> st_k st0 + 1" "yk st0 (l' - 1) < z" for z l'
  proof (cases "z \<in> P")
    case True
    with r(8) have "z \<le> yk st0 (st_k st0)" .
    with l'(3) have "l' - 1 < st_k st0" using yk_less_cancel [OF ok0, of "l' - 1" "st_k st0"] l'(2) by simp
    then have le: "l' \<le> st_k st0" by simp
    have "yk st' l' = yk st l'" using u(3) le unfolding r(2) by blast
    with r(7) [OF True l'(1) le l'(3)] le L show ?thesis by simp
  next
    case False
    with z Q have "y \<le> z" by auto
    moreover have "yk st' l' \<le> y" using yk_mono [OF u(1), of l' l] l'(2) L k unfolding u(2) by simp
    ultimately show ?thesis using l'(2) L by simp
  qed
  moreover have "yk st' l' \<le> yk st0 l'" if "l' \<le> st_k st0" for l' using u(3) that r(6) [OF that] unfolding r(2) by simp
  moreover have "st_k st0 \<le> st_k st'" using L k by simp
  ultimately show ?thesis using u(1) unfolding row_done_def k by blast
qed

text \<open>One round of the loop, and the loop.\<close>

lemma stone_y_ok:
  assumes row: "row_ok v0 v1 i st0 P (insert y Q) s" and ok0: "stone_ok v0 v1 (i - 1) st0" and Q: "\<forall>z\<in>Q. y < z"
    and y: "1 \<le> i" "i \<le> length v0" "1 \<le> y" "y \<le> length v1" "v0 ! (i - 1) = v1 ! (y - 1)"
  shows "case stone_y i y s of (s', cont) \<Rightarrow>
    if cont then row_ok v0 v1 i st0 (insert y P) Q s' else row_done v0 v1 i st0 (P \<union> insert y Q) (snd (snd s'))"
proof -
  obtain oldl oldc st where s: "s = (oldl, oldc, st)" by (cases s)
  note row = row [unfolded s] and r = row_okD [OF row [unfolded s]]
  show ?thesis
  proof (cases "y \<le> c_y (st_clist st ! oldc)")
    case True
    with row_skip [OF row ok0] show ?thesis by (simp add: s stone_y_def Let_def)
  next
    case False
    let ?l = "search (st_clist st) (st_c st) (st_k st) y"
    let ?c = "if ?l \<noteq> oldl + 1 then st_c st (?l - 1) else oldc"
    have F: "c_y (st_clist st ! oldc) < y" using False by simp
    note pl = search_place [OF r(1) y(3) refl] and pr = row_pred [OF row y(3) F refl ok0]
    consider (same) "?l \<le> st_k st" "yk st ?l = y" | (repl) "?l \<le> st_k st" "y < yk st ?l" | (ext) "?l = st_k st + 1" using pl by linarith
    then show ?thesis
    proof cases
      case same
      then have "stone_y i y s = ((oldl, ?c, st), True)" using False by (simp add: s stone_y_def Let_def yk_def)
      with row_equal [OF row ok0 Q pr(1) same pr(2,3)] show ?thesis by simp
    next
      case repl
      let ?st = "st\<lparr>st_c := (st_c st)(?l := length (st_clist st)), st_clist := st_clist st @ [\<lparr>c_x = i, c_y = y, c_pred = ?c\<rparr>]\<rparr>"
      have "stone_y i y s = ((?l, st_c st ?l, ?st), True)" using False repl by (simp add: s stone_y_def Let_def yk_def newcand_def)
      moreover have "yk st (?l - 1) < y" using pl by blast
      ultimately show ?thesis using row_replace [OF row ok0 Q pr(1) repl(1) _ repl(2) pr(2,3) y refl] by simp
    next
      case ext
      let ?st = "st\<lparr>st_k := ?l, st_c := (st_c st)(?l := length (st_clist st)), st_clist := st_clist st @ [\<lparr>c_x = i, c_y = y, c_pred = ?c\<rparr>]\<rparr>"
      have "stone_y i y s = ((oldl, ?c, ?st), False)" using False ext by (simp add: s stone_y_def Let_def yk_def newcand_def)
      moreover have "yk st (?l - 1) < y" using pl by blast
      ultimately show ?thesis using row_extend [OF row ok0 Q ext _ pr(2,3) y refl] by simp
    qed
  qed
qed

lemma row_finish:
  assumes row: "row_ok v0 v1 i st0 P {} s" and ok0: "stone_ok v0 v1 (i - 1) st0"
  shows "row_done v0 v1 i st0 P (snd (snd s))"
proof -
  obtain oldl oldc st where s: "s = (oldl, oldc, st)" by (cases s)
  note r = row_okD [OF row [unfolded s]]
  have "l \<le> st_k st \<and> yk st l \<le> y" if "y \<in> P" "1 \<le> l" "l \<le> st_k st0 + 1" "yk st0 (l - 1) < y" for y l
  proof -
    have "l - 1 < st_k st0" using yk_less_cancel [OF ok0, of "l - 1" "st_k st0"] r(8) [OF that(1)] that(3,4) by simp
    then have "l \<le> st_k st0" by simp
    with r(7) [OF that(1,2) this that(4)] r(2) show ?thesis by simp
  qed
  then show ?thesis using r(1,2,6) unfolding row_done_def s by simp
qed

lemma stone_ys_ok:
  assumes "row_ok v0 v1 i st0 P (set ys) s" "stone_ok v0 v1 (i - 1) st0" "sorted_wrt (<) ys" "1 \<le> i" "i \<le> length v0"
    and "\<forall>y\<in>set ys. 1 \<le> y \<and> y \<le> length v1 \<and> v0 ! (i - 1) = v1 ! (y - 1)"
  shows "row_done v0 v1 i st0 (P \<union> set ys) (snd (snd (stone_ys i ys s)))"
  using assms
proof (induction ys arbitrary: P s)
  case Nil
  then show ?case using row_finish by simp
next
  case (Cons y ys)
  obtain s' cont where s': "stone_y i y s = (s', cont)" by fastforce
  have tail: "sorted_wrt (<) ys" "\<forall>y\<in>set ys. 1 \<le> y \<and> y \<le> length v1 \<and> v0 ! (i - 1) = v1 ! (y - 1)"
    using Cons.prems(3,6) by (simp, meson list.set_intros(2))
  have "if cont then row_ok v0 v1 i st0 (insert y P) (set ys) s' else row_done v0 v1 i st0 (P \<union> insert y (set ys)) (snd (snd s'))"
    using stone_y_ok [of v0 v1 i st0 P y "set ys" s] Cons.prems s' by simp
  moreover have "row_done v0 v1 i st0 (insert y P \<union> set ys) (snd (snd (stone_ys i ys s')))" if "row_ok v0 v1 i st0 (insert y P) (set ys) s'"
    using Cons.IH [OF that Cons.prems(2) _ Cons.prems(4,5)] tail by blast
  ultimately show ?case by (cases cont) (simp_all add: s')
qed

section \<open>The longest matching\<close>

text \<open>No matching of the lines up to \<open>i\<close> has a pair that ends earlier than the candidate for its length.\<close>

definition stone_opt :: "int list \<Rightarrow> int list \<Rightarrow> nat \<Rightarrow> stonest \<Rightarrow> bool" where
  "stone_opt v0 v1 i st \<longleftrightarrow>
     (\<forall>q ps. matching v0 v1 (q # ps) \<longrightarrow> fst q \<le> i \<longrightarrow> length (q # ps) \<le> st_k st \<and> yk st (length (q # ps)) \<le> snd q)"

lemma lines_with_props:
  "sorted_wrt (<) (lines_with vs v)" "y \<in> set (lines_with vs v) \<longleftrightarrow> 1 \<le> y \<and> y \<le> length vs \<and> vs ! (y - 1) = v"
  unfolding lines_with_def using sorted_wrt_filter [OF sorted_wrt_upt] by (blast, auto simp del: upt_Suc)

lemma row_start:
  assumes "stone_ok v0 v1 (i - 1) st" "\<forall>y\<in>set ys. 1 \<le> y"
  shows "row_ok v0 v1 i st {} (set ys) (0, st_c st 0, st)"
proof (rule row_okI)
  show "stone_ok v0 v1 i st" using assms(1) unfolding stone_ok_def cand_ok_def by (meson diff_le_self le_trans)
  show "yk st 0 < y" if "y \<in> set ys" for y using that assms stone_ok_0 by fastforce
qed simp_all

lemma stone_step_ok:
  assumes "stone_ok v0 v1 (i - 1) st" "stone_opt v0 v1 (i - 1) st" "1 \<le> i" "i \<le> length v0"
  shows "stone_ok v0 v1 i (stone_step v0 v1 i st)" "stone_opt v0 v1 i (stone_step v0 v1 i st)"
proof -
  let ?ys = "lines_with v1 (v0 ! (i - 1))" and ?st = "stone_step v0 v1 i st"
  have "\<forall>y\<in>set ?ys. 1 \<le> y \<and> y \<le> length v1 \<and> v0 ! (i - 1) = v1 ! (y - 1)" by (simp add: lines_with_props)
  with stone_ys_ok [OF row_start [OF assms(1)] assms(1) lines_with_props(1) assms(3,4)]
  have d: "row_done v0 v1 i st (set ?ys) ?st" by (simp add: stone_step_def)
  show ok: "stone_ok v0 v1 i ?st" using d by (simp add: row_done_def)
  have "length (q # ps) \<le> st_k ?st \<and> yk ?st (length (q # ps)) \<le> snd q" if q: "matching v0 v1 (q # ps)" "fst q \<le> i" for q ps
  proof (cases "fst q \<le> i - 1")
    case True
    with assms(2) q(1) have "length (q # ps) \<le> st_k st" "yk st (length (q # ps)) \<le> snd q" unfolding stone_opt_def by blast+
    with d show ?thesis unfolding row_done_def by (meson order_trans)
  next
    case False
    with q(2) have i: "fst q = i" by simp
    with q(1) have y: "snd q \<in> set ?ys" by (simp add: lines_with_props matching_Cons)
    have "length ps \<le> st_k st \<and> yk st (length ps) < snd q"
    proof (cases ps)
      case Nil
      with stone_ok_0 [OF assms(1)] q(1) show ?thesis by (simp add: matching_Cons)
    next
      case (Cons q' ps')
      with q(1) i have "matching v0 v1 (q' # ps')" "fst q' \<le> i - 1" "snd q' < snd q" by (auto simp: matching_Cons before_def)
      with assms(2) have "length (q' # ps') \<le> st_k st" "yk st (length (q' # ps')) \<le> snd q'" unfolding stone_opt_def by blast+
      with Cons \<open>snd q' < snd q\<close> show ?thesis by simp
    qed
    with d y show ?thesis unfolding row_done_def by (auto dest!: bspec [OF _ y] spec [of _ "length (q # ps)"])
  qed
  then show "stone_opt v0 v1 i ?st" by (auto simp: stone_opt_def)
qed

lemma candidates_ok:
  "stone_ok v0 v1 (length v0) (candidates v0 v1) \<and> stone_opt v0 v1 (length v0) (candidates v0 v1)"
proof -
  have "stone_ok v0 v1 i (fold (stone_step v0 v1) [1..<Suc i] stone_init) \<and> stone_opt v0 v1 i (fold (stone_step v0 v1) [1..<Suc i] stone_init)"
    if "i \<le> length v0" for i
    using that
  proof (induction i)
    case 0
    have "chain_of (st_clist stone_init) (st_c stone_init 0) []" by (auto simp: stone_init_def intro: chain_root)
    then have "stone_ok v0 v1 0 stone_init" by (auto simp: stone_ok_def cand_ok_def stone_init_def)
    moreover have "stone_opt v0 v1 0 stone_init" by (auto simp: stone_opt_def matching_Cons)
    ultimately show ?case by simp
  next
    case (Suc i)
    with stone_step_ok [of v0 v1 "Suc i"] show ?case by simp
  qed
  then show ?thesis by (simp add: candidates_def)
qed

lemma candidates_longest:
  assumes "st = candidates v0 v1"
  obtains ps where "chain_of (st_clist st) (st_c st (st_k st)) ps" "length ps = st_k st" "matching v0 v1 ps"
    "\<forall>qs. matching v0 v1 qs \<longrightarrow> length qs \<le> length ps"
proof -
  have ok: "stone_ok v0 v1 (length v0) st" and opt: "stone_opt v0 v1 (length v0) st" using candidates_ok assms by auto
  from ok obtain ps where ps: "chain_of (st_clist st) (st_c st (st_k st)) ps" "length ps = st_k st" "matching v0 v1 ps"
    by (auto simp: stone_ok_def cand_ok_def)
  moreover have "length qs \<le> length ps" if "matching v0 v1 qs" for qs
  proof (cases qs)
    case (Cons q qs')
    with that have "fst q \<le> length v0" by (simp add: matching_Cons)
    with opt that Cons ps(2) show ?thesis unfolding stone_opt_def by fastforce
  qed simp
  ultimately show ?thesis using that by blast
qed

section \<open>Pruning\<close>

lemma common_len_take: "take (common_len xs ys) xs = take (common_len xs ys) ys" "common_len xs ys \<le> length xs" "common_len xs ys \<le> length ys"
  by (induction xs ys rule: common_len.induct) auto

lemma prune_split:
  assumes "prune f0 f1 = (pref, suff)"
  obtains p s where "f0 = p @ pruned pref suff f0 @ s" "f1 = p @ pruned pref suff f1 @ s" "length p = pref" "length s = suff"
proof -
  let ?d0 = "drop pref f0" and ?d1 = "drop pref f1"
  have p: "take pref f0 = take pref f1" "pref \<le> length f0" "pref \<le> length f1"
    using common_len_take [of f0 f1] assms by (auto simp: prune_def Let_def)
  have "suff = common_len (rev ?d0) (rev ?d1)" using assms by (auto simp: prune_def Let_def)
  then have s: "take suff (rev ?d0) = take suff (rev ?d1)" "suff \<le> length ?d0" "suff \<le> length ?d1"
    using common_len_take [of "rev ?d0" "rev ?d1"] by simp_all
  let ?s = "rev (take suff (rev ?d0))"
  have split: "d = take (length d - suff) d @ rev (take suff (rev d))" if "suff \<le> length d" for d :: "int list"
    by (simp add: take_rev)
  have "f0 = take pref f0 @ pruned pref suff f0 @ ?s"
    using split [OF s(2)] by (simp add: pruned_def)
  moreover have "f1 = take pref f0 @ pruned pref suff f1 @ ?s"
    using split [OF s(3)] unfolding p(1) s(1) by (simp add: pruned_def)
  ultimately show ?thesis using p s by (intro that [of "take pref f0" ?s]) auto
qed

lemma matching_front:
  assumes "matching (x # xs) (x # ys) qs"
  shows "\<exists>qs'. matching xs ys qs' \<and> length qs \<le> Suc (length qs')"
proof (cases qs rule: rev_cases)
  case (snoc qs' q)
  have q: "\<forall>r\<in>set qs'. before q r" "sorted_wrt (\<lambda>p q. before q p) qs'" "1 \<le> fst q" "1 \<le> snd q"
    using assms snoc by (auto simp: matching_def sorted_wrt_append)
  let ?f = "\<lambda>r. (fst r - 1, snd r - 1)"
  have "matching xs ys (map ?f qs')"
    unfolding matching_def
  proof (intro conjI ballI)
    show "sorted_wrt (\<lambda>p q. before q p) (map ?f qs')"
      unfolding sorted_wrt_map by (rule sorted_wrt_mono_rel [OF _ q(2)]) (use q in \<open>fastforce simp: before_def\<close>)
    fix r assume "r \<in> set (map ?f qs')"
    then obtain t where t: "t \<in> set qs'" "r = ?f t" by auto
    with q have lt: "1 < fst t" "1 < snd t" by (fastforce simp: before_def)+
    moreover have "fst t \<le> Suc (length xs)" "snd t \<le> Suc (length ys)" "(x # xs) ! (fst t - 1) = (x # ys) ! (snd t - 1)"
      using assms t(1) snoc by (auto simp: matching_def)
    ultimately show "case r of (a, b) \<Rightarrow> 1 \<le> a \<and> a \<le> length xs \<and> 1 \<le> b \<and> b \<le> length ys \<and> xs ! (a - 1) = ys ! (b - 1)"
      by (auto simp: t(2) nth_Cons')
  qed
  with snoc show ?thesis by (intro exI [of _ "map ?f qs'"]) simp
qed (auto intro: exI [of _ "[]"])

lemma matching_back:
  assumes "matching (xs @ [x]) (ys @ [x]) qs"
  shows "\<exists>qs'. matching xs ys qs' \<and> length qs \<le> Suc (length qs')"
proof (cases qs)
  case (Cons q qs')
  have "matching xs ys qs'"
    unfolding matching_def
  proof (intro conjI ballI)
    show "sorted_wrt (\<lambda>p q. before q p) qs'" using assms Cons by (simp add: matching_def)
    fix r assume r: "r \<in> set qs'"
    with assms Cons have lt: "fst r < fst q" "snd r < snd q" by (simp_all add: matching_Cons before_def)
    have "fst q \<le> Suc (length xs)" "snd q \<le> Suc (length ys)" using assms Cons by (simp_all add: matching_Cons)
    with lt have "fst r \<le> length xs" "snd r \<le> length ys" by simp_all
    moreover have "1 \<le> fst r" "1 \<le> snd r" "(xs @ [x]) ! (fst r - 1) = (ys @ [x]) ! (snd r - 1)" using assms Cons r by (auto simp: matching_def)
    ultimately show "case r of (a, b) \<Rightarrow> 1 \<le> a \<and> a \<le> length xs \<and> 1 \<le> b \<and> b \<le> length ys \<and> xs ! (a - 1) = ys ! (b - 1)"
      by (auto simp: nth_append split: if_splits)
  qed
  with Cons show ?thesis by auto
qed (auto intro: exI [of _ "[]"])

lemma matching_bound:
  assumes "\<And>qs. matching xs ys qs \<Longrightarrow> length qs \<le> k"
  shows "matching (p @ xs @ s) (p @ ys @ s) qs \<Longrightarrow> length qs \<le> length p + k + length s"
proof (induction p arbitrary: qs)
  case Nil
  have "matching (xs @ s) (ys @ s) qs \<Longrightarrow> length qs \<le> k + length s"
  proof (induction s arbitrary: qs rule: rev_induct)
    case (snoc x s)
    from snoc.prems obtain qs' where "matching (xs @ s) (ys @ s) qs'" "length qs \<le> Suc (length qs')"
      using matching_back [of "xs @ s" x "ys @ s" qs] by auto
    with snoc.IH [of qs'] show ?case by simp
  qed (simp add: assms)
  with Nil show ?case by simp
next
  case (Cons x p)
  from Cons.prems obtain qs' where "matching (p @ xs @ s) (p @ ys @ s) qs'" "length qs \<le> Suc (length qs')"
    using matching_front [of x "p @ xs @ s" "p @ ys @ s" qs] by auto
  with Cons.IH [of qs'] show ?case by simp
qed

text \<open>A matching of the middle parts, extended to the whole files.\<close>

definition extend :: "nat \<Rightarrow> nat \<Rightarrow> nat \<Rightarrow> nat \<Rightarrow> (nat \<times> nat) list \<Rightarrow> (nat \<times> nat) list" where
  "extend len0 len1 pref suff ps =
     map (\<lambda>i. (i, i + len1 - len0)) (rev [Suc (len0 - suff)..<Suc len0]) @ map (\<lambda>(x, y). (x + pref, y + pref)) ps @
     map (\<lambda>i. (i, i)) (rev [1..<Suc pref])"

lemma sorted_rev_upt: "sorted_wrt (\<lambda>p q. q < p) (rev [m..<n])"
  by (simp add: sorted_wrt_rev)

lemma extend_matching:
  assumes "matching xs ys ps" "f0 = p @ xs @ s" "f1 = p @ ys @ s"
  shows "matching f0 f1 (extend (length f0) (length f1) (length p) (length s) ps)"
proof -
  let ?A = "map (\<lambda>i. (i, i + length f1 - length f0)) (rev [Suc (length f0 - length s)..<Suc (length f0)])"
  let ?B = "map (\<lambda>(x, y). (x + length p, y + length p)) ps" and ?C = "map (\<lambda>i. (i, i)) (rev [1..<Suc (length p)])"
  have l: "length f0 = length p + length xs + length s" "length f1 = length p + length ys + length s" using assms by simp_all
  have A: "matching f0 f1 ?A"
  proof -
    have "sorted_wrt (\<lambda>p q. before q p) ?A"
      unfolding sorted_wrt_map by (rule sorted_wrt_mono_rel [OF _ sorted_rev_upt]) (auto simp: before_def l)
    moreover have "f0 ! (i - 1) = f1 ! (i + length f1 - length f0 - 1)" if "length f0 - length s < i" "i \<le> length f0" for i
    proof -
      have gt: "length p + length xs < i" using that(1) l(1) by simp
      then have "i - 1 = length p + (length xs + (i - 1 - length p - length xs))" by simp
      then have "f0 ! (i - 1) = s ! (i - 1 - length p - length xs)" by (metis assms(2) nth_append_length_plus)
      moreover have "i + length f1 - length f0 - 1 = length p + (length ys + (i - 1 - length p - length xs))" using gt l by simp
      then have "f1 ! (i + length f1 - length f0 - 1) = s ! (i - 1 - length p - length xs)" by (simp only: assms(3) nth_append_length_plus)
      ultimately show ?thesis by simp
    qed
    ultimately show ?thesis using l by (auto simp: matching_def simp del: upt_Suc)
  qed
  have B: "matching f0 f1 ?B"
  proof -
    have "sorted_wrt (\<lambda>p q. before q p) ?B"
      unfolding sorted_wrt_map by (rule sorted_wrt_mono_rel [of _ "\<lambda>p q. before q p"]) (use assms(1) in \<open>auto simp: before_def matching_def\<close>)
    moreover have "1 \<le> x + length p \<and> x + length p \<le> length f0 \<and> 1 \<le> y + length p \<and> y + length p \<le> length f1 \<and>
      f0 ! (x + length p - 1) = f1 ! (y + length p - 1)" if "(x, y) \<in> set ps" for x y
    proof -
      have "1 \<le> x" "x \<le> length xs" "1 \<le> y" "y \<le> length ys" "xs ! (x - 1) = ys ! (y - 1)" using that assms(1) by (auto simp: matching_def)
      moreover from this have e: "x + length p - 1 = length p + (x - 1)" "y + length p - 1 = length p + (y - 1)" by simp_all
      moreover have "f0 ! (length p + (x - 1)) = (xs @ s) ! (x - 1)" "f1 ! (length p + (y - 1)) = (ys @ s) ! (y - 1)"
        by (simp_all only: assms(2,3) nth_append_length_plus)
      ultimately show ?thesis using l unfolding e by (simp add: nth_append)
    qed
    ultimately show ?thesis unfolding matching_def by auto
  qed
  have C: "matching f0 f1 ?C"
  proof -
    have "sorted_wrt (\<lambda>p q. before q p) ?C"
      unfolding sorted_wrt_map by (rule sorted_wrt_mono_rel [OF _ sorted_rev_upt]) (auto simp: before_def)
    then show ?thesis by (auto simp: matching_def assms(2,3) nth_append simp del: upt_Suc)
  qed
  have a: "length p + length xs < fst q" "length p + length ys < snd q" if "q \<in> set ?A" for q using that l by auto
  have b: "length p < fst q" "fst q \<le> length p + length xs" "length p < snd q" "snd q \<le> length p + length ys" if "q \<in> set ?B" for q
    using that assms(1) by (auto simp: matching_def)
  have c: "fst q \<le> length p" "snd q \<le> length p" if "q \<in> set ?C" for q using that by (auto simp del: upt_Suc)
  have "before r q" if "q \<in> set ?A" "r \<in> set ?B" for q r using a [OF that(1)] b [OF that(2)] by (simp add: before_def)
  moreover have "before r q" if "q \<in> set ?A" "r \<in> set ?C" for q r using a [OF that(1)] c [OF that(2)] by (simp add: before_def)
  moreover have "before r q" if "q \<in> set ?B" "r \<in> set ?C" for q r using b [OF that(1)] c [OF that(2)] by (simp add: before_def)
  ultimately have "sorted_wrt (\<lambda>p q. before q p) (?A @ ?B @ ?C)"
    unfolding sorted_wrt_append set_append using A B C unfolding matching_def by blast
  with A B C show ?thesis unfolding extend_def matching_def set_append by blast
qed

section \<open>The vector of matching lines\<close>

lemma unravel_chain_fold:
  assumes "chain_of clist p ps" "\<forall>q\<in>set ps. snd q \<noteq> 0"
  shows "unravel_chain clist pref p J = Some (fold (\<lambda>(x, y) J. J(x + pref := y + pref)) ps J)"
  using assms
proof (induction arbitrary: J rule: chain_of.induct)
  case chain_root
  then show ?case by (simp add: unravel_chain.simps [of clist pref 0])
next
  case (chain_step p ps)
  let ?J = "J(c_x (clist ! p) + pref := c_y (clist ! p) + pref)"
  have "unravel_chain clist pref p J = unravel_chain clist pref (c_pred (clist ! p)) ?J"
    using chain_step.prems by (subst unravel_chain.simps) (simp add: Let_def)
  also have "\<dots> = Some (fold (\<lambda>(x, y) J. J(x + pref := y + pref)) ps ?J)" using chain_step.prems by (intro chain_step.IH) simp
  finally show ?case by (simp only: fold_simps prod.case)
qed

lemma fold_updates:
  "fold (\<lambda>(x, y) J. J(x + pref := y + pref)) ps J i =
     (case map_of (rev (map (\<lambda>(x, y). (x + pref, y + pref)) ps)) i of None \<Rightarrow> J i | Some y \<Rightarrow> y)"
  by (induction ps arbitrary: J) (auto split: option.splits)

text \<open>The pairs a vector stands for.\<close>

definition pairs_of :: "nat \<Rightarrow> (nat \<Rightarrow> nat) \<Rightarrow> (nat \<times> nat) list" where
  "pairs_of n J = map (\<lambda>i. (i, J i)) (filter (\<lambda>i. J i \<noteq> 0) (rev [1..<Suc n]))"

lemma sorted_wrt_unique:
  assumes "\<And>x y. R x y \<Longrightarrow> \<not> R y x"
  shows "sorted_wrt R xs \<Longrightarrow> sorted_wrt R ys \<Longrightarrow> set xs = set ys \<Longrightarrow> xs = ys"
proof (induction xs arbitrary: ys)
  case (Cons x xs)
  then obtain y ys' where ys: "ys = y # ys'" by (cases ys) auto
  have "x = y"
  proof (rule ccontr)
    assume "x \<noteq> y"
    with Cons.prems ys have "y \<in> set xs" "x \<in> set ys'" by auto
    with Cons.prems ys assms show False by auto
  qed
  moreover have "x \<notin> set xs" "y \<notin> set ys'" using Cons.prems(1,2) ys assms by auto
  ultimately have "set xs = set ys'" using Cons.prems(3) ys by auto
  with Cons ys \<open>x = y\<close> show ?case by simp
qed simp

lemma pairs_of_matching:
  assumes "matching xs ys ps" "\<And>i y. 1 \<le> i \<Longrightarrow> i \<le> length xs \<Longrightarrow> y \<noteq> 0 \<Longrightarrow> J i = y \<longleftrightarrow> (i, y) \<in> set ps"
  shows "pairs_of (length xs) J = ps"
proof (rule sorted_wrt_unique)
  show "sorted_wrt (\<lambda>p q. fst q < fst p) (pairs_of (length xs) J)"
    unfolding pairs_of_def sorted_wrt_map by (rule sorted_wrt_filter) (simp add: sorted_rev_upt del: upt_Suc)
  show "sorted_wrt (\<lambda>p q. fst q < fst p) ps"
    using assms(1) sorted_wrt_mono_rel [of ps "\<lambda>p q. before q p" "\<lambda>p q. fst q < fst p"] by (auto simp: matching_def before_def)
  have "(i, y) \<in> set (pairs_of (length xs) J) \<longleftrightarrow> (i, y) \<in> set ps" for i y
  proof -
    have "(i, y) \<in> set (pairs_of (length xs) J) \<longleftrightarrow> 1 \<le> i \<and> i \<le> length xs \<and> y \<noteq> 0 \<and> J i = y" by (auto simp: pairs_of_def simp del: upt_Suc)
    also have "\<dots> \<longleftrightarrow> (i, y) \<in> set ps" using assms by (auto simp: matching_def)
    finally show ?thesis .
  qed
  then show "set (pairs_of (length xs) J) = set ps" by auto
qed auto

lemma matching_fst_unique: "matching xs ys ps \<Longrightarrow> (x, y) \<in> set ps \<Longrightarrow> (x, y') \<in> set ps \<Longrightarrow> y = y'"
  by (induction ps) (auto simp: matching_Cons before_def)

lemma unravel_pairs:
  assumes c: "chain_of clist p ps" and m: "matching xs ys ps" and f: "f0 = a @ xs @ s" "f1 = a @ ys @ s"
  obtains J where "unravel (length f0) (length f1) (length a) (length s) clist p = Some J"
    "pairs_of (length f0) J = extend (length f0) (length f1) (length a) (length s) ps"
proof -
  let ?K = "\<lambda>i. if i \<le> length a then i else if i > length f0 - length s then i + length f1 - length f0 else 0"
  let ?J = "fold (\<lambda>(x, y) J. J(x + length a := y + length a)) ps ?K"
  let ?e = "extend (length f0) (length f1) (length a) (length s) ps"
  let ?ps = "map (\<lambda>(x, y). (x + length a, y + length a)) ps"
  have l: "length f0 = length a + length xs + length s" "length f1 = length a + length ys + length s" using f by simp_all
  have bd: "1 \<le> x \<and> x \<le> length xs \<and> 1 \<le> y" if "(x, y) \<in> set ps" for x y using m that by (auto simp: matching_def)
  have e: "matching f0 f1 ?e" by (rule extend_matching [OF m f])
  have u: "unravel (length f0) (length f1) (length a) (length s) clist p = Some ?J"
    unfolding unravel_def by (rule unravel_chain_fold [OF c]) (auto dest!: bd)
  have mem: "(i, y) \<in> set ?e \<longleftrightarrow> (length f0 - length s < i \<and> i \<le> length f0 \<and> y = i + length f1 - length f0) \<or> (i, y) \<in> set ?ps \<or>
    (1 \<le> i \<and> i \<le> length a \<and> y = i)" for i y
    by (auto simp: extend_def simp del: upt_Suc)
  have "?J i = y \<longleftrightarrow> (i, y) \<in> set ?e" if "1 \<le> i" "i \<le> length f0" "y \<noteq> 0" for i y
  proof (cases "map_of (rev ?ps) i")
    case None
    then have "i \<notin> fst ` set ?ps" unfolding map_of_eq_None_iff by simp
    then have "(i, y) \<notin> set ?ps" by (metis fst_conv image_eqI)
    then have m: "(i, y) \<in> set ?e \<longleftrightarrow> length f0 - length s < i \<and> i \<le> length f0 \<and> y = i + length f1 - length f0 \<or> 1 \<le> i \<and> i \<le> length a \<and> y = i"
      unfolding mem by blast
    have J: "?J i = ?K i" unfolding fold_updates None by simp
    have "length a \<le> length f0 - length s" using l(1) by simp
    then show ?thesis unfolding m J using that by (cases "i \<le> length a"; cases "length f0 - length s < i") auto
  next
    case (Some y')
    have "(i, y') \<in> set ?ps" using map_of_SomeD [OF Some] by simp
    then have "(i, y') \<in> set ?e" by (simp add: mem)
    moreover have "?J i = y'" unfolding fold_updates Some by simp
    ultimately show ?thesis using matching_fst_unique [OF e, of i y' y] by blast
  qed
  then have "pairs_of (length f0) ?J = ?e" by (rule pairs_of_matching [OF e])
  with u show ?thesis by (rule that)
qed

lemma longest_exists:
  "\<exists>J. match_lines f0 f1 = Some J \<and> matching f0 f1 (pairs_of (length f0) J) \<and>
     (\<forall>qs. matching f0 f1 qs \<longrightarrow> length qs \<le> length (pairs_of (length f0) J))"
proof -
  obtain pref suff where p: "prune f0 f1 = (pref, suff)" by fastforce
  define v0 v1 where "v0 = pruned pref suff f0" and "v1 = pruned pref suff f1"
  let ?st = "candidates v0 v1"
  obtain a s where f: "f0 = a @ v0 @ s" "f1 = a @ v1 @ s" "length a = pref" "length s = suff"
    unfolding v0_def v1_def by (rule prune_split [OF p])
  obtain ps where ps: "chain_of (st_clist ?st) (st_c ?st (st_k ?st)) ps" "matching v0 v1 ps"
    "\<forall>qs. matching v0 v1 qs \<longrightarrow> length qs \<le> length ps" by (rule candidates_longest [OF refl])
  let ?e = "extend (length f0) (length f1) pref suff ps"
  obtain J where "unravel (length f0) (length f1) pref suff (st_clist ?st) (st_c ?st (st_k ?st)) = Some J" "pairs_of (length f0) J = ?e"
    using unravel_pairs [OF ps(1,2) f(1,2)] unfolding f(3,4) by blast
  with match_lines_candidates [OF p refl] have J: "match_lines f0 f1 = Some J" "pairs_of (length f0) J = ?e"
    by (simp_all flip: v0_def v1_def)
  have "suff \<le> length f0" using f(1,4) by simp
  then have len: "length ?e = pref + length ps + suff" by (simp add: extend_def del: upt_Suc)
  have "length qs \<le> length ?e" if "matching f0 f1 qs" for qs
    using matching_bound [of v0 v1 "length ps" a s qs] ps(3) that unfolding f(1,2) [symmetric] len f(3,4) by blast
  moreover have "matching f0 f1 ?e" using extend_matching [OF ps(2) f(1,2)] f(3,4) by simp
  ultimately show ?thesis using J by auto
qed

text \<open>
  (C39) The vector \<open>J\<close> that \<open>diff\<close> computes from the hashes of the lines, by pruning, sorting, classes, \<open>k\<close>-candidates and \<open>unravel\<close>, always exists and
  is a longest common subsequence: the pairs \<open>(i, J[i])\<close> ascend in both files and join lines with equal hashes, and no list of pairs with these
  properties is longer.
\<close>

theorem match_lines_longest:
  "\<exists>J. match_lines f0 f1 = Some J \<and> matching f0 f1 (pairs_of (length f0) J) \<and>
     (\<forall>qs. matching f0 f1 qs \<longrightarrow> length qs \<le> length (pairs_of (length f0) J))"
  by (rule longest_exists)

theorem match_lines_longest_witness:
  "\<exists>J. match_lines [5, 7, 5] [7, 5, 5] = Some J \<and> matching [5 :: int, 7, 5] [7, 5, 5] (pairs_of 3 J) \<and> 2 \<le> length (pairs_of 3 J)"
proof -
  have m: "matching [5 :: int, 7, 5] [7, 5, 5] [(3, 2), (2, 1)]" by (simp add: matching_def before_def)
  have l: "length [5 :: int, 7, 5] = 3" by simp
  obtain J where J: "match_lines [5, 7, 5] [7, 5, 5] = Some J" "matching [5 :: int, 7, 5] [7, 5, 5] (pairs_of 3 J)"
    "\<forall>qs. matching [5 :: int, 7, 5] [7, 5, 5] qs \<longrightarrow> length qs \<le> length (pairs_of 3 J)"
    using match_lines_longest [of "[5, 7, 5]" "[7, 5, 5]"] unfolding l by blast
  from J(3) m have "length [(3 :: nat, 2 :: nat), (2, 1)] \<le> length (pairs_of 3 J)" by blast
  with J(1,2) show ?thesis by auto
qed

end
