(* ===== verification/Diffreg.thy ===== *)
theory Diffreg
  imports Difflcs
begin

text \<open>
  The rest of \<open>diff/diffreg.c\<close> for regular files in single-byte locales: the comparison of matched lines (\<open>check_sb\<close>), the list of changes (\<open>output\<close>) and
  their printing (\<open>change\<close>, \<open>range\<close>, \<open>fetch\<close>) as normal output and with \<open>-e\<close>, \<open>-f\<close> and \<open>-n\<close>, from two files whose contents are given.
\<close>

datatype dopt = DNormal | DEdit | DReverse | DNReverse

record diffopts =
  o_cmp :: difffl
  o_opt :: dopt
  o_a :: bool
  o_t :: bool
  o_B :: bool

section \<open>Checking\<close>

fun skipline :: "string \<Rightarrow> nat \<times> string" where
  "skipline [] = (1, [])"
| "skipline (c # s) = (if c = NL then (1, s) else (case skipline s of (k, s') \<Rightarrow> (Suc k, s')))"

definition getc :: "string \<Rightarrow> char option \<times> string" where
  "getc s = (case s of [] \<Rightarrow> (None, []) | c # s' \<Rightarrow> (Some c, s'))"

text \<open>What is counted and left when the lines differ at the character \<open>c\<close>.\<close>

definition chk_skip :: "char option \<Rightarrow> string \<Rightarrow> nat \<times> string" where
  "chk_skip c s = (if c = Some NL then (0, s) else skipline s)"

definition chk_differ :: "char option \<Rightarrow> char option \<Rightarrow> string \<Rightarrow> string \<Rightarrow> bool \<times> nat \<times> nat \<times> string \<times> string" where
  "chk_differ c d s0 s1 = (case chk_skip c s0 of (k0, t0) \<Rightarrow> case chk_skip d s1 of (k1, t1) \<Rightarrow> (False, k0, k1, t0, t1))"

text \<open>The loop over a pair of lines: whether they are equal, how many bytes were read of each file, and what is left of them.\<close>

function chk_plain :: "string \<Rightarrow> string \<Rightarrow> bool \<times> nat \<times> nat \<times> string \<times> string" where
  "chk_plain r0 r1 =
     (case getc r0 of
        (c, s0) \<Rightarrow> case getc r1 of
        (d, s1) \<Rightarrow>
          (case (if c \<noteq> d then chk_differ c d s0 s1
                 else if c = Some NL \<or> c = None then (True, 0, 0, s0, s1)
                 else chk_plain s0 s1) of
             (e, k0, k1, t0, t1) \<Rightarrow> (e, Suc k0, Suc k1, t0, t1)))"
  by pat_completeness auto
termination
  by (relation "measure (\<lambda>(r0, r1). length r0)") (auto simp: getc_def split: list.splits)

declare chk_plain.simps [simp del]

text \<open>With \<open>-b\<close>: the rest of a run of blanks that began with \<open>c\<close>.  With \<open>-w\<close>: blanks are skipped.\<close>

fun b_run :: "difffl \<Rightarrow> char \<Rightarrow> string \<Rightarrow> char option \<times> nat \<times> string" where
  "b_run fl c s =
     (if c = NL then (Some NL, 0, s)
      else (case s of
              [] \<Rightarrow> (None, 1, [])
            | c' # s' \<Rightarrow> if d_isspace fl c' then (case b_run fl c' s' of (r, k, t) \<Rightarrow> (r, Suc k, t)) else (Some c', 1, s')))"

fun w_run :: "difffl \<Rightarrow> char \<Rightarrow> string \<Rightarrow> char option \<times> nat \<times> string" where
  "w_run fl c s =
     (if d_isspace fl c \<and> c \<noteq> NL then
        (case s of [] \<Rightarrow> (None, 1, []) | c' # s' \<Rightarrow> (case w_run fl c' s' of (r, k, t) \<Rightarrow> (r, Suc k, t)))
      else (Some c, 0, s))"

declare b_run.simps [simp del] w_run.simps [simp del]

definition w_opt :: "difffl \<Rightarrow> char option \<Rightarrow> string \<Rightarrow> char option \<times> nat \<times> string" where
  "w_opt fl c s = (case c of None \<Rightarrow> (None, 0, s) | Some c \<Rightarrow> w_run fl c s)"

definition tran_opt :: "difffl \<Rightarrow> char option \<Rightarrow> int" where
  "tran_opt fl c = (case c of None \<Rightarrow> eof | Some c \<Rightarrow> chrtran fl (uchar c))"

definition chk_blanks :: "difffl \<Rightarrow> char option \<Rightarrow> string \<Rightarrow> char option \<Rightarrow> string \<Rightarrow>
    (char option \<times> nat \<times> string) \<times> (char option \<times> nat \<times> string)" where
  "chk_blanks fl c s0 d s1 =
     (if d_b fl \<and> c \<noteq> None \<and> d_isspace fl (the c) \<and> d \<noteq> None \<and> d_isspace fl (the d) then (b_run fl (the c) s0, b_run fl (the d) s1)
      else if d_w fl then (w_opt fl c s0, w_opt fl d s1)
      else ((c, 0, s0), (d, 0, s1)))"

lemma b_run_length: "length (snd (snd (b_run fl c s))) \<le> length s"
proof (induction fl c s rule: b_run.induct)
  case (1 fl c s)
  then show ?case by (subst b_run.simps) (auto split: list.splits prod.splits)
qed

lemma w_run_length: "length (snd (snd (w_run fl c s))) \<le> length s"
proof (induction fl c s rule: w_run.induct)
  case (1 fl c s)
  then show ?case by (subst w_run.simps) (auto split: list.splits prod.splits)
qed

lemma chk_blanks_length: "length (snd (snd (fst (chk_blanks fl c s0 d s1)))) \<le> length s0"
  using b_run_length [of fl "the c" s0] w_run_length [of fl "the c" s0]
  by (cases c) (simp_all add: chk_blanks_def w_opt_def)

lemma chk_blanks_less:
  "((c, n0, t0), (d, n1, t1)) = chk_blanks fl c0 s0 d0 s1 \<Longrightarrow> length t0 < Suc (length s0)"
  "((Some e, n0, t0), (d, n1, t1)) = chk_blanks fl None s0 d0 s1 \<Longrightarrow> False"
  using chk_blanks_length [of fl c0 s0 d0 s1] by (metis fst_conv snd_conv less_Suc_eq_le, auto simp: chk_blanks_def w_opt_def split: if_splits)

function chk_fold :: "difffl \<Rightarrow> string \<Rightarrow> string \<Rightarrow> bool \<times> nat \<times> nat \<times> string \<times> string" where
  "chk_fold fl r0 r1 =
     (case getc r0 of
        (c0, s0) \<Rightarrow> case getc r1 of
        (d0, s1) \<Rightarrow> case chk_blanks fl c0 s0 d0 s1 of
        ((c, n0, s0), (d, n1, s1)) \<Rightarrow>
          (case (if tran_opt fl c \<noteq> tran_opt fl d then chk_differ c d s0 s1
                 else if c = Some NL \<or> c = None then (True, 0, 0, s0, s1)
                 else chk_fold fl s0 s1) of
             (e, k0, k1, t0, t1) \<Rightarrow> (e, Suc (n0 + k0), Suc (n1 + k1), t0, t1)))"
  by pat_completeness auto
termination
  by (relation "measure (\<lambda>(fl, r0, r1). length r0)") (auto simp: getc_def split: list.splits dest: chk_blanks_less)

declare chk_fold.simps [simp del]

definition chk_pair :: "difffl \<Rightarrow> string \<Rightarrow> string \<Rightarrow> bool \<times> nat \<times> nat \<times> string \<times> string" where
  "chk_pair fl r0 r1 = (if d_b fl \<or> d_w fl \<or> d_i fl then chk_fold fl r0 r1 else chk_plain r0 r1)"

text \<open>\<open>check_sb\<close>: the state of its loop.\<close>

record chkst =
  k_J :: "nat \<Rightarrow> nat"
  k_j :: nat
  k_old :: nat
  k_new :: nat
  k_r0 :: string
  k_r1 :: string
  k_ixold :: "nat \<Rightarrow> nat"
  k_ixnew :: "nat \<Rightarrow> nat"

function chk_new :: "nat \<Rightarrow> chkst \<Rightarrow> chkst" where
  "chk_new n s =
     (if k_j s < n then
        (case skipline (k_r1 s) of
           (k, r1) \<Rightarrow> chk_new n (s\<lparr>k_new := k_new s + k, k_r1 := r1, k_ixnew := (k_ixnew s)(k_j s := k_new s + k), k_j := k_j s + 1\<rparr>))
      else s)"
  by pat_completeness auto
termination
  by (relation "measure (\<lambda>(n, s). n - k_j s)") auto

declare chk_new.simps [simp del]

definition chk_line :: "difffl \<Rightarrow> nat \<Rightarrow> chkst \<Rightarrow> chkst" where
  "chk_line fl i s =
     (if k_J s i = 0 then
        (case skipline (k_r0 s) of
           (k, r0) \<Rightarrow> s\<lparr>k_old := k_old s + k, k_r0 := r0, k_ixold := (k_ixold s)(i := k_old s + k)\<rparr>)
      else
        (let s = chk_new (k_J s i) s
         in case chk_pair fl (k_r0 s) (k_r1 s) of
              (e, k0, k1, r0, r1) \<Rightarrow>
                s\<lparr>k_J := (if e then k_J s else (k_J s)(i := 0)), k_old := k_old s + k0, k_new := k_new s + k1, k_r0 := r0, k_r1 := r1,
                  k_ixold := (k_ixold s)(i := k_old s + k0), k_ixnew := (k_ixnew s)(k_j s := k_new s + k1), k_j := k_j s + 1\<rparr>))"

definition check_sb :: "difffl \<Rightarrow> nat \<Rightarrow> nat \<Rightarrow> (nat \<Rightarrow> nat) \<Rightarrow> string \<Rightarrow> string \<Rightarrow> chkst" where
  "check_sb fl len0 len1 J f0 f1 =
     chk_new (len1 + 1) (fold (chk_line fl) [1..<Suc len0]
       \<lparr>k_J = J, k_j = 1, k_old = 0, k_new = 0, k_r0 = f0, k_r1 = f1, k_ixold = (\<lambda>i. 0), k_ixnew = (\<lambda>i. 0)\<rparr>)"

section \<open>The changes\<close>

text \<open>
  \<open>output\<close>: the arguments of the calls of \<open>change\<close>.  First without \<open>-e\<close>, then with \<open>-e\<close>, from the end.  Both store into \<open>J\<close>.
\<close>

type_synonym chg = "nat \<times> nat \<times> nat \<times> nat"

function out_skip :: "nat \<Rightarrow> (nat \<Rightarrow> nat) \<Rightarrow> nat \<Rightarrow> nat" where
  "out_skip m J i0 = (if i0 \<le> m \<and> J i0 = J (i0 - 1) + 1 then out_skip m J (i0 + 1) else i0)"
  by pat_completeness auto
termination
  by (relation "measure (\<lambda>(m, J, i0). m + 1 - i0)") auto

function out_zero :: "nat \<Rightarrow> (nat \<Rightarrow> nat) \<Rightarrow> nat \<Rightarrow> nat" where
  "out_zero m J i1 = (if i1 < m \<and> J (i1 + 1) = 0 then out_zero m J (i1 + 1) else i1)"
  by pat_completeness auto
termination
  by (relation "measure (\<lambda>(m, J, i1). m - i1)") auto

declare out_skip.simps [simp del] out_zero.simps [simp del]

lemma out_skip_ge: "i0 \<le> out_skip m J i0 \<and> (i0 \<le> m + 1 \<longrightarrow> out_skip m J i0 \<le> m + 1)"
proof (induction m J i0 rule: out_skip.induct)
  case (1 m J i0)
  then show ?case by (subst (1 2) out_skip.simps) auto
qed

lemma out_skip_stop: "out_skip m J i0 \<le> m \<Longrightarrow> J (out_skip m J i0) \<noteq> J (out_skip m J i0 - 1) + 1"
proof (induction m J i0 rule: out_skip.induct)
  case (1 m J i0)
  show ?case
  proof (cases "i0 \<le> m \<and> J i0 = J (i0 - 1) + 1")
    case True
    then have "out_skip m J i0 = out_skip m J (i0 + 1)" by (subst out_skip.simps) auto
    with 1 True show ?thesis by auto
  next
    case False
    then have "out_skip m J i0 = i0" by (subst out_skip.simps) auto
    with 1 False show ?thesis by auto
  qed
qed

lemma out_zero_ge: "i1 \<le> out_zero m J i1 \<and> (i1 \<le> m \<longrightarrow> out_zero m J i1 \<le> m)"
proof (induction m J i1 rule: out_zero.induct)
  case (1 m J i1)
  then show ?case by (subst (1 2) out_zero.simps) auto
qed

lemma out_zero_stop: "out_zero m J i1 < m \<Longrightarrow> J (out_zero m J i1 + 1) \<noteq> 0"
proof (induction m J i1 rule: out_zero.induct)
  case (1 m J i1)
  show ?case
  proof (cases "i1 < m \<and> J (i1 + 1) = 0")
    case True
    then have "out_zero m J i1 = out_zero m J (i1 + 1)" by (subst out_zero.simps) auto
    with 1 True show ?thesis by auto
  next
    case False
    then have "out_zero m J i1 = i1" by (subst out_zero.simps) auto
    with 1 False show ?thesis by auto
  qed
qed

function out_loop :: "nat \<Rightarrow> (nat \<Rightarrow> nat) \<Rightarrow> nat \<Rightarrow> chg list" where
  "out_loop m J i0 =
     (if 0 < i0 \<and> i0 \<le> m then
        (let a = out_skip m J i0; j0 = J (a - 1) + 1; i1 = out_zero m J (a - 1); j1 = J (i1 + 1) - 1
         in (a, i1, j0, j1) # out_loop m (J(i1 := j1)) (i1 + 1))
      else [])"
  by pat_completeness auto
termination
proof (relation "inv_image (less_than <*lex*> less_than) (\<lambda>(m, J, i0). (m + 1 - i0, if J i0 = J (i0 - 1) + 1 then 0 else 1 :: nat))", goal_cases)
  case 1
  show ?case by (intro wf_inv_image wf_lex_prod wf_less_than)
next
  case (2 m J i0 a j0 i1 j1)
  have a: "i0 \<le> a" "a \<le> m + 1" using out_skip_ge [of i0 m J] 2 by simp_all
  have i1: "a - 1 \<le> i1" "i1 \<le> m" using out_zero_ge [of "a - 1" m J] a 2 by simp_all
  show ?case
  proof (cases "i0 \<le> i1")
    case False
    with a i1 2 have e: "a = i0" "i1 = i0 - 1" by simp_all
    have "J i0 \<noteq> J (i0 - 1) + 1" using out_skip_stop [of m J i0] e 2 by simp
    moreover have "J i0 \<noteq> 0" using out_zero_stop [of m J "a - 1"] e 2 by auto
    ultimately show ?thesis using e 2 by auto
  next
    case True
    then have "m + 1 - (i1 + 1) < m + 1 - i0" using i1(2) by linarith
    then show ?thesis by simp
  qed
qed

declare out_loop.simps [simp del]

function ed_skip :: "(nat \<Rightarrow> nat) \<Rightarrow> nat \<Rightarrow> nat" where
  "ed_skip J i0 = (if 1 \<le> i0 \<and> J i0 = J (i0 + 1) - 1 \<and> J i0 \<noteq> 0 then ed_skip J (i0 - 1) else i0)"
  by pat_completeness auto
termination
  by (relation "measure (\<lambda>(J, i0). i0)") auto

function ed_zero :: "(nat \<Rightarrow> nat) \<Rightarrow> nat \<Rightarrow> nat" where
  "ed_zero J i1 = (if i1 > 1 \<and> J (i1 - 1) = 0 then ed_zero J (i1 - 1) else i1)"
  by pat_completeness auto
termination
  by (relation "measure (\<lambda>(J, i1). i1)") auto

declare ed_skip.simps [simp del] ed_zero.simps [simp del]

lemma ed_skip_le: "ed_skip J i0 \<le> i0"
proof (induction J i0 rule: ed_skip.induct)
  case (1 J i0)
  then show ?case by (subst ed_skip.simps) auto
qed

lemma ed_skip_stop: "1 \<le> ed_skip J i0 \<Longrightarrow> J (ed_skip J i0) \<noteq> 0 \<Longrightarrow> J (ed_skip J i0) \<noteq> J (ed_skip J i0 + 1) - 1"
proof (induction J i0 rule: ed_skip.induct)
  case (1 J i0)
  show ?case
  proof (cases "1 \<le> i0 \<and> J i0 = J (i0 + 1) - 1 \<and> J i0 \<noteq> 0")
    case True
    then have e: "ed_skip J i0 = ed_skip J (i0 - 1)" by (subst ed_skip.simps) (rule if_P)
    from "1.prems" show ?thesis unfolding e by (rule "1.IH" [OF True])
  next
    case False
    then have e: "ed_skip J i0 = i0" by (subst ed_skip.simps) (rule if_not_P)
    from "1.prems" False show ?thesis unfolding e by blast
  qed
qed

lemma ed_zero_range: "ed_zero J i1 \<le> i1 \<and> (1 \<le> i1 \<longrightarrow> 1 \<le> ed_zero J i1)"
proof (induction J i1 rule: ed_zero.induct)
  case (1 J i1)
  then show ?case by (subst (1 2) ed_zero.simps) auto
qed

lemma ed_zero_stop: "1 < ed_zero J i1 \<Longrightarrow> J (ed_zero J i1 - 1) \<noteq> 0"
proof (induction J i1 rule: ed_zero.induct)
  case (1 J i1)
  show ?case
  proof (cases "i1 > 1 \<and> J (i1 - 1) = 0")
    case True
    then have "ed_zero J i1 = ed_zero J (i1 - 1)" by (subst ed_zero.simps) auto
    with 1 True show ?thesis by auto
  next
    case False
    then have "ed_zero J i1 = i1" by (subst ed_zero.simps) auto
    with 1 False show ?thesis by auto
  qed
qed

function ed_loop :: "(nat \<Rightarrow> nat) \<Rightarrow> nat \<Rightarrow> chg list" where
  "ed_loop J i0 =
     (if 1 \<le> i0 then
        (let b = ed_skip J i0; j0 = J (b + 1) - 1; i1 = ed_zero J (b + 1); j1 = J (i1 - 1) + 1
         in (i1, b, j1, j0) # ed_loop (J(i1 := j1)) (i1 - 1))
      else [])"
  by pat_completeness auto
termination
proof (relation "inv_image (less_than <*lex*> less_than) (\<lambda>(J, i0). (i0, if J i0 = J (i0 + 1) - 1 \<and> J i0 \<noteq> 0 then 0 else 1 :: nat))", goal_cases)
  case 1
  show ?case by (intro wf_inv_image wf_lex_prod wf_less_than)
next
  case (2 J i0 b j0 i1 j1)
  have b: "b \<le> i0" using ed_skip_le [of J i0] 2 by simp
  have i1: "i1 \<le> b + 1" "1 \<le> i1" using ed_zero_range [of J "b + 1"] 2 by simp_all
  show ?case
  proof (cases "i1 - 1 < i0")
    case False
    with b i1 2 have e: "b = i0" "i1 = i0 + 1" by simp_all
    have nz: "J i0 \<noteq> 0" using ed_zero_stop [of J "b + 1"] e 2 by simp
    moreover have "J i0 \<noteq> J (i0 + 1) - 1" using ed_skip_stop [of J i0] e 2 nz by simp
    ultimately show ?thesis using e 2 by auto
  qed (use 2 in auto)
qed

declare ed_loop.simps [simp del]

definition outputs :: "dopt \<Rightarrow> nat \<Rightarrow> nat \<Rightarrow> (nat \<Rightarrow> nat) \<Rightarrow> chg list" where
  "outputs opt len0 len1 J =
     (let J = J(0 := 0, len0 + 1 := len1 + 1)
      in (if opt = DEdit then ed_loop J len0 else out_loop len0 J 1) @ (if len0 = 0 then [(1, 0, 1, len1)] else []))"

section \<open>Printing\<close>

text \<open>\<open>fetch\<close>: a line is read again from its place in the file.\<close>

fun fetch_chars :: "diffopts \<Rightarrow> nat \<Rightarrow> nat \<Rightarrow> string \<Rightarrow> string" where
  "fetch_chars fl 0 col s = []"
| "fetch_chars fl (Suc nc) col [] = (if o_a fl then NL # CHR 0x5C # '' No newline at end of file'' @ [NL] else [NL])"
| "fetch_chars fl (Suc nc) col (c # s) =
     (if c = TAB \<and> o_t fl then replicate (8 - col mod 8) (CHR '' '') @ fetch_chars fl nc (col + (8 - col mod 8)) s
      else c # fetch_chars fl nc (col + 1) s)"

definition diff_fetch :: "diffopts \<Rightarrow> (nat \<Rightarrow> nat) \<Rightarrow> nat \<Rightarrow> nat \<Rightarrow> string \<Rightarrow> string \<Rightarrow> string" where
  "diff_fetch fl f a b lb s = concat (map (\<lambda>i. s @ fetch_chars fl (f i - f (i - 1)) 0 (drop (f (i - 1)) lb)) [a..<Suc b])"

definition prange :: "nat \<Rightarrow> nat \<Rightarrow> string \<Rightarrow> string" where
  "prange a b sep = decimal (if a > b then b else a) @ (if a < b then sep @ decimal b else [])"

definition allblank :: "(nat \<Rightarrow> nat) \<Rightarrow> nat \<Rightarrow> nat \<Rightarrow> bool" where
  "allblank f a b = (\<forall>i\<in>set [a..<Suc b]. f i - f (i - 1) = 1)"

text \<open>\<open>change\<close>: what is printed, \<open>None\<close> if nothing is to be reported.\<close>

definition change :: "diffopts \<Rightarrow> (nat \<Rightarrow> nat) \<Rightarrow> (nat \<Rightarrow> nat) \<Rightarrow> string \<Rightarrow> string \<Rightarrow> chg \<Rightarrow> string option" where
  "change fl ixold ixnew f0 f1 ch =
     (case ch of
        (a, b, c, d) \<Rightarrow>
          if a > b \<and> c > d then None
          else if o_B fl \<and> allblank ixold a b \<and> allblank ixnew c d then None
          else
            (let op = (if a > b then ''a'' else if c > d then ''d'' else ''c'')
             in Some
               ((case o_opt fl of
                   DNormal \<Rightarrow> prange a b '','' @ op @ prange c d '','' @ [NL]
                 | DEdit \<Rightarrow> prange a b '','' @ op @ [NL]
                 | DReverse \<Rightarrow> op @ prange a b '' '' @ [NL]
                 | DNReverse \<Rightarrow>
                     if a > b then ''a'' @ decimal b @ '' '' @ decimal (d + 1 - c) @ [NL]
                     else ''d'' @ decimal a @ '' '' @ decimal (b + 1 - a) @ [NL] @
                       (if c > d then [] else ''a'' @ decimal b @ '' '' @ decimal (d + 1 - c) @ [NL])) @
                (if o_opt fl = DNormal then diff_fetch fl ixold a b f0 ''< '' @ (if a \<le> b \<and> c \<le> d then ''---'' @ [NL] else []) else []) @
                diff_fetch fl ixnew c d f1 (if o_opt fl = DNormal then ''> '' else []) @
                (if (o_opt fl = DEdit \<or> o_opt fl = DReverse) \<and> c \<le> d then ''.'' @ [NL] else []))))"

section \<open>The comparison of two files\<close>

definition BUFSIZ :: nat where
  "BUFSIZ = 8192"

text \<open>The first comparison, by blocks.\<close>

function same_loop :: "string \<Rightarrow> string \<Rightarrow> bool" where
  "same_loop f0 f1 =
     (let b0 = take BUFSIZ f0; b1 = take BUFSIZ f1
      in if length b0 \<noteq> length b1 then False
         else if b0 = [] then True
         else if b0 \<noteq> b1 then False
         else same_loop (drop BUFSIZ f0) (drop BUFSIZ f1))"
  by pat_completeness auto
termination
  by (relation "measure (\<lambda>(f0, f1). length f0)") (auto simp: BUFSIZ_def)

declare same_loop.simps [simp del]

definition asciifile :: "string \<Rightarrow> bool" where
  "asciifile f = (NUL \<notin> set (take BUFSIZ f))"

definition missnl :: "diffopts \<Rightarrow> string \<Rightarrow> string" where
  "missnl fl name = (if o_a fl then [] else ''Warning: missing newline at end of file '' @ name @ [NL])"

text \<open>
  \<open>diffreg\<close> from the point where both files are open.  \<open>None\<close> would mean that \<open>unravel\<close> does not end.
\<close>

definition diffreg :: "diffopts \<Rightarrow> string \<Rightarrow> string \<Rightarrow> string \<Rightarrow> string \<Rightarrow> outcome option" where
  "diffreg fl file1 file2 f0 f1 =
     (if length f0 = length f1 \<and> same_loop f0 f1 then Some \<lparr>out = [], err = [], status = 0\<rparr>
      else if \<not> o_a fl \<and> (\<not> asciifile f0 \<or> \<not> asciifile f1) then
        Some \<lparr>out = ''Binary files '' @ file1 @ '' and '' @ file2 @ '' differ'' @ [NL], err = [], status = 1\<rparr>
      else
        (case prepare (o_cmp fl) f0 of
           (h0, w0) \<Rightarrow> case prepare (o_cmp fl) f1 of
           (h1, w1) \<Rightarrow>
             (case match_lines h0 h1 of
                None \<Rightarrow> None
              | Some J \<Rightarrow>
                  (let s = check_sb (o_cmp fl) (length h0) (length h1) J f0 f1;
                       texts = List.map_filter (change fl (k_ixold s) (k_ixnew s) f0 f1) (outputs (o_opt fl) (length h0) (length h1) (k_J s))
                   in Some \<lparr>out = concat texts, err = (if w0 then missnl fl file1 else []) @ (if w1 then missnl fl file2 else []),
                            status = (if texts = [] then 0 else 1)\<rparr>))))"

section \<open>Lines and their hashes\<close>

definition full_line :: "string \<Rightarrow> bool" where
  "full_line l \<longleftrightarrow> (\<exists>b. l = b @ [NL] \<and> NL \<notin> set b)"

definition text_file :: "string \<Rightarrow> bool" where
  "text_file f \<longleftrightarrow> f = [] \<or> last f = NL"

definition plain :: "difffl \<Rightarrow> bool" where
  "plain fl \<longleftrightarrow> \<not> d_b fl \<and> \<not> d_w fl \<and> \<not> d_i fl"

definition line_hash :: "difffl \<Rightarrow> string \<Rightarrow> int" where
  "line_hash fl l = fst (readhash fl l)"

lemma lines_of_concat: "\<forall>l\<in>set ls. full_line l \<Longrightarrow> lines_of (concat ls) = ls"
  by (induction ls) (auto simp: full_line_def lines_of_NL)

lemma text_file_lines: "text_file f \<Longrightarrow> \<forall>l\<in>set (lines_of f). full_line l"
proof (induction f rule: length_induct)
  case (1 f)
  show ?case
  proof (cases "NL \<in> set f")
    case True
    then obtain b s where f: "f = b @ NL # s" "NL \<notin> set b" by (metis split_list_first)
    then have "length s < length f" "text_file s" using "1.prems" by (auto simp: text_file_def split: if_splits)
    with "1.IH" have "\<forall>l\<in>set (lines_of s). full_line l" by blast
    moreover have "full_line (b @ [NL])" using f(2) by (auto simp: full_line_def)
    ultimately show ?thesis using f by (simp add: lines_of_NL)
  next
    case False
    with "1.prems" have "f = []" by (auto simp: text_file_def) (metis last_in_set)
    then show ?thesis by simp
  qed
qed

lemma rh_plain_line:
  "NL \<notin> set b \<Longrightarrow> rh_plain fl sh sm ct (b @ NL # s) = (fst (rh_plain fl sh sm ct (b @ [NL])), s, False)"
  by (induction b arbitrary: sh sm ct) auto

lemma prepare_lines:
  assumes "plain fl" "\<forall>l\<in>set ls. full_line l \<and> line_hash fl l \<noteq> 0"
  shows "prepare fl (concat ls) = (map (line_hash fl) ls, False)"
  using assms(2)
proof (induction ls)
  case Nil
  then show ?case using assms(1) by (simp add: prepare.simps [of fl "[]"] readhash_def plain_def)
next
  case (Cons l ls)
  then obtain b where b: "l = b @ [NL]" "NL \<notin> set b" by (auto simp: full_line_def)
  have "readhash fl (l @ concat ls) = (line_hash fl l, concat ls, False)"
    using rh_plain_line [OF b(2), of fl 0 1 False "concat ls"] assms(1) b(1) by (simp add: readhash_def line_hash_def plain_def)
  with Cons show ?case by (simp add: prepare.simps [of fl "l @ concat ls"])
qed

text \<open>Lines of up to 256 characters have a hash other than 0.\<close>

lemma wrap16_low: "0 \<le> y \<Longrightarrow> y < 32768 \<Longrightarrow> wrap16 y = y"
  by (simp add: wrap16_def)

lemma wrap16_high:
  assumes "32768 \<le> y" "y < 65536"
  shows "wrap16 y = y - 65536"
proof -
  have "(y + 32768) mod 65536 = (y - 32768 + 65536) mod 65536" by (rule arg_cong [of _ _ "\<lambda>z. z mod 65536"]) simp
  also have "\<dots> = y - 32768" unfolding mod_add_self2 using assms by (intro mod_pos_pos_trivial) simp_all
  finally show ?thesis by (simp add: wrap16_def)
qed

lemma wrap16_sum:
  assumes "1 \<le> s" "s \<le> 98302"
  shows "wrap16 (s mod 65536) + wrap16 (s div 65536) \<noteq> 0"
proof (cases "s < 65536")
  case True
  with assms have "s div 65536 = 0" "s mod 65536 = s" by simp_all
  moreover have "wrap16 s \<noteq> 0" using wrap16_low [of s] wrap16_high [of s] True assms by (cases "s < 32768") simp_all
  moreover have "wrap16 0 = 0" by (simp add: wrap16_low)
  ultimately show ?thesis by simp
next
  case False
  have "s div 65536 = (s - 65536) div 65536 + 1" by (metis div_add_self2 diff_add_cancel zero_neq_numeral)
  with False assms have "s div 65536 = 1" by simp
  then have "s mod 65536 = s - 65536" using div_mult_mod_eq [of s 65536] by simp
  then show ?thesis using False assms \<open>s div 65536 = 1\<close> by (simp add: wrap16_low)
qed

lemma fold_sum_nonzero:
  assumes "1 \<le> x" "x < 2 ^ 31"
  shows "fold_sum x \<noteq> 0"
proof -
  have "0 \<le> x mod 65536" "x mod 65536 \<le> 65535" "0 \<le> x div 65536" "x div 65536 \<le> 32767" "x = 65536 * (x div 65536) + x mod 65536"
    using assms by simp_all
  then have "1 \<le> x mod 65536 + x div 65536" "x mod 65536 + x div 65536 \<le> 98302" using assms(1) by linarith+
  from wrap16_sum [OF this] show ?thesis by (simp add: fold_sum_def Let_def)
qed

lemma rh_plain_nonzero:
  assumes "\<not> d_i fl" "1 \<le> sm" "sm + int (length b) * 8355840 < 2 ^ 31" "NL \<notin> set b"
  shows "fst (rh_plain fl sh sm ct (b @ [NL])) \<noteq> 0"
  using assms(2-)
proof (induction b arbitrary: sh sm ct)
  case Nil
  then show ?case using fold_sum_nonzero [of sm] by simp
next
  case (Cons c b)
  let ?x = "uchar c * 2 ^ (sh mod 16)"
  have p: "(2 :: int) ^ (sh mod 16) \<le> 2 ^ 15" by (rule power_increasing) simp_all
  have le: "uchar c \<le> 255" using uchar_range(2) [of c] by linarith
  then have x: "0 \<le> ?x" "?x \<le> 8355840"
    using uchar_range(1) [of c] mult_mono [of "uchar c" 255 "2 ^ (sh mod 16)" "2 ^ 15"] p le by simp_all
  have "add_char fl (sh mod 16) sm c = sm + ?x"
    using x Cons.prems(1,2) by (simp add: add_char_def chrtran_def assms(1) wrap32_def)
  moreover have "fst (rh_plain fl (sh mod 16 + 7) (sm + ?x) True (b @ [NL])) \<noteq> 0"
  proof (rule Cons.IH)
    show "1 \<le> sm + ?x" "sm + ?x + int (length b) * 8355840 < 2 ^ 31" using x Cons.prems(1,2) by (linarith, simp)
  qed (use Cons.prems(3) in simp)
  ultimately show ?case using Cons.prems(3) by auto
qed

lemma short_line_hash:
  assumes "plain fl" "full_line l" "length l \<le> 257"
  shows "line_hash fl l \<noteq> 0"
proof -
  obtain b where "l = b @ [NL]" "NL \<notin> set b" using assms(2) by (auto simp: full_line_def)
  with assms rh_plain_nonzero [of fl 1 b 0 False] show ?thesis by (simp add: line_hash_def readhash_def plain_def)
qed

section \<open>The check of the matches\<close>

definition off :: "string list \<Rightarrow> nat \<Rightarrow> nat" where
  "off ls j = length (concat (take j ls))"

lemma off_0 [simp]: "off ls 0 = 0"
  by (simp add: off_def)

lemma off_Suc: "j < length ls \<Longrightarrow> off ls (Suc j) = off ls j + length (ls ! j)"
  by (simp add: off_def take_Suc_conv_app_nth)

lemma concat_drop: "j < length ls \<Longrightarrow> concat (drop j ls) = ls ! j @ concat (drop (Suc j) ls)"
  by (metis Cons_nth_drop_Suc concat.simps(2))

lemma drop_off: "drop (off ls j) (concat ls) = concat (drop j ls)"
proof -
  have "concat ls = concat (take j ls) @ concat (drop j ls)" by (metis append_take_drop_id concat_append)
  then show ?thesis by (simp add: off_def)
qed

lemma skipline_line: "full_line l \<Longrightarrow> skipline (l @ s) = (length l, s)"
proof -
  have "NL \<notin> set b \<Longrightarrow> skipline (b @ NL # s) = (Suc (length b), s)" for b by (induction b) auto
  then show "full_line l \<Longrightarrow> skipline (l @ s) = (length l, s)" by (auto simp: full_line_def)
qed

lemma chk_plain_line:
  assumes "full_line l0" "full_line l1"
  shows "chk_plain (l0 @ s0) (l1 @ s1) = (l0 = l1, length l0, length l1, s0, s1)"
proof -
  have sk: "NL \<notin> set b \<Longrightarrow> skipline (b @ NL # s) = (Suc (length b), s)" for b s
    using skipline_line [of "b @ [NL]" s] by (auto simp: full_line_def)
  have "chk_plain (b0 @ NL # s0) (b1 @ NL # s1) = (b0 = b1, Suc (length b0), Suc (length b1), s0, s1)"
    if "NL \<notin> set b0" "NL \<notin> set b1" for b0 b1
    using that
  proof (induction b0 arbitrary: b1)
    case Nil
    then show ?case
      by (cases b1) (auto simp: chk_plain.simps [of "NL # s0"] getc_def chk_differ_def chk_skip_def sk)
  next
    case (Cons c b0)
    show ?case
    proof (cases b1)
      case Nil
      with Cons.prems show ?thesis by (auto simp: chk_plain.simps [of "c # b0 @ NL # s0"] getc_def chk_differ_def chk_skip_def sk)
    next
      case b1: (Cons d b1')
      show ?thesis
      proof (cases "c = d")
        case True
        with Cons.IH [of b1'] Cons.prems b1 show ?thesis by (auto simp: chk_plain.simps [of "d # b0 @ NL # s0"] getc_def)
      next
        case False
        with Cons.prems b1 show ?thesis by (auto simp: chk_plain.simps [of "c # b0 @ NL # s0"] getc_def chk_differ_def chk_skip_def sk)
      qed
    qed
  qed
  with assms show ?thesis by (auto simp: full_line_def)
qed

text \<open>What is known of the second file, and of both, before line \<open>i\<close> of the first one.\<close>

definition new_ok :: "string list \<Rightarrow> chkst \<Rightarrow> bool" where
  "new_ok L1 s \<longleftrightarrow> 1 \<le> k_j s \<and> k_j s \<le> length L1 + 1 \<and> k_r1 s = concat (drop (k_j s - 1) L1) \<and> k_new s = off L1 (k_j s - 1) \<and>
     (\<forall>q. q < k_j s \<longrightarrow> k_ixnew s q = off L1 q)"

lemma new_ok_step:
  assumes "new_ok L1 s" "k_j s \<le> length L1"
    and "k_j s' = k_j s + 1" "k_r1 s' = concat (drop (k_j s) L1)" "k_new s' = k_new s + length (L1 ! (k_j s - 1))"
      "k_ixnew s' = (k_ixnew s)(k_j s := k_new s + length (L1 ! (k_j s - 1)))"
  shows "new_ok L1 s'"
proof -
  have "off L1 (k_j s) = k_new s + length (L1 ! (k_j s - 1))"
    using off_Suc [of "k_j s - 1" L1] assms(1,2) by (cases "k_j s") (auto simp: new_ok_def)
  with assms show ?thesis by (auto simp: new_ok_def less_Suc_eq)
qed

lemma chk_new_ok:
  assumes "new_ok L1 s" "k_j s \<le> n" "n \<le> length L1 + 1" "\<forall>l\<in>set L1. full_line l"
  shows "new_ok L1 (chk_new n s) \<and> k_j (chk_new n s) = n \<and> k_J (chk_new n s) = k_J s \<and> k_r0 (chk_new n s) = k_r0 s \<and>
    k_old (chk_new n s) = k_old s \<and> k_ixold (chk_new n s) = k_ixold s"
  using assms
proof (induction n s rule: chk_new.induct)
  case (1 n s)
  show ?case
  proof (cases "k_j s < n")
    case True
    then have j: "k_j s - 1 < length L1" "Suc (k_j s - 1) = k_j s" using "1.prems"(1,3) by (auto simp: new_ok_def)
    let ?l = "L1 ! (k_j s - 1)"
    have "skipline (k_r1 s) = (length ?l, concat (drop (k_j s) L1))"
      using skipline_line [of ?l "concat (drop (k_j s) L1)"] concat_drop [OF j(1)] "1.prems"(1,4) nth_mem [OF j(1)] unfolding j(2)
      by (simp add: new_ok_def)
    note sk = this
    let ?s = "s\<lparr>k_new := k_new s + length ?l, k_r1 := concat (drop (k_j s) L1), k_ixnew := (k_ixnew s)(k_j s := k_new s + length ?l), k_j := k_j s + 1\<rparr>"
    have ok: "new_ok L1 ?s" by (rule new_ok_step [OF "1.prems"(1)]) (use j in auto)
    have "chk_new n s = chk_new n ?s" using True sk by (subst chk_new.simps) simp
    moreover have "new_ok L1 (chk_new n ?s) \<and> k_j (chk_new n ?s) = n \<and> k_J (chk_new n ?s) = k_J ?s \<and> k_r0 (chk_new n ?s) = k_r0 ?s \<and>
      k_old (chk_new n ?s) = k_old ?s \<and> k_ixold (chk_new n ?s) = k_ixold ?s"
      using "1.IH" [OF True sk [symmetric] ok] True "1.prems"(3,4) by simp
    ultimately show ?thesis by simp
  next
    case False
    with "1.prems" show ?thesis by (simp add: chk_new.simps [of n s])
  qed
qed

definition chk_ok :: "string list \<Rightarrow> string list \<Rightarrow> (nat \<Rightarrow> nat) \<Rightarrow> nat \<Rightarrow> chkst \<Rightarrow> bool" where
  "chk_ok L0 L1 J i s \<longleftrightarrow> new_ok L1 s \<and> k_r0 s = concat (drop (i - 1) L0) \<and> k_old s = off L0 (i - 1) \<and>
     (\<forall>q. q < i \<longrightarrow> k_ixold s q = off L0 q) \<and> (\<forall>p. i \<le> p \<longrightarrow> k_J s p = J p) \<and>
     (\<forall>p. i \<le> p \<and> p \<le> length L0 \<and> J p \<noteq> 0 \<longrightarrow> k_j s \<le> J p) \<and>
     (\<forall>p. 1 \<le> p \<and> p < i \<and> k_J s p \<noteq> 0 \<longrightarrow> k_J s p = J p \<and> L0 ! (p - 1) = L1 ! (J p - 1))"

text \<open>A vector that ascends within the second file.\<close>

definition rising :: "nat \<Rightarrow> nat \<Rightarrow> (nat \<Rightarrow> nat) \<Rightarrow> bool" where
  "rising len0 len1 J \<longleftrightarrow> (\<forall>p. 1 \<le> p \<and> p \<le> len0 \<longrightarrow> J p \<le> len1) \<and>
     (\<forall>p q. 1 \<le> p \<and> p < q \<and> q \<le> len0 \<and> J p \<noteq> 0 \<and> J q \<noteq> 0 \<longrightarrow> J p < J q)"

lemma chk_ok_step:
  assumes ok: "chk_ok L0 L1 J i s" and new: "new_ok L1 s'"
    and f: "k_r0 s' = concat (drop i L0)" "k_old s' = off L0 i" "k_ixold s' = (k_ixold s)(i := off L0 i)"
    and J: "\<And>p. p \<noteq> i \<Longrightarrow> k_J s' p = k_J s p" "k_J s' i \<noteq> 0 \<Longrightarrow> k_J s' i = J i \<and> L0 ! (i - 1) = L1 ! (J i - 1)"
    and j: "\<And>p. i + 1 \<le> p \<Longrightarrow> p \<le> length L0 \<Longrightarrow> J p \<noteq> 0 \<Longrightarrow> k_j s' \<le> J p"
  shows "chk_ok L0 L1 J (i + 1) s'"
proof -
  have "k_ixold s' q = off L0 q" if "q < i + 1" for q using ok that f(3) unfolding chk_ok_def by (cases "q = i") auto
  moreover have "k_J s' p = J p" if "i + 1 \<le> p" for p using ok that J(1) [of p] unfolding chk_ok_def by auto
  moreover have "k_J s' p = J p \<and> L0 ! (p - 1) = L1 ! (J p - 1)" if "1 \<le> p" "p < i + 1" "k_J s' p \<noteq> 0" for p
  proof (cases "p = i")
    case False
    with that J(1) [of p] have "1 \<le> p \<and> p < i \<and> k_J s p \<noteq> 0" "k_J s' p = k_J s p" by auto
    with ok show ?thesis unfolding chk_ok_def by auto
  qed (use J(2) that in simp)
  ultimately show ?thesis using new f j unfolding chk_ok_def by simp
qed

lemma chk_line_ok:
  assumes ok: "chk_ok L0 L1 J i s" and i: "1 \<le> i" "i \<le> length L0" and "plain fl" "rising (length L0) (length L1) J"
    and full: "\<forall>l\<in>set L0. full_line l" "\<forall>l\<in>set L1. full_line l"
  shows "chk_ok L0 L1 J (i + 1) (chk_line fl i s)"
proof -
  let ?l = "L0 ! (i - 1)"
  have i': "i - 1 < length L0" "Suc (i - 1) = i" using i by simp_all
  have r0: "k_r0 s = ?l @ concat (drop i L0)" using ok concat_drop [OF i'(1)] unfolding i'(2) by (simp add: chk_ok_def)
  have old: "off L0 i = k_old s + length ?l" using off_Suc [OF i'(1)] ok unfolding i'(2) by (simp add: chk_ok_def)
  have l: "full_line ?l" using full(1) nth_mem [OF i'(1)] by blast
  have Ji: "k_J s i = J i" using ok by (simp add: chk_ok_def)
  show ?thesis
  proof (cases "J i = 0")
    case True
    let ?s = "s\<lparr>k_old := k_old s + length ?l, k_r0 := concat (drop i L0), k_ixold := (k_ixold s)(i := k_old s + length ?l)\<rparr>"
    have "chk_line fl i s = ?s" using skipline_line [OF l, of "concat (drop i L0)"] True Ji r0 by (simp add: chk_line_def)
    moreover have "chk_ok L0 L1 J (i + 1) ?s"
    proof (rule chk_ok_step [OF ok])
      show "new_ok L1 ?s" using ok unfolding chk_ok_def new_ok_def by simp
      show "k_j ?s \<le> J p" if "i + 1 \<le> p" "p \<le> length L0" "J p \<noteq> 0" for p using ok that unfolding chk_ok_def by simp
    qed (use old True Ji in simp_all)
    ultimately show ?thesis by simp
  next
    case False
    let ?n = "J i" let ?t = "chk_new ?n s" let ?m = "L1 ! (?n - 1)"
    have n: "k_j s \<le> ?n" "?n \<le> length L1 + 1" "?n - 1 < length L1" "Suc (?n - 1) = ?n" using ok False i assms(5) by (auto simp: chk_ok_def rising_def)
    have "new_ok L1 s" using ok by (simp add: chk_ok_def)
    note t = chk_new_ok [OF this n(1,2) full(2)]
    have r1: "k_r1 ?t = ?m @ concat (drop ?n L1)" using t concat_drop [OF n(3)] unfolding n(4) by (simp add: new_ok_def)
    have m: "full_line ?m" using full(2) nth_mem [OF n(3)] by blast
    let ?s = "?t\<lparr>k_J := (if ?l = ?m then k_J ?t else (k_J ?t)(i := 0)), k_old := k_old ?t + length ?l, k_new := k_new ?t + length ?m,
      k_r0 := concat (drop i L0), k_r1 := concat (drop ?n L1), k_ixold := (k_ixold ?t)(i := k_old ?t + length ?l),
      k_ixnew := (k_ixnew ?t)(k_j ?t := k_new ?t + length ?m), k_j := k_j ?t + 1\<rparr>"
    have eq: "chk_line fl i s = ?s"
      using chk_plain_line [OF l m, of "concat (drop i L0)" "concat (drop ?n L1)"] False Ji r0 r1 t assms(4)
      by (simp add: chk_line_def chk_pair_def plain_def Let_def)
    have "chk_ok L0 L1 J (i + 1) ?s"
    proof (rule chk_ok_step [OF ok])
      show "new_ok L1 ?s" by (rule new_ok_step [of L1 ?t]) (use t n in auto)
      show "k_j ?s \<le> J p" if "i + 1 \<le> p" "p \<le> length L0" "J p \<noteq> 0" for p
      proof -
        have "J i < J p" using assms(5) that i False unfolding rising_def by simp
        then show ?thesis using t by simp
      qed
    qed (use t old Ji in \<open>simp_all split: if_splits\<close>)
    then show ?thesis unfolding eq .
  qed
qed

lemma check_sb_ok:
  assumes "plain fl" "rising (length L0) (length L1) J" "\<forall>l\<in>set L0. full_line l" "\<forall>l\<in>set L1. full_line l"
    and s: "s = check_sb fl (length L0) (length L1) J (concat L0) (concat L1)"
  shows "\<forall>q \<le> length L0. k_ixold s q = off L0 q" "\<forall>q \<le> length L1. k_ixnew s q = off L1 q"
    "\<forall>p. 1 \<le> p \<and> p \<le> length L0 \<and> k_J s p \<noteq> 0 \<longrightarrow> k_J s p = J p \<and> L0 ! (p - 1) = L1 ! (J p - 1)"
proof -
  let ?s = "\<lparr>k_J = J, k_j = 1, k_old = 0, k_new = 0, k_r0 = concat L0, k_r1 = concat L1, k_ixold = (\<lambda>i. 0), k_ixnew = (\<lambda>i. 0)\<rparr>"
  let ?f = "\<lambda>i. fold (chk_line fl) [1..<Suc i] ?s"
  have "chk_ok L0 L1 J (Suc i) (?f i)" if "i \<le> length L0" for i
    using that
  proof (induction i)
    case 0
    have "1 \<le> J p" if "J p \<noteq> 0" for p using that by simp
    then show ?case by (simp add: chk_ok_def new_ok_def)
  next
    case (Suc i)
    with chk_line_ok [OF _ _ _ assms(1-4), of "Suc i" "?f i"] show ?case by simp
  qed
  then have ok: "chk_ok L0 L1 J (Suc (length L0)) (?f (length L0))" by simp
  then have "new_ok L1 (?f (length L0))" "k_j (?f (length L0)) \<le> length L1 + 1" by (simp_all add: chk_ok_def new_ok_def)
  note t = chk_new_ok [OF this order.refl assms(4)]
  show "\<forall>q \<le> length L0. k_ixold s q = off L0 q" "\<forall>q \<le> length L1. k_ixnew s q = off L1 q"
    "\<forall>p. 1 \<le> p \<and> p \<le> length L0 \<and> k_J s p \<noteq> 0 \<longrightarrow> k_J s p = J p \<and> L0 ! (p - 1) = L1 ! (J p - 1)"
    using ok t unfolding s check_sb_def by (auto simp: chk_ok_def new_ok_def)
qed

section \<open>The changes as a patch\<close>

text \<open>
  \<open>J\<close> as the loop of \<open>output\<close> finds it at line \<open>i0\<close>: the lines of the first file before \<open>i0\<close> have been treated, and so have \<open>J (i0 - 1)\<close> lines of the
  second one.
\<close>

definition out_ok :: "string list \<Rightarrow> string list \<Rightarrow> (nat \<Rightarrow> nat) \<Rightarrow> nat \<Rightarrow> bool" where
  "out_ok L0 L1 J i0 \<longleftrightarrow>
     1 \<le> i0 \<and> i0 \<le> length L0 + 1 \<and> J (length L0 + 1) = length L1 + 1 \<and> J (i0 - 1) \<le> length L1 \<and>
     (i0 = length L0 + 1 \<longrightarrow> J (length L0) = length L1) \<and>
     (\<forall>p. i0 \<le> p \<and> p \<le> length L0 \<and> J p \<noteq> 0 \<longrightarrow> J (i0 - 1) < J p \<and> J p \<le> length L1 \<and> L0 ! (p - 1) = L1 ! (J p - 1)) \<and>
     (\<forall>p q. i0 \<le> p \<and> p < q \<and> q \<le> length L0 \<and> J p \<noteq> 0 \<and> J q \<noteq> 0 \<longrightarrow> J p < J q)"

lemma out_skip_same:
  assumes "i0 \<le> p" "p < out_skip m J i0"
  shows "p \<le> m \<and> J p = J (p - 1) + 1"
  using assms
proof (induction m J i0 rule: out_skip.induct)
  case (1 m J i0)
  show ?case
  proof (cases "i0 \<le> m \<and> J i0 = J (i0 - 1) + 1")
    case True
    then have "out_skip m J i0 = out_skip m J (i0 + 1)" by (subst out_skip.simps) auto
    with 1 True show ?thesis by (cases "p = i0") auto
  next
    case False
    then have "out_skip m J i0 = i0" by (subst out_skip.simps) auto
    with "1.prems" show ?thesis by simp
  qed
qed

lemma out_zero_zero:
  assumes "i1 < p" "p \<le> out_zero m J i1"
  shows "J p = 0"
  using assms
proof (induction m J i1 rule: out_zero.induct)
  case (1 m J i1)
  show ?case
  proof (cases "i1 < m \<and> J (i1 + 1) = 0")
    case True
    then have "out_zero m J i1 = out_zero m J (i1 + 1)" by (subst out_zero.simps) auto
    with 1 True show ?thesis by (cases "p = i1 + 1") auto
  next
    case False
    then have "out_zero m J i1 = i1" by (subst out_zero.simps) auto
    with "1.prems" show ?thesis by simp
  qed
qed

text \<open>The lines over which the loop skips are the same in both files.\<close>

lemma out_skip_lines:
  assumes "out_ok L0 L1 J i0" "a = out_skip (length L0) J i0" "k \<le> a - i0"
  shows "J (i0 + k - 1) = J (i0 - 1) + k \<and> take k (drop (i0 - 1) L0) = take k (drop (J (i0 - 1)) L1) \<and> J (i0 + k - 1) \<le> length L1"
  using assms(3)
proof (induction k)
  case 0
  then show ?case using assms(1) by (simp add: out_ok_def)
next
  case (Suc k)
  let ?p = "i0 + k"
  have i0: "1 \<le> i0" using assms(1) by (simp add: out_ok_def)
  have p: "?p \<le> length L0" "J ?p = J (?p - 1) + 1" using out_skip_same [of i0 ?p "length L0" J] Suc.prems assms(2) by auto
  then have e: "L0 ! (?p - 1) = L1 ! (J ?p - 1)" "J ?p \<le> length L1" using assms(1) unfolding out_ok_def by (metis le_add1 add_is_0 one_neq_zero)+
  have IH: "J (?p - 1) = J (i0 - 1) + k" "take k (drop (i0 - 1) L0) = take k (drop (J (i0 - 1)) L1)" using Suc by simp_all
  have "take (Suc k) (drop (i0 - 1) L0) = take k (drop (i0 - 1) L0) @ [L0 ! (?p - 1)]"
    using i0 p(1) by (subst take_Suc_conv_app_nth) (auto simp: add.commute)
  moreover have "take (Suc k) (drop (J (i0 - 1)) L1) = take k (drop (J (i0 - 1)) L1) @ [L1 ! (J (i0 - 1) + k)]"
    using e(2) p(2) IH(1) by (subst take_Suc_conv_app_nth) auto
  ultimately show ?case using IH p e i0 by simp
qed

text \<open>
  The commands of \<open>diff -n\<close>, applied to the lines of a file of which \<open>pos\<close> have been copied or deleted: \<open>d\<close> with a line and a number of lines deletes
  them, \<open>a\<close> adds the lines that follow the command behind a line.
\<close>

definition cmd_line :: "char \<Rightarrow> nat \<Rightarrow> nat \<Rightarrow> string" where
  "cmd_line c n k = c # decimal n @ '' '' @ decimal k @ [NL]"

definition parse_cmd :: "string \<Rightarrow> (char \<times> nat \<times> nat) option" where
  "parse_cmd l =
     (case l of
        [] \<Rightarrow> None
      | c # l' \<Rightarrow>
          (let n = takeWhile is_digit l'; r = dropWhile is_digit l'; k = takeWhile is_digit (tl r)
           in if n \<noteq> [] \<and> k \<noteq> [] \<and> r = CHR '' '' # k @ [NL] then Some (c, undecimal n, undecimal k) else None))"

function rcs_patch :: "nat \<Rightarrow> string list \<Rightarrow> string list \<Rightarrow> string list option" where
  "rcs_patch pos [] f = Some f"
| "rcs_patch pos (l # ls) f =
     (case parse_cmd l of
        None \<Rightarrow> None
      | Some (c, n, k) \<Rightarrow>
          if c = CHR ''d'' then
            if pos < n then map_option ((@) (take (n - 1 - pos) f)) (rcs_patch (n - 1 + k) ls (drop (n - 1 - pos + k) f)) else None
          else if c = CHR ''a'' then
            if pos \<le> n then map_option (\<lambda>r. take (n - pos) f @ take k ls @ r) (rcs_patch n (drop k ls) (drop (n - pos) f)) else None
          else None)"
  by pat_completeness auto
termination
  by (relation "measure (\<lambda>(pos, ls, f). length ls)") auto

lemma parse_cmd_line: "parse_cmd (cmd_line c n k) = Some (c, n, k)"
proof -
  have d: "takeWhile is_digit (decimal m @ x # xs) = decimal m" "dropWhile is_digit (decimal m @ x # xs) = x # xs" if "\<not> is_digit x" for m x xs
    using that decimal_digits by (auto simp: takeWhile_append dropWhile_append)
  have n: "\<not> is_digit (CHR '' '')" "\<not> is_digit NL" by (simp_all add: is_digit_def uchar_def)
  show ?thesis using d [OF n(1)] d [OF n(2), of k "[]"] by (simp add: parse_cmd_def cmd_line_def Let_def)
qed

fun chg_lines :: "string list \<Rightarrow> chg \<Rightarrow> string list" where
  "chg_lines L1 (a, b, c, d) =
     (if a > b \<and> c > d then []
      else (if a > b then [cmd_line (CHR ''a'') b (d + 1 - c)]
            else cmd_line (CHR ''d'') a (b + 1 - a) # (if c > d then [] else [cmd_line (CHR ''a'') b (d + 1 - c)])) @
        take (d + 1 - c) (drop (c - 1) L1))"

lemma rcs_patch_chg:
  assumes "pos < a" "a \<le> b + 1" "1 \<le> c" "c \<le> d + 1" "d \<le> length L1" "\<not> (a > b \<and> c > d)"
  shows "rcs_patch pos (chg_lines L1 (a, b, c, d) @ ls) (drop pos L0) =
    map_option (\<lambda>r. take (a - 1 - pos) (drop pos L0) @ take (d + 1 - c) (drop (c - 1) L1) @ r) (rcs_patch b ls (drop b L0))"
proof -
  have len: "length (take (d + 1 - c) (drop (c - 1) L1)) = d + 1 - c" using assms(3-5) by simp
  show ?thesis
  proof (cases "a > b")
    case True
    then have "a = b + 1" using assms(2) by simp
    with assms len show ?thesis by (simp add: parse_cmd_line drop_drop)
  next
    case False
    have e: "a - 1 + (b + 1 - a) = b" "a - 1 - pos + (b + 1 - a) + pos = b" using False assms(1) by simp_all
    have dr: "drop (a - 1 - pos + (b + 1 - a)) (drop pos L0) = drop b L0" unfolding drop_drop e ..
    show ?thesis
    proof (cases "c > d")
      case True
      with False assms e dr show ?thesis by (simp add: parse_cmd_line)
    next
      case c: False
      with False assms len e dr show ?thesis by (simp add: parse_cmd_line option.map_comp comp_def)
    qed
  qed
qed

lemma out_ok_facts:
  assumes ok: "out_ok L0 L1 J i0" and "i0 \<le> length L0" and a: "a = out_skip (length L0) J i0" and i1: "i1 = out_zero (length L0) J (a - 1)"
    and j1: "j1 = J (i1 + 1) - 1"
  shows "i0 \<le> a" "a \<le> length L0 + 1" "a \<le> i1 + 1" "i1 \<le> length L0" "J (a - 1) \<le> j1" "j1 \<le> length L1" "out_ok L0 L1 (J(i1 := j1)) (i1 + 1)"
    "i1 + 1 < a \<or> j1 < J (a - 1) + 1 \<and> i1 < a \<Longrightarrow> a = length L0 + 1"
proof -
  note o = ok [unfolded out_ok_def]
  show b: "i0 \<le> a" "a \<le> length L0 + 1" using out_skip_ge [of i0 "length L0" J] o a by simp_all
  show c: "a \<le> i1 + 1" "i1 \<le> length L0" using out_zero_ge [of "a - 1" "length L0" J] b(2) i1 by linarith+
  have Ja: "J (a - 1) = J (i0 - 1) + (a - i0)" "J (a - 1) \<le> length L1" using out_skip_lines [OF ok a order.refl] b(1) by simp_all
  have nz: "J (i1 + 1) \<noteq> 0" using out_zero_stop [of "length L0" J "a - 1"] i1 c(2) o by (cases "i1 < length L0") auto
  have gt: "J (a - 1) < J (i1 + 1)"
  proof (cases "i1 = length L0")
    case True
    then show ?thesis using o Ja(2) by simp
  next
    case False
    then have lt: "i1 + 1 \<le> length L0" using c(2) by simp
    show ?thesis
    proof (cases "a = i0")
      case True
      then show ?thesis using o nz lt b c by simp
    next
      case False
      then have "i0 \<le> a - 1" "a - 1 < i1 + 1" "J (a - 1) \<noteq> 0" using b(1) c(1) o Ja(1) by simp_all
      then show ?thesis using o nz lt by blast
    qed
  qed
  then show j: "J (a - 1) \<le> j1" using j1 by simp
  show j': "j1 \<le> length L1"
  proof (cases "i1 = length L0")
    case False
    then have "J (i1 + 1) \<le> length L1" using o nz b(1) c by simp
    then show ?thesis using j1 by simp
  qed (use o j1 in simp)
  have up: "j1 < J p" if "i1 + 1 \<le> p" "p \<le> length L0" "J p \<noteq> 0" for p
  proof (cases "p = i1 + 1")
    case False
    then have "i0 \<le> i1 + 1" "i1 + 1 < p" using that(1) b(1) c(1) by simp_all
    then have "J (i1 + 1) < J p" using o nz that(2,3) by blast
    then show ?thesis using j1 by simp
  qed (use j1 nz in simp)
  show "out_ok L0 L1 (J(i1 := j1)) (i1 + 1)" unfolding out_ok_def
  proof (intro conjI allI impI)
    fix p assume p: "i1 + 1 \<le> p \<and> p \<le> length L0 \<and> (J(i1 := j1)) p \<noteq> 0"
    then have q: "i0 \<le> p \<and> p \<le> length L0 \<and> J p \<noteq> 0" "p \<noteq> i1" using b(1) c(1) by auto
    then show "(J(i1 := j1)) (i1 + 1 - 1) < (J(i1 := j1)) p" using up [of p] p by simp
    show "(J(i1 := j1)) p \<le> length L1" "L0 ! (p - 1) = L1 ! ((J(i1 := j1)) p - 1)" using o q by simp_all
  next
    fix p q assume "i1 + 1 \<le> p \<and> p < q \<and> q \<le> length L0 \<and> (J(i1 := j1)) p \<noteq> 0 \<and> (J(i1 := j1)) q \<noteq> 0"
    moreover from this have "p \<noteq> i1" "q \<noteq> i1" "i0 \<le> p" using b(1) c(1) by auto
    ultimately show "(J(i1 := j1)) p < (J(i1 := j1)) q" using o by simp
  qed (use c(2) o j' j1 in auto)
  show "a = length L0 + 1" if "i1 + 1 < a \<or> j1 < J (a - 1) + 1 \<and> i1 < a"
  proof (rule ccontr)
    assume "a \<noteq> length L0 + 1"
    then have "a \<le> length L0" using b(2) by simp
    then have st: "J a \<noteq> J (a - 1) + 1" using out_skip_stop [of "length L0" J i0] a by simp
    have "i1 + 1 = a" "j1 = J (a - 1)" using that c(1) j by simp_all
    then show False using st j1 nz by simp
  qed
qed

lemma out_loop_patch:
  assumes "out_ok L0 L1 J i0"
  shows "rcs_patch (i0 - 1) (concat (map (chg_lines L1) (out_loop (length L0) J i0))) (drop (i0 - 1) L0) = Some (drop (J (i0 - 1)) L1)"
  using assms
proof (induction "length L0" J i0 rule: out_loop.induct)
  case (1 J i0)
  note ok = "1.prems"
  show ?case
  proof (cases "i0 \<le> length L0")
    case False
    with ok have "i0 = length L0 + 1" "J (length L0) = length L1" by (auto simp: out_ok_def)
    then show ?thesis by (simp add: out_loop.simps)
  next
    case True
    have i0: "0 < i0 \<and> i0 \<le> length L0" using True ok by (simp add: out_ok_def)
    define a i1 j1 where d: "a = out_skip (length L0) J i0" "i1 = out_zero (length L0) J (a - 1)" "j1 = J (i1 + 1) - 1"
    note f = out_ok_facts [OF ok True d]
    have step: "out_loop (length L0) J i0 = (a, i1, J (a - 1) + 1, j1) # out_loop (length L0) (J(i1 := j1)) (i1 + 1)"
      using i0 by (subst out_loop.simps) (simp add: Let_def d)
    have IH: "rcs_patch i1 (concat (map (chg_lines L1) (out_loop (length L0) (J(i1 := j1)) (i1 + 1)))) (drop i1 L0) = Some (drop j1 L1)"
      using "1.hyps" [OF i0 refl refl refl refl] f(7) unfolding d by simp
    have sk: "J (a - 1) = J (i0 - 1) + (a - i0)" "take (a - i0) (drop (i0 - 1) L0) = take (a - i0) (drop (J (i0 - 1)) L1)"
      using out_skip_lines [OF ok d(1) order.refl] f(1) by simp_all
    have rest: "drop (J (i0 - 1)) L1 = take (a - i0) (drop (J (i0 - 1)) L1) @ drop (J (a - 1)) L1"
      unfolding sk(1) by (metis add.commute append_take_drop_id drop_drop)
    show ?thesis
    proof (cases "a > i1 \<and> J (a - 1) + 1 > j1")
      case True
      then have e: "a = length L0 + 1" "i1 = length L0" "J (a - 1) = j1" using f(3,4,5,8) by auto
      then have "j1 = length L1" using d(3) ok by (simp add: out_ok_def)
      moreover have "drop (i0 - 1) L0 = take (a - i0) (drop (i0 - 1) L0)" using e(1) i0 by simp
      ultimately show ?thesis using True rest sk(2) e unfolding step by (simp add: out_loop.simps)
    next
      case False
      have "drop (J (a - 1)) L1 = take (j1 - J (a - 1)) (drop (J (a - 1)) L1) @ drop j1 L1"
        using f(5) by (metis append_take_drop_id drop_drop le_add_diff_inverse2)
      moreover have "a - 1 - (i0 - 1) = a - i0" using i0 f(1) by simp
      moreover have "rcs_patch (i0 - 1) (chg_lines L1 (a, i1, J (a - 1) + 1, j1) @ ls) (drop (i0 - 1) L0) =
        map_option (\<lambda>r. take (a - 1 - (i0 - 1)) (drop (i0 - 1) L0) @ take (j1 + 1 - (J (a - 1) + 1)) (drop (J (a - 1) + 1 - 1) L1) @ r)
          (rcs_patch i1 ls (drop i1 L0))" for ls
        by (rule rcs_patch_chg) (use False f i0 in auto)
      ultimately show ?thesis using rest sk(2) IH unfolding step by (simp del: chg_lines.simps)
    qed
  qed
qed

lemma out_loop_range:
  assumes "out_ok L0 L1 J i0" "(a, b, c, d) \<in> set (out_loop (length L0) J i0)"
  shows "1 \<le> c \<and> d \<le> length L1"
  using assms
proof (induction "length L0" J i0 rule: out_loop.induct)
  case (1 J i0)
  note ok = "1.prems"(1)
  have i0: "0 < i0 \<and> i0 \<le> length L0" using "1.prems"(2) by (subst (asm) out_loop.simps) (auto split: if_splits)
  define a' i1 j1 where e: "a' = out_skip (length L0) J i0" "i1 = out_zero (length L0) J (a' - 1)" "j1 = J (i1 + 1) - 1"
  note f = out_ok_facts [OF ok conjunct2 [OF i0] e]
  have step: "out_loop (length L0) J i0 = (a', i1, J (a' - 1) + 1, j1) # out_loop (length L0) (J(i1 := j1)) (i1 + 1)"
    using i0 by (subst out_loop.simps) (simp add: Let_def e)
  from "1.prems"(2) consider "c = J (a' - 1) + 1" "d = j1" | "(a, b, c, d) \<in> set (out_loop (length L0) (J(i1 := j1)) (i1 + 1))"
    unfolding step by auto
  then show ?case
  proof cases
    case 2
    with "1.hyps" [OF i0 refl refl refl refl] f(7) show ?thesis unfolding e by simp
  qed (use f(6) in simp)
qed

lemma outputs_patch:
  assumes "\<forall>p. 1 \<le> p \<and> p \<le> length L0 \<and> J p \<noteq> 0 \<longrightarrow> J p \<le> length L1 \<and> L0 ! (p - 1) = L1 ! (J p - 1)" "rising (length L0) (length L1) J" "opt \<noteq> DEdit"
  shows "rcs_patch 0 (concat (map (chg_lines L1) (outputs opt (length L0) (length L1) J))) L0 = Some L1"
    "\<forall>(a, b, c, d)\<in>set (outputs opt (length L0) (length L1) J). 1 \<le> c \<and> d \<le> length L1"
proof -
  let ?J = "J(0 := 0, length L0 + 1 := length L1 + 1)"
  have "rcs_patch 0 (concat (map (chg_lines L1) (outputs opt (length L0) (length L1) J))) L0 = Some L1 \<and>
    (\<forall>(a, b, c, d)\<in>set (outputs opt (length L0) (length L1) J). 1 \<le> c \<and> d \<le> length L1)"
  proof (cases "L0 = []")
    case True
    then show ?thesis using assms(3) by (auto simp: outputs_def Let_def out_loop.simps parse_cmd_line)
  next
    case False
    then have ok: "out_ok L0 L1 ?J 1" using assms(1,2) by (auto simp: out_ok_def rising_def)
    show ?thesis using out_loop_patch [OF ok] out_loop_range [OF ok] False assms(3) by (auto simp: outputs_def Let_def)
  qed
  then show "rcs_patch 0 (concat (map (chg_lines L1) (outputs opt (length L0) (length L1) J))) L0 = Some L1"
    "\<forall>(a, b, c, d)\<in>set (outputs opt (length L0) (length L1) J). 1 \<le> c \<and> d \<le> length L1" by blast+
qed

section \<open>The text\<close>

lemma fetch_chars_line: "\<not> o_t fl \<Longrightarrow> fetch_chars fl (length l) col (l @ s) = l"
  by (induction l arbitrary: col) auto

lemma fetch_lines:
  assumes "1 \<le> c" "d \<le> length L1" "\<forall>q \<le> length L1. ix q = off L1 q" "\<not> o_t fl"
  shows "diff_fetch fl ix c d (concat L1) [] = concat (take (d + 1 - c) (drop (c - 1) L1))"
proof -
  have "map (\<lambda>i. [] @ fetch_chars fl (ix i - ix (i - 1)) 0 (drop (ix (i - 1)) (concat L1))) [c..<Suc d] = map (\<lambda>i. L1 ! (i - 1)) [c..<Suc d]"
  proof (rule map_cong [OF refl])
    fix i assume "i \<in> set [c..<Suc d]"
    then have i: "i - 1 < length L1" "Suc (i - 1) = i" "i \<le> length L1" using assms(1,2) by auto
    have "ix i - ix (i - 1) = length (L1 ! (i - 1))" using assms(3) off_Suc [OF i(1)] i by simp
    then show "[] @ fetch_chars fl (ix i - ix (i - 1)) 0 (drop (ix (i - 1)) (concat L1)) = L1 ! (i - 1)"
      using concat_drop [OF i(1)] assms(3) i(3) by (simp add: drop_off fetch_chars_line [OF assms(4)])
  qed
  also have "map (\<lambda>i. L1 ! (i - 1)) [c..<Suc d] = take (d + 1 - c) (drop (c - 1) L1)"
    by (rule nth_equalityI) (use assms(1,2) in \<open>auto simp del: upt_Suc\<close>)
  finally show ?thesis unfolding diff_fetch_def by simp
qed

lemma change_text:
  assumes "1 \<le> c" "d \<le> length L1" "\<forall>q \<le> length L1. ix q = off L1 q" "\<not> o_t fl" "\<not> o_B fl" "o_opt fl = DNReverse"
  shows "change fl ixold ix f0 (concat L1) (a, b, c, d) =
    (if chg_lines L1 (a, b, c, d) = [] then None else Some (concat (chg_lines L1 (a, b, c, d))))"
  using fetch_lines [OF assms(1-4)] assms(5,6) by (auto simp: change_def cmd_line_def Let_def)

lemma cmd_line_full: "c \<noteq> NL \<Longrightarrow> full_line (cmd_line c n k)"
proof -
  assume "c \<noteq> NL"
  moreover have "NL \<notin> set (decimal m)" for m using decimal_digits [of NL m] by (auto simp: is_digit_def uchar_def)
  ultimately show ?thesis by (auto simp: full_line_def cmd_line_def)
qed

lemma chg_lines_full: "\<forall>l\<in>set L1. full_line l \<Longrightarrow> \<forall>l\<in>set (chg_lines L1 ch). full_line l"
  by (cases ch) (auto simp: cmd_line_full dest!: in_set_takeD in_set_dropD)

lemma same_loop_eq: "same_loop f0 f1 \<longleftrightarrow> f0 = f1"
proof (induction f0 f1 rule: same_loop.induct)
  case (1 f0 f1)
  show ?case
  proof (cases "take BUFSIZ f0 = take BUFSIZ f1 \<and> take BUFSIZ f0 \<noteq> []")
    case True
    then have "same_loop f0 f1 = same_loop (drop BUFSIZ f0) (drop BUFSIZ f1)" by (subst same_loop.simps) (auto simp: Let_def)
    also have "\<dots> \<longleftrightarrow> drop BUFSIZ f0 = drop BUFSIZ f1" by (rule 1 [OF refl refl]) (use True in auto)
    finally show ?thesis using True by (metis append_take_drop_id)
  next
    case False
    have "same_loop f0 f1 \<longleftrightarrow> take BUFSIZ f0 = [] \<and> take BUFSIZ f1 = []"
      using False by (subst same_loop.simps) (auto simp: Let_def BUFSIZ_def min_def split: if_splits)
    then show ?thesis using False by (auto simp: BUFSIZ_def)
  qed
qed

lemma map_filter_lines:
  "(\<And>x. x \<in> set xs \<Longrightarrow> f x = (if g x = [] then None else Some (concat (g x)))) \<Longrightarrow>
     concat (List.map_filter f xs) = concat (concat (map g xs)) \<and> (List.map_filter f xs = [] \<longleftrightarrow> concat (map g xs) = [])"
  by (induction xs) (auto simp: map_filter_simps)

lemma sorted_wrt_total: "sorted_wrt R xs \<Longrightarrow> x \<in> set xs \<Longrightarrow> y \<in> set xs \<Longrightarrow> R x y \<or> R y x \<or> x = y"
  by (induction xs) auto

lemma matching_rising:
  assumes "matching h0 h1 (pairs_of (length h0) J)"
  shows "rising (length h0) (length h1) J"
proof -
  let ?ps = "pairs_of (length h0) J"
  have in_ps: "(p, J p) \<in> set ?ps" if "1 \<le> p" "p \<le> length h0" "J p \<noteq> 0" for p using that by (auto simp: pairs_of_def simp del: upt_Suc)
  have "J p \<le> length h1" if "1 \<le> p" "p \<le> length h0" for p
    using in_ps [OF that] assms by (cases "J p = 0") (auto simp: matching_def)
  moreover have "J p < J q" if "1 \<le> p" "p < q" "q \<le> length h0" "J p \<noteq> 0" "J q \<noteq> 0" for p q
  proof -
    have "sorted_wrt (\<lambda>p q. before q p) ?ps" using assms by (simp add: matching_def)
    from sorted_wrt_total [OF this in_ps [of p] in_ps [of q]] that show ?thesis by (simp add: before_def)
  qed
  ultimately show ?thesis by (simp add: rising_def)
qed

lemma diffreg_differ:
  assumes "f0 \<noteq> f1" "o_a fl \<or> asciifile f0 \<and> asciifile f1" "prepare (o_cmp fl) f0 = (h0, w0)" "prepare (o_cmp fl) f1 = (h1, w1)"
    "match_lines h0 h1 = Some J" "s = check_sb (o_cmp fl) (length h0) (length h1) J f0 f1"
    "t = List.map_filter (change fl (k_ixold s) (k_ixnew s) f0 f1) (outputs (o_opt fl) (length h0) (length h1) (k_J s))"
  shows "diffreg fl file1 file2 f0 f1 =
    Some \<lparr>out = concat t, err = (if w0 then missnl fl file1 else []) @ (if w1 then missnl fl file2 else []), status = (if t = [] then 0 else 1)\<rparr>"
  using assms by (auto simp: diffreg_def same_loop_eq Let_def)

text \<open>
  (C40) What \<open>diff -n\<close> prints leads from the first file to the second.  For two text files, of which each line ends with a newline and none has the hash 0
  (which no line of up to 256 characters has), and without options that ignore differences or expand tabs, the comparison ends; its output,
  read as a list of commands that delete and add lines, turns the lines of the first file into those of the second, although lines are
  matched by hashes that may collide; and the exit status is 0 exactly if the files are the same.
\<close>

theorem diff_n_patches:
  assumes "plain (o_cmp fl)" "o_opt fl = DNReverse" "\<not> o_B fl" "\<not> o_t fl" "o_a fl \<or> asciifile f0 \<and> asciifile f1"
    and "text_file f0" "text_file f1" "\<forall>l\<in>set (lines_of f0) \<union> set (lines_of f1). line_hash (o_cmp fl) l \<noteq> 0"
  shows "\<exists>txt. diffreg fl file1 file2 f0 f1 = Some \<lparr>out = txt, err = [], status = (if f0 = f1 then 0 else 1)\<rparr> \<and>
    rcs_patch 0 (lines_of txt) (lines_of f0) = Some (lines_of f1)"
proof (cases "f0 = f1")
  case True
  then show ?thesis by (simp add: diffreg_def same_loop_eq)
next
  case False
  let ?L0 = "lines_of f0" and ?L1 = "lines_of f1" and ?h = "line_hash (o_cmp fl)"
  have full: "\<forall>l\<in>set ?L0. full_line l" "\<forall>l\<in>set ?L1. full_line l" using text_file_lines assms(6,7) by auto
  have p: "prepare (o_cmp fl) f0 = (map ?h ?L0, False)" "prepare (o_cmp fl) f1 = (map ?h ?L1, False)"
    using prepare_lines [OF assms(1), of ?L0] prepare_lines [OF assms(1), of ?L1] full assms(8) by simp_all
  obtain J where J: "match_lines (map ?h ?L0) (map ?h ?L1) = Some J" "matching (map ?h ?L0) (map ?h ?L1) (pairs_of (length ?L0) J)"
    using longest_exists [of "map ?h ?L0" "map ?h ?L1"] by auto
  have r: "rising (length ?L0) (length ?L1) J" using matching_rising [of "map ?h ?L0" "map ?h ?L1" J] J(2) by simp
  define s where "s = check_sb (o_cmp fl) (length ?L0) (length ?L1) J f0 f1"
  have k: "\<forall>q \<le> length ?L1. k_ixnew s q = off ?L1 q"
    "\<forall>p. 1 \<le> p \<and> p \<le> length ?L0 \<and> k_J s p \<noteq> 0 \<longrightarrow> k_J s p = J p \<and> ?L0 ! (p - 1) = ?L1 ! (J p - 1)"
    using check_sb_ok [OF assms(1) r full, of s] by (simp_all add: s_def)
  have v: "k_J s p \<le> length ?L1 \<and> ?L0 ! (p - 1) = ?L1 ! (k_J s p - 1)" if "1 \<le> p \<and> p \<le> length ?L0 \<and> k_J s p \<noteq> 0" for p
    using k(2) [rule_format, OF that] r that unfolding rising_def by simp
  have r': "rising (length ?L0) (length ?L1) (k_J s)"
    unfolding rising_def
  proof (intro conjI allI impI)
    show "k_J s p \<le> length ?L1" if "1 \<le> p \<and> p \<le> length ?L0" for p using v [of p] that by (cases "k_J s p = 0") simp_all
    fix p q assume pq: "1 \<le> p \<and> p < q \<and> q \<le> length ?L0 \<and> k_J s p \<noteq> 0 \<and> k_J s q \<noteq> 0"
    then have "k_J s p = J p" "k_J s q = J q" using k(2) [rule_format, of p] k(2) [rule_format, of q] by simp_all
    then show "k_J s p < k_J s q" using r pq unfolding rising_def by simp
  qed
  from v have all_v: "\<forall>p. 1 \<le> p \<and> p \<le> length ?L0 \<and> k_J s p \<noteq> 0 \<longrightarrow> k_J s p \<le> length ?L1 \<and> ?L0 ! (p - 1) = ?L1 ! (k_J s p - 1)" by blast
  let ?o = "outputs (o_opt fl) (length ?L0) (length ?L1) (k_J s)"
  have o: "rcs_patch 0 (concat (map (chg_lines ?L1) ?o)) ?L0 = Some ?L1" "\<forall>(a, b, c, d)\<in>set ?o. 1 \<le> c \<and> d \<le> length ?L1"
    using outputs_patch [OF all_v r', of "o_opt fl"] assms(2) by simp_all
  let ?t = "List.map_filter (change fl (k_ixold s) (k_ixnew s) f0 f1) ?o"
  have t: "concat ?t = concat (concat (map (chg_lines ?L1) ?o))" "?t = [] \<longleftrightarrow> concat (map (chg_lines ?L1) ?o) = []"
  proof -
    have "change fl (k_ixold s) (k_ixnew s) f0 f1 ch = (if chg_lines ?L1 ch = [] then None else Some (concat (chg_lines ?L1 ch)))" if "ch \<in> set ?o" for ch
      using change_text [OF _ _ k(1) assms(4,3,2), of _ _ "k_ixold s" f0] o(2) that by (cases ch) fastforce
    from map_filter_lines [of ?o "change fl (k_ixold s) (k_ixnew s) f0 f1" "chg_lines ?L1", OF this] show "concat ?t = concat (concat (map (chg_lines ?L1) ?o))" "?t = [] \<longleftrightarrow> concat (map (chg_lines ?L1) ?o) = []"
      by blast+
  qed
  have ne: "?t \<noteq> []"
  proof
    assume "?t = []"
    then have e: "concat (map (chg_lines ?L1) ?o) = []" using t(2) by blast
    from o(1) have "?L0 = ?L1" unfolding e by simp
    with False show False by (metis concat_lines_of)
  qed
  have "\<forall>l\<in>set (concat (map (chg_lines ?L1) ?o)). full_line l" using chg_lines_full [OF full(2)] by auto
  then have "lines_of (concat ?t) = concat (map (chg_lines ?L1) ?o)" unfolding t(1) by (rule lines_of_concat)
  moreover have "diffreg fl file1 file2 f0 f1 = Some \<lparr>out = concat ?t, err = [], status = 1\<rparr>"
    using diffreg_differ [OF False assms(5) p J(1), of s] ne s_def by simp
  ultimately show ?thesis using o(1) False by simp
qed

definition diff_n :: diffopts where
  "diff_n = \<lparr>o_cmp = \<lparr>d_b = False, d_w = False, d_i = False, d_isspace = (\<lambda>c. c = CHR '' ''), d_tolower = id\<rparr>,
     o_opt = DNReverse, o_a = False, o_t = False, o_B = False\<rparr>"

theorem diff_n_patches_witness:
  "\<exists>txt. diffreg diff_n ''f'' ''g'' [CHR ''a'', NL, CHR ''b'', NL] [CHR ''b'', NL, CHR ''c'', NL] = Some \<lparr>out = txt, err = [], status = 1\<rparr> \<and>
     rcs_patch 0 (lines_of txt) [[CHR ''a'', NL], [CHR ''b'', NL]] = Some [[CHR ''b'', NL], [CHR ''c'', NL]]"
proof -
  let ?f = "[CHR ''a'', NL, CHR ''b'', NL]" and ?g = "[CHR ''b'', NL, CHR ''c'', NL]"
  have l: "lines_of ?f = [[CHR ''a'', NL], [CHR ''b'', NL]]" "lines_of ?g = [[CHR ''b'', NL], [CHR ''c'', NL]]" by simp_all
  have "line_hash (o_cmp diff_n) [c, NL] \<noteq> 0" if "c \<noteq> NL" for c
    using short_line_hash [of "o_cmp diff_n" "[c, NL]"] that by (auto simp: diff_n_def plain_def full_line_def)
  then have "\<exists>txt. diffreg diff_n ''f'' ''g'' ?f ?g = Some \<lparr>out = txt, err = [], status = (if ?f = ?g then 0 else 1)\<rparr> \<and>
    rcs_patch 0 (lines_of txt) (lines_of ?f) = Some (lines_of ?g)"
    by (intro diff_n_patches) (auto simp: diff_n_def plain_def asciifile_def text_file_def BUFSIZ_def)
  then show ?thesis unfolding l by simp
qed

section \<open>Lines with the hash 0\<close>

text \<open>
  The sum of a long line can be such that the hash is 0, the value that stands for the end of the file: the rest of the file is then
  ignored.  A line of 4160 tildes and 16 tabs is one.
\<close>

definition blind_line :: string where
  "blind_line = concat (replicate 260 (replicate 16 (CHR ''~''))) @ replicate 16 TAB @ [NL]"

lemma wrap32_add: "wrap32 (wrap32 x + y) = wrap32 (x + y)"
proof -
  have "((x + 2 ^ 31) mod 2 ^ 32 - 2 ^ 31 + y + 2 ^ 31) mod 2 ^ 32 = ((x + 2 ^ 31) mod 2 ^ 32 + y) mod 2 ^ 32" by simp
  also have "\<dots> = (x + y + 2 ^ 31) mod 2 ^ 32" by (simp add: mod_simps algebra_simps)
  finally show ?thesis by (simp add: wrap32_def)
qed

primrec sh_sum :: "nat \<Rightarrow> nat \<Rightarrow> int" where
  "sh_sum 0 sh = 0"
| "sh_sum (Suc n) sh = 2 ^ (sh mod 16) + sh_sum n (sh mod 16 + 7)"

primrec sh_end :: "nat \<Rightarrow> nat \<Rightarrow> nat" where
  "sh_end 0 sh = sh"
| "sh_end (Suc n) sh = sh_end n (sh mod 16 + 7)"

lemma rh_replicate:
  assumes "\<not> d_i fl" "c \<noteq> NL"
  shows "rh_plain fl sh (wrap32 sm) ct (replicate n c @ s) =
    rh_plain fl (sh_end n sh) (wrap32 (sm + uchar c * sh_sum n sh)) (ct \<or> 0 < n) s"
proof (induction n arbitrary: sh sm ct)
  case (Suc n)
  have "rh_plain fl sh (wrap32 sm) ct (replicate (Suc n) c @ s) =
    rh_plain fl (sh mod 16 + 7) (wrap32 (sm + uchar c * 2 ^ (sh mod 16))) True (replicate n c @ s)"
    using assms by (simp add: add_char_def chrtran_def wrap32_add)
  also have "\<dots> = rh_plain fl (sh_end n (sh mod 16 + 7)) (wrap32 (sm + uchar c * 2 ^ (sh mod 16) + uchar c * sh_sum n (sh mod 16 + 7))) True s"
    using Suc.IH by simp
  finally show ?case by (simp add: algebra_simps)
qed simp

lemma sh_block: "sh_sum 16 0 = 65535" "sh_end 16 0 = 16" "sh_sum 16 16 = 65535" "sh_end 16 16 = 16"
  by code_simp+

lemma rh_blocks:
  assumes "\<not> d_i fl" "c \<noteq> NL"
  shows "rh_plain fl 0 (wrap32 sm) ct (concat (replicate (Suc k) (replicate 16 c)) @ s) =
    rh_plain fl 16 (wrap32 (sm + uchar c * 65535 * int (Suc k))) True s"
proof (induction k arbitrary: s)
  case 0
  show ?case using rh_replicate [OF assms, of 0 sm ct 16 s] by (simp add: sh_block)
next
  case (Suc k)
  let ?R = "replicate 16 c"
  have "concat (replicate (Suc (Suc k)) ?R) = concat (replicate (Suc k) ?R) @ ?R"
    using replicate_append_same [of "Suc k" ?R] by (metis concat.simps append_Nil2 concat_append replicate_Suc)
  then have "rh_plain fl 0 (wrap32 sm) ct (concat (replicate (Suc (Suc k)) ?R) @ s) =
    rh_plain fl 0 (wrap32 sm) ct (concat (replicate (Suc k) ?R) @ (?R @ s))" by (simp only: append_assoc)
  also have "\<dots> = rh_plain fl 16 (wrap32 (sm + uchar c * 65535 * int (Suc k))) True (?R @ s)" by (rule Suc.IH)
  also have "\<dots> = rh_plain fl 16 (wrap32 (sm + uchar c * 65535 * int (Suc k) + uchar c * 65535)) True s"
    unfolding rh_replicate [OF assms, of 16 _ True 16 s] sh_block by simp
  also have "sm + uchar c * 65535 * int (Suc k) + uchar c * 65535 = sm + uchar c * 65535 * int (Suc (Suc k))"
    by (simp add: algebra_simps)
  finally show ?case .
qed

lemma blind_line_hash:
  assumes "plain fl"
  shows "full_line blind_line" "line_hash fl blind_line = 0"
proof -
  have i: "\<not> d_i fl" using assms by (simp add: plain_def)
  show "full_line blind_line"
    unfolding full_line_def blind_line_def by (intro exI [of _ "concat (replicate 260 (replicate 16 (CHR ''~''))) @ replicate 16 TAB"]) auto
  have u: "uchar (CHR ''~'') = 126" "uchar TAB = 9" by (simp_all add: uchar_def)
  have n: "Suc 259 = 260" and w: "wrap32 1 = 1" by (simp_all add: wrap32_def)
  have "rh_plain fl 0 1 False blind_line = rh_plain fl 0 (wrap32 1) False (concat (replicate (Suc 259) (replicate 16 (CHR ''~''))) @ replicate 16 TAB @ [NL])"
    by (simp only: blind_line_def w n)
  also have "\<dots> = rh_plain fl 16 (wrap32 (1 + 126 * 65535 * 260)) True (replicate 16 TAB @ [NL])"
    using rh_blocks [OF i, of "CHR ''~''" 1 False 259 "replicate 16 TAB @ [NL]"] u by simp
  also have "\<dots> = rh_plain fl 16 (wrap32 (1 + 126 * 65535 * 260 + 9 * 65535)) True [NL]"
    using rh_replicate [OF i, of TAB 16 "1 + 126 * 65535 * 260" True 16 "[NL]"] u by (simp add: sh_block)
  also have "\<dots> = (0, [], False)" by (simp add: wrap32_def fold_sum_def wrap16_def)
  finally show "line_hash fl blind_line = 0" using assms by (simp add: line_hash_def readhash_def plain_def)
qed

text \<open>Two files that begin with such a line are reported to be the same, whatever follows.\<close>

lemma diff_blind:
  assumes "plain (o_cmp fl)" "o_a fl \<or> asciifile (blind_line @ s0) \<and> asciifile (blind_line @ s1)" "s0 \<noteq> s1"
  shows "diffreg fl file1 file2 (blind_line @ s0) (blind_line @ s1) = Some \<lparr>out = [], err = [], status = 0\<rparr>"
proof -
  obtain b where b: "blind_line = b @ [NL]" "NL \<notin> set b" using blind_line_hash(1) [OF assms(1)] by (auto simp: full_line_def)
  have "readhash (o_cmp fl) (blind_line @ s) = (0, s, False)" for s
  proof -
    have e: "blind_line @ s = b @ NL # s" using b(1) by simp
    have "fst (rh_plain (o_cmp fl) 0 1 False blind_line) = 0"
      using blind_line_hash(2) [OF assms(1)] assms(1) by (simp add: line_hash_def readhash_def plain_def)
    then have "rh_plain (o_cmp fl) 0 1 False (b @ NL # s) = (0, s, False)"
      unfolding b(1) using rh_plain_line [OF b(2), of "o_cmp fl" 0 1 False s] rh_plain_line [OF b(2), of "o_cmp fl" 0 1 False "[]"] by simp
    then show ?thesis unfolding e using assms(1) by (simp add: readhash_def plain_def)
  qed
  then have p: "prepare (o_cmp fl) (blind_line @ s) = ([], False)" for s by (simp add: prepare.simps [of "o_cmp fl" "blind_line @ s"])
  obtain J where "match_lines [] [] = Some J" using longest_exists [of "[]" "[]"] by auto
  moreover have "outputs (o_opt fl) 0 0 K = [(1, 0, 1, 0)]" for K by (simp add: outputs_def Let_def ed_loop.simps out_loop.simps)
  ultimately show ?thesis using diffreg_differ [OF _ assms(2) p p] assms(3) by (simp add: change_def map_filter_simps)
qed

end
