(* ===== verification/Sortqs.thy ===== *)
theory Sortqs
  imports Prelude "HOL-Library.Multiset"
begin

text \<open>
  The function \<open>quicksort\<close> of \<open>sort/sort.c\<close>: an exchange sort in place that partitions into three parts.  It is used for the lines read into memory and
  for the first lines of the files that are merged; the elements are records of either kind and the comparison is a parameter.  With \<open>-u\<close> the size of all
  but one of the elements that compare equal is set to 0 (\<open>zero\<close>).
\<close>

section \<open>The program\<close>

definition qsexc :: "nat \<Rightarrow> nat \<Rightarrow> 'a list \<Rightarrow> 'a list" where
  "qsexc p q xs = xs[p := xs ! q, q := xs ! p]"

definition qstexc :: "nat \<Rightarrow> nat \<Rightarrow> nat \<Rightarrow> 'a list \<Rightarrow> 'a list" where
  "qstexc p q r xs = (let t = xs ! p; xs = xs[p := xs ! r]; xs = xs[r := xs ! q] in xs[q := t])"

text \<open>
  The loop of the partition: \<open>qs_part\<close> from its beginning, \<open>qs_loop\<close> from the label \<open>loop\<close>.  The elements from \<open>lp\<close> to \<open>hp\<close> are equal to the pivot, those before \<open>i\<close>
  are smaller and those behind \<open>j\<close> larger.  (The last test of the program is \<open>i == lp\<close>; \<open>i\<close> is never greater.)
\<close>

function qs_part :: "('a \<Rightarrow> 'a \<Rightarrow> int) \<Rightarrow> 'a list \<Rightarrow> nat \<Rightarrow> nat \<Rightarrow> nat \<Rightarrow> nat \<Rightarrow> 'a list \<times> nat \<times> nat"
  and qs_loop :: "('a \<Rightarrow> 'a \<Rightarrow> int) \<Rightarrow> 'a list \<Rightarrow> nat \<Rightarrow> nat \<Rightarrow> nat \<Rightarrow> nat \<Rightarrow> 'a list \<times> nat \<times> nat" where
  "qs_part compare xs i j lp hp =
     (if i < lp then
        (let c = compare (xs ! i) (xs ! lp)
         in if c = 0 then qs_part compare (qsexc i (lp - 1) xs) i j (lp - 1) hp
            else if c < 0 then qs_part compare xs (i + 1) j lp hp
            else qs_loop compare xs i j lp hp)
      else qs_loop compare xs i j lp hp)"
| "qs_loop compare xs i j lp hp =
     (if hp < j then
        (let c = compare (xs ! hp) (xs ! j)
         in if c = 0 then qs_loop compare (qsexc (hp + 1) j xs) i j lp (hp + 1)
            else if c > 0 then
              if i = lp then qs_loop compare (qstexc i (hp + 1) j xs) (lp + 1) j (lp + 1) (hp + 1)
              else qs_part compare (qsexc i j xs) (i + 1) (j - 1) lp hp
            else qs_loop compare xs i (j - 1) lp hp)
      else if lp \<le> i then (xs, lp, hp)
      else qs_part compare (qstexc j (lp - 1) i xs) i (hp - 1) (lp - 1) (hp - 1))"
  by pat_completeness auto
termination
  by (relation "measure (\<lambda>x. case x of Inl (c, xs, i, j, lp, hp) \<Rightarrow> 2 * ((lp - i) + (j - hp)) + 1
      | Inr (c, xs, i, j, lp, hp) \<Rightarrow> 2 * ((lp - i) + (j - hp)))") auto

declare qs_part.simps [simp del] qs_loop.simps [simp del]

text \<open>The rule for invariants of the partition: \<open>I\<close> at the beginning of the loop, \<open>K\<close> at the label.\<close>

lemma qs_rule:
  assumes "\<And>xs i j lp hp. I xs i j lp hp \<Longrightarrow> i < lp \<Longrightarrow> compare (xs ! i) (xs ! lp) = 0 \<Longrightarrow> I (qsexc i (lp - 1) xs) i j (lp - 1) hp"
    and "\<And>xs i j lp hp. I xs i j lp hp \<Longrightarrow> i < lp \<Longrightarrow> compare (xs ! i) (xs ! lp) < 0 \<Longrightarrow> I xs (i + 1) j lp hp"
    and "\<And>xs i j lp hp. I xs i j lp hp \<Longrightarrow> (i < lp \<Longrightarrow> compare (xs ! i) (xs ! lp) > 0) \<Longrightarrow> K xs i j lp hp"
    and "\<And>xs i j lp hp. K xs i j lp hp \<Longrightarrow> hp < j \<Longrightarrow> compare (xs ! hp) (xs ! j) = 0 \<Longrightarrow> K (qsexc (hp + 1) j xs) i j lp (hp + 1)"
    and "\<And>xs j lp hp. K xs lp j lp hp \<Longrightarrow> hp < j \<Longrightarrow> compare (xs ! hp) (xs ! j) > 0 \<Longrightarrow> K (qstexc lp (hp + 1) j xs) (lp + 1) j (lp + 1) (hp + 1)"
    and "\<And>xs i j lp hp. K xs i j lp hp \<Longrightarrow> hp < j \<Longrightarrow> compare (xs ! hp) (xs ! j) > 0 \<Longrightarrow> i \<noteq> lp \<Longrightarrow> I (qsexc i j xs) (i + 1) (j - 1) lp hp"
    and "\<And>xs i j lp hp. K xs i j lp hp \<Longrightarrow> hp < j \<Longrightarrow> compare (xs ! hp) (xs ! j) < 0 \<Longrightarrow> K xs i (j - 1) lp hp"
    and "\<And>xs i j lp hp. K xs i j lp hp \<Longrightarrow> j \<le> hp \<Longrightarrow> i < lp \<Longrightarrow> I (qstexc j (lp - 1) i xs) i (hp - 1) (lp - 1) (hp - 1)"
  shows "cmp = compare \<Longrightarrow> I xs i j lp hp \<Longrightarrow> qs_part cmp xs i j lp hp = (ys, lp', hp') \<Longrightarrow> \<exists>i' j'. K ys i' j' lp' hp' \<and> lp' \<le> i' \<and> j' \<le> hp'"
    and "cmp = compare \<Longrightarrow> K xs i j lp hp \<Longrightarrow> qs_loop cmp xs i j lp hp = (ys, lp', hp') \<Longrightarrow> \<exists>i' j'. K ys i' j' lp' hp' \<and> lp' \<le> i' \<and> j' \<le> hp'"
proof (induction cmp xs i j lp hp and cmp xs i j lp hp rule: qs_part_qs_loop.induct)
  case (1 cmp xs i j lp hp)
  note c = "1.prems"(1)
  have q: "qs_part cmp xs i j lp hp = (ys, lp', hp')" by (rule "1.prems"(3))
  consider "i < lp" "compare (xs ! i) (xs ! lp) = 0" | "i < lp" "compare (xs ! i) (xs ! lp) < 0"
    | "i < lp" "compare (xs ! i) (xs ! lp) > 0" | "\<not> i < lp" by linarith
  then show ?case
  proof cases
    case 1
    with q c show ?thesis using assms(1) [OF "1.prems"(2) 1] "1.IH"(1) [OF 1(1) refl] by (simp add: qs_part.simps [of _ xs])
  next
    case 2
    with q c show ?thesis using assms(2) [OF "1.prems"(2) 2] "1.IH"(2) [OF 2(1) refl] by (simp add: qs_part.simps [of _ xs])
  next
    case 3
    with q c show ?thesis using assms(3) [OF "1.prems"(2)] "1.IH"(3) [OF 3(1) refl] by (simp add: qs_part.simps [of _ xs])
  next
    case 4
    with q c show ?thesis using assms(3) [OF "1.prems"(2)] "1.IH"(4) by (simp add: qs_part.simps [of _ xs])
  qed
next
  case (2 cmp xs i j lp hp)
  note c = "2.prems"(1)
  have q: "qs_loop cmp xs i j lp hp = (ys, lp', hp')" by (rule "2.prems"(3))
  consider "hp < j" "compare (xs ! hp) (xs ! j) = 0" | "hp < j" "compare (xs ! hp) (xs ! j) > 0" "i = lp"
    | "hp < j" "compare (xs ! hp) (xs ! j) > 0" "i \<noteq> lp" | "hp < j" "compare (xs ! hp) (xs ! j) < 0"
    | "j \<le> hp" "lp \<le> i" | "j \<le> hp" "i < lp" by linarith
  then show ?case
  proof cases
    case 1
    with q c show ?thesis using assms(4) [OF "2.prems"(2) 1] "2.IH"(1) [OF 1(1) refl] by (simp add: qs_loop.simps [of _ xs])
  next
    case 2
    with q c show ?thesis using assms(5) [of xs lp j hp] "2.prems"(2) "2.IH"(2) [OF 2(1) refl] by (simp add: qs_loop.simps [of _ xs])
  next
    case 3
    with q c show ?thesis using assms(6) [OF "2.prems"(2) 3] "2.IH"(3) [OF 3(1) refl] by (simp add: qs_loop.simps [of _ xs])
  next
    case 4
    with q c show ?thesis using assms(7) [OF "2.prems"(2) 4] "2.IH"(4) [OF 4(1) refl] by (simp add: qs_loop.simps [of _ xs])
  next
    case 5
    with q "2.prems"(2) show ?thesis by (auto simp: qs_loop.simps [of _ xs])
  next
    case 6
    with q c show ?thesis using assms(8) [OF "2.prems"(2) 6] "2.IH"(5) by (simp add: qs_loop.simps [of _ xs])
  qed
qed

lemma qs_bounds:
  assumes "qs_part compare xs a (l - 1) lp hp = (ys, lp', hp')" "a \<le> lp" "lp \<le> hp" "hp \<le> l - 1"
  shows "a \<le> lp' \<and> lp' \<le> hp' \<and> hp' \<le> l - 1"
proof -
  let ?B = "\<lambda>xs i j lp hp :: nat. a \<le> i \<and> i \<le> lp \<and> lp \<le> hp \<and> hp \<le> j \<and> j \<le> l - 1"
  have "\<exists>i' j'. ?B ys i' j' lp' hp' \<and> lp' \<le> i' \<and> j' \<le> hp'"
    by (rule qs_rule(1) [where I = ?B and K = ?B, OF _ _ _ _ _ _ _ _ refl _ assms(1)]) (use assms(2-4) in auto)
  then show ?thesis by auto
qed

lemma qs_split_bounds:
  assumes "(ys, lp, hp) = qs_part compare xs a (l - Suc 0) (a + (l - a) div 2) (a + (l - a) div 2)" "\<not> l - a \<le> Suc 0"
  shows "a \<le> lp \<and> lp \<le> hp \<and> hp < l"
proof -
  have "a + (l - a) div 2 \<le> l - 1" using assms(2) by linarith
  then show ?thesis using qs_bounds [of compare xs a l "a + (l - a) div 2" "a + (l - a) div 2" ys lp hp] assms by auto
qed

definition zero_dups :: "bool \<Rightarrow> ('a \<Rightarrow> 'a) \<Rightarrow> nat \<Rightarrow> nat \<Rightarrow> 'a list \<Rightarrow> 'a list" where
  "zero_dups uflg zero lp hp xs = (if uflg then fold (\<lambda>k xs. xs[k := zero (xs ! k)]) [lp + 1..<hp + 1] xs else xs)"

function quicksort :: "('a \<Rightarrow> 'a \<Rightarrow> int) \<Rightarrow> bool \<Rightarrow> ('a \<Rightarrow> 'a) \<Rightarrow> nat \<Rightarrow> nat \<Rightarrow> 'a list \<Rightarrow> 'a list" where
  "quicksort compare uflg zero a l xs =
     (if l - a \<le> 1 then xs
      else (let n = (l - a) div 2
            in case qs_part compare xs a (l - 1) (a + n) (a + n) of
                 (ys, lp, hp) \<Rightarrow>
                   (let zs = zero_dups uflg zero lp hp ys
                    in if lp - a \<ge> l - hp then quicksort compare uflg zero a lp (quicksort compare uflg zero (hp + 1) l zs)
                       else quicksort compare uflg zero (hp + 1) l (quicksort compare uflg zero a lp zs))))"
  by pat_completeness auto
termination
  by (relation "measure (\<lambda>(c, u, z, a, l, xs). l - a)") (auto dest!: qs_split_bounds)

declare quicksort.simps [simp del]

section \<open>Orders\<close>

text \<open>
  What a comparison promises: it is an order of the elements in which different ones may be equal.
\<close>

locale line_order =
  fixes compare :: "'a \<Rightarrow> 'a \<Rightarrow> int"
  assumes swap: "compare x y < 0 \<longleftrightarrow> compare y x > 0"
    and trans: "compare x y \<le> 0 \<Longrightarrow> compare y z \<le> 0 \<Longrightarrow> compare x z \<le> 0"
begin

lemma eq_sym: "compare x y = 0 \<longleftrightarrow> compare y x = 0"
  using swap [of x y] swap [of y x] by linarith

lemma refl: "compare x x = 0"
  using swap [of x x] by linarith

lemma le_swap: "compare x y \<le> 0 \<longleftrightarrow> compare y x \<ge> 0"
  using swap [of x y] swap [of y x] by linarith

lemma less_trans: "compare x y < 0 \<Longrightarrow> compare y z \<le> 0 \<Longrightarrow> compare x z < 0"
  using trans [of x y z] trans [of y z x] le_swap [of z x] swap [of x y] by linarith

lemma less_trans2: "compare x y \<le> 0 \<Longrightarrow> compare y z < 0 \<Longrightarrow> compare x z < 0"
  using trans [of x y z] trans [of z x y] le_swap [of z x] swap [of y z] by linarith

lemma eq_cong:
  assumes "compare x y = 0"
  shows "compare z x < 0 \<longleftrightarrow> compare z y < 0" "compare z x = 0 \<longleftrightarrow> compare z y = 0" "compare z x > 0 \<longleftrightarrow> compare z y > 0"
    "compare x z < 0 \<longleftrightarrow> compare y z < 0" "compare x z = 0 \<longleftrightarrow> compare y z = 0" "compare x z > 0 \<longleftrightarrow> compare y z > 0"
proof -
  have s: "compare y x = 0" using assms eq_sym by simp
  have l: "compare z x < 0 \<longleftrightarrow> compare z y < 0" for z using less_trans [of z x y] less_trans [of z y x] assms s by auto
  have r: "compare x z < 0 \<longleftrightarrow> compare y z < 0" for z using less_trans2 [of x y z] less_trans2 [of y x z] assms s by auto
  show "compare z x < 0 \<longleftrightarrow> compare z y < 0" by (rule l)
  show "compare x z < 0 \<longleftrightarrow> compare y z < 0" by (rule r)
  show "compare z x > 0 \<longleftrightarrow> compare z y > 0" using r [of z] by (simp add: swap)
  show "compare x z > 0 \<longleftrightarrow> compare y z > 0" using l [of z] by (simp add: swap)
  show "compare z x = 0 \<longleftrightarrow> compare z y = 0" using l [of z] r [of z] swap [of z x] swap [of z y] swap [of x z] swap [of y z] by linarith
  show "compare x z = 0 \<longleftrightarrow> compare y z = 0" using l [of z] r [of z] swap [of z x] swap [of z y] swap [of x z] swap [of y z] by linarith
qed

end

section \<open>The partition\<close>

definition keeps_outside :: "nat \<Rightarrow> nat \<Rightarrow> 'a list \<Rightarrow> 'a list \<Rightarrow> bool" where
  "keeps_outside a l xs ys \<longleftrightarrow> length ys = length xs \<and> (\<forall>x. x < a \<or> l \<le> x \<longrightarrow> ys ! x = xs ! x)"

definition part_inv :: "('a \<Rightarrow> 'a \<Rightarrow> int) \<Rightarrow> nat \<Rightarrow> nat \<Rightarrow> 'a list \<Rightarrow> 'a \<Rightarrow> 'a list \<Rightarrow> nat \<Rightarrow> nat \<Rightarrow> nat \<Rightarrow> nat \<Rightarrow> bool" where
  "part_inv compare a l xs pv ys i j lp hp \<longleftrightarrow>
     a \<le> i \<and> i \<le> lp \<and> lp \<le> hp \<and> hp \<le> j \<and> j < l \<and> l \<le> length ys \<and> mset ys = mset xs \<and> keeps_outside a l xs ys \<and>
     (\<forall>x. a \<le> x \<and> x < i \<longrightarrow> compare (ys ! x) pv < 0) \<and> (\<forall>x. lp \<le> x \<and> x \<le> hp \<longrightarrow> compare (ys ! x) pv = 0) \<and>
     (\<forall>x. j < x \<and> x < l \<longrightarrow> compare (ys ! x) pv > 0)"

lemma qstexc_qsexc: "p \<noteq> q \<Longrightarrow> p < length xs \<Longrightarrow> q < length xs \<Longrightarrow> r < length xs \<Longrightarrow> qstexc p q r xs = qsexc r q (qsexc p r xs)"
  by (rule nth_equalityI) (auto simp: qstexc_def qsexc_def Let_def nth_list_update)

lemma mset_qsexc: "p < length xs \<Longrightarrow> q < length xs \<Longrightarrow> mset (qsexc p q xs) = mset xs"
  using mset_swap [of q xs p] by (simp add: qsexc_def)

lemma length_qsexc [simp]: "length (qsexc p q xs) = length xs" "length (qstexc p q r xs) = length xs"
  by (simp_all add: qsexc_def qstexc_def Let_def)

lemma mset_qstexc: "p \<noteq> q \<Longrightarrow> p < length xs \<Longrightarrow> q < length xs \<Longrightarrow> r < length xs \<Longrightarrow> mset (qstexc p q r xs) = mset xs"
  by (simp add: qstexc_qsexc mset_qsexc)

lemma nth_qsexc: "p < length xs \<Longrightarrow> q < length xs \<Longrightarrow> qsexc p q xs ! x = (if x = q then xs ! p else if x = p then xs ! q else xs ! x)"
  by (auto simp: qsexc_def nth_list_update)

lemma nth_qstexc:
  "p \<noteq> q \<Longrightarrow> p \<noteq> r \<Longrightarrow> p < length xs \<Longrightarrow> q < length xs \<Longrightarrow> r < length xs \<Longrightarrow>
   qstexc p q r xs ! x = (if x = q then xs ! p else if x = r then xs ! q else if x = p then xs ! r else xs ! x)"
  by (auto simp: qstexc_def Let_def nth_list_update)

lemma keeps_qsexc:
  "keeps_outside a l xs ys \<Longrightarrow> a \<le> p \<Longrightarrow> p < l \<Longrightarrow> a \<le> q \<Longrightarrow> q < l \<Longrightarrow> l \<le> length ys \<Longrightarrow> keeps_outside a l xs (qsexc p q ys)"
  by (auto simp: keeps_outside_def nth_qsexc)

lemma keeps_qstexc:
  "keeps_outside a l xs ys \<Longrightarrow> a \<le> p \<Longrightarrow> p < l \<Longrightarrow> a \<le> q \<Longrightarrow> q < l \<Longrightarrow> a \<le> r \<Longrightarrow> r < l \<Longrightarrow> p \<noteq> q \<Longrightarrow> l \<le> length ys \<Longrightarrow>
   keeps_outside a l xs (qstexc p q r ys)"
  by (simp add: qstexc_qsexc keeps_qsexc)

context line_order
begin

lemma part_steps:
  assumes "part_inv compare a l xs pv ys i j lp hp"
  shows "i < lp \<Longrightarrow> compare (ys ! i) (ys ! lp) = 0 \<Longrightarrow> part_inv compare a l xs pv (qsexc i (lp - 1) ys) i j (lp - 1) hp"
    and "i < lp \<Longrightarrow> compare (ys ! i) (ys ! lp) < 0 \<Longrightarrow> part_inv compare a l xs pv ys (i + 1) j lp hp"
    and "hp < j \<Longrightarrow> compare (ys ! hp) (ys ! j) = 0 \<Longrightarrow> part_inv compare a l xs pv (qsexc (hp + 1) j ys) i j lp (hp + 1)"
    and "hp < j \<Longrightarrow> compare (ys ! hp) (ys ! j) > 0 \<Longrightarrow> i = lp \<Longrightarrow> part_inv compare a l xs pv (qstexc lp (hp + 1) j ys) (lp + 1) j (lp + 1) (hp + 1)"
    and "hp < j \<Longrightarrow> compare (ys ! hp) (ys ! j) > 0 \<Longrightarrow> i < lp \<Longrightarrow> compare (ys ! i) pv > 0 \<Longrightarrow> part_inv compare a l xs pv (qsexc i j ys) (i + 1) (j - 1) lp hp"
    and "hp < j \<Longrightarrow> compare (ys ! hp) (ys ! j) < 0 \<Longrightarrow> part_inv compare a l xs pv ys i (j - 1) lp hp"
    and "j \<le> hp \<Longrightarrow> i < lp \<Longrightarrow> compare (ys ! i) pv > 0 \<Longrightarrow> part_inv compare a l xs pv (qstexc j (lp - 1) i ys) i (hp - 1) (lp - 1) (hp - 1)"
proof -
  have b: "a \<le> i" "i \<le> lp" "lp \<le> hp" "hp \<le> j" "j < l" "l \<le> length ys"
    and k: "mset ys = mset xs" "keeps_outside a l xs ys"
    and p: "\<And>x. a \<le> x \<Longrightarrow> x < i \<Longrightarrow> compare (ys ! x) pv < 0" "\<And>x. lp \<le> x \<Longrightarrow> x \<le> hp \<Longrightarrow> compare (ys ! x) pv = 0"
      "\<And>x. j < x \<Longrightarrow> x < l \<Longrightarrow> compare (ys ! x) pv > 0"
    using assms unfolding part_inv_def by blast+
  have lp: "compare z (ys ! lp) < 0 \<longleftrightarrow> compare z pv < 0" "compare z (ys ! lp) = 0 \<longleftrightarrow> compare z pv = 0" for z
    using eq_cong [OF p(2) [of lp]] b by simp_all
  have hp: "compare (ys ! hp) z < 0 \<longleftrightarrow> compare z pv > 0" "compare (ys ! hp) z = 0 \<longleftrightarrow> compare z pv = 0" "compare (ys ! hp) z > 0 \<longleftrightarrow> compare z pv < 0" for z
    using eq_cong [OF p(2) [of hp]] b swap eq_sym by auto
  show "part_inv compare a l xs pv (qsexc i (lp - 1) ys) i j (lp - 1) hp" if "i < lp" "compare (ys ! i) (ys ! lp) = 0"
    unfolding part_inv_def using that b k p lp by (auto simp: nth_qsexc mset_qsexc keeps_qsexc)
  show "part_inv compare a l xs pv ys (i + 1) j lp hp" if "i < lp" "compare (ys ! i) (ys ! lp) < 0"
    unfolding part_inv_def using that b k p lp by (auto simp: less_Suc_eq)
  show "part_inv compare a l xs pv (qsexc (hp + 1) j ys) i j lp (hp + 1)" if "hp < j" "compare (ys ! hp) (ys ! j) = 0"
    unfolding part_inv_def using that b k p hp by (auto simp: nth_qsexc mset_qsexc keeps_qsexc)
  show "part_inv compare a l xs pv (qstexc lp (hp + 1) j ys) (lp + 1) j (lp + 1) (hp + 1)" if "hp < j" "compare (ys ! hp) (ys ! j) > 0" "i = lp"
    unfolding part_inv_def using that b k p hp by (auto simp: nth_qstexc mset_qstexc keeps_qstexc less_Suc_eq)
  show "part_inv compare a l xs pv (qsexc i j ys) (i + 1) (j - 1) lp hp"
    if "hp < j" "compare (ys ! hp) (ys ! j) > 0" "i < lp" "compare (ys ! i) pv > 0"
    unfolding part_inv_def using that b k p hp by (auto simp: nth_qsexc mset_qsexc keeps_qsexc less_Suc_eq)
  show "part_inv compare a l xs pv ys i (j - 1) lp hp" if "hp < j" "compare (ys ! hp) (ys ! j) < 0"
  proof -
    have "compare (ys ! x) pv > 0" if "j - 1 < x" "x < l" for x
      using that p(3) [of x] hp(1) [of "ys ! j"] \<open>compare (ys ! hp) (ys ! j) < 0\<close> by (cases "x = j") auto
    with that b k p show ?thesis unfolding part_inv_def by auto
  qed
  show "part_inv compare a l xs pv (qstexc j (lp - 1) i ys) i (hp - 1) (lp - 1) (hp - 1)" if "j \<le> hp" "i < lp" "compare (ys ! i) pv > 0"
    unfolding part_inv_def using that b k p by (auto simp: nth_qstexc mset_qstexc keeps_qstexc)
qed

lemma part_correct:
  assumes "qs_part compare xs a (l - Suc 0) n n = (ys, lp, hp)" "a \<le> n" "n < l" "l \<le> length xs"
  shows "part_inv compare a l xs (xs ! n) ys lp hp lp hp"
proof -
  let ?I = "part_inv compare a l xs (xs ! n)"
  let ?K = "\<lambda>ys i j lp hp. ?I ys i j lp hp \<and> (i < lp \<longrightarrow> compare (ys ! i) (xs ! n) > 0)"
  have i: "?I xs a (l - Suc 0) n n" using assms(2-4) refl by (auto simp: part_inv_def keeps_outside_def)
  have c: "compare z (ys ! lp) > 0 \<longleftrightarrow> compare z (xs ! n) > 0" if "?I ys i j lp hp" for ys i j lp hp z
    using that eq_cong(3) [of "ys ! lp" "xs ! n" z] by (auto simp: part_inv_def)
  have "\<exists>i' j'. ?K ys i' j' lp hp \<and> lp \<le> i' \<and> j' \<le> hp"
  proof (rule qs_rule(1) [where I = ?I and K = ?K, OF _ _ _ _ _ _ _ _ HOL.refl i assms(1)], goal_cases)
    case (1 xs' i j lp hp)
    then show ?case by (rule part_steps(1))
  next
    case (2 xs' i j lp hp)
    then show ?case by (rule part_steps(2))
  next
    case (3 xs' i j lp hp)
    then show ?case using c [OF 3(1)] by auto
  next
    case (4 xs' i j lp hp)
    then show ?case using part_steps(3) [of a l xs "xs ! n" xs' i j lp hp] by (auto simp: nth_qsexc part_inv_def)
  next
    case (5 xs' j lp hp)
    then show ?case using part_steps(4) [of a l xs "xs ! n" xs' lp j lp hp] by auto
  next
    case (6 xs' i j lp hp)
    then have "i < lp" by (auto simp: part_inv_def)
    with 6 show ?case using part_steps(5) [of a l xs "xs ! n" xs' i j lp hp] by auto
  next
    case (7 xs' i j lp hp)
    then show ?case using part_steps(6) [of a l xs "xs ! n" xs' i j lp hp] by auto
  next
    case (8 xs' i j lp hp)
    then show ?case using part_steps(7) [of a l xs "xs ! n" xs' i j lp hp] by auto
  qed
  then show ?thesis by (auto simp: part_inv_def)
qed

end

section \<open>The sort\<close>

text \<open>
  Elements are compared by their lines, which \<open>zero\<close> does not change.
\<close>

locale line_sorter = line_order compare for compare :: "'a \<Rightarrow> 'a \<Rightarrow> int" +
  fixes line :: "'a \<Rightarrow> 'b"
    and zero :: "'a \<Rightarrow> 'a"
  assumes line_zero: "line (zero x) = line x"
    and compare_line: "line x = line x' \<Longrightarrow> line y = line y' \<Longrightarrow> compare x y = compare x' y'"

text \<open>
  The result within the bounds: the same lines, in order; elements with the property \<open>P\<close> keep it, except that with \<open>-u\<close> those that are equal to an element
  before them are changed by \<open>zero\<close>.
\<close>

definition qs_res ::
  "('a \<Rightarrow> 'a \<Rightarrow> int) \<Rightarrow> ('a \<Rightarrow> 'b) \<Rightarrow> ('a \<Rightarrow> 'a) \<Rightarrow> ('a \<Rightarrow> bool) \<Rightarrow> bool \<Rightarrow> nat \<Rightarrow> nat \<Rightarrow> 'a list \<Rightarrow> 'a list \<Rightarrow> bool" where
  "qs_res compare line zero P uflg a l xs ys \<longleftrightarrow>
     (\<forall>x. a \<le> x \<and> x < l \<longrightarrow> (\<exists>y. a \<le> y \<and> y < l \<and> line (ys ! x) = line (xs ! y))) \<and>
     (\<forall>x y. a \<le> x \<and> x < y \<and> y < l \<longrightarrow> compare (ys ! x) (ys ! y) \<le> 0) \<and>
     (\<forall>x. a \<le> x \<and> x < l \<longrightarrow>
        (if uflg \<and> (\<exists>y. a \<le> y \<and> y < x \<and> compare (ys ! y) (ys ! x) = 0) then \<exists>e. P e \<and> ys ! x = zero e else P (ys ! x)))"

lemma qs_res_lines: "qs_res compare line zero P uflg a l xs ys \<Longrightarrow> a \<le> x \<Longrightarrow> x < l \<Longrightarrow> \<exists>y. a \<le> y \<and> y < l \<and> line (ys ! x) = line (xs ! y)"
  unfolding qs_res_def by simp

lemma qs_res_sorted: "qs_res compare line zero P uflg a l xs ys \<Longrightarrow> a \<le> x \<Longrightarrow> x < y \<Longrightarrow> y < l \<Longrightarrow> compare (ys ! x) (ys ! y) \<le> 0"
  unfolding qs_res_def by simp

lemma qs_res_marks:
  "qs_res compare line zero P uflg a l xs ys \<Longrightarrow> a \<le> x \<Longrightarrow> x < l \<Longrightarrow>
   if uflg \<and> (\<exists>y. a \<le> y \<and> y < x \<and> compare (ys ! y) (ys ! x) = 0) then \<exists>e. P e \<and> ys ! x = zero e else P (ys ! x)"
  unfolding qs_res_def by simp

lemma qs_res_cong:
  assumes "qs_res compare line zero P uflg a l xs ys" "\<And>x. a \<le> x \<Longrightarrow> x < l \<Longrightarrow> xs' ! x = xs ! x" "\<And>x. a \<le> x \<Longrightarrow> x < l \<Longrightarrow> ys' ! x = ys ! x"
  shows "qs_res compare line zero P uflg a l xs' ys'"
proof -
  have "(\<exists>y. a \<le> y \<and> y < x \<and> compare (ys' ! y) (ys' ! x) = 0) \<longleftrightarrow> (\<exists>y. a \<le> y \<and> y < x \<and> compare (ys ! y) (ys ! x) = 0)" if "a \<le> x" "x < l" for x
    using that assms(3) by (metis order.strict_trans)
  then show ?thesis using assms unfolding qs_res_def by (simp cong: if_cong) (metis order.strict_trans order_trans less_imp_le)
qed

lemma qs_res_two:
  assumes "l1 \<le> a2 \<or> l2 \<le> a1" "keeps_outside a1 l1 zs vs" "keeps_outside a2 l2 vs ws"
    and "qs_res compare line zero P uflg a1 l1 zs vs" "qs_res compare line zero P uflg a2 l2 vs ws"
  shows "qs_res compare line zero P uflg a1 l1 zs ws" "qs_res compare line zero P uflg a2 l2 zs ws"
    "\<forall>x. \<not> (a1 \<le> x \<and> x < l1) \<and> \<not> (a2 \<le> x \<and> x < l2) \<longrightarrow> ws ! x = zs ! x" "length ws = length zs"
proof -
  have o: "vs ! x = zs ! x" if "\<not> (a1 \<le> x \<and> x < l1)" for x using that assms(2) by (auto simp: keeps_outside_def not_le)
  have o': "ws ! x = vs ! x" if "\<not> (a2 \<le> x \<and> x < l2)" for x using that assms(3) by (auto simp: keeps_outside_def not_le)
  show "qs_res compare line zero P uflg a1 l1 zs ws" by (rule qs_res_cong [OF assms(4) refl], rule o') (use assms(1) in auto)
  show "qs_res compare line zero P uflg a2 l2 zs ws" by (rule qs_res_cong [OF assms(5) _ refl], rule o [symmetric]) (use assms(1) in auto)
  show "\<forall>x. \<not> (a1 \<le> x \<and> x < l1) \<and> \<not> (a2 \<le> x \<and> x < l2) \<longrightarrow> ws ! x = zs ! x" using o o' by simp
  show "length ws = length zs" using assms(2,3) by (simp add: keeps_outside_def)
qed

lemma perm_inside:
  fixes xs ys :: "'a list"
  assumes "mset (map f ys) = mset (map f xs)" "keeps_outside a l xs ys" "l \<le> length xs" "a \<le> x" "x < l"
  shows "\<exists>y. a \<le> y \<and> y < l \<and> f (ys ! x) = f (xs ! y)"
proof -
  have len: "length ys = length xs" and o: "take a ys = take a xs" "drop l ys = drop l xs"
    using assms(2) by (auto simp: keeps_outside_def intro!: nth_equalityI)
  have s: "zs = take a zs @ take (l - a) (drop a zs) @ drop l zs" for zs :: "'a list"
  proof -
    have "drop l zs = drop (l - a) (drop a zs)" using assms(4,5) by simp
    then show ?thesis by (simp only: append_take_drop_id)
  qed
  have "mset (map f (take (l - a) (drop a ys))) = mset (map f (take (l - a) (drop a xs)))"
  proof -
    have "mset (map f zs) = mset (map f (take a zs)) + mset (map f (take (l - a) (drop a zs))) + mset (map f (drop l zs))" for zs
      by (subst s [of zs]) simp
    from this [of xs] this [of ys] show ?thesis using assms(1) o by simp
  qed
  moreover have "f (ys ! x) \<in> set (map f (take (l - a) (drop a ys)))"
    using assms(3-5) len by (auto simp: in_set_conv_nth intro!: image_eqI exI [of _ "x - a"])
  ultimately have "f (ys ! x) \<in> set (map f (take (l - a) (drop a xs)))" using mset_eq_setD by blast
  then obtain k where "k < length (take (l - a) (drop a xs))" "f (ys ! x) = f (take (l - a) (drop a xs) ! k)"
    by (auto simp: in_set_conv_nth)
  then show ?thesis using assms(3) by (intro exI [of _ "a + k"]) auto
qed

lemma fold_zero:
  assumes "set ks \<subseteq> {..<length ys}" "distinct ks"
  shows "fold (\<lambda>k xs. xs[k := zero (xs ! k)]) ks ys ! x = (if x \<in> set ks then zero (ys ! x) else ys ! x)"
  using assms by (induction ks arbitrary: ys) (auto simp: nth_list_update)

lemma nth_zero_dups: "hp < length ys \<Longrightarrow> zero_dups uflg zero lp hp ys ! x = (if uflg \<and> lp < x \<and> x \<le> hp then zero (ys ! x) else ys ! x)"
proof -
  assume "hp < length ys"
  then have "set [lp + 1..<hp + 1] \<subseteq> {..<length ys}" by auto
  from fold_zero [OF this distinct_upt, of zero x] show ?thesis by (auto simp: zero_dups_def Suc_le_eq less_Suc_eq_le simp del: upt_Suc)
qed

lemma length_zero_dups [simp]: "length (zero_dups uflg zero lp hp ys) = length ys"
proof -
  have "length (fold (\<lambda>k xs. xs[k := zero (xs ! k)]) ks ys) = length ys" for ks by (induction ks arbitrary: ys) auto
  then show ?thesis by (simp add: zero_dups_def del: upt_Suc)
qed

text \<open>Whatever the comparison is, the elements are permuted.\<close>

lemma qs_part_mset:
  assumes "qs_part compare xs a (l - Suc 0) n n = (ys, lp, hp)" "a \<le> n" "n < l" "l \<le> length xs"
  shows "mset ys = mset xs" "hp < length ys"
proof -
  let ?B = "\<lambda>ys i j lp hp :: nat. a \<le> i \<and> i \<le> lp \<and> lp \<le> hp \<and> hp \<le> j \<and> j < l \<and> length ys = length xs \<and> mset ys = mset xs"
  have "\<exists>i' j'. ?B ys i' j' lp hp \<and> lp \<le> i' \<and> j' \<le> hp"
    by (rule qs_rule(1) [where I = ?B and K = ?B, OF _ _ _ _ _ _ _ _ refl _ assms(1)])
      (use assms(2-4) in \<open>auto simp: mset_qsexc mset_qstexc\<close>)
  then show "mset ys = mset xs" "hp < length ys" using assms(4) by auto
qed

lemma quicksort_mset:
  assumes "\<And>x. f (zero x) = f x" "l \<le> length xs"
  shows "mset (map f (quicksort compare uflg zero a l xs)) = mset (map f xs)"
  using assms(2)
proof (induction "l - a" arbitrary: a l xs rule: less_induct)
  case less
  show ?case
  proof (cases "l - a \<le> 1")
    case True
    then show ?thesis by (simp add: quicksort.simps [of _ _ _ a l])
  next
    case False
    let ?n = "a + (l - a) div 2"
    obtain ys lp hp where q: "qs_part compare xs a (l - Suc 0) ?n ?n = (ys, lp, hp)" by (metis prod_cases3)
    have n: "a \<le> ?n" "?n < l" using False by linarith+
    have b: "a \<le> lp" "lp \<le> hp" "hp < l" using qs_split_bounds [OF q [symmetric]] False by auto
    note m = qs_part_mset [OF q n less.prems]
    define zs where "zs = zero_dups uflg zero lp hp ys"
    have z: "length zs = length xs" using m(1) mset_eq_length by (simp add: zs_def)
    have "map f zs = map f ys" unfolding zs_def by (rule nth_equalityI) (use m(2) in \<open>auto simp: nth_zero_dups assms(1)\<close>)
    with m(1) have mz: "mset (map f zs) = mset (map f xs)" by simp
    have len: "length (quicksort compare uflg zero a' l' vs) = length vs" if "l' - a' < l - a" "l' \<le> length vs" for a' l' vs
      using less.hyps [OF that] by (metis length_map mset_eq_length)
    have "mset (map f (quicksort compare uflg zero a2 l2 (quicksort compare uflg zero a1 l1 zs))) = mset (map f xs)"
      if "l1 - a1 < l - a" "l2 - a2 < l - a" "l1 \<le> length xs" "l2 \<le> length xs" for a1 l1 a2 l2
      using less.hyps [OF that(1), of zs] less.hyps [OF that(2), of "quicksort compare uflg zero a1 l1 zs"] len [OF that(1), of zs] that z mz by simp
    from this [of l "hp + 1" lp a] this [of lp a l "hp + 1"] show ?thesis
      using False q b less.prems by (simp add: quicksort.simps [of _ _ _ a l] zs_def Let_def)
  qed
qed

context line_sorter
begin

lemma map_zero_dups: "hp < length ys \<Longrightarrow> map line (zero_dups uflg zero lp hp ys) = map line ys"
  by (rule nth_equalityI) (auto simp: nth_zero_dups line_zero)

text \<open>Two sorted parts around the pivot.\<close>

lemma qs_res_join:
  assumes "part_inv compare a l xs pv ys lp hp lp hp" "\<And>x. a \<le> x \<Longrightarrow> x < l \<Longrightarrow> P (xs ! x)"
    and "zs = zero_dups uflg zero lp hp ys" "\<And>x. lp \<le> x \<Longrightarrow> x \<le> hp \<Longrightarrow> ws ! x = zs ! x"
    and "qs_res compare line zero P uflg a lp zs ws" "qs_res compare line zero P uflg (hp + 1) l zs ws"
    and "mset (map line ws) = mset (map line xs)" "keeps_outside a l xs ws"
  shows "qs_res compare line zero P uflg a l xs ws"
proof -
  have b: "a \<le> lp" "lp \<le> hp" "hp < l" "l \<le> length ys" and k: "mset ys = mset xs" "keeps_outside a l xs ys"
    and p: "\<And>x. a \<le> x \<Longrightarrow> x < lp \<Longrightarrow> compare (ys ! x) pv < 0" "\<And>x. lp \<le> x \<Longrightarrow> x \<le> hp \<Longrightarrow> compare (ys ! x) pv = 0"
      "\<And>x. hp < x \<Longrightarrow> x < l \<Longrightarrow> compare (ys ! x) pv > 0"
    using assms(1) unfolding part_inv_def by blast+
  have z: "zs ! x = (if uflg \<and> lp < x \<and> x \<le> hp then zero (ys ! x) else ys ! x)" for x
    using assms(3) b nth_zero_dups [of hp ys uflg zero lp x] by simp
  have zl: "compare (zs ! x) pv = compare (ys ! x) pv" for x
  proof (rule compare_line)
    show "line (zs ! x) = line (ys ! x)" by (simp add: z line_zero)
  qed simp
  have w1: "compare (ws ! x) pv < 0" if "a \<le> x" "x < lp" for x
  proof -
    from qs_res_lines [OF assms(5) that] obtain y where "a \<le> y" "y < lp" "line (ws ! x) = line (zs ! y)" by blast
    then show ?thesis using p(1) [of y] zl [of y] compare_line [of "ws ! x" "zs ! y" pv pv] by simp
  qed
  have w2: "compare (ws ! x) pv = 0" if "lp \<le> x" "x \<le> hp" for x using that assms(4) p(2) zl by simp
  have w3: "compare (ws ! x) pv > 0" if "hp < x" "x < l" for x
  proof -
    have "hp + 1 \<le> x" using that by simp
    from qs_res_lines [OF assms(6) this that(2)] obtain y where "hp + 1 \<le> y" "y < l" "line (ws ! x) = line (zs ! y)" by blast
    then show ?thesis using p(3) [of y] zl [of y] compare_line [of "ws ! x" "zs ! y" pv pv] by simp
  qed
  have Py: "P (ys ! x)" if "a \<le> x" "x < l" for x
    using perm_inside [of id ys xs a l x] k b that assms(2) mset_eq_length [OF k(1)] by auto
  have less: "compare (ws ! x) (ws ! y) < 0" if "a \<le> x" "x < y" "y < l" "x < lp \<and> lp \<le> y \<or> x \<le> hp \<and> hp < y" for x y
    using that w1 [of x] w2 [of x] w2 [of y] w3 [of y] less_trans [of "ws ! x" pv "ws ! y"] less_trans2 [of "ws ! x" pv "ws ! y"]
      swap [of pv "ws ! y"] eq_sym [of "ws ! y" pv] by (cases "y \<le> hp"; cases "x < lp") auto
  have sorted: "compare (ws ! x) (ws ! y) \<le> 0" if xy: "a \<le> x" "x < y" "y < l" for x y
  proof (cases "x < lp \<and> lp \<le> y \<or> x \<le> hp \<and> hp < y")
    case True
    then show ?thesis using less xy by fastforce
  next
    case False
    then consider "y < lp" | "lp \<le> x" "y \<le> hp" | "hp < x" by linarith
    then show ?thesis
    proof cases
      case 1
      then show ?thesis using qs_res_sorted [OF assms(5)] xy by blast
    next
      case 2
      then show ?thesis using w2 [of x] w2 [of y] xy eq_cong(5) [of "ws ! x" pv "ws ! y"] eq_sym [of "ws ! y" pv] by auto
    next
      case 3
      then show ?thesis using qs_res_sorted [OF assms(6), of x y] xy by simp
    qed
  qed
  have marks: "if uflg \<and> (\<exists>y. a \<le> y \<and> y < x \<and> compare (ws ! y) (ws ! x) = 0) then \<exists>e. P e \<and> ws ! x = zero e else P (ws ! x)"
    if x: "a \<le> x" "x < l" for x
  proof -
    consider "x < lp" | "x = lp" | "lp < x" "x \<le> hp" | "hp < x" by linarith
    then show ?thesis
    proof cases
      case 1
      then show ?thesis using qs_res_marks [OF assms(5) x(1)] by blast
    next
      case 2
      have "\<not> (\<exists>y. a \<le> y \<and> y < x \<and> compare (ws ! y) (ws ! x) = 0)" using less x 2 b by fastforce
      then show ?thesis using 2 Py [OF x] assms(4) [of lp] b z [of lp] by auto
    next
      case 3
      have "compare (ws ! lp) (ws ! x) = 0" using w2 [of lp] w2 [of x] 3 b eq_cong(5) [of "ws ! lp" pv "ws ! x"] eq_sym [of "ws ! x" pv] by auto
      then have "\<exists>y. a \<le> y \<and> y < x \<and> compare (ws ! y) (ws ! x) = 0" using 3 b by blast
      then show ?thesis using 3 Py [OF x] assms(4) [of x] z by auto
    next
      case 4
      have "(\<exists>y. a \<le> y \<and> y < x \<and> compare (ws ! y) (ws ! x) = 0) \<longleftrightarrow> (\<exists>y. hp + 1 \<le> y \<and> y < x \<and> compare (ws ! y) (ws ! x) = 0)"
      proof
        assume "\<exists>y. a \<le> y \<and> y < x \<and> compare (ws ! y) (ws ! x) = 0"
        then obtain y where y: "a \<le> y" "y < x" "compare (ws ! y) (ws ! x) = 0" by blast
        then have "\<not> y \<le> hp" using less [of y x] 4 x by auto
        with y show "\<exists>y. hp + 1 \<le> y \<and> y < x \<and> compare (ws ! y) (ws ! x) = 0" by (intro exI [of _ y]) simp
      next
        assume "\<exists>y. hp + 1 \<le> y \<and> y < x \<and> compare (ws ! y) (ws ! x) = 0"
        then obtain y where "hp + 1 \<le> y" "y < x" "compare (ws ! y) (ws ! x) = 0" by blast
        then show "\<exists>y. a \<le> y \<and> y < x \<and> compare (ws ! y) (ws ! x) = 0" using b by (intro exI [of _ y]) simp
      qed
      moreover have "hp + 1 \<le> x" using 4 by simp
      ultimately show ?thesis using qs_res_marks [OF assms(6) _ x(2)] by presburger
    qed
  qed
  have len: "l \<le> length xs" using b mset_eq_length [OF k(1)] by simp
  show ?thesis unfolding qs_res_def using sorted marks perm_inside [OF assms(7,8) len] by blast
qed

lemma quicksort_res:
  "l \<le> length xs \<Longrightarrow> (\<And>x. a \<le> x \<Longrightarrow> x < l \<Longrightarrow> P (xs ! x)) \<Longrightarrow>
   keeps_outside a l xs (quicksort compare uflg zero a l xs) \<and>
   mset (map line (quicksort compare uflg zero a l xs)) = mset (map line xs) \<and>
   qs_res compare line zero P uflg a l xs (quicksort compare uflg zero a l xs)"
proof (induction "l - a" arbitrary: a l xs rule: less_induct)
  case less
  show ?case
  proof (cases "l - a \<le> 1")
    case True
    then show ?thesis using less.prems by (auto simp: quicksort.simps [of _ _ _ a l] keeps_outside_def qs_res_def)
  next
    case False
    let ?n = "a + (l - a) div 2"
    obtain ys lp hp where q: "qs_part compare xs a (l - Suc 0) ?n ?n = (ys, lp, hp)" by (metis prod_cases3)
    have n: "a \<le> ?n" "?n < l" using False by linarith+
    have I: "part_inv compare a l xs (xs ! ?n) ys lp hp lp hp" by (rule part_correct [OF q n less.prems(1)])
    have b: "a \<le> lp" "lp \<le> hp" "hp < l" "l \<le> length ys" and k: "mset ys = mset xs" "keeps_outside a l xs ys" using I unfolding part_inv_def by blast+
    define zs where "zs = zero_dups uflg zero lp hp ys"
    have len: "length zs = length xs" using k mset_eq_length by (simp add: zs_def)
    have z: "zs ! x = (if uflg \<and> lp < x \<and> x \<le> hp then zero (ys ! x) else ys ! x)" for x
      unfolding zs_def using b nth_zero_dups [of hp ys uflg zero lp x] by simp
    have mz: "mset (map line zs) = mset (map line xs)" using map_zero_dups [of hp ys uflg lp] b k(1) by (simp add: zs_def)
    have oz: "keeps_outside a l xs zs" using k(2) z len b by (auto simp: keeps_outside_def)
    have Py: "P (ys ! x)" if "a \<le> x" "x < l" for x
      using perm_inside [of id ys xs a l x] k b that less.prems by auto
    let ?q = "\<lambda>a l xs. quicksort compare uflg zero a l xs"
    have two: "keeps_outside a l xs (?q a2 l2 (?q a1 l1 zs)) \<and> mset (map line (?q a2 l2 (?q a1 l1 zs))) = mset (map line xs) \<and>
        (\<forall>x. lp \<le> x \<and> x \<le> hp \<longrightarrow> ?q a2 l2 (?q a1 l1 zs) ! x = zs ! x) \<and>
        qs_res compare line zero P uflg a1 l1 zs (?q a2 l2 (?q a1 l1 zs)) \<and> qs_res compare line zero P uflg a2 l2 zs (?q a2 l2 (?q a1 l1 zs))"
      if r: "a1 = a \<and> l1 = lp \<and> a2 = hp + 1 \<and> l2 = l \<or> a1 = hp + 1 \<and> l1 = l \<and> a2 = a \<and> l2 = lp" for a1 l1 a2 l2
    proof -
      define vs ws where "vs = ?q a1 l1 zs" and "ws = ?q a2 l2 vs"
      have s: "l1 - a1 < l - a" "l2 - a2 < l - a" "l1 \<le> length zs" "l2 \<le> length zs" "l1 \<le> a2 \<or> l2 \<le> a1" using r b len less.prems(1) False by auto
      have "P (zs ! x)" if "a1 \<le> x \<and> x < l1 \<or> a2 \<le> x \<and> x < l2" for x using Py [of x] that r b z [of x] by auto
      with less.hyps [OF s(1,3)] have v: "keeps_outside a1 l1 zs vs" "mset (map line vs) = mset (map line zs)" "qs_res compare line zero P uflg a1 l1 zs vs"
        and Pz: "\<And>x. a2 \<le> x \<Longrightarrow> x < l2 \<Longrightarrow> P (zs ! x)" by (simp_all add: vs_def)
      have "P (vs ! x)" if "a2 \<le> x" "x < l2" for x using Pz [OF that] that v(1) s(5) by (auto simp: keeps_outside_def)
      with less.hyps [OF s(2), of vs] s(4) v(1) have w: "keeps_outside a2 l2 vs ws" "mset (map line ws) = mset (map line vs)" "qs_res compare line zero P uflg a2 l2 vs ws"
        by (simp_all add: ws_def keeps_outside_def)
      note t = qs_res_two [OF s(5) v(1) w(1) v(3) w(3)]
      have m: "ws ! x = zs ! x" if "lp \<le> x" "x \<le> hp" for x using t(3) that r by auto
      have "keeps_outside a l xs ws" using oz t(3,4) r b by (auto simp: keeps_outside_def)
      then show ?thesis using t(1,2) m v(2) w(2) mz unfolding vs_def [symmetric] ws_def [symmetric] by simp
    qed
    define ws where "ws = (if lp - a \<ge> l - hp then ?q a lp (?q (hp + 1) l zs) else ?q (hp + 1) l (?q a lp zs))"
    have e: "?q a l xs = ws" using False q by (simp add: quicksort.simps [of _ _ _ a l] ws_def zs_def Let_def)
    have "keeps_outside a l xs ws \<and> mset (map line ws) = mset (map line xs) \<and> (\<forall>x. lp \<le> x \<and> x \<le> hp \<longrightarrow> ws ! x = zs ! x) \<and>
      qs_res compare line zero P uflg a lp zs ws \<and> qs_res compare line zero P uflg (hp + 1) l zs ws"
      unfolding ws_def using two [of a lp "hp + 1" l] two [of "hp + 1" l a lp] by simp
    then show ?thesis unfolding e using qs_res_join [where P = P, OF I _ zs_def, of ws] less.prems(2) by blast
  qed
qed

end

end
