(* ===== verification/Sortcmp.thy ===== *)
theory Sortcmp
  imports Sortqs Stdio Complex_Main
begin

text \<open>
  The comparison of lines in \<open>sort/sort.c\<close>, for single-byte locales: the fields and keys (\<open>skip\<close>), the comparison of keys as characters, by the collating
  sequence, as months (\<open>elicpy\<close>, \<open>monthcmp\<close>) and as numbers (\<open>cmpnum\<close>), and the comparison of whole lines (\<open>cmpa\<close>, \<open>cmpl\<close>).  A pointer into a line is the
  position in it.  Lines end with a newline; \<open>chr_at\<close> gives a newline for positions behind it, which only \<open>-i\<close> can reach (\<open>nonprint_sb\<close> accepts a newline, so that the
  program goes on into the memory behind the line until it finds a printable character).
\<close>

section \<open>The environment and the fields\<close>

text \<open>The functions of the C library that depend on the locale, and what \<open>main\<close> has found out about it.\<close>

record sortenv =
  e_isprint :: "char \<Rightarrow> bool"
  e_isblank :: "char \<Rightarrow> bool"
  e_isalnum :: "char \<Rightarrow> bool"
  e_toupper :: "int \<Rightarrow> int"
  e_strcoll :: "string \<Rightarrow> string \<Rightarrow> int"
  e_abmon :: "string list"
  e_radixchar :: int
  e_thousep :: int
  e_ccoll :: bool

datatype fcode = Fold_sb | Nofold_sb
datatype fign = Noign | Dict_sb | Nonprint_sb

text \<open>
  \<open>struct field\<close>.  \<open>f_m\<close> holds \<open>m[0]\<close>, \<open>m[1]\<close>, \<open>n[0]\<close>, \<open>n[1]\<close>, which follow each other in memory and are accessed as one array by \<open>field\<close>.
\<close>

record sfield =
  f_code :: fcode
  f_ignore :: fign
  f_nflg :: bool
  f_rflg :: int
  f_Mflg :: bool
  f_bflg :: "bool list"
  f_m :: "int list"
  f_posix :: bool

definition proto :: sfield where
  "proto = \<lparr>f_code = Nofold_sb, f_ignore = Noign, f_nflg = False, f_rflg = 1, f_Mflg = False, f_bflg = [False, False], f_m = [0, -1, 0, 0], f_posix = False\<rparr>"

text \<open>The options that the comparison depends on: \<open>fields\<close> (the first one is for the whole line), \<open>tabchar\<close>, \<open>uflg\<close>.\<close>

record sortfl =
  s_fields :: "sfield list"
  s_tabchar :: int
  s_uflg :: bool

definition chr_at :: "string \<Rightarrow> nat \<Rightarrow> char" where
  "chr_at l p = (if p < length l then l ! p else NL)"

text \<open>\<open>nofold_sb\<close>, \<open>fold_sb\<close>; \<open>dict_sb\<close>, \<open>nonprint_sb\<close>\<close>

definition code_sb :: "sortenv \<Rightarrow> fcode \<Rightarrow> char \<Rightarrow> int" where
  "code_sb env k c = (case k of Nofold_sb \<Rightarrow> uchar c | Fold_sb \<Rightarrow> e_toupper env (uchar c))"

definition ignored :: "sortenv \<Rightarrow> fign \<Rightarrow> char \<Rightarrow> bool" where
  "ignored env k c =
     (case k of Noign \<Rightarrow> False | Dict_sb \<Rightarrow> \<not> (c = NL \<or> e_isblank env c \<or> e_isalnum env c) | Nonprint_sb \<Rightarrow> \<not> e_isprint env c)"

text \<open>\<open>chkblank\<close>, and the test for a blank that depends on it.\<close>

definition chkblank :: "sortenv \<Rightarrow> bool" where
  "chkblank env = (\<forall>c\<in>set (map char_of [1..<256 :: nat]). c = CHR '' '' \<or> c = TAB \<or> \<not> e_isblank env c)"

definition blank_sb :: "sortenv \<Rightarrow> char \<Rightarrow> bool" where
  "blank_sb env c = (if chkblank env then c = CHR '' '' \<or> c = TAB else e_isblank env c)"

section \<open>Keys\<close>

text \<open>Loops over the characters of a line: \<open>while (P(*p)) p++\<close> stops at the end of the line.\<close>

function skip_while :: "(char \<Rightarrow> bool) \<Rightarrow> string \<Rightarrow> nat \<Rightarrow> nat" where
  "skip_while P l p = (if p < length l \<and> P (l ! p) then skip_while P l (p + 1) else p)"
  by pat_completeness auto
termination
  by (relation "measure (\<lambda>(P, l, p). length l - p)") auto

declare skip_while.simps [simp del]

definition eol :: "string \<Rightarrow> nat \<Rightarrow> nat" where
  "eol l p = skip_while (\<lambda>c. c \<noteq> NL) l p"

text \<open>
  \<open>skip\<close>.  The left side of a result is the jump to \<open>ret\<close> when the line is at its end.
\<close>

definition skip_tab :: "int \<Rightarrow> string \<Rightarrow> nat \<Rightarrow> nat + nat" where
  "skip_tab tab l p =
     (let p = skip_while (\<lambda>c. uchar c \<noteq> tab \<and> c \<noteq> NL) l p in if uchar (chr_at l p) = tab then Inr (p + 1) else Inl p)"

definition skip_word :: "sortenv \<Rightarrow> string \<Rightarrow> nat \<Rightarrow> nat + nat" where
  "skip_word env l p =
     (let p = skip_while (blank_sb env) l p; p = skip_while (\<lambda>c. \<not> blank_sb env c \<and> c \<noteq> NL) l p
      in if blank_sb env (chr_at l p) then Inr p else Inl p)"

primrec skip_fields :: "sortenv \<Rightarrow> int \<Rightarrow> nat \<Rightarrow> string \<Rightarrow> nat \<Rightarrow> nat + nat" where
  "skip_fields env tab 0 l p = Inr p"
| "skip_fields env tab (Suc i) l p =
     (case (if tab \<noteq> 0 then skip_tab tab l p else skip_word env l p) of Inl p \<Rightarrow> Inl p | Inr p \<Rightarrow> skip_fields env tab i l p)"

primrec skip_chars :: "nat \<Rightarrow> string \<Rightarrow> nat \<Rightarrow> nat + nat" where
  "skip_chars 0 l p = Inr p"
| "skip_chars (Suc i) l p = (if chr_at l p \<noteq> NL then skip_chars i l (p + 1) else Inl p)"

definition skip_run :: "sortenv \<Rightarrow> int \<Rightarrow> nat \<Rightarrow> bool \<Rightarrow> nat \<Rightarrow> string \<Rightarrow> nat \<Rightarrow> nat + nat" where
  "skip_run env tab i b n l p =
     (case skip_fields env tab i l p of
        Inl p \<Rightarrow> Inl p
      | Inr p \<Rightarrow> skip_chars n l (if b then skip_while (blank_sb env) l p else p))"

definition skip :: "sortenv \<Rightarrow> sortfl \<Rightarrow> string \<Rightarrow> nat \<Rightarrow> sfield \<Rightarrow> nat \<Rightarrow> nat" where
  "skip env fl l p fp j =
     (let i = f_m fp ! j; n = f_m fp ! (j + 2)
      in if i < 0 then eol l p
         else case skip_run env (s_tabchar fl) (nat i) (f_bflg fp ! j) (nat n) l p of
                Inl p \<Rightarrow> p
              | Inr p \<Rightarrow>
                  if f_posix fp \<and> n = 0 \<and> j = 1 then
                    (case skip_run env (s_tabchar fl) 1 False (nat n) l p of Inl p \<Rightarrow> p | Inr p \<Rightarrow> p)
                  else p)"

section \<open>Comparisons\<close>

text \<open>The characters of two keys, \<open>i\<close> from \<open>pa\<close> to \<open>la\<close> and \<open>j\<close> from \<open>pb\<close> to \<open>lb\<close>; 0 if they are equal.\<close>

function cmp_loop :: "sortenv \<Rightarrow> sfield \<Rightarrow> string \<Rightarrow> string \<Rightarrow> nat \<Rightarrow> nat \<Rightarrow> nat \<Rightarrow> nat \<Rightarrow> int" where
  "cmp_loop env fp i j la lb pa pb =
     (let pa = skip_while (ignored env (f_ignore fp)) i pa; pb = skip_while (ignored env (f_ignore fp)) j pb
      in if pa \<ge> la \<or> chr_at i pa = NL then (if pb < lb \<and> chr_at j pb \<noteq> NL then f_rflg fp else 0)
         else if pb \<ge> lb \<or> chr_at j pb = NL then - f_rflg fp
         else (let sa = code_sb env (f_code fp) (chr_at j pb) - code_sb env (f_code fp) (chr_at i pa)
               in if sa = 0 then cmp_loop env fp i j la lb (pa + 1) (pb + 1) else sa * f_rflg fp))"
  by pat_completeness auto

lemma skip_while_ge: "p \<le> skip_while P l p"
  by (induction P l p rule: skip_while.induct) (subst skip_while.simps, auto intro: Suc_leD)

lemma skip_while_step: "skip_while P l p < e \<Longrightarrow> e - Suc (skip_while P l p) < e - p"
  using skip_while_ge [of p P l] by linarith

termination cmp_loop
  by (relation "measure (\<lambda>(env, fp, i, j, la, lb, pa, pb). la - pa)") (auto simp: not_le skip_while_step)

declare cmp_loop.simps [simp del]

text \<open>\<open>elicpy\<close>, \<open>cpcu3\<close>, \<open>monthcoll\<close>, \<open>monthcmp\<close>\<close>

function elicpy :: "sortenv \<Rightarrow> sfield \<Rightarrow> string \<Rightarrow> nat \<Rightarrow> nat \<Rightarrow> string" where
  "elicpy env fp l send p =
     (let p = skip_while (ignored env (f_ignore fp)) l p
      in if p \<ge> send \<or> chr_at l p = NUL \<or> chr_at l p = NL then [] else to_char (code_sb env (f_code fp) (chr_at l p)) # elicpy env fp l send (p + 1))"
  by pat_completeness auto
termination
  by (relation "measure (\<lambda>(env, fp, l, send, p). send - p)") (auto simp: not_le skip_while_step)

declare elicpy.simps [simp del]

definition cpcu3 :: "sortenv \<Rightarrow> string \<Rightarrow> string" where
  "cpcu3 env s = cstr (take 3 (map (\<lambda>c. to_char (e_toupper env (uchar c))) s))"

fun monthcoll_from :: "int \<Rightarrow> string \<Rightarrow> string list \<Rightarrow> int" where
  "monthcoll_from i u [] = 0"
| "monthcoll_from i u (m # ms) = (if u = m then i else monthcoll_from (i + 1) u ms)"

definition monthcoll :: "sortenv \<Rightarrow> string \<Rightarrow> int" where
  "monthcoll env s = monthcoll_from 0 (cpcu3 env s) (map (cpcu3 env) (e_abmon env))"

definition monthcmp :: "sortenv \<Rightarrow> string \<Rightarrow> string \<Rightarrow> int" where
  "monthcmp env pa pb = monthcoll env pa - monthcoll env pb"

text \<open>
  \<open>cmpnum\<close>.  \<open>num_end\<close> is the end of the digits before the radix character.  They are compared from the last one on: \<open>num_back\<close> gets the digits in reverse order,
  with the separators of thousands, and gives the most significant difference and what is left of the longer number.
\<close>

definition num_char :: "sortenv \<Rightarrow> char \<Rightarrow> bool" where
  "num_char env c \<longleftrightarrow> is_digit c \<or> e_thousep env \<noteq> 0 \<and> uchar c = e_thousep env"

function run_end :: "(char \<Rightarrow> bool) \<Rightarrow> string \<Rightarrow> nat \<Rightarrow> nat \<Rightarrow> nat" where
  "run_end P l e p = (if p < e \<and> P (chr_at l p) then run_end P l e (p + 1) else p)"
  by pat_completeness auto
termination
  by (relation "measure (\<lambda>(P, l, e, p). e - p)") auto

declare run_end.simps [simp del]

function num_back :: "int \<Rightarrow> string \<Rightarrow> string \<Rightarrow> int \<times> string \<times> string" where
  "num_back a (x # xs) (y # ys) =
     (if \<not> is_digit x then num_back a xs (y # ys)
      else if \<not> is_digit y then num_back a (x # xs) ys
      else (let b = uchar y - uchar x in num_back (if b \<noteq> 0 then b else a) xs ys))"
| "num_back a [] ys = (a, [], ys)"
| "num_back a xs [] = (a, xs, [])"
  by pat_completeness auto
termination
  by (relation "measure (\<lambda>(a, xs, ys). length xs + length ys)") auto

definition any_nonzero :: "string \<Rightarrow> bool" where
  "any_nonzero xs = list_ex (\<lambda>c. is_digit c \<and> c \<noteq> CHR ''0'') xs"

text \<open>The digits behind the radix character: \<open>pa\<close> and \<open>pb\<close> are the positions, \<open>la\<close> and \<open>lb\<close> the ends of the keys.\<close>

function frac_nonzero :: "string \<Rightarrow> nat \<Rightarrow> nat \<Rightarrow> bool" where
  "frac_nonzero l la pa = (if pa < la \<and> is_digit (chr_at l pa) then chr_at l pa \<noteq> CHR ''0'' \<or> frac_nonzero l la (pa + 1) else False)"
  by pat_completeness auto
termination
  by (relation "measure (\<lambda>(l, la, pa). la - pa)") auto

declare frac_nonzero.simps [simp del]

function cmp_frac :: "string \<Rightarrow> string \<Rightarrow> nat \<Rightarrow> nat \<Rightarrow> int \<Rightarrow> int \<Rightarrow> nat \<Rightarrow> nat \<Rightarrow> int" where
  "cmp_frac i j la lb sa sb pa pb =
     (if sa = sb \<and> pa < la \<and> is_digit (chr_at i pa) \<and> pb < lb \<and> is_digit (chr_at j pb) then
        (let a = uchar (chr_at j pb) - uchar (chr_at i pa) in if a \<noteq> 0 then a * sa else cmp_frac i j la lb sa sb (pa + 1) (pb + 1))
      else if frac_nonzero i la pa then - sa
      else if frac_nonzero j lb pb then sb
      else 0)"
  by pat_completeness auto
termination
  by (relation "measure (\<lambda>(i, j, la, lb, sa, sb, pa, pb). la - pa)") auto

declare cmp_frac.simps [simp del]

definition cmpnum :: "sortenv \<Rightarrow> string \<Rightarrow> string \<Rightarrow> nat \<Rightarrow> nat \<Rightarrow> nat \<Rightarrow> nat \<Rightarrow> int \<Rightarrow> int" where
  "cmpnum env i j pa pb la lb rflg =
     (let pa = skip_while (blank_sb env) i pa;
          pb = skip_while (blank_sb env) j pb;
          sa = (if chr_at i pa = CHR ''-'' then - rflg else rflg);
          pa = (if chr_at i pa = CHR ''-'' then pa + 1 else pa);
          sb = (if chr_at j pb = CHR ''-'' then - rflg else rflg);
          pb = (if chr_at j pb = CHR ''-'' then pb + 1 else pb);
          jpa = run_end (num_char env) i la pa;
          jpb = run_end (num_char env) j lb pb;
          da = rev (map (chr_at i) [pa..<jpa]);
          db = rev (map (chr_at j) [pb..<jpb])
      in case (if sa = sb then num_back 0 da db else (0, da, db)) of
           (a, xs, ys) \<Rightarrow>
             if any_nonzero xs then - sa
             else if any_nonzero ys then sb
             else if a \<noteq> 0 then a * sa
             else cmp_frac i j la lb sa sb
                    (if uchar (chr_at i jpa) = e_radixchar env then jpa + 1 else jpa)
                    (if uchar (chr_at j jpb) = e_radixchar env then jpb + 1 else jpb))"

text \<open>\<open>cmpa\<close> and \<open>cmpl\<close>, which the program calls through \<open>cmpf\<close>; \<open>ecpy\<close>\<close>

function cmpa_from :: "int \<Rightarrow> string \<Rightarrow> string \<Rightarrow> nat \<Rightarrow> int" where
  "cmpa_from rflg pa pb p =
     (if chr_at pa p = chr_at pb p then (if chr_at pa p = NL then 0 else cmpa_from rflg pa pb (p + 1))
      else if chr_at pa p = NL then rflg
      else if chr_at pb p = NL then - rflg
      else if uchar (chr_at pb p) > uchar (chr_at pa p) then rflg
      else - rflg)"
  by pat_completeness auto
termination
  by (relation "measure (\<lambda>(rflg, pa, pb, p). length pa - p)") (auto simp: chr_at_def split: if_splits)

declare cmpa_from.simps [simp del]

definition cmpa :: "sortfl \<Rightarrow> string \<Rightarrow> string \<Rightarrow> int" where
  "cmpa fl pa pb = cmpa_from (f_rflg (s_fields fl ! 0)) pa pb 0"

definition ecpy :: "string \<Rightarrow> string" where
  "ecpy s = takeWhile (\<lambda>c. c \<noteq> NUL \<and> c \<noteq> NL) s"

definition cmpl :: "sortenv \<Rightarrow> sortfl \<Rightarrow> string \<Rightarrow> string \<Rightarrow> int" where
  "cmpl env fl pa pb =
     (let n = e_strcoll env (ecpy pa) (ecpy pb); r = f_rflg (s_fields fl ! 0) in if n \<noteq> 0 then if n > 0 then - r else r else 0)"

definition cmpf :: "sortenv \<Rightarrow> sortfl \<Rightarrow> string \<Rightarrow> string \<Rightarrow> int" where
  "cmpf env fl i j = (if e_ccoll env then cmpa fl i j else cmpl env fl i j)"

text \<open>\<open>cmp\<close>: one key with its bounds, then the loop over the keys.\<close>

definition cmp_key :: "sortenv \<Rightarrow> sfield \<Rightarrow> string \<Rightarrow> string \<Rightarrow> nat \<Rightarrow> nat \<Rightarrow> nat \<Rightarrow> nat \<Rightarrow> int" where
  "cmp_key env fp i j pa la pb lb =
     (if f_nflg fp then cmpnum env i j pa pb la lb (f_rflg fp)
      else if e_ccoll env \<and> \<not> f_Mflg fp then cmp_loop env fp i j la lb pa pb
      else (let ca = elicpy env fp i la pa; cb = elicpy env fp j lb pb;
                n = (if f_Mflg fp then monthcmp env ca cb else e_strcoll env ca cb)
            in if n \<noteq> 0 then if n > 0 then - f_rflg fp else f_rflg fp else 0))"

definition key_start :: "sortenv \<Rightarrow> sortfl \<Rightarrow> nat \<Rightarrow> string \<Rightarrow> nat" where
  "key_start env fl k l = (if k > 0 then skip env fl l 0 (s_fields fl ! k) 0 else 0)"

definition key_end :: "sortenv \<Rightarrow> sortfl \<Rightarrow> nat \<Rightarrow> string \<Rightarrow> nat" where
  "key_end env fl k l = (if k > 0 then skip env fl l 0 (s_fields fl ! k) 1 else eol l 0)"

fun cmp_keys :: "sortenv \<Rightarrow> sortfl \<Rightarrow> nat list \<Rightarrow> string \<Rightarrow> string \<Rightarrow> int" where
  "cmp_keys env fl [] i j = (if s_uflg fl then 0 else cmpf env fl i j)"
| "cmp_keys env fl (k # ks) i j =
     (let n = cmp_key env (s_fields fl ! k) i j (key_start env fl k i) (key_end env fl k i) (key_start env fl k j) (key_end env fl k j)
      in if n \<noteq> 0 then n else cmp_keys env fl ks i j)"

definition cmp :: "sortenv \<Rightarrow> sortfl \<Rightarrow> string \<Rightarrow> string \<Rightarrow> int" where
  "cmp env fl i j = (let nfields = length (s_fields fl) - 1 in cmp_keys env fl [(if nfields > 0 then 1 else 0)..<Suc nfields] i j)"

section \<open>Orders of lines\<close>

text \<open>Orders by a key, reversed orders, and one order after another.\<close>

lemma line_orderI:
  assumes "\<And>x y. c x y < 0 \<longleftrightarrow> c y x > 0" "\<And>x y z. c x y \<le> 0 \<Longrightarrow> c y z \<le> 0 \<Longrightarrow> c x z \<le> 0"
  shows "line_order c"
  using assms by unfold_locales

lemma line_order_sgn: "line_order d \<Longrightarrow> (\<And>x y. sgn (c x y) = sgn (d x y)) \<Longrightarrow> line_order c"
proof (rule line_orderI)
  assume d: "line_order d" and s: "\<And>x y. sgn (c x y) = sgn (d x y)"
  have *: "c x y < 0 \<longleftrightarrow> d x y < 0" "c x y > 0 \<longleftrightarrow> d x y > 0" "c x y \<le> 0 \<longleftrightarrow> d x y \<le> 0" for x y
    using s [of x y] by (auto simp: sgn_if split: if_splits)
  show "c x y < 0 \<longleftrightarrow> c y x > 0" for x y using line_order.swap [OF d] * by simp
  show "c x z \<le> 0" if "c x y \<le> 0" "c y z \<le> 0" for x y z using that line_order.trans [OF d, of x y z] * by simp
qed

lemma line_order_by: "line_order c \<Longrightarrow> line_order (\<lambda>x y. c (f x) (f y))"
  by (rule line_orderI) (auto dest: line_order.trans simp: line_order.swap)

lemma line_order_rev: "line_order c \<Longrightarrow> line_order (\<lambda>x y. - c x y)"
proof (rule line_orderI)
  assume c: "line_order c"
  show "- c x y < 0 \<longleftrightarrow> - c y x > 0" for x y using line_order.swap [OF c, of y x] by simp
  show "- c x z \<le> 0" if "- c x y \<le> 0" "- c y z \<le> 0" for x y z
    using that line_order.trans [OF c, of z y x] line_order.le_swap [OF c] by simp
qed

lemma line_order_sign: "line_order c \<Longrightarrow> r = 1 \<or> r = -1 \<Longrightarrow> line_order (\<lambda>x y. r * c x y)"
  using line_order_rev by auto

lemma line_order_lex:
  assumes c: "line_order c" and d: "line_order d"
  shows "line_order (\<lambda>x y. if c x y \<noteq> 0 then c x y else d x y)"
proof (rule line_orderI)
  show "(if c x y \<noteq> 0 then c x y else d x y) < 0 \<longleftrightarrow> (if c y x \<noteq> 0 then c y x else d y x) > 0" for x y
    using line_order.swap [OF c, of x y] line_order.swap [OF d, of x y] line_order.eq_sym [OF c, of x y] by auto
  show "(if c x z \<noteq> 0 then c x z else d x z) \<le> 0"
    if "(if c x y \<noteq> 0 then c x y else d x y) \<le> 0" "(if c y z \<noteq> 0 then c y z else d y z) \<le> 0" for x y z
  proof -
    have xy: "c x y < 0 \<or> c x y = 0 \<and> d x y \<le> 0" and yz: "c y z < 0 \<or> c y z = 0 \<and> d y z \<le> 0"
      using that by (auto split: if_splits)
    show ?thesis
    proof (cases "c x y = 0 \<and> c y z = 0")
      case True
      then have "c x z = 0" using line_order.eq_cong(5) [OF c, of x y z] by simp
      then show ?thesis using True xy yz line_order.trans [OF d] by auto
    next
      case False
      then have "c x z < 0" using xy yz line_order.less_trans [OF c, of x y z] line_order.less_trans2 [OF c, of x y z] by auto
      then show ?thesis by simp
    qed
  qed
qed

lemma line_order_diff: "line_order (\<lambda>x y :: int. y - x)"
  by (rule line_orderI) auto

lemma line_order_const: "line_order (\<lambda>x y. 0)"
  by (rule line_orderI) auto

text \<open>The order of sequences of character codes.\<close>

fun lexcmp :: "int list \<Rightarrow> int list \<Rightarrow> int" where
  "lexcmp [] [] = 0"
| "lexcmp [] (y # ys) = 1"
| "lexcmp (x # xs) [] = -1"
| "lexcmp (x # xs) (y # ys) = (if x = y then lexcmp xs ys else y - x)"

lemma lexcmp_order: "line_order lexcmp"
proof (rule line_orderI)
  show "lexcmp x y < 0 \<longleftrightarrow> lexcmp y x > 0" for x y by (induction x y rule: lexcmp.induct) auto
  show "lexcmp x y \<le> 0 \<Longrightarrow> lexcmp y z \<le> 0 \<Longrightarrow> lexcmp x z \<le> 0" for x y z
  proof (induction x y arbitrary: z rule: lexcmp.induct)
    case 1
    then show ?case by (cases z) auto
  next
    case (3 x xs)
    then show ?case by (cases z) auto
  next
    case (4 x xs y ys)
    then show ?case by (cases z) (auto split: if_splits)
  qed simp
qed

text \<open>The characters that \<open>cmp\<close> compares.\<close>

function key_codes :: "sortenv \<Rightarrow> sfield \<Rightarrow> string \<Rightarrow> nat \<Rightarrow> nat \<Rightarrow> int list" where
  "key_codes env fp l e p =
     (let p = skip_while (ignored env (f_ignore fp)) l p
      in if p \<ge> e \<or> chr_at l p = NL then [] else code_sb env (f_code fp) (chr_at l p) # key_codes env fp l e (p + 1))"
  by pat_completeness auto
termination
  by (relation "measure (\<lambda>(env, fp, l, e, p). e - p)") (auto simp: not_le skip_while_step)

declare key_codes.simps [simp del]

lemma cmp_loop_lex: "cmp_loop env fp i j la lb pa pb = f_rflg fp * lexcmp (key_codes env fp i la pa) (key_codes env fp j lb pb)"
proof (induction env fp i j la lb pa pb rule: cmp_loop.induct)
  case (1 env fp i j la lb pa pb)
  let ?pa = "skip_while (ignored env (f_ignore fp)) i pa" and ?pb = "skip_while (ignored env (f_ignore fp)) j pb"
  note IH = "1.IH" [OF refl refl]
  show ?case
    by (subst cmp_loop.simps, subst key_codes.simps, subst key_codes.simps [of _ _ j]) (use IH in \<open>auto simp: Let_def not_le\<close>)
qed

lemma cmpa_from_lex:
  "r = 1 \<or> r = -1 \<Longrightarrow> sgn (cmpa_from r pa pb p) =
     sgn (r * lexcmp (map uchar (takeWhile (\<lambda>c. c \<noteq> NL) (drop p pa))) (map uchar (takeWhile (\<lambda>c. c \<noteq> NL) (drop p pb))))"
proof (induction r pa pb p rule: cmpa_from.induct)
  case (1 r pa pb p)
  have d: "takeWhile (\<lambda>c. c \<noteq> NL) (drop p l) = (if chr_at l p = NL then [] else chr_at l p # takeWhile (\<lambda>c. c \<noteq> NL) (drop (p + 1) l))" for l
    by (auto simp: chr_at_def simp flip: Cons_nth_drop_Suc)
  show ?case
  proof (cases "chr_at pa p = chr_at pb p \<and> chr_at pa p \<noteq> NL")
    case True
    then have e: "cmpa_from r pa pb p = cmpa_from r pa pb (p + 1)" by (subst cmpa_from.simps) auto
    have t: "takeWhile (\<lambda>c. c \<noteq> NL) (drop p pa) = chr_at pa p # takeWhile (\<lambda>c. c \<noteq> NL) (drop (p + 1) pa)"
      "takeWhile (\<lambda>c. c \<noteq> NL) (drop p pb) = chr_at pa p # takeWhile (\<lambda>c. c \<noteq> NL) (drop (p + 1) pb)" using d [of pa] d [of pb] True by auto
    show ?thesis unfolding e t using "1.IH" [OF conjunct1 [OF True] conjunct2 [OF True] "1.prems"] by simp
  next
    case False
    have c: "cmpa_from r pa pb p =
      (if chr_at pa p = chr_at pb p then 0 else if chr_at pa p = NL then r else if chr_at pb p = NL then - r else if uchar (chr_at pb p) > uchar (chr_at pa p) then r else - r)"
      using False by (subst cmpa_from.simps) auto
    consider "chr_at pa p = NL" "chr_at pb p = NL" | "chr_at pa p = NL" "chr_at pb p \<noteq> NL" | "chr_at pa p \<noteq> NL" "chr_at pb p = NL"
      | "chr_at pa p \<noteq> NL" "chr_at pb p \<noteq> NL" "uchar (chr_at pb p) < uchar (chr_at pa p)"
      | "chr_at pa p \<noteq> NL" "chr_at pb p \<noteq> NL" "uchar (chr_at pa p) < uchar (chr_at pb p)" using False by (metis linorder_cases uchar_inj)
    then show ?thesis by cases (use "1.prems" c d [of pa] d [of pb] in \<open>auto simp: sgn_mult sgn_if\<close>)
  qed
qed

section \<open>Numbers\<close>

text \<open>
  The number at the beginning of a key: its digits before the radix character, read from the last one on and without separators, those behind it, and its value.
\<close>

fun rev_val :: "string \<Rightarrow> int" where
  "rev_val [] = 0"
| "rev_val (c # s) = (if is_digit c then int (digit_val c) + 10 * rev_val s else rev_val s)"

function frac_val :: "string \<Rightarrow> nat \<Rightarrow> nat \<Rightarrow> real" where
  "frac_val l e p = (if p < e \<and> is_digit (chr_at l p) then (real (digit_val (chr_at l p)) + frac_val l e (p + 1)) / 10 else 0)"
  by pat_completeness auto
termination
  by (relation "measure (\<lambda>(l, e, p). e - p)") auto

declare frac_val.simps [simp del]

definition num_value :: "sortenv \<Rightarrow> string \<Rightarrow> nat \<Rightarrow> nat \<Rightarrow> real" where
  "num_value env l p e =
     (let p = skip_while (blank_sb env) l p; neg = (chr_at l p = CHR ''-''); p = (if neg then p + 1 else p); q = run_end (num_char env) l e p;
          v = real_of_int (rev_val (rev (map (chr_at l) [p..<q]))) + frac_val l e (if uchar (chr_at l q) = e_radixchar env then q + 1 else q)
      in if neg then - v else v)"

lemma digit_uchar: "is_digit c \<Longrightarrow> uchar c = 48 + int (digit_val c)" "is_digit c \<Longrightarrow> digit_val c \<le> 9"
  by (auto simp: is_digit_def digit_val_def)

lemma digit_zero: "is_digit c \<Longrightarrow> c = CHR ''0'' \<longleftrightarrow> digit_val c = 0"
proof -
  have z: "uchar (CHR ''0'') = 48" by (simp add: uchar_def)
  show "is_digit c \<Longrightarrow> c = CHR ''0'' \<longleftrightarrow> digit_val c = 0" using uchar_inj [of c "CHR ''0''"] z digit_uchar(1) [of c] by auto
qed

lemma rev_val_ge: "0 \<le> rev_val s"
  by (induction s) auto

lemma any_nonzero_val: "any_nonzero s \<longleftrightarrow> 0 < rev_val s"
proof (induction s)
  case (Cons c s)
  then show ?case using rev_val_ge [of s] digit_zero [of c] by (cases "digit_val c") (auto simp: any_nonzero_def)
qed (simp add: any_nonzero_def)

lemma num_back_val:
  assumes "num_back a0 xs ys = (a, xs', ys')"
  shows "\<exists>k u v. rev_val xs = u + 10 ^ k * rev_val xs' \<and> rev_val ys = v + 10 ^ k * rev_val ys' \<and> 0 \<le> u \<and> u < 10 ^ k \<and> 0 \<le> v \<and> v < 10 ^ k \<and>
    sgn a = (if u = v then sgn a0 else sgn (v - u)) \<and> (rev_val xs' = 0 \<or> rev_val ys' = 0)"
  using assms
proof (induction a0 xs ys rule: num_back.induct)
  case (1 a0 x xs y ys)
  show ?case
  proof (cases "is_digit x \<and> is_digit y")
    case True
    define b where "b = uchar y - uchar x"
    let ?x = "int (digit_val x)" and ?y = "int (digit_val y)"
    have x: "?x \<le> 9" "?y \<le> 9" "b = ?y - ?x" using True digit_uchar [of x] digit_uchar [of y] by (simp_all add: b_def)
    have "num_back (if b \<noteq> 0 then b else a0) xs ys = (a, xs', ys')" using "1.prems" True by (simp add: b_def Let_def cong: if_cong split: if_splits)
    then obtain k u v where h: "rev_val xs = u + 10 ^ k * rev_val xs'" "rev_val ys = v + 10 ^ k * rev_val ys'" "0 \<le> u" "u < 10 ^ k" "0 \<le> v" "v < 10 ^ k"
      "sgn a = (if u = v then sgn (if b \<noteq> 0 then b else a0) else sgn (v - u))" "rev_val xs' = 0 \<or> rev_val ys' = 0"
      using "1.IH"(3) [of b] True b_def by blast
    have "sgn (if b \<noteq> 0 then b else a0) = (if ?x = ?y then sgn a0 else sgn (?y - ?x))" using x(3) by simp
    then have s: "sgn a = (if ?x + 10 * u = ?y + 10 * v then sgn a0 else sgn ((?y + 10 * v) - (?x + 10 * u)))"
      using h(7) x by (auto simp: sgn_if)
    show ?thesis
      by (rule exI [of _ "Suc k"], rule exI [of _ "?x + 10 * u"], rule exI [of _ "?y + 10 * v"]) (use True h(1-6,8) s x in auto)
  next
    case False
    then show ?thesis using 1 by (cases "is_digit x") auto
  qed
next
  case (2 a0 ys)
  then show ?case by (intro exI [of _ 0]) simp
next
  case (3 a0 xs)
  then show ?case by (intro exI [of _ 0]) simp
qed

lemma frac_val_bounds: "0 \<le> frac_val l e p" "frac_val l e p < 1"
proof (induction l e p rule: frac_val.induct)
  case (1 l e p)
  { case 1
    show ?case using "1.IH"(1) by (subst frac_val.simps) auto
  next
    case 2
    have "is_digit (chr_at l p) \<Longrightarrow> real (digit_val (chr_at l p)) \<le> 9" using digit_uchar(2) by fastforce
    then show ?case using "1.IH"(2) by (subst frac_val.simps) auto
  }
qed

lemma frac_val_stop: "\<not> (p < e \<and> is_digit (chr_at l p)) \<Longrightarrow> frac_val l e p = 0"
  by (subst frac_val.simps) auto

lemma frac_nonzero_val: "frac_nonzero l e p \<longleftrightarrow> 0 < frac_val l e p"
proof (induction l e p rule: frac_val.induct)
  case (1 l e p)
  then show ?case using frac_val_bounds(1) [of l e "p + 1"] digit_zero [of "chr_at l p"]
    by (subst frac_nonzero.simps, subst frac_val.simps) (auto simp: add_pos_nonneg add_nonneg_pos)
qed

text \<open>The sign of an integer result and that of a real number.\<close>

definition same_sign :: "int \<Rightarrow> real \<Rightarrow> bool" where
  "same_sign c x \<longleftrightarrow> (0 < c \<longleftrightarrow> 0 < x) \<and> (c < 0 \<longleftrightarrow> x < 0)"

lemma same_sign_div: "same_sign c (x / 10) \<longleftrightarrow> same_sign c x"
  by (simp add: same_sign_def)

definition unit :: "int \<Rightarrow> bool" where
  "unit s \<longleftrightarrow> s = 1 \<or> s = -1"

lemma leading_signs:
  assumes "unit sa" "unit sb" "0 \<le> fa" "0 \<le> fb" "sa = sb \<Longrightarrow> fa = 0 \<or> fb = (0 :: real)"
  shows "same_sign (if 0 < fa then - sa else if 0 < fb then sb else 0) (sb * fb - sa * fa)"
  using assms unfolding unit_def same_sign_def by (elim disjE) auto

lemma cmp_frac_val:
  "unit sa \<Longrightarrow> unit sb \<Longrightarrow> same_sign (cmp_frac i j la lb sa sb pa pb) (sb * frac_val j lb pb - sa * frac_val i la pa)"
proof (induction i j la lb sa sb pa pb rule: cmp_frac.induct)
  case (1 i j la lb sa sb pa pb)
  let ?x = "chr_at i pa" and ?y = "chr_at j pb"
  let ?fa = "frac_val i la (pa + 1)" and ?fb = "frac_val j lb (pb + 1)"
  show ?case
  proof (cases "sa = sb \<and> pa < la \<and> is_digit ?x \<and> pb < lb \<and> is_digit ?y")
    case True
    have f: "frac_val i la pa = (real (digit_val ?x) + ?fa) / 10" "frac_val j lb pb = (real (digit_val ?y) + ?fb) / 10"
      using True by (subst frac_val.simps, simp)+
    have u: "uchar ?y - uchar ?x = int (digit_val ?y) - int (digit_val ?x)" using True digit_uchar(1) by simp
    show ?thesis
    proof (cases "digit_val ?x = digit_val ?y")
      case eq: True
      then have "cmp_frac i j la lb sa sb pa pb = cmp_frac i j la lb sa sb (pa + 1) (pb + 1)" using True u by (subst cmp_frac.simps) simp
      moreover have "sb * frac_val j lb pb - sa * frac_val i la pa = (sb * ?fb - sa * ?fa) / 10" unfolding f using True eq by (simp add: field_simps)
      moreover have "same_sign (cmp_frac i j la lb sa sb (pa + 1) (pb + 1)) (sb * ?fb - sa * ?fa)"
        using "1.IH" [OF True refl] "1.prems" u eq by simp
      ultimately show ?thesis by (simp only: same_sign_div)
    next
      case False
      then have c: "cmp_frac i j la lb sa sb pa pb = (int (digit_val ?y) - int (digit_val ?x)) * sa" using True u by (subst cmp_frac.simps) simp
      have "real (digit_val ?y) + ?fb < real (digit_val ?x) + ?fa \<longleftrightarrow> digit_val ?y < digit_val ?x"
        "real (digit_val ?x) + ?fa < real (digit_val ?y) + ?fb \<longleftrightarrow> digit_val ?x < digit_val ?y"
        using False frac_val_bounds [of i la "pa + 1"] frac_val_bounds [of j lb "pb + 1"] by (linarith+)
      then show ?thesis unfolding c f using True "1.prems" by (auto simp: same_sign_def unit_def field_simps)
    qed
  next
    case False
    have a: "0 \<le> frac_val i la pa" "0 \<le> frac_val j lb pb" by (simp_all add: frac_val_bounds)
    have z: "frac_val i la pa = 0 \<or> frac_val j lb pb = 0" if "sa = sb" using False that frac_val_stop by blast
    have c: "cmp_frac i j la lb sa sb pa pb = (if 0 < frac_val i la pa then - sa else if 0 < frac_val j lb pb then sb else 0)"
      by (subst cmp_frac.simps) (simp only: False if_False frac_nonzero_val)
    show ?thesis unfolding c by (rule leading_signs [OF "1.prems" a z])
  qed
qed

lemma sign_int_parts:
  assumes "unit s" "0 \<le> fa" "fa < 1" "0 \<le> fb" "fb < 1" "A \<noteq> (B :: int)"
  shows "same_sign ((B - A) * s) (s * (real_of_int B + fb) - s * (real_of_int A + fa))"
proof -
  have "real_of_int B + fb < real_of_int A + fa \<longleftrightarrow> B < A" "real_of_int A + fa < real_of_int B + fb \<longleftrightarrow> A < B" using assms by linarith+
  then show ?thesis using assms(1) by (auto simp: same_sign_def unit_def)
qed

text \<open>The comparison of two numbers whose digits before the radix character are given.\<close>

lemma cmp_digits:
  assumes "unit sa" "unit sb" "0 \<le> fa" "fa < 1" "0 \<le> fb" "fb < 1" "same_sign c (sb * fb - sa * fa)"
    and "(if sa = sb then num_back 0 da db else (0, da, db)) = (a, xs, ys)"
  shows "same_sign (if any_nonzero xs then - sa else if any_nonzero ys then sb else if a \<noteq> 0 then a * sa else c)
    (sb * (real_of_int (rev_val db) + fb) - sa * (real_of_int (rev_val da) + fa))"
proof (cases "sa = sb")
  case True
  let ?A = "rev_val da" and ?B = "rev_val db"
  have cong: "same_sign c' x" if "same_sign c'' x" "sgn c' = sgn c''" for c' c'' x
    using that by (auto simp: same_sign_def sgn_if split: if_splits)
  obtain k u v where h: "?A = u + 10 ^ k * rev_val xs" "?B = v + 10 ^ k * rev_val ys" "0 \<le> u" "u < 10 ^ k" "0 \<le> v" "v < 10 ^ k"
    "sgn a = (if u = v then 0 else sgn (v - u))" "rev_val xs = 0 \<or> rev_val ys = 0"
    using num_back_val [of 0 da db a xs ys] assms(8) True by auto
  have big: "10 ^ k \<le> 10 ^ k * rev_val zs" if "0 < rev_val zs" for zs using that by simp
  consider "0 < rev_val xs" "rev_val ys = 0" | "rev_val xs = 0" "0 < rev_val ys" | "rev_val xs = 0" "rev_val ys = 0"
    using h(8) rev_val_ge [of xs] rev_val_ge [of ys] by linarith
  then show ?thesis
  proof cases
    case 1
    then have "?B = v" using h(2) by simp
    then have "?B < ?A" using h(1,3,6) big [OF 1(1)] by linarith
    then show ?thesis using 1 cong [OF sign_int_parts [OF assms(2-6), of ?A ?B], of "- sa"] True assms(1) by (auto simp: any_nonzero_val unit_def sgn_if)
  next
    case 2
    then have "?A = u" using h(1) by simp
    then have "?A < ?B" using h(2,4,5) big [OF 2(2)] by linarith
    then show ?thesis using 2 cong [OF sign_int_parts [OF assms(2-6), of ?A ?B], of "sb"] True assms(2) by (auto simp: any_nonzero_val unit_def sgn_if)
  next
    case 3
    then have AB: "?A = u" "?B = v" using h by simp_all
    show ?thesis
    proof (cases "u = v")
      case eq: True
      then have "a = 0" using h(7) by (simp add: sgn_0_0)
      then show ?thesis using eq 3 AB True assms(7) by (simp add: any_nonzero_val algebra_simps)
    next
      case ne: False
      then have "sgn (a * sa) = sgn ((?B - ?A) * sb)" "a \<noteq> 0" using h(7) AB True by (auto simp: sgn_mult sgn_0_0)
      then show ?thesis using 3 cong [OF sign_int_parts [OF assms(2-6), of ?A ?B], of "a * sa"] AB ne True by (simp add: any_nonzero_val)
    qed
  qed
next
  case False
  have "0 \<le> real_of_int (rev_val da)" "0 \<le> real_of_int (rev_val db)" using rev_val_ge by simp_all
  then show ?thesis using False assms by (auto simp: any_nonzero_val same_sign_def unit_def)
qed

lemma cmpnum_sign:
  assumes "r = 1 \<or> r = -1"
  shows "same_sign (cmpnum env i j pa pb la lb r) (r * (num_value env j pb lb - num_value env i pa la))"
proof -
  define start where "start l p = skip_while (blank_sb env) l p" for l p
  define sg where "sg l p = (if chr_at l (start l p) = CHR ''-'' then - r else r)" for l p
  define first where "first l p = (if chr_at l (start l p) = CHR ''-'' then start l p + 1 else start l p)" for l p
  define stop where "stop l p e = run_end (num_char env) l e (first l p)" for l p e
  define ds where "ds l p e = rev (map (chr_at l) [first l p..<stop l p e])" for l p e
  define fr where "fr l p e = (if uchar (chr_at l (stop l p e)) = e_radixchar env then stop l p e + 1 else stop l p e)" for l p e
  note defs = start_def sg_def first_def stop_def ds_def fr_def
  have u: "unit (sg i pa)" "unit (sg j pb)" using assms by (auto simp: unit_def sg_def)
  have v: "r * num_value env l p e = sg l p * (real_of_int (rev_val (ds l p e)) + frac_val l e (fr l p e))" for l p e
  proof -
    have "num_value env l p e = (if chr_at l (start l p) = CHR ''-'' then - (real_of_int (rev_val (ds l p e)) + frac_val l e (fr l p e))
      else real_of_int (rev_val (ds l p e)) + frac_val l e (fr l p e))"
      by (simp add: num_value_def Let_def defs)
    then show ?thesis by (simp add: sg_def algebra_simps)
  qed
  obtain a xs ys where q: "(if sg i pa = sg j pb then num_back 0 (ds i pa la) (ds j pb lb) else (0, ds i pa la, ds j pb lb)) = (a, xs, ys)"
    by (metis prod_cases3)
  have "cmpnum env i j pa pb la lb r =
    (if any_nonzero xs then - sg i pa else if any_nonzero ys then sg j pb else if a \<noteq> 0 then a * sg i pa
     else cmp_frac i j la lb (sg i pa) (sg j pb) (fr i pa la) (fr j pb lb))"
    using q unfolding cmpnum_def Let_def defs by simp
  then show ?thesis
    using cmp_digits [OF u frac_val_bounds frac_val_bounds cmp_frac_val [OF u] q] v [of i pa la] v [of j pb lb] by (simp add: right_diff_distrib)
qed

text \<open>The C locale, with a comma between thousands.\<close>

definition c_env :: sortenv where
  "c_env = \<lparr>e_isprint = (\<lambda>c. 32 \<le> uchar c \<and> uchar c < 127), e_isblank = (\<lambda>c. c = CHR '' '' \<or> c = TAB), e_isalnum = is_digit, e_toupper = id,
     e_strcoll = (\<lambda>a b. lexcmp (map uchar b) (map uchar a)), e_abmon = [], e_radixchar = 46, e_thousep = 44, e_ccoll = True\<rparr>"

lemma c_env_simps: "blank_sb c_env c \<longleftrightarrow> c = CHR '' '' \<or> c = TAB" "e_radixchar c_env = 46" "e_thousep c_env = 44"
  by (auto simp: blank_sb_def c_env_def)

section \<open>The order of \<open>sort\<close>\<close>

lemma line_order_real:
  fixes f :: "'a \<Rightarrow> real"
  assumes "unit r" "\<And>x y. same_sign (c x y) (r * (f y - f x))"
  shows "line_order c"
proof (rule line_orderI)
  have *: "0 < c x y \<longleftrightarrow> 0 < r * (f y - f x)" "c x y < 0 \<longleftrightarrow> r * (f y - f x) < 0" for x y using assms(2) by (auto simp: same_sign_def)
  show "c x y < 0 \<longleftrightarrow> c y x > 0" for x y using * [of x y] * [of y x] assms(1) by (auto simp: unit_def)
  show "c x z \<le> 0" if "c x y \<le> 0" "c y z \<le> 0" for x y z
    using that * [of x y] * [of y z] * [of x z] assms(1) by (auto simp: unit_def not_less [symmetric])
qed

lemma line_order_flip:
  assumes "unit r" "line_order d"
  shows "line_order (\<lambda>x y. let n = d x y in if n \<noteq> 0 then if n > 0 then - r else r else 0)"
  by (rule line_order_sgn [OF line_order_sign [OF line_order_rev [OF assms(2)]], of r])
    (use assms(1) in \<open>auto simp: unit_def sgn_mult Let_def\<close>)

lemma cmp_key_order:
  assumes "unit (f_rflg fp)" "line_order (e_strcoll env)"
  shows "line_order (\<lambda>i j. cmp_key env fp i j (st i) (en i) (st j) (en j))"
proof -
  have u: "f_rflg fp = 1 \<or> f_rflg fp = -1" using assms(1) by (simp add: unit_def)
  have num: "line_order (\<lambda>i j. cmpnum env i j (st i) (st j) (en i) (en j) (f_rflg fp))"
    by (rule line_order_real [OF assms(1)], rule cmpnum_sign [OF u])
  have lex: "line_order (\<lambda>i j. cmp_loop env fp i j (en i) (en j) (st i) (st j))"
    unfolding cmp_loop_lex by (rule line_order_sign [OF line_order_by [OF lexcmp_order] u])
  have "line_order (\<lambda>x y. monthcmp env x y)"
    unfolding monthcmp_def by (rule line_order_sgn [OF line_order_rev [OF line_order_by [OF line_order_diff, of "monthcoll env"]]]) simp
  then have mon: "line_order (\<lambda>i j. let n = monthcmp env (elicpy env fp i (en i) (st i)) (elicpy env fp j (en j) (st j))
    in if n \<noteq> 0 then if n > 0 then - f_rflg fp else f_rflg fp else 0)"
    by (intro line_order_flip assms(1) line_order_by [where c = "monthcmp env" and f = "\<lambda>i. elicpy env fp i (en i) (st i)"])
  have coll: "line_order (\<lambda>i j. let n = e_strcoll env (elicpy env fp i (en i) (st i)) (elicpy env fp j (en j) (st j))
    in if n \<noteq> 0 then if n > 0 then - f_rflg fp else f_rflg fp else 0)"
    by (intro line_order_flip assms(1) line_order_by [where c = "e_strcoll env" and f = "\<lambda>i. elicpy env fp i (en i) (st i)"] assms(2))
  show ?thesis unfolding cmp_key_def using num lex mon coll
    by (cases "f_nflg fp"; cases "f_Mflg fp"; cases "e_ccoll env") (simp_all add: Let_def)
qed

lemma cmpf_order:
  assumes "unit (f_rflg (s_fields fl ! 0))" "line_order (e_strcoll env)"
  shows "line_order (cmpf env fl)"
proof -
  let ?r = "f_rflg (s_fields fl ! 0)"
  have u: "?r = 1 \<or> ?r = -1" using assms(1) by (simp add: unit_def)
  have "line_order (cmpa fl)" unfolding cmpa_def
    by (rule line_order_sgn [OF line_order_sign [OF line_order_by [OF lexcmp_order, of "\<lambda>l. map uchar (takeWhile (\<lambda>c. c \<noteq> NL) l)"] u]])
      (use cmpa_from_lex [OF u, of _ _ 0] in simp)
  moreover have "line_order (cmpl env fl)" unfolding cmpl_def
    using line_order_flip [OF assms(1) line_order_by [OF assms(2), of ecpy]] by (simp add: Let_def)
  ultimately show ?thesis unfolding cmpf_def by (cases "e_ccoll env") simp_all
qed

lemma cmp_order:
  assumes "\<forall>f\<in>set (s_fields fl). unit (f_rflg f)" "s_fields fl \<noteq> []" "line_order (e_strcoll env)"
  shows "line_order (cmp env fl)"
proof -
  have "line_order (cmp_keys env fl ks)" if "set ks \<subseteq> {..<length (s_fields fl)}" for ks
    using that
  proof (induction ks)
    case Nil
    have "line_order (\<lambda>i j. if s_uflg fl then 0 else cmpf env fl i j)"
      using cmpf_order [OF _ assms(3), of fl] assms(1,2) line_order_const by (cases "s_uflg fl") simp_all
    then show ?case by (simp cong: if_cong)
  next
    case (Cons k ks)
    have "line_order (\<lambda>i j. cmp_key env (s_fields fl ! k) i j (key_start env fl k i) (key_end env fl k i) (key_start env fl k j) (key_end env fl k j))"
      by (rule cmp_key_order) (use Cons.prems assms in auto)
    from line_order_lex [OF this Cons.IH] Cons.prems show ?case by (simp add: Let_def)
  qed
  moreover have "set [(if length (s_fields fl) - 1 > 0 then 1 else 0)..<Suc (length (s_fields fl) - 1)] \<subseteq> {..<length (s_fields fl)}"
    using assms(2) by (auto simp del: upt_Suc)
  ultimately show ?thesis unfolding cmp_def [abs_def] Let_def by blast
qed

end
