(* ===== verification/Sort.thy ===== *)
theory Sort
  imports Sortcmp
begin

text \<open>
  The phases of \<open>sort/sort.c\<close>, for single-byte locales: reading lines into memory and sorting them (\<open>sort\<close>), merging up to seven files at a time (\<open>merge\<close>,
  \<open>rline\<close>), and their composition in \<open>main\<close>.  The contents of the operands are given, or an error number for one that cannot be opened.  A temporary file is its contents.
  The memory for text is counted in bytes from \<open>tspace\<close>.  An exit in the middle of the program is the left side of a sum.
\<close>

section \<open>State\<close>

text \<open>What the options have set.\<close>

record sortcfg =
  g_env :: sortenv
  g_fl :: sortfl
  g_keys :: bool
  g_mflg :: bool
  g_cflg :: bool
  g_L :: nat
  g_MEM :: nat
  g_unsafe :: bool
  g_progname :: string
  g_strerror :: "int \<Rightarrow> string"

text \<open>\<open>compare\<close> is \<open>cmpf\<close> unless an option has set it to \<open>cmp\<close>.\<close>

definition compare :: "sortcfg \<Rightarrow> string \<Rightarrow> string \<Rightarrow> int" where
  "compare g = (if g_keys g then cmp (g_env g) (g_fl g) else cmpf (g_env g) (g_fl g))"

abbreviation uflg :: "sortcfg \<Rightarrow> bool" where
  "uflg g \<equiv> s_uflg (g_fl g)"

type_synonym operand = "string \<times> (int + string)"

text \<open>Messages, all of them on standard error.  \<open>term\<close> leaves with the status 1.\<close>

definition diag :: "sortcfg \<Rightarrow> string \<Rightarrow> string \<Rightarrow> string" where
  "diag g s t = g_progname g @ '': '' @ s @ t @ [NL]"

definition addnl :: "sortcfg \<Rightarrow> string option \<Rightarrow> string" where
  "addnl g s =
     (case s of Some f \<Rightarrow> if f \<noteq> ''-'' then diag g ''warning: missing NEWLINE added at end of input file '' f
                          else diag g ''warning: missing NEWLINE at EOF added'' []
      | None \<Rightarrow> diag g ''warning: missing NEWLINE at EOF added'' [])"

definition cant :: "sortcfg \<Rightarrow> string \<Rightarrow> int \<Rightarrow> string" where
  "cant g f en = g_progname g @ '': can''  @ [CHR 0x27] @ ''t open '' @ f @ '': '' @ g_strerror g en @ [NL]"

text \<open>\<open>setfil\<close> for an operand: a null pointer for the standard input.\<close>

definition setfil :: "string \<Rightarrow> string option" where
  "setfil name = (if name = ''-'' then None else Some name)"

section \<open>Reading and sorting\<close>

text \<open>The memory: \<open>nlines\<close>, \<open>ntext\<close>, \<open>L\<close>, \<open>MEM\<close> and the distance of \<open>tspace\<close> from \<open>lspace\<close>, for pointers of eight bytes.\<close>

record smem =
  k_nlines :: nat
  k_ntext :: nat
  k_L :: nat
  k_MEM :: nat
  k_tsp :: nat

definition ALIGN :: nat where "ALIGN = 7"

definition ntext_of :: "nat \<Rightarrow> nat \<Rightarrow> nat \<Rightarrow> nat" where
  "ntext_of mem tsp L = mem - tsp - L - 8 - ALIGN - 2"

definition mem_init :: "sortcfg \<Rightarrow> smem" where
  "mem_init g =
     (let L = g_L g; mem = max (g_MEM g) ((L + 24 + ALIGN + 1) * 12); nlines = (mem - (L + 8 + ALIGN)) div (5 * 8)
      in \<lparr>k_nlines = nlines, k_ntext = ntext_of mem (nlines * 8) L, k_L = L, k_MEM = mem, k_tsp = nlines * 8\<rparr>)"

definition morespace :: "smem \<Rightarrow> smem" where
  "morespace m =
     (let i = k_nlines m div 8; nlines = (if k_nlines m - i \<ge> 12 then k_nlines m - i else k_nlines m); mem = k_MEM m + nlines * 128; L = k_L m + 128
      in m\<lparr>k_nlines := nlines, k_MEM := mem, k_L := L, k_ntext := ntext_of mem (k_tsp m) L\<rparr>)"

text \<open>The variables of \<open>sort\<close>: \<open>c\<close>, \<open>lastc\<close>, \<open>is\<close>, the name \<open>f\<close> of the file, the operands from the index \<open>i\<close> on, and what has been written on standard error.\<close>

record rdst =
  r_c :: "char option"
  r_lastc :: "char option"
  r_is :: string
  r_f :: "string option"
  r_ops :: "operand list"
  r_mem :: smem
  r_err :: string

definition rd_getc :: "rdst \<Rightarrow> rdst" where
  "rd_getc s = (case r_is s of [] \<Rightarrow> s\<lparr>r_c := None\<rparr> | c # cs \<Rightarrow> s\<lparr>r_c := Some c, r_is := cs\<rparr>)"

definition rd_size :: "rdst \<Rightarrow> nat" where
  "rd_size s = (if r_c s = None then 0 else 1) + length (r_is s) +
     sum_list (map (\<lambda>(n, f). case f of Inl e \<Rightarrow> 2 | Inr t \<Rightarrow> length t + 2) (r_ops s))"

definition incomplete :: "rdst \<Rightarrow> bool" where
  "incomplete s \<longleftrightarrow> r_lastc s \<noteq> None \<and> r_lastc s \<noteq> Some NL"

text \<open>
  The loop that reads one line: the text, whether the line has an end that the input did not have although there are no more operands (\<open>ln++\<close>), and the state.
  The left side is the exit through \<open>cant\<close>.
\<close>

function rd_text :: "sortcfg \<Rightarrow> string \<Rightarrow> rdst \<Rightarrow> string + string \<times> bool \<times> rdst" where
  "rd_text g buf s =
     (case r_c s of
        Some c \<Rightarrow>
          if c = NL then Inr (buf, False, s)
          else (let s = (if Suc (length buf) \<ge> k_L (r_mem s) - 1 then s\<lparr>r_mem := morespace (r_mem s)\<rparr> else s)
                in rd_text g (buf @ [c]) (rd_getc (s\<lparr>r_lastc := Some c\<rparr>)))
      | None \<Rightarrow>
          (case r_ops s of
             (name, f) # ops \<Rightarrow>
               (case f of
                  Inl en \<Rightarrow> Inl (r_err s @ cant g name en)
                | Inr t \<Rightarrow>
                    (let s' = s\<lparr>r_is := t, r_f := setfil name, r_ops := ops, r_lastc := None\<rparr>
                     in if incomplete s then rd_text g buf (s'\<lparr>r_c := Some NL, r_err := r_err s @ addnl g (r_f s)\<rparr>)
                        else rd_text g buf (rd_getc s')))
           | [] \<Rightarrow>
               if incomplete s then Inr (buf, True, s\<lparr>r_err := r_err s @ addnl g (r_f s)\<rparr>) else Inr (buf, False, s)))"
  by pat_completeness auto
termination
  by (relation "measure (\<lambda>(g, buf, s). rd_size s)")
    (auto simp: rd_size_def rd_getc_def split: list.splits)

declare rd_text.simps [simp del]

lemma rd_getc_size: "rd_size (rd_getc s) \<le> rd_size s" "r_c s \<noteq> None \<Longrightarrow> rd_size (rd_getc s) < rd_size s"
  "rd_size (rd_getc (s\<lparr>r_lastc := x\<rparr>)) = rd_size (rd_getc s)"
  by (auto simp: rd_size_def rd_getc_def split: list.splits)

lemma rd_text_size: "rd_text g buf s = Inr (l, x, s') \<Longrightarrow> rd_size s' \<le> rd_size s"
proof (induction g buf s rule: rd_text.induct)
  case (1 g buf s)
  show ?case
  proof (cases "r_c s")
    case None
    show ?thesis
    proof (cases "r_ops s")
      case Nil
      then show ?thesis using "1.prems" None by (subst (asm) rd_text.simps) (auto simp: rd_size_def split: if_splits)
    next
      case (Cons o1 ops)
      obtain name f where o1: "o1 = (name, f)" by (cases o1)
      show ?thesis
      proof (cases f)
        case (Inl en)
        then show ?thesis using "1.prems" None Cons o1 by (subst (asm) rd_text.simps) simp
      next
        case (Inr t)
        let ?s = "s\<lparr>r_is := t, r_f := setfil name, r_ops := ops, r_lastc := None\<rparr>"
        have z: "rd_size (?s\<lparr>r_c := Some NL, r_err := e\<rparr>) \<le> rd_size s" "rd_size (rd_getc ?s) \<le> rd_size s" for e
          using None Cons o1 Inr by (auto simp: rd_size_def rd_getc_def split: list.splits)
        have "rd_text g buf s = (if incomplete s then rd_text g buf (?s\<lparr>r_c := Some NL, r_err := r_err s @ addnl g (r_f s)\<rparr>) else rd_text g buf (rd_getc ?s))"
          using None Cons o1 Inr by (subst rd_text.simps) (simp add: Let_def)
        then show ?thesis using "1.IH"(1,2) [OF None Cons o1 [symmetric] Inr refl] "1.prems" z(1) [of "r_err s @ addnl g (r_f s)"] z(2) Cons o1
          by (auto split: if_splits)
      qed
    qed
  next
    case (Some c)
    show ?thesis
    proof (cases "c = NL")
      case True
      then show ?thesis using "1.prems" Some by (subst (asm) rd_text.simps) simp
    next
      case False
      let ?s = "if Suc (length buf) \<ge> k_L (r_mem s) - 1 then s\<lparr>r_mem := morespace (r_mem s)\<rparr> else s"
      have "rd_text g buf s = rd_text g (buf @ [c]) (rd_getc (?s\<lparr>r_lastc := Some c\<rparr>))"
        using Some False by (subst rd_text.simps) (simp add: Let_def)
      moreover have "rd_size (rd_getc (?s\<lparr>r_lastc := Some c\<rparr>)) \<le> rd_size s"
        by (auto simp: rd_getc_def rd_size_def Some split: list.splits)
      ultimately show ?thesis using "1.IH"(3) [OF Some False refl] "1.prems" by simp
    qed
  qed
qed

text \<open>Lines are read until there are \<open>nlines\<close> of them or the space for text is used up, or until the end of the input.\<close>

definition align :: "nat \<Rightarrow> nat" where
  "align cp = (cp + ALIGN) div 8 * 8"

function rd_chunk :: "sortcfg \<Rightarrow> nat \<Rightarrow> string list \<Rightarrow> rdst \<Rightarrow> string + string list \<times> bool \<times> rdst" where
  "rd_chunk g cp ls s =
     (if length ls < k_nlines (r_mem s) \<and> cp < k_ntext (r_mem s) then
        (case rd_text g [] s of
           Inl e \<Rightarrow> Inl e
         | Inr (buf, extra, s') \<Rightarrow>
             if r_c s' = None then Inr (if extra then ls @ [buf @ [NL]] else ls, True, s')
             else rd_chunk g (align cp + 8 + length buf + 1) (ls @ [buf @ [NL]]) (rd_getc (s'\<lparr>r_lastc := r_c s'\<rparr>)))
      else Inr (ls, False, s))"
  by pat_completeness auto
termination
proof (relation "measure (\<lambda>(g, cp, ls, s). rd_size s)", goal_cases)
  case (2 g cp ls s b buf y extra s')
  then have "rd_size s' \<le> rd_size s" using rd_text_size [of g "[]" s buf extra s'] by simp
  moreover have "rd_size (rd_getc s') < rd_size s'" using 2 rd_getc_size(2) by simp
  ultimately show ?case by (simp add: rd_getc_size(3))
qed simp

declare rd_chunk.simps [simp del]

text \<open>A line in memory: its text and its size.  The sorted lines are written from the last one on.\<close>

record lrec =
  e_text :: string
  e_sz :: nat

definition lines_text :: "lrec list \<Rightarrow> string" where
  "lines_text rs = concat (map (\<lambda>r. take (e_sz r) (e_text r)) rs)"

definition sort_lines :: "sortcfg \<Rightarrow> string list \<Rightarrow> lrec list" where
  "sort_lines g ls =
     rev (quicksort (\<lambda>x y. compare g (e_text x) (e_text y)) (uflg g) (\<lambda>r. r\<lparr>e_sz := 0\<rparr>) 0 (length ls)
       (map (\<lambda>t. \<lparr>e_text = t, e_sz = length t\<rparr>) ls))"

text \<open>
  The loop of \<open>sort\<close>: the temporary files, or what is written to the output if all lines fit into memory.  A round that reads nothing would be repeated forever (\<open>None\<close>).
\<close>

function sort_phase :: "sortcfg \<Rightarrow> string list \<Rightarrow> rdst \<Rightarrow> (string + string list \<times> string option \<times> rdst) option" where
  "sort_phase g temps s =
     (case rd_chunk g 0 [] s of
        Inl e \<Rightarrow> Some (Inl e)
      | Inr (ls, dn, s') \<Rightarrow>
          (let t = lines_text (sort_lines g ls)
           in if dn then Some (Inr (if temps = [] then ([], Some t, s') else (temps @ [t], None, s')))
              else if rd_size s' < rd_size s then sort_phase g (temps @ [t]) s'
              else None))"
  by pat_completeness auto
termination
  by (relation "measure (\<lambda>(g, temps, s). rd_size s)") auto

declare sort_phase.simps [simp del]

section \<open>Merging\<close>

text \<open>\<open>struct merg\<close>: what is left of the file, the size of the line and the line.\<close>

record merg =
  m_b :: string
  m_s :: nat
  m_l :: string

text \<open>
  \<open>rline\<close>: the left side is the exit for a line that is too long; otherwise whether the file has ended, the record and the messages.
\<close>

definition rline :: "sortcfg \<Rightarrow> nat \<Rightarrow> merg \<Rightarrow> string + bool \<times> merg \<times> string" where
  "rline g L m =
     (let b = takeWhile (\<lambda>c. c \<noteq> NL) (m_b m); r = dropWhile (\<lambda>c. c \<noteq> NL) (m_b m); long = diag g ''fatal: line too long'' []
      in if m_b m = [] then Inr (True, m, [])
         else if length b > L then Inl long
         else (let e = (if r = [] then addnl g None else [])
               in if length b = L then Inl (e @ long)
                  else Inr (False, m\<lparr>m_b := drop 1 r, m_s := length b + 1, m_l := b @ [NL]\<rparr>, e)))"

text \<open>The files are opened and their first lines read; empty files are left out.\<close>

fun merge_open :: "sortcfg \<Rightarrow> nat \<Rightarrow> operand list \<Rightarrow> merg list \<Rightarrow> string \<Rightarrow> string + merg list \<times> string" where
  "merge_open g L [] ms w = Inr (ms, w)"
| "merge_open g L ((name, f) # fs) ms w =
     (case f of
        Inl en \<Rightarrow> Inl (w @ cant g name en)
      | Inr t \<Rightarrow>
          (case rline g L \<lparr>m_b = t, m_s = 0, m_l = []\<rparr> of
             Inl e \<Rightarrow> Inl (w @ e)
           | Inr (ended, m, e) \<Rightarrow> merge_open g L fs (if ended then ms else ms @ [m]) (w @ e)))"

definition merge_sort :: "sortcfg \<Rightarrow> merg list \<Rightarrow> merg list" where
  "merge_sort g ms = quicksort (\<lambda>x y. compare g (m_l x) (m_l y)) (uflg g) (\<lambda>m. m\<lparr>m_s := 0\<rparr>) 0 (length ms) ms"

text \<open>The next lines for those that the sort has marked, from the last one on.\<close>

fun merge_refill :: "sortcfg \<Rightarrow> nat \<Rightarrow> merg list \<Rightarrow> string \<Rightarrow> string + merg list \<times> string" where
  "merge_refill g L [] w = Inr ([], w)"
| "merge_refill g L (m # ms) w =
     (case merge_refill g L ms w of
        Inl e \<Rightarrow> Inl e
      | Inr (ms', w') \<Rightarrow>
          if m_s m = 0 then
            (case rline g L m of Inl e \<Rightarrow> Inl (w' @ e) | Inr (ended, m', e) \<Rightarrow> Inr (if ended then ms' else m' # ms', w' @ e))
          else Inr (m # ms', w'))"

definition merg_size :: "merg list \<Rightarrow> nat" where
  "merg_size ms = sum_list (map (\<lambda>m. length (m_b m) + 1) ms)"

lemma rline_end: "m_b m = [] \<Longrightarrow> rline g L m = Inr (True, m, [])"
  by (simp add: rline_def)

lemma rline_long: "m_b m \<noteq> [] \<Longrightarrow> L \<le> length (takeWhile (\<lambda>c. c \<noteq> NL) (m_b m)) \<Longrightarrow> \<exists>e. rline g L m = Inl e"
  unfolding rline_def Let_def by (cases "length (takeWhile (\<lambda>c. c \<noteq> NL) (m_b m)) = L") simp_all

lemma rline_line:
  "m_b m \<noteq> [] \<Longrightarrow> length (takeWhile (\<lambda>c. c \<noteq> NL) (m_b m)) < L \<Longrightarrow>
   rline g L m = Inr (False, m\<lparr>m_b := drop 1 (dropWhile (\<lambda>c. c \<noteq> NL) (m_b m)), m_s := length (takeWhile (\<lambda>c. c \<noteq> NL) (m_b m)) + 1,
     m_l := takeWhile (\<lambda>c. c \<noteq> NL) (m_b m) @ [NL]\<rparr>, if dropWhile (\<lambda>c. c \<noteq> NL) (m_b m) = [] then addnl g None else [])"
  unfolding rline_def Let_def by simp

lemma rline_size: "rline g L m = Inr (ended, m', e) \<Longrightarrow> \<not> ended \<Longrightarrow> length (m_b m') < length (m_b m)"
proof -
  assume r: "rline g L m = Inr (ended, m', e)" "\<not> ended"
  then have ne: "m_b m \<noteq> []" using rline_end [of m g L] by auto
  then have "length (takeWhile (\<lambda>c. c \<noteq> NL) (m_b m)) < L" using rline_long [of m L g] r by (metis leI sum.distinct(1))
  with ne r have "m_b m' = drop 1 (dropWhile (\<lambda>c. c \<noteq> NL) (m_b m))" using rline_line [of m L g] by auto
  moreover have "0 < length (m_b m)" using ne by simp
  ultimately show ?thesis using length_dropWhile_le [of "\<lambda>c. c \<noteq> NL" "m_b m"] by (simp del: length_greater_0_conv)
qed

lemma merge_refill_size:
  "merge_refill g L ms w = Inr (ms', w') \<Longrightarrow> merg_size ms' \<le> merg_size ms"
  "merge_refill g L ms w = Inr (ms', w') \<Longrightarrow> list_ex (\<lambda>m. m_s m = 0) ms \<Longrightarrow> merg_size ms' < merg_size ms"
proof (induction ms arbitrary: ms' w')
  case (Cons m ms)
  { case 1
    then show ?case using Cons.IH(1) rline_size [of g L m] by (fastforce simp: merg_size_def split: sum.splits if_splits)
  next
    case 2
    then show ?case using Cons.IH rline_size [of g L m] by (fastforce simp: merg_size_def split: sum.splits if_splits)
  }
qed simp_all

lemma merge_sort_size: "merg_size (merge_sort g ms) = merg_size ms"
proof -
  have "mset (map m_b (merge_sort g ms)) = mset (map m_b ms)" unfolding merge_sort_def by (rule quicksort_mset) simp_all
  then have "mset (map (\<lambda>b. length b + 1) (map m_b (merge_sort g ms))) = mset (map (\<lambda>b. length b + 1) (map m_b ms))" by (metis mset_map)
  then show ?thesis unfolding merg_size_def by (metis (no_types, lifting) comp_def map_eq_conv map_map sum_mset_sum_list)
qed

function merge_start :: "sortcfg \<Rightarrow> nat \<Rightarrow> merg list \<Rightarrow> string \<Rightarrow> string + merg list \<times> string" where
  "merge_start g L ms w =
     (let ms = merge_sort g ms
      in if list_ex (\<lambda>m. m_s m = 0) ms then
           (case merge_refill g L ms w of Inl e \<Rightarrow> Inl e | Inr (ms', w') \<Rightarrow> merge_start g L ms' w')
         else Inr (ms, w))"
  by pat_completeness auto
termination
proof (relation "measure (\<lambda>(g, L, ms, w). merg_size ms)", goal_cases)
  case (2 g L ms w ms1 b ms' w')
  then show ?case using merge_refill_size(2) [of g L ms1 w ms' w'] merge_sort_size [of g ms] by auto
qed simp

declare merge_start.simps [simp del]

text \<open>
  The loop of \<open>merge\<close>, with the files that have not ended in the order in which their lines are to be written (the program has them in \<open>ibuf\<close> in reverse order, up to the
  index \<open>i\<close>).  \<open>bubble\<close> moves a new line to its place.  \<open>muflg\<close> has two bits, \<open>mu\<close> and \<open>mu4\<close> (0400); \<open>p\<close> is the line that was last written.
\<close>

fun bubble :: "sortcfg \<Rightarrow> merg list \<Rightarrow> merg list" where
  "bubble g (x # y # ms) = (if compare g (m_l x) (m_l y) < 0 then y # bubble g (x # ms) else x # y # ms)"
| "bubble g ms = ms"

lemma mset_bubble [simp]: "mset (bubble g ms) = mset ms"
  by (induction g ms rule: bubble.induct) auto

lemma merg_size_mset: "mset ms = mset ns \<Longrightarrow> merg_size ms = merg_size ns"
  unfolding merg_size_def by (metis mset_map sum_mset_sum_list)

definition disorder :: "sortcfg \<Rightarrow> string \<Rightarrow> string \<Rightarrow> string" where
  "disorder g s t = diag g s (cstr (takeWhile (\<lambda>c. c \<noteq> NL) t))"

function merge_next :: "sortcfg \<Rightarrow> nat \<Rightarrow> merg list \<Rightarrow> string \<Rightarrow> bool \<Rightarrow> bool \<Rightarrow> string \<Rightarrow> string + merg list \<times> bool \<times> bool \<times> string" where
  "merge_next g L [] p mu mu4 w = Inr ([], mu, mu4, w)"
| "merge_next g L (m # ms) p mu mu4 w =
     (case rline g L m of
        Inl e \<Rightarrow> Inl (w @ e)
      | Inr (ended, m', e) \<Rightarrow>
          if ended \<and> ms = [] then Inr ([], mu, mu4, w @ e)
          else (let one = (ended \<and> length ms = 1); mu = (if one then uflg g else mu); mu4 = (if one then False else mu4);
                    act = bubble g (if ended then ms else m' # ms)
                in if \<not> mu4 then Inr (act, mu, mu4, w @ e)
                   else (let j = compare g (m_l (hd act)) p
                         in if g_cflg g then
                              if j > 0 then Inl (w @ e @ disorder g ''disorder: '' (m_l (hd act)))
                              else if uflg g \<and> j = 0 then Inl (w @ e @ disorder g ''non-unique: '' (m_l (hd act)))
                              else Inr (act, mu, mu4, w @ e)
                            else if j = 0 then merge_next g L act p mu mu4 (w @ e)
                            else Inr (act, mu, mu4, w @ e))))"
  by pat_completeness auto

lemma merge_step_size:
  assumes "rline g L m = Inr (ended, m', e)"
  shows "merg_size (bubble g (if ended then ms else m' # ms)) < merg_size (m # ms)"
proof -
  have "merg_size (bubble g (if ended then ms else m' # ms)) = merg_size (if ended then ms else m' # ms)" by (rule merg_size_mset) simp
  then show ?thesis using rline_size [OF assms] by (simp add: merg_size_def)
qed

termination merge_next
proof (relation "measure (\<lambda>(g, L, act, p, mu, mu4, w). merg_size act)", goal_cases)
  case (2 g L m ms p mu mu4 w b ended y m' e one mu' mu4' act j)
  then show ?case using merge_step_size [of g L m ended m' e ms] by simp
qed simp

declare merge_next.simps(2) [simp del]

lemma merge_next_size:
  "merge_next g L act p mu mu4 w = Inr (act', mu', mu4', w') \<Longrightarrow> act \<noteq> [] \<Longrightarrow> merg_size act' < merg_size act"
proof (induction g L act p mu mu4 w rule: merge_next.induct)
  case (2 g L m ms p mu mu4 w)
  obtain ended m' e where r: "rline g L m = Inr (ended, m', e)" using "2.prems"(1) by (cases "rline g L m") (auto simp: merge_next.simps(2))
  let ?act = "bubble g (if ended then ms else m' # ms)"
  have z: "merg_size ?act < merg_size (m # ms)" by (rule merge_step_size [OF r])
  show ?case
  proof (cases "act' = ?act \<or> act' = []")
    case True
    then show ?thesis using z by (auto simp: merg_size_def)
  next
    case False
    then have n: "\<not> (ended \<and> ms = [])" "\<not> (ended \<and> length ms = 1)" "mu4" "\<not> g_cflg g" "compare g (m_l (hd ?act)) p = 0"
      "merge_next g L ?act p mu mu4 (w @ e) = Inr (act', mu', mu4', w')"
      using "2.prems"(1) r by (auto simp: merge_next.simps(2) Let_def split: if_splits)
    have "mset ?act = mset (if ended then ms else m' # ms)" by simp
    then have "?act \<noteq> []" using n(1) by (metis list.distinct(1) mset_zero_iff)
    moreover have "(ended \<and> length ms = 1) = False" using n(2) by blast
    ultimately have "merg_size act' < merg_size ?act"
      using "2.IH" [OF r refl refl n(1) refl refl refl refl _ refl] n(3-6) by (simp only: if_False simp_thms)
    with z show ?thesis by simp
  qed
qed simp

function merge_loop :: "sortcfg \<Rightarrow> nat \<Rightarrow> merg list \<Rightarrow> string \<Rightarrow> bool \<Rightarrow> bool \<Rightarrow> string \<Rightarrow> string \<Rightarrow> (string \<times> string) + string \<times> string" where
  "merge_loop g L [] p mu mu4 os w = Inr (os, w)"
| "merge_loop g L (m # ms) p mu mu4 os w =
     (let pr = (\<not> g_cflg g \<and> (\<not> uflg g \<or> mu \<or> mu4 \<or> m_s m \<noteq> 0 \<and> (ms = [] \<or> compare g (m_l m) (m_l (hd ms)) \<noteq> 0)));
          os = (if pr then os @ take (m_s m) (m_l m) else os);
          p = (if mu \<or> mu4 then take (m_s m) (m_l m) else p);
          mu4 = (mu \<or> mu4)
      in case merge_next g L (m # ms) p mu mu4 w of
           Inl e \<Rightarrow> Inl (e, os)
         | Inr (act, mu, mu4, w) \<Rightarrow> merge_loop g L act p mu mu4 os w)"
  by pat_completeness auto
termination
  by (relation "measure (\<lambda>(g, L, act, p, mu, mu4, os, w). merg_size act)") (auto dest: merge_next_size)

declare merge_loop.simps(2) [simp del]

definition merge :: "sortcfg \<Rightarrow> nat \<Rightarrow> operand list \<Rightarrow> string \<Rightarrow> (string \<times> string) + string \<times> string" where
  "merge g L fs w =
     (case merge_open g L fs [] w of
        Inl e \<Rightarrow> Inl (e, [])
      | Inr (ms, w) \<Rightarrow>
          (case merge_start g L ms w of
             Inl e \<Rightarrow> Inl (e, [])
           | Inr (ms, w) \<Rightarrow> merge_loop g L (rev ms) [] (g_mflg g \<and> uflg g \<or> g_cflg g) False [] w))"

section \<open>The program\<close>

text \<open>
  The loop of \<open>main\<close> that merges seven files into a temporary one: \<open>nops\<close> of the files are operands.  With \<open>-m\<close> and an output file that is one of the operands (\<open>unsafeout\<close>) all operands are
  merged into temporary files first.
\<close>

definition N :: nat where "N = 7"

function merge_all :: "sortcfg \<Rightarrow> nat \<Rightarrow> nat \<Rightarrow> operand list \<Rightarrow> string \<Rightarrow> (string \<times> string) + string \<times> string" where
  "merge_all g L nops fs w =
     (if N < length fs \<or> g_unsafe g \<and> 0 < nops \<and> fs \<noteq> [] then
        (case merge g L (take N fs) w of
           Inl (e, os) \<Rightarrow> Inl (e, [])
         | Inr (t, w) \<Rightarrow> merge_all g L (nops - N) (drop N fs @ [([], Inr t)]) w)
      else if fs = [] then Inr ([], w)
      else merge g L fs w)"
  by pat_completeness auto
termination
  by (relation "measure (\<lambda>(g, L, nops, fs, w). length fs + nops)") (auto simp: N_def neq_Nil_conv)

declare merge_all.simps [simp del]

definition rd_init :: "sortcfg \<Rightarrow> operand list \<Rightarrow> rdst" where
  "rd_init g ops = \<lparr>r_c = None, r_lastc = None, r_is = [], r_f = None, r_ops = ops, r_mem = mem_init g, r_err = []\<rparr>"

definition sort_outcome :: "(string \<times> string) + string \<times> string \<Rightarrow> outcome" where
  "sort_outcome r = (case r of Inl (e, os) \<Rightarrow> \<lparr>out = os, err = e, status = 1\<rparr> | Inr (os, w) \<Rightarrow> \<lparr>out = os, err = w, status = 0\<rparr>)"

text \<open>\<open>main\<close> behind the options, for at least one operand (\<open>-\<close> is supplied if there is none).\<close>

definition sort_run :: "sortcfg \<Rightarrow> operand list \<Rightarrow> outcome option" where
  "sort_run g ops =
     (if g_cflg g \<and> length ops > 1 then Some \<lparr>out = [], err = diag g ''can check only 1 file'' [], status = 2\<rparr>
      else if g_mflg g \<or> g_cflg g then Some (sort_outcome (merge_all g (k_L (mem_init g)) (length ops) ops []))
      else (case sort_phase g [] (rd_init g ops) of
              None \<Rightarrow> None
            | Some (Inl e) \<Rightarrow> Some \<lparr>out = [], err = e, status = 1\<rparr>
            | Some (Inr (temps, direct, s)) \<Rightarrow>
                (case direct of
                   Some t \<Rightarrow> Some \<lparr>out = t, err = r_err s, status = 0\<rparr>
                 | None \<Rightarrow> Some (sort_outcome (merge_all g (k_L (r_mem s)) 0 (map (\<lambda>t. ([], Inr t)) temps) (r_err s))))))"

section \<open>The options\<close>

text \<open>
  What \<open>main\<close> and \<open>field\<close> store.  The last element of \<open>p_fields\<close> is \<open>fields[nfields]\<close>.  The numbers of fields and characters are taken as unbounded.
\<close>

record sortopts =
  p_fields :: "sfield list"
  p_tabchar :: int
  p_uflg :: bool
  p_keys :: bool
  p_mflg :: bool
  p_cflg :: bool
  p_L :: int
  p_MEM :: int
  p_outfil :: "string option"
  p_eargs :: "string list"

definition MINMEM :: int where "MINMEM = 8 * 2048"
definition MAXMEM :: int where "MAXMEM = 512 * 2048"

definition opts_init :: sortopts where
  "opts_init = \<lparr>p_fields = [proto], p_tabchar = 0, p_uflg = False, p_keys = False, p_mflg = False, p_cflg = False, p_L = 512, p_MEM = 16 * 2048,
     p_outfil = None, p_eargs = []\<rparr>"

definition upd_last :: "(sfield \<Rightarrow> sfield) \<Rightarrow> sortopts \<Rightarrow> sortopts" where
  "upd_last f q = q\<lparr>p_fields := butlast (p_fields q) @ [f (last (p_fields q))], p_keys := True\<rparr>"

text \<open>\<open>number\<close>: the value of the digits and what follows them.\<close>

definition sort_number :: "string \<Rightarrow> int \<times> string" where
  "sort_number s = (int (undecimal (takeWhile is_digit s)), dropWhile is_digit s)"

text \<open>
  \<open>field\<close>: flags and numbers of the argument, with the argument behind it.  The result is \<open>None\<close> for invalid ones; otherwise whether the next argument was used, and the
  options.
\<close>

function field_loop :: "variant \<Rightarrow> string option \<Rightarrow> nat \<Rightarrow> int \<Rightarrow> nat \<Rightarrow> bool \<Rightarrow> string \<Rightarrow> sortopts \<Rightarrow> (bool \<times> sortopts) option" where
  "field_loop v nxt k posix d cons [] q = Some (cons, q)"
| "field_loop v nxt k posix d cons (c # s) q =
     (if c = CHR ''M'' then field_loop v nxt k posix d cons s (upd_last (\<lambda>p. p\<lparr>f_Mflg := True, f_bflg := (f_bflg p)[k := True]\<rparr>) q)
      else if c = CHR ''b'' then field_loop v nxt k posix d cons s (upd_last (\<lambda>p. p\<lparr>f_bflg := (f_bflg p)[k := True]\<rparr>) q)
      else if c = CHR ''d'' then field_loop v nxt k posix d cons s (upd_last (\<lambda>p. p\<lparr>f_ignore := Dict_sb\<rparr>) q)
      else if c = CHR ''f'' then field_loop v nxt k posix d cons s (upd_last (\<lambda>p. p\<lparr>f_code := Fold_sb\<rparr>) q)
      else if c = CHR ''i'' then field_loop v nxt k posix d cons s (upd_last (\<lambda>p. p\<lparr>f_ignore := Nonprint_sb\<rparr>) q)
      else if c = CHR ''c'' then field_loop v nxt k posix d cons s (q\<lparr>p_cflg := True, p_L := 2048\<rparr>)
      else if c = CHR ''m'' then field_loop v nxt k posix d cons s (q\<lparr>p_mflg := True, p_L := 2048\<rparr>)
      else if c = CHR ''n'' then field_loop v nxt k posix d cons s (upd_last (\<lambda>p. p\<lparr>f_nflg := True\<rparr>) q)
      else if c = CHR ''t'' then
        (case s of
           a # s' \<Rightarrow> field_loop v nxt k posix d cons s' (q\<lparr>p_tabchar := uchar a\<rparr>)
         | [] \<Rightarrow>
             (case nxt of
                Some a \<Rightarrow> field_loop v nxt k posix d True s (q\<lparr>p_tabchar := (case a of [] \<Rightarrow> 0 | x # _ \<Rightarrow> uchar x)\<rparr>)
              | None \<Rightarrow> if v = SUS then None else field_loop v nxt k posix d cons s (q\<lparr>p_tabchar := 0\<rparr>)))
      else if c = CHR ''r'' then
        field_loop v nxt k posix d cons s (q\<lparr>p_fields := butlast (p_fields q) @ [(last (p_fields q))\<lparr>f_rflg := -1\<rparr>]\<rparr>)
      else if c = CHR ''u'' then field_loop v nxt k posix d cons s (q\<lparr>p_uflg := True, p_keys := True\<rparr>)
      else if c = CHR ''.'' then
        field_loop v nxt k posix 2 cons s (upd_last (\<lambda>p. if f_m p ! k = -1 then p\<lparr>f_m := (f_m p)[k := 0]\<rparr> else p) q)
      else if is_digit c then
        (case sort_number (c # s) of
           (n, s') \<Rightarrow>
             (let m = n - posix
              in if m < 0 then
                   if posix \<noteq> 0 \<and> k = 1 \<and> d > 0 \<and> m = -1 then
                     field_loop v nxt k posix d cons s' (upd_last (\<lambda>p. p\<lparr>f_m := (f_m p)[k + d := 0]\<rparr>) q)
                   else None
                 else field_loop v nxt k posix d cons s' (upd_last (\<lambda>p. p\<lparr>f_m := (f_m p)[k + d := m]\<rparr>) q)))
      else None)"
  by pat_completeness auto
termination
proof (relation "measure (\<lambda>(v, nxt, k, posix, d, cons, s, q). length s)", goal_cases)
  case 1
  show ?case by simp
qed (auto simp: sort_number_def less_Suc_eq_le length_dropWhile_le)

declare field_loop.simps(2) [simp del]

definition field :: "variant \<Rightarrow> string \<Rightarrow> string option \<Rightarrow> nat \<Rightarrow> int \<Rightarrow> sortopts \<Rightarrow> (bool \<times> sortopts) option" where
  "field v s nxt k posix q =
     (case field_loop v nxt k posix 0 False s q of
        None \<Rightarrow> None
      | Some (cons, q) \<Rightarrow> Some (cons, q\<lparr>p_fields := butlast (p_fields q) @ [(last (p_fields q))\<lparr>f_posix := posix \<noteq> 0\<rparr>]\<rparr>))"

definition newfield :: "sortopts \<Rightarrow> sortopts" where
  "newfield q = q\<lparr>p_fields := p_fields q @ [proto]\<rparr>"

definition keydef :: "variant \<Rightarrow> string \<Rightarrow> sortopts \<Rightarrow> sortopts option" where
  "keydef v s q =
     (let a = takeWhile (\<lambda>c. c \<noteq> CHR '','') s; r = dropWhile (\<lambda>c. c \<noteq> CHR '','') s
      in case field v a None 0 1 (newfield q) of
           None \<Rightarrow> None
         | Some (cons, q) \<Rightarrow> if r = [] then Some q else map_option snd (field v (tl r) None 1 1 q))"

text \<open>\<open>strtol\<close> with the base 10 and the conversion to \<open>int\<close>.\<close>

definition strtol10 :: "string \<Rightarrow> int \<times> string" where
  "strtol10 s =
     (let w = dropWhile (\<lambda>c. c = CHR '' '' \<or> 9 \<le> uchar c \<and> uchar c \<le> 13) s; t = (if w \<noteq> [] \<and> (hd w = CHR ''-'' \<or> hd w = CHR ''+'') then tl w else w);
          n = int (undecimal (takeWhile is_digit t))
      in if takeWhile is_digit t = [] then (0, s)
         else (if w \<noteq> [] \<and> hd w = CHR ''-'' then max (- n) (- (2 ^ 63)) else min n (2 ^ 63 - 1), dropWhile is_digit t))"

definition to_int :: "int \<Rightarrow> int" where
  "to_int x = (x + 2 ^ 31) mod 2 ^ 32 - 2 ^ 31"

definition setmem :: "string \<Rightarrow> sortopts \<Rightarrow> sortopts option" where
  "setmem s q =
     (case (if s \<noteq> [] then case strtol10 s of (n, x) \<Rightarrow> if x \<noteq> [] then None else Some (to_int (n * 1024)) else Some MAXMEM) of
        None \<Rightarrow> None
      | Some m \<Rightarrow> Some (q\<lparr>p_MEM := (if m < MINMEM then MINMEM else if m > MAXMEM then MAXMEM else m)\<rparr>))"

definition setlinesize :: "string \<Rightarrow> sortopts \<Rightarrow> sortopts option" where
  "setlinesize s q =
     (case strtol10 s of
        (n, x) \<Rightarrow> if s = [] \<or> x \<noteq> [] then None else Some (q\<lparr>p_L := (if to_int n < 128 then 128 else to_int n)\<rparr>))"

text \<open>
  The loop over the arguments.  The left side is a message; the exit status is then 2.
\<close>

definition inval :: "string \<Rightarrow> string" where
  "inval progname = progname @ '': invalid use of command line options'' @ [NL]"

definition or_inval :: "string \<Rightarrow> 'a option \<Rightarrow> string + 'a" where
  "or_inval progname x = (case x of None \<Rightarrow> Inl (inval progname) | Some y \<Rightarrow> Inr y)"

definition first_arg :: "string list \<Rightarrow> string option" where
  "first_arg args = (case args of [] \<Rightarrow> None | a # _ \<Rightarrow> Some a)"

text \<open>An option whose argument may be attached or be the next one: the arguments left and the options.\<close>

definition opt_arg :: "string \<Rightarrow> string list \<Rightarrow> (string \<times> string list) option" where
  "opt_arg r args = (if r \<noteq> [] then Some (r, args) else case args of [] \<Rightarrow> None | a # args' \<Rightarrow> Some (a, args'))"

definition sort_arg :: "variant \<Rightarrow> string \<Rightarrow> string \<Rightarrow> string list \<Rightarrow> sortopts \<Rightarrow> string + string list \<times> sortopts" where
  "sort_arg v progname a args q =
     (let rest = (\<lambda>cons. if cons then tl args else args)
      in case a of
           c # s \<Rightarrow>
             if c = CHR ''-'' then
               (case s of
                  [] \<Rightarrow> Inr (args, q\<lparr>p_eargs := p_eargs q @ [a]\<rparr>)
                | x # r \<Rightarrow>
                    if x = CHR ''k'' then
                      (case opt_arg r args of None \<Rightarrow> Inl (inval progname) | Some (d, args') \<Rightarrow> map_sum id (Pair args') (or_inval progname (keydef v d q)))
                    else if x = CHR ''o'' then
                      (case opt_arg r args of
                         None \<Rightarrow> Inl (progname @ '': can'' @ [CHR 0x27] @ ''t identify output file'' @ [NL])
                       | Some (d, args') \<Rightarrow> Inr (args', q\<lparr>p_outfil := Some d\<rparr>))
                    else if x = CHR ''T'' then (case opt_arg r args of None \<Rightarrow> Inr (args, q) | Some (d, args') \<Rightarrow> Inr (args', q))
                    else if x = CHR ''y'' then map_sum id (Pair args) (or_inval progname (setmem r q))
                    else if x = CHR ''z'' then
                      (case opt_arg r args of None \<Rightarrow> Inl (inval progname) | Some (d, args') \<Rightarrow> map_sum id (Pair args') (or_inval progname (setlinesize d q)))
                    else map_sum id (\<lambda>(cons, q). (rest cons, q))
                           (or_inval progname (field v s (first_arg args) (if length (p_fields q) > 1 then 1 else 0) 0 q)))
             else if c = CHR ''+'' then
               map_sum id (\<lambda>(cons, q). (rest cons, q)) (or_inval progname (field v s (first_arg args) 0 0 (newfield q)))
             else Inr (args, q\<lparr>p_eargs := p_eargs q @ [a]\<rparr>)
         | [] \<Rightarrow> Inr (args, q\<lparr>p_eargs := p_eargs q @ [a]\<rparr>))"

lemma opt_arg_length: "opt_arg r args = Some (d, args') \<Longrightarrow> length args' \<le> length args"
  by (auto simp: opt_arg_def split: if_splits list.splits)

lemma sort_arg_length: "sort_arg v progname a args q = Inr (args', q') \<Longrightarrow> length args' \<le> length args"
  by (auto simp: sort_arg_def Let_def or_inval_def split: list.splits if_splits option.splits dest: opt_arg_length)

function sort_args :: "variant \<Rightarrow> string \<Rightarrow> string list \<Rightarrow> sortopts \<Rightarrow> string + sortopts" where
  "sort_args v progname [] q = Inr q"
| "sort_args v progname (a # args) q =
     (case sort_arg v progname a args q of Inl e \<Rightarrow> Inl e | Inr (args', q') \<Rightarrow> sort_args v progname args' q')"
  by pat_completeness auto
termination
  by (relation "measure (\<lambda>(v, progname, args, q). length args)") (auto dest: sort_arg_length)

text \<open>Keys without flags of their own get those of the whole line.\<close>

definition inherit :: "sfield \<Rightarrow> sfield \<Rightarrow> sfield" where
  "inherit q p =
     (if f_code p = f_code proto \<and> f_ignore p = f_ignore proto \<and> f_nflg p = f_nflg proto \<and> f_rflg p = f_rflg proto \<and>
         f_bflg p ! 0 = f_bflg proto ! 0 \<and> f_bflg p ! 1 = f_bflg proto ! 1 then
        p\<lparr>f_code := f_code q, f_ignore := f_ignore q, f_nflg := f_nflg q, f_rflg := f_rflg q, f_bflg := [f_bflg q ! 0, f_bflg q ! 0]\<rparr>
      else p)"

definition inherit_all :: "sfield list \<Rightarrow> sfield list" where
  "inherit_all fs = (case fs of [] \<Rightarrow> [] | q # ps \<Rightarrow> q # map (inherit q) ps)"

definition opts_cfg :: "sortenv \<Rightarrow> string \<Rightarrow> (int \<Rightarrow> string) \<Rightarrow> bool \<Rightarrow> sortopts \<Rightarrow> sortcfg" where
  "opts_cfg env progname strerror same q =
     \<lparr>g_env = env, g_fl = \<lparr>s_fields = inherit_all (p_fields q), s_tabchar = p_tabchar q, s_uflg = p_uflg q\<rparr>, g_keys = p_keys q,
      g_mflg = p_mflg q, g_cflg = p_cflg q, g_L = nat (p_L q), g_MEM = nat (p_MEM q),
      g_unsafe = (p_mflg q \<and> p_outfil q \<noteq> None \<and> same), g_progname = progname, g_strerror = strerror\<rparr>"

text \<open>
  \<open>main\<close>: the name of the output file, if one is given, and what is written to it or to the standard output.  \<open>files\<close> has the contents of the operands, \<open>same\<close> is whether the output file is one
  of the operands that \<open>safeoutfil\<close> looks at.
\<close>

definition sort_main :: "variant \<Rightarrow> sortenv \<Rightarrow> string \<Rightarrow> (int \<Rightarrow> string) \<Rightarrow> bool \<Rightarrow> (string \<Rightarrow> int + string) \<Rightarrow> string list \<Rightarrow> string option \<times> outcome option" where
  "sort_main v env progname strerror same files args =
     (case sort_args v progname args opts_init of
        Inl e \<Rightarrow> (None, Some \<lparr>out = [], err = e, status = 2\<rparr>)
      | Inr q \<Rightarrow>
          (p_outfil q, sort_run (opts_cfg env progname strerror same q)
             (map (\<lambda>n. (n, files n)) (if p_eargs q = [] then [''-''] else p_eargs q))))"

end
