(* ===== verification/Sortok.thy ===== *)
theory Sortok
  imports Sort
begin

text \<open>
  The correctness of \<open>sort\<close>: the lines that are read are those of the operands, the sorted parts are merged into one, and the output is a sorted arrangement
  of the input, with \<open>-u\<close> of one line from each set of equal ones.
\<close>

section \<open>Reading\<close>

definition sline :: "string \<Rightarrow> bool" where
  "sline l \<longleftrightarrow> (\<exists>b. l = b @ [NL] \<and> NL \<notin> set b)"

text \<open>The lines of a text, with a newline added to the last one if it has none.\<close>

definition file_lines :: "string \<Rightarrow> string list" where
  "file_lines t = map (\<lambda>l. if last l = NL then l else l @ [NL]) (lines_of t)"

definition op_lines :: "operand list \<Rightarrow> string list" where
  "op_lines ops = concat (map (\<lambda>(n, f). case f of Inl e \<Rightarrow> [] | Inr t \<Rightarrow> file_lines t) ops)"

definition readable :: "operand list \<Rightarrow> bool" where
  "readable ops \<longleftrightarrow> (\<forall>(n, f)\<in>set ops. \<exists>t. f = Inr t)"

lemma file_lines_Nil [simp]: "file_lines [] = []"
  by (simp add: file_lines_def)

lemma file_lines_NL: "NL \<notin> set b \<Longrightarrow> file_lines (b @ NL # t) = (b @ [NL]) # file_lines t"
  by (simp add: file_lines_def lines_of_NL)

lemma file_lines_part: "NL \<notin> set b \<Longrightarrow> b \<noteq> [] \<Longrightarrow> file_lines b = [b @ [NL]]"
proof -
  assume b: "NL \<notin> set b" "b \<noteq> []"
  then have "last b \<noteq> NL" by (metis last_in_set)
  with b show ?thesis by (simp add: file_lines_def lines_of_last)
qed

lemma file_lines_sline: "l \<in> set (file_lines t) \<Longrightarrow> sline l"
proof -
  assume "l \<in> set (file_lines t)"
  then obtain k where k: "k \<in> set (lines_of t)" "l = (if last k = NL then k else k @ [NL])" by (auto simp: file_lines_def)
  have n: "k = butlast k @ [last k]" "NL \<notin> set (butlast k)" using lines_of_nonempty [OF k(1)] lines_of_butlast [OF k(1)] by simp_all
  show ?thesis
  proof (cases "last k = NL")
    case True
    then show ?thesis using k(2) n unfolding sline_def by (intro exI [of _ "butlast k"]) (metis (full_types))
  next
    case False
    have "set k = set (butlast k) \<union> {last k}" by (subst n(1)) simp
    then show ?thesis using False k(2) n(2) unfolding sline_def by (intro exI [of _ k]) auto
  qed
qed

text \<open>What is still to be read, when \<open>buf\<close> is the beginning of a line.\<close>

definition pending :: "string \<Rightarrow> rdst \<Rightarrow> string list" where
  "pending buf s = file_lines (buf @ (case r_c s of None \<Rightarrow> [] | Some c \<Rightarrow> [c]) @ r_is s) @ op_lines (r_ops s)"

definition mem_ok :: "smem \<Rightarrow> bool" where
  "mem_ok m \<longleftrightarrow> 0 < k_nlines m \<and> 0 < k_ntext m \<and> k_ntext m = ntext_of (k_MEM m) (k_tsp m) (k_L m) \<and> 128 \<le> k_L m"

definition rd_ok :: "string \<Rightarrow> rdst \<Rightarrow> bool" where
  "rd_ok buf s \<longleftrightarrow> NL \<notin> set buf \<and> (r_c s = None \<longrightarrow> r_is s = []) \<and> readable (r_ops s) \<and> mem_ok (r_mem s) \<and> length buf + 1 < k_L (r_mem s) \<and>
     (r_c s \<noteq> Some NL \<longrightarrow> (incomplete s \<longleftrightarrow> buf \<noteq> []))"

lemma morespace_ok: "mem_ok m \<Longrightarrow> mem_ok (morespace m)" "k_L (morespace m) = k_L m + 128"
  by (auto simp: mem_ok_def morespace_def Let_def ntext_of_def)

lemma mem_init_ok: "128 \<le> g_L g \<Longrightarrow> mem_ok (mem_init g)"
proof -
  assume L: "128 \<le> g_L g"
  let ?m = "max (g_MEM g) ((g_L g + 24 + ALIGN + 1) * 12)"
  let ?n = "(?m - (g_L g + 8 + ALIGN)) div (5 * 8)"
  have space: "n * 40 \<le> m \<Longrightarrow> (L + 32) * 12 \<le> m \<Longrightarrow> 0 < m - n * 8 - L - 8 - 7 - 2" for m n L :: nat
  proof -
    assume "n * 40 \<le> m" "(L + 32) * 12 \<le> m"
    then have "40 * n \<le> m" "12 * L + 384 \<le> m" by simp_all
    then have "8 * n + L + 17 < m" by linarith
    then show ?thesis by simp
  qed
  have m: "(g_L g + 32) * 12 \<le> ?m" by (simp add: ALIGN_def)
  have "40 \<le> ?m - (g_L g + 8 + ALIGN)" using m L by (simp add: ALIGN_def)
  then have "0 < ?n" by (simp add: div_greater_zero_iff)
  moreover have "?n * 40 \<le> ?m" by (simp add: ALIGN_def)
  then have "0 < ntext_of ?m (?n * 8) (g_L g)" using m space unfolding ntext_of_def ALIGN_def by blast
  ultimately show ?thesis using L by (simp add: mem_ok_def mem_init_def Let_def)
qed

lemma rd_getc_fields [simp]:
  "r_ops (rd_getc s) = r_ops s" "r_mem (rd_getc s) = r_mem s" "r_lastc (rd_getc s) = r_lastc s" "incomplete (rd_getc s) = incomplete s"
  "r_err (rd_getc s) = r_err s"
  by (auto simp: rd_getc_def incomplete_def split: list.splits)

lemma rd_getc_text: "(case r_c (rd_getc s) of None \<Rightarrow> [] | Some c \<Rightarrow> [c]) @ r_is (rd_getc s) = r_is s" "r_c (rd_getc s) = None \<longrightarrow> r_is (rd_getc s) = []"
  by (auto simp: rd_getc_def split: list.splits)

text \<open>A state of \<open>sort\<close> behind a line.\<close>

definition line_read :: "string \<Rightarrow> bool \<Rightarrow> rdst \<Rightarrow> string list \<Rightarrow> bool" where
  "line_read l x s ls \<longleftrightarrow> mem_ok (r_mem s) \<and> length l + 1 < k_L (r_mem s) \<and> NL \<notin> set l \<and>
     (if r_c s = None then ls = (if x then [l @ [NL]] else [])
      else r_c s = Some NL \<and> ls = (l @ [NL]) # file_lines (r_is s) @ op_lines (r_ops s) \<and> readable (r_ops s))"

lemma rd_text_ok:
  "rd_ok buf s \<Longrightarrow> \<exists>l x s'. rd_text g buf s = Inr (l, x, s') \<and> line_read l x s' (pending buf s) \<and> k_L (r_mem s) \<le> k_L (r_mem s')"
proof (induction g buf s rule: rd_text.induct)
  case (1 g buf s)
  note ok = "1.prems"
  show ?case
  proof (cases "r_c s")
    case None
    then have is0: "r_is s = []" and inc: "incomplete s \<longleftrightarrow> buf \<noteq> []" using ok by (simp_all add: rd_ok_def)
    show ?thesis
    proof (cases "r_ops s")
      case Nil
      have "pending buf s = (if incomplete s then [buf @ [NL]] else [])"
        using ok None is0 inc Nil by (auto simp: pending_def op_lines_def rd_ok_def file_lines_part)
      then show ?thesis using ok None Nil by (subst rd_text.simps) (auto simp: line_read_def rd_ok_def)
    next
      case (Cons o1 ops)
      then obtain name t where o1: "o1 = (name, Inr t)" using ok by (cases o1) (auto simp: rd_ok_def readable_def)
      have rd: "readable ops" using ok Cons by (simp add: rd_ok_def readable_def)
      let ?s = "s\<lparr>r_is := t, r_f := setfil name, r_ops := ops, r_lastc := None\<rparr>"
      let ?s1 = "?s\<lparr>r_c := Some NL, r_err := r_err s @ addnl g (r_f s)\<rparr>"
      have e: "rd_text g buf s = (if incomplete s then rd_text g buf ?s1 else rd_text g buf (rd_getc ?s))"
        using None Cons o1 by (subst rd_text.simps) (simp add: Let_def)
      show ?thesis
      proof (cases "incomplete s")
        case True
        have "pending buf s = pending buf ?s1"
          using True ok None is0 inc Cons o1 by (simp add: pending_def op_lines_def rd_ok_def file_lines_part file_lines_NL)
        moreover have "rd_ok buf ?s1" using ok rd by (simp add: rd_ok_def)
        ultimately show ?thesis using "1.IH"(1) [OF None Cons o1 [symmetric] refl refl True] True e by simp
      next
        case False
        then have b: "buf = []" using inc by simp
        have "pending buf s = pending buf (rd_getc ?s)"
          using b None is0 Cons o1 rd_getc_text(1) [of ?s] by (simp add: pending_def op_lines_def)
        moreover have "rd_ok buf (rd_getc ?s)" using ok rd b rd_getc_text(2) [of ?s] by (simp add: rd_ok_def incomplete_def)
        ultimately show ?thesis using "1.IH"(2) [OF None Cons o1 [symmetric] refl refl False] False e by simp
      qed
    qed
  next
    case (Some c)
    show ?thesis
    proof (cases "c = NL")
      case True
      then show ?thesis using ok Some by (subst rd_text.simps) (auto simp: line_read_def rd_ok_def pending_def file_lines_NL)
    next
      case False
      let ?s = "if Suc (length buf) \<ge> k_L (r_mem s) - 1 then s\<lparr>r_mem := morespace (r_mem s)\<rparr> else s"
      let ?s1 = "rd_getc (?s\<lparr>r_lastc := Some c\<rparr>)"
      have e: "rd_text g buf s = rd_text g (buf @ [c]) ?s1" using Some False by (subst rd_text.simps) (simp add: Let_def)
      have f: "r_is ?s = r_is s" "r_ops ?s = r_ops s" "k_L (r_mem s) \<le> k_L (r_mem ?s)" "mem_ok (r_mem ?s)" "length buf + 2 < k_L (r_mem ?s)"
        using ok morespace_ok [of "r_mem s"] by (auto simp: rd_ok_def)
      have "pending buf s = pending (buf @ [c]) ?s1" using Some f rd_getc_text(1) [of "?s\<lparr>r_lastc := Some c\<rparr>"] by (simp add: pending_def)
      moreover have "rd_ok (buf @ [c]) ?s1"
        using ok f False rd_getc_text(2) [of "?s\<lparr>r_lastc := Some c\<rparr>"] by (simp add: rd_ok_def incomplete_def)
      ultimately obtain l x s' where "rd_text g (buf @ [c]) ?s1 = Inr (l, x, s')" "line_read l x s' (pending buf s)" "k_L (r_mem ?s1) \<le> k_L (r_mem s')"
        using "1.IH"(3) [OF Some False refl] by auto
      moreover have "k_L (r_mem s) \<le> k_L (r_mem ?s1)" using f(3) by simp
      ultimately show ?thesis using e by auto
    qed
  qed
qed

text \<open>The lines that \<open>sort\<close> has when it stops reading, and the rest.\<close>

definition chunk_read :: "nat \<Rightarrow> string list \<Rightarrow> string list \<Rightarrow> bool \<Rightarrow> rdst \<Rightarrow> bool" where
  "chunk_read L all ls dn s \<longleftrightarrow> all = ls @ (if dn then [] else pending [] s) \<and> (\<not> dn \<longrightarrow> rd_ok [] s) \<and> L \<le> k_L (r_mem s) \<and>
     (\<forall>l\<in>set ls. length l \<le> k_L (r_mem s))"

lemma rd_chunk_ok:
  "rd_ok [] s \<Longrightarrow> \<forall>l\<in>set ls. length l \<le> k_L (r_mem s) \<Longrightarrow>
   \<exists>ls' dn s'. rd_chunk g cp ls s = Inr (ls', dn, s') \<and> chunk_read (k_L (r_mem s)) (ls @ pending [] s) ls' dn s'"
proof (induction g cp ls s rule: rd_chunk.induct)
  case (1 g cp ls s)
  show ?case
  proof (cases "length ls < k_nlines (r_mem s) \<and> cp < k_ntext (r_mem s)")
    case False
    then show ?thesis using "1.prems" by (subst rd_chunk.simps) (auto simp: chunk_read_def)
  next
    case True
    obtain l x s' where r: "rd_text g [] s = Inr (l, x, s')" "line_read l x s' (pending [] s)" "k_L (r_mem s) \<le> k_L (r_mem s')"
      using rd_text_ok [OF "1.prems"(1)] by blast
    have fit: "\<forall>k\<in>set (ls @ [l @ [NL]]). length k \<le> k_L (r_mem s')" using "1.prems"(2) r(2,3) by (fastforce simp: line_read_def)
    show ?thesis
    proof (cases "r_c s'")
      case None
      then show ?thesis using True r fit by (subst rd_chunk.simps) (auto simp: chunk_read_def line_read_def)
    next
      case (Some c)
      let ?s = "rd_getc (s'\<lparr>r_lastc := r_c s'\<rparr>)"
      have p: "pending [] s = (l @ [NL]) # pending [] ?s" "rd_ok [] ?s"
        using r(2) Some rd_getc_text [of "s'\<lparr>r_lastc := r_c s'\<rparr>"] by (auto simp: line_read_def pending_def rd_ok_def incomplete_def mem_ok_def)
      have e: "rd_chunk g cp ls s = rd_chunk g (align cp + 8 + length l + 1) (ls @ [l @ [NL]]) ?s"
        using True r(1) Some by (subst rd_chunk.simps) simp
      obtain ls' dn s'' where h: "rd_chunk g (align cp + 8 + length l + 1) (ls @ [l @ [NL]]) ?s = Inr (ls', dn, s'')"
        "chunk_read (k_L (r_mem ?s)) ((ls @ [l @ [NL]]) @ pending [] ?s) ls' dn s''"
        using "1.IH" [OF True r(1) refl refl] Some p(2) fit by auto
      then have "chunk_read (k_L (r_mem s)) (ls @ pending [] s) ls' dn s''" using p(1) r(3) by (auto simp: chunk_read_def)
      then show ?thesis using e h(1) by auto
    qed
  qed
qed

lemma rd_chunk_progress:
  assumes "rd_ok [] s" "rd_chunk g 0 [] s = Inr (ls, False, s')"
  shows "rd_size s' < rd_size s"
proof -
  have size: "rd_chunk g cp ls s = Inr (ls', dn, s') \<Longrightarrow> rd_size s' \<le> rd_size s" for g cp ls s ls' dn s'
  proof (induction g cp ls s rule: rd_chunk.induct)
    case (1 g cp ls s)
    show ?case
    proof (cases "length ls < k_nlines (r_mem s) \<and> cp < k_ntext (r_mem s)")
      case False
      then show ?thesis using "1.prems" by (subst (asm) rd_chunk.simps) auto
    next
      case True
      obtain l x t where r: "rd_text g [] s = Inr (l, x, t)" using "1.prems" True by (subst (asm) rd_chunk.simps) (auto split: sum.splits)
      have z: "rd_size t \<le> rd_size s" by (rule rd_text_size [OF r])
      show ?thesis
      proof (cases "r_c t")
        case None
        then show ?thesis using "1.prems" True r z by (subst (asm) rd_chunk.simps) auto
      next
        case (Some c)
        have "rd_size s' \<le> rd_size (rd_getc (t\<lparr>r_lastc := r_c t\<rparr>))"
          using "1.IH" [OF True r refl refl] "1.prems" True r Some by (subst (asm) (2) rd_chunk.simps) auto
        also have "\<dots> \<le> rd_size t" using rd_getc_size by metis
        finally show ?thesis using z by simp
      qed
    qed
  qed
  have t: "0 < k_nlines (r_mem s)" "0 < k_ntext (r_mem s)" using assms(1) by (simp_all add: rd_ok_def mem_ok_def)
  then obtain l x t where r: "rd_text g [] s = Inr (l, x, t)" "r_c t \<noteq> None"
    using assms(2) by (subst (asm) rd_chunk.simps) (auto split: sum.splits if_splits)
  then have "rd_chunk g (align 0 + 8 + length l + 1) [l @ [NL]] (rd_getc (t\<lparr>r_lastc := r_c t\<rparr>)) = Inr (ls, False, s')"
    using assms(2) t by (subst (asm) rd_chunk.simps) auto
  from size [OF this] have "rd_size s' \<le> rd_size (rd_getc t)" by (simp add: rd_getc_size(3))
  also have "\<dots> < rd_size t" by (rule rd_getc_size(2) [OF r(2)])
  finally show ?thesis using rd_text_size [OF r(1)] by simp
qed

text \<open>The sort phase cuts the input into parts and sorts each of them.\<close>

lemma sort_phase_ok:
  "rd_ok [] s \<Longrightarrow> \<exists>css s'. (if length temps + length css = 1 then sort_phase g temps s = Some (Inr ([], Some (lines_text (sort_lines g (hd css))), s'))
     else sort_phase g temps s = Some (Inr (temps @ map (\<lambda>ls. lines_text (sort_lines g ls)) css, None, s'))) \<and>
   css \<noteq> [] \<and> concat css = pending [] s \<and> k_L (r_mem s) \<le> k_L (r_mem s') \<and> (\<forall>ls\<in>set css. \<forall>l\<in>set ls. length l \<le> k_L (r_mem s'))"
proof (induction g temps s rule: sort_phase.induct)
  case (1 g temps s)
  obtain ls dn s' where c: "rd_chunk g 0 [] s = Inr (ls, dn, s')" "chunk_read (k_L (r_mem s)) (pending [] s) ls dn s'"
    using rd_chunk_ok [OF "1.prems", of "[]" g 0] by auto
  let ?t = "lines_text (sort_lines g ls)"
  show ?case
  proof (cases dn)
    case True
    then have "sort_phase g temps s = Some (Inr (if temps = [] then ([], Some ?t, s') else (temps @ [?t], None, s')))"
      using c(1) by (subst sort_phase.simps) (simp add: Let_def)
    then show ?thesis using True c(2) by (intro exI [of _ "[ls]"] exI [of _ s']) (auto simp: chunk_read_def)
  next
    case False
    have z: "rd_size s' < rd_size s" using rd_chunk_progress [OF "1.prems"] c(1) False by simp
    have e: "sort_phase g temps s = sort_phase g (temps @ [?t]) s'" using c(1) False z by (subst sort_phase.simps) (simp add: Let_def)
    have ok: "rd_ok [] s'" using c(2) False by (simp add: chunk_read_def)
    obtain css s'' where h: "sort_phase g (temps @ [?t]) s' = Some (Inr ((temps @ [?t]) @ map (\<lambda>ls. lines_text (sort_lines g ls)) css, None, s''))"
      "css \<noteq> []" "concat css = pending [] s'" "k_L (r_mem s') \<le> k_L (r_mem s'')" "\<forall>ls\<in>set css. \<forall>l\<in>set ls. length l \<le> k_L (r_mem s'')"
      using "1.IH" [OF c(1) refl refl refl False z ok] by (auto split: if_splits)
    show ?thesis
      by (rule exI [of _ "ls # css"], rule exI [of _ s'']) (use e h c(2) False in \<open>fastforce simp: chunk_read_def\<close>)
  qed
qed

section \<open>Sorted arrangements\<close>

text \<open>
  \<open>ys\<close> is a sorted arrangement of the lines \<open>ls\<close>: a permutation in order, or with \<open>-u\<close> one line of each set of equal ones in strict order.  (A line stands before those for which
  the comparison with it is positive.)
\<close>

definition lines_in_order :: "sortcfg \<Rightarrow> string list \<Rightarrow> bool" where
  "lines_in_order g ys \<longleftrightarrow> sorted_wrt (\<lambda>x y. if uflg g then compare g x y > 0 else compare g x y \<ge> 0) ys"

definition covers :: "sortcfg \<Rightarrow> string list \<Rightarrow> string list \<Rightarrow> bool" where
  "covers g ls ys \<longleftrightarrow> (if uflg g then set ys \<subseteq> set ls \<and> (\<forall>l\<in>set ls. \<exists>y\<in>set ys. compare g l y = 0) else mset ys = mset ls)"

definition sorted_of :: "sortcfg \<Rightarrow> string list \<Rightarrow> string list \<Rightarrow> bool" where
  "sorted_of g ls ys \<longleftrightarrow> lines_in_order g ys \<and> covers g ls ys"

lemma covers_set: "covers g ls ys \<Longrightarrow> set ys \<subseteq> set ls"
  by (auto simp: covers_def dest: mset_eq_setD split: if_splits)

lemma covers_refl: "line_order (compare g) \<Longrightarrow> covers g ls ls"
proof -
  assume "line_order (compare g)"
  then have "compare g l l = 0" for l by (rule line_order.refl)
  then show ?thesis unfolding covers_def by auto
qed

lemma covers_trans:
  assumes "line_order (compare g)" "covers g xs ys" "covers g ys zs"
  shows "covers g xs zs"
proof (cases "uflg g")
  case True
  have "\<exists>z\<in>set zs. compare g l z = 0" if "l \<in> set xs" for l
  proof -
    obtain y where "y \<in> set ys" "compare g l y = 0" using \<open>l \<in> set xs\<close> assms(2) True unfolding covers_def by (metis (full_types))
    moreover obtain z where "z \<in> set zs" "compare g y z = 0" using calculation(1) assms(3) True unfolding covers_def by (metis (full_types))
    ultimately show ?thesis using line_order.eq_cong(5) [OF assms(1), of l y z] by auto
  qed
  then show ?thesis using True assms(2,3) covers_set by (auto simp: covers_def)
qed (use assms in \<open>simp add: covers_def\<close>)

lemma covers_append: "covers g xs ys \<Longrightarrow> covers g xs' ys' \<Longrightarrow> covers g (xs @ xs') (ys @ ys')"
  by (auto simp: covers_def split: if_splits)

lemma covers_concat: "list_all2 (covers g) xss yss \<Longrightarrow> covers g (concat xss) (concat yss)"
  by (induction xss yss rule: list_all2_induct) (simp_all add: covers_append, simp add: covers_def)

text \<open>The sorter on the lines in memory and on the records of \<open>merge\<close>.\<close>

lemma line_sorter_by:
  assumes "line_order c" "\<And>x. line (zero x) = line x"
  shows "line_sorter (\<lambda>x y. c (line x) (line y)) line zero"
  using line_order_by [OF assms(1), of line] assms(2) by (simp add: line_sorter_def line_sorter_axioms_def)

text \<open>The result of sorting a whole list, in the order in which \<open>sort\<close> writes it.\<close>

lemma quicksort_whole:
  assumes c: "line_order c" and z: "\<And>x. line (zero x) = line x" and P: "\<forall>x\<in>set xs. P x"
    and ys: "ys = quicksort (\<lambda>x y. c (line x) (line y)) u zero 0 (length xs) xs"
  shows "length ys = length xs" "mset (map line ys) = mset (map line xs)"
    "\<And>i j. i < j \<Longrightarrow> j < length ys \<Longrightarrow> c (line (ys ! i)) (line (ys ! j)) \<le> 0"
    "\<And>j. j < length ys \<Longrightarrow> if u \<and> (\<exists>i<j. c (line (ys ! i)) (line (ys ! j)) = 0) then \<exists>e. P e \<and> ys ! j = zero e else P (ys ! j)"
proof -
  have r: "keeps_outside 0 (length xs) xs ys" "mset (map line ys) = mset (map line xs)"
    "qs_res (\<lambda>x y. c (line x) (line y)) line zero P u 0 (length xs) xs ys"
    using line_sorter.quicksort_res [OF line_sorter_by [of c line zero, OF c z], of "length xs" xs 0 P u] P unfolding ys by auto
  show "length ys = length xs" using r(1) by (simp add: keeps_outside_def)
  show "mset (map line ys) = mset (map line xs)" by (rule r(2))
  show "c (line (ys ! i)) (line (ys ! j)) \<le> 0" if "i < j" "j < length ys" for i j
    using qs_res_sorted [OF r(3), of i j] that r(1) by (simp add: keeps_outside_def)
  show "if u \<and> (\<exists>i<j. c (line (ys ! i)) (line (ys ! j)) = 0) then \<exists>e. P e \<and> ys ! j = zero e else P (ys ! j)" if "j < length ys" for j
    using qs_res_marks [OF r(3), of j] that r(1) by (simp add: keeps_outside_def)
qed

text \<open>The elements that keep their size stand for all: equal ones come after one that does.\<close>

lemma first_of_class:
  assumes "line_order c" "j < length ys"
  shows "\<exists>i\<le>j. c (line (ys ! i)) (line (ys ! j)) = 0 \<and> \<not> (\<exists>k<i. c (line (ys ! k)) (line (ys ! i)) = 0)"
proof -
  let ?Q = "\<lambda>i. i \<le> j \<and> c (line (ys ! i)) (line (ys ! j)) = 0"
  have "?Q j" using line_order.refl [OF assms(1)] by simp
  then have l: "?Q (LEAST i. ?Q i)" by (rule LeastI)
  moreover have "\<not> (\<exists>k<(LEAST i. ?Q i). c (line (ys ! k)) (line (ys ! (LEAST i. ?Q i))) = 0)"
  proof
    assume "\<exists>k<(LEAST i. ?Q i). c (line (ys ! k)) (line (ys ! (LEAST i. ?Q i))) = 0"
    then obtain k where k: "k < (LEAST i. ?Q i)" "c (line (ys ! k)) (line (ys ! (LEAST i. ?Q i))) = 0" by blast
    then have "?Q k" using l line_order.eq_cong(2) [OF assms(1), of "line (ys ! (LEAST i. ?Q i))" "line (ys ! j)" "line (ys ! k)"] by auto
    then show False using k(1) not_less_Least by blast
  qed
  ultimately show ?thesis by blast
qed

lemma concat_kept: "\<forall>r\<in>set rs. e_sz r = 0 \<or> e_sz r = length (e_text r) \<Longrightarrow> lines_text rs = concat (map e_text (filter (\<lambda>r. e_sz r \<noteq> 0) rs))"
  by (induction rs) (auto simp: lines_text_def)

lemma sort_lines_ok:
  assumes c: "line_order (compare g)" and ne: "\<forall>l\<in>set ls. l \<noteq> []"
  shows "\<exists>ys. lines_text (sort_lines g ls) = concat ys \<and> sorted_of g ls ys"
proof -
  let ?xs = "map (\<lambda>t. \<lparr>e_text = t, e_sz = length t\<rparr>) ls" and ?z = "\<lambda>r. r\<lparr>e_sz := 0\<rparr> :: lrec"
  let ?P = "\<lambda>r. e_sz r = length (e_text r) \<and> e_text r \<noteq> []"
  define qs where "qs = quicksort (\<lambda>x y. compare g (e_text x) (e_text y)) (uflg g) ?z 0 (length ?xs) ?xs"
  have P: "\<forall>x\<in>set ?xs. ?P x" using ne by auto
  note q = quicksort_whole [where P = ?P and line = e_text and zero = ?z, OF c _ P qs_def, simplified]
  have sl: "sort_lines g ls = rev qs" by (simp add: sort_lines_def qs_def)
  define ks where "ks = filter (\<lambda>r. e_sz r \<noteq> 0) qs"
  have "e_sz r = 0 \<or> e_sz r = length (e_text r)" if "r \<in> set qs" for r
    using that q(4) by (fastforce simp: in_set_conv_nth split: if_splits)
  then have t: "lines_text (sort_lines g ls) = concat (map e_text (rev ks))" unfolding sl ks_def by (subst concat_kept) (auto simp: rev_filter)
  have mq: "mset (map e_text qs) = mset ls" using q(2) by (simp add: comp_def)
  have sw: "compare g x y < 0 \<longleftrightarrow> compare g y x > 0" "compare g x y \<le> 0 \<longleftrightarrow> compare g y x \<ge> 0" for x y
    using line_order.swap [OF c] line_order.le_swap [OF c] by simp_all
  have so: "sorted_wrt (\<lambda>x y. compare g (e_text x) (e_text y) \<le> 0) qs" using q(1,3) by (simp add: sorted_wrt_iff_nth_less)
  show ?thesis
  proof (cases "uflg g")
    case False
    have "r \<in> set qs \<Longrightarrow> e_sz r \<noteq> 0" for r using q(1,4) False by (auto simp: in_set_conv_nth)
    then have "ks = qs" unfolding ks_def by simp
    moreover have "sorted_wrt (\<lambda>x y. compare g x y \<ge> 0) (map e_text (rev qs))" using so by (simp add: sorted_wrt_map sorted_wrt_rev sw)
    ultimately show ?thesis using t mq False
      by (intro exI [of _ "map e_text (rev ks)"]) (simp add: sorted_of_def lines_in_order_def covers_def flip: rev_map)
  next
    case True
    have kept: "e_sz (qs ! j) \<noteq> 0 \<longleftrightarrow> \<not> (\<exists>i<j. compare g (e_text (qs ! i)) (e_text (qs ! j)) = 0)" if "j < length qs" for j
      using q(4) [of j] that q(1) True by (auto split: if_splits)
    have "sorted_wrt (\<lambda>x y. e_sz y \<noteq> 0 \<longrightarrow> compare g (e_text x) (e_text y) < 0) qs"
      unfolding sorted_wrt_iff_nth_less using q(1,3) kept by (metis order_le_less)
    then have "sorted_wrt (\<lambda>x y. e_sz y \<noteq> 0 \<longrightarrow> compare g (e_text x) (e_text y) < 0) ks" unfolding ks_def by (rule sorted_wrt_filter)
    then have "sorted_wrt (\<lambda>x y. compare g (e_text x) (e_text y) < 0) ks" by (rule sorted_wrt_mono_rel [rotated]) (auto simp: ks_def)
    then have o: "lines_in_order g (map e_text (rev ks))" using True by (simp add: lines_in_order_def sorted_wrt_map sorted_wrt_rev sw)
    have sub: "set (map e_text (rev ks)) \<subseteq> set ls" using mset_eq_setD [OF mq] by (auto simp: ks_def)
    have "\<exists>y\<in>set (map e_text (rev ks)). compare g l y = 0" if "l \<in> set ls" for l
    proof -
      have "l \<in> set (map e_text qs)" using that mset_eq_setD [OF mq] by simp
      then obtain j where j: "j < length qs" "l = e_text (qs ! j)" by (auto simp: in_set_conv_nth)
      obtain i where i: "i \<le> j" "compare g (e_text (qs ! i)) (e_text (qs ! j)) = 0" "\<not> (\<exists>k<i. compare g (e_text (qs ! k)) (e_text (qs ! i)) = 0)"
        using first_of_class [OF c j(1), of e_text] by blast
      then have "qs ! i \<in> set ks" using j(1) kept [of i] by (auto simp: ks_def)
      then show ?thesis using i(2) j(2) line_order.eq_sym [OF c] by auto
    qed
    then show ?thesis using t o sub True by (intro exI [of _ "map e_text (rev ks)"]) (auto simp: sorted_of_def covers_def)
  qed
qed

section \<open>Merging\<close>

text \<open>The lines of a file that is being merged: the current one and the rest.\<close>

definition merg_lines :: "merg \<Rightarrow> string list" where
  "merg_lines m = m_l m # lines_of (m_b m)"

definition pool :: "merg list \<Rightarrow> string list" where
  "pool ms = concat (map merg_lines ms)"

definition merg_ok :: "sortcfg \<Rightarrow> nat \<Rightarrow> merg \<Rightarrow> bool" where
  "merg_ok g L m \<longleftrightarrow> m_s m = length (m_l m) \<and> (\<forall>l\<in>set (merg_lines m). sline l \<and> length l \<le> L) \<and> lines_in_order g (merg_lines m)"

lemma sline_props:
  assumes "sline l"
  shows "l \<noteq> []" "lines_of (l @ s) = l # lines_of s" "takeWhile (\<lambda>c. c \<noteq> NL) (l @ s) = butlast l" "dropWhile (\<lambda>c. c \<noteq> NL) (l @ s) = NL # s"
proof -
  obtain b where b: "l = b @ [NL]" "NL \<notin> set b" using assms by (auto simp: sline_def)
  show "l \<noteq> []" by (simp add: b(1))
  show "lines_of (l @ s) = l # lines_of s" using lines_of_NL [OF b(2), of s] by (simp add: b(1))
  show "takeWhile (\<lambda>c. c \<noteq> NL) (l @ s) = butlast l" using takeWhile_neq_append [OF b(2)] by (simp add: b(1))
  have "dropWhile (\<lambda>c. c \<noteq> NL) (b @ NL # s) = NL # s" using b(2) by (induction b) auto
  then show "dropWhile (\<lambda>c. c \<noteq> NL) (l @ s) = NL # s" by (simp add: b(1))
qed

lemma sline_last: "sline l \<Longrightarrow> butlast l @ [NL] = l"
  by (auto simp: sline_def)

lemma lines_of_slines: "\<forall>l\<in>set ls. sline l \<Longrightarrow> lines_of (concat ls) = ls"
  by (induction ls) (simp_all add: sline_props)

text \<open>The next line.\<close>

definition merg_next :: "merg \<Rightarrow> merg" where
  "merg_next m = (case lines_of (m_b m) of [] \<Rightarrow> m | l # ls \<Rightarrow> m\<lparr>m_b := concat ls, m_s := length l, m_l := l\<rparr>)"

lemma rline_ok:
  assumes "\<forall>l\<in>set (lines_of (m_b m)). sline l \<and> length l \<le> L"
  shows "rline g L m = Inr (m_b m = [], if m_b m = [] then m else merg_next m, [])"
    and "lines_of (m_b m) = l # ls \<Longrightarrow> merg_lines (merg_next m) = lines_of (m_b m) \<and> m_s (merg_next m) = length (m_l (merg_next m))"
proof -
  show "merg_lines (merg_next m) = lines_of (m_b m) \<and> m_s (merg_next m) = length (m_l (merg_next m))" if l: "lines_of (m_b m) = l # ls" for l ls
    using l assms lines_of_slines [of ls] by (simp add: merg_next_def merg_lines_def)
  show "rline g L m = Inr (m_b m = [], if m_b m = [] then m else merg_next m, [])"
  proof (cases "lines_of (m_b m)")
    case Nil
    then show ?thesis by (simp add: rline_end)
  next
    case (Cons l ls)
    have b: "m_b m = l @ concat ls" using concat_lines_of [of "m_b m"] unfolding Cons by simp
    have s: "sline l" "length l \<le> L" using assms Cons by simp_all
    have "rline g L m = Inr (False, m\<lparr>m_b := concat ls, m_s := length (butlast l) + 1, m_l := butlast l @ [NL]\<rparr>, [])"
      using rline_line [of m L g] s sline_props [OF s(1)] unfolding b by (cases l) auto
    then show ?thesis using b Cons s sline_last [OF s(1)] sline_props(1) [OF s(1)] by (simp add: merg_next_def)
  qed
qed

definition heads :: "sortcfg \<Rightarrow> merg list \<Rightarrow> bool" where
  "heads g ms \<longleftrightarrow> sorted_wrt (\<lambda>x y. compare g (m_l x) (m_l y) \<ge> 0) ms"

lemma bubble_heads:
  assumes "line_order (compare g)"
  shows "heads g ms \<Longrightarrow> heads g (bubble g (x # ms))"
proof (induction ms arbitrary: x)
  case (Cons y ms)
  have sw: "compare g a b \<ge> 0 \<longleftrightarrow> compare g b a \<le> 0" for a b using line_order.le_swap [OF assms] by simp
  show ?case
  proof (cases "compare g (m_l x) (m_l y) < 0")
    case True
    have "set (bubble g (x # ms)) = set (x # ms)" by (metis mset_bubble set_mset_mset)
    then show ?thesis using Cons True line_order.swap [OF assms, of "m_l x" "m_l y"] by (auto simp: heads_def)
  next
    case False
    then have "compare g (m_l y) (m_l x) \<le> 0" using sw [of "m_l x" "m_l y"] by linarith
    then show ?thesis using Cons.prems False line_order.trans [OF assms, of _ "m_l y" "m_l x"] by (auto simp: heads_def sw)
  qed
qed (simp add: heads_def)

lemma bubble_sorted: "heads g ms \<Longrightarrow> bubble g ms = ms"
  by (cases "(g, ms)" rule: bubble.cases) (auto simp: heads_def)

lemma pool_member: "m \<in> set ms \<Longrightarrow> l \<in> set (merg_lines m) \<Longrightarrow> l \<in> set (pool ms)"
  by (auto simp: pool_def)

lemma pool_mset: "mset ms = mset ns \<Longrightarrow> mset (pool ms) = mset (pool ns)"
proof -
  have "mset (pool ms) = sum_mset (image_mset (mset \<circ> merg_lines) (mset ms))" for ms by (induction ms) (simp_all add: pool_def)
  then show "mset ms = mset ns \<Longrightarrow> mset (pool ms) = mset (pool ns)" by simp
qed

lemma merg_next_ok:
  assumes "merg_ok g L m" "m_b m \<noteq> []"
  shows "merg_ok g L (merg_next m)" "merg_lines m = m_l m # merg_lines (merg_next m)"
proof -
  obtain l ls where l: "lines_of (m_b m) = l # ls" using assms(2) by (metis lines_of_eq_Nil list.exhaust)
  have "\<forall>l\<in>set (lines_of (m_b m)). sline l \<and> length l \<le> L" using assms(1) by (simp add: merg_ok_def merg_lines_def)
  from rline_ok(2) [OF this l] have n: "merg_lines (merg_next m) = lines_of (m_b m)" "m_s (merg_next m) = length (m_l (merg_next m))" by simp_all
  then show "merg_lines m = m_l m # merg_lines (merg_next m)" by (simp add: merg_lines_def [of m])
  show "merg_ok g L (merg_next m)" using assms(1) n by (simp add: merg_ok_def lines_in_order_def merg_lines_def [of m])
qed

lemma merge_next_ok:
  assumes c: "line_order (compare g)" and cf: "\<not> g_cflg g" and ok: "\<forall>m\<in>set (m # ms). merg_ok g L m" and h: "heads g (m # ms)"
    and mu: "mu \<or> mu4 \<Longrightarrow> uflg g \<and> ms = []" "mu4 \<Longrightarrow> p = m_l m"
  shows "\<exists>act' mu' mu4'. merge_next g L (m # ms) p mu mu4 w = Inr (act', mu', mu4', w) \<and> heads g act' \<and> (\<forall>m\<in>set act'. merg_ok g L m) \<and>
    mset (pool (m # ms)) = add_mset (m_l m) (mset (pool act')) \<and> (mu' \<or> mu4' \<longrightarrow> uflg g \<and> length act' \<le> 1)"
proof -
  have fit: "\<forall>l\<in>set (lines_of (m_b m)). sline l \<and> length l \<le> L" using ok by (simp add: merg_ok_def merg_lines_def)
  note r = rline_ok(1) [OF fit, of g]
  have hs: "heads g ms" using h by (simp add: heads_def)
  show ?thesis
  proof (cases "m_b m = []")
    case True
    have p: "pool (m # ms) = m_l m # pool ms" using True by (simp add: pool_def merg_lines_def)
    show ?thesis
    proof (cases "ms = []")
      case e: True
      then show ?thesis using True r p mu(1) by (auto simp: merge_next.simps(2) heads_def)
    next
      case False
      then have "\<not> mu4" "\<not> mu" using mu(1) by auto
      then show ?thesis using True False r p ok hs bubble_sorted [OF hs] by (auto simp: merge_next.simps(2) Let_def)
    qed
  next
    case False
    let ?n = "merg_next m"
    have n: "merg_ok g L ?n" "merg_lines m = m_l m # merg_lines ?n" using merg_next_ok [OF _ False] ok by auto
    let ?act = "bubble g (?n # ms)"
    have a: "heads g ?act" "\<forall>m\<in>set ?act. merg_ok g L m" "mset (pool (m # ms)) = add_mset (m_l m) (mset (pool ?act))" "length ?act = length (?n # ms)"
    proof -
      have m: "mset ?act = mset (?n # ms)" by simp
      show "heads g ?act" by (rule bubble_heads [OF c hs])
      show "\<forall>m\<in>set ?act. merg_ok g L m" using mset_eq_setD [OF m] n(1) ok by auto
      show "length ?act = length (?n # ms)" using mset_eq_length [OF m] .
      show "mset (pool (m # ms)) = add_mset (m_l m) (mset (pool ?act))" using pool_mset [OF m] n(2) by (simp add: pool_def)
    qed
    have j: "compare g (m_l (hd ?act)) p \<noteq> 0" if "mu4"
    proof -
      have e: "ms = []" "uflg g" "p = m_l m" using mu that by auto
      have "lines_in_order g (merg_lines m)" using ok by (simp add: merg_ok_def)
      then have "compare g (m_l m) (m_l ?n) > 0" using n(2) e(2) by (simp add: lines_in_order_def merg_lines_def [of ?n])
      then show ?thesis using e line_order.swap [OF c, of "m_l ?n" "m_l m"] by simp
    qed
    have "merge_next g L (m # ms) p mu mu4 w = Inr (?act, mu, mu4, w)"
      using False r j cf by (simp add: merge_next.simps(2) Let_def)
    then show ?thesis using a mu(1) by auto
  qed
qed

lemma heads_first:
  assumes c: "line_order (compare g)" and ok: "\<forall>m\<in>set (m # ms). merg_ok g L m" and h: "heads g (m # ms)" and x: "x \<in> set (pool (m # ms))"
  shows "compare g (m_l m) x \<ge> 0"
proof -
  have ge: "compare g (m_l n) y \<ge> 0" if "n \<in> set (m # ms)" "y \<in> set (merg_lines n)" for n y
    using ok that line_order.refl [OF c] by (fastforce simp: merg_ok_def lines_in_order_def merg_lines_def split: if_splits)
  obtain n where n: "n \<in> set (m # ms)" "x \<in> set (merg_lines n)" using x by (auto simp: pool_def)
  have "compare g (m_l m) (m_l n) \<ge> 0" using h n(1) line_order.refl [OF c] by (auto simp: heads_def)
  then show ?thesis using ge [OF n] line_order.trans [OF c, of x "m_l n" "m_l m"] line_order.le_swap [OF c] by simp
qed

lemma merge_loop_ok:
  assumes c: "line_order (compare g)" and cf: "\<not> g_cflg g"
  shows "\<forall>m\<in>set act. merg_ok g L m \<Longrightarrow> heads g act \<Longrightarrow> (mu \<or> mu4 \<longrightarrow> uflg g \<and> length act \<le> 1) \<Longrightarrow>
    \<exists>ys. merge_loop g L act p mu mu4 os w = Inr (os @ concat ys, w) \<and> sorted_of g (pool act) ys"
proof (induction "merg_size act" arbitrary: act p mu mu4 os rule: less_induct)
  case less
  show ?case
  proof (cases act)
    case Nil
    then show ?thesis by (intro exI [of _ "[]"]) (simp add: sorted_of_def lines_in_order_def covers_def pool_def)
  next
    case (Cons m ms)
    let ?t = "m_l m"
    have ok: "merg_ok g L m" and okn: "\<forall>m\<in>set (m # ms). merg_ok g L m" and h: "heads g (m # ms)" using less.prems(1,2) Cons by auto
    have t: "take (m_s m) ?t = ?t" "m_s m \<noteq> 0" using ok sline_props(1) by (auto simp: merg_ok_def merg_lines_def)
    have mu: "mu \<or> mu4 \<Longrightarrow> uflg g \<and> ms = []" using less.prems(3) Cons by (cases ms) auto
    let ?p = "if mu \<or> mu4 then ?t else p"
    obtain act' mu' mu4' where n: "merge_next g L (m # ms) ?p mu (mu \<or> mu4) w = Inr (act', mu', mu4', w)" "heads g act'" "\<forall>m\<in>set act'. merg_ok g L m"
      "mset (pool (m # ms)) = add_mset ?t (mset (pool act'))" "mu' \<or> mu4' \<longrightarrow> uflg g \<and> length act' \<le> 1"
      using merge_next_ok [OF c cf okn h, of mu "mu \<or> mu4" ?p w] mu by auto
    let ?pr = "\<not> uflg g \<or> mu \<or> mu4 \<or> ms = [] \<or> compare g ?t (m_l (hd ms)) \<noteq> 0"
    have l: "merge_loop g L act p mu mu4 os w = merge_loop g L act' ?p mu' mu4' (if ?pr then os @ ?t else os) w"
    proof -
      have "(\<not> g_cflg g \<and> (\<not> uflg g \<or> mu \<or> mu4 \<or> m_s m \<noteq> 0 \<and> (ms = [] \<or> compare g ?t (m_l (hd ms)) \<noteq> 0))) = ?pr" using cf t(2) by blast
      then show ?thesis unfolding Cons merge_loop.simps(2) Let_def t(1) n(1) by simp
    qed
    have z: "merg_size act' < merg_size act" using merge_next_size [OF n(1)] Cons by simp
    obtain ys where ys: "merge_loop g L act' ?p mu' mu4' (if ?pr then os @ ?t else os) w = Inr ((if ?pr then os @ ?t else os) @ concat ys, w)"
      "sorted_of g (pool act') ys" using less.hyps [OF z n(3,2,5)] by blast
    have run: "merge_loop g L act p mu mu4 os w = Inr ((if ?pr then os @ ?t else os) @ concat ys, w)" by (rule trans [OF l ys(1)])
    have sp: "set (pool (m # ms)) = insert ?t (set (pool act'))" using n(4) by (metis set_mset_add_mset_insert set_mset_mset)
    have first: "compare g ?t y \<ge> 0" if "y \<in> set ys" for y
      using heads_first [OF c okn h] sp that ys(2) covers_set unfolding sorted_of_def by blast
    show ?thesis
    proof (cases ?pr)
      case True
      have "compare g ?t y > 0" if u: "uflg g" and y: "y \<in> set (pool act')" for y
      proof -
        have "mset (pool act') = mset (lines_of (m_b m) @ pool ms)" using n(4) by (simp add: pool_def merg_lines_def)
        then consider "y \<in> set (lines_of (m_b m))" | "y \<in> set (pool ms)" using y mset_eq_setD by fastforce
        then show ?thesis
        proof cases
          case 1
          then show ?thesis using ok u by (simp add: merg_ok_def lines_in_order_def merg_lines_def)
        next
          case 2
          then obtain n ns where ns: "ms = n # ns" by (cases ms) (auto simp: pool_def)
          have "compare g ?t (m_l n) > 0" using True u mu ns h by (auto simp: heads_def)
          moreover have "compare g (m_l n) y \<ge> 0" using heads_first [OF c, of n ns L y] okn h 2 ns by (auto simp: heads_def)
          ultimately show ?thesis
            using line_order.less_trans2 [OF c, of y "m_l n" ?t] line_order.le_swap [OF c, of y "m_l n"] line_order.swap [OF c] by simp
        qed
      qed
      then have "lines_in_order g (?t # ys)" using first ys(2) covers_set by (fastforce simp: sorted_of_def lines_in_order_def)
      moreover have "covers g (pool (m # ms)) (?t # ys)"
        using ys(2) sp n(4) line_order.refl [OF c] by (auto simp: sorted_of_def covers_def split: if_splits)
      ultimately have "sorted_of g (pool (m # ms)) (?t # ys)" by (simp add: sorted_of_def)
      moreover have "merge_loop g L act p mu mu4 os w = Inr (os @ concat (?t # ys), w)" using run unfolding if_P [OF True] by simp
      ultimately show ?thesis unfolding Cons by blast
    next
      case False
      have u: "uflg g" and e: "compare g ?t (m_l (hd ms)) = 0" and ne: "ms \<noteq> []" using False by auto
      have "mset (pool act') = mset (lines_of (m_b m) @ pool ms)" using n(4) by (simp add: pool_def merg_lines_def)
      then have "set (pool act') = set (lines_of (m_b m) @ pool ms)" by (rule mset_eq_setD)
      moreover have "m_l (hd ms) \<in> set (pool ms)" using ne by (cases ms) (auto simp: pool_def merg_lines_def)
      ultimately have "m_l (hd ms) \<in> set (pool act')" by simp
      then obtain y where "y \<in> set ys" "compare g (m_l (hd ms)) y = 0" using ys(2) u unfolding sorted_of_def covers_def by (metis (full_types))
      then have "\<exists>y\<in>set ys. compare g ?t y = 0" using line_order.eq_cong(5) [OF c e] by auto
      then have "sorted_of g (pool (m # ms)) ys" using ys(2) u sp by (auto simp: sorted_of_def covers_def)
      moreover have "merge_loop g L act p mu mu4 os w = Inr (os @ concat ys, w)" using run unfolding if_not_P [OF False] by simp
      ultimately show ?thesis unfolding Cons by blast
    qed
  qed
qed

text \<open>The beginning of a merge: with \<open>-u\<close>, lines that are equal to the first line of another file are passed over.\<close>

definition refill :: "merg \<Rightarrow> merg list" where
  "refill m = (if m_s m = 0 then if m_b m = [] then [] else [merg_next m] else [m])"

lemma merge_refill_ok:
  "\<forall>m\<in>set ms. \<forall>l\<in>set (lines_of (m_b m)). sline l \<and> length l \<le> L \<Longrightarrow> merge_refill g L ms w = Inr (concat (map refill ms), w)"
  by (induction ms) (auto simp: refill_def rline_ok(1))

lemma covers_same_set: "line_order (compare g) \<Longrightarrow> mset ys = mset xs \<Longrightarrow> covers g xs ys"
proof -
  assume "line_order (compare g)" and m: "mset ys = mset xs"
  then have "compare g l l = 0" for l by (simp add: line_order.refl)
  then show ?thesis using m mset_eq_setD [OF m] unfolding covers_def by auto
qed

lemma merge_start_ok:
  assumes c: "line_order (compare g)"
  shows "\<forall>m\<in>set ms. merg_ok g L m \<Longrightarrow>
    \<exists>ms'. merge_start g L ms w = Inr (ms', w) \<and> (\<forall>m\<in>set ms'. merg_ok g L m) \<and> heads g (rev ms') \<and> covers g (pool ms) (pool ms')"
proof (induction "merg_size ms" arbitrary: ms rule: less_induct)
  case less
  let ?z = "\<lambda>m. m\<lparr>m_s := 0\<rparr> :: merg"
  define qs where "qs = merge_sort g ms"
  have q0: "qs = quicksort (\<lambda>x y. compare g (m_l x) (m_l y)) (uflg g) ?z 0 (length ms) ms" by (simp add: qs_def merge_sort_def)
  note q = quicksort_whole [where P = "merg_ok g L" and line = m_l and zero = ?z, OF c _ less.prems q0, simplified]
  have el: "merg_ok g L m \<or> (\<exists>e. merg_ok g L e \<and> m = ?z e)" if "m \<in> set qs" for m
    using q(1,4) that by (fastforce simp: in_set_conv_nth split: if_splits)
  have kept: "m_s (qs ! j) \<noteq> 0" if "j < length qs" "\<not> (\<exists>i<j. compare g (m_l (qs ! i)) (m_l (qs ! j)) = 0)" for j
    using q(4) [of j] that q(1) sline_props(1) by (auto simp: merg_ok_def merg_lines_def)
  have "mset (map merg_lines qs) = mset (map merg_lines ms)" unfolding q0 by (rule quicksort_mset) (simp_all add: merg_lines_def)
  then have mp: "mset (pool qs) = mset (pool ms)"
    using pool_mset [of qs ms] unfolding pool_def by (metis mset_concat mset_map sum_mset_sum_list)
  have fit: "\<forall>m\<in>set qs. \<forall>l\<in>set (lines_of (m_b m)). sline l \<and> length l \<le> L"
    using el by (fastforce simp: merg_ok_def merg_lines_def)
  have st: "merge_start g L ms w = (if list_ex (\<lambda>m. m_s m = 0) qs then merge_start g L (concat (map refill qs)) w else Inr (qs, w))"
    using merge_refill_ok [OF fit] by (subst merge_start.simps) (simp add: Let_def qs_def)
  show ?case
  proof (cases "list_ex (\<lambda>m. m_s m = 0) qs")
    case False
    have "\<forall>m\<in>set qs. merg_ok g L m" using el False by (fastforce simp: list_ex_iff)
    moreover have "sorted_wrt (\<lambda>x y. compare g (m_l y) (m_l x) \<ge> 0) qs"
      using q(1,3) line_order.le_swap [OF c] by (auto simp: sorted_wrt_iff_nth_less)
    then have "heads g (rev qs)" by (simp add: heads_def sorted_wrt_rev)
    ultimately show ?thesis using st False covers_same_set [OF c mp] by auto
  next
    case True
    let ?ms = "concat (map refill qs)"
    have nx: "merg_ok g L (merg_next m)" "merg_lines (merg_next m) = lines_of (m_b m)" if mq: "m \<in> set qs" "m_b m \<noteq> []" for m
    proof -
      from el [OF mq(1)] obtain e where e: "merg_ok g L e" "m = e \<or> m = ?z e" by blast
      have b: "m_b e \<noteq> []" "m_b e = m_b m" using e(2) mq(2) by auto
      obtain l ls where "lines_of (m_b m) = l # ls" using mq(2) by (metis lines_of_eq_Nil list.exhaust)
      then have n: "merg_next m = merg_next e" using e(2) b(2) by (auto simp: merg_next_def)
      show "merg_ok g L (merg_next m)" "merg_lines (merg_next m) = lines_of (m_b m)"
        using merg_next_ok [OF e(1) b(1)] b(2) unfolding n by (simp_all add: merg_lines_def [of e])
    qed
    have ok: "\<forall>m\<in>set ?ms. merg_ok g L m"
    proof
      fix m assume "m \<in> set ?ms"
      then obtain k where k: "k \<in> set qs" "m \<in> set (refill k)" by auto
      have "merg_ok g L k" if "m_s k \<noteq> 0" using el [OF k(1)] that by auto
      then show "merg_ok g L m" using k nx [OF k(1)] by (auto simp: refill_def split: if_splits)
    qed
    have z: "merg_size ?ms < merg_size ms"
      using merge_refill_size(2) [OF merge_refill_ok [OF fit] True] merge_sort_size [of g ms] by (simp add: qs_def)
    have u: "uflg g"
    proof -
      obtain j where "j < length qs" "m_s (qs ! j) = 0" using True by (auto simp: list_ex_iff in_set_conv_nth)
      then show ?thesis using q(4) [of j] q(1) sline_props(1) by (cases "uflg g") (auto simp: merg_ok_def merg_lines_def)
    qed
    have "\<exists>y\<in>set (pool ?ms). compare g l y = 0" if l: "l \<in> set (pool qs)" for l
    proof -
      obtain m where m: "m \<in> set qs" "l \<in> set (merg_lines m)" using l by (auto simp: pool_def)
      obtain j where j: "j < length qs" "l \<in> set (merg_lines (qs ! j))" using m by (metis in_set_conv_nth)
      show ?thesis
      proof (cases "l \<in> set (pool ?ms)")
        case True
        then show ?thesis using line_order.refl [OF c] by blast
      next
        case False
        have s0: "m_s (qs ! j) = 0" using False j by (auto simp: pool_def refill_def)
        have "l = m_l (qs ! j)"
        proof (rule ccontr)
          assume "l \<noteq> m_l (qs ! j)"
          then have lb: "l \<in> set (lines_of (m_b (qs ! j)))" using j(2) by (simp add: merg_lines_def)
          then have b: "m_b (qs ! j) \<noteq> []" by auto
          have "merg_next (qs ! j) \<in> set ?ms" using s0 b j(1) by (auto simp: refill_def intro!: bexI [of _ "qs ! j"])
          moreover have "l \<in> set (merg_lines (merg_next (qs ! j)))" using lb nx(2) [OF _ b] j(1) by simp
          ultimately show False using False pool_member by blast
        qed
        moreover obtain i where i: "i \<le> j" "compare g (m_l (qs ! i)) (m_l (qs ! j)) = 0" "\<not> (\<exists>k<i. compare g (m_l (qs ! k)) (m_l (qs ! i)) = 0)"
          using first_of_class [OF c j(1), of m_l] by blast
        have "m_l (qs ! i) \<in> set (pool ?ms)" using kept [OF _ i(3)] i(1) j(1) by (auto simp: pool_def refill_def merg_lines_def intro!: bexI [of _ "qs ! i"])
        ultimately show ?thesis using i(2) line_order.eq_sym [OF c] by auto
      qed
    qed
    moreover have "set (pool ?ms) \<subseteq> set (pool qs)"
    proof
      fix l assume "l \<in> set (pool ?ms)"
      then obtain m n where m: "m \<in> set qs" "n \<in> set (refill m)" "l \<in> set (merg_lines n)" by (auto simp: pool_def)
      then have "l \<in> set (merg_lines m)" using nx(2) [OF m(1)] by (auto simp: refill_def merg_lines_def [of m] split: if_splits)
      then show "l \<in> set (pool qs)" by (rule pool_member [OF m(1)])
    qed
    ultimately have cov: "covers g (pool qs) (pool ?ms)" using u by (simp add: covers_def)
    obtain ms' where h: "merge_start g L ?ms w = Inr (ms', w)" "\<forall>m\<in>set ms'. merg_ok g L m" "heads g (rev ms')" "covers g (pool ?ms) (pool ms')"
      using less.hyps [OF z ok] by blast
    have "covers g (pool ms) (pool ms')" using covers_trans [OF c covers_same_set [OF c mp] covers_trans [OF c cov h(4)]] .
    then show ?thesis using st True h by auto
  qed
qed

text \<open>A merge of files that are in order.\<close>

definition sorted_file :: "sortcfg \<Rightarrow> nat \<Rightarrow> operand \<Rightarrow> string list \<Rightarrow> bool" where
  "sorted_file g L f ls \<longleftrightarrow> snd f = Inr (concat ls) \<and> (\<forall>l\<in>set ls. sline l \<and> length l \<le> L) \<and> lines_in_order g ls"

definition merg_of :: "string list \<Rightarrow> merg list" where
  "merg_of ls = (case ls of [] \<Rightarrow> [] | l # ls' \<Rightarrow> [\<lparr>m_b = concat ls', m_s = length l, m_l = l\<rparr>])"

lemma merg_of_ok:
  assumes "\<forall>l\<in>set ls. sline l \<and> length l \<le> L" "lines_in_order g ls"
  shows "\<forall>m\<in>set (merg_of ls). merg_ok g L m" "pool (merg_of ls) = ls"
  using assms lines_of_slines [of "tl ls"] by (auto simp: merg_of_def merg_ok_def merg_lines_def pool_def split: list.splits)

lemma merge_open_ok:
  "list_all2 (sorted_file g L) fs lss \<Longrightarrow> merge_open g L fs ms w = Inr (ms @ concat (map merg_of lss), w)"
proof (induction fs lss arbitrary: ms rule: list_all2_induct)
  case (Cons f fs ls lss)
  obtain name where f: "f = (name, Inr (concat ls))" using Cons.hyps(1) by (cases f) (auto simp: sorted_file_def)
  let ?m = "\<lparr>m_b = concat ls, m_s = 0, m_l = []\<rparr> :: merg"
  have l: "lines_of (concat ls) = ls" using Cons.hyps(1) lines_of_slines by (auto simp: sorted_file_def)
  have fit: "\<forall>l\<in>set (lines_of (m_b ?m)). sline l \<and> length l \<le> L" using Cons.hyps(1) l by (simp add: sorted_file_def)
  have e: "concat ls = [] \<longleftrightarrow> ls = []" using lines_of_eq_Nil [of "concat ls"] l by auto
  have "rline g L ?m = Inr (ls = [], if ls = [] then ?m else merg_next ?m, [])" using rline_ok(1) [OF fit, of g] e by simp
  moreover have "ls \<noteq> [] \<Longrightarrow> [merg_next ?m] = merg_of ls" using l by (auto simp: merg_next_def merg_of_def split: list.splits)
  ultimately show ?case using Cons.IH f by (cases "ls = []") (auto simp: merg_of_def)
qed simp

lemma merge_ok:
  assumes c: "line_order (compare g)" and cf: "\<not> g_cflg g" "\<not> (g_mflg g \<and> uflg g)" and fs: "list_all2 (sorted_file g L) fs lss"
  shows "\<exists>ys. merge g L fs w = Inr (concat ys, w) \<and> sorted_of g (concat lss) ys"
proof -
  let ?ms = "concat (map merg_of lss)"
  have ls: "\<forall>ls\<in>set lss. (\<forall>l\<in>set ls. sline l \<and> length l \<le> L) \<and> lines_in_order g ls"
    using fs by (induction rule: list_all2_induct) (auto simp: sorted_file_def)
  have "merg_ok g L m" if "l \<in> set lss" "m \<in> set (merg_of l)" for l m using ls that merg_of_ok(1) [of l L g] by blast
  then have ok: "\<forall>m\<in>set ?ms. merg_ok g L m" by auto
  have p: "pool ?ms = concat lss" using ls
  proof (induction lss)
    case (Cons ls lss)
    then have "pool (merg_of ls) = ls" using merg_of_ok(2) [of ls L g] by simp
    with Cons show ?case by (simp add: pool_def)
  qed (simp add: pool_def)
  obtain ms where s: "merge_start g L ?ms w = Inr (ms, w)" "\<forall>m\<in>set ms. merg_ok g L m" "heads g (rev ms)" "covers g (concat lss) (pool ms)"
    using merge_start_ok [OF c ok] p by auto
  obtain ys where y: "merge_loop g L (rev ms) [] False False [] w = Inr (concat ys, w)" "sorted_of g (pool (rev ms)) ys"
    using merge_loop_ok [OF c cf(1), of "rev ms" L False False "[]" "[]" w] s(2,3) by auto
  have "covers g (pool ms) (pool (rev ms))" by (rule covers_same_set [OF c pool_mset]) simp
  then have "sorted_of g (concat lss) ys" using covers_trans [OF c covers_trans [OF c s(4)]] y(2) by (auto simp: sorted_of_def)
  moreover have "merge g L fs w = Inr (concat ys, w)"
    using merge_open_ok [OF fs, of "[]" w] s(1) y(1) cf by (cases "g_mflg g") (simp_all add: merge_def)
  ultimately show ?thesis by blast
qed

lemma sorted_of_file:
  assumes "sorted_of g xs ys" "\<forall>l\<in>set xs. sline l \<and> length l \<le> L"
  shows "sorted_file g L (n, Inr (concat ys)) ys"
  using assms covers_set by (fastforce simp: sorted_of_def sorted_file_def)

lemma merge_all_ok:
  assumes c: "line_order (compare g)" and cf: "\<not> g_cflg g" "\<not> (g_mflg g \<and> uflg g)"
  shows "list_all2 (sorted_file g L) fs lss \<Longrightarrow> \<exists>ys. merge_all g L nops fs w = Inr (concat ys, w) \<and> sorted_of g (concat lss) ys"
proof (induction "length fs + nops" arbitrary: fs nops lss w rule: less_induct)
  case less
  show ?case
  proof (cases "N < length fs \<or> g_unsafe g \<and> 0 < nops \<and> fs \<noteq> []")
    case True
    have fs: "list_all2 (sorted_file g L) (take N fs) (take N lss)" "list_all2 (sorted_file g L) (drop N fs) (drop N lss)"
      using less.prems by (simp_all add: list_all2_takeI list_all2_dropI)
    obtain ys where y: "merge g L (take N fs) w = Inr (concat ys, w)" "sorted_of g (concat (take N lss)) ys" using merge_ok [OF c cf fs(1)] by blast
    let ?fs = "drop N fs @ [([], Inr (concat ys))]"
    have e: "merge_all g L nops fs w = merge_all g L (nops - N) ?fs w" using True y(1) by (subst merge_all.simps) simp
    have "\<forall>l\<in>set (concat (take N lss)). sline l \<and> length l \<le> L" using fs(1) by (induction rule: list_all2_induct) (auto simp: sorted_file_def)
    then have "list_all2 (sorted_file g L) ?fs (drop N lss @ [ys])" using fs(2) sorted_of_file [OF y(2)] by (simp add: list_all2_appendI)
    moreover have "length ?fs + (nops - N) < length fs + nops" using True by (auto simp: N_def neq_Nil_conv)
    ultimately obtain zs where z: "merge_all g L (nops - N) ?fs w = Inr (concat zs, w)" "sorted_of g (concat (drop N lss @ [ys])) zs"
      using less.hyps [of ?fs "nops - N" "drop N lss @ [ys]" w] by blast
    have "covers g (concat (drop N lss) @ concat (take N lss)) (concat (drop N lss) @ ys)"
      using covers_append [OF covers_refl [OF c]] y(2) by (simp add: sorted_of_def)
    moreover have "mset (concat lss) = mset (concat (drop N lss) @ concat (take N lss))"
      by (metis append_take_drop_id concat_append mset_append union_commute)
    ultimately have "covers g (concat lss) (concat (drop N lss @ [ys]))" using covers_trans [OF c covers_same_set [OF c]] by (metis concat.simps(1) concat.simps(2) concat_append append_Nil2)
    then have "sorted_of g (concat lss) zs" using z(2) covers_trans [OF c] by (auto simp: sorted_of_def)
    then show ?thesis using e z(1) by auto
  next
    case False
    have e: "merge_all g L nops fs w = (if fs = [] then Inr ([], w) else merge g L fs w)" by (subst merge_all.simps) (simp only: False if_False)
    show ?thesis
    proof (cases "fs = []")
      case True
      then show ?thesis using e less.prems by (intro exI [of _ "[]"]) (auto simp: sorted_of_def lines_in_order_def covers_def)
    next
      case ne: False
      then show ?thesis using e merge_ok [OF c cf less.prems] by simp
    qed
  qed
qed

section \<open>The program\<close>

lemma list_all2_choice: "\<forall>x\<in>set xs. \<exists>y. P x y \<Longrightarrow> \<exists>ys. list_all2 P xs ys"
proof (induction xs)
  case (Cons x xs)
  then obtain y ys where "P x y" "list_all2 P xs ys" by auto
  then show ?case by (intro exI [of _ "y # ys"]) simp
qed (simp add: exI [of _ "[]"])

text \<open>The program behind the options.\<close>

lemma sort_run_ok:
  assumes "line_order (compare g)" and "\<not> g_mflg g" "\<not> g_cflg g" "128 \<le> g_L g" "readable ops"
  shows "\<exists>ys w. sort_run g ops = Some \<lparr>out = concat ys, err = w, status = 0\<rparr> \<and> sorted_of g (op_lines ops) ys"
proof -
  note c = assms(1)
  have "rd_ok [] (rd_init g ops)" using mem_init_ok [OF assms(4)] assms(4,5) by (simp add: rd_ok_def rd_init_def incomplete_def mem_ok_def)
  then obtain css s' where p: "if length css = 1 then sort_phase g [] (rd_init g ops) = Some (Inr ([], Some (lines_text (sort_lines g (hd css))), s'))
     else sort_phase g [] (rd_init g ops) = Some (Inr (map (\<lambda>ls. lines_text (sort_lines g ls)) css, None, s'))"
    "css \<noteq> []" "concat css = pending [] (rd_init g ops)" "\<forall>ls\<in>set css. \<forall>l\<in>set ls. length l \<le> k_L (r_mem s')"
    using sort_phase_ok [of "rd_init g ops" "[]" g] by (simp only: append_Nil list.size(3) add_0) blast
  have all: "concat css = op_lines ops" using p(3) by (simp add: pending_def rd_init_def)
  have sl: "sline l" if "l \<in> set (concat css)" for l
    using that file_lines_sline unfolding all op_lines_def by (fastforce split: sum.splits)
  have part: "\<exists>ys. lines_text (sort_lines g ls) = concat ys \<and> sorted_of g ls ys" if "ls \<in> set css" for ls
    by (rule sort_lines_ok [OF c]) (use that sl sline_props(1) in fastforce)
  show ?thesis
  proof (cases "length css = 1")
    case True
    then obtain ls where ls: "css = [ls]" by (cases css) auto
    obtain ys where "lines_text (sort_lines g ls) = concat ys" "sorted_of g ls ys" using part [of ls] ls by auto
    then show ?thesis using p(1) ls all assms(2,3) by (auto simp: sort_run_def)
  next
    case False
    let ?t = "\<lambda>ls. lines_text (sort_lines g ls)"
    obtain yss where y: "list_all2 (\<lambda>ls ys. ?t ls = concat ys \<and> sorted_of g ls ys) css yss" 
      using list_all2_choice [of css "\<lambda>ls ys. ?t ls = concat ys \<and> sorted_of g ls ys"] part by auto
    have "list_all2 (sorted_file g (k_L (r_mem s'))) (map (\<lambda>ls. ([], Inr (?t ls))) css) yss"
    proof (rule list_all2_all_nthI)
      show "length (map (\<lambda>ls. ([], Inr (?t ls))) css) = length yss" using list_all2_lengthD [OF y] by simp
      show "sorted_file g (k_L (r_mem s')) (map (\<lambda>ls. ([], Inr (?t ls))) css ! n) (yss ! n)" if "n < length (map (\<lambda>ls. ([], Inr (?t ls))) css)" for n
      proof -
        have n: "css ! n \<in> set css" using that by simp
        have "\<forall>l\<in>set (css ! n). sline l \<and> length l \<le> k_L (r_mem s')" using p(4) sl n by auto
        then show ?thesis using that list_all2_nthD [OF y, of n] sorted_of_file [of g "css ! n" "yss ! n" "k_L (r_mem s')" "[]"] by simp
      qed
    qed
    then have "list_all2 (sorted_file g (k_L (r_mem s'))) (map (\<lambda>t. ([], Inr t)) (map ?t css)) yss" by (simp add: comp_def)
    then obtain zs where z: "merge_all g (k_L (r_mem s')) 0 (map (\<lambda>t. ([], Inr t)) (map ?t css)) (r_err s') = Inr (concat zs, r_err s')"
      "sorted_of g (concat yss) zs" using merge_all_ok [OF c, of "k_L (r_mem s')"] assms(2,3) by blast
    have "covers g (concat css) (concat yss)" by (rule covers_concat) (use y in \<open>auto simp: sorted_of_def elim: list_all2_mono\<close>)
    then have "sorted_of g (op_lines ops) zs" using z(2) covers_trans [OF c] all by (auto simp: sorted_of_def)
    then show ?thesis using p(1) False z(1) assms(2,3) by (auto simp: sort_run_def sort_outcome_def)
  qed
qed

end
