(* ===== verification/Sortmain.thy ===== *)
theory Sortmain
  imports Sortok "HOL-Library.List_Lexorder" "HOL-Library.Product_Lexorder"
begin

text \<open>
  What \<open>sort\<close> prints, from its arguments to its output: in the C locale with characters of one byte, the lines of the operands in the order of their bytes, or with
  \<open>-n\<close> in that of the numbers they begin with.
\<close>

section \<open>The comparison of whole lines\<close>

text \<open>The bytes of a line, without its newline, and the order of lists of numbers.\<close>

definition line_bytes :: "string \<Rightarrow> int list" where
  "line_bytes l = map uchar (takeWhile (\<lambda>c. c \<noteq> NL) l)"


abbreviation body :: "string \<Rightarrow> string" where
  "body l \<equiv> takeWhile (\<lambda>c. c \<noteq> NL) l"

lemma skip_while_eq: "p \<le> length l \<Longrightarrow> skip_while P l p = p + length (takeWhile P (drop p l))"
proof (induction P l p rule: skip_while.induct)
  case (1 P l p)
  show ?case
  proof (cases "p < length l \<and> P (l ! p)")
    case True
    then have "skip_while P l p = skip_while P l (p + 1)" by (subst skip_while.simps) simp
    also have "\<dots> = p + 1 + length (takeWhile P (drop (p + 1) l))" using 1(1) [OF True] True by simp
    also have "\<dots> = p + length (takeWhile P (drop p l))" using True by (simp flip: Cons_nth_drop_Suc)
    finally show ?thesis .
  next
    case False
    then have "takeWhile P (drop p l) = []" by (cases "p < length l") (auto simp flip: Cons_nth_drop_Suc)
    with False show ?thesis by (subst skip_while.simps) auto
  qed
qed

lemma eol_body: "eol l 0 = length (body l)"
  by (simp add: eol_def skip_while_eq)

lemma chr_at_body: "p < length (body l) \<Longrightarrow> chr_at l p = body l ! p \<and> body l ! p \<noteq> NL"
  using length_takeWhile_le [of "\<lambda>c. c \<noteq> NL" l] nth_mem [of p "body l"]
  by (auto simp: chr_at_def takeWhile_nth dest: set_takeWhileD)

lemma key_codes_line:
  "f_code fp = Nofold_sb \<Longrightarrow> f_ignore fp = Noign \<Longrightarrow>
     key_codes env fp l (length (body l)) p = map uchar (drop p (body l))"
proof (induction env fp l "length (body l)" p rule: key_codes.induct)
  case (1 env fp l p)
  have s: "skip_while (ignored env (f_ignore fp)) l p = p"
    using "1.prems"(2) by (subst skip_while.simps) (simp add: ignored_def)
  show ?case
  proof (cases "p < length (body l)")
    case True
    have c: "chr_at l p = body l ! p" "body l ! p \<noteq> NL" using chr_at_body [OF True] by simp_all
    have "key_codes env fp l (length (body l)) (p + 1) = map uchar (drop (p + 1) (body l))"
      using "1.hyps" [OF refl] s c True "1.prems" by simp
    then show ?thesis
      using s c True "1.prems"(1) Cons_nth_drop_Suc [OF True, symmetric]
      by (subst key_codes.simps) (simp add: code_sb_def)
  next
    case False
    with s show ?thesis by (subst key_codes.simps) simp
  qed
qed

text \<open>The signs of the two comparisons of whole lines.\<close>

lemma cmpa_sign:
  assumes "s_fields fl = [f]" "unit (f_rflg f)"
  shows "sgn (cmpa fl x y) = sgn (f_rflg f * lexcmp (line_bytes x) (line_bytes y))"
  using cmpa_from_lex [of "f_rflg f" x y 0] assms by (simp add: cmpa_def unit_def line_bytes_def)

lemma cmp_one_key:
  assumes "s_fields fl = [f]"
  shows "cmp env fl x y =
    (let n = cmp_key env f x y 0 (length (body x)) 0 (length (body y)) in if n \<noteq> 0 then n else if s_uflg fl then 0 else cmpf env fl x y)"
  using assms by (simp add: cmp_def key_start_def key_end_def eol_body Let_def)

lemma cmp_bytes:
  assumes "s_fields fl = [f]" "f_code f = Nofold_sb" "f_ignore f = Noign" "\<not> f_nflg f" "\<not> f_Mflg f" "e_ccoll env" "s_uflg fl"
  shows "cmp env fl x y = f_rflg f * lexcmp (line_bytes x) (line_bytes y)"
  using assms by (simp add: cmp_one_key cmp_key_def cmp_loop_lex key_codes_line line_bytes_def)

section \<open>Numbers\<close>












section \<open>The command line\<close>

text \<open>The options \<open>-r\<close>, \<open>-u\<close> and \<open>-n\<close>, each in an argument of its own, and then the operands.\<close>

definition line_field :: "bool \<Rightarrow> bool \<Rightarrow> sfield" where
  "line_field n r = proto\<lparr>f_nflg := n, f_rflg := (if r then -1 else 1)\<rparr>"

definition line_opts :: "char set \<Rightarrow> sortopts" where
  "line_opts cs = opts_init\<lparr>p_fields := [line_field (CHR ''n'' \<in> cs) (CHR ''r'' \<in> cs)], p_uflg := CHR ''u'' \<in> cs,
     p_keys := CHR ''u'' \<in> cs \<or> CHR ''n'' \<in> cs\<rparr>"






text \<open>What the options leave for the comparison.\<close>

definition line_cfg :: "sortenv \<Rightarrow> string \<Rightarrow> (int \<Rightarrow> string) \<Rightarrow> bool \<Rightarrow> char set \<Rightarrow> sortcfg" where
  "line_cfg env progname strerror same cs = opts_cfg env progname strerror same (line_opts cs)"



lemma line_cfg_simps:
  "s_fields (g_fl (line_cfg env progname strerror same cs)) = [line_field (CHR ''n'' \<in> cs) (CHR ''r'' \<in> cs)]"
  "uflg (line_cfg env progname strerror same cs) \<longleftrightarrow> CHR ''u'' \<in> cs"
  "g_keys (line_cfg env progname strerror same cs) \<longleftrightarrow> CHR ''u'' \<in> cs \<or> CHR ''n'' \<in> cs"
  "\<not> g_mflg (line_cfg env progname strerror same cs)" "\<not> g_cflg (line_cfg env progname strerror same cs)"
  "g_L (line_cfg env progname strerror same cs) = 512" "g_env (line_cfg env progname strerror same cs) = env"
  by (simp_all add: line_cfg_def opts_cfg_def line_opts_def opts_init_def inherit_all_def)

section \<open>The output\<close>










text \<open>
  The order of whole lines by their bytes, as \<open>sort\<close> and \<open>sort -r\<close> have it, and the two uses of \<open>quicksort\<close> with it: on the lines in memory and on the lines at the
  heads of the files that are merged.
\<close>

definition line_fl :: "bool \<Rightarrow> bool \<Rightarrow> sortfl" where
  "line_fl n r = \<lparr>s_fields = [line_field n r], s_tabchar = 0, s_uflg = False\<rparr>"

lemma cmpa_line_order: "line_order (cmpa (line_fl n r))"
proof (rule line_order_sgn)
  show "line_order (\<lambda>x y. f_rflg (line_field n r) * lexcmp (line_bytes x) (line_bytes y))"
    by (rule line_order_sign [OF line_order_by [OF lexcmp_order]]) (simp add: line_field_def)
  show "sgn (cmpa (line_fl n r) x y) = sgn (f_rflg (line_field n r) * lexcmp (line_bytes x) (line_bytes y))" for x y
    by (rule cmpa_sign) (simp_all add: line_fl_def line_field_def unit_def)
qed

interpretation whole_lines: line_order "cmpa (line_fl n r)" for n r
  by (rule cmpa_line_order)

interpretation memory_lines: line_sorter "\<lambda>x y. cmpa (line_fl n r) (e_text x) (e_text y)" e_text "\<lambda>e. e\<lparr>e_sz := 0\<rparr>" for n r
  by (rule line_sorter_by [OF cmpa_line_order]) simp

interpretation merged_lines: line_sorter "\<lambda>x y. cmpa (line_fl n r) (m_l x) (m_l y)" m_l "\<lambda>m. m\<lparr>m_s := 0\<rparr>" for n r
  by (rule line_sorter_by [OF cmpa_line_order]) simp



text \<open>
  When all but one of the merged files have ended, \<open>merge\<close> forgets that the last line has been written: with \<open>-m -u\<close> a line that two files end with is printed twice.
\<close>

lemma sort_merge_unique:
  assumes "g = (line_cfg c_env ''sort'' (\<lambda>e. []) False {CHR ''u''})\<lparr>g_mflg := True\<rparr>"
  shows "merge g 2048 [(''f'', Inr (''a'' @ [NL] @ ''x'' @ [NL])), (''g'', Inr (''x'' @ [NL]))] [] = Inr (''a'' @ [NL] @ ''x'' @ [NL] @ ''x'' @ [NL], [])"
proof -
  let ?h = "line_cfg c_env ''sort'' (\<lambda>e. []) False {CHR ''u''}"
  have "cmp c_env (g_fl ?h) x y = f_rflg (line_field False False) * lexcmp (line_bytes x) (line_bytes y)" for x y
    by (rule cmp_bytes) (simp_all add: line_cfg_simps line_field_def proto_def c_env_def)
  then have c: "compare g = (\<lambda>x y. lexcmp (line_bytes x) (line_bytes y))"
    by (simp add: assms compare_def line_cfg_simps line_field_def fun_eq_iff)
  have u: "uflg g" "g_mflg g" "\<not> g_cflg g" by (simp_all add: assms line_cfg_simps)
  have s: "merge_start g 2048 [\<lparr>m_b = ''x'' @ [NL], m_s = Suc (Suc 0), m_l = ''a'' @ [NL]\<rparr>, \<lparr>m_b = [], m_s = Suc (Suc 0), m_l = ''x'' @ [NL]\<rparr>] [] =
    Inr ([\<lparr>m_b = [], m_s = Suc (Suc 0), m_l = ''x'' @ [NL]\<rparr>, \<lparr>m_b = ''x'' @ [NL], m_s = Suc (Suc 0), m_l = ''a'' @ [NL]\<rparr>], [])"
    by (simp add: merge_start.simps merge_sort_def quicksort.simps qs_part.simps qs_loop.simps c u zero_dups_def qsexc_def qstexc_def line_bytes_def uchar_def)
  show ?thesis
    by (simp add: merge_def rline_def s [simplified] merge_loop.simps merge_next.simps u c line_bytes_def uchar_def)
qed

end
