(* ===== verification/Spec2Isabelle.thy ===== *)
theory Spec2Isabelle
  imports Iblok Oblok Getopt Gmatch Cksum Sum Comm Uniq Banner Asciitype Tsort Cut Factor Dirname Test Echo Cal Expand Wc Fgrep Chmod Cmp Tr Diffreg Sortmain
begin

text \<open>
  A verification library for the Heirloom Toolchest, the directory \<open>heirloom\<close> of the repository: reimplementations
  of the traditional Unix utilities on top of a small common library, \<open>libcommon\<close>.

  \<^bold>\<open>The program.\<close>  A utility is one C program, often compiled several times with \<open>SUS\<close> or \<open>UCB\<close> defined.  It takes its
  options with the \<open>getopt\<close> of \<open>libcommon\<close> or with a loop of its own, reads files through the buffered input
  \<open>iblok\<close>, byte by byte (\<open>ib_get\<close>), line by line (\<open>ib_getlin\<close>) or character by character in a multibyte locale
  (\<open>ib_getw\<close>), and writes with \<open>stdio\<close> or the buffered output \<open>oblok\<close>.  The library comes first in the development;
  the utilities are its clients.

  \<^bold>\<open>How the code is modelled.\<close>  Each function of the source is a definition of the same name where HOL allows it.
  A \<open>struct\<close> or the static variables of a file are a record, passed along; \<open>unsigned\<close> arithmetic that wraps around is
  on words (\<open>Cksum\<close>, \<open>Sum\<close>), other integers are unbounded where the code cannot overflow them.  A run of a program
  is an \<open>outcome\<close>: the bytes on standard output and standard error and the exit status.  \<open>exit\<close> in the middle of a
  program is the left side of a sum type or \<open>None\<close>.  Loops are recursive functions with a termination proof.
  The kernel's side of a \<open>read\<close> or \<open>write\<close> is explicit: a descriptor carries the contents of the file and a list of events,
  short counts, interruptions and errors, that the next calls meet.  Functions of the C library that depend on the
  locale or the file system (\<open>mbtowc\<close>, \<open>wcwidth\<close>, \<open>strcoll\<close>, \<open>strtod\<close>, \<open>stat\<close>, \<open>strerror\<close>) are parameters, with the documented
  facts the proofs need as hypotheses, such as \<open>mbtowc_ok\<close>: no character is longer than the bytes it is decoded from.

  \<^bold>\<open>The theories.\<close>

  \<^item> \<open>Prelude\<close>: bytes, C strings, outcomes, descriptors, the interfaces \<open>reader\<close> and \<open>writer\<close> as locales, lists.
    In \<open>reader\<close> a client's input loop is shown to be a fold over the items of the input, in \<open>writer\<close> a sequence of writes
    and a flush to deliver their concatenation.

  \<^item> \<open>Iblok\<close> (\<open>libcommon/ib_*.c\<close>, \<open>iblok.h\<close>): buffered input.  The invariant \<open>ib_wf\<close> relates the buffer to its pointers,
    \<open>ib_rest\<close> is what is still to be read.  The three interpretations \<open>ibc\<close>, \<open>ibl\<close> and \<open>ibw\<close> of \<open>reader\<close> show that bytes, lines
    and multibyte characters are delivered in order, none lost or repeated, whatever the block size and the
    events; \<open>ib_seek\<close> is shown to position the stream.

  \<^item> \<open>Oblok\<close> (\<open>libcommon/oblok.c\<close>, \<open>oblok.h\<close>): buffered output in its three modes and the error mode, an interpretation of \<open>writer\<close>.

  \<^item> \<open>Getopt\<close> (\<open>libcommon/getopt.c\<close>): the option parser with its static state, shown to implement a recursive grammar of the
    command line and to be the inverse of writing options out.

  \<^item> \<open>Gmatch\<close> (\<open>libcommon/gmatch.c\<close>): shell patterns, against a declarative matching relation, and two defects.

  \<^item> \<open>Asciitype\<close> (\<open>libcommon/asciitype.c\<close>, \<open>asciitype.h\<close>): the class table and macros, against the ASCII ranges.

  \<^item> \<open>Stdio\<close>: the conversions of \<open>printf\<close> and of numbers that the utilities use.

  \<^item> \<open>Cksum\<close>, \<open>Sum\<close>: the checksums, against polynomial division over GF(2), residues and a rotating sum; error statuses of \<open>cksum\<close>.

  \<^item> \<open>Comm\<close>, \<open>Uniq\<close>, \<open>Tsort\<close>: programs on sorted or related lines.  The merge of \<open>comm\<close> is proved for any comparison that
    orders lines (the locale \<open>collation\<close>, interpreted for the comparisons of the C locale), and in a single-byte locale its columns are the
    multiset intersection and differences of the files' lines; \<open>uniq\<close> prints one line per maximal group of lines that agree behind the skipped fields;
    \<open>tsort\<close> terminates and prints the items in a topological order exactly if there is one.

  \<^item> \<open>Cut\<close>, \<open>Expand\<close>: programs on characters and columns.  Field selection, the list syntax of \<open>cut\<close>; \<open>expand\<close> against a
    reference, and \<open>unexpand\<close> as preserving what \<open>expand\<close> makes of a text.

  \<^item> \<open>Banner\<close>, \<open>Basename\<close>, \<open>Dirname\<close>, \<open>Echo\<close>, \<open>Test\<close>, \<open>Factor\<close>, \<open>Cal\<close>: programs on their arguments.  Among the properties: conditions
    are evaluated as their syntax tree and a table of file tests say and \<open>test\<close> always ends; the escapes of \<open>echo\<close> write any bytes; \<open>factor\<close> prints the prime factors; \<open>cal\<close> agrees with a
    calendar obtained by counting days, and stays within its buffer.

  \<^item> \<open>Wc\<close>, \<open>Tr\<close>, \<open>Cmp\<close>: filters over whole files.  \<open>wc\<close> against counts of the text, however the input is cut into blocks; the strings of \<open>tr\<close> and its
    tables against a translation of characters by position; \<open>cmp\<close> against a comparison of two byte sequences.  In \<open>Cmp\<close> the memory that \<open>openfile\<close> does not initialise is a
    parameter (\<open>junk\<close>); \<open>Wild\<close> and \<open>Endless\<close> are reads outside a buffer and loops that do not end.

  \<^item> \<open>Fgrep\<close> (\<open>grep/ac.c\<close>, \<open>grep/plist.c\<close>): the automaton of Aho and Corasick, whose matches are occurrences of a pattern.

  \<^item> \<open>Chmod\<close>: symbolic modes against operations on sets of permissions, and the invariant of set-ID bits over the walk of \<open>-R\<close>; the
    answers of the system (\<open>lstat\<close>, \<open>stat\<close>, \<open>chmod\<close>, the entries of directories) are a tree given with each operand.

  \<^item> \<open>Diffcore\<close>, \<open>Difflcs\<close>, \<open>Diffreg\<close> (\<open>diff/diffreg.c\<close>): the comparison of two files.  \<open>Diffcore\<close> has the hashes, Shell's sort (proved to sort and to
    permute), the classes of equal lines and the candidates of Hunt and McIlroy; \<open>Difflcs\<close> shows by an invariant of \<open>stone\<close> that the lines matched
    are a longest common subsequence; \<open>Diffreg\<close> has the check of the matched lines and the output, and shows that the output
    of \<open>diff -n\<close> is a patch from one file to the other.

  \<^item> \<open>Sortqs\<close>, \<open>Sortcmp\<close>, \<open>Sort\<close>, \<open>Sortok\<close>, \<open>Sortmain\<close> (\<open>sort/sort.c\<close>): \<open>sort\<close> in single-byte locales.  \<open>Sortqs\<close> has its quicksort into three parts, proved in the
    locales \<open>line_order\<close> and \<open>line_sorter\<close> (a comparison that orders lines, and elements that are compared by their lines); \<open>Sortcmp\<close> the keys and all comparisons, with the proof
    that each of them is such an order; \<open>Sort\<close> the phases of the program, the reading of lines into a limited memory, the merge of files seven at a time, and the options; \<open>Sortok\<close> the
    proof that for any comparison that is an order the output is a sorted arrangement of the input; \<open>Sortmain\<close> states from the arguments to the output what \<open>sort\<close> prints, and
    interprets the locales for the order of whole lines.

  \<^bold>\<open>Bounds and fuel.\<close>  Only a few definitions count down: \<open>test_sexp\<close> and the functions below it get a fuel of four for each
    argument and four more, enough for the deepest recursion (\<open>Test\<close> proves that it is never used up);
    the loop of \<open>tsort\<close> that prints the items and its depth first search get more fuel than there are nodes, and \<open>Tsort\<close>
    proves that this is enough.  Loops that the code does not bound by itself are partial functions, with \<open>None\<close> for an endless run: \<open>sp_even\<close> of \<open>Expand\<close>, since
    the loop in \<open>spaces\<close> does not end for a negative tab stop; \<open>skip_loop\<close> of \<open>Cmp\<close>, which does not end behind the end of a file; the counting loop for multibyte
    characters in \<open>Wc\<close>, and the loops of \<open>Fgrep\<close> and \<open>unravel_chain\<close> of \<open>Diffcore\<close> over linked nodes; \<open>sort_phase\<close> gives \<open>None\<close> for a round that reads nothing.  The properties of \<open>wc\<close>, \<open>fgrep\<close>, \<open>diff\<close> and \<open>sort\<close> include that they end.

  \<^bold>\<open>What is not modelled.\<close>  Allocation failures, signals, and the failure of writes through \<open>stdio\<close>.  Parts of \<open>libcommon\<close> that only call the
    system (\<open>sfile\<close>, \<open>getdir\<close>, \<open>sigset\<close>, \<open>pathconf\<close>, \<open>utmpx\<close>) and the messages of \<open>pfmt\<close>; the regular expressions in \<open>regexpr\<close> and \<open>libuxre\<close>.
    Multibyte locales in \<open>tr\<close>, \<open>diff\<close> and \<open>sort\<close>, the names of the temporary files of \<open>sort\<close>, context, unified and \<open>-D\<close> output of \<open>diff\<close> and its handling of directories.
    The other utilities, in the first place those that are languages of their own (\<open>nawk\<close>, \<open>oawk\<close>, \<open>sed\<close>, \<open>ed\<close>, \<open>dc\<close>, \<open>bc\<close>), archivers (\<open>cpio\<close>, \<open>tar\<close>) and reports on the
    system (\<open>ps\<close>, \<open>ls\<close>, \<open>who\<close>).  The Bourne shell, the development tools, the documentation tools and the packaging tools
    are separate programs in directories of their own, none of which uses the components above at run time.
\<close>

end
